(* ===== verification/KPrelude.thy ===== *)
theory KPrelude
  imports Main "HOL-Library.Word" "HOL-Library.Multiset" "HOL-Library.Sublist"
begin

text \<open>
  Shared vocabulary of the Kenux kernel model: machine types, C memory regions and
  the copies the kernel makes between them, counted ring buffers read as lists,
  the \<open>for\<close>-loop that searches a table, and the generic runs of queue and stream
  operations that the interfaces of the theory \<open>Interfaces\<close> talk about.
\<close>

unbundle bit_operations_syntax

section \<open>Machine types\<close>

type_synonym u8 = "8 word"
type_synonym u16 = "16 word"
type_synonym u32 = "32 word"
type_synonym u64 = "64 word"

text \<open>
  A region of C memory seen from a pointer is the function from offsets to bytes; a
  pointer argument that may be \<open>NULL\<close> is an option. A fixed C array is a function
  from its index; that an index stays below the array's size is proved where it
  matters, never assumed by the type.
\<close>

type_synonym mem = "nat \<Rightarrow> u8"

named_theorems ring_simps \<open>facts about rings read as lists\<close>
named_theorems kmodel \<open>definitions of the model unfolded in proofs about one operation\<close>

section \<open>Regions and copies\<close>

definition bytes_at :: "(nat \<Rightarrow> 'a) \<Rightarrow> nat \<Rightarrow> nat \<Rightarrow> 'a list" where
  "bytes_at m off n = map (\<lambda>i. m (off + i)) [0..<n]"

text \<open>\<open>memcpy(dst + doff, src + soff, n)\<close> between two distinct objects.\<close>

definition copy_obj :: "(nat \<Rightarrow> 'a) \<Rightarrow> nat \<Rightarrow> (nat \<Rightarrow> 'a) \<Rightarrow> nat \<Rightarrow> nat \<Rightarrow> (nat \<Rightarrow> 'a)" where
  "copy_obj dst doff src soff n =
     (\<lambda>j. if doff \<le> j \<and> j < doff + n then src (soff + (j - doff)) else dst j)"

definition mem_of_list :: "'a::zero list \<Rightarrow> nat \<Rightarrow> 'a" where
  "mem_of_list xs = (\<lambda>i. if i < length xs then xs ! i else 0)"

lemma length_bytes_at [simp]: "length (bytes_at m off n) = n"
  by (simp add: bytes_at_def)

lemma nth_bytes_at [simp]: "i < n \<Longrightarrow> bytes_at m off n ! i = m (off + i)"
  by (simp add: bytes_at_def)

lemma bytes_at_0 [simp]: "bytes_at m off 0 = []"
  by (simp add: bytes_at_def)

lemma bytes_at_Suc: "bytes_at m off (Suc n) = bytes_at m off n @ [m (off + n)]"
  by (simp add: bytes_at_def)

lemma bytes_at_cong: "(\<And>i. i < n \<Longrightarrow> m (off + i) = m' (off' + i)) \<Longrightarrow> bytes_at m off n = bytes_at m' off' n"
  by (simp add: bytes_at_def)

lemma bytes_at_add: "bytes_at m off (n + k) = bytes_at m off n @ bytes_at m (off + n) k"
  by (rule nth_equalityI) (auto simp: nth_append)

lemma take_bytes_at: "k \<le> n \<Longrightarrow> take k (bytes_at m off n) = bytes_at m off k"
  by (rule nth_equalityI) auto

lemma bytes_at_mem_of_list [simp]: "bytes_at (mem_of_list xs) 0 (length xs) = xs"
  by (rule nth_equalityI) (auto simp: mem_of_list_def)

lemma bytes_at_mem_of_list_take: "n \<le> length xs \<Longrightarrow> bytes_at (mem_of_list xs) 0 n = take n xs"
  by (rule nth_equalityI) (auto simp: mem_of_list_def)

lemma copy_obj_in: "doff \<le> j \<Longrightarrow> j < doff + n \<Longrightarrow> copy_obj dst doff src soff n j = src (soff + (j - doff))"
  by (simp add: copy_obj_def)

lemma copy_obj_out: "j < doff \<or> doff + n \<le> j \<Longrightarrow> copy_obj dst doff src soff n j = dst j"
  by (auto simp: copy_obj_def)

lemma copy_obj_0 [simp]: "copy_obj dst doff src soff 0 = dst"
  by (auto simp: copy_obj_def fun_eq_iff)

lemma bytes_at_copy_obj [simp]: "bytes_at (copy_obj dst doff src soff n) doff n = bytes_at src soff n"
  by (rule nth_equalityI) (auto simp: copy_obj_def)

section \<open>Searching a table\<close>

text \<open>
  \<open>for (i = 0; i < n; i++) if (P i) \<dots>\<close> with an early exit at the first hit is
  \<^term>\<open>find P [0..<n]\<close>.
\<close>

definition first_index :: "(nat \<Rightarrow> bool) \<Rightarrow> nat \<Rightarrow> nat option" where
  "first_index P n = find P [0..<n]"

lemma first_index_0 [simp]: "first_index P 0 = None"
  by (simp add: first_index_def)

lemma first_index_Suc:
  "first_index P (Suc n) = (case first_index P n of Some i \<Rightarrow> Some i | None \<Rightarrow> if P n then Some n else None)"
proof -
  have "find P (xs @ [y]) = (case find P xs of Some i \<Rightarrow> Some i | None \<Rightarrow> if P y then Some y else None)"
    for xs :: "nat list" and y
    by (induction xs) auto
  then show ?thesis by (simp add: first_index_def)
qed

lemma first_index_None: "first_index P n = None \<longleftrightarrow> (\<forall>i<n. \<not> P i)"
  by (auto simp: first_index_def find_None_iff)

lemma first_index_SomeD:
  assumes "first_index P n = Some i"
  shows "i < n" and "P i" and "\<forall>j<i. \<not> P j"
  using assms by (auto simp: first_index_def find_Some_iff)

lemma first_index_SomeI: "i < n \<Longrightarrow> P i \<Longrightarrow> \<forall>j<i. \<not> P j \<Longrightarrow> first_index P n = Some i"
  unfolding first_index_def find_Some_iff by (rule exI [of _ i]) auto

lemma first_index_Some: "first_index P n = Some i \<longleftrightarrow> i < n \<and> P i \<and> (\<forall>j<i. \<not> P j)"
  using first_index_SomeD [of P n i] first_index_SomeI [of i n P] by blast

lemma first_index_cong: "(\<And>i. i < n \<Longrightarrow> P i = Q i) \<Longrightarrow> first_index P n = first_index Q n"
  unfolding first_index_def by (rule find_cong) auto

section \<open>Rings\<close>

text \<open>
  The occupied part of a circular buffer of \<open>sz\<close> cells, \<open>n\<close> cells from index \<open>s\<close>.
\<close>

definition ring_list :: "(nat \<Rightarrow> 'a) \<Rightarrow> nat \<Rightarrow> nat \<Rightarrow> nat \<Rightarrow> 'a list" where
  "ring_list buf sz s n = map (\<lambda>i. buf ((s + i) mod sz)) [0..<n]"

lemma length_ring_list [simp]: "length (ring_list buf sz s n) = n"
  by (simp add: ring_list_def)

lemma nth_ring_list [simp]: "i < n \<Longrightarrow> ring_list buf sz s n ! i = buf ((s + i) mod sz)"
  by (simp add: ring_list_def)

lemma ring_list_0 [simp]: "ring_list buf sz s 0 = []"
  by (simp add: ring_list_def)

lemma ring_index_distinct:
  assumes "i < n" and "n < sz"
  shows "(s + i) mod sz \<noteq> (s + n) mod (sz::nat)"
proof
  assume "(s + i) mod sz = (s + n) mod sz"
  then have "sz dvd (s + n) - (s + i)"
    using assms(1) by (metis add_le_cancel_left less_imp_le mod_eq_dvd_iff_nat)
  then have "sz dvd n - i" by simp
  then show False using assms by (auto dest: dvd_imp_le)
qed

lemma ring_list_push:
  assumes "n < sz"
  shows "ring_list (buf((s + n) mod sz := x)) sz s (Suc n) = ring_list buf sz s n @ [x]"
  using assms by (intro nth_equalityI) (auto simp: nth_append less_Suc_eq dest: ring_index_distinct)

lemma ring_list_extend:
  assumes "n + k \<le> sz"
    and "\<And>i. i < k \<Longrightarrow> buf' ((s + n + i) mod sz) = f i"
    and "\<And>i. i < n \<Longrightarrow> buf' ((s + i) mod sz) = buf ((s + i) mod sz)"
  shows "ring_list buf' sz s (n + k) = ring_list buf sz s n @ map f [0..<k]"
proof (rule nth_equalityI)
  fix i assume i: "i < length (ring_list buf' sz s (n + k))"
  show "ring_list buf' sz s (n + k) ! i = (ring_list buf sz s n @ map f [0..<k]) ! i"
  proof (cases "i < n")
    case True
    then show ?thesis using assms(3) i by (simp add: nth_append)
  next
    case False
    then show ?thesis using assms(2) [of "i - n"] i by (simp add: nth_append)
  qed
qed simp

lemma ring_list_pop:
  "s < sz \<Longrightarrow> ring_list buf sz s (Suc n) = buf s # ring_list buf sz ((s + 1) mod sz) n"
  by (rule nth_equalityI) (auto simp: nth_Cons mod_simps split: nat.split)

lemma ring_list_drop:
  "k \<le> n \<Longrightarrow> drop k (ring_list buf sz s n) = ring_list buf sz ((s + k) mod sz) (n - k)"
  by (rule nth_equalityI) (auto simp: mod_simps add.assoc)

lemma ring_list_take: "k \<le> n \<Longrightarrow> take k (ring_list buf sz s n) = ring_list buf sz s k"
  by (rule nth_equalityI) auto

lemma ring_end_advance [ring_simps]:
  assumes "0 < n"
  shows "(Suc s mod sz + n - Suc 0) mod sz = (s + n) mod sz"
    and "(Suc s mod sz + (n - Suc 0)) mod sz = (s + n) mod sz"
proof -
  obtain k where n: "n = Suc k" using assms by (cases n) auto
  show "(Suc s mod sz + n - Suc 0) mod sz = (s + n) mod sz"
    by (simp add: n mod_simps)
  show "(Suc s mod sz + (n - Suc 0)) mod sz = (s + n) mod sz"
    by (simp add: n mod_simps)
qed

text \<open>Block copies into and out of a ring.\<close>

text \<open>The copy into a ring of \<open>sz\<close> cells at \<open>h\<close>, in two pieces when it passes the end.\<close>

definition ring_put :: "(nat \<Rightarrow> 'a) \<Rightarrow> nat \<Rightarrow> nat \<Rightarrow> (nat \<Rightarrow> 'a) \<Rightarrow> nat \<Rightarrow> nat \<Rightarrow> 'a" where
  "ring_put b sz h src l = (if h + l > sz
     then copy_obj (copy_obj b h src 0 (sz - h)) 0 src (sz - h) (l - (sz - h)) else copy_obj b h src 0 l)"

definition ring_get :: "(nat \<Rightarrow> 'a) \<Rightarrow> nat \<Rightarrow> nat \<Rightarrow> (nat \<Rightarrow> 'a) \<Rightarrow> nat \<Rightarrow> nat \<Rightarrow> 'a" where
  "ring_get dst sz s b l = (if s + l > sz
     then copy_obj (copy_obj dst 0 b s (sz - s)) (sz - s) b 0 (l - (sz - s)) else copy_obj dst 0 b s l)"

lemma mod_wrap: "h < sz \<Longrightarrow> i < sz \<Longrightarrow> (h + i) mod sz = (if h + i < sz then h + i else h + i - sz)" for h :: nat
  by (simp add: le_mod_geq)

lemma ring_put_in:
  assumes "h < sz" and "l \<le> sz" and "i < l"
  shows "ring_put b sz h src l ((h + i) mod sz) = src i"
  using assms by (auto simp: mod_wrap ring_put_def copy_obj_def)

lemma ring_put_out:
  assumes "h < sz" and "l \<le> sz" and "j < sz" and "\<forall>i<l. (h + i) mod sz \<noteq> j"
  shows "ring_put b sz h src l j = b j"
proof -
  have "\<not> (h \<le> j \<and> j < h + l)"
  proof
    assume "h \<le> j \<and> j < h + l"
    then have "j - h < l" "(h + (j - h)) mod sz = j" using assms(3) by auto
    with assms(4) show False by blast
  qed
  moreover have "\<not> j < h + l - sz"
  proof
    assume "j < h + l - sz"
    then have "j + sz - h < l" "(h + (j + sz - h)) mod sz = j" using assms(1,3) by auto
    with assms(4) show False by blast
  qed
  ultimately show ?thesis using assms by (auto simp: ring_put_def copy_obj_def)
qed

lemma ring_list_put:
  assumes "s < sz" and "n + l \<le> sz"
  shows "ring_list (ring_put b sz ((s + n) mod sz) src l) sz s (n + l) = ring_list b sz s n @ bytes_at src 0 l"
  unfolding bytes_at_def add_0
proof (rule ring_list_extend)
  have h: "(s + n) mod sz < sz" using assms by simp
  show "ring_put b sz ((s + n) mod sz) src l ((s + n + i) mod sz) = src i" if "i < l" for i
    using ring_put_in [OF h _ that, of b src] assms(2) by (simp add: mod_simps)
  show "ring_put b sz ((s + n) mod sz) src l ((s + i) mod sz) = b ((s + i) mod sz)" if "i < n" for i
  proof (rule ring_put_out [OF h])
    show "\<forall>i'<l. ((s + n) mod sz + i') mod sz \<noteq> (s + i) mod sz"
    proof (intro allI impI)
      fix i' assume "i' < l"
      then show "((s + n) mod sz + i') mod sz \<noteq> (s + i) mod sz"
        using ring_index_distinct [of i "n + i'" sz s] that assms(2)
        by (simp add: mod_simps add.assoc eq_commute)
    qed
  qed (use assms in auto)
qed (use assms in simp)

lemma bytes_at_ring_get:
  assumes "s < sz" and "l \<le> sz"
  shows "bytes_at (ring_get dst sz s b l) 0 l = ring_list b sz s l"
  using assms by (intro nth_equalityI) (auto simp: mod_wrap ring_get_def copy_obj_def add.commute)

text \<open>The first \<open>n\<close> cells of a table, as a list.\<close>

definition table :: "(nat \<Rightarrow> 'a) \<Rightarrow> nat \<Rightarrow> 'a list" where
  "table f n = map f [0..<n]"

lemma length_table [simp]: "length (table f n) = n"
  by (simp add: table_def)

lemma nth_table [simp]: "i < n \<Longrightarrow> table f n ! i = f i"
  by (simp add: table_def)

lemma table_0 [simp]: "table f 0 = []"
  by (simp add: table_def)

lemma table_Suc: "table f (Suc n) = table f n @ [f n]"
  by (simp add: table_def)

lemma table_upd_ge [simp]: "n \<le> k \<Longrightarrow> table (f(k := x)) n = table f n"
  by (rule nth_equalityI) auto

lemma table_upd: "k < n \<Longrightarrow> table (f(k := x)) n = (table f n)[k := x]"
  by (rule nth_equalityI) (auto simp: nth_list_update)

lemma in_set_table: "x \<in> set (table f n) \<longleftrightarrow> (\<exists>i<n. f i = x)"
  by (auto simp: table_def image_iff)

lemma table_cong: "(\<And>i. i < n \<Longrightarrow> f i = g i) \<Longrightarrow> table f n = table g n"
  by (simp add: table_def)

section \<open>Little-endian words\<close>

fun le_word :: "u8 list \<Rightarrow> u64" where
  "le_word [] = 0"
| "le_word (b # bs) = ucast b OR push_bit 8 (le_word bs)"

fun le_bytes :: "nat \<Rightarrow> u64 \<Rightarrow> u8 list" where
  "le_bytes 0 v = []"
| "le_bytes (Suc n) v = ucast v # le_bytes n (drop_bit 8 v)"

lemma length_le_bytes [simp]: "length (le_bytes n v) = n"
  by (induction n v rule: le_bytes.induct) auto

text \<open>Reading what was written gives the bits that were written.\<close>

lemma le_word_bytes [simp]: "le_word (le_bytes n v) = take_bit (8 * n) v"
proof (induction n v rule: le_bytes.induct)
  case (2 n v)
  have "ucast (ucast v :: u8) = take_bit 8 v" by (rule bit_eqI) (auto simp: bit_simps)
  then show ?case unfolding le_bytes.simps le_word.simps 2
    by (intro bit_eqI) (auto simp: bit_simps)
qed simp

section \<open>Runs of queue and stream operations\<close>

text \<open>
  A client of a queue pushes and pops items, a client of a stream writes and reads
  chunks. A run collects what the operations accepted and what they delivered.
\<close>

datatype 'a queue_op = Push 'a | Pop

datatype 'a stream_op = Write "'a list" | Read nat

fun queue_run ::
  "('a \<Rightarrow> 'q \<Rightarrow> 'q option) \<Rightarrow> ('q \<Rightarrow> ('a \<times> 'q) option) \<Rightarrow> 'a queue_op list \<Rightarrow> 'q \<Rightarrow> 'a list \<times> 'a list \<times> 'q"
where
  "queue_run push pop [] q = ([], [], q)"
| "queue_run push pop (Push x # ops) q =
     (case push x q of
        None \<Rightarrow> queue_run push pop ops q
      | Some q' \<Rightarrow> (case queue_run push pop ops q' of (acc, del, r) \<Rightarrow> (x # acc, del, r)))"
| "queue_run push pop (Pop # ops) q =
     (case pop q of
        None \<Rightarrow> queue_run push pop ops q
      | Some (x, q') \<Rightarrow> (case queue_run push pop ops q' of (acc, del, r) \<Rightarrow> (acc, x # del, r)))"

fun stream_run ::
  "('a list \<Rightarrow> 'q \<Rightarrow> nat \<times> 'q) \<Rightarrow> (nat \<Rightarrow> 'q \<Rightarrow> 'a list \<times> 'q) \<Rightarrow> 'a stream_op list \<Rightarrow> 'q \<Rightarrow> 'a list \<times> 'a list \<times> 'q"
where
  "stream_run wr rd [] q = ([], [], q)"
| "stream_run wr rd (Write xs # ops) q =
     (case wr xs q of (n, q') \<Rightarrow>
       (case stream_run wr rd ops q' of (acc, del, r) \<Rightarrow> (take n xs @ acc, del, r)))"
| "stream_run wr rd (Read k # ops) q =
     (case rd k q of (ys, q') \<Rightarrow>
       (case stream_run wr rd ops q' of (acc, del, r) \<Rightarrow> (acc, ys @ del, r)))"

text \<open>A client that makes any calls of a component, with what they result in.\<close>

fun run_calls :: "('c \<Rightarrow> 's \<Rightarrow> 'r \<times> 's) \<Rightarrow> 'c list \<Rightarrow> 's \<Rightarrow> 'r list \<times> 's" where
  "run_calls f [] s = ([], s)"
| "run_calls f (c # cs) s = (case f c s of (r, s') \<Rightarrow> (case run_calls f cs s' of (rs, t) \<Rightarrow> (r # rs, t)))"

end
