(* ===== verification/Interfaces.thy ===== *)
theory Interfaces
  imports KPrelude
begin

text \<open>
  The contracts that several kernel components share: a bounded byte stream (pipes,
  FIFOs, the kfifo of the kernel API), a bounded queue of items (device event queues,
  IPC channels), an append-only table of keyed objects (the
  get calls of System V IPC), a run queue ordered by keys (the scheduler), a component
  that runs for ever (what its steps keep), a store of keys and values (the maps of BPF programs), and a
  component that no client can tell from its specification. Each contract is a locale over an abstraction function
  and an invariant; the components interpret it on their own operations.
\<close>

section \<open>Bounded queues\<close>

text \<open>A queue may refuse an item for its own sake, as a channel refuses a message that is too long.\<close>

locale bounded_queue =
  fixes cap :: nat
    and ok :: "'a \<Rightarrow> bool"
    and inv :: "'q \<Rightarrow> bool"
    and contents :: "'q \<Rightarrow> 'a list"
    and push :: "'a \<Rightarrow> 'q \<Rightarrow> 'q option"
    and pop :: "'q \<Rightarrow> ('a \<times> 'q) option"
  assumes bounded: "inv q \<Longrightarrow> length (contents q) \<le> cap"
    and push_full: "inv q \<Longrightarrow> length (contents q) = cap \<Longrightarrow> push x q = None"
    and push_bad: "inv q \<Longrightarrow> \<not> ok x \<Longrightarrow> push x q = None"
    and push_room: "inv q \<Longrightarrow> ok x \<Longrightarrow> length (contents q) < cap \<Longrightarrow>
        \<exists>q'. push x q = Some q' \<and> inv q' \<and> contents q' = contents q @ [x]"
    and pop_empty: "inv q \<Longrightarrow> contents q = [] \<Longrightarrow> pop q = None"
    and pop_item: "inv q \<Longrightarrow> contents q = x # xs \<Longrightarrow>
        \<exists>q'. pop q = Some (x, q') \<and> inv q' \<and> contents q' = xs"
begin

lemma push_SomeD:
  assumes "inv q" and "push x q = Some q'"
  shows "inv q' \<and> contents q' = contents q @ [x]"
proof -
  have "length (contents q) < cap"
    using assms bounded push_full by (metis le_neq_implies_less option.distinct(1))
  moreover have "ok x" using assms push_bad [of q x] by auto
  ultimately show ?thesis using push_room [OF assms(1), of x] assms(2) by auto
qed

lemma pop_SomeD:
  assumes "inv q" and "pop q = Some (x, q')"
  shows "inv q' \<and> contents q = x # contents q'"
proof (cases "contents q")
  case Nil
  then show ?thesis using assms pop_empty by simp
next
  case (Cons y ys)
  from pop_item [OF assms(1) this] assms(2) Cons show ?thesis by auto
qed

lemma pop_None_iff: "inv q \<Longrightarrow> pop q = None \<longleftrightarrow> contents q = []"
  using pop_empty [of q] pop_item [of q] by (cases "contents q") auto

lemma push_None_iff: "inv q \<Longrightarrow> push x q = None \<longleftrightarrow> \<not> ok x \<or> length (contents q) = cap"
  using push_full [of q x] push_bad [of q x] push_room [of q x] bounded [of q]
  by (cases "length (contents q) = cap"; cases "ok x") auto

lemma run_fifo:
  "inv q \<Longrightarrow> queue_run push pop ops q = (acc, del, r) \<Longrightarrow>
     inv r \<and> contents q @ acc = del @ contents r"
proof (induction ops arbitrary: q acc del r)
  case Nil
  then show ?case by simp
next
  case (Cons p ops)
  show ?case
  proof (cases p)
    case (Push x)
    show ?thesis
    proof (cases "push x q")
      case None
      then show ?thesis using Cons Push by simp
    next
      case (Some q')
      obtain acc' del' r' where run: "queue_run push pop ops q' = (acc', del', r')"
        by (metis prod_cases3)
      note q' = push_SomeD [OF Cons.prems(1) Some]
      from Cons.IH [OF conjunct1 [OF q'] run] Cons.prems(2) Push Some run q'
      show ?thesis by simp
    qed
  next
    case Pop
    show ?thesis
    proof (cases "pop q")
      case None
      then show ?thesis using Cons Pop by simp
    next
      case (Some xq)
      then obtain x q' where pop: "pop q = Some (x, q')" by (cases xq) auto
      obtain acc' del' r' where run: "queue_run push pop ops q' = (acc', del', r')"
        by (metis prod_cases3)
      note q' = pop_SomeD [OF Cons.prems(1) pop]
      from Cons.IH [OF conjunct1 [OF q'] run] Cons.prems(2) Pop pop run q'
      show ?thesis by auto
    qed
  qed
qed

end

section \<open>Bounded byte streams\<close>

locale byte_stream =
  fixes cap :: nat
    and inv :: "'q \<Rightarrow> bool"
    and contents :: "'q \<Rightarrow> 'a list"
    and wr :: "'a list \<Rightarrow> 'q \<Rightarrow> nat \<times> 'q"
    and rd :: "nat \<Rightarrow> 'q \<Rightarrow> 'a list \<times> 'q"
  assumes bounded: "inv q \<Longrightarrow> length (contents q) \<le> cap"
    and wr_law: "inv q \<Longrightarrow> wr xs q = (n, q') \<Longrightarrow>
        inv q' \<and> n = min (length xs) (cap - length (contents q)) \<and>
        contents q' = contents q @ take n xs"
    and rd_law: "inv q \<Longrightarrow> rd k q = (ys, q') \<Longrightarrow>
        inv q' \<and> ys = take k (contents q) \<and> contents q' = drop k (contents q)"
begin

lemma run_stream:
  "inv q \<Longrightarrow> stream_run wr rd ops q = (acc, del, r) \<Longrightarrow>
     inv r \<and> contents q @ acc = del @ contents r"
proof (induction ops arbitrary: q acc del r)
  case Nil
  then show ?case by simp
next
  case (Cons p ops)
  show ?case
  proof (cases p)
    case (Write xs)
    obtain n q' where w: "wr xs q = (n, q')" by force
    obtain acc' del' r' where run: "stream_run wr rd ops q' = (acc', del', r')"
      by (metis prod_cases3)
    from w run Cons.prems(2) Write have eq: "acc = take n xs @ acc'" "del = del'" "r = r'"
      by simp_all
    from wr_law [OF Cons.prems(1) w] have q': "inv q'" "contents q' = contents q @ take n xs"
      by simp_all
    with Cons.IH [OF q'(1) run] show ?thesis unfolding eq by simp
  next
    case (Read k)
    obtain ys q' where d: "rd k q = (ys, q')" by force
    obtain acc' del' r' where run: "stream_run wr rd ops q' = (acc', del', r')"
      by (metis prod_cases3)
    from d run Cons.prems(2) Read have eq: "acc = acc'" "del = ys @ del'" "r = r'"
      by simp_all
    from rd_law [OF Cons.prems(1) d] have q': "inv q'" "contents q = ys @ contents q'"
      by simp_all
    with Cons.IH [OF q'(1) run] show ?thesis unfolding eq by simp
  qed
qed

lemma write_read:
  assumes "inv q" and "wr xs q = (n, q')"
    and "rd (length (contents q) + n) q' = (ys, q'')"
  shows "ys = contents q @ take n xs \<and> contents q'' = []"
  using wr_law [OF assms(1,2)] rd_law [OF _ assms(3)] by auto

end

text \<open>One-byte writes and reads make a bounded queue of a byte stream.\<close>

definition stream_push :: "('a list \<Rightarrow> 'q \<Rightarrow> nat \<times> 'q) \<Rightarrow> 'a \<Rightarrow> 'q \<Rightarrow> 'q option" where
  "stream_push wr x q = (case wr [x] q of (n, q') \<Rightarrow> if n = 0 then None else Some q')"

definition stream_pop :: "(nat \<Rightarrow> 'q \<Rightarrow> 'a list \<times> 'q) \<Rightarrow> 'q \<Rightarrow> ('a \<times> 'q) option" where
  "stream_pop rd q = (case rd 1 q of (ys, q') \<Rightarrow> (case ys of [] \<Rightarrow> None | y # _ \<Rightarrow> Some (y, q')))"

sublocale byte_stream \<subseteq> as_queue: bounded_queue cap "\<lambda>_. True" inv contents "stream_push wr" "stream_pop rd"
proof (unfold_locales, goal_cases)
  case (1 q)
  then show ?case by (rule bounded)
next
  case (2 q x)
  obtain n q' where w: "wr [x] q = (n, q')" by force
  then show ?case using wr_law [OF 2(1) w] 2(2) by (simp add: stream_push_def)
next
  case (3 q x)
  then show ?case by simp
next
  case (4 q x)
  obtain n q' where w: "wr [x] q = (n, q')" by force
  then show ?case using wr_law [OF 4(1) w] 4(3) by (simp add: stream_push_def min_def)
next
  case (5 q)
  obtain ys q' where d: "rd 1 q = (ys, q')" by force
  then show ?case using rd_law [OF 5(1) d] 5(2) by (simp add: stream_pop_def)
next
  case (6 q x xs)
  obtain ys q' where d: "rd 1 q = (ys, q')" by force
  then show ?case using rd_law [OF 6(1) d] 6(2) by (simp add: stream_pop_def)
qed

section \<open>Append-only keyed tables\<close>

text \<open>
  A get call with a public key returns the slot of the first object with that key, or
  appends a fresh object at the end of the table when the key is new and the table has
  room; the objects before it keep their slots and keys.
\<close>

locale key_table =
  fixes max_slots :: nat
    and inv :: "'t \<Rightarrow> bool"
    and keys :: "'t \<Rightarrow> 'k list"
    and get :: "'k \<Rightarrow> 't \<Rightarrow> (nat \<times> 't) option"
    and public :: "'k \<Rightarrow> bool"
  assumes bounded: "inv t \<Longrightarrow> length (keys t) \<le> max_slots"
    and get_old: "inv t \<Longrightarrow> public k \<Longrightarrow> i < length (keys t) \<Longrightarrow> keys t ! i = k \<Longrightarrow>
        \<forall>j<i. keys t ! j \<noteq> k \<Longrightarrow> get k t = Some (i, t)"
    and get_new: "inv t \<Longrightarrow> public k \<Longrightarrow> k \<notin> set (keys t) \<Longrightarrow> length (keys t) < max_slots \<Longrightarrow>
        \<exists>t'. get k t = Some (length (keys t), t') \<and> inv t' \<and> keys t' = keys t @ [k]"
    and get_full: "inv t \<Longrightarrow> public k \<Longrightarrow> k \<notin> set (keys t) \<Longrightarrow> length (keys t) = max_slots \<Longrightarrow>
        get k t = None"
begin

lemma old_index:
  assumes "k \<in> set (keys t)"
  obtains i where "i < length (keys t)" "keys t ! i = k" "\<forall>j<i. keys t ! j \<noteq> k"
proof -
  let ?P = "\<lambda>i. i < length (keys t) \<and> keys t ! i = k"
  from assms have ex: "\<exists>i. ?P i" by (auto simp: in_set_conv_nth)
  show thesis
  proof (rule that)
    show "Least ?P < length (keys t)" and "keys t ! Least ?P = k"
      using LeastI_ex [OF ex] by auto
    show "\<forall>j<Least ?P. keys t ! j \<noteq> k"
      using not_less_Least [of _ ?P] LeastI_ex [OF ex] by (metis (no_types, lifting) less_trans)
  qed
qed

lemma get_result:
  assumes "inv t" and "public k" and "get k t = Some (i, t')"
  shows "inv t' \<and> i < length (keys t') \<and> keys t' ! i = k \<and> (\<forall>j<i. keys t' ! j \<noteq> k) \<and>
         (keys t' = keys t \<or> keys t' = keys t @ [k])"
proof (cases "k \<in> set (keys t)")
  case True
  then obtain j where j: "j < length (keys t)" "keys t ! j = k" "\<forall>l<j. keys t ! l \<noteq> k"
    by (rule old_index)
  then show ?thesis using get_old [OF assms(1,2) j] assms(1,3) by simp
next
  case False
  show ?thesis
  proof (cases "length (keys t) = max_slots")
    case True
    then show ?thesis using get_full [OF assms(1,2) False] assms(3) by simp
  next
    case neq: False
    then have lt: "length (keys t) < max_slots" using bounded [OF assms(1)] by simp
    from get_new [OF assms(1,2) False lt] assms(3)
    have *: "i = length (keys t)" "inv t'" "keys t' = keys t @ [k]" by auto
    then show ?thesis using False by (auto simp: nth_append in_set_conv_nth)
  qed
qed

text \<open>Asking again for a key that was just given finds the same object.\<close>

lemma get_again:
  assumes "inv t" and "public k" and "get k t = Some (i, t')"
  shows "get k t' = Some (i, t')"
  using get_result [OF assms] assms(2) get_old by blast

text \<open>Two public keys never share an object.\<close>

lemma get_distinct:
  assumes "inv t" and "public k" and "public k'" and "k \<noteq> k'"
    and g: "get k t = Some (i, t')" and g': "get k' t' = Some (i', t'')"
  shows "i \<noteq> i' \<and> get k t'' = Some (i, t'')"
proof -
  note r = get_result [OF assms(1,2) g]
  then have "inv t'" by simp
  note r' = get_result [OF \<open>inv t'\<close> assms(3) g']
  have pre: "keys t'' ! j = keys t' ! j" if "j < length (keys t')" for j
    using r' that by (metis nth_append_left)
  have len: "length (keys t') \<le> length (keys t'')" using r' by (metis le_add1 length_append order_refl)
  have i: "i < length (keys t'')" "keys t'' ! i = k" "\<forall>j<i. keys t'' ! j \<noteq> k"
    using r pre len by auto
  then have "i \<noteq> i'" using r' assms(4) by auto
  with i show ?thesis using get_old [of t'' k i] r' assms(2) by simp
qed

end

section \<open>Run queues\<close>

text \<open>
  The run queue of a scheduler: runnable tasks in the order in which they are to run. A task
  is enqueued at the place its key gives it, which the queue may first adjust; picking looks
  at the first task without taking it off.
\<close>

locale run_queue =
  fixes inv :: "'q \<Rightarrow> bool"
    and queue :: "'q \<Rightarrow> 'a list"
    and key :: "'q \<Rightarrow> 'a \<Rightarrow> 'k::linorder"
    and valid :: "'a \<Rightarrow> bool"
    and enq :: "'a \<Rightarrow> 'q \<Rightarrow> 'q option"
    and deq :: "'a \<Rightarrow> 'q \<Rightarrow> 'q option"
    and pick :: "'q \<Rightarrow> 'a option"
  assumes queue_distinct: "inv q \<Longrightarrow> distinct (queue q)"
    and queue_sorted: "inv q \<Longrightarrow> sorted (map (key q) (queue q))"
    and queue_valid: "inv q \<Longrightarrow> a \<in> set (queue q) \<Longrightarrow> valid a"
    and enq_law: "inv q \<Longrightarrow> valid a \<Longrightarrow> \<exists>q'. enq a q = Some q' \<and> inv q' \<and>
        set (queue q') = insert a (set (queue q)) \<and> (\<forall>b. b \<noteq> a \<longrightarrow> key q' b = key q b)"
    and deq_law: "inv q \<Longrightarrow> valid a \<Longrightarrow> \<exists>q'. deq a q = Some q' \<and> inv q' \<and>
        queue q' = remove1 a (queue q) \<and> key q' = key q"
    and pick_law: "inv q \<Longrightarrow> pick q = (case queue q of [] \<Rightarrow> None | a # as \<Rightarrow> Some a)"
begin

lemma pick_min:
  assumes "inv q" and "pick q = Some a"
  shows "a \<in> set (queue q)" and "b \<in> set (queue q) \<Longrightarrow> key q a \<le> key q b"
  using pick_law [OF assms(1)] assms(2) queue_sorted [OF assms(1)] by (auto split: list.splits)

lemma pick_None: "inv q \<Longrightarrow> pick q = None \<longleftrightarrow> queue q = []"
  using pick_law [of q] by (simp split: list.splits)

text \<open>Taking off the picked task again and again runs through the queue in order.\<close>

fun drain :: "nat \<Rightarrow> 'q \<Rightarrow> 'a list \<times> 'q" where
  "drain 0 q = ([], q)"
| "drain (Suc n) q = (case pick q of None \<Rightarrow> ([], q)
     | Some a \<Rightarrow> (case deq a q of None \<Rightarrow> ([], q) | Some q' \<Rightarrow>
         (case drain n q' of (as, q'') \<Rightarrow> (a # as, q''))))"

lemma drain_queue:
  "inv q \<Longrightarrow> n = length (queue q) \<Longrightarrow> \<exists>q'. drain n q = (queue q, q') \<and> inv q' \<and> queue q' = []"
proof (induction n arbitrary: q)
  case (Suc n)
  then obtain a as where q: "queue q = a # as" by (cases "queue q") auto
  obtain q' where d: "deq a q = Some q'" "inv q'" "queue q' = as"
    using deq_law [OF Suc.prems(1), of a] queue_valid [OF Suc.prems(1), of a] q by auto
  have "pick q = Some a" using pick_law [OF Suc.prems(1)] q by simp
  then show ?case using Suc.IH [OF d(2)] d q Suc.prems(2) by auto
qed simp

end

section \<open>Invariants of step relations\<close>

text \<open>A component that runs for ever: what every step keeps, every reachable state has.\<close>

locale kept =
  fixes step :: "'s \<Rightarrow> 's \<Rightarrow> bool"
    and inv :: "'s \<Rightarrow> bool"
  assumes step_keeps: "step s s' \<Longrightarrow> inv s \<Longrightarrow> inv s'"
begin

lemma steps_keep: "step\<^sup>*\<^sup>* s s' \<Longrightarrow> inv s \<Longrightarrow> inv s'"
  by (induction rule: rtranclp_induct) (auto intro: step_keeps)

text \<open>A property of one state that no step undoes while the invariant holds is never undone.\<close>

lemma steps_stable:
  assumes "step\<^sup>*\<^sup>* s s'" and "inv s" and "P s"
    and "\<And>s s'. step s s' \<Longrightarrow> inv s \<Longrightarrow> P s \<Longrightarrow> P s'"
  shows "P s'"
proof -
  have "inv s' \<and> P s'" using assms(1-3) by (induction rule: rtranclp_induct) (auto intro: step_keeps assms(4))
  then show ?thesis ..
qed

end

section \<open>Stores\<close>

text \<open>
  A store that maps keys to values: an update that succeeds changes what its key maps to and
  nothing else.
\<close>

locale map_store =
  fixes inv :: "'s \<Rightarrow> bool"
    and okk :: "'k \<Rightarrow> bool"
    and okv :: "'v \<Rightarrow> bool"
    and look :: "'k \<Rightarrow> 's \<Rightarrow> 'v option"
    and put :: "'k \<Rightarrow> 'v \<Rightarrow> 's \<Rightarrow> 's option"
  assumes put_law: "inv s \<Longrightarrow> okk k \<Longrightarrow> okv v \<Longrightarrow> put k v s = Some s' \<Longrightarrow>
      inv s' \<and> (\<forall>k'. okk k' \<longrightarrow> look k' s' = (if k' = k then Some v else look k' s))"
begin

fun puts :: "('k \<times> 'v) list \<Rightarrow> 's \<Rightarrow> 's option" where
  "puts [] s = Some s"
| "puts ((k, v) # kvs) s = Option.bind (put k v s) (puts kvs)"

text \<open>After updates that all succeed, a key maps to the last value it was given.\<close>

lemma puts_look:
  "inv s \<Longrightarrow> \<forall>(k, v)\<in>set kvs. okk k \<and> okv v \<Longrightarrow> puts kvs s = Some s' \<Longrightarrow> okk k \<Longrightarrow>
     inv s' \<and> look k s' = (case map_of (rev kvs) k of None \<Rightarrow> look k s | Some v \<Rightarrow> Some v)"
proof (induction kvs arbitrary: s)
  case Nil
  then show ?case by simp
next
  case (Cons kv kvs)
  obtain a v where kv: "kv = (a, v)" by (cases kv)
  obtain s1 where s1: "put a v s = Some s1" "puts kvs s1 = Some s'"
    using Cons.prems(3) by (auto simp: kv bind_eq_Some_conv)
  have p: "inv s1 \<and> (\<forall>k'. okk k' \<longrightarrow> look k' s1 = (if k' = a then Some v else look k' s))"
    using put_law [OF Cons.prems(1) _ _ s1(1)] Cons.prems(2) kv by auto
  then have "inv s' \<and> look k s' = (case map_of (rev kvs) k of None \<Rightarrow> look k s1 | Some v \<Rightarrow> Some v)"
    using Cons.IH [of s1] Cons.prems(2,4) s1(2) by auto
  then show ?case using p Cons.prems(4) by (auto simp: kv map_add_def split: option.split)
qed

end

locale map_store_del = map_store inv okk okv look put
  for inv :: "'s \<Rightarrow> bool"
    and okk :: "'k \<Rightarrow> bool"
    and okv :: "'v \<Rightarrow> bool"
    and look :: "'k \<Rightarrow> 's \<Rightarrow> 'v option"
    and put :: "'k \<Rightarrow> 'v \<Rightarrow> 's \<Rightarrow> 's option" +
  fixes del :: "'k \<Rightarrow> 's \<Rightarrow> 's option"
  assumes del_law: "inv s \<Longrightarrow> okk k \<Longrightarrow> del k s = Some s' \<Longrightarrow>
      inv s' \<and> (\<forall>k'. okk k' \<longrightarrow> look k' s' = (if k' = k then None else look k' s))"
    and del_None: "inv s \<Longrightarrow> okk k \<Longrightarrow> del k s = None \<longleftrightarrow> look k s = None"
begin

text \<open>Deleting undoes the insertion of a new key.\<close>

lemma put_del:
  assumes "inv s" and "okk k" and "okv v" and "look k s = None" and "put k v s = Some s1"
  shows "\<exists>s2. del k s1 = Some s2 \<and> inv s2 \<and> (\<forall>k'. okk k' \<longrightarrow> look k' s2 = look k' s)"
proof -
  have p: "inv s1" "\<And>k'. okk k' \<Longrightarrow> look k' s1 = (if k' = k then Some v else look k' s)"
    using put_law [OF assms(1-3,5)] by auto
  then obtain s2 where s2: "del k s1 = Some s2" using del_None [OF p(1) assms(2)] assms(2) by (cases "del k s1") auto
  from del_law [OF p(1) assms(2) s2] p(2) assms(4) show ?thesis using s2 by auto
qed

end

section \<open>Simulation\<close>

text \<open>
  A component against its specification: related states stay related under every call and give the same
  result, so that no client can tell the component from the specification.
\<close>

locale simulation =
  fixes impl :: "'c \<Rightarrow> 's \<Rightarrow> 'r \<times> 's"
    and spec :: "'c \<Rightarrow> 'a \<Rightarrow> 'r \<times> 'a"
    and rel :: "'s \<Rightarrow> 'a \<Rightarrow> bool"
  assumes sim_call: "rel s a \<Longrightarrow> fst (impl c s) = fst (spec c a) \<and> rel (snd (impl c s)) (snd (spec c a))"
begin

lemma sim_calls:
  "rel s a \<Longrightarrow> fst (run_calls impl cs s) = fst (run_calls spec cs a) \<and>
     rel (snd (run_calls impl cs s)) (snd (run_calls spec cs a))"
proof (induction cs arbitrary: s a)
  case (Cons c cs)
  from Cons.IH [of "snd (impl c s)" "snd (spec c a)"] sim_call [OF Cons.prems, of c]
  show ?case by (simp add: case_prod_beta)
qed simp

end

end
