(* ===== verification/Pipes.thy ===== *)
theory Pipes
  imports Interfaces
begin

text \<open>
  Pipes of \<open>kernel/ipc/src/ipc.c\<close>: a circular buffer of \<open>PIPE_BUF_SIZE\<close> bytes with reader
  and writer counts, and the manager that hands pipes out. The spinlocks serialise the
  operations, so each operation is one atomic function on the pipe; a pointer that the
  code tests against \<open>NULL\<close> is an option, and an operation returns its \<open>int\<close> result with
  the objects behind its pointers. The counters \<open>head\<close>, \<open>tail\<close>, \<open>count\<close> are \<open>uint32_t\<close> in
  the code; the invariant \<open>pipe_inv\<close> keeps them at most \<open>PIPE_BUF_SIZE\<close>, so natural numbers
  do not wrap. \<open>readers\<close> and \<open>writers\<close> are plain \<open>int\<close>s that the code decrements unguarded.
\<close>

abbreviation (input) PIPE_BUF_SIZE :: nat where "PIPE_BUF_SIZE \<equiv> 4096"
abbreviation (input) PIPE_MAX :: nat where "PIPE_MAX \<equiv> 1024"

record pipe_t =
  p_buf :: mem
  p_head :: nat
  p_tail :: nat
  p_count :: nat
  p_read_fd :: int
  p_write_fd :: int
  p_readers :: int
  p_writers :: int
  p_nonblocking :: int

definition pipe_zero :: pipe_t where
  "pipe_zero = \<lparr>p_buf = (\<lambda>_. 0), p_head = 0, p_tail = 0, p_count = 0, p_read_fd = 0,
     p_write_fd = 0, p_readers = 0, p_writers = 0, p_nonblocking = 0\<rparr>"

record pipe_manager_t =
  pm_pipes :: "nat \<Rightarrow> pipe_t"
  pm_count :: nat

definition pipe_init :: "pipe_manager_t option \<Rightarrow> pipe_manager_t option" where
  "pipe_init mgr = (case mgr of None \<Rightarrow> None
     | Some _ \<Rightarrow> Some \<lparr>pm_pipes = (\<lambda>_. pipe_zero), pm_count = 0\<rparr>)"

definition pipe_create ::
  "pipe_manager_t option \<Rightarrow> int option \<Rightarrow> int option \<Rightarrow>
     int \<times> pipe_manager_t option \<times> int option \<times> int option" where
  "pipe_create mgr read_fd write_fd =
     (case (mgr, read_fd, write_fd) of
        (Some m, Some _, Some _) \<Rightarrow>
          if pm_count m \<ge> PIPE_MAX then (- 2, mgr, read_fd, write_fd)
          else
            let p = pipe_zero\<lparr>p_read_fd := int (pm_count m) * 2,
                              p_write_fd := int (pm_count m) * 2 + 1,
                              p_readers := 1, p_writers := 1\<rparr>
            in (0, Some (m\<lparr>pm_pipes := (pm_pipes m)(pm_count m := p), pm_count := pm_count m + 1\<rparr>),
                Some (p_read_fd p), Some (p_write_fd p))
      | _ \<Rightarrow> (- 1, mgr, read_fd, write_fd))"

function pipe_read_loop :: "nat \<Rightarrow> nat \<Rightarrow> pipe_t \<Rightarrow> mem \<Rightarrow> nat \<times> pipe_t \<times> mem" where
  "pipe_read_loop n rd p dst =
     (if rd < n \<and> 0 < p_count p
      then pipe_read_loop n (rd + 1)
             (p\<lparr>p_tail := (p_tail p + 1) mod PIPE_BUF_SIZE, p_count := p_count p - 1\<rparr>)
             (dst(rd := p_buf p (p_tail p)))
      else (rd, p, dst))"
  by pat_completeness auto
termination
  by (relation "measure (\<lambda>(n, rd, p, dst). n - rd)") auto

definition pipe_read :: "pipe_t option \<Rightarrow> mem option \<Rightarrow> nat \<Rightarrow> int \<times> pipe_t option \<times> mem option" where
  "pipe_read p buf n =
     (case (p, buf) of
        (Some q, Some dst) \<Rightarrow>
          if p_count q = 0 \<and> p_writers q = 0 then (0, p, buf)
          else (case pipe_read_loop n 0 q dst of (rd, q', dst') \<Rightarrow> (int rd, Some q', Some dst'))
      | _ \<Rightarrow> (- 1, p, buf))"

function pipe_write_loop :: "mem \<Rightarrow> nat \<Rightarrow> nat \<Rightarrow> pipe_t \<Rightarrow> nat \<times> pipe_t" where
  "pipe_write_loop src n written p =
     (if written < n \<and> p_count p < PIPE_BUF_SIZE
      then pipe_write_loop src n (written + 1)
             (p\<lparr>p_buf := (p_buf p)(p_head p := src written),
                p_head := (p_head p + 1) mod PIPE_BUF_SIZE, p_count := p_count p + 1\<rparr>)
      else (written, p))"
  by pat_completeness auto
termination
  by (relation "measure (\<lambda>(src, n, written, p). n - written)") auto

definition pipe_write :: "pipe_t option \<Rightarrow> mem option \<Rightarrow> nat \<Rightarrow> int \<times> pipe_t option" where
  "pipe_write p buf n =
     (case (p, buf) of
        (Some q, Some src) \<Rightarrow>
          if p_readers q = 0 then (- 1, p)
          else (case pipe_write_loop src n 0 q of (written, q') \<Rightarrow> (int written, Some q'))
      | _ \<Rightarrow> (- 1, p))"

definition pipe_close_read :: "pipe_t option \<Rightarrow> int \<times> pipe_t option" where
  "pipe_close_read p = (case p of None \<Rightarrow> (- 1, None)
     | Some q \<Rightarrow> (0, Some (q\<lparr>p_readers := p_readers q - 1\<rparr>)))"

definition pipe_close_write :: "pipe_t option \<Rightarrow> int \<times> pipe_t option" where
  "pipe_close_write p = (case p of None \<Rightarrow> (- 1, None)
     | Some q \<Rightarrow> (0, Some (q\<lparr>p_writers := p_writers q - 1\<rparr>)))"

declare pipe_read_loop.simps [simp del] pipe_write_loop.simps [simp del]

section \<open>Invariant and abstraction\<close>

definition pipe_inv :: "pipe_t \<Rightarrow> bool" where
  "pipe_inv p \<longleftrightarrow> p_tail p < PIPE_BUF_SIZE \<and> p_count p \<le> PIPE_BUF_SIZE \<and>
     p_head p = (p_tail p + p_count p) mod PIPE_BUF_SIZE"

definition pipe_contents :: "pipe_t \<Rightarrow> u8 list" where
  "pipe_contents p = ring_list (p_buf p) PIPE_BUF_SIZE (p_tail p) (p_count p)"

text \<open>Everything of a pipe but its ring: what reading and writing leave alone.\<close>

definition pipe_ends :: "pipe_t \<Rightarrow> int \<times> int \<times> int \<times> int \<times> int" where
  "pipe_ends p = (p_read_fd p, p_write_fd p, p_readers p, p_writers p, p_nonblocking p)"

lemma length_pipe_contents [simp]: "length (pipe_contents p) = p_count p"
  by (simp add: pipe_contents_def)

lemma pipe_inv_head: "pipe_inv p \<Longrightarrow> p_head p < PIPE_BUF_SIZE"
  by (simp add: pipe_inv_def)

lemma pipe_put_byte:
  assumes "pipe_inv p" and "p_count p < PIPE_BUF_SIZE"
  shows "pipe_inv (p\<lparr>p_buf := (p_buf p)(p_head p := b), p_head := (p_head p + 1) mod PIPE_BUF_SIZE,
            p_count := p_count p + 1\<rparr>)"
    and "pipe_contents (p\<lparr>p_buf := (p_buf p)(p_head p := b), p_head := (p_head p + 1) mod PIPE_BUF_SIZE,
            p_count := p_count p + 1\<rparr>) = pipe_contents p @ [b]"
  using assms ring_list_push [of "p_count p" PIPE_BUF_SIZE "p_buf p" "p_tail p" b]
  by (auto simp: pipe_inv_def pipe_contents_def mod_simps)

lemma pipe_take_byte:
  assumes "pipe_inv p" and "0 < p_count p"
  shows "pipe_inv (p\<lparr>p_tail := (p_tail p + 1) mod PIPE_BUF_SIZE, p_count := p_count p - 1\<rparr>)"
    and "pipe_contents p = p_buf p (p_tail p) #
           pipe_contents (p\<lparr>p_tail := (p_tail p + 1) mod PIPE_BUF_SIZE, p_count := p_count p - 1\<rparr>)"
  using assms ring_list_pop [of "p_tail p" PIPE_BUF_SIZE "p_buf p" "p_count p - 1"]
  by (auto simp: pipe_inv_def pipe_contents_def ring_simps)

lemma pipe_write_loop_spec:
  assumes "pipe_inv p" and "written \<le> n" and "pipe_write_loop src n written p = (w, p')"
  shows "pipe_inv p' \<and> w = min n (written + (PIPE_BUF_SIZE - p_count p)) \<and>
    pipe_contents p' = pipe_contents p @ bytes_at src written (w - written) \<and>
    pipe_ends p' = pipe_ends p"
  using assms
proof (induction src n written p rule: pipe_write_loop.induct)
  case (1 src n written p)
  let ?p1 = "p\<lparr>p_buf := (p_buf p)(p_head p := src written),
                p_head := (p_head p + 1) mod PIPE_BUF_SIZE, p_count := p_count p + 1\<rparr>"
  show ?case
  proof (cases "written < n \<and> p_count p < PIPE_BUF_SIZE")
    case True
    with "1.prems"(3) have run: "pipe_write_loop src n (written + 1) ?p1 = (w, p')"
      by (simp add: pipe_write_loop.simps [of src n written p])
    from "1.IH" [OF True pipe_put_byte(1) _ run] "1.prems"(1) True
    have ih: "pipe_inv p'" "w = min n (written + 1 + (PIPE_BUF_SIZE - (p_count p + 1)))"
        "pipe_contents p' = pipe_contents ?p1 @ bytes_at src (written + 1) (w - (written + 1))"
        "pipe_ends p' = pipe_ends ?p1"
      by auto
    have "bytes_at src written (w - written) =
        src written # bytes_at src (written + 1) (w - (written + 1))"
      using ih(2) True by (intro nth_equalityI) (auto simp: nth_Cons split: nat.split)
    then show ?thesis
      using ih True pipe_put_byte(2) [OF "1.prems"(1), of "src written"]
      by (auto simp: pipe_ends_def)
  next
    case False
    with "1.prems" show ?thesis
      by (auto simp: pipe_write_loop.simps [of src n written p] pipe_inv_def)
  qed
qed

lemma pipe_read_loop_spec:
  assumes "pipe_inv p" and "rd \<le> n" and "pipe_read_loop n rd p dst = (r, p', dst')"
  shows "pipe_inv p' \<and> r = min n (rd + p_count p) \<and>
    pipe_contents p = bytes_at dst' rd (r - rd) @ pipe_contents p' \<and>
    (\<forall>i. i < rd \<or> r \<le> i \<longrightarrow> dst' i = dst i) \<and> pipe_ends p' = pipe_ends p"
  using assms
proof (induction n rd p dst rule: pipe_read_loop.induct)
  case (1 n rd p dst)
  let ?p1 = "p\<lparr>p_tail := (p_tail p + 1) mod PIPE_BUF_SIZE, p_count := p_count p - 1\<rparr>"
  let ?d1 = "dst(rd := p_buf p (p_tail p))"
  show ?case
  proof (cases "rd < n \<and> 0 < p_count p")
    case True
    with "1.prems"(3) have run: "pipe_read_loop n (rd + 1) ?p1 ?d1 = (r, p', dst')"
      by (simp add: pipe_read_loop.simps [of n rd p dst])
    from "1.IH" [OF True pipe_take_byte(1) _ run] "1.prems"(1) True
    have ih: "pipe_inv p'" "r = min n (rd + 1 + (p_count p - 1))"
        "pipe_contents ?p1 = bytes_at dst' (rd + 1) (r - (rd + 1)) @ pipe_contents p'"
        "\<forall>i. i < rd + 1 \<or> r \<le> i \<longrightarrow> dst' i = ?d1 i" "pipe_ends p' = pipe_ends ?p1"
      by auto
    have "dst' rd = p_buf p (p_tail p)" using ih(4) by simp
    then have "bytes_at dst' rd (r - rd) =
        p_buf p (p_tail p) # bytes_at dst' (rd + 1) (r - (rd + 1))"
      using ih(2) True by (intro nth_equalityI) (auto simp: nth_Cons split: nat.split)
    then show ?thesis
      using ih True pipe_take_byte(2) [OF "1.prems"(1)] by (auto simp: pipe_ends_def)
  next
    case False
    with "1.prems" show ?thesis
      by (auto simp: pipe_read_loop.simps [of n rd p dst] pipe_inv_def)
  qed
qed

section \<open>The pipe as a byte stream\<close>

text \<open>
  A client's write of a list of bytes and read of up to \<open>k\<close> bytes, through the calls of
  the code with a source and a destination buffer.
\<close>

definition pipe_wr :: "u8 list \<Rightarrow> pipe_t \<Rightarrow> nat \<times> pipe_t" where
  "pipe_wr xs p = (case pipe_write (Some p) (Some (mem_of_list xs)) (length xs) of
     (r, q) \<Rightarrow> (nat r, case q of None \<Rightarrow> p | Some p' \<Rightarrow> p'))"

definition pipe_rd :: "nat \<Rightarrow> pipe_t \<Rightarrow> u8 list \<times> pipe_t" where
  "pipe_rd k p = (case pipe_read (Some p) (Some (\<lambda>_. 0)) k of
     (r, q, d) \<Rightarrow> (bytes_at (case d of None \<Rightarrow> (\<lambda>_. 0) | Some m \<Rightarrow> m) 0 (nat r),
                   case q of None \<Rightarrow> p | Some p' \<Rightarrow> p'))"

lemma pipe_wr_spec:
  assumes "pipe_inv p" and "p_readers p \<noteq> 0" and "pipe_wr xs p = (n, p')"
  shows "pipe_inv p' \<and> p_readers p' \<noteq> 0 \<and>
    n = min (length xs) (PIPE_BUF_SIZE - length (pipe_contents p)) \<and>
    pipe_contents p' = pipe_contents p @ take n xs"
proof -
  obtain w q where run: "pipe_write_loop (mem_of_list xs) (length xs) 0 p = (w, q)" by force
  with assms(2,3) have "n = w" "p' = q" by (auto simp: pipe_wr_def pipe_write_def)
  with pipe_write_loop_spec [OF assms(1) _ run] assms(2) show ?thesis
    by (auto simp: bytes_at_mem_of_list_take pipe_ends_def)
qed

lemma pipe_rd_spec:
  assumes "pipe_inv p" and "pipe_rd k p = (ys, p')"
  shows "pipe_inv p' \<and> p_readers p' = p_readers p \<and>
    ys = take k (pipe_contents p) \<and> pipe_contents p' = drop k (pipe_contents p)"
proof (cases "p_count p = 0 \<and> p_writers p = 0")
  case True
  with assms show ?thesis
    by (auto simp: pipe_rd_def pipe_read_def pipe_contents_def)
next
  case False
  obtain r q d where run: "pipe_read_loop k 0 p (\<lambda>_. 0) = (r, q, d)" by (metis prod_cases3)
  with assms(2) False have res: "ys = bytes_at d 0 r" "p' = q"
    by (auto simp: pipe_rd_def pipe_read_def)
  note spec = pipe_read_loop_spec [OF assms(1) _ run]
  then have c: "pipe_contents p = ys @ pipe_contents q" and r: "r = min k (p_count p)"
    by (simp_all add: res)
  have "length ys = r" by (simp add: res)
  moreover have "pipe_contents q = []" if "r \<noteq> k"
    using that r arg_cong [OF c, of length] \<open>length ys = r\<close>
    by (simp flip: length_0_conv)
  ultimately show ?thesis using spec c res r
    by (cases "r = k") (auto simp: pipe_ends_def min_def split: if_splits)
qed

interpretation pipe_stream: byte_stream PIPE_BUF_SIZE
  "\<lambda>p. pipe_inv p \<and> p_readers p \<noteq> 0" pipe_contents pipe_wr pipe_rd
proof (unfold_locales, goal_cases)
  case (1 q)
  then show ?case by (simp add: pipe_inv_def)
next
  case (2 q xs n q')
  then show ?case using pipe_wr_spec by blast
next
  case (3 q k ys q')
  then show ?case using pipe_rd_spec [of q k ys q'] by auto
qed

section \<open>Properties\<close>

definition fresh_pipe :: pipe_t where
  "fresh_pipe = pipe_zero\<lparr>p_read_fd := 0, p_write_fd := 1, p_readers := 1, p_writers := 1\<rparr>"

lemma fresh_pipe_inv: "pipe_inv fresh_pipe" and fresh_pipe_readers: "p_readers fresh_pipe = 1"
  by (simp_all add: fresh_pipe_def pipe_zero_def pipe_inv_def)

lemma fresh_pipe_empty: "p_count fresh_pipe = 0" "pipe_contents fresh_pipe = []"
  by (simp_all add: fresh_pipe_def pipe_zero_def pipe_contents_def)

lemmas pipe_eval = pipe_wr_def pipe_rd_def pipe_write_def pipe_read_def pipe_write_loop.simps
  pipe_read_loop.simps pipe_contents_def ring_list_def bytes_at_def mem_of_list_def
  fresh_pipe_def pipe_zero_def

text \<open>
  C1. Any sequence of writes and reads on a pipe that has readers is a first-in first-out byte
  stream: what was in the pipe followed by everything the writes accepted is what the
  reads delivered followed by what is left. Nothing is lost, duplicated or reordered,
  across any number of wrap-arounds of the ring.
\<close>

theorem pipe_is_fifo_stream:
  assumes "pipe_inv p" and "p_readers p \<noteq> 0"
  shows "case stream_run pipe_wr pipe_rd ops p of (acc, del, r) \<Rightarrow>
    pipe_contents p @ acc = del @ pipe_contents r \<and> pipe_inv r \<and> p_readers r \<noteq> 0"
  using pipe_stream.run_stream [of p ops] assms by (auto split: prod.splits)

theorem pipe_is_fifo_stream_witness:
  "pipe_inv fresh_pipe \<and> p_readers fresh_pipe \<noteq> 0 \<and>
   (case stream_run pipe_wr pipe_rd [Write [1, 2, 3], Read 2] fresh_pipe of (acc, del, r) \<Rightarrow>
     acc = [1, 2, 3] \<and> del = [1, 2] \<and> acc = del @ pipe_contents r)"
  using pipe_is_fifo_stream [of fresh_pipe "[Write [1, 2, 3], Read 2]"] fresh_pipe_inv
    fresh_pipe_readers
  by (simp add: pipe_eval upt_rec)

text \<open>
  The result of a write on every branch: \<open>-1\<close> with no effect for a null pointer or a pipe
  whose reader count is zero, otherwise the number of bytes that fit, which are appended
  to the contents in order; the descriptors and the reader and writer counts are kept.
\<close>

theorem pipe_write_branches:
  assumes "pipe_inv p"
  shows "pipe_write None buf n = (- 1, None) \<and>
    pipe_write (Some p) None n = (- 1, Some p) \<and>
    (if p_readers p = 0 then pipe_write (Some p) (Some src) n = (- 1, Some p)
     else \<exists>p' w. pipe_write (Some p) (Some src) n = (int w, Some p') \<and>
       w = min n (PIPE_BUF_SIZE - p_count p) \<and>
       pipe_contents p' = pipe_contents p @ bytes_at src 0 w \<and>
       pipe_ends p' = pipe_ends p \<and> pipe_inv p')"
proof -
  obtain w q where run: "pipe_write_loop src n 0 p = (w, q)" by force
  from pipe_write_loop_spec [OF assms _ run] run
  show ?thesis by (auto simp: pipe_write_def split: option.splits)
qed

theorem pipe_write_branches_witness:
  "pipe_inv fresh_pipe \<and>
   (\<exists>p'. pipe_write (Some fresh_pipe) (Some (\<lambda>_. 7)) 3 = (3, Some p') \<and>
      pipe_contents p' = [7, 7, 7])"
  using pipe_write_branches [of fresh_pipe None 3 "\<lambda>_. 7"] fresh_pipe_inv
  by (auto simp: fresh_pipe_readers fresh_pipe_empty bytes_at_def upt_rec)

text \<open>
  Closing the read end is unguarded: a second close of a pipe with one reader leaves the
  reader count at \<open>-1\<close>, and a write, which had failed with a broken pipe after the first
  close, is accepted again although nobody can read.
\<close>

theorem pipe_double_close_reopens_writes:
  assumes "pipe_inv p" and "p_readers p = 1" and "p_count p < PIPE_BUF_SIZE" and "0 < n"
  shows "\<exists>p1 p2. pipe_close_read (Some p) = (0, Some p1) \<and> pipe_close_read (Some p1) = (0, Some p2) \<and>
    fst (pipe_write (Some p1) (Some src) n) = - 1 \<and>
    0 < fst (pipe_write (Some p2) (Some src) n)"
proof -
  let ?p1 = "p\<lparr>p_readers := 0\<rparr>" and ?p2 = "p\<lparr>p_readers := - 1\<rparr>"
  have inv: "pipe_inv ?p2" using assms(1) by (simp add: pipe_inv_def)
  obtain w q where run: "pipe_write_loop src n 0 ?p2 = (w, q)" by force
  have "0 < w" using pipe_write_loop_spec [OF inv _ run] assms by simp
  with run assms(2) show ?thesis
    by (intro exI [of _ ?p1] exI [of _ ?p2]) (simp add: pipe_close_read_def pipe_write_def)
qed

theorem pipe_double_close_reopens_writes_witness:
  "\<exists>p1 p2. pipe_close_read (Some fresh_pipe) = (0, Some p1) \<and> pipe_close_read (Some p1) = (0, Some p2) \<and>
    fst (pipe_write (Some p1) (Some (\<lambda>_. 1)) 1) = - 1 \<and>
    0 < fst (pipe_write (Some p2) (Some (\<lambda>_. 1)) 1)"
  by (rule pipe_double_close_reopens_writes)
    (simp_all add: fresh_pipe_inv fresh_pipe_readers fresh_pipe_def pipe_zero_def pipe_inv_def)

end
