(* ===== verification/PosixMq.thy ===== *)
theory PosixMq
  imports Interfaces
begin

text \<open>
  POSIX message queues of \<open>kernel/ipc/src/ipc.c\<close>: an array of messages kept in priority
  order, and the manager's table of queues. A \<open>posix_mq_t*\<close> that the kernel hands out is
  the index of its slot in the manager's table. The arrays \<open>msgs\<close> and \<open>data\<close> have 128 elements and 8192 bytes, while the limits of a
  queue come from its opener; \<open>mq_overrun\<close> says that a send wrote past the end of one of them, whose effect on other memory
  is not modelled. A queue name is the C string stored in
  \<open>name[256]\<close>, so it is cut to 255 characters when it is stored.
\<close>

abbreviation (input) POSIX_MQ_MAX :: nat where "POSIX_MQ_MAX \<equiv> 64"
abbreviation (input) POSIX_MQ_MSG_MAX :: nat where "POSIX_MQ_MSG_MAX \<equiv> 128"
abbreviation (input) POSIX_MQ_MSG_SIZE :: nat where "POSIX_MQ_MSG_SIZE \<equiv> 8192"

record posix_mq_msg_t =
  mm_data :: mem
  mm_size :: nat
  mm_priority :: nat

record posix_mq_t =
  mq_name :: string
  mq_msgs :: "nat \<Rightarrow> posix_mq_msg_t"
  mq_msg_count :: nat
  mq_max_msgs :: nat
  mq_max_msgsize :: nat
  mq_flags :: int
  mq_ref_count :: int
  mq_overrun :: bool

record posix_mq_manager_t =
  mqm_queues :: "nat \<Rightarrow> posix_mq_t"
  mqm_count :: nat

definition mq_msg_zero :: posix_mq_msg_t where
  "mq_msg_zero = \<lparr>mm_data = (\<lambda>_. 0), mm_size = 0, mm_priority = 0\<rparr>"

definition mq_zero :: posix_mq_t where
  "mq_zero = \<lparr>mq_name = [], mq_msgs = (\<lambda>_. mq_msg_zero), mq_msg_count = 0, mq_max_msgs = 0,
     mq_max_msgsize = 0, mq_flags = 0, mq_ref_count = 0, mq_overrun = False\<rparr>"

definition posix_mq_init :: "posix_mq_manager_t option \<Rightarrow> posix_mq_manager_t option" where
  "posix_mq_init mgr = (case mgr of None \<Rightarrow> None
     | Some _ \<Rightarrow> Some \<lparr>mqm_queues = (\<lambda>_. mq_zero), mqm_count = 0\<rparr>)"

definition posix_mq_open ::
  "posix_mq_manager_t option \<Rightarrow> string option \<Rightarrow> int \<Rightarrow> nat \<Rightarrow> nat \<Rightarrow> nat option \<times> posix_mq_manager_t option"
where
  "posix_mq_open mgr name flags max_msgs max_msgsize =
     (case (mgr, name) of
        (Some m, Some nm) \<Rightarrow>
          (case first_index (\<lambda>i. mq_name (mqm_queues m i) = nm) (mqm_count m) of
             Some i \<Rightarrow>
               (Some i, Some (m\<lparr>mqm_queues := (mqm_queues m)(i := (mqm_queues m i)
                   \<lparr>mq_ref_count := mq_ref_count (mqm_queues m i) + 1\<rparr>)\<rparr>))
           | None \<Rightarrow>
               if mqm_count m \<ge> POSIX_MQ_MAX then (None, mgr)
               else
                 let q = mq_zero\<lparr>mq_name := take 255 nm, mq_flags := flags,
                     mq_max_msgs := (if max_msgs > 0 then max_msgs else POSIX_MQ_MSG_MAX),
                     mq_max_msgsize := (if max_msgsize > 0 then max_msgsize else POSIX_MQ_MSG_SIZE),
                     mq_ref_count := 1\<rparr>
                 in (Some (mqm_count m),
                     Some (m\<lparr>mqm_queues := (mqm_queues m)(mqm_count m := q), mqm_count := mqm_count m + 1\<rparr>)))
      | _ \<Rightarrow> (None, mgr))"

definition posix_mq_close :: "posix_mq_manager_t option \<Rightarrow> nat option \<Rightarrow> int \<times> posix_mq_manager_t option" where
  "posix_mq_close mgr mq =
     (case (mgr, mq) of
        (Some m, Some h) \<Rightarrow>
          let q = (mqm_queues m h)\<lparr>mq_ref_count := mq_ref_count (mqm_queues m h) - 1\<rparr>;
              m1 = m\<lparr>mqm_queues := (mqm_queues m)(h := q)\<rparr>
          in if mq_ref_count q \<le> 0
             then (case first_index (\<lambda>i. i = h) (mqm_count m1) of
                     Some i \<Rightarrow> (0, Some (m1\<lparr>mqm_queues := (mqm_queues m1)(i := mqm_queues m1 (mqm_count m1 - 1)),
                                          mqm_count := mqm_count m1 - 1\<rparr>))
                   | None \<Rightarrow> (0, Some m1))
             else (0, Some m1)
      | _ \<Rightarrow> (- 1, mgr))"

text \<open>\<open>for (i = msg_count; i > insert_pos; i--) msgs[i] = msgs[i - 1]\<close>\<close>

fun mq_shift_up :: "(nat \<Rightarrow> 'a) \<Rightarrow> nat \<Rightarrow> nat \<Rightarrow> (nat \<Rightarrow> 'a)" where
  "mq_shift_up ms pos 0 = ms"
| "mq_shift_up ms pos (Suc i) = (if pos < Suc i then mq_shift_up (ms(Suc i := ms i)) pos i else ms)"

definition posix_mq_send :: "posix_mq_t option \<Rightarrow> mem option \<Rightarrow> nat \<Rightarrow> nat \<Rightarrow> int \<times> posix_mq_t option" where
  "posix_mq_send mq msg sz priority =
     (case (mq, msg) of
        (Some q, Some src) \<Rightarrow>
          if mq_msg_count q \<ge> mq_max_msgs q \<or> sz > mq_max_msgsize q then (- 2, mq)
          else
            let insert_pos =
                  (case first_index (\<lambda>i. priority > mm_priority (mq_msgs q i)) (mq_msg_count q) of
                     Some i \<Rightarrow> i | None \<Rightarrow> mq_msg_count q);
                ms = mq_shift_up (mq_msgs q) insert_pos (mq_msg_count q);
                m = (ms insert_pos)\<lparr>mm_data := copy_obj (mm_data (ms insert_pos)) 0 src 0 sz,
                                    mm_size := sz, mm_priority := priority\<rparr>
            in (0, Some (q\<lparr>mq_msgs := ms(insert_pos := m), mq_msg_count := mq_msg_count q + 1,
                   mq_overrun := mq_overrun q \<or> mq_msg_count q \<ge> POSIX_MQ_MSG_MAX \<or> sz > POSIX_MQ_MSG_SIZE\<rparr>))
      | _ \<Rightarrow> (- 1, mq))"

definition posix_mq_receive ::
  "posix_mq_t option \<Rightarrow> mem option \<Rightarrow> nat option \<Rightarrow> nat option \<Rightarrow>
     int \<times> posix_mq_t option \<times> mem option \<times> nat option \<times> nat option" where
  "posix_mq_receive mq msg sz priority =
     (case (mq, msg) of
        (Some q, Some dst) \<Rightarrow>
          if mq_msg_count q = 0 then (- 2, mq, msg, sz, priority)
          else
            let m = mq_msgs q 0;
                ms = fold (\<lambda>i ms. ms(i - 1 := ms i)) [1..<mq_msg_count q] (mq_msgs q)
            in (0, Some (q\<lparr>mq_msgs := ms, mq_msg_count := mq_msg_count q - 1\<rparr>),
                Some (copy_obj dst 0 (mm_data m) 0 (mm_size m)),
                map_option (\<lambda>_. mm_size m) sz, map_option (\<lambda>_. mm_priority m) priority)
      | _ \<Rightarrow> (- 1, mq, msg, sz, priority))"

section \<open>The queue as a priority list\<close>

definition mq_view :: "posix_mq_msg_t \<Rightarrow> nat \<times> u8 list" where
  "mq_view m = (mm_priority m, bytes_at (mm_data m) 0 (mm_size m))"

definition mq_contents :: "posix_mq_t \<Rightarrow> (nat \<times> u8 list) list" where
  "mq_contents q = map mq_view (table (mq_msgs q) (mq_msg_count q))"

text \<open>The specification of a send: insert behind every message of at least this priority.\<close>

definition prio_insert :: "nat \<times> 'a \<Rightarrow> (nat \<times> 'a) list \<Rightarrow> (nat \<times> 'a) list" where
  "prio_insert x xs = takeWhile (\<lambda>y. fst x \<le> fst y) xs @ x # dropWhile (\<lambda>y. fst x \<le> fst y) xs"

definition prio_sorted :: "(nat \<times> 'a) list \<Rightarrow> bool" where
  "prio_sorted xs \<longleftrightarrow> sorted_wrt (\<lambda>x y. fst y \<le> fst x) xs"

lemma prio_sorted_simps [simp]:
  "prio_sorted []" "prio_sorted (x # xs) \<longleftrightarrow> (\<forall>y\<in>set xs. fst y \<le> fst x) \<and> prio_sorted xs"
  by (simp_all add: prio_sorted_def)

lemma prio_insert_Nil [simp]: "prio_insert x [] = [x]"
  by (simp add: prio_insert_def)

lemma prio_insert_Cons:
  "prio_insert x (y # ys) = (if fst x \<le> fst y then y # prio_insert x ys else x # y # ys)"
  by (simp add: prio_insert_def)

lemma mset_prio_insert [simp]: "mset (prio_insert x xs) = add_mset x (mset xs)"
  by (induction xs) (auto simp: prio_insert_Cons)

lemma set_prio_insert [simp]: "set (prio_insert x xs) = insert x (set xs)"
  by (induction xs) (auto simp: prio_insert_Cons)

lemma prio_sorted_insert: "prio_sorted xs \<Longrightarrow> prio_sorted (prio_insert x xs)"
  by (induction xs) (auto simp: prio_insert_Cons)

lemma prio_insert_fifo:
  "prio_sorted xs \<Longrightarrow> filter (\<lambda>y. fst y = p) (prio_insert x xs) = filter (\<lambda>y. fst y = p) (xs @ [x])"
proof (induction xs)
  case (Cons y ys)
  show ?case
  proof (cases "fst x \<le> fst y")
    case True
    with Cons show ?thesis by (simp add: prio_insert_Cons)
  next
    case False
    with Cons.prems have "\<forall>z\<in>set (y # ys). fst z < fst x" by auto
    then have "fst x = p \<Longrightarrow> filter (\<lambda>z. fst z = p) (y # ys) = []"
      by (auto simp: filter_empty_conv)
    with False show ?thesis by (auto simp: prio_insert_Cons)
  qed
qed simp

lemma length_prio_insert [simp]: "length (prio_insert x xs) = Suc (length xs)"
  by (induction xs) (auto simp: prio_insert_Cons)

lemma mq_shift_up_eq: "mq_shift_up ms pos n = (\<lambda>j. if pos < j \<and> j \<le> n then ms (j - 1) else ms j)"
proof (induction n arbitrary: ms)
  case (Suc i)
  show ?case
    by (auto simp: Suc.IH fun_eq_iff le_Suc_eq)
qed auto

lemma shift_down_eq:
  "fold (\<lambda>i ms. ms(i - 1 := ms i)) [1..<Suc n] ms = (\<lambda>j. if j < n then ms (Suc j) else ms j)"
proof (induction n)
  case (Suc n)
  have "fold (\<lambda>i ms. ms(i - 1 := ms i)) [1..<Suc (Suc n)] ms =
      (fold (\<lambda>i ms. ms(i - 1 := ms i)) [1..<Suc n] ms)
        (n := fold (\<lambda>i ms. ms(i - 1 := ms i)) [1..<Suc n] ms (Suc n))"
    by simp
  also have "\<dots> = (\<lambda>j. if j < Suc n then ms (Suc j) else ms j)"
    unfolding Suc.IH by (auto simp: fun_eq_iff less_Suc_eq)
  finally show ?case .
qed auto

lemma table_insert:
  assumes "pos \<le> n"
  shows "table ((mq_shift_up ms pos n)(pos := x)) (Suc n) = take pos (table ms n) @ x # drop pos (table ms n)"
  using assms by (intro nth_equalityI) (auto simp: mq_shift_up_eq nth_append nth_Cons' min_def)

lemma takeWhile_first_index:
  "takeWhile (\<lambda>x. \<not> P x) (table f n) = take (case first_index (\<lambda>i. P (f i)) n of Some i \<Rightarrow> i | None \<Rightarrow> n) (table f n)"
proof (cases "first_index (\<lambda>i. P (f i)) n")
  case None
  then have "takeWhile (\<lambda>x. \<not> P x) (table f n) = table f n"
    by (auto simp: first_index_None in_set_table)
  with None show ?thesis by simp
next
  case (Some i)
  note i = first_index_SomeD [OF Some]
  then have "takeWhile (\<lambda>x. \<not> P x) (table f n) = take i (table f n)"
    by (intro takeWhile_eq_take_P_nth) auto
  with Some show ?thesis by simp
qed

lemma posix_mq_send_refines:
  assumes "mq_msg_count q < mq_max_msgs q" and "sz \<le> mq_max_msgsize q"
  shows "\<exists>q'. posix_mq_send (Some q) (Some src) sz priority = (0, Some q') \<and>
    mq_contents q' = prio_insert (priority, bytes_at src 0 sz) (mq_contents q) \<and>
    mq_msg_count q' = Suc (mq_msg_count q) \<and>
    mq_max_msgs q' = mq_max_msgs q \<and> mq_max_msgsize q' = mq_max_msgsize q \<and>
    (mq_overrun q' \<longleftrightarrow> mq_overrun q \<or> mq_msg_count q \<ge> POSIX_MQ_MSG_MAX \<or> sz > POSIX_MQ_MSG_SIZE)"
proof -
  let ?n = "mq_msg_count q" and ?P = "\<lambda>m. priority > mm_priority m"
  define pos where
    "pos = (case first_index (\<lambda>i. ?P (mq_msgs q i)) ?n of Some i \<Rightarrow> i | None \<Rightarrow> ?n)"
  define ms where "ms = mq_shift_up (mq_msgs q) pos ?n"
  define m where "m = (ms pos)\<lparr>mm_data := copy_obj (mm_data (ms pos)) 0 src 0 sz,
                                    mm_size := sz, mm_priority := priority\<rparr>"
  let ?q = "q\<lparr>mq_msgs := ms(pos := m), mq_msg_count := ?n + 1,
      mq_overrun := mq_overrun q \<or> ?n \<ge> POSIX_MQ_MSG_MAX \<or> sz > POSIX_MQ_MSG_SIZE\<rparr>"
  have run: "posix_mq_send (Some q) (Some src) sz priority = (0, Some ?q)"
    using assms by (simp add: posix_mq_send_def Let_def pos_def ms_def m_def)
  have pos: "pos \<le> ?n"
    by (auto simp: pos_def split: option.split dest: first_index_SomeD)
  have tw: "takeWhile (\<lambda>x. \<not> ?P x) (table (mq_msgs q) ?n) = take pos (table (mq_msgs q) ?n)"
    unfolding pos_def by (rule takeWhile_first_index)
  then have dw: "dropWhile (\<lambda>x. \<not> ?P x) (table (mq_msgs q) ?n) = drop pos (table (mq_msgs q) ?n)"
    by (metis append_take_drop_id same_append_eq takeWhile_dropWhile_id)
  have view: "mq_view m = (priority, bytes_at src 0 sz)"
    by (simp add: mq_view_def m_def)
  have test: "(\<lambda>y. fst (priority, bytes_at src 0 sz) \<le> fst y) \<circ> mq_view = (\<lambda>x. \<not> ?P x)"
    by (auto simp: mq_view_def fun_eq_iff)
  have "mq_contents ?q = prio_insert (priority, bytes_at src 0 sz) (mq_contents q)"
    using table_insert [OF pos, of "mq_msgs q" m]
    by (simp add: mq_contents_def prio_insert_def takeWhile_map dropWhile_map test [simplified]
        tw [simplified] dw [simplified] view ms_def del: table_upd_ge)
  with run show ?thesis by simp
qed

lemma posix_mq_receive_refines:
  assumes "mq_contents q = (p, bs) # xs"
  shows "\<exists>q' dst'. posix_mq_receive (Some q) (Some dst) (Some s) (Some r) =
      (0, Some q', Some dst', Some (length bs), Some p) \<and>
    bytes_at dst' 0 (length bs) = bs \<and> (\<forall>i\<ge>length bs. dst' i = dst i) \<and> mq_contents q' = xs \<and>
    mq_max_msgs q' = mq_max_msgs q \<and> mq_max_msgsize q' = mq_max_msgsize q \<and> mq_overrun q' = mq_overrun q"
proof -
  from assms obtain n where n: "mq_msg_count q = Suc n"
    by (cases "mq_msg_count q") (auto simp: mq_contents_def)
  have tab: "table (mq_msgs q) (Suc n) = mq_msgs q 0 # table (\<lambda>j. mq_msgs q (Suc j)) n"
    by (rule nth_equalityI) (auto simp: nth_Cons split: nat.split)
  with assms n have h: "mm_priority (mq_msgs q 0) = p"
      "bytes_at (mm_data (mq_msgs q 0)) 0 (mm_size (mq_msgs q 0)) = bs"
      "map mq_view (table (\<lambda>j. mq_msgs q (Suc j)) n) = xs"
    by (simp_all add: mq_contents_def mq_view_def)
  have len: "mm_size (mq_msgs q 0) = length bs" using arg_cong [OF h(2), of length] by simp
  have "table (\<lambda>j. if j < n then mq_msgs q (Suc j) else mq_msgs q j) n = table (\<lambda>j. mq_msgs q (Suc j)) n"
    by (rule table_cong) simp
  with h len n show ?thesis
    unfolding posix_mq_receive_def Let_def
    using shift_down_eq [of n "mq_msgs q"] by (auto simp: mq_contents_def copy_obj_out)
qed

section \<open>Runs of sends and receives\<close>

definition mq_push :: "nat \<times> u8 list \<Rightarrow> posix_mq_t \<Rightarrow> posix_mq_t option" where
  "mq_push x q = (case posix_mq_send (Some q) (Some (mem_of_list (snd x))) (length (snd x)) (fst x) of
     (r, q') \<Rightarrow> if r = 0 then q' else None)"

definition mq_pop :: "posix_mq_t \<Rightarrow> ((nat \<times> u8 list) \<times> posix_mq_t) option" where
  "mq_pop q = (case posix_mq_receive (Some q) (Some (\<lambda>_. 0)) (Some 0) (Some 0) of
     (r, q', d, s, p) \<Rightarrow>
       (case (q', d, s, p) of
          (Some q'', Some d', Some s', Some p') \<Rightarrow> if r = 0 then Some ((p', bytes_at d' 0 s'), q'') else None
        | _ \<Rightarrow> None))"

text \<open>A queue with limits that its arrays can keep.\<close>

definition mq_inv :: "nat \<Rightarrow> nat \<Rightarrow> posix_mq_t \<Rightarrow> bool" where
  "mq_inv n k q \<longleftrightarrow> prio_sorted (mq_contents q) \<and> \<not> mq_overrun q \<and> mq_max_msgs q = n \<and> mq_max_msgsize q = k \<and>
     n \<le> POSIX_MQ_MSG_MAX \<and> k \<le> POSIX_MQ_MSG_SIZE"

lemma length_mq_contents [simp]: "length (mq_contents q) = mq_msg_count q"
  by (simp add: mq_contents_def)

lemma mq_push_spec:
  "if mq_msg_count q < mq_max_msgs q \<and> length (snd x) \<le> mq_max_msgsize q
   then \<exists>q'. mq_push x q = Some q' \<and> mq_contents q' = prio_insert x (mq_contents q) \<and> (mq_inv n k q \<longrightarrow> mq_inv n k q')
   else mq_push x q = None"
  using posix_mq_send_refines [of q "length (snd x)" "mem_of_list (snd x)" "fst x"]
  by (auto simp: mq_push_def posix_mq_send_def mq_inv_def prio_sorted_insert)

lemma mq_push_SomeD:
  "mq_push x q = Some q' \<Longrightarrow> mq_contents q' = prio_insert x (mq_contents q) \<and> (mq_inv n k q \<longrightarrow> mq_inv n k q')"
  using mq_push_spec [of q x n k] by (auto split: if_splits)

lemma mq_pop_spec:
  "case mq_contents q of [] \<Rightarrow> mq_pop q = None
   | x # xs \<Rightarrow> \<exists>q'. mq_pop q = Some (x, q') \<and> mq_contents q' = xs \<and> (mq_inv n k q \<longrightarrow> mq_inv n k q')"
proof (cases "mq_contents q")
  case Nil
  then have "mq_msg_count q = 0" by (simp add: mq_contents_def flip: length_0_conv)
  then show ?thesis using Nil by (simp add: mq_pop_def posix_mq_receive_def)
next
  case (Cons x xs)
  obtain p bs where x: "x = (p, bs)" by force
  from posix_mq_receive_refines [OF Cons [unfolded x], of "\<lambda>_. 0" 0 0] Cons x
  show ?thesis by (auto simp: mq_pop_def mq_inv_def)
qed

lemma mq_pop_SomeD: "mq_pop q = Some (x, q') \<Longrightarrow> mq_contents q = x # mq_contents q' \<and> (mq_inv n k q \<longrightarrow> mq_inv n k q')"
  using mq_pop_spec [of q n k] by (auto split: list.splits)

lemma mq_run_fifo:
  "mq_inv n k q \<Longrightarrow> queue_run mq_push mq_pop ops q = (acc, del, r) \<Longrightarrow>
     mq_inv n k r \<and> filter (\<lambda>y. fst y = p) (mq_contents q @ acc) = filter (\<lambda>y. fst y = p) (del @ mq_contents r)"
proof (induction ops arbitrary: q acc del r)
  case (Cons o1 ops)
  have srt: "prio_sorted (mq_contents q)" using Cons.prems(1) by (simp add: mq_inv_def)
  show ?case
  proof (cases o1)
    case (Push x)
    show ?thesis
    proof (cases "mq_push x q")
      case None
      then show ?thesis using Cons Push by simp
    next
      case (Some q')
      obtain acc' del' r' where run: "queue_run mq_push mq_pop ops q' = (acc', del', r')"
        by (metis prod_cases3)
      have c: "mq_contents q' = prio_insert x (mq_contents q)" "mq_inv n k q'"
        using mq_push_SomeD [OF Some, of n k] Cons.prems(1) by simp_all
      from Cons.IH [OF c(2) run] Cons.prems run Some Push prio_insert_fifo [OF srt, of p x] c(1)
      show ?thesis by (auto split: if_splits)
    qed
  next
    case Pop
    show ?thesis
    proof (cases "mq_pop q")
      case None
      then show ?thesis using Cons Pop by simp
    next
      case (Some xq)
      then obtain x q' where pop: "mq_pop q = Some (x, q')" by (cases xq) auto
      obtain acc' del' r' where run: "queue_run mq_push mq_pop ops q' = (acc', del', r')"
        by (metis prod_cases3)
      note c = mq_pop_SomeD [OF pop, of n k]
      then have "mq_inv n k q'" using Cons.prems(1) by simp
      from Cons.IH [OF this run] Cons.prems run pop Pop c show ?thesis by auto
    qed
  qed
qed auto

section \<open>Properties\<close>

fun mq_fill :: "nat \<Rightarrow> posix_mq_t \<Rightarrow> posix_mq_t option" where
  "mq_fill 0 q = Some q"
| "mq_fill (Suc n) q = (case mq_push (0, []) q of None \<Rightarrow> None | Some q' \<Rightarrow> mq_fill n q')"

lemma mq_push_empty:
  "mq_msg_count q < mq_max_msgs q \<Longrightarrow> \<exists>q'. mq_push (0, []) q = Some q' \<and>
     mq_msg_count q' = Suc (mq_msg_count q) \<and> mq_max_msgs q' = mq_max_msgs q"
  using posix_mq_send_refines [of q 0 "mem_of_list []" 0] by (auto simp: mq_push_def)

lemma mq_fill_ok:
  "mq_msg_count q + n \<le> mq_max_msgs q \<Longrightarrow>
     \<exists>q'. mq_fill n q = Some q' \<and> mq_msg_count q' = mq_msg_count q + n"
proof (induction n arbitrary: q)
  case (Suc n)
  with mq_push_empty [of q] obtain q1 where
    q1: "mq_push (0, []) q = Some q1" "mq_msg_count q1 = Suc (mq_msg_count q)"
      "mq_max_msgs q1 = mq_max_msgs q" by auto
  with Suc.IH [of q1] Suc.prems show ?case by auto
qed simp

text \<open>Two open queues, \<open>a\<close> in slot 0 and \<open>b\<close> in slot 1.\<close>

definition two_queues :: posix_mq_manager_t where
  "two_queues = \<lparr>mqm_queues = (\<lambda>_. mq_zero)
     (0 := mq_zero\<lparr>mq_name := ''a'', mq_max_msgs := 4, mq_max_msgsize := 16, mq_ref_count := 1\<rparr>,
      1 := mq_zero\<lparr>mq_name := ''b'', mq_max_msgs := 4, mq_max_msgsize := 16, mq_ref_count := 1\<rparr>),
     mqm_count = 2\<rparr>"

text \<open>
  C9. A message queue whose limits are within those of its arrays (128 messages of 8192 bytes, which the opener is not held to) is a
  first-in first-out queue for each priority: in any sequence of sends and
  receives, the messages of priority \<open>p\<close> that were queued or accepted are, in this order,
  those delivered and those still queued, and nothing is written past the end of an array. At the end of any such
  sequence, a send is refused exactly when the queue is full or the message too long, and a receive fails exactly when the queue is
  empty and takes otherwise a message of the highest priority in the queue, the oldest of that priority.
\<close>

theorem posix_mq_priority_fifo:
  assumes "prio_sorted (mq_contents q)" and "\<not> mq_overrun q"
    and "mq_max_msgs q \<le> POSIX_MQ_MSG_MAX" and "mq_max_msgsize q \<le> POSIX_MQ_MSG_SIZE"
  shows "case queue_run mq_push mq_pop ops q of (acc, del, r) \<Rightarrow>
    (\<forall>p. filter (\<lambda>y. fst y = p) (mq_contents q @ acc) = filter (\<lambda>y. fst y = p) (del @ mq_contents r)) \<and> \<not> mq_overrun r \<and>
    (\<forall>x. mq_push x r = None \<longleftrightarrow> length (mq_contents r) \<ge> mq_max_msgs q \<or> length (snd x) > mq_max_msgsize q) \<and>
    (case mq_pop r of None \<Rightarrow> mq_contents r = []
     | Some (x, r') \<Rightarrow> x \<in> set (mq_contents r) \<and> (\<forall>y\<in>set (mq_contents r). fst y \<le> fst x) \<and>
         x = hd (filter (\<lambda>y. fst y = fst x) (mq_contents r)) \<and> mq_contents r' = remove1 x (mq_contents r))"
proof -
  obtain acc del r where run: "queue_run mq_push mq_pop ops q = (acc, del, r)" by (metis prod_cases3)
  let ?n = "mq_max_msgs q" and ?k = "mq_max_msgsize q"
  have "mq_inv ?n ?k q" using assms by (simp add: mq_inv_def)
  note f = mq_run_fifo [OF this run]
  then have r: "prio_sorted (mq_contents r)" "\<not> mq_overrun r" "mq_max_msgs r = ?n" "mq_max_msgsize r = ?k" by (simp_all add: mq_inv_def)
  have push: "mq_push x r = None \<longleftrightarrow> mq_msg_count r \<ge> ?n \<or> length (snd x) > ?k" for x
    using mq_push_spec [of r x ?n ?k] r(3,4) by (auto split: if_splits)
  have pop: "case mq_pop r of None \<Rightarrow> mq_contents r = []
     | Some (x, r') \<Rightarrow> x \<in> set (mq_contents r) \<and> (\<forall>y\<in>set (mq_contents r). fst y \<le> fst x) \<and>
         x = hd (filter (\<lambda>y. fst y = fst x) (mq_contents r)) \<and> mq_contents r' = remove1 x (mq_contents r)"
    using mq_pop_spec [of r ?n ?k] r(1) by (cases "mq_contents r") auto
  show ?thesis using f r(2) push pop by (simp add: run)
qed

theorem posix_mq_priority_fifo_witness:
  "prio_sorted (mq_contents (mqm_queues two_queues 0)) \<and>
   (case queue_run mq_push mq_pop [Push (1, [7]), Push (5, [8]), Pop] (mqm_queues two_queues 0) of
      (acc, del, r) \<Rightarrow> \<not> mq_overrun r \<and> acc = [(1, [7]), (5, [8])] \<and> del = [(5, [8])])"
proof -
  let ?q = "mqm_queues two_queues 0" and ?ops = "[Push (1, [7]), Push (5, [8]), Pop]"
  have h: "prio_sorted (mq_contents ?q)" "\<not> mq_overrun ?q" "mq_max_msgs ?q \<le> POSIX_MQ_MSG_MAX" "mq_max_msgsize ?q \<le> POSIX_MQ_MSG_SIZE"
    by (simp_all add: two_queues_def mq_zero_def mq_contents_def)
  have "case queue_run mq_push mq_pop ?ops ?q of (acc, del, r) \<Rightarrow> acc = [(1, [7]), (5, [8])] \<and> del = [(5, [8])]"
    by (simp add: two_queues_def mq_zero_def mq_push_def mq_pop_def posix_mq_send_def posix_mq_receive_def
        bytes_at_def mem_of_list_def copy_obj_def first_index_Suc upt_rec mq_shift_up_eq)
  then show ?thesis
    using posix_mq_priority_fifo [OF h, of ?ops] h(1) by (auto split: prod.splits)
qed

text \<open>
  The result of a send on every branch: \<open>-1\<close> for a null pointer, \<open>-2\<close> for a full queue or
  an oversized message, both without effect, and otherwise \<open>0\<close>, the message then standing
  behind every queued message of at least its priority and before the others.
\<close>

theorem posix_mq_send_branches:
  "posix_mq_send None msg sz priority = (- 1, None) \<and>
   posix_mq_send (Some q) None sz priority = (- 1, Some q) \<and>
   (if mq_msg_count q \<ge> mq_max_msgs q \<or> sz > mq_max_msgsize q
    then posix_mq_send (Some q) (Some src) sz priority = (- 2, Some q)
    else \<exists>q'. posix_mq_send (Some q) (Some src) sz priority = (0, Some q') \<and>
      mq_msg_count q' = Suc (mq_msg_count q) \<and>
      mq_contents q' = prio_insert (priority, bytes_at src 0 sz) (mq_contents q))"
proof (cases "mq_msg_count q \<ge> mq_max_msgs q \<or> sz > mq_max_msgsize q")
  case True
  then show ?thesis by (auto simp: posix_mq_send_def split: option.splits)
next
  case False
  then show ?thesis using posix_mq_send_refines [of q sz src priority]
    by (auto simp: posix_mq_send_def split: option.splits)
qed

text \<open>
  A new queue takes its limits from the caller unchecked, so a queue opened with more
  than \<open>POSIX_MQ_MSG_MAX\<close> messages accepts that many sends although its array \<open>msgs\<close> has
  only \<open>POSIX_MQ_MSG_MAX\<close> elements: the send after that writes past the end of the array.
\<close>

theorem posix_mq_open_unclamped:
  assumes "mqm_count m < POSIX_MQ_MAX"
    and "\<forall>i<mqm_count m. mq_name (mqm_queues m i) \<noteq> nm"
    and "max_msgs > POSIX_MQ_MSG_MAX"
  shows "\<exists>h m' q. posix_mq_open (Some m) (Some nm) flags max_msgs sz = (Some h, Some m') \<and>
    mq_fill (POSIX_MQ_MSG_MAX + 1) (mqm_queues m' h) = Some q \<and>
    mq_msg_count q > POSIX_MQ_MSG_MAX"
proof -
  let ?q = "mq_zero\<lparr>mq_name := take 255 nm, mq_flags := flags, mq_max_msgs := max_msgs,
     mq_max_msgsize := (if sz > 0 then sz else POSIX_MQ_MSG_SIZE), mq_ref_count := 1\<rparr>"
  let ?m = "m\<lparr>mqm_queues := (mqm_queues m)(mqm_count m := ?q), mqm_count := mqm_count m + 1\<rparr>"
  have "first_index (\<lambda>i. mq_name (mqm_queues m i) = nm) (mqm_count m) = None"
    using assms(2) by (simp add: first_index_None)
  with assms have op: "posix_mq_open (Some m) (Some nm) flags max_msgs sz = (Some (mqm_count m), Some ?m)"
    by (simp add: posix_mq_open_def Let_def)
  have "mq_msg_count ?q + (POSIX_MQ_MSG_MAX + 1) \<le> mq_max_msgs ?q"
    using assms(3) by (simp add: mq_zero_def)
  from mq_fill_ok [OF this] obtain q where
    "mq_fill (POSIX_MQ_MSG_MAX + 1) ?q = Some q" "mq_msg_count q = POSIX_MQ_MSG_MAX + 1"
    by (auto simp: mq_zero_def)
  then show ?thesis
    by (intro exI [of _ "mqm_count m"] exI [of _ ?m] exI [of _ q]) (simp add: op)
qed

theorem posix_mq_open_unclamped_witness:
  "\<exists>h m' q. posix_mq_open (Some two_queues) (Some ''c'') 0 200 0 = (Some h, Some m') \<and>
    mq_fill (POSIX_MQ_MSG_MAX + 1) (mqm_queues m' h) = Some q \<and> mq_msg_count q > POSIX_MQ_MSG_MAX"
  by (rule posix_mq_open_unclamped) (auto simp: two_queues_def mq_zero_def less_Suc_eq numeral_2_eq_2)

text \<open>
  Closing the last reference of a queue moves the queue of the last slot into the freed
  slot. The closed handle then denotes that other queue, and the handle of the moved queue,
  which is still open, lies beyond the table: the next queue that is opened takes its slot.
\<close>

theorem posix_mq_close_moves_queue:
  assumes "h < l" and "mqm_count m = Suc l" and "mqm_count m \<le> POSIX_MQ_MAX"
    and "mq_ref_count (mqm_queues m h) = 1"
    and "\<forall>i\<le>l. mq_name (mqm_queues m i) \<noteq> nm" and "length nm \<le> 255"
  shows "\<exists>m1 m2. posix_mq_close (Some m) (Some h) = (0, Some m1) \<and>
    mqm_queues m1 h = mqm_queues m l \<and>
    posix_mq_open (Some m1) (Some nm) flags k sz = (Some l, Some m2) \<and>
    mq_name (mqm_queues m2 l) = nm"
proof -
  have "first_index (\<lambda>i. i = h) (Suc l) = Some h"
    using assms(1) by (intro first_index_SomeI) auto
  then have "\<exists>m1. posix_mq_close (Some m) (Some h) = (0, Some m1) \<and> mqm_count m1 = l \<and>
      mqm_queues m1 = (mqm_queues m)(h := mqm_queues m l)"
    using assms(1-4) by (simp add: posix_mq_close_def Let_def)
  then obtain m1 where m1: "posix_mq_close (Some m) (Some h) = (0, Some m1)" "mqm_count m1 = l"
      "mqm_queues m1 = (mqm_queues m)(h := mqm_queues m l)" by blast
  have "first_index (\<lambda>i. mq_name (mqm_queues m1 i) = nm) l = None"
    using assms(1,5) by (auto simp: first_index_None m1(3))
  then have "\<exists>m2. posix_mq_open (Some m1) (Some nm) flags k sz = (Some l, Some m2) \<and>
      mq_name (mqm_queues m2 l) = nm"
    using assms(2,3,6) by (simp add: posix_mq_open_def Let_def m1(2))
  then show ?thesis using m1 assms(1) by auto
qed

theorem posix_mq_close_moves_queue_witness:
  "\<exists>m1 m2. posix_mq_close (Some two_queues) (Some 0) = (0, Some m1) \<and>
    mqm_queues m1 0 = mqm_queues two_queues 1 \<and>
    posix_mq_open (Some m1) (Some ''c'') 0 4 16 = (Some 1, Some m2) \<and>
    mq_name (mqm_queues m2 1) = ''c''"
  by (rule posix_mq_close_moves_queue)
    (auto simp: two_queues_def mq_zero_def less_Suc_eq le_Suc_eq One_nat_def)

end
