(* ===== verification/SysvIpc.thy ===== *)
theory SysvIpc
  imports Interfaces
begin

text \<open>
  System V IPC of \<open>kernel/ipc/src/ipc.c\<close>: shared memory segments, semaphore sets and message
  queues, each a table of objects found by key and named by their index. A \<open>void*\<close> address
  of a segment is a natural number, \<open>NULL\<close> is 0. A caller's buffer for the permissions is
  an option of the permission record; a message buffer is the \<open>long\<close> type and the text
  behind it, as the code casts it. The singly linked list of messages between \<open>first\<close> and
  \<open>last\<close> is a list.
\<close>

abbreviation (input) SYSV_IPC_KEY_NONE :: int where "SYSV_IPC_KEY_NONE \<equiv> 0"
abbreviation (input) SYSV_SHM_MAX :: nat where "SYSV_SHM_MAX \<equiv> 64"
abbreviation (input) SYSV_SHM_SIZE_MAX :: nat where "SYSV_SHM_SIZE_MAX \<equiv> 4194304"
abbreviation (input) SYSV_SEM_MAX :: nat where "SYSV_SEM_MAX \<equiv> 64"
abbreviation (input) SYSV_SEM_PER_SET :: nat where "SYSV_SEM_PER_SET \<equiv> 16"
abbreviation (input) SYSV_MSG_MAX :: nat where "SYSV_MSG_MAX \<equiv> 64"
abbreviation (input) SYSV_MSG_TEXT_MAX :: u32 where "SYSV_MSG_TEXT_MAX \<equiv> 8192"

record sysv_ipc_perm_t =
  ip_key :: int
  ip_id :: int
  ip_uid :: int
  ip_gid :: int
  ip_mode :: u16
  ip_ref_count :: int

definition ipc_perm_zero :: sysv_ipc_perm_t where
  "ipc_perm_zero = \<lparr>ip_key = 0, ip_id = 0, ip_uid = 0, ip_gid = 0, ip_mode = 0, ip_ref_count = 0\<rparr>"

text \<open>\<open>(int)(base | count)\<close>, the key the kernel makes up for a private object.\<close>

definition private_key :: "u32 \<Rightarrow> nat \<Rightarrow> int" where
  "private_key base n = sint (base OR word_of_nat n)"

section \<open>Shared memory\<close>

record sysv_shm_t =
  sh_perm :: sysv_ipc_perm_t
  sh_addr :: nat
  sh_size :: nat
  sh_attached :: int
  sh_attach_count :: int

record sysv_shm_manager_t =
  shm_shms :: "nat \<Rightarrow> sysv_shm_t"
  shm_count :: nat

definition shm_zero :: sysv_shm_t where
  "shm_zero = \<lparr>sh_perm = ipc_perm_zero, sh_addr = 0, sh_size = 0, sh_attached = 0, sh_attach_count = 0\<rparr>"

definition sysv_shm_init :: "sysv_shm_manager_t option \<Rightarrow> sysv_shm_manager_t option" where
  "sysv_shm_init mgr = (case mgr of None \<Rightarrow> None
     | Some _ \<Rightarrow> Some \<lparr>shm_shms = (\<lambda>_. shm_zero), shm_count = 0\<rparr>)"

definition sysv_shmget ::
  "sysv_shm_manager_t option \<Rightarrow> int \<Rightarrow> nat \<Rightarrow> int \<Rightarrow> int \<times> sysv_shm_manager_t option" where
  "sysv_shmget mgr key sz flags = (case mgr of None \<Rightarrow> (- 1, mgr)
     | Some m \<Rightarrow>
        (case (if key \<noteq> SYSV_IPC_KEY_NONE
               then first_index (\<lambda>i. ip_key (sh_perm (shm_shms m i)) = key) (shm_count m) else None) of
           Some i \<Rightarrow> if flags AND 512 \<noteq> 0 then (- 2, mgr)
                     else (ip_id (sh_perm (shm_shms m i)), mgr)
         | None \<Rightarrow>
             if shm_count m \<ge> SYSV_SHM_MAX then (- 3, mgr)
             else if sz > SYSV_SHM_SIZE_MAX then (- 4, mgr)
             else
               let shm = shm_zero\<lparr>sh_perm := ipc_perm_zero\<lparr>
                       ip_key := (if key = SYSV_IPC_KEY_NONE then private_key 0xF0000000 (shm_count m) else key),
                       ip_id := int (shm_count m), ip_mode := of_int (flags AND 511)\<rparr>,
                     sh_size := sz, sh_addr := 0\<rparr>
               in (ip_id (sh_perm shm),
                   Some (m\<lparr>shm_shms := (shm_shms m)(shm_count m := shm), shm_count := shm_count m + 1\<rparr>))))"

definition sysv_shmat ::
  "sysv_shm_manager_t option \<Rightarrow> int \<Rightarrow> nat \<Rightarrow> int \<Rightarrow> nat \<times> sysv_shm_manager_t option" where
  "sysv_shmat mgr shmid addr flags = (case mgr of None \<Rightarrow> (0, mgr)
     | Some m \<Rightarrow>
         if shmid < 0 \<or> shmid \<ge> int (shm_count m) then (0, mgr)
         else
           let shm = shm_shms m (nat shmid);
               shm1 = (if sh_addr shm = 0 then shm\<lparr>sh_addr := 0x10000000\<rparr> else shm);
               shm2 = shm1\<lparr>sh_attach_count := sh_attach_count shm1 + 1, sh_attached := 1\<rparr>
           in (sh_addr shm2, Some (m\<lparr>shm_shms := (shm_shms m)(nat shmid := shm2)\<rparr>)))"

definition sysv_shmdt :: "sysv_shm_manager_t option \<Rightarrow> nat \<Rightarrow> int \<times> sysv_shm_manager_t option" where
  "sysv_shmdt mgr addr = (case mgr of None \<Rightarrow> (- 1, mgr)
     | Some m \<Rightarrow>
        (case first_index (\<lambda>i. sh_addr (shm_shms m i) = addr) (shm_count m) of
           Some i \<Rightarrow>
             let shm = (shm_shms m i)\<lparr>sh_attach_count := sh_attach_count (shm_shms m i) - 1\<rparr>;
                 shm1 = (if sh_attach_count shm \<le> 0 then shm\<lparr>sh_attached := 0\<rparr> else shm)
             in (0, Some (m\<lparr>shm_shms := (shm_shms m)(i := shm1)\<rparr>))
         | None \<Rightarrow> (- 2, mgr)))"

definition sysv_shmctl ::
  "sysv_shm_manager_t option \<Rightarrow> int \<Rightarrow> int \<Rightarrow> sysv_ipc_perm_t option \<Rightarrow>
     int \<times> sysv_shm_manager_t option \<times> sysv_ipc_perm_t option" where
  "sysv_shmctl mgr shmid cmd buf = (case mgr of None \<Rightarrow> (- 1, mgr, buf)
     | Some m \<Rightarrow>
         if shmid < 0 \<or> shmid \<ge> int (shm_count m) then (- 2, mgr, buf)
         else
           let shm = shm_shms m (nat shmid)
           in if cmd = 0 then (0, mgr, map_option (\<lambda>_. sh_perm shm) buf)
              else if cmd = 1 then
                if sh_attached shm \<noteq> 0 \<or> sh_attach_count shm > 0 then (- 3, mgr, buf)
                else (0, Some (m\<lparr>shm_shms := (shm_shms m)(nat shmid :=
                         shm\<lparr>sh_perm := (sh_perm shm)\<lparr>ip_key := SYSV_IPC_KEY_NONE\<rparr>\<rparr>)\<rparr>), buf)
              else (0, mgr, buf))"

section \<open>Semaphore sets\<close>

record sysv_sem_val_t =
  sv_val :: "16 word"
  sv_semadj :: "16 word"
  sv_semncnt :: u16
  sv_semzcnt :: u16

record sysv_sem_t =
  sm_perm :: sysv_ipc_perm_t
  sm_sems :: "nat \<Rightarrow> sysv_sem_val_t"
  sm_sem_count :: int

record sysv_sem_manager_t =
  smm_sems :: "nat \<Rightarrow> sysv_sem_t"
  smm_count :: nat

definition sem_zero :: sysv_sem_t where
  "sem_zero = \<lparr>sm_perm = ipc_perm_zero,
     sm_sems = (\<lambda>_. \<lparr>sv_val = 0, sv_semadj = 0, sv_semncnt = 0, sv_semzcnt = 0\<rparr>), sm_sem_count = 0\<rparr>"

definition sysv_sem_init :: "sysv_sem_manager_t option \<Rightarrow> sysv_sem_manager_t option" where
  "sysv_sem_init mgr = (case mgr of None \<Rightarrow> None
     | Some _ \<Rightarrow> Some \<lparr>smm_sems = (\<lambda>_. sem_zero), smm_count = 0\<rparr>)"

definition sysv_semget ::
  "sysv_sem_manager_t option \<Rightarrow> int \<Rightarrow> int \<Rightarrow> int \<Rightarrow> int \<times> sysv_sem_manager_t option" where
  "sysv_semget mgr key nsems flags = (case mgr of None \<Rightarrow> (- 1, mgr)
     | Some m \<Rightarrow>
        if nsems \<le> 0 \<or> nsems > int SYSV_SEM_PER_SET then (- 1, mgr)
        else
        (case (if key \<noteq> SYSV_IPC_KEY_NONE
               then first_index (\<lambda>i. ip_key (sm_perm (smm_sems m i)) = key) (smm_count m) else None) of
           Some i \<Rightarrow> (ip_id (sm_perm (smm_sems m i)), mgr)
         | None \<Rightarrow>
             if smm_count m \<ge> SYSV_SEM_MAX then (- 2, mgr)
             else
               let sem = sem_zero\<lparr>sm_perm := ipc_perm_zero\<lparr>
                       ip_key := (if key = SYSV_IPC_KEY_NONE then private_key 0xE0000000 (smm_count m) else key),
                       ip_id := int (smm_count m), ip_mode := of_int (flags AND 511)\<rparr>,
                     sm_sem_count := nsems\<rparr>
               in (ip_id (sm_perm sem),
                   Some (m\<lparr>smm_sems := (smm_sems m)(smm_count m := sem), smm_count := smm_count m + 1\<rparr>))))"

text \<open>The loop of \<open>sysv_semop\<close> over the operations \<open>i\<close>, \<open>i + 1\<close>, \<open>\<dots>\<close>.\<close>

function semop_loop :: "(nat \<Rightarrow> int) \<Rightarrow> int \<Rightarrow> nat \<Rightarrow> sysv_sem_t \<Rightarrow> int \<times> sysv_sem_t" where
  "semop_loop ops nops i sem =
     (if int i < nops then
        let sem_num = ops (i * 2); sem_op = ops (i * 2 + 1)
        in if sem_num < 0 \<or> sem_num \<ge> sm_sem_count sem then (- 3, sem)
           else
             let s = sm_sems sem (nat sem_num)
             in semop_loop ops nops (i + 1)
                  (sem\<lparr>sm_sems := (sm_sems sem)(nat sem_num := s\<lparr>sv_val := sv_val s + of_int sem_op\<rparr>)\<rparr>)
      else (0, sem))"
  by pat_completeness auto
termination
  by (relation "measure (\<lambda>(ops, nops, i, sem). nat (nops - int i))") auto

declare semop_loop.simps [simp del]

definition sysv_semop ::
  "sysv_sem_manager_t option \<Rightarrow> int \<Rightarrow> (nat \<Rightarrow> int) option \<Rightarrow> int \<Rightarrow> int \<times> sysv_sem_manager_t option" where
  "sysv_semop mgr semid ops nops = (case (mgr, ops) of
       (Some m, Some os) \<Rightarrow>
         if semid < 0 \<or> semid \<ge> int (smm_count m) then (- 2, mgr)
         else (case semop_loop os nops 0 (smm_sems m (nat semid)) of
                 (r, sem) \<Rightarrow> (r, Some (m\<lparr>smm_sems := (smm_sems m)(nat semid := sem)\<rparr>)))
     | _ \<Rightarrow> (- 1, mgr))"

text \<open>
  The \<open>void* arg\<close> of \<open>sysv_semctl\<close> is an \<open>int*\<close> or a permission buffer; read or written as
  an \<open>int\<close>, a permission buffer shows its first field.
\<close>

datatype sem_arg = Sem_int int | Sem_perm sysv_ipc_perm_t

fun sem_arg_get :: "sem_arg \<Rightarrow> int" where
  "sem_arg_get (Sem_int v) = v"
| "sem_arg_get (Sem_perm p) = ip_key p"

fun sem_arg_set :: "int \<Rightarrow> sem_arg \<Rightarrow> sem_arg" where
  "sem_arg_set v (Sem_int _) = Sem_int v"
| "sem_arg_set v (Sem_perm p) = Sem_perm (p\<lparr>ip_key := v\<rparr>)"

definition sysv_semctl ::
  "sysv_sem_manager_t option \<Rightarrow> int \<Rightarrow> int \<Rightarrow> int \<Rightarrow> sem_arg option \<Rightarrow>
     int \<times> sysv_sem_manager_t option \<times> sem_arg option" where
  "sysv_semctl mgr semid semnum cmd arg = (case mgr of None \<Rightarrow> (- 1, mgr, arg)
     | Some m \<Rightarrow>
         if semid < 0 \<or> semid \<ge> int (smm_count m) then (- 2, mgr, arg)
         else
           let sem = smm_sems m (nat semid); s = sm_sems sem (nat semnum);
               ok = (0 \<le> semnum \<and> semnum < sm_sem_count sem)
           in if cmd = 0 then
                (0, mgr, if ok then map_option (sem_arg_set (sint (sv_val s))) arg else arg)
              else if cmd = 1 then
                (case arg of
                   Some a \<Rightarrow>
                     if ok then (0, Some (m\<lparr>smm_sems := (smm_sems m)(nat semid :=
                           sem\<lparr>sm_sems := (sm_sems sem)(nat semnum := s\<lparr>sv_val := of_int (sem_arg_get a)\<rparr>)\<rparr>)\<rparr>), arg)
                     else (0, mgr, arg)
                 | None \<Rightarrow> (0, mgr, arg))
              else if cmd = 2 then (0, mgr, map_option (\<lambda>_. Sem_perm (sm_perm sem)) arg)
              else (0, mgr, arg))"

section \<open>Message queues\<close>

record sysv_msg_node_t =
  mn_mtype :: int
  mn_mtext :: mem
  mn_msize :: u32

record sysv_msg_t =
  mg_perm :: sysv_ipc_perm_t
  mg_nodes :: "sysv_msg_node_t list"
  mg_msg_count :: u32
  mg_msg_bytes :: u32
  mg_max_bytes :: u32

record sysv_msg_manager_t =
  mgm_msgs :: "nat \<Rightarrow> sysv_msg_t"
  mgm_count :: nat

text \<open>The caller's message: a \<open>long\<close> and the text behind it.\<close>

record sysv_msgbuf =
  mb_mtype :: int
  mb_mtext :: mem

definition msg_zero :: sysv_msg_t where
  "msg_zero = \<lparr>mg_perm = ipc_perm_zero, mg_nodes = [], mg_msg_count = 0, mg_msg_bytes = 0, mg_max_bytes = 0\<rparr>"

definition sysv_msg_init :: "sysv_msg_manager_t option \<Rightarrow> sysv_msg_manager_t option" where
  "sysv_msg_init mgr = (case mgr of None \<Rightarrow> None
     | Some _ \<Rightarrow> Some \<lparr>mgm_msgs = (\<lambda>_. msg_zero), mgm_count = 0\<rparr>)"

definition sysv_msgget ::
  "sysv_msg_manager_t option \<Rightarrow> int \<Rightarrow> int \<Rightarrow> int \<times> sysv_msg_manager_t option" where
  "sysv_msgget mgr key flags = (case mgr of None \<Rightarrow> (- 1, mgr)
     | Some m \<Rightarrow>
        (case (if key \<noteq> SYSV_IPC_KEY_NONE
               then first_index (\<lambda>i. ip_key (mg_perm (mgm_msgs m i)) = key) (mgm_count m) else None) of
           Some i \<Rightarrow> (ip_id (mg_perm (mgm_msgs m i)), mgr)
         | None \<Rightarrow>
             if mgm_count m \<ge> SYSV_MSG_MAX then (- 2, mgr)
             else
               let mq = msg_zero\<lparr>mg_perm := ipc_perm_zero\<lparr>
                       ip_key := (if key = SYSV_IPC_KEY_NONE then private_key 0xD0000000 (mgm_count m) else key),
                       ip_id := int (mgm_count m), ip_mode := of_int (flags AND 511)\<rparr>,
                     mg_max_bytes := 16384\<rparr>
               in (ip_id (mg_perm mq),
                   Some (m\<lparr>mgm_msgs := (mgm_msgs m)(mgm_count m := mq), mgm_count := mgm_count m + 1\<rparr>))))"

text \<open>The node that \<open>sysv_msgsnd\<close> fills: the code sets the pointer to \<open>NULL\<close>.\<close>

definition sysv_msg_new_node :: "sysv_msg_node_t option" where
  "sysv_msg_new_node = None"

definition sysv_msg_link :: "sysv_msgbuf \<Rightarrow> u32 \<Rightarrow> sysv_msg_node_t \<Rightarrow> sysv_msg_t \<Rightarrow> sysv_msg_t" where
  "sysv_msg_link msg sz node mq =
     (let text_size = (if sz > 8 then sz - 8 else 0);
          n = node\<lparr>mn_mtype := mb_mtype msg,
                   mn_mtext := copy_obj (mn_mtext node) 0 (mb_mtext msg) 0 (unat text_size),
                   mn_msize := text_size\<rparr>
      in mq\<lparr>mg_nodes := mg_nodes mq @ [n], mg_msg_count := mg_msg_count mq + 1,
            mg_msg_bytes := mg_msg_bytes mq + sz\<rparr>)"

definition sysv_msgsnd ::
  "sysv_msg_manager_t option \<Rightarrow> int \<Rightarrow> sysv_msgbuf option \<Rightarrow> u32 \<Rightarrow> int \<Rightarrow> int \<times> sysv_msg_manager_t option" where
  "sysv_msgsnd mgr msqid msg sz flags = (case (mgr, msg) of
       (Some m, Some b) \<Rightarrow>
         if msqid < 0 \<or> msqid \<ge> int (mgm_count m) then (- 2, mgr)
         else
           let mq = mgm_msgs m (nat msqid)
           in if sz > SYSV_MSG_TEXT_MAX \<or> mg_msg_bytes mq + sz > mg_max_bytes mq then (- 3, mgr)
              else (case sysv_msg_new_node of
                      None \<Rightarrow> (- 4, mgr)
                    | Some node \<Rightarrow> (0, Some (m\<lparr>mgm_msgs := (mgm_msgs m)(nat msqid := sysv_msg_link b sz node mq)\<rparr>)))
     | _ \<Rightarrow> (- 1, mgr))"

definition msg_matches :: "int \<Rightarrow> sysv_msg_node_t \<Rightarrow> bool" where
  "msg_matches mtype cur \<longleftrightarrow> mtype = 0 \<or> (mtype > 0 \<and> mn_mtype cur = mtype) \<or>
     (mtype < 0 \<and> mn_mtype cur \<le> - mtype)"

text \<open>
  The walk along the list with \<open>prev\<close> and \<open>cur\<close>: the first matching node and the list without
  it. The copy size is clipped in \<open>uint32_t\<close>, where \<open>size - sizeof(long)\<close> wraps for a buffer
  shorter than a \<open>long\<close>.
\<close>

fun msg_unlink :: "int \<Rightarrow> sysv_msg_node_t list \<Rightarrow> (sysv_msg_node_t \<times> sysv_msg_node_t list) option" where
  "msg_unlink mtype [] = None"
| "msg_unlink mtype (cur # rest) =
     (if msg_matches mtype cur then Some (cur, rest)
      else map_option (\<lambda>(n, xs). (n, cur # xs)) (msg_unlink mtype rest))"

definition msg_copy_size :: "u32 \<Rightarrow> u32 \<Rightarrow> u32" where
  "msg_copy_size msize sz = (if (ucast msize :: u64) + 8 > ucast sz then sz - 8 else msize)"

definition sysv_msgrcv ::
  "sysv_msg_manager_t option \<Rightarrow> int \<Rightarrow> sysv_msgbuf option \<Rightarrow> u32 \<Rightarrow> int \<Rightarrow> int \<Rightarrow>
     int \<times> sysv_msg_manager_t option \<times> sysv_msgbuf option" where
  "sysv_msgrcv mgr msqid msg sz mtype flags = (case (mgr, msg) of
       (Some m, Some b) \<Rightarrow>
         if msqid < 0 \<or> msqid \<ge> int (mgm_count m) then (- 2, mgr, msg)
         else
           let mq = mgm_msgs m (nat msqid)
           in (case msg_unlink mtype (mg_nodes mq) of
                 None \<Rightarrow> (- 3, mgr, msg)
               | Some (cur, rest) \<Rightarrow>
                   let copy_size = msg_copy_size (mn_msize cur) sz;
                       mq' = mq\<lparr>mg_nodes := rest, mg_msg_count := mg_msg_count mq - 1,
                                mg_msg_bytes := mg_msg_bytes mq - (mn_msize cur + 8)\<rparr>
                   in (sint (copy_size + 8), Some (m\<lparr>mgm_msgs := (mgm_msgs m)(nat msqid := mq')\<rparr>),
                       Some (b\<lparr>mb_mtype := mn_mtype cur,
                               mb_mtext := copy_obj (mb_mtext b) 0 (mn_mtext cur) 0 (unat copy_size)\<rparr>)))
     | _ \<Rightarrow> (- 1, mgr, msg))"

section \<open>The get calls as keyed tables\<close>

definition shm_keys :: "sysv_shm_manager_t \<Rightarrow> int list" where
  "shm_keys m = table (\<lambda>i. ip_key (sh_perm (shm_shms m i))) (shm_count m)"

definition shm_inv :: "sysv_shm_manager_t \<Rightarrow> bool" where
  "shm_inv m \<longleftrightarrow> shm_count m \<le> SYSV_SHM_MAX \<and> (\<forall>i < shm_count m. ip_id (sh_perm (shm_shms m i)) = int i)"

definition shm_get :: "nat \<Rightarrow> int \<Rightarrow> int \<Rightarrow> sysv_shm_manager_t \<Rightarrow> (nat \<times> sysv_shm_manager_t) option" where
  "shm_get sz flags key m = (case sysv_shmget (Some m) key sz flags of
     (r, m') \<Rightarrow> if r < 0 then None else map_option (Pair (nat r)) m')"

definition sem_keys :: "sysv_sem_manager_t \<Rightarrow> int list" where
  "sem_keys m = table (\<lambda>i. ip_key (sm_perm (smm_sems m i))) (smm_count m)"

definition sem_inv :: "sysv_sem_manager_t \<Rightarrow> bool" where
  "sem_inv m \<longleftrightarrow> smm_count m \<le> SYSV_SEM_MAX \<and> (\<forall>i < smm_count m. ip_id (sm_perm (smm_sems m i)) = int i)"

definition sem_get :: "int \<Rightarrow> int \<Rightarrow> int \<Rightarrow> sysv_sem_manager_t \<Rightarrow> (nat \<times> sysv_sem_manager_t) option" where
  "sem_get nsems flags key m = (case sysv_semget (Some m) key nsems flags of
     (r, m') \<Rightarrow> if r < 0 then None else map_option (Pair (nat r)) m')"

definition msg_keys :: "sysv_msg_manager_t \<Rightarrow> int list" where
  "msg_keys m = table (\<lambda>i. ip_key (mg_perm (mgm_msgs m i))) (mgm_count m)"

definition msg_inv :: "sysv_msg_manager_t \<Rightarrow> bool" where
  "msg_inv m \<longleftrightarrow> mgm_count m \<le> SYSV_MSG_MAX \<and> (\<forall>i<mgm_count m. ip_id (mg_perm (mgm_msgs m i)) = int i)"

definition msg_get :: "int \<Rightarrow> int \<Rightarrow> sysv_msg_manager_t \<Rightarrow> (nat \<times> sysv_msg_manager_t) option" where
  "msg_get flags key m = (case sysv_msgget (Some m) key flags of
     (r, m') \<Rightarrow> if r < 0 then None else map_option (Pair (nat r)) m')"

lemma first_index_key:
  "i < n \<Longrightarrow> table f n ! i = k \<Longrightarrow> \<forall>j<i. table f n ! j \<noteq> k \<Longrightarrow> first_index (\<lambda>i. f i = k) n = Some i"
  by (intro first_index_SomeI) auto

lemma first_index_no_key: "k \<notin> set (table f n) \<Longrightarrow> first_index (\<lambda>i. f i = k) n = None"
  by (auto simp: first_index_None in_set_table)

lemmas table_keys = first_index_key first_index_no_key table_Suc table_upd_ge less_Suc_eq

interpretation shm_table: key_table SYSV_SHM_MAX shm_inv shm_keys "shm_get sz flags"
  "\<lambda>k. k \<noteq> SYSV_IPC_KEY_NONE \<and> sz \<le> SYSV_SHM_SIZE_MAX \<and> flags AND 512 = 0" for sz flags
proof (unfold_locales, goal_cases)
  case (2 t k i)
  then show ?case using first_index_key [of i "shm_count t" "\<lambda>i. ip_key (sh_perm (shm_shms t i))" k]
    by (simp add: shm_keys_def shm_inv_def shm_get_def sysv_shmget_def)
next
  case (3 t k)
  then show ?case using first_index_no_key [of k "\<lambda>i. ip_key (sh_perm (shm_shms t i))" "shm_count t"]
    by (auto simp: shm_keys_def shm_inv_def shm_get_def sysv_shmget_def Let_def table_Suc less_Suc_eq
        intro!: table_cong)
next
  case (4 t k)
  then show ?case using first_index_no_key [of k "\<lambda>i. ip_key (sh_perm (shm_shms t i))" "shm_count t"]
    by (simp add: shm_keys_def shm_inv_def shm_get_def sysv_shmget_def)
qed (simp add: shm_inv_def shm_keys_def)

interpretation sem_table: key_table SYSV_SEM_MAX sem_inv sem_keys "sem_get nsems flags"
  "\<lambda>k. k \<noteq> SYSV_IPC_KEY_NONE \<and> 0 < nsems \<and> nsems \<le> int SYSV_SEM_PER_SET" for nsems flags
proof (unfold_locales, goal_cases)
  case (2 t k i)
  then show ?case using first_index_key [of i "smm_count t" "\<lambda>i. ip_key (sm_perm (smm_sems t i))" k]
    by (simp add: sem_keys_def sem_inv_def sem_get_def sysv_semget_def)
next
  case (3 t k)
  then show ?case using first_index_no_key [of k "\<lambda>i. ip_key (sm_perm (smm_sems t i))" "smm_count t"]
    by (auto simp: sem_keys_def sem_inv_def sem_get_def sysv_semget_def Let_def table_Suc less_Suc_eq
        intro!: table_cong)
next
  case (4 t k)
  then show ?case using first_index_no_key [of k "\<lambda>i. ip_key (sm_perm (smm_sems t i))" "smm_count t"]
    by (simp add: sem_keys_def sem_inv_def sem_get_def sysv_semget_def)
qed (simp add: sem_inv_def sem_keys_def)

interpretation msg_table: key_table SYSV_MSG_MAX msg_inv msg_keys "msg_get flags"
  "\<lambda>k. k \<noteq> SYSV_IPC_KEY_NONE" for flags
proof (unfold_locales, goal_cases)
  case (2 t k i)
  then show ?case using first_index_key [of i "mgm_count t" "\<lambda>i. ip_key (mg_perm (mgm_msgs t i))" k]
    by (simp add: msg_keys_def msg_inv_def msg_get_def sysv_msgget_def)
next
  case (3 t k)
  then show ?case using first_index_no_key [of k "\<lambda>i. ip_key (mg_perm (mgm_msgs t i))" "mgm_count t"]
    by (auto simp: msg_keys_def msg_inv_def msg_get_def sysv_msgget_def Let_def table_Suc less_Suc_eq
        intro!: table_cong)
next
  case (4 t k)
  then show ?case using first_index_no_key [of k "\<lambda>i. ip_key (mg_perm (mgm_msgs t i))" "mgm_count t"]
    by (simp add: msg_keys_def msg_inv_def msg_get_def sysv_msgget_def)
qed (simp add: msg_inv_def msg_keys_def)

section \<open>Semaphore operations\<close>

text \<open>
  What \<open>sysv_semop\<close> does to a set: the operations before the first bad semaphore number
  are all applied, whatever its result.
\<close>

definition semop_valid :: "(nat \<Rightarrow> int) \<Rightarrow> sysv_sem_t \<Rightarrow> nat \<Rightarrow> bool" where
  "semop_valid ops sem i \<longleftrightarrow> 0 \<le> ops (i * 2) \<and> ops (i * 2) < sm_sem_count sem"

definition semop_sum :: "(nat \<Rightarrow> int) \<Rightarrow> nat \<Rightarrow> nat \<Rightarrow> nat \<Rightarrow> 16 word" where
  "semop_sum ops i k j = (\<Sum>l\<leftarrow>filter (\<lambda>l. ops (l * 2) = int j) [i..<k]. of_int (ops (l * 2 + 1)))"

lemma semop_loop_spec:
  assumes "i \<le> k" and "\<forall>l. i \<le> l \<and> l < k \<longrightarrow> semop_valid ops sem l"
    and "int k = nops \<or> (int k < nops \<and> \<not> semop_valid ops sem k)"
  shows "\<exists>sem'. semop_loop ops nops i sem = (if int k = nops then 0 else - 3, sem') \<and>
    sm_sem_count sem' = sm_sem_count sem \<and> sm_perm sem' = sm_perm sem \<and>
    (\<forall>j. sv_val (sm_sems sem' j) = sv_val (sm_sems sem j) + semop_sum ops i k j)"
  using assms
proof (induction ops nops i sem rule: semop_loop.induct)
  case (1 ops nops i sem)
  show ?case
  proof (cases "i = k")
    case True
    then show ?thesis using "1.prems"(3)
      by (auto simp: semop_loop.simps [of ops nops k sem] semop_valid_def semop_sum_def Let_def)
  next
    case False
    let ?n = "nat (ops (i * 2))"
    let ?sem = "sem\<lparr>sm_sems := (sm_sems sem)(?n := (sm_sems sem ?n)
        \<lparr>sv_val := sv_val (sm_sems sem ?n) + of_int (ops (i * 2 + 1))\<rparr>)\<rparr>"
    have v: "semop_valid ops sem i" and lt: "i < k" "int i < nops" using False "1.prems" by auto
    have valid: "semop_valid ops ?sem l = semop_valid ops sem l" for l
      by (simp add: semop_valid_def)
    have step: "semop_loop ops nops i sem = semop_loop ops nops (i + 1) ?sem"
      using v lt by (simp add: semop_loop.simps [of ops nops i sem] semop_valid_def Let_def)
    have "\<exists>sem'. semop_loop ops nops (i + 1) ?sem = (if int k = nops then 0 else - 3, sem') \<and>
      sm_sem_count sem' = sm_sem_count ?sem \<and> sm_perm sem' = sm_perm ?sem \<and>
      (\<forall>j. sv_val (sm_sems sem' j) = sv_val (sm_sems ?sem j) + semop_sum ops (i + 1) k j)"
      by (rule "1.IH" [OF lt(2) refl refl _ refl])
        (use v lt "1.prems" in \<open>auto simp: semop_valid_def\<close>)
    then obtain sem' where s: "semop_loop ops nops (i + 1) ?sem = (if int k = nops then 0 else - 3, sem')"
      "sm_sem_count sem' = sm_sem_count sem" "sm_perm sem' = sm_perm sem"
      "\<And>j. sv_val (sm_sems sem' j) = sv_val (sm_sems ?sem j) + semop_sum ops (i + 1) k j" by auto
    have "semop_sum ops i k j = (if j = ?n then of_int (ops (i * 2 + 1)) else 0) + semop_sum ops (i + 1) k j" for j
      using lt v by (auto simp: semop_sum_def upt_conv_Cons semop_valid_def)
    with s step show ?thesis by (auto simp: fun_upd_def)
  qed
qed

section \<open>The message queue managers the kernel can reach\<close>

inductive msg_reach :: "sysv_msg_manager_t \<Rightarrow> bool" where
  init: "sysv_msg_init (Some m0) = Some m \<Longrightarrow> msg_reach m"
| get: "msg_reach m \<Longrightarrow> sysv_msgget (Some m) key flags = (r, Some m') \<Longrightarrow> msg_reach m'"
| snd: "msg_reach m \<Longrightarrow> sysv_msgsnd (Some m) i msg sz flags = (r, Some m') \<Longrightarrow> msg_reach m'"
| rcv: "msg_reach m \<Longrightarrow> sysv_msgrcv (Some m) i msg sz mtype flags = (r, Some m', msg') \<Longrightarrow> msg_reach m'"

inductive_cases msg_reach_cases: "msg_reach m"

definition no_messages :: "sysv_msg_manager_t \<Rightarrow> bool" where
  "no_messages m \<longleftrightarrow> (\<forall>i < mgm_count m. mg_nodes (mgm_msgs m i) = [])"

lemma msgget_no_messages:
  "no_messages m \<Longrightarrow> sysv_msgget (Some m) key flags = (r, Some m') \<Longrightarrow> no_messages m'"
  by (auto simp: sysv_msgget_def no_messages_def Let_def msg_zero_def less_Suc_eq
      split: option.splits if_splits)

lemma msgsnd_fails:
  "sysv_msgsnd (Some m) i msg sz flags = (r, m') \<Longrightarrow> m' = Some m \<and> r < 0"
  by (auto simp: sysv_msgsnd_def Let_def sysv_msg_new_node_def split: option.splits if_splits)

lemma msgrcv_empty:
  "no_messages m \<Longrightarrow> sysv_msgrcv (Some m) i msg sz mtype flags = (r, m', msg') \<Longrightarrow>
     m' = Some m \<and> r < 0 \<and> msg' = msg"
  by (auto simp: sysv_msgrcv_def Let_def no_messages_def split: option.splits if_splits)

lemma msg_reach_no_messages: "msg_reach m \<Longrightarrow> no_messages m"
proof (induction rule: msg_reach.induct)
  case (init m0 m)
  then show ?case by (auto simp: sysv_msg_init_def no_messages_def)
next
  case (get m key flags r m')
  then show ?case using msgget_no_messages by blast
next
  case (snd m i msg sz flags r m')
  then show ?case using msgsnd_fails by blast
next
  case (rcv m i msg sz mtype flags r m' msg')
  then show ?case using msgrcv_empty by blast
qed

section \<open>Properties\<close>

definition shm_manager0 :: sysv_shm_manager_t where
  "shm_manager0 = \<lparr>shm_shms = (\<lambda>_. shm_zero), shm_count = 0\<rparr>"

definition msg_manager1 :: sysv_msg_manager_t where
  "msg_manager1 = the (snd (sysv_msgget (sysv_msg_init (Some
     \<lparr>mgm_msgs = (\<lambda>_. msg_zero), mgm_count = 0\<rparr>)) 5 0))"

definition sem_manager1 :: sysv_sem_manager_t where
  "sem_manager1 = \<lparr>smm_sems = (\<lambda>_. sem_zero\<lparr>sm_sem_count := 2\<rparr>), smm_count = 1\<rparr>"

definition semops :: "int list \<Rightarrow> nat \<Rightarrow> int" where
  "semops xs = (\<lambda>i. if i < length xs then xs ! i else 0)"

text \<open>
  C12. Objects found by key are stable and never shared: on a well-formed table of segments,
  after \<open>sysv_shmget\<close> of two different public keys (not 0) has succeeded, both with the same size of at most
  \<open>SYSV_SHM_SIZE_MAX\<close> and the same flags without the exclusive bit 01000, the two ids differ, the table is still well-formed,
  and asking again for the first key, with the same size and flags, returns its first id and changes nothing.
\<close>

theorem sysv_shmget_keys_distinct:
  assumes "shm_inv m" and "k \<noteq> 0" and "k' \<noteq> 0" and "k \<noteq> k'"
    and "sz \<le> SYSV_SHM_SIZE_MAX" and "flags AND 512 = 0"
    and "sysv_shmget (Some m) k sz flags = (r, Some m1)" and "0 \<le> r"
    and "sysv_shmget (Some m1) k' sz flags = (r', Some m2)" and "0 \<le> r'"
  shows "shm_inv m2 \<and> r \<noteq> r' \<and> sysv_shmget (Some m2) k sz flags = (r, Some m2)"
proof -
  have g: "shm_get sz flags k m = Some (nat r, m1)" "shm_get sz flags k' m1 = Some (nat r', m2)"
    using assms(7-10) by (simp_all add: shm_get_def)
  have inv: "shm_inv m1" "shm_inv m2"
    using shm_table.get_result [OF assms(1) _ g(1)] shm_table.get_result [OF _ _ g(2)] assms(2,3,5,6)
    by auto
  have d: "nat r \<noteq> nat r'" "shm_get sz flags k m2 = Some (nat r, m2)"
    using shm_table.get_distinct [OF assms(1) _ _ assms(4) g] assms(2,3,5,6) by auto
  obtain x y where xy: "sysv_shmget (Some m2) k sz flags = (x, y)" by force
  with d(2) have "0 \<le> x" "y = Some m2" "nat x = nat r"
    by (auto simp: shm_get_def split: if_splits)
  then have "x = r" using assms(8) by (simp add: eq_nat_nat_iff)
  with xy \<open>y = Some m2\<close> d(1) inv show ?thesis by auto
qed

theorem sysv_shmget_keys_distinct_witness:
  "\<exists>m1 m2. sysv_shmget (Some shm_manager0) 7 100 0 = (0, Some m1) \<and>
     sysv_shmget (Some m1) 9 100 0 = (1, Some m2) \<and> sysv_shmget (Some m2) 7 100 0 = (0, Some m2)"
proof -
  obtain m1 where m1: "sysv_shmget (Some shm_manager0) 7 100 0 = (0, Some m1)"
    by (simp add: sysv_shmget_def shm_manager0_def)
  then have "\<exists>m2. sysv_shmget (Some m1) 9 100 0 = (1, Some m2)"
    by (auto simp: sysv_shmget_def shm_manager0_def first_index_Suc)
  then obtain m2 where m2: "sysv_shmget (Some m1) 9 100 0 = (1, Some m2)" by blast
  have "shm_inv shm_manager0" by (simp add: shm_inv_def shm_manager0_def)
  from sysv_shmget_keys_distinct [OF this _ _ _ _ _ m1 _ m2] m1 m2 show ?thesis by auto
qed

text \<open>
  Every segment is attached at the same address: attaching two different segments of a
  fresh manager gives one address twice, and detaching that address always detaches the
  first of them, so the second segment stays attached for ever and cannot be removed.
\<close>

theorem sysv_shmat_one_address:
  assumes "i < j" and "j < shm_count m" and "\<forall>l < shm_count m. sh_addr (shm_shms m l) = 0"
    and "sh_attach_count (shm_shms m j) = 0"
  shows "\<exists>a m1 m2 m3. sysv_shmat (Some m) (int i) addr flags = (a, Some m1) \<and>
    sysv_shmat (Some m1) (int j) addr' flags' = (a, Some m2) \<and>
    sysv_shmdt (Some m2) a = (0, Some m3) \<and>
    shm_shms m3 j = shm_shms m2 j \<and> sh_attach_count (shm_shms m3 j) = 1 \<and>
    fst (sysv_shmctl (Some m3) (int j) 1 buf) = - 3"
proof -
  have ex1: "\<exists>m1. sysv_shmat (Some m) (int i) addr flags = (0x10000000, Some m1) \<and>
      shm_count m1 = shm_count m \<and> sh_addr (shm_shms m1 i) = 0x10000000 \<and>
      (\<forall>l. l \<noteq> i \<longrightarrow> shm_shms m1 l = shm_shms m l)"
    using assms by (auto simp: sysv_shmat_def Let_def)
  then obtain m1 where m1: "sysv_shmat (Some m) (int i) addr flags = (0x10000000, Some m1)"
    "shm_count m1 = shm_count m" "sh_addr (shm_shms m1 i) = 0x10000000"
    "\<And>l. l \<noteq> i \<Longrightarrow> shm_shms m1 l = shm_shms m l" by blast
  have "\<exists>m2. sysv_shmat (Some m1) (int j) addr' flags' = (0x10000000, Some m2) \<and>
      shm_count m2 = shm_count m \<and> sh_addr (shm_shms m2 i) = 0x10000000 \<and>
      sh_attach_count (shm_shms m2 j) = 1 \<and> sh_attached (shm_shms m2 j) = 1 \<and>
      (\<forall>l<i. shm_shms m2 l = shm_shms m l)"
    using assms m1 by (auto simp: sysv_shmat_def Let_def)
  then obtain m2 where m2: "sysv_shmat (Some m1) (int j) addr' flags' = (0x10000000, Some m2)"
    "shm_count m2 = shm_count m" "sh_addr (shm_shms m2 i) = 0x10000000"
    "sh_attach_count (shm_shms m2 j) = 1" "sh_attached (shm_shms m2 j) = 1"
    "\<And>l. l < i \<Longrightarrow> shm_shms m2 l = shm_shms m l" by blast
  have "first_index (\<lambda>l. sh_addr (shm_shms m2 l) = 0x10000000) (shm_count m2) = Some i"
    using assms m2 by (intro first_index_SomeI) auto
  then have "\<exists>m3. sysv_shmdt (Some m2) 0x10000000 = (0, Some m3) \<and> shm_count m3 = shm_count m \<and>
      shm_shms m3 j = shm_shms m2 j"
    using assms(1) m2(2) by (simp add: sysv_shmdt_def Let_def)
  then obtain m3 where m3: "sysv_shmdt (Some m2) 0x10000000 = (0, Some m3)"
      "shm_count m3 = shm_count m" "shm_shms m3 j = shm_shms m2 j" by blast
  with m2 assms(2) have "fst (sysv_shmctl (Some m3) (int j) 1 buf) = - 3"
    by (simp add: sysv_shmctl_def Let_def)
  with m1 m2 m3 show ?thesis by auto
qed

theorem sysv_shmat_one_address_witness:
  "\<exists>a m1 m2 m3. sysv_shmat (Some \<lparr>shm_shms = (\<lambda>_. shm_zero), shm_count = 2\<rparr>) 0 0 0 = (a, Some m1) \<and>
    sysv_shmat (Some m1) 1 0 0 = (a, Some m2) \<and> sysv_shmdt (Some m2) a = (0, Some m3) \<and>
    shm_shms m3 1 = shm_shms m2 1 \<and> sh_attach_count (shm_shms m3 1) = 1 \<and>
    fst (sysv_shmctl (Some m3) 1 1 None) = - 3"
  using sysv_shmat_one_address [of 0 1 "\<lparr>shm_shms = (\<lambda>_. shm_zero), shm_count = 2\<rparr>" 0 0 0 0 None]
  by (simp add: shm_zero_def)

text \<open>
  A semaphore operation applies its list up to the first bad semaphore number and is not
  undone: with \<open>k\<close> valid operations before the end or the first bad one, every semaphore
  has gained the sum of its operations among those \<open>k\<close> (in 16 bits), and the result is \<open>0\<close>
  or \<open>-3\<close> accordingly. A negative operation is added too, never waited for.
\<close>

theorem sysv_semop_effect:
  assumes "0 \<le> semid" and "semid < int (smm_count m)"
    and "\<forall>l<k. semop_valid ops (smm_sems m (nat semid)) l"
    and "int k = nops \<or> (int k < nops \<and> \<not> semop_valid ops (smm_sems m (nat semid)) k)"
  shows "\<exists>m'. sysv_semop (Some m) semid (Some ops) nops = (if int k = nops then 0 else - 3, Some m') \<and>
    smm_count m' = smm_count m \<and>
    (\<forall>i. i \<noteq> nat semid \<longrightarrow> smm_sems m' i = smm_sems m i) \<and>
    (\<forall>j. sv_val (sm_sems (smm_sems m' (nat semid)) j) =
         sv_val (sm_sems (smm_sems m (nat semid)) j) + semop_sum ops 0 k j)"
  using semop_loop_spec [of 0 k ops "smm_sems m (nat semid)" nops] assms
  by (force simp: sysv_semop_def)

theorem sysv_semop_effect_witness:
  "\<exists>m'. sysv_semop (Some sem_manager1) 0 (Some (semops [0, 3, 9, 1, 1, 1])) 3 = (- 3, Some m') \<and>
    sv_val (sm_sems (smm_sems m' 0) 0) = 3"
  using sysv_semop_effect [of 0 sem_manager1 1 "semops [0, 3, 9, 1, 1, 1]" 3]
  by (auto simp: sem_manager1_def semop_valid_def semops_def semop_sum_def sem_zero_def)

text \<open>
  No System V message is ever sent: the node a send would fill is always \<open>NULL\<close>, so in
  every state that the initialisation and any sequence of get, send and receive calls
  can reach, every send and every receive fails and leaves the manager as it was.
\<close>

theorem sysv_msg_never_delivers:
  assumes "msg_reach m"
  shows "(case sysv_msgsnd (Some m) i msg sz flags of (r, m') \<Rightarrow> r < 0 \<and> m' = Some m) \<and>
    (case sysv_msgrcv (Some m) i msg sz mtype flags of (r, m', msg') \<Rightarrow> r < 0 \<and> m' = Some m \<and> msg' = msg)"
  using msgsnd_fails [of m i msg sz flags] msgrcv_empty [OF msg_reach_no_messages [OF assms], of i msg sz mtype flags]
  by (auto split: prod.splits)

theorem sysv_msg_never_delivers_witness:
  "msg_reach msg_manager1 \<and> mgm_count msg_manager1 = 1 \<and>
   (case sysv_msgsnd (Some msg_manager1) 0 (Some \<lparr>mb_mtype = 1, mb_mtext = (\<lambda>_. 0)\<rparr>) 16 0 of
      (r, m') \<Rightarrow> r < 0 \<and> m' = Some msg_manager1)"
proof -
  let ?m0 = "\<lparr>mgm_msgs = (\<lambda>_. msg_zero), mgm_count = 0\<rparr>"
  have "msg_reach ?m0" by (rule msg_reach.init [of ?m0]) (simp add: sysv_msg_init_def)
  moreover obtain r where "sysv_msgget (Some ?m0) 5 0 = (r, Some msg_manager1)"
    by (simp add: msg_manager1_def sysv_msg_init_def sysv_msgget_def Let_def)
  ultimately have "msg_reach msg_manager1" by (rule msg_reach.get)
  with sysv_msg_never_delivers [OF this, of 0 "Some \<lparr>mb_mtype = 1, mb_mtext = (\<lambda>_. 0)\<rparr>" 16 0]
  show ?thesis by (simp add: msg_manager1_def sysv_msg_init_def sysv_msgget_def Let_def)
qed

end
