(* ===== verification/DevIpc.thy ===== *)
theory DevIpc
  imports Interfaces
begin

text \<open>
  The device side of \<open>kernel/ipc/src/ipc.c\<close>: the kernel message buffers, character
  devices with their driver callbacks, and the event queues of input devices. A driver's
  callback receives the device it belongs to, so it is a parameter of the device: a
  function on the device's data, absent when the pointer is \<open>NULL\<close>. The counters \<open>seq\<close> and
  \<open>seq_counter\<close> are \<open>uint32_t\<close> words; the ring indices of an event queue are kept in range
  by \<open>evdev_inv\<close> and are natural numbers.
\<close>

abbreviation (input) KMSG_BUF_SIZE :: nat where "KMSG_BUF_SIZE \<equiv> 4096"
abbreviation (input) KMSG_MAX :: nat where "KMSG_MAX \<equiv> 8"
abbreviation (input) CHARDEV_MAX :: nat where "CHARDEV_MAX \<equiv> 128"
abbreviation (input) EVDEV_MAX :: nat where "EVDEV_MAX \<equiv> 32"
abbreviation (input) EVDEV_BUF_SIZE :: nat where "EVDEV_BUF_SIZE \<equiv> 256"

section \<open>Kernel messages\<close>

record kmsg_buf_t =
  kb_buf :: mem
  kb_head :: nat
  kb_tail :: nat
  kb_count :: nat
  kb_seq :: u32
  kb_facility :: int
  kb_level :: int

record kmsg_t =
  km_buffers :: "nat \<Rightarrow> kmsg_buf_t"
  km_count :: nat
  km_seq_counter :: u32

definition kmsg_buf_zero :: kmsg_buf_t where
  "kmsg_buf_zero = \<lparr>kb_buf = (\<lambda>_. 0), kb_head = 0, kb_tail = 0, kb_count = 0, kb_seq = 0,
     kb_facility = 0, kb_level = 0\<rparr>"

definition kmsg_init :: "kmsg_t option \<Rightarrow> kmsg_t option" where
  "kmsg_init km = (case km of None \<Rightarrow> None
     | Some _ \<Rightarrow> Some \<lparr>km_buffers = (\<lambda>_. kmsg_buf_zero), km_count = 0, km_seq_counter = 0\<rparr>)"

definition kmsg_write :: "kmsg_t option \<Rightarrow> int \<Rightarrow> int \<Rightarrow> mem option \<Rightarrow> nat \<Rightarrow> int \<times> kmsg_t option" where
  "kmsg_write km facility level msg len = (case (km, msg) of
       (Some k, Some src) \<Rightarrow>
         let slot = km_count k mod KMSG_MAX;
             cnt = (if km_count k < KMSG_MAX then km_count k + 1 else km_count k);
             write_len = (if len < KMSG_BUF_SIZE - 1 then len else KMSG_BUF_SIZE - 1);
             b = km_buffers k slot;
             b' = b\<lparr>kb_buf := (copy_obj (kb_buf b) 0 src 0 write_len)(write_len := 0),
                    kb_head := write_len, kb_tail := 0, kb_count := write_len,
                    kb_facility := facility, kb_level := level, kb_seq := km_seq_counter k\<rparr>
         in (int write_len, Some \<lparr>km_buffers = (km_buffers k)(slot := b'), km_count = cnt,
                                  km_seq_counter = km_seq_counter k + 1\<rparr>)
     | _ \<Rightarrow> (- 1, km))"

definition kmsg_read ::
  "kmsg_t option \<Rightarrow> mem option \<Rightarrow> nat \<Rightarrow> int option \<Rightarrow> int option \<Rightarrow>
     int \<times> kmsg_t option \<times> mem option \<times> int option \<times> int option" where
  "kmsg_read km buf sz facility level = (case (km, buf) of
       (Some k, Some dst) \<Rightarrow>
         if km_count k = 0 then (0, km, buf, facility, level)
         else
           let kbuf = km_buffers k 0;
               read_len = (if kb_count kbuf < sz then kb_count kbuf else sz)
           in (int read_len, km, Some (copy_obj dst 0 (kb_buf kbuf) (kb_tail kbuf) read_len),
               map_option (\<lambda>_. kb_facility kbuf) facility, map_option (\<lambda>_. kb_level kbuf) level)
     | _ \<Rightarrow> (- 1, km, buf, facility, level))"

section \<open>Character devices\<close>

record 'priv chardev_t =
  cd_major :: int
  cd_minor :: int
  cd_name :: string
  cd_ref_count :: int
  cd_priv :: 'priv

record 'priv chardev_ops =
  co_open :: "('priv chardev_t \<Rightarrow> int \<times> 'priv chardev_t) option"
  co_close :: "('priv chardev_t \<Rightarrow> int \<times> 'priv chardev_t) option"
  co_read :: "('priv chardev_t \<Rightarrow> mem \<Rightarrow> nat \<Rightarrow> int \<times> 'priv chardev_t \<times> mem) option"
  co_write :: "('priv chardev_t \<Rightarrow> mem \<Rightarrow> nat \<Rightarrow> int \<times> 'priv chardev_t) option"
  co_ioctl :: "('priv chardev_t \<Rightarrow> u32 \<Rightarrow> nat \<Rightarrow> int \<times> 'priv chardev_t) option"

text \<open>A device is its data and its callbacks; \<open>priv0\<close> is what \<open>memset\<close> leaves in \<open>priv\<close>.\<close>

record 'priv chardev_manager_t =
  cm_devices :: "nat \<Rightarrow> 'priv chardev_t \<times> 'priv chardev_ops"
  cm_count :: nat

definition chardev_zero :: "'priv \<Rightarrow> 'priv chardev_t \<times> 'priv chardev_ops" where
  "chardev_zero priv0 =
     (\<lparr>cd_major = 0, cd_minor = 0, cd_name = [], cd_ref_count = 0, cd_priv = priv0\<rparr>,
      \<lparr>co_open = None, co_close = None, co_read = None, co_write = None, co_ioctl = None\<rparr>)"

definition chardev_init :: "'priv \<Rightarrow> 'priv chardev_manager_t option \<Rightarrow> 'priv chardev_manager_t option" where
  "chardev_init priv0 mgr = (case mgr of None \<Rightarrow> None
     | Some _ \<Rightarrow> Some \<lparr>cm_devices = (\<lambda>_. chardev_zero priv0), cm_count = 0\<rparr>)"

definition chardev_register ::
  "'priv \<Rightarrow> 'priv chardev_manager_t option \<Rightarrow> int \<Rightarrow> int \<Rightarrow> string option \<Rightarrow>
     int \<times> 'priv chardev_manager_t option" where
  "chardev_register priv0 mgr major minor name = (case (mgr, name) of
       (Some m, Some nm) \<Rightarrow>
         if cm_count m \<ge> CHARDEV_MAX then (- 2, mgr)
         else
           let dev = (fst (chardev_zero priv0))\<lparr>cd_major := major, cd_minor := minor, cd_name := take 31 nm\<rparr>
           in (0, Some (m\<lparr>cm_devices := (cm_devices m)(cm_count m := (dev, snd (chardev_zero priv0))),
                          cm_count := cm_count m + 1\<rparr>))
     | _ \<Rightarrow> (- 1, mgr))"

definition chardev_find :: "'priv chardev_manager_t option \<Rightarrow> int \<Rightarrow> int \<Rightarrow> nat option" where
  "chardev_find mgr major minor = (case mgr of None \<Rightarrow> None
     | Some m \<Rightarrow> first_index (\<lambda>i. cd_major (fst (cm_devices m i)) = major \<and>
                                    cd_minor (fst (cm_devices m i)) = minor) (cm_count m))"

type_synonym 'priv chardev = "'priv chardev_t \<times> 'priv chardev_ops"

definition chardev_open :: "'priv chardev option \<Rightarrow> int \<times> 'priv chardev option" where
  "chardev_open dev = (case dev of None \<Rightarrow> (- 1, dev)
     | Some (d, ops) \<Rightarrow>
         let d1 = d\<lparr>cd_ref_count := cd_ref_count d + 1\<rparr>
         in (case co_open ops of None \<Rightarrow> (0, Some (d1, ops))
               | Some f \<Rightarrow> (case f d1 of (r, d2) \<Rightarrow> (r, Some (d2, ops)))))"

definition chardev_close :: "'priv chardev option \<Rightarrow> int \<times> 'priv chardev option" where
  "chardev_close dev = (case dev of None \<Rightarrow> (- 1, dev)
     | Some (d, ops) \<Rightarrow>
         let d1 = d\<lparr>cd_ref_count := cd_ref_count d - 1\<rparr>
         in (case co_close ops of None \<Rightarrow> (0, Some (d1, ops))
               | Some f \<Rightarrow> (case f d1 of (r, d2) \<Rightarrow> (r, Some (d2, ops)))))"

definition chardev_read ::
  "'priv chardev option \<Rightarrow> mem option \<Rightarrow> nat \<Rightarrow> int \<times> 'priv chardev option \<times> mem option" where
  "chardev_read dev buf n = (case (dev, buf) of
       (Some (d, ops), Some b) \<Rightarrow>
         (case co_read ops of None \<Rightarrow> (- 2, dev, buf)
            | Some f \<Rightarrow> (case f d b n of (r, d', b') \<Rightarrow> (r, Some (d', ops), Some b')))
     | _ \<Rightarrow> (- 1, dev, buf))"

definition chardev_write ::
  "'priv chardev option \<Rightarrow> mem option \<Rightarrow> nat \<Rightarrow> int \<times> 'priv chardev option" where
  "chardev_write dev buf n = (case (dev, buf) of
       (Some (d, ops), Some b) \<Rightarrow>
         (case co_write ops of None \<Rightarrow> (- 2, dev)
            | Some f \<Rightarrow> (case f d b n of (r, d') \<Rightarrow> (r, Some (d', ops))))
     | _ \<Rightarrow> (- 1, dev))"

definition chardev_ioctl :: "'priv chardev option \<Rightarrow> u32 \<Rightarrow> nat \<Rightarrow> int \<times> 'priv chardev option" where
  "chardev_ioctl dev cmd arg = (case dev of None \<Rightarrow> (- 1, dev)
     | Some (d, ops) \<Rightarrow>
         (case co_ioctl ops of None \<Rightarrow> (- 2, dev)
            | Some f \<Rightarrow> (case f d cmd arg of (r, d') \<Rightarrow> (r, Some (d', ops)))))"

section \<open>Event devices\<close>

record input_event_t =
  ie_type :: u16
  ie_code :: u16
  ie_value :: int

record evdev_t =
  ev_buf :: "nat \<Rightarrow> input_event_t"
  ev_head :: nat
  ev_tail :: nat
  ev_count :: nat
  ev_ev_bits :: "nat \<Rightarrow> u32"
  ev_key_bits :: "nat \<Rightarrow> u32"
  ev_rel_bits :: "nat \<Rightarrow> u32"
  ev_abs_bits :: "nat \<Rightarrow> u32"
  ev_grab_fd :: int

record evdev_manager_t =
  em_devices :: "nat \<Rightarrow> evdev_t"
  em_count :: nat

definition evdev_zero :: evdev_t where
  "evdev_zero = \<lparr>ev_buf = (\<lambda>_. \<lparr>ie_type = 0, ie_code = 0, ie_value = 0\<rparr>), ev_head = 0, ev_tail = 0,
     ev_count = 0, ev_ev_bits = (\<lambda>_. 0), ev_key_bits = (\<lambda>_. 0), ev_rel_bits = (\<lambda>_. 0),
     ev_abs_bits = (\<lambda>_. 0), ev_grab_fd = 0\<rparr>"

definition evdev_init :: "evdev_manager_t option \<Rightarrow> evdev_manager_t option" where
  "evdev_init mgr = (case mgr of None \<Rightarrow> None
     | Some _ \<Rightarrow> Some \<lparr>em_devices = (\<lambda>_. evdev_zero), em_count = 0\<rparr>)"

definition evdev_register :: "evdev_manager_t option \<Rightarrow> int \<times> evdev_manager_t option" where
  "evdev_register mgr = (case mgr of None \<Rightarrow> (- 1, mgr)
     | Some m \<Rightarrow>
         if em_count m \<ge> EVDEV_MAX then (- 2, mgr)
         else (int (em_count m), Some (m\<lparr>em_devices := (em_devices m)(em_count m := evdev_zero),
                                         em_count := em_count m + 1\<rparr>)))"

definition evdev_push_event :: "evdev_t option \<Rightarrow> u16 \<Rightarrow> u16 \<Rightarrow> int \<Rightarrow> int \<times> evdev_t option" where
  "evdev_push_event dev type code val = (case dev of None \<Rightarrow> (- 1, dev)
     | Some d \<Rightarrow>
         if ev_count d \<ge> EVDEV_BUF_SIZE then (- 2, dev)
         else
           let ev = (ev_buf d (ev_head d))\<lparr>ie_type := type, ie_code := code, ie_value := val\<rparr>
           in (0, Some (d\<lparr>ev_buf := (ev_buf d)(ev_head d := ev),
                          ev_head := (ev_head d + 1) mod EVDEV_BUF_SIZE, ev_count := ev_count d + 1\<rparr>)))"

definition evdev_read_event :: "evdev_t option \<Rightarrow> input_event_t option \<Rightarrow> int \<times> evdev_t option \<times> input_event_t option" where
  "evdev_read_event dev ev = (case (dev, ev) of
       (Some d, Some _) \<Rightarrow>
         if ev_count d = 0 then (- 2, dev, ev)
         else (0, Some (d\<lparr>ev_tail := (ev_tail d + 1) mod EVDEV_BUF_SIZE, ev_count := ev_count d - 1\<rparr>),
               Some (ev_buf d (ev_tail d)))
     | _ \<Rightarrow> (- 1, dev, ev))"

section \<open>The event queue as a bounded queue\<close>

definition evdev_inv :: "evdev_t \<Rightarrow> bool" where
  "evdev_inv d \<longleftrightarrow> ev_tail d < EVDEV_BUF_SIZE \<and> ev_count d \<le> EVDEV_BUF_SIZE \<and>
     ev_head d = (ev_tail d + ev_count d) mod EVDEV_BUF_SIZE"

definition evdev_contents :: "evdev_t \<Rightarrow> input_event_t list" where
  "evdev_contents d = ring_list (ev_buf d) EVDEV_BUF_SIZE (ev_tail d) (ev_count d)"

definition evdev_push :: "input_event_t \<Rightarrow> evdev_t \<Rightarrow> evdev_t option" where
  "evdev_push e d = (case evdev_push_event (Some d) (ie_type e) (ie_code e) (ie_value e) of
     (r, d') \<Rightarrow> if r = 0 then d' else None)"

definition evdev_pop :: "evdev_t \<Rightarrow> (input_event_t \<times> evdev_t) option" where
  "evdev_pop d = (case evdev_read_event (Some d) (Some \<lparr>ie_type = 0, ie_code = 0, ie_value = 0\<rparr>) of
     (r, d', e) \<Rightarrow> (case (d', e) of (Some d1, Some e1) \<Rightarrow> if r = 0 then Some (e1, d1) else None | _ \<Rightarrow> None))"

lemma length_evdev_contents [simp]: "length (evdev_contents d) = ev_count d"
  by (simp add: evdev_contents_def)

interpretation evdev_queue: bounded_queue EVDEV_BUF_SIZE "\<lambda>_. True" evdev_inv evdev_contents evdev_push evdev_pop
proof (unfold_locales, goal_cases)
  case (1 d)
  then show ?case by (simp add: evdev_inv_def)
next
  case (2 d e)
  then show ?case by (simp add: evdev_push_def evdev_push_event_def)
next
  case (3 d e)
  then show ?case by simp
next
  case (4 d e)
  have upd: "x\<lparr>ie_type := ie_type e, ie_code := ie_code e, ie_value := ie_value e\<rparr> = e"
    for x :: input_event_t by simp
  from 4 ring_list_push [of "ev_count d" EVDEV_BUF_SIZE "ev_buf d" "ev_tail d" e] show ?case
    by (auto simp: evdev_push_def evdev_push_event_def evdev_inv_def evdev_contents_def mod_simps upd)
next
  case (5 d)
  then have "ev_count d = 0" by (simp flip: length_evdev_contents)
  then show ?case by (simp add: evdev_pop_def evdev_read_event_def)
next
  case (6 d e es)
  then have "ev_count d = Suc (length es)" by (simp flip: length_evdev_contents)
  with 6 ring_list_pop [of "ev_tail d" EVDEV_BUF_SIZE "ev_buf d" "length es"] show ?case
    by (auto simp: evdev_pop_def evdev_read_event_def evdev_inv_def evdev_contents_def mod_simps)
qed

section \<open>Properties\<close>

text \<open>
  An input device's event queue delivers what it accepted, in order: in any sequence of
  pushes and reads, the events queued before and those accepted are those delivered and
  those still queued; a push fails only when 256 events are waiting.
\<close>

theorem evdev_is_fifo:
  assumes "evdev_inv d"
  shows "(case queue_run evdev_push evdev_pop ops d of (acc, del, r) \<Rightarrow>
      evdev_contents d @ acc = del @ evdev_contents r \<and> evdev_inv r) \<and>
    (fst (evdev_push_event (Some d) type code val) \<noteq> 0 \<longleftrightarrow> length (evdev_contents d) = EVDEV_BUF_SIZE)"
  using evdev_queue.run_fifo [OF assms, of ops] evdev_queue.bounded [OF assms]
  by (auto simp: evdev_push_event_def split: prod.splits)

theorem evdev_is_fifo_witness:
  "evdev_inv evdev_zero \<and>
   (case queue_run evdev_push evdev_pop [Push \<lparr>ie_type = 1, ie_code = 30, ie_value = 1\<rparr>, Pop, Pop] evdev_zero of
      (acc, del, r) \<Rightarrow> del = [\<lparr>ie_type = 1, ie_code = 30, ie_value = 1\<rparr>] \<and> evdev_contents r = [])"
proof -
  let ?ops = "[Push \<lparr>ie_type = 1, ie_code = 30, ie_value = 1\<rparr>, Pop, Pop]"
  have i: "evdev_inv evdev_zero" by (simp add: evdev_inv_def evdev_zero_def)
  have "case queue_run evdev_push evdev_pop ?ops evdev_zero of (acc, del, r) \<Rightarrow>
      acc = [\<lparr>ie_type = 1, ie_code = 30, ie_value = 1\<rparr>] \<and> del = acc"
    by (simp add: evdev_push_def evdev_pop_def evdev_push_event_def evdev_read_event_def evdev_zero_def)
  then show ?thesis using i evdev_is_fifo [OF i, of ?ops]
    by (auto simp: evdev_contents_def evdev_zero_def split: prod.splits)
qed

text \<open>
  The kernel log keeps at most one message beyond its first eight: once eight messages are
  stored the slot \<open>count % KMSG_MAX\<close> is always slot 0, so a write keeps slots 1 to 7 and
  replaces slot 0, and a read, which only ever looks at slot 0, returns the newest message
  and never any of the seven others.
\<close>

theorem kmsg_full_overwrites_slot_0:
  assumes "km_count k = KMSG_MAX" and "len < KMSG_BUF_SIZE"
  shows "\<exists>k'. kmsg_write (Some k) facility level (Some src) len = (int len, Some k') \<and>
    km_count k' = KMSG_MAX \<and> (\<forall>i. 0 < i \<longrightarrow> km_buffers k' i = km_buffers k i) \<and>
    (case kmsg_read (Some k') (Some dst) KMSG_BUF_SIZE (Some f0) (Some l0) of (n, k'', buf, f, l) \<Rightarrow>
       n = int len \<and> k'' = Some k' \<and> f = Some facility \<and> l = Some level \<and>
       (case buf of None \<Rightarrow> False | Some b \<Rightarrow> bytes_at b 0 len = bytes_at src 0 len))"
proof -
  let ?b = "(km_buffers k 0)\<lparr>kb_buf := (copy_obj (kb_buf (km_buffers k 0)) 0 src 0 len)(len := 0),
      kb_head := len, kb_tail := 0, kb_count := len,
      kb_facility := facility, kb_level := level, kb_seq := km_seq_counter k\<rparr>"
  let ?k = "\<lparr>km_buffers = (km_buffers k)(0 := ?b), km_count = KMSG_MAX, km_seq_counter = km_seq_counter k + 1\<rparr>"
  have w: "(if len < KMSG_BUF_SIZE - 1 then len else KMSG_BUF_SIZE - 1) = len" using assms(2) by auto
  have wr: "kmsg_write (Some k) facility level (Some src) len = (int len, Some ?k)"
    unfolding kmsg_write_def Let_def option.case prod.case w using assms(1) by simp
  have "bytes_at (copy_obj dst 0 (kb_buf ?b) 0 len) 0 len = bytes_at src 0 len"
    by (rule nth_equalityI) (auto simp: copy_obj_def)
  then show ?thesis using wr assms(2)
    by (intro exI [of _ ?k]) (auto simp: kmsg_read_def Let_def)
qed

theorem kmsg_full_overwrites_slot_0_witness:
  "\<exists>k'. kmsg_write (Some \<lparr>km_buffers = (\<lambda>_. kmsg_buf_zero), km_count = 8, km_seq_counter = 8\<rparr>)
      1 2 (Some (\<lambda>_. 65)) 3 = (3, Some k') \<and> km_buffers k' 7 = kmsg_buf_zero"
  using kmsg_full_overwrites_slot_0 [of "\<lparr>km_buffers = (\<lambda>_. kmsg_buf_zero), km_count = 8, km_seq_counter = 8\<rparr>"
      3 1 2 "\<lambda>_. 65" "\<lambda>_. 0" 0 0]
  by auto

end
