(* ===== verification/Perm.thy ===== *)
theory Perm
  imports KPrelude
begin

text \<open>
  File permissions and access control lists of \<open>kernel/fs/src/perm.c\<close>. Mode bits are 16-bit
  words, the requested \<open>access\<close> an \<open>int\<close> tested bit by bit, user and group ids \<open>int\<close>s.
\<close>

abbreviation (input) PERM_READ :: int where "PERM_READ \<equiv> 4"
abbreviation (input) PERM_WRITE :: int where "PERM_WRITE \<equiv> 2"
abbreviation (input) PERM_EXEC :: int where "PERM_EXEC \<equiv> 1"

abbreviation (input) PERM_OWNER_SHIFT :: nat where "PERM_OWNER_SHIFT \<equiv> 6"
abbreviation (input) PERM_GROUP_SHIFT :: nat where "PERM_GROUP_SHIFT \<equiv> 3"
abbreviation (input) PERM_OTHER_SHIFT :: nat where "PERM_OTHER_SHIFT \<equiv> 0"

definition perm_bit :: "int \<Rightarrow> nat \<Rightarrow> u16" where
  "perm_bit p sh = push_bit sh (of_int p)"

abbreviation (input) ACL_MAX_ENTRIES :: nat where "ACL_MAX_ENTRIES \<equiv> 32"
abbreviation (input) ACL_TYPE_USER_OBJ :: u8 where "ACL_TYPE_USER_OBJ \<equiv> 0x01"
abbreviation (input) ACL_TYPE_USER :: u8 where "ACL_TYPE_USER \<equiv> 0x02"
abbreviation (input) ACL_TYPE_GROUP_OBJ :: u8 where "ACL_TYPE_GROUP_OBJ \<equiv> 0x04"
abbreviation (input) ACL_TYPE_GROUP :: u8 where "ACL_TYPE_GROUP \<equiv> 0x08"
abbreviation (input) ACL_TYPE_MASK :: u8 where "ACL_TYPE_MASK \<equiv> 0x10"
abbreviation (input) ACL_TYPE_OTHER :: u8 where "ACL_TYPE_OTHER \<equiv> 0x20"
abbreviation (input) ACL_TAG_ALLOW :: u8 where "ACL_TAG_ALLOW \<equiv> 0x01"
abbreviation (input) ACL_TAG_DENY :: u8 where "ACL_TAG_DENY \<equiv> 0x02"

record acl_entry_t =
  ae_type :: u8
  ae_tag :: u8
  ae_uid :: int
  ae_gid :: int
  ae_perm :: u16

record acl_t =
  acl_entries :: "nat \<Rightarrow> acl_entry_t"
  acl_count :: nat

record fs_perm_t =
  fp_uid :: int
  fp_gid :: int
  fp_mode :: u16
  fp_acl :: acl_t

definition acl_zero :: acl_t where
  "acl_zero = \<lparr>acl_entries = (\<lambda>_. \<lparr>ae_type = 0, ae_tag = 0, ae_uid = 0, ae_gid = 0, ae_perm = 0\<rparr>), acl_count = 0\<rparr>"

definition fs_perm_init :: "fs_perm_t option \<Rightarrow> int \<Rightarrow> int \<Rightarrow> u16 \<Rightarrow> fs_perm_t option" where
  "fs_perm_init perm uid gid mode = (case perm of None \<Rightarrow> None
     | Some _ \<Rightarrow> Some \<lparr>fp_uid = uid, fp_gid = gid, fp_mode = mode, fp_acl = acl_zero\<rparr>)"

text \<open>The three tests against one class of mode bits, in the order read, write, execute.\<close>

definition class_denies :: "u16 \<Rightarrow> int \<Rightarrow> bool" where
  "class_denies bits access \<longleftrightarrow>
     (access AND PERM_READ \<noteq> 0 \<and> bits AND of_int PERM_READ = 0) \<or>
     (access AND PERM_WRITE \<noteq> 0 \<and> bits AND of_int PERM_WRITE = 0) \<or>
     (access AND PERM_EXEC \<noteq> 0 \<and> bits AND of_int PERM_EXEC = 0)"

definition any_write_bit :: "u16 \<Rightarrow> bool" where
  "any_write_bit mode \<longleftrightarrow> mode AND (perm_bit PERM_WRITE PERM_OWNER_SHIFT OR
     perm_bit PERM_WRITE PERM_GROUP_SHIFT OR perm_bit PERM_WRITE PERM_OTHER_SHIFT) \<noteq> 0"

definition fs_perm_check :: "fs_perm_t option \<Rightarrow> int \<Rightarrow> int \<Rightarrow> int \<Rightarrow> int" where
  "fs_perm_check perm uid gid access = (case perm of None \<Rightarrow> - 1
     | Some p \<Rightarrow>
         let mode = fp_mode p
         in if uid = 0 then
              (if access AND PERM_WRITE \<noteq> 0 \<and> \<not> any_write_bit mode then - 2 else 0)
            else if uid = fp_uid p then
              (if class_denies (drop_bit PERM_OWNER_SHIFT mode AND 7) access then - 2 else 0)
            else if gid = fp_gid p then
              (if class_denies (drop_bit PERM_GROUP_SHIFT mode AND 7) access then - 2 else 0)
            else
              (if class_denies (drop_bit PERM_OTHER_SHIFT mode AND 7) access then - 2 else 0))"

definition fs_perm_chmod :: "fs_perm_t option \<Rightarrow> u16 \<Rightarrow> int \<times> fs_perm_t option" where
  "fs_perm_chmod perm mode = (case perm of None \<Rightarrow> (- 1, perm)
     | Some p \<Rightarrow> (0, Some (p\<lparr>fp_mode := (fp_mode p AND 0xF000) OR (mode AND 0x0FFF)\<rparr>)))"

definition fs_perm_chown :: "fs_perm_t option \<Rightarrow> int \<Rightarrow> int \<Rightarrow> int \<times> fs_perm_t option" where
  "fs_perm_chown perm uid gid = (case perm of None \<Rightarrow> (- 1, perm)
     | Some p \<Rightarrow>
         let p1 = (if (of_int uid :: u32) \<noteq> of_int (- 1) then p\<lparr>fp_uid := uid\<rparr> else p);
             p2 = (if (of_int gid :: u32) \<noteq> of_int (- 1) then p1\<lparr>fp_gid := gid\<rparr> else p1)
         in (0, Some p2))"

definition fs_perm_acl_add :: "fs_perm_t option \<Rightarrow> acl_entry_t option \<Rightarrow> int \<times> fs_perm_t option" where
  "fs_perm_acl_add perm entry = (case (perm, entry) of
       (Some p, Some e) \<Rightarrow>
         let acl = fp_acl p
         in if acl_count acl \<ge> ACL_MAX_ENTRIES then (- 2, perm)
            else (0, Some (p\<lparr>fp_acl := acl\<lparr>acl_entries := (acl_entries acl)(acl_count acl := e),
                                        acl_count := acl_count acl + 1\<rparr>\<rparr>))
     | _ \<Rightarrow> (- 1, perm))"

definition fs_perm_acl_remove :: "fs_perm_t option \<Rightarrow> int \<Rightarrow> int \<times> fs_perm_t option" where
  "fs_perm_acl_remove perm index = (case perm of None \<Rightarrow> (- 1, perm)
     | Some p \<Rightarrow>
         let acl = fp_acl p
         in if index < 0 \<or> index \<ge> int (acl_count acl) then (- 2, perm)
            else
              let es = fold (\<lambda>i es. es(i := es (i + 1))) [nat index..<acl_count acl - 1] (acl_entries acl)
              in (0, Some (p\<lparr>fp_acl := acl\<lparr>acl_entries := es, acl_count := acl_count acl - 1\<rparr>\<rparr>)))"

definition acl_match :: "fs_perm_t \<Rightarrow> int \<Rightarrow> int \<Rightarrow> acl_entry_t \<Rightarrow> bool" where
  "acl_match p uid gid e =
     (if ae_type e = ACL_TYPE_USER_OBJ then uid = fp_uid p
      else if ae_type e = ACL_TYPE_USER then uid = ae_uid e
      else if ae_type e = ACL_TYPE_GROUP_OBJ then gid = fp_gid p
      else if ae_type e = ACL_TYPE_GROUP then gid = ae_gid e
      else if ae_type e = ACL_TYPE_MASK then True
      else if ae_type e = ACL_TYPE_OTHER then True
      else False)"

text \<open>The loop over the entries \<open>i\<close>, \<open>i + 1\<close>, \<open>\<dots>\<close>: the result it returns, if it returns.\<close>

function acl_scan :: "fs_perm_t \<Rightarrow> int \<Rightarrow> int \<Rightarrow> int \<Rightarrow> nat \<Rightarrow> int option" where
  "acl_scan p uid gid access i =
     (if i < acl_count (fp_acl p) then
        let e = acl_entries (fp_acl p) i; allowed = (\<not> class_denies (ae_perm e) access)
        in if acl_match p uid gid e \<and> ae_tag e = ACL_TAG_DENY \<and> \<not> allowed then Some (- 2)
           else if acl_match p uid gid e \<and> ae_tag e = ACL_TAG_ALLOW \<and> allowed then Some 0
           else acl_scan p uid gid access (i + 1)
      else None)"
  by pat_completeness auto
termination
  by (relation "measure (\<lambda>(p, uid, gid, access, i). acl_count (fp_acl p) - i)") auto

declare acl_scan.simps [simp del]

definition fs_perm_acl_check :: "fs_perm_t option \<Rightarrow> int \<Rightarrow> int \<Rightarrow> int \<Rightarrow> int" where
  "fs_perm_acl_check perm uid gid access = (case perm of None \<Rightarrow> - 1
     | Some p \<Rightarrow> (case acl_scan p uid gid access 0 of
                     Some r \<Rightarrow> r
                   | None \<Rightarrow> fs_perm_check perm uid gid access))"

text \<open>\<open>if (e->perm & PERM_X) mode |= PERM_X << shift\<close> for the three permissions of a class.\<close>

definition class_bits :: "u16 \<Rightarrow> nat \<Rightarrow> u16 \<Rightarrow> u16" where
  "class_bits perm sh mode =
     (let m1 = (if perm AND of_int PERM_READ \<noteq> 0 then mode OR perm_bit PERM_READ sh else mode);
          m2 = (if perm AND of_int PERM_WRITE \<noteq> 0 then m1 OR perm_bit PERM_WRITE sh else m1)
      in if perm AND of_int PERM_EXEC \<noteq> 0 then m2 OR perm_bit PERM_EXEC sh else m2)"

definition fs_perm_mode_from_acl :: "acl_t option \<Rightarrow> u16" where
  "fs_perm_mode_from_acl acl = (case acl of None \<Rightarrow> 0
     | Some a \<Rightarrow> fold (\<lambda>i mode.
         let e = acl_entries a i
         in if ae_tag e \<noteq> ACL_TAG_ALLOW then mode
            else if ae_type e = ACL_TYPE_USER_OBJ then class_bits (ae_perm e) PERM_OWNER_SHIFT mode
            else if ae_type e = ACL_TYPE_GROUP_OBJ then class_bits (ae_perm e) PERM_GROUP_SHIFT mode
            else if ae_type e = ACL_TYPE_OTHER then class_bits (ae_perm e) PERM_OTHER_SHIFT mode
            else mode) [0..<acl_count a] 0)"

section \<open>The checks read bit by bit\<close>

lemma and_bit_tests:
  "a AND 4 = 0 \<longleftrightarrow> \<not> bit a 2" "a AND 2 = 0 \<longleftrightarrow> \<not> bit a 1" "a AND 1 = 0 \<longleftrightarrow> \<not> bit a 0"
  for a :: "'a::ring_bit_operations"
  using and_exp_eq_0_iff_not_bit [of a 2] and_exp_eq_0_iff_not_bit [of a 1]
    and_exp_eq_0_iff_not_bit [of a 0] by simp_all

lemma class_denies_bits:
  "class_denies bits access \<longleftrightarrow> (\<exists>b<3. bit access b \<and> \<not> bit bits b)"
  by (auto simp: class_denies_def and_bit_tests less_Suc_eq numeral_3_eq_3 numeral_2_eq_2)

lemma bit_class_0: "b < 3 \<Longrightarrow> bit (mode AND 7 :: u16) b \<longleftrightarrow> bit mode b"
  by (auto simp: bit_simps less_Suc_eq numeral_3_eq_3 mask_eq_exp_minus_1 numeral_eq_Suc)

definition class_shift :: "fs_perm_t \<Rightarrow> int \<Rightarrow> int \<Rightarrow> nat" where
  "class_shift p uid gid = (if uid = fp_uid p then PERM_OWNER_SHIFT
     else if gid = fp_gid p then PERM_GROUP_SHIFT else PERM_OTHER_SHIFT)"

definition acl_list :: "acl_t \<Rightarrow> acl_entry_t list" where
  "acl_list a = table (acl_entries a) (acl_count a)"

text \<open>The verdict of a list of entries, read from the left.\<close>

fun acl_verdict :: "fs_perm_t \<Rightarrow> int \<Rightarrow> int \<Rightarrow> int \<Rightarrow> acl_entry_t list \<Rightarrow> int option" where
  "acl_verdict p uid gid access [] = None"
| "acl_verdict p uid gid access (e # es) =
     (if acl_match p uid gid e \<and> ae_tag e = ACL_TAG_DENY \<and> class_denies (ae_perm e) access then Some (- 2)
      else if acl_match p uid gid e \<and> ae_tag e = ACL_TAG_ALLOW \<and> \<not> class_denies (ae_perm e) access then Some 0
      else acl_verdict p uid gid access es)"

lemma acl_scan_verdict:
  "acl_scan p uid gid access i = acl_verdict p uid gid access (drop i (acl_list (fp_acl p)))"
proof (induction p uid gid access i rule: acl_scan.induct)
  case (1 p uid gid access i)
  show ?case
  proof (cases "i < acl_count (fp_acl p)")
    case True
    then have "drop i (acl_list (fp_acl p)) = acl_entries (fp_acl p) i # drop (i + 1) (acl_list (fp_acl p))"
      by (simp add: acl_list_def Cons_nth_drop_Suc [symmetric])
    with 1 True show ?thesis
      by (auto simp: acl_scan.simps [of p uid gid access i] Let_def)
  next
    case False
    then show ?thesis by (simp add: acl_scan.simps [of p uid gid access i] acl_list_def)
  qed
qed

lemma acl_shift_down:
  "i \<le> n \<Longrightarrow> fold (\<lambda>i es. es(i := es (Suc i))) [i..<n] es = (\<lambda>j. if i \<le> j \<and> j < n then es (Suc j) else es j)"
  by (induction n) (auto simp: le_Suc_eq fun_eq_iff)

lemma acl_list_remove:
  assumes "i < acl_count a"
  shows "table (fold (\<lambda>i es. es(i := es (i + 1))) [i..<acl_count a - 1] (acl_entries a)) (acl_count a - 1) =
    take i (acl_list a) @ drop (Suc i) (acl_list a)"
  using assms
  by (intro nth_equalityI) (auto simp: acl_list_def acl_shift_down nth_append min_def)

section \<open>Properties\<close>

text \<open>
  C11. Discretionary access for a user other than root is decided by one class of mode bits
  only: the owner's for the owner, the group's for a member of the group who is not the
  owner, the others' for everyone else; access is granted, with result \<open>0\<close>, exactly when
  every requested permission is among the three bits of that class, and \<open>-2\<close> otherwise.
\<close>

theorem fs_perm_check_one_class:
  assumes "uid \<noteq> 0"
  shows "fs_perm_check (Some p) uid gid access =
    (if \<forall>b<3. bit access b \<longrightarrow> bit (fp_mode p) (class_shift p uid gid + b) then 0 else - 2)"
  using assms by (auto simp: fs_perm_check_def Let_def class_shift_def class_denies_bits bit_class_0 bit_drop_bit_eq)

theorem fs_perm_check_one_class_witness:
  "fs_perm_check (Some \<lparr>fp_uid = 10, fp_gid = 20, fp_mode = 416, fp_acl = acl_zero\<rparr>) 11 20 4 = 0 \<and>
   fs_perm_check (Some \<lparr>fp_uid = 10, fp_gid = 20, fp_mode = 416, fp_acl = acl_zero\<rparr>) 11 20 6 = - 2"
  using fs_perm_check_one_class [of 11 "\<lparr>fp_uid = 10, fp_gid = 20, fp_mode = 416, fp_acl = acl_zero\<rparr>" 20 4]
    fs_perm_check_one_class [of 11 "\<lparr>fp_uid = 10, fp_gid = 20, fp_mode = 416, fp_acl = acl_zero\<rparr>" 20 6]
  by (simp add: class_shift_def less_Suc_eq numeral_3_eq_3 bit_simps)

text \<open>
  An access control list is decided by its first decisive entry, and otherwise by the mode
  bits: an entry is decisive when it matches the user and is an allow entry that holds every
  requested permission, or a deny entry that lacks one of them. So a deny entry that lists
  exactly the permissions to deny denies none of them: a list of deny entries that all
  contain the requested permissions decides nothing and the mode bits apply.
\<close>

theorem fs_perm_acl_check_first_decisive:
  "fs_perm_acl_check (Some p) uid gid access =
     (case acl_verdict p uid gid access (acl_list (fp_acl p)) of
        Some r \<Rightarrow> r | None \<Rightarrow> fs_perm_check (Some p) uid gid access) \<and>
   ((\<forall>e\<in>set (acl_list (fp_acl p)). ae_tag e = ACL_TAG_DENY \<and> \<not> class_denies (ae_perm e) access) \<longrightarrow>
     fs_perm_acl_check (Some p) uid gid access = fs_perm_check (Some p) uid gid access)"
proof -
  have "acl_verdict p uid gid access es = None"
    if "\<forall>e\<in>set es. ae_tag e = ACL_TAG_DENY \<and> \<not> class_denies (ae_perm e) access" for es
    using that by (induction es) auto
  then show ?thesis by (simp add: fs_perm_acl_check_def acl_scan_verdict)
qed

theorem fs_perm_acl_check_first_decisive_witness:
  "let deny = \<lparr>ae_type = ACL_TYPE_USER, ae_tag = ACL_TAG_DENY, ae_uid = 11, ae_gid = 0, ae_perm = 2\<rparr>;
       p = \<lparr>fp_uid = 10, fp_gid = 20, fp_mode = 511,
            fp_acl = \<lparr>acl_entries = (\<lambda>_. deny), acl_count = 1\<rparr>\<rparr>
   in fs_perm_acl_check (Some p) 11 20 2 = fs_perm_check (Some p) 11 20 2 \<and>
      fs_perm_check (Some p) 11 20 2 = 0"
proof -
  let ?deny = "\<lparr>ae_type = ACL_TYPE_USER, ae_tag = ACL_TAG_DENY, ae_uid = 11, ae_gid = 0, ae_perm = 2\<rparr>"
  let ?p = "\<lparr>fp_uid = 10, fp_gid = 20, fp_mode = 511,
            fp_acl = \<lparr>acl_entries = (\<lambda>_. ?deny), acl_count = 1\<rparr>\<rparr>"
  have "\<forall>e\<in>set (acl_list (fp_acl ?p)). ae_tag e = ACL_TAG_DENY \<and> \<not> class_denies (ae_perm e) 2"
    by (simp add: acl_list_def table_Suc class_denies_def)
  then have "fs_perm_acl_check (Some ?p) 11 20 2 = fs_perm_check (Some ?p) 11 20 2"
    using fs_perm_acl_check_first_decisive [of ?p 11 20 2] by blast
  moreover have "fs_perm_check (Some ?p) 11 20 2 = 0"
    by (simp add: fs_perm_check_def class_denies_def)
  ultimately show ?thesis by simp
qed

text \<open>
  The list operations keep the order of the entries: adding an entry appends it unless 32
  are there, removing index \<open>i\<close> deletes the entry at \<open>i\<close> and closes the gap, and removing
  the entry that was just added gives back the list.
\<close>

theorem fs_perm_acl_add_remove:
  assumes "acl_count (fp_acl p) < ACL_MAX_ENTRIES" and "i < acl_count (fp_acl p)"
  shows "\<exists>p1 p2 p3. fs_perm_acl_add (Some p) (Some e) = (0, Some p1) \<and>
    acl_list (fp_acl p1) = acl_list (fp_acl p) @ [e] \<and>
    fs_perm_acl_remove (Some p1) (int (acl_count (fp_acl p))) = (0, Some p2) \<and>
    acl_list (fp_acl p2) = acl_list (fp_acl p) \<and>
    fs_perm_acl_remove (Some p) (int i) = (0, Some p3) \<and>
    acl_list (fp_acl p3) = take i (acl_list (fp_acl p)) @ drop (Suc i) (acl_list (fp_acl p))"
proof -
  let ?a = "fp_acl p"
  let ?a1 = "?a\<lparr>acl_entries := (acl_entries ?a)(acl_count ?a := e), acl_count := acl_count ?a + 1\<rparr>"
  have add: "fs_perm_acl_add (Some p) (Some e) = (0, Some (p\<lparr>fp_acl := ?a1\<rparr>))"
    using assms(1) by (simp add: fs_perm_acl_add_def Let_def)
  have l1: "acl_list ?a1 = acl_list ?a @ [e]" by (simp add: acl_list_def table_Suc)
  have rm: "\<exists>q. fs_perm_acl_remove (Some r) (int k) = (0, Some q) \<and>
      acl_list (fp_acl q) = take k (acl_list (fp_acl r)) @ drop (Suc k) (acl_list (fp_acl r))"
    if "k < acl_count (fp_acl r)" for r :: fs_perm_t and k
    using that acl_list_remove [OF that] by (simp add: fs_perm_acl_remove_def Let_def acl_list_def)
  from rm [of "acl_count ?a" "p\<lparr>fp_acl := ?a1\<rparr>"] rm [of i p] assms(2) add l1
  show ?thesis by (auto simp: acl_list_def [of ?a])
qed

theorem fs_perm_acl_add_remove_witness:
  "\<exists>p3. fs_perm_acl_remove (Some \<lparr>fp_uid = 1, fp_gid = 1, fp_mode = 0,
       fp_acl = acl_zero\<lparr>acl_count := 2\<rparr>\<rparr>) 0 = (0, Some p3) \<and>
     acl_list (fp_acl p3) = [acl_entries acl_zero 1]"
proof -
  have l: "acl_list (acl_zero\<lparr>acl_count := 2\<rparr>) = [acl_entries acl_zero 0, acl_entries acl_zero 1]"
    by (simp add: acl_list_def table_def upt_rec)
  show ?thesis
    using fs_perm_acl_add_remove [of "\<lparr>fp_uid = 1, fp_gid = 1, fp_mode = 0,
        fp_acl = acl_zero\<lparr>acl_count := 2\<rparr>\<rparr>" 0 "acl_entries acl_zero 0"]
    by (auto simp: l)
qed

end
