(* ===== verification/Kfifo.thy ===== *)
theory Kfifo
  imports Interfaces
begin

text \<open>
  The byte fifo of the kernel API, \<open>kernel/api/kapi_kfifo.c\<close>: a buffer of \<open>size\<close> bytes with
  two free-running \<open>unsigned int\<close> counters \<open>in\<close> and \<open>out\<close> that are masked with \<open>size - 1\<close>.
  The counters wrap at \<open>2 ^ 32\<close> and are 32-bit words here. The allocator is outside this
  file: \<open>kapi_kfifo_init\<close> takes what it returned.
\<close>

abbreviation (input) KAPI_OK :: int where "KAPI_OK \<equiv> 0"
abbreviation (input) KAPI_EINVAL :: int where "KAPI_EINVAL \<equiv> - 2"
abbreviation (input) KAPI_ENOMEM :: int where "KAPI_ENOMEM \<equiv> - 3"

record kapi_kfifo_t =
  kf_buffer :: "mem option"
  kf_size :: u32
  kf_in :: u32
  kf_out :: u32

definition kapi_kfifo_init :: "mem option \<Rightarrow> kapi_kfifo_t option \<Rightarrow> u32 \<Rightarrow> int \<times> kapi_kfifo_t option" where
  "kapi_kfifo_init alloc fifo sz = (case fifo of None \<Rightarrow> (KAPI_EINVAL, fifo)
     | Some f \<Rightarrow>
         if sz = 0 then (KAPI_EINVAL, fifo)
         else (case alloc of
                 None \<Rightarrow> (KAPI_ENOMEM, Some (f\<lparr>kf_buffer := None\<rparr>))
               | Some b \<Rightarrow> (KAPI_OK, Some \<lparr>kf_buffer = Some b, kf_size = sz, kf_in = 0, kf_out = 0\<rparr>)))"

definition kapi_kfifo_free :: "kapi_kfifo_t option \<Rightarrow> kapi_kfifo_t option" where
  "kapi_kfifo_free fifo = (case fifo of None \<Rightarrow> None
     | Some _ \<Rightarrow> Some \<lparr>kf_buffer = None, kf_size = 0, kf_in = 0, kf_out = 0\<rparr>)"

definition kapi_kfifo_len :: "kapi_kfifo_t option \<Rightarrow> u32" where
  "kapi_kfifo_len fifo = (case fifo of None \<Rightarrow> 0 | Some f \<Rightarrow> kf_in f - kf_out f)"

definition kapi_kfifo_avail :: "kapi_kfifo_t option \<Rightarrow> u32" where
  "kapi_kfifo_avail fifo = (case fifo of None \<Rightarrow> 0 | Some f \<Rightarrow> kf_size f - (kf_in f - kf_out f))"

definition kapi_kfifo_in :: "kapi_kfifo_t option \<Rightarrow> mem option \<Rightarrow> u32 \<Rightarrow> u32 \<times> kapi_kfifo_t option" where
  "kapi_kfifo_in fifo buf len = (case (fifo, buf) of
       (Some f, Some src) \<Rightarrow>
         (case kf_buffer f of
            None \<Rightarrow> (0, fifo)
          | Some b \<Rightarrow>
              let avail = kapi_kfifo_avail fifo;
                  l = (if len > avail then avail else len);
                  off = kf_in f AND (kf_size f - 1);
                  b' = (if off + l > kf_size f then
                          let first = kf_size f - off
                          in copy_obj (copy_obj b (unat off) src 0 (unat first)) 0 src (unat first) (unat (l - first))
                        else copy_obj b (unat off) src 0 (unat l))
              in (l, Some (f\<lparr>kf_buffer := Some b', kf_in := kf_in f + l\<rparr>)))
     | _ \<Rightarrow> (0, fifo))"

definition kapi_kfifo_out :: "kapi_kfifo_t option \<Rightarrow> mem option \<Rightarrow> u32 \<Rightarrow> u32 \<times> kapi_kfifo_t option \<times> mem option" where
  "kapi_kfifo_out fifo buf len = (case (fifo, buf) of
       (Some f, Some dst) \<Rightarrow>
         (case kf_buffer f of
            None \<Rightarrow> (0, fifo, buf)
          | Some b \<Rightarrow>
              let used = kapi_kfifo_len fifo;
                  l = (if len > used then used else len);
                  off = kf_out f AND (kf_size f - 1);
                  d' = (if off + l > kf_size f then
                          let first = kf_size f - off
                          in copy_obj (copy_obj dst 0 b (unat off) (unat first)) (unat first) b 0 (unat (l - first))
                        else copy_obj dst 0 b (unat off) (unat l))
              in (l, Some (f\<lparr>kf_out := kf_out f + l\<rparr>), Some d'))
     | _ \<Rightarrow> (0, fifo, buf))"

definition kapi_kfifo_is_empty :: "kapi_kfifo_t option \<Rightarrow> bool" where
  "kapi_kfifo_is_empty fifo = (case fifo of None \<Rightarrow> True | Some f \<Rightarrow> kf_in f = kf_out f)"

definition kapi_kfifo_is_full :: "kapi_kfifo_t option \<Rightarrow> bool" where
  "kapi_kfifo_is_full fifo = (case fifo of None \<Rightarrow> False | Some f \<Rightarrow> kf_in f - kf_out f \<ge> kf_size f)"

definition kapi_kfifo_reset :: "kapi_kfifo_t option \<Rightarrow> kapi_kfifo_t option" where
  "kapi_kfifo_reset fifo = (case fifo of None \<Rightarrow> None | Some f \<Rightarrow> Some (f\<lparr>kf_in := 0, kf_out := 0\<rparr>))"

section \<open>A fifo whose size is a power of two\<close>

definition kfifo_pow2 :: "nat \<Rightarrow> kapi_kfifo_t \<Rightarrow> bool" where
  "kfifo_pow2 k f \<longleftrightarrow> k < 32 \<and> kf_size f = 2 ^ k \<and> kf_in f - kf_out f \<le> kf_size f \<and> kf_buffer f \<noteq> None"

definition kfifo_contents :: "kapi_kfifo_t \<Rightarrow> u8 list" where
  "kfifo_contents f = ring_list (case kf_buffer f of None \<Rightarrow> (\<lambda>_. 0) | Some b \<Rightarrow> b) (unat (kf_size f))
     (unat (kf_out f AND (kf_size f - 1))) (unat (kf_in f - kf_out f))"

lemma length_kfifo_contents [simp]: "length (kfifo_contents f) = unat (kf_in f - kf_out f)"
  by (simp add: kfifo_contents_def)

lemma unat_pow2: "k < 32 \<Longrightarrow> unat (2 ^ k :: u32) = 2 ^ k"
proof -
  assume "k < 32"
  then have "(2::nat) ^ k < 2 ^ 32" by (rule power_strict_increasing) simp
  then have "unat (word_of_nat (2 ^ k) :: u32) = 2 ^ k" by (simp add: of_nat_inverse)
  then show ?thesis by simp
qed

lemma unat_and_mask: "k < 32 \<Longrightarrow> unat (x AND (2 ^ k - 1) :: u32) = unat x mod 2 ^ k"
proof -
  assume "k < 32"
  have "x AND (2 ^ k - 1) = take_bit k x" by (simp only: take_bit_eq_mask mask_eq_exp_minus_1)
  then have "unat (x AND (2 ^ k - 1)) = take_bit k (unat x)"
    using \<open>k < 32\<close> by (simp add: unsigned_take_bit_eq)
  then show ?thesis by (simp only: take_bit_eq_mod)
qed

lemma unat_in_mod:
  assumes "k < 32"
  shows "unat (a :: u32) mod 2 ^ k = (unat b mod 2 ^ k + unat (a - b)) mod 2 ^ k"
proof -
  have "unat a = (unat b + unat (a - b)) mod 2 ^ 32"
    using unat_word_ariths(1) [of b "a - b"] by simp
  then have "unat a mod 2 ^ k = (unat b + unat (a - b)) mod 2 ^ 32 mod 2 ^ k" by simp
  also have "\<dots> = (unat b + unat (a - b)) mod 2 ^ k"
    by (rule mod_mod_cancel, rule le_imp_power_dvd) (use assms in simp)
  finally show ?thesis by (simp add: mod_simps)
qed

lemma unat_off_add:
  fixes x l m :: u32
  assumes "k < 32" and "l \<le> 2 ^ k"
  shows "unat ((x AND (2 ^ k - 1)) + l) = unat x mod 2 ^ k + unat l"
proof -
  have l: "unat l \<le> 2 ^ k" using assms unat_pow2 [OF assms(1)] by (simp add: word_le_nat_alt)
  have "k \<le> 31" using assms(1) by simp
  then have p: "(2::nat) ^ k \<le> 2 ^ 31" by (rule power_increasing) simp
  have "unat x mod 2 ^ k < (2::nat) ^ k" by simp
  then have "unat x mod 2 ^ k + unat l < 2 ^ 31 + 2 ^ 31"
    using p l by (meson add_less_le_mono le_trans less_le_trans)
  then have lt: "unat x mod 2 ^ k + unat l < 2 ^ 32" by simp
  have "unat ((x AND (2 ^ k - 1)) + l) = (unat (x AND (2 ^ k - 1)) + unat l) mod 2 ^ 32"
    using unat_word_ariths(1) [of "x AND (2 ^ k - 1)" l] by simp
  also have "\<dots> = unat x mod 2 ^ k + unat l"
    using lt unat_and_mask [OF assms(1)] by simp
  finally show ?thesis .
qed

lemma kfifo_in_put:
  assumes inv: "kfifo_pow2 k f" and b: "kf_buffer f = Some b"
    and run: "kapi_kfifo_in (Some f) (Some src) len = (l, f')"
  shows "unat l = min (unat len) (2 ^ k - unat (kf_in f - kf_out f)) \<and>
    f' = Some (f\<lparr>kf_buffer := Some (ring_put b (2 ^ k) (unat (kf_in f) mod 2 ^ k) src (unat l)),
                 kf_in := kf_in f + l\<rparr>)"
proof -
  have k: "k < 32" and sz: "kf_size f = 2 ^ k" and le: "kf_in f - kf_out f \<le> 2 ^ k"
    using inv by (auto simp: kfifo_pow2_def)
  let ?off = "kf_in f AND (2 ^ k - 1)" and ?h = "unat (kf_in f) mod 2 ^ k"
  have l: "l = (if len > 2 ^ k - (kf_in f - kf_out f) then 2 ^ k - (kf_in f - kf_out f) else len)"
    using run b sz by (auto simp: kapi_kfifo_in_def kapi_kfifo_avail_def Let_def)
  have av: "unat (2 ^ k - (kf_in f - kf_out f)) = 2 ^ k - unat (kf_in f - kf_out f)"
    using le unat_pow2 [OF k] by (simp add: unat_sub)
  have ul: "unat l = min (unat len) (2 ^ k - unat (kf_in f - kf_out f))"
    by (auto simp: l word_less_nat_alt av)
  then have l2: "l \<le> 2 ^ k" using unat_pow2 [OF k] by (simp add: word_le_nat_alt)
  note sum = unat_off_add [OF k l2, of "kf_in f"]
  have gt: "?off + l > 2 ^ k \<longleftrightarrow> ?h + unat l > 2 ^ k"
    by (simp only: word_less_nat_alt sum unat_pow2 [OF k])
  have off: "unat ?off = ?h" by (rule unat_and_mask [OF k])
  then have first: "unat (2 ^ k - ?off) = 2 ^ k - ?h"
    using unat_pow2 [OF k] by (subst unat_sub) (auto simp: word_le_nat_alt)
  have rest: "unat (l - (2 ^ k - ?off)) = unat l - (2 ^ k - ?h)" if "?h + unat l > 2 ^ k"
    using that first by (subst unat_sub) (auto simp: word_le_nat_alt)
  have "(if ?off + l > 2 ^ k
         then copy_obj (copy_obj b (unat ?off) src 0 (unat (2 ^ k - ?off))) 0 src (unat (2 ^ k - ?off)) (unat (l - (2 ^ k - ?off)))
         else copy_obj b (unat ?off) src 0 (unat l)) = ring_put b (2 ^ k) ?h src (unat l)"
    unfolding gt ring_put_def by (simp add: off first rest)
  moreover have "f' = Some (f\<lparr>kf_buffer := Some (if ?off + l > 2 ^ k
         then copy_obj (copy_obj b (unat ?off) src 0 (unat (2 ^ k - ?off))) 0 src (unat (2 ^ k - ?off)) (unat (l - (2 ^ k - ?off)))
         else copy_obj b (unat ?off) src 0 (unat l)), kf_in := kf_in f + l\<rparr>)"
    using run b sz by (auto simp: kapi_kfifo_in_def kapi_kfifo_avail_def Let_def)
  ultimately show ?thesis using ul by simp
qed

lemma kfifo_out_get:
  assumes inv: "kfifo_pow2 k f" and b: "kf_buffer f = Some b"
    and run: "kapi_kfifo_out (Some f) (Some dst) len = (l, f', d')"
  shows "unat l = min (unat len) (unat (kf_in f - kf_out f)) \<and>
    f' = Some (f\<lparr>kf_out := kf_out f + l\<rparr>) \<and>
    d' = Some (ring_get dst (2 ^ k) (unat (kf_out f) mod 2 ^ k) b (unat l))"
proof -
  have k: "k < 32" and sz: "kf_size f = 2 ^ k" and le: "kf_in f - kf_out f \<le> 2 ^ k"
    using inv by (auto simp: kfifo_pow2_def)
  let ?off = "kf_out f AND (2 ^ k - 1)" and ?s = "unat (kf_out f) mod 2 ^ k"
  have l: "l = (if len > kf_in f - kf_out f then kf_in f - kf_out f else len)"
    using run b by (auto simp: kapi_kfifo_out_def kapi_kfifo_len_def Let_def)
  have ul: "unat l = min (unat len) (unat (kf_in f - kf_out f))"
    by (auto simp: l word_less_nat_alt)
  then have l2: "l \<le> 2 ^ k" using le by (simp add: word_le_nat_alt)
  note sum = unat_off_add [OF k l2, of "kf_out f"]
  have gt: "?off + l > 2 ^ k \<longleftrightarrow> ?s + unat l > 2 ^ k"
    by (simp only: word_less_nat_alt sum unat_pow2 [OF k])
  have off: "unat ?off = ?s" by (rule unat_and_mask [OF k])
  then have first: "unat (2 ^ k - ?off) = 2 ^ k - ?s"
    using unat_pow2 [OF k] by (subst unat_sub) (auto simp: word_le_nat_alt)
  have rest: "unat (l - (2 ^ k - ?off)) = unat l - (2 ^ k - ?s)" if "?s + unat l > 2 ^ k"
    using that first by (subst unat_sub) (auto simp: word_le_nat_alt)
  have "(if ?off + l > 2 ^ k
         then copy_obj (copy_obj dst 0 b (unat ?off) (unat (2 ^ k - ?off))) (unat (2 ^ k - ?off)) b 0 (unat (l - (2 ^ k - ?off)))
         else copy_obj dst 0 b (unat ?off) (unat l)) = ring_get dst (2 ^ k) ?s b (unat l)"
    unfolding gt ring_get_def by (simp add: off first rest)
  moreover have "f' = Some (f\<lparr>kf_out := kf_out f + l\<rparr>) \<and> d' = Some (if ?off + l > 2 ^ k
         then copy_obj (copy_obj dst 0 b (unat ?off) (unat (2 ^ k - ?off))) (unat (2 ^ k - ?off)) b 0 (unat (l - (2 ^ k - ?off)))
         else copy_obj dst 0 b (unat ?off) (unat l))"
    using run b sz by (auto simp: kapi_kfifo_out_def kapi_kfifo_len_def Let_def)
  ultimately show ?thesis using ul by simp
qed

definition kfifo_wr :: "u8 list \<Rightarrow> kapi_kfifo_t \<Rightarrow> nat \<times> kapi_kfifo_t" where
  "kfifo_wr xs f = (case kapi_kfifo_in (Some f) (Some (mem_of_list xs))
       (if length xs < 2 ^ 32 then word_of_nat (length xs) else - 1) of
     (l, f') \<Rightarrow> (unat l, case f' of None \<Rightarrow> f | Some g \<Rightarrow> g))"

definition kfifo_rd :: "nat \<Rightarrow> kapi_kfifo_t \<Rightarrow> u8 list \<times> kapi_kfifo_t" where
  "kfifo_rd n f = (case kapi_kfifo_out (Some f) (Some (\<lambda>_. 0)) (if n < 2 ^ 32 then word_of_nat n else - 1) of
     (l, f', d) \<Rightarrow> (bytes_at (case d of None \<Rightarrow> (\<lambda>_. 0) | Some m \<Rightarrow> m) 0 (unat l),
                    case f' of None \<Rightarrow> f | Some g \<Rightarrow> g))"

lemma unat_clip: "unat (if n < 2 ^ 32 then word_of_nat n else - 1 :: u32) = min n (2 ^ 32 - 1)"
  by (simp add: of_nat_inverse unsigned_minus_1_eq_mask mask_eq_exp_minus_1)

lemma kfifo_contents_eq:
  assumes "kfifo_pow2 k f" and "kf_buffer f = Some b"
  shows "kfifo_contents f = ring_list b (2 ^ k) (unat (kf_out f) mod 2 ^ k) (unat (kf_in f - kf_out f))"
proof -
  have k: "k < 32" and sz: "kf_size f = 2 ^ k" using assms by (auto simp: kfifo_pow2_def)
  show ?thesis unfolding kfifo_contents_def sz unat_and_mask [OF k] unat_pow2 [OF k] assms(2) by simp
qed

lemma kfifo_wr_spec:
  assumes inv: "kfifo_pow2 k f" and run: "kfifo_wr xs f = (n, f')"
  shows "kfifo_pow2 k f' \<and> n = min (length xs) (2 ^ k - length (kfifo_contents f)) \<and>
    kfifo_contents f' = kfifo_contents f @ take n xs"
proof -
  from inv obtain b where b: "kf_buffer f = Some b" by (auto simp: kfifo_pow2_def)
  have k: "k < 32" and sz: "kf_size f = 2 ^ k" and le: "unat (kf_in f - kf_out f) \<le> 2 ^ k"
    using inv unat_pow2 [of k] by (auto simp: kfifo_pow2_def word_le_nat_alt)
  define len where "len = (if length xs < 2 ^ 32 then word_of_nat (length xs) else - 1 :: u32)"
  obtain l g where r: "kapi_kfifo_in (Some f) (Some (mem_of_list xs)) len = (l, g)" by force
  let ?used = "unat (kf_in f - kf_out f)"
  let ?b = "ring_put b (2 ^ k) (unat (kf_in f) mod 2 ^ k) (mem_of_list xs) (unat l)"
  note put = kfifo_in_put [OF inv b r]
  then have f': "f' = f\<lparr>kf_buffer := Some ?b, kf_in := kf_in f + l\<rparr>" and n: "n = unat l"
    using run r by (auto simp: kfifo_wr_def len_def)
  have "(2::nat) ^ k < 2 ^ 32" using k by (rule power_strict_increasing) simp
  then have n': "n = min (length xs) (2 ^ k - ?used)"
    using conjunct1 [OF put] n unat_clip [of "length xs"] by (auto simp: len_def min_def)
  have in': "unat (kf_in f + l - kf_out f) = ?used + unat l"
  proof -
    have e: "kf_in f + l - kf_out f = (kf_in f - kf_out f) + l" by simp
    have "unat ((kf_in f - kf_out f) + l) = (?used + unat l) mod 2 ^ 32"
      using unat_word_ariths(1) [of "kf_in f - kf_out f" l] by simp
    moreover have "?used + unat l < 2 ^ 32" using n n' le \<open>(2::nat) ^ k < 2 ^ 32\<close> by simp
    ultimately show ?thesis unfolding e by simp
  qed
  have inv': "kfifo_pow2 k f'"
    using k sz n n' le unat_pow2 [OF k] by (simp add: kfifo_pow2_def f' word_le_nat_alt in')
  have "kf_buffer f' = Some ?b" by (simp add: f')
  from kfifo_contents_eq [OF inv' this] kfifo_contents_eq [OF inv b]
    ring_list_put [of "unat (kf_out f) mod 2 ^ k" "2 ^ k" ?used "unat l" b "mem_of_list xs"]
  have "kfifo_contents f' = kfifo_contents f @ take n xs"
    using n n' le unat_in_mod [OF k, of "kf_in f" "kf_out f"]
    by (simp add: f' in' bytes_at_mem_of_list_take)
  with inv' n' show ?thesis by simp
qed

lemma kfifo_rd_spec:
  assumes inv: "kfifo_pow2 k f" and run: "kfifo_rd n f = (ys, f')"
  shows "kfifo_pow2 k f' \<and> ys = take n (kfifo_contents f) \<and> kfifo_contents f' = drop n (kfifo_contents f)"
proof -
  from inv obtain b where b: "kf_buffer f = Some b" by (auto simp: kfifo_pow2_def)
  have k: "k < 32" and sz: "kf_size f = 2 ^ k" and le: "unat (kf_in f - kf_out f) \<le> 2 ^ k"
    using inv unat_pow2 [of k] by (auto simp: kfifo_pow2_def word_le_nat_alt)
  define len where "len = (if n < 2 ^ 32 then word_of_nat n else - 1 :: u32)"
  obtain l g d where r: "kapi_kfifo_out (Some f) (Some (\<lambda>_. 0)) len = (l, g, d)" by (metis prod_cases3)
  let ?used = "unat (kf_in f - kf_out f)" and ?s = "unat (kf_out f) mod 2 ^ k"
  note get = kfifo_out_get [OF inv b r]
  then have f': "f' = f\<lparr>kf_out := kf_out f + l\<rparr>"
    and ys: "ys = bytes_at (ring_get (\<lambda>_. 0) (2 ^ k) ?s b (unat l)) 0 (unat l)"
    using run r by (auto simp: kfifo_rd_def len_def)
  have "?used < 2 ^ 32" by (rule order.strict_trans1 [OF le], rule power_strict_increasing) (use k in auto)
  then have l: "unat l = min n ?used"
    using conjunct1 [OF get] unat_clip [of n] by (auto simp: len_def min_def)
  note cont = kfifo_contents_eq [OF inv b]
  have ys': "ys = take n (kfifo_contents f)"
    using l le unfolding ys cont
    by (subst bytes_at_ring_get) (auto simp: min_def ring_list_take [symmetric])
  have in': "unat (kf_in f - (kf_out f + l)) = ?used - unat l"
  proof -
    have e: "kf_in f - (kf_out f + l) = (kf_in f - kf_out f) - l" by simp
    have "l \<le> kf_in f - kf_out f" using l by (simp add: word_le_nat_alt)
    then show ?thesis unfolding e by (rule unat_sub)
  qed
  have inv': "kfifo_pow2 k f'"
    using k sz b l le unat_pow2 [OF k] by (simp add: kfifo_pow2_def f' word_le_nat_alt in')
  have "unat (kf_out f + l) mod 2 ^ k = (?s + unat l) mod 2 ^ k"
    using unat_in_mod [OF k, of "kf_out f + l" "kf_out f"] by simp
  then have "kfifo_contents f' = drop n (kfifo_contents f)"
    using kfifo_contents_eq [OF inv', of b] b l ring_list_drop [of "unat l" ?used b "2 ^ k" ?s]
    by (auto simp: f' in' cont min_def)
  with inv' ys' show ?thesis by simp
qed

interpretation kfifo_stream: byte_stream "2 ^ k" "kfifo_pow2 k" kfifo_contents kfifo_wr kfifo_rd for k
proof (unfold_locales, goal_cases)
  case (1 f)
  then show ?case using unat_pow2 [of k] by (auto simp: kfifo_pow2_def word_le_nat_alt)
next
  case (2 f xs n f')
  then show ?case using kfifo_wr_spec by blast
next
  case (3 f n ys f')
  then show ?case using kfifo_rd_spec by blast
qed

section \<open>Properties\<close>

definition kfifo_of :: "u32 \<Rightarrow> kapi_kfifo_t" where
  "kfifo_of sz = \<lparr>kf_buffer = Some (\<lambda>_. 0), kf_size = sz, kf_in = 0, kf_out = 0\<rparr>"

lemmas kfifo_eval = kfifo_wr_def kfifo_rd_def kapi_kfifo_in_def kapi_kfifo_out_def kapi_kfifo_avail_def
  kapi_kfifo_len_def Let_def kfifo_of_def bytes_at_def copy_obj_def mem_of_list_def

text \<open>
  C10. A fifo whose size is a power of two is a bounded byte stream for ever: in any sequence
  of calls of \<open>kapi_kfifo_in\<close> and \<open>kapi_kfifo_out\<close> the bytes accepted are those delivered
  followed by those left, in order, whatever the values of the free-running counters, their
  wrap at \<open>2 ^ 32\<close> included.
\<close>

theorem kfifo_pow2_is_stream:
  assumes "kfifo_pow2 k f"
  shows "case stream_run kfifo_wr kfifo_rd ops f of (acc, del, g) \<Rightarrow>
    kfifo_contents f @ acc = del @ kfifo_contents g \<and> kfifo_pow2 k g"
  using kfifo_stream.run_stream [OF assms, of ops] by (auto split: prod.splits)

theorem kfifo_pow2_is_stream_witness:
  "kfifo_pow2 3 (kfifo_of 8\<lparr>kf_in := - 1, kf_out := - 1\<rparr>) \<and>
   (case stream_run kfifo_wr kfifo_rd [Write [1, 2, 3], Read 3] (kfifo_of 8\<lparr>kf_in := - 1, kf_out := - 1\<rparr>) of
      (acc, del, g) \<Rightarrow> kfifo_contents (kfifo_of 8\<lparr>kf_in := - 1, kf_out := - 1\<rparr>) @ acc = del @ kfifo_contents g)"
proof -
  have "kfifo_pow2 3 (kfifo_of 8\<lparr>kf_in := - 1, kf_out := - 1\<rparr>)"
    by (simp add: kfifo_pow2_def kfifo_of_def)
  from kfifo_pow2_is_stream [OF this, of "[Write [1, 2, 3], Read 3]"] this
  show ?thesis by (auto split: prod.splits)
qed

text \<open>
  \<open>kapi_kfifo_init\<close> accepts every size but 0, yet the masking is only right for powers of
  two: a fifo of 6 bytes that is filled with 1 to 6, read once and given a 7 delivers 2, 3,
  4, 7, 6, 1 instead of 2, 3, 4, 5, 6, 7.
\<close>

theorem kfifo_size_6_corrupts:
  "kapi_kfifo_init (Some (\<lambda>_. 0)) (Some (kfifo_of 0)) 6 = (KAPI_OK, Some (kfifo_of 6)) \<and>
   (case stream_run kfifo_wr kfifo_rd [Write [1, 2, 3, 4, 5, 6], Read 1, Write [7], Read 6] (kfifo_of 6) of
      (acc, del, g) \<Rightarrow> acc = [1, 2, 3, 4, 5, 6, 7] \<and> del = [1, 2, 3, 4, 7, 6, 1])"
  by (simp add: kapi_kfifo_init_def kfifo_eval upt_rec)

end
