(* ===== verification/WaitQueue.thy ===== *)
theory WaitQueue
  imports KPrelude
begin

text \<open>
  Wait queues of \<open>kernel/kernel/wait.c\<close> on an explicit heap: a queue is a doubly linked
  list of nodes that live on the stacks of the waiting processes, so a node is an address
  and the heap maps addresses to nodes. The scheduler is seen through what the code
  does with it: the states of the processes, the calls of \<open>enqueue_process\<close> in order, the
  current process and the tick counter. What other processes do while the caller has
  yielded is an argument: one function on the state for each call of \<open>process_yield\<close>.
\<close>

type_synonym addr = nat
type_synonym pid = nat

datatype proc_state = PROCESS_TERMINATED | PROCESS_READY | PROCESS_RUNNING | PROCESS_SLEEPING
  | PROCESS_WAITING | PROCESS_ZOMBIE | PROCESS_STOPPED | PROCESS_DEAD | PROCESS_UNUSED

record wait_queue_node_t =
  wn_proc :: "pid option"
  wn_next :: "addr option"
  wn_prev :: "addr option"

record wait_queue_t =
  wq_head :: "addr option"
  wq_tail :: "addr option"

type_synonym heap = "addr \<Rightarrow> wait_queue_node_t"

record kst =
  ks_heap :: heap
  ks_state :: "pid \<Rightarrow> proc_state"
  ks_enqueued :: "pid list"
  ks_current :: pid
  ks_jiffies :: u64

definition wait_queue_init :: wait_queue_t where
  "wait_queue_init = \<lparr>wq_head = None, wq_tail = None\<rparr>"

definition enqueue_process :: "pid \<Rightarrow> kst \<Rightarrow> kst" where
  "enqueue_process p k = k\<lparr>ks_enqueued := ks_enqueued k @ [p]\<rparr>"

definition wq_add :: "addr \<Rightarrow> heap \<Rightarrow> wait_queue_t \<Rightarrow> heap \<times> wait_queue_t" where
  "wq_add node h wq =
     (let h1 = h(node := (h node)\<lparr>wn_next := None, wn_prev := wq_tail wq\<rparr>)
      in case wq_tail wq of
           Some t \<Rightarrow> (h1(t := (h1 t)\<lparr>wn_next := Some node\<rparr>), wq\<lparr>wq_tail := Some node\<rparr>)
         | None \<Rightarrow> (h1, \<lparr>wq_head = Some node, wq_tail = Some node\<rparr>))"

definition wq_remove :: "addr \<Rightarrow> heap \<Rightarrow> wait_queue_t \<Rightarrow> heap \<times> wait_queue_t" where
  "wq_remove node h wq =
     (let (h1, wq1) = (case wn_prev (h node) of
            Some p \<Rightarrow> (h(p := (h p)\<lparr>wn_next := wn_next (h node)\<rparr>), wq)
          | None \<Rightarrow> (h, wq\<lparr>wq_head := wn_next (h node)\<rparr>));
          (h2, wq2) = (case wn_next (h1 node) of
            Some n \<Rightarrow> (h1(n := (h1 n)\<lparr>wn_prev := wn_prev (h1 node)\<rparr>), wq1)
          | None \<Rightarrow> (h1, wq1\<lparr>wq_tail := wn_prev (h1 node)\<rparr>))
      in (h2(node := (h2 node)\<lparr>wn_next := None, wn_prev := None\<rparr>), wq2))"

text \<open>
  The part of \<open>wait_queue_wait\<close> and its copies before the yield: a fresh node of the current
  process is added and the process marked as waiting.
\<close>

definition wq_sleep :: "addr \<Rightarrow> kst \<Rightarrow> wait_queue_t \<Rightarrow> kst \<times> wait_queue_t" where
  "wq_sleep node k wq =
     (let h = (ks_heap k)(node := \<lparr>wn_proc = Some (ks_current k), wn_next = None, wn_prev = None\<rparr>);
          (h', wq') = wq_add node h wq
      in (k\<lparr>ks_heap := h', ks_state := (ks_state k)(ks_current k := PROCESS_WAITING)\<rparr>, wq'))"

text \<open>\<open>node->proc && node->proc->state == PROCESS_WAITING\<close>\<close>

definition node_waiting :: "kst \<Rightarrow> addr \<Rightarrow> bool" where
  "node_waiting k n = (case wn_proc (ks_heap k n) of None \<Rightarrow> False
     | Some p \<Rightarrow> ks_state k p = PROCESS_WAITING)"

definition wq_wake_node :: "addr \<Rightarrow> kst \<Rightarrow> wait_queue_t \<Rightarrow> kst \<times> wait_queue_t" where
  "wq_wake_node node k wq =
     (let (h', wq') = wq_remove node (ks_heap k) wq; k1 = k\<lparr>ks_heap := h'\<rparr>
      in case wn_proc (h' node) of
           None \<Rightarrow> (k1, wq')
         | Some p \<Rightarrow> (enqueue_process p (k1\<lparr>ks_state := (ks_state k1)(p := PROCESS_READY)\<rparr>), wq'))"

text \<open>The loops over the list need not end on a heap whose links form a cycle.\<close>

partial_function (option) wake_one_loop ::
  "addr option \<Rightarrow> kst \<Rightarrow> wait_queue_t \<Rightarrow> (kst \<times> wait_queue_t) option" where
  "wake_one_loop node k wq = (case node of None \<Rightarrow> Some (k, wq)
     | Some n \<Rightarrow>
         if node_waiting k n then Some (wq_wake_node n k wq)
         else wake_one_loop (wn_next (ks_heap k n)) k wq)"

partial_function (option) wake_all_loop ::
  "addr option \<Rightarrow> kst \<Rightarrow> wait_queue_t \<Rightarrow> (kst \<times> wait_queue_t) option" where
  "wake_all_loop node k wq = (case node of None \<Rightarrow> Some (k, wq)
     | Some n \<Rightarrow>
         let next = wn_next (ks_heap k n)
         in if node_waiting k n
            then (case wq_wake_node n k wq of (k', wq') \<Rightarrow> wake_all_loop next k' wq')
            else wake_all_loop next k wq)"

declare wake_one_loop.simps [code] wake_all_loop.simps [code]

definition wait_queue_wake_one :: "kst \<Rightarrow> wait_queue_t \<Rightarrow> (kst \<times> wait_queue_t) option" where
  "wait_queue_wake_one k wq = wake_one_loop (wq_head wq) k wq"

definition wait_queue_wake_all :: "kst \<Rightarrow> wait_queue_t \<Rightarrow> (kst \<times> wait_queue_t) option" where
  "wait_queue_wake_all k wq = wake_all_loop (wq_head wq) k wq"

text \<open>
  \<open>wait_queue_wait\<close> releases the caller's lock, if it is given one, and does not take it
  again: the boolean says whether that lock is held. After the yield it returns at once.
  The variant for an interrupt lock differs in the lock only.
\<close>

definition wait_begin :: "addr \<Rightarrow> bool \<Rightarrow> kst \<times> wait_queue_t \<times> bool \<Rightarrow> kst \<times> wait_queue_t \<times> bool" where
  "wait_begin node has_lock s = (case s of (k, wq, held) \<Rightarrow>
     (case wq_sleep node k wq of (k', wq') \<Rightarrow> (k', wq', if has_lock then False else held)))"

definition wait_queue_wait ::
  "(kst \<times> wait_queue_t \<times> bool \<Rightarrow> kst \<times> wait_queue_t \<times> bool) \<Rightarrow> addr \<Rightarrow> bool \<Rightarrow>
     kst \<times> wait_queue_t \<times> bool \<Rightarrow> kst \<times> wait_queue_t \<times> bool" where
  "wait_queue_wait env node has_lock s = env (wait_begin node has_lock s)"

definition wait_queue_wait_irqlock ::
  "(kst \<times> wait_queue_t \<times> bool \<Rightarrow> kst \<times> wait_queue_t \<times> bool) \<Rightarrow> addr \<Rightarrow> bool \<Rightarrow>
     kst \<times> wait_queue_t \<times> bool \<Rightarrow> kst \<times> wait_queue_t \<times> bool" where
  "wait_queue_wait_irqlock env node has_irqlock s = env (wait_begin node has_irqlock s)"

definition timer_ms_to_jiffies :: "u64 \<Rightarrow> u64" where
  "timer_ms_to_jiffies ms = (if ms = 0 then 1 else (ms + 1 - 1) div 1)"

text \<open>\<open>node.next || node.prev || wq->head == &node\<close>: the node is still linked.\<close>

definition wq_unlink_if_queued :: "addr \<Rightarrow> kst \<Rightarrow> wait_queue_t \<Rightarrow> bool \<times> kst \<times> wait_queue_t" where
  "wq_unlink_if_queued node k wq =
     (if wn_next (ks_heap k node) \<noteq> None \<or> wn_prev (ks_heap k node) \<noteq> None \<or> wq_head wq = Some node
      then (case wq_remove node (ks_heap k) wq of (h', wq') \<Rightarrow> (True, k\<lparr>ks_heap := h'\<rparr>, wq'))
      else (False, k, wq))"

text \<open>
  The waiting loop of \<open>wait_queue_wait_timeout\<close>, one environment step per yield; \<open>None\<close>
  while the process is still waiting when the steps are used up.
\<close>

fun wait_timeout_loop ::
  "(kst \<times> wait_queue_t \<Rightarrow> kst \<times> wait_queue_t) list \<Rightarrow> addr \<Rightarrow> pid \<Rightarrow> u64 \<Rightarrow> u64 \<Rightarrow>
     kst \<times> wait_queue_t \<Rightarrow> (int \<times> kst \<times> wait_queue_t) option" where
  "wait_timeout_loop env node self timeout_ms deadline (k, wq) =
     (if ks_state k self = PROCESS_WAITING then
        (case env of [] \<Rightarrow> None
         | e # es \<Rightarrow>
             (case e (k, wq) of (k1, wq1) \<Rightarrow>
                if timeout_ms > 0 \<and> ks_jiffies k1 \<ge> deadline
                then (case wq_unlink_if_queued node k1 wq1 of
                        (q, k2, wq2) \<Rightarrow> Some (if q then - 1 else 0, k2, wq2))
                else wait_timeout_loop es node self timeout_ms deadline (k1, wq1)))
      else (case wq_unlink_if_queued node k wq of (q, k2, wq2) \<Rightarrow> Some (0, k2, wq2)))"

definition wait_queue_wait_timeout ::
  "(kst \<times> wait_queue_t \<Rightarrow> kst \<times> wait_queue_t) list \<Rightarrow> addr \<Rightarrow> u64 \<Rightarrow>
     kst \<times> wait_queue_t \<Rightarrow> (int \<times> kst \<times> wait_queue_t) option" where
  "wait_queue_wait_timeout env node timeout_ms s = (case s of (k, wq) \<Rightarrow>
     let deadline = (if timeout_ms > 0 then ks_jiffies k + timer_ms_to_jiffies timeout_ms else 0)
     in wait_timeout_loop env node (ks_current k) timeout_ms deadline (wq_sleep node k wq))"

section \<open>Linked lists as lists\<close>

fun first_or :: "addr list \<Rightarrow> addr option \<Rightarrow> addr option" where
  "first_or [] nx = nx"
| "first_or (n # _) nx = Some n"

definition last_or :: "addr option \<Rightarrow> addr list \<Rightarrow> addr option" where
  "last_or pr ns = (if ns = [] then pr else Some (last ns))"

text \<open>\<open>dll h pr ns nx\<close>: the nodes \<open>ns\<close> are linked both ways, between \<open>pr\<close> and \<open>nx\<close>.\<close>

fun dll :: "heap \<Rightarrow> addr option \<Rightarrow> addr list \<Rightarrow> addr option \<Rightarrow> bool" where
  "dll h pr [] nx = True"
| "dll h pr (n # ns) nx =
     (wn_prev (h n) = pr \<and> wn_next (h n) = first_or ns nx \<and> dll h (Some n) ns nx)"

definition wq_repr :: "heap \<Rightarrow> wait_queue_t \<Rightarrow> addr list \<Rightarrow> bool" where
  "wq_repr h wq ns \<longleftrightarrow> distinct ns \<and> wq_head wq = first_or ns None \<and> wq_tail wq = last_or None ns \<and>
     dll h None ns None"

lemma last_or_simps [simp]:
  "last_or pr [] = pr" "last_or pr (n # ns) = last_or (Some n) ns" "last_or pr (ns @ [n]) = Some n"
  by (auto simp: last_or_def)

lemma last_or_append [simp]: "last_or pr (xs @ ys) = last_or (last_or pr xs) ys"
  by (simp add: last_or_def)

lemma first_or_append [simp]: "first_or (xs @ ys) nx = first_or xs (first_or ys nx)"
  by (cases xs) auto

lemma dll_append:
  "dll h pr (xs @ ys) nx \<longleftrightarrow> dll h pr xs (first_or ys nx) \<and> dll h (last_or pr xs) ys nx"
  by (induction xs arbitrary: pr) auto

lemma dll_upd [simp]: "n \<notin> set ns \<Longrightarrow> dll (h(n := x)) pr ns nx = dll h pr ns nx"
  by (induction ns arbitrary: pr) auto

lemma dll_procs: "(\<And>n. n \<in> set ns \<Longrightarrow> wn_prev (h' n) = wn_prev (h n) \<and> wn_next (h' n) = wn_next (h n)) \<Longrightarrow>
    dll h' pr ns nx = dll h pr ns nx"
  by (induction ns arbitrary: pr) auto

lemma dll_set_next:
  "l \<notin> set xs \<Longrightarrow> dll h pr (xs @ [l]) nx \<Longrightarrow> dll (h(l := (h l)\<lparr>wn_next := nx'\<rparr>)) pr (xs @ [l]) nx'"
  by (simp add: dll_append)

lemma dll_set_prev:
  "m \<notin> set ys \<Longrightarrow> dll h pr (m # ys) nx \<Longrightarrow> dll (h(m := (h m)\<lparr>wn_prev := pr'\<rparr>)) pr' (m # ys) nx"
  by simp

lemma wq_add_repr:
  assumes "wq_repr h wq ns" and "n \<notin> set ns" and "wq_add n h wq = (h', wq')"
  shows "wq_repr h' wq' (ns @ [n]) \<and> (\<forall>m. wn_proc (h' m) = wn_proc (h m)) \<and>
    (\<forall>m. m \<notin> insert n (set ns) \<longrightarrow> h' m = h m)"
proof (cases ns rule: rev_cases)
  case Nil
  with assms show ?thesis by (auto simp: wq_repr_def wq_add_def Let_def)
next
  case (snoc xs t)
  with assms(1) have r: "distinct xs" "t \<notin> set xs" "wq_tail wq = Some t" "dll h None (xs @ [t]) None"
    "wq_head wq = first_or xs (Some t)"
    by (auto simp: wq_repr_def)
  let ?h1 = "h(n := (h n)\<lparr>wn_next := None, wn_prev := Some t\<rparr>)"
  have "dll ?h1 None (xs @ [t]) None" using r(4) assms(2) snoc by simp
  from dll_set_next [OF r(2) this, of "Some n"] assms snoc r
  show ?thesis by (auto simp: wq_repr_def wq_add_def Let_def dll_append)
qed

lemma wq_remove_repr:
  assumes "wq_repr h wq (xs @ n # ys)" and "wq_remove n h wq = (h', wq')"
  shows "wq_repr h' wq' (xs @ ys) \<and> (\<forall>m. wn_proc (h' m) = wn_proc (h m)) \<and>
    (\<forall>m. m \<notin> set (xs @ n # ys) \<longrightarrow> h' m = h m) \<and> wn_next (h' n) = None \<and> wn_prev (h' n) = None"
proof -
  from assms(1) have d: "distinct xs" "distinct ys" "n \<notin> set xs" "n \<notin> set ys" "set xs \<inter> set ys = {}"
    and n: "wn_prev (h n) = last_or None xs" "wn_next (h n) = first_or ys None"
    and xs: "dll h None xs (Some n)" and ys: "dll h (Some n) ys None"
    and q: "wq_head wq = first_or xs (Some n)" "wq_tail wq = last_or (Some n) ys"
    by (auto simp: wq_repr_def dll_append last_or_def)
  show ?thesis
  proof (cases xs rule: rev_cases)
    case Nil
    show ?thesis
    proof (cases ys)
      case Nil
      with \<open>xs = []\<close> n q assms(2) show ?thesis by (auto simp: wq_remove_def wq_repr_def)
    next
      case (Cons m zs)
      with \<open>xs = []\<close> d n q ys assms(2) show ?thesis by (auto simp: wq_remove_def wq_repr_def)
    qed
  next
    case (snoc ws p)
    have p: "dll (h(p := (h p)\<lparr>wn_next := first_or ys None\<rparr>)) None (ws @ [p]) (first_or ys None)"
      using dll_set_next [of p ws h None "Some n"] xs d snoc by simp
    show ?thesis
    proof (cases ys)
      case Nil
      with snoc d n q p assms(2) show ?thesis by (auto simp: wq_remove_def wq_repr_def)
    next
      case (Cons m zs)
      with snoc d n q p ys assms(2) show ?thesis
        by (auto simp: wq_remove_def wq_repr_def dll_append)
    qed
  qed
qed

section \<open>Sleeping and waking\<close>

text \<open>The queue as the list of its nodes with the processes that wait in it.\<close>

definition node_pid :: "kst \<Rightarrow> addr \<Rightarrow> pid" where
  "node_pid k n = (case wn_proc (ks_heap k n) of None \<Rightarrow> 0 | Some p \<Rightarrow> p)"

definition wq_ok :: "kst \<Rightarrow> wait_queue_t \<Rightarrow> addr list \<Rightarrow> bool" where
  "wq_ok k wq ns \<longleftrightarrow> wq_repr (ks_heap k) wq ns \<and> (\<forall>n\<in>set ns. wn_proc (ks_heap k n) \<noteq> None) \<and>
     distinct (map (node_pid k) ns)"

definition wake_pid :: "pid \<Rightarrow> kst \<Rightarrow> kst" where
  "wake_pid p k = enqueue_process p (k\<lparr>ks_state := (ks_state k)(p := PROCESS_READY)\<rparr>)"

lemma wake_pid_sel [simp]:
  "ks_heap (wake_pid p k) = ks_heap k" "ks_state (wake_pid p k) = (ks_state k)(p := PROCESS_READY)"
  "ks_enqueued (wake_pid p k) = ks_enqueued k @ [p]" "ks_current (wake_pid p k) = ks_current k"
  "ks_jiffies (wake_pid p k) = ks_jiffies k"
  by (simp_all add: wake_pid_def enqueue_process_def)

lemma wq_ok_Nil [simp]: "wq_ok k wq [] \<longleftrightarrow> wq = wait_queue_init"
  by (auto simp: wq_ok_def wq_repr_def wait_queue_init_def)

lemma node_waiting_pid: "wn_proc (ks_heap k n) \<noteq> None \<Longrightarrow> node_waiting k n \<longleftrightarrow> ks_state k (node_pid k n) = PROCESS_WAITING"
  by (auto simp: node_waiting_def node_pid_def)

lemma wq_sleep_ok:
  assumes "wq_ok k wq ns" and "n \<notin> set ns" and "ks_current k \<notin> node_pid k ` set ns"
    and "wq_sleep n k wq = (k', wq')"
  shows "wq_ok k' wq' (ns @ [n]) \<and> node_pid k' n = ks_current k \<and>
    (\<forall>m\<in>set ns. node_pid k' m = node_pid k m) \<and>
    ks_state k' = (ks_state k)(ks_current k := PROCESS_WAITING) \<and>
    ks_enqueued k' = ks_enqueued k \<and> ks_current k' = ks_current k \<and> ks_jiffies k' = ks_jiffies k"
proof -
  let ?h = "(ks_heap k)(n := \<lparr>wn_proc = Some (ks_current k), wn_next = None, wn_prev = None\<rparr>)"
  obtain h' where add: "wq_add n ?h wq = (h', wq')"
    and k': "k' = k\<lparr>ks_heap := h', ks_state := (ks_state k)(ks_current k := PROCESS_WAITING)\<rparr>"
    using assms(4) by (auto simp: wq_sleep_def Let_def split: prod.splits)
  have "wq_repr ?h wq ns" using assms(1,2) by (simp add: wq_ok_def wq_repr_def)
  note r = wq_add_repr [OF this assms(2) add]
  have pid: "node_pid k' m = (if m = n then ks_current k else node_pid k m)" for m
    using r by (simp add: node_pid_def k')
  have m: "map (node_pid k') (ns @ [n]) = map (node_pid k) ns @ [ks_current k]"
    using assms(2) by (auto simp: pid)
  have "wq_ok k' wq' (ns @ [n])"
    unfolding wq_ok_def m using r assms(1-3) by (auto simp: wq_ok_def k')
  then show ?thesis using assms(2) by (auto simp: pid) (simp_all add: k')
qed

lemma wq_wake_node_ok:
  assumes "wq_ok k wq (xs @ n # ys)" and "wq_wake_node n k wq = (k', wq')"
  shows "\<exists>h. k' = wake_pid (node_pid k n) (k\<lparr>ks_heap := h\<rparr>) \<and> (\<forall>m. wn_proc (h m) = wn_proc (ks_heap k m)) \<and>
    (\<forall>m. m \<notin> set (xs @ n # ys) \<longrightarrow> h m = ks_heap k m) \<and> wq_ok k' wq' (xs @ ys) \<and> wn_next (h n) = None \<and>
    (\<forall>m. node_pid k' m = node_pid k m)"
proof -
  obtain h q where rm: "wq_remove n (ks_heap k) wq = (h, q)" by force
  from assms(1) have "wq_repr (ks_heap k) wq (xs @ n # ys)" by (simp add: wq_ok_def)
  note r = wq_remove_repr [OF this rm]
  obtain p where p: "wn_proc (ks_heap k n) = Some p" using assms(1) by (auto simp: wq_ok_def)
  with rm r assms(2) have k': "k' = wake_pid p (k\<lparr>ks_heap := h\<rparr>)" "wq' = q"
    by (auto simp: wq_wake_node_def wake_pid_def Let_def)
  have pid: "node_pid k' m = node_pid k m" for m using r by (simp add: node_pid_def k')
  then have f: "node_pid k' = node_pid k" by (rule ext)
  have "wq_ok k' wq' (xs @ ys)"
    unfolding wq_ok_def f using r assms(1) by (auto simp: wq_ok_def k')
  with r k' p pid show ?thesis by (intro exI [of _ h]) (auto simp: node_pid_def)
qed

lemma wq_ok_next: "wq_ok k wq (xs @ n # ys) \<Longrightarrow> wn_next (ks_heap k n) = first_or ys None"
  by (simp add: wq_ok_def wq_repr_def dll_append)

text \<open>Waking one process: the first waiting process of the queue, if there is one.\<close>

lemma wake_one_loop_ok:
  assumes "wq_ok k wq (xs @ ys)" and "\<forall>n\<in>set xs. \<not> node_waiting k n"
  shows "\<exists>k' wq' zs. wake_one_loop (first_or ys None) k wq = Some (k', wq') \<and> wq_ok k' wq' zs \<and>
    (\<forall>m. node_pid k' m = node_pid k m) \<and>
    (case find (node_waiting k) ys of
       None \<Rightarrow> zs = xs @ ys \<and> k' = k \<and> wq' = wq
     | Some n \<Rightarrow> zs = remove1 n (xs @ ys) \<and>
         (\<exists>h. k' = wake_pid (node_pid k n) (k\<lparr>ks_heap := h\<rparr>)))"
  using assms
proof (induction ys arbitrary: xs)
  case Nil
  then show ?case by (auto simp: wake_one_loop.simps [of None])
next
  case (Cons n ys)
  show ?case
  proof (cases "node_waiting k n")
    case True
    obtain k' wq' where w: "wq_wake_node n k wq = (k', wq')" by force
    have "n \<notin> set xs" using Cons.prems(1) by (simp add: wq_ok_def wq_repr_def)
    then have "remove1 n (xs @ n # ys) = xs @ ys" by (simp add: remove1_append)
    with wq_wake_node_ok [OF Cons.prems(1) w] True w show ?thesis
      by (auto simp: wake_one_loop.simps [of "Some n"])
  next
    case False
    with Cons.IH [of "xs @ [n]"] Cons.prems wq_ok_next [OF Cons.prems(1)] show ?thesis
      by (simp add: wake_one_loop.simps [of "Some n"] cong: option.case_cong)
  qed
qed

lemma wait_queue_wake_one_ok:
  assumes "wq_ok k wq ns"
  shows "\<exists>k' wq' zs. wait_queue_wake_one k wq = Some (k', wq') \<and> wq_ok k' wq' zs \<and>
    (\<forall>m. node_pid k' m = node_pid k m) \<and>
    (case find (node_waiting k) ns of
       None \<Rightarrow> zs = ns \<and> k' = k \<and> wq' = wq
     | Some n \<Rightarrow> zs = remove1 n ns \<and> (\<exists>h. k' = wake_pid (node_pid k n) (k\<lparr>ks_heap := h\<rparr>)))"
proof -
  have "wq_head wq = first_or ns None" using assms by (simp add: wq_ok_def wq_repr_def)
  with wake_one_loop_ok [of k wq "[]" ns] assms show ?thesis
    by (simp add: wait_queue_wake_one_def cong: option.case_cong)
qed

text \<open>Waking all: every waiting process, in the order of the queue; the others stay.\<close>

lemma wake_all_loop_ok:
  assumes "wq_ok k wq (xs @ ys)"
  shows "\<exists>k' wq'. wake_all_loop (first_or ys None) k wq = Some (k', wq') \<and>
    wq_ok k' wq' (xs @ filter (\<lambda>n. \<not> node_waiting k n) ys) \<and>
    (\<forall>m. node_pid k' m = node_pid k m) \<and>
    ks_enqueued k' = ks_enqueued k @ map (node_pid k) (filter (node_waiting k) ys) \<and>
    ks_state k' = (\<lambda>p. if p \<in> node_pid k ` set (filter (node_waiting k) ys) then PROCESS_READY else ks_state k p) \<and>
    ks_current k' = ks_current k \<and> ks_jiffies k' = ks_jiffies k"
  using assms
proof (induction ys arbitrary: xs k wq)
  case Nil
  then show ?case by (auto simp: wake_all_loop.simps [of None])
next
  case (Cons n ys)
  note nx = wq_ok_next [OF Cons.prems]
  show ?case
  proof (cases "node_waiting k n")
    case False
    with Cons.IH [of k wq "xs @ [n]"] Cons.prems nx show ?thesis
      by (simp add: wake_all_loop.simps [of "Some n"] Let_def)
  next
    case True
    obtain k1 wq1 where w: "wq_wake_node n k wq = (k1, wq1)" by force
    from wq_wake_node_ok [OF Cons.prems w] obtain h where
      k1: "k1 = wake_pid (node_pid k n) (k\<lparr>ks_heap := h\<rparr>)"
      and h: "\<And>m. wn_proc (h m) = wn_proc (ks_heap k m)"
      and ok1: "wq_ok k1 wq1 (xs @ ys)" and pid: "\<And>m. node_pid k1 m = node_pid k m" by blast
    have "node_pid k n \<notin> node_pid k ` set ys" using Cons.prems by (simp add: wq_ok_def)
    then have ne: "m \<in> set ys \<Longrightarrow> node_pid k m \<noteq> node_pid k n" for m by (metis imageI)
    have wait: "node_waiting k1 m = node_waiting k m" if "m \<in> set ys" for m
      using ne [OF that] that Cons.prems
      by (auto simp: node_waiting_def k1 h node_pid_def wq_ok_def split: option.splits)
    then have f: "filter (node_waiting k1) ys = filter (node_waiting k) ys"
        "filter (\<lambda>m. \<not> node_waiting k1 m) ys = filter (\<lambda>m. \<not> node_waiting k m) ys"
      by (auto intro: filter_cong)
    from Cons.IH [OF ok1] obtain k' wq' where
      run: "wake_all_loop (first_or ys None) k1 wq1 = Some (k', wq')"
        "wq_ok k' wq' (xs @ filter (\<lambda>n. \<not> node_waiting k1 n) ys)"
        "\<forall>m. node_pid k' m = node_pid k1 m"
        "ks_enqueued k' = ks_enqueued k1 @ map (node_pid k1) (filter (node_waiting k1) ys)"
        "ks_state k' = (\<lambda>p. if p \<in> node_pid k1 ` set (filter (node_waiting k1) ys) then PROCESS_READY
           else ks_state k1 p)"
        "ks_current k' = ks_current k1" "ks_jiffies k' = ks_jiffies k1" by blast
    have fp: "node_pid k1 = node_pid k" using pid by (rule ext)
    have sel: "ks_state k1 = (ks_state k)(node_pid k n := PROCESS_READY)"
      "ks_enqueued k1 = ks_enqueued k @ [node_pid k n]" "ks_current k1 = ks_current k"
      "ks_jiffies k1 = ks_jiffies k" by (simp_all add: k1)
    have "wake_all_loop (first_or (n # ys) None) k wq = Some (k', wq')"
      using run(1) True w nx by (simp add: wake_all_loop.simps [of "Some n"] Let_def)
    moreover have "ks_state k' = (\<lambda>p. if p \<in> node_pid k ` set (filter (node_waiting k) (n # ys))
        then PROCESS_READY else ks_state k p)"
      unfolding run(5) f fp sel using True by (auto simp: fun_eq_iff)
    ultimately show ?thesis using run(2-4,6,7) True unfolding f fp sel by simp
  qed
qed

lemma wait_queue_wake_all_ok:
  assumes "wq_ok k wq ns"
  shows "\<exists>k' wq'. wait_queue_wake_all k wq = Some (k', wq') \<and>
    wq_ok k' wq' (filter (\<lambda>n. \<not> node_waiting k n) ns) \<and>
    (\<forall>m. node_pid k' m = node_pid k m) \<and>
    ks_enqueued k' = ks_enqueued k @ map (node_pid k) (filter (node_waiting k) ns) \<and>
    ks_state k' = (\<lambda>p. if p \<in> node_pid k ` set (filter (node_waiting k) ns) then PROCESS_READY else ks_state k p) \<and>
    ks_current k' = ks_current k \<and> ks_jiffies k' = ks_jiffies k"
proof -
  have "wq_head wq = first_or ns None" using assms by (simp add: wq_ok_def wq_repr_def)
  with wake_all_loop_ok [of k wq "[]" ns] assms show ?thesis
    by (simp add: wait_queue_wake_all_def)
qed

end
