(* ===== verification/Fifo.thy ===== *)
theory Fifo
  imports WaitQueue
begin

text \<open>
  The blocking byte pipe of \<open>kernel/kernel/fifo.c\<close>. Reading and writing block on the wait
  queues of the pipe, so the state of an operation is the scheduler state with the pipe,
  and what other processes do during each yield is the next function of a list. The result
  is \<open>None\<close> while the operation has not returned when the list is used up, or if it never
  returns. The pipe's spinlock is a flag of the pipe, because \<open>wait_queue_wait\<close> drops it.
  The positions may stand at \<open>FIFO_PIPE_SIZE\<close>, one past the last byte.
\<close>

abbreviation (input) FIFO_PIPE_SIZE :: nat where "FIFO_PIPE_SIZE \<equiv> 4096"
abbreviation (input) FIFO_READER_CLOSED :: u32 where "FIFO_READER_CLOSED \<equiv> 1"
abbreviation (input) FIFO_WRITER_CLOSED :: u32 where "FIFO_WRITER_CLOSED \<equiv> 2"

record fifo_pipe_t =
  ff_data :: mem
  ff_read_pos :: nat
  ff_write_pos :: nat
  ff_bytes :: nat
  ff_lock :: bool
  ff_read_waiters :: wait_queue_t
  ff_write_waiters :: wait_queue_t
  ff_ref_count :: u32
  ff_flags :: u32

type_synonym fifo_env = "kst \<times> fifo_pipe_t \<Rightarrow> kst \<times> fifo_pipe_t"

definition fifo_create :: "bool \<Rightarrow> fifo_pipe_t option" where
  "fifo_create alloc_ok = (if \<not> alloc_ok then None
     else Some \<lparr>ff_data = (\<lambda>_. 0), ff_read_pos = 0, ff_write_pos = 0, ff_bytes = 0, ff_lock = False,
       ff_read_waiters = wait_queue_init, ff_write_waiters = wait_queue_init, ff_ref_count = 2, ff_flags = 0\<rparr>)"

text \<open>\<open>fifo_destroy\<close> frees the pipe: there is none afterwards.\<close>

definition fifo_destroy :: "fifo_pipe_t option \<Rightarrow> fifo_pipe_t option" where
  "fifo_destroy pipe = None"

text \<open>One pass of the loop of \<open>fifo_read\<close> when there are bytes.\<close>

definition fifo_read_chunk :: "u64 \<Rightarrow> nat \<Rightarrow> kst \<Rightarrow> fifo_pipe_t \<Rightarrow> mem \<Rightarrow> (nat \<times> kst \<times> fifo_pipe_t \<times> mem) option" where
  "fifo_read_chunk cnt tot k f dst =
     (let want = unat (ucast cnt - word_of_nat tot :: u32);
          to_copy = (if want > ff_bytes f then ff_bytes f else want);
          was_full = (ff_bytes f = FIFO_PIPE_SIZE);
          contiguous = FIFO_PIPE_SIZE - ff_read_pos f;
          (dst', pos) =
            (if contiguous \<ge> to_copy
             then (copy_obj dst tot (ff_data f) (ff_read_pos f) to_copy, ff_read_pos f + to_copy)
             else (copy_obj (copy_obj dst tot (ff_data f) (ff_read_pos f) contiguous)
                     (tot + contiguous) (ff_data f) 0 (to_copy - contiguous), to_copy - contiguous));
          f1 = f\<lparr>ff_read_pos := pos, ff_bytes := ff_bytes f - to_copy\<rparr>
      in if was_full
         then map_option (\<lambda>(k', wq'). (tot + to_copy, k', f1\<lparr>ff_write_waiters := wq'\<rparr>, dst'))
                (wait_queue_wake_all k (ff_write_waiters f1))
         else Some (tot + to_copy, k, f1, dst'))"

partial_function (option) fifo_read_loop ::
  "fifo_env list \<Rightarrow> addr \<Rightarrow> u64 \<Rightarrow> nat \<Rightarrow> kst \<Rightarrow> fifo_pipe_t \<Rightarrow> mem \<Rightarrow> (int \<times> kst \<times> fifo_pipe_t \<times> mem) option" where
  "fifo_read_loop env node cnt tot k f dst =
     (if \<not> int tot < sint cnt then Some (int tot, k, f\<lparr>ff_lock := False\<rparr>, dst)
      else if ff_bytes f = 0 then
        (if ff_flags f AND FIFO_WRITER_CLOSED \<noteq> 0
         then Some (int tot, k, f\<lparr>ff_lock := False\<rparr>, dst)
         else (case env of [] \<Rightarrow> None
               | e # es \<Rightarrow>
                   (case wait_begin node True (k, ff_read_waiters f, ff_lock f) of
                      (k1, wq, lk) \<Rightarrow>
                        (case e (k1, f\<lparr>ff_read_waiters := wq, ff_lock := lk\<rparr>) of
                           (k2, f2) \<Rightarrow> fifo_read_loop es node cnt tot k2 f2 dst))))
      else Option.bind (fifo_read_chunk cnt tot k f dst)
             (\<lambda>(tot', k', f', dst'). fifo_read_loop env node cnt tot' k' f' dst'))"

definition fifo_read ::
  "fifo_env list \<Rightarrow> addr \<Rightarrow> kst \<Rightarrow> fifo_pipe_t option \<Rightarrow> mem option \<Rightarrow> u64 \<Rightarrow>
     (int \<times> kst \<times> fifo_pipe_t option \<times> mem option) option" where
  "fifo_read env node k pipe buf cnt = (case (pipe, buf) of
       (Some f, Some dst) \<Rightarrow>
         if cnt = 0 then Some (- 1, k, pipe, buf)
         else map_option (\<lambda>(r, k', f', dst'). (r, k', Some f', Some dst'))
                (fifo_read_loop env node cnt 0 k (f\<lparr>ff_lock := True\<rparr>) dst)
     | _ \<Rightarrow> Some (- 1, k, pipe, buf))"

text \<open>One pass of the loop of \<open>fifo_write\<close> when there is space.\<close>

definition fifo_write_chunk :: "mem \<Rightarrow> nat \<Rightarrow> nat \<Rightarrow> kst \<Rightarrow> fifo_pipe_t \<Rightarrow> (nat \<times> nat \<times> kst \<times> fifo_pipe_t) option" where
  "fifo_write_chunk src remaining tot k f =
     (let space = FIFO_PIPE_SIZE - ff_bytes f;
          to_copy = (if remaining > space then space else remaining);
          was_empty = (ff_bytes f = 0);
          contiguous = FIFO_PIPE_SIZE - ff_write_pos f;
          (data', pos) =
            (if contiguous \<ge> to_copy
             then (copy_obj (ff_data f) (ff_write_pos f) src tot to_copy, ff_write_pos f + to_copy)
             else (copy_obj (copy_obj (ff_data f) (ff_write_pos f) src tot contiguous)
                     0 src (tot + contiguous) (to_copy - contiguous), to_copy - contiguous));
          f1 = f\<lparr>ff_data := data', ff_write_pos := pos, ff_bytes := ff_bytes f + to_copy\<rparr>
      in if was_empty
         then map_option (\<lambda>(k', wq'). (remaining - to_copy, tot + to_copy, k', f1\<lparr>ff_read_waiters := wq'\<rparr>))
                (wait_queue_wake_all k (ff_read_waiters f1))
         else Some (remaining - to_copy, tot + to_copy, k, f1))"

partial_function (option) fifo_write_loop ::
  "fifo_env list \<Rightarrow> addr \<Rightarrow> mem \<Rightarrow> nat \<Rightarrow> nat \<Rightarrow> kst \<Rightarrow> fifo_pipe_t \<Rightarrow> (int \<times> kst \<times> fifo_pipe_t) option" where
  "fifo_write_loop env node src remaining tot k f =
     (if remaining = 0 then Some (int tot, k, f\<lparr>ff_lock := False\<rparr>)
      else if ff_flags f AND FIFO_READER_CLOSED \<noteq> 0
      then Some (if tot > 0 then int tot else - 1, k, f\<lparr>ff_lock := False\<rparr>)
      else if FIFO_PIPE_SIZE - ff_bytes f = 0 then
        (case env of [] \<Rightarrow> None
         | e # es \<Rightarrow>
             (case wait_begin node True (k, ff_write_waiters f, ff_lock f) of
                (k1, wq, lk) \<Rightarrow>
                  (case e (k1, f\<lparr>ff_write_waiters := wq, ff_lock := lk\<rparr>) of
                     (k2, f2) \<Rightarrow> fifo_write_loop es node src remaining tot k2 f2)))
      else Option.bind (fifo_write_chunk src remaining tot k f)
             (\<lambda>(remaining', tot', k', f'). fifo_write_loop env node src remaining' tot' k' f'))"

definition fifo_write ::
  "fifo_env list \<Rightarrow> addr \<Rightarrow> kst \<Rightarrow> fifo_pipe_t option \<Rightarrow> mem option \<Rightarrow> u64 \<Rightarrow>
     (int \<times> kst \<times> fifo_pipe_t option) option" where
  "fifo_write env node k pipe buf cnt = (case (pipe, buf) of
       (Some f, Some src) \<Rightarrow>
         if cnt = 0 then Some (- 1, k, pipe)
         else map_option (\<lambda>(r, k', f'). (r, k', Some f'))
                (fifo_write_loop env node src (unat (ucast cnt :: u32)) 0 k (f\<lparr>ff_lock := True\<rparr>))
     | _ \<Rightarrow> Some (- 1, k, pipe))"

definition fifo_poll :: "fifo_pipe_t option \<Rightarrow> u32" where
  "fifo_poll pipe = (case pipe of None \<Rightarrow> 0
     | Some f \<Rightarrow>
         (if ff_bytes f > 0 \<or> ff_flags f AND FIFO_WRITER_CLOSED \<noteq> 0 then 1 else 0) OR
         (if ff_bytes f < FIFO_PIPE_SIZE \<or> ff_flags f AND FIFO_READER_CLOSED \<noteq> 0 then 2 else 0) OR
         (if ff_flags f AND (FIFO_READER_CLOSED OR FIFO_WRITER_CLOSED) \<noteq> 0 then 4 else 0))"

definition fifo_close_reader :: "kst \<Rightarrow> fifo_pipe_t option \<Rightarrow> (kst \<times> fifo_pipe_t option) option" where
  "fifo_close_reader k pipe = (case pipe of None \<Rightarrow> Some (k, None)
     | Some f \<Rightarrow>
         map_option (\<lambda>(k', wq).
             let f1 = f\<lparr>ff_flags := ff_flags f OR FIFO_READER_CLOSED, ff_write_waiters := wq,
                       ff_ref_count := ff_ref_count f - 1\<rparr>
             in (k', if ff_ref_count f1 = 0 then fifo_destroy (Some f1) else Some f1))
           (wait_queue_wake_all k (ff_write_waiters f)))"

definition fifo_close_writer :: "kst \<Rightarrow> fifo_pipe_t option \<Rightarrow> (kst \<times> fifo_pipe_t option) option" where
  "fifo_close_writer k pipe = (case pipe of None \<Rightarrow> Some (k, None)
     | Some f \<Rightarrow>
         map_option (\<lambda>(k', wq).
             let f1 = f\<lparr>ff_flags := ff_flags f OR FIFO_WRITER_CLOSED, ff_read_waiters := wq,
                       ff_ref_count := ff_ref_count f - 1\<rparr>
             in (k', if ff_ref_count f1 = 0 then fifo_destroy (Some f1) else Some f1))
           (wait_queue_wake_all k (ff_read_waiters f)))"

section \<open>Invariant and contents\<close>

definition fifo_inv :: "fifo_pipe_t \<Rightarrow> bool" where
  "fifo_inv f \<longleftrightarrow> ff_read_pos f \<le> FIFO_PIPE_SIZE \<and> ff_write_pos f \<le> FIFO_PIPE_SIZE \<and>
     ff_bytes f \<le> FIFO_PIPE_SIZE \<and>
     ff_write_pos f mod FIFO_PIPE_SIZE = (ff_read_pos f + ff_bytes f) mod FIFO_PIPE_SIZE"

definition fifo_contents :: "fifo_pipe_t \<Rightarrow> u8 list" where
  "fifo_contents f = ring_list (ff_data f) FIFO_PIPE_SIZE (ff_read_pos f mod FIFO_PIPE_SIZE) (ff_bytes f)"

lemma length_fifo_contents [simp]: "length (fifo_contents f) = ff_bytes f"
  by (simp add: fifo_contents_def)

section \<open>One pass of the loops\<close>

lemma ring_list_mod: "ring_list b sz (s mod sz) n = ring_list b sz s n"
  by (simp add: ring_list_def mod_simps)

lemma fifo_chunk_out:
  assumes "rp \<le> sz" and "0 < n" and "n \<le> sz"
    and d: "d = (if sz - rp \<ge> n then copy_obj dst tot b rp n
      else copy_obj (copy_obj dst tot b rp (sz - rp)) (tot + (sz - rp)) b 0 (n - (sz - rp)))"
    and pos: "pos = (if sz - rp \<ge> n then rp + n else n - (sz - rp))"
  shows "bytes_at d tot n = ring_list b sz rp n \<and> pos mod sz = (rp + n) mod sz \<and> pos \<le> sz \<and>
    (\<forall>i. i < tot \<or> tot + n \<le> i \<longrightarrow> d i = dst i)"
proof (cases "sz - rp \<ge> n")
  case True
  with assms show ?thesis
    by (auto simp: copy_obj_def list_eq_iff_nth_eq)
next
  case False
  have "(rp + i) mod sz = (if i < sz - rp then rp + i else i - (sz - rp))" if "i < n" for i
    using assms(1,3) False that by (auto simp: mod_if)
  with assms False show ?thesis
    by (auto simp: copy_obj_def list_eq_iff_nth_eq le_mod_geq add.commute)
qed

lemma fifo_read_chunk_ok:
  assumes inv: "fifo_inv f" and "0 < ff_bytes f" and want: "unat (ucast cnt - word_of_nat tot :: u32) = want"
    and "0 < want" and ww: "ff_write_waiters f = wait_queue_init"
  shows "\<exists>d f'. fifo_read_chunk cnt tot k f dst = Some (tot + min want (ff_bytes f), k, f', d) \<and>
    fifo_inv f' \<and> fifo_contents f = bytes_at d tot (min want (ff_bytes f)) @ fifo_contents f' \<and>
    (\<forall>i. i < tot \<or> tot + min want (ff_bytes f) \<le> i \<longrightarrow> d i = dst i) \<and>
    ff_write_waiters f' = wait_queue_init \<and> ff_read_waiters f' = ff_read_waiters f \<and>
    ff_flags f' = ff_flags f \<and> ff_lock f' = ff_lock f \<and>
    ff_bytes f' = ff_bytes f - min want (ff_bytes f)"
proof -
  let ?n = "min want (ff_bytes f)" and ?rp = "ff_read_pos f"
  define d where "d = (if FIFO_PIPE_SIZE - ?rp \<ge> ?n then copy_obj dst tot (ff_data f) ?rp ?n
      else copy_obj (copy_obj dst tot (ff_data f) ?rp (FIFO_PIPE_SIZE - ?rp)) (tot + (FIFO_PIPE_SIZE - ?rp))
             (ff_data f) 0 (?n - (FIFO_PIPE_SIZE - ?rp)))"
  define pos where "pos = (if FIFO_PIPE_SIZE - ?rp \<ge> ?n then ?rp + ?n else ?n - (FIFO_PIPE_SIZE - ?rp))"
  let ?f = "f\<lparr>ff_read_pos := pos, ff_bytes := ff_bytes f - ?n\<rparr>"
  have bounds: "?rp \<le> FIFO_PIPE_SIZE" "0 < ?n" "?n \<le> FIFO_PIPE_SIZE" "?n \<le> ff_bytes f"
    using assms by (auto simp: fifo_inv_def)
  note out = fifo_chunk_out [OF bounds(1-3) d_def pos_def]
  have n: "(if want > ff_bytes f then ff_bytes f else want) = ?n" by simp
  have wake: "wait_queue_wake_all k wait_queue_init = Some (k, wait_queue_init)"
    by (simp add: wait_queue_wake_all_def wait_queue_init_def wake_all_loop.simps)
  have run: "fifo_read_chunk cnt tot k f dst = Some (tot + ?n, k, ?f, d)"
    unfolding fifo_read_chunk_def Let_def want n
    by (simp add: d_def pos_def ww wake del: min_def)
  have "fifo_contents f = take ?n (fifo_contents f) @ drop ?n (fifo_contents f)" by simp
  also have "\<dots> = bytes_at d tot ?n @ fifo_contents ?f"
    using bounds out
    by (simp add: fifo_contents_def ring_list_take ring_list_drop ring_list_mod mod_simps)
  finally have c: "fifo_contents f = bytes_at d tot ?n @ fifo_contents ?f" .
  have "(?rp + ff_bytes f) mod FIFO_PIPE_SIZE = (?rp + ?n + (ff_bytes f - ?n)) mod FIFO_PIPE_SIZE"
    using bounds by simp
  also have "\<dots> = (pos + (ff_bytes f - ?n)) mod FIFO_PIPE_SIZE"
    using conjunct1 [OF conjunct2 [OF out]] by (metis mod_add_left_eq)
  finally have wp: "(?rp + ff_bytes f) mod FIFO_PIPE_SIZE = (pos + (ff_bytes f - ?n)) mod FIFO_PIPE_SIZE" .
  have "pos \<le> FIFO_PIPE_SIZE" using out by blast
  moreover have "ff_bytes f - ?n \<le> FIFO_PIPE_SIZE" using inv unfolding fifo_inv_def by linarith
  ultimately have "fifo_inv ?f" using inv wp unfolding fifo_inv_def by simp
  with run c out ww show ?thesis by (intro exI [of _ d] exI [of _ ?f]) simp
qed

lemma fifo_write_chunk_ok:
  assumes inv: "fifo_inv f" and "0 < remaining" and "remaining \<le> FIFO_PIPE_SIZE" and empty: "ff_bytes f = 0"
    and rw: "wait_queue_wake_all k (ff_read_waiters f) = Some (k', wq')"
  shows "\<exists>f'. fifo_write_chunk src remaining tot k f = Some (0, tot + remaining, k', f') \<and>
    fifo_inv f' \<and> fifo_contents f' = bytes_at src tot remaining \<and>
    ff_read_waiters f' = wq' \<and> ff_write_waiters f' = ff_write_waiters f \<and>
    ff_flags f' = ff_flags f \<and> ff_lock f' = ff_lock f \<and> ff_bytes f' = remaining"
proof -
  let ?wp = "ff_write_pos f" and ?n = remaining
  define c where "c = FIFO_PIPE_SIZE - ?wp"
  define d where "d = (if c \<ge> ?n then copy_obj (ff_data f) ?wp src tot ?n
      else copy_obj (copy_obj (ff_data f) ?wp src tot c) 0 src (tot + c) (?n - c))"
  define pos where "pos = (if c \<ge> ?n then ?wp + ?n else ?n - c)"
  let ?f = "f\<lparr>ff_data := d, ff_write_pos := pos, ff_bytes := ?n, ff_read_waiters := wq'\<rparr>"
  have wp: "?wp \<le> FIFO_PIPE_SIZE" "?wp mod FIFO_PIPE_SIZE = ff_read_pos f mod FIFO_PIPE_SIZE"
    "ff_read_pos f \<le> FIFO_PIPE_SIZE"
    using inv empty by (auto simp: fifo_inv_def)
  have n: "(if remaining > FIFO_PIPE_SIZE - 0 then FIFO_PIPE_SIZE - 0 else remaining) = ?n" using assms(3) by simp
  have run: "fifo_write_chunk src remaining tot k f = Some (0, tot + ?n, k', ?f)"
    unfolding fifo_write_chunk_def Let_def empty n
    using rw empty by (simp add: d_def pos_def c_def)
  have idx: "(?wp + i) mod FIFO_PIPE_SIZE = (if i < c then ?wp + i else i - c)" if "i < ?n" for i
    using wp assms(3) that by (auto simp: c_def mod_if)
  have "d ((?wp + i) mod FIFO_PIPE_SIZE) = src (tot + i)" if "i < ?n" for i
    unfolding idx [OF that] using that wp assms(3) by (auto simp: d_def c_def copy_obj_def)
  then have "bytes_at src tot ?n = ring_list d FIFO_PIPE_SIZE ?wp ?n"
    by (simp add: bytes_at_def ring_list_def)
  also have "\<dots> = fifo_contents ?f"
    using wp(2) by (simp add: fifo_contents_def flip: ring_list_mod [of d FIFO_PIPE_SIZE ?wp])
  finally have cont: "fifo_contents ?f = bytes_at src tot ?n" by simp
  have "pos mod FIFO_PIPE_SIZE = (?wp + ?n) mod FIFO_PIPE_SIZE"
  proof (cases "c \<ge> ?n")
    case False
    then have "FIFO_PIPE_SIZE \<le> ?wp + ?n" "pos = ?wp + ?n - FIFO_PIPE_SIZE"
      using wp(1) by (simp_all add: pos_def c_def)
    then show ?thesis by (simp add: le_mod_geq)
  qed (simp add: pos_def)
  also have "\<dots> = (ff_read_pos f + ?n) mod FIFO_PIPE_SIZE" using wp(2) by (metis mod_add_left_eq)
  finally have m: "pos mod FIFO_PIPE_SIZE = (ff_read_pos f + ?n) mod FIFO_PIPE_SIZE" .
  have "pos \<le> FIFO_PIPE_SIZE" using wp(1) assms(3) unfolding pos_def c_def by auto
  with m wp(3) assms(3) have "fifo_inv ?f" unfolding fifo_inv_def by simp
  with run cont show ?thesis by (intro exI [of _ ?f]) simp
qed

section \<open>Reading across writes\<close>

text \<open>Another process that writes \<open>xs\<close> while the reader has yielded.\<close>

definition fifo_writer :: "u8 list \<Rightarrow> fifo_env" where
  "fifo_writer xs s = (case s of (k, f) \<Rightarrow>
     (case fifo_write [] 0 k (Some f) (Some (mem_of_list xs)) (word_of_nat (length xs)) of
        Some (r, k', Some f') \<Rightarrow> (k', f') | _ \<Rightarrow> (k, f)))"

lemma sint_small: "c < 2 ^ 31 \<Longrightarrow> sint (word_of_nat c :: u64) = int c"
  by (simp add: signed_of_nat signed_take_bit_int_eq_self)

lemma ucast_small: "(ucast (word_of_nat c :: u64) :: u32) = word_of_nat c"
  by (rule bit_word_eqI) (simp add: bit_simps)

lemma want_small:
  assumes "c < 2 ^ 31" and "tot \<le> c"
  shows "unat (ucast (word_of_nat c :: u64) - word_of_nat tot :: u32) = c - tot"
proof -
  have "(word_of_nat c - word_of_nat tot :: u32) = word_of_nat (c - tot)"
    using assms(2) by (simp add: of_nat_diff)
  then show ?thesis using assms(1) by (simp add: ucast_small of_nat_inverse)
qed

lemma fifo_writer_ok:
  assumes "fifo_inv f" and "ff_bytes f = 0" and "ff_flags f = 0" and "ff_write_waiters f = wait_queue_init"
    and "wq_ok k (ff_read_waiters f) ns" and "\<forall>n\<in>set ns. node_waiting k n"
    and "0 < length xs" and "length xs \<le> FIFO_PIPE_SIZE"
  shows "\<exists>k' f'. fifo_writer xs (k, f) = (k', f') \<and> fifo_inv f' \<and> fifo_contents f' = xs \<and>
    ff_read_waiters f' = wait_queue_init \<and> ff_write_waiters f' = wait_queue_init \<and>
    ff_flags f' = 0 \<and> ff_bytes f' = length xs \<and> ks_enqueued k' = ks_enqueued k @ map (node_pid k) ns \<and>
    (\<forall>n\<in>set ns. ks_state k' (node_pid k n) = PROCESS_READY) \<and> ks_current k' = ks_current k"
proof -
  have w: "filter (node_waiting k) ns = ns" using assms(6) by (simp add: filter_id_conv)
  obtain k' wq' where wake: "wait_queue_wake_all k (ff_read_waiters f) = Some (k', wq')"
    and "wq_ok k' wq' (filter (\<lambda>n. \<not> node_waiting k n) ns)"
    and k': "ks_enqueued k' = ks_enqueued k @ map (node_pid k) ns" "\<forall>n\<in>set ns. ks_state k' (node_pid k n) = PROCESS_READY"
      "ks_current k' = ks_current k"
    using wait_queue_wake_all_ok [OF assms(5)] unfolding w by auto
  moreover have "filter (\<lambda>n. \<not> node_waiting k n) ns = []" using assms(6) by simp
  ultimately have wq': "wq' = wait_queue_init" by simp
  let ?f = "f\<lparr>ff_lock := True\<rparr>"
  have inv: "fifo_inv ?f" using assms(1) by (simp add: fifo_inv_def)
  obtain f' where f': "fifo_write_chunk (mem_of_list xs) (length xs) 0 k ?f = Some (0, 0 + length xs, k', f')"
    "fifo_inv f'" "fifo_contents f' = bytes_at (mem_of_list xs) 0 (length xs)" "ff_read_waiters f' = wq'"
    "ff_write_waiters f' = wait_queue_init" "ff_flags f' = 0" "ff_bytes f' = length xs"
    using fifo_write_chunk_ok [OF inv assms(7,8), of k k' wq' "mem_of_list xs" 0] wake assms(2-4) by auto
  have len: "unat (ucast (word_of_nat (length xs) :: u64) :: u32) = length xs"
    using assms(8) by (simp add: ucast_small of_nat_inverse)
  have ne: "word_of_nat (length xs) \<noteq> (0 :: u64)"
  proof
    assume "word_of_nat (length xs) = (0 :: u64)"
    then have "unat (ucast (word_of_nat (length xs) :: u64) :: u32) = 0" by simp
    with len assms(7) show False by simp
  qed
  have "fifo_write_loop [] 0 (mem_of_list xs) (length xs) 0 k ?f = Some (int (length xs), k', f'\<lparr>ff_lock := False\<rparr>)"
    using f'(1) assms(2,3,7)
    by (simp add: fifo_write_loop.simps [of _ _ _ "length xs"] fifo_write_loop.simps [of _ _ _ 0])
  then have "fifo_writer xs (k, f) = (k', f'\<lparr>ff_lock := False\<rparr>)"
    using ne by (simp add: fifo_writer_def fifo_write_def len)
  with f' wq' k' show ?thesis by (auto simp: fifo_inv_def fifo_contents_def)
qed

lemma fifo_sleep_ok:
  assumes "ff_read_waiters f = wait_queue_init"
    and "wait_begin node True (k, ff_read_waiters f, ff_lock f) = (k1, wq, lk)"
  shows "wq_ok k1 wq [node] \<and> node_waiting k1 node \<and> lk = False \<and> node_pid k1 node = ks_current k \<and>
    ks_enqueued k1 = ks_enqueued k \<and> ks_current k1 = ks_current k"
proof -
  obtain k2 wq2 where sl: "wq_sleep node k wait_queue_init = (k2, wq2)" by force
  have "wq_ok k wait_queue_init []" by simp
  from wq_sleep_ok [OF this _ _ sl] have ok: "wq_ok k2 wq2 ([] @ [node])" "node_pid k2 node = ks_current k"
    "ks_state k2 = (ks_state k)(ks_current k := PROCESS_WAITING)" "ks_enqueued k2 = ks_enqueued k" "ks_current k2 = ks_current k"
    by auto
  then have "node_waiting k2 node" by (simp add: node_waiting_pid wq_ok_def)
  with ok sl assms show ?thesis by (simp add: wait_begin_def)
qed

text \<open>
  How a read that blocked \<open>n\<close> times leaves the scheduler: the reader was put back into the run queue once for each block,
  and the \<open>n\<close> writes were just enough for the \<open>c\<close> bytes it wants beyond the \<open>b\<close> that were there.
\<close>

definition fifo_woken :: "nat \<Rightarrow> u8 list list \<Rightarrow> nat \<Rightarrow> nat \<Rightarrow> kst \<Rightarrow> kst \<Rightarrow> bool" where
  "fifo_woken n xss b c k k' \<longleftrightarrow> n \<le> length xss \<and> c \<le> b + length (concat (take n xss)) \<and>
     (\<forall>m<n. b + length (concat (take m xss)) < c) \<and>
     ks_enqueued k' = ks_enqueued k @ replicate n (ks_current k) \<and> ks_current k' = ks_current k \<and>
     (n > 0 \<longrightarrow> ks_state k' (ks_current k) = PROCESS_READY)"

lemma fifo_woken_0: "c \<le> b \<Longrightarrow> fifo_woken 0 xss b c k k"
  by (simp add: fifo_woken_def)

lemma fifo_woken_Suc:
  assumes "fifo_woken n xss 0 (c - length xs) k2 k'" and "0 < c"
    and "ks_enqueued k2 = ks_enqueued k @ [ks_current k]" and "ks_current k2 = ks_current k"
    and "ks_state k2 (ks_current k) = PROCESS_READY" and "n = 0 \<Longrightarrow> k' = k2"
  shows "fifo_woken (Suc n) (xs # xss) 0 c k k'"
proof -
  have "length (concat (take m (xs # xss))) < c" if m: "m < Suc n" for m
  proof (cases m)
    case (Suc l)
    then have "length (concat (take l xss)) < c - length xs" using m assms(1) by (simp add: fifo_woken_def)
    then show ?thesis by (simp add: Suc)
  qed (use assms(2) in simp)
  moreover have "c \<le> length (concat (take (Suc n) (xs # xss)))"
    using assms(1) by (simp add: fifo_woken_def le_diff_conv add.commute)
  ultimately show ?thesis using assms by (cases "n = 0") (simp_all add: fifo_woken_def)
qed

lemma fifo_read_loop_blocked:
  assumes "fifo_inv f" and "ff_bytes f = 0" and "ff_flags f = 0"
    and "ff_read_waiters f = wait_queue_init" and "ff_write_waiters f = wait_queue_init"
    and "c < 2 ^ 31" and "tot \<le> c" and "\<forall>xs\<in>set xss. 0 < length xs \<and> length xs \<le> FIFO_PIPE_SIZE"
    and "c - tot \<le> length (concat xss)"
  shows "\<exists>k' f' d n. fifo_read_loop (map fifo_writer xss) node (word_of_nat c) tot k f dst = Some (int c, k', f', d) \<and>
    bytes_at d tot (c - tot) = take (c - tot) (concat xss) \<and> (\<forall>i<tot. d i = dst i) \<and>
    fifo_woken n xss 0 (c - tot) k k' \<and> (n = 0 \<longrightarrow> k' = k)"
  using assms
proof (induction xss arbitrary: tot k f dst)
  case Nil
  then show ?case using fifo_woken_0 [of "c - tot" 0 "[]" k]
    by (auto simp: fifo_read_loop.simps [of _ _ _ tot] sint_small)
next
  case (Cons xs xss)
  show ?case
  proof (cases "tot = c")
    case True
    then show ?thesis using Cons.prems(6) fifo_woken_0 [of 0 0 "xs # xss" k]
      by (auto simp: fifo_read_loop.simps [of _ _ _ c] sint_small)
  next
    case False
    then have lt: "tot < c" using Cons.prems(7) by simp
    obtain k1 wq lk where sl: "wait_begin node True (k, ff_read_waiters f, ff_lock f) = (k1, wq, lk)"
      by (metis prod_cases3)
    note sleep = fifo_sleep_ok [OF Cons.prems(4) sl]
    let ?f1 = "f\<lparr>ff_read_waiters := wq, ff_lock := lk\<rparr>"
    have "fifo_inv ?f1" using Cons.prems(1) by (simp add: fifo_inv_def)
    then obtain k2 f2 where wr: "fifo_writer xs (k1, ?f1) = (k2, f2)" "fifo_inv f2" "fifo_contents f2 = xs"
      "ff_read_waiters f2 = wait_queue_init" "ff_write_waiters f2 = wait_queue_init" "ff_flags f2 = 0"
      "ff_bytes f2 = length xs" "ks_enqueued k2 = ks_enqueued k @ [ks_current k]" "ks_state k2 (ks_current k) = PROCESS_READY"
      "ks_current k2 = ks_current k"
      using fifo_writer_ok [of ?f1 k1 "[node]" xs] sleep Cons.prems by auto
    have step1: "fifo_read_loop (map fifo_writer (xs # xss)) node (word_of_nat c) tot k f dst =
        fifo_read_loop (map fifo_writer xss) node (word_of_nat c) tot k2 f2 dst"
      using lt sl wr(1) Cons.prems(2,3,6)
      by (subst fifo_read_loop.simps) (simp add: sint_small)
    let ?n = "min (c - tot) (length xs)"
    have pos: "0 < ff_bytes f2" using Cons.prems(8) wr(7) by simp
    obtain d f3 where ch: "fifo_read_chunk (word_of_nat c) tot k2 f2 dst = Some (tot + ?n, k2, f3, d)"
      "fifo_inv f3" "xs = bytes_at d tot ?n @ fifo_contents f3"
      "\<forall>i. i < tot \<or> tot + ?n \<le> i \<longrightarrow> d i = dst i" "ff_write_waiters f3 = wait_queue_init"
      "ff_read_waiters f3 = wait_queue_init" "ff_flags f3 = 0" "ff_bytes f3 = length xs - ?n"
      using fifo_read_chunk_ok [OF wr(2) pos want_small [OF Cons.prems(6,7)] _ wr(5), of k2 dst] lt wr
      by auto
    have step2: "fifo_read_loop (map fifo_writer xss) node (word_of_nat c) tot k2 f2 dst =
        fifo_read_loop (map fifo_writer xss) node (word_of_nat c) (tot + ?n) k2 f3 d"
      using lt pos ch(1) Cons.prems(6)
      by (subst fifo_read_loop.simps) (simp add: sint_small)
    show ?thesis
    proof (cases "c - tot \<le> length xs")
      case True
      then have n: "?n = c - tot" "tot + ?n = c" using lt by auto
      have "bytes_at d tot (c - tot) = take (c - tot) (xs @ concat xss)"
        using arg_cong [OF ch(3), of "take (c - tot)"] True n(1) by simp
      moreover have "fifo_read_loop (map fifo_writer xss) node (word_of_nat c) c k2 f3 d =
          Some (int c, k2, f3\<lparr>ff_lock := False\<rparr>, d)"
        using Cons.prems(6) by (subst fifo_read_loop.simps) (simp add: sint_small)
      moreover have "fifo_woken (Suc 0) (xs # xss) 0 (c - tot) k k2"
        by (rule fifo_woken_Suc [OF fifo_woken_0]) (use True lt wr in simp_all)
      moreover have "\<forall>i<tot. d i = dst i" using ch(4) by simp
      ultimately show ?thesis unfolding step1 step2 n(2)
        by (intro exI [of _ k2] exI [of _ "f3\<lparr>ff_lock := False\<rparr>"] exI [of _ d] exI [of _ "Suc 0"]) simp
    next
      case False
      then have len: "?n = length xs" by simp
      then have "ff_bytes f3 = 0" using ch(8) by simp
      moreover from this have "fifo_contents f3 = []" by (simp add: fifo_contents_def)
      ultimately have e: "ff_bytes f3 = 0" "xs = bytes_at d tot (length xs)" using ch(3) len by auto
      have rest: "tot + length xs \<le> c" "c - (tot + length xs) \<le> length (concat xss)"
        using False Cons.prems(7,9) by simp_all
      obtain k' f' d' n where r: "fifo_read_loop (map fifo_writer xss) node (word_of_nat c) (tot + length xs) k2 f3 d =
          Some (int c, k', f', d')"
        "bytes_at d' (tot + length xs) (c - (tot + length xs)) = take (c - (tot + length xs)) (concat xss)"
        "\<forall>i<tot + length xs. d' i = d i" "fifo_woken n xss 0 (c - (tot + length xs)) k2 k'" "n = 0 \<longrightarrow> k' = k2"
        using Cons.IH [OF ch(2) e(1) ch(7,6,5) Cons.prems(6) rest(1) _ rest(2), of k2 d] Cons.prems(8) by auto
      have "bytes_at d' tot (length xs) = bytes_at d tot (length xs)"
        using r(3) by (intro bytes_at_cong) simp
      moreover have "c - tot = length xs + (c - (tot + length xs))" using False by simp
      ultimately have "bytes_at d' tot (c - tot) = xs @ take (c - (tot + length xs)) (concat xss)"
        using r(2) e(2) by (metis bytes_at_add)
      then have "bytes_at d' tot (c - tot) = take (c - tot) (concat (xs # xss))" using False by simp
      moreover have "\<forall>i<tot. d' i = dst i" using r(3) ch(4) by simp
      moreover have "fifo_woken (Suc n) (xs # xss) 0 (c - tot) k k'"
        by (rule fifo_woken_Suc [of n xss _ _ k2]) (use r(4,5) lt wr in simp_all)
      ultimately show ?thesis unfolding step1 step2 len using r(1) by blast
    qed
  qed
qed

lemma fifo_read_loop_collects:
  assumes "fifo_inv f" and "ff_flags f = 0"
    and "ff_read_waiters f = wait_queue_init" and "ff_write_waiters f = wait_queue_init"
    and "c < 2 ^ 31" and "0 < c" and "\<forall>xs\<in>set xss. 0 < length xs \<and> length xs \<le> FIFO_PIPE_SIZE"
    and "c \<le> ff_bytes f + length (concat xss)"
  shows "\<exists>k' f' d n. fifo_read_loop (map fifo_writer xss) node (word_of_nat c) 0 k f dst = Some (int c, k', f', d) \<and>
    bytes_at d 0 c = take c (fifo_contents f @ concat xss) \<and> fifo_woken n xss (ff_bytes f) c k k'"
proof (cases "ff_bytes f = 0")
  case True
  then have "fifo_contents f = []" by (simp add: fifo_contents_def)
  with fifo_read_loop_blocked [OF assms(1) True assms(2-5), of 0 xss node k dst] assms(7,8) True
  show ?thesis by auto
next
  case False
  let ?n = "min c (ff_bytes f)"
  obtain d f3 where ch: "fifo_read_chunk (word_of_nat c) 0 k f dst = Some (?n, k, f3, d)"
    "fifo_inv f3" "fifo_contents f = bytes_at d 0 ?n @ fifo_contents f3"
    "ff_write_waiters f3 = wait_queue_init" "ff_read_waiters f3 = wait_queue_init" "ff_flags f3 = 0"
    "ff_bytes f3 = ff_bytes f - ?n"
    using fifo_read_chunk_ok [OF assms(1) _ want_small [OF assms(5), of 0] _ assms(4), of k dst] False assms
    by auto
  have step: "fifo_read_loop (map fifo_writer xss) node (word_of_nat c) 0 k f dst =
      fifo_read_loop (map fifo_writer xss) node (word_of_nat c) ?n k f3 d"
    using False ch(1) assms(5,6) by (subst fifo_read_loop.simps) (simp add: sint_small)
  show ?thesis
  proof (cases "c \<le> ff_bytes f")
    case True
    have "fifo_read_loop (map fifo_writer xss) node (word_of_nat c) c k f3 d =
        Some (int c, k, f3\<lparr>ff_lock := False\<rparr>, d)"
      using assms(5) by (subst fifo_read_loop.simps) (simp add: sint_small)
    moreover have "bytes_at d 0 c = take c (fifo_contents f @ concat xss)"
      using arg_cong [OF ch(3), of "take c"] True by simp
    ultimately show ?thesis using step True fifo_woken_0 [OF True, of xss k] by auto
  next
    case less: False
    then have len: "?n = ff_bytes f" "ff_bytes f3 = 0" using ch(7) by auto
    then have "fifo_contents f3 = []" by (simp add: fifo_contents_def)
    with ch(3) len have cf: "fifo_contents f = bytes_at d 0 (ff_bytes f)" by simp
    have rest: "c - ff_bytes f \<le> length (concat xss)" using assms(8) by linarith
    obtain k' f' d' n where r: "fifo_read_loop (map fifo_writer xss) node (word_of_nat c) (ff_bytes f) k f3 d =
        Some (int c, k', f', d')" "bytes_at d' (ff_bytes f) (c - ff_bytes f) = take (c - ff_bytes f) (concat xss)"
      "\<forall>i<ff_bytes f. d' i = d i" "fifo_woken n xss 0 (c - ff_bytes f) k k'"
      using fifo_read_loop_blocked [OF ch(2) len(2) ch(6,5,4) assms(5) _ assms(7) rest, of node k d] less
      by auto
    have "bytes_at d' 0 (ff_bytes f) = fifo_contents f"
      unfolding cf using r(3) by (intro bytes_at_cong) simp
    moreover have "c = ff_bytes f + (c - ff_bytes f)" using less by simp
    ultimately have "bytes_at d' 0 c = fifo_contents f @ take (c - ff_bytes f) (concat xss)"
      using r(2) by (metis add_0 bytes_at_add)
    moreover have "fifo_woken n xss (ff_bytes f) c k k'" using r(4) less by (auto simp: fifo_woken_def)
    ultimately show ?thesis using r(1) step len less by auto
  qed
qed

section \<open>Properties\<close>

definition fifo_fresh :: fifo_pipe_t where
  "fifo_fresh = the (fifo_create True)"

definition kst0 :: kst where
  "kst0 = \<lparr>ks_heap = (\<lambda>_. \<lparr>wn_proc = None, wn_next = None, wn_prev = None\<rparr>),
     ks_state = (\<lambda>_. PROCESS_RUNNING), ks_enqueued = [], ks_current = 1, ks_jiffies = 0\<rparr>"

lemma fifo_fresh_ok: "fifo_inv fifo_fresh" "ff_flags fifo_fresh = 0" "ff_bytes fifo_fresh = 0"
  "ff_read_waiters fifo_fresh = wait_queue_init" "ff_write_waiters fifo_fresh = wait_queue_init"
  "fifo_contents fifo_fresh = []"
  by (simp_all add: fifo_fresh_def fifo_create_def fifo_inv_def fifo_contents_def)

text \<open>
  C15. A blocking read returns exactly what was asked for, in order, and is woken up for it. Let both ends of a well-formed pipe be open and
  nobody wait on it, let other processes write during the successive waits of the reader, each at least one byte and at most the
  capacity of the pipe, and let the bytes in the pipe and theirs add up to at least \<open>c\<close>, with \<open>0 < c < 2 ^ 31\<close>.
  Then the read of \<open>c\<close> bytes returns \<open>c\<close> with the first \<open>c\<close> bytes of the contents followed by the writes; it
  blocks \<open>n\<close> times, for the fewest writes that are enough, and each of these \<open>n\<close> writes puts the
  reader, and nobody else, back into the run queue as a ready process.
\<close>

theorem fifo_read_collects_writes:
  assumes "fifo_inv f" and "ff_flags f = 0"
    and "ff_read_waiters f = wait_queue_init" and "ff_write_waiters f = wait_queue_init"
    and "0 < c" and "c < 2 ^ 31" and "\<forall>xs\<in>set xss. 0 < length xs \<and> length xs \<le> FIFO_PIPE_SIZE"
    and "c \<le> ff_bytes f + length (concat xss)"
  shows "\<exists>k' f' d n. fifo_read (map fifo_writer xss) node k (Some f) (Some dst) (word_of_nat c) =
      Some (int c, k', Some f', Some d) \<and>
    bytes_at d 0 c = take c (fifo_contents f @ concat xss) \<and>
    n \<le> length xss \<and> c \<le> ff_bytes f + length (concat (take n xss)) \<and>
    (\<forall>m<n. ff_bytes f + length (concat (take m xss)) < c) \<and>
    ks_enqueued k' = ks_enqueued k @ replicate n (ks_current k) \<and>
    (n > 0 \<longrightarrow> ks_state k' (ks_current k) = PROCESS_READY)"
proof -
  have "(word_of_nat c :: u64) \<noteq> 0"
  proof
    assume "(word_of_nat c :: u64) = 0"
    with sint_small [OF assms(6)] assms(5) show False by simp
  qed
  moreover have "fifo_inv (f\<lparr>ff_lock := True\<rparr>)" using assms(1) by (simp add: fifo_inv_def)
  then obtain k' f' d n where "fifo_read_loop (map fifo_writer xss) node (word_of_nat c) 0 k (f\<lparr>ff_lock := True\<rparr>) dst =
      Some (int c, k', f', d)" "bytes_at d 0 c = take c (fifo_contents f @ concat xss)" "fifo_woken n xss (ff_bytes f) c k k'"
    using fifo_read_loop_collects [of "f\<lparr>ff_lock := True\<rparr>" c xss node k dst] assms(2-8) by (auto simp: fifo_contents_def)
  ultimately show ?thesis
    by (intro exI [of _ k'] exI [of _ f'] exI [of _ d] exI [of _ n]) (simp add: fifo_read_def fifo_woken_def)
qed

theorem fifo_read_collects_writes_witness:
  "\<exists>k' f' d. fifo_read (map fifo_writer [[1, 2], [3, 4]]) 100 kst0 (Some fifo_fresh) (Some (\<lambda>_. 0)) 3 =
      Some (3, k', Some f', Some d) \<and> bytes_at d 0 3 = [1, 2, 3] \<and> ks_enqueued k' = [1, 1]"
proof -
  obtain k' f' d n where r: "fifo_read (map fifo_writer [[1, 2], [3, 4]]) 100 kst0 (Some fifo_fresh) (Some (\<lambda>_. 0)) 3 =
      Some (3, k', Some f', Some d)" "bytes_at d 0 3 = [1, 2, 3]" "3 \<le> length (concat (take n [[1, 2], [3, 4 :: u8]]))"
    "n \<le> 2" "ks_enqueued k' = replicate n 1"
    using fifo_read_collects_writes [of fifo_fresh 3 "[[1, 2], [3, 4]]" 100 kst0 "\<lambda>_. 0"] fifo_fresh_ok
    by (auto simp: kst0_def)
  have "n = 0 \<or> n = 1 \<or> n = 2" using r(4) by linarith
  then have "n = 2" using r(3) by auto
  then show ?thesis using r by (simp add: numeral_2_eq_2)
qed

text \<open>
  \<open>wait_queue_wait\<close> drops the pipe's spinlock and the loop goes on without taking it again:
  a reader that is woken while another process holds the lock copies the bytes all the
  same and then unlocks the pipe under the other process.
\<close>

theorem fifo_read_unlocks_foreign_lock:
  assumes "ff_bytes f = 0" and "ff_flags f AND FIFO_WRITER_CLOSED = 0" and "0 < c" and "c < 2 ^ 31"
    and "fifo_inv f2" and "ff_lock f2" and "c \<le> ff_bytes f2" and "ff_write_waiters f2 = wait_queue_init"
  shows "\<exists>k' f' d. fifo_read [\<lambda>_. (k2, f2)] node k (Some f) (Some dst) (word_of_nat c) =
      Some (int c, k', Some f', Some d) \<and> ff_bytes f' = ff_bytes f2 - c \<and> \<not> ff_lock f'"
proof -
  have "(word_of_nat c :: u64) \<noteq> 0"
  proof
    assume "(word_of_nat c :: u64) = 0"
    with sint_small [OF assms(4)] assms(3) show False by simp
  qed
  moreover obtain d f3 where ch: "fifo_read_chunk (word_of_nat c) 0 k2 f2 dst = Some (c, k2, f3, d)"
    "ff_bytes f3 = ff_bytes f2 - c"
    using fifo_read_chunk_ok [OF assms(5) _ want_small [OF assms(4), of 0] _ assms(8), of k2 dst] assms(3,7)
    by auto
  have "fifo_read_loop [] node (word_of_nat c) c k2 f3 d = Some (int c, k2, f3\<lparr>ff_lock := False\<rparr>, d)"
    using assms(4) by (subst fifo_read_loop.simps) (simp add: sint_small)
  then have "fifo_read_loop [] node (word_of_nat c) 0 k2 f2 dst = Some (int c, k2, f3\<lparr>ff_lock := False\<rparr>, d)"
    using ch(1) assms(3,4,7) by (subst fifo_read_loop.simps) (simp add: sint_small)
  then have "fifo_read_loop [\<lambda>_. (k2, f2)] node (word_of_nat c) 0 k (f\<lparr>ff_lock := True\<rparr>) dst =
      Some (int c, k2, f3\<lparr>ff_lock := False\<rparr>, d)"
    using assms(1-4) by (subst fifo_read_loop.simps) (simp add: sint_small split: prod.splits)
  ultimately show ?thesis using ch(2) by (simp add: fifo_read_def)
qed

theorem fifo_read_unlocks_foreign_lock_witness:
  "\<exists>k' f' d. fifo_read [\<lambda>_. (kst0, fifo_fresh\<lparr>ff_bytes := 4, ff_write_pos := 4, ff_lock := True\<rparr>)] 100 kst0
       (Some fifo_fresh) (Some (\<lambda>_. 0)) 3 = Some (3, k', Some f', Some d) \<and> ff_bytes f' = 1 \<and> \<not> ff_lock f'"
  using fifo_read_unlocks_foreign_lock [of fifo_fresh 3 "fifo_fresh\<lparr>ff_bytes := 4, ff_write_pos := 4, ff_lock := True\<rparr>"
      kst0 100 kst0 "\<lambda>_. 0"]
  by (simp add: fifo_fresh_def fifo_create_def fifo_inv_def)

text \<open>A read of \<open>2 ^ 32\<close> bytes wants \<open>0\<close> bytes in 32 bits, so a pass copies nothing.\<close>

lemma fifo_read_loop_stuck_raw:
  "fifo_read_loop env node cnt tot k f dst = Some r \<Longrightarrow> cnt = 2 ^ 32 \<longrightarrow> tot = 0 \<longrightarrow> ff_bytes f = 0"
proof (rule fifo_read_loop.raw_induct [of "\<lambda>env node cnt tot k f dst r.
    cnt = 2 ^ 32 \<longrightarrow> tot = 0 \<longrightarrow> ff_bytes f = 0"], goal_cases)
  case (1 loop env node cnt tot k f dst r)
  show ?case
  proof (intro impI, rule ccontr)
    assume a: "cnt = 2 ^ 32" "tot = 0" and ne: "ff_bytes f \<noteq> 0"
    have "int tot < sint cnt" unfolding a by simp
    with 1(3) ne have "Option.bind (fifo_read_chunk cnt tot k f dst)
        (\<lambda>(tot', k', f', dst'). loop env node cnt tot' k' f' dst') = Some r"
      by (simp only: not_True_eq_False if_False simp_thms)
    then obtain tot' k' f' d where ch: "fifo_read_chunk cnt tot k f dst = Some (tot', k', f', d)"
      and l: "loop env node cnt tot' k' f' d = Some r"
      by (auto simp: bind_eq_Some_conv)
    from ch a have "tot' = 0" "ff_bytes f' = ff_bytes f"
      by (auto simp: fifo_read_chunk_def Let_def split: if_splits)
    with 1(2) [OF l] a ne show False by simp
  qed
qed

text \<open>
  A read of exactly 4 GiB never returns once the pipe holds a byte: the size is cut to 32
  bits, so every pass copies 0 bytes and makes no progress, whatever other processes do; and
  a write of 4 GiB returns 0 at once, writing nothing.
\<close>

theorem fifo_4GiB_read_hangs:
  assumes "0 < ff_bytes f"
  shows "fifo_read env node k (Some f) (Some dst) (2 ^ 32) = None \<and>
    fifo_write env node k (Some f) (Some src) (2 ^ 32) = Some (0, k, Some (f\<lparr>ff_lock := False\<rparr>))"
proof -
  have "fifo_read_loop env node (2 ^ 32) 0 k (f\<lparr>ff_lock := True\<rparr>) dst = None"
    using fifo_read_loop_stuck_raw [of env node "2 ^ 32" 0 k "f\<lparr>ff_lock := True\<rparr>" dst] assms
    by (cases "fifo_read_loop env node (2 ^ 32) 0 k (f\<lparr>ff_lock := True\<rparr>) dst") auto
  then show ?thesis
    by (simp add: fifo_read_def fifo_write_def fifo_write_loop.simps [of _ _ _ 0])
qed

theorem fifo_4GiB_read_hangs_witness:
  "fifo_read [] 100 kst0 (Some (fifo_fresh\<lparr>ff_bytes := 1\<rparr>)) (Some (\<lambda>_. 0)) (2 ^ 32) = None"
  using fifo_4GiB_read_hangs [of "fifo_fresh\<lparr>ff_bytes := 1\<rparr>" "[]" 100 kst0 "\<lambda>_. 0" "\<lambda>_. 0"] by simp

end
