(* ===== verification/Sync.thy ===== *)
theory Sync
  imports WaitQueue
begin

text \<open>
  The sleeping locks of \<open>kernel/kernel/sync.c\<close>: semaphores, mutexes, condition variables,
  completions and barriers over wait queues. The code writes the list operations of
  \<open>wait.c\<close> out in each function; they are the operations of the theory \<open>WaitQueue\<close> here.
  An operation that yields takes what the other processes do meanwhile: one function, or a
  list of them when it yields in a loop, with the result \<open>None\<close> when the list is used up.
  \<open>None\<close> is also the result of a wake-up whose list never ends. A node address is the
  stack slot of the waiting process.
\<close>

section \<open>Semaphores\<close>

text \<open>A count of 32 bits with its sign; it wraps as the processor does.\<close>

abbreviation (input) PROCESS_MAX :: nat where "PROCESS_MAX \<equiv> 256"

definition int32 :: "int \<Rightarrow> int" where
  "int32 x = (x + 2 ^ 31) mod 2 ^ 32 - 2 ^ 31"

lemma int32_id: "- (2 ^ 31) \<le> x \<Longrightarrow> x < 2 ^ 31 \<Longrightarrow> int32 x = x"
  by (simp add: int32_def)

record semaphore_t =
  se_count :: int
  se_waiters :: wait_queue_t

definition semaphore_init :: "int \<Rightarrow> semaphore_t" where
  "semaphore_init initial = \<lparr>se_count = initial, se_waiters = wait_queue_init\<rparr>"

text \<open>The part of a down before it yields or returns: whether the caller goes to sleep.\<close>

definition semaphore_down_begin :: "addr \<Rightarrow> kst \<times> semaphore_t \<Rightarrow> bool \<times> kst \<times> semaphore_t" where
  "semaphore_down_begin node s = (case s of (k, sem) \<Rightarrow>
     let sem1 = sem\<lparr>se_count := int32 (se_count sem - 1)\<rparr>
     in if se_count sem1 < 0
        then (case wq_sleep node k (se_waiters sem1) of (k', wq) \<Rightarrow> (True, k', sem1\<lparr>se_waiters := wq\<rparr>))
        else (False, k, sem1))"

definition semaphore_down ::
  "(kst \<times> semaphore_t \<Rightarrow> kst \<times> semaphore_t) \<Rightarrow> addr \<Rightarrow> kst \<times> semaphore_t \<Rightarrow> kst \<times> semaphore_t" where
  "semaphore_down env node s = (case semaphore_down_begin node s of (sleeps, s') \<Rightarrow> if sleeps then env s' else s')"

fun sem_timeout_loop ::
  "(kst \<times> semaphore_t \<Rightarrow> kst \<times> semaphore_t) list \<Rightarrow> addr \<Rightarrow> pid \<Rightarrow> u64 \<Rightarrow> u64 \<Rightarrow>
     kst \<times> semaphore_t \<Rightarrow> (int \<times> kst \<times> semaphore_t) option" where
  "sem_timeout_loop env node self ms deadline (k, sem) =
     (if ks_state k self = PROCESS_WAITING then
        (case env of [] \<Rightarrow> None
         | e # es \<Rightarrow>
             (case e (k, sem) of (k1, sem1) \<Rightarrow>
                if ms > 0 \<and> ks_jiffies k1 \<ge> deadline
                then (case wq_unlink_if_queued node k1 (se_waiters sem1) of
                        (q, k2, wq) \<Rightarrow> Some (- 1, k2, sem1\<lparr>se_waiters := wq, se_count := int32 (se_count sem1 + 1)\<rparr>))
                else sem_timeout_loop es node self ms deadline (k1, sem1)))
      else Some (0, k, sem))"

definition semaphore_down_timeout ::
  "(kst \<times> semaphore_t \<Rightarrow> kst \<times> semaphore_t) list \<Rightarrow> addr \<Rightarrow> u64 \<Rightarrow> kst \<times> semaphore_t \<Rightarrow>
     (int \<times> kst \<times> semaphore_t) option" where
  "semaphore_down_timeout env node ms s =
     (let deadline = (if ms > 0 then ks_jiffies (fst s) + timer_ms_to_jiffies ms else 0)
      in case semaphore_down_begin node s of
           (sleeps, s') \<Rightarrow> if sleeps then sem_timeout_loop env node (ks_current (fst s)) ms deadline s'
                           else Some (0, s'))"

definition semaphore_up :: "kst \<times> semaphore_t \<Rightarrow> (kst \<times> semaphore_t) option" where
  "semaphore_up s = (case s of (k, sem) \<Rightarrow>
     let sem1 = sem\<lparr>se_count := int32 (se_count sem + 1)\<rparr>
     in if se_count sem1 \<le> 0
        then map_option (\<lambda>(k', wq). (k', sem1\<lparr>se_waiters := wq\<rparr>)) (wait_queue_wake_one k (se_waiters sem1))
        else Some (k, sem1))"

definition semaphore_get_value :: "semaphore_t \<Rightarrow> int" where
  "semaphore_get_value sem = se_count sem"

section \<open>Mutexes\<close>

text \<open>\<open>owner\<close> is \<open>None\<close> for \<open>(uint64_t)-1\<close>.\<close>

record mutex_t =
  mx_locked :: u32
  mx_owner :: "pid option"
  mx_recurse_count :: u32
  mx_waiters :: wait_queue_t

definition mutex_init :: mutex_t where
  "mutex_init = \<lparr>mx_locked = 0, mx_owner = None, mx_recurse_count = 0, mx_waiters = wait_queue_init\<rparr>"

fun mutex_lock_loop ::
  "(kst \<times> mutex_t \<Rightarrow> kst \<times> mutex_t) list \<Rightarrow> addr \<Rightarrow> pid \<Rightarrow> kst \<times> mutex_t \<Rightarrow> (kst \<times> mutex_t) option" where
  "mutex_lock_loop env node self (k, m) =
     (if mx_locked m \<noteq> 0 then
        (case env of [] \<Rightarrow> None
         | e # es \<Rightarrow>
             (case wq_sleep node k (mx_waiters m) of
                (k1, wq) \<Rightarrow> mutex_lock_loop es node self (e (k1, m\<lparr>mx_waiters := wq\<rparr>))))
      else Some (k, m\<lparr>mx_locked := 1, mx_owner := Some self, mx_recurse_count := 1\<rparr>))"

definition mutex_lock ::
  "(kst \<times> mutex_t \<Rightarrow> kst \<times> mutex_t) list \<Rightarrow> addr \<Rightarrow> kst \<times> mutex_t \<Rightarrow> (kst \<times> mutex_t) option" where
  "mutex_lock env node s = (case s of (k, m) \<Rightarrow>
     if mx_locked m \<noteq> 0 \<and> mx_owner m = Some (ks_current k)
     then Some (k, m\<lparr>mx_recurse_count := mx_recurse_count m + 1\<rparr>)
     else mutex_lock_loop env node (ks_current k) (k, m))"

definition mutex_trylock :: "kst \<times> mutex_t \<Rightarrow> int \<times> kst \<times> mutex_t" where
  "mutex_trylock s = (case s of (k, m) \<Rightarrow>
     if mx_locked m = 0
     then (1, k, m\<lparr>mx_locked := 1, mx_owner := Some (ks_current k), mx_recurse_count := 1\<rparr>)
     else if mx_owner m = Some (ks_current k)
     then (1, k, m\<lparr>mx_recurse_count := mx_recurse_count m + 1\<rparr>)
     else (0, k, m))"

definition mutex_unlock :: "kst \<times> mutex_t \<Rightarrow> (kst \<times> mutex_t) option" where
  "mutex_unlock s = (case s of (k, m) \<Rightarrow>
     if mx_locked m = 0 then Some (k, m)
     else
       let m1 = m\<lparr>mx_recurse_count := mx_recurse_count m - 1\<rparr>
       in if mx_recurse_count m1 > 0 then Some (k, m1)
          else
            let m2 = m1\<lparr>mx_locked := 0, mx_owner := None\<rparr>
            in map_option (\<lambda>(k', wq). (k', m2\<lparr>mx_waiters := wq\<rparr>)) (wait_queue_wake_one k (mx_waiters m2)))"

definition mutex_is_locked :: "mutex_t \<Rightarrow> u32" where
  "mutex_is_locked m = mx_locked m"

section \<open>Condition variables\<close>

record condvar_t =
  cv_waiters :: wait_queue_t

type_synonym cv_state = "kst \<times> condvar_t \<times> mutex_t"

definition condvar_init :: condvar_t where
  "condvar_init = \<lparr>cv_waiters = wait_queue_init\<rparr>"

text \<open>Taking the mutex again while the other processes may also use the condition.\<close>

fun cv_relock :: "(cv_state \<Rightarrow> cv_state) list \<Rightarrow> addr \<Rightarrow> pid \<Rightarrow> cv_state \<Rightarrow> cv_state option" where
  "cv_relock env node self (k, cv, m) =
     (if mx_locked m \<noteq> 0 \<and> mx_owner m = Some self
      then Some (k, cv, m\<lparr>mx_recurse_count := mx_recurse_count m + 1\<rparr>)
      else if mx_locked m \<noteq> 0 then
        (case env of [] \<Rightarrow> None
         | e # es \<Rightarrow>
             (case wq_sleep node k (mx_waiters m) of
                (k1, wq) \<Rightarrow> cv_relock es node self (e (k1, cv, m\<lparr>mx_waiters := wq\<rparr>))))
      else Some (k, cv, m\<lparr>mx_locked := 1, mx_owner := Some self, mx_recurse_count := 1\<rparr>))"

definition condvar_wait :: "(cv_state \<Rightarrow> cv_state) list \<Rightarrow> addr \<Rightarrow> cv_state \<Rightarrow> cv_state option" where
  "condvar_wait env node s = (case s of (k, cv, m) \<Rightarrow>
     (case wq_sleep node k (cv_waiters cv) of
        (k1, wq) \<Rightarrow>
          Option.bind (mutex_unlock (k1, m)) (\<lambda>(k2, m2).
            case env of [] \<Rightarrow> None
            | e # es \<Rightarrow> cv_relock es node (ks_current k) (e (k2, cv\<lparr>cv_waiters := wq\<rparr>, m2)))))"

fun cv_timeout_loop ::
  "(cv_state \<Rightarrow> cv_state) list \<Rightarrow> addr \<Rightarrow> pid \<Rightarrow> u64 \<Rightarrow> u64 \<Rightarrow> cv_state \<Rightarrow> (int \<times> cv_state) option" where
  "cv_timeout_loop env node self ms deadline (k, cv, m) =
     (if ks_state k self = PROCESS_WAITING then
        (case env of [] \<Rightarrow> None
         | e # es \<Rightarrow>
             (case e (k, cv, m) of (k1, cv1, m1) \<Rightarrow>
                if ms > 0 \<and> ks_jiffies k1 \<ge> deadline
                then (case wq_unlink_if_queued node k1 (cv_waiters cv1) of
                        (q, k2, wq) \<Rightarrow>
                          map_option (Pair (- 1)) (cv_relock es node self (k2, cv1\<lparr>cv_waiters := wq\<rparr>, m1)))
                else cv_timeout_loop es node self ms deadline (k1, cv1, m1)))
      else map_option (Pair 0) (cv_relock env node self (k, cv, m)))"

definition condvar_wait_timeout ::
  "(cv_state \<Rightarrow> cv_state) list \<Rightarrow> addr \<Rightarrow> u64 \<Rightarrow> cv_state \<Rightarrow> (int \<times> cv_state) option" where
  "condvar_wait_timeout env node ms s = (case s of (k, cv, m) \<Rightarrow>
     let deadline = (if ms > 0 then ks_jiffies k + timer_ms_to_jiffies ms else 0)
     in case wq_sleep node k (cv_waiters cv) of
          (k1, wq) \<Rightarrow>
            Option.bind (mutex_unlock (k1, m)) (\<lambda>(k2, m2).
              cv_timeout_loop env node (ks_current k) ms deadline (k2, cv\<lparr>cv_waiters := wq\<rparr>, m2)))"

definition condvar_signal :: "kst \<times> condvar_t \<Rightarrow> (kst \<times> condvar_t) option" where
  "condvar_signal s = (case s of (k, cv) \<Rightarrow>
     map_option (\<lambda>(k', wq). (k', cv\<lparr>cv_waiters := wq\<rparr>)) (wait_queue_wake_one k (cv_waiters cv)))"

definition condvar_broadcast :: "kst \<times> condvar_t \<Rightarrow> (kst \<times> condvar_t) option" where
  "condvar_broadcast s = (case s of (k, cv) \<Rightarrow>
     map_option (\<lambda>(k', wq). (k', cv\<lparr>cv_waiters := wq\<rparr>)) (wait_queue_wake_all k (cv_waiters cv)))"

section \<open>Completions and barriers\<close>

record completion_t =
  cp_done :: int
  cp_waiters :: wait_queue_t

definition completion_init :: completion_t where
  "completion_init = \<lparr>cp_done = 0, cp_waiters = wait_queue_init\<rparr>"

definition completion_wait ::
  "(kst \<times> completion_t \<Rightarrow> kst \<times> completion_t) \<Rightarrow> addr \<Rightarrow> kst \<times> completion_t \<Rightarrow> kst \<times> completion_t" where
  "completion_wait env node s = (case s of (k, c) \<Rightarrow>
     if cp_done c \<noteq> 0 then (k, c)
     else (case wq_sleep node k (cp_waiters c) of (k', wq) \<Rightarrow> env (k', c\<lparr>cp_waiters := wq\<rparr>)))"

definition completion_complete :: "kst \<times> completion_t \<Rightarrow> (kst \<times> completion_t) option" where
  "completion_complete s = (case s of (k, c) \<Rightarrow>
     if cp_done c \<noteq> 0 then Some (k, c)
     else map_option (\<lambda>(k', wq). (k', c\<lparr>cp_done := 1, cp_waiters := wq\<rparr>))
            (wait_queue_wake_all k (cp_waiters c)))"

record barrier_t =
  ba_count :: u32
  ba_waiting :: u32
  ba_threshold :: u32
  ba_waiters :: wait_queue_t

definition barrier_init :: "u32 \<Rightarrow> barrier_t" where
  "barrier_init threshold = \<lparr>ba_count = 0, ba_waiting = 0, ba_threshold = threshold, ba_waiters = wait_queue_init\<rparr>"

text \<open>The part of a barrier wait before it yields or returns: whether the caller sleeps.\<close>

definition barrier_wait_begin :: "addr \<Rightarrow> kst \<times> barrier_t \<Rightarrow> (bool \<times> kst \<times> barrier_t) option" where
  "barrier_wait_begin node s = (case s of (k, b) \<Rightarrow>
     let b1 = b\<lparr>ba_count := ba_count b + 1\<rparr>
     in if ba_count b1 \<ge> ba_threshold b1
        then map_option (\<lambda>(k', wq). (False, k', b1\<lparr>ba_count := 0, ba_waiters := wait_queue_init\<rparr>))
               (wait_queue_wake_all k (ba_waiters b1))
        else (case wq_sleep node k (ba_waiters b1) of (k', wq) \<Rightarrow> Some (True, k', b1\<lparr>ba_waiters := wq\<rparr>)))"

definition barrier_wait ::
  "(kst \<times> barrier_t \<Rightarrow> kst \<times> barrier_t) \<Rightarrow> addr \<Rightarrow> kst \<times> barrier_t \<Rightarrow> (kst \<times> barrier_t) option" where
  "barrier_wait env node s =
     map_option (\<lambda>(sleeps, s'). if sleeps then env s' else s') (barrier_wait_begin node s)"

section \<open>The states of a semaphore that processes use\<close>

text \<open>
  \<open>sem_reach c k sem d u\<close>: from a semaphore initialised to \<open>c\<close>, processes have begun \<open>d\<close> downs
  and finished \<open>u\<close> ups, in any interleaving. A process that begins a down is not asleep, is in the process table, and
  its stack slot is its own; an up does not overflow the count; between the calls the scheduler may do anything but wake
  processes that wait or touch their list nodes. In particular a process that sleeps stays in its down until it is woken.
\<close>

inductive sem_reach :: "int \<Rightarrow> kst \<Rightarrow> semaphore_t \<Rightarrow> nat \<Rightarrow> nat \<Rightarrow> bool" for c where
  start: "sem_reach c k (semaphore_init c) 0 0"
| down: "sem_reach c k sem d u \<Longrightarrow> ks_state k (ks_current k) \<noteq> PROCESS_WAITING \<Longrightarrow> ks_current k < PROCESS_MAX \<Longrightarrow>
    semaphore_down_begin (ks_current k) (k, sem) = (sleeps, k', sem') \<Longrightarrow> sem_reach c k' sem' (d + 1) u"
| up: "sem_reach c k sem d u \<Longrightarrow> se_count sem < 2 ^ 31 - 1 \<Longrightarrow> semaphore_up (k, sem) = Some (k', sem') \<Longrightarrow> sem_reach c k' sem' d (u + 1)"
| sched: "sem_reach c k sem d u \<Longrightarrow> ks_heap k' = ks_heap k \<Longrightarrow>
    (\<forall>p. ks_state k p = PROCESS_WAITING \<longrightarrow> ks_state k' p = PROCESS_WAITING) \<Longrightarrow> sem_reach c k' sem d u"

inductive_cases sem_reach_cases: "sem_reach c k sem d u"

text \<open>The sleepers \<open>ps\<close>: each waits, in its own stack slot, and there is one for each missing unit.\<close>

definition sem_inv :: "int \<Rightarrow> kst \<Rightarrow> semaphore_t \<Rightarrow> nat \<Rightarrow> nat \<Rightarrow> pid list \<Rightarrow> bool" where
  "sem_inv c k sem d u ps \<longleftrightarrow> wq_ok k (se_waiters sem) ps \<and>
     (\<forall>p\<in>set ps. node_pid k p = p \<and> ks_state k p = PROCESS_WAITING \<and> p < PROCESS_MAX) \<and>
     se_count sem = c + int u - int d \<and> se_count sem < 2 ^ 31 \<and> length ps = nat (- se_count sem)"

lemma sem_inv_waiting: "sem_inv c k sem d u ps \<Longrightarrow> p \<in> set ps \<Longrightarrow> node_waiting k p"
  by (auto simp: sem_inv_def wq_ok_def node_waiting_pid)

text \<open>The sleepers are different processes of the table, so that the count is far from its lower end.\<close>

lemma sem_inv_range:
  assumes "sem_inv c k sem d u ps"
  shows "- int PROCESS_MAX \<le> se_count sem" and "int32 (se_count sem - 1) = se_count sem - 1"
    and "se_count sem < 2 ^ 31 - 1 \<Longrightarrow> int32 (se_count sem + 1) = se_count sem + 1"
proof -
  have d: "distinct ps" "set ps \<subseteq> {..<PROCESS_MAX}" using assms by (auto simp: sem_inv_def wq_ok_def wq_repr_def)
  then have "length ps \<le> PROCESS_MAX" using card_mono [of "{..<PROCESS_MAX}" "set ps"] by (simp add: distinct_card)
  then show l: "- int PROCESS_MAX \<le> se_count sem" using assms by (auto simp: sem_inv_def)
  show "int32 (se_count sem - 1) = se_count sem - 1" using l assms by (intro int32_id) (auto simp: sem_inv_def)
  show "int32 (se_count sem + 1) = se_count sem + 1" if "se_count sem < 2 ^ 31 - 1" using l that by (intro int32_id) auto
qed

lemma sem_inv_down:
  assumes inv: "sem_inv c k sem d u ps" and "ks_state k (ks_current k) \<noteq> PROCESS_WAITING" and "ks_current k < PROCESS_MAX"
    and run: "semaphore_down_begin (ks_current k) (k, sem) = (sleeps, k', sem')"
  shows "sem_inv c k' sem' (d + 1) u (if sleeps then ps @ [ks_current k] else ps)" and "sleeps \<longleftrightarrow> se_count sem \<le> 0"
proof -
  let ?c = "se_count sem - 1"
  have "semaphore_down_begin (ks_current k) (k, sem) =
      (if ?c < 0 then (case wq_sleep (ks_current k) k (se_waiters sem) of
         (k', wq) \<Rightarrow> (True, k', sem\<lparr>se_count := ?c, se_waiters := wq\<rparr>)) else (False, k, sem\<lparr>se_count := ?c\<rparr>))"
    by (simp add: semaphore_down_begin_def Let_def sem_inv_range(2) [OF inv])
  note run = run [unfolded this]
  have "sem_inv c k' sem' (d + 1) u (if sleeps then ps @ [ks_current k] else ps) \<and> (sleeps \<longleftrightarrow> se_count sem \<le> 0)"
  proof (cases "se_count sem - 1 < 0")
    case False
    with inv run show ?thesis by (auto simp: sem_inv_def)
  next
    case True
    let ?p = "ks_current k"
    have nin: "?p \<notin> set ps" "?p \<notin> node_pid k ` set ps"
      using inv assms(2) by (auto simp: sem_inv_def)
    obtain k1 wq where sl: "wq_sleep ?p k (se_waiters sem) = (k1, wq)" by force
    have ok: "wq_ok k (se_waiters sem) ps" using inv by (simp add: sem_inv_def)
    from wq_sleep_ok [OF ok nin sl] inv True run sl nin(1) assms(3)
    show ?thesis by (auto simp: sem_inv_def)
  qed
  then show "sem_inv c k' sem' (d + 1) u (if sleeps then ps @ [ks_current k] else ps)" and "sleeps \<longleftrightarrow> se_count sem \<le> 0" by blast+
qed

lemma sem_inv_up:
  assumes inv: "sem_inv c k sem d u ps" and lt: "se_count sem < 2 ^ 31 - 1"
  shows "\<exists>k' sem'. semaphore_up (k, sem) = Some (k', sem') \<and> sem_inv c k' sem' d (u + 1) (tl ps) \<and>
    ks_enqueued k' = ks_enqueued k @ take 1 ps \<and>
    (\<forall>q. ks_state k' q = (if q \<in> set (take 1 ps) then PROCESS_READY else ks_state k q))"
proof (cases ps)
  case Nil
  then have n: "0 \<le> se_count sem" using inv by (auto simp: sem_inv_def)
  let ?sem = "sem\<lparr>se_count := se_count sem + 1\<rparr>"
  have "semaphore_up (k, sem) = Some (k, ?sem)"
    using n by (simp add: semaphore_up_def Let_def sem_inv_range(3) [OF inv lt])
  moreover have "sem_inv c k ?sem d (u + 1) []" using inv lt n Nil by (simp add: sem_inv_def)
  ultimately show ?thesis using Nil by simp
next
  case (Cons p qs)
  then have neg: "se_count sem + 1 \<le> 0" using inv by (auto simp: sem_inv_def)
  have "find (node_waiting k) ps = Some p" using sem_inv_waiting [OF inv, of p] Cons by simp
  moreover have ok: "wq_ok k (se_waiters sem) ps" using inv by (simp add: sem_inv_def)
  ultimately obtain k1 wq1 h where wake: "wait_queue_wake_one k (se_waiters sem) = Some (k1, wq1)"
    "wq_ok k1 wq1 qs" "\<forall>m. node_pid k1 m = node_pid k m" "k1 = wake_pid (node_pid k p) (k\<lparr>ks_heap := h\<rparr>)"
    using wait_queue_wake_one_ok [OF ok] Cons by auto
  have "p \<notin> set qs" using ok Cons by (simp add: wq_ok_def wq_repr_def)
  moreover have pp: "node_pid k p = p" using inv Cons by (simp add: sem_inv_def)
  ultimately have q: "\<forall>q\<in>set qs. node_pid k1 q = q \<and> ks_state k1 q = PROCESS_WAITING \<and> q < PROCESS_MAX"
    using inv Cons wake(3,4) by (auto simp: sem_inv_def)
  let ?sem = "sem\<lparr>se_count := se_count sem + 1, se_waiters := wq1\<rparr>"
  have run: "semaphore_up (k, sem) = Some (k1, ?sem)"
    using wake(1) neg by (simp add: semaphore_up_def Let_def sem_inv_range(3) [OF inv lt])
  have "sem_inv c k1 ?sem d (u + 1) qs" using wake(2) q inv Cons neg by (auto simp: sem_inv_def)
  then show ?thesis using run wake(4) pp Cons by simp
qed

lemma sem_reach_inv: "sem_reach c k sem d u \<Longrightarrow> 0 \<le> c \<Longrightarrow> c < 2 ^ 31 \<Longrightarrow> \<exists>ps. sem_inv c k sem d u ps"
proof (induction rule: sem_reach.induct)
  case (start k)
  then show ?case by (auto simp: sem_inv_def semaphore_init_def)
next
  case (down k sem d u sleeps k' sem')
  then show ?case using sem_inv_down(1) by blast
next
  case (up k sem d u k' sem')
  then obtain ps where "sem_inv c k sem d u ps" by blast
  from sem_inv_up [OF this up.hyps(2)] up.hyps(3) show ?case by auto
next
  case (sched k sem d u k')
  then obtain ps where inv: "sem_inv c k sem d u ps" by blast
  have "node_pid k' = node_pid k" using sched.hyps(2) by (auto simp: node_pid_def fun_eq_iff)
  with inv sched.hyps show ?case by (intro exI [of _ ps]) (auto simp: sem_inv_def wq_ok_def)
qed

section \<open>Properties\<close>

definition kst_pid :: "pid \<Rightarrow> kst" where
  "kst_pid p = \<lparr>ks_heap = (\<lambda>_. \<lparr>wn_proc = None, wn_next = None, wn_prev = None\<rparr>),
     ks_state = (\<lambda>_. PROCESS_RUNNING), ks_enqueued = [], ks_current = p, ks_jiffies = 0\<rparr>"

text \<open>
  C14. The count and the list of sleepers of a counting semaphore are exact, in every state that downs begun and ups
  can reach from a count of 0 or more, in any interleaving in which no up overflows the count of 32 bits, each down has a list node
  of its own, on the stack of its process, that nobody else writes to, and a process that sleeps stays in its down until
  it is woken: the count is the units there ever were less the downs
  begun, and the sleepers are as many waiting processes as there are downs beyond the units. The next down of a
  process of the table that does not wait goes to sleep, behind the others, exactly when no unit is left; the next up,
  if the count is not at its end, always returns and makes the process that has slept longest, and no other, ready. That a
  sleeper stays is left to the scheduler: \<open>semaphore_down\<close> yields once and returns without looking at
  the count again (\<open>semaphore_down_returns_without_unit\<close>).
\<close>

theorem semaphore_sleepers_exact:
  assumes "sem_reach c k sem d u" and "0 \<le> c" and "c < 2 ^ 31"
  shows "\<exists>ps. wq_ok k (se_waiters sem) ps \<and> (\<forall>p\<in>set ps. ks_state k p = PROCESS_WAITING) \<and>
    se_count sem = c + int u - int d \<and> int (length ps) = max 0 (int d - (c + int u)) \<and>
    (ks_state k (ks_current k) \<noteq> PROCESS_WAITING \<and> ks_current k < PROCESS_MAX \<longrightarrow>
      (case semaphore_down_begin (ks_current k) (k, sem) of (sleeps, k', sem') \<Rightarrow>
        (sleeps \<longleftrightarrow> c + int u \<le> int d) \<and> wq_ok k' (se_waiters sem') (if sleeps then ps @ [ks_current k] else ps))) \<and>
    (se_count sem < 2 ^ 31 - 1 \<longrightarrow>
      (case semaphore_up (k, sem) of None \<Rightarrow> False
       | Some (k', sem') \<Rightarrow> wq_ok k' (se_waiters sem') (tl ps) \<and> ks_enqueued k' = ks_enqueued k @ take 1 ps \<and>
           (\<forall>q. ks_state k' q = (if q \<in> set (take 1 ps) then PROCESS_READY else ks_state k q))))"
proof -
  from sem_reach_inv [OF assms] obtain ps where inv: "sem_inv c k sem d u ps" ..
  obtain sleeps k1 sem1 where b: "semaphore_down_begin (ks_current k) (k, sem) = (sleeps, k1, sem1)" by (metis prod_cases3)
  have count: "se_count sem = c + int u - int d" "length ps = nat (- se_count sem)" using inv by (simp_all add: sem_inv_def)
  have down: "(sleeps \<longleftrightarrow> c + int u \<le> int d) \<and> wq_ok k1 (se_waiters sem1) (if sleeps then ps @ [ks_current k] else ps)"
    if "ks_state k (ks_current k) \<noteq> PROCESS_WAITING" "ks_current k < PROCESS_MAX"
    using sem_inv_down [OF inv that b] count(1) by (simp add: sem_inv_def)
  have up: "case semaphore_up (k, sem) of None \<Rightarrow> False
     | Some (k', sem') \<Rightarrow> wq_ok k' (se_waiters sem') (tl ps) \<and> ks_enqueued k' = ks_enqueued k @ take 1 ps \<and>
         (\<forall>q. ks_state k' q = (if q \<in> set (take 1 ps) then PROCESS_READY else ks_state k q))"
    if "se_count sem < 2 ^ 31 - 1"
    using sem_inv_up [OF inv that] by (auto simp: sem_inv_def)
  show ?thesis
  proof (intro exI [of _ ps] conjI impI)
    show "wq_ok k (se_waiters sem) ps" "\<forall>p\<in>set ps. ks_state k p = PROCESS_WAITING" using inv by (simp_all add: sem_inv_def)
    show "se_count sem = c + int u - int d" by (fact count(1))
    show "int (length ps) = max 0 (int d - (c + int u))" using count by simp
    assume "ks_state k (ks_current k) \<noteq> PROCESS_WAITING \<and> ks_current k < PROCESS_MAX"
    then have "ks_state k (ks_current k) \<noteq> PROCESS_WAITING" "ks_current k < PROCESS_MAX" by blast+
    then show "case semaphore_down_begin (ks_current k) (k, sem) of (sleeps, k', sem') \<Rightarrow>
        (sleeps \<longleftrightarrow> c + int u \<le> int d) \<and> wq_ok k' (se_waiters sem') (if sleeps then ps @ [ks_current k] else ps)"
      unfolding b prod.case by (rule down)
  qed (rule up)
qed

theorem semaphore_sleepers_exact_witness:
  "\<exists>k sem. sem_reach 1 k sem 2 0 \<and> (\<exists>ps. wq_ok k (se_waiters sem) ps \<and> length ps = 1)"
proof -
  let ?k = "kst_pid 4"
  have "sem_reach 1 ?k (semaphore_init 1) 0 0" by (rule sem_reach.start)
  then have r1: "sem_reach 1 ?k (semaphore_init 0) 1 0"
    using sem_reach.down [of 1 ?k "semaphore_init 1" 0 0 False ?k "semaphore_init 0"]
    by (simp add: kst_pid_def semaphore_down_begin_def semaphore_init_def int32_def)
  have r2: "sem_reach 1 (kst_pid 5) (semaphore_init 0) 1 0"
    by (rule sem_reach.sched [OF r1]) (simp_all add: kst_pid_def)
  obtain sl k2 sem2 where b: "semaphore_down_begin 5 (kst_pid 5, semaphore_init 0) = (sl, k2, sem2)"
    by (metis prod_cases3)
  have "sem_reach 1 k2 sem2 (1 + 1) 0"
    by (rule sem_reach.down [OF r2]) (use b in \<open>simp_all add: kst_pid_def\<close>)
  then have r3: "sem_reach 1 k2 sem2 2 0" by (simp add: numeral_2_eq_2)
  from semaphore_sleepers_exact [OF r3] r3 show ?thesis by auto
qed

text \<open>
  A down returns without a unit when its yield comes back at once, as a yield does while no other process is ready: the caller then
  goes on although it is marked as waiting and its node, on a stack that is used again, is still in the list.
\<close>

theorem semaphore_down_returns_without_unit:
  assumes "wq_ok k (se_waiters sem) ps" and "se_count sem \<le> 0" and "- (2 ^ 31) < se_count sem"
    and "ks_current k \<notin> set ps" and "ks_current k \<notin> node_pid k ` set ps"
  shows "case semaphore_down (\<lambda>s. s) (ks_current k) (k, sem) of (k', sem') \<Rightarrow>
    ks_state k' (ks_current k) = PROCESS_WAITING \<and> wq_ok k' (se_waiters sem') (ps @ [ks_current k]) \<and> se_count sem' < 0"
proof -
  obtain k1 wq where sl: "wq_sleep (ks_current k) k (se_waiters sem) = (k1, wq)" by force
  have "int32 (se_count sem - 1) = se_count sem - 1" using assms(2,3) by (intro int32_id) auto
  then show ?thesis using wq_sleep_ok [OF assms(1,4,5) sl] sl assms(2)
    by (simp add: semaphore_down_def semaphore_down_begin_def Let_def)
qed

text \<open>
  A down with a timeout can lose a wake-up: process \<open>p\<close> waits first, then \<open>q\<close>; an up grants
  the unit to \<open>p\<close>, but its deadline has passed when it runs, so it gives up with \<open>-1\<close> and
  only adds the unit back. The count is then 0 with \<open>q\<close> still asleep, and a further up
  makes it 1 without waking anybody: \<open>q\<close> sleeps on a free semaphore.
\<close>

theorem semaphore_timeout_loses_wakeup:
  assumes "p \<noteq> q" and "ks_current k = p" and "ks_jiffies k = 0" and "0 < ms"
  shows "case semaphore_down_timeout
      [\<lambda>s. case semaphore_down_begin q ((fst s)\<lparr>ks_current := q\<rparr>, snd s) of (_, s') \<Rightarrow>
         (case semaphore_up s' of None \<Rightarrow> s'
            | Some (k2, sem2) \<Rightarrow> (k2\<lparr>ks_current := p, ks_jiffies := timer_ms_to_jiffies ms\<rparr>, sem2))]
      p ms (k, semaphore_init 0) of
      None \<Rightarrow> False
    | Some (r, k', sem') \<Rightarrow> r = - 1 \<and> se_count sem' = 0 \<and> ks_state k' q = PROCESS_WAITING \<and>
        (case semaphore_up (k', sem') of None \<Rightarrow> False
           | Some (k'', sem'') \<Rightarrow> se_count sem'' = 1 \<and> ks_state k'' q = PROCESS_WAITING)"
  using assms
  by (simp add: semaphore_down_timeout_def semaphore_down_begin_def semaphore_init_def wq_sleep_def
      wq_add_def wait_queue_init_def semaphore_up_def wait_queue_wake_one_def wake_one_loop.simps
      node_waiting_def wq_wake_node_def wq_remove_def enqueue_process_def wq_unlink_if_queued_def Let_def int32_def)

theorem semaphore_timeout_loses_wakeup_witness:
  "case semaphore_down_timeout
      [\<lambda>s. case semaphore_down_begin 5 ((fst s)\<lparr>ks_current := 5\<rparr>, snd s) of (_, s') \<Rightarrow>
         (case semaphore_up s' of None \<Rightarrow> s'
            | Some (k2, sem2) \<Rightarrow> (k2\<lparr>ks_current := 4, ks_jiffies := timer_ms_to_jiffies 10\<rparr>, sem2))]
      4 10 (kst_pid 4, semaphore_init 0) of
      None \<Rightarrow> False
    | Some (r, k', sem') \<Rightarrow> r = - 1 \<and> se_count sem' = 0 \<and> ks_state k' 5 = PROCESS_WAITING \<and>
        (case semaphore_up (k', sem') of None \<Rightarrow> False
           | Some (k'', sem'') \<Rightarrow> se_count sem'' = 1 \<and> ks_state k'' 5 = PROCESS_WAITING)"
  by (rule semaphore_timeout_loses_wakeup) (simp_all add: kst_pid_def)

text \<open>
  A mutex is released by whoever unlocks it: when \<open>p\<close> holds it once, an unlock by another
  process \<open>q\<close> succeeds, and \<open>q\<close> can then take it although \<open>p\<close> has not left its critical section.
\<close>

theorem mutex_unlock_by_other:
  assumes "mx_locked m \<noteq> 0" and "mx_owner m = Some p" and "mx_recurse_count m = 1"
    and "wq_ok k (mx_waiters m) ns" and "ks_current k = q" and "q \<noteq> p"
  shows "fst (mutex_trylock (k, m)) = 0 \<and>
    (case mutex_unlock (k, m) of None \<Rightarrow> False
       | Some (k', m') \<Rightarrow> (case mutex_trylock (k', m') of (r, k'', m'') \<Rightarrow> r = 1 \<and> mx_owner m'' = Some q))"
proof -
  obtain k' wq' where w: "wait_queue_wake_one k (mx_waiters m) = Some (k', wq')" "ks_current k' = ks_current k"
    using wait_queue_wake_one_ok [OF assms(4)] by (auto split: option.splits)
  with assms show ?thesis by (simp add: mutex_trylock_def mutex_unlock_def Let_def)
qed

theorem mutex_unlock_by_other_witness:
  "case mutex_unlock (kst_pid 5, \<lparr>mx_locked = 1, mx_owner = Some 4, mx_recurse_count = 1, mx_waiters = wait_queue_init\<rparr>) of
     None \<Rightarrow> False
   | Some (k', m') \<Rightarrow> (case mutex_trylock (k', m') of (r, k'', m'') \<Rightarrow> r = 1 \<and> mx_owner m'' = Some 5)"
  using mutex_unlock_by_other [of "\<lparr>mx_locked = 1, mx_owner = Some 4, mx_recurse_count = 1, mx_waiters = wait_queue_init\<rparr>"
      4 "kst_pid 5" "[]" 5]
  by (simp add: kst_pid_def)

end
