(* ===== verification/KIpcMsg.thy ===== *)
theory KIpcMsg
  imports Interfaces
begin

text \<open>
  The kernel message ring, named channels and shared blocks of \<open>kernel/kernel/ipc.c\<close>. The
  file's static tables are records; \<open>process_wakeup\<close> is seen as the list of the processes it
  was called for, in order. Process ids and message types are 64-bit words, because \<open>-1\<close>
  as \<open>uint64_t\<close> stands for any source; the 32-bit ring indices stay in range and are
  natural numbers.
\<close>

abbreviation (input) IPC_MAX_MESSAGES :: nat where "IPC_MAX_MESSAGES \<equiv> 64"
abbreviation (input) IPC_MAX_SIZE :: nat where "IPC_MAX_SIZE \<equiv> 256"
abbreviation (input) IPC_MAX_QUEUES :: nat where "IPC_MAX_QUEUES \<equiv> 32"
abbreviation (input) IPC_MAX_NAME :: nat where "IPC_MAX_NAME \<equiv> 32"
abbreviation (input) IPC_SHM_MAX :: nat where "IPC_SHM_MAX \<equiv> 16"
abbreviation (input) PROCESS_MAX :: u64 where "PROCESS_MAX \<equiv> 256"

record ipc_message_t =
  im_source :: u64
  im_destination :: u64
  im_type :: u64
  im_size :: nat
  im_data :: mem

definition ipc_message_zero :: ipc_message_t where
  "ipc_message_zero = \<lparr>im_source = 0, im_destination = 0, im_type = 0, im_size = 0, im_data = (\<lambda>_. 0)\<rparr>"

section \<open>The message ring\<close>

record ipc_ring =
  ir_buffer :: "nat \<Rightarrow> ipc_message_t"
  ir_head :: nat
  ir_tail :: nat
  ir_count :: nat
  ir_wakeups :: "u64 list"

text \<open>The part of \<open>ipc_init\<close> that resets the ring.\<close>

definition ipc_init_ring :: "ipc_ring \<Rightarrow> ipc_ring" where
  "ipc_init_ring r = r\<lparr>ir_buffer := (\<lambda>_. ipc_message_zero), ir_head := 0, ir_tail := 0, ir_count := 0\<rparr>"

text \<open>Filling in a message slot, as sends to the ring and to channels do.\<close>

definition fill_message :: "ipc_message_t \<Rightarrow> u64 \<Rightarrow> u64 \<Rightarrow> u64 \<Rightarrow> mem option \<Rightarrow> nat \<Rightarrow> ipc_message_t" where
  "fill_message msg source destination type data sz =
     (let m = msg\<lparr>im_source := source, im_destination := destination, im_type := type, im_size := sz\<rparr>
      in case data of None \<Rightarrow> m
         | Some d \<Rightarrow> if sz > 0 then m\<lparr>im_data := copy_obj (im_data m) 0 d 0 sz\<rparr> else m)"

definition ipc_send :: "u64 \<Rightarrow> u64 \<Rightarrow> u64 \<Rightarrow> mem option \<Rightarrow> nat \<Rightarrow> ipc_ring \<Rightarrow> int \<times> ipc_ring" where
  "ipc_send current destination type data sz r =
     (if sz > IPC_MAX_SIZE then (- 1, r)
      else if ir_count r \<ge> IPC_MAX_MESSAGES then (- 1, r)
      else
        let msg = fill_message (ir_buffer r (ir_tail r)) current destination type data sz;
            r1 = r\<lparr>ir_buffer := (ir_buffer r)(ir_tail r := msg),
                   ir_tail := (ir_tail r + 1) mod IPC_MAX_MESSAGES, ir_count := ir_count r + 1\<rparr>
        in (0, if destination < PROCESS_MAX then r1\<lparr>ir_wakeups := ir_wakeups r1 @ [destination]\<rparr> else r1))"

text \<open>What a receive writes through \<open>type\<close>, \<open>data\<close> and \<open>size\<close>.\<close>

definition deliver_message ::
  "ipc_message_t \<Rightarrow> u64 option \<Rightarrow> mem option \<Rightarrow> nat option \<Rightarrow> u64 option \<times> mem option \<times> nat option" where
  "deliver_message msg type data sz =
     (map_option (\<lambda>_. im_type msg) type,
      (case (data, sz) of
         (Some d, Some n) \<Rightarrow>
           if n > 0 then Some (copy_obj d 0 (im_data msg) 0 (if im_size msg < n then im_size msg else n)) else data
       | _ \<Rightarrow> data),
      (case (data, sz) of
         (Some d, Some n) \<Rightarrow>
           if n > 0 then Some (if im_size msg < n then im_size msg else n) else Some (im_size msg)
       | _ \<Rightarrow> map_option (\<lambda>_. im_size msg) sz))"

definition ipc_receive ::
  "u64 \<Rightarrow> u64 \<Rightarrow> u64 option \<Rightarrow> mem option \<Rightarrow> nat option \<Rightarrow> ipc_ring \<Rightarrow>
     int \<times> ipc_ring \<times> u64 option \<times> mem option \<times> nat option" where
  "ipc_receive current source type data sz r =
     (let at = (\<lambda>i. (ir_head r + i) mod IPC_MAX_MESSAGES)
      in case first_index (\<lambda>i. im_destination (ir_buffer r (at i)) = current \<and>
                (source = - 1 \<or> im_source (ir_buffer r (at i)) = source)) (ir_count r) of
           None \<Rightarrow> (- 1, r, type, data, sz)
         | Some i \<Rightarrow>
             let idx = at i;
                 tail_idx = (ir_head r + ir_count r - 1) mod IPC_MAX_MESSAGES;
                 buf = (if idx \<noteq> tail_idx then (ir_buffer r)(idx := ir_buffer r tail_idx) else ir_buffer r)
             in (0, r\<lparr>ir_buffer := buf, ir_count := ir_count r - 1\<rparr>,
                 deliver_message (ir_buffer r idx) type data sz))"

section \<open>Channels\<close>

record ipc_queue_t =
  iq_messages :: "nat \<Rightarrow> ipc_message_t"
  iq_head :: nat
  iq_tail :: nat
  iq_count :: nat

record ipc_channel_t =
  ch_name :: string
  ch_owner :: u64
  ch_creator :: u64
  ch_queue :: ipc_queue_t
  ch_ref_count :: nat
  ch_flags :: u32
  ch_max_msg_size :: u64
  ch_max_msg_count :: u64

record ipc_channels =
  ic_channels :: "nat \<Rightarrow> ipc_channel_t"
  ic_count :: nat
  ic_wakeups :: "u64 list"

definition ipc_channel_create :: "u64 \<Rightarrow> string option \<Rightarrow> u64 \<Rightarrow> u64 \<Rightarrow> ipc_channels \<Rightarrow> int \<times> ipc_channels" where
  "ipc_channel_create current name max_msg_size max_msg_count s = (case name of None \<Rightarrow> (- 1, s)
     | Some nm \<Rightarrow>
        if first_index (\<lambda>i. ch_name (ic_channels s i) = nm) (ic_count s) \<noteq> None then (- 1, s)
        else if ic_count s \<ge> IPC_MAX_QUEUES then (- 1, s)
        else
          let ch = (ic_channels s (ic_count s))\<lparr>
                 ch_name := take (IPC_MAX_NAME - 1) nm, ch_owner := current, ch_creator := current,
                 ch_ref_count := 1, ch_flags := 0,
                 ch_max_msg_size := (if max_msg_size \<noteq> 0 then max_msg_size else 256),
                 ch_max_msg_count := (if max_msg_count \<noteq> 0 then max_msg_count else 64),
                 ch_queue := (ch_queue (ic_channels s (ic_count s)))\<lparr>iq_head := 0, iq_tail := 0, iq_count := 0\<rparr>\<rparr>
          in (int (ic_count s),
              s\<lparr>ic_channels := (ic_channels s)(ic_count s := ch), ic_count := ic_count s + 1\<rparr>))"

definition ipc_channel_open :: "string option \<Rightarrow> ipc_channels \<Rightarrow> int \<times> ipc_channels" where
  "ipc_channel_open name s = (case name of None \<Rightarrow> (- 1, s)
     | Some nm \<Rightarrow>
        (case first_index (\<lambda>i. ch_name (ic_channels s i) = nm) (ic_count s) of
           Some i \<Rightarrow> (int i, s\<lparr>ic_channels := (ic_channels s)(i := (ic_channels s i)
                         \<lparr>ch_ref_count := ch_ref_count (ic_channels s i) + 1\<rparr>)\<rparr>)
         | None \<Rightarrow> (- 1, s)))"

definition bad_channel :: "int \<Rightarrow> ipc_channels \<Rightarrow> bool" where
  "bad_channel channel s \<longleftrightarrow> channel < 0 \<or> channel \<ge> int (ic_count s)"

definition ipc_channel_send :: "u64 \<Rightarrow> int \<Rightarrow> u64 \<Rightarrow> mem option \<Rightarrow> nat \<Rightarrow> ipc_channels \<Rightarrow> int \<times> ipc_channels" where
  "ipc_channel_send current channel type data sz s =
     (if bad_channel channel s then (- 1, s)
      else if sz > IPC_MAX_SIZE then (- 1, s)
      else
        let ch = ic_channels s (nat channel); q = ch_queue ch
        in if iq_count q \<ge> IPC_MAX_MESSAGES then (- 1, s)
           else
             let msg = fill_message (iq_messages q (iq_tail q)) current (ch_owner ch) type data sz;
                 q1 = q\<lparr>iq_messages := (iq_messages q)(iq_tail q := msg),
                        iq_tail := (iq_tail q + 1) mod IPC_MAX_MESSAGES, iq_count := iq_count q + 1\<rparr>
             in (0, s\<lparr>ic_channels := (ic_channels s)(nat channel := ch\<lparr>ch_queue := q1\<rparr>),
                      ic_wakeups := ic_wakeups s @ [ch_owner ch]\<rparr>))"

definition ipc_channel_recv ::
  "int \<Rightarrow> u64 option \<Rightarrow> mem option \<Rightarrow> nat option \<Rightarrow> ipc_channels \<Rightarrow>
     int \<times> ipc_channels \<times> u64 option \<times> mem option \<times> nat option" where
  "ipc_channel_recv channel type data sz s =
     (if bad_channel channel s then (- 1, s, type, data, sz)
      else
        let ch = ic_channels s (nat channel); q = ch_queue ch
        in if iq_count q = 0 then (- 1, s, type, data, sz)
           else
             let q1 = q\<lparr>iq_head := (iq_head q + 1) mod IPC_MAX_MESSAGES, iq_count := iq_count q - 1\<rparr>
             in (0, s\<lparr>ic_channels := (ic_channels s)(nat channel := ch\<lparr>ch_queue := q1\<rparr>)\<rparr>,
                 deliver_message (iq_messages q (iq_head q)) type data sz))"

definition ipc_channel_close :: "int \<Rightarrow> ipc_channels \<Rightarrow> int \<times> ipc_channels" where
  "ipc_channel_close channel s =
     (if bad_channel channel s then (- 1, s)
      else
        let ch = ic_channels s (nat channel)
        in (0, s\<lparr>ic_channels := (ic_channels s)(nat channel :=
                   (if ch_ref_count ch > 0 then ch\<lparr>ch_ref_count := ch_ref_count ch - 1\<rparr> else ch))\<rparr>))"

definition ipc_channel_destroy :: "u64 \<Rightarrow> int \<Rightarrow> ipc_channels \<Rightarrow> int \<times> ipc_channels" where
  "ipc_channel_destroy current channel s =
     (if bad_channel channel s then (- 1, s)
      else
        let ch = ic_channels s (nat channel)
        in if ch_owner ch \<noteq> current then (- 1, s)
           else (0, s\<lparr>ic_channels := (ic_channels s)(nat channel :=
                   ch\<lparr>ch_name := [], ch_owner := 0, ch_ref_count := 0,
                      ch_queue := (ch_queue ch)\<lparr>iq_head := 0, iq_tail := 0, iq_count := 0\<rparr>\<rparr>)\<rparr>))"

section \<open>Shared blocks\<close>

text \<open>Addresses are natural numbers, \<open>NULL\<close> is 0; \<open>kzalloc\<close> and \<open>kfree\<close> are seen as the address
  that the allocator returned and the list of addresses that were freed.\<close>

record ipc_shm_t =
  is_addr :: nat
  is_size :: u64
  is_owner :: u64
  is_ref_count :: nat

record ipc_shm_state =
  ist_table :: "nat \<Rightarrow> ipc_shm_t"
  ist_count :: nat
  ist_freed :: "nat list"

definition ipc_shm_create :: "u64 \<Rightarrow> nat \<Rightarrow> u64 \<Rightarrow> ipc_shm_state \<Rightarrow> int \<times> ipc_shm_state" where
  "ipc_shm_create current alloc sz s =
     (if sz = 0 then (- 1, s)
      else if ist_count s \<ge> IPC_SHM_MAX then (- 1, s)
      else
        let i = ist_count s; aligned_size = (sz + 4096 - 1) AND NOT (4096 - 1);
            shm = (ist_table s i)\<lparr>is_addr := alloc\<rparr>
        in if alloc = 0 then (- 1, s\<lparr>ist_table := (ist_table s)(i := shm)\<rparr>)
           else (int i, s\<lparr>ist_table := (ist_table s)(i := shm\<lparr>is_size := aligned_size, is_owner := current, is_ref_count := 1\<rparr>),
                          ist_count := i + 1\<rparr>))"

definition ipc_shm_attach :: "int \<Rightarrow> ipc_shm_state \<Rightarrow> nat \<times> ipc_shm_state" where
  "ipc_shm_attach shmid s =
     (if shmid < 0 \<or> shmid \<ge> int (ist_count s) then (0, s)
      else
        let shm = ist_table s (nat shmid); shm1 = shm\<lparr>is_ref_count := is_ref_count shm + 1\<rparr>
        in (is_addr shm1, s\<lparr>ist_table := (ist_table s)(nat shmid := shm1)\<rparr>))"

definition ipc_shm_detach :: "int \<Rightarrow> ipc_shm_state \<Rightarrow> int \<times> ipc_shm_state" where
  "ipc_shm_detach shmid s =
     (if shmid < 0 \<or> shmid \<ge> int (ist_count s) then (- 1, s)
      else
        let shm = ist_table s (nat shmid)
        in (0, s\<lparr>ist_table := (ist_table s)(nat shmid :=
                   (if is_ref_count shm > 0 then shm\<lparr>is_ref_count := is_ref_count shm - 1\<rparr> else shm))\<rparr>))"

definition ipc_shm_destroy :: "u64 \<Rightarrow> int \<Rightarrow> ipc_shm_state \<Rightarrow> int \<times> ipc_shm_state" where
  "ipc_shm_destroy current shmid s =
     (if shmid < 0 \<or> shmid \<ge> int (ist_count s) then (- 1, s)
      else
        let shm = ist_table s (nat shmid)
        in if is_owner shm \<noteq> current then (- 1, s)
           else
             let s1 = (if is_addr shm \<noteq> 0 then s\<lparr>ist_freed := ist_freed s @ [is_addr shm]\<rparr> else s)
             in (0, s1\<lparr>ist_table := (ist_table s1)(nat shmid := shm\<lparr>is_addr := 0, is_size := 0, is_ref_count := 0\<rparr>)\<rparr>))"

section \<open>The ring after a receive\<close>

definition ring_inv :: "ipc_ring \<Rightarrow> bool" where
  "ring_inv r \<longleftrightarrow> ir_head r < IPC_MAX_MESSAGES \<and> ir_count r \<le> IPC_MAX_MESSAGES \<and>
     ir_tail r = (ir_head r + ir_count r) mod IPC_MAX_MESSAGES"

definition ring_messages :: "ipc_ring \<Rightarrow> ipc_message_t list" where
  "ring_messages r = ring_list (ir_buffer r) IPC_MAX_MESSAGES (ir_head r) (ir_count r)"

lemma length_ring_messages [simp]: "length (ring_messages r) = ir_count r"
  by (simp add: ring_messages_def)

lemma ring_nth_upd:
  assumes "i < n" and "n \<le> sz"
  shows "ring_list (b((s + i) mod sz := x)) sz s n = (ring_list b sz s n)[i := x]"
proof (rule nth_equalityI)
  fix j assume "j < length (ring_list (b((s + i) mod sz := x)) sz s n)"
  then have j: "j < n" by simp
  have "(s + j) mod sz \<noteq> (s + i) mod sz" if "j \<noteq> i"
    using that ring_index_distinct [of j i sz s] ring_index_distinct [of i j sz s] assms j
    by (cases "j < i") auto
  then show "ring_list (b((s + i) mod sz := x)) sz s n ! j = (ring_list b sz s n)[i := x] ! j"
    using j assms by (auto simp: nth_list_update)
qed simp

lemma ipc_receive_ring:
  assumes inv: "ring_inv r" and i: "first_index (\<lambda>i. im_destination (ring_messages r ! i) = current \<and>
      (source = - 1 \<or> im_source (ring_messages r ! i) = source)) (ir_count r) = Some i"
  shows "\<exists>r'. ipc_receive current source type data sz r =
      (0, r', deliver_message (ring_messages r ! i) type data sz) \<and>
    ring_messages r' = butlast ((ring_messages r)[i := last (ring_messages r)]) \<and>
    ir_head r' = ir_head r \<and> ir_tail r' = ir_tail r \<and> ir_count r' = ir_count r - 1 \<and>
    ir_buffer r' ((ir_head r + ir_count r - 1) mod IPC_MAX_MESSAGES) = last (ring_messages r) \<and>
    ir_wakeups r' = ir_wakeups r"
proof -
  let ?n = "ir_count r" and ?at = "\<lambda>i. (ir_head r + i) mod IPC_MAX_MESSAGES"
  have lt: "i < ?n" using first_index_SomeD(1) [OF i] .
  have n: "?n \<le> IPC_MAX_MESSAGES" using inv by (simp add: ring_inv_def)
  have fi: "first_index (\<lambda>i. im_destination (ir_buffer r (?at i)) = current \<and>
      (source = - 1 \<or> im_source (ir_buffer r (?at i)) = source)) ?n = Some i"
    using i by (subst first_index_cong [where Q = "\<lambda>i. im_destination (ring_messages r ! i) = current \<and>
      (source = - 1 \<or> im_source (ring_messages r ! i) = source)"]) (simp_all add: ring_messages_def)
  have ti: "(ir_head r + ?n - 1) mod IPC_MAX_MESSAGES = ?at (?n - 1)" using lt by simp
  have last: "last (ring_messages r) = ir_buffer r (?at (?n - 1))"
    using lt by (subst last_conv_nth) (auto simp: ring_messages_def simp flip: length_0_conv)
  define buf where "buf = (ir_buffer r)(?at i := ir_buffer r (?at (?n - 1)))"
  have buf: "(if ?at i \<noteq> ?at (?n - 1) then buf else ir_buffer r) = buf"
    by (auto simp: buf_def)
  let ?r = "r\<lparr>ir_buffer := buf, ir_count := ?n - 1\<rparr>"
  have run: "ipc_receive current source type data sz r = (0, ?r, deliver_message (ring_messages r ! i) type data sz)"
    unfolding ipc_receive_def Let_def fi option.case ti buf_def [symmetric] buf
    using lt by (simp add: ring_messages_def)
  have all: "ring_list buf IPC_MAX_MESSAGES (ir_head r) ?n = (ring_messages r)[i := last (ring_messages r)]"
    using ring_nth_upd [OF lt n, of "ir_buffer r" "ir_head r"] by (simp add: buf_def ring_messages_def last [unfolded ring_messages_def])
  have "ring_messages ?r = take (?n - 1) (ring_list buf IPC_MAX_MESSAGES (ir_head r) ?n)"
    by (simp add: ring_messages_def ring_list_take)
  also have "\<dots> = butlast ((ring_messages r)[i := last (ring_messages r)])"
    unfolding all by (simp add: butlast_conv_take)
  finally have "ring_messages ?r = butlast ((ring_messages r)[i := last (ring_messages r)])" .
  moreover have "buf (?at (?n - 1)) = last (ring_messages r)" by (auto simp: buf_def last)
  ultimately show ?thesis using run ti by (intro exI [of _ ?r]) simp
qed

lemma ipc_send_ring:
  assumes "sz \<le> IPC_MAX_SIZE" and "ir_count r < IPC_MAX_MESSAGES"
  shows "\<exists>r' m. ipc_send current destination type data sz r = (0, r') \<and>
    m = fill_message (ir_buffer r (ir_tail r)) current destination type data sz \<and>
    ir_buffer r' = (ir_buffer r)(ir_tail r := m) \<and> ir_head r' = ir_head r \<and>
    ir_tail r' = (ir_tail r + 1) mod IPC_MAX_MESSAGES \<and> ir_count r' = Suc (ir_count r) \<and>
    ir_wakeups r' = ir_wakeups r @ (if destination < PROCESS_MAX then [destination] else [])"
  using assms by (simp add: ipc_send_def Let_def)

section \<open>The channel queue as a bounded queue\<close>

text \<open>
  A message as a client of a channel sees it: its sender, type and bytes. The client
  operations work on channel \<open>c\<close> of the table.
\<close>

definition channel_inv :: "nat \<Rightarrow> ipc_channels \<Rightarrow> bool" where
  "channel_inv c s \<longleftrightarrow> c < ic_count s \<and> (let q = ch_queue (ic_channels s c) in
     iq_head q < IPC_MAX_MESSAGES \<and> iq_count q \<le> IPC_MAX_MESSAGES \<and>
     iq_tail q = (iq_head q + iq_count q) mod IPC_MAX_MESSAGES)"

definition message_view :: "ipc_message_t \<Rightarrow> u64 \<times> u8 list" where
  "message_view m = (im_type m, bytes_at (im_data m) 0 (im_size m))"

definition channel_contents :: "nat \<Rightarrow> ipc_channels \<Rightarrow> (u64 \<times> u8 list) list" where
  "channel_contents c s = (let q = ch_queue (ic_channels s c) in
     map message_view (ring_list (iq_messages q) IPC_MAX_MESSAGES (iq_head q) (iq_count q)))"

definition channel_push :: "u64 \<Rightarrow> nat \<Rightarrow> u64 \<times> u8 list \<Rightarrow> ipc_channels \<Rightarrow> ipc_channels option" where
  "channel_push current c x s = (case ipc_channel_send current (int c) (fst x) (Some (mem_of_list (snd x)))
       (length (snd x)) s of
     (r, s') \<Rightarrow> if r = 0 then Some s' else None)"

definition channel_pop :: "nat \<Rightarrow> ipc_channels \<Rightarrow> ((u64 \<times> u8 list) \<times> ipc_channels) option" where
  "channel_pop c s = (case ipc_channel_recv (int c) (Some 0) (Some (\<lambda>_. 0)) (Some 256) s of
     (r, s', t, d, n) \<Rightarrow> (case (t, d, n) of
        (Some t', Some d', Some n') \<Rightarrow> if r = 0 then Some ((t', bytes_at d' 0 n'), s') else None
      | _ \<Rightarrow> None))"

lemma message_view_fill:
  "message_view (fill_message m src dst type (Some (mem_of_list xs)) (length xs)) = (type, xs)"
  by (auto simp: message_view_def fill_message_def Let_def)

text \<open>Messages on channels are at most 256 bytes long, so a buffer of 256 bytes takes them whole.\<close>

definition channel_ok :: "nat \<Rightarrow> ipc_channels \<Rightarrow> bool" where
  "channel_ok c s \<longleftrightarrow> channel_inv c s \<and> (\<forall>x\<in>set (channel_contents c s). length (snd x) \<le> 256)"

lemma length_channel_contents [simp]:
  "length (channel_contents c s) = iq_count (ch_queue (ic_channels s c))"
  by (simp add: channel_contents_def Let_def)

lemma channel_push_room:
  assumes inv: "channel_ok c s" and fits: "length (snd x) \<le> 256"
    and room: "length (channel_contents c s) < IPC_MAX_MESSAGES"
  shows "\<exists>s'. channel_push current c x s = Some s' \<and> channel_ok c s' \<and>
    channel_contents c s' = channel_contents c s @ [x]"
proof -
  let ?ch = "ic_channels s c"
  let ?q = "ch_queue ?ch" and ?xs = "snd x"
  define msg where "msg = fill_message (iq_messages ?q (iq_tail ?q)) current (ch_owner ?ch) (fst x)
      (Some (mem_of_list ?xs)) (length ?xs)"
  define q1 where "q1 = ?q\<lparr>iq_messages := (iq_messages ?q)(iq_tail ?q := msg),
      iq_tail := (iq_tail ?q + 1) mod IPC_MAX_MESSAGES, iq_count := iq_count ?q + 1\<rparr>"
  define s' where "s' = s\<lparr>ic_channels := (ic_channels s)(c := ?ch\<lparr>ch_queue := q1\<rparr>),
      ic_wakeups := ic_wakeups s @ [ch_owner ?ch]\<rparr>"
  have q: "iq_head ?q < IPC_MAX_MESSAGES" "iq_tail ?q = (iq_head ?q + iq_count ?q) mod IPC_MAX_MESSAGES"
    "c < ic_count s" "iq_count ?q < IPC_MAX_MESSAGES"
    using inv room by (auto simp: channel_ok_def channel_inv_def Let_def)
  have run: "channel_push current c x s = Some s'"
    using q fits by (simp add: channel_push_def ipc_channel_send_def bad_channel_def Let_def s'_def q1_def msg_def)
  have "message_view msg = x" unfolding msg_def by (simp add: message_view_fill)
  with ring_list_push [OF q(4), of "iq_messages ?q" "iq_head ?q" msg] q(2)
  have cont: "channel_contents c s' = channel_contents c s @ [x]"
    by (simp add: channel_contents_def Let_def s'_def q1_def)
  have "channel_inv c s'"
    using q by (simp add: channel_inv_def s'_def q1_def mod_simps)
  moreover have "\<forall>y\<in>set (channel_contents c s'). length (snd y) \<le> 256"
    using inv fits by (auto simp: cont channel_ok_def)
  ultimately show ?thesis using run cont by (auto simp: channel_ok_def)
qed

lemma channel_pop_item:
  assumes inv: "channel_ok c s" and item: "channel_contents c s = x # xs"
  shows "\<exists>s'. channel_pop c s = Some (x, s') \<and> channel_ok c s' \<and> channel_contents c s' = xs"
proof -
  let ?ch = "ic_channels s c"
  let ?q = "ch_queue ?ch"
  define q1 where "q1 = ?q\<lparr>iq_head := (iq_head ?q + 1) mod IPC_MAX_MESSAGES, iq_count := iq_count ?q - 1\<rparr>"
  define s' where "s' = s\<lparr>ic_channels := (ic_channels s)(c := ?ch\<lparr>ch_queue := q1\<rparr>)\<rparr>"
  have n: "iq_count ?q = Suc (length xs)" using item by (simp flip: length_channel_contents)
  have q: "iq_head ?q < IPC_MAX_MESSAGES" "iq_tail ?q = (iq_head ?q + iq_count ?q) mod IPC_MAX_MESSAGES"
    "c < ic_count s" "iq_count ?q \<le> IPC_MAX_MESSAGES"
    using inv by (auto simp: channel_ok_def channel_inv_def Let_def)
  have x: "message_view (iq_messages ?q (iq_head ?q)) = x"
    and xs: "channel_contents c s' = xs"
    using item n q(1) by (simp_all add: channel_contents_def Let_def s'_def q1_def ring_list_pop)
  have "length (snd x) \<le> 256" using inv item by (simp add: channel_ok_def)
  then have len: "im_size (iq_messages ?q (iq_head ?q)) \<le> 256" using x by (auto simp: message_view_def)
  have view: "(im_type (iq_messages ?q (iq_head ?q)), bytes_at (im_data (iq_messages ?q (iq_head ?q))) 0
      (im_size (iq_messages ?q (iq_head ?q)))) = x" using x by (simp add: message_view_def)
  have "channel_pop c s = Some (x, s')"
  proof (cases "im_size (iq_messages ?q (iq_head ?q)) < 256")
    case True
    then show ?thesis using q(3) n view
      by (simp add: channel_pop_def ipc_channel_recv_def bad_channel_def Let_def deliver_message_def s'_def q1_def)
  next
    case False
    then have "im_size (iq_messages ?q (iq_head ?q)) = 256" using len by simp
    then show ?thesis using q(3) n view
      by (simp add: channel_pop_def ipc_channel_recv_def bad_channel_def Let_def deliver_message_def s'_def q1_def)
  qed
  moreover have "channel_inv c s'"
    using q n by (simp add: channel_inv_def s'_def q1_def mod_simps)
  moreover have "\<forall>y\<in>set xs. length (snd y) \<le> 256" using inv item by (simp add: channel_ok_def)
  ultimately show ?thesis using xs by (auto simp: channel_ok_def)
qed

interpretation channel_queue: bounded_queue IPC_MAX_MESSAGES "\<lambda>x. length (snd x) \<le> 256" "channel_ok c"
  "channel_contents c" "channel_push current c" "channel_pop c" for current c
proof (unfold_locales, goal_cases)
  case (1 s)
  then show ?case by (auto simp: channel_ok_def channel_inv_def Let_def)
next
  case (2 s x)
  then show ?case
    by (auto simp: channel_push_def ipc_channel_send_def Let_def channel_ok_def)
next
  case (3 s x)
  then show ?case by (auto simp: channel_push_def ipc_channel_send_def)
next
  case (4 s x)
  then show ?case using channel_push_room by blast
next
  case (5 s)
  then have "iq_count (ch_queue (ic_channels s c)) = 0" by (simp flip: length_channel_contents)
  then show ?case by (simp add: channel_pop_def ipc_channel_recv_def Let_def)
next
  case (6 s x xs)
  then show ?case using channel_pop_item by blast
qed

section \<open>Properties\<close>

definition channels0 :: ipc_channels where
  "channels0 = \<lparr>ic_channels = (\<lambda>_. \<lparr>ch_name = [], ch_owner = 0, ch_creator = 0,
     ch_queue = \<lparr>iq_messages = (\<lambda>_. ipc_message_zero), iq_head = 0, iq_tail = 0, iq_count = 0\<rparr>,
     ch_ref_count = 0, ch_flags = 0, ch_max_msg_size = 0, ch_max_msg_count = 0\<rparr>),
     ic_count = 0, ic_wakeups = []\<rparr>"

definition ring0 :: ipc_ring where
  "ring0 = \<lparr>ir_buffer = (\<lambda>_. ipc_message_zero), ir_head = 0, ir_tail = 0, ir_count = 0, ir_wakeups = []\<rparr>"

text \<open>
  C16. A channel delivers its messages in order: in any sequence of sends and receives on a
  channel, the messages waiting and those accepted are those delivered and those still
  waiting, with their types and bytes, and a send fails only for a message of more than 256
  bytes or when 64 wait. The limits given to \<open>ipc_channel_create\<close> play no part: they are
  stored, and a channel made for one message of one byte takes 64 messages of 256.
\<close>

theorem ipc_channel_is_fifo:
  assumes "channel_ok c s"
  shows "(case queue_run (channel_push current c) (channel_pop c) ops s of (acc, del, s') \<Rightarrow>
      channel_contents c s @ acc = del @ channel_contents c s' \<and> channel_ok c s') \<and>
    (channel_push current c x s = None \<longleftrightarrow>
      length (snd x) > 256 \<or> length (channel_contents c s) = IPC_MAX_MESSAGES)"
  using channel_queue.run_fifo [OF assms, of current ops] channel_queue.push_None_iff [OF assms, of current x]
  by (auto split: prod.splits)

theorem ipc_channel_is_fifo_witness:
  "\<exists>s. ipc_channel_create 3 (Some ''log'') 1 1 channels0 = (0, s) \<and> channel_ok 0 s \<and>
    (case queue_run (channel_push 3 0) (channel_pop 0) [Push (1, [7, 8]), Push (2, [9]), Pop] s of
       (acc, del, s') \<Rightarrow> acc @ [] = del @ channel_contents 0 s')"
proof -
  obtain s where s: "ipc_channel_create 3 (Some ''log'') 1 1 channels0 = (0, s)"
    by (simp add: ipc_channel_create_def channels0_def)
  then have ok: "channel_ok 0 s" and e: "channel_contents 0 s = []"
    by (auto simp: ipc_channel_create_def channels0_def channel_ok_def channel_inv_def channel_contents_def Let_def)
  from ipc_channel_is_fifo [OF ok, of 3 "[Push (1, [7, 8]), Push (2, [9]), Pop]" "(0, [])"] s ok e
  show ?thesis by (auto split: prod.splits)
qed

text \<open>
  A receive from the kernel ring corrupts the ring: it fills the hole with the last message
  and lowers the count, but leaves the tail where it was. The next send then writes behind
  the window of the ring: the message it reports as sent is not in the ring, and the last
  message of before is there again at the end, although it was moved or already received.
\<close>

theorem ipc_send_after_receive_lost:
  assumes inv: "ring_inv r" and "ir_count r < IPC_MAX_MESSAGES" and "sz \<le> IPC_MAX_SIZE"
    and i: "first_index (\<lambda>i. im_destination (ring_messages r ! i) = current \<and>
      (source = - 1 \<or> im_source (ring_messages r ! i) = source)) (ir_count r) = Some i"
  shows "case ipc_receive current source type data n r of (res, r1, out) \<Rightarrow>
    res = 0 \<and> out = deliver_message (ring_messages r ! i) type data n \<and>
    (case ipc_send current2 destination2 type2 data2 sz r1 of (res2, r2) \<Rightarrow>
       res2 = 0 \<and>
       ring_messages r2 = butlast ((ring_messages r)[i := last (ring_messages r)]) @ [last (ring_messages r)])"
proof -
  let ?n = "ir_count r"
  have lt: "i < ?n" using first_index_SomeD(1) [OF i] .
  obtain r1 where r1: "ipc_receive current source type data n r = (0, r1, deliver_message (ring_messages r ! i) type data n)"
    "ring_messages r1 = butlast ((ring_messages r)[i := last (ring_messages r)])"
    "ir_head r1 = ir_head r" "ir_tail r1 = ir_tail r" "ir_count r1 = ?n - 1"
    "ir_buffer r1 ((ir_head r + ?n - 1) mod IPC_MAX_MESSAGES) = last (ring_messages r)"
    using ipc_receive_ring [OF inv i, of type data n] by blast
  have c1: "ir_count r1 < IPC_MAX_MESSAGES" using assms(2) r1(5) by simp
  obtain r2 m where r2: "ipc_send current2 destination2 type2 data2 sz r1 = (0, r2)"
    "ir_buffer r2 = (ir_buffer r1)(ir_tail r1 := m)" "ir_head r2 = ir_head r1" "ir_count r2 = Suc (ir_count r1)"
    using ipc_send_ring [OF assms(3) c1, of current2 destination2 type2 data2] by blast
  have tail: "ir_tail r1 = (ir_head r + ?n) mod IPC_MAX_MESSAGES" using inv r1(4) by (simp add: ring_inv_def)
  have keep: "ir_buffer r2 ((ir_head r + j) mod IPC_MAX_MESSAGES) = ir_buffer r1 ((ir_head r + j) mod IPC_MAX_MESSAGES)"
    if "j < ?n" for j
    using ring_index_distinct [of j ?n IPC_MAX_MESSAGES "ir_head r"] that assms(2) by (simp add: r2(2) tail)
  have "ring_messages r2 = map (\<lambda>j. ir_buffer r2 ((ir_head r + j) mod IPC_MAX_MESSAGES)) [0..<?n]"
    using lt by (simp add: ring_messages_def ring_list_def r2(3,4) r1(3,5))
  also have "\<dots> = map (\<lambda>j. ir_buffer r1 ((ir_head r + j) mod IPC_MAX_MESSAGES)) [0..<?n]"
    using keep by (intro map_cong) auto
  also have "\<dots> = ring_list (ir_buffer r1) IPC_MAX_MESSAGES (ir_head r) (Suc (?n - 1))"
    using lt by (simp add: ring_list_def)
  also have "\<dots> = ring_messages r1 @ [ir_buffer r1 ((ir_head r + (?n - 1)) mod IPC_MAX_MESSAGES)]"
    by (simp add: ring_messages_def r1(3,5) ring_list_def)
  also have "ir_buffer r1 ((ir_head r + (?n - 1)) mod IPC_MAX_MESSAGES) = last (ring_messages r)"
    using r1(6) lt by simp
  finally show ?thesis using r1(1,2) r2(1) by simp
qed

theorem ipc_send_after_receive_lost_witness:
  "let r = snd (ipc_send 1 2 10 (Some (\<lambda>_. 5)) 1 ring0)
   in case ipc_receive 2 (- 1) (Some 0) (Some (\<lambda>_. 0)) (Some 8) r of (res, r1, out) \<Rightarrow> res = 0 \<and>
        (case ipc_send 3 2 20 None 0 r1 of (res2, r2) \<Rightarrow> res2 = 0 \<and> map im_type (ring_messages r2) = [10])"
proof -
  let ?r = "snd (ipc_send 1 2 10 (Some (\<lambda>_. 5)) 1 ring0)"
  have inv: "ring_inv ?r" and c: "ir_count ?r < 64" and l: "map im_type (ring_messages ?r) = [10]"
    and fi: "first_index (\<lambda>i. im_destination (ring_messages ?r ! i) = 2 \<and>
      (- 1 = (- 1 :: u64) \<or> im_source (ring_messages ?r ! i) = - 1)) (ir_count ?r) = Some 0"
    by (simp_all add: ipc_send_def ring0_def fill_message_def ring_inv_def ring_messages_def ring_list_def first_index_Suc)
  obtain x where x: "ring_messages ?r = [x]" "im_type x = 10" using l by (cases "ring_messages ?r") auto
  from ipc_send_after_receive_lost [OF inv c _ fi, of 0 "Some 0" "Some (\<lambda>_. 0)" "Some 8" 3 2 20 None] x
  show ?thesis by (auto simp: Let_def split: prod.splits)
qed

end
