(* ===== verification/KFutex.thy ===== *)
theory KFutex
  imports WaitQueue
begin

text \<open>
  Futexes of \<open>kernel/kernel/ipc.c\<close>: hashed buckets of waiters. A bucket is a singly linked
  list of heap-allocated waiters and is modelled as the list of their addresses; the record
  keeps the waiters' contents, the user words, the process states and the calls of
  \<open>kfree\<close> in order. What other processes do while a waiter has yielded is a function.
\<close>

abbreviation (input) FUTEX_MAX_QUEUES :: nat where "FUTEX_MAX_QUEUES \<equiv> 128"
abbreviation (input) FUTEX_PROCESS_MAX :: nat where "FUTEX_PROCESS_MAX \<equiv> 256"

record futex_waiter_t =
  fw_pid :: pid
  fw_uaddr :: u64

record futex_state =
  fx_queues :: "nat \<Rightarrow> addr list"
  fx_waiters :: "addr \<Rightarrow> futex_waiter_t"
  fx_words :: "u64 \<Rightarrow> u32"
  fx_procs :: "pid \<Rightarrow> proc_state"
  fx_freed :: "addr list"

definition futex_hash :: "u64 \<Rightarrow> nat" where
  "futex_hash uaddr = unat (ucast (drop_bit 4 uaddr) :: u32) mod FUTEX_MAX_QUEUES"

definition futex_wait ::
  "(futex_state \<Rightarrow> futex_state) \<Rightarrow> addr option \<Rightarrow> pid \<Rightarrow> u64 \<Rightarrow> u32 \<Rightarrow> futex_state \<Rightarrow> int \<times> futex_state" where
  "futex_wait env alloc current uaddr val s =
     (if fx_words s uaddr \<noteq> val then (0, s)
      else case alloc of
        None \<Rightarrow> (- 1, s)
      | Some w \<Rightarrow>
          let h = futex_hash uaddr;
              s1 = s\<lparr>fx_waiters := (fx_waiters s)(w := \<lparr>fw_pid = current, fw_uaddr = uaddr\<rparr>),
                     fx_queues := (fx_queues s)(h := w # fx_queues s h),
                     fx_procs := (fx_procs s)(current := PROCESS_SLEEPING)\<rparr>;
              s2 = env s1
          in (0, s2\<lparr>fx_queues := (fx_queues s2)(h := remove1 w (fx_queues s2 h)),
                    fx_freed := fx_freed s2 @ [w]\<rparr>))"

text \<open>The walk of \<open>futex_wake\<close>: what is left of the list, how many were woken, and the state.\<close>

fun futex_wake_loop :: "u64 \<Rightarrow> nat \<Rightarrow> nat \<Rightarrow> addr list \<Rightarrow> futex_state \<Rightarrow> addr list \<times> nat \<times> futex_state" where
  "futex_wake_loop uaddr cnt woken [] s = ([], woken, s)"
| "futex_wake_loop uaddr cnt woken (w # ws) s =
     (if \<not> woken < cnt then (w # ws, woken, s)
      else if fw_uaddr (fx_waiters s w) = uaddr then
        let p = fw_pid (fx_waiters s w);
            s1 = (if p < FUTEX_PROCESS_MAX \<and> fx_procs s p = PROCESS_SLEEPING
                  then s\<lparr>fx_procs := (fx_procs s)(p := PROCESS_READY)\<rparr> else s)
        in futex_wake_loop uaddr cnt (woken + 1) ws (s1\<lparr>fx_freed := fx_freed s1 @ [w]\<rparr>)
      else case futex_wake_loop uaddr cnt woken ws s of (ws', n, s') \<Rightarrow> (w # ws', n, s'))"

definition futex_wake :: "u64 \<Rightarrow> nat \<Rightarrow> futex_state \<Rightarrow> int \<times> futex_state" where
  "futex_wake uaddr cnt s =
     (if cnt = 0 then (0, s)
      else case futex_wake_loop uaddr cnt 0 (fx_queues s (futex_hash uaddr)) s of
        (ws, n, s') \<Rightarrow> (int n, s'\<lparr>fx_queues := (fx_queues s')(futex_hash uaddr := ws)\<rparr>))"

text \<open>
  The loop of \<open>futex_requeue\<close> with its pointer into the first bucket: the part of the bucket
  in front of the pointer and the part from it on. A moved waiter is pushed on the front
  of the second bucket, which may be the same one.
\<close>

function futex_requeue_loop ::
  "u64 \<Rightarrow> u64 \<Rightarrow> nat \<Rightarrow> nat \<Rightarrow> addr list \<Rightarrow> addr list \<Rightarrow> futex_state \<Rightarrow> nat \<times> futex_state" where
  "futex_requeue_loop uaddr uaddr2 cnt moved before from s =
     (case from of
        [] \<Rightarrow> (moved, s\<lparr>fx_queues := (fx_queues s)(futex_hash uaddr := before)\<rparr>)
      | w # rest \<Rightarrow>
          if \<not> moved < cnt
          then (moved, s\<lparr>fx_queues := (fx_queues s)(futex_hash uaddr := before @ from)\<rparr>)
          else if fw_uaddr (fx_waiters s w) = uaddr then
            let s1 = s\<lparr>fx_waiters := (fx_waiters s)(w := (fx_waiters s w)\<lparr>fw_uaddr := uaddr2\<rparr>)\<rparr>
            in if futex_hash uaddr2 = futex_hash uaddr
               then (if before = []
                     then futex_requeue_loop uaddr uaddr2 cnt (moved + 1) [] (w # rest) s1
                     else futex_requeue_loop uaddr uaddr2 cnt (moved + 1) (w # before) rest s1)
               else futex_requeue_loop uaddr uaddr2 cnt (moved + 1) before rest
                      (s1\<lparr>fx_queues := (fx_queues s1)(futex_hash uaddr2 := w # fx_queues s1 (futex_hash uaddr2))\<rparr>)
          else futex_requeue_loop uaddr uaddr2 cnt moved (before @ [w]) rest s)"
  by pat_completeness auto
termination
  by (relation "measures [\<lambda>(uaddr, uaddr2, cnt, moved, before, from, s). cnt - moved,
      \<lambda>(uaddr, uaddr2, cnt, moved, before, from, s). length from]") auto

declare futex_requeue_loop.simps [simp del]

definition futex_requeue :: "u64 \<Rightarrow> u64 \<Rightarrow> nat \<Rightarrow> futex_state \<Rightarrow> int \<times> futex_state" where
  "futex_requeue uaddr uaddr2 cnt s =
     (case futex_requeue_loop uaddr uaddr2 cnt 0 [] (fx_queues s (futex_hash uaddr)) s of
        (moved, s') \<Rightarrow> (int moved, s'))"

section \<open>Waking\<close>

definition futex_waits :: "futex_state \<Rightarrow> u64 \<Rightarrow> addr \<Rightarrow> bool" where
  "futex_waits s uaddr w \<longleftrightarrow> fw_uaddr (fx_waiters s w) = uaddr"

text \<open>The list without its first \<open>n\<close> elements that satisfy \<open>P\<close>.\<close>

fun drop_first :: "('a \<Rightarrow> bool) \<Rightarrow> nat \<Rightarrow> 'a list \<Rightarrow> 'a list" where
  "drop_first P 0 xs = xs"
| "drop_first P n [] = []"
| "drop_first P (Suc n) (x # xs) = (if P x then drop_first P n xs else x # drop_first P (Suc n) xs)"

lemma drop_first_Nil [simp]: "drop_first P n [] = []"
  by (cases n) auto

lemma filter_drop_first: "filter P (drop_first P n xs) = drop n (filter P xs)"
  by (induction P n xs rule: drop_first.induct) auto

lemma futex_wake_loop_ok:
  assumes "futex_wake_loop uaddr cnt woken ws s = (ws', n, s')"
  shows "ws' = drop_first (futex_waits s uaddr) (cnt - woken) ws \<and>
    n = woken + min (cnt - woken) (length (filter (futex_waits s uaddr) ws)) \<and>
    fx_freed s' = fx_freed s @ take (cnt - woken) (filter (futex_waits s uaddr) ws) \<and>
    fx_queues s' = fx_queues s \<and> fx_waiters s' = fx_waiters s \<and> fx_words s' = fx_words s \<and>
    fx_procs s' = (\<lambda>p. if p < FUTEX_PROCESS_MAX \<and> fx_procs s p = PROCESS_SLEEPING \<and>
        p \<in> (\<lambda>w. fw_pid (fx_waiters s w)) ` set (take (cnt - woken) (filter (futex_waits s uaddr) ws))
      then PROCESS_READY else fx_procs s p)"
  using assms
proof (induction uaddr cnt woken ws s arbitrary: ws' n s' rule: futex_wake_loop.induct)
  case (2 uaddr cnt woken w ws s)
  show ?case
  proof (cases "woken < cnt")
    case False
    with "2.prems" show ?thesis by auto
  next
    case True
    then obtain k where k: "cnt - woken = Suc k" "cnt - Suc woken = k" by (metis Suc_diff_Suc)
    show ?thesis
    proof (cases "fw_uaddr (fx_waiters s w) = uaddr")
      case ne: False
      obtain ws1 n1 s1 where r: "futex_wake_loop uaddr cnt woken ws s = (ws1, n1, s1)" by (metis prod_cases3)
      have w: "\<not> futex_waits s uaddr w" using ne by (simp add: futex_waits_def)
      from "2.IH"(2) [OF _ ne r] "2.prems" True ne r k w show ?thesis by auto
    next
      case eq: True
      define p where "p = fw_pid (fx_waiters s w)"
      define s1 where "s1 = (if p < FUTEX_PROCESS_MAX \<and> fx_procs s p = PROCESS_SLEEPING
                  then s\<lparr>fx_procs := (fx_procs s)(p := PROCESS_READY)\<rparr> else s)"
      have w: "futex_waits s uaddr w" using eq by (simp add: futex_waits_def)
      have run: "futex_wake_loop uaddr cnt (woken + 1) ws (s1\<lparr>fx_freed := fx_freed s1 @ [w]\<rparr>) = (ws', n, s')"
        using "2.prems" True eq by (auto simp: p_def s1_def Let_def split: if_splits)
      have sel: "fx_freed s1 = fx_freed s" "fx_queues s1 = fx_queues s" "fx_waiters s1 = fx_waiters s"
        "fx_words s1 = fx_words s" by (simp_all add: s1_def)
      have wt: "futex_waits (s1\<lparr>fx_freed := fx_freed s @ [w]\<rparr>) uaddr = futex_waits s uaddr"
        by (simp add: futex_waits_def fun_eq_iff sel)
      from "2.IH"(1) [OF _ eq p_def s1_def run] True
      have ih: "ws' = drop_first (futex_waits s uaddr) k ws"
        "n = woken + 1 + min k (length (filter (futex_waits s uaddr) ws))"
        "fx_freed s' = fx_freed s @ [w] @ take k (filter (futex_waits s uaddr) ws)"
        "fx_queues s' = fx_queues s" "fx_waiters s' = fx_waiters s" "fx_words s' = fx_words s"
        "fx_procs s' = (\<lambda>p. if p < FUTEX_PROCESS_MAX \<and> fx_procs s1 p = PROCESS_SLEEPING \<and>
            p \<in> (\<lambda>w. fw_pid (fx_waiters s w)) ` set (take k (filter (futex_waits s uaddr) ws))
          then PROCESS_READY else fx_procs s1 p)"
        by (simp_all add: sel wt k(2) cong: if_cong)
      have "fx_procs s' = (\<lambda>p. if p < FUTEX_PROCESS_MAX \<and> fx_procs s p = PROCESS_SLEEPING \<and>
            p \<in> (\<lambda>w. fw_pid (fx_waiters s w)) ` set (w # take k (filter (futex_waits s uaddr) ws))
          then PROCESS_READY else fx_procs s p)"
        unfolding ih(7) by (auto simp: fun_eq_iff s1_def p_def)
      with ih(1-6) w k(1) show ?thesis by simp
    qed
  qed
qed auto

section \<open>Properties\<close>

definition futex0 :: futex_state where
  "futex0 = \<lparr>fx_queues = (\<lambda>_. []), fx_waiters = (\<lambda>_. \<lparr>fw_pid = 0, fw_uaddr = 0\<rparr>), fx_words = (\<lambda>_. 0),
     fx_procs = (\<lambda>_. PROCESS_RUNNING), fx_freed = []\<rparr>"

text \<open>
  C17. \<open>futex_wake\<close> wakes exactly as many as asked for and there are: of the waiters in the
  bucket it takes off the first \<open>cnt\<close> that wait on this address, or all if there are fewer,
  returns their number, makes those of their processes ready that sleep, and leaves every
  other waiter, of other addresses too, in place and every other process as it was.
\<close>

theorem futex_wake_exact:
  "case futex_wake uaddr cnt s of (r, s') \<Rightarrow>
     (let q = fx_queues s (futex_hash uaddr); woken = take cnt (filter (futex_waits s uaddr) q)
      in r = int (length woken) \<and>
         fx_queues s' = (fx_queues s)(futex_hash uaddr := drop_first (futex_waits s uaddr) cnt q) \<and>
         fx_procs s' = (\<lambda>p. if p < FUTEX_PROCESS_MAX \<and> fx_procs s p = PROCESS_SLEEPING \<and>
             p \<in> (\<lambda>w. fw_pid (fx_waiters s w)) ` set woken then PROCESS_READY else fx_procs s p))"
proof (cases "cnt = 0")
  case True
  then show ?thesis by (simp add: futex_wake_def fun_eq_iff)
next
  case False
  obtain ws n s' where r: "futex_wake_loop uaddr cnt 0 (fx_queues s (futex_hash uaddr)) s = (ws, n, s')"
    by (metis prod_cases3)
  from futex_wake_loop_ok [OF r] False r show ?thesis
    by (simp add: futex_wake_def Let_def)
qed

text \<open>
  Every waiter that is woken is freed twice: \<open>futex_wake\<close> frees the waiter it takes off the
  bucket, and when the woken process runs again \<open>futex_wait\<close> frees the same address, which
  the allocator may have given to somebody else by then.
\<close>

theorem futex_double_free:
  assumes "fx_words s uaddr = val" and "0 < cnt" and "w \<notin> set (fx_freed s)"
  shows "case futex_wait (\<lambda>s1. snd (futex_wake uaddr cnt s1)) (Some w) p uaddr val s of (r, s') \<Rightarrow>
    r = 0 \<and> length (filter ((=) w) (fx_freed s')) \<ge> 2"
proof -
  define s1 where "s1 = s\<lparr>fx_waiters := (fx_waiters s)(w := \<lparr>fw_pid = p, fw_uaddr = uaddr\<rparr>),
       fx_queues := (fx_queues s)(futex_hash uaddr := w # fx_queues s (futex_hash uaddr)),
       fx_procs := (fx_procs s)(p := PROCESS_SLEEPING)\<rparr>"
  obtain ws n s2 where r: "futex_wake_loop uaddr cnt 0 (fx_queues s1 (futex_hash uaddr)) s1 = (ws, n, s2)"
    by (metis prod_cases3)
  have "futex_waits s1 uaddr w" by (simp add: futex_waits_def s1_def)
  with futex_wake_loop_ok [OF r] assms(2) have "w \<in> set (fx_freed s2)"
    by (cases cnt) (auto simp: s1_def)
  then have "0 < length (filter ((=) w) (fx_freed s2))" by (auto simp: filter_empty_conv)
  moreover have "futex_wait (\<lambda>s1. snd (futex_wake uaddr cnt s1)) (Some w) p uaddr val s =
      (0, s2\<lparr>fx_queues := (fx_queues s2)(futex_hash uaddr := remove1 w ws), fx_freed := fx_freed s2 @ [w]\<rparr>)"
    using assms(1,2) r unfolding s1_def by (simp add: futex_wait_def futex_wake_def Let_def)
  ultimately show ?thesis by (simp add: Suc_le_eq)
qed

theorem futex_double_free_witness:
  "case futex_wait (\<lambda>s1. snd (futex_wake 4096 1 s1)) (Some 70) 3 4096 0 futex0 of (r, s') \<Rightarrow>
    r = 0 \<and> length (filter ((=) 70) (fx_freed s')) \<ge> 2"
  by (rule futex_double_free) (simp_all add: futex0_def)

end
