(* ===== verification/KIpcSysv.thy ===== *)
theory KIpcSysv
  imports Interfaces
begin

text \<open>
  The shared segments, message queues and semaphore sets behind the system call of
  \<open>kernel/kernel/ipc.c\<close>. The static tables are records. A wait by \<open>process_yield\<close> releases
  the lock, so a blocking call takes a list of what other processes do during its yields
  and has the result \<open>None\<close> while it still waits when the list is used up. The address space
  calls of \<open>shm_at\<close> are outside this file: the address that \<open>mmap_do_mmap\<close> chose is an
  argument, the page table a map from virtual to physical page addresses with flags, and
  the calls of \<open>kfree\<close> and \<open>free_pages_virt\<close> are lists. Addresses are 64-bit words. Fields
  that the code only ever zeroes (owners, groups, the segment name) are left out.
\<close>

abbreviation (input) IPC_PRIVATE :: u64 where "IPC_PRIVATE \<equiv> 0"
abbreviation (input) IPC_CREAT :: int where "IPC_CREAT \<equiv> 512"
abbreviation (input) IPC_NOWAIT :: int where "IPC_NOWAIT \<equiv> 2048"
abbreviation (input) SHM_RDONLY :: int where "SHM_RDONLY \<equiv> 64"
abbreviation (input) SHM_DEST :: u32 where "SHM_DEST \<equiv> 512"
abbreviation (input) SHM_MAX :: nat where "SHM_MAX \<equiv> 64"
abbreviation (input) SHM_MAX_MAPPERS :: nat where "SHM_MAX_MAPPERS \<equiv> 64"
abbreviation (input) MSG_MAX :: nat where "MSG_MAX \<equiv> 64"
abbreviation (input) MSG_TEXT_MAX :: nat where "MSG_TEXT_MAX \<equiv> 4096"
abbreviation (input) SEM_MAX :: nat where "SEM_MAX \<equiv> 64"
abbreviation (input) SEM_SET_MAX :: nat where "SEM_SET_MAX \<equiv> 16"
abbreviation (input) PAGE_SIZE :: u64 where "PAGE_SIZE \<equiv> 4096"

section \<open>Shared segments\<close>

record shm_segment_t =
  ss_id :: nat
  ss_key :: u64
  ss_mode :: u16
  ss_phys_addr :: u64
  ss_size :: u64
  ss_ref_count :: u32
  ss_creator_pid :: nat
  ss_flags :: u32
  ss_mapped_vaddr :: "nat \<Rightarrow> u64"

record shm_state =
  sst_table :: "nat \<Rightarrow> shm_segment_t"
  sst_count :: nat
  sst_pages :: "u64 \<Rightarrow> (u64 \<times> u64) option"
  sst_kfreed :: "u64 list"
  sst_pages_freed :: "u64 list"
  sst_munmaps :: "(u64 \<times> u64) list"

definition shm_segment_zero :: shm_segment_t where
  "shm_segment_zero = \<lparr>ss_id = 0, ss_key = 0, ss_mode = 0, ss_phys_addr = 0, ss_size = 0, ss_ref_count = 0,
     ss_creator_pid = 0, ss_flags = 0, ss_mapped_vaddr = (\<lambda>_. 0)\<rparr>"

definition shm_init :: "shm_state \<Rightarrow> int \<times> shm_state" where
  "shm_init s = (0, s\<lparr>sst_table := (\<lambda>_. shm_segment_zero), sst_count := 0\<rparr>)"

text \<open>\<open>alloc\<close> is what \<open>kzalloc\<close> returned; the third component of the result is \<open>*shm_id\<close>.\<close>

definition shm_get ::
  "nat \<Rightarrow> u64 \<Rightarrow> u64 \<Rightarrow> u64 \<Rightarrow> int \<Rightarrow> nat \<Rightarrow> shm_state \<Rightarrow> int \<times> shm_state \<times> nat" where
  "shm_get current alloc key sz flags shm_id s =
     (case (if key \<noteq> IPC_PRIVATE then first_index (\<lambda>i. ss_key (sst_table s i) = key) (sst_count s) else None) of
        Some i \<Rightarrow> (0, s, i)
      | None \<Rightarrow>
          if key \<noteq> IPC_PRIVATE \<and> flags AND IPC_CREAT = 0 then (- 1, s, shm_id)
          else if sst_count s \<ge> SHM_MAX then (- 1, s, shm_id)
          else
            let i = sst_count s;
                seg = (sst_table s i)\<lparr>ss_id := i, ss_key := key, ss_mode := 438,
                   ss_size := (sz + PAGE_SIZE - 1) AND NOT (PAGE_SIZE - 1), ss_phys_addr := alloc\<rparr>
            in if alloc = 0 then (- 1, s\<lparr>sst_table := (sst_table s)(i := seg)\<rparr>, shm_id)
               else (0, s\<lparr>sst_table := (sst_table s)(i := seg\<lparr>ss_ref_count := 0, ss_creator_pid := current,
                              ss_flags := 0,
                              ss_mapped_vaddr := fold (\<lambda>j f. f(j := 0)) [0..<SHM_MAX_MAPPERS] (ss_mapped_vaddr seg)\<rparr>),
                          sst_count := i + 1\<rparr>, i))"

text \<open>One pass of the mapping loop of \<open>shm_at\<close>, for page \<open>i\<close>.\<close>

definition shm_map_page :: "u64 \<Rightarrow> u64 \<Rightarrow> u64 \<Rightarrow> nat \<Rightarrow> shm_state \<Rightarrow> shm_state" where
  "shm_map_page map_addr phys pte_flags i s =
     (let va = map_addr + word_of_nat i * PAGE_SIZE;
          old_pa = (case sst_pages s va of None \<Rightarrow> 0 | Some (pa, _) \<Rightarrow> pa);
          s1 = (if old_pa \<noteq> 0
                then s\<lparr>sst_pages := (sst_pages s)(va := None), sst_pages_freed := sst_pages_freed s @ [old_pa]\<rparr>
                else s)
      in s1\<lparr>sst_pages := (sst_pages s1)(va := Some (phys + word_of_nat i * PAGE_SIZE, pte_flags))\<rparr>)"

definition shm_at :: "nat \<Rightarrow> (u64 \<Rightarrow> u64 \<Rightarrow> u64 \<Rightarrow> u64) \<Rightarrow> nat \<Rightarrow> u64 \<Rightarrow> int \<Rightarrow> shm_state \<Rightarrow> u64 \<times> shm_state" where
  "shm_at current mmap shm_id addr flags s =
     (if shm_id \<ge> sst_count s then (0, s)
      else
        let seg = sst_table s shm_id
        in if ss_mapped_vaddr seg current \<noteq> 0
           then (ss_mapped_vaddr seg current,
                 s\<lparr>sst_table := (sst_table s)(shm_id := seg\<lparr>ss_ref_count := ss_ref_count seg + 1\<rparr>)\<rparr>)
           else
             let prot = (if flags AND SHM_RDONLY \<noteq> 0 then 1 else 3 :: u64);
                 map_addr = mmap addr (ss_size seg) prot
             in if map_addr = - 1 \<or> map_addr = 0 then (0, s)
                else
                  let npages = ss_size seg div PAGE_SIZE;
                      pte_flags = (1 OR 4) OR (if prot AND 2 \<noteq> 0 then 2 else 0) OR push_bit 63 1;
                      s1 = fold (shm_map_page map_addr (ss_phys_addr seg) pte_flags) [0..<unat npages] s
                  in (map_addr,
                      s1\<lparr>sst_table := (sst_table s1)(shm_id := seg\<lparr>
                          ss_mapped_vaddr := (ss_mapped_vaddr seg)(current := map_addr),
                          ss_ref_count := ss_ref_count seg + 1\<rparr>)\<rparr>))"

definition shm_dt :: "nat \<Rightarrow> u64 \<Rightarrow> shm_state \<Rightarrow> int \<times> shm_state" where
  "shm_dt current addr s =
     (if addr = 0 then (- 1, s)
      else case first_index (\<lambda>i. ss_mapped_vaddr (sst_table s i) current = addr) (sst_count s) of
        None \<Rightarrow> (- 1, s)
      | Some i \<Rightarrow>
          let seg = sst_table s i;
              seg1 = seg\<lparr>ss_mapped_vaddr := (ss_mapped_vaddr seg)(current := 0)\<rparr>;
              seg2 = (if ss_ref_count seg1 > 0 then seg1\<lparr>ss_ref_count := ss_ref_count seg1 - 1\<rparr> else seg1)
          in (0, s\<lparr>sst_munmaps := sst_munmaps s @ [(addr, ss_size seg)], sst_table := (sst_table s)(i := seg2)\<rparr>))"

definition shm_ctl :: "nat \<Rightarrow> int \<Rightarrow> shm_segment_t option \<Rightarrow> shm_state \<Rightarrow> int \<times> shm_state \<times> shm_segment_t option" where
  "shm_ctl shm_id cmd buf s =
     (if shm_id \<ge> sst_count s then (- 1, s, buf)
      else
        let seg = sst_table s shm_id
        in if cmd = 0 then
             (if ss_ref_count seg = 0
              then (0, s\<lparr>sst_kfreed := sst_kfreed s @ [ss_phys_addr seg],
                         sst_table := (sst_table s)(shm_id := seg\<lparr>ss_phys_addr := 0, ss_size := 0\<rparr>)\<rparr>, buf)
              else (0, s\<lparr>sst_table := (sst_table s)(shm_id := seg\<lparr>ss_flags := ss_flags seg OR SHM_DEST\<rparr>)\<rparr>, buf))
           else if cmd = 1 then (0, s, map_option (\<lambda>_. seg) buf)
           else (- 1, s, buf))"

section \<open>Message queues\<close>

record msg_queue_t =
  mk_id :: nat
  mk_key :: u64
  mk_mode :: u16
  mk_msg_count :: u32
  mk_current_bytes :: nat
  mk_max_bytes :: nat
  mk_creator_pid :: nat

record msg_entry_t =
  me_mtype :: int
  me_msize :: nat
  me_mtext :: mem

record msg_state =
  mst_queues :: "nat \<Rightarrow> msg_queue_t"
  mst_entries :: "nat \<Rightarrow> msg_entry_t list"
  mst_count :: nat

definition msg_queue_zero :: msg_queue_t where
  "msg_queue_zero = \<lparr>mk_id = 0, mk_key = 0, mk_mode = 0, mk_msg_count = 0, mk_current_bytes = 0,
     mk_max_bytes = 0, mk_creator_pid = 0\<rparr>"

definition msg_init :: "msg_state \<Rightarrow> int \<times> msg_state" where
  "msg_init s = (0, \<lparr>mst_queues = (\<lambda>_. msg_queue_zero), mst_entries = (\<lambda>_. []), mst_count = 0\<rparr>)"

definition msg_get :: "nat \<Rightarrow> u64 \<Rightarrow> int \<Rightarrow> nat \<Rightarrow> msg_state \<Rightarrow> int \<times> msg_state \<times> nat" where
  "msg_get current key flags msg_id s =
     (case (if key \<noteq> IPC_PRIVATE then first_index (\<lambda>i. mk_key (mst_queues s i) = key) (mst_count s) else None) of
        Some i \<Rightarrow> (0, s, i)
      | None \<Rightarrow>
          if key \<noteq> IPC_PRIVATE \<and> flags AND IPC_CREAT = 0 then (- 1, s, msg_id)
          else if mst_count s \<ge> MSG_MAX then (- 1, s, msg_id)
          else
            let i = mst_count s
            in (0, s\<lparr>mst_queues := (mst_queues s)(i := (mst_queues s i)\<lparr>mk_id := i, mk_key := key,
                        mk_mode := 438, mk_msg_count := 0, mk_current_bytes := 0, mk_max_bytes := 65536,
                        mk_creator_pid := current\<rparr>),
                     mst_entries := (mst_entries s)(i := []), mst_count := i + 1\<rparr>, i))"

text \<open>Waiting for room; \<open>None\<close> in the inner result is the refusal of a caller that will not wait.\<close>

fun msg_send_wait :: "(msg_state \<Rightarrow> msg_state) list \<Rightarrow> nat \<Rightarrow> nat \<Rightarrow> int \<Rightarrow> msg_state \<Rightarrow> (bool \<times> msg_state) option" where
  "msg_send_wait env msg_id sz flags s =
     (let mq = mst_queues s msg_id
      in if mk_current_bytes mq + sz > mk_max_bytes mq
         then (if flags AND IPC_NOWAIT \<noteq> 0 then Some (False, s)
               else (case env of [] \<Rightarrow> None | e # es \<Rightarrow> msg_send_wait es msg_id sz flags (e s)))
         else Some (True, s))"

text \<open>The message of the caller is its \<open>long\<close> type and the bytes behind it.\<close>

definition msg_send ::
  "(msg_state \<Rightarrow> msg_state) list \<Rightarrow> bool \<Rightarrow> nat \<Rightarrow> int \<times> mem \<Rightarrow> nat \<Rightarrow> int \<Rightarrow> msg_state \<Rightarrow>
     (int \<times> msg_state) option" where
  "msg_send env alloc_ok msg_id msgp sz flags s =
     (if msg_id \<ge> mst_count s then Some (- 1, s)
      else if sz > MSG_TEXT_MAX then Some (- 1, s)
      else
        map_option (\<lambda>(room, s1).
          if \<not> room then (- 1, s1)
          else if \<not> alloc_ok then (- 1, s1)
          else
            let mq = mst_queues s1 msg_id;
                entry = \<lparr>me_mtype = fst msgp, me_msize = sz, me_mtext = copy_obj (\<lambda>_. 0) 0 (snd msgp) 0 sz\<rparr>
            in (0, s1\<lparr>mst_entries := (mst_entries s1)(msg_id := mst_entries s1 msg_id @ [entry]),
                      mst_queues := (mst_queues s1)(msg_id := mq\<lparr>mk_msg_count := mk_msg_count mq + 1,
                        mk_current_bytes := mk_current_bytes mq + sz\<rparr>)\<rparr>))
          (msg_send_wait env msg_id sz flags s))"

fun msg_recv_wait :: "(msg_state \<Rightarrow> msg_state) list \<Rightarrow> nat \<Rightarrow> int \<Rightarrow> msg_state \<Rightarrow> (bool \<times> msg_state) option" where
  "msg_recv_wait env msg_id flags s =
     (if mst_entries s msg_id = []
      then (if flags AND IPC_NOWAIT \<noteq> 0 then Some (False, s)
            else (case env of [] \<Rightarrow> None | e # es \<Rightarrow> msg_recv_wait es msg_id flags (e s)))
      else Some (True, s))"

definition entry_matches :: "int \<Rightarrow> msg_entry_t \<Rightarrow> bool" where
  "entry_matches mtype e \<longleftrightarrow> mtype = 0 \<or> me_mtype e = mtype \<or> (mtype < 0 \<and> me_mtype e \<le> - mtype)"

text \<open>The walk with the pointer to the link: the first match and the list without it.\<close>

fun take_first :: "('a \<Rightarrow> bool) \<Rightarrow> 'a list \<Rightarrow> ('a \<times> 'a list) option" where
  "take_first P [] = None"
| "take_first P (x # xs) = (if P x then Some (x, xs) else map_option (\<lambda>(y, ys). (y, x # ys)) (take_first P xs))"

definition msg_recv ::
  "(msg_state \<Rightarrow> msg_state) list \<Rightarrow> nat \<Rightarrow> int \<times> mem \<Rightarrow> nat \<Rightarrow> int \<Rightarrow> int \<Rightarrow> msg_state \<Rightarrow>
     (int \<times> msg_state \<times> (int \<times> mem)) option" where
  "msg_recv env msg_id msgp sz mtype flags s =
     (if msg_id \<ge> mst_count s then Some (- 1, s, msgp)
      else
        map_option (\<lambda>(some_there, s1).
          if \<not> some_there then (- 1, s1, msgp)
          else case take_first (entry_matches mtype) (mst_entries s1 msg_id) of
            None \<Rightarrow> (- 1, s1, msgp)
          | Some (entry, rest) \<Rightarrow>
              let copy_size = (if me_msize entry < sz then me_msize entry else sz);
                  mq = mst_queues s1 msg_id
              in (int copy_size,
                  s1\<lparr>mst_entries := (mst_entries s1)(msg_id := rest),
                     mst_queues := (mst_queues s1)(msg_id := mq\<lparr>mk_msg_count := mk_msg_count mq - 1,
                        mk_current_bytes := mk_current_bytes mq - me_msize entry\<rparr>)\<rparr>,
                  (me_mtype entry, copy_obj (snd msgp) 0 (me_mtext entry) 0 copy_size)))
          (msg_recv_wait env msg_id flags s))"

definition msg_ctl :: "nat \<Rightarrow> int \<Rightarrow> msg_queue_t option \<Rightarrow> msg_state \<Rightarrow> int \<times> msg_state \<times> msg_queue_t option" where
  "msg_ctl msg_id cmd buf s =
     (if msg_id \<ge> mst_count s then (- 1, s, buf)
      else if cmd = 0 then
        (0, s\<lparr>mst_entries := (mst_entries s)(msg_id := []), mst_queues := (mst_queues s)(msg_id := msg_queue_zero)\<rparr>, buf)
      else if cmd = 1 then (0, s, map_option (\<lambda>_. mst_queues s msg_id) buf)
      else (- 1, s, buf))"

section \<open>Semaphore sets\<close>

record sem_set_t =
  st_id :: nat
  st_key :: u64
  st_mode :: u16
  st_nsems :: nat
  st_values :: "nat \<Rightarrow> 16 word"
  st_creator_pid :: nat

record sem_state =
  sms_table :: "nat \<Rightarrow> sem_set_t"
  sms_count :: nat

record sembuf =
  sb_num :: nat
  sb_op :: "16 word"
  sb_flg :: int

definition sem_set_zero :: sem_set_t where
  "sem_set_zero = \<lparr>st_id = 0, st_key = 0, st_mode = 0, st_nsems = 0, st_values = (\<lambda>_. 0), st_creator_pid = 0\<rparr>"

definition sem_init :: "sem_state \<Rightarrow> int \<times> sem_state" where
  "sem_init s = (0, \<lparr>sms_table = (\<lambda>_. sem_set_zero), sms_count = 0\<rparr>)"

definition sem_get :: "nat \<Rightarrow> u64 \<Rightarrow> int \<Rightarrow> int \<Rightarrow> nat \<Rightarrow> sem_state \<Rightarrow> int \<times> sem_state \<times> nat" where
  "sem_get current key nsems flags sem_id s =
     (if nsems < 1 \<or> nsems > int SEM_SET_MAX then (- 1, s, sem_id)
      else case (if key \<noteq> IPC_PRIVATE then first_index (\<lambda>i. st_key (sms_table s i) = key) (sms_count s) else None) of
        Some i \<Rightarrow> (0, s, i)
      | None \<Rightarrow>
          if key \<noteq> IPC_PRIVATE \<and> flags AND IPC_CREAT = 0 then (- 1, s, sem_id)
          else if sms_count s \<ge> SEM_MAX then (- 1, s, sem_id)
          else
            let i = sms_count s
            in (0, s\<lparr>sms_table := (sms_table s)(i := (sms_table s i)\<lparr>st_id := i, st_key := key, st_mode := 438,
                        st_nsems := nat nsems, st_values := (\<lambda>_. 0), st_creator_pid := current\<rparr>),
                     sms_count := i + 1\<rparr>, i))"

text \<open>
  The loop of \<open>sem_op\<close> at operation \<open>i\<close>: an operation that would make a value negative is
  tried again after a yield.
\<close>

function sem_op_loop :: "(sem_state \<Rightarrow> sem_state) list \<Rightarrow> nat \<Rightarrow> (nat \<Rightarrow> sembuf) \<Rightarrow> nat \<Rightarrow> nat \<Rightarrow> sem_state \<Rightarrow> (int \<times> sem_state) option" where
  "sem_op_loop env sem_id ops nops i s =
     (if i < nops then
        let ss = sms_table s sem_id; num = sb_num (ops i)
        in if num \<ge> st_nsems ss then Some (- 1, s)
           else
             let val = sint (st_values ss num) + sint (sb_op (ops i))
             in if val < 0 then
                  (if sb_flg (ops i) AND IPC_NOWAIT \<noteq> 0 then Some (- 1, s)
                   else (case env of [] \<Rightarrow> None | e # es \<Rightarrow> sem_op_loop es sem_id ops nops i (e s)))
                else sem_op_loop env sem_id ops nops (i + 1)
                       (s\<lparr>sms_table := (sms_table s)(sem_id := ss\<lparr>st_values := (st_values ss)(num := of_int val)\<rparr>)\<rparr>)
      else Some (0, s))"
  by pat_completeness auto
termination
  by (relation "measures [\<lambda>(env, sem_id, ops, nops, i, s). length env, \<lambda>(env, sem_id, ops, nops, i, s). nops - i]") auto

declare sem_op_loop.simps [simp del]

definition sem_op :: "(sem_state \<Rightarrow> sem_state) list \<Rightarrow> nat \<Rightarrow> (nat \<Rightarrow> sembuf) \<Rightarrow> nat \<Rightarrow> sem_state \<Rightarrow> (int \<times> sem_state) option" where
  "sem_op env sem_id ops nops s =
     (if sem_id \<ge> sms_count s then Some (- 1, s) else sem_op_loop env sem_id ops nops 0 s)"

text \<open>\<open>arg\<close> is an \<open>int\<close> or an array of 16-bit values, by command; \<open>semnum\<close> is compared as \<open>uint32_t\<close>.\<close>

datatype semctl_arg = Arg_int int | Arg_array "nat \<Rightarrow> 16 word"

definition sem_ctl :: "nat \<Rightarrow> int \<Rightarrow> int \<Rightarrow> semctl_arg option \<Rightarrow> sem_state \<Rightarrow> int \<times> sem_state \<times> semctl_arg option" where
  "sem_ctl sem_id semnum cmd arg s =
     (if sem_id \<ge> sms_count s then (- 1, s, arg)
      else
        let ss = sms_table s sem_id; ok = (0 \<le> semnum \<and> semnum < int (st_nsems ss))
        in if cmd = 0 then (0, s\<lparr>sms_table := (sms_table s)(sem_id := sem_set_zero)\<rparr>, arg)
           else if cmd = 1 then
             (case arg of
                Some (Arg_int v) \<Rightarrow>
                  if ok then (0, s\<lparr>sms_table := (sms_table s)(sem_id :=
                        ss\<lparr>st_values := (st_values ss)(nat semnum := of_int v)\<rparr>)\<rparr>, arg)
                  else (0, s, arg)
              | _ \<Rightarrow> (0, s, arg))
           else if cmd = 2 then
             (case arg of
                Some (Arg_int v) \<Rightarrow> (0, s, if ok then Some (Arg_int (sint (st_values ss (nat semnum)))) else arg)
              | _ \<Rightarrow> (0, s, arg))
           else if cmd = 3 then
             (case arg of
                Some (Arg_array f) \<Rightarrow> (0, s, Some (Arg_array (copy_obj f 0 (st_values ss) 0 (st_nsems ss))))
              | _ \<Rightarrow> (0, s, arg))
           else (- 1, s, arg))"

section \<open>Accounting of a message queue\<close>

definition mq_ok :: "msg_state \<Rightarrow> nat \<Rightarrow> bool" where
  "mq_ok s q \<longleftrightarrow> mk_current_bytes (mst_queues s q) = sum_list (map me_msize (mst_entries s q)) \<and>
     mk_msg_count (mst_queues s q) = word_of_nat (length (mst_entries s q))"

lemma take_first_some:
  "\<forall>x\<in>set xs. \<not> P x \<Longrightarrow> P e \<Longrightarrow> take_first P (xs @ e # ys) = Some (e, xs @ ys)"
  by (induction xs) auto

lemma take_first_None: "take_first P xs = None \<longleftrightarrow> (\<forall>x\<in>set xs. \<not> P x)"
  by (induction xs) auto

section \<open>Properties\<close>

definition msg_state1 :: msg_state where
  "msg_state1 = fst (snd (msg_get 1 7 512 0 (snd (msg_init undefined))))"

definition shm_state1 :: shm_state where
  "shm_state1 = \<lparr>sst_table = (\<lambda>_. shm_segment_zero\<lparr>ss_phys_addr := 65536\<rparr>), sst_count = 1, sst_pages = (\<lambda>_. None),
     sst_kfreed = [], sst_pages_freed = [], sst_munmaps = []\<rparr>"

definition sem_state1 :: sem_state where
  "sem_state1 = \<lparr>sms_table = (\<lambda>_. sem_set_zero\<lparr>st_nsems := 2, st_values := (\<lambda>_. 0)(0 := 1)\<rparr>), sms_count = 1\<rparr>"

text \<open>
  A receive takes the first message whose type matches, and only that one: it returns the
  number of bytes copied, the smaller of the message's and the buffer's, with the type and
  those bytes; the other messages stay in order, no other queue changes, and the byte and
  message counts of the queue stay the sum of the sizes and the number of its messages.
\<close>

theorem msg_recv_first_match:
  assumes "q < mst_count s" and "mst_entries s q = xs @ e # ys" and "mq_ok s q"
    and "\<forall>x\<in>set xs. \<not> entry_matches mtype x" and "entry_matches mtype e"
  shows "\<exists>s' b'. msg_recv env q (t, b) sz mtype flags s = Some (int (min (me_msize e) sz), s', (me_mtype e, b')) \<and>
    bytes_at b' 0 (min (me_msize e) sz) = bytes_at (me_mtext e) 0 (min (me_msize e) sz) \<and>
    mst_entries s' = (mst_entries s)(q := xs @ ys) \<and> mq_ok s' q \<and>
    (\<forall>i. i \<noteq> q \<longrightarrow> mst_queues s' i = mst_queues s i)"
proof -
  let ?n = "if me_msize e < sz then me_msize e else sz" and ?mq = "mst_queues s q"
  let ?s = "s\<lparr>mst_entries := (mst_entries s)(q := xs @ ys),
     mst_queues := (mst_queues s)(q := ?mq\<lparr>mk_msg_count := mk_msg_count ?mq - 1,
                        mk_current_bytes := mk_current_bytes ?mq - me_msize e\<rparr>)\<rparr>"
  have n: "?n = min (me_msize e) sz" by simp
  have "msg_recv_wait env q flags s = Some (True, s)"
    using assms(2) by (simp add: msg_recv_wait.simps [of env])
  then have "msg_recv env q (t, b) sz mtype flags s =
      Some (int ?n, ?s, (me_mtype e, copy_obj b 0 (me_mtext e) 0 ?n))"
    using assms(1,2) take_first_some [OF assms(4,5), of ys] by (simp add: msg_recv_def Let_def)
  moreover have "mq_ok ?s q" using assms(2,3) by (simp add: mq_ok_def)
  ultimately show ?thesis unfolding n by (intro exI [of _ ?s]) simp
qed

theorem msg_recv_first_match_witness:
  "case msg_send [] True 0 (5, \<lambda>_. 9) 3 0 msg_state1 of None \<Rightarrow> False
   | Some (r, s) \<Rightarrow> r = 0 \<and> (\<exists>s' b'. msg_recv [] 0 (0, \<lambda>_. 0) 2 5 0 s = Some (2, s', (5, b')) \<and> mst_entries s' 0 = [])"
proof -
  obtain s where s: "msg_send [] True 0 (5, \<lambda>_. 9) 3 0 msg_state1 = Some (0, s)"
    and q: "0 < mst_count s" "mst_entries s 0 = [] @ \<lparr>me_mtype = 5, me_msize = 3, me_mtext = copy_obj (\<lambda>_. 0) 0 (\<lambda>_. 9) 0 3\<rparr> # []"
    and ok: "mq_ok s 0"
    by (simp add: msg_send_def msg_state1_def msg_get_def msg_init_def msg_send_wait.simps [of "[]"] mq_ok_def Let_def)
  from msg_recv_first_match [OF q ok, of 5 "[]" 0 "\<lambda>_. 0" 2 0] s show ?thesis
    by (auto simp: entry_matches_def)
qed

text \<open>
  A list of semaphore operations is not atomic: when a later operation cannot be done and
  its flag forbids waiting, the call fails with \<open>-1\<close> but the operations before it stay done.
\<close>

theorem sem_op_not_atomic:
  assumes "sem_id < sms_count s" and "sb_num (ops 0) < st_nsems (sms_table s sem_id)"
    and "sb_num (ops 1) < st_nsems (sms_table s sem_id)" and "sb_num (ops 0) \<noteq> sb_num (ops 1)"
    and "0 \<le> sint (st_values (sms_table s sem_id) (sb_num (ops 0))) + sint (sb_op (ops 0))"
    and "sint (st_values (sms_table s sem_id) (sb_num (ops 1))) + sint (sb_op (ops 1)) < 0"
    and "sb_flg (ops 1) AND IPC_NOWAIT \<noteq> 0"
  shows "\<exists>s'. sem_op env sem_id ops 2 s = Some (- 1, s') \<and>
    st_values (sms_table s' sem_id) (sb_num (ops 0)) =
      st_values (sms_table s sem_id) (sb_num (ops 0)) + sb_op (ops 0)"
  using assms
  by (simp add: sem_op_def sem_op_loop.simps [of env sem_id ops 2 0] sem_op_loop.simps [of env sem_id ops 2 "Suc 0"]
      Let_def)

theorem sem_op_not_atomic_witness:
  "\<exists>s'. sem_op [] 0 (\<lambda>i. \<lparr>sb_num = i, sb_op = - 1, sb_flg = 2048\<rparr>) 2 sem_state1 = Some (- 1, s') \<and>
    st_values (sms_table s' 0) 0 = 0"
  using sem_op_not_atomic [of 0 sem_state1 "\<lambda>i. \<lparr>sb_num = i, sb_op = - 1, sb_flg = 2048\<rparr>" "[]"]
  by (simp add: sem_state1_def)

text \<open>
  A segment attached twice by one process can never be removed: both attaches count, but
  the address is kept once, so the first detach forgets it and the second fails, and the
  reference count stays at 1 with no way to lower it; a removal then only sets a flag.
\<close>

theorem shm_double_attach_leaks:
  assumes "sid < sst_count s" and "ss_ref_count (sst_table s sid) = 0"
    and "\<forall>i < sst_count s. ss_mapped_vaddr (sst_table s i) p = 0"
    and "mmap addr (ss_size (sst_table s sid)) 3 = a" and "a \<noteq> 0" and "a \<noteq> - 1"
  shows "case shm_at p mmap sid addr 0 s of (a1, s1) \<Rightarrow> a1 = a \<and>
    (case shm_at p mmap sid addr 0 s1 of (a2, s2) \<Rightarrow> a2 = a \<and>
      (case shm_dt p a s2 of (r3, s3) \<Rightarrow> r3 = 0 \<and>
        (case shm_dt p a s3 of (r4, s4) \<Rightarrow> r4 = - 1 \<and> ss_ref_count (sst_table s4 sid) = 1 \<and>
          (case shm_ctl sid 0 None s4 of (r5, s5, _) \<Rightarrow> r5 = 0 \<and> sst_kfreed s5 = sst_kfreed s4))))"
proof -
  let ?seg = "sst_table s sid"
  define s1 where "s1 = snd (shm_at p mmap sid addr 0 s)"
  have fold: "sst_table (fold (shm_map_page x y z) ns s') = sst_table s' \<and> sst_count (fold (shm_map_page x y z) ns s') = sst_count s' \<and>
      sst_kfreed (fold (shm_map_page x y z) ns s') = sst_kfreed s'" for x y z ns s'
    by (induction ns arbitrary: s') (simp_all add: shm_map_page_def Let_def)
  have 1: "shm_at p mmap sid addr 0 s = (a, s1)" "sst_count s1 = sst_count s"
    "sst_table s1 = (sst_table s)(sid := ?seg\<lparr>ss_mapped_vaddr := (ss_mapped_vaddr ?seg)(p := a), ss_ref_count := 1\<rparr>)"
    using assms by (simp_all add: s1_def shm_at_def Let_def fold)
  define s2 where "s2 = snd (shm_at p mmap sid addr 0 s1)"
  have 2: "shm_at p mmap sid addr 0 s1 = (a, s2)" "sst_count s2 = sst_count s"
    "sst_table s2 = (sst_table s)(sid := ?seg\<lparr>ss_mapped_vaddr := (ss_mapped_vaddr ?seg)(p := a), ss_ref_count := 2\<rparr>)"
    using assms 1 by (simp_all add: s2_def shm_at_def Let_def)
  define s3 where "s3 = snd (shm_dt p a s2)"
  have "first_index (\<lambda>i. ss_mapped_vaddr (sst_table s2 i) p = a) (sst_count s) = Some sid"
    using assms 2(3) by (intro first_index_SomeI) auto
  then have 3: "shm_dt p a s2 = (0, s3)" "sst_count s3 = sst_count s"
    "sst_table s3 = (sst_table s)(sid := ?seg\<lparr>ss_mapped_vaddr := (ss_mapped_vaddr ?seg)(p := 0), ss_ref_count := 1\<rparr>)"
    using assms 2 by (simp_all add: s3_def shm_dt_def Let_def)
  have "first_index (\<lambda>i. ss_mapped_vaddr (sst_table s3 i) p = a) (sst_count s) = None"
    using assms 3(3) by (auto simp: first_index_None)
  then have 4: "shm_dt p a s3 = (- 1, s3)" using assms(5) 3(2) by (simp add: shm_dt_def)
  show ?thesis using assms(1) 1(1) 2(1) 3 4 by (simp add: shm_ctl_def Let_def)
qed

theorem shm_double_attach_leaks_witness:
  "case shm_at 3 (\<lambda>_ _ _. 8192) 0 0 0 shm_state1 of (a1, s1) \<Rightarrow> a1 = 8192 \<and>
    (case shm_at 3 (\<lambda>_ _ _. 8192) 0 0 0 s1 of (a2, s2) \<Rightarrow> a2 = 8192 \<and>
      (case shm_dt 3 8192 s2 of (r3, s3) \<Rightarrow> r3 = 0 \<and>
        (case shm_dt 3 8192 s3 of (r4, s4) \<Rightarrow> r4 = - 1 \<and> ss_ref_count (sst_table s4 0) = 1 \<and>
          (case shm_ctl 0 0 None s4 of (r5, s5, _) \<Rightarrow> r5 = 0 \<and> sst_kfreed s5 = sst_kfreed s4))))"
  by (rule shm_double_attach_leaks) (simp_all add: shm_state1_def shm_segment_zero_def)

end
