(* ===== verification/Signal.thy ===== *)
theory Signal
  imports WaitQueue
begin

text \<open>
  Signals of \<open>kernel/kernel/signal.c\<close>: sending, default actions, delivery to handlers and the
  signal masks. A signal set is one 64-bit word (\<open>SIG_WORDS\<close> is 1). A handler is its
  address, \<open>0\<close> for \<open>SIG_DFL\<close> and \<open>1\<close> for \<open>SIG_IGN\<close>. The queue of a real-time signal is the
  list of its infos. The part of a process the file uses is its state, its signal data and
  its register context; a signal frame that the kernel writes to the user's stack is kept as
  a record of what was written where, in the list of frames of the process.
\<close>

type_synonym k_sigset_t = u64

abbreviation (input) SIG_MAX :: int where "SIG_MAX \<equiv> 64"
abbreviation (input) SIGKILL :: int where "SIGKILL \<equiv> 9"
abbreviation (input) SIGCHLD :: int where "SIGCHLD \<equiv> 17"
abbreviation (input) SIGCONT :: int where "SIGCONT \<equiv> 18"
abbreviation (input) SIGSTOP :: int where "SIGSTOP \<equiv> 19"
abbreviation (input) SIGTSTP :: int where "SIGTSTP \<equiv> 20"
abbreviation (input) SIGTTIN :: int where "SIGTTIN \<equiv> 21"
abbreviation (input) SIGTTOU :: int where "SIGTTOU \<equiv> 22"
abbreviation (input) SIGURG :: int where "SIGURG \<equiv> 23"
abbreviation (input) SIGWINCH :: int where "SIGWINCH \<equiv> 28"
abbreviation (input) SIGIO :: int where "SIGIO \<equiv> 29"
abbreviation (input) SIGRTMIN :: int where "SIGRTMIN \<equiv> 32"
abbreviation (input) SIGRTMAX :: int where "SIGRTMAX \<equiv> 63"
abbreviation (input) SIGQUEUE_MAX :: nat where "SIGQUEUE_MAX \<equiv> 8"
abbreviation (input) SA_SIGINFO :: u32 where "SA_SIGINFO \<equiv> 4"
abbreviation (input) SA_NODEFER :: u32 where "SA_NODEFER \<equiv> 0x40000000"
abbreviation (input) SIG_PROCESS_MAX :: nat where "SIG_PROCESS_MAX \<equiv> 256"

definition sigaddset :: "int \<Rightarrow> k_sigset_t \<Rightarrow> k_sigset_t" where
  "sigaddset sig ss = (if 0 < sig \<and> sig \<le> SIG_MAX then ss OR push_bit (nat (sig - 1) mod 64) 1 else ss)"

definition sigdelset :: "int \<Rightarrow> k_sigset_t \<Rightarrow> k_sigset_t" where
  "sigdelset sig ss = (if 0 < sig \<and> sig \<le> SIG_MAX then ss AND NOT (push_bit (nat (sig - 1) mod 64) 1) else ss)"

definition sigismember :: "k_sigset_t \<Rightarrow> int \<Rightarrow> bool" where
  "sigismember ss sig \<longleftrightarrow> 0 < sig \<and> sig \<le> SIG_MAX \<and> drop_bit (nat (sig - 1) mod 64) ss AND 1 \<noteq> 0"

record k_siginfo_t =
  si_signo :: int
  si_code :: int
  si_errno :: int
  si_addr :: u64
  si_uid :: int
  si_pid :: int
  si_value :: u64

definition siginfo_zero :: k_siginfo_t where
  "siginfo_zero = \<lparr>si_signo = 0, si_code = 0, si_errno = 0, si_addr = 0, si_uid = 0, si_pid = 0, si_value = 0\<rparr>"

record k_sigaction_t =
  sa_handler :: u64
  sa_sigaction :: u64
  sa_mask :: k_sigset_t
  sa_flags :: u32

record signal_struct_t =
  sg_actions :: "nat \<Rightarrow> k_sigaction_t"
  sg_blocked :: k_sigset_t
  sg_pending :: k_sigset_t
  sg_shared_pending :: k_sigset_t
  sg_queues :: "nat \<Rightarrow> k_siginfo_t list"
  sg_flags :: u64

record process_context_t =
  cx_rsp :: u64
  cx_rip :: u64
  cx_rdi :: u64
  cx_rsi :: u64
  cx_rdx :: u64
  cx_others :: "nat \<Rightarrow> u64"

record signal_frame =
  fr_uc_addr :: u64
  fr_uc_sigmask :: k_sigset_t
  fr_uc_mcontext :: process_context_t
  fr_info_addr :: u64
  fr_info :: k_siginfo_t
  fr_ret_addr :: u64

record sproc =
  sp_state :: proc_state
  sp_signal :: "signal_struct_t option"
  sp_context :: process_context_t
  sp_frames :: "signal_frame list"

type_synonym sprocs = "pid \<Rightarrow> sproc"

definition signal_names :: "string list" where
  "signal_names = [''HUP'', ''INT'', ''QUIT'', ''ILL'', ''TRAP'', ''ABRT'', ''BUS'', ''FPE'',
     ''KILL'', ''USR1'', ''SEGV'', ''USR2'', ''PIPE'', ''ALRM'', ''TERM'',
     ''STKFLT'', ''CHLD'', ''CONT'', ''STOP'', ''TSTP'', ''TTIN'', ''TTOU'',
     ''URG'', ''XCPU'', ''XFSZ'', ''VTALRM'', ''PROF'', ''WINCH'', ''IO'', ''PWR'', ''SYS'']"

definition signal_name :: "int \<Rightarrow> string" where
  "signal_name sig = (if 1 \<le> sig \<and> sig \<le> 31 then signal_names ! nat (sig - 1)
     else if SIGRTMIN \<le> sig \<and> sig \<le> SIGRTMAX then ''RT'' else ''UNKNOWN'')"

definition sigaction_zero :: k_sigaction_t where
  "sigaction_zero = \<lparr>sa_handler = 0, sa_sigaction = 0, sa_mask = 0, sa_flags = 0\<rparr>"

definition signal_create :: "bool \<Rightarrow> signal_struct_t option" where
  "signal_create alloc_ok = (if \<not> alloc_ok then None
     else Some \<lparr>sg_actions = (\<lambda>_. sigaction_zero), sg_blocked = 0, sg_pending = 0, sg_shared_pending = 0,
                sg_queues = (\<lambda>_. []), sg_flags = 0\<rparr>)"

text \<open>The infos whose queue entries \<open>signal_destroy\<close> frees, in order, before it frees the data itself.\<close>

definition signal_destroy :: "signal_struct_t option \<Rightarrow> k_siginfo_t list" where
  "signal_destroy g = (case g of None \<Rightarrow> [] | Some g \<Rightarrow> concat (map (sg_queues g) [0..<64]))"

text \<open>
  \<open>signal_init\<close> of a process whose data exists or could be allocated; the code does not test
  the allocation, so there is no result (\<open>None\<close>) when it failed.
\<close>

definition signal_init :: "bool \<Rightarrow> pid \<Rightarrow> sprocs \<Rightarrow> sprocs option" where
  "signal_init alloc_ok current s =
     (case (case sp_signal (s current) of None \<Rightarrow> signal_create alloc_ok | Some g \<Rightarrow> Some g) of
        None \<Rightarrow> None
      | Some g \<Rightarrow>
          let g1 = fold (\<lambda>i g. g\<lparr>sg_actions := (sg_actions g)(i := (sg_actions g i)\<lparr>sa_handler := 0, sa_flags := 0\<rparr>),
                                sg_queues := (sg_queues g)(i := [])\<rparr>) [0..<64] g;
              g2 = g1\<lparr>sg_actions := (sg_actions g1)(nat (SIGKILL - 1) := (sg_actions g1 (nat (SIGKILL - 1)))\<lparr>sa_handler := 0\<rparr>)\<rparr>;
              g3 = g2\<lparr>sg_actions := (sg_actions g2)(nat (SIGSTOP - 1) := (sg_actions g2 (nat (SIGSTOP - 1)))\<lparr>sa_handler := 0\<rparr>)\<rparr>
          in Some (s(current := (s current)\<lparr>sp_signal := Some (g3\<lparr>sg_blocked := 0, sg_pending := 0,
               sg_shared_pending := 0, sg_flags := 0\<rparr>)\<rparr>)))"

definition signal_blocked :: "signal_struct_t \<Rightarrow> int \<Rightarrow> bool" where
  "signal_blocked g signo = sigismember (sg_blocked g) signo"

definition signal_default :: "int \<Rightarrow> proc_state \<Rightarrow> proc_state" where
  "signal_default sig st =
     (if sig \<in> {SIGCHLD, SIGURG, SIGWINCH, SIGIO} then st
      else if sig \<in> {SIGSTOP, SIGTSTP, SIGTTIN, SIGTTOU} then PROCESS_STOPPED
      else if sig = SIGCONT then (if st = PROCESS_STOPPED then PROCESS_READY else st)
      else PROCESS_DEAD)"

definition signal_send :: "bool \<Rightarrow> pid \<Rightarrow> int \<Rightarrow> k_siginfo_t option \<Rightarrow> sprocs \<Rightarrow> int \<times> sprocs" where
  "signal_send alloc_ok target sig info s =
     (if sig < 1 \<or> sig > SIG_MAX then (- 1, s)
      else if target \<ge> SIG_PROCESS_MAX then (- 1, s)
      else
        let t = s target
        in if sp_state t = PROCESS_DEAD then (- 1, s)
           else if sig = SIGKILL then (0, s(target := t\<lparr>sp_state := PROCESS_DEAD\<rparr>))
           else case sp_signal t of
             None \<Rightarrow> (- 1, s)
           | Some g \<Rightarrow>
               if sig \<ge> SIGRTMIN \<and> \<not> alloc_ok then (- 1, s)
               else
                 let i = nat (sig - 1);
                     entry = (case info of None \<Rightarrow> siginfo_zero | Some x \<Rightarrow> x)\<lparr>si_signo := sig\<rparr>;
                     g1 = (if sig \<ge> SIGRTMIN
                           then (if length (sg_queues g i) < SIGQUEUE_MAX
                                 then g\<lparr>sg_queues := (sg_queues g)(i := sg_queues g i @ [entry]),
                                        sg_pending := sigaddset sig (sg_pending g)\<rparr>
                                 else g)
                           else g\<lparr>sg_pending := sigaddset sig (sg_pending g)\<rparr>);
                     st = (if sp_state t = PROCESS_SLEEPING \<or> sp_state t = PROCESS_WAITING then PROCESS_READY
                           else sp_state t)
                 in (0, s(target := t\<lparr>sp_signal := Some g1, sp_state := st\<rparr>)))"

definition signal_send_info :: "bool \<Rightarrow> pid \<Rightarrow> pid \<Rightarrow> int \<Rightarrow> int \<Rightarrow> u64 \<Rightarrow> sprocs \<Rightarrow> int \<times> sprocs" where
  "signal_send_info alloc_ok current target sig code addr s =
     signal_send alloc_ok target sig
       (Some (siginfo_zero\<lparr>si_signo := sig, si_code := code, si_addr := addr, si_pid := int current\<rparr>)) s"

definition signal_send_group :: "bool \<Rightarrow> pid \<Rightarrow> int \<Rightarrow> sprocs \<Rightarrow> int \<times> sprocs" where
  "signal_send_group alloc_ok target sig s = signal_send alloc_ok target sig None s"

text \<open>The frame: 208 bytes of user context, 40 bytes of siginfo and a return address of 0.\<close>

definition signal_setup_frame :: "pid \<Rightarrow> int \<Rightarrow> k_sigaction_t \<Rightarrow> signal_struct_t \<Rightarrow> sproc \<Rightarrow> sproc" where
  "signal_setup_frame current sig act g p =
     (let cx = sp_context p;
          rsp0 = cx_rsp cx AND NOT 15;
          uc = rsp0 - 208;
          inf = uc - 40;
          rsp = inf - 8;
          frame = \<lparr>fr_uc_addr = uc, fr_uc_sigmask = sg_blocked g, fr_uc_mcontext = cx, fr_info_addr = inf,
                   fr_info = siginfo_zero\<lparr>si_signo := sig, si_pid := int current\<rparr>, fr_ret_addr = rsp\<rparr>;
          cx1 = cx\<lparr>cx_rsp := rsp, cx_rip := sa_handler act, cx_rdi := of_int sig\<rparr>;
          cx2 = (if sa_flags act AND SA_SIGINFO \<noteq> 0 then cx1\<lparr>cx_rsi := inf, cx_rdx := uc\<rparr> else cx1)
      in p\<lparr>sp_context := cx2, sp_frames := sp_frames p @ [frame]\<rparr>)"

definition dequeue_rt :: "int \<Rightarrow> signal_struct_t \<Rightarrow> signal_struct_t" where
  "dequeue_rt sig g = (let i = nat (sig - 1) in
     if sig \<ge> SIGRTMIN then g\<lparr>sg_queues := (sg_queues g)(i := tl (sg_queues g i))\<rparr> else g)"

text \<open>Running a user's handler: the mask of the action and the signal itself are blocked first.\<close>

definition deliver_handler :: "pid \<Rightarrow> int \<Rightarrow> k_sigaction_t \<Rightarrow> signal_struct_t \<Rightarrow> sproc \<Rightarrow> sproc" where
  "deliver_handler current sig act g p =
     (let g1 = dequeue_rt sig (g\<lparr>sg_pending := sigdelset sig (sg_pending g)\<rparr>);
          b1 = sg_blocked g1 OR sa_mask act;
          b2 = (if sa_flags act AND SA_NODEFER = 0 then sigaddset sig b1 else b1);
          b3 = sigdelset SIGSTOP (sigdelset SIGKILL b2);
          g2 = g1\<lparr>sg_blocked := b3\<rparr>
      in signal_setup_frame current sig act g2 (p\<lparr>sp_signal := Some g2\<rparr>))"

text \<open>The loop of \<open>signal_do_pending\<close> from signal \<open>sig\<close> on.\<close>

function do_pending_loop :: "pid \<Rightarrow> int \<Rightarrow> signal_struct_t \<Rightarrow> sproc \<Rightarrow> sproc" where
  "do_pending_loop current sig g p =
     (if sig > SIG_MAX then p\<lparr>sp_signal := Some g\<rparr>
      else if \<not> sigismember (sg_pending g) sig then do_pending_loop current (sig + 1) g p
      else if signal_blocked g sig then do_pending_loop current (sig + 1) g p
      else
        let act = sg_actions g (nat (sig - 1))
        in if sa_handler act = 1
           then do_pending_loop current (sig + 1) (dequeue_rt sig (g\<lparr>sg_pending := sigdelset sig (sg_pending g)\<rparr>)) p
           else if sa_handler act = 0
           then do_pending_loop current (sig + 1) (dequeue_rt sig (g\<lparr>sg_pending := sigdelset sig (sg_pending g)\<rparr>))
                  (p\<lparr>sp_state := signal_default sig (sp_state p)\<rparr>)
           else deliver_handler current sig act g p)"
  by pat_completeness auto
termination
  by (relation "measure (\<lambda>(current, sig, g, p). nat (65 - sig))") auto

declare do_pending_loop.simps [simp del]

definition signal_do_pending :: "pid \<Rightarrow> sprocs \<Rightarrow> sprocs" where
  "signal_do_pending current s = (case sp_signal (s current) of None \<Rightarrow> s
     | Some g \<Rightarrow> s(current := do_pending_loop current 1 g (s current)))"

definition signal_sigaction ::
  "pid \<Rightarrow> int \<Rightarrow> k_sigaction_t option \<Rightarrow> k_sigaction_t option \<Rightarrow> sprocs \<Rightarrow> int \<times> sprocs \<times> k_sigaction_t option" where
  "signal_sigaction current sig act oldact s =
     (if sig < 1 \<or> sig > SIG_MAX then (- 1, s, oldact)
      else if sig = SIGKILL \<or> sig = SIGSTOP then (- 1, s, oldact)
      else case sp_signal (s current) of
        None \<Rightarrow> (- 1, s, oldact)
      | Some g \<Rightarrow>
          (0, (case act of None \<Rightarrow> s
               | Some a \<Rightarrow> s(current := (s current)\<lparr>sp_signal :=
                   Some (g\<lparr>sg_actions := (sg_actions g)(nat (sig - 1) := a)\<rparr>)\<rparr>)),
           map_option (\<lambda>_. sg_actions g (nat (sig - 1))) oldact))"

definition signal_sigprocmask ::
  "pid \<Rightarrow> int \<Rightarrow> k_sigset_t option \<Rightarrow> k_sigset_t option \<Rightarrow> sprocs \<Rightarrow> int \<times> sprocs \<times> k_sigset_t option" where
  "signal_sigprocmask current how ss oldset s = (case sp_signal (s current) of
       None \<Rightarrow> (- 1, s, oldset)
     | Some g \<Rightarrow>
         let old = map_option (\<lambda>_. sg_blocked g) oldset
         in case ss of
              None \<Rightarrow> (0, s, old)
            | Some m \<Rightarrow>
                if how \<notin> {0, 1, 2} then (- 1, s, old)
                else
                  let b = (if how = 0 then sg_blocked g OR m else if how = 1 then sg_blocked g AND NOT m else m)
                  in (0, s(current := (s current)\<lparr>sp_signal :=
                          Some (g\<lparr>sg_blocked := sigdelset SIGSTOP (sigdelset SIGKILL b)\<rparr>)\<rparr>), old))"

definition signal_sigpending :: "pid \<Rightarrow> k_sigset_t option \<Rightarrow> sprocs \<Rightarrow> int \<times> k_sigset_t option" where
  "signal_sigpending current ss s = (case (sp_signal (s current), ss) of
     (Some g, Some _) \<Rightarrow> (0, Some (sg_pending g)) | _ \<Rightarrow> (- 1, ss))"

text \<open>\<open>env\<close> is what happens until the process runs again after its yield.\<close>

definition signal_sigsuspend :: "(sprocs \<Rightarrow> sprocs) \<Rightarrow> pid \<Rightarrow> k_sigset_t option \<Rightarrow> sprocs \<Rightarrow> int \<times> sprocs" where
  "signal_sigsuspend env current msk s = (case (sp_signal (s current), msk) of
       (Some g, Some m) \<Rightarrow>
         let s1 = s(current := (s current)\<lparr>
                 sp_signal := Some (g\<lparr>sg_blocked := sigdelset SIGSTOP (sigdelset SIGKILL m)\<rparr>),
                 sp_state := PROCESS_SLEEPING\<rparr>);
             s2 = env s1
         in (0, s2(current := (s2 current)\<lparr>sp_signal :=
                  map_option (\<lambda>g'. g'\<lparr>sg_blocked := sg_blocked g\<rparr>) (sp_signal (s2 current))\<rparr>))
     | _ \<Rightarrow> (- 1, s))"

section \<open>Signal sets\<close>

lemma sigismember_bit: "sigismember ss sig \<longleftrightarrow> 0 < sig \<and> sig \<le> SIG_MAX \<and> bit ss (nat (sig - 1))"
  by (auto simp: sigismember_def and_one_eq bit_iff_odd_drop_bit odd_iff_mod_2_eq_one)

lemma sig_index: "0 < sig \<Longrightarrow> 0 < t \<Longrightarrow> nat (sig - 1) = nat (t - 1) \<longleftrightarrow> sig = t" for sig t :: int
  by auto

lemma sigaddset_member:
  "sigismember (sigaddset sig ss) t \<longleftrightarrow> (t = sig \<and> 0 < t \<and> t \<le> SIG_MAX) \<or> sigismember ss t"
proof (cases "0 < sig \<and> sig \<le> 64 \<and> 0 < t \<and> t \<le> 64")
  case True
  then have "nat (sig - 1) mod 64 = nat (sig - 1)" "nat (t - 1) < 64" by auto
  with True sig_index [of sig t] show ?thesis
    by (auto simp: sigismember_bit sigaddset_def bit_simps)
next
  case False
  then show ?thesis by (auto simp: sigismember_bit sigaddset_def bit_simps)
qed

lemma sigdelset_member:
  "sigismember (sigdelset sig ss) t \<longleftrightarrow> t \<noteq> sig \<and> sigismember ss t"
proof (cases "0 < sig \<and> sig \<le> 64 \<and> 0 < t \<and> t \<le> 64")
  case True
  then have "nat (sig - 1) mod 64 = nat (sig - 1)" "nat (t - 1) < 64" by auto
  with True sig_index [of sig t] show ?thesis
    by (auto simp: sigismember_bit sigdelset_def bit_simps)
next
  case False
  then show ?thesis by (auto simp: sigismember_bit sigdelset_def bit_simps)
qed

lemma sigismember_or: "sigismember (s OR t) sig \<longleftrightarrow> sigismember s sig \<or> sigismember t sig"
  by (auto simp: sigismember_bit bit_simps)

lemmas sigset_simps = sigaddset_member sigdelset_member sigismember_or

section \<open>What can be blocked and caught\<close>

definition sig_ok :: "signal_struct_t \<Rightarrow> bool" where
  "sig_ok g \<longleftrightarrow> \<not> sigismember (sg_blocked g) SIGKILL \<and> \<not> sigismember (sg_blocked g) SIGSTOP \<and>
     sa_handler (sg_actions g (nat (SIGKILL - 1))) = 0 \<and> sa_handler (sg_actions g (nat (SIGSTOP - 1))) = 0"

definition sig_inv :: "sprocs \<Rightarrow> bool" where
  "sig_inv s \<longleftrightarrow> (\<forall>p. case sp_signal (s p) of None \<Rightarrow> True | Some g \<Rightarrow> sig_ok g)"

lemma sig_invD: "sig_inv s \<Longrightarrow> sp_signal (s p) = Some g \<Longrightarrow> sig_ok g"
  by (auto simp: sig_inv_def split: option.splits dest: spec [of _ p])

lemma sig_inv_upd:
  "sig_inv s \<Longrightarrow> (\<And>g. sp_signal q = Some g \<Longrightarrow> sig_ok g) \<Longrightarrow> sig_inv (s(p := q))"
  by (auto simp: sig_inv_def split: option.splits)

lemma dequeue_rt_sel [simp]:
  "sg_actions (dequeue_rt sig g) = sg_actions g" "sg_blocked (dequeue_rt sig g) = sg_blocked g"
  "sg_pending (dequeue_rt sig g) = sg_pending g"
  by (simp_all add: dequeue_rt_def Let_def)

lemma sig_ok_pending [simp]:
  "sig_ok (dequeue_rt sig (g\<lparr>sg_pending := x\<rparr>)) = sig_ok g" "sig_ok (g\<lparr>sg_pending := x\<rparr>) = sig_ok g"
  "sig_ok (g\<lparr>sg_queues := y\<rparr>) = sig_ok g"
  by (simp_all add: sig_ok_def)

lemma deliver_handler_ok:
  "sig_ok g \<Longrightarrow> sp_signal (deliver_handler current sig act g p) = Some g' \<Longrightarrow> sig_ok g'"
  by (auto simp: deliver_handler_def signal_setup_frame_def Let_def sig_ok_def sigset_simps)

lemma do_pending_loop_ok:
  "sig_ok g \<Longrightarrow> sp_signal (do_pending_loop current sig g p) = Some g' \<Longrightarrow> sig_ok g'"
proof (induction current sig g p rule: do_pending_loop.induct)
  case (1 current sig g p)
  show ?case
  proof (cases "sig > 64 \<or> \<not> sigismember (sg_pending g) sig \<or> signal_blocked g sig")
    case True
    with 1 show ?thesis
      by (simp add: do_pending_loop.simps [of current sig g p] split: if_splits)
  next
    case False
    with 1 show ?thesis
      by (simp add: do_pending_loop.simps [of current sig g p] Let_def deliver_handler_ok split: if_splits)
  qed
qed

lemma signal_send_ok: "sig_inv s \<Longrightarrow> sig_inv (snd (signal_send a target sig info s))"
  using sig_invD [of s target]
  by (auto simp: signal_send_def Let_def split: option.splits intro!: sig_inv_upd)

lemma sig_ok_action:
  assumes "sig_ok g" and "1 \<le> sig" and "sig \<noteq> SIGKILL" and "sig \<noteq> SIGSTOP"
  shows "sig_ok (g\<lparr>sg_actions := (sg_actions g)(nat (sig - 1) := a)\<rparr>)"
proof -
  have "nat (sig - 1) \<noteq> nat (9 - 1)" "nat (sig - 1) \<noteq> nat (19 - 1)" using assms(2-4) by arith+
  then show ?thesis using assms(1) by (simp add: sig_ok_def)
qed

lemma signal_sigaction_ok:
  assumes "sig_inv s"
  shows "sig_inv (fst (snd (signal_sigaction p sig act old s)))"
proof (cases "(sig < 1 \<or> sig > 64 \<or> sig = 9 \<or> sig = 19) \<or> sp_signal (s p) = None \<or> act = None")
  case True
  then show ?thesis using assms by (auto simp: signal_sigaction_def split: option.splits)
next
  case False
  then obtain g a where g: "sp_signal (s p) = Some g" "act = Some a" by auto
  from False have "1 \<le> sig" "sig \<noteq> 9" "sig \<noteq> 19" by auto
  from sig_ok_action [OF sig_invD [OF assms g(1)] this, of a] False g show ?thesis
    by (auto simp: signal_sigaction_def intro!: sig_inv_upd assms)
qed

lemma sig_ok_blocked:
  "sig_ok g \<Longrightarrow> sig_ok (g\<lparr>sg_blocked := sigdelset SIGSTOP (sigdelset SIGKILL b)\<rparr>)"
  by (simp add: sig_ok_def sigdelset_member)

lemma signal_sigprocmask_ok:
  assumes "sig_inv s"
  shows "sig_inv (fst (snd (signal_sigprocmask p how ss old s)))"
proof (cases "sp_signal (s p)")
  case None
  then show ?thesis using assms by (simp add: signal_sigprocmask_def)
next
  case (Some g)
  have "sig_inv (s(p := (s p)\<lparr>sp_signal := Some (g\<lparr>sg_blocked := sigdelset SIGSTOP (sigdelset SIGKILL b)\<rparr>)\<rparr>))" for b
    by (rule sig_inv_upd [OF assms]) (use sig_ok_blocked sig_invD [OF assms Some] in auto)
  note upd = this
  show ?thesis
  proof (cases ss)
    case None
    then show ?thesis using assms by (simp add: signal_sigprocmask_def Some)
  next
    case m: (Some m)
    show ?thesis
    proof (cases "how \<in> {0, 1, 2}")
      case True
      then show ?thesis unfolding signal_sigprocmask_def Some m Let_def option.case
        by (simp only: not_True_eq_False if_False fst_conv snd_conv upd)
    next
      case False
      then show ?thesis unfolding signal_sigprocmask_def Some m Let_def option.case
        by (simp only: not_False_eq_True if_True fst_conv snd_conv assms)
    qed
  qed
qed

lemma signal_do_pending_ok:
  assumes "sig_inv s"
  shows "sig_inv (signal_do_pending p s)"
proof (cases "sp_signal (s p)")
  case None
  then show ?thesis using assms by (simp add: signal_do_pending_def)
next
  case (Some g)
  have "sig_inv (s(p := do_pending_loop p 1 g (s p)))"
    by (rule sig_inv_upd [OF assms]) (rule do_pending_loop_ok [OF sig_invD [OF assms Some]])
  then show ?thesis by (simp only: signal_do_pending_def Some option.case)
qed

lemma signal_sigsuspend_ok:
  assumes "\<And>t. sig_inv t \<Longrightarrow> sig_inv (env t)" and "sig_inv s"
  shows "sig_inv (snd (signal_sigsuspend env p msk s))"
proof (cases "sp_signal (s p)")
  case None
  then show ?thesis using assms(2) by (simp add: signal_sigsuspend_def)
next
  case (Some g)
  show ?thesis
  proof (cases msk)
    case None
    then show ?thesis using assms(2) Some by (simp add: signal_sigsuspend_def)
  next
    case m: (Some m)
    let ?s1 = "s(p := (s p)\<lparr>sp_signal := Some (g\<lparr>sg_blocked := sigdelset SIGSTOP (sigdelset SIGKILL m)\<rparr>),
                 sp_state := PROCESS_SLEEPING\<rparr>)"
    have g: "sig_ok g" using sig_invD [OF assms(2) Some] .
    then have "sig_inv ?s1"
      by (intro sig_inv_upd assms(2)) (auto simp: sig_ok_def sigset_simps)
    then have e: "sig_inv (env ?s1)" by (rule assms(1))
    show ?thesis using Some m g sig_invD [OF e, of p]
      by (auto simp: signal_sigsuspend_def Let_def intro!: sig_inv_upd e) (auto simp: sig_ok_def)
  qed
qed

inductive sig_step :: "sprocs \<Rightarrow> sprocs \<Rightarrow> bool" where
  send: "sig_step s (snd (signal_send a target sig info s))"
| action: "sig_step s (fst (snd (signal_sigaction p sig act old s)))"
| procmask: "sig_step s (fst (snd (signal_sigprocmask p how ss old s)))"
| pending: "sig_step s (signal_do_pending p s)"

inductive_cases sig_step_cases: "sig_step s t"

lemma sig_steps_inv: "sig_step\<^sup>*\<^sup>* s t \<Longrightarrow> sig_inv s \<Longrightarrow> sig_inv t"
proof (induction rule: rtranclp_induct)
  case (step t u)
  then show ?case
    by (auto elim!: sig_step_cases intro: signal_send_ok signal_sigaction_ok signal_sigprocmask_ok
        signal_do_pending_ok)
qed

section \<open>Delivery\<close>

lemma do_pending_loop_deliver:
  assumes "sig0 \<le> sig" and "\<forall>t. sig0 \<le> t \<and> t < sig \<longrightarrow> \<not> sigismember (sg_pending g) t"
    and "sigismember (sg_pending g) sig" and "\<not> sigismember (sg_blocked g) sig"
    and "sa_handler (sg_actions g (nat (sig - 1))) \<notin> {0, 1}"
  shows "do_pending_loop current sig0 g p = deliver_handler current sig (sg_actions g (nat (sig - 1))) g p"
  using assms
proof (induction current sig0 g p rule: do_pending_loop.induct)
  case (1 current sig0 g p)
  show ?case
  proof (cases "sig0 = sig")
    case True
    moreover have "sig \<le> 64" using "1.prems"(3) by (simp add: sigismember_def)
    ultimately show ?thesis using "1.prems"
      by (simp add: do_pending_loop.simps [of current sig] signal_blocked_def Let_def)
  next
    case False
    then have "sig0 < sig" "sig \<le> 64" "\<not> sigismember (sg_pending g) sig0"
      using "1.prems" by (auto simp: sigismember_def)
    with 1 show ?thesis by (simp add: do_pending_loop.simps [of current sig0])
  qed
qed

lemma deliver_handler_sel:
  "sp_signal (deliver_handler current sig act g p) = Some (dequeue_rt sig (g\<lparr>sg_pending := sigdelset sig (sg_pending g)\<rparr>)
     \<lparr>sg_blocked := sigdelset SIGSTOP (sigdelset SIGKILL
        (if sa_flags act AND SA_NODEFER = 0 then sigaddset sig (sg_blocked g OR sa_mask act)
         else sg_blocked g OR sa_mask act))\<rparr>)"
  "length (sp_frames (deliver_handler current sig act g p)) = Suc (length (sp_frames p))"
  "fr_uc_sigmask (last (sp_frames (deliver_handler current sig act g p))) = sigdelset SIGSTOP (sigdelset SIGKILL
        (if sa_flags act AND SA_NODEFER = 0 then sigaddset sig (sg_blocked g OR sa_mask act)
         else sg_blocked g OR sa_mask act))"
  "cx_rip (sp_context (deliver_handler current sig act g p)) = sa_handler act"
  "cx_rdi (sp_context (deliver_handler current sig act g p)) = of_int sig"
  "si_value (fr_info (last (sp_frames (deliver_handler current sig act g p)))) = 0"
  by (simp_all add: deliver_handler_def signal_setup_frame_def Let_def siginfo_zero_def)

lemma do_pending_loop_queue_kept:
  "\<not> sigismember (sg_pending g) t \<Longrightarrow>
   case sp_signal (do_pending_loop current sig g p) of None \<Rightarrow> False
   | Some g' \<Rightarrow> \<not> sigismember (sg_pending g') t \<and> sg_queues g' (nat (t - 1)) = sg_queues g (nat (t - 1)) \<or> t \<le> 0"
proof (induction current sig g p rule: do_pending_loop.induct)
  case (1 current sig g p)
  have other: "sg_queues (dequeue_rt sig (g\<lparr>sg_pending := x\<rparr>)) (nat (t - 1)) = sg_queues g (nat (t - 1)) \<or> t \<le> 0"
    if "sigismember (sg_pending g) sig" for x
  proof -
    have "t \<noteq> sig" using that "1.prems" by auto
    then have "nat (t - 1) \<noteq> nat (sig - 1) \<or> t \<le> 0" using sig_index [of t sig] that by (auto simp: sigismember_def)
    then show ?thesis by (auto simp: dequeue_rt_def Let_def)
  qed
  show ?case
  proof (cases "sig > 64 \<or> \<not> sigismember (sg_pending g) sig \<or> signal_blocked g sig")
    case True
    with 1 show ?thesis by (auto simp: do_pending_loop.simps [of current sig g p])
  next
    case False
    let ?g = "dequeue_rt sig (g\<lparr>sg_pending := sigdelset sig (sg_pending g)\<rparr>)"
    have q: "sg_queues ?g (nat (t - 1)) = sg_queues g (nat (t - 1)) \<or> t \<le> 0" using other False by auto
    have n: "\<not> sigismember (sg_pending ?g) t" using "1.prems" by (simp add: sigdelset_member)
    consider "sa_handler (sg_actions g (nat (sig - 1))) = 1" | "sa_handler (sg_actions g (nat (sig - 1))) = 0"
      | "sa_handler (sg_actions g (nat (sig - 1))) \<notin> {0, 1}" by auto
    then show ?thesis
    proof cases
      case 1
      then have e: "do_pending_loop current sig g p = do_pending_loop current (sig + 1) ?g p"
        using False by (simp add: do_pending_loop.simps [of current sig g p])
      from "1.IH"(3) [OF _ _ _ refl 1 n] False q show ?thesis
        unfolding e by (auto split: option.splits)
    next
      case 2
      then have e: "do_pending_loop current sig g p =
          do_pending_loop current (sig + 1) ?g (p\<lparr>sp_state := signal_default sig (sp_state p)\<rparr>)"
        using False by (simp add: do_pending_loop.simps [of current sig g p])
      have "sa_handler (sg_actions g (nat (sig - 1))) \<noteq> 1" using 2 by simp
      from "1.IH"(4) [OF _ _ _ refl this 2 n] False q show ?thesis
        unfolding e by (auto split: option.splits)
    next
      case 3
      then have e: "do_pending_loop current sig g p = deliver_handler current sig (sg_actions g (nat (sig - 1))) g p"
        using False by (simp add: do_pending_loop.simps [of current sig g p] Let_def)
      from n q show ?thesis unfolding e by (simp add: deliver_handler_sel)
    qed
  qed
qed

section \<open>Properties\<close>

definition sproc0 :: sproc where
  "sproc0 = \<lparr>sp_state = PROCESS_RUNNING, sp_signal = signal_create True,
     sp_context = \<lparr>cx_rsp = 0x8000, cx_rip = 0, cx_rdi = 0, cx_rsi = 0, cx_rdx = 0, cx_others = (\<lambda>_. 0)\<rparr>,
     sp_frames = []\<rparr>"

definition sprocs0 :: sprocs where
  "sprocs0 = (\<lambda>_. sproc0)"

lemma sprocs0_inv: "sig_inv sprocs0"
  by (simp add: sig_inv_def sprocs0_def sproc0_def signal_create_def sig_ok_def sigaction_zero_def sigismember_def)

text \<open>
  C13. \<open>SIGKILL\<close> and \<open>SIGSTOP\<close> can neither be blocked nor caught: after any sequence of sends,
  changes of actions and masks and deliveries by any processes, and after a \<open>sigsuspend\<close> during
  which any of these happen, no process has them in its mask or a handler for them.
\<close>

theorem kill_and_stop_uncatchable:
  assumes "sig_inv s" and "sig_step\<^sup>*\<^sup>* s t" and "\<And>u. sig_step\<^sup>*\<^sup>* u (env u)"
  shows "sig_inv t \<and> sig_inv (snd (signal_sigsuspend env p msk t))"
  using sig_steps_inv [OF assms(2,1)] signal_sigsuspend_ok [of env] sig_steps_inv [OF assms(3)] by blast

theorem kill_and_stop_uncatchable_witness:
  "let t = fst (snd (signal_sigprocmask 3 2 (Some (- 1)) None sprocs0))
   in sig_inv t \<and> sig_inv (snd (signal_sigsuspend (\<lambda>u. snd (signal_send True 3 2 None u)) 3 (Some (- 1)) t))"
proof -
  have "sig_step\<^sup>*\<^sup>* u (snd (signal_send True 3 2 None u))" for u using sig_step.send by blast
  from kill_and_stop_uncatchable [OF sprocs0_inv _ this] sig_step.procmask [of sprocs0 3 2 "Some (- 1)" None]
  show ?thesis by (auto simp: Let_def)
qed

text \<open>
  A caught real-time signal is delivered once although several are queued: delivering the
  first of the queued infos clears the pending bit, so that the infos behind it are
  not delivered by any later \<open>signal_do_pending\<close> until the signal is sent again, and the
  value sent with the one that is delivered is not in the frame the handler sees.
\<close>

theorem rt_signals_stuck_in_queue:
  assumes "sp_signal (s p) = Some g" and "SIGRTMIN \<le> sig"
    and "\<forall>t. 1 \<le> t \<and> t < sig \<longrightarrow> \<not> sigismember (sg_pending g) t"
    and "sigismember (sg_pending g) sig" and "\<not> sigismember (sg_blocked g) sig"
    and "sa_handler (sg_actions g (nat (sig - 1))) \<notin> {0, 1}"
    and "sg_queues g (nat (sig - 1)) = info # infos"
  shows "case sp_signal (signal_do_pending p (signal_do_pending p s) p) of None \<Rightarrow> False
    | Some g2 \<Rightarrow> sg_queues g2 (nat (sig - 1)) = infos \<and> \<not> sigismember (sg_pending g2) sig \<and>
        si_value (fr_info (last (sp_frames (signal_do_pending p s p)))) = 0"
proof -
  let ?s = "signal_do_pending p s"
  have "?s p = deliver_handler p sig (sg_actions g (nat (sig - 1))) g (s p)"
    using do_pending_loop_deliver [OF _ _ assms(4-6), of 1 p "s p"] assms(1,2,3) by (simp add: signal_do_pending_def)
  note d = this deliver_handler_sel [of p sig _ g "s p"]
  obtain g1 where g1: "sp_signal (?s p) = Some g1" "\<not> sigismember (sg_pending g1) sig"
    "sg_queues g1 (nat (sig - 1)) = infos"
    using assms(2,7) by (simp add: d dequeue_rt_def Let_def sigdelset_member)
  from do_pending_loop_queue_kept [OF g1(2), of p 1 "?s p"] g1 assms(2) show ?thesis
    by (auto simp: signal_do_pending_def [of p ?s] d(7) d(1) split: option.splits)
qed

text \<open>A process that catches signal 34 and has two of them queued, with values 5 and 6.\<close>

definition sprocs34 :: sprocs where
  "sprocs34 = (let a = \<lparr>sa_handler = 0x400000, sa_sigaction = 0, sa_mask = 0, sa_flags = 0\<rparr>;
     s1 = fst (snd (signal_sigaction 3 34 (Some a) None sprocs0));
     s2 = snd (signal_send True 3 34 (Some (siginfo_zero\<lparr>si_value := 5\<rparr>)) s1)
   in snd (signal_send True 3 34 (Some (siginfo_zero\<lparr>si_value := 6\<rparr>)) s2))"

lemma sprocs34_signal:
  "\<exists>g. sp_signal (sprocs34 3) = Some g \<and> sg_pending g = sigaddset 34 (sigaddset 34 0) \<and> sg_blocked g = 0 \<and>
     sg_actions g 33 = \<lparr>sa_handler = 0x400000, sa_sigaction = 0, sa_mask = 0, sa_flags = 0\<rparr> \<and>
     sg_queues g 33 = [siginfo_zero\<lparr>si_value := 5, si_signo := 34\<rparr>, siginfo_zero\<lparr>si_value := 6, si_signo := 34\<rparr>]"
  by (simp add: sprocs34_def sprocs0_def sproc0_def signal_create_def signal_sigaction_def signal_send_def Let_def)

lemma sigismember_0 [simp]: "\<not> sigismember 0 t"
  by (simp add: sigismember_def)

theorem rt_signals_stuck_in_queue_witness:
  "case sp_signal (signal_do_pending 3 (signal_do_pending 3 sprocs34) 3) of None \<Rightarrow> False
    | Some g2 \<Rightarrow> sg_queues g2 33 = [siginfo_zero\<lparr>si_value := 6, si_signo := 34\<rparr>] \<and> \<not> sigismember (sg_pending g2) 34 \<and>
        si_value (fr_info (last (sp_frames (signal_do_pending 3 sprocs34 3)))) = 0"
proof -
  obtain g where g: "sp_signal (sprocs34 3) = Some g" "sg_pending g = sigaddset 34 (sigaddset 34 0)" "sg_blocked g = 0"
    "sg_actions g 33 = \<lparr>sa_handler = 0x400000, sa_sigaction = 0, sa_mask = 0, sa_flags = 0\<rparr>"
    "sg_queues g 33 = [siginfo_zero\<lparr>si_value := 5, si_signo := 34\<rparr>, siginfo_zero\<lparr>si_value := 6, si_signo := 34\<rparr>]"
    using sprocs34_signal by blast
  from rt_signals_stuck_in_queue [of sprocs34 3 g 34 "siginfo_zero\<lparr>si_value := 5, si_signo := 34\<rparr>"
      "[siginfo_zero\<lparr>si_value := 6, si_signo := 34\<rparr>]"] g
  show ?thesis by (simp add: sigaddset_member cong: option.case_cong)
qed

text \<open>
  \<open>signal_do_pending\<close> starts the handler of the lowest caught signal that is pending and
  not blocked when no lower one is pending: exactly one frame is pushed, the context continues at the handler with the
  signal in \<open>rdi\<close>, the pending bit is cleared and the signal is blocked. The mask kept in
  the frame for the return is the new mask, not the one of before: it has the signal itself,
  so that the signal is still blocked when the handler has returned.
\<close>

theorem signal_do_pending_delivers:
  assumes "sp_signal (s p) = Some g"
    and "\<forall>t. 1 \<le> t \<and> t < sig \<longrightarrow> \<not> sigismember (sg_pending g) t"
    and "sigismember (sg_pending g) sig" and "\<not> sigismember (sg_blocked g) sig"
    and "sa_handler (sg_actions g (nat (sig - 1))) \<notin> {0, 1}"
    and "sa_flags (sg_actions g (nat (sig - 1))) AND SA_NODEFER = 0" and "sig \<notin> {SIGKILL, SIGSTOP}"
  shows "let q = signal_do_pending p s p in
    length (sp_frames q) = Suc (length (sp_frames (s p))) \<and>
    cx_rip (sp_context q) = sa_handler (sg_actions g (nat (sig - 1))) \<and> cx_rdi (sp_context q) = of_int sig \<and>
    (case sp_signal q of None \<Rightarrow> False
     | Some g' \<Rightarrow> sg_pending g' = sigdelset sig (sg_pending g) \<and> sigismember (sg_blocked g') sig \<and>
         fr_uc_sigmask (last (sp_frames q)) = sg_blocked g') \<and>
    sigismember (fr_uc_sigmask (last (sp_frames q))) sig"
proof -
  have "1 \<le> sig" "sig \<le> 64" using assms(3) by (auto simp: sigismember_def)
  then have "signal_do_pending p s p = deliver_handler p sig (sg_actions g (nat (sig - 1))) g (s p)"
    using do_pending_loop_deliver [OF _ _ assms(3-5), of 1 p "s p"] assms(1,2) by (simp add: signal_do_pending_def)
  then show ?thesis using assms(6,7) \<open>1 \<le> sig\<close> \<open>sig \<le> 64\<close>
    by (simp add: deliver_handler_sel Let_def sigset_simps)
qed

theorem signal_do_pending_delivers_witness:
  "sigismember (fr_uc_sigmask (last (sp_frames (signal_do_pending 3 sprocs34 3)))) 34 \<and>
   cx_rip (sp_context (signal_do_pending 3 sprocs34 3)) = 0x400000"
proof -
  obtain g where g: "sp_signal (sprocs34 3) = Some g" "sg_pending g = sigaddset 34 (sigaddset 34 0)" "sg_blocked g = 0"
    "sg_actions g 33 = \<lparr>sa_handler = 0x400000, sa_sigaction = 0, sa_mask = 0, sa_flags = 0\<rparr>"
    using sprocs34_signal by blast
  from signal_do_pending_delivers [of sprocs34 3 g 34] g
  show ?thesis by (simp add: sigaddset_member Let_def)
qed

end
