(* ===== verification/RbTreeInv.thy ===== *)
theory RbTreeInv
  imports RbTree
begin

text \<open>
  The correctness of the red-black trees of the theory \<open>RbTree\<close>. A heap is read as a tree
  of coloured nodes under a path of frames (a zipper): \<open>focus T k t\<close> says that the tree object
  \<open>T\<close> holds the subtree \<open>t\<close> in the hole of the path \<open>k\<close>. The pointer operations are
  lemmas about \<open>focus\<close>; the loops are proved over it, with the red-black invariant split into a
  part of the hole (\<open>rbt\<close>) and a part of the path (\<open>kok\<close>).
\<close>

section \<open>Trees and paths\<close>

datatype ctree = L | N rb_color ctree nat ctree

fun rt :: "ctree \<Rightarrow> nat" where
  "rt L = nil"
| "rt (N c l a r) = a"

fun ids :: "ctree \<Rightarrow> nat list" where
  "ids L = []"
| "ids (N c l a r) = ids l @ a # ids r"

text \<open>The node with the subtree \<open>s\<close> on side \<open>d\<close>, and \<open>u\<close> on the other.\<close>

fun nd :: "dir \<Rightarrow> rb_color \<Rightarrow> ctree \<Rightarrow> nat \<Rightarrow> ctree \<Rightarrow> ctree" where
  "nd DL c s a u = N c s a u"
| "nd DR c s a u = N c u a s"

text \<open>A frame: the hole is the child on side \<open>d\<close> of the node \<open>a\<close>, whose other child is given.\<close>

datatype frame = F dir rb_color nat ctree

fun plug :: "frame list \<Rightarrow> ctree \<Rightarrow> ctree" where
  "plug [] t = t"
| "plug (F d c a s # k) t = plug k (nd d c t a s)"

fun up :: "frame list \<Rightarrow> nat" where
  "up [] = nil"
| "up (F d c a s # k) = a"

fun kids :: "frame list \<Rightarrow> nat list" where
  "kids [] = []"
| "kids (F d c a s # k) = a # ids s @ kids k"

fun before :: "frame list \<Rightarrow> nat list" where
  "before [] = []"
| "before (F DL c a s # k) = before k"
| "before (F DR c a s # k) = before k @ ids s @ [a]"

fun after :: "frame list \<Rightarrow> nat list" where
  "after [] = []"
| "after (F DL c a s # k) = a # ids s @ after k"
| "after (F DR c a s # k) = after k"

lemma opp_opp [simp]: "opp (opp d) = d"
  by (cases d) auto

lemma opp_neq [simp]: "opp d \<noteq> d" "d \<noteq> opp d"
  by (cases d; simp)+

lemma dir_neq: "d \<noteq> d' \<longleftrightarrow> d = opp d'"
  by (cases d; cases d') auto

lemma rt_nd [simp]: "rt (nd d c s a u) = a"
  by (cases d) auto

lemma nd_opp: "nd (opp d) c s a u = nd d c u a s"
  by (cases d) auto

lemma nd_not_L [simp]: "nd d c s a u \<noteq> L" "L \<noteq> nd d c s a u"
  by (cases d; simp)+

lemma set_ids_nd [simp]: "set (ids (nd d c s a u)) = insert a (set (ids s) \<union> set (ids u))"
  by (cases d) auto

lemma distinct_ids_nd [simp]:
  "distinct (ids (nd d c s a u)) \<longleftrightarrow> distinct (ids s) \<and> distinct (ids u) \<and> a \<notin> set (ids s) \<and> a \<notin> set (ids u) \<and>
     set (ids s) \<inter> set (ids u) = {}"
  by (cases d) auto

lemma ctree_as_nd: "\<exists>s u. N c l a r = nd d c s a u"
  by (cases d) auto

lemma not_L_nd: "t \<noteq> L \<Longrightarrow> \<exists>c s a u. t = nd d c s a u"
  by (cases t) (use ctree_as_nd in fastforce)+

lemma ids_plug: "ids (plug k t) = before k @ ids t @ after k"
proof (induction k arbitrary: t)
  case (Cons f k)
  obtain d c a s where "f = F d c a s" by (cases f)
  then show ?case using Cons by (cases d) auto
qed simp

lemma plug_append: "plug (k @ k') t = plug k' (plug k t)"
proof (induction k arbitrary: t)
  case (Cons f k)
  then show ?case by (cases f) auto
qed simp

lemma kids_append: "set (kids (k @ k')) = set (kids k) \<union> set (kids k')"
proof (induction k)
  case (Cons f k)
  then show ?case by (cases f) auto
qed simp

lemma before_append: "before (k @ k') = before k' @ before k"
proof (induction k)
  case (Cons f k)
  obtain d c a s where "f = F d c a s" by (cases f)
  then show ?case using Cons by (cases d) auto
qed simp

lemma after_append: "after (k @ k') = after k @ after k'"
proof (induction k)
  case (Cons f k)
  obtain d c a s where "f = F d c a s" by (cases f)
  then show ?case using Cons by (cases d) auto
qed simp

section \<open>The heap read as a tree\<close>

fun repr :: "(nat \<Rightarrow> rb_node_t) \<Rightarrow> nat \<Rightarrow> ctree \<Rightarrow> bool" where
  "repr h p L \<longleftrightarrow> True"
| "repr h p (N c l a r) \<longleftrightarrow> a \<noteq> nil \<and> rb_parent (h a) = p \<and> rb_left (h a) = rt l \<and> rb_right (h a) = rt r \<and>
     rb_color (h a) = c \<and> repr h a l \<and> repr h a r"

fun path :: "(nat \<Rightarrow> rb_node_t) \<Rightarrow> nat \<Rightarrow> frame list \<Rightarrow> nat \<Rightarrow> bool" where
  "path h root [] x \<longleftrightarrow> root = x"
| "path h root (F d c a s # k) x \<longleftrightarrow> a \<noteq> nil \<and> rb_parent (h a) = up k \<and> child d (h a) = x \<and>
     child (opp d) (h a) = rt s \<and> rb_color (h a) = c \<and> repr h a s \<and> path h root k a"

definition focus :: "rb_tree_t \<Rightarrow> frame list \<Rightarrow> ctree \<Rightarrow> bool" where
  "focus T k t \<longleftrightarrow> repr (t_heap T) (up k) t \<and> path (t_heap T) (t_root T) k (rt t) \<and> distinct (ids t @ kids k) \<and>
     rb_color (t_heap T nil) = Black \<and> rb_left (t_heap T nil) = nil \<and> rb_right (t_heap T nil) = nil"

lemma repr_nd [simp]:
  "repr h p (nd d c s a u) \<longleftrightarrow> a \<noteq> nil \<and> rb_parent (h a) = p \<and> child d (h a) = rt s \<and> child (opp d) (h a) = rt u \<and>
     rb_color (h a) = c \<and> repr h a s \<and> repr h a u"
  by (cases d) auto

lemma repr_not_nil: "repr h p t \<Longrightarrow> nil \<notin> set (ids t)"
  by (induction t arbitrary: p) auto

lemma path_not_nil: "path h root k x \<Longrightarrow> nil \<notin> set (kids k)"
proof (induction k arbitrary: x)
  case (Cons f k)
  then show ?case by (cases f) (auto simp: repr_not_nil)
qed simp

lemma rt_in_ids: "t \<noteq> L \<Longrightarrow> rt t \<in> set (ids t)"
  by (cases t) auto

lemma rt_nil_iff: "repr h p t \<Longrightarrow> rt t = nil \<longleftrightarrow> t = L"
  by (cases t) auto

lemma up_in_kids: "k \<noteq> [] \<Longrightarrow> up k \<in> set (kids k)"
  by (cases k rule: kids.cases) auto

lemma repr_upd [simp]: "b \<notin> set (ids t) \<Longrightarrow> repr (h(b := v)) p t = repr h p t"
  by (induction t arbitrary: p) auto

lemma path_upd [simp]: "b \<notin> set (kids k) \<Longrightarrow> path (h(b := v)) root k x = path h root k x"
proof (induction k arbitrary: x)
  case (Cons f k)
  obtain d c a s where f: "f = F d c a s" by (cases f)
  with Cons have "b \<noteq> a" "b \<notin> set (ids s)" "b \<notin> set (kids k)" by auto
  with f Cons.IH show ?case by (simp del: fun_upd_apply add: fun_upd_other)
qed simp

text \<open>Changing the parent pointer of the root of a subtree.\<close>

lemma repr_set_parent:
  "repr h p t \<Longrightarrow> distinct (ids t) \<Longrightarrow> t \<noteq> L \<Longrightarrow> repr (h(rt t := (h (rt t))\<lparr>rb_parent := q\<rparr>)) q t"
  by (cases t) auto

lemma focus_up_down: "focus T (F d c a s # k) t \<longleftrightarrow> focus T k (nd d c t a s)"
  unfolding focus_def by (cases d) (auto simp: Int_commute)

lemma focus_plug: "focus T (k @ k') t \<longleftrightarrow> focus T k' (plug k t)"
proof (induction k arbitrary: t)
  case (Cons f k)
  then show ?case by (cases f) (simp add: focus_up_down)
qed simp

lemma focus_plug_all: "focus T k t \<longleftrightarrow> focus T [] (plug k t)"
  using focus_plug [of T k "[]"] by simp

section \<open>The pointer operations\<close>

lemma set_heap_sel [simp]:
  "t_root (set_child d a v T) = t_root T" "t_root (set_parent a v T) = t_root T" "t_root (set_color a c T) = t_root T"
  "t_root (set_root v T) = v" "t_heap (set_root v T) = t_heap T"
  by (simp_all add: set_child_def set_parent_def set_color_def set_root_def)

lemma heap_set:
  "t_heap (set_child d a v T) = (t_heap T)(a := with_child d v (t_heap T a))"
  "t_heap (set_parent a v T) = (t_heap T)(a := (t_heap T a)\<lparr>rb_parent := v\<rparr>)"
  "t_heap (set_color a c T) = (t_heap T)(a := (t_heap T a)\<lparr>rb_color := c\<rparr>)"
  by (simp_all add: set_child_def set_parent_def set_color_def)

lemma child_with_child [simp]:
  "child d (with_child d v n) = v" "child (opp d) (with_child d v n) = child (opp d) n"
  "child d (with_child (opp d) v n) = child d n"
  by (cases d; simp)+

lemma with_child_sel [simp]:
  "rb_parent (with_child d v n) = rb_parent n" "rb_color (with_child d v n) = rb_color n"
  by (cases d; simp)+

lemma child_upd [simp]:
  "child d (n\<lparr>rb_parent := v\<rparr>) = child d n" "child d (n\<lparr>rb_color := c\<rparr>) = child d n"
  by (cases d; simp)+

text \<open>Reading through a focus.\<close>

lemma focus_nil:
  "focus T k t \<Longrightarrow> color_of T nil = Black \<and> child_of T d nil = nil"
  by (cases d) (auto simp: focus_def)

lemma focus_node:
  assumes "focus T k (nd d c s a u)"
  shows "parent_of T a = up k" "child_of T d a = rt s" "child_of T (opp d) a = rt u" "color_of T a = c" "a \<noteq> nil"
  using assms by (auto simp: focus_def)

lemma focus_up:
  assumes "focus T (F d c a s # k) t"
  shows "parent_of T a = up k" "child_of T d a = rt t" "child_of T (opp d) a = rt s" "color_of T a = c" "a \<noteq> nil"
  using assms by (auto simp: focus_def)

fun colr :: "ctree \<Rightarrow> rb_color" where
  "colr L = Black"
| "colr (N c l a r) = c"

lemma colr_nd [simp]: "colr (nd d c s a u) = c"
  by (cases d) auto

lemma focus_color: "focus T k t \<Longrightarrow> color_of T (rt t) = colr t"
  by (cases t) (auto simp: focus_def)

lemma focus_sibling_color: "focus T (F d c a s # k) t \<Longrightarrow> color_of T (rt s) = colr s"
  by (cases s) (auto simp: focus_def)

lemma focus_parent: "focus T k t \<Longrightarrow> t \<noteq> L \<Longrightarrow> parent_of T (rt t) = up k"
  by (cases t) (auto simp: focus_def)

lemma focus_rt_nil: "focus T k t \<Longrightarrow> rt t = nil \<longleftrightarrow> t = L"
  by (auto simp: focus_def rt_nil_iff)

lemma focus_up_nil: "focus T k t \<Longrightarrow> up k = nil \<longleftrightarrow> k = []"
  by (cases k rule: kids.cases) (auto simp: focus_def)

lemma focus_root: "focus T [] t \<Longrightarrow> t_root T = rt t"
  by (simp add: focus_def)

text \<open>The side on which the hole hangs is read off by the code's comparison of pointers.\<close>

lemma focus_side:
  assumes "focus T (F d c a s # k) t" and "t \<noteq> L \<or> s \<noteq> L"
  shows "rt t = child_of T d' a \<longleftrightarrow> d = d'"
proof (cases "d = d'")
  case False
  then have d': "d' = opp d" by (simp add: dir_neq)
  have "rt t \<noteq> rt s"
  proof
    assume e: "rt t = rt s"
    have "rt t = nil \<longleftrightarrow> t = L" "rt s = nil \<longleftrightarrow> s = L" using assms(1) by (auto simp: focus_def rt_nil_iff)
    with e assms(2) have "t \<noteq> L" "s \<noteq> L" by auto
    then have "rt t \<in> set (ids t) \<inter> set (ids s)" using e rt_in_ids by (metis IntI)
    then show False using assms(1) by (auto simp: focus_def)
  qed
  then show ?thesis using focus_up [OF assms(1)] d' by simp
qed (use focus_up [OF assms(1)] in simp)

lemma focus_set_color:
  assumes "focus T k (nd d c s a u)"
  shows "focus (set_color a c' T) k (nd d c' s a u)"
  using assms by (cases d) (auto simp: focus_def heap_set)

lemma focus_set_color_up:
  assumes "focus T (F d c a s # k) t"
  shows "focus (set_color a c' T) (F d c' a s # k) t"
  using focus_set_color assms by (simp add: focus_up_down)

lemma focus_set_color_sibling:
  assumes "focus T (F d c a (nd d' e s b u) # k) t"
  shows "focus (set_color b e' T) (F d c a (nd d' e' s b u) # k) t"
proof -
  have "focus T (F (opp d) c a t # k) (nd d' e s b u)" using assms by (simp add: focus_up_down nd_opp)
  from focus_set_color [OF this] show ?thesis by (simp add: focus_up_down nd_opp)
qed

text \<open>A rotation, first below a root without a parent and then below a frame.\<close>

definition rotate_inner :: "dir \<Rightarrow> nat \<Rightarrow> nat \<Rightarrow> nat \<Rightarrow> rb_tree_t \<Rightarrow> rb_tree_t" where
  "rotate_inner d x y b T =
     (let T1 = set_child (opp d) x b T;
          T2 = (if b \<noteq> nil then set_parent b x T1 else T1)
      in set_parent y (parent_of T2 x) T2)"

lemma rotate_inner_repr:
  assumes "repr (t_heap T) p (nd d c A x (nd d e B y C))" and "distinct (ids (nd d c A x (nd d e B y C)))"
    and "T' = set_parent x y (set_child d y x (rotate_inner d x y (rt B) T))"
  shows "repr (t_heap T') p (nd d e (nd d c A x B) y C)"
    and "z \<notin> set (ids (nd d c A x (nd d e B y C))) \<Longrightarrow> t_heap T' z = t_heap T z"
proof -
  show "repr (t_heap T') p (nd d e (nd d c A x B) y C)"
  proof (cases B)
    case L
    then show ?thesis using assms
      by (cases d) (auto simp: rotate_inner_def Let_def heap_set)
  next
    case (N cb bl b br)
    then show ?thesis using assms
      by (cases d) (auto simp: rotate_inner_def Let_def heap_set)
  qed
  show "t_heap T' z = t_heap T z" if "z \<notin> set (ids (nd d c A x (nd d e B y C)))"
    using that assms(3) rt_in_ids [of B] by (cases B) (auto simp: rotate_inner_def Let_def heap_set)
qed

text \<open>Hanging the node \<open>y\<close> into the hole of a path.\<close>

fun link :: "frame list \<Rightarrow> nat \<Rightarrow> rb_tree_t \<Rightarrow> rb_tree_t" where
  "link [] y T = set_root y T"
| "link (F d c a s # k) y T = set_child d a y T"

lemma link_heap_other: "z \<notin> set (kids k) \<Longrightarrow> t_heap (link k y T) z = t_heap T z"
  by (cases k rule: kids.cases) (auto simp: heap_set)

lemma repr_link: "set (ids t) \<inter> set (kids k) = {} \<Longrightarrow> repr (t_heap (link k y T)) p t = repr (t_heap T) p t"
  by (cases k rule: kids.cases) (auto simp: heap_set)

lemma repr_cong: "(\<And>z. z \<in> set (ids t) \<Longrightarrow> h z = h' z) \<Longrightarrow> repr h p t = repr h' p t"
  by (induction t arbitrary: p) auto

lemma path_cong: "(\<And>z. z \<in> set (kids k) \<Longrightarrow> h z = h' z) \<Longrightarrow> path h root k x = path h' root k x"
proof (induction k arbitrary: x)
  case (Cons f k)
  obtain d c a s where f: "f = F d c a s" by (cases f)
  have "repr h a s = repr h' a s" by (rule repr_cong) (use Cons.prems f in auto)
  moreover have "path h root k a = path h' root k a" by (rule Cons.IH) (use Cons.prems f in auto)
  ultimately show ?case using Cons.prems [of a] f by simp
qed simp

lemma path_link:
  assumes "path (t_heap T) (t_root T) k x" and "distinct (kids k)"
  shows "path (t_heap (link k y T)) (t_root (link k y T)) k y"
proof (cases k)
  case (Cons f k')
  obtain d c a s where f: "f = F d c a s" by (cases f)
  let ?h = "(t_heap T)(a := with_child d y (t_heap T a))"
  have "repr ?h a s = repr (t_heap T) a s" "path ?h (t_root T) k' a = path (t_heap T) (t_root T) k' a"
    using assms Cons f by (auto simp: repr_upd path_upd simp del: fun_upd_apply)
  then show ?thesis using assms Cons f by (simp add: heap_set)
qed simp

lemma rotate_link:
  assumes "focus T k (nd d c A x (nd d e B y C))"
  shows "rotate d x T = link k y (set_parent x y (set_child d y x (rotate_inner d x y (rt B) T)))"
proof -
  let ?h = "t_heap T"
  have f: "x \<noteq> y" "x \<noteq> nil" "y \<noteq> nil" "child (opp d) (?h x) = y" "child d (?h y) = rt B" "rb_parent (?h x) = up k"
    "rt B \<noteq> x" "rt B \<noteq> y" "rt B \<noteq> nil \<Longrightarrow> rt B \<in> set (ids B)"
    using assms rt_in_ids [of B] by (cases B; auto simp: focus_def)+
  define Tn where "Tn = rotate_inner d x y (rt B) T"
  have n: "rb_parent (t_heap Tn x) = up k" "t_root Tn = t_root T"
    using f by (auto simp: Tn_def rotate_inner_def Let_def heap_set)
  have c: "child d (t_heap (set_child (opp d) x (rt B) T) y) = rt B" using f by (simp add: heap_set)
  have "rotate d x T = set_parent x y (set_child d y x (if parent_of Tn x = nil then set_root y Tn
       else if x = child_of Tn d (parent_of Tn x) then set_child d (parent_of Tn x) y Tn
       else set_child (opp d) (parent_of Tn x) y Tn))"
    unfolding rotate_def Tn_def rotate_inner_def by (simp only: Let_def f(4,5) c)
  then have e: "rotate d x T = set_parent x y (set_child d y x (if up k = nil then set_root y Tn
       else if x = child_of Tn d (up k) then set_child d (up k) y Tn else set_child (opp d) (up k) y Tn))"
    by (simp only: n)
  show ?thesis
  proof (cases k)
    case Nil
    then show ?thesis unfolding e Tn_def [symmetric] by (simp add: set_parent_def set_child_def set_root_def)
  next
    case (Cons g k')
    obtain d2 c2 a s where g: "g = F d2 c2 a s" by (cases g)
    have a: "a \<noteq> nil" "a \<noteq> x" "a \<noteq> y" "a \<noteq> rt B" using assms Cons g f by (auto simp: focus_def)
    then have "t_heap Tn a = t_heap T a" by (auto simp: Tn_def rotate_inner_def Let_def heap_set)
    moreover have "x = child_of T d a \<longleftrightarrow> d2 = d" using focus_side [of T d2 c2 a s k' "nd d c A x (nd d e B y C)" d] assms Cons g by simp
    ultimately have "rotate d x T = set_parent x y (set_child d y x (set_child d2 a y Tn))"
      unfolding e using Cons g a by (cases d2; cases d; simp)
    also have "\<dots> = set_child d2 a y (set_parent x y (set_child d y x Tn))"
      using a by (simp add: set_child_def set_parent_def fun_upd_twist)
    finally show ?thesis using Cons g Tn_def by simp
  qed
qed

lemma focus_rotate:
  assumes "focus T k (nd d c A x (nd d e B y C))"
  shows "focus (rotate d x T) k (nd d e (nd d c A x B) y C)"
    and "t_heap (rotate d x T) nil = t_heap T nil"
proof -
  let ?t = "nd d c A x (nd d e B y C)" and ?t' = "nd d e (nd d c A x B) y C"
  define T' where "T' = set_parent x y (set_child d y x (rotate_inner d x y (rt B) T))"
  have r: "rotate d x T = link k y T'" using rotate_link [OF assms] by (simp add: T'_def)
  have i: "repr (t_heap T) (up k) ?t" "distinct (ids ?t)" "distinct (kids k)" "set (ids ?t) \<inter> set (kids k) = {}"
    "path (t_heap T) (t_root T) k x" using assms by (auto simp: focus_def)
  have rep: "repr (t_heap T') (up k) ?t'" and same: "z \<notin> set (ids ?t) \<Longrightarrow> t_heap T' z = t_heap T z" for z
    using rotate_inner_repr [OF i(1,2) T'_def] by auto
  have "t_root T' = t_root T" by (simp add: T'_def rotate_inner_def Let_def)
  moreover have "path (t_heap T') (t_root T) k x = path (t_heap T) (t_root T) k x"
  proof (rule path_cong)
    fix z assume "z \<in> set (kids k)"
    then have "z \<notin> set (ids ?t)" using i(4) by blast
    then show "t_heap T' z = t_heap T z" by (rule same)
  qed
  ultimately have "path (t_heap (link k y T')) (t_root (link k y T')) k y"
    using path_link [of T' k x y] i(3,5) by simp
  moreover have "repr (t_heap (link k y T')) (up k) ?t'"
    using rep repr_link [of ?t' k y T'] i(4) by auto
  moreover have n: "nil \<notin> set (ids ?t)" "nil \<notin> set (kids k)"
    using repr_not_nil [OF i(1)] path_not_nil [OF i(5)] by auto
  then show *: "t_heap (rotate d x T) nil = t_heap T nil" using same link_heap_other r by simp
  moreover have "distinct (ids ?t' @ kids k)" using i by auto
  ultimately show "focus (rotate d x T) k ?t'" using assms unfolding r focus_def by simp
qed

end
