(* ===== verification/RbTreeLoops.thy ===== *)
theory RbTreeLoops
  imports RbTreeInv
begin

text \<open>
  The rebalancing loops, insertion and deletion of red-black trees: each returns, keeps the
  red-black invariant and changes the in-order list of nodes as it should.
\<close>

section \<open>The invariant\<close>

fun bh :: "ctree \<Rightarrow> nat" where
  "bh L = 0"
| "bh (N c l a r) = bh l + (if c = Black then 1 else 0)"

fun rbt :: "ctree \<Rightarrow> bool" where
  "rbt L \<longleftrightarrow> True"
| "rbt (N c l a r) \<longleftrightarrow> rbt l \<and> rbt r \<and> bh l = bh r \<and> (c = Red \<longrightarrow> colr l = Black \<and> colr r = Black)"

fun paint :: "rb_color \<Rightarrow> ctree \<Rightarrow> ctree" where
  "paint c L = L"
| "paint c (N e l a r) = N c l a r"

text \<open>\<open>kok k c n\<close>: the path accepts a subtree whose root has colour \<open>c\<close> and black height \<open>n\<close>.\<close>

fun kok :: "frame list \<Rightarrow> rb_color \<Rightarrow> nat \<Rightarrow> bool" where
  "kok [] c n \<longleftrightarrow> c = Black"
| "kok (F d e a s # k) c n \<longleftrightarrow> rbt s \<and> bh s = n \<and> (e = Red \<longrightarrow> c = Black \<and> colr s = Black) \<and>
     kok k e (n + (if e = Black then 1 else 0))"

definition rbtree_inv :: "ctree \<Rightarrow> bool" where
  "rbtree_inv t \<longleftrightarrow> rbt t \<and> colr t = Black"

lemma rbt_nd [simp]:
  "rbt (nd d c s a u) \<longleftrightarrow> rbt s \<and> rbt u \<and> bh s = bh u \<and> (c = Red \<longrightarrow> colr s = Black \<and> colr u = Black)"
  by (cases d) auto

lemma bh_nd: "rbt (nd d c s a u) \<Longrightarrow> bh (nd d c s a u) = bh s + (if c = Black then 1 else 0)"
  by (cases d) auto

lemma bh_nd_eq: "bh s = bh u \<Longrightarrow> bh (nd d c s a u) = bh s + (if c = Black then 1 else 0)"
  by (cases d) auto

lemma paint_nd [simp]: "paint c (nd d e s a u) = nd d c s a u"
  by (cases d) auto

lemma ids_paint [simp]: "ids (paint c t) = ids t" "rt (paint c t) = rt t" "paint c t = L \<longleftrightarrow> t = L"
  by (cases t; simp)+

lemma color_not: "c \<noteq> Red \<longleftrightarrow> c = Black" "c \<noteq> Black \<longleftrightarrow> c = Red"
  by (cases c; simp)+

lemma paint_same: "colr t = c \<Longrightarrow> paint c t = t"
  by (cases t) auto

lemma rbt_plug: "rbt (plug k t) \<and> colr (plug k t) = Black \<longleftrightarrow> rbt t \<and> kok k (colr t) (bh t)"
proof (induction k arbitrary: t)
  case (Cons f k)
  obtain d c a s where f: "f = F d c a s" by (cases f)
  show ?case unfolding f plug.simps Cons.IH
    by (auto simp: bh_nd_eq)
qed simp

lemma rbtree_inv_plug: "rbtree_inv (plug k t) \<longleftrightarrow> rbt t \<and> kok k (colr t) (bh t)"
  unfolding rbtree_inv_def by (rule rbt_plug)

lemma kok_Black: "kok k c n \<Longrightarrow> kok k Black n"
  by (cases k rule: kids.cases) auto

lemma rbt_paint_Black: "rbt t \<Longrightarrow> rbt (paint Black t)"
  by (cases t) auto

section \<open>Rebalancing after an insertion\<close>

lemma focus_paint:
  "focus T k t \<Longrightarrow> t \<noteq> L \<Longrightarrow> focus (set_color (rt t) c T) k (paint c t)"
  using not_L_nd [of t] focus_set_color by fastforce

lemma insert_fixup_end:
  assumes "focus T k t" and "t \<noteq> L" and "rt t = z" and "color_of T (up k) = Black"
  shows "insert_fixup z T = Some (set_color (t_root T) Black T)"
    and "focus (set_color (t_root T) Black T) [] (paint Black (plug k t))"
proof -
  show "insert_fixup z T = Some (set_color (t_root T) Black T)"
    using assms focus_parent [OF assms(1,2)] by (simp add: insert_fixup.simps [of z])
  have f: "focus T [] (plug k t)" using assms(1) focus_plug_all by blast
  moreover have "plug k t \<noteq> L" using assms(2) by (metis ids.simps(1) ids_plug append_is_Nil_conv not_L_nd
        rt_in_ids list.set(1) empty_iff)
  ultimately show "focus (set_color (t_root T) Black T) [] (paint Black (plug k t))"
    using focus_paint [of T "[]"] focus_root by metis
qed

text \<open>One turn: the uncle is red and the colours move up, or one or two rotations end it.\<close>

lemma insert_turn_red:
  assumes f: "focus T (F d Red a s # F d2 e g u # k) t" and z: "t \<noteq> L" and u: "colr u = Red"
  shows "case insert_fixup_turn d2 (rt t) T of (z', T') \<Rightarrow>
    z' = g \<and> focus T' k (nd d2 Red (nd d Black t a s) g (paint Black u))"
proof -
  obtain d3 ul b ur where ub: "u = nd d3 Red ul b ur" using u not_L_nd [of u] by fastforce
  have p: "parent_of T (rt t) = a" "parent_of T a = g" "child_of T (opp d2) g = b"
    using focus_parent [OF f z] focus_up [OF f] focus_up [of T d2 e g u k] f ub by (auto simp: focus_up_down)
  have c: "color_of T b = Red" using focus_sibling_color [of T d2 e g u k "nd d Red t a s"] f ub by (simp add: focus_up_down)
  let ?T1 = "set_color a Black T"
  have f1: "focus ?T1 (F d Black a s # F d2 e g u # k) t" by (rule focus_set_color_up [OF f])
  let ?T2 = "set_color b Black ?T1"
  have f2: "focus ?T2 (F d2 e g (nd d3 Black ul b ur) # k) (nd d Black t a s)"
    using focus_set_color_sibling [of ?T1 d2 e g d3 Red ul b ur k "nd d Black t a s" Black] f1 ub by (simp add: focus_up_down)
  then have f2': "focus ?T2 (F d Black a s # F d2 e g (nd d3 Black ul b ur) # k) t" by (simp add: focus_up_down)
  have p2: "parent_of ?T2 (rt t) = a" "parent_of ?T2 a = g"
    using focus_parent [OF f2' z] focus_up [OF f2'] by auto
  let ?T3 = "set_color g Red ?T2"
  have f3: "focus ?T3 (F d2 Red g (nd d3 Black ul b ur) # k) (nd d Black t a s)" by (rule focus_set_color_up [OF f2])
  then have f3': "focus ?T3 (F d Black a s # F d2 Red g (nd d3 Black ul b ur) # k) t" by (simp add: focus_up_down)
  have p3: "parent_of ?T3 (rt t) = a" "parent_of ?T3 a = g"
    using focus_parent [OF f3' z] focus_up [OF f3'] by auto
  have "insert_fixup_turn d2 (rt t) T = (g, ?T3)"
    using p c p2 p3 by (simp add: insert_fixup_turn_def Let_def)
  moreover have "focus ?T3 k (nd d2 Red (nd d Black t a s) g (paint Black u))" using f3 ub by (simp add: focus_up_down)
  ultimately show ?thesis by simp
qed

lemma insert_rotate_outer:
  assumes f: "focus T (F d Red a s # F d e g u # k) t" and z: "t \<noteq> L" and zz: "rt t = z"
  shows "let T2 = set_color (parent_of T z) Black T; T3 = set_color (parent_of T2 (parent_of T2 z)) Red T2;
      T4 = rotate (opp d) (parent_of T3 (parent_of T3 z)) T3
    in focus T4 (F d Black a (nd d Red s g u) # k) t"
proof -
  let ?T2 = "set_color a Black T"
  have f2: "focus ?T2 (F d Black a s # F d e g u # k) t" by (rule focus_set_color_up [OF f])
  then have f2': "focus ?T2 (F d e g u # k) (nd d Black t a s)" by (simp add: focus_up_down)
  let ?T3 = "set_color g Red ?T2"
  have f3: "focus ?T3 (F d Red g u # k) (nd d Black t a s)" by (rule focus_set_color_up [OF f2'])
  then have f3': "focus ?T3 (F d Black a s # F d Red g u # k) t" by (simp add: focus_up_down)
  have p: "parent_of T z = a" "parent_of ?T2 z = a" "parent_of ?T2 a = g" "parent_of ?T3 z = a" "parent_of ?T3 a = g"
    using focus_parent [OF f z] focus_parent [OF f2 z] focus_parent [OF f3' z] focus_up [OF f2] focus_up [OF f3'] zz by auto
  have "focus ?T3 k (nd (opp d) Red u g (nd (opp d) Black s a t))" using f3 by (simp add: focus_up_down nd_opp)
  from focus_rotate(1) [OF this] have "focus (rotate (opp d) g ?T3) (F d Black a (nd d Red s g u) # k) t"
    by (simp add: focus_up_down nd_opp)
  then show ?thesis by (simp add: Let_def p)
qed

lemma insert_turn_black:
  assumes f: "focus T (F d Red a s # F d2 e g u # k) (nd d2 Red t1 z t2)" and u: "colr u = Black"
  shows "case insert_fixup_turn d2 z T of (z', T') \<Rightarrow>
    if d = d2 then z' = z \<and> focus T' (F d2 Black a (nd d2 Red s g u) # k) (nd d2 Red t1 z t2)
    else z' = a \<and> focus T' (F d2 Black z (nd d2 Red t2 g u) # k) (nd d2 Red s a t1)"
proof -
  have p: "parent_of T z = a" "parent_of T a = g" "child_of T (opp d2) g = rt u"
    using focus_parent [OF f] focus_up [OF f] focus_up [of T d2 e g u k] f by (auto simp: focus_up_down)
  have c: "color_of T (rt u) = Black"
    using focus_sibling_color [of T d2 e g u k "nd d Red (nd d2 Red t1 z t2) a s"] f u by (simp add: focus_up_down)
  have side: "z = child_of T (opp d2) a \<longleftrightarrow> d = opp d2"
    using focus_side [OF f, of "opp d2"] by simp
  show ?thesis
  proof (cases "d = d2")
    case True
    with insert_rotate_outer [of T d a s e g u k "nd d2 Red t1 z t2" z] f show ?thesis
      using p c side by (simp add: insert_fixup_turn_def Let_def)
  next
    case False
    then have d: "d = opp d2" by (simp add: dir_neq)
    let ?T1 = "rotate d2 a T"
    have "focus T (F d2 e g u # k) (nd d2 Red s a (nd d2 Red t1 z t2))" using f d by (simp add: focus_up_down nd_opp)
    from focus_rotate(1) [OF this] have "focus ?T1 (F d2 Red z t2 # F d2 e g u # k) (nd d2 Red s a t1)"
      by (simp add: focus_up_down)
    from insert_rotate_outer [OF this, of a] d show ?thesis
      using p c side by (simp add: insert_fixup_turn_def Let_def)
  qed
qed

text \<open>The loop from a red node \<open>z\<close> whose subtree is in order but for the colour of its parent.\<close>

lemma insert_fixup_ok:
  assumes "focus T k (N Red l z r)" and "rbt (N Red l z r)" and "kok k Black (bh l)"
  shows "\<exists>T' t'. insert_fixup z T = Some T' \<and> focus T' [] t' \<and> ids t' = ids (plug k (N Red l z r)) \<and> rbtree_inv t'"
  using assms
proof (induction "length k" arbitrary: k T l z r rule: less_induct)
  case less
  let ?t = "N Red l z r"
  have bhl: "bh l = bh r" using less.prems(2) by simp
  have fin: ?case if b: "color_of T (up k) = Black" and pinv: "rbtree_inv (paint Black (plug k ?t))"
    using insert_fixup_end [OF less.prems(1) _ _ b] pinv by fastforce
  show ?case
  proof (cases k)
    case Nil
    have "color_of T nil = Black" using focus_nil [OF less.prems(1)] by simp
    then show ?thesis using Nil less.prems by (intro fin) (auto simp: rbtree_inv_def)
  next
    case (Cons f1 k1)
    obtain d e a s where f1: "f1 = F d e a s" by (cases f1)
    show ?thesis
    proof (cases e)
      case Black
      have "kok k Red (bh l)" using less.prems(3) Cons f1 Black by simp
      then have "rbtree_inv (plug k ?t)" using less.prems(2) by (simp add: rbtree_inv_plug)
      moreover then have "paint Black (plug k ?t) = plug k ?t" by (intro paint_same) (simp add: rbtree_inv_def)
      ultimately show ?thesis using focus_up [of T d e a s k1] less.prems(1) Cons f1 Black by (intro fin) auto
    next
      case Red
      have s: "rbt s" "bh s = bh l" "colr s = Black" "kok k1 Red (bh l)" using less.prems(3) Cons f1 Red by auto
      then obtain f2 k2 where k1: "k1 = f2 # k2" by (cases k1) auto
      obtain d2 e2 g u where f2: "f2 = F d2 e2 g u" by (cases f2)
      have u: "e2 = Black" "rbt u" "bh u = bh l" "kok k2 Black (bh l + 1)" using s(4) k1 f2 by (auto simp: color_not)
      have f: "focus T (F d Red a s # F d2 e2 g u # k2) ?t" using less.prems(1) Cons f1 Red k1 f2 by simp
      have par: "parent_of T z = a" "color_of T a = Red" "parent_of T a = g"
        using focus_parent [OF f] focus_up [OF f] by auto
      have side: "a = child_of T DL g \<longleftrightarrow> d2 = DL"
        using focus_side [of T d2 e2 g u k2 "nd d Red ?t a s" DL] f by (simp add: focus_up_down)
      have run: "insert_fixup z T = (case insert_fixup_turn d2 z T of (z', T') \<Rightarrow> insert_fixup z' T')"
        using par side by (cases d2) (auto simp: insert_fixup.simps [of z] Let_def)
      show ?thesis
      proof (cases "colr u")
        case uRed: Red
        obtain T' where t: "insert_fixup_turn d2 z T = (g, T')"
          "focus T' k2 (nd d2 Red (nd d Black ?t a s) g (paint Black u))"
          using insert_turn_red [OF f _ uRed] by (auto split: prod.splits)
        let ?n = "nd d2 Red (nd d Black ?t a s) g (paint Black u)"
        obtain l' r' where n: "?n = N Red l' g r'" by (cases d2) auto
        have b: "rbt ?n \<and> bh l' = bh l + 1"
          using less.prems(2) s(1-3) u uRed n by (cases d2; cases u) (auto simp: bh_nd_eq)
        have i: "ids (plug k2 ?n) = ids (plug k ?t)"
          using Cons f1 k1 f2 by (cases d2; cases d) (simp_all add: ids_plug)
        have "kok k2 Black (bh l')" using b u(4) by simp
        from less.hyps [OF _ t(2) [unfolded n] _ this] b [unfolded n] i [unfolded n] t(1) Cons k1 run
        show ?thesis by simp
      next
        case uBlack: Black
        obtain t1 t2 where nt: "?t = nd d2 Red t1 z t2" by (cases d2) auto
        have b12: "rbt t1" "rbt t2" "bh t1 = bh l" "bh t2 = bh l" "colr t1 = Black" "colr t2 = Black"
          using less.prems(2) nt bhl by (cases d2; simp)+
        obtain z' T' where t: "insert_fixup_turn d2 z T = (z', T')" by (cases "insert_fixup_turn d2 z T")
        obtain b v c w where fin': "focus T' (F d2 Black b v # k2) w" "rt w = z'" "w \<noteq> L"
          "rbt w" "bh w = bh l" "rbt v" "bh v = bh l" "colr w = Red"
          "ids (plug (F d2 Black b v # k2) w) = ids (plug k ?t)"
        proof (cases "d = d2")
          case True
          with insert_turn_black [OF f [unfolded nt] uBlack] t
          have "focus T' (F d2 Black a (nd d2 Red s g u) # k2) (nd d2 Red t1 z t2)" "z' = z" by auto
          moreover have "ids (plug (F d2 Black a (nd d2 Red s g u) # k2) (nd d2 Red t1 z t2)) = ids (plug k ?t)"
            using True Cons f1 k1 f2 unfolding nt by (cases d2) (simp_all add: ids_plug)
          ultimately show ?thesis using b12 s u uBlack bhl
            by (intro that) (auto simp: bh_nd_eq)
        next
          case False
          with insert_turn_black [OF f [unfolded nt] uBlack] t
          have "focus T' (F d2 Black z (nd d2 Red t2 g u) # k2) (nd d2 Red s a t1)" "z' = a" by auto
          moreover have "ids (plug (F d2 Black z (nd d2 Red t2 g u) # k2) (nd d2 Red s a t1)) = ids (plug k ?t)"
            using False Cons f1 k1 f2 unfolding nt by (cases d2; cases d) (simp_all add: ids_plug)
          ultimately show ?thesis using b12 s u uBlack bhl
            by (intro that) (auto simp: bh_nd_eq)
        qed
        have inv: "rbtree_inv (plug (F d2 Black b v # k2) w)"
          using fin' u(4) by (simp only: rbtree_inv_plug) simp
        then have "paint Black (plug (F d2 Black b v # k2) w) = plug (F d2 Black b v # k2) w"
          by (intro paint_same) (simp add: rbtree_inv_def)
        moreover have "color_of T' (up (F d2 Black b v # k2)) = Black" using focus_up [OF fin'(1)] by simp
        ultimately show ?thesis using insert_fixup_end [OF fin'(1,3,2)] inv fin'(9) run t by fastforce
      qed
    qed
  qed
qed

section \<open>Insertion\<close>

text \<open>The place of a node among sorted ones: behind all that do not have a larger key.\<close>

definition ins_sorted :: "(nat \<Rightarrow> u64) \<Rightarrow> nat \<Rightarrow> nat list \<Rightarrow> nat list" where
  "ins_sorted vr node xs = takeWhile (\<lambda>b. vr b \<le> vr node) xs @ node # dropWhile (\<lambda>b. vr b \<le> vr node) xs"

lemma ins_sorted_split:
  assumes "\<forall>b\<in>set xs. vr b \<le> vr node" and "\<forall>b\<in>set ys. vr node < vr b"
  shows "ins_sorted vr node (xs @ ys) = xs @ node # ys"
proof -
  have "takeWhile (\<lambda>b. vr b \<le> vr node) ys = []" "dropWhile (\<lambda>b. vr b \<le> vr node) ys = ys"
    using assms(2) by (cases ys; fastforce simp: not_le)+
  moreover have "takeWhile (\<lambda>b. vr b \<le> vr node) (xs @ ys) = xs @ takeWhile (\<lambda>b. vr b \<le> vr node) ys"
    "dropWhile (\<lambda>b. vr b \<le> vr node) (xs @ ys) = dropWhile (\<lambda>b. vr b \<le> vr node) ys"
    using assms(1) by (simp_all add: dropWhile_append2)
  ultimately show ?thesis by (simp add: ins_sorted_def)
qed

lemma ins_sorted_set [simp]: "set (ins_sorted vr node xs) = insert node (set xs)"
  unfolding ins_sorted_def by (metis Un_insert_right list.simps(15) set_append takeWhile_dropWhile_id)

lemma ins_sorted_Cons:
  "ins_sorted vr node (x # xs) = (if vr x \<le> vr node then x # ins_sorted vr node xs else node # x # xs)"
  by (simp add: ins_sorted_def)

lemma ins_sorted_sorted:
  "sorted (map vr xs) \<Longrightarrow> sorted (map vr (ins_sorted vr node xs))"
proof (induction xs)
  case Nil
  then show ?case by (simp add: ins_sorted_def)
next
  case (Cons x xs)
  show ?case
  proof (cases "vr x \<le> vr node")
    case True
    with Cons show ?thesis by (simp add: ins_sorted_Cons)
  next
    case False
    with Cons.prems show ?thesis by (fastforce simp: ins_sorted_Cons)
  qed
qed

text \<open>Every key before the hole is at most the new one, every key behind it larger.\<close>

definition place_ok :: "(nat \<Rightarrow> u64) \<Rightarrow> nat \<Rightarrow> frame list \<Rightarrow> bool" where
  "place_ok vr node k \<longleftrightarrow> (\<forall>b\<in>set (before k). vr b \<le> vr node) \<and> (\<forall>b\<in>set (after k). vr node < vr b) \<and>
     (case k of [] \<Rightarrow> True | F d c a s # k' \<Rightarrow> vr node < vr a \<longleftrightarrow> d = DL)"

lemma insert_search_ok:
  assumes "focus T k t" and "sorted (map vr (ids t))" and "place_ok vr node k"
  shows "\<exists>k'. insert_search vr node T (up k) (rt t) = Some (up k') \<and> plug k' L = plug k t \<and> place_ok vr node k'"
  using assms
proof (induction t arbitrary: k)
  case L
  then show ?case by (intro exI [of _ k]) (simp add: insert_search.simps)
next
  case (N c l a r)
  have a: "a \<noteq> nil" "child_of T DL a = rt l" "child_of T DR a = rt r"
    using focus_node [of T k DL c l a r] N.prems(1) by auto
  have srt: "sorted (map vr (ids l))" "sorted (map vr (ids r))" "\<forall>b\<in>set (ids l). vr b \<le> vr a" "\<forall>b\<in>set (ids r). vr a \<le> vr b"
    using N.prems(2) by (auto simp: sorted_append)
  show ?case
  proof (cases "vr node < vr a")
    case True
    have "focus T (F DL c a r # k) l" using N.prems(1) by (simp add: focus_up_down)
    moreover have "place_ok vr node (F DL c a r # k)"
      using N.prems(3) srt(4) True by (auto simp: place_ok_def intro: less_le_trans)
    ultimately show ?thesis using N.IH(1) [of "F DL c a r # k"] srt(1) True a
      by (simp add: insert_search.simps [of _ _ _ _ a])
  next
    case False
    have "focus T (F DR c a l # k) r" using N.prems(1) by (simp add: focus_up_down)
    moreover have "place_ok vr node (F DR c a l # k)"
      using N.prems(3) srt(3) False by (auto simp: place_ok_def not_less intro: order_trans)
    ultimately show ?thesis using N.IH(2) [of "F DR c a l # k"] srt(2) False a
      by (simp add: insert_search.simps [of _ _ _ _ a])
  qed
qed

text \<open>Changes to a node that is not in the tree.\<close>

lemma focus_outside:
  assumes "focus T k t" and "t_root T' = t_root T" and "\<And>z. z \<noteq> node \<Longrightarrow> t_heap T' z = t_heap T z"
    and "node \<notin> set (ids t @ kids k)" and "node \<noteq> nil"
  shows "focus T' k t"
proof -
  have "repr (t_heap T') (up k) t = repr (t_heap T) (up k) t"
  proof (rule repr_cong)
    fix z assume "z \<in> set (ids t)"
    then have "z \<noteq> node" using assms(4) by auto
    then show "t_heap T' z = t_heap T z" by (rule assms(3))
  qed
  moreover have "path (t_heap T') (t_root T') k (rt t) = path (t_heap T) (t_root T) k (rt t)"
    unfolding assms(2)
  proof (rule path_cong)
    fix z assume "z \<in> set (kids k)"
    then have "z \<noteq> node" using assms(4) by auto
    then show "t_heap T' z = t_heap T z" by (rule assms(3))
  qed
  ultimately show ?thesis using assms(1,5) by (simp add: focus_def assms(3))
qed

lemma focus_link:
  assumes f: "focus T k L" and h: "t_heap T node = \<lparr>rb_parent = up k, rb_left = nil, rb_right = nil, rb_color = c\<rparr>"
    and n: "node \<noteq> nil" "node \<notin> set (kids k)"
  shows "focus (link k node T) k (N c L node L)"
proof -
  have k: "path (t_heap T) (t_root T) k nil" "distinct (kids k)" using f by (auto simp: focus_def)
  have "repr (t_heap (link k node T)) (up k) (N c L node L)"
    using h n link_heap_other [of node k node T] by simp
  moreover have "t_heap (link k node T) nil = t_heap T nil"
    using path_not_nil [OF k(1)] by (rule link_heap_other)
  ultimately show ?thesis using path_link [OF k, of node] f n by (simp add: focus_def)
qed

lemma before_after_kids: "set (kids k) = set (before k) \<union> set (after k)"
proof (induction k)
  case (Cons f k)
  obtain d c a s where "f = F d c a s" by (cases f)
  then show ?case using Cons by (cases d) auto
qed simp

lemma rbtree_insert_ok:
  assumes f: "focus T [] t" and inv: "rbtree_inv t" and srt: "sorted (map vr (ids t))"
    and node: "node \<noteq> nil" "node \<notin> set (ids t)"
  shows "\<exists>T' t'. rbtree_insert vr node T = Some T' \<and> focus T' [] t' \<and> rbtree_inv t' \<and> ids t' = ins_sorted vr node (ids t)"
proof -
  define T1 where "T1 = set_color node Red (set_child DL node nil (set_child DR node nil T))"
  have T1: "t_heap T1 node = \<lparr>rb_parent = rb_parent (t_heap T node), rb_left = nil, rb_right = nil, rb_color = Red\<rparr>"
    "\<And>z. z \<noteq> node \<Longrightarrow> t_heap T1 z = t_heap T z" "t_root T1 = t_root T"
    by (simp_all add: T1_def heap_set)
  have f1: "focus T1 [] t" by (rule focus_outside [OF f T1(3,2)]) (use node in auto)
  have "place_ok vr node []" by (simp add: place_ok_def)
  from insert_search_ok [OF f1 srt this] obtain k where
    k: "insert_search vr node T1 nil (t_root T1) = Some (up k)" "plug k L = t" "place_ok vr node k"
    using focus_root [OF f1] by auto
  define T2 where "T2 = set_parent node (up k) T1"
  have fk: "focus T1 k L" using f1 k(2) focus_plug_all by metis
  have ids: "ids t = before k @ after k" using k(2) ids_plug [of k L] by simp
  then have nk: "node \<notin> set (kids k)" using node before_after_kids by auto
  have T2: "t_heap T2 node = \<lparr>rb_parent = up k, rb_left = nil, rb_right = nil, rb_color = Red\<rparr>"
    "\<And>z. z \<noteq> node \<Longrightarrow> t_heap T2 z = t_heap T1 z" "t_root T2 = t_root T1"
    by (simp_all add: T2_def heap_set T1)
  have f2: "focus T2 k L" by (rule focus_outside [OF fk T2(3,2)]) (use nk node in auto)
  have f3: "focus (link k node T2) k (N Red L node L)" by (rule focus_link [OF f2 T2(1) node(1) nk])
  have lk: "(if up k = nil then set_root node T2 else if vr node < vr (up k) then set_child DL (up k) node T2
      else set_child DR (up k) node T2) = link k node T2"
  proof (cases k)
    case (Cons g k')
    obtain d c a s where g: "g = F d c a s" by (cases g)
    have "a \<noteq> nil" using focus_up_nil [OF f2] Cons g by simp
    moreover have "vr node < vr a \<longleftrightarrow> d = DL" using k(3) Cons g by (simp add: place_ok_def)
    ultimately show ?thesis using Cons g by (cases d) simp_all
  qed simp
  have "kok k Black (bh L)" using inv k(2) rbtree_inv_plug [of k L] by simp
  then obtain T' t' where r: "insert_fixup node (link k node T2) = Some T'" "focus T' [] t'"
    "ids t' = ids (plug k (N Red L node L))" "rbtree_inv t'"
    using insert_fixup_ok [OF f3] by auto
  have "rbtree_insert vr node T = Some T'"
    unfolding rbtree_insert_def T1_def [symmetric] Let_def k(1) Option.bind.simps T2_def [symmetric] lk r(1) ..
  moreover have "ids t' = ins_sorted vr node (ids t)"
    using k(3) unfolding ids r(3) by (simp add: ids_plug ins_sorted_split place_ok_def)
  ultimately show ?thesis using r by blast
qed

end
