(* ===== verification/RbTreeDelete.thy ===== *)
theory RbTreeDelete
  imports RbTreeLoops
begin

text \<open>
  Deletion from the red-black trees: unlinking a node, which leaves a path whose hole is one
  black node too low, and the loop that repairs it. The in-order list loses exactly the node
  and the red-black invariant holds again.
\<close>

section \<open>Unlinking a node\<close>

lemma transplant_link:
  assumes "path (t_heap T) (t_root T) k u" and "parent_of T u = up k" and "u \<notin> set (kids k)" and "u \<noteq> nil"
  shows "transplant u v T = set_parent v (up k) (link k v T)"
proof (cases k)
  case Nil
  then show ?thesis using assms by (simp add: transplant_def Let_def)
next
  case (Cons f k')
  obtain d c a s where f: "f = F d c a s" by (cases f)
  have a: "a \<noteq> nil" "u \<noteq> a" "child_of T d a = u" "child_of T (opp d) a = rt s" "u \<notin> set (ids s)"
    using assms(1,3) Cons f by auto
  have "u \<noteq> rt s" using a(5) assms(4) rt_in_ids [of s] by (cases s) auto
  then have "u = child_of T DL a \<longleftrightarrow> d = DL" using a(3,4) by (cases d) auto
  then show ?thesis using assms(2) a(1,2) Cons f
    by (cases d) (simp_all add: transplant_def Let_def heap_set)
qed

text \<open>What the tree looks like when the subtree \<open>v\<close> is put into the hole of a path.\<close>

lemma focus_graft:
  assumes p: "path (t_heap T) (t_root T) k u" "distinct (kids k)"
    and v: "repr (t_heap T) q v" "distinct (ids v)" "set (ids v) \<inter> set (kids k) = {}"
    and n: "rb_color (t_heap T nil) = Black" "rb_left (t_heap T nil) = nil" "rb_right (t_heap T nil) = nil"
    and T': "T' = set_parent (rt v) (up k) (link k (rt v) T)"
  shows "focus T' k v" and "parent_of T' (rt v) = up k"
    and "\<And>z. z \<notin> set (kids k) \<Longrightarrow> z \<noteq> rt v \<Longrightarrow> t_heap T' z = t_heap T z"
proof -
  let ?L = "link k (rt v) T"
  show o: "t_heap T' z = t_heap T z" if "z \<notin> set (kids k)" "z \<noteq> rt v" for z
    using that link_heap_other by (simp add: T' heap_set)
  show par: "parent_of T' (rt v) = up k" by (simp add: T' heap_set)
  have nk: "nil \<notin> set (kids k)" using path_not_nil [OF p(1)] .
  have rk: "rt v \<notin> set (kids k)" using v(3) nk rt_in_ids [of v] by (cases v) auto
  have nilc: "rb_color (t_heap T' nil) = Black" "rb_left (t_heap T' nil) = nil" "rb_right (t_heap T' nil) = nil"
    using n by (auto simp: T' heap_set link_heap_other [OF nk])
  have "path (t_heap ?L) (t_root ?L) k (rt v)" using path_link [OF p] .
  then have path: "path (t_heap T') (t_root T') k (rt v)" using rk by (simp add: T' heap_set path_upd del: fun_upd_apply)
  have "repr (t_heap T') (up k) v"
  proof (cases "v = L")
    case False
    have "repr (t_heap ?L) q v" using v(1,3) repr_link by blast
    from repr_set_parent [OF this v(2) False] show ?thesis by (simp add: T' heap_set)
  qed simp
  with path nilc show "focus T' k v" using v(2,3) p(2) by (auto simp: focus_def)
qed

lemma focus_transplant:
  assumes f: "focus T k t" and t: "t \<noteq> L"
    and v: "repr (t_heap T) q v" "distinct (ids v)" "set (ids v) \<inter> set (kids k) = {}"
    and T': "T' = transplant (rt t) (rt v) T"
  shows "focus T' k v" and "parent_of T' (rt v) = up k"
    and "\<And>z. z \<notin> set (kids k) \<Longrightarrow> z \<noteq> rt v \<Longrightarrow> t_heap T' z = t_heap T z"
proof -
  have r: "rt t \<notin> set (kids k)" "rt t \<noteq> nil" using f t rt_in_ids [OF t] focus_rt_nil [OF f] by (auto simp: focus_def)
  have "T' = set_parent (rt v) (up k) (link k (rt v) T)"
    unfolding T' by (rule transplant_link) (use f r focus_parent [OF f t] in \<open>auto simp: focus_def\<close>)
  note g = focus_graft [OF _ _ v _ _ _ this, of "rt t"]
  show "focus T' k v" "parent_of T' (rt v) = up k" using g(1,2) f by (auto simp: focus_def)
  show "\<And>z. z \<notin> set (kids k) \<Longrightarrow> z \<noteq> rt v \<Longrightarrow> t_heap T' z = t_heap T z" using g(3) f by (auto simp: focus_def)
qed

lemma tree_min_ok:
  "focus T k t \<Longrightarrow> t \<noteq> L \<Longrightarrow>
   \<exists>km cy y ry. tree_min T (rt t) = Some y \<and> t = plug km (N cy L y ry) \<and> before km = []"
proof (induction t arbitrary: k)
  case (N c l a r)
  have a: "child_of T DL a = rt l" using focus_node [of T k DL c l a r] N.prems(1) by simp
  have fl: "focus T (F DL c a r # k) l" using N.prems(1) by (simp add: focus_up_down)
  show ?case
  proof (cases "l = L")
    case True
    then show ?thesis using a by (intro exI [of _ "[]"]) (simp add: tree_min.simps [of T a])
  next
    case False
    from N.IH(1) [OF fl False] obtain km cy y ry where
      "tree_min T (rt l) = Some y" "l = plug km (N cy L y ry)" "before km = []" by blast
    moreover have "rt l \<noteq> nil" using False focus_rt_nil [OF fl] by simp
    ultimately show ?thesis using a
      by (intro exI [of _ "km @ [F DL c a r]"] exI [of _ cy] exI [of _ y] exI [of _ ry]) (simp add: tree_min.simps [of T a] plug_append before_append)
  qed
qed simp

text \<open>The address in a frame plays no part in the invariant.\<close>

lemma kok_rename: "kok (km @ F d c z l # k) e n = kok (km @ F d c y l # k) e n"
proof (induction km arbitrary: e n)
  case (Cons f km)
  then show ?case by (cases f) simp
qed simp

text \<open>
  The last part of \<open>delete_unlink\<close> for a node with two children: the node \<open>y\<close>, which already
  has the right subtree \<open>R\<close>, takes the place, the left subtree and the colour of \<open>z\<close>.
\<close>

definition take_place :: "nat \<Rightarrow> nat \<Rightarrow> rb_tree_t \<Rightarrow> rb_tree_t" where
  "take_place z y T =
     (let T2 = transplant z y T;
          T3 = set_child DL y (child_of T2 DL z) T2;
          T4 = set_parent (child_of T3 DL y) y T3
      in set_color y (color_of T4 z) T4)"

text \<open>
  The tree when \<open>y\<close>, the first node right of \<open>z\<close>, has been given the rest of the right subtree:
  the path to \<open>z\<close> and the left subtree are as before.
\<close>

definition prepared :: "rb_tree_t \<Rightarrow> frame list \<Rightarrow> rb_color \<Rightarrow> nat \<Rightarrow> ctree \<Rightarrow> nat \<Rightarrow> ctree \<Rightarrow> bool" where
  "prepared T k c z l y R \<longleftrightarrow> path (t_heap T) (t_root T) k z \<and> parent_of T z = up k \<and> child_of T DL z = rt l \<and>
     color_of T z = c \<and> repr (t_heap T) z l \<and> repr (t_heap T) y R \<and> child_of T DR y = rt R \<and>
     rb_color (t_heap T nil) = Black \<and> rb_left (t_heap T nil) = nil \<and> rb_right (t_heap T nil) = nil"

lemma focus_take_place:
  assumes pre: "prepared T k c z l y R" and lne: "l \<noteq> L"
    and d: "distinct (ids l @ ids R @ [y, z] @ kids k)" "y \<noteq> nil" "z \<noteq> nil"
  shows "focus (take_place z y T) k (N c l y R)" and "t_heap (take_place z y T) nil = t_heap T nil"
proof -
  have p: "path (t_heap T) (t_root T) k z"
    and z: "parent_of T z = up k" "child_of T DL z = rt l" "color_of T z = c" "repr (t_heap T) z l" "l \<noteq> L"
    and y: "repr (t_heap T) y R" "child_of T DR y = rt R"
    and n: "rb_color (t_heap T nil) = Black" "rb_left (t_heap T nil) = nil" "rb_right (t_heap T nil) = nil"
    using pre lne unfolding prepared_def by blast+
  let ?h = "t_heap (link k y T)"
  have tr: "transplant z y T = set_parent y (up k) (link k y T)"
    by (rule transplant_link [OF p z(1)]) (use d in auto)
  have out: "?h a = t_heap T a" if "a \<notin> set (kids k)" for a by (rule link_heap_other [OF that])
  have zk: "z \<notin> set (kids k)" "y \<notin> set (kids k)" "y \<noteq> z" using d by auto
  have rl: "rt l \<in> set (ids l)" "rt l \<noteq> y" "rt l \<noteq> z" "rt l \<noteq> nil"
    using rt_in_ids [OF z(5)] d(1) repr_not_nil [OF z(4)] by auto
  have nk: "nil \<notin> set (kids k)" using path_not_nil [OF p] .
  define T' where "T' = take_place z y T"
  have h: "t_heap T' = ?h(y := \<lparr>rb_parent = up k, rb_left = rt l, rb_right = rt R, rb_color = c\<rparr>,
      rt l := (?h (rt l))\<lparr>rb_parent := y\<rparr>)"
    using out [of z] out [of y] zk z(2,3) y(2) rl(2,3) unfolding T'_def take_place_def Let_def tr
    by (auto simp: heap_set fun_eq_iff)
  have root: "t_root T' = t_root (link k y T)" unfolding T'_def take_place_def Let_def tr by simp
  have lk: "set (ids l) \<inter> set (kids k) = {}" "set (ids R) \<inter> set (kids k) = {}" "rt l \<notin> set (ids R)" "y \<notin> set (ids R)"
    "y \<notin> set (ids l)" "distinct (kids k)" "distinct (ids l)" "rt l \<notin> set (kids k)"
    using d(1) rl(1) by auto
  have "repr ?h z l" "repr ?h y R" using z(4) y(1) repr_link [OF lk(1)] repr_link [OF lk(2)] by simp_all
  from repr_set_parent [OF this(1) lk(7) z(5), of y] this(2) have reps: "repr (t_heap T') y l" "repr (t_heap T') y R"
    using lk(3-5) rl(2) unfolding h by (simp_all add: fun_upd_twist [of y "rt l"] repr_upd del: fun_upd_apply)
  have "path (t_heap T') (t_root T') k y"
    using path_link [OF p lk(6), of y] zk lk(8) unfolding h root by (simp add: path_upd del: fun_upd_apply)
  moreover have nil: "t_heap T' nil = t_heap T nil" using d(2) rl(4) out [OF nk] unfolding h by simp
  moreover have "t_heap T' y = \<lparr>rb_parent = up k, rb_left = rt l, rb_right = rt R, rb_color = c\<rparr>"
    using rl(2) unfolding h by simp
  ultimately show "focus (take_place z y T) k (N c l y R)" and "t_heap (take_place z y T) nil = t_heap T nil"
    using reps n d unfolding T'_def [symmetric] by (auto simp: focus_def)
qed

text \<open>
  After unlinking \<open>z\<close> the tree is a path with a subtree in its hole; when the colour taken out
  is black, the path expects a subtree that is one black node higher.
\<close>

definition unlinked :: "rb_tree_t \<Rightarrow> nat \<Rightarrow> rb_color \<Rightarrow> nat list \<Rightarrow> bool" where
  "unlinked T x c xs \<longleftrightarrow> (\<exists>k t. focus T k t \<and> rt t = x \<and> parent_of T x = up k \<and> ids (plug k t) = xs \<and> rbt t \<and>
     (if c = Black then kok k Black (bh t + 1) else kok k (colr t) (bh t)))"

lemma unlink_one_child:
  assumes f: "focus T k (N c l z r)" and inv: "rbtree_inv (plug k (N c l z r))"
    and v: "v = (if l = L then r else l)" "l = L \<or> r = L"
  shows "unlinked (transplant z (rt v) T) (rt v) c (before k @ ids l @ ids r @ after k)"
proof -
  have r: "repr (t_heap T) z v" "distinct (ids v)" "set (ids v) \<inter> set (kids k) = {}"
    using f v(1) by (auto simp: focus_def)
  note t = focus_transplant(1,2) [OF f _ r, of "transplant z (rt v) T"]
  have "rbt (N c l z r)" "kok k c (bh (N c l z r))" using inv by (auto simp: rbtree_inv_plug)
  then have "rbt v" "if c = Black then kok k Black (bh v + 1) else kok k (colr v) (bh v)"
    using v kok_Black [of k c] by (cases c; auto split: if_splits)+
  moreover have "ids (plug k v) = before k @ ids l @ ids r @ after k" using v by (auto simp: ids_plug)
  ultimately show ?thesis using t unfolding unlinked_def by (intro exI [of _ k] exI [of _ v]) auto
qed

definition unlink_min :: "nat \<Rightarrow> nat \<Rightarrow> rb_tree_t \<Rightarrow> rb_tree_t" where
  "unlink_min z y T = (if parent_of T y = z then set_parent (child_of T DR y) y T
     else
       let Ta = transplant y (child_of T DR y) T;
           Tb = set_child DR y (child_of Ta DR z) Ta
       in set_parent (child_of Tb DR y) y Tb)"

lemma unlink_min_child:
  assumes f: "focus T k (N c l z (N cy L y ry))"
  shows "prepared (unlink_min z y T) k c z l y ry" and "parent_of (unlink_min z y T) (rt ry) = y"
proof -
  have fz: "parent_of T z = up k" "child_of T DL z = rt l" "color_of T z = c"
    using focus_node [of T k DL c l z "N cy L y ry"] f by auto
  have y: "parent_of T y = z" "child_of T DR y = rt ry" using f by (auto simp: focus_def)
  have T': "unlink_min z y T = set_parent (rt ry) y T" using y by (simp add: unlink_min_def)
  have n: "nil \<notin> set (kids k)" "nil \<notin> set (ids l)" "z \<noteq> nil" "y \<noteq> nil"
    using f path_not_nil repr_not_nil by (auto simp: focus_def)
  have a: "rt ry \<notin> set (kids k)" "rt ry \<notin> set (ids l)" "rt ry \<noteq> z" "rt ry \<noteq> y"
    using f n rt_in_ids [of ry] by (cases "ry = L"; auto simp: focus_def)+
  show "parent_of (unlink_min z y T) (rt ry) = y" by (simp add: T' heap_set)
  have "repr (t_heap (set_parent (rt ry) y T)) y ry"
    using repr_set_parent [of "t_heap T" y ry y] f by (cases "ry = L") (auto simp: focus_def heap_set)
  then show "prepared (unlink_min z y T) k c z l y ry"
    using f fz a y unfolding T' prepared_def
    by (auto simp: focus_def heap_set path_upd repr_upd simp del: fun_upd_apply)
       (auto simp: fun_upd_apply)
qed

lemma unlink_min_deeper:
  assumes f: "focus T k (N c l z (plug km (N cy L y ry)))" and km: "km \<noteq> []" and b: "before km = []"
  shows "prepared (unlink_min z y T) k c z l y (plug km ry)"
    and "ry = L \<Longrightarrow> parent_of (unlink_min z y T) nil = up km"
proof -
  let ?R = "plug km ry"
  have fy: "focus T (km @ F DR c z l # k) (N cy L y ry)" using f by (simp add: focus_plug focus_up_down)
  have y: "parent_of T y = up km" "child_of T DR y = rt ry" "y \<noteq> nil" "up (km @ F DR c z l # k) = up km"
    using focus_node [of T _ DL cy L y ry] fy km by (cases km rule: up.cases; auto)+
  have dis: "distinct (ids l @ ids ?R @ [y, z] @ kids k)" "distinct (ids ry)"
    "set (ids ry) \<inter> set (kids (km @ F DR c z l # k)) = {}" "up km \<noteq> z" "y \<notin> set (kids (km @ F DR c z l # k))"
    using f fy b up_in_kids [OF km] before_after_kids [of km] by (auto simp: focus_def ids_plug kids_append)
  define Ta where "Ta = transplant y (rt ry) T"
  have "repr (t_heap T) y ry" using fy by (simp add: focus_def)
  note ta = focus_transplant [OF fy _ this dis(2,3), of Ta]
  have fa: "focus Ta (km @ F DR c z l # k) ry" and pa: "parent_of Ta (rt ry) = up km"
    using ta(1,2) y(4) by (auto simp: Ta_def)
  have fk: "focus Ta k (N c l z ?R)" using fa by (simp add: focus_plug focus_up_down)
  have Rne: "?R \<noteq> L" using km ids_plug [of km ry] up_in_kids [OF km] before_after_kids [of km] b by (auto dest: arg_cong [of _ _ ids])
  have R: "rt ?R \<in> set (ids ?R)" "rt ?R \<noteq> nil"
    using rt_in_ids [OF Rne] fk Rne by (auto simp: focus_def rt_nil_iff)
  have ch: "child_of Ta DR z = rt ?R" using fk by (simp add: focus_def)
  have T': "unlink_min z y T = set_parent (rt ?R) y (set_child DR y (rt ?R) Ta)"
    using y(1,2) dis(4) ch unfolding unlink_min_def Ta_def [symmetric] by (simp add: Let_def heap_set Ta_def [symmetric])
  have n: "nil \<notin> set (kids k)" "nil \<notin> set (ids l)" "nil \<noteq> z" using fk path_not_nil repr_not_nil by (auto simp: focus_def)
  have o: "rt ?R \<noteq> y" "rt ?R \<noteq> z" "rt ?R \<notin> set (ids l)" "rt ?R \<notin> set (kids k)" "y \<notin> set (ids l)" "y \<notin> set (kids k)" "y \<noteq> z"
    "y \<notin> set (ids ?R)"
    using R(1) dis(1) by auto
  let ?h = "(t_heap Ta)(y := with_child DR (rt ?R) (t_heap Ta y), rt ?R := (t_heap Ta (rt ?R))\<lparr>rb_parent := y\<rparr>)"
  have h: "t_heap (unlink_min z y T) = ?h" "t_root (unlink_min z y T) = t_root Ta"
    using o(1) unfolding T' by (simp_all add: heap_set)
  have nh: "?h nil = t_heap Ta nil" "?h z = t_heap Ta z" using y(3) R(2) o by simp_all
  have "repr ?h y ?R"
    using repr_set_parent [of "t_heap Ta" z ?R y] fk Rne o by (simp add: focus_def fun_upd_twist [of y] repr_upd del: fun_upd_apply)
  moreover have "path ?h (t_root Ta) k z" "repr ?h z l" using fk o by (simp_all add: focus_def path_upd repr_upd del: fun_upd_apply)
  moreover have "child DR (?h y) = rt ?R" using o(1) by simp
  ultimately show "prepared (unlink_min z y T) k c z l y ?R"
    using fk unfolding prepared_def h nh by (simp add: focus_def)
  show "parent_of (unlink_min z y T) nil = up km" if "ry = L" using pa that unfolding h nh by simp
qed

lemma unlink_two_children:
  assumes f: "focus T k (N c l z r)" and inv: "rbtree_inv (plug k (N c l z r))" and lr: "l \<noteq> L" "r \<noteq> L"
  shows "\<exists>x cx T'. delete_unlink z T = Some (x, cx, T') \<and>
    unlinked T' x cx (before k @ ids l @ ids r @ after k)"
proof -
  let ?h = "t_heap T"
  have fz: "parent_of T z = up k" "child_of T DL z = rt l" "child_of T DR z = rt r" "color_of T z = c" "z \<noteq> nil"
    using focus_node [of T k DL c l z r] f by auto
  have nil: "rt l \<noteq> nil" "rt r \<noteq> nil" using f lr by (auto simp: focus_def rt_nil_iff)
  have fr: "focus T (F DR c z l # k) r" using f by (simp add: focus_up_down)
  from tree_min_ok [OF fr lr(2)] obtain km cy y ry where
    y: "tree_min T (rt r) = Some y" "r = plug km (N cy L y ry)" "before km = []" by blast
  have fy: "focus T (km @ F DR c z l # k) (N cy L y ry)" using fr y(2) by (simp add: focus_plug)
  have par: "parent_of T y = up (km @ F DR c z l # k)" "child_of T DR y = rt ry" "color_of T y = cy" "y \<noteq> nil"
    using focus_node [of T _ DL cy L y ry] fy by auto
  have dis: "distinct (ids l @ ids (plug km ry) @ [y, z] @ kids k)" and disr: "distinct (ids ry)"
    "set (ids ry) \<inter> set (kids (km @ F DR c z l # k)) = {}"
    using f fy y(2,3) by (auto simp: focus_def ids_plug kids_append)
  have idr: "ids r = y # ids ry @ after km" using y(2,3) by (simp add: ids_plug)
  let ?R = "plug km ry" and ?T1 = "unlink_min z y T"
  have q: "prepared ?T1 k c z l y ?R" "ry = L \<Longrightarrow> parent_of ?T1 nil = up (km @ F DR c y l # k)"
    using unlink_min_child [of T k c l z cy y ry] unlink_min_deeper [of T k c l z km cy y ry] f y(2,3)
    by (cases "km = []"; cases km rule: up.cases; auto)+
  note tp = focus_take_place [OF q(1) lr(1) dis par(4) fz(5)]
  have un: "delete_unlink z T = Some (rt ry, cy, take_place z y ?T1)"
    using nil y(1) fz par unfolding delete_unlink_def take_place_def unlink_min_def by (simp add: Let_def)
  let ?k = "km @ F DR c y l # k"
  have fk: "focus (take_place z y ?T1) ?k ry" using tp(1) by (simp add: focus_plug focus_up_down)
  have "parent_of (take_place z y ?T1) (rt ry) = up ?k"
    using focus_parent [OF fk] tp(2) q(2) by (cases "ry = L") auto
  moreover have "rbtree_inv (plug (km @ F DR c z l # k) (N cy L y ry))" using inv y(2) by (simp add: plug_append)
  then have "rbt (N cy L y ry)" "kok ?k cy (bh (N cy L y ry))"
    by (auto simp: rbtree_inv_plug kok_rename [of km DR c z l k _ _ y])
  then have "rbt ry" "if cy = Black then kok ?k Black (bh ry + 1) else kok ?k (colr ry) (bh ry)"
    using kok_Black [of ?k cy] by (cases cy; auto)+
  moreover have "ids (plug ?k ry) = before k @ ids l @ ids r @ after k"
    using y(3) idr by (simp add: ids_plug before_append after_append)
  ultimately have "unlinked (take_place z y ?T1) (rt ry) cy (before k @ ids l @ ids r @ after k)"
    unfolding unlinked_def using fk by (intro exI [of _ ?k] exI [of _ ry]) auto
  then show ?thesis using un by blast
qed

section \<open>Rebalancing after a deletion\<close>

text \<open>The hole of a path, whose parent pointer is right even when the hole is empty.\<close>

definition at_hole :: "rb_tree_t \<Rightarrow> frame list \<Rightarrow> ctree \<Rightarrow> bool" where
  "at_hole T k t \<longleftrightarrow> focus T k t \<and> parent_of T (rt t) = up k"

lemma sel_set_color [simp]:
  "parent_of (set_color a c T) z = parent_of T z" "child_of (set_color a c T) d z = child_of T d z"
  by (simp_all add: heap_set)

lemma at_hole_set_color: "focus (set_color a c T) k' t \<Longrightarrow> at_hole T k t \<Longrightarrow> up k' = up k \<Longrightarrow> at_hole (set_color a c T) k' t"
  by (simp add: at_hole_def)

lemma at_hole_same_nil:
  "focus T' k' t \<Longrightarrow> at_hole T k t \<Longrightarrow> up k' = up k \<Longrightarrow> t_heap T' nil = t_heap T nil \<Longrightarrow> at_hole T' k' t"
  using focus_parent [of T' k' t] by (cases "t = L") (auto simp: at_hole_def)

text \<open>The sibling in the frame at the hole, turned into a hole of its own and back.\<close>

lemma focus_swap: "focus T (F d e a s # k) t \<longleftrightarrow> focus T (F (opp d) e a t # k) s"
  by (simp add: focus_up_down nd_opp)

lemma delete_red_sibling:
  assumes h: "at_hole T (F d e a (nd d Red s1 w s2) # k) t" and x: "x = rt t"
    and T': "T' = rotate d a (set_color a Red (set_color w Black T))"
  shows "at_hole T' (F d Red a s1 # F d Black w s2 # k) t"
proof -
  have f: "focus T (F d e a (nd d Red s1 w s2) # k) t" using h by (simp add: at_hole_def)
  have "focus (set_color w Black T) (F d e a (nd d Black s1 w s2) # k) t"
    by (rule focus_set_color_sibling [OF f])
  from focus_set_color_up [OF this, of Red] have f2: "focus (set_color a Red (set_color w Black T)) k (nd (opp d) Red (nd d Black s1 w s2) a t)"
    by (simp add: focus_up_down nd_opp)
  then have "focus (set_color a Red (set_color w Black T)) k (nd d Red t a (nd d Black s1 w s2))" by (simp add: nd_opp)
  from focus_rotate [OF this] have "focus T' (F d Red a s1 # F d Black w s2 # k) t"
    "t_heap T' nil = t_heap (set_color a Red (set_color w Black T)) nil" by (simp_all add: focus_up_down T')
  moreover have "a \<noteq> nil" "w \<noteq> nil" using f by (auto simp: focus_def)
  ultimately show ?thesis using at_hole_same_nil [OF _ h] by (simp add: heap_set)
qed

lemma delete_near_red:
  assumes h: "at_hole T (F d e a (nd d Black (nd d Red s11 v s12) w s2) # k) t"
    and T': "T' = rotate (opp d) w (set_color w Red (set_color v Black T))"
  shows "at_hole T' (F d e a (nd d Black s11 v (nd d Red s12 w s2)) # k) t"
proof -
  have f: "focus T (F d e a (nd d Black (nd d Red s11 v s12) w s2) # k) t" using h by (simp add: at_hole_def)
  then have "focus T (F d Black w s2 # F (opp d) e a t # k) (nd d Red s11 v s12)"
    by (simp only: focus_up_down nd_opp)
  from focus_set_color_up [OF focus_set_color [OF this, of Black], of Red]
  have "focus (set_color w Red (set_color v Black T)) (F (opp d) e a t # k) (nd (opp d) Red s2 w (nd (opp d) Black s12 v s11))"
    by (simp add: focus_up_down [of _ d] nd_opp)
  from focus_rotate [OF this] have "focus T' (F (opp d) e a t # k) (nd d Black s11 v (nd d Red s12 w s2))"
    "t_heap T' nil = t_heap (set_color w Red (set_color v Black T)) nil" by (simp_all add: nd_opp T')
  moreover have "v \<noteq> nil" "w \<noteq> nil" using f by (auto simp: focus_def)
  ultimately show ?thesis using at_hole_same_nil [OF _ h] by (simp add: heap_set focus_swap [of _ d])
qed

lemma delete_far_red:
  assumes h: "at_hole T (F d e a (nd d Black s1 w s2) # k) t" and s2: "s2 \<noteq> L"
    and T': "T' = rotate d a (set_color (rt s2) Black (set_color a Black (set_color w e T)))"
  shows "focus T' k (nd d e (nd d Black t a s1) w (paint Black s2))"
proof -
  have "focus T (F d e a (nd d Black s1 w s2) # k) t" using h by (simp add: at_hole_def)
  from focus_set_color_up [OF focus_set_color_sibling [OF this, of e], of Black]
  have "focus (set_color a Black (set_color w e T)) (F (opp d) e w s1 # F (opp d) Black a t # k) s2"
    by (simp add: focus_swap [of _ d] focus_up_down [of _ "opp d" _ w] nd_opp)
  from focus_paint [OF this s2, of Black]
  have "focus (set_color (rt s2) Black (set_color a Black (set_color w e T))) k (nd d Black t a (nd d e s1 w (paint Black s2)))"
    by (simp add: focus_up_down nd_opp)
  from focus_rotate(1) [OF this] show ?thesis by (simp add: T')
qed

text \<open>A turn of the loop once the sibling \<open>w\<close> is black.\<close>

definition delete_fixup_rest :: "dir \<Rightarrow> nat \<Rightarrow> nat \<Rightarrow> rb_tree_t \<Rightarrow> nat \<times> rb_tree_t" where
  "delete_fixup_rest d x w T =
     (if color_of T (child_of T d w) = Black \<and> color_of T (child_of T (opp d) w) = Black
      then let T1 = set_color w Red T in (parent_of T1 x, T1)
      else
        let (w, T) = (if color_of T (child_of T (opp d) w) = Black
              then
                let T1 = set_color (child_of T d w) Black T;
                    T2 = set_color w Red T1;
                    T3 = rotate (opp d) w T2
                in (child_of T3 (opp d) (parent_of T3 x), T3)
              else (w, T));
            T1 = set_color w (color_of T (parent_of T x)) T;
            T2 = set_color (parent_of T1 x) Black T1;
            T3 = set_color (child_of T2 (opp d) w) Black T2;
            T4 = rotate d (parent_of T3 x) T3
        in (t_root T4, T4))"

lemma delete_fixup_turn_rest:
  "delete_fixup_turn d x T =
     (let w = child_of T (opp d) (parent_of T x)
      in if color_of T w = Red
         then
           let T3 = rotate d (parent_of T x) (set_color (parent_of T x) Red (set_color w Black T))
           in delete_fixup_rest d x (child_of T3 (opp d) (parent_of T3 x)) T3
         else delete_fixup_rest d x w T)"
  by (simp add: delete_fixup_turn_def delete_fixup_rest_def Let_def)

lemma at_hole_reads:
  assumes "at_hole T (F d e a s # k) t"
  shows "parent_of T (rt t) = a" "child_of T (opp d) a = rt s" "color_of T a = e" "color_of T (rt s) = colr s"
  using assms focus_up focus_sibling_color by (auto simp: at_hole_def)

lemma sibling_reads:
  assumes "at_hole T (F d e a (nd d c s1 w s2) # k) t"
  shows "child_of T d w = rt s1" "child_of T (opp d) w = rt s2" "color_of T (rt s1) = colr s1" "color_of T (rt s2) = colr s2"
proof -
  have f: "focus T (F (opp d) e a t # k) (nd d c s1 w s2)" using assms by (simp add: at_hole_def focus_swap [of T d])
  show "child_of T d w = rt s1" "child_of T (opp d) w = rt s2" using focus_node [OF f] by auto
  have "focus T (F d c w s2 # F (opp d) e a t # k) s1" using f by (simp only: focus_up_down)
  from focus_color [OF this] focus_sibling_color [OF this]
  show "color_of T (rt s1) = colr s1" "color_of T (rt s2) = colr s2" by auto
qed

text \<open>The rotations at the end of a turn, when the far child of the sibling is red.\<close>

lemma delete_rest_far_red:
  assumes h: "at_hole T (F d e a (nd d Black s1 w s2) # k) t" and s2: "colr s2 = Red" and x: "x = rt t"
  shows "\<exists>T'. delete_fixup_rest d x w T = (t_root T', T') \<and> focus T' k (nd d e (nd d Black t a s1) w (paint Black s2))"
proof -
  note r = at_hole_reads [OF h] sibling_reads [OF h]
  have "s2 \<noteq> L" using s2 by auto
  from delete_far_red [OF h this refl] show ?thesis
    using r s2 x by (simp add: delete_fixup_rest_def Let_def)
qed

lemma delete_rest_near_red:
  assumes h: "at_hole T (F d e a (nd d Black (nd d Red s11 v s12) w s2) # k) t" and s2: "colr s2 = Black" and x: "x = rt t"
  shows "\<exists>T'. delete_fixup_rest d x w T = (t_root T', T') \<and>
    focus T' k (nd d e (nd d Black t a s11) v (nd d Black s12 w s2))"
proof -
  note r = at_hole_reads [OF h] sibling_reads [OF h]
  let ?T = "rotate (opp d) w (set_color w Red (set_color v Black T))"
  have h2: "at_hole ?T (F d e a (nd d Black s11 v (nd d Red s12 w s2)) # k) t" by (rule delete_near_red [OF h refl])
  note r2 = at_hole_reads [OF h2] sibling_reads [OF h2]
  have "delete_fixup_rest d x w T = delete_fixup_rest d x v ?T"
    using r r2 s2 x by (simp add: delete_fixup_rest_def Let_def)
  with delete_rest_far_red [OF h2 _ x] show ?thesis by simp
qed

lemma delete_rest_black:
  assumes h: "at_hole T (F d e a (nd d Black s1 w s2) # k) t" and s: "colr s1 = Black" "colr s2 = Black" and x: "x = rt t"
  shows "\<exists>T'. delete_fixup_rest d x w T = (a, T') \<and> focus T' k (nd d e t a (nd d Red s1 w s2))"
proof -
  note r = at_hole_reads [OF h] sibling_reads [OF h]
  have "focus T (F d e a (nd d Black s1 w s2) # k) t" using h by (simp add: at_hole_def)
  from focus_set_color_sibling [OF this, of Red] show ?thesis
    using r s x by (simp add: delete_fixup_rest_def Let_def focus_up_down)
qed

text \<open>Leaving the loop: at the root or at a red node.\<close>

lemma delete_fixup_end:
  assumes f: "focus T k t" and x: "x = rt t" and e: "k = [] \<or> colr t = Red" and i: "rbt (paint Black t)" "kok k Black (bh t + 1)"
  shows "\<exists>T' t'. delete_fixup x T = Some T' \<and> focus T' [] t' \<and> ids t' = ids (plug k t) \<and> rbtree_inv t'"
proof -
  have run: "delete_fixup x T = Some (set_color x Black T)"
    using e focus_root [of T t] focus_color [OF f] f x by (auto simp: delete_fixup.simps [of "rt t" T])
  show ?thesis
  proof (cases "t = L")
    case True
    then have "k = []" using e by auto
    moreover have "focus (set_color x Black T) [] L" using f True x \<open>k = []\<close> by (simp add: focus_def heap_set)
    ultimately show ?thesis using run True by (intro exI [of _ "set_color x Black T"] exI [of _ L]) (simp add: rbtree_inv_def)
  next
    case False
    have f2: "focus (set_color x Black T) [] (plug k (paint Black t))"
      using focus_paint [OF f False] x focus_plug_all by blast
    have "rbtree_inv (plug k (paint Black t))"
    proof (cases "k = []")
      case True
      then show ?thesis using i(1) False by (cases t) (auto simp: rbtree_inv_def)
    next
      case k: False
      then have "colr t = Red" using e by simp
      then have "bh (paint Black t) = bh t + 1" "colr (paint Black t) = Black" by (cases t; simp)+
      then show ?thesis using i by (simp add: rbtree_inv_plug)
    qed
    then show ?thesis using run f2 by (intro exI [of _ "set_color x Black T"] exI [of _ "plug k (paint Black t)"]) (simp add: ids_plug)
  qed
qed

lemma root_in_kids: "path h root k x \<Longrightarrow> k \<noteq> [] \<Longrightarrow> root \<in> set (kids k)"
proof (induction k arbitrary: x)
  case (Cons f k)
  obtain d c a s where f: "f = F d c a s" by (cases f)
  then show ?case using Cons by (cases "k = []") auto
qed simp

text \<open>
  One turn with a black sibling from a black hole that is one too low: either the hole moves
  up, or the tree is in order and the loop ends at the root.
\<close>

definition repaired :: "rb_tree_t \<Rightarrow> nat list \<Rightarrow> bool" where
  "repaired T xs \<longleftrightarrow> (\<exists>t. focus T [] t \<and> ids t = xs \<and> rbtree_inv t)"

lemma repaired_end:
  assumes f: "focus T k u" and i: "rbt u" "kok k (colr u) (bh u)"
  shows "\<exists>T'. delete_fixup (t_root T) T = Some T' \<and> repaired T' (ids (plug k u))"
proof -
  have inv: "rbtree_inv (plug k u)" using i by (simp add: rbtree_inv_plug)
  have f0: "focus T [] (plug k u)" using f focus_plug_all by blast
  have rb: "rbt (paint Black (plug k u))" using inv by (simp add: rbtree_inv_def rbt_paint_Black)
  have "kok [] Black (bh (plug k u) + 1)" by simp
  from delete_fixup_end [OF f0 focus_root [OF f0] _ rb this] show ?thesis
    unfolding repaired_def by auto
qed

lemma delete_turn_black:
  assumes h: "at_hole T (F d e a (nd d Black s1 w s2) # k) t" and x: "x = rt t"
    and t: "rbt t" "colr t = Black" and s: "rbt (nd d Black s1 w s2)" "bh s1 = bh t"
    and k: "kok k e (bh t + 1 + (if e = Black then 1 else 0))"
  shows "(\<exists>T' u. delete_fixup_rest d x w T = (rt u, T') \<and> focus T' k u \<and> u \<noteq> L \<and> rbt (paint Black u) \<and> colr u = e \<and>
      kok k Black (bh u + 1) \<and> ids u = ids (nd d e t a (nd d Black s1 w s2))) \<or>
    (\<exists>T' T'' x'. delete_fixup_rest d x w T = (x', T') \<and> delete_fixup x' T' = Some T'' \<and>
      repaired T'' (ids (plug k (nd d e t a (nd d Black s1 w s2)))))"
proof -
  have b: "rbt s1" "rbt s2" "bh s2 = bh t" using s by auto
  consider "colr s1 = Black" "colr s2 = Black" | "colr s2 = Red" | "colr s1 = Red" "colr s2 = Black"
    by (metis rb_color.exhaust)
  then show ?thesis
  proof cases
    case 1
    from delete_rest_black [OF h 1 x] obtain T' where
      "delete_fixup_rest d x w T = (a, T')" "focus T' k (nd d e t a (nd d Red s1 w s2))" by blast
    moreover have "ids (nd d e t a (nd d Red s1 w s2)) = ids (nd d e t a (nd d Black s1 w s2))"
      by (cases d) simp_all
    moreover have "kok k Black (bh (nd d e t a (nd d Red s1 w s2)) + 1)"
      using k b s(2) kok_Black [of k e] by (simp add: bh_nd_eq add.commute)
    ultimately show ?thesis using t b s 1
      by (intro disjI1 exI [of _ T'] exI [of _ "nd d e t a (nd d Red s1 w s2)"]) (simp add: bh_nd_eq)
  next
    case 2
    then have "s2 \<noteq> L" "rbt (paint Black s2)" "bh (paint Black s2) = bh t + 1" using b by (cases s2; simp)+
    from delete_rest_far_red [OF h 2 x] obtain T' where T':
      "delete_fixup_rest d x w T = (t_root T', T')" "focus T' k (nd d e (nd d Black t a s1) w (paint Black s2))" by blast
    let ?u = "nd d e (nd d Black t a s1) w (paint Black s2)"
    have "rbt ?u" "kok k (colr ?u) (bh ?u)"
      using t b s k \<open>rbt (paint Black s2)\<close> \<open>bh (paint Black s2) = bh t + 1\<close> \<open>s2 \<noteq> L\<close>
      by (cases s2; auto simp: bh_nd_eq)+
    from repaired_end [OF T'(2) this] T'(1) show ?thesis
      by (intro disjI2) (cases d; auto simp: ids_plug)
  next
    case 3
    then obtain s11 v s12 where s1: "s1 = nd d Red s11 v s12" using not_L_nd [of s1]
      by (cases s1) (auto, metis ctree_as_nd)
    from delete_rest_near_red [OF h [unfolded s1] 3(2) x] obtain T' where T':
      "delete_fixup_rest d x w T = (t_root T', T')" "focus T' k (nd d e (nd d Black t a s11) v (nd d Black s12 w s2))" by blast
    let ?u = "nd d e (nd d Black t a s11) v (nd d Black s12 w s2)"
    have "rbt ?u" "kok k (colr ?u) (bh ?u)"
      using t b s k s1 by (auto simp: bh_nd_eq)
    from repaired_end [OF T'(2) this] T'(1) show ?thesis unfolding s1
      by (intro disjI2) (cases d; auto simp: ids_plug)
  qed
qed

lemma delete_fixup_ok:
  assumes "at_hole T k t" and "rbt (paint Black t)" and "kok k Black (bh t + 1)"
  shows "\<exists>T'. delete_fixup (rt t) T = Some T' \<and> repaired T' (ids (plug k t))"
  using assms
proof (induction "length k" arbitrary: k T t rule: less_induct)
  case less
  have f: "focus T k t" using less.prems(1) by (simp add: at_hole_def)
  show ?case
  proof (cases "k = [] \<or> colr t = Red")
    case True
    from delete_fixup_end [OF f refl True less.prems(2,3)] show ?thesis unfolding repaired_def by blast
  next
    case False
    then obtain fr k1 where k: "k = fr # k1" and tb: "colr t = Black" by (cases k) (auto simp: color_not)
    obtain d e a s where fr: "fr = F d e a s" by (cases fr)
    have t: "rbt t" using less.prems(2) tb by (cases t) auto
    have s: "rbt s" "bh s = bh t + 1" "e = Red \<Longrightarrow> colr s = Black"
      and k1: "kok k1 e (bh t + 1 + (if e = Black then 1 else 0))" using less.prems(3) k fr by auto
    have sne: "s \<noteq> L" using s(2) by auto
    then obtain sc s1 w s2 where sn: "s = nd d sc s1 w s2" by (metis ctree.exhaust ctree_as_nd)
    have h: "at_hole T (F d e a s # k1) t" using less.prems(1) k fr by simp
    note rd = at_hole_reads [OF h]
    have side: "rt t = child_of T DL a \<longleftrightarrow> d = DL"
      using focus_side [of T d e a s k1 t DL] f k fr sne by simp
    have "rt t \<noteq> t_root T"
      using f k root_in_kids [of "t_heap T" "t_root T" k "rt t"] rt_in_ids [of t] path_not_nil [of "t_heap T" "t_root T" k "rt t"]
      by (cases "t = L") (auto simp: focus_def)
    then have run: "delete_fixup (rt t) T = (case delete_fixup_turn d (rt t) T of (x', T') \<Rightarrow> delete_fixup x' T')"
    proof -
      assume nr: "rt t \<noteq> t_root T"
      have c: "color_of T (rt t) = Black" using focus_color [OF f] tb by simp
      have "(if rt t = child_of T DL (parent_of T (rt t)) then DL else DR) = d"
        using side rd(1) by (cases d) auto
      then show ?thesis
        unfolding delete_fixup.simps [of "rt t"] Let_def using nr c by (simp only: simp_thms if_True)
    qed
    show ?thesis
    proof (cases sc)
      case Black
      have turn: "delete_fixup_turn d (rt t) T = delete_fixup_rest d (rt t) w T"
        using rd sn Black by (simp add: delete_fixup_turn_rest Let_def)
      have "bh s1 = bh t" using s(1,2) sn Black by (simp add: bh_nd_eq)
      from delete_turn_black [OF h [unfolded sn Black] refl t tb s(1) [unfolded sn Black] this k1]
      consider (up) T' u where "delete_fixup_rest d (rt t) w T = (rt u, T')" "focus T' k1 u" "u \<noteq> L"
          "rbt (paint Black u)" "kok k1 Black (bh u + 1)" "ids u = ids (nd d e t a s)"
        | (fin) T' T'' x' where "delete_fixup_rest d (rt t) w T = (x', T')" "delete_fixup x' T' = Some T''"
          "repaired T'' (ids (plug k1 (nd d e t a s)))"
        unfolding sn Black by blast
      then show ?thesis
      proof cases
        case up
        have "at_hole T' k1 u" using up(2,3) focus_parent by (simp add: at_hole_def)
        moreover have "ids (plug k1 u) = ids (plug k t)" using up(6) k fr by (simp add: ids_plug)
        ultimately show ?thesis using less.hyps [of k1 T' u] up k run turn by simp
      next
        case fin
        then show ?thesis using run turn k fr by simp
      qed
    next
      case Red
      then have e: "e = Black" using s(3) sn by (cases e) auto
      let ?T = "rotate d a (set_color a Red (set_color w Black T))"
      have h2: "at_hole ?T (F d Red a s1 # F d Black w s2 # k1) t"
        by (rule delete_red_sibling [OF h [unfolded sn Red] refl refl])
      note rd2 = at_hole_reads [OF h2]
      have b: "rbt s1" "rbt s2" "colr s1 = Black" "bh s1 = bh t + 1" "bh s2 = bh t + 1"
        using s sn Red by (auto simp: bh_nd_eq)
      then obtain s3 v s4 where s1: "s1 = nd d Black s3 v s4"
        by (cases s1) (simp, metis ctree_as_nd colr.simps(2))
      have turn: "delete_fixup_turn d (rt t) T = delete_fixup_rest d (rt t) v ?T"
        using rd rd2 sn Red s1 by (simp add: delete_fixup_turn_rest Let_def)
      have "bh s3 = bh t" using b(1,4) s1 by (simp add: bh_nd_eq)
      moreover have "kok (F d Black w s2 # k1) Red (bh t + 1 + (if Red = Black then 1 else 0))"
        using b k1 e by simp
      ultimately consider (up) T' u where "delete_fixup_rest d (rt t) v ?T = (rt u, T')" "focus T' (F d Black w s2 # k1) u" "u \<noteq> L"
          "rbt (paint Black u)" "colr u = Red" "kok (F d Black w s2 # k1) Black (bh u + 1)" "ids u = ids (nd d Red t a s1)"
        | (fin) T' T'' x' where "delete_fixup_rest d (rt t) v ?T = (x', T')" "delete_fixup x' T' = Some T''"
          "repaired T'' (ids (plug (F d Black w s2 # k1) (nd d Red t a s1)))"
        using delete_turn_black [OF h2 [unfolded s1] refl t tb b(1) [unfolded s1]] unfolding s1 by blast
      then show ?thesis
      proof cases
        case up
        have "ids (plug (F d Black w s2 # k1) u) = ids (plug k t)"
          using up(7) k fr sn by (cases d) (simp_all add: ids_plug)
        with delete_fixup_end [OF up(2) refl _ up(4,6)] up(1,5) run turn show ?thesis
          unfolding repaired_def by auto
      next
        case fin
        have "ids (plug (F d Black w s2 # k1) (nd d Red t a s1)) = ids (plug k t)"
          using k fr sn by (cases d) (simp_all add: ids_plug)
        with fin show ?thesis using run turn by simp
      qed
    qed
  qed
qed

section \<open>Deletion\<close>

lemma ids_split: "z \<in> set (ids t) \<Longrightarrow> \<exists>k c l r. t = plug k (N c l z r)"
proof (induction t)
  case (N c l a r)
  consider "z = a" | "z \<in> set (ids l)" | "z \<in> set (ids r)" using N.prems by auto
  then show ?case
  proof cases
    case 1
    then show ?thesis by (metis plug.simps(1))
  next
    case 2
    with N.IH(1) obtain k c' l' r' where "l = plug k (N c' l' z r')" by blast
    then have "N c l a r = plug (k @ [F DL c a r]) (N c' l' z r')" by (simp add: plug_append)
    then show ?thesis by blast
  next
    case 3
    with N.IH(2) obtain k c' l' r' where "r = plug k (N c' l' z r')" by blast
    then have "N c l a r = plug (k @ [F DR c a l]) (N c' l' z r')" by (simp add: plug_append)
    then show ?thesis by blast
  qed
qed simp

lemma delete_unlink_ok:
  assumes f: "focus T k (N c l z r)" and inv: "rbtree_inv (plug k (N c l z r))"
  shows "\<exists>x cx T'. delete_unlink z T = Some (x, cx, T') \<and> unlinked T' x cx (before k @ ids l @ ids r @ after k)"
proof -
  have fz: "child_of T DL z = rt l" "child_of T DR z = rt r" "color_of T z = c"
    using focus_node [of T k DL c l z r] f by auto
  have nil: "rt l = nil \<longleftrightarrow> l = L" "rt r = nil \<longleftrightarrow> r = L" using f by (auto simp: focus_def rt_nil_iff)
  consider "l = L" | "l \<noteq> L" "r = L" | "l \<noteq> L" "r \<noteq> L" by blast
  then show ?thesis
  proof cases
    case 1
    with unlink_one_child [OF f inv, of r] fz nil show ?thesis by (simp add: delete_unlink_def)
  next
    case 2
    with unlink_one_child [OF f inv, of l] fz nil show ?thesis by (simp add: delete_unlink_def)
  next
    case 3
    with unlink_two_children [OF f inv] show ?thesis by blast
  qed
qed

lemma rbtree_delete_ok:
  assumes f: "focus T [] t" and inv: "rbtree_inv t" and z: "z \<in> set (ids t)"
  shows "\<exists>T'. rbtree_delete z T = Some T' \<and> repaired T' (remove1 z (ids t))"
proof -
  obtain k c l r where t: "t = plug k (N c l z r)" using ids_split [OF z] by blast
  have fk: "focus T k (N c l z r)" using f t focus_plug_all by blast
  have "distinct (ids t)" using f by (simp add: focus_def)
  then have rm: "remove1 z (ids t) = before k @ ids l @ ids r @ after k"
    unfolding t ids_plug by (simp add: remove1_append)
  from delete_unlink_ok [OF fk] inv t obtain x cx T' where
    u: "delete_unlink z T = Some (x, cx, T')" "unlinked T' x cx (remove1 z (ids t))" unfolding rm by blast
  then obtain k' t' where kt: "focus T' k' t'" "rt t' = x" "parent_of T' x = up k'" "ids (plug k' t') = remove1 z (ids t)"
    "rbt t'" "if cx = Black then kok k' Black (bh t' + 1) else kok k' (colr t') (bh t')"
    unfolding unlinked_def by blast
  show ?thesis
  proof (cases cx)
    case Black
    then show ?thesis using delete_fixup_ok [of T' k' t'] kt u(1)
      by (simp add: rbtree_delete_def at_hole_def rbt_paint_Black)
  next
    case Red
    then have "rbtree_inv (plug k' t')" using kt(5,6) by (simp add: rbtree_inv_plug)
    moreover have "focus T' [] (plug k' t')" using kt(1) focus_plug_all by blast
    ultimately have "repaired T' (remove1 z (ids t))" unfolding repaired_def using kt(4) by blast
    then show ?thesis using u(1) Red by (simp add: rbtree_delete_def)
  qed
qed

lemma rbtree_min_ok:
  assumes "focus T [] t"
  shows "rbtree_min T = Some (case ids t of [] \<Rightarrow> None | z # zs \<Rightarrow> Some z)"
proof (cases "t = L")
  case True
  then show ?thesis using focus_root [OF assms] by (simp add: rbtree_min_def)
next
  case False
  from tree_min_ok [OF assms this] obtain km cy y ry where
    "tree_min T (rt t) = Some y" "t = plug km (N cy L y ry)" "before km = []" by blast
  moreover have "t_root T \<noteq> nil" using False focus_root [OF assms] focus_rt_nil [OF assms] by simp
  ultimately show ?thesis using focus_root [OF assms] by (simp add: rbtree_min_def ids_plug)
qed

text \<open>A path from the root to a leaf is at most about twice as long as the logarithm of the number of nodes.\<close>

fun levels :: "ctree \<Rightarrow> nat" where
  "levels L = 0"
| "levels (N c l a r) = Suc (max (levels l) (levels r))"

lemma rbt_levels: "rbt t \<Longrightarrow> levels t \<le> 2 * bh t + (if colr t = Red then 1 else 0)"
proof (induction t)
  case (N c l a r)
  then show ?case by (cases c) (auto split: if_splits)
qed simp

lemma rbt_size: "rbt t \<Longrightarrow> 2 ^ bh t \<le> length (ids t) + 1"
proof (induction t)
  case (N c l a r)
  then have "2 ^ bh l \<le> length (ids l) + 1" "2 ^ bh r \<le> length (ids r) + 1" "bh l = bh r" by auto
  then show ?case by (cases c) auto
qed simp

lemma rbtree_inv_levels: "rbtree_inv t \<Longrightarrow> 2 ^ levels t \<le> (length (ids t) + 1) ^ 2"
proof -
  assume i: "rbtree_inv t"
  then have "levels t \<le> 2 * bh t" using rbt_levels [of t] by (simp add: rbtree_inv_def)
  then have "(2::nat) ^ levels t \<le> 2 ^ (2 * bh t)" by (rule power_increasing) simp
  also have "\<dots> = (2 ^ bh t) ^ 2" by (simp add: power_mult [symmetric] mult.commute)
  also have "\<dots> \<le> (length (ids t) + 1) ^ 2" using rbt_size i by (intro power_mono) (auto simp: rbtree_inv_def)
  finally show ?thesis .
qed

end
