(* ===== verification/Cfs.thy ===== *)
theory Cfs
  imports RbTreeDelete Interfaces
begin

text \<open>
  The fair scheduler of \<open>kernel/arch/x86_64/cfs.c\<close>: weights, the run queue over the red-black
  tree, its enqueue, dequeue and pick, and the accounting of virtual runtime. A task is named by
  the address of the tree node that is its first member, so that going from a node to its
  task is the identity; of its fields those are kept that the file reads. The state holds
  the run queue \<open>global_rq\<close>, on which the kernel schedules, and the tasks.
\<close>

section \<open>Data\<close>

abbreviation (input) CFS_NICE_MIN :: int where "CFS_NICE_MIN \<equiv> - 20"
abbreviation (input) CFS_NICE_MAX :: int where "CFS_NICE_MAX \<equiv> 19"
abbreviation (input) CFS_NICE_0_LOAD :: u64 where "CFS_NICE_0_LOAD \<equiv> 1024"
abbreviation (input) CFS_TARGET_LATENCY :: u64 where "CFS_TARGET_LATENCY \<equiv> 6000000"
abbreviation (input) CFS_TICK_NSEC :: u64 where "CFS_TICK_NSEC \<equiv> 1000000"

record cfs_task_t =
  ct_vruntime :: u64
  ct_sum_exec_runtime :: u64
  ct_nice :: int
  ct_load_weight :: u64
  ct_on_rq :: u32

record cfs_rq_t =
  tasks_timeline :: rb_tree_t
  rq_curr :: "nat option"
  rq_idle :: "nat option"
  min_vruntime :: u64
  exec_clock :: u64
  nr_running :: u32
  nr_tasks :: u32

record cfs_state =
  cs_rq :: cfs_rq_t
  cs_tasks :: "nat \<Rightarrow> cfs_task_t"
  cs_initialized :: bool
  cs_jiffies :: u64

definition nice_to_weight :: "u64 list" where
  "nice_to_weight = [
      88761, 71755, 56483, 46273, 36291,
      29154, 23254, 18705, 14949, 11916,
      9548,  7620,  6100,  4904,  3906,
      3121,  2501,  1991,  1586,  1277,
      1024,  820,   655,   526,   423,
      335,   272,   215,   172,   137,
      110,   87,    70,    56,    45,
      36,    29,    23,    18,    15]"

definition cfs_nice_to_weight :: "int \<Rightarrow> u64" where
  "cfs_nice_to_weight nice =
     (let nice = (if nice < CFS_NICE_MIN then CFS_NICE_MIN else nice);
          nice = (if nice > CFS_NICE_MAX then CFS_NICE_MAX else nice)
      in nice_to_weight ! nat (nice - CFS_NICE_MIN))"

section \<open>Operations\<close>

definition vruntime_of :: "cfs_state \<Rightarrow> nat \<Rightarrow> u64" where
  "vruntime_of s a = ct_vruntime (cs_tasks s a)"

definition cfs_rq_init :: "cfs_state \<Rightarrow> cfs_state" where
  "cfs_rq_init s = s\<lparr>cs_rq := (cs_rq s)\<lparr>
       tasks_timeline := rbtree_init (cs_initialized s) (tasks_timeline (cs_rq s)),
       min_vruntime := 0, exec_clock := 0, nr_running := 0, nr_tasks := 0, rq_curr := None, rq_idle := None\<rparr>,
     cs_initialized := True\<rparr>"

text \<open>The clearing of the whole task clears its tree node, too.\<close>

definition cfs_task_init :: "nat \<Rightarrow> int \<Rightarrow> cfs_state \<Rightarrow> cfs_state" where
  "cfs_task_init task nice s =
     (let rq = cs_rq s; T = tasks_timeline rq
      in s\<lparr>cs_rq := rq\<lparr>tasks_timeline :=
             T\<lparr>t_heap := (t_heap T)(task := \<lparr>rb_parent = 0, rb_left = 0, rb_right = 0, rb_color = Black\<rparr>)\<rparr>\<rparr>,
           cs_tasks := (cs_tasks s)(task := \<lparr>ct_vruntime = min_vruntime rq, ct_sum_exec_runtime = 0, ct_nice = nice,
             ct_load_weight = cfs_nice_to_weight nice, ct_on_rq = 0\<rparr>)\<rparr>)"

text \<open>The task's runtime is not left behind the queue's minimum by more than four periods.\<close>

definition cfs_clamp :: "nat \<Rightarrow> cfs_state \<Rightarrow> cfs_state" where
  "cfs_clamp task s =
     (let floor_vr = min_vruntime (cs_rq s) - CFS_TARGET_LATENCY * 4
      in if vruntime_of s task < floor_vr
         then s\<lparr>cs_tasks := (cs_tasks s)(task := (cs_tasks s task)\<lparr>ct_vruntime := floor_vr\<rparr>)\<rparr>
         else s)"

definition cfs_enqueue_task :: "nat \<Rightarrow> cfs_state \<Rightarrow> cfs_state option" where
  "cfs_enqueue_task task s =
     (if ct_on_rq (cs_tasks s task) \<noteq> 0 then Some s
      else
        let s1 = cfs_clamp task s; rq = cs_rq s1
        in map_option (\<lambda>T. s1\<lparr>
               cs_rq := rq\<lparr>tasks_timeline := T, nr_running := nr_running rq + 1, nr_tasks := nr_tasks rq + 1\<rparr>,
               cs_tasks := (cs_tasks s1)(task := (cs_tasks s1 task)\<lparr>ct_on_rq := 1\<rparr>)\<rparr>)
             (rbtree_insert (vruntime_of s1) task (tasks_timeline rq)))"

text \<open>The pointers of the node are set to \<open>NULL\<close>, which is not the sentinel.\<close>

definition cfs_dequeue_task :: "nat \<Rightarrow> cfs_state \<Rightarrow> cfs_state option" where
  "cfs_dequeue_task task s =
     (if ct_on_rq (cs_tasks s task) = 0 then Some s
      else
        let rq = cs_rq s
        in map_option (\<lambda>T. s\<lparr>
               cs_rq := rq\<lparr>tasks_timeline :=
                   T\<lparr>t_heap := (t_heap T)(task := (t_heap T task)\<lparr>rb_parent := 0, rb_left := 0, rb_right := 0\<rparr>)\<rparr>,
                 nr_running := nr_running rq - 1,
                 nr_tasks := (if nr_tasks rq > 0 then nr_tasks rq - 1 else nr_tasks rq)\<rparr>,
               cs_tasks := (cs_tasks s)(task := (cs_tasks s task)\<lparr>ct_on_rq := 0\<rparr>)\<rparr>)
             (rbtree_delete task (tasks_timeline rq)))"

definition cfs_pick_next_task :: "cfs_state \<Rightarrow> nat option option" where
  "cfs_pick_next_task s = map_option (\<lambda>n. case n of None \<Rightarrow> rq_idle (cs_rq s) | Some node \<Rightarrow> Some node)
     (rbtree_min (tasks_timeline (cs_rq s)))"

text \<open>\<open>None\<close> is a division by a weight of zero.\<close>

definition cfs_account_exec :: "nat option \<Rightarrow> u64 \<Rightarrow> cfs_state \<Rightarrow> cfs_state option" where
  "cfs_account_exec task delta_ns s = (case task of None \<Rightarrow> Some s
     | Some a \<Rightarrow>
         let t = cs_tasks s a; w = ct_load_weight t
         in if w \<noteq> CFS_NICE_0_LOAD \<and> w = 0 then None
            else
              let delta_exec = (if w \<noteq> CFS_NICE_0_LOAD then delta_ns * CFS_NICE_0_LOAD div w else delta_ns)
              in Some (s\<lparr>cs_tasks := (cs_tasks s)(a := t\<lparr>ct_vruntime := ct_vruntime t + delta_exec,
                           ct_sum_exec_runtime := ct_sum_exec_runtime t + delta_ns\<rparr>),
                         cs_rq := (cs_rq s)\<lparr>exec_clock := exec_clock (cs_rq s) + delta_ns\<rparr>\<rparr>))"

definition cfs_update_min_vruntime :: "cfs_state \<Rightarrow> cfs_state option" where
  "cfs_update_min_vruntime s = map_option (\<lambda>node.
     let rq = cs_rq s;
         m1 = (case node of None \<Rightarrow> min_vruntime rq
               | Some a \<Rightarrow> if vruntime_of s a > min_vruntime rq then vruntime_of s a else min_vruntime rq);
         m2 = (case rq_curr rq of None \<Rightarrow> m1
               | Some c \<Rightarrow> if vruntime_of s c > m1 then vruntime_of s c else m1)
     in s\<lparr>cs_rq := rq\<lparr>min_vruntime := m2\<rparr>\<rparr>) (rbtree_min (tasks_timeline (cs_rq s)))"

text \<open>
  The tick compares the runtimes of the current and the first task with the slice, but the
  body of that comparison is empty, so the slice has no effect and is left out.
\<close>

definition cfs_scheduler_tick :: "cfs_state \<Rightarrow> cfs_state option" where
  "cfs_scheduler_tick s =
     (let s1 = s\<lparr>cs_jiffies := cs_jiffies s + 1\<rparr>
      in case rq_curr (cs_rq s1) of None \<Rightarrow> Some s1
         | Some cu \<Rightarrow>
             Option.bind (cfs_account_exec (Some cu) CFS_TICK_NSEC s1) (\<lambda>s2.
               Option.bind (cfs_pick_next_task s2) (\<lambda>nx. cfs_update_min_vruntime s2)))"

section \<open>The run queue as a list\<close>

text \<open>
  \<open>cfs_queue s xs\<close>: the tree is a red-black tree whose in-order list is \<open>xs\<close>, ordered by virtual
  runtime; exactly its tasks are marked as queued, and the counters agree.
\<close>

definition cfs_queue :: "cfs_state \<Rightarrow> nat list \<Rightarrow> bool" where
  "cfs_queue s xs \<longleftrightarrow> repaired (tasks_timeline (cs_rq s)) xs \<and> sorted (map (vruntime_of s) xs) \<and>
     (\<forall>a. ct_on_rq (cs_tasks s a) \<noteq> 0 \<longleftrightarrow> a \<in> set xs) \<and>
     nr_running (cs_rq s) = of_nat (length xs) \<and> nr_tasks (cs_rq s) = of_nat (length xs) \<and> length xs < 2 ^ 32"

lemma repaired_distinct: "repaired T xs \<Longrightarrow> distinct xs \<and> nil \<notin> set xs"
  by (auto simp: repaired_def focus_def repr_not_nil)

lemma repaired_unique: "repaired T xs \<Longrightarrow> repaired T ys \<Longrightarrow> xs = ys"
proof -
  have "repr h p t \<Longrightarrow> repr h q u \<Longrightarrow> rt t = rt u \<Longrightarrow> t = u" for h p q t u
  proof (induction t arbitrary: p q u)
    case L
    then show ?case using rt_nil_iff [of h q u] by simp
  next
    case (N c l a r)
    then have "u \<noteq> L" by auto
    then obtain c' l' a' r' where u: "u = N c' l' a' r'" by (cases u) auto
    with N.prems have "a' = a" "c' = c" "rt l = rt l'" "rt r = rt r'" "repr h a l" "repr h a r" "repr h a l'" "repr h a r'"
      by auto
    with N.IH u show ?case by metis
  qed
  then show "repaired T xs \<Longrightarrow> repaired T ys \<Longrightarrow> xs = ys"
    unfolding repaired_def focus_def by (metis path.simps(1))
qed

lemma cfs_queue_unique: "cfs_queue s xs \<Longrightarrow> cfs_queue s ys \<Longrightarrow> xs = ys"
  by (auto simp: cfs_queue_def intro: repaired_unique)

text \<open>
  The same list computed from the heap: the tree of a queue of less than \<open>2^32\<close> tasks has at
  most 64 levels, so 64 as the depth of the walk is enough.
\<close>

fun tree_list :: "nat \<Rightarrow> rb_tree_t \<Rightarrow> nat \<Rightarrow> nat list" where
  "tree_list 0 T x = []"
| "tree_list (Suc n) T x = (if x = nil then []
     else tree_list n T (child_of T DL x) @ x # tree_list n T (child_of T DR x))"

definition cfs_list :: "cfs_state \<Rightarrow> nat list" where
  "cfs_list s = tree_list 64 (tasks_timeline (cs_rq s)) (t_root (tasks_timeline (cs_rq s)))"

lemma tree_list_ok: "repr (t_heap T) p t \<Longrightarrow> levels t \<le> n \<Longrightarrow> tree_list n T (rt t) = ids t"
proof (induction t arbitrary: p n)
  case L
  then show ?case by (cases n) auto
next
  case (N c l a r)
  then obtain m where n: "n = Suc m" "levels l \<le> m" "levels r \<le> m" by (cases n) auto
  with N.prems N.IH(1) [of a m] N.IH(2) [of a m] show ?case by simp
qed

lemma cfs_list_ok:
  assumes "cfs_queue s xs"
  shows "cfs_list s = xs"
proof -
  let ?T = "tasks_timeline (cs_rq s)"
  obtain t where t: "focus ?T [] t" "ids t = xs" "rbtree_inv t" "length xs < 2 ^ 32"
    using assms by (auto simp: cfs_queue_def repaired_def)
  have "2 ^ levels t \<le> (length xs + 1) ^ 2" using rbtree_inv_levels [OF t(3)] t(2) by simp
  also have "\<dots> \<le> (2 ^ 32) ^ 2" using t(4) by (intro power_mono) auto
  also have "\<dots> = (2::nat) ^ 64" by simp
  finally have "levels t \<le> 64" using power_increasing_iff [of "2::nat" "levels t" 64] by simp
  with tree_list_ok [of ?T nil t 64] t show ?thesis by (simp add: cfs_list_def focus_def)
qed

section \<open>What the operations do to the queue\<close>

lemma cfs_clamp_sel [simp]:
  "cs_rq (cfs_clamp task s) = cs_rq s" "ct_on_rq (cs_tasks (cfs_clamp task s) a) = ct_on_rq (cs_tasks s a)"
  "vruntime_of (cfs_clamp task s) a = (if a = task
     then max (vruntime_of s task) (min_vruntime (cs_rq s) - CFS_TARGET_LATENCY * 4) else vruntime_of s a)"
  by (auto simp: cfs_clamp_def Let_def vruntime_of_def max_def not_less)

lemma sorted_map_cong: "(\<And>a. a \<in> set xs \<Longrightarrow> f a = g a) \<Longrightarrow> sorted (map f xs) = sorted (map g xs)"
  by (metis map_cong)

lemma ins_sorted_length [simp]: "length (ins_sorted vr node xs) = Suc (length xs)"
  by (induction xs) (simp_all add: ins_sorted_Cons, simp add: ins_sorted_def)

lemma cfs_enqueue_new:
  assumes q: "cfs_queue s xs" and task: "task \<noteq> nil" "task \<notin> set xs" and n: "length xs + 1 < 2 ^ 32"
  shows "\<exists>s'. cfs_enqueue_task task s = Some s' \<and> cfs_queue s' (ins_sorted (vruntime_of s') task xs) \<and>
    vruntime_of s' = vruntime_of (cfs_clamp task s) \<and> rq_idle (cs_rq s') = rq_idle (cs_rq s)"
proof -
  let ?s1 = "cfs_clamp task s" and ?T = "tasks_timeline (cs_rq s)"
  obtain t where t: "focus ?T [] t" "ids t = xs" "rbtree_inv t" using q by (auto simp: cfs_queue_def repaired_def)
  have "sorted (map (vruntime_of ?s1) xs) = sorted (map (vruntime_of s) xs)"
    by (rule sorted_map_cong) (use task(2) in auto)
  then have srt: "sorted (map (vruntime_of ?s1) xs)" using q by (simp only: cfs_queue_def)
  then obtain T' where T': "rbtree_insert (vruntime_of ?s1) task ?T = Some T'"
    "repaired T' (ins_sorted (vruntime_of ?s1) task xs)"
    using rbtree_insert_ok [OF t(1,3), of "vruntime_of ?s1" task] t(2) task unfolding repaired_def by blast
  have off: "ct_on_rq (cs_tasks s task) = 0" using q task(2) by (auto simp: cfs_queue_def)
  define s' where "s' = ?s1\<lparr>cs_rq := (cs_rq s)\<lparr>tasks_timeline := T', nr_running := nr_running (cs_rq s) + 1,
      nr_tasks := nr_tasks (cs_rq s) + 1\<rparr>, cs_tasks := (cs_tasks ?s1)(task := (cs_tasks ?s1 task)\<lparr>ct_on_rq := 1\<rparr>)\<rparr>"
  have run: "cfs_enqueue_task task s = Some s'" using off T'(1) by (simp add: cfs_enqueue_task_def Let_def s'_def)
  have sel: "tasks_timeline (cs_rq s') = T'" "nr_running (cs_rq s') = nr_running (cs_rq s) + 1"
    "nr_tasks (cs_rq s') = nr_tasks (cs_rq s) + 1" by (simp_all add: s'_def)
  have vr: "vruntime_of s' = vruntime_of ?s1" by (auto simp: vruntime_of_def s'_def fun_eq_iff)
  have "sorted (map (vruntime_of s') (ins_sorted (vruntime_of s') task xs))"
    using ins_sorted_sorted [OF srt] unfolding vr .
  moreover have "(ct_on_rq (cs_tasks s' a) \<noteq> 0) = (a \<in> set (ins_sorted (vruntime_of s') task xs))" for a
    using q by (auto simp: s'_def cfs_queue_def)
  ultimately have "cfs_queue s' (ins_sorted (vruntime_of s') task xs)"
    using q T'(2) n sel unfolding cfs_queue_def vr by (simp add: add.commute)
  then show ?thesis using run vr by (simp add: s'_def)
qed

lemma cfs_enqueue_queued:
  "cfs_queue s xs \<Longrightarrow> task \<in> set xs \<Longrightarrow> cfs_enqueue_task task s = Some s"
  by (simp add: cfs_queue_def cfs_enqueue_task_def)

lemma focus_repaired_outside:
  assumes "repaired T xs" and "node \<notin> set xs" and "node \<noteq> nil"
  shows "repaired (T\<lparr>t_heap := (t_heap T)(node := v)\<rparr>) xs"
  using assms focus_outside [where T' = "T\<lparr>t_heap := (t_heap T)(node := v)\<rparr>" and node = node]
  by (fastforce simp: repaired_def)

lemma cfs_dequeue_queued:
  assumes q: "cfs_queue s xs" and task: "task \<in> set xs"
  shows "\<exists>s'. cfs_dequeue_task task s = Some s' \<and> cfs_queue s' (remove1 task xs) \<and> vruntime_of s' = vruntime_of s \<and>
    rq_idle (cs_rq s') = rq_idle (cs_rq s)"
proof -
  let ?T = "tasks_timeline (cs_rq s)"
  have d: "distinct xs" "nil \<notin> set xs" using q repaired_distinct by (auto simp: cfs_queue_def)
  obtain t where t: "focus ?T [] t" "ids t = xs" "rbtree_inv t" using q by (auto simp: cfs_queue_def repaired_def)
  obtain T' where T': "rbtree_delete task ?T = Some T'" "repaired T' (remove1 task xs)"
    using rbtree_delete_ok [OF t(1,3), of task] t(2) task by blast
  have on: "ct_on_rq (cs_tasks s task) \<noteq> 0" using q task by (auto simp: cfs_queue_def)
  let ?T2 = "T'\<lparr>t_heap := (t_heap T')(task := (t_heap T' task)\<lparr>rb_parent := 0, rb_left := 0, rb_right := 0\<rparr>)\<rparr>"
  have T2: "repaired ?T2 (remove1 task xs)"
    by (rule focus_repaired_outside [OF T'(2)]) (use d task in auto)
  obtain n where n: "length xs = Suc n" using task by (cases xs) auto
  have cnt: "nr_running (cs_rq s) - 1 = of_nat n" "nr_tasks (cs_rq s) = of_nat n + 1" "Suc n < 2 ^ 32"
    using q n by (auto simp: cfs_queue_def)
  have "nr_tasks (cs_rq s) \<noteq> 0"
  proof
    assume "nr_tasks (cs_rq s) = 0"
    then have "(of_nat (Suc n) :: u32) = 0" using q n by (simp only: cfs_queue_def)
    then have "2 ^ 32 dvd Suc n" by (simp add: word_of_nat_eq_0_iff del: of_nat_Suc)
    then show False using cnt(3) by (auto dest: dvd_imp_le)
  qed
  then have pos: "nr_tasks (cs_rq s) > 0" by (simp only: word_gt_0)
  define s' where "s' = s\<lparr>cs_rq := (cs_rq s)\<lparr>tasks_timeline := ?T2, nr_running := of_nat n, nr_tasks := of_nat n\<rparr>,
      cs_tasks := (cs_tasks s)(task := (cs_tasks s task)\<lparr>ct_on_rq := 0\<rparr>)\<rparr>"
  have run: "cfs_dequeue_task task s = Some s'"
    using on T'(1) cnt(1,2) pos by (simp add: cfs_dequeue_task_def Let_def s'_def)
  have sel: "tasks_timeline (cs_rq s') = ?T2" "nr_running (cs_rq s') = of_nat n" "nr_tasks (cs_rq s') = of_nat n"
    by (simp_all add: s'_def)
  have vr: "vruntime_of s' = vruntime_of s" by (auto simp: vruntime_of_def s'_def fun_eq_iff)
  have "sorted (map (vruntime_of s) (remove1 task xs))"
    using q by (simp add: cfs_queue_def sorted_map_remove1)
  moreover have "(ct_on_rq (cs_tasks s' a) \<noteq> 0) = (a \<in> set (remove1 task xs))" for a
    using q d(1) task by (auto simp: s'_def cfs_queue_def)
  moreover have "length (remove1 task xs) = n" using task n by (simp add: length_remove1)
  ultimately have "cfs_queue s' (remove1 task xs)"
    using T2 cnt(3) sel unfolding cfs_queue_def vr by simp
  then show ?thesis using run vr by (simp add: s'_def)
qed

lemma cfs_dequeue_other:
  "cfs_queue s xs \<Longrightarrow> task \<notin> set xs \<Longrightarrow> cfs_dequeue_task task s = Some s"
  by (simp add: cfs_queue_def cfs_dequeue_task_def)

lemma cfs_pick_queue:
  "cfs_queue s xs \<Longrightarrow> cfs_pick_next_task s = Some (case xs of [] \<Rightarrow> rq_idle (cs_rq s) | a # as \<Rightarrow> Some a)"
  using rbtree_min_ok by (fastforce simp: cfs_queue_def repaired_def cfs_pick_next_task_def split: list.split)

lemma cfs_rq_init_queue:
  assumes "\<And>a. ct_on_rq (cs_tasks s a) = 0"
    and "cs_initialized s \<Longrightarrow> focus (tasks_timeline (cs_rq s)) [] L"
  shows "cfs_queue (cfs_rq_init s) []"
proof -
  have "focus (rbtree_init (cs_initialized s) (tasks_timeline (cs_rq s))) [] L"
    using assms(2) by (auto simp: rbtree_init_def focus_def heap_set)
  then show ?thesis using assms(1) unfolding cfs_queue_def repaired_def
    by (auto simp: cfs_rq_init_def rbtree_inv_def intro!: exI [of _ L])
qed

lemma cfs_task_init_queue:
  assumes q: "cfs_queue s xs" and task: "task \<notin> set xs" "task \<noteq> nil"
  shows "cfs_queue (cfs_task_init task nice s) xs"
proof -
  have "sorted (map (vruntime_of (cfs_task_init task nice s)) xs) = sorted (map (vruntime_of s) xs)"
    by (rule sorted_map_cong) (use task(1) in \<open>auto simp: cfs_task_init_def Let_def vruntime_of_def\<close>)
  then show ?thesis using q task focus_repaired_outside [OF _ task]
    by (auto simp: cfs_queue_def cfs_task_init_def Let_def)
qed

section \<open>The run queue of the process table\<close>

text \<open>
  \<open>&processes[pid].cfs_task\<close>: the tasks are members of an array of \<open>PROCESS_MAX\<close> processes; of
  its layout only that they are apart from each other and from the sentinel matters.
\<close>

definition cfs_task_addr :: "nat \<Rightarrow> nat" where
  "cfs_task_addr pid = 65536 + 2048 * pid"

definition cfs_valid :: "nat \<Rightarrow> bool" where
  "cfs_valid a \<longleftrightarrow> (\<exists>pid<256. a = cfs_task_addr pid)"

lemma cfs_task_addr_inj [simp]: "cfs_task_addr i = cfs_task_addr j \<longleftrightarrow> i = j"
  by (simp add: cfs_task_addr_def)

lemma cfs_valid_addr: "pid < 256 \<Longrightarrow> cfs_valid (cfs_task_addr pid)"
  by (auto simp: cfs_valid_def)

lemma cfs_valid_not_nil: "cfs_valid a \<Longrightarrow> a \<noteq> nil"
  by (auto simp: cfs_valid_def cfs_task_addr_def nil_def)

definition cfs_inv :: "cfs_state \<Rightarrow> bool" where
  "cfs_inv s \<longleftrightarrow> (\<exists>xs. cfs_queue s xs \<and> (\<forall>a\<in>set xs. cfs_valid a)) \<and> rq_idle (cs_rq s) = None"

definition cfs_pick :: "cfs_state \<Rightarrow> nat option" where
  "cfs_pick s = Option.bind (cfs_pick_next_task s) (\<lambda>r. r)"

lemma cfs_queue_length:
  assumes "cfs_queue s xs" and "\<forall>a\<in>set xs. cfs_valid a"
  shows "length xs \<le> 256"
proof -
  have "distinct xs" using assms(1) repaired_distinct by (auto simp: cfs_queue_def)
  then have "length xs = card (set xs)" by (simp add: distinct_card)
  also have "\<dots> \<le> card (cfs_task_addr ` {0..<256})"
    by (rule card_mono) (use assms(2) in \<open>auto simp: cfs_valid_def\<close>)
  also have "\<dots> \<le> 256" using card_image_le [of "{0..<256}" cfs_task_addr] by simp
  finally show ?thesis .
qed

lemma cfs_invE:
  assumes "cfs_inv s"
  shows "cfs_queue s (cfs_list s)" and "\<forall>a\<in>set (cfs_list s). cfs_valid a" and "rq_idle (cs_rq s) = None"
  using assms cfs_list_ok by (auto simp: cfs_inv_def)

lemma cfs_invI:
  "cfs_queue s xs \<Longrightarrow> \<forall>a\<in>set xs. cfs_valid a \<Longrightarrow> rq_idle (cs_rq s) = None \<Longrightarrow> cfs_inv s"
  by (auto simp: cfs_inv_def)

lemma cfs_enqueue_inv:
  assumes i: "cfs_inv s" and a: "cfs_valid a"
  shows "\<exists>s'. cfs_enqueue_task a s = Some s' \<and> cfs_inv s' \<and> set (cfs_list s') = insert a (set (cfs_list s)) \<and>
    (\<forall>b. b \<noteq> a \<longrightarrow> vruntime_of s' b = vruntime_of s b)"
proof (cases "a \<in> set (cfs_list s)")
  case True
  then show ?thesis using cfs_enqueue_queued [OF cfs_invE(1) [OF i]] i by auto
next
  case False
  note q = cfs_invE [OF i]
  have "length (cfs_list s) + 1 < 2 ^ 32" using cfs_queue_length [OF q(1,2)] by simp
  from cfs_enqueue_new [OF q(1) cfs_valid_not_nil [OF a] False this] obtain s' where
    s': "cfs_enqueue_task a s = Some s'" "cfs_queue s' (ins_sorted (vruntime_of s') a (cfs_list s))"
    "vruntime_of s' = vruntime_of (cfs_clamp a s)" "rq_idle (cs_rq s') = rq_idle (cs_rq s)" by blast
  have "cfs_inv s'" by (rule cfs_invI [OF s'(2)]) (use q a s'(4) in auto)
  moreover have "set (cfs_list s') = insert a (set (cfs_list s))" using cfs_list_ok [OF s'(2)] by simp
  ultimately show ?thesis using s'(1,3) by simp
qed

lemma cfs_dequeue_inv:
  assumes i: "cfs_inv s"
  shows "\<exists>s'. cfs_dequeue_task a s = Some s' \<and> cfs_inv s' \<and> cfs_list s' = remove1 a (cfs_list s) \<and>
    vruntime_of s' = vruntime_of s"
proof (cases "a \<in> set (cfs_list s)")
  case True
  note q = cfs_invE [OF i]
  from cfs_dequeue_queued [OF q(1) True] obtain s' where s': "cfs_dequeue_task a s = Some s'"
    "cfs_queue s' (remove1 a (cfs_list s))" "vruntime_of s' = vruntime_of s" "rq_idle (cs_rq s') = rq_idle (cs_rq s)" by blast
  have "cfs_inv s'" by (rule cfs_invI [OF s'(2)]) (use q s'(4) in \<open>auto dest: notin_set_remove1\<close>)
  then show ?thesis using s' cfs_list_ok by blast
next
  case False
  then show ?thesis using cfs_dequeue_other [OF cfs_invE(1) [OF i]] i by (auto simp: remove1_idem)
qed

lemma cfs_pick_list: "cfs_inv s \<Longrightarrow> cfs_pick s = (case cfs_list s of [] \<Rightarrow> None | a # as \<Rightarrow> Some a)"
  using cfs_pick_queue [OF cfs_invE(1)] cfs_invE(3) by (auto simp: cfs_pick_def split: list.split)

interpretation cfs: run_queue cfs_inv cfs_list vruntime_of cfs_valid cfs_enqueue_task cfs_dequeue_task cfs_pick
proof (unfold_locales, goal_cases)
  case (1 q)
  then show ?case using cfs_invE(1) repaired_distinct by (auto simp: cfs_queue_def)
next
  case (2 q)
  then show ?case using cfs_invE(1) by (auto simp: cfs_queue_def)
next
  case (3 q a)
  then show ?case using cfs_invE(2) by blast
next
  case (4 q a)
  then show ?case by (rule cfs_enqueue_inv)
next
  case (5 q a)
  then show ?case using cfs_dequeue_inv by blast
next
  case (6 q)
  then show ?case by (rule cfs_pick_list)
qed

text \<open>The steps of the scheduler: a task that is not queued may also be set up and run.\<close>

inductive cfs_step :: "cfs_state \<Rightarrow> cfs_state \<Rightarrow> bool" where
  enqueue: "cfs_valid a \<Longrightarrow> cfs_enqueue_task a s = Some s' \<Longrightarrow> cfs_step s s'"
| dequeue: "cfs_dequeue_task a s = Some s' \<Longrightarrow> cfs_step s s'"
| init: "cfs_valid a \<Longrightarrow> ct_on_rq (cs_tasks s a) = 0 \<Longrightarrow> cfs_step s (cfs_task_init a nice s)"
| account: "ct_on_rq (cs_tasks s a) = 0 \<Longrightarrow> cfs_account_exec (Some a) d s = Some s' \<Longrightarrow> cfs_step s s'"
| update: "cfs_update_min_vruntime s = Some s' \<Longrightarrow> cfs_step s s'"

inductive_cases cfs_step_cases: "cfs_step s s'"

text \<open>Steps that change nothing the queue depends on.\<close>

lemma cfs_inv_frame:
  assumes i: "cfs_inv s" and t: "tasks_timeline (cs_rq s') = tasks_timeline (cs_rq s)"
    and n: "nr_running (cs_rq s') = nr_running (cs_rq s)" "nr_tasks (cs_rq s') = nr_tasks (cs_rq s)" "rq_idle (cs_rq s') = rq_idle (cs_rq s)"
    and o: "\<And>a. ct_on_rq (cs_tasks s' a) = ct_on_rq (cs_tasks s a)"
    and v: "\<And>a. ct_on_rq (cs_tasks s a) \<noteq> 0 \<Longrightarrow> vruntime_of s' a = vruntime_of s a"
  shows "cfs_inv s'"
proof -
  note q = cfs_invE [OF i]
  have "sorted (map (vruntime_of s') (cfs_list s)) = sorted (map (vruntime_of s) (cfs_list s))"
    by (rule sorted_map_cong, rule v) (use q(1) in \<open>simp add: cfs_queue_def\<close>)
  then have "cfs_queue s' (cfs_list s)" using q(1) t n o by (simp add: cfs_queue_def)
  then show ?thesis using q(2,3) n(3) by (intro cfs_invI) simp_all
qed

lemma cfs_account_inv:
  "cfs_inv s \<Longrightarrow> ct_on_rq (cs_tasks s a) = 0 \<Longrightarrow> cfs_account_exec (Some a) d s = Some s' \<Longrightarrow> cfs_inv s'"
  by (rule cfs_inv_frame [where s = s]) (auto simp: cfs_account_exec_def Let_def vruntime_of_def split: if_splits)

lemma cfs_update_inv:
  "cfs_inv s \<Longrightarrow> cfs_update_min_vruntime s = Some s' \<Longrightarrow> cfs_inv s'"
  by (rule cfs_inv_frame [where s = s]) (auto simp: cfs_update_min_vruntime_def Let_def vruntime_of_def)

lemma cfs_task_init_inv:
  assumes i: "cfs_inv s" and a: "cfs_valid a" "ct_on_rq (cs_tasks s a) = 0"
  shows "cfs_inv (cfs_task_init a nice s)"
proof -
  note q = cfs_invE [OF i]
  have "a \<notin> set (cfs_list s)" using q(1) a(2) by (auto simp: cfs_queue_def)
  from cfs_task_init_queue [OF q(1) this cfs_valid_not_nil [OF a(1)]] show ?thesis
    by (rule cfs_invI) (use q in \<open>auto simp: cfs_task_init_def Let_def\<close>)
qed

lemma cfs_step_inv: "cfs_step s s' \<Longrightarrow> cfs_inv s \<Longrightarrow> cfs_inv s'"
proof (erule cfs_step_cases)
  fix a assume "cfs_inv s" "cfs_valid a" "cfs_enqueue_task a s = Some s'"
  then show "cfs_inv s'" using cfs_enqueue_inv by fastforce
next
  fix a assume "cfs_inv s" "cfs_dequeue_task a s = Some s'"
  then show "cfs_inv s'" using cfs_dequeue_inv [of s a] by auto
qed (auto intro: cfs_account_inv cfs_update_inv cfs_task_init_inv)

interpretation cfs_run: kept cfs_step cfs_inv
  by unfold_locales (rule cfs_step_inv)

text \<open>The state at boot: everything is zero.\<close>

definition cfs_boot :: cfs_state where
  "cfs_boot = \<lparr>cs_rq = \<lparr>tasks_timeline = \<lparr>t_heap = (\<lambda>_. \<lparr>rb_parent = 0, rb_left = 0, rb_right = 0, rb_color = Black\<rparr>),
       t_root = 0\<rparr>, rq_curr = None, rq_idle = None, min_vruntime = 0, exec_clock = 0, nr_running = 0, nr_tasks = 0\<rparr>,
     cs_tasks = (\<lambda>_. \<lparr>ct_vruntime = 0, ct_sum_exec_runtime = 0, ct_nice = 0, ct_load_weight = 0, ct_on_rq = 0\<rparr>),
     cs_initialized = False, cs_jiffies = 0\<rparr>"

lemma cfs_boot_inv: "cfs_inv (cfs_rq_init cfs_boot)"
proof -
  have "cfs_queue (cfs_rq_init cfs_boot) []" by (rule cfs_rq_init_queue) (simp_all add: cfs_boot_def)
  then show ?thesis by (rule cfs_invI) (simp_all add: cfs_rq_init_def)
qed

section \<open>Weights\<close>

lemma nice_to_weight_table: "length nice_to_weight = 40" "\<forall>w\<in>set nice_to_weight. w \<noteq> 0" "sorted_wrt (>) nice_to_weight"
  by (simp_all add: nice_to_weight_def)

lemma cfs_weight_nth: "\<exists>i<40. cfs_nice_to_weight nice = nice_to_weight ! i \<and>
    i = nat (max (- 20) (min 19 nice) + 20)"
  by (auto simp: cfs_nice_to_weight_def Let_def max_def min_def)

lemma cfs_weight_pos: "cfs_nice_to_weight nice \<noteq> 0"
  using cfs_weight_nth [of nice] nice_to_weight_table by (metis nth_mem)

lemma cfs_weight_less:
  assumes "- 20 \<le> n" "n < m" "m \<le> 19"
  shows "cfs_nice_to_weight m < cfs_nice_to_weight n"
proof -
  obtain i j where "cfs_nice_to_weight n = nice_to_weight ! i" "cfs_nice_to_weight m = nice_to_weight ! j"
    "i = nat (n + 20)" "j = nat (m + 20)"
    using cfs_weight_nth [of n] cfs_weight_nth [of m] assms by (auto simp: max_def min_def split: if_splits)
  moreover from this have "i < j" "j < length nice_to_weight" using assms nice_to_weight_table(1) by auto
  ultimately show ?thesis using sorted_wrt_nth_less [OF nice_to_weight_table(3)] by simp
qed

section \<open>Properties\<close>

lemma cfs_list_queued: "cfs_inv s \<Longrightarrow> ct_on_rq (cs_tasks s a) \<noteq> 0 \<longleftrightarrow> a \<in> set (cfs_list s)"
  using cfs_invE(1) by (auto simp: cfs_queue_def)

text \<open>
  C2. The scheduler picks the task with the least virtual runtime: after any sequence of
  enqueues, dequeues, task set-ups, accounting of tasks that are not queued and updates of the minimum on the run queue
  the kernel starts with, the walk through the tree ends, a queued task is picked
  whose virtual runtime is at most that of every queued task, and none is picked only
  when no task is queued.
\<close>

theorem cfs_picks_least_vruntime:
  assumes "cfs_step\<^sup>*\<^sup>* (cfs_rq_init cfs_boot) s"
  shows "case cfs_pick_next_task s of None \<Rightarrow> False
    | Some None \<Rightarrow> \<forall>a. ct_on_rq (cs_tasks s a) = 0
    | Some (Some a) \<Rightarrow> ct_on_rq (cs_tasks s a) \<noteq> 0 \<and>
        (\<forall>b. ct_on_rq (cs_tasks s b) \<noteq> 0 \<longrightarrow> vruntime_of s a \<le> vruntime_of s b)"
proof -
  have i: "cfs_inv s" using cfs_run.steps_keep [OF assms cfs_boot_inv] .
  have p: "cfs_pick_next_task s = Some (cfs_pick s)"
    using cfs_pick_queue [OF cfs_invE(1) [OF i]] by (simp add: cfs_pick_def)
  show ?thesis
  proof (cases "cfs_pick s")
    case None
    then show ?thesis using cfs.pick_None [OF i] cfs_list_queued [OF i] p by auto
  next
    case (Some a)
    then show ?thesis using cfs.pick_min [OF i Some] cfs_list_queued [OF i] p by simp
  qed
qed

lemma distinct_set_singleton:
  assumes "distinct xs" and "set xs = {a}"
  shows "xs = [a]"
proof (cases xs)
  case (Cons b ys)
  then have "b = a" "set ys \<subseteq> {a}" "a \<notin> set ys" using assms by auto
  then have "set ys = {}" by (metis empty_iff insert_iff subset_singletonD)
  then show ?thesis using Cons \<open>b = a\<close> by simp
qed (use assms in simp)

lemma cfs_one_task:
  "\<exists>s. cfs_enqueue_task (cfs_task_addr 3) (cfs_task_init (cfs_task_addr 3) 0 (cfs_rq_init cfs_boot)) = Some s \<and>
     cfs_step\<^sup>*\<^sup>* (cfs_rq_init cfs_boot) s \<and> cfs_inv s \<and> cfs_list s = [cfs_task_addr 3]"
proof -
  let ?s0 = "cfs_rq_init cfs_boot" and ?a = "cfs_task_addr 3"
  let ?s1 = "cfs_task_init ?a 0 ?s0"
  have v: "cfs_valid ?a" by (rule cfs_valid_addr) simp
  have st1: "cfs_step ?s0 ?s1" by (rule cfs_step.init [OF v]) (simp add: cfs_rq_init_def cfs_boot_def)
  have i: "cfs_inv ?s1" using cfs_step_inv [OF st1 cfs_boot_inv] .
  have "ct_on_rq (cs_tasks ?s1 b) = 0" for b
    by (simp add: cfs_task_init_def Let_def cfs_rq_init_def cfs_boot_def)
  then have "b \<notin> set (cfs_list ?s1)" for b using cfs_list_queued [OF i, of b] by blast
  then have "set (cfs_list ?s1) = {}" by (intro equals0I) metis
  with cfs_enqueue_inv [OF i v] obtain s where s: "cfs_enqueue_task ?a ?s1 = Some s" "cfs_inv s" "set (cfs_list s) = {?a}"
    by auto
  have "cfs_step ?s1 s" by (rule cfs_step.enqueue [OF v s(1)])
  then have "cfs_step\<^sup>*\<^sup>* ?s0 s" using st1 by (meson rtranclp.simps)
  moreover have "cfs_list s = [?a]" using cfs.queue_distinct [OF s(2)] s(3) by (rule distinct_set_singleton)
  ultimately show ?thesis using s by blast
qed

theorem cfs_picks_least_vruntime_witness:
  "\<exists>s. cfs_enqueue_task (cfs_task_addr 3) (cfs_task_init (cfs_task_addr 3) 0 (cfs_rq_init cfs_boot)) = Some s \<and>
     cfs_pick_next_task s = Some (Some (cfs_task_addr 3))"
proof -
  obtain s where s: "cfs_enqueue_task (cfs_task_addr 3) (cfs_task_init (cfs_task_addr 3) 0 (cfs_rq_init cfs_boot)) = Some s"
    "cfs_step\<^sup>*\<^sup>* (cfs_rq_init cfs_boot) s" "cfs_inv s" "cfs_list s = [cfs_task_addr 3]" using cfs_one_task by blast
  from cfs_picks_least_vruntime [OF s(2)] have "cfs_pick_next_task s = Some (Some (cfs_task_addr 3))"
    using cfs_list_queued [OF s(3)] s(4) by (auto split: option.splits)
  then show ?thesis using s(1) by blast
qed

text \<open>
  C3. The run queue is a list ordered by virtual runtime. Enqueuing a task that is not queued
  raises its runtime to four periods below the minimum, unless it is higher, and puts it
  behind all tasks that do not have a larger one, so that equal tasks keep their order; dequeuing takes out exactly that
  task; picking gives the head. Both rebalancing loops end and leave a red-black tree.
\<close>

theorem cfs_refines_ordered_list:
  assumes q: "cfs_queue s xs" and "task \<noteq> nil" and "length xs + 1 < 2 ^ 32"
  shows "(task \<notin> set xs \<longrightarrow> (\<exists>s'. cfs_enqueue_task task s = Some s' \<and>
      (let v = max (vruntime_of s task) (min_vruntime (cs_rq s) - CFS_TARGET_LATENCY * 4)
       in cfs_queue s' (takeWhile (\<lambda>b. vruntime_of s b \<le> v) xs @ task # dropWhile (\<lambda>b. vruntime_of s b \<le> v) xs) \<and>
          vruntime_of s' = (vruntime_of s)(task := v)))) \<and>
    (\<exists>s'. cfs_dequeue_task task s = Some s' \<and> cfs_queue s' (remove1 task xs) \<and> vruntime_of s' = vruntime_of s) \<and>
    cfs_pick_next_task s = Some (case xs of [] \<Rightarrow> rq_idle (cs_rq s) | a # as \<Rightarrow> Some a)"
proof (intro conjI impI)
  assume new: "task \<notin> set xs"
  let ?v = "max (vruntime_of s task) (min_vruntime (cs_rq s) - 6000000 * 4)"
  obtain s' where s': "cfs_enqueue_task task s = Some s'" "cfs_queue s' (ins_sorted (vruntime_of s') task xs)"
    "vruntime_of s' = vruntime_of (cfs_clamp task s)" using cfs_enqueue_new [OF q assms(2) new assms(3)] by blast
  have vr: "vruntime_of s' = (vruntime_of s)(task := ?v)" unfolding s'(3) by (auto simp: fun_eq_iff)
  have "ins_sorted (vruntime_of s') task xs =
      takeWhile (\<lambda>b. vruntime_of s b \<le> ?v) xs @ task # dropWhile (\<lambda>b. vruntime_of s b \<le> ?v) xs"
    unfolding ins_sorted_def vr using new
    by (auto intro!: arg_cong2 [of _ _ _ _ "(@)"] takeWhile_cong dropWhile_cong)
  then show "\<exists>s'. cfs_enqueue_task task s = Some s' \<and> (let v = ?v
       in cfs_queue s' (takeWhile (\<lambda>b. vruntime_of s b \<le> v) xs @ task # dropWhile (\<lambda>b. vruntime_of s b \<le> v) xs) \<and>
          vruntime_of s' = (vruntime_of s)(task := v))"
    using s'(1,2) vr by (intro exI [of _ s']) (simp only: Let_def simp_thms)
next
  show "\<exists>s'. cfs_dequeue_task task s = Some s' \<and> cfs_queue s' (remove1 task xs) \<and> vruntime_of s' = vruntime_of s"
    using cfs_dequeue_queued [OF q] cfs_dequeue_other [OF q] q by (cases "task \<in> set xs") (auto simp: remove1_idem)
next
  show "cfs_pick_next_task s = Some (case xs of [] \<Rightarrow> rq_idle (cs_rq s) | a # as \<Rightarrow> Some a)"
    by (rule cfs_pick_queue [OF q])
qed

theorem cfs_refines_ordered_list_witness:
  "\<exists>s s'. cfs_queue s [cfs_task_addr 3] \<and> cfs_enqueue_task (cfs_task_addr 5) s = Some s' \<and>
     cfs_queue s' (if vruntime_of s (cfs_task_addr 3) \<le> vruntime_of s' (cfs_task_addr 5)
       then [cfs_task_addr 3, cfs_task_addr 5] else [cfs_task_addr 5, cfs_task_addr 3])"
proof -
  obtain s where "cfs_inv s" "cfs_list s = [cfs_task_addr 3]" using cfs_one_task by blast
  then have q: "cfs_queue s [cfs_task_addr 3]" using cfs_invE(1) by metis
  let ?v = "max (vruntime_of s (cfs_task_addr 5)) (min_vruntime (cs_rq s) - 6000000 * 4)"
  have "cfs_task_addr 5 \<notin> set [cfs_task_addr 3]" by simp
  with cfs_refines_ordered_list [OF q cfs_valid_not_nil [OF cfs_valid_addr [of 5]], THEN conjunct1, unfolded Let_def]
  obtain s' where
    s': "cfs_enqueue_task (cfs_task_addr 5) s = Some s'"
      "cfs_queue s' (takeWhile (\<lambda>b. vruntime_of s b \<le> ?v) [cfs_task_addr 3] @ cfs_task_addr 5 #
         dropWhile (\<lambda>b. vruntime_of s b \<le> ?v) [cfs_task_addr 3])"
      "vruntime_of s' = (vruntime_of s)(cfs_task_addr 5 := ?v)" by auto
  have v: "vruntime_of s' (cfs_task_addr 5) = ?v" unfolding s'(3) by simp
  have "cfs_queue s' (if vruntime_of s (cfs_task_addr 3) \<le> ?v
       then [cfs_task_addr 3, cfs_task_addr 5] else [cfs_task_addr 5, cfs_task_addr 3])"
    using s'(2) by (cases "vruntime_of s (cfs_task_addr 3) \<le> ?v") simp_all
  then show ?thesis using q s'(1) v by metis
qed

text \<open>
  Everything that is queued gets its turn: from any state that can be reached, picking and
  dequeuing again and again, without new arrivals, runs through all queued tasks in the order of their virtual
  runtimes, each once, and leaves the queue empty.
\<close>

theorem cfs_drains_in_order:
  assumes "cfs_step\<^sup>*\<^sup>* (cfs_rq_init cfs_boot) s"
  shows "\<exists>s' as. cfs.drain (unat (nr_running (cs_rq s))) s = (as, s') \<and> distinct as \<and>
    set as = {a. ct_on_rq (cs_tasks s a) \<noteq> 0} \<and> sorted (map (vruntime_of s) as) \<and> (\<forall>a. ct_on_rq (cs_tasks s' a) = 0)"
proof -
  have i: "cfs_inv s" using cfs_run.steps_keep [OF assms cfs_boot_inv] .
  note q = cfs_invE [OF i]
  have "unat (nr_running (cs_rq s)) = length (cfs_list s)"
    using q(1) by (simp add: cfs_queue_def unat_of_nat take_bit_nat_eq_self)
  with cfs.drain_queue [OF i] obtain s' where "cfs.drain (unat (nr_running (cs_rq s))) s = (cfs_list s, s')" "cfs_inv s'"
    "cfs_list s' = []" by metis
  then show ?thesis using cfs.queue_distinct [OF i] cfs.queue_sorted [OF i] cfs_list_queued [OF i] cfs_list_queued [of s']
    by auto
qed

theorem cfs_drains_in_order_witness:
  "\<exists>s s'. cfs_enqueue_task (cfs_task_addr 3) (cfs_task_init (cfs_task_addr 3) 0 (cfs_rq_init cfs_boot)) = Some s \<and>
     cfs.drain (unat (nr_running (cs_rq s))) s = ([cfs_task_addr 3], s')"
proof -
  obtain s where s: "cfs_enqueue_task (cfs_task_addr 3) (cfs_task_init (cfs_task_addr 3) 0 (cfs_rq_init cfs_boot)) = Some s"
    "cfs_step\<^sup>*\<^sup>* (cfs_rq_init cfs_boot) s" "cfs_inv s" "cfs_list s = [cfs_task_addr 3]" using cfs_one_task by blast
  from cfs_drains_in_order [OF s(2)] obtain s' as where d: "cfs.drain (unat (nr_running (cs_rq s))) s = (as, s')"
    "distinct as" "set as = {a. ct_on_rq (cs_tasks s a) \<noteq> 0}" by blast
  have "set as = {cfs_task_addr 3}" using d(3) cfs_list_queued [OF s(3)] s(4) by simp
  then have "as = [cfs_task_addr 3]" using d(2) by (intro distinct_set_singleton)
  then show ?thesis using s(1) d(1) by blast
qed

text \<open>
  As long as the minimum of the queue is below four periods, which it is from boot on, the
  subtraction in the clamp wraps around, and a task that is enqueued does not get a
  runtime near the minimum but one within four periods of the largest there is: it is
  behind every task whose runtime has not wrapped.
\<close>

theorem cfs_boot_clamp_wraps:
  assumes "cfs_queue s xs" and "task \<noteq> nil" and "task \<notin> set xs" and "length xs + 1 < 2 ^ 32"
    and "min_vruntime (cs_rq s) < CFS_TARGET_LATENCY * 4"
  shows "\<exists>s'. cfs_enqueue_task task s = Some s' \<and> vruntime_of s' task \<ge> - (CFS_TARGET_LATENCY * 4) \<and>
    (\<forall>b\<in>set xs. vruntime_of s b < - (CFS_TARGET_LATENCY * 4) \<longrightarrow> vruntime_of s' b < vruntime_of s' task)"
proof -
  from cfs_enqueue_new [OF assms(1-4)] obtain s' where s': "cfs_enqueue_task task s = Some s'"
    "vruntime_of s' = vruntime_of (cfs_clamp task s)" by blast
  have "- (CFS_TARGET_LATENCY * 4) \<le> min_vruntime (cs_rq s) - CFS_TARGET_LATENCY * 4"
    using assms(5) by uint_arith auto
  then have "- (CFS_TARGET_LATENCY * 4) \<le> vruntime_of s' task"
    unfolding s'(2) cfs_clamp_sel(3) by (simp add: le_max_iff_disj)
  moreover have "vruntime_of s' b = vruntime_of s b" if "b \<in> set xs" for b
    using that assms(3) unfolding s'(2) cfs_clamp_sel(3) by auto
  ultimately show ?thesis using s'(1) by (intro exI [of _ s'] conjI) (auto intro: less_le_trans)
qed

theorem cfs_boot_clamp_wraps_witness:
  "\<exists>s'. cfs_enqueue_task (cfs_task_addr 3) (cfs_rq_init cfs_boot) = Some s' \<and>
     vruntime_of s' (cfs_task_addr 3) \<ge> - (CFS_TARGET_LATENCY * 4)"
proof -
  have q: "cfs_queue (cfs_rq_init cfs_boot) []" by (rule cfs_rq_init_queue) (simp_all add: cfs_boot_def)
  from cfs_boot_clamp_wraps [OF q cfs_valid_not_nil [OF cfs_valid_addr [of 3]]] show ?thesis
    by (auto simp: cfs_rq_init_def)
qed

end
