(* ===== verification/Process.thy ===== *)
theory Process
  imports Cfs Signal "HOL-Library.Monad_Syntax"
begin

text \<open>
  The process table of \<open>kernel/kernel/process.c\<close> over the fair scheduler: creation, the context
  switch, sleeping, waking, killing, signals by number, limits, fork and exec. The
  scheduling entity of a process lies in the scheduler's state under its address. A pid that
  is \<open>(uint64_t)-1\<close> is \<open>None\<close>. The processor is kept as far as a switch saves and loads it.

  A switch suspends a process in the middle of its call of \<open>process_yield\<close>, with the local
  variable \<open>next_pid\<close> on its stack; the code after \<open>process_switch\<close> reads it when the process
  is resumed. That variable is what the state keeps of a suspended stack; a process that
  has never run has none and starts at the trampoline.
\<close>

section \<open>Data\<close>

abbreviation (input) MAX_PROCS :: nat where "MAX_PROCS \<equiv> 256"
abbreviation (input) PROCESS_STACK_SIZE :: u64 where "PROCESS_STACK_SIZE \<equiv> 16384"
abbreviation (input) PROCESS_NAME_MAX :: nat where "PROCESS_NAME_MAX \<equiv> 32"
abbreviation (input) PRIORITY_IDLE :: u64 where "PRIORITY_IDLE \<equiv> 0"
abbreviation (input) PRIORITY_LOW :: u64 where "PRIORITY_LOW \<equiv> 1"
abbreviation (input) PRIORITY_NORMAL :: u64 where "PRIORITY_NORMAL \<equiv> 2"
abbreviation (input) PRIORITY_HIGH :: u64 where "PRIORITY_HIGH \<equiv> 3"
abbreviation (input) PRIORITY_REALTIME :: u64 where "PRIORITY_REALTIME \<equiv> 4"

record process_t =
  pr_id :: pid
  pr_parent_id :: pid
  pr_state :: proc_state
  pr_priority :: u64
  pr_flags :: u64
  pr_name :: string
  pr_cr3 :: u64
  pr_rsp :: u64
  pr_stack :: u64
  pr_entry :: u64
  pr_entry_arg :: u64
  pr_sched_count :: u64
  pr_pending_signals :: u64
  pr_signal_mask :: u64
  pr_wakeup_time :: u64
  pr_fd_table :: "nat \<Rightarrow> int"
  pr_fd_count :: int
  pr_fpu_state :: mem
  pr_fs_base :: u64
  pr_gs_base :: u64
  pr_fs_selector :: u16
  pr_gs_selector :: u16
  pr_fpu_used :: bool
  pr_nice :: int

record rlimit_t =
  rlim_cur :: u64
  rlim_max :: u64

text \<open>\<open>cpu_fninit\<close> is the state that the instruction \<open>fninit\<close> gives the floating point unit.\<close>

record cpu_t =
  cpu_cr3 :: u64
  cpu_fs :: u16
  cpu_gs :: u16
  cpu_fs_base :: u64
  cpu_gs_base :: u64
  cpu_fpu :: mem
  cpu_fninit :: mem

record pm_state =
  pm_procs :: "pid \<Rightarrow> process_t"
  pm_count :: nat
  pm_current :: pid
  pm_jiffies :: u64
  pm_cfs :: cfs_state
  pm_cpu :: cpu_t
  pm_resume :: "pid \<Rightarrow> pid option"
  pm_rlimits :: "pid \<Rightarrow> nat \<Rightarrow> rlimit_t"

definition process_zero :: process_t where
  "process_zero = \<lparr>pr_id = 0, pr_parent_id = 0, pr_state = PROCESS_TERMINATED, pr_priority = 0, pr_flags = 0,
     pr_name = [], pr_cr3 = 0, pr_rsp = 0, pr_stack = 0, pr_entry = 0, pr_entry_arg = 0, pr_sched_count = 0,
     pr_pending_signals = 0, pr_signal_mask = 0, pr_wakeup_time = 0, pr_fd_table = (\<lambda>_. 0), pr_fd_count = 0,
     pr_fpu_state = (\<lambda>_. 0), pr_fs_base = 0, pr_gs_base = 0, pr_fs_selector = 0, pr_gs_selector = 0,
     pr_fpu_used = False, pr_nice = 0\<rparr>"

definition upd_proc :: "pid \<Rightarrow> (process_t \<Rightarrow> process_t) \<Rightarrow> pm_state \<Rightarrow> pm_state" where
  "upd_proc p f s = s\<lparr>pm_procs := (pm_procs s)(p := f (pm_procs s p))\<rparr>"

definition set_state :: "pid \<Rightarrow> proc_state \<Rightarrow> pm_state \<Rightarrow> pm_state" where
  "set_state p st = upd_proc p (pr_state_update (\<lambda>_. st))"

definition on_cfs :: "(cfs_state \<Rightarrow> cfs_state option) \<Rightarrow> pm_state \<Rightarrow> pm_state option" where
  "on_cfs f s = map_option (\<lambda>c. s\<lparr>pm_cfs := c\<rparr>) (f (pm_cfs s))"

definition set_rq_curr :: "pid \<Rightarrow> pm_state \<Rightarrow> pm_state" where
  "set_rq_curr p s = s\<lparr>pm_cfs := (pm_cfs s)\<lparr>cs_rq := (cs_rq (pm_cfs s))\<lparr>rq_curr := Some (cfs_task_addr p)\<rparr>\<rparr>\<rparr>"

abbreviation state_of :: "pm_state \<Rightarrow> pid \<Rightarrow> proc_state" where
  "state_of s p \<equiv> pr_state (pm_procs s p)"

section \<open>Creation\<close>

definition process_init :: "pm_state \<Rightarrow> pm_state" where
  "process_init s = s\<lparr>pm_procs := (\<lambda>p. if p < MAX_PROCS then (pm_procs s p)\<lparr>pr_state := PROCESS_UNUSED\<rparr> else pm_procs s p),
     pm_count := 0, pm_current := 0, pm_jiffies := 0, pm_cfs := cfs_rq_init (pm_cfs s)\<rparr>"

definition priority_to_nice :: "u64 \<Rightarrow> int" where
  "priority_to_nice priority =
     (if priority = PRIORITY_IDLE then 19
      else if priority = PRIORITY_LOW then 10
      else if priority = PRIORITY_NORMAL then 0
      else if priority = PRIORITY_HIGH then - 10
      else if priority = PRIORITY_REALTIME then - 20
      else 0)"

text \<open>\<open>memset(proc, 0, sizeof(process_t))\<close>: the scheduling entity is part of the process.\<close>

definition clear_process :: "pid \<Rightarrow> pm_state \<Rightarrow> pm_state" where
  "clear_process p s =
     (let c = pm_cfs s; rq = cs_rq c; T = tasks_timeline rq; a = cfs_task_addr p
      in s\<lparr>pm_procs := (pm_procs s)(p := process_zero),
           pm_cfs := c\<lparr>cs_rq := rq\<lparr>tasks_timeline :=
               T\<lparr>t_heap := (t_heap T)(a := \<lparr>rb_parent = 0, rb_left = 0, rb_right = 0, rb_color = Black\<rparr>)\<rparr>\<rparr>,
             cs_tasks := (cs_tasks c)(a := \<lparr>ct_vruntime = 0, ct_sum_exec_runtime = 0, ct_nice = 0,
               ct_load_weight = 0, ct_on_rq = 0\<rparr>)\<rparr>\<rparr>)"

text \<open>
  The new stack ends with the address of the trampoline under six zeroed registers. The result
  of \<open>kzalloc\<close> is the argument \<open>stack\<close>. The outer option is the run of the enqueuing.
\<close>

definition process_create_ex ::
  "string option \<Rightarrow> u64 \<Rightarrow> u64 \<Rightarrow> u64 \<Rightarrow> u32 \<Rightarrow> pid \<Rightarrow> u64 option \<Rightarrow> pm_state \<Rightarrow> (pid option \<times> pm_state) option" where
  "process_create_ex name entry arg priority flags parent stack s =
     (case first_index (\<lambda>i. state_of s i = PROCESS_UNUSED) MAX_PROCS of
        None \<Rightarrow> Some (None, s)
      | Some pid \<Rightarrow>
          let nice = priority_to_nice priority;
              s1 = upd_proc pid (\<lambda>p. p\<lparr>pr_id := pid, pr_priority := priority, pr_state := PROCESS_READY, pr_entry := entry,
                pr_entry_arg := arg, pr_flags := ucast flags, pr_parent_id := parent, pr_cr3 := cpu_cr3 (pm_cpu s),
                pr_nice := nice,
                pr_name := (case name of None \<Rightarrow> pr_name p | Some n \<Rightarrow> take (PROCESS_NAME_MAX - 1) n)\<rparr>) (clear_process pid s)
          in case stack of
               None \<Rightarrow> Some (None, set_state pid PROCESS_UNUSED s1)
             | Some k \<Rightarrow>
                 let s2 = (upd_proc pid (\<lambda>p. p\<lparr>pr_stack := k, pr_rsp := k + PROCESS_STACK_SIZE - 8 - 48\<rparr>) s1)
                       \<lparr>pm_resume := (pm_resume s)(pid := None)\<rparr>;
                     s3 = s2\<lparr>pm_cfs := cfs_task_init (cfs_task_addr pid) nice (pm_cfs s2)\<rparr>
                 in do {
                      s4 \<leftarrow> on_cfs (cfs_enqueue_task (cfs_task_addr pid)) s3;
                      Some (Some pid, if pid \<ge> pm_count s4 then s4\<lparr>pm_count := pid + 1\<rparr> else s4)
                    })"

definition process_create ::
  "string option \<Rightarrow> u64 \<Rightarrow> u64 \<Rightarrow> u64 option \<Rightarrow> pm_state \<Rightarrow> (pid option \<times> pm_state) option" where
  "process_create name entry priority stack s =
     process_create_ex name entry 0 priority 0 (pm_current s) stack s"

definition thread_create :: "u64 \<Rightarrow> u64 \<Rightarrow> u64 option \<Rightarrow> pm_state \<Rightarrow> (int \<times> pm_state) option" where
  "thread_create entry arg stack s = do {
     (tid, s') \<leftarrow> process_create_ex (Some ''thread'') entry arg PRIORITY_NORMAL 0 (pm_current s) stack s;
     Some (case tid of None \<Rightarrow> - 1 | Some t \<Rightarrow> int t, s')
   }"

section \<open>The context switch\<close>

definition process_exit :: "pm_state \<Rightarrow> pm_state option" where
  "process_exit s =
     (if pm_current s < MAX_PROCS
      then map_option (set_state (pm_current s) PROCESS_DEAD) (on_cfs (cfs_dequeue_task (cfs_task_addr (pm_current s))) s)
      else Some s)"

definition process_switch_fpu :: "pid \<Rightarrow> pid \<Rightarrow> pm_state \<Rightarrow> pm_state" where
  "process_switch_fpu old new s =
     (let s1 = (if pr_fpu_used (pm_procs s old)
                then upd_proc old (\<lambda>p. p\<lparr>pr_fpu_state := cpu_fpu (pm_cpu s)\<rparr>) s else s)
      in if pr_fpu_used (pm_procs s1 new)
         then s1\<lparr>pm_cpu := (pm_cpu s1)\<lparr>cpu_fpu := pr_fpu_state (pm_procs s1 new)\<rparr>\<rparr>
         else upd_proc new (\<lambda>p. p\<lparr>pr_fpu_used := True\<rparr>)
                (s1\<lparr>pm_cpu := (pm_cpu s1)\<lparr>cpu_fpu := cpu_fninit (pm_cpu s1)\<rparr>\<rparr>))"

text \<open>A base is read from its model specific register when the selector is not zero.\<close>

definition save_fs_gs :: "pid \<Rightarrow> pm_state \<Rightarrow> pm_state" where
  "save_fs_gs i s =
     (let c = pm_cpu s
      in upd_proc i (\<lambda>p. p\<lparr>pr_fs_selector := cpu_fs c, pr_gs_selector := cpu_gs c,
           pr_fs_base := (if cpu_fs c \<noteq> 0 then cpu_fs_base c else pr_fs_base p),
           pr_gs_base := (if cpu_gs c \<noteq> 0 then cpu_gs_base c else pr_gs_base p)\<rparr>) s)"

definition restore_fs_gs :: "pid \<Rightarrow> pm_state \<Rightarrow> pm_state" where
  "restore_fs_gs i s =
     (let p = pm_procs s i; c = pm_cpu s;
          c1 = (if pr_fs_selector p \<noteq> 0 then c\<lparr>cpu_fs := pr_fs_selector p, cpu_fs_base := pr_fs_base p\<rparr> else c);
          c2 = (if pr_gs_selector p \<noteq> 0 then c1\<lparr>cpu_gs := pr_gs_selector p, cpu_gs_base := pr_gs_base p\<rparr> else c1)
      in s\<lparr>pm_cpu := c2\<rparr>)"

text \<open>
  \<open>process_switch\<close> and what follows it: \<open>old\<close> is suspended with its \<open>next_pid\<close>, and the process
  switched to goes on after its own call of \<open>process_switch\<close>, where \<open>next_pid\<close> is the one it
  was suspended with. A process that runs for the first time goes to the trampoline.
\<close>

definition process_switch :: "pid \<Rightarrow> pid \<Rightarrow> pm_state \<Rightarrow> pm_state" where
  "process_switch old new s =
     (let s1 = s\<lparr>pm_resume := (pm_resume s)(old := Some new)\<rparr>
      in case pm_resume s1 new of
           None \<Rightarrow> s1
         | Some next_pid \<Rightarrow>
             let s2 = restore_fs_gs next_pid s1 in set_state (pm_current s2) PROCESS_RUNNING s2)"

text \<open>From the choice of the next process on, in \<open>process_yield\<close>.\<close>

definition switch_to :: "pid \<Rightarrow> pm_state \<Rightarrow> pm_state" where
  "switch_to next_pid s =
     (let old = pm_current s;
          s1 = upd_proc old (\<lambda>p. p\<lparr>pr_cr3 := cpu_cr3 (pm_cpu s)\<rparr>) s;
          s2 = upd_proc next_pid (\<lambda>p. p\<lparr>pr_state := PROCESS_RUNNING, pr_sched_count := pr_sched_count p + 1\<rparr>)
                 (s1\<lparr>pm_current := next_pid\<rparr>);
          cr3 = pr_cr3 (pm_procs s2 next_pid);
          s3 = (if cr3 \<noteq> 0 then s2\<lparr>pm_cpu := (pm_cpu s2)\<lparr>cpu_cr3 := cr3\<rparr>\<rparr> else s2)
      in process_switch old next_pid (save_fs_gs old (process_switch_fpu old next_pid s3)))"

definition yield_requeue :: "pm_state \<Rightarrow> pm_state option" where
  "yield_requeue s =
     (if state_of s (pm_current s) = PROCESS_RUNNING
      then do {
        s1 \<leftarrow> on_cfs (cfs_account_exec (Some (cfs_task_addr (pm_current s))) CFS_TICK_NSEC) s;
        on_cfs (cfs_enqueue_task (cfs_task_addr (pm_current s))) (set_state (pm_current s) PROCESS_READY s1)
      }
      else Some s)"

text \<open>\<open>process_yield\<close> from the choice of the next task on.\<close>

definition yield_run :: "nat option \<Rightarrow> pm_state \<Rightarrow> pm_state option" where
  "yield_run next_task s =
     (let prev = pm_current s
      in case next_task of
           None \<Rightarrow>
             (if state_of s prev = PROCESS_READY
              then on_cfs (cfs_dequeue_task (cfs_task_addr prev)) (set_rq_curr prev (set_state prev PROCESS_RUNNING s))
              else Some s)
         | Some a \<Rightarrow>
             let next_pid = (case first_index (\<lambda>i. state_of s i \<noteq> PROCESS_UNUSED \<and> cfs_task_addr i = a) MAX_PROCS of
                               None \<Rightarrow> prev | Some i \<Rightarrow> i)
             in do {
                  s1 \<leftarrow> on_cfs (cfs_dequeue_task a) s;
                  let s2 = s1\<lparr>pm_cfs := (pm_cfs s1)\<lparr>cs_rq := (cs_rq (pm_cfs s1))\<lparr>rq_curr := Some a\<rparr>\<rparr>\<rparr>;
                  Some (if next_pid = prev
                        then upd_proc prev (\<lambda>p. p\<lparr>pr_state := PROCESS_RUNNING, pr_sched_count := pr_sched_count p + 1\<rparr>) s2
                        else switch_to next_pid s2)
                })"

definition process_yield :: "pm_state \<Rightarrow> pm_state option" where
  "process_yield s0 =
     (if pm_count s0 \<le> 1 then Some s0
      else do {
        s \<leftarrow> yield_requeue (s0\<lparr>pm_jiffies := pm_jiffies s0 + 1\<rparr>);
        next_task \<leftarrow> cfs_pick_next_task (pm_cfs s);
        yield_run next_task s
      })"

definition thread_yield :: "pm_state \<Rightarrow> pm_state option" where
  "thread_yield s = process_yield s"

definition process_start :: "pm_state \<Rightarrow> pm_state option" where
  "process_start s =
     (case first_index (\<lambda>i. state_of s i = PROCESS_READY) MAX_PROCS of
        None \<Rightarrow> Some s
      | Some i \<Rightarrow> map_option (\<lambda>s'. set_rq_curr i (set_state i PROCESS_RUNNING s'))
          (on_cfs (cfs_dequeue_task (cfs_task_addr i)) (s\<lparr>pm_current := i\<rparr>)))"

definition scheduler_tick :: "pm_state \<Rightarrow> pm_state option" where
  "scheduler_tick s = on_cfs cfs_scheduler_tick (s\<lparr>pm_jiffies := pm_jiffies s + 1\<rparr>)"

definition scheduler_get_stats :: "pm_state \<Rightarrow> u64" where
  "scheduler_get_stats s = pm_jiffies s"

section \<open>Lookup, sleeping and waking\<close>

definition process_get :: "pid \<Rightarrow> pm_state \<Rightarrow> pid option" where
  "process_get pid s = (if pid < MAX_PROCS \<and> state_of s pid \<noteq> PROCESS_UNUSED then Some pid else None)"

definition process_find_by_name :: "string option \<Rightarrow> pm_state \<Rightarrow> pid option" where
  "process_find_by_name name s = (case name of None \<Rightarrow> None
     | Some n \<Rightarrow> first_index (\<lambda>i. state_of s i \<noteq> PROCESS_UNUSED \<and> pr_name (pm_procs s i) = n) MAX_PROCS)"

definition make_ready :: "pid \<Rightarrow> pm_state \<Rightarrow> pm_state option" where
  "make_ready p s = on_cfs (cfs_enqueue_task (cfs_task_addr p)) (set_state p PROCESS_READY s)"

definition process_wakeup :: "pid \<Rightarrow> pm_state \<Rightarrow> pm_state option" where
  "process_wakeup p s =
     (if p < MAX_PROCS \<and> (state_of s p = PROCESS_WAITING \<or> state_of s p = PROCESS_SLEEPING)
      then make_ready p s else Some s)"

definition pm_enqueue_process :: "pid \<Rightarrow> pm_state \<Rightarrow> pm_state option" where
  "pm_enqueue_process p s =
     (if p < MAX_PROCS \<and> state_of s p \<noteq> PROCESS_UNUSED \<and> state_of s p \<noteq> PROCESS_DEAD \<and>
         state_of s p \<noteq> PROCESS_RUNNING
      then make_ready p s else Some s)"

definition process_sleep :: "u64 \<Rightarrow> pm_state \<Rightarrow> pm_state option" where
  "process_sleep ms s = do {
     s1 \<leftarrow> (if pm_current s < MAX_PROCS
           then on_cfs (cfs_dequeue_task (cfs_task_addr (pm_current s)))
             (upd_proc (pm_current s) (\<lambda>p. p\<lparr>pr_state := PROCESS_SLEEPING, pr_wakeup_time := pm_jiffies s + ms\<rparr>) s)
           else Some s);
     process_yield s1
   }"

text \<open>
  \<open>status\<close> tells whether the caller wants the status, which is then 0. Every turn of the loop
  yields; the next function of the list is what the other processes do until this one
  runs again. \<open>None\<close> is a wait that has not ended yet.
\<close>

fun process_wait :: "pid \<Rightarrow> (pm_state \<Rightarrow> pm_state) list \<Rightarrow> pm_state \<Rightarrow> (int \<times> pm_state) option" where
  "process_wait p env s =
     (if p \<ge> MAX_PROCS then Some (- 1, s)
      else if state_of s p = PROCESS_DEAD \<or> state_of s p = PROCESS_ZOMBIE then Some (0, s)
      else case env of [] \<Rightarrow> None
           | e # es \<Rightarrow> Option.bind (process_yield s) (\<lambda>s1. process_wait p es (e s1)))"

section \<open>Killing, priorities and signals\<close>

definition process_kill :: "pid \<Rightarrow> pm_state \<Rightarrow> (int \<times> pm_state) option" where
  "process_kill p s =
     (if p \<ge> MAX_PROCS then Some (- 1, s)
      else if state_of s p = PROCESS_UNUSED then Some (- 1, s)
      else map_option (\<lambda>s'. (0, set_state p PROCESS_DEAD s')) (on_cfs (cfs_dequeue_task (cfs_task_addr p)) s))"

definition process_set_priority :: "pid \<Rightarrow> u64 \<Rightarrow> pm_state \<Rightarrow> int \<times> pm_state" where
  "process_set_priority p priority s =
     (if p \<ge> MAX_PROCS then (- 1, s)
      else if state_of s p = PROCESS_UNUSED then (- 1, s)
      else
        let nice = priority_to_nice priority; c = pm_cfs s; a = cfs_task_addr p
        in (0, (upd_proc p (\<lambda>p. p\<lparr>pr_priority := priority, pr_nice := nice\<rparr>) s)
              \<lparr>pm_cfs := c\<lparr>cs_tasks := (cs_tasks c)(a := (cs_tasks c a)
                 \<lparr>ct_nice := nice, ct_load_weight := cfs_nice_to_weight nice\<rparr>)\<rparr>\<rparr>))"

text \<open>The shift by 64 of signal 64 is undefined in C; the processor shifts by its remainder modulo 64.\<close>

definition process_signal_send :: "pid \<Rightarrow> int \<Rightarrow> pm_state \<Rightarrow> (int \<times> pm_state) option" where
  "process_signal_send p sig s =
     (if p \<ge> MAX_PROCS \<or> sig < 1 \<or> sig > 64 then Some (- 1, s)
      else if state_of s p = PROCESS_UNUSED \<or> state_of s p = PROCESS_DEAD then Some (- 1, s)
      else if sig = SIGKILL
      then map_option (\<lambda>s'. (0, set_state p PROCESS_DEAD s')) (on_cfs (cfs_dequeue_task (cfs_task_addr p)) s)
      else if sig = SIGSTOP
      then map_option (\<lambda>s'. (0, s')) (on_cfs (cfs_dequeue_task (cfs_task_addr p)) (set_state p PROCESS_STOPPED s))
      else if sig = SIGCONT then map_option (\<lambda>s'. (0, s')) (make_ready p s)
      else
        let s1 = upd_proc p (\<lambda>p. p\<lparr>pr_pending_signals := pr_pending_signals p OR push_bit (nat sig mod 64) 1\<rparr>) s
        in if state_of s p = PROCESS_SLEEPING \<or> state_of s p = PROCESS_WAITING
           then map_option (\<lambda>s'. (0, s')) (make_ready p s1)
           else Some (0, s1))"

definition process_signal_mask :: "u64 \<Rightarrow> u64 \<Rightarrow> u64 option \<Rightarrow> pm_state \<Rightarrow> int \<times> u64 option \<times> pm_state" where
  "process_signal_mask how ss oldset s =
     (let p = pm_current s; m = pr_signal_mask (pm_procs s p); old = map_option (\<lambda>_. m) oldset
      in if how = 0 then (0, old, upd_proc p (\<lambda>p. p\<lparr>pr_signal_mask := ss\<rparr>) s)
         else if how = 1 then (0, old, upd_proc p (\<lambda>p. p\<lparr>pr_signal_mask := m OR ss\<rparr>) s)
         else if how = 2 then (0, old, upd_proc p (\<lambda>p. p\<lparr>pr_signal_mask := m AND NOT ss\<rparr>) s)
         else (- 1, old, s))"

section \<open>Limits\<close>

abbreviation (input) RLIMIT_NLIMITS :: int where "RLIMIT_NLIMITS \<equiv> 16"
abbreviation (input) RLIM_INFINITY :: u64 where "RLIM_INFINITY \<equiv> - 1"

text \<open>The sixteen limits in the order of their numbers.\<close>

definition initial_rlimits :: "rlimit_t list" where
  "initial_rlimits = map (\<lambda>(c, m). \<lparr>rlim_cur = c, rlim_max = m\<rparr>)
     [(RLIM_INFINITY, RLIM_INFINITY), (RLIM_INFINITY, RLIM_INFINITY), (RLIM_INFINITY, RLIM_INFINITY),
      (8 * 1024 * 1024, RLIM_INFINITY), (0, RLIM_INFINITY), (RLIM_INFINITY, RLIM_INFINITY),
      (4096, 4096), (1024, 4096), (64 * 1024, 64 * 1024), (RLIM_INFINITY, RLIM_INFINITY),
      (RLIM_INFINITY, RLIM_INFINITY), (4096, 4096), (819200, 819200), (0, 0), (0, 0), (RLIM_INFINITY, RLIM_INFINITY)]"

definition init_rlimits :: "pid \<Rightarrow> pm_state \<Rightarrow> pm_state" where
  "init_rlimits p s = s\<lparr>pm_rlimits := (pm_rlimits s)(p :=
     (\<lambda>i. if i < 16 then initial_rlimits ! i else pm_rlimits s p i))\<rparr>"

definition process_setrlimit :: "int \<Rightarrow> rlimit_t option \<Rightarrow> pm_state \<Rightarrow> int \<times> pm_state" where
  "process_setrlimit resource rlim s =
     (case rlim of None \<Rightarrow> (- 1, s)
      | Some l \<Rightarrow>
          if resource < 0 \<or> resource \<ge> RLIMIT_NLIMITS then (- 1, s)
          else if rlim_cur l > rlim_max l then (- 1, s)
          else (0, s\<lparr>pm_rlimits := (pm_rlimits s)(pm_current s := (pm_rlimits s (pm_current s))(nat resource := l))\<rparr>))"

definition process_getrlimit :: "int \<Rightarrow> rlimit_t option \<Rightarrow> pm_state \<Rightarrow> int \<times> rlimit_t option" where
  "process_getrlimit resource rlim s =
     (case rlim of None \<Rightarrow> (- 1, None)
      | Some l \<Rightarrow>
          if resource < 0 \<or> resource \<ge> RLIMIT_NLIMITS then (- 1, Some l)
          else (0, Some (pm_rlimits s (pm_current s) (nat resource))))"

text \<open>The users: the getters answer 0 for every process, the setters do nothing.\<close>

definition process_get_uid :: "pid \<Rightarrow> nat option" where
  "process_get_uid p = (if p \<ge> MAX_PROCS then None else Some 0)"

definition process_get_gid :: "pid \<Rightarrow> nat option" where
  "process_get_gid p = (if p \<ge> MAX_PROCS then None else Some 0)"

definition process_set_uid :: "pid \<Rightarrow> pm_state \<Rightarrow> int \<times> pm_state" where
  "process_set_uid p s = (if p \<ge> MAX_PROCS then - 1 else 0, s)"

definition process_set_gid :: "pid \<Rightarrow> pm_state \<Rightarrow> int \<times> pm_state" where
  "process_set_gid p s = (if p \<ge> MAX_PROCS then - 1 else 0, s)"

section \<open>Fork and exec\<close>

definition process_fork :: "u64 option \<Rightarrow> pm_state \<Rightarrow> (int \<times> pm_state) option" where
  "process_fork stack s =
     (let parent = pm_procs s (pm_current s)
      in do {
        (child, s1) \<leftarrow> process_create_ex (Some (pr_name parent)) (pr_entry parent) (pr_entry_arg parent)
          (pr_priority parent) (ucast (pr_flags parent)) (pm_current s) stack s;
        Some (case child of None \<Rightarrow> (- 1, s1)
          | Some pid \<Rightarrow>
              (int pid, upd_proc pid (\<lambda>p. p\<lparr>pr_pending_signals := 0, pr_signal_mask := pr_signal_mask parent,
                 pr_fd_table := (\<lambda>i. if i < 16 \<and> int i < pr_fd_count parent then pr_fd_table parent i else pr_fd_table p i),
                 pr_fd_count := pr_fd_count parent\<rparr>) (init_rlimits pid s1)))
      })"

definition process_execve :: "string option \<Rightarrow> pm_state \<Rightarrow> int \<times> pm_state" where
  "process_execve file s = (case file of None \<Rightarrow> (- 1, s)
     | Some _ \<Rightarrow> (0, upd_proc (pm_current s) (\<lambda>p. p\<lparr>pr_fd_table := (\<lambda>i. if i < 16 then - 1 else pr_fd_table p i),
         pr_fd_count := 0, pr_pending_signals := 0, pr_signal_mask := 0\<rparr>) s))"

end
