(* ===== verification/ProcessInv.thy ===== *)
theory ProcessInv
  imports Process
begin

text \<open>
  The invariant of the process table: exactly the processes in the state READY are in the
  tree of the scheduler, at most the current process is RUNNING, and every process in use has
  the weight of its nice value. Every operation keeps it, and under it none of them fails
  to end.
\<close>

section \<open>What the scheduler's operations leave alone\<close>

lemma cfs_enqueue_frame:
  assumes "cfs_enqueue_task a c = Some c'"
  shows "ct_load_weight (cs_tasks c' b) = ct_load_weight (cs_tasks c b)"
    and "rq_curr (cs_rq c') = rq_curr (cs_rq c)" and "min_vruntime (cs_rq c') = min_vruntime (cs_rq c)"
  using assms by (auto simp: cfs_enqueue_task_def cfs_clamp_def Let_def split: if_splits)

lemma cfs_dequeue_frame:
  assumes "cfs_dequeue_task a c = Some c'"
  shows "ct_load_weight (cs_tasks c' b) = ct_load_weight (cs_tasks c b)"
    and "rq_curr (cs_rq c') = rq_curr (cs_rq c)" and "min_vruntime (cs_rq c') = min_vruntime (cs_rq c)"
  using assms by (auto simp: cfs_dequeue_task_def Let_def split: if_splits)

definition on_rq :: "cfs_state \<Rightarrow> pid \<Rightarrow> bool" where
  "on_rq c p \<longleftrightarrow> ct_on_rq (cs_tasks c (cfs_task_addr p)) \<noteq> 0"

definition weight_of :: "cfs_state \<Rightarrow> pid \<Rightarrow> u64" where
  "weight_of c p = ct_load_weight (cs_tasks c (cfs_task_addr p))"

definition vrun :: "pm_state \<Rightarrow> pid \<Rightarrow> u64" where
  "vrun s p = vruntime_of (pm_cfs s) (cfs_task_addr p)"

lemma on_rq_list: "cfs_inv c \<Longrightarrow> on_rq c p \<longleftrightarrow> cfs_task_addr p \<in> set (cfs_list c)"
  using cfs_list_queued by (simp add: on_rq_def)

lemma cfs_enqueue_pid:
  assumes "cfs_inv c" and "p < MAX_PROCS"
  shows "\<exists>c'. cfs_enqueue_task (cfs_task_addr p) c = Some c' \<and> cfs_inv c' \<and>
    (\<forall>q. on_rq c' q \<longleftrightarrow> q = p \<or> on_rq c q) \<and> weight_of c' = weight_of c \<and>
    rq_curr (cs_rq c') = rq_curr (cs_rq c) \<and> min_vruntime (cs_rq c') = min_vruntime (cs_rq c)"
proof -
  obtain c' where c': "cfs_enqueue_task (cfs_task_addr p) c = Some c'" "cfs_inv c'"
    "set (cfs_list c') = insert (cfs_task_addr p) (set (cfs_list c))"
    using cfs_enqueue_inv [OF assms(1) cfs_valid_addr [OF assms(2)]] by blast
  then have "\<forall>q. on_rq c' q \<longleftrightarrow> q = p \<or> on_rq c q" using on_rq_list assms(1) by auto
  then show ?thesis using c'(1,2) cfs_enqueue_frame [OF c'(1)] by (auto simp: weight_of_def fun_eq_iff)
qed

lemma cfs_dequeue_pid:
  assumes "cfs_inv c"
  shows "\<exists>c'. cfs_dequeue_task (cfs_task_addr p) c = Some c' \<and> cfs_inv c' \<and>
    (\<forall>q. on_rq c' q \<longleftrightarrow> q \<noteq> p \<and> on_rq c q) \<and> weight_of c' = weight_of c \<and>
    vruntime_of c' = vruntime_of c \<and> cfs_list c' = remove1 (cfs_task_addr p) (cfs_list c) \<and>
    rq_curr (cs_rq c') = rq_curr (cs_rq c) \<and> min_vruntime (cs_rq c') = min_vruntime (cs_rq c)"
proof -
  obtain c' where c': "cfs_dequeue_task (cfs_task_addr p) c = Some c'" "cfs_inv c'"
    "cfs_list c' = remove1 (cfs_task_addr p) (cfs_list c)" "vruntime_of c' = vruntime_of c"
    using cfs_dequeue_inv [OF assms] by blast
  then have "\<forall>q. on_rq c' q \<longleftrightarrow> q \<noteq> p \<and> on_rq c q"
    using on_rq_list assms cfs.queue_distinct [OF assms] by (auto simp: set_remove1_eq)
  then show ?thesis using c' cfs_dequeue_frame [OF c'(1)] by (auto simp: weight_of_def fun_eq_iff)
qed

lemma cfs_curr_inv: "cfs_inv c \<Longrightarrow> cfs_inv (c\<lparr>cs_rq := (cs_rq c)\<lparr>rq_curr := x\<rparr>\<rparr>)"
  by (erule cfs_inv_frame) (auto simp: vruntime_of_def)

lemma cfs_enqueue_list:
  assumes "cfs_inv c" and "p < MAX_PROCS" and "\<not> on_rq c p" and e: "cfs_enqueue_task (cfs_task_addr p) c = Some c'"
  shows "cfs_list c' = ins_sorted (vruntime_of c') (cfs_task_addr p) (cfs_list c)"
    and "vruntime_of c' = (vruntime_of c)(cfs_task_addr p := max (vruntime_of c (cfs_task_addr p)) (min_vruntime (cs_rq c) - 24000000))"
proof -
  note q = cfs_invE [OF assms(1)]
  have new: "cfs_task_addr p \<notin> set (cfs_list c)" using on_rq_list [OF assms(1)] assms(3) by simp
  have "length (cfs_list c) + 1 < 2 ^ 32" using cfs_queue_length [OF q(1,2)] by simp
  from cfs_enqueue_new [OF q(1) cfs_valid_not_nil [OF cfs_valid_addr [OF assms(2)]] new this] e
  have e': "cfs_queue c' (ins_sorted (vruntime_of c') (cfs_task_addr p) (cfs_list c))"
    "vruntime_of c' = vruntime_of (cfs_clamp (cfs_task_addr p) c)" by auto
  show "cfs_list c' = ins_sorted (vruntime_of c') (cfs_task_addr p) (cfs_list c)" using cfs_list_ok [OF e'(1)] .
  show "vruntime_of c' = (vruntime_of c)(cfs_task_addr p := max (vruntime_of c (cfs_task_addr p)) (min_vruntime (cs_rq c) - 24000000))"
    unfolding e'(2) by (auto simp: fun_eq_iff)
qed

lemma cfs_task_init_list:
  assumes "cfs_inv c" and "p < MAX_PROCS" and "\<not> on_rq c p"
  shows "cfs_list (cfs_task_init (cfs_task_addr p) nice c) = cfs_list c"
proof -
  have "cfs_task_addr p \<notin> set (cfs_list c)" using on_rq_list [OF assms(1)] assms(3) by simp
  from cfs_task_init_queue [OF cfs_invE(1) [OF assms(1)] this cfs_valid_not_nil [OF cfs_valid_addr [OF assms(2)]]]
  show ?thesis by (rule cfs_list_ok)
qed

text \<open>\<open>c'\<close> is \<open>c\<close> after process \<open>p\<close> was set up and queued for the first time.\<close>

definition queued_fresh :: "pid \<Rightarrow> cfs_state \<Rightarrow> cfs_state \<Rightarrow> bool" where
  "queued_fresh p c c' \<longleftrightarrow> cfs_list c' = ins_sorted (vruntime_of c') (cfs_task_addr p) (cfs_list c) \<and>
     vruntime_of c' = (vruntime_of c)(cfs_task_addr p := max (min_vruntime (cs_rq c)) (min_vruntime (cs_rq c) - 24000000)) \<and>
     min_vruntime (cs_rq c') = min_vruntime (cs_rq c)"

lemma queued_freshI:
  assumes "cfs_inv c1" and "p < MAX_PROCS" and "\<not> on_rq c1 p"
    and "cfs_enqueue_task (cfs_task_addr p) (cfs_task_init (cfs_task_addr p) nice c1) = Some c'"
    and "cfs_list c1 = cfs_list c" and "min_vruntime (cs_rq c1) = min_vruntime (cs_rq c)"
    and "\<And>b. b \<noteq> cfs_task_addr p \<Longrightarrow> vruntime_of c1 b = vruntime_of c b"
  shows "queued_fresh p c c'"
proof -
  let ?c = "cfs_task_init (cfs_task_addr p) nice c1"
  have off: "\<not> on_rq ?c p" by (simp add: on_rq_def cfs_task_init_def Let_def)
  have i: "cfs_inv ?c" by (rule cfs_task_init_inv [OF assms(1) cfs_valid_addr [OF assms(2)]]) (use assms(3) in \<open>simp add: on_rq_def\<close>)
  have "vruntime_of ?c = (vruntime_of c)(cfs_task_addr p := min_vruntime (cs_rq c))" "min_vruntime (cs_rq ?c) = min_vruntime (cs_rq c)"
    using assms(6,7) by (auto simp: cfs_task_init_def Let_def vruntime_of_def fun_eq_iff)
  then show ?thesis using cfs_enqueue_list [OF i assms(2) off assms(4)] cfs_enqueue_frame(3) [OF assms(4)]
      cfs_task_init_list [OF assms(1-3)] assms(5) by (simp add: queued_fresh_def)
qed

section \<open>The invariant\<close>

text \<open>One process; \<open>cur\<close> and \<open>cnt\<close> are the current process and the count.\<close>

definition proc_ok :: "pid \<Rightarrow> nat \<Rightarrow> cfs_state \<Rightarrow> pid \<Rightarrow> process_t \<Rightarrow> bool" where
  "proc_ok cur cnt c p x \<longleftrightarrow> (on_rq c p \<longleftrightarrow> pr_state x = PROCESS_READY) \<and>
     (pr_state x \<noteq> PROCESS_UNUSED \<longrightarrow> p < cnt \<and> weight_of c p = cfs_nice_to_weight (pr_nice x)) \<and>
     (pr_state x = PROCESS_RUNNING \<longrightarrow> p = cur)"

definition pm_inv :: "pm_state \<Rightarrow> bool" where
  "pm_inv s \<longleftrightarrow> cfs_inv (pm_cfs s) \<and> pm_current s < MAX_PROCS \<and> pm_count s \<le> MAX_PROCS \<and>
     (\<forall>p<MAX_PROCS. proc_ok (pm_current s) (pm_count s) (pm_cfs s) p (pm_procs s p))"

text \<open>The invariant while process \<open>p\<close> has its new state but is not yet put into the tree or taken out.\<close>

definition pm_inv_but :: "pid \<Rightarrow> pm_state \<Rightarrow> bool" where
  "pm_inv_but p s \<longleftrightarrow> cfs_inv (pm_cfs s) \<and> pm_current s < MAX_PROCS \<and> pm_count s \<le> MAX_PROCS \<and> p < MAX_PROCS \<and>
     (\<forall>q<MAX_PROCS. q \<noteq> p \<longrightarrow> proc_ok (pm_current s) (pm_count s) (pm_cfs s) q (pm_procs s q)) \<and>
     (state_of s p \<noteq> PROCESS_UNUSED \<longrightarrow> p < pm_count s \<and> weight_of (pm_cfs s) p = cfs_nice_to_weight (pr_nice (pm_procs s p))) \<and>
     (state_of s p = PROCESS_RUNNING \<longrightarrow> p = pm_current s)"

lemma pm_inv_butI: "pm_inv s \<Longrightarrow> p < MAX_PROCS \<Longrightarrow> pm_inv_but p s"
  by (auto simp: pm_inv_def pm_inv_but_def proc_ok_def)

lemma pm_inv_procs: "pm_inv s \<Longrightarrow> p < MAX_PROCS \<Longrightarrow> proc_ok (pm_current s) (pm_count s) (pm_cfs s) p (pm_procs s p)"
  by (simp add: pm_inv_def)

lemma pm_inv_cfs: "pm_inv s \<Longrightarrow> cfs_inv (pm_cfs s)"
  by (simp add: pm_inv_def)

lemma pm_inv_listed:
  "pm_inv s \<Longrightarrow> p < MAX_PROCS \<Longrightarrow> cfs_task_addr p \<in> set (cfs_list (pm_cfs s)) \<longleftrightarrow> state_of s p = PROCESS_READY"
  using pm_inv_procs [of s p] on_rq_list [of "pm_cfs s" p] by (auto simp: proc_ok_def pm_inv_cfs)

lemma pm_inv_off: "pm_inv s \<Longrightarrow> p < MAX_PROCS \<Longrightarrow> state_of s p \<noteq> PROCESS_READY \<Longrightarrow> \<not> on_rq (pm_cfs s) p"
  using pm_inv_procs [of s p] by (auto simp: proc_ok_def)

lemma pm_inv_weight: "pm_inv s \<Longrightarrow> p < MAX_PROCS \<Longrightarrow> state_of s p \<noteq> PROCESS_UNUSED \<Longrightarrow>
    weight_of (pm_cfs s) p = cfs_nice_to_weight (pr_nice (pm_procs s p))"
  using pm_inv_procs [of s p] by (auto simp: proc_ok_def)

lemma upd_proc_sel [simp]:
  "pm_procs (upd_proc p f s) = (pm_procs s)(p := f (pm_procs s p))" "pm_count (upd_proc p f s) = pm_count s"
  "pm_current (upd_proc p f s) = pm_current s" "pm_cfs (upd_proc p f s) = pm_cfs s"
  "pm_cpu (upd_proc p f s) = pm_cpu s" "pm_resume (upd_proc p f s) = pm_resume s"
  "pm_jiffies (upd_proc p f s) = pm_jiffies s" "pm_rlimits (upd_proc p f s) = pm_rlimits s"
  by (simp_all add: upd_proc_def)

lemma set_state_sel [simp]:
  "pm_procs (set_state p st s) = (pm_procs s)(p := (pm_procs s p)\<lparr>pr_state := st\<rparr>)"
  "pm_count (set_state p st s) = pm_count s" "pm_current (set_state p st s) = pm_current s"
  "pm_cfs (set_state p st s) = pm_cfs s" "pm_cpu (set_state p st s) = pm_cpu s"
  "pm_resume (set_state p st s) = pm_resume s" "pm_jiffies (set_state p st s) = pm_jiffies s"
  by (simp_all add: set_state_def)

lemma set_state_cfs: "set_state p st (s\<lparr>pm_cfs := c\<rparr>) = (set_state p st s)\<lparr>pm_cfs := c\<rparr>"
  by (cases s) (simp add: set_state_def upd_proc_def)

lemma on_cfs_set_state: "map_option (set_state p st) (on_cfs f s) = on_cfs f (set_state p st s)"
  by (simp add: on_cfs_def option.map_comp o_def set_state_cfs)

lemma pm_inv_but_upd:
  assumes "pm_inv_but p s" and "pr_state (f (pm_procs s p)) \<noteq> PROCESS_UNUSED \<longrightarrow> state_of s p \<noteq> PROCESS_UNUSED"
    and "pr_state (f (pm_procs s p)) = PROCESS_RUNNING \<longrightarrow> p = pm_current s"
    and "pr_nice (f (pm_procs s p)) = pr_nice (pm_procs s p)"
  shows "pm_inv_but p (upd_proc p f s)"
  using assms by (auto simp: pm_inv_but_def)

lemma pm_inv_but_set_state:
  assumes "pm_inv_but p s" and "st \<noteq> PROCESS_UNUSED \<longrightarrow> state_of s p \<noteq> PROCESS_UNUSED"
    and "st = PROCESS_RUNNING \<longrightarrow> p = pm_current s"
  shows "pm_inv_but p (set_state p st s)"
  unfolding set_state_def by (rule pm_inv_but_upd) (use assms in auto)

text \<open>The two ways of making the invariant whole again.\<close>

lemma enqueue_restores:
  assumes "pm_inv_but p s" and "state_of s p = PROCESS_READY"
  shows "\<exists>c. on_cfs (cfs_enqueue_task (cfs_task_addr p)) s = Some (s\<lparr>pm_cfs := c\<rparr>) \<and>
    cfs_enqueue_task (cfs_task_addr p) (pm_cfs s) = Some c \<and> pm_inv (s\<lparr>pm_cfs := c\<rparr>) \<and>
    weight_of c = weight_of (pm_cfs s) \<and> rq_curr (cs_rq c) = rq_curr (cs_rq (pm_cfs s))"
proof -
  have p: "p < MAX_PROCS" "cfs_inv (pm_cfs s)" using assms(1) by (auto simp: pm_inv_but_def)
  from cfs_enqueue_pid [OF p(2,1)] obtain c where c: "cfs_enqueue_task (cfs_task_addr p) (pm_cfs s) = Some c" "cfs_inv c"
    "\<forall>q. on_rq c q \<longleftrightarrow> q = p \<or> on_rq (pm_cfs s) q" "weight_of c = weight_of (pm_cfs s)"
    "rq_curr (cs_rq c) = rq_curr (cs_rq (pm_cfs s))" by auto
  have "pm_inv (s\<lparr>pm_cfs := c\<rparr>)"
    using assms c(2-4) by (auto simp: pm_inv_def pm_inv_but_def proc_ok_def)
  then show ?thesis using c by (auto simp: on_cfs_def)
qed

lemma dequeue_restores:
  assumes "pm_inv_but p s" and "state_of s p \<noteq> PROCESS_READY"
  shows "\<exists>c. on_cfs (cfs_dequeue_task (cfs_task_addr p)) s = Some (s\<lparr>pm_cfs := c\<rparr>) \<and>
    cfs_dequeue_task (cfs_task_addr p) (pm_cfs s) = Some c \<and> pm_inv (s\<lparr>pm_cfs := c\<rparr>) \<and>
    weight_of c = weight_of (pm_cfs s) \<and> vruntime_of c = vruntime_of (pm_cfs s) \<and>
    cfs_list c = remove1 (cfs_task_addr p) (cfs_list (pm_cfs s)) \<and> rq_curr (cs_rq c) = rq_curr (cs_rq (pm_cfs s))"
proof -
  have p: "cfs_inv (pm_cfs s)" using assms(1) by (auto simp: pm_inv_but_def)
  from cfs_dequeue_pid [OF p, of p] obtain c where c: "cfs_dequeue_task (cfs_task_addr p) (pm_cfs s) = Some c" "cfs_inv c"
    "\<forall>q. on_rq c q \<longleftrightarrow> q \<noteq> p \<and> on_rq (pm_cfs s) q" "weight_of c = weight_of (pm_cfs s)"
    "vruntime_of c = vruntime_of (pm_cfs s)" "cfs_list c = remove1 (cfs_task_addr p) (cfs_list (pm_cfs s))"
    "rq_curr (cs_rq c) = rq_curr (cs_rq (pm_cfs s))" by auto
  have "pm_inv (s\<lparr>pm_cfs := c\<rparr>)"
    using assms c(2-4) by (auto simp: pm_inv_def pm_inv_but_def proc_ok_def)
  then show ?thesis using c by (auto simp: on_cfs_def)
qed

section \<open>Every operation keeps the invariant\<close>

lemma pm_inv_frame:
  assumes "pm_inv s" and "pm_cfs s' = pm_cfs s" "pm_current s' = pm_current s" "pm_count s' = pm_count s"
    and "\<And>p. pr_state (pm_procs s' p) = state_of s p" "\<And>p. pr_nice (pm_procs s' p) = pr_nice (pm_procs s p)"
  shows "pm_inv s'"
  using assms by (simp add: pm_inv_def proc_ok_def)

lemma make_ready_ok:
  assumes "pm_inv s" and "p < MAX_PROCS" and "state_of s p \<noteq> PROCESS_UNUSED"
  shows "\<exists>c. make_ready p s = Some ((set_state p PROCESS_READY s)\<lparr>pm_cfs := c\<rparr>) \<and>
    cfs_enqueue_task (cfs_task_addr p) (pm_cfs s) = Some c \<and>
    pm_inv ((set_state p PROCESS_READY s)\<lparr>pm_cfs := c\<rparr>)"
  using enqueue_restores [of p "set_state p PROCESS_READY s"] assms
  by (auto simp: make_ready_def intro: pm_inv_but_set_state pm_inv_butI)

lemma take_off_ok:
  assumes "pm_inv s" and "p < MAX_PROCS" and "state_of s p \<noteq> PROCESS_UNUSED" and "st \<noteq> PROCESS_READY"
    and "st = PROCESS_RUNNING \<longrightarrow> p = pm_current s"
  shows "\<exists>c. on_cfs (cfs_dequeue_task (cfs_task_addr p)) (set_state p st s) = Some ((set_state p st s)\<lparr>pm_cfs := c\<rparr>) \<and>
    pm_inv ((set_state p st s)\<lparr>pm_cfs := c\<rparr>)"
  using dequeue_restores [of p "set_state p st s"] assms
  by (fastforce intro: pm_inv_but_set_state pm_inv_butI)

lemma process_wakeup_ok: "pm_inv s \<Longrightarrow> \<exists>s'. process_wakeup p s = Some s' \<and> pm_inv s'"
  using make_ready_ok [of s p] by (auto simp: process_wakeup_def)

lemma pm_enqueue_process_ok: "pm_inv s \<Longrightarrow> \<exists>s'. pm_enqueue_process p s = Some s' \<and> pm_inv s'"
  using make_ready_ok [of s p] by (auto simp: pm_enqueue_process_def)

lemma process_exit_ok:
  "pm_inv s \<Longrightarrow> state_of s (pm_current s) \<noteq> PROCESS_UNUSED \<Longrightarrow> \<exists>s'. process_exit s = Some s' \<and> pm_inv s'"
  using take_off_ok [of s "pm_current s" PROCESS_DEAD] by (auto simp: process_exit_def on_cfs_set_state)

lemma map_set_state_result:
  "map_option (\<lambda>s'. (r, set_state p st s')) (on_cfs f s) = map_option (Pair r) (on_cfs f (set_state p st s))"
  by (simp add: on_cfs_set_state [symmetric] option.map_comp o_def)

lemma process_kill_ok: "pm_inv s \<Longrightarrow> \<exists>r s'. process_kill p s = Some (r, s') \<and> pm_inv s'"
  using take_off_ok [of s p PROCESS_DEAD] by (auto simp: process_kill_def map_set_state_result)

lemma process_signal_send_ok: "pm_inv s \<Longrightarrow> \<exists>r s'. process_signal_send p sig s = Some (r, s') \<and> pm_inv s'"
proof -
  assume i: "pm_inv s"
  show ?thesis
  proof (cases "p \<ge> MAX_PROCS \<or> sig < 1 \<or> sig > 64 \<or> state_of s p = PROCESS_UNUSED \<or> state_of s p = PROCESS_DEAD")
    case True
    then show ?thesis using i by (auto simp: process_signal_send_def)
  next
    case False
    then have p: "p < MAX_PROCS" "state_of s p \<noteq> PROCESS_UNUSED" by auto
    let ?s1 = "upd_proc p (\<lambda>p. p\<lparr>pr_pending_signals := pr_pending_signals p OR push_bit (nat sig mod 64) 1\<rparr>) s"
    have i1: "pm_inv ?s1" by (rule pm_inv_frame [OF i]) simp_all
    show ?thesis
      using False p i i1 take_off_ok [OF i p, of PROCESS_DEAD] take_off_ok [OF i p, of PROCESS_STOPPED]
        make_ready_ok [OF i p] make_ready_ok [OF i1 p(1)]
      unfolding process_signal_send_def map_set_state_result by (auto simp: Let_def)
  qed
qed

lemma process_set_priority_ok:
  assumes i: "pm_inv s"
  shows "pm_inv (snd (process_set_priority p priority s))"
proof -
  let ?c = "pm_cfs s" and ?n = "priority_to_nice priority"
  let ?c' = "?c\<lparr>cs_tasks := (cs_tasks ?c)(cfs_task_addr p := (cs_tasks ?c (cfs_task_addr p))
     \<lparr>ct_nice := ?n, ct_load_weight := cfs_nice_to_weight ?n\<rparr>)\<rparr>"
  have "cfs_inv ?c'" by (rule cfs_inv_frame [OF pm_inv_cfs [OF i]]) (auto simp: vruntime_of_def)
  moreover have "on_rq ?c' q = on_rq ?c q" for q by (simp add: on_rq_def)
  moreover have "weight_of ?c' = (weight_of ?c)(p := cfs_nice_to_weight ?n)" by (auto simp: weight_of_def fun_eq_iff)
  ultimately show ?thesis using i by (auto simp: process_set_priority_def pm_inv_def proc_ok_def Let_def)
qed

lemma process_signal_mask_ok: "pm_inv s \<Longrightarrow> pm_inv (snd (snd (process_signal_mask how ss oldset s)))"
  by (erule pm_inv_frame) (auto simp: process_signal_mask_def Let_def)

lemma process_setrlimit_ok: "pm_inv s \<Longrightarrow> pm_inv (snd (process_setrlimit resource rlim s))"
  by (erule pm_inv_frame) (auto simp: process_setrlimit_def split: option.split)

lemma process_execve_ok: "pm_inv s \<Longrightarrow> pm_inv (snd (process_execve file s))"
  by (erule pm_inv_frame) (auto simp: process_execve_def split: option.split)

section \<open>Creation\<close>

lemma cfs_clear_inv:
  assumes "cfs_inv (pm_cfs s)" and "p < MAX_PROCS" and "\<not> on_rq (pm_cfs s) p"
  shows "cfs_inv (pm_cfs (clear_process p s))" and "cfs_list (pm_cfs (clear_process p s)) = cfs_list (pm_cfs s)"
    and "min_vruntime (cs_rq (pm_cfs (clear_process p s))) = min_vruntime (cs_rq (pm_cfs s))"
    and "\<And>b. b \<noteq> cfs_task_addr p \<Longrightarrow> vruntime_of (pm_cfs (clear_process p s)) b = vruntime_of (pm_cfs s) b"
proof -
  have "tasks_timeline (cs_rq (pm_cfs (clear_process p s))) = tasks_timeline (cs_rq (cfs_task_init (cfs_task_addr p) 0 (pm_cfs s)))"
    by (simp add: clear_process_def cfs_task_init_def Let_def)
  then show "cfs_list (pm_cfs (clear_process p s)) = cfs_list (pm_cfs s)"
    using cfs_task_init_list [OF assms, of 0] by (simp add: cfs_list_def)
  show "min_vruntime (cs_rq (pm_cfs (clear_process p s))) = min_vruntime (cs_rq (pm_cfs s))"
    "\<And>b. b \<noteq> cfs_task_addr p \<Longrightarrow> vruntime_of (pm_cfs (clear_process p s)) b = vruntime_of (pm_cfs s) b"
    by (simp_all add: clear_process_def Let_def vruntime_of_def)
  have "cfs_inv (cfs_task_init (cfs_task_addr p) 0 (pm_cfs s))"
    by (rule cfs_task_init_inv [OF assms(1) cfs_valid_addr [OF assms(2)]]) (use assms(3) in \<open>simp add: on_rq_def\<close>)
  then show "cfs_inv (pm_cfs (clear_process p s))"
    by (rule cfs_inv_frame) (auto simp: clear_process_def cfs_task_init_def Let_def vruntime_of_def)
qed

lemma clear_process_sel [simp]:
  "pm_procs (clear_process p s) = (pm_procs s)(p := process_zero)" "pm_count (clear_process p s) = pm_count s"
  "pm_current (clear_process p s) = pm_current s" "pm_cpu (clear_process p s) = pm_cpu s"
  "on_rq (pm_cfs (clear_process p s)) q \<longleftrightarrow> q \<noteq> p \<and> on_rq (pm_cfs s) q"
  "weight_of (pm_cfs (clear_process p s)) q = (if q = p then 0 else weight_of (pm_cfs s) q)"
  by (auto simp: clear_process_def Let_def on_rq_def weight_of_def)

lemma cfs_task_init_sel [simp]:
  "on_rq (cfs_task_init (cfs_task_addr p) nice c) q \<longleftrightarrow> q \<noteq> p \<and> on_rq c q"
  "weight_of (cfs_task_init (cfs_task_addr p) nice c) q = (if q = p then cfs_nice_to_weight nice else weight_of c q)"
  by (auto simp: cfs_task_init_def Let_def on_rq_def weight_of_def)

lemma pm_inv_upd_count:
  assumes "pm_inv s" and "pm_count s \<le> n" and "n \<le> MAX_PROCS"
  shows "pm_inv (s\<lparr>pm_count := n\<rparr>)"
  using assms by (fastforce simp: pm_inv_def proc_ok_def)

text \<open>What creation does, with the invariant: it takes the first unused slot or fails.\<close>

lemma process_create_ex_ok:
  assumes i: "pm_inv s"
  shows "\<exists>r s'. process_create_ex name entry arg priority flags parent stack s = Some (r, s') \<and> pm_inv s' \<and>
    pm_current s' = pm_current s \<and> pm_count s \<le> pm_count s' \<and>
    (case r of None \<Rightarrow> \<forall>q. state_of s' q = state_of s q
     | Some pid \<Rightarrow> pid < MAX_PROCS \<and> state_of s pid = PROCESS_UNUSED \<and> (\<forall>q. q \<noteq> pid \<longrightarrow> pm_procs s' q = pm_procs s q) \<and>
         state_of s' pid = PROCESS_READY \<and> pr_nice (pm_procs s' pid) = priority_to_nice priority \<and> pid < pm_count s' \<and>
         queued_fresh pid (pm_cfs s) (pm_cfs s'))"
proof (cases "first_index (\<lambda>i. state_of s i = PROCESS_UNUSED) MAX_PROCS")
  case None
  then show ?thesis using i by (auto simp: process_create_ex_def)
next
  case (Some pid)
  then have pid: "pid < MAX_PROCS" "state_of s pid = PROCESS_UNUSED" by (auto dest: first_index_SomeD)
  have off: "\<not> on_rq (pm_cfs s) pid" using pm_inv_off [OF i pid(1)] pid(2) by simp
  let ?nice = "priority_to_nice priority" and ?a = "cfs_task_addr pid"
  define s1 where "s1 = upd_proc pid (\<lambda>p. p\<lparr>pr_id := pid, pr_priority := priority, pr_state := PROCESS_READY, pr_entry := entry,
      pr_entry_arg := arg, pr_flags := ucast flags, pr_parent_id := parent, pr_cr3 := cpu_cr3 (pm_cpu s), pr_nice := ?nice,
      pr_name := (case name of None \<Rightarrow> pr_name p | Some n \<Rightarrow> take (PROCESS_NAME_MAX - 1) n)\<rparr>) (clear_process pid s)"
  note clear = cfs_clear_inv [OF pm_inv_cfs [OF i] pid(1) off]
  have c1: "cfs_inv (pm_cfs s1)" using clear(1) by (simp add: s1_def)
  have s1: "state_of s1 pid = PROCESS_READY" "pr_nice (pm_procs s1 pid) = ?nice" "\<And>q. q \<noteq> pid \<Longrightarrow> pm_procs s1 q = pm_procs s q"
    "pm_current s1 = pm_current s" "pm_count s1 = pm_count s" "\<And>q. on_rq (pm_cfs s1) q \<longleftrightarrow> on_rq (pm_cfs s) q"
    "\<And>q. q \<noteq> pid \<Longrightarrow> weight_of (pm_cfs s1) q = weight_of (pm_cfs s) q"
    using off by (auto simp: s1_def)
  note run = process_create_ex_def Some option.case Let_def s1_def [symmetric]
  show ?thesis
  proof (cases stack)
    case None
    let ?s' = "set_state pid PROCESS_UNUSED s1"
    have "pm_inv ?s'" using i c1 s1 pid off by (auto simp: pm_inv_def proc_ok_def)
    then show ?thesis using None s1 pid by (auto simp: run)
  next
    case stack: (Some k)
    define s2 where "s2 = (upd_proc pid (\<lambda>p. p\<lparr>pr_stack := k, pr_rsp := k + 16384 - 8 - 48\<rparr>) s1)\<lparr>pm_resume := (pm_resume s)(pid := None)\<rparr>"
    define s3 where "s3 = s2\<lparr>pm_cfs := cfs_task_init ?a ?nice (pm_cfs s2), pm_count := max (pm_count s) (pid + 1)\<rparr>"
    have s2: "pm_cfs s2 = pm_cfs s1" "pm_current s2 = pm_current s" "pm_count s2 = pm_count s"
      "pm_procs s2 = (pm_procs s1)(pid := (pm_procs s1 pid)\<lparr>pr_stack := k, pr_rsp := k + 16384 - 8 - 48\<rparr>)"
      using s1 by (simp_all add: s2_def)
    have "cfs_inv (cfs_task_init ?a ?nice (pm_cfs s2))" unfolding s2
      by (rule cfs_task_init_inv [OF c1 cfs_valid_addr [OF pid(1)]]) (use s1(6) off in \<open>simp add: on_rq_def\<close>)
    then have "pm_inv_but pid s3" using i s1 pid off
      by (auto simp: pm_inv_but_def pm_inv_def proc_ok_def s3_def s2)
    then obtain c where c: "cfs_enqueue_task ?a (pm_cfs s3) = Some c" "pm_inv (s3\<lparr>pm_cfs := c\<rparr>)"
      using enqueue_restores [of pid s3] s1(1) by (auto simp: s3_def s2)
    define s' where "s' = s2\<lparr>pm_cfs := c, pm_count := max (pm_count s) (pid + 1)\<rparr>"
    have s': "pm_inv s'" by (rule pm_inv_frame [OF c(2)]) (simp_all add: s3_def s'_def)
    have "process_create_ex name entry arg priority flags parent stack s =
       on_cfs (cfs_enqueue_task ?a) (s2\<lparr>pm_cfs := cfs_task_init ?a ?nice (pm_cfs s2)\<rparr>) \<bind>
         (\<lambda>s4. Some (Some pid, if pid \<ge> pm_count s4 then s4\<lparr>pm_count := pid + 1\<rparr> else s4))"
      by (simp only: run stack s2_def [symmetric])
    also have "on_cfs (cfs_enqueue_task ?a) (s2\<lparr>pm_cfs := cfs_task_init ?a ?nice (pm_cfs s2)\<rparr>) = Some (s2\<lparr>pm_cfs := c\<rparr>)"
      using c(1) by (simp add: on_cfs_def s3_def)
    also have "Some (s2\<lparr>pm_cfs := c\<rparr>) \<bind>
         (\<lambda>s4. Some (Some pid, if pid \<ge> pm_count s4 then s4\<lparr>pm_count := pid + 1\<rparr> else s4)) = Some (Some pid, s')"
      using s2(3) by (cases s2) (auto simp: s'_def max_def)
    finally have "process_create_ex name entry arg priority flags parent stack s = Some (Some pid, s')" .
    moreover have "state_of s' pid = PROCESS_READY" "pr_nice (pm_procs s' pid) = ?nice" "pm_current s' = pm_current s"
      "pm_count s \<le> pm_count s'" "pid < pm_count s'" "\<And>q. q \<noteq> pid \<Longrightarrow> pm_procs s' q = pm_procs s q"
      using s1 by (auto simp: s'_def s2)
    moreover have "queued_fresh pid (pm_cfs s) c"
      by (rule queued_freshI [OF c1 pid(1)]) (use c(1) off clear in \<open>auto simp: s3_def s2 s1_def\<close>)
    ultimately show ?thesis using s' pid by (auto simp: s'_def)
  qed
qed

lemma process_fork_ok:
  assumes "pm_inv s"
  shows "\<exists>r s'. process_fork stack s = Some (r, s') \<and> pm_inv s'"
proof -
  let ?p = "pm_procs s (pm_current s)"
  from process_create_ex_ok [OF assms, of "Some (pr_name ?p)" "pr_entry ?p" "pr_entry_arg ?p" "pr_priority ?p"
      "ucast (pr_flags ?p)" "pm_current s" stack]
  obtain r s1 where c: "process_create_ex (Some (pr_name ?p)) (pr_entry ?p) (pr_entry_arg ?p) (pr_priority ?p)
      (ucast (pr_flags ?p)) (pm_current s) stack s = Some (r, s1)" "pm_inv s1" by blast
  show ?thesis
  proof (cases r)
    case None
    then show ?thesis using c by (simp add: process_fork_def Let_def)
  next
    case (Some pid)
    let ?s2 = "upd_proc pid (\<lambda>p. p\<lparr>pr_pending_signals := 0, pr_signal_mask := pr_signal_mask ?p,
       pr_fd_table := (\<lambda>i. if i < 16 \<and> int i < pr_fd_count ?p then pr_fd_table ?p i else pr_fd_table p i),
       pr_fd_count := pr_fd_count ?p\<rparr>) (init_rlimits pid s1)"
    have "pm_inv ?s2" by (rule pm_inv_frame [OF c(2)]) (simp_all add: init_rlimits_def)
    then show ?thesis using Some c(1) by (simp add: process_fork_def Let_def)
  qed
qed

lemma process_init_ok:
  assumes "\<And>a. ct_on_rq (cs_tasks (pm_cfs s) a) = 0"
    and "cs_initialized (pm_cfs s) \<Longrightarrow> focus (tasks_timeline (cs_rq (pm_cfs s))) [] L"
  shows "pm_inv (process_init s)"
proof -
  have "cfs_inv (cfs_rq_init (pm_cfs s))"
    by (rule cfs_invI [OF cfs_rq_init_queue [OF assms]]) (simp_all add: cfs_rq_init_def)
  then show ?thesis using assms(1)
    by (auto simp: process_init_def pm_inv_def proc_ok_def on_rq_def cfs_rq_init_def)
qed

section \<open>The tick\<close>

text \<open>The tick adds to the runtime of the task that \<open>curr\<close> points to, which must not be in the tree.\<close>

lemma cfs_scheduler_tick_ok:
  assumes "cfs_inv c" and "\<And>a. rq_curr (cs_rq c) = Some a \<Longrightarrow> ct_on_rq (cs_tasks c a) = 0"
    and "cfs_scheduler_tick c = Some c'"
  shows "cfs_inv c' \<and> on_rq c' = on_rq c \<and> weight_of c' = weight_of c"
proof -
  let ?c1 = "c\<lparr>cs_jiffies := cs_jiffies c + 1\<rparr>"
  have c1: "cfs_inv ?c1" by (rule cfs_inv_frame [OF assms(1)]) (auto simp: vruntime_of_def)
  show ?thesis
  proof (cases "rq_curr (cs_rq c)")
    case None
    then show ?thesis using assms(3) c1 by (auto simp: cfs_scheduler_tick_def Let_def on_rq_def weight_of_def)
  next
    case (Some a)
    then obtain c2 where c2: "cfs_account_exec (Some a) 1000000 ?c1 = Some c2" "cfs_update_min_vruntime c2 = Some c'"
      using assms(3) by (auto simp: cfs_scheduler_tick_def Let_def bind_eq_Some_conv)
    have "cfs_inv c2" using cfs_account_inv [OF c1 _ c2(1)] assms(2) [OF Some] by simp
    then have "cfs_inv c'" using cfs_update_inv c2(2) by blast
    moreover have "ct_on_rq (cs_tasks c' b) = ct_on_rq (cs_tasks c b)" "ct_load_weight (cs_tasks c' b) = ct_load_weight (cs_tasks c b)" for b
      using c2 by (auto simp: cfs_account_exec_def cfs_update_min_vruntime_def Let_def split: if_splits)
    ultimately show ?thesis by (auto simp: on_rq_def weight_of_def fun_eq_iff)
  qed
qed

lemma scheduler_tick_ok:
  assumes "pm_inv s" and "\<And>a. rq_curr (cs_rq (pm_cfs s)) = Some a \<Longrightarrow> ct_on_rq (cs_tasks (pm_cfs s) a) = 0"
    and "scheduler_tick s = Some s'"
  shows "pm_inv s'"
proof -
  obtain c where c: "cfs_scheduler_tick (pm_cfs s) = Some c" "s' = s\<lparr>pm_jiffies := pm_jiffies s + 1, pm_cfs := c\<rparr>"
    using assms(3) by (auto simp: scheduler_tick_def on_cfs_def)
  from cfs_scheduler_tick_ok [OF pm_inv_cfs [OF assms(1)] assms(2) c(1)] show ?thesis
    using assms(1) by (auto simp: c(2) pm_inv_def proc_ok_def)
qed

section \<open>The context switch\<close>

lemma process_switch_fpu_sel [simp]:
  "pm_cfs (process_switch_fpu a b s) = pm_cfs s" "pm_current (process_switch_fpu a b s) = pm_current s"
  "pm_count (process_switch_fpu a b s) = pm_count s" "pm_resume (process_switch_fpu a b s) = pm_resume s"
  "state_of (process_switch_fpu a b s) q = state_of s q"
  "pr_nice (pm_procs (process_switch_fpu a b s) q) = pr_nice (pm_procs s q)"
  "pr_fs_base (pm_procs (process_switch_fpu a b s) q) = pr_fs_base (pm_procs s q)"
  "pr_fs_selector (pm_procs (process_switch_fpu a b s) q) = pr_fs_selector (pm_procs s q)"
  "cpu_fs (pm_cpu (process_switch_fpu a b s)) = cpu_fs (pm_cpu s)"
  "cpu_fs_base (pm_cpu (process_switch_fpu a b s)) = cpu_fs_base (pm_cpu s)"
  by (auto simp: process_switch_fpu_def Let_def)

lemma save_fs_gs_sel [simp]:
  "pm_cfs (save_fs_gs a s) = pm_cfs s" "pm_current (save_fs_gs a s) = pm_current s"
  "pm_count (save_fs_gs a s) = pm_count s" "pm_resume (save_fs_gs a s) = pm_resume s"
  "state_of (save_fs_gs a s) q = state_of s q"
  "pr_nice (pm_procs (save_fs_gs a s) q) = pr_nice (pm_procs s q)"
  "pr_fs_base (pm_procs (save_fs_gs a s) q) = (if q = a \<and> cpu_fs (pm_cpu s) \<noteq> 0 then cpu_fs_base (pm_cpu s) else pr_fs_base (pm_procs s q))"
  "pr_fs_selector (pm_procs (save_fs_gs a s) q) = (if q = a then cpu_fs (pm_cpu s) else pr_fs_selector (pm_procs s q))"
  "pm_cpu (save_fs_gs a s) = pm_cpu s"
  by (auto simp: save_fs_gs_def Let_def)

lemma restore_fs_gs_sel [simp]:
  "pm_cfs (restore_fs_gs a s) = pm_cfs s" "pm_current (restore_fs_gs a s) = pm_current s"
  "pm_count (restore_fs_gs a s) = pm_count s" "pm_resume (restore_fs_gs a s) = pm_resume s"
  "pm_procs (restore_fs_gs a s) = pm_procs s"
  by (auto simp: restore_fs_gs_def Let_def)

lemma process_switch_sel:
  "pm_cfs (process_switch old new s) = pm_cfs s" "pm_current (process_switch old new s) = pm_current s"
  "pm_count (process_switch old new s) = pm_count s"
  "state_of s (pm_current s) = PROCESS_RUNNING \<Longrightarrow> state_of (process_switch old new s) q = state_of s q"
  "pr_nice (pm_procs (process_switch old new s) q) = pr_nice (pm_procs s q)"
  by (auto simp: process_switch_def Let_def split: option.split)

lemma switch_to_sel:
  "pm_cfs (switch_to n s) = pm_cfs s" "pm_current (switch_to n s) = n" "pm_count (switch_to n s) = pm_count s"
  "state_of (switch_to n s) q = (if q = n then PROCESS_RUNNING else state_of s q)"
  "pr_nice (pm_procs (switch_to n s) q) = pr_nice (pm_procs s q)"
  by (auto simp: switch_to_def Let_def process_switch_sel)

section \<open>Yielding\<close>

lemma yield_requeue_ok:
  assumes i: "pm_inv s"
  shows "\<exists>s'. yield_requeue s = Some s' \<and> pm_inv s' \<and> pm_current s' = pm_current s \<and> pm_count s' = pm_count s \<and>
    state_of s' (pm_current s) \<noteq> PROCESS_RUNNING \<and>
    (\<forall>q. q \<noteq> pm_current s \<longrightarrow> state_of s' q = state_of s q) \<and>
    (state_of s (pm_current s) = PROCESS_RUNNING \<longrightarrow> state_of s' (pm_current s) = PROCESS_READY) \<and>
    (state_of s (pm_current s) \<noteq> PROCESS_RUNNING \<longrightarrow> s' = s) \<and> (\<forall>q. pr_nice (pm_procs s' q) = pr_nice (pm_procs s q))"
proof (cases "state_of s (pm_current s) = PROCESS_RUNNING")
  case False
  then show ?thesis using i by (auto simp: yield_requeue_def)
next
  case True
  let ?p = "pm_current s" and ?c = "pm_cfs s"
  let ?a = "cfs_task_addr ?p"
  have p: "?p < MAX_PROCS" using i by (simp add: pm_inv_def)
  have off: "ct_on_rq (cs_tasks ?c ?a) = 0" and w: "weight_of ?c ?p = cfs_nice_to_weight (pr_nice (pm_procs s ?p))"
    using pm_inv_procs [OF i p] True by (auto simp: proc_ok_def on_rq_def)
  have "ct_load_weight (cs_tasks ?c ?a) \<noteq> 0" using w cfs_weight_pos by (simp add: weight_of_def)
  then obtain c1 where c1: "cfs_account_exec (Some ?a) 1000000 ?c = Some c1" by (auto simp: cfs_account_exec_def Let_def)
  have i1: "cfs_inv c1" by (rule cfs_account_inv [OF pm_inv_cfs [OF i] off c1])
  have "on_rq c1 = on_rq ?c" "weight_of c1 = weight_of ?c"
    using c1 by (auto simp: cfs_account_exec_def Let_def on_rq_def weight_of_def fun_eq_iff split: if_splits)
  then have s1: "pm_inv (s\<lparr>pm_cfs := c1\<rparr>)" using i i1 by (auto simp: pm_inv_def proc_ok_def)
  from make_ready_ok [OF s1 p] True obtain c where
    c: "make_ready ?p (s\<lparr>pm_cfs := c1\<rparr>) = Some ((set_state ?p PROCESS_READY (s\<lparr>pm_cfs := c1\<rparr>))\<lparr>pm_cfs := c\<rparr>)"
      "pm_inv ((set_state ?p PROCESS_READY (s\<lparr>pm_cfs := c1\<rparr>))\<lparr>pm_cfs := c\<rparr>)" by auto
  then show ?thesis using c1 True by (auto simp: yield_requeue_def on_cfs_def make_ready_def)
qed

text \<open>The process a task belongs to is found again by the search through the table.\<close>

lemma find_task:
  assumes "pm_inv s" and "p < MAX_PROCS" and "state_of s p \<noteq> PROCESS_UNUSED"
  shows "first_index (\<lambda>i. state_of s i \<noteq> PROCESS_UNUSED \<and> cfs_task_addr i = cfs_task_addr p) MAX_PROCS = Some p"
  by (rule first_index_SomeI) (use assms in auto)

lemma pm_inv_jiffies [simp]: "pm_inv (s\<lparr>pm_jiffies := n\<rparr>) = pm_inv s"
  by (simp add: pm_inv_def)

lemma pm_inv_rq_curr: "pm_inv s \<Longrightarrow> pm_inv (s\<lparr>pm_cfs := (pm_cfs s)\<lparr>cs_rq := (cs_rq (pm_cfs s))\<lparr>rq_curr := x\<rparr>\<rparr>\<rparr>)"
  using cfs_curr_inv by (auto simp: pm_inv_def proc_ok_def on_rq_def weight_of_def)

text \<open>The process chosen from a table in order: the first task of the list is taken off and its process runs.\<close>

lemma run_first_ok:
  assumes i: "pm_inv s" and p: "p < MAX_PROCS" "state_of s p = PROCESS_READY"
    and prev: "state_of s (pm_current s) \<noteq> PROCESS_RUNNING"
  shows "\<exists>c. on_cfs (cfs_dequeue_task (cfs_task_addr p)) s = Some (s\<lparr>pm_cfs := c\<rparr>) \<and>
    cfs_dequeue_task (cfs_task_addr p) (pm_cfs s) = Some c \<and>
    cfs_list c = remove1 (cfs_task_addr p) (cfs_list (pm_cfs s)) \<and> vruntime_of c = vruntime_of (pm_cfs s) \<and>
    min_vruntime (cs_rq c) = min_vruntime (cs_rq (pm_cfs s)) \<and> weight_of c = weight_of (pm_cfs s) \<and>
    (\<forall>s'. pm_cfs s' = c\<lparr>cs_rq := (cs_rq c)\<lparr>rq_curr := x\<rparr>\<rparr> \<longrightarrow> pm_current s' = p \<longrightarrow> pm_count s' = pm_count s \<longrightarrow>
       (\<forall>q. state_of s' q = (if q = p then PROCESS_RUNNING else state_of s q)) \<longrightarrow>
       (\<forall>q. pr_nice (pm_procs s' q) = pr_nice (pm_procs s q)) \<longrightarrow> pm_inv s')"
proof -
  from cfs_dequeue_pid [OF pm_inv_cfs [OF i], of p] obtain c where
    c: "cfs_dequeue_task (cfs_task_addr p) (pm_cfs s) = Some c" "cfs_inv c" "\<forall>q. on_rq c q \<longleftrightarrow> q \<noteq> p \<and> on_rq (pm_cfs s) q"
    "weight_of c = weight_of (pm_cfs s)" "vruntime_of c = vruntime_of (pm_cfs s)"
    "cfs_list c = remove1 (cfs_task_addr p) (cfs_list (pm_cfs s))" "min_vruntime (cs_rq c) = min_vruntime (cs_rq (pm_cfs s))"
    by blast
  let ?c = "c\<lparr>cs_rq := (cs_rq c)\<lparr>rq_curr := x\<rparr>\<rparr>"
  have c': "cfs_inv ?c" "on_rq ?c = on_rq c" "weight_of ?c = weight_of (pm_cfs s)"
    using cfs_curr_inv [OF c(2)] c(4) by (auto simp: on_rq_def weight_of_def fun_eq_iff)
  have "pm_inv s'" if "pm_cfs s' = ?c" "pm_current s' = p" "pm_count s' = pm_count s"
    "\<forall>q. state_of s' q = (if q = p then PROCESS_RUNNING else state_of s q)"
    "\<forall>q. pr_nice (pm_procs s' q) = pr_nice (pm_procs s q)" for s'
    using i p prev c(3) that c' unfolding pm_inv_def proc_ok_def that(1) by auto
  then show ?thesis using c by (auto simp: on_cfs_def)
qed

lemma process_yield_ok:
  assumes i: "pm_inv s" and n: "pm_count s > 1"
  shows "\<exists>s1 s'. yield_requeue (s\<lparr>pm_jiffies := pm_jiffies s + 1\<rparr>) = Some s1 \<and> process_yield s = Some s' \<and> pm_inv s1 \<and> pm_inv s' \<and>
    (case cfs_list (pm_cfs s1) of [] \<Rightarrow> s' = s1
     | a # as \<Rightarrow> a = cfs_task_addr (pm_current s') \<and> cfs_list (pm_cfs s') = as \<and> vrun s' = vrun s1 \<and> pm_count s' = pm_count s \<and>
         min_vruntime (cs_rq (pm_cfs s')) = min_vruntime (cs_rq (pm_cfs s1)) \<and> weight_of (pm_cfs s') = weight_of (pm_cfs s1) \<and>
         rq_curr (cs_rq (pm_cfs s')) = Some a \<and> (\<forall>q. pr_nice (pm_procs s' q) = pr_nice (pm_procs s q)) \<and>
         (\<forall>q. state_of s' q = (if q = pm_current s' then PROCESS_RUNNING else state_of s1 q)))"
proof -
  let ?s0 = "s\<lparr>pm_jiffies := pm_jiffies s + 1\<rparr>"
  from yield_requeue_ok [of ?s0] i obtain s1 where s1: "yield_requeue ?s0 = Some s1" "pm_inv s1" "pm_current s1 = pm_current s"
    "pm_count s1 = pm_count s" "state_of s1 (pm_current s) \<noteq> PROCESS_RUNNING" "\<And>q. pr_nice (pm_procs s1 q) = pr_nice (pm_procs s q)"
    by auto
  have i1: "cfs_inv (pm_cfs s1)" by (rule pm_inv_cfs [OF s1(2)])
  have pick: "cfs_pick_next_task (pm_cfs s1) = Some (case cfs_list (pm_cfs s1) of [] \<Rightarrow> None | a # as \<Rightarrow> Some a)"
    using cfs_pick_queue [OF cfs_invE(1) [OF i1]] cfs_invE(3) [OF i1] by (simp split: list.split)
  show ?thesis
  proof (cases "cfs_list (pm_cfs s1)")
    case Nil
    have cur: "pm_current s < MAX_PROCS" using i by (simp add: pm_inv_def)
    have "state_of s1 (pm_current s) \<noteq> PROCESS_READY"
      using pm_inv_listed [OF s1(2) cur] Nil by simp
    then have "process_yield s = Some s1" using n s1(1,3) pick Nil by (simp add: process_yield_def yield_run_def Let_def)
    then show ?thesis using s1(1,2) Nil by auto
  next
    case (Cons a as)
    obtain p where a: "a = cfs_task_addr p" and p: "p < MAX_PROCS"
      using cfs_invE(2) [OF i1] Cons by (auto simp: cfs_valid_def)
    have r: "state_of s1 p = PROCESS_READY"
      using pm_inv_listed [OF s1(2) p] Cons a by simp
    have find: "first_index (\<lambda>i. state_of s1 i \<noteq> PROCESS_UNUSED \<and> cfs_task_addr i = a) MAX_PROCS = Some p"
      unfolding a by (rule find_task [OF s1(2) p]) (simp add: r)
    from run_first_ok [OF s1(2) p r, of "Some a"] s1(3,5) obtain c where
      c: "on_cfs (cfs_dequeue_task a) s1 = Some (s1\<lparr>pm_cfs := c\<rparr>)" "cfs_list c = remove1 a (cfs_list (pm_cfs s1))"
      "vruntime_of c = vruntime_of (pm_cfs s1)" "min_vruntime (cs_rq c) = min_vruntime (cs_rq (pm_cfs s1))"
      "weight_of c = weight_of (pm_cfs s1)"
      and inv: "\<And>s'. pm_cfs s' = c\<lparr>cs_rq := (cs_rq c)\<lparr>rq_curr := Some a\<rparr>\<rparr> \<Longrightarrow> pm_current s' = p \<Longrightarrow> pm_count s' = pm_count s1 \<Longrightarrow>
         (\<And>q. state_of s' q = (if q = p then PROCESS_RUNNING else state_of s1 q)) \<Longrightarrow>
         (\<And>q. pr_nice (pm_procs s' q) = pr_nice (pm_procs s1 q)) \<Longrightarrow> pm_inv s'"
      unfolding a by metis
    let ?c = "c\<lparr>cs_rq := (cs_rq c)\<lparr>rq_curr := Some a\<rparr>\<rparr>"
    define s' where "s' = (if p = pm_current s
      then upd_proc p (\<lambda>p. p\<lparr>pr_state := PROCESS_RUNNING, pr_sched_count := pr_sched_count p + 1\<rparr>) (s1\<lparr>pm_cfs := ?c\<rparr>)
      else switch_to p (s1\<lparr>pm_cfs := ?c\<rparr>))"
    have run: "process_yield s = Some s'"
      using n s1(1,3) pick Cons find c(1) by (simp add: process_yield_def yield_run_def Let_def s'_def)
    have sel: "pm_cfs s' = ?c" "pm_current s' = p" "pm_count s' = pm_count s1"
      "\<And>q. state_of s' q = (if q = p then PROCESS_RUNNING else state_of s1 q)"
      "\<And>q. pr_nice (pm_procs s' q) = pr_nice (pm_procs s1 q)"
      using s1(3) by (auto simp: s'_def switch_to_sel)
    have c': "cfs_list ?c = cfs_list c" "weight_of ?c = weight_of c" "vruntime_of ?c = vruntime_of c"
      by (simp_all add: cfs_list_def weight_of_def vruntime_of_def fun_eq_iff)
    show ?thesis using run inv [OF sel] s1(1,2,4,6) sel c(2-5) c' Cons a
      by (intro exI [of _ s1] exI [of _ s']) (simp add: vrun_def fun_eq_iff)
  qed
qed

lemma process_yield_inv:
  assumes "pm_inv s"
  shows "\<exists>s'. process_yield s = Some s' \<and> pm_inv s'"
  using assms process_yield_ok [OF assms] by (cases "pm_count s > 1") (auto simp: process_yield_def)

lemma sleep_off_ok:
  assumes i: "pm_inv s" and u: "state_of s (pm_current s) \<noteq> PROCESS_UNUSED"
  shows "\<exists>s1. on_cfs (cfs_dequeue_task (cfs_task_addr (pm_current s)))
      (upd_proc (pm_current s) (\<lambda>p. p\<lparr>pr_state := PROCESS_SLEEPING, pr_wakeup_time := pm_jiffies s + ms\<rparr>) s) = Some s1 \<and>
    pm_inv s1 \<and> process_sleep ms s = process_yield s1 \<and> pm_count s1 = pm_count s \<and> pm_current s1 = pm_current s \<and>
    (\<forall>q. state_of s1 q = (if q = pm_current s then PROCESS_SLEEPING else state_of s q))"
proof -
  let ?p = "pm_current s"
  let ?s1 = "upd_proc ?p (\<lambda>p. p\<lparr>pr_state := PROCESS_SLEEPING, pr_wakeup_time := pm_jiffies s + ms\<rparr>) s"
  have p: "?p < MAX_PROCS" using i by (simp add: pm_inv_def)
  have "pm_inv_but ?p ?s1" by (rule pm_inv_but_upd [OF pm_inv_butI [OF i p]]) (use u in auto)
  from dequeue_restores [OF this] obtain c where "on_cfs (cfs_dequeue_task (cfs_task_addr ?p)) ?s1 = Some (?s1\<lparr>pm_cfs := c\<rparr>)"
    "pm_inv (?s1\<lparr>pm_cfs := c\<rparr>)" by auto
  then show ?thesis using p by (auto simp: process_sleep_def)
qed

lemma process_sleep_ok:
  "pm_inv s \<Longrightarrow> state_of s (pm_current s) \<noteq> PROCESS_UNUSED \<Longrightarrow> \<exists>s'. process_sleep ms s = Some s' \<and> pm_inv s'"
  using sleep_off_ok [of s ms] process_yield_inv by auto

lemma process_start_ok:
  assumes i: "pm_inv s" and no: "\<forall>p<MAX_PROCS. state_of s p \<noteq> PROCESS_RUNNING"
  shows "\<exists>s'. process_start s = Some s' \<and> pm_inv s'"
proof (cases "first_index (\<lambda>i. state_of s i = PROCESS_READY) MAX_PROCS")
  case None
  then show ?thesis using i by (simp add: process_start_def)
next
  case (Some p)
  then have p: "p < MAX_PROCS" "state_of s p = PROCESS_READY" by (auto dest: first_index_SomeD)
  have cur: "pm_current s < MAX_PROCS" using i by (simp add: pm_inv_def)
  from run_first_ok [OF i p no [rule_format, OF cur], of "Some (cfs_task_addr p)"] obtain c where
    c: "cfs_dequeue_task (cfs_task_addr p) (pm_cfs s) = Some c"
    and inv: "\<And>s'. pm_cfs s' = c\<lparr>cs_rq := (cs_rq c)\<lparr>rq_curr := Some (cfs_task_addr p)\<rparr>\<rparr> \<Longrightarrow> pm_current s' = p \<Longrightarrow>
       pm_count s' = pm_count s \<Longrightarrow> (\<And>q. state_of s' q = (if q = p then PROCESS_RUNNING else state_of s q)) \<Longrightarrow>
       (\<And>q. pr_nice (pm_procs s' q) = pr_nice (pm_procs s q)) \<Longrightarrow> pm_inv s'" by blast
  have run: "process_start s = Some (set_rq_curr p (set_state p PROCESS_RUNNING (s\<lparr>pm_current := p, pm_cfs := c\<rparr>)))"
    using c Some by (auto simp: process_start_def on_cfs_def)
  show ?thesis by (rule exI, rule conjI [OF run], rule inv) (simp_all add: set_rq_curr_def)
qed

end
