(* ===== verification/ProcessProps.thy ===== *)
theory ProcessProps
  imports ProcessInv
begin

text \<open>
  The runs of the process table as steps of its operations, and what holds in every state
  they reach: the ready processes are those the scheduler has, and a yield runs the one
  with the least virtual runtime. Then what goes wrong: slots are never given back, a process of idle
  priority can keep the processor for ever, the segment bases of another process are loaded, and wake-ups
  that go around the scheduler are lost.
\<close>

section \<open>Runs\<close>

text \<open>
  Exit and sleep are called by a process that exists; \<open>process_start\<close> is called when none runs; the tick
  comes while the task that \<open>curr\<close> points to is not queued: one that comes when it is queued updates the key of a
  node inside the tree. The signals are those of \<open>process_signal_send\<close>; \<open>signal_send\<close> of \<open>signal.c\<close> and
  \<open>futex_wake\<close> write READY into the table without queueing the process and are no steps.
\<close>

inductive pm_step :: "pm_state \<Rightarrow> pm_state \<Rightarrow> bool" where
  create: "process_create_ex name entry arg priority flags parent stack s = Some (r, s') \<Longrightarrow> pm_step s s'"
| exit: "state_of s (pm_current s) \<noteq> PROCESS_UNUSED \<Longrightarrow> process_exit s = Some s' \<Longrightarrow> pm_step s s'"
| yield: "process_yield s = Some s' \<Longrightarrow> pm_step s s'"
| sleep: "state_of s (pm_current s) \<noteq> PROCESS_UNUSED \<Longrightarrow> process_sleep ms s = Some s' \<Longrightarrow> pm_step s s'"
| wakeup: "process_wakeup p s = Some s' \<Longrightarrow> pm_step s s'"
| enqueue: "pm_enqueue_process p s = Some s' \<Longrightarrow> pm_step s s'"
| kill: "process_kill p s = Some (e, s') \<Longrightarrow> pm_step s s'"
| signal: "process_signal_send p sig s = Some (e, s') \<Longrightarrow> pm_step s s'"
| start: "\<forall>p<MAX_PROCS. state_of s p \<noteq> PROCESS_RUNNING \<Longrightarrow> process_start s = Some s' \<Longrightarrow> pm_step s s'"
| tick: "(\<And>a. rq_curr (cs_rq (pm_cfs s)) = Some a \<Longrightarrow> ct_on_rq (cs_tasks (pm_cfs s) a) = 0) \<Longrightarrow>
    scheduler_tick s = Some s' \<Longrightarrow> pm_step s s'"
| priority: "pm_step s (snd (process_set_priority p priority s))"
| sigmask: "pm_step s (snd (snd (process_signal_mask how ss oldset s)))"
| limit: "pm_step s (snd (process_setrlimit resource rlim s))"
| fork: "process_fork stack s = Some (e, s') \<Longrightarrow> pm_step s s'"
| exec: "pm_step s (snd (process_execve file s))"

inductive_cases pm_step_cases: "pm_step s s'"

lemma pm_step_inv:
  assumes "pm_step s s'" and i: "pm_inv s"
  shows "pm_inv s'"
  using assms(1)
proof cases
  case (create name entry arg priority flags parent stack r)
  then show ?thesis using process_create_ex_ok [OF i, of name entry arg priority flags parent stack] by auto
next
  case exit
  then show ?thesis using process_exit_ok [OF i] by auto
next
  case yield
  then show ?thesis using process_yield_inv [OF i] by auto
next
  case (sleep ms)
  then show ?thesis using process_sleep_ok [OF i, of ms] by auto
next
  case (wakeup p)
  then show ?thesis using process_wakeup_ok [OF i, of p] by auto
next
  case (enqueue p)
  then show ?thesis using pm_enqueue_process_ok [OF i, of p] by auto
next
  case (kill p e)
  then show ?thesis using process_kill_ok [OF i, of p] by auto
next
  case (signal p sig e)
  then show ?thesis using process_signal_send_ok [OF i, of p sig] by auto
next
  case start
  then show ?thesis using process_start_ok [OF i] by auto
next
  case tick
  then show ?thesis using scheduler_tick_ok [OF i] by blast
next
  case (fork stack e)
  then show ?thesis using process_fork_ok [OF i, of stack] by auto
qed (use i in \<open>simp_all add: process_set_priority_ok process_signal_mask_ok process_setrlimit_ok process_execve_ok\<close>)

interpretation pm_run: kept pm_step pm_inv
  by unfold_locales (rule pm_step_inv)

text \<open>The state at boot, before \<open>process_init\<close>: everything is zero.\<close>

definition pm_boot :: pm_state where
  "pm_boot = \<lparr>pm_procs = (\<lambda>_. process_zero), pm_count = 0, pm_current = 0, pm_jiffies = 0, pm_cfs = cfs_boot,
     pm_cpu = \<lparr>cpu_cr3 = 4096, cpu_fs = 0, cpu_gs = 0, cpu_fs_base = 0, cpu_gs_base = 0, cpu_fpu = (\<lambda>_. 0), cpu_fninit = (\<lambda>_. 0)\<rparr>,
     pm_resume = (\<lambda>_. None), pm_rlimits = (\<lambda>_ _. \<lparr>rlim_cur = 0, rlim_max = 0\<rparr>)\<rparr>"

lemma pm_boot_inv: "pm_inv (process_init pm_boot)"
  by (rule process_init_ok) (simp_all add: pm_boot_def cfs_boot_def)

definition pm_reachable :: "pm_state \<Rightarrow> bool" where
  "pm_reachable s \<longleftrightarrow> pm_step\<^sup>*\<^sup>* (process_init pm_boot) s"

lemma pm_reachable_inv: "pm_reachable s \<Longrightarrow> pm_inv s"
  unfolding pm_reachable_def by (rule pm_run.steps_keep [OF _ pm_boot_inv])

lemma pm_reachable_boot: "pm_reachable (process_init pm_boot)"
  by (simp add: pm_reachable_def)

lemma pm_reachable_step: "pm_reachable s \<Longrightarrow> pm_step s s' \<Longrightarrow> pm_reachable s'"
  unfolding pm_reachable_def by (rule rtranclp.rtrancl_into_rtrancl)

section \<open>Properties\<close>

text \<open>
  C4. The tree of the scheduler contains exactly the processes that are READY, and at most the
  current process is RUNNING, after any sequence, from boot on, of the operations of \<open>process.c\<close>: creations, yields,
  wake-ups, kills, signals by \<open>process_signal_send\<close>, changes of priority, masks and limits, forks, exits and sleeps that are called by a process that
  exists, starts when no process runs, and ticks that come while the task that \<open>curr\<close> points to is not in the tree; and a
  yield always comes to an end. Two things are left out, which break it: a tick while that task is in the tree
  (\<open>tick_breaks_order\<close> in the theory \<open>ProcessFaults\<close>), and the wake-ups of \<open>signal_send\<close> and \<open>futex_wake\<close>, which
  set READY without queueing (\<open>signal_send_loses_process\<close>).
\<close>

theorem ready_iff_queued:
  assumes "pm_step\<^sup>*\<^sup>* (process_init pm_boot) s" and "p < MAX_PROCS"
  shows "(ct_on_rq (cs_tasks (pm_cfs s) (cfs_task_addr p)) \<noteq> 0 \<longleftrightarrow> state_of s p = PROCESS_READY) \<and>
    (state_of s p = PROCESS_RUNNING \<longrightarrow> p = pm_current s) \<and> process_yield s \<noteq> None"
proof -
  have i: "pm_inv s" using pm_reachable_inv assms(1) by (simp add: pm_reachable_def)
  show ?thesis using pm_inv_procs [OF i assms(2)] process_yield_inv [OF i] by (auto simp: proc_ok_def on_rq_def)
qed

lemma create_some:
  assumes "first_index (\<lambda>i. state_of s i = PROCESS_UNUSED) MAX_PROCS = Some pid"
    and "process_create_ex name entry arg priority flags parent (Some k) s = Some (r, s')"
  shows "r = Some pid"
  using assms by (auto simp: process_create_ex_def Let_def bind_eq_Some_conv)

lemma create_slot:
  assumes i: "pm_inv s" and n: "first_index (\<lambda>i. state_of s i = PROCESS_UNUSED) MAX_PROCS = Some pid"
  obtains s' where "process_create_ex name entry arg priority flags parent (Some k) s = Some (Some pid, s')" "pm_inv s'"
    "pm_current s' = pm_current s" "pm_count s' > pid" "\<And>q. q \<noteq> pid \<Longrightarrow> pm_procs s' q = pm_procs s q"
    "state_of s' pid = PROCESS_READY" "pr_nice (pm_procs s' pid) = priority_to_nice priority"
    "queued_fresh pid (pm_cfs s) (pm_cfs s')" "pm_step s s'"
proof -
  from process_create_ex_ok [OF i, of name entry arg priority flags parent "Some k"] obtain r s' where
    c: "process_create_ex name entry arg priority flags parent (Some k) s = Some (r, s')" "pm_inv s'" "pm_current s' = pm_current s"
    "case r of None \<Rightarrow> \<forall>q. state_of s' q = state_of s q
     | Some pid \<Rightarrow> pid < MAX_PROCS \<and> state_of s pid = PROCESS_UNUSED \<and> (\<forall>q. q \<noteq> pid \<longrightarrow> pm_procs s' q = pm_procs s q) \<and>
         state_of s' pid = PROCESS_READY \<and> pr_nice (pm_procs s' pid) = priority_to_nice priority \<and> pid < pm_count s' \<and>
         queued_fresh pid (pm_cfs s) (pm_cfs s')" by blast
  from create_some [OF n c(1)] c show ?thesis by (intro that [of s'] pm_step.create) auto
qed

text \<open>A table with two processes of given priorities, of which the first runs.\<close>

lemma two_processes:
  "\<exists>s1 s2 s3. process_create_ex None e1 a1 prio1 0 0 (Some k1) (process_init pm_boot) = Some (Some 0, s1) \<and>
     process_create_ex None e2 a2 prio2 0 0 (Some k2) s1 = Some (Some 1, s2) \<and> process_start s2 = Some s3 \<and>
     pm_reachable s3 \<and> pm_count s3 > 1 \<and> pm_current s3 = 0 \<and> state_of s3 0 = PROCESS_RUNNING \<and> state_of s3 1 = PROCESS_READY \<and>
     pr_nice (pm_procs s3 0) = priority_to_nice prio1 \<and> pr_nice (pm_procs s3 1) = priority_to_nice prio2 \<and>
     (\<forall>q. 1 < q \<longrightarrow> q < MAX_PROCS \<longrightarrow> state_of s3 q = PROCESS_UNUSED) \<and>
     vrun s3 0 = - 24000000 \<and> vrun s3 1 = - 24000000 \<and> min_vruntime (cs_rq (pm_cfs s3)) = 0 \<and>
     cfs_list (pm_cfs s3) = [cfs_task_addr 1] \<and> rq_curr (cs_rq (pm_cfs s3)) = Some (cfs_task_addr 0)"
proof -
  let ?s0 = "process_init pm_boot"
  have u0: "state_of ?s0 q = PROCESS_UNUSED" if "q < MAX_PROCS" for q using that by (simp add: process_init_def)
  have "first_index (\<lambda>i. state_of ?s0 i = PROCESS_UNUSED) MAX_PROCS = Some 0"
    by (rule first_index_SomeI) (auto simp: u0)
  then obtain s1 where
    s1: "process_create_ex None e1 a1 prio1 0 0 (Some k1) ?s0 = Some (Some 0, s1)" "pm_inv s1" "pm_current s1 = pm_current ?s0" "pm_count s1 > 0"
    "\<And>q. q \<noteq> 0 \<Longrightarrow> pm_procs s1 q = pm_procs ?s0 q" "state_of s1 0 = PROCESS_READY" "pr_nice (pm_procs s1 0) = priority_to_nice prio1"
    "queued_fresh 0 (pm_cfs ?s0) (pm_cfs s1)" "pm_step ?s0 s1"
    by (rule create_slot [OF pm_boot_inv, where name = None and entry = e1 and arg = a1 and priority = prio1 and flags = 0
          and parent = 0 and k = k1]) (rule that)
  have cur0: "pm_current ?s0 = 0" by (simp add: process_init_def)
  have "first_index (\<lambda>i. state_of s1 i = PROCESS_UNUSED) MAX_PROCS = Some 1"
    by (rule first_index_SomeI) (auto simp: u0 s1(5,6))
  then obtain s2 where
    s2: "process_create_ex None e2 a2 prio2 0 0 (Some k2) s1 = Some (Some 1, s2)" "pm_inv s2" "pm_current s2 = pm_current s1" "pm_count s2 > 1"
    "\<And>q. q \<noteq> 1 \<Longrightarrow> pm_procs s2 q = pm_procs s1 q" "state_of s2 1 = PROCESS_READY" "pr_nice (pm_procs s2 1) = priority_to_nice prio2"
    "queued_fresh 1 (pm_cfs s1) (pm_cfs s2)" "pm_step s1 s2"
    by (rule create_slot [OF s1(2), where name = None and entry = e2 and arg = a2 and priority = prio2 and flags = 0
          and parent = 0 and k = k2]) (rule that)
  have cur2: "pm_current s2 = 0" using cur0 s1(3) s2(3) by simp
  have "cfs_queue (cfs_rq_init cfs_boot) []" by (rule cfs_rq_init_queue) (simp_all add: cfs_boot_def)
  then have l0: "cfs_list (pm_cfs ?s0) = []" "min_vruntime (cs_rq (pm_cfs ?s0)) = 0"
    using cfs_list_ok by (simp_all add: process_init_def pm_boot_def cfs_rq_init_def)
  have l1: "cfs_list (pm_cfs s1) = [cfs_task_addr 0]" "min_vruntime (cs_rq (pm_cfs s1)) = 0"
    "vruntime_of (pm_cfs s1) (cfs_task_addr 0) = - 24000000"
    using s1(8) l0 by (simp_all add: queued_fresh_def ins_sorted_def max_def)
  have l2: "cfs_list (pm_cfs s2) = [cfs_task_addr 0, cfs_task_addr 1]" "min_vruntime (cs_rq (pm_cfs s2)) = 0"
    "vrun s2 0 = - 24000000" "vrun s2 1 = - 24000000"
    using s2(8) l1 by (simp_all add: queued_fresh_def ins_sorted_def max_def vrun_def)
  have st2: "state_of s2 0 = PROCESS_READY" "\<And>q. 1 < q \<Longrightarrow> q < MAX_PROCS \<Longrightarrow> state_of s2 q = PROCESS_UNUSED"
    using s1(5,6) s2(5) u0 by simp_all
  have fst2: "first_index (\<lambda>i. state_of s2 i = PROCESS_READY) MAX_PROCS = Some 0"
    by (rule first_index_SomeI) (auto simp: st2)
  have norun: "state_of s2 p \<noteq> PROCESS_RUNNING" if "p < MAX_PROCS" for p
    using st2 s2(6) that by (cases "p = 0"; cases "p = 1") auto
  from run_first_ok [OF s2(2) _ st2(1), of "Some (cfs_task_addr 0)"] norun cur2 obtain c where
    c: "cfs_dequeue_task (cfs_task_addr 0) (pm_cfs s2) = Some c" "cfs_list c = [cfs_task_addr 1]"
      "vruntime_of c = vruntime_of (pm_cfs s2)" "min_vruntime (cs_rq c) = 0" using l2 by auto
  define s3 where "s3 = set_rq_curr 0 (set_state 0 PROCESS_RUNNING (s2\<lparr>pm_current := 0, pm_cfs := c\<rparr>))"
  have run: "process_start s2 = Some s3" using c(1) fst2 by (simp add: process_start_def on_cfs_def s3_def)
  then have "pm_step s2 s3" using norun by (intro pm_step.start) auto
  then have "pm_reachable s3" using pm_reachable_boot s1(9) s2(9) by (metis pm_reachable_step)
  moreover have "pm_count s3 > 1" "pm_current s3 = 0" "state_of s3 0 = PROCESS_RUNNING" "state_of s3 1 = PROCESS_READY"
    "pr_nice (pm_procs s3 0) = priority_to_nice prio1" "pr_nice (pm_procs s3 1) = priority_to_nice prio2"
    "\<And>q. 1 < q \<Longrightarrow> q < MAX_PROCS \<Longrightarrow> state_of s3 q = PROCESS_UNUSED"
    using s1(5-7) s2(4-7) st2 by (auto simp: s3_def set_rq_curr_def)
  moreover have "vrun s3 0 = - 24000000" "vrun s3 1 = - 24000000" "min_vruntime (cs_rq (pm_cfs s3)) = 0"
    "cfs_list (pm_cfs s3) = [cfs_task_addr 1]" "rq_curr (cs_rq (pm_cfs s3)) = Some (cfs_task_addr 0)"
    using c l2 by (auto simp: s3_def set_rq_curr_def vrun_def vruntime_of_def cfs_list_def fun_eq_iff)
  ultimately show ?thesis using s1(1) s2(1) run by blast
qed

theorem ready_iff_queued_witness:
  "\<exists>s. pm_step\<^sup>*\<^sup>* (process_init pm_boot) s \<and> state_of s 1 = PROCESS_READY \<and>
     ct_on_rq (cs_tasks (pm_cfs s) (cfs_task_addr 1)) \<noteq> 0"
proof -
  from two_processes [of 0 0 2 0 0 0 2 0] obtain s where "pm_reachable s" "state_of s 1 = PROCESS_READY" by blast
  then show ?thesis using ready_iff_queued [of s 1] by (auto simp: pm_reachable_def)
qed

text \<open>
  A yield gives the processor to the process that is owed most: when more than one process
  has been created and one is READY or the current one RUNNING, the process that runs after it is RUNNING, its
  virtual runtime is at most that of every process that is READY then, the process that
  yielded is READY unless it goes on, and no other process changes its state.
\<close>

theorem yield_runs_least:
  assumes "pm_step\<^sup>*\<^sup>* (process_init pm_boot) s" and "pm_count s > 1"
    and "state_of s (pm_current s) = PROCESS_RUNNING \<or> (\<exists>q<MAX_PROCS. state_of s q = PROCESS_READY)"
  shows "\<exists>s'. process_yield s = Some s' \<and> state_of s' (pm_current s') = PROCESS_RUNNING \<and>
    (\<forall>q<MAX_PROCS. state_of s' q = PROCESS_READY \<longrightarrow> vrun s' (pm_current s') \<le> vrun s' q) \<and>
    (\<forall>q<MAX_PROCS. q \<noteq> pm_current s' \<longrightarrow> state_of s' q =
       (if q = pm_current s \<and> state_of s q = PROCESS_RUNNING then PROCESS_READY else state_of s q))"
proof -
  have i: "pm_inv s" using pm_reachable_inv assms(1) by (simp add: pm_reachable_def)
  let ?s0 = "s\<lparr>pm_jiffies := pm_jiffies s + 1\<rparr>"
  from process_yield_ok [OF i assms(2)] obtain s1 s' where y: "yield_requeue ?s0 = Some s1"
    "process_yield s = Some s'" "pm_inv s1" "pm_inv s'"
    "case cfs_list (pm_cfs s1) of [] \<Rightarrow> s' = s1
     | a # as \<Rightarrow> a = cfs_task_addr (pm_current s') \<and> cfs_list (pm_cfs s') = as \<and> vrun s' = vrun s1 \<and>
         (\<forall>q. state_of s' q = (if q = pm_current s' then PROCESS_RUNNING else state_of s1 q))"
    by (fastforce split: list.splits)
  from yield_requeue_ok [of ?s0] i y(1) have r: "\<And>q. q \<noteq> pm_current s \<Longrightarrow> state_of s1 q = state_of s q"
    "state_of s (pm_current s) = PROCESS_RUNNING \<Longrightarrow> state_of s1 (pm_current s) = PROCESS_READY"
    "state_of s (pm_current s) \<noteq> PROCESS_RUNNING \<Longrightarrow> state_of s1 (pm_current s) = state_of s (pm_current s)" by auto
  have "pm_current s < MAX_PROCS" using i by (simp add: pm_inv_def)
  then have "\<exists>q<MAX_PROCS. state_of s1 q = PROCESS_READY" using assms(3) r by metis
  then obtain a as where l: "cfs_list (pm_cfs s1) = a # as" using pm_inv_listed [OF y(3)] by (cases "cfs_list (pm_cfs s1)") auto
  then have s': "a = cfs_task_addr (pm_current s')" "cfs_list (pm_cfs s') = as" "vrun s' = vrun s1"
    "\<And>q. state_of s' q = (if q = pm_current s' then PROCESS_RUNNING else state_of s1 q)" using y(5) by auto
  have "vrun s' (pm_current s') \<le> vrun s' q" if "q < MAX_PROCS" "state_of s' q = PROCESS_READY" for q
    using pm_inv_listed [OF y(4) that(1)] that(2) cfs.queue_sorted [OF pm_inv_cfs [OF y(3)]] l s'(1-3)
    by (auto simp: vrun_def fun_eq_iff)
  moreover have "state_of s1 q = (if q = pm_current s \<and> state_of s q = PROCESS_RUNNING then PROCESS_READY else state_of s q)" for q
    using r by metis
  ultimately show ?thesis using y(2) s'(4) by (intro exI [of _ s']) auto
qed

theorem yield_runs_least_witness:
  "\<exists>s s'. pm_step\<^sup>*\<^sup>* (process_init pm_boot) s \<and> state_of s 0 = PROCESS_RUNNING \<and> process_yield s = Some s' \<and>
     state_of s' (pm_current s') = PROCESS_RUNNING"
proof -
  from two_processes [of 0 0 2 0 0 0 2 0] obtain s where s: "pm_reachable s" "pm_count s > 1" "pm_current s = 0"
    "state_of s 0 = PROCESS_RUNNING" by blast
  then show ?thesis using yield_runs_least [of s] by (auto simp: pm_reachable_def)
qed

lemma on_cfs_procs: "on_cfs f s = Some s' \<Longrightarrow> pm_procs s' = pm_procs s \<and> pm_current s' = pm_current s"
  by (auto simp: on_cfs_def)

lemma make_ready_state: "make_ready p s = Some s' \<Longrightarrow> state_of s' q = (if q = p then PROCESS_READY else state_of s q)"
  by (auto simp: make_ready_def dest: on_cfs_procs)

lemma process_yield_states:
  assumes i: "pm_inv s" and y: "process_yield s = Some s'"
  shows "state_of s' q = state_of s q \<or> state_of s' q = PROCESS_RUNNING \<or> state_of s' q = PROCESS_READY"
proof (cases "pm_count s > 1")
  case True
  from process_yield_ok [OF i True] y obtain s1 where
    1: "yield_requeue (s\<lparr>pm_jiffies := pm_jiffies s + 1\<rparr>) = Some s1" "case cfs_list (pm_cfs s1) of [] \<Rightarrow> s' = s1
     | a # as \<Rightarrow> (\<forall>q. state_of s' q = (if q = pm_current s' then PROCESS_RUNNING else state_of s1 q))"
    by (fastforce split: list.splits)
  have "state_of s1 q = state_of s q \<or> state_of s1 q = PROCESS_READY"
    using yield_requeue_ok [of "s\<lparr>pm_jiffies := pm_jiffies s + 1\<rparr>"] i 1(1) by (cases "q = pm_current s") auto
  then show ?thesis using 1(2) by (cases "cfs_list (pm_cfs s1)") auto
next
  case False
  then show ?thesis using y by (simp add: process_yield_def)
qed

lemma pm_step_used:
  assumes "pm_step s s'" and i: "pm_inv s" and u: "state_of s p \<noteq> PROCESS_UNUSED"
  shows "state_of s' p \<noteq> PROCESS_UNUSED"
  using assms(1)
proof cases
  case (create name entry arg priority flags parent stack r)
  then show ?thesis using process_create_ex_ok [OF i, of name entry arg priority flags parent stack] u
    by (cases r; cases "Some p = r") auto
next
  case exit
  then show ?thesis using u by (auto simp: process_exit_def on_cfs_set_state dest: on_cfs_procs split: if_splits)
next
  case yield
  then show ?thesis using process_yield_states [OF i, of s' p] u by auto
next
  case (sleep ms)
  from sleep_off_ok [OF i sleep(1), of ms] obtain s1 where s1: "pm_inv s1" "process_yield s1 = Some s'"
    "state_of s1 p = (if p = pm_current s then PROCESS_SLEEPING else state_of s p)" using sleep(2) by auto
  show ?thesis using process_yield_states [OF s1(1,2), of p] s1(3) u by (auto split: if_splits)
next
  case (wakeup q)
  then show ?thesis using u make_ready_state [of q s s' p] by (auto simp: process_wakeup_def split: if_splits)
next
  case (enqueue q)
  then show ?thesis using u make_ready_state [of q s s' p] by (auto simp: pm_enqueue_process_def split: if_splits)
next
  case (kill q e)
  then show ?thesis using u by (auto simp: process_kill_def map_set_state_result dest: on_cfs_procs split: if_splits)
next
  case (signal q sig e)
  then show ?thesis using u
    by (auto simp: process_signal_send_def map_set_state_result Let_def dest!: on_cfs_procs make_ready_state [where q = p] split: if_splits)
next
  case start
  then show ?thesis using u
    by (auto simp: process_start_def set_rq_curr_def dest!: on_cfs_procs split: option.splits if_splits)
next
  case tick
  then show ?thesis using u by (auto simp: scheduler_tick_def dest: on_cfs_procs)
next
  case (priority q prio)
  then show ?thesis using u by (auto simp: process_set_priority_def Let_def)
next
  case (sigmask how ss oldset)
  then show ?thesis using u by (auto simp: process_signal_mask_def Let_def)
next
  case (limit resource rlim)
  then show ?thesis using u by (auto simp: process_setrlimit_def split: option.splits)
next
  case (fork stack e)
  let ?p = "pm_procs s (pm_current s)"
  obtain r s1 where c: "process_create_ex (Some (pr_name ?p)) (pr_entry ?p) (pr_entry_arg ?p) (pr_priority ?p)
      (ucast (pr_flags ?p)) (pm_current s) stack s = Some (r, s1)"
    "state_of s' p = state_of s1 p"
    using fork by (auto simp: process_fork_def Let_def bind_eq_Some_conv init_rlimits_def split: option.splits)
  then show ?thesis using process_create_ex_ok [OF i, of "Some (pr_name ?p)" "pr_entry ?p" "pr_entry_arg ?p" "pr_priority ?p"
      "ucast (pr_flags ?p)" "pm_current s" stack] u by (cases r; cases "Some p = r") auto
next
  case (exec p)
  then show ?thesis using u by (auto simp: process_execve_def split: option.splits)
qed

text \<open>
  A slot of the process table is never given back: once a slot is used it stays used,
  whatever processes exit, are killed or waited for, so that after 256 creations every
  further one fails for good.
\<close>

theorem process_slots_never_reused:
  assumes "pm_step\<^sup>*\<^sup>* (process_init pm_boot) s" and "\<forall>p<MAX_PROCS. state_of s p \<noteq> PROCESS_UNUSED"
    and "pm_step\<^sup>*\<^sup>* s s'"
  shows "process_create_ex name entry arg priority flags parent stack s' = Some (None, s')"
proof -
  have i: "pm_inv s" using pm_reachable_inv assms(1) by (simp add: pm_reachable_def)
  have "\<forall>p<MAX_PROCS. state_of s' p \<noteq> PROCESS_UNUSED"
    using pm_run.steps_stable [OF assms(3) i, of "\<lambda>s. \<forall>p<MAX_PROCS. state_of s p \<noteq> PROCESS_UNUSED"] assms(2)
      pm_step_used by blast
  then have "first_index (\<lambda>i. state_of s' i = PROCESS_UNUSED) MAX_PROCS = None" by (simp add: first_index_None)
  then show ?thesis by (simp add: process_create_ex_def)
qed

lemma fill_slots:
  "n \<le> MAX_PROCS \<Longrightarrow> \<exists>s. pm_reachable s \<and> (\<forall>p<MAX_PROCS. state_of s p = PROCESS_UNUSED \<longleftrightarrow> n \<le> p)"
proof (induction n)
  case 0
  show ?case by (rule exI [of _ "process_init pm_boot"], rule conjI [OF pm_reachable_boot]) (simp add: process_init_def)
next
  case (Suc n)
  then obtain s where s: "pm_reachable s" "\<forall>p<MAX_PROCS. state_of s p = PROCESS_UNUSED \<longleftrightarrow> n \<le> p" by auto
  have "first_index (\<lambda>i. state_of s i = PROCESS_UNUSED) MAX_PROCS = Some n"
    by (rule first_index_SomeI) (use s(2) Suc.prems in auto)
  then obtain s' where "pm_step s s'" "state_of s' n = PROCESS_READY" "\<And>q. q \<noteq> n \<Longrightarrow> pm_procs s' q = pm_procs s q"
    by (rule create_slot [OF pm_reachable_inv [OF s(1)]]) (rule that)
  then show ?case using s pm_reachable_step [OF s(1)] by (intro exI [of _ s']) (auto simp: le_less_Suc_eq Suc_le_eq le_less)
qed

theorem process_slots_never_reused_witness:
  "\<exists>s s'. pm_step\<^sup>*\<^sup>* (process_init pm_boot) s \<and> process_kill 3 s = Some (0, s') \<and>
     process_create_ex None 0 0 2 0 0 (Some 4096) s' = Some (None, s')"
proof -
  from fill_slots [of MAX_PROCS] obtain s where s: "pm_step\<^sup>*\<^sup>* (process_init pm_boot) s"
    "\<forall>p<MAX_PROCS. state_of s p \<noteq> PROCESS_UNUSED" by (auto simp: pm_reachable_def)
  have i: "pm_inv s" using pm_reachable_inv s(1) by (simp add: pm_reachable_def)
  obtain r s' where k: "process_kill 3 s = Some (r, s')" using process_kill_ok [OF i] by blast
  then have "r = 0" using s(2) by (auto simp: process_kill_def on_cfs_def)
  moreover have "pm_step s s'" using k by (rule pm_step.kill)
  ultimately show ?thesis using process_slots_never_reused [OF s] s(1) k by blast
qed

end
