(* ===== verification/ProcessFaults.thy ===== *)
theory ProcessFaults
  imports ProcessProps
begin

text \<open>
  What can go wrong between the process table and the scheduler: a process of idle priority
  that keeps the processor because its virtual runtime wraps around, the accounting of a
  queued process by the tick, the segment bases of another process that a resumed process
  gets, and wake-ups that do not reach the scheduler.
\<close>

section \<open>The runtime a process is charged\<close>

definition exec_delta :: "u64 \<Rightarrow> u64 \<Rightarrow> u64" where
  "exec_delta w d = (if w \<noteq> 1024 then d * 1024 div w else d)"

lemma account_exec_sel:
  assumes "cfs_account_exec (Some a) d c = Some c'"
  shows "vruntime_of c' = (vruntime_of c)(a := vruntime_of c a + exec_delta (ct_load_weight (cs_tasks c a)) d)"
    and "cfs_list c' = cfs_list c" and "min_vruntime (cs_rq c') = min_vruntime (cs_rq c)"
    and "rq_curr (cs_rq c') = rq_curr (cs_rq c)" and "tasks_timeline (cs_rq c') = tasks_timeline (cs_rq c)"
    and "ct_on_rq (cs_tasks c' b) = ct_on_rq (cs_tasks c b)"
  using assms by (auto simp: cfs_account_exec_def Let_def vruntime_of_def exec_delta_def cfs_list_def fun_eq_iff split: if_splits)

lemma yield_requeue_list:
  assumes i: "pm_inv s" and run: "state_of s (pm_current s) = PROCESS_RUNNING" and y: "yield_requeue s = Some s1"
  defines "a \<equiv> cfs_task_addr (pm_current s)" and "m \<equiv> min_vruntime (cs_rq (pm_cfs s))"
  shows "vruntime_of (pm_cfs s1) = (vruntime_of (pm_cfs s))(a :=
      max (vrun s (pm_current s) + exec_delta (weight_of (pm_cfs s) (pm_current s)) 1000000) (m - 24000000))"
    and "cfs_list (pm_cfs s1) = ins_sorted (vruntime_of (pm_cfs s1)) a (cfs_list (pm_cfs s))"
    and "min_vruntime (cs_rq (pm_cfs s1)) = m" and "weight_of (pm_cfs s1) = weight_of (pm_cfs s)"
    and "rq_curr (cs_rq (pm_cfs s1)) = rq_curr (cs_rq (pm_cfs s))"
proof -
  have p: "pm_current s < MAX_PROCS" using i by (simp add: pm_inv_def)
  obtain c1 where c1: "cfs_account_exec (Some a) 1000000 (pm_cfs s) = Some c1"
    "cfs_enqueue_task a c1 = Some (pm_cfs s1)"
    using y run by (auto simp: yield_requeue_def on_cfs_def bind_eq_Some_conv a_def)
  note acc = account_exec_sel [OF c1(1)]
  have off: "\<not> on_rq (pm_cfs s) (pm_current s)" using pm_inv_off [OF i p] run by simp
  have i1: "cfs_inv c1" by (rule cfs_account_inv [OF pm_inv_cfs [OF i] _ c1(1)]) (use off in \<open>simp add: on_rq_def a_def\<close>)
  have off1: "\<not> on_rq c1 (pm_current s)" using off acc(6) by (simp add: on_rq_def)
  note e = cfs_enqueue_list [OF i1 p off1 c1(2) [unfolded a_def]]
  show "vruntime_of (pm_cfs s1) = (vruntime_of (pm_cfs s))(a :=
      max (vrun s (pm_current s) + exec_delta (weight_of (pm_cfs s) (pm_current s)) 1000000) (m - 24000000))"
    unfolding e(2) using acc by (simp add: a_def m_def vrun_def weight_of_def)
  show "cfs_list (pm_cfs s1) = ins_sorted (vruntime_of (pm_cfs s1)) a (cfs_list (pm_cfs s))"
    using e(1) acc(2) by (simp add: a_def)
  show "min_vruntime (cs_rq (pm_cfs s1)) = m" "rq_curr (cs_rq (pm_cfs s1)) = rq_curr (cs_rq (pm_cfs s))"
    using cfs_enqueue_frame(2,3) [OF c1(2)] acc(3,4) by (simp_all add: m_def)
  have "weight_of c1 = weight_of (pm_cfs s)"
    using c1(1) by (auto simp: cfs_account_exec_def Let_def weight_of_def fun_eq_iff split: if_splits)
  then show "weight_of (pm_cfs s1) = weight_of (pm_cfs s)"
    using cfs_enqueue_frame(1) [OF c1(2)] by (simp add: weight_of_def fun_eq_iff)
qed

lemma ins_sorted_first:
  assumes "sorted (map f xs)" and "\<And>x. x \<in> set xs \<Longrightarrow> f a < f x"
  shows "ins_sorted f a xs = a # xs"
proof (cases xs)
  case (Cons b ys)
  then have "\<not> f b \<le> f a" using assms(2) [of b] by (simp add: not_le)
  then show ?thesis using Cons by (simp add: ins_sorted_def)
qed (simp add: ins_sorted_def)

section \<open>A process that keeps the processor\<close>

fun ticks :: "nat \<Rightarrow> pm_state \<Rightarrow> pm_state option" where
  "ticks 0 s = Some s"
| "ticks (Suc n) s = Option.bind (scheduler_tick s) (ticks n)"

text \<open>In each round the timer ticks some times and then the current process yields.\<close>

fun rounds :: "nat list \<Rightarrow> pm_state \<Rightarrow> pm_state option" where
  "rounds [] s = Some s"
| "rounds (k # ks) s = Option.bind (ticks k s) (\<lambda>s1. Option.bind (process_yield s1) (rounds ks))"

text \<open>A tick charges a process of nice 19 with 68266666, which is more than the 24000000 it may lag behind.\<close>

lemma idle_delta: "exec_delta (cfs_nice_to_weight 19) 1000000 = 68266666"
  by (simp add: cfs_nice_to_weight_def Let_def nice_to_weight_def exec_delta_def)

lemma lag_wraps:
  fixes v :: u64
  assumes "- 48000000 \<le> v" and "v \<le> - 24000000" and "0 < k" and "k \<le> 2 ^ 31"
  shows "v + of_nat k * 68266666 < 2 ^ 63"
proof -
  define n where "n = unat (v + 48000000)"
  have "v + 48000000 \<le> 24000000" using assms(1,2) by uint_arith auto
  then have n: "n \<le> 24000000" by (simp add: n_def word_le_nat_alt)
  have "v + 48000000 = of_nat n" by (simp add: n_def)
  then have "v = of_nat n - 48000000" by (simp add: algebra_simps)
  then have "v + of_nat k * 68266666 = of_nat (n + k * 68266666 - 48000000)"
    using assms(3) by (simp add: of_nat_diff)
  moreover have "n + k * 68266666 - 48000000 < 2 ^ 63" using n assms(4) by simp
  ultimately show ?thesis by (simp add: word_less_nat_alt unat_of_nat)
qed

lemma cfs_update_list:
  assumes "cfs_inv c" and "cfs_list c = a # as"
  shows "\<exists>c'. cfs_update_min_vruntime c = Some c' \<and> cs_tasks c' = cs_tasks c \<and> rq_curr (cs_rq c') = rq_curr (cs_rq c) \<and>
    tasks_timeline (cs_rq c') = tasks_timeline (cs_rq c) \<and>
    min_vruntime (cs_rq c') = (let m = max (min_vruntime (cs_rq c)) (vruntime_of c a) in
       case rq_curr (cs_rq c) of None \<Rightarrow> m | Some b \<Rightarrow> max m (vruntime_of c b))"
proof -
  have "rbtree_min (tasks_timeline (cs_rq c)) = Some (Some a)"
    using cfs_invE(1) [OF assms(1)] rbtree_min_ok assms(2) by (fastforce simp: cfs_queue_def repaired_def)
  then show ?thesis by (auto simp: cfs_update_min_vruntime_def Let_def max_def not_less split: option.split)
qed

definition hogging :: "u64 \<Rightarrow> nat \<Rightarrow> pid \<Rightarrow> pm_state \<Rightarrow> bool" where
  "hogging vf k p s \<longleftrightarrow> pm_inv s \<and> pm_count s > 1 \<and> pm_current s = p \<and> state_of s p = PROCESS_RUNNING \<and>
     pr_nice (pm_procs s p) = 19 \<and> rq_curr (cs_rq (pm_cfs s)) = Some (cfs_task_addr p) \<and>
     (\<exists>a as. cfs_list (pm_cfs s) = a # as \<and> vruntime_of (pm_cfs s) a = vf) \<and> - 24000000 < vf \<and>
     (min_vruntime (cs_rq (pm_cfs s)) = 0 \<or> min_vruntime (cs_rq (pm_cfs s)) = vf) \<and>
     (\<exists>v. - 48000000 \<le> v \<and> v \<le> - 24000000 \<and> vrun s p = v + of_nat k * 68266666)"

lemma hog_tick:
  assumes h: "hogging vf k p s" and k: "k < 2 ^ 31"
  shows "\<exists>s'. scheduler_tick s = Some s' \<and> hogging vf (Suc k) p s' \<and> pm_procs s' = pm_procs s"
proof -
  let ?a = "cfs_task_addr p" and ?c1 = "(pm_cfs s)\<lparr>cs_jiffies := cs_jiffies (pm_cfs s) + 1\<rparr>"
  have i: "pm_inv s" and p: "pm_current s = p" "p < MAX_PROCS" and st: "state_of s p = PROCESS_RUNNING"
    and n: "pr_nice (pm_procs s p) = 19" and cu: "rq_curr (cs_rq (pm_cfs s)) = Some ?a" and vf: "- 24000000 < vf"
    and m: "min_vruntime (cs_rq (pm_cfs s)) = 0 \<or> min_vruntime (cs_rq (pm_cfs s)) = vf"
    using h by (auto simp: hogging_def pm_inv_def)
  obtain b bs where l: "cfs_list (pm_cfs s) = b # bs" "vruntime_of (pm_cfs s) b = vf" using h by (auto simp: hogging_def)
  obtain v where v: "- 48000000 \<le> v" "v \<le> - 24000000" "vrun s p = v + of_nat k * 68266666" using h by (auto simp: hogging_def)
  have off: "\<not> on_rq (pm_cfs s) p" and w: "weight_of (pm_cfs s) p = cfs_nice_to_weight 19"
    using pm_inv_off [OF i p(2)] pm_inv_weight [OF i p(2)] st n by simp_all
  have "ct_load_weight (cs_tasks ?c1 ?a) \<noteq> 0" using w cfs_weight_pos by (simp add: weight_of_def)
  then obtain c2 where c2: "cfs_account_exec (Some ?a) 1000000 ?c1 = Some c2" by (auto simp: cfs_account_exec_def Let_def)
  note acc = account_exec_sel [OF c2]
  have i1: "cfs_inv ?c1" by (rule cfs_inv_frame [OF pm_inv_cfs [OF i]]) (auto simp: vruntime_of_def)
  have i2: "cfs_inv c2" by (rule cfs_account_inv [OF i1 _ c2]) (use off in \<open>simp add: on_rq_def\<close>)
  have same: "cfs_list ?c1 = cfs_list (pm_cfs s)" "vruntime_of ?c1 = vruntime_of (pm_cfs s)"
    by (simp_all add: cfs_list_def vruntime_of_def fun_eq_iff)
  have "b \<noteq> ?a" using pm_inv_listed [OF i p(2)] st l(1) by auto
  then have vb: "vruntime_of c2 b = vf" using acc(1) same l(2) by simp
  have "weight_of ?c1 p = cfs_nice_to_weight 19" using w by (simp add: weight_of_def)
  then have vp: "vruntime_of c2 ?a = v + of_nat (Suc k) * 68266666"
    using acc(1) same v(3) idle_delta by (simp add: weight_of_def vrun_def algebra_simps)
  have small: "v + of_nat (Suc k) * 68266666 < 2 ^ 63" using lag_wraps [OF v(1,2), of "Suc k"] k by simp
  have l2: "cfs_list c2 = b # bs" using acc(2) same l(1) by simp
  from cfs_update_list [OF i2 l2] obtain c3 where c3: "cfs_update_min_vruntime c2 = Some c3" "cs_tasks c3 = cs_tasks c2"
    "rq_curr (cs_rq c3) = Some ?a" "tasks_timeline (cs_rq c3) = tasks_timeline (cs_rq c2)"
    "min_vruntime (cs_rq c3) = max (max (min_vruntime (cs_rq c2)) vf) (v + of_nat (Suc k) * 68266666)"
    using acc(4) cu vb vp by (auto simp: Let_def)
  have big: "2 ^ 63 < vf" by (rule less_trans [OF _ vf]) simp
  have "min_vruntime (cs_rq c2) \<le> vf" using acc(3) m by auto
  moreover have "v + of_nat (Suc k) * 68266666 \<le> vf" using less_trans [OF small big] by simp
  ultimately have m3: "min_vruntime (cs_rq c3) = vf" unfolding c3(5) by (simp only: max_absorb1 max_absorb2)
  obtain x where "cfs_pick_next_task c2 = Some x"
    using cfs_pick_queue [OF cfs_invE(1) [OF i2]] by blast
  then have run: "scheduler_tick s = Some (s\<lparr>pm_jiffies := pm_jiffies s + 1, pm_cfs := c3\<rparr>)"
    using cu c2 c3(1) by (simp add: scheduler_tick_def on_cfs_def cfs_scheduler_tick_def Let_def)
  have "pm_inv (s\<lparr>pm_jiffies := pm_jiffies s + 1, pm_cfs := c3\<rparr>)"
    by (rule scheduler_tick_ok [OF i _ run]) (use cu off in \<open>simp add: on_rq_def\<close>)
  moreover have "cfs_list c3 = b # bs" "vruntime_of c3 = vruntime_of c2"
    using c3(2,4) l2 by (simp_all add: cfs_list_def vruntime_of_def fun_eq_iff)
  ultimately show ?thesis using run h v(1,2) vp vb vf m3 c3(3) unfolding hogging_def vrun_def by auto
qed

lemma hog_ticks: "hogging vf k p s \<Longrightarrow> k + n < 2 ^ 31 \<Longrightarrow>
    \<exists>s'. ticks n s = Some s' \<and> hogging vf (k + n) p s' \<and> pm_procs s' = pm_procs s"
proof (induction n arbitrary: k s)
  case (Suc n)
  from hog_tick [OF Suc.prems(1)] Suc.prems(2) obtain s1 where s1: "scheduler_tick s = Some s1" "hogging vf (Suc k) p s1"
    "pm_procs s1 = pm_procs s" by auto
  from Suc.IH [OF s1(2)] Suc.prems(2) s1 show ?case by auto
qed simp

lemma hog_yield:
  assumes h: "hogging vf k p s" and k: "k < 2 ^ 31"
  shows "\<exists>s'. process_yield s = Some s' \<and> hogging vf 0 p s' \<and> (\<forall>q. state_of s' q = state_of s q)"
proof -
  let ?a = "cfs_task_addr p" and ?s0 = "s\<lparr>pm_jiffies := pm_jiffies s + 1\<rparr>" and ?m = "min_vruntime (cs_rq (pm_cfs s))"
  have i: "pm_inv s" and p: "pm_current s = p" "p < MAX_PROCS" and st: "state_of s p = PROCESS_RUNNING" and cnt: "pm_count s > 1"
    and n: "pr_nice (pm_procs s p) = 19" and vf: "- 24000000 < vf" and m: "?m = 0 \<or> ?m = vf"
    using h by (auto simp: hogging_def pm_inv_def)
  obtain b bs where l: "cfs_list (pm_cfs s) = b # bs" "vruntime_of (pm_cfs s) b = vf" using h by (auto simp: hogging_def)
  obtain v where v: "- 48000000 \<le> v" "v \<le> - 24000000" "vrun s p = v + of_nat k * 68266666" using h by (auto simp: hogging_def)
  have off: "\<not> on_rq (pm_cfs s) p" and w: "weight_of (pm_cfs s) p = cfs_nice_to_weight 19"
    using pm_inv_off [OF i p(2)] pm_inv_weight [OF i p(2)] st n by simp_all
  from process_yield_ok [OF i cnt] obtain s1 s' where y: "yield_requeue ?s0 = Some s1" "process_yield s = Some s'" "pm_inv s1" "pm_inv s'"
    and y': "case cfs_list (pm_cfs s1) of [] \<Rightarrow> s' = s1
     | a # as \<Rightarrow> a = cfs_task_addr (pm_current s') \<and> cfs_list (pm_cfs s') = as \<and> vrun s' = vrun s1 \<and> pm_count s' = pm_count s \<and>
         min_vruntime (cs_rq (pm_cfs s')) = min_vruntime (cs_rq (pm_cfs s1)) \<and> weight_of (pm_cfs s') = weight_of (pm_cfs s1) \<and>
         rq_curr (cs_rq (pm_cfs s')) = Some a \<and> (\<forall>q. pr_nice (pm_procs s' q) = pr_nice (pm_procs s q)) \<and>
         (\<forall>q. state_of s' q = (if q = pm_current s' then PROCESS_RUNNING else state_of s1 q))" by blast
  have small: "v + of_nat (Suc k) * 68266666 < 2 ^ 63" using lag_wraps [OF v(1,2), of "Suc k"] k by simp
  have lag: "- 48000000 \<le> ?m - 24000000 \<and> ?m - 24000000 < vf \<and> ?m - 24000000 \<le> - 24000000"
    using m vf by (elim disjE) (simp, uint_arith, auto)
  then have "v + of_nat (Suc k) * 68266666 \<le> ?m - 24000000"
    using less_trans [OF small, of "- 48000000"] by (simp add: order.strict_implies_order order.strict_trans2 less_imp_le)
  moreover have "vrun s p + 68266666 = v + of_nat (Suc k) * 68266666" unfolding v(3) by (simp add: algebra_simps)
  ultimately have mx: "max (vrun s p + 68266666) (?m - 24000000) = ?m - 24000000" by (simp only: max_absorb2)
  have v0: "vrun ?s0 p = vrun s p" by (simp add: vrun_def)
  note r = yield_requeue_list [of ?s0, OF _ _ y(1)]
  have r1: "vruntime_of (pm_cfs s1) = (vruntime_of (pm_cfs s))(?a := ?m - 24000000)"
    using r(1) i st p w idle_delta mx v0 by simp
  have r2: "cfs_list (pm_cfs s1) = ins_sorted (vruntime_of (pm_cfs s1)) ?a (b # bs)" "min_vruntime (cs_rq (pm_cfs s1)) = ?m"
    using r(2,3) i st p l(1) by simp_all
  have na: "?a \<notin> set (b # bs)" using pm_inv_listed [OF i p(2)] st l(1) by auto
  have srt: "sorted (map (vruntime_of (pm_cfs s)) (b # bs))" using cfs.queue_sorted [OF pm_inv_cfs [OF i]] l(1) by simp
  have same: "vruntime_of (pm_cfs s1) x = vruntime_of (pm_cfs s) x" if "x \<in> set (b # bs)" for x
    using r1 na that by auto
  have srt1: "sorted (map (vruntime_of (pm_cfs s1)) (b # bs))"
    using srt sorted_map_cong [of "b # bs" "vruntime_of (pm_cfs s1)" "vruntime_of (pm_cfs s)"] same by blast
  have "vruntime_of (pm_cfs s1) ?a < vruntime_of (pm_cfs s1) x" if "x \<in> set (b # bs)" for x
  proof -
    have "vf \<le> vruntime_of (pm_cfs s1) x" using srt l(2) that same [OF that] by auto
    moreover have "vruntime_of (pm_cfs s1) ?a < vf" using lag r1 by simp
    ultimately show ?thesis by (rule less_le_trans [rotated])
  qed
  from ins_sorted_first [OF srt1 this] have l1: "cfs_list (pm_cfs s1) = ?a # b # bs" using r2(1) by simp
  have s': "pm_current s' = p" "cfs_list (pm_cfs s') = b # bs" "vrun s' = vrun s1" "pm_count s' > 1"
    "min_vruntime (cs_rq (pm_cfs s')) = ?m" "rq_curr (cs_rq (pm_cfs s')) = Some ?a" "pr_nice (pm_procs s' p) = 19"
    and st': "\<And>q. state_of s' q = (if q = p then PROCESS_RUNNING else state_of s1 q)"
    using y' l1 r2(2) cnt n by auto
  have "state_of s1 q = state_of s q" if "q \<noteq> p" for q
    using yield_requeue_ok [of ?s0] i y(1) p(1) that by auto
  then have states: "state_of s' q = state_of s q" for q using st' [of q] st by simp
  have "vruntime_of (pm_cfs s') b = vf"
  proof -
    obtain q where q: "b = cfs_task_addr q" using cfs_invE(2) [OF pm_inv_cfs [OF i]] l(1) by (auto simp: cfs_valid_def)
    have "vrun s' q = vrun s1 q" using s'(3) by simp
    then show ?thesis using same [of b] l(2) by (simp add: vrun_def q)
  qed
  moreover have "vrun s' p = ?m - 24000000" unfolding s'(3) using r1 by (simp add: vrun_def)
  ultimately have "hogging vf 0 p s'" using y(4) s' st' vf m lag by (auto simp: hogging_def intro!: exI [of _ "?m - 24000000"])
  then show ?thesis using y(2) states by blast
qed

lemma hog_rounds:
  "hogging vf 0 p s \<Longrightarrow> \<forall>k\<in>set ks. k < 2 ^ 31 \<Longrightarrow>
     \<exists>s'. rounds ks s = Some s' \<and> hogging vf 0 p s' \<and> (\<forall>q. state_of s' q = state_of s q)"
proof (induction ks arbitrary: s)
  case (Cons k ks)
  then have k: "k < 2 ^ 31" by simp
  from hog_ticks [OF Cons.prems(1), of k] k obtain s1 where s1: "ticks k s = Some s1" "hogging vf k p s1" "pm_procs s1 = pm_procs s"
    by auto
  from hog_yield [OF s1(2) k] obtain s2 where s2: "process_yield s1 = Some s2" "hogging vf 0 p s2"
    "\<forall>q. state_of s2 q = state_of s1 q" by blast
  from Cons.IH [OF s2(2)] Cons.prems(2) s1 s2 show ?case by auto
qed simp

text \<open>
  A process of idle priority can keep the processor for ever: when it runs with the least
  runtime the clamp allows and the ready processes are ahead of it, the next charge wraps its runtime
  around to a small value, which the clamp raises to that least one again. Whatever the number of ticks
  before each yield, it goes on after every yield and the ready processes wait.
\<close>

theorem idle_process_keeps_cpu:
  assumes "pm_step\<^sup>*\<^sup>* (process_init pm_boot) s" and "pm_count s > 1" and "state_of s (pm_current s) = PROCESS_RUNNING"
    and "pr_nice (pm_procs s (pm_current s)) = priority_to_nice PRIORITY_IDLE"
    and "rq_curr (cs_rq (pm_cfs s)) = Some (cfs_task_addr (pm_current s))"
    and "min_vruntime (cs_rq (pm_cfs s)) = 0" and "vrun s (pm_current s) = - 24000000"
    and "\<exists>q<MAX_PROCS. state_of s q = PROCESS_READY" and "\<forall>q<MAX_PROCS. state_of s q = PROCESS_READY \<longrightarrow> vrun s q > - 24000000"
    and "\<forall>k\<in>set ks. k < 2 ^ 31"
  shows "\<exists>s'. rounds ks s = Some s' \<and> pm_current s' = pm_current s \<and> (\<forall>q. state_of s' q = state_of s q)"
proof -
  have i: "pm_inv s" using pm_reachable_inv assms(1) by (simp add: pm_reachable_def)
  note queued = pm_inv_listed [OF i]
  obtain a as where l: "cfs_list (pm_cfs s) = a # as" using queued assms(8) by (cases "cfs_list (pm_cfs s)") auto
  obtain q where q: "a = cfs_task_addr q" "q < MAX_PROCS" using cfs_invE(2) [OF pm_inv_cfs [OF i]] l by (auto simp: cfs_valid_def)
  have "vruntime_of (pm_cfs s) a > - 24000000" using assms(9) queued [OF q(2)] l q by (simp add: vrun_def)
  then have "hogging (vruntime_of (pm_cfs s) a) 0 (pm_current s) s"
    using i assms(2-7) l by (auto simp: hogging_def priority_to_nice_def intro!: exI [of _ "- 24000000"])
  from hog_rounds [OF this assms(10)] show ?thesis by (auto simp: hogging_def)
qed

text \<open>A yield between two processes, for concrete runs.\<close>

lemma yield_two:
  assumes i: "pm_inv s" and cnt: "pm_count s > 1" and run: "state_of s (pm_current s) = PROCESS_RUNNING"
    and l: "cfs_list (pm_cfs s) = [cfs_task_addr q]"
  defines "p \<equiv> pm_current s"
  defines "v \<equiv> max (vrun s p + exec_delta (cfs_nice_to_weight (pr_nice (pm_procs s p))) 1000000)
    (min_vruntime (cs_rq (pm_cfs s)) - 24000000)"
  assumes le: "vrun s q \<le> v"
  shows "\<exists>s'. process_yield s = Some s' \<and> pm_inv s' \<and> pm_current s' = q \<and> cfs_list (pm_cfs s') = [cfs_task_addr p] \<and>
    vrun s' = (vrun s)(p := v) \<and> min_vruntime (cs_rq (pm_cfs s')) = min_vruntime (cs_rq (pm_cfs s)) \<and> pm_count s' > 1 \<and>
    rq_curr (cs_rq (pm_cfs s')) = Some (cfs_task_addr q) \<and> (\<forall>x. pr_nice (pm_procs s' x) = pr_nice (pm_procs s x)) \<and>
    (\<forall>x. state_of s' x = (if x = q then PROCESS_RUNNING else if x = p then PROCESS_READY else state_of s x))"
proof -
  let ?s0 = "s\<lparr>pm_jiffies := pm_jiffies s + 1\<rparr>"
  have p: "p < MAX_PROCS" using i by (simp add: pm_inv_def p_def)
  have w: "weight_of (pm_cfs s) p = cfs_nice_to_weight (pr_nice (pm_procs s p))"
    using pm_inv_weight [OF i p] run by (simp add: p_def)
  have ne: "q \<noteq> p" using pm_inv_listed [OF i p] run l by (auto simp: p_def)
  from process_yield_ok [OF i cnt] obtain s1 s' where y: "yield_requeue ?s0 = Some s1" "process_yield s = Some s'" "pm_inv s1" "pm_inv s'"
    and y': "case cfs_list (pm_cfs s1) of [] \<Rightarrow> s' = s1
     | a # as \<Rightarrow> a = cfs_task_addr (pm_current s') \<and> cfs_list (pm_cfs s') = as \<and> vrun s' = vrun s1 \<and> pm_count s' = pm_count s \<and>
         min_vruntime (cs_rq (pm_cfs s')) = min_vruntime (cs_rq (pm_cfs s1)) \<and> weight_of (pm_cfs s') = weight_of (pm_cfs s1) \<and>
         rq_curr (cs_rq (pm_cfs s')) = Some a \<and> (\<forall>q. pr_nice (pm_procs s' q) = pr_nice (pm_procs s q)) \<and>
         (\<forall>q. state_of s' q = (if q = pm_current s' then PROCESS_RUNNING else state_of s1 q))" by blast
  note r = yield_requeue_list [of ?s0, OF _ _ y(1)]
  have r1: "vruntime_of (pm_cfs s1) = (vruntime_of (pm_cfs s))(cfs_task_addr p := v)"
    using r(1) i run w by (simp add: v_def p_def vrun_def)
  have r2: "cfs_list (pm_cfs s1) = ins_sorted (vruntime_of (pm_cfs s1)) (cfs_task_addr p) [cfs_task_addr q]"
    "min_vruntime (cs_rq (pm_cfs s1)) = min_vruntime (cs_rq (pm_cfs s))"
    using r(2,3) i run l by (simp_all add: p_def)
  have "cfs_list (pm_cfs s1) = [cfs_task_addr q, cfs_task_addr p]"
    unfolding r2(1) r1 using le ne by (simp add: ins_sorted_def vrun_def)
  moreover have "vrun s1 = (vrun s)(p := v)" using r1 by (simp add: vrun_def fun_eq_iff)
  moreover have "state_of s1 x = (if x = p then PROCESS_READY else state_of s x)" for x
    using yield_requeue_ok [of ?s0] i y(1) run by (auto simp: p_def)
  ultimately show ?thesis using y(2,4) y' r2(2) cnt by auto
qed

lemma exec_delta_normal: "exec_delta (cfs_nice_to_weight 0) 1000000 = 1000000"
  by (simp add: cfs_nice_to_weight_def Let_def nice_to_weight_def exec_delta_def)

theorem idle_process_keeps_cpu_witness:
  "\<exists>s s'. pm_step\<^sup>*\<^sup>* (process_init pm_boot) s \<and> pm_current s = 0 \<and> state_of s 1 = PROCESS_READY \<and>
     rounds [10, 0, 3] s = Some s' \<and> pm_current s' = 0 \<and> state_of s' 1 = PROCESS_READY"
proof -
  from two_processes [of 0 0 PRIORITY_IDLE 0 0 0 PRIORITY_NORMAL 0] obtain s where s: "pm_reachable s" "pm_count s > 1" "pm_current s = 0"
    "state_of s 0 = PROCESS_RUNNING" "state_of s 1 = PROCESS_READY" "pr_nice (pm_procs s 0) = 19" "pr_nice (pm_procs s 1) = 0"
    "\<forall>q. 1 < q \<longrightarrow> q < MAX_PROCS \<longrightarrow> state_of s q = PROCESS_UNUSED" "vrun s 0 = - 24000000" "vrun s 1 = - 24000000"
    "min_vruntime (cs_rq (pm_cfs s)) = 0" "cfs_list (pm_cfs s) = [cfs_task_addr 1]"
    by (auto simp: priority_to_nice_def)
  from yield_two [OF pm_reachable_inv [OF s(1)] s(2) _ s(12)] s obtain s2 where
    s2: "process_yield s = Some s2" "pm_inv s2" "pm_current s2 = 1" "cfs_list (pm_cfs s2) = [cfs_task_addr 0]"
    "vrun s2 = (vrun s)(0 := - 24000000)" "min_vruntime (cs_rq (pm_cfs s2)) = 0" "pm_count s2 > 1"
    "\<forall>x. pr_nice (pm_procs s2 x) = pr_nice (pm_procs s x)"
    "\<forall>x. state_of s2 x = (if x = 1 then PROCESS_RUNNING else if x = 0 then PROCESS_READY else state_of s x)"
    by (auto simp: idle_delta max_def)
  from yield_two [OF s2(2,7) _ s2(4)] s2 s obtain s3 where
    s3: "process_yield s2 = Some s3" "pm_current s3 = 0" "vrun s3 = (vrun s2)(1 := - 23000000)"
    "min_vruntime (cs_rq (pm_cfs s3)) = 0" "pm_count s3 > 1" "rq_curr (cs_rq (pm_cfs s3)) = Some (cfs_task_addr 0)"
    "\<forall>x. pr_nice (pm_procs s3 x) = pr_nice (pm_procs s2 x)"
    "\<forall>x. state_of s3 x = (if x = 0 then PROCESS_RUNNING else if x = 1 then PROCESS_READY else state_of s2 x)"
    by (auto simp: exec_delta_normal max_def)
  have "pm_reachable s3" using s(1) s2(1) s3(1) by (meson pm_reachable_step pm_step.yield)
  then have reach: "pm_step\<^sup>*\<^sup>* (process_init pm_boot) s3" by (simp add: pm_reachable_def)
  have ready: "state_of s3 q = PROCESS_READY \<longleftrightarrow> q = 1" if "q < MAX_PROCS" for q
    using s3(8) s2(9) s(8) that by auto
  have "\<exists>s'. rounds [10, 0, 3] s3 = Some s' \<and> pm_current s' = pm_current s3 \<and> (\<forall>q. state_of s' q = state_of s3 q)"
  proof (rule idle_process_keeps_cpu [OF reach s3(5)])
    show "\<exists>q<MAX_PROCS. state_of s3 q = PROCESS_READY" using ready [of 1] by (intro exI [of _ 1]) simp
  qed (use s s2 s3 ready in \<open>auto simp: priority_to_nice_def\<close>)
  then show ?thesis using reach s3(2) ready [of 1] by auto
qed

section \<open>The segment bases of a resumed process\<close>

lemma yield_switches:
  assumes "process_yield s = Some s'" and "pm_current s' \<noteq> pm_current s"
  shows "\<exists>u. s' = switch_to (pm_current s') u \<and> pm_current u = pm_current s \<and> pm_resume u = pm_resume s \<and> pm_cpu u = pm_cpu s"
proof -
  have cnt: "\<not> pm_count s \<le> 1" using assms by (auto simp: process_yield_def)
  obtain s1 where s1: "yield_requeue (s\<lparr>pm_jiffies := pm_jiffies s + 1\<rparr>) = Some s1"
    using assms(1) cnt by (auto simp: process_yield_def bind_eq_Some_conv)
  then have same: "pm_current s1 = pm_current s" "pm_resume s1 = pm_resume s" "pm_cpu s1 = pm_cpu s"
    by (auto simp: yield_requeue_def on_cfs_def bind_eq_Some_conv split: if_splits)
  obtain a where a: "cfs_pick_next_task (pm_cfs s1) = Some (Some a)"
    using assms cnt s1 same by (auto simp: process_yield_def yield_run_def Let_def on_cfs_def set_rq_curr_def bind_eq_Some_conv split: option.splits if_splits)
  define n where "n = (case first_index (\<lambda>i. state_of s1 i \<noteq> PROCESS_UNUSED \<and> cfs_task_addr i = a) MAX_PROCS of
      None \<Rightarrow> pm_current s1 | Some i \<Rightarrow> i)"
  obtain z where "on_cfs (cfs_dequeue_task a) s1 = Some z" "z = s1\<lparr>pm_cfs := pm_cfs z\<rparr>"
    and s': "s' = (let v = z\<lparr>pm_cfs := (pm_cfs z)\<lparr>cs_rq := (cs_rq (pm_cfs z))\<lparr>rq_curr := Some a\<rparr>\<rparr>\<rparr>
       in if n = pm_current s1
          then upd_proc (pm_current s1) (\<lambda>p. p\<lparr>pr_state := PROCESS_RUNNING, pr_sched_count := pr_sched_count p + 1\<rparr>) v
          else switch_to n v)"
    using assms(1) cnt s1 a by (auto simp: process_yield_def yield_run_def Let_def on_cfs_def bind_eq_Some_conv n_def)
  then have z: "pm_current z = pm_current s" "pm_resume z = pm_resume s" "pm_cpu z = pm_cpu s"
    using same by (metis pm_state.select_convs pm_state.surjective pm_state.update_convs(5))+
  show ?thesis
  proof (cases "n = pm_current s1")
    case True
    then show ?thesis using s' assms(2) z(1) by (simp add: Let_def)
  next
    case False
    then have "s' = switch_to n (z\<lparr>pm_cfs := (pm_cfs z)\<lparr>cs_rq := (cs_rq (pm_cfs z))\<lparr>rq_curr := Some a\<rparr>\<rparr>\<rparr>)"
      using s' by (simp add: Let_def)
    moreover from this have "pm_current s' = n" by (simp add: switch_to_sel)
    ultimately show ?thesis using z by (metis pm_state.ext_inject pm_state.surjective pm_state.update_convs(5))
  qed
qed

lemma switch_to_resume: "pm_resume (switch_to n u) = (pm_resume u)(pm_current u := Some n)"
  by (auto simp: switch_to_def process_switch_def Let_def split: option.split)

lemma process_switch_fpu_gs [simp]:
  "cpu_gs (pm_cpu (process_switch_fpu a b s)) = cpu_gs (pm_cpu s)"
  "cpu_gs_base (pm_cpu (process_switch_fpu a b s)) = cpu_gs_base (pm_cpu s)"
  by (auto simp: process_switch_fpu_def Let_def)

lemma switch_back_bases:
  assumes "pm_resume u n = Some (pm_current u)" and "n \<noteq> pm_current u"
  shows "cpu_fs_base (pm_cpu (switch_to n u)) = cpu_fs_base (pm_cpu u)"
    and "cpu_gs_base (pm_cpu (switch_to n u)) = cpu_gs_base (pm_cpu u)"
  using assms by (auto simp: switch_to_def process_switch_def Let_def restore_fs_gs_def save_fs_gs_def)

text \<open>
  A resumed process does not get its own segment bases back: the code after the switch
  loads those of \<open>next_pid\<close>, which on the stack of the resumed process is the process it once
  gave the processor to. When \<open>A\<close> yields to \<open>B\<close> and later \<open>B\<close> yields to \<open>A\<close>, then \<open>A\<close> goes on with
  the FS and GS bases that \<open>B\<close> had.
\<close>

theorem resumed_with_bases_of_other:
  assumes "process_yield s = Some s1" and "pm_current s1 \<noteq> pm_current s"
    and "pm_current t = pm_current s1" and "pm_resume t (pm_current s) = pm_resume s1 (pm_current s)"
    and "process_yield t = Some t1" and "pm_current t1 = pm_current s"
  shows "cpu_fs_base (pm_cpu t1) = cpu_fs_base (pm_cpu t) \<and> cpu_gs_base (pm_cpu t1) = cpu_gs_base (pm_cpu t)"
proof -
  obtain u where u: "s1 = switch_to (pm_current s1) u" "pm_current u = pm_current s" using yield_switches [OF assms(1,2)] by blast
  have "pm_resume s1 (pm_current s) = Some (pm_current s1)" by (subst u(1)) (simp add: switch_to_resume u(2))
  then have r: "pm_resume t (pm_current s) = Some (pm_current t)" using assms(3,4) by simp
  obtain w where w: "t1 = switch_to (pm_current t1) w" "pm_current w = pm_current t" "pm_resume w = pm_resume t" "pm_cpu w = pm_cpu t"
    using yield_switches [OF assms(5)] assms(2,3,6) by auto
  show ?thesis using switch_back_bases [of w "pm_current s"] w r assms(2,3,6) by metis
qed

text \<open>The thread pointer that a process sets itself, as the \<open>arch_prctl\<close> call does.\<close>

theorem resumed_with_bases_of_other_witness:
  "\<exists>s s1 t t1. pm_step\<^sup>*\<^sup>* (process_init pm_boot) s \<and> process_yield s = Some s1 \<and> pm_current s = 0 \<and> pm_current s1 = 1 \<and>
     t = s1\<lparr>pm_cpu := (pm_cpu s1)\<lparr>cpu_fs := 83, cpu_fs_base := 4242\<rparr>\<rparr> \<and> process_yield t = Some t1 \<and> pm_current t1 = 0 \<and>
     cpu_fs_base (pm_cpu t1) = 4242"
proof -
  from two_processes [of 0 0 PRIORITY_NORMAL 0 0 0 PRIORITY_NORMAL 0] obtain s where s: "pm_reachable s" "pm_count s > 1" "pm_current s = 0"
    "state_of s 0 = PROCESS_RUNNING" "pr_nice (pm_procs s 0) = 0" "pr_nice (pm_procs s 1) = 0"
    "vrun s 0 = - 24000000" "vrun s 1 = - 24000000"
    "min_vruntime (cs_rq (pm_cfs s)) = 0" "cfs_list (pm_cfs s) = [cfs_task_addr 1]"
    by (auto simp: priority_to_nice_def)
  from yield_two [OF pm_reachable_inv [OF s(1)] s(2) _ s(10)] s obtain s1 where
    s1: "process_yield s = Some s1" "pm_inv s1" "pm_current s1 = 1" "cfs_list (pm_cfs s1) = [cfs_task_addr 0]"
    "vrun s1 = (vrun s)(0 := - 23000000)" "min_vruntime (cs_rq (pm_cfs s1)) = 0" "pm_count s1 > 1"
    "\<forall>x. pr_nice (pm_procs s1 x) = pr_nice (pm_procs s x)" "state_of s1 1 = PROCESS_RUNNING"
    by (auto simp: exec_delta_normal max_def)
  let ?t = "s1\<lparr>pm_cpu := (pm_cpu s1)\<lparr>cpu_fs := 83, cpu_fs_base := 4242\<rparr>\<rparr>"
  have "pm_inv ?t" by (rule pm_inv_frame [OF s1(2)]) simp_all
  from yield_two [OF this] s1 s obtain t1 where t1: "process_yield ?t = Some t1" "pm_current t1 = 0"
    by (auto simp: exec_delta_normal max_def vrun_def fun_eq_iff split: if_splits)
  have "cpu_fs_base (pm_cpu t1) = cpu_fs_base (pm_cpu ?t)"
    using resumed_with_bases_of_other [OF s1(1) _ _ _ t1(1)] s1(3) s(3) t1(2) by simp
  then show ?thesis using s(1,3) s1(1,3) t1 by (intro exI [of _ s] exI [of _ s1] exI [of _ ?t] exI [of _ t1]) (auto simp: pm_reachable_def)
qed

section \<open>A process whose state the scheduler does not see\<close>

text \<open>The state of a process other than those an operation names can be changed before or after it.\<close>

named_theorems set_state_out \<open>moving the change of another process's state out of an operation\<close>

lemma set_state_out_upd [set_state_out]: "q \<noteq> p \<Longrightarrow> upd_proc q f (set_state p st s) = set_state p st (upd_proc q f s)"
  by (cases s) (auto simp: set_state_def upd_proc_def fun_upd_twist)

lemma set_state_out_fields [set_state_out]:
  "(set_state p st s)\<lparr>pm_cfs := c\<rparr> = set_state p st (s\<lparr>pm_cfs := c\<rparr>)"
  "(set_state p st s)\<lparr>pm_current := n\<rparr> = set_state p st (s\<lparr>pm_current := n\<rparr>)"
  "(set_state p st s)\<lparr>pm_jiffies := j\<rparr> = set_state p st (s\<lparr>pm_jiffies := j\<rparr>)"
  "(set_state p st s)\<lparr>pm_cpu := u\<rparr> = set_state p st (s\<lparr>pm_cpu := u\<rparr>)"
  "(set_state p st s)\<lparr>pm_resume := r\<rparr> = set_state p st (s\<lparr>pm_resume := r\<rparr>)"
  by (cases s, simp add: set_state_def upd_proc_def)+

lemma set_state_out_on_cfs [set_state_out]: "on_cfs f (set_state p st s) = map_option (set_state p st) (on_cfs f s)"
  by (simp add: on_cfs_set_state)

lemma set_state_out_set_state [set_state_out]: "q \<noteq> p \<Longrightarrow> set_state q x (set_state p st s) = set_state p st (set_state q x s)"
  unfolding set_state_def [of q x] by (simp add: set_state_out_upd)

lemma set_state_out_fpu [set_state_out]:
  "a \<noteq> p \<Longrightarrow> b \<noteq> p \<Longrightarrow> process_switch_fpu a b (set_state p st s) = set_state p st (process_switch_fpu a b s)"
  by (simp add: process_switch_fpu_def Let_def set_state_out)

lemma set_state_out_save [set_state_out]: "a \<noteq> p \<Longrightarrow> save_fs_gs a (set_state p st s) = set_state p st (save_fs_gs a s)"
  by (simp add: save_fs_gs_def Let_def set_state_out)

lemma set_state_out_restore [set_state_out]: "restore_fs_gs a (set_state p st s) = set_state p st (restore_fs_gs a s)"
  by (simp add: restore_fs_gs_def Let_def set_state_out)

lemma set_state_out_switch [set_state_out]:
  "pm_current s \<noteq> p \<Longrightarrow> process_switch a b (set_state p st s) = set_state p st (process_switch a b s)"
  by (simp add: process_switch_def Let_def set_state_out split: option.split)

lemma set_state_out_switch_to [set_state_out]:
  "pm_current s \<noteq> p \<Longrightarrow> n \<noteq> p \<Longrightarrow> switch_to n (set_state p st s) = set_state p st (switch_to n s)"
  by (simp add: switch_to_def Let_def set_state_out)

lemma map_bind_out: "(map_option g x \<bind> f) = (x \<bind> (\<lambda>y. f (g y)))"
  by (cases x) simp_all

lemma set_state_out_requeue:
  "pm_current s \<noteq> p \<Longrightarrow> yield_requeue (set_state p st s) = map_option (set_state p st) (yield_requeue s)"
  by (auto simp: yield_requeue_def set_state_out map_bind_out map_option_bind option.map_comp o_def intro!: bind_option_cong)

text \<open>A task other than that of process \<open>p\<close> is found and run without a look at the state of \<open>p\<close>.\<close>

lemma set_state_out_run:
  assumes p: "pm_current s \<noteq> p" and t: "next_task \<noteq> Some (cfs_task_addr p)"
  shows "yield_run next_task (set_state p st s) = map_option (set_state p st) (yield_run next_task s)"
proof (cases next_task)
  case None
  then show ?thesis using p
    by (simp add: yield_run_def Let_def set_rq_curr_def set_state_out option.map_comp o_def)
next
  case (Some a)
  let ?find = "\<lambda>s. first_index (\<lambda>i. state_of s i \<noteq> PROCESS_UNUSED \<and> cfs_task_addr i = a) MAX_PROCS"
  have find: "?find (set_state p st s) = ?find s" by (rule first_index_cong) (use t Some in auto)
  define n where "n = (case ?find s of None \<Rightarrow> pm_current s | Some i \<Rightarrow> i)"
  have n: "n \<noteq> p" using p t Some by (auto simp: n_def dest: first_index_SomeD split: option.split)
  let ?v = "\<lambda>u. u\<lparr>pm_cfs := (pm_cfs u)\<lparr>cs_rq := (cs_rq (pm_cfs u))\<lparr>rq_curr := Some a\<rparr>\<rparr>\<rparr>"
  let ?go = "\<lambda>u. if n = pm_current s
    then upd_proc (pm_current s) (\<lambda>p. p\<lparr>pr_state := PROCESS_RUNNING, pr_sched_count := pr_sched_count p + 1\<rparr>) (?v u)
    else switch_to n (?v u)"
  have unfolded: "yield_run next_task s = map_option ?go (on_cfs (cfs_dequeue_task a) s)"
    by (simp only: yield_run_def Let_def Some option.case n_def [symmetric] map_conv_bind_option o_def)
  have "yield_run next_task (set_state p st s) = map_option ?go (on_cfs (cfs_dequeue_task a) (set_state p st s))"
    by (simp only: yield_run_def Let_def Some option.case find set_state_sel(3) n_def [symmetric] map_conv_bind_option o_def)
  also have "\<dots> = map_option (\<lambda>u. ?go (set_state p st u)) (on_cfs (cfs_dequeue_task a) s)"
    by (simp add: set_state_out_on_cfs option.map_comp o_def)
  also have "\<dots> = map_option (\<lambda>u. set_state p st (?go u)) (on_cfs (cfs_dequeue_task a) s)"
    by (rule option.map_cong [OF refl]) (use p n in \<open>auto simp: set_state_out dest: on_cfs_procs\<close>)
  finally show ?thesis unfolding unfolded by (simp add: option.map_comp o_def)
qed

lemma set_state_out_yield:
  assumes i: "pm_inv s" and p: "p \<noteq> pm_current s" "p < MAX_PROCS" and st: "state_of s p \<noteq> PROCESS_READY"
  shows "process_yield (set_state p st s) = map_option (set_state p st) (process_yield s)"
proof (cases "pm_count s > 1")
  case False
  then show ?thesis by (simp add: process_yield_def)
next
  case True
  let ?s0 = "s\<lparr>pm_jiffies := pm_jiffies s + 1\<rparr>"
  from yield_requeue_ok [of ?s0] i obtain s1 where s1: "yield_requeue ?s0 = Some s1" "pm_inv s1" "pm_current s1 = pm_current s"
    "state_of s1 p = state_of s p" using p(1) by auto
  have r: "yield_requeue ((set_state p st s)\<lparr>pm_jiffies := pm_jiffies s + 1\<rparr>) = Some (set_state p st s1)"
    using set_state_out_requeue [of ?s0 p st] p(1) s1(1) by (simp add: set_state_out_fields)
  have off: "cfs_task_addr p \<notin> set (cfs_list (pm_cfs s1))"
    using pm_inv_listed [OF s1(2) p(2)] s1(4) st by simp
  obtain t where t: "cfs_pick_next_task (pm_cfs s1) = Some t" "t \<noteq> Some (cfs_task_addr p)"
    using cfs_pick_queue [OF cfs_invE(1) [OF pm_inv_cfs [OF s1(2)]]] cfs_invE(3) [OF pm_inv_cfs [OF s1(2)]] off
    by (cases "cfs_list (pm_cfs s1)") auto
  show ?thesis using True r s1(1,3) t p(1) set_state_out_run [of s1 p t st] by (simp add: process_yield_def)
qed

text \<open>
  \<open>signal_send\<close> of \<open>signal.c\<close> on the process table: it reads and writes the states of the same
  processes, while its own data \<open>sg\<close> hangs from them.
\<close>

definition signal_view :: "pm_state \<Rightarrow> sprocs \<Rightarrow> sprocs" where
  "signal_view s sg = (\<lambda>q. (sg q)\<lparr>sp_state := state_of s q\<rparr>)"

definition pm_signal_send :: "bool \<Rightarrow> pid \<Rightarrow> int \<Rightarrow> k_siginfo_t option \<Rightarrow> pm_state \<Rightarrow> sprocs \<Rightarrow> int \<times> pm_state \<times> sprocs" where
  "pm_signal_send alloc_ok target sig info s sg =
     (case signal_send alloc_ok target sig info (signal_view s sg) of (r, v) \<Rightarrow>
        (r, s\<lparr>pm_procs := \<lambda>q. (pm_procs s q)\<lparr>pr_state := sp_state (v q)\<rparr>\<rparr>, v))"

datatype sched_op = SchedYield | SchedWakeup pid

fun sched_run :: "sched_op list \<Rightarrow> pm_state \<Rightarrow> pm_state option" where
  "sched_run [] s = Some s"
| "sched_run (SchedYield # ops) s = process_yield s \<bind> sched_run ops"
| "sched_run (SchedWakeup q # ops) s = process_wakeup q s \<bind> sched_run ops"

lemma wakeup_out:
  assumes i: "pm_inv s" and q: "q \<noteq> p"
  shows "process_wakeup q (set_state p st s) = map_option (set_state p st) (process_wakeup q s)"
  using q by (auto simp: process_wakeup_def make_ready_def set_state_out option.map_comp o_def)

lemma process_wakeup_sel:
  assumes "pm_inv s" and "process_wakeup q s = Some s'"
  shows "pm_inv s'" and "pm_current s' = pm_current s" and "p \<noteq> q \<Longrightarrow> state_of s' p = state_of s p"
  using assms process_wakeup_ok [OF assms(1), of q] make_ready_state [of q s s' p]
  by (auto simp: process_wakeup_def make_ready_def dest: on_cfs_procs split: if_splits)

lemma yield_others:
  assumes i: "pm_inv s" and p: "p \<noteq> pm_current s" "p < MAX_PROCS" and st: "state_of s p \<noteq> PROCESS_READY" and y: "process_yield s = Some s'"
  shows "pm_inv s'" and "pm_current s' \<noteq> p" and "state_of s' p = state_of s p"
proof -
  show i': "pm_inv s'" using process_yield_inv [OF i] y by auto
  have "pm_current s' \<noteq> p \<and> state_of s' p = state_of s p"
  proof (cases "pm_count s > 1")
    case True
    from process_yield_ok [OF i True] y obtain s1 where s1: "yield_requeue (s\<lparr>pm_jiffies := pm_jiffies s + 1\<rparr>) = Some s1" "pm_inv s1"
      and c: "case cfs_list (pm_cfs s1) of [] \<Rightarrow> s' = s1
       | a # as \<Rightarrow> a = cfs_task_addr (pm_current s') \<and> (\<forall>q. state_of s' q = (if q = pm_current s' then PROCESS_RUNNING else state_of s1 q))"
      by (fastforce split: list.splits)
    from yield_requeue_ok [of "s\<lparr>pm_jiffies := pm_jiffies s + 1\<rparr>"] i p(1) s1(1) have
      same: "state_of s1 p = state_of s p" "pm_current s1 = pm_current s" by auto
    have "cfs_task_addr p \<notin> set (cfs_list (pm_cfs s1))"
      using pm_inv_listed [OF s1(2) p(2)] same(1) st by simp
    then show ?thesis using c same p(1) by (cases "cfs_list (pm_cfs s1)") auto
  next
    case False
    then show ?thesis using y p(1) by (simp add: process_yield_def)
  qed
  then show "pm_current s' \<noteq> p" "state_of s' p = state_of s p" by simp_all
qed

text \<open>A process that is READY on the table but asleep for the scheduler stays so.\<close>

lemma unseen_stays:
  assumes "pm_inv s" and "p \<noteq> pm_current s" and "p < MAX_PROCS" and "state_of s p \<noteq> PROCESS_READY"
  shows "\<exists>t. sched_run ops (set_state p PROCESS_READY s) = Some (set_state p PROCESS_READY t) \<and> pm_current t \<noteq> p"
  using assms
proof (induction ops arbitrary: s)
  case Nil
  then show ?case by auto
next
  case (Cons x ops)
  show ?case
  proof (cases x)
    case SchedYield
    obtain s1 where s1: "process_yield s = Some s1" using process_yield_inv [OF Cons.prems(1)] by blast
    note o = yield_others [OF Cons.prems s1]
    have "state_of s1 p \<noteq> PROCESS_READY" using o(3) Cons.prems(4) by simp
    with Cons.IH [OF o(1) not_sym [OF o(2)] Cons.prems(3)] show ?thesis
      using set_state_out_yield [OF Cons.prems(1-4)] s1 SchedYield by simp
  next
    case (SchedWakeup q)
    show ?thesis
    proof (cases "q = p")
      case True
      then show ?thesis using SchedWakeup Cons.IH [OF Cons.prems] by (simp add: process_wakeup_def)
    next
      case False
      obtain s1 where s1: "process_wakeup q s = Some s1" using process_wakeup_ok [OF Cons.prems(1)] by blast
      note w = process_wakeup_sel [OF Cons.prems(1) s1]
      have "p \<noteq> pm_current s1" "state_of s1 p \<noteq> PROCESS_READY" using w(2,3) Cons.prems(2,4) False by auto
      with Cons.IH [OF w(1) _ Cons.prems(3)] show ?thesis
        using wakeup_out [OF Cons.prems(1) False] s1 SchedWakeup by simp
    qed
  qed
qed

text \<open>
  A signal loses the process it should wake: \<open>signal_send\<close> makes a sleeping or waiting
  process READY but does not put it into the tree of the scheduler, and since it is READY \<open>process_wakeup\<close>
  no longer touches it. However often the others yield and whoever is woken, it never runs.
\<close>

theorem signal_send_loses_process:
  assumes "pm_step\<^sup>*\<^sup>* (process_init pm_boot) s" and "p < MAX_PROCS" and "p \<noteq> pm_current s"
    and "state_of s p = PROCESS_SLEEPING \<or> state_of s p = PROCESS_WAITING"
    and "sp_signal (sg p) = Some g" and "1 \<le> sig" and "sig < SIGRTMIN" and "sig \<noteq> SIGKILL"
  shows "\<exists>s1 sg1. pm_signal_send alloc_ok p sig info s sg = (0, s1, sg1) \<and> state_of s1 p = PROCESS_READY \<and>
    (\<forall>ops. \<exists>s2. sched_run ops s1 = Some s2 \<and> state_of s2 p = PROCESS_READY \<and> pm_current s2 \<noteq> p)"
proof -
  have i: "pm_inv s" using pm_reachable_inv assms(1) by (simp add: pm_reachable_def)
  obtain v where v: "signal_send alloc_ok p sig info (signal_view s sg) = (0, v)" "sp_state (v p) = PROCESS_READY"
    "\<And>q. q \<noteq> p \<Longrightarrow> sp_state (v q) = state_of s q"
    using assms(2,4-8) by (auto simp: signal_send_def signal_view_def Let_def)
  have "s\<lparr>pm_procs := \<lambda>q. (pm_procs s q)\<lparr>pr_state := sp_state (v q)\<rparr>\<rparr> = set_state p PROCESS_READY s"
    using v(2,3) by (simp add: set_state_def upd_proc_def fun_eq_iff)
  then have "pm_signal_send alloc_ok p sig info s sg = (0, set_state p PROCESS_READY s, v)"
    using v(1) by (simp add: pm_signal_send_def)
  moreover have "\<exists>s2. sched_run ops (set_state p PROCESS_READY s) = Some s2 \<and> state_of s2 p = PROCESS_READY \<and> pm_current s2 \<noteq> p" for ops
    using unseen_stays [OF i assms(3,2), of ops] assms(4) by auto
  ultimately show ?thesis by auto
qed

text \<open>A process that goes to sleep while another one is ready.\<close>

lemma sleep_switches:
  assumes i: "pm_inv s" and cnt: "pm_count s > 1" and u: "state_of s (pm_current s) \<noteq> PROCESS_UNUSED"
    and q: "q < MAX_PROCS" "q \<noteq> pm_current s" "state_of s q = PROCESS_READY"
  shows "\<exists>s'. process_sleep ms s = Some s' \<and> state_of s' (pm_current s) = PROCESS_SLEEPING \<and> pm_current s' \<noteq> pm_current s"
proof -
  from sleep_off_ok [OF i u, of ms] obtain s0 where s0: "pm_inv s0" "process_sleep ms s = process_yield s0" "pm_count s0 = pm_count s"
    "pm_current s0 = pm_current s" "\<And>q. state_of s0 q = (if q = pm_current s then PROCESS_SLEEPING else state_of s q)" by blast
  from process_yield_ok [OF s0(1)] s0(3) cnt obtain s1 s' where y: "yield_requeue (s0\<lparr>pm_jiffies := pm_jiffies s0 + 1\<rparr>) = Some s1"
    "process_yield s0 = Some s'" "pm_inv s1"
    and c: "case cfs_list (pm_cfs s1) of [] \<Rightarrow> s' = s1
     | a # as \<Rightarrow> a = cfs_task_addr (pm_current s') \<and> (\<forall>q. state_of s' q = (if q = pm_current s' then PROCESS_RUNNING else state_of s1 q))"
    by (fastforce split: list.splits)
  from yield_requeue_ok [of "s0\<lparr>pm_jiffies := pm_jiffies s0 + 1\<rparr>"] s0 y(1) have st: "\<And>q. state_of s1 q = state_of s0 q" by auto
  note queued = pm_inv_listed [OF y(3)]
  have "cfs_list (pm_cfs s1) \<noteq> []" using queued [OF q(1)] st s0(5) q by auto
  then obtain a as where l: "cfs_list (pm_cfs s1) = a # as" by (cases "cfs_list (pm_cfs s1)") auto
  have "pm_current s < MAX_PROCS" using i by (simp add: pm_inv_def)
  then have "pm_current s' \<noteq> pm_current s" using queued [of "pm_current s"] st s0(5) c l by auto
  then show ?thesis using s0(2,5) y(2) c l st by auto
qed

theorem signal_send_loses_process_witness:
  "\<exists>s s1 sg1. pm_step\<^sup>*\<^sup>* (process_init pm_boot) s \<and> state_of s 0 = PROCESS_SLEEPING \<and>
     pm_signal_send True 0 15 None s (\<lambda>_. sproc0) = (0, s1, sg1) \<and>
     (\<exists>s2. sched_run [SchedWakeup 0, SchedYield] s1 = Some s2 \<and> state_of s2 0 = PROCESS_READY \<and> pm_current s2 \<noteq> 0)"
proof -
  from two_processes [of 0 0 PRIORITY_NORMAL 0 0 0 PRIORITY_NORMAL 0] obtain s0 where s0: "pm_reachable s0" "pm_count s0 > 1"
    "pm_current s0 = 0" "state_of s0 0 = PROCESS_RUNNING" "state_of s0 1 = PROCESS_READY" by blast
  from sleep_switches [OF pm_reachable_inv [OF s0(1)] s0(2), of 1 0] s0(3-5) obtain s where
    s: "process_sleep 0 s0 = Some s" "state_of s 0 = PROCESS_SLEEPING" "pm_current s \<noteq> 0" by auto
  have "pm_step s0 s" using s(1) s0(3,4) by (intro pm_step.sleep) auto
  then have "pm_step\<^sup>*\<^sup>* (process_init pm_boot) s" using pm_reachable_step [OF s0(1)] by (simp add: pm_reachable_def)
  moreover obtain g where "sp_signal sproc0 = Some g" by (auto simp: sproc0_def signal_create_def)
  ultimately obtain s1 sg1 where "pm_signal_send True 0 15 None s (\<lambda>_. sproc0) = (0, s1, sg1)"
    "\<forall>ops. \<exists>s2. sched_run ops s1 = Some s2 \<and> state_of s2 0 = PROCESS_READY \<and> pm_current s2 \<noteq> 0"
    using signal_send_loses_process [of s 0 "\<lambda>_. sproc0" g 15 True None] s(2,3) by auto
  then show ?thesis using \<open>pm_step\<^sup>*\<^sup>* (process_init pm_boot) s\<close> s(2) by blast
qed

section \<open>The tick and a queued process\<close>

text \<open>
  The tick charges the task that \<open>curr\<close> points to even while that task is in the tree, where its place
  depends on the runtime. A running process that is sent SIGCONT is queued while it runs; if its
  charge carries its runtime past that of the next process, then the tree is out of order and the scheduler picks
  a process that is not the one with the least runtime.
\<close>

theorem tick_breaks_order:
  assumes "pm_step\<^sup>*\<^sup>* (process_init pm_boot) s" and "p < MAX_PROCS" and "q < MAX_PROCS"
    and "rq_curr (cs_rq (pm_cfs s)) = Some (cfs_task_addr p)" and "state_of s p = PROCESS_READY"
    and "cfs_list (pm_cfs s) = cfs_task_addr p # cfs_task_addr q # as"
    and "vrun s q < vrun s p + exec_delta (cfs_nice_to_weight (pr_nice (pm_procs s p))) CFS_TICK_NSEC"
  shows "\<exists>s'. scheduler_tick s = Some s' \<and> cfs_pick_next_task (pm_cfs s') = Some (Some (cfs_task_addr p)) \<and>
    ct_on_rq (cs_tasks (pm_cfs s') (cfs_task_addr q)) \<noteq> 0 \<and> vrun s' q < vrun s' p"
proof -
  let ?a = "cfs_task_addr p" and ?c1 = "(pm_cfs s)\<lparr>cs_jiffies := cs_jiffies (pm_cfs s) + 1\<rparr>"
  have i: "pm_inv s" using pm_reachable_inv assms(1) by (simp add: pm_reachable_def)
  note qu = cfs_invE(1) [OF pm_inv_cfs [OF i]]
  have w: "weight_of (pm_cfs s) p = cfs_nice_to_weight (pr_nice (pm_procs s p))"
    using pm_inv_weight [OF i assms(2)] assms(5) by simp
  have on: "ct_on_rq (cs_tasks (pm_cfs s) (cfs_task_addr q)) \<noteq> 0" using qu assms(6) by (simp add: cfs_queue_def)
  have ne: "q \<noteq> p" using cfs.queue_distinct [OF pm_inv_cfs [OF i]] assms(6) by auto
  have "ct_load_weight (cs_tasks ?c1 ?a) \<noteq> 0" using w cfs_weight_pos by (simp add: weight_of_def)
  then obtain c2 where c2: "cfs_account_exec (Some ?a) 1000000 ?c1 = Some c2" by (auto simp: cfs_account_exec_def Let_def)
  note acc = account_exec_sel [OF c2]
  have "rbtree_min (tasks_timeline (cs_rq (pm_cfs s))) = Some (Some ?a)"
    using qu rbtree_min_ok assms(6) by (fastforce simp: cfs_queue_def repaired_def)
  then have m: "rbtree_min (tasks_timeline (cs_rq c2)) = Some (Some ?a)" using acc(5) by simp
  then obtain c3 where c3: "cfs_update_min_vruntime c2 = Some c3" "cs_tasks c3 = cs_tasks c2"
    "tasks_timeline (cs_rq c3) = tasks_timeline (cs_rq c2)" by (auto simp: cfs_update_min_vruntime_def Let_def)
  have run: "scheduler_tick s = Some (s\<lparr>pm_jiffies := pm_jiffies s + 1, pm_cfs := c3\<rparr>)"
    using assms(4) c2 c3(1) m by (simp add: scheduler_tick_def on_cfs_def cfs_scheduler_tick_def Let_def cfs_pick_next_task_def)
  have v3: "vruntime_of c3 = (vruntime_of (pm_cfs s))(?a := vrun s p + exec_delta (cfs_nice_to_weight (pr_nice (pm_procs s p))) 1000000)"
    using acc(1) c3(2) w by (simp add: vruntime_of_def vrun_def weight_of_def fun_eq_iff)
  show ?thesis
    using run m c3 on acc(6) v3 assms(7) ne by (auto simp: cfs_pick_next_task_def vrun_def)
qed

lemma exec_delta_high: "exec_delta (cfs_nice_to_weight (- 10)) 1000000 = 107247"
  by (simp add: cfs_nice_to_weight_def Let_def nice_to_weight_def exec_delta_def)

theorem tick_breaks_order_witness:
  "\<exists>s s'. pm_step\<^sup>*\<^sup>* (process_init pm_boot) s \<and> scheduler_tick s = Some s' \<and>
     cfs_pick_next_task (pm_cfs s') = Some (Some (cfs_task_addr 1)) \<and> vrun s' 0 < vrun s' 1"
proof -
  from two_processes [of 0 0 PRIORITY_HIGH 0 0 0 PRIORITY_NORMAL 0] obtain s where s: "pm_reachable s" "pm_count s > 1" "pm_current s = 0"
    "state_of s 0 = PROCESS_RUNNING" "pr_nice (pm_procs s 0) = - 10" "pr_nice (pm_procs s 1) = 0"
    "vrun s 0 = - 24000000" "vrun s 1 = - 24000000"
    "min_vruntime (cs_rq (pm_cfs s)) = 0" "cfs_list (pm_cfs s) = [cfs_task_addr 1]"
    by (auto simp: priority_to_nice_def)
  from yield_two [OF pm_reachable_inv [OF s(1)] s(2) _ s(10)] s obtain s1 where
    s1: "process_yield s = Some s1" "pm_inv s1" "cfs_list (pm_cfs s1) = [cfs_task_addr 0]"
    "vrun s1 = (vrun s)(0 := - 24000000 + 107247)" "min_vruntime (cs_rq (pm_cfs s1)) = 0"
    "rq_curr (cs_rq (pm_cfs s1)) = Some (cfs_task_addr 1)"
    "\<forall>x. pr_nice (pm_procs s1 x) = pr_nice (pm_procs s x)" "state_of s1 1 = PROCESS_RUNNING"
    by (auto simp: exec_delta_high max_def)
  have used: "state_of s1 1 \<noteq> PROCESS_UNUSED" using s1(8) by simp
  from make_ready_ok [OF s1(2) _ used] obtain c where c: "make_ready 1 s1 = Some ((set_state 1 PROCESS_READY s1)\<lparr>pm_cfs := c\<rparr>)"
    "cfs_enqueue_task (cfs_task_addr 1) (pm_cfs s1) = Some c" by auto
  define s2 where "s2 = (set_state 1 PROCESS_READY s1)\<lparr>pm_cfs := c\<rparr>"
  have "process_signal_send 1 SIGCONT s1 = Some (0, s2)" using c(1) s1(8) by (simp add: process_signal_send_def s2_def)
  then have "pm_step s s1" "pm_step s1 s2" using s1(1) by (auto intro: pm_step.yield pm_step.signal)
  then have reach: "pm_step\<^sup>*\<^sup>* (process_init pm_boot) s2" using s(1) by (metis pm_reachable_def pm_reachable_step)
  have off: "\<not> on_rq (pm_cfs s1) 1" using pm_inv_off [OF s1(2), of 1] s1(8) by simp
  note e = cfs_enqueue_list [OF pm_inv_cfs [OF s1(2)] _ off c(2)]
  have v: "vruntime_of c = (vruntime_of (pm_cfs s1))(cfs_task_addr 1 := - 24000000)"
    using e(2) s1(4,5) s(8) by (simp add: vrun_def fun_eq_iff)
  then have v2: "vrun s2 1 = - 24000000" "vrun s2 0 = - 23892753" using s1(4) by (simp_all add: vrun_def s2_def fun_eq_iff)
  have "vruntime_of (pm_cfs s1) (cfs_task_addr 0) = - 23892753" using s1(4) by (simp add: vrun_def fun_eq_iff)
  then have "cfs_list c = [cfs_task_addr 1, cfs_task_addr 0]" using e(1) v s1(3) by (simp add: ins_sorted_def)
  then have l: "cfs_list (pm_cfs s2) = cfs_task_addr 1 # cfs_task_addr 0 # []" by (simp add: s2_def)
  have cu: "rq_curr (cs_rq (pm_cfs s2)) = Some (cfs_task_addr 1)" using cfs_enqueue_frame(2) [OF c(2)] s1(6) by (simp add: s2_def)
  have "pr_nice (pm_procs s2 1) = 0" using s1(7) s(6) by (simp add: s2_def)
  then have "vrun s2 0 < vrun s2 1 + exec_delta (cfs_nice_to_weight (pr_nice (pm_procs s2 1))) CFS_TICK_NSEC"
    using v2 exec_delta_normal by simp
  from tick_breaks_order [OF reach _ _ cu _ l this] show ?thesis using reach by (auto simp: s2_def)
qed

end
