(* ===== verification/BpfMap.thy ===== *)
theory BpfMap
  imports Interfaces
begin

text \<open>
  The maps of \<open>kernel/arch/x86_64/bpf.c\<close>: the hash map with its chains of entries, the array
  map, and their dispatch by type. A pointer to a key or a value is the function from offsets to bytes
  that it points to. A chain of entries is the list of them in the order of their links; an
  entry holds the bytes of its key followed by those of its value. A lookup
  results in the bytes that the returned pointer points to. The size of the block of an entry is a sum of 32 bits that can
  wrap; \<open>hm_overrun\<close> says that an entry was written past the end of its block. What is overwritten then is not modelled.
\<close>

section \<open>Hash maps\<close>

record bpf_hash_entry_t =
  he_hash :: u32
  he_data :: "u8 list"

record bpf_hash_data_t =
  hm_buckets :: "nat \<Rightarrow> bpf_hash_entry_t list"
  hm_n_buckets :: u32
  hm_key_size :: nat
  hm_value_size :: nat
  hm_elem_count :: u32
  hm_max_entries :: u32
  hm_overrun :: bool

definition HASH_ENTRY_KEY :: "bpf_hash_data_t \<Rightarrow> bpf_hash_entry_t \<Rightarrow> u8 list" where
  "HASH_ENTRY_KEY m e = take (hm_key_size m) (he_data e)"

definition HASH_ENTRY_VALUE :: "bpf_hash_data_t \<Rightarrow> bpf_hash_entry_t \<Rightarrow> u8 list" where
  "HASH_ENTRY_VALUE m e = take (hm_value_size m) (drop (hm_key_size m) (he_data e))"

text \<open>The number of buckets is rounded up to a power of two; the count wraps to 0 past \<open>2^32 - 1\<close>.\<close>

function round_buckets :: "u32 \<Rightarrow> u32" where
  "round_buckets n = (if n AND (n - 1) \<noteq> 0 then round_buckets (n + 1) else n)"
  by pat_completeness auto
termination
proof (relation "measure (\<lambda>n. unat (- n))")
  fix n :: u32
  assume "n AND (n - 1) \<noteq> 0"
  then have "n \<noteq> 0" by auto
  then have "unat (- (n + 1)) < unat (- n)"
    by (metis (no_types, lifting) add.commute diff_minus_eq_add minus_add_distrib neg_equal_0_iff_equal uminus_add_conv_diff
        unat_minus_one measure_unat)
  then show "(n + 1, n) \<in> measure (\<lambda>n. unat (- n))" by simp
qed auto

declare round_buckets.simps [simp del]

text \<open>The two allocations succeed or not.\<close>

definition hash_map_alloc :: "bool \<Rightarrow> bool \<Rightarrow> u32 \<Rightarrow> u32 \<Rightarrow> u32 \<Rightarrow> bpf_hash_data_t option" where
  "hash_map_alloc ok1 ok2 key_size value_size max_entries =
     (let n0 = (if max_entries = 0 then 1 else max_entries);
          n1 = round_buckets n0;
          n_buckets = (if n1 < 4 then 4 else n1)
      in if \<not> ok1 \<or> \<not> ok2 then None
         else Some \<lparr>hm_buckets = (\<lambda>_. []), hm_n_buckets = n_buckets, hm_key_size = unat key_size,
                    hm_value_size = unat value_size, hm_elem_count = 0, hm_max_entries = max_entries, hm_overrun = False\<rparr>)"

definition bpf_hash_fn :: "u8 list \<Rightarrow> u32" where
  "bpf_hash_fn key = foldl (\<lambda>h b. (h XOR ucast b) * 0x01000193) 0x811c9dc5 key"

definition key_equal :: "u8 list \<Rightarrow> u8 list \<Rightarrow> nat \<Rightarrow> bool" where
  "key_equal a b sz \<longleftrightarrow> first_index (\<lambda>i. a ! i \<noteq> b ! i) sz = None"

text \<open>The bucket of a key, and the test each search makes on the entries of its chain.\<close>

definition bucket_of :: "bpf_hash_data_t \<Rightarrow> u8 list \<Rightarrow> nat" where
  "bucket_of m key = unat (bpf_hash_fn key AND (hm_n_buckets m - 1))"

definition entry_is :: "bpf_hash_data_t \<Rightarrow> u8 list \<Rightarrow> bpf_hash_entry_t \<Rightarrow> bool" where
  "entry_is m key e \<longleftrightarrow> he_hash e = bpf_hash_fn key \<and> key_equal (HASH_ENTRY_KEY m e) key (hm_key_size m)"

definition hash_map_lookup_impl :: "bpf_hash_data_t option \<Rightarrow> mem option \<Rightarrow> u8 list option" where
  "hash_map_lookup_impl data key = (case (data, key) of (Some m, Some k) \<Rightarrow>
       let k' = bytes_at k 0 (hm_key_size m)
       in map_option (HASH_ENTRY_VALUE m) (find (entry_is m k') (hm_buckets m (bucket_of m k')))
     | _ \<Rightarrow> None)"

text \<open>The first entry of the key in a chain gets the value; \<open>None\<close> if there is none.\<close>

fun chain_set :: "bpf_hash_data_t \<Rightarrow> u8 list \<Rightarrow> u8 list \<Rightarrow> bpf_hash_entry_t list \<Rightarrow> bpf_hash_entry_t list option" where
  "chain_set m k v [] = None"
| "chain_set m k v (e # es) =
     (if entry_is m k e then Some (e\<lparr>he_data := HASH_ENTRY_KEY m e @ v @ drop (hm_key_size m + hm_value_size m) (he_data e)\<rparr> # es)
      else map_option ((#) e) (chain_set m k v es))"

text \<open>
  The header has 16 bytes, with the key and the value behind it.
\<close>

definition entry_sz :: "bpf_hash_data_t \<Rightarrow> u32" where
  "entry_sz m = of_nat (16 + hm_key_size m + hm_value_size m)"

definition entry_fits :: "bpf_hash_data_t \<Rightarrow> bool" where
  "entry_fits m \<longleftrightarrow> 16 + hm_key_size m + hm_value_size m \<le> unat (entry_sz m)"

definition hash_map_update_impl ::
  "bool \<Rightarrow> bpf_hash_data_t option \<Rightarrow> mem option \<Rightarrow> mem option \<Rightarrow> u64 \<Rightarrow> int \<times> bpf_hash_data_t option" where
  "hash_map_update_impl alloc_ok data key val flags = (case (data, key, val) of (Some m, Some k, Some v) \<Rightarrow>
       let k' = bytes_at k 0 (hm_key_size m); v' = bytes_at v 0 (hm_value_size m); idx = bucket_of m k'
       in (case chain_set m k' v' (hm_buckets m idx) of
             Some es \<Rightarrow> (0, Some (m\<lparr>hm_buckets := (hm_buckets m)(idx := es)\<rparr>))
           | None \<Rightarrow>
               if hm_max_entries m \<noteq> 0 \<and> hm_elem_count m \<ge> hm_max_entries m then (- 1, Some m)
               else if \<not> alloc_ok then (- 1, Some m)
               else (0, Some (m\<lparr>hm_buckets := (hm_buckets m)(idx :=
                          \<lparr>he_hash = bpf_hash_fn k', he_data = k' @ v'\<rparr> # hm_buckets m idx),
                        hm_elem_count := hm_elem_count m + 1, hm_overrun := hm_overrun m \<or> \<not> entry_fits m\<rparr>)))
     | _ \<Rightarrow> (- 1, data))"

fun chain_remove :: "bpf_hash_data_t \<Rightarrow> u8 list \<Rightarrow> bpf_hash_entry_t list \<Rightarrow> bpf_hash_entry_t list option" where
  "chain_remove m k [] = None"
| "chain_remove m k (e # es) = (if entry_is m k e then Some es else map_option ((#) e) (chain_remove m k es))"

definition hash_map_delete :: "bpf_hash_data_t option \<Rightarrow> mem option \<Rightarrow> int \<times> bpf_hash_data_t option" where
  "hash_map_delete data key = (case (data, key) of (Some m, Some k) \<Rightarrow>
       let k' = bytes_at k 0 (hm_key_size m); idx = bucket_of m k'
       in (case chain_remove m k' (hm_buckets m idx) of
             Some es \<Rightarrow> (0, Some (m\<lparr>hm_buckets := (hm_buckets m)(idx := es), hm_elem_count := hm_elem_count m - 1\<rparr>))
           | None \<Rightarrow> (- 1, Some m))
     | _ \<Rightarrow> (- 1, data))"

text \<open>The entry after the first one of the key in its chain.\<close>

fun chain_next :: "bpf_hash_data_t \<Rightarrow> u8 list \<Rightarrow> bpf_hash_entry_t list \<Rightarrow> bpf_hash_entry_t option" where
  "chain_next m k [] = None"
| "chain_next m k (e # es) = (if entry_is m k e then (case es of [] \<Rightarrow> None | e' # _ \<Rightarrow> Some e') else chain_next m k es)"

text \<open>The first entry of the first bucket from \<open>i\<close> on that has one.\<close>

definition first_from :: "bpf_hash_data_t \<Rightarrow> nat \<Rightarrow> bpf_hash_entry_t option" where
  "first_from m i = map_option (\<lambda>j. hd (hm_buckets m (i + j)))
     (first_index (\<lambda>j. hm_buckets m (i + j) \<noteq> []) (unat (hm_n_buckets m) - i))"

text \<open>The result is the key that is stored through \<open>next_key\<close>; \<open>None\<close> is the result -1.\<close>

definition hash_map_get_next_key :: "bpf_hash_data_t option \<Rightarrow> mem option \<Rightarrow> u8 list option" where
  "hash_map_get_next_key data key = (case data of None \<Rightarrow> None | Some m \<Rightarrow>
     map_option (HASH_ENTRY_KEY m)
       (case key of None \<Rightarrow> first_from m 0
        | Some k \<Rightarrow>
            let k' = bytes_at k 0 (hm_key_size m); idx = bucket_of m k'
            in case chain_next m k' (hm_buckets m idx) of
                 Some e \<Rightarrow> Some e
               | None \<Rightarrow> first_from m (idx + 1)))"

text \<open>What is given back to the allocator, in this order.\<close>

datatype bpf_block = EntryBlock bpf_hash_entry_t | BucketsBlock | HashBlock | ArrayBlock | ArrayDataBlock | MapBlock

definition hash_map_free :: "bpf_hash_data_t option \<Rightarrow> bpf_block list" where
  "hash_map_free data = (case data of None \<Rightarrow> []
     | Some m \<Rightarrow> map EntryBlock (concat (table (hm_buckets m) (unat (hm_n_buckets m)))) @ [BucketsBlock, HashBlock])"

section \<open>Array maps\<close>

text \<open>
  The data of an array map is the memory from its first element on; the array itself ends after
  \<open>max_entries\<close> elements, a number that the map does not keep. The index is read from the first
  four bytes of the key.
\<close>

record bpf_array_data_t =
  am_data :: mem
  am_elem_size :: nat

definition array_map_alloc :: "bool \<Rightarrow> bool \<Rightarrow> u32 \<Rightarrow> u32 \<Rightarrow> u32 \<Rightarrow> bpf_array_data_t option" where
  "array_map_alloc ok1 ok2 key_size value_size max_entries =
     (if ok1 \<and> ok2 then Some \<lparr>am_data = (\<lambda>_. 0), am_elem_size = unat value_size\<rparr> else None)"

definition array_index :: "mem \<Rightarrow> u32" where
  "array_index key = ucast (le_word (bytes_at key 0 4))"

definition array_map_lookup :: "bpf_array_data_t option \<Rightarrow> mem option \<Rightarrow> u8 list option" where
  "array_map_lookup data key = (case (data, key) of
       (Some a, Some k) \<Rightarrow> Some (bytes_at (am_data a) (unat (array_index k) * am_elem_size a) (am_elem_size a))
     | _ \<Rightarrow> None)"

definition array_map_update ::
  "bpf_array_data_t option \<Rightarrow> mem option \<Rightarrow> mem option \<Rightarrow> u64 \<Rightarrow> int \<times> bpf_array_data_t option" where
  "array_map_update data key val flags = (case (data, key, val) of
       (Some a, Some k, Some v) \<Rightarrow>
         (0, Some (a\<lparr>am_data := copy_obj (am_data a) (unat (array_index k) * am_elem_size a) v 0 (am_elem_size a)\<rparr>))
     | _ \<Rightarrow> (- 1, data))"

definition array_map_delete :: "bpf_array_data_t option \<Rightarrow> mem option \<Rightarrow> int \<times> bpf_array_data_t option" where
  "array_map_delete data key = (case (data, key) of
       (Some a, Some k) \<Rightarrow>
         (0, Some (a\<lparr>am_data := copy_obj (am_data a) (unat (array_index k) * am_elem_size a) (\<lambda>_. 0) 0 (am_elem_size a)\<rparr>))
     | _ \<Rightarrow> (- 1, data))"

definition array_map_get_next_key :: "bpf_array_data_t option \<Rightarrow> mem option \<Rightarrow> u8 list option" where
  "array_map_get_next_key data key = (case data of None \<Rightarrow> None | Some a \<Rightarrow>
     Some (le_bytes 4 (case key of None \<Rightarrow> 0 | Some k \<Rightarrow> ucast (array_index k + 1))))"

definition array_map_free :: "bpf_array_data_t option \<Rightarrow> bpf_block list" where
  "array_map_free data = (case data of None \<Rightarrow> [] | Some _ \<Rightarrow> [ArrayDataBlock, ArrayBlock])"

section \<open>Maps\<close>

text \<open>A map and its data are made together, so that the constructor of the data stands for the calls through \<open>ops\<close>.\<close>

datatype bpf_map_ops = bpf_hash_map_ops | bpf_array_map_ops | bpf_lru_hash_map_ops

datatype bpf_map_data = HashData bpf_hash_data_t | ArrayData bpf_array_data_t

record bpf_map_t =
  bm_map_type :: u32
  bm_key_size :: u32
  bm_value_size :: u32
  bm_max_entries :: u32
  bm_map_flags :: u32
  bm_id :: u32
  bm_ops :: bpf_map_ops
  bm_data :: bpf_map_data

definition get_map_ops :: "u32 \<Rightarrow> bpf_map_ops option" where
  "get_map_ops map_type =
     (if map_type \<in> {1, 5} then Some bpf_hash_map_ops
      else if map_type \<in> {2, 6, 3, 8} then Some bpf_array_map_ops
      else if map_type \<in> {11, 12} then Some bpf_lru_hash_map_ops
      else None)"

text \<open>The counter \<open>bpf_map_next_id\<close> is passed on; the three allocations succeed or not.\<close>

definition bpf_map_create ::
  "bool \<Rightarrow> bool \<Rightarrow> bool \<Rightarrow> u32 \<Rightarrow> u32 \<Rightarrow> u32 \<Rightarrow> u32 \<Rightarrow> u32 \<Rightarrow> bpf_map_t option \<times> u32" where
  "bpf_map_create ok ok1 ok2 map_type key_size value_size max_entries next_id =
     (case get_map_ops map_type of
        None \<Rightarrow> (None, next_id)
      | Some ops \<Rightarrow>
          if \<not> ok then (None, next_id)
          else case (if ops = bpf_array_map_ops
                     then map_option ArrayData (array_map_alloc ok1 ok2 key_size value_size max_entries)
                     else map_option HashData (hash_map_alloc ok1 ok2 key_size value_size max_entries)) of
                 None \<Rightarrow> (None, next_id)
               | Some d \<Rightarrow>
                   (Some \<lparr>bm_map_type = map_type, bm_key_size = key_size, bm_value_size = value_size,
                      bm_max_entries = max_entries, bm_map_flags = 0, bm_id = next_id, bm_ops = ops, bm_data = d\<rparr>,
                    next_id + 1))"

definition bpf_map_lookup_elem :: "bpf_map_t option \<Rightarrow> mem option \<Rightarrow> u8 list option" where
  "bpf_map_lookup_elem m key = (case (m, key) of
       (Some b, Some _) \<Rightarrow> (case bm_data b of
            HashData h \<Rightarrow> hash_map_lookup_impl (Some h) key
          | ArrayData a \<Rightarrow> array_map_lookup (Some a) key)
     | _ \<Rightarrow> None)"

definition bpf_map_update_elem ::
  "bool \<Rightarrow> bpf_map_t option \<Rightarrow> mem option \<Rightarrow> mem option \<Rightarrow> u64 \<Rightarrow> int \<times> bpf_map_t option" where
  "bpf_map_update_elem alloc_ok m key val flags = (case (m, key, val) of
       (Some b, Some _, Some _) \<Rightarrow> (case bm_data b of
            HashData h \<Rightarrow> (case hash_map_update_impl alloc_ok (Some h) key val flags of
               (r, h') \<Rightarrow> (r, map_option (\<lambda>h'. b\<lparr>bm_data := HashData h'\<rparr>) h'))
          | ArrayData a \<Rightarrow> (case array_map_update (Some a) key val flags of
               (r, a') \<Rightarrow> (r, map_option (\<lambda>a'. b\<lparr>bm_data := ArrayData a'\<rparr>) a')))
     | _ \<Rightarrow> (- 1, m))"

definition bpf_map_delete_elem :: "bpf_map_t option \<Rightarrow> mem option \<Rightarrow> int \<times> bpf_map_t option" where
  "bpf_map_delete_elem m key = (case (m, key) of
       (Some b, Some _) \<Rightarrow> (case bm_data b of
            HashData h \<Rightarrow> (case hash_map_delete (Some h) key of
               (r, h') \<Rightarrow> (r, map_option (\<lambda>h'. b\<lparr>bm_data := HashData h'\<rparr>) h'))
          | ArrayData a \<Rightarrow> (case array_map_delete (Some a) key of
               (r, a') \<Rightarrow> (r, map_option (\<lambda>a'. b\<lparr>bm_data := ArrayData a'\<rparr>) a')))
     | _ \<Rightarrow> (- 1, m))"

definition bpf_map_get_next_key :: "bpf_map_t option \<Rightarrow> mem option \<Rightarrow> u8 list option" where
  "bpf_map_get_next_key m key = (case m of None \<Rightarrow> None | Some b \<Rightarrow>
     (case bm_data b of
        HashData h \<Rightarrow> hash_map_get_next_key (Some h) key
      | ArrayData a \<Rightarrow> array_map_get_next_key (Some a) key))"

definition bpf_map_destroy :: "bpf_map_t option \<Rightarrow> bpf_block list" where
  "bpf_map_destroy m = (case m of None \<Rightarrow> []
     | Some b \<Rightarrow> (case bm_data b of HashData h \<Rightarrow> hash_map_free (Some h) | ArrayData a \<Rightarrow> array_map_free (Some a)) @ [MapBlock])"

end
