(* ===== verification/BpfMapProps.thy ===== *)
theory BpfMapProps
  imports BpfMap
begin

text \<open>
  The hash map of \<open>bpf.c\<close>: its chains, its invariant, what it contains, and each operation's effect on that.
\<close>

section \<open>Chains\<close>

lemma key_equal_iff: "length a = sz \<Longrightarrow> length b = sz \<Longrightarrow> key_equal a b sz \<longleftrightarrow> a = b"
  by (auto simp: key_equal_def first_index_None intro: nth_equalityI)

definition entry_ok :: "bpf_hash_data_t \<Rightarrow> bpf_hash_entry_t \<Rightarrow> bool" where
  "entry_ok m e \<longleftrightarrow> he_hash e = bpf_hash_fn (HASH_ENTRY_KEY m e) \<and> length (he_data e) = hm_key_size m + hm_value_size m"

definition chain_map :: "bpf_hash_data_t \<Rightarrow> bpf_hash_entry_t list \<Rightarrow> (u8 list \<times> u8 list) list" where
  "chain_map m es = map (\<lambda>e. (HASH_ENTRY_KEY m e, HASH_ENTRY_VALUE m e)) es"

lemma chain_map_simps [simp]: "chain_map m [] = []"
  "chain_map m (e # es) = (HASH_ENTRY_KEY m e, HASH_ENTRY_VALUE m e) # chain_map m es"
  "chain_map m (es @ es') = chain_map m es @ chain_map m es'"
  "length (chain_map m es) = length es"
  by (simp_all add: chain_map_def)

lemma keys_chain_map: "map fst (chain_map m es) = map (HASH_ENTRY_KEY m) es"
  by (simp add: chain_map_def)

lemma entry_is_iff: "entry_ok m e \<Longrightarrow> length k = hm_key_size m \<Longrightarrow> entry_is m k e \<longleftrightarrow> HASH_ENTRY_KEY m e = k"
  by (auto simp: entry_ok_def entry_is_def key_equal_iff HASH_ENTRY_KEY_def)

lemma chain_find:
  "\<forall>e\<in>set es. entry_ok m e \<Longrightarrow> length k = hm_key_size m \<Longrightarrow>
     map_option (HASH_ENTRY_VALUE m) (find (entry_is m k) es) = map_of (chain_map m es) k"
  by (induction es) (auto simp: entry_is_iff)

lemma chain_set_None:
  "\<forall>e\<in>set es. entry_ok m e \<Longrightarrow> length k = hm_key_size m \<Longrightarrow>
     chain_set m k v es = None \<longleftrightarrow> k \<notin> HASH_ENTRY_KEY m ` set es"
  by (induction es) (auto simp: entry_is_iff)

lemma chain_set_Some:
  assumes "\<forall>e\<in>set es. entry_ok m e" and "length k = hm_key_size m" and "length v = hm_value_size m"
    and "chain_set m k v es = Some es'"
  shows "map_of (chain_map m es') = (map_of (chain_map m es))(k \<mapsto> v) \<and>
    map (HASH_ENTRY_KEY m) es' = map (HASH_ENTRY_KEY m) es \<and> (\<forall>e\<in>set es'. entry_ok m e)"
  using assms
proof (induction es arbitrary: es')
  case (Cons e es)
  have e: "entry_ok m e" using Cons.prems by simp
  show ?case
  proof (cases "HASH_ENTRY_KEY m e = k")
    case True
    then have "es' = e\<lparr>he_data := k @ v @ drop (hm_key_size m + hm_value_size m) (he_data e)\<rparr> # es"
      using Cons.prems entry_is_iff [OF e] by auto
    then show ?thesis using Cons.prems e True by (auto simp: entry_ok_def HASH_ENTRY_KEY_def HASH_ENTRY_VALUE_def)
  next
    case False
    then obtain es1 where es1: "chain_set m k v es = Some es1" "es' = e # es1"
      using Cons.prems entry_is_iff [OF e] by auto
    with Cons.IH [OF _ _ _ es1(1)] Cons.prems False show ?thesis by auto
  qed
qed simp

lemma chain_remove_None:
  "\<forall>e\<in>set es. entry_ok m e \<Longrightarrow> length k = hm_key_size m \<Longrightarrow>
     chain_remove m k es = None \<longleftrightarrow> k \<notin> HASH_ENTRY_KEY m ` set es"
  by (induction es) (auto simp: entry_is_iff)

lemma chain_remove_Some:
  assumes "\<forall>e\<in>set es. entry_ok m e" and "length k = hm_key_size m" and "distinct (map (HASH_ENTRY_KEY m) es)"
    and "chain_remove m k es = Some es'"
  shows "map_of (chain_map m es') = (map_of (chain_map m es))(k := None) \<and> length es = Suc (length es') \<and>
    set es' \<subseteq> set es \<and> distinct (map (HASH_ENTRY_KEY m) es')"
  using assms
proof (induction es arbitrary: es')
  case (Cons e es)
  have e: "entry_ok m e" using Cons.prems by simp
  show ?case
  proof (cases "HASH_ENTRY_KEY m e = k")
    case True
    then have "es' = es" using Cons.prems entry_is_iff [OF e] by auto
    moreover have "map_of (chain_map m es) k = None"
      using Cons.prems(3) True by (auto simp: map_of_eq_None_iff chain_map_def)
    ultimately show ?thesis using Cons.prems True by auto
  next
    case False
    then obtain es1 where es1: "chain_remove m k es = Some es1" "es' = e # es1"
      using Cons.prems entry_is_iff [OF e] by auto
    with Cons.IH [OF _ _ _ es1(1)] Cons.prems False show ?thesis by auto
  qed
qed simp

section \<open>The invariant of a hash map\<close>

lemma hm_frame [simp]:
  "HASH_ENTRY_KEY (m\<lparr>hm_buckets := b\<rparr>) = HASH_ENTRY_KEY m" "HASH_ENTRY_KEY (m\<lparr>hm_elem_count := n\<rparr>) = HASH_ENTRY_KEY m"
  "HASH_ENTRY_VALUE (m\<lparr>hm_buckets := b\<rparr>) = HASH_ENTRY_VALUE m"
  "HASH_ENTRY_VALUE (m\<lparr>hm_elem_count := n\<rparr>) = HASH_ENTRY_VALUE m"
  "bucket_of (m\<lparr>hm_buckets := b\<rparr>) = bucket_of m" "bucket_of (m\<lparr>hm_elem_count := n\<rparr>) = bucket_of m"
  "entry_ok (m\<lparr>hm_buckets := b\<rparr>) = entry_ok m" "entry_ok (m\<lparr>hm_elem_count := n\<rparr>) = entry_ok m"
  "chain_map (m\<lparr>hm_buckets := b\<rparr>) = chain_map m" "chain_map (m\<lparr>hm_elem_count := n\<rparr>) = chain_map m"
  by (auto simp: fun_eq_iff HASH_ENTRY_KEY_def HASH_ENTRY_VALUE_def bucket_of_def entry_ok_def chain_map_def)

definition hm_entries :: "bpf_hash_data_t \<Rightarrow> bpf_hash_entry_t list" where
  "hm_entries m = concat (table (hm_buckets m) (unat (hm_n_buckets m)))"

definition bucket_ok :: "bpf_hash_data_t \<Rightarrow> nat \<Rightarrow> bpf_hash_entry_t list \<Rightarrow> bool" where
  "bucket_ok m i es \<longleftrightarrow> (\<forall>e\<in>set es. entry_ok m e \<and> bucket_of m (HASH_ENTRY_KEY m e) = i) \<and> distinct (map (HASH_ENTRY_KEY m) es)"

text \<open>
  Every entry is in the bucket of its key, no key is stored twice, and the counter is the
  number of entries, which is at most the capacity when there is one.
\<close>

definition hm_inv :: "bpf_hash_data_t \<Rightarrow> bool" where
  "hm_inv m \<longleftrightarrow> hm_n_buckets m \<noteq> 0 \<and> (\<forall>i<unat (hm_n_buckets m). bucket_ok m i (hm_buckets m i)) \<and>
     hm_elem_count m = of_nat (length (hm_entries m)) \<and>
     (hm_max_entries m \<noteq> 0 \<longrightarrow> length (hm_entries m) \<le> unat (hm_max_entries m))"

text \<open>What the map contains.\<close>

definition hm_abs :: "bpf_hash_data_t \<Rightarrow> u8 list \<Rightarrow> u8 list option" where
  "hm_abs m k = (if length k = hm_key_size m then map_of (chain_map m (hm_buckets m (bucket_of m k))) k else None)"

lemma bucket_of_less: "hm_n_buckets m \<noteq> 0 \<Longrightarrow> bucket_of m k < unat (hm_n_buckets m)"
proof -
  assume n: "hm_n_buckets m \<noteq> 0"
  then have "unat (hm_n_buckets m) \<noteq> 0" by (simp add: unat_eq_zero)
  moreover have "bucket_of m k \<le> unat (hm_n_buckets m - 1)"
    unfolding bucket_of_def by (simp add: word_le_nat_alt [symmetric] word_and_le1)
  ultimately show ?thesis using unat_minus_one [OF n] by simp
qed

lemma length_key: "entry_ok m e \<Longrightarrow> length (HASH_ENTRY_KEY m e) = hm_key_size m"
  by (simp add: entry_ok_def HASH_ENTRY_KEY_def)

lemma concat_table_upd:
  "i < n \<Longrightarrow> length (concat (table (b(i := es)) n)) + length (b i) = length (concat (table b n)) + length es"
  by (induction n) (auto simp: table_Suc less_Suc_eq)

lemma distinct_keys_table:
  assumes "\<forall>i<n. bucket_ok m i (b i)"
  shows "distinct (map (HASH_ENTRY_KEY m) (concat (table b n))) \<and>
    (\<forall>e\<in>set (concat (table b n)). entry_ok m e \<and> bucket_of m (HASH_ENTRY_KEY m e) < n)"
  using assms
proof (induction n)
  case (Suc n)
  define E where "E = concat (table b n)"
  from Suc have n: "bucket_ok m n (b n)"
    and IH: "distinct (map (HASH_ENTRY_KEY m) E)" "\<And>e. e \<in> set E \<Longrightarrow> entry_ok m e \<and> bucket_of m (HASH_ENTRY_KEY m e) < n"
    by (auto simp: E_def)
  have "HASH_ENTRY_KEY m e \<noteq> HASH_ENTRY_KEY m e'" if "e \<in> set E" "e' \<in> set (b n)" for e e'
    using IH(2) [OF that(1)] n that(2) by (auto simp: bucket_ok_def)
  then have "HASH_ENTRY_KEY m ` set E \<inter> HASH_ENTRY_KEY m ` set (b n) = {}" by blast
  moreover have "concat (table b (Suc n)) = E @ b n" by (simp add: E_def table_Suc)
  ultimately show ?case using IH n by (auto simp: bucket_ok_def dest: less_SucI)
qed simp

lemma hm_entriesE:
  assumes "hm_inv m"
  shows "distinct (map (HASH_ENTRY_KEY m) (hm_entries m))" and "e \<in> set (hm_entries m) \<Longrightarrow> entry_ok m e"
    and "e \<in> set (hm_entries m) \<Longrightarrow> e \<in> set (hm_buckets m (bucket_of m (HASH_ENTRY_KEY m e)))"
proof -
  have b: "\<forall>i<unat (hm_n_buckets m). bucket_ok m i (hm_buckets m i)" using assms by (simp add: hm_inv_def)
  from distinct_keys_table [OF b]
  show "distinct (map (HASH_ENTRY_KEY m) (hm_entries m))" "e \<in> set (hm_entries m) \<Longrightarrow> entry_ok m e"
    by (auto simp: hm_entries_def)
  show "e \<in> set (hm_entries m) \<Longrightarrow> e \<in> set (hm_buckets m (bucket_of m (HASH_ENTRY_KEY m e)))"
    using b by (auto simp: hm_entries_def in_set_table bucket_ok_def)
qed

lemma hm_bucket_entries: "hm_inv m \<Longrightarrow> set (hm_buckets m (bucket_of m k)) \<subseteq> set (hm_entries m)"
proof -
  assume "hm_inv m"
  then have "bucket_of m k < unat (hm_n_buckets m)" by (simp add: hm_inv_def bucket_of_less)
  then have "hm_buckets m (bucket_of m k) \<in> set (table (hm_buckets m) (unat (hm_n_buckets m)))" by (auto simp: in_set_table)
  then show ?thesis by (auto simp: hm_entries_def)
qed

lemma dom_hm_abs:
  assumes "hm_inv m"
  shows "dom (hm_abs m) = HASH_ENTRY_KEY m ` set (hm_entries m)"
proof (intro set_eqI iffI)
  fix k assume "k \<in> dom (hm_abs m)"
  then obtain v where "map_of (chain_map m (hm_buckets m (bucket_of m k))) k = Some v"
    by (auto simp: hm_abs_def split: if_splits)
  then have "k \<in> HASH_ENTRY_KEY m ` set (hm_buckets m (bucket_of m k))"
    by (auto dest!: map_of_SomeD simp: chain_map_def)
  then show "k \<in> HASH_ENTRY_KEY m ` set (hm_entries m)" using hm_bucket_entries [OF assms] by blast
next
  fix k assume "k \<in> HASH_ENTRY_KEY m ` set (hm_entries m)"
  then obtain e where e: "e \<in> set (hm_entries m)" "k = HASH_ENTRY_KEY m e" by blast
  note e' = hm_entriesE(2,3) [OF assms e(1)]
  then have "k \<in> fst ` set (chain_map m (hm_buckets m (bucket_of m k)))" using e by (force simp: chain_map_def)
  then have "map_of (chain_map m (hm_buckets m (bucket_of m k))) k \<noteq> None" by (simp add: map_of_eq_None_iff)
  then show "k \<in> dom (hm_abs m)" using length_key [OF e'(1)] e(2) by (auto simp: hm_abs_def)
qed

lemma card_hm_abs:
  assumes "hm_inv m"
  shows "card (dom (hm_abs m)) = length (hm_entries m)"
  using dom_hm_abs [OF assms] distinct_card [OF hm_entriesE(1) [OF assms]] by simp

lemma hm_bucketE:
  assumes "hm_inv m" and "length k = hm_key_size m"
  shows "bucket_ok m (bucket_of m k) (hm_buckets m (bucket_of m k))"
    and "\<forall>e\<in>set (hm_buckets m (bucket_of m k)). entry_ok m e"
  using assms bucket_of_less [of m k] by (auto simp: hm_inv_def bucket_ok_def)

section \<open>Operations\<close>

lemma hash_lookup:
  assumes "hm_inv m"
  shows "hash_map_lookup_impl (Some m) (Some k) = hm_abs m (bytes_at k 0 (hm_key_size m))"
  using chain_find [OF hm_bucketE(2) [OF assms], of "bytes_at k 0 (hm_key_size m)" "bytes_at k 0 (hm_key_size m)"]
  by (simp add: hash_map_lookup_impl_def Let_def hm_abs_def)

lemma concat_table_Nil [simp]: "concat (table (\<lambda>_. []) n) = []"
  by (induction n) (auto simp: table_Suc)

lemma hash_alloc:
  assumes "hash_map_alloc True True ks vs mx = Some m"
  shows "hm_inv m \<and> hm_abs m = Map.empty \<and> hm_key_size m = unat ks \<and> hm_value_size m = unat vs \<and> hm_max_entries m = mx \<and>
    \<not> hm_overrun m"
proof -
  let ?n = "let n = round_buckets (if mx = 0 then 1 else mx) in if n < 4 then 4 else n"
  have "?n \<noteq> 0" by (auto simp: Let_def)
  moreover have "m = \<lparr>hm_buckets = (\<lambda>_. []), hm_n_buckets = ?n, hm_key_size = unat ks,
      hm_value_size = unat vs, hm_elem_count = 0, hm_max_entries = mx, hm_overrun = False\<rparr>"
    using assms by (simp add: hash_map_alloc_def Let_def)
  ultimately show ?thesis
    by (simp add: hm_inv_def bucket_ok_def hm_entries_def hm_abs_def fun_eq_iff del: Let_def)
qed

text \<open>Replacing one bucket.\<close>

lemma hm_replace:
  assumes i: "hm_inv m" and k: "length k = hm_key_size m" and ok: "bucket_ok m (bucket_of m k) es"
    and other: "\<And>k'. k' \<noteq> k \<Longrightarrow> map_of (chain_map m es) k' = map_of (chain_map m (hm_buckets m (bucket_of m k))) k'"
    and len: "length (hm_entries m) + length es = length (hm_buckets m (bucket_of m k)) + n"
    and n: "hm_max_entries m \<noteq> 0 \<longrightarrow> n \<le> unat (hm_max_entries m)"
  shows "hm_inv (m\<lparr>hm_buckets := (hm_buckets m)(bucket_of m k := es), hm_elem_count := of_nat n\<rparr>)"
    and "hm_abs (m\<lparr>hm_buckets := (hm_buckets m)(bucket_of m k := es), hm_elem_count := of_nat n\<rparr>) =
      (hm_abs m)(k := map_of (chain_map m es) k)"
proof -
  let ?m = "m\<lparr>hm_buckets := (hm_buckets m)(bucket_of m k := es), hm_elem_count := of_nat n\<rparr>"
  have b: "bucket_of m k < unat (hm_n_buckets m)" using i by (simp add: hm_inv_def bucket_of_less)
  have "length (hm_entries ?m) = n"
    using concat_table_upd [OF b, of "hm_buckets m" es] len by (simp add: hm_entries_def)
  moreover have "bucket_ok ?m = bucket_ok m" by (simp add: bucket_ok_def fun_eq_iff)
  ultimately show "hm_inv ?m" using i ok n by (simp add: hm_inv_def)
  have "hm_abs ?m k' = ((hm_abs m)(k := map_of (chain_map m es) k)) k'" for k'
    using k other by (cases "k' = k") (auto simp: hm_abs_def)
  then show "hm_abs ?m = (hm_abs m)(k := map_of (chain_map m es) k)" by (rule ext)
qed

lemma hm_sizes [simp]:
  "hm_key_size (m\<lparr>hm_buckets := b\<rparr>) = hm_key_size m" "hm_key_size (m\<lparr>hm_elem_count := n\<rparr>) = hm_key_size m"
  by simp_all

lemma hm_count_le:
  "hm_inv m \<Longrightarrow> hm_max_entries m \<noteq> 0 \<Longrightarrow> unat (hm_elem_count m) = length (hm_entries m)"
proof -
  assume a: "hm_inv m" "hm_max_entries m \<noteq> 0"
  then have "length (hm_entries m) \<le> unat (hm_max_entries m)" by (simp add: hm_inv_def)
  also have "\<dots> < 2 ^ 32" using unsigned_less [of "hm_max_entries m"] by simp
  finally show ?thesis using a(1) by (simp add: hm_inv_def unat_of_nat)
qed

text \<open>The contract: an update of a new key needs memory and a free entry.\<close>

definition may_add :: "bool \<Rightarrow> bpf_hash_data_t \<Rightarrow> bool" where
  "may_add ok m \<longleftrightarrow> ok \<and> (hm_max_entries m = 0 \<or> length (hm_entries m) < unat (hm_max_entries m))"

lemma bucket_dom:
  assumes "hm_inv m" and "length k = hm_key_size m"
  shows "k \<in> HASH_ENTRY_KEY m ` set (hm_buckets m (bucket_of m k)) \<longleftrightarrow> hm_abs m k \<noteq> None"
  using assms(2) by (auto simp: hm_abs_def map_of_eq_None_iff chain_map_def image_image)

text \<open>The flag has no part in the contents.\<close>

lemma overrun_frame [simp]: "hm_inv (m\<lparr>hm_overrun := b\<rparr>) = hm_inv m" "hm_abs (m\<lparr>hm_overrun := b\<rparr>) = hm_abs m"
proof -
  have k: "HASH_ENTRY_KEY (m\<lparr>hm_overrun := b\<rparr>) = HASH_ENTRY_KEY m" "HASH_ENTRY_VALUE (m\<lparr>hm_overrun := b\<rparr>) = HASH_ENTRY_VALUE m"
    "bucket_of (m\<lparr>hm_overrun := b\<rparr>) = bucket_of m" "hm_entries (m\<lparr>hm_overrun := b\<rparr>) = hm_entries m"
    by (simp_all add: fun_eq_iff HASH_ENTRY_KEY_def HASH_ENTRY_VALUE_def bucket_of_def hm_entries_def)
  show "hm_inv (m\<lparr>hm_overrun := b\<rparr>) = hm_inv m" by (simp add: hm_inv_def bucket_ok_def entry_ok_def k)
  show "hm_abs (m\<lparr>hm_overrun := b\<rparr>) = hm_abs m" by (simp add: fun_eq_iff hm_abs_def chain_map_def k)
qed

definition same_shape :: "bpf_hash_data_t \<Rightarrow> bpf_hash_data_t \<Rightarrow> bool" where
  "same_shape m m' \<longleftrightarrow> hm_key_size m' = hm_key_size m \<and> hm_value_size m' = hm_value_size m \<and> hm_max_entries m' = hm_max_entries m \<and>
     (entry_fits m \<longrightarrow> hm_overrun m' = hm_overrun m)"

lemma hash_update:
  assumes i: "hm_inv m" and K: "K = bytes_at k 0 (hm_key_size m)" and V: "V = bytes_at v 0 (hm_value_size m)"
  shows "if hm_abs m K \<noteq> None \<or> may_add ok m
    then \<exists>m'. hash_map_update_impl ok (Some m) (Some k) (Some v) flags = (0, Some m') \<and> hm_inv m' \<and>
      hm_abs m' = (hm_abs m)(K \<mapsto> V) \<and> same_shape m m'
    else hash_map_update_impl ok (Some m) (Some k) (Some v) flags = (- 1, Some m)"
proof -
  let ?es = "hm_buckets m (bucket_of m K)"
  have l: "length K = hm_key_size m" "length V = hm_value_size m" by (simp_all add: K V)
  note b = hm_bucketE [OF i l(1)]
  have impl: "hash_map_update_impl ok (Some m) (Some k) (Some v) flags =
     (case chain_set m K V ?es of
        Some es \<Rightarrow> (0, Some (m\<lparr>hm_buckets := (hm_buckets m)(bucket_of m K := es)\<rparr>))
      | None \<Rightarrow> if hm_max_entries m \<noteq> 0 \<and> hm_elem_count m \<ge> hm_max_entries m then (- 1, Some m)
          else if \<not> ok then (- 1, Some m)
          else (0, Some (m\<lparr>hm_buckets := (hm_buckets m)(bucket_of m K :=
                 \<lparr>he_hash = bpf_hash_fn K, he_data = K @ V\<rparr> # ?es), hm_elem_count := hm_elem_count m + 1,
                 hm_overrun := hm_overrun m \<or> \<not> entry_fits m\<rparr>)))"
    by (simp add: hash_map_update_impl_def Let_def K [symmetric] V [symmetric])
  show ?thesis
  proof (cases "chain_set m K V ?es")
    case (Some es)
    note c = chain_set_Some [OF b(2) l Some]
    have dom: "hm_abs m K \<noteq> None"
      using Some chain_set_None [OF b(2) l(1), of V] bucket_dom [OF i l(1)] by auto
    have keys: "set (map (HASH_ENTRY_KEY m) es) = set (map (HASH_ENTRY_KEY m) ?es)" using c by metis
    have ok: "bucket_ok m (bucket_of m K) es"
      using b(1) c keys unfolding bucket_ok_def by (metis (no_types, lifting) image_iff list.set_map)
    have len: "length es = length ?es" using c by (metis length_map)
    let ?n = "length (hm_entries m)"
    have e: "m\<lparr>hm_buckets := X\<rparr> = m\<lparr>hm_buckets := X, hm_elem_count := of_nat ?n\<rparr>" for X
      using i by (cases m) (simp add: hm_inv_def)
    have n: "hm_max_entries m \<noteq> 0 \<longrightarrow> ?n \<le> unat (hm_max_entries m)" using i by (simp add: hm_inv_def)
    note r = hm_replace [OF i l(1) ok _ _ n]
    have "hash_map_update_impl ok (Some m) (Some k) (Some v) flags =
        (0, Some (m\<lparr>hm_buckets := (hm_buckets m)(bucket_of m K := es), hm_elem_count := of_nat ?n\<rparr>))"
      unfolding impl Some option.case by (subst e) (rule refl)
    with r c dom len show ?thesis by (simp add: same_shape_def)
  next
    case None
    have dom: "hm_abs m K = None"
      using None chain_set_None [OF b(2) l(1), of V] bucket_dom [OF i l(1)] by auto
    let ?e = "\<lparr>he_hash = bpf_hash_fn K, he_data = K @ V\<rparr>"
    let ?n = "Suc (length (hm_entries m))"
    have e: "HASH_ENTRY_KEY m ?e = K" "HASH_ENTRY_VALUE m ?e = V" "entry_ok m ?e"
      using l by (simp_all add: HASH_ENTRY_KEY_def HASH_ENTRY_VALUE_def entry_ok_def)
    have "K \<notin> HASH_ENTRY_KEY m ` set ?es" using dom bucket_dom [OF i l(1)] by simp
    then have ok: "bucket_ok m (bucket_of m K) (?e # ?es)" using b(1) e by (simp add: bucket_ok_def)
    have full: "hm_max_entries m \<noteq> 0 \<and> hm_elem_count m \<ge> hm_max_entries m \<longleftrightarrow>
        \<not> (hm_max_entries m = 0 \<or> length (hm_entries m) < unat (hm_max_entries m))"
      using hm_count_le [OF i] by (auto simp: word_le_nat_alt)
    have add: "hm_elem_count m + 1 = of_nat ?n" using i by (simp add: hm_inv_def)
    show ?thesis
    proof (cases "may_add ok m")
      case True
      then have n: "hm_max_entries m \<noteq> 0 \<longrightarrow> ?n \<le> unat (hm_max_entries m)" by (auto simp: may_add_def)
      note r = hm_replace [OF i l(1) ok _ _ n]
      have "\<not> (hm_max_entries m \<noteq> 0 \<and> hm_elem_count m \<ge> hm_max_entries m)" "ok"
        using True unfolding full may_add_def by auto
      then have "hash_map_update_impl ok (Some m) (Some k) (Some v) flags =
          (0, Some (m\<lparr>hm_buckets := (hm_buckets m)(bucket_of m K := ?e # ?es), hm_elem_count := of_nat ?n,
             hm_overrun := hm_overrun m \<or> \<not> entry_fits m\<rparr>))"
        unfolding impl None add by (simp only: option.case if_False if_True not_True_eq_False)
      with r True e show ?thesis by (simp add: same_shape_def)
    next
      case False
      then have "hash_map_update_impl ok (Some m) (Some k) (Some v) flags = (- 1, Some m)"
        unfolding impl None full by (auto simp: may_add_def)
      with False dom show ?thesis by simp
    qed
  qed
qed

lemma hash_delete:
  assumes i: "hm_inv m" and K: "K = bytes_at k 0 (hm_key_size m)"
  shows "if hm_abs m K \<noteq> None
    then \<exists>m'. hash_map_delete (Some m) (Some k) = (0, Some m') \<and> hm_inv m' \<and> hm_abs m' = (hm_abs m)(K := None) \<and> same_shape m m'
    else hash_map_delete (Some m) (Some k) = (- 1, Some m)"
proof -
  let ?es = "hm_buckets m (bucket_of m K)"
  have l: "length K = hm_key_size m" by (simp add: K)
  note b = hm_bucketE [OF i l]
  have impl: "hash_map_delete (Some m) (Some k) = (case chain_remove m K ?es of
       Some es \<Rightarrow> (0, Some (m\<lparr>hm_buckets := (hm_buckets m)(bucket_of m K := es), hm_elem_count := hm_elem_count m - 1\<rparr>))
     | None \<Rightarrow> (- 1, Some m))"
    by (simp add: hash_map_delete_def Let_def K [symmetric])
  show ?thesis
  proof (cases "chain_remove m K ?es")
    case (Some es)
    have d: "distinct (map (HASH_ENTRY_KEY m) ?es)" using b(1) by (simp add: bucket_ok_def)
    note c = chain_remove_Some [OF b(2) l d Some]
    have dom: "hm_abs m K \<noteq> None"
      using Some chain_remove_None [OF b(2) l] bucket_dom [OF i l] by auto
    have ok: "bucket_ok m (bucket_of m K) es" using b(1) c by (auto simp: bucket_ok_def)
    let ?n = "length (hm_entries m) - 1"
    have "HASH_ENTRY_KEY m ` set (hm_entries m) \<noteq> {}" using dom dom_hm_abs [OF i] by auto
    then have pos: "0 < length (hm_entries m)" by auto
    then have sub: "hm_elem_count m - 1 = of_nat ?n"
      using i by (cases "length (hm_entries m)") (simp_all add: hm_inv_def)
    have n: "hm_max_entries m \<noteq> 0 \<longrightarrow> ?n \<le> unat (hm_max_entries m)" using i by (auto simp: hm_inv_def)
    have len: "length (hm_entries m) + length es = length ?es + ?n" using c pos by simp
    note r = hm_replace [OF i l ok _ len n]
    show ?thesis using r c dom Some by (simp add: impl sub same_shape_def)
  next
    case None
    then show ?thesis using chain_remove_None [OF b(2) l] bucket_dom [OF i l] by (simp add: impl)
  qed
qed

end
