(* ===== verification/BpfMapRuns.thy ===== *)
theory BpfMapRuns
  imports BpfMapProps
begin

text \<open>
  Runs of calls on the maps of \<open>bpf.c\<close>: the hash map against its contract of a finite map with a capacity, the
  iteration over its keys, and the array map.
\<close>

section \<open>Iteration\<close>

lemma find_map_option: "find P (map f xs) = map_option f (find (\<lambda>x. P (f x)) xs)"
  by (induction xs) auto

lemma first_index_front:
  "first_index P (Suc n) = (if P 0 then Some 0 else map_option Suc (first_index (\<lambda>j. P (Suc j)) n))"
proof -
  have "[0..<Suc n] = 0 # map Suc [0..<n]" by (metis upt_conv_Cons zero_less_Suc map_Suc_upt)
  then show ?thesis by (simp add: first_index_def find_map_option del: upt_Suc)
qed

definition buckets_from :: "bpf_hash_data_t \<Rightarrow> nat \<Rightarrow> bpf_hash_entry_t list" where
  "buckets_from m i = concat (map (hm_buckets m) [i..<unat (hm_n_buckets m)])"

lemma buckets_from_Suc: "i < unat (hm_n_buckets m) \<Longrightarrow> buckets_from m i = hm_buckets m i @ buckets_from m (Suc i)"
  by (simp add: buckets_from_def upt_conv_Cons)

lemma buckets_from_end: "\<not> i < unat (hm_n_buckets m) \<Longrightarrow> buckets_from m i = []"
  by (simp add: buckets_from_def)

lemma first_from_eq: "first_from m i = (case buckets_from m i of [] \<Rightarrow> None | e # _ \<Rightarrow> Some e)"
proof (induction "unat (hm_n_buckets m) - i" arbitrary: i)
  case 0
  then show ?case by (simp add: first_from_def buckets_from_end)
next
  case (Suc d)
  then have d: "unat (hm_n_buckets m) - Suc i = d" "i < unat (hm_n_buckets m)" by auto
  have "first_from m i = (if hm_buckets m i \<noteq> [] then Some (hd (hm_buckets m i)) else first_from m (Suc i))"
    unfolding first_from_def Suc(2) [symmetric] first_index_front d(1) by (simp add: option.map_comp comp_def)
  with Suc(1) [of "Suc i"] d show ?case by (cases "hm_buckets m i") (simp_all add: buckets_from_Suc)
qed

lemma buckets_from_Cons:
  "buckets_from m i = e # zs \<Longrightarrow>
     \<exists>j ys. j < unat (hm_n_buckets m) \<and> hm_buckets m j = e # ys \<and> zs = ys @ buckets_from m (Suc j)"
proof (induction "unat (hm_n_buckets m) - i" arbitrary: i)
  case 0
  then have "buckets_from m i = []" by (simp add: buckets_from_end)
  with 0(2) show ?case by simp
next
  case (Suc d)
  then have d: "d = unat (hm_n_buckets m) - Suc i" "i < unat (hm_n_buckets m)" by auto
  show ?case
  proof (cases "hm_buckets m i")
    case Nil
    then have "buckets_from m (Suc i) = e # zs" using Suc(3) d by (simp add: buckets_from_Suc)
    from Suc(1) [OF d(1) this] show ?thesis .
  next
    case (Cons a ys)
    then have "a = e" "zs = ys @ buckets_from m (Suc i)" using Suc(3) d by (simp_all add: buckets_from_Suc)
    with Cons d(2) show ?thesis by blast
  qed
qed

lemma chain_next_split:
  assumes "\<forall>e\<in>set (xs @ e # ys). entry_ok m e" and "distinct (map (HASH_ENTRY_KEY m) (xs @ e # ys))"
  shows "chain_next m (HASH_ENTRY_KEY m e) (xs @ e # ys) = (case ys of [] \<Rightarrow> None | y # _ \<Rightarrow> Some y)"
  using assms
proof (induction xs)
  case Nil
  then show ?case using entry_is_iff [of m e] length_key [of m e] by (auto split: list.split)
next
  case (Cons x xs)
  then show ?case using entry_is_iff [of m x "HASH_ENTRY_KEY m e"] length_key [of m e] by auto
qed

lemma next_key_first: "hash_map_get_next_key (Some m) None = map_option (HASH_ENTRY_KEY m) (first_from m 0)"
  by (simp add: hash_map_get_next_key_def)

lemma bytes_at_key: "length K = n \<Longrightarrow> bytes_at (mem_of_list K) 0 n = K"
  by auto

lemma next_key_after:
  assumes i: "hm_inv m" and j: "j < unat (hm_n_buckets m)" and b: "hm_buckets m j = xs @ e # ys"
  shows "hash_map_get_next_key (Some m) (Some (mem_of_list (HASH_ENTRY_KEY m e))) =
    map_option (HASH_ENTRY_KEY m) (case ys @ buckets_from m (Suc j) of [] \<Rightarrow> None | e # _ \<Rightarrow> Some e)"
proof -
  let ?K = "HASH_ENTRY_KEY m e"
  have ok: "bucket_ok m j (hm_buckets m j)" using i j by (simp add: hm_inv_def)
  then have e: "entry_ok m e" "bucket_of m ?K = j" and all: "\<forall>e\<in>set (xs @ e # ys). entry_ok m e"
    and d: "distinct (map (HASH_ENTRY_KEY m) (xs @ e # ys))"
    unfolding b bucket_ok_def by auto
  have K: "bytes_at (mem_of_list ?K) 0 (hm_key_size m) = ?K" using length_key [OF e(1)] by (rule bytes_at_key)
  have "hash_map_get_next_key (Some m) (Some (mem_of_list ?K)) =
      map_option (HASH_ENTRY_KEY m) (case chain_next m ?K (hm_buckets m j) of Some e \<Rightarrow> Some e | None \<Rightarrow> first_from m (j + 1))"
    unfolding hash_map_get_next_key_def option.case Let_def K e(2) ..
  then show ?thesis unfolding b chain_next_split [OF all d] first_from_eq by (cases ys) simp_all
qed

text \<open>The client's loop: ask for the key after the last one until there is none, at most \<open>n\<close> times.\<close>

fun key_walk :: "nat \<Rightarrow> bpf_map_t \<Rightarrow> mem option \<Rightarrow> u8 list list" where
  "key_walk 0 b k = []"
| "key_walk (Suc n) b k = (case bpf_map_get_next_key (Some b) k of
     None \<Rightarrow> []
   | Some k' \<Rightarrow> k' # key_walk n b (Some (mem_of_list k')))"

lemma key_walk_after:
  assumes "bm_data b = HashData m" and "hm_inv m" and "j < unat (hm_n_buckets m)" and "hm_buckets m j = xs @ e # ys"
    and "length (ys @ buckets_from m (Suc j)) \<le> n"
  shows "key_walk n b (Some (mem_of_list (HASH_ENTRY_KEY m e))) = map (HASH_ENTRY_KEY m) (ys @ buckets_from m (Suc j))"
  using assms(3-)
proof (induction n arbitrary: j xs e ys)
  case 0
  then show ?case by simp
next
  case (Suc n)
  have nx: "bpf_map_get_next_key (Some b) (Some (mem_of_list (HASH_ENTRY_KEY m e))) =
      map_option (HASH_ENTRY_KEY m) (case ys @ buckets_from m (Suc j) of [] \<Rightarrow> None | e # _ \<Rightarrow> Some e)"
    unfolding bpf_map_get_next_key_def option.case assms(1) bpf_map_data.case by (rule next_key_after [OF assms(2) Suc(2,3)])
  show ?case
  proof (cases ys)
    case (Cons y ys')
    then have "hm_buckets m j = (xs @ [e]) @ y # ys'" using Suc(3) by simp
    from Suc(1) [OF Suc(2) this] Suc(4) Cons show ?thesis by (simp add: nx)
  next
    case Nil
    show ?thesis
    proof (cases "buckets_from m (Suc j)")
      case Nil
      then show ?thesis using \<open>ys = []\<close> by (simp add: nx)
    next
      case (Cons e' zs)
      then obtain j' ys' where j': "j' < unat (hm_n_buckets m)" "hm_buckets m j' = [] @ e' # ys'" "zs = ys' @ buckets_from m (Suc j')"
        using buckets_from_Cons by (metis append_Nil)
      from Suc(1) [OF j'(1,2)] Suc(4) Cons \<open>ys = []\<close> j'(3) show ?thesis by (simp add: nx)
    qed
  qed
qed

lemma hm_entries_from: "hm_entries m = buckets_from m 0"
  by (simp add: hm_entries_def buckets_from_def table_def)

lemma key_walk_all:
  assumes "bm_data b = HashData m" and "hm_inv m" and "length (hm_entries m) \<le> n"
  shows "key_walk n b None = map (HASH_ENTRY_KEY m) (hm_entries m)"
proof (cases n)
  case 0
  then show ?thesis using assms(3) by simp
next
  case (Suc n')
  have nx: "bpf_map_get_next_key (Some b) None =
      map_option (HASH_ENTRY_KEY m) (case hm_entries m of [] \<Rightarrow> None | e # _ \<Rightarrow> Some e)"
    by (simp add: bpf_map_get_next_key_def assms(1) next_key_first first_from_eq hm_entries_from)
  show ?thesis
  proof (cases "hm_entries m")
    case Nil
    then show ?thesis by (simp add: Suc nx)
  next
    case (Cons e zs)
    then obtain j ys where j: "j < unat (hm_n_buckets m)" "hm_buckets m j = [] @ e # ys" "zs = ys @ buckets_from m (Suc j)"
      using buckets_from_Cons hm_entries_from by (metis append_Nil)
    from key_walk_after [OF assms(1,2) j(1,2), of n'] assms(3) Cons j(3) Suc show ?thesis by (simp add: nx)
  qed
qed

section \<open>Calls and their contract\<close>

datatype map_call = MapLookup mem | MapUpdate bool mem mem u64 | MapDelete mem

datatype map_result = Bytes "u8 list option" | Code int

fun call_map :: "map_call \<Rightarrow> bpf_map_t \<Rightarrow> map_result \<times> bpf_map_t" where
  "call_map (MapLookup k) b = (Bytes (bpf_map_lookup_elem (Some b) (Some k)), b)"
| "call_map (MapUpdate ok k v fl) b =
     (case bpf_map_update_elem ok (Some b) (Some k) (Some v) fl of (r, b') \<Rightarrow> (Code r, case b' of None \<Rightarrow> b | Some b' \<Rightarrow> b'))"
| "call_map (MapDelete k) b =
     (case bpf_map_delete_elem (Some b) (Some k) of (r, b') \<Rightarrow> (Code r, case b' of None \<Rightarrow> b | Some b' \<Rightarrow> b'))"

text \<open>A finite map from keys to values with a capacity, 0 for none. The flags have no effect.\<close>

fun spec_call :: "nat \<Rightarrow> nat \<Rightarrow> nat \<Rightarrow> map_call \<Rightarrow> (u8 list \<rightharpoonup> u8 list) \<Rightarrow> map_result \<times> (u8 list \<rightharpoonup> u8 list)" where
  "spec_call ks vs cap (MapLookup k) M = (Bytes (M (bytes_at k 0 ks)), M)"
| "spec_call ks vs cap (MapUpdate ok k v fl) M =
     (if M (bytes_at k 0 ks) \<noteq> None \<or> ok \<and> (cap = 0 \<or> card (dom M) < cap)
      then (Code 0, M(bytes_at k 0 ks \<mapsto> bytes_at v 0 vs)) else (Code (- 1), M))"
| "spec_call ks vs cap (MapDelete k) M =
     (if M (bytes_at k 0 ks) \<noteq> None then (Code 0, M(bytes_at k 0 ks := None)) else (Code (- 1), M))"

definition hash_sim :: "nat \<Rightarrow> nat \<Rightarrow> nat \<Rightarrow> bpf_map_t \<Rightarrow> (u8 list \<rightharpoonup> u8 list) \<Rightarrow> bool" where
  "hash_sim ks vs cap b M \<longleftrightarrow> (\<exists>m. bm_data b = HashData m \<and> hm_inv m \<and> hm_abs m = M \<and>
     hm_key_size m = ks \<and> hm_value_size m = vs \<and> unat (hm_max_entries m) = cap \<and> (16 + ks + vs < 2 ^ 32 \<longrightarrow> \<not> hm_overrun m))"

lemma hash_sim_call:
  assumes "hash_sim ks vs cap b M"
  shows "fst (call_map c b) = fst (spec_call ks vs cap c M) \<and>
    hash_sim ks vs cap (snd (call_map c b)) (snd (spec_call ks vs cap c M))"
proof -
  obtain m where m: "bm_data b = HashData m" "hm_inv m" "hm_abs m = M" "hm_key_size m = ks" "hm_value_size m = vs"
    "unat (hm_max_entries m) = cap" "16 + ks + vs < 2 ^ 32 \<Longrightarrow> \<not> hm_overrun m" using assms by (auto simp: hash_sim_def)
  have fits: "entry_fits m" if "16 + ks + vs < 2 ^ 32"
    using that m(4,5) unfolding entry_fits_def entry_sz_def by (simp only: unat_of_nat take_bit_nat_eq_self) simp
  have sim: "hash_sim ks vs cap (b\<lparr>bm_data := HashData m'\<rparr>) (hm_abs m')" if "hm_inv m'" "same_shape m m'" for m'
    using that m fits by (auto simp: hash_sim_def same_shape_def)
  have self: "b\<lparr>bm_data := HashData m\<rparr> = b" using m(1) by (cases b) simp
  show ?thesis
  proof (cases c)
    case (MapLookup k)
    then show ?thesis using assms hash_lookup [OF m(2), of k] m by (simp add: bpf_map_lookup_elem_def)
  next
    case (MapUpdate ok k v fl)
    have add: "may_add ok m \<longleftrightarrow> ok \<and> (cap = 0 \<or> card (dom M) < cap)"
      using card_hm_abs [OF m(2)] m(3,6) by (auto simp: may_add_def unat_eq_zero)
    show ?thesis
    proof (cases "M (bytes_at k 0 ks) \<noteq> None \<or> may_add ok m")
      case True
      then obtain m' where m': "hash_map_update_impl ok (Some m) (Some k) (Some v) fl = (0, Some m')" "hm_inv m'"
          "hm_abs m' = M(bytes_at k 0 ks \<mapsto> bytes_at v 0 vs)" "same_shape m m'"
        using hash_update [OF m(2) refl refl, of k ok v fl] m by auto
      have "call_map c b = (Code 0, b\<lparr>bm_data := HashData m'\<rparr>)" using m(1) m'(1) MapUpdate by (simp add: bpf_map_update_elem_def)
      moreover have "spec_call ks vs cap c M = (Code 0, hm_abs m')" using True MapUpdate m'(3) add by auto
      ultimately show ?thesis using sim [OF m'(2,4)] by simp
    next
      case False
      then have "hash_map_update_impl ok (Some m) (Some k) (Some v) fl = (- 1, Some m)"
        using hash_update [OF m(2) refl refl, of k ok v fl] m by auto
      then have "call_map c b = (Code (- 1), b)" using m(1) MapUpdate self by (simp add: bpf_map_update_elem_def)
      moreover have "spec_call ks vs cap c M = (Code (- 1), M)" using False MapUpdate add by auto
      ultimately show ?thesis using assms by simp
    qed
  next
    case (MapDelete k)
    show ?thesis
    proof (cases "M (bytes_at k 0 ks) = None")
      case False
      then obtain m' where m': "hash_map_delete (Some m) (Some k) = (0, Some m')" "hm_inv m'"
          "hm_abs m' = M(bytes_at k 0 ks := None)" "same_shape m m'"
        using hash_delete [OF m(2) refl, of k] m by auto
      have "call_map c b = (Code 0, b\<lparr>bm_data := HashData m'\<rparr>)" using m(1) m'(1) MapDelete by (simp add: bpf_map_delete_elem_def)
      moreover have "spec_call ks vs cap c M = (Code 0, hm_abs m')" using False MapDelete m'(3) by auto
      ultimately show ?thesis using sim [OF m'(2,4)] by simp
    next
      case True
      then have "hash_map_delete (Some m) (Some k) = (- 1, Some m)"
        using hash_delete [OF m(2) refl, of k] m by auto
      then have "call_map c b = (Code (- 1), b)" using m(1) MapDelete self by (simp add: bpf_map_delete_elem_def)
      moreover have "spec_call ks vs cap c M = (Code (- 1), M)" using True MapDelete by auto
      ultimately show ?thesis using assms by simp
    qed
  qed
qed

interpretation hash_map: simulation call_map "spec_call ks vs cap" "hash_sim ks vs cap" for ks vs cap
  by unfold_locales (rule hash_sim_call)

lemma hash_sim_create:
  assumes "bpf_map_create True True True ty ks vs mx i = (Some b, j)" and "ty \<in> {1, 5, 11, 12}"
  shows "hash_sim (unat ks) (unat vs) (unat mx) b Map.empty"
proof -
  obtain ops where ops: "get_map_ops ty = Some ops" "ops \<noteq> bpf_array_map_ops" using assms(2) by (auto simp: get_map_ops_def)
  then obtain m where m: "hash_map_alloc True True ks vs mx = Some m" "bm_data b = HashData m"
    using assms(1) by (auto simp: bpf_map_create_def split: option.splits)
  from hash_alloc [OF m(1)] m(2) show ?thesis by (auto simp: hash_sim_def)
qed

text \<open>
  C5. A hash map is a finite map with a capacity: whatever lookups, updates and deletions are made on a new
  map of one of the hash types, every one results in what it results in on a map from byte strings
  of the key size to byte strings of the value size, in which an update of a new key fails exactly when memory is
  missing or \<open>max_entries\<close> (when not 0) keys are stored, and a deletion when there is no such key. No entry is written past
  the end of its block, provided that the sizes of header, key and value add up to less than \<open>2^32\<close>: the code adds them in 32
  bits and does not look at the sum, so that with larger sizes the block is too small.
\<close>

theorem hash_map_refines_finite_map:
  assumes "bpf_map_create True True True ty ks vs mx i = (Some b, j)" and "ty \<in> {1, 5, 11, 12}"
    and "16 + unat ks + unat vs < 2 ^ 32"
  shows "fst (run_calls call_map cs b) = fst (run_calls (spec_call (unat ks) (unat vs) (unat mx)) cs Map.empty) \<and>
    (\<exists>m. bm_data (snd (run_calls call_map cs b)) = HashData m \<and> \<not> hm_overrun m)"
  using hash_map.sim_calls [OF hash_sim_create [OF assms(1,2)], of cs] assms(3) by (auto simp: hash_sim_def)

theorem hash_map_refines_finite_map_witness:
  "let b = the (fst (bpf_map_create True True True 11 1 1 2 7)) in
     fst (run_calls call_map [MapUpdate True (\<lambda>_. 1) (\<lambda>_. 7) 0, MapLookup (\<lambda>_. 1), MapUpdate True (\<lambda>_. 2) (\<lambda>_. 9) 0,
       MapUpdate True (\<lambda>_. 3) (\<lambda>_. 9) 0, MapUpdate True (\<lambda>_. 1) (\<lambda>_. 8) 0, MapDelete (\<lambda>_. 2), MapDelete (\<lambda>_. 2),
       MapLookup (\<lambda>_. 1)] b) =
     [Code 0, Bytes (Some [7]), Code 0, Code (- 1), Code 0, Code 0, Code (- 1), Bytes (Some [8])]"
proof -
  have c: "bpf_map_create True True True 11 1 1 2 7 = (Some (the (fst (bpf_map_create True True True 11 1 1 2 7))), 8)"
    by (simp add: bpf_map_create_def get_map_ops_def hash_map_alloc_def Let_def)
  have "11 \<in> {1, 5, 11, 12 :: u32}" "16 + unat (1 :: u32) + unat (1 :: u32) < 2 ^ 32" by simp_all
  note r = conjunct1 [OF hash_map_refines_finite_map [OF c this]]
  show ?thesis unfolding Let_def r by (simp add: bytes_at_def)
qed

text \<open>
  The iteration over a hash map with \<open>bpf_map_get_next_key\<close> ends, and visits every key in the map exactly once: after
  any calls on a new map, the keys met from \<open>NULL\<close> on, each asked for with the one before, are
  all different and are those the contract's map has, as soon as the loop may make as many rounds as there are keys.
\<close>

theorem hash_map_iteration_complete:
  assumes "bpf_map_create True True True ty ks vs mx i = (Some b, j)" and "ty \<in> {1, 5, 11, 12}"
    and "run_calls (spec_call (unat ks) (unat vs) (unat mx)) cs Map.empty = (rs, M)" and "card (dom M) \<le> n"
  shows "distinct (key_walk n (snd (run_calls call_map cs b)) None) \<and>
    set (key_walk n (snd (run_calls call_map cs b)) None) = dom M"
proof -
  obtain m where m: "bm_data (snd (run_calls call_map cs b)) = HashData m" "hm_inv m" "hm_abs m = M"
    using hash_map.sim_calls [OF hash_sim_create [OF assms(1,2)], of cs] assms(3) by (auto simp: hash_sim_def)
  have "length (hm_entries m) \<le> n" using card_hm_abs [OF m(2)] m(3) assms(4) by simp
  from key_walk_all [OF m(1,2) this] hm_entriesE(1) [OF m(2)] dom_hm_abs [OF m(2)] m(3) show ?thesis by simp
qed

theorem hash_map_iteration_complete_witness:
  "let b = the (fst (bpf_map_create True True True 1 1 1 2 7));
       b' = snd (run_calls call_map [MapUpdate True (\<lambda>_. 1) (\<lambda>_. 7) 0, MapUpdate True (\<lambda>_. 2) (\<lambda>_. 9) 0] b)
   in distinct (key_walk 5 b' None) \<and> set (key_walk 5 b' None) = {[1], [2]}"
proof -
  have c: "bpf_map_create True True True 1 1 1 2 7 = (Some (the (fst (bpf_map_create True True True 1 1 1 2 7))), 8)"
    by (simp add: bpf_map_create_def get_map_ops_def hash_map_alloc_def Let_def)
  have r: "run_calls (spec_call (unat (1 :: u32)) (unat (1 :: u32)) (unat (2 :: u32)))
      [MapUpdate True (\<lambda>_. 1) (\<lambda>_. 7) 0, MapUpdate True (\<lambda>_. 2) (\<lambda>_. 9) 0] Map.empty =
      ([Code 0, Code 0], [[1] \<mapsto> [7], [2] \<mapsto> [9]])"
    by (simp add: bytes_at_def)
  from hash_map_iteration_complete [OF c _ r, of 5] show ?thesis by (simp add: Let_def insert_commute)
qed

text \<open>Sizes that add up to more: the first update of a new map writes past the end of the block.\<close>

theorem hash_map_large_sizes_overrun:
  assumes "bpf_map_create True True True ty ks vs mx i = (Some b, j)" and "ty \<in> {1, 5, 11, 12}"
    and "2 ^ 32 \<le> 16 + unat ks + unat vs"
  shows "\<exists>b' m. bpf_map_update_elem True (Some b) (Some k) (Some v) fl = (0, Some b') \<and> bm_data b' = HashData m \<and> hm_overrun m"
proof -
  obtain ops where ops: "get_map_ops ty = Some ops" "ops \<noteq> bpf_array_map_ops" using assms(2) by (auto simp: get_map_ops_def)
  then obtain m where m: "hash_map_alloc True True ks vs mx = Some m" "bm_data b = HashData m"
    using assms(1) by (auto simp: bpf_map_create_def split: option.splits)
  have a: "hm_key_size m = unat ks" "hm_value_size m = unat vs" "hm_buckets m = (\<lambda>_. [])" "hm_elem_count m = 0"
    using m(1) by (auto simp: hash_map_alloc_def Let_def)
  have "unat (entry_sz m) < 2 ^ 32" using unsigned_less [where ?'b = 32, of "entry_sz m"] by simp
  then have "\<not> entry_fits m" using assms(3) a(1,2) unfolding entry_fits_def by simp
  then show ?thesis using m(2) a(3,4)
    by (auto simp: bpf_map_update_elem_def hash_map_update_impl_def Let_def word_le_nat_alt unat_eq_zero)
qed

section \<open>The maps as stores\<close>

definition hash_look :: "u8 list \<Rightarrow> bpf_hash_data_t \<Rightarrow> u8 list option" where
  "hash_look k m = hash_map_lookup_impl (Some m) (Some (mem_of_list k))"

definition hash_put :: "u8 list \<Rightarrow> u8 list \<Rightarrow> bpf_hash_data_t \<Rightarrow> bpf_hash_data_t option" where
  "hash_put k v m = (case hash_map_update_impl True (Some m) (Some (mem_of_list k)) (Some (mem_of_list v)) 0 of
     (r, m') \<Rightarrow> if r = 0 then m' else None)"

definition hash_del :: "u8 list \<Rightarrow> bpf_hash_data_t \<Rightarrow> bpf_hash_data_t option" where
  "hash_del k m = (case hash_map_delete (Some m) (Some (mem_of_list k)) of (r, m') \<Rightarrow> if r = 0 then m' else None)"

lemma hash_look_abs: "hm_inv m \<Longrightarrow> length k = hm_key_size m \<Longrightarrow> hash_look k m = hm_abs m k"
  using bytes_at_key [of k "hm_key_size m"] by (simp add: hash_look_def hash_lookup)

interpretation hm: map_store_del "\<lambda>m. hm_inv m \<and> hm_key_size m = ks \<and> hm_value_size m = vs" "\<lambda>k. length k = ks"
  "\<lambda>v. length v = vs" hash_look hash_put hash_del for ks vs
proof (unfold_locales, goal_cases)
  case (1 m k v m')
  then have K: "k = bytes_at (mem_of_list k) 0 (hm_key_size m)" "v = bytes_at (mem_of_list v) 0 (hm_value_size m)" by auto
  from hash_update [OF _ K, of True 0] 1 have "hm_inv m'" "hm_abs m' = (hm_abs m)(k \<mapsto> v)" "same_shape m m'"
    by (auto simp: hash_put_def split: if_splits)
  with 1 show ?case by (auto simp: hash_look_abs same_shape_def)
next
  case (2 m k m')
  then have K: "k = bytes_at (mem_of_list k) 0 (hm_key_size m)" by auto
  from hash_delete [OF _ K] 2 have "hm_inv m'" "hm_abs m' = (hm_abs m)(k := None)" "same_shape m m'"
    by (auto simp: hash_del_def split: if_splits)
  with 2 show ?case by (auto simp: hash_look_abs same_shape_def)
next
  case (3 m k)
  then have K: "k = bytes_at (mem_of_list k) 0 (hm_key_size m)" by auto
  from hash_delete [OF _ K] 3 show ?case by (auto simp: hash_del_def hash_look_abs split: if_splits)
qed

lemma hash_sim_look:
  assumes "hash_sim ks vs cap b M" and "bm_data b = HashData m"
  shows "bpf_map_lookup_elem (Some b) (Some k) = hash_look (bytes_at k 0 ks) m"
  using assms by (auto simp: hash_sim_def bpf_map_lookup_elem_def hash_lookup hash_look_abs)

text \<open>
  Inserting a key that is not there and deleting it again leaves a hash map as it was: every
  lookup finds what it found before, whatever calls were made on the map since its creation.
\<close>

theorem hash_map_insert_delete:
  assumes "bpf_map_create True True True ty ks vs mx i = (Some b, j)" and "ty \<in> {1, 5, 11, 12}"
    and "snd (run_calls call_map cs b) = b1" and "bpf_map_lookup_elem (Some b1) (Some k) = None"
    and "bpf_map_update_elem True (Some b1) (Some k) (Some v) 0 = (0, Some b2)"
  shows "\<exists>b3. bpf_map_delete_elem (Some b2) (Some k) = (0, Some b3) \<and>
    (\<forall>k'. bpf_map_lookup_elem (Some b3) (Some k') = bpf_map_lookup_elem (Some b1) (Some k'))"
proof -
  let ?K = "\<lambda>k. bytes_at k 0 (unat ks)" and ?V = "bytes_at v 0 (unat vs)"
  have flat [simp]: "bytes_at (mem_of_list (bytes_at x 0 n)) 0 n = bytes_at x 0 n" for x :: mem and n
    by (rule bytes_at_key) simp
  obtain M where sim: "hash_sim (unat ks) (unat vs) (unat mx) b1 M"
    using hash_map.sim_calls [OF hash_sim_create [OF assms(1,2)], of cs] assms(3) by blast
  then obtain m where m: "bm_data b1 = HashData m" "hm_inv m" "hm_key_size m = unat ks" "hm_value_size m = unat vs"
    by (auto simp: hash_sim_def)
  note sim2 = hash_sim_call [OF sim, of "MapUpdate True k v 0"]
  have new: "hash_look (?K k) m = None" using assms(4) hash_sim_look [OF sim m(1)] by simp
  obtain m2 where m2: "b2 = b1\<lparr>bm_data := HashData m2\<rparr>" "hash_put (?K k) ?V m = Some m2"
    using assms(5) m by (auto simp: bpf_map_update_elem_def hash_put_def hash_map_update_impl_def Let_def split: prod.splits)
  from hm.put_del [OF _ _ _ new m2(2), of "unat ks" "unat vs"] m(2-4) obtain m3 where
    m3: "hash_del (?K k) m2 = Some m3" "hm_inv m3" "hm_key_size m3 = unat ks" "hm_value_size m3 = unat vs"
      "\<forall>k'. length k' = unat ks \<longrightarrow> hash_look k' m3 = hash_look k' m"
    by auto
  from hm.put_law [OF _ _ _ m2(2), of "unat ks" "unat vs"] m(2-4) have s2: "hm_key_size m2 = unat ks" by auto
  have "bpf_map_delete_elem (Some b2) (Some k) = (0, Some (b1\<lparr>bm_data := HashData m3\<rparr>))"
    using m3(1) s2 by (auto simp: m2(1) bpf_map_delete_elem_def hash_del_def hash_map_delete_def Let_def split: prod.splits option.splits if_splits)
  moreover have "bpf_map_lookup_elem (Some (b1\<lparr>bm_data := HashData m3\<rparr>)) (Some k') = bpf_map_lookup_elem (Some b1) (Some k')" for k'
    using m3(2-5) m by (auto simp: bpf_map_lookup_elem_def hash_lookup hash_look_abs)
  ultimately show ?thesis by blast
qed

theorem hash_map_insert_delete_witness:
  "let b = the (fst (bpf_map_create True True True 1 1 1 2 7)) in
   \<exists>b2 b3. bpf_map_update_elem True (Some b) (Some (\<lambda>_. 1)) (Some (\<lambda>_. 9)) 0 = (0, Some b2) \<and>
     bpf_map_delete_elem (Some b2) (Some (\<lambda>_. 1)) = (0, Some b3) \<and>
     (\<forall>k'. bpf_map_lookup_elem (Some b3) (Some k') = bpf_map_lookup_elem (Some b) (Some k'))"
proof -
  let ?b = "the (fst (bpf_map_create True True True 1 1 1 2 7))"
  have c: "bpf_map_create True True True 1 1 1 2 7 = (Some ?b, 8)"
    by (simp add: bpf_map_create_def get_map_ops_def hash_map_alloc_def Let_def)
  have l: "bpf_map_lookup_elem (Some ?b) (Some (\<lambda>_. 1)) = None"
    by (simp add: bpf_map_create_def get_map_ops_def hash_map_alloc_def Let_def bpf_map_lookup_elem_def hash_map_lookup_impl_def)
  have "\<exists>b2. bpf_map_update_elem True (Some ?b) (Some (\<lambda>_. 1)) (Some (\<lambda>_. 9)) 0 = (0, Some b2)"
    by (simp add: bpf_map_create_def get_map_ops_def hash_map_alloc_def Let_def bpf_map_update_elem_def hash_map_update_impl_def)
  then obtain b2 where u: "bpf_map_update_elem True (Some ?b) (Some (\<lambda>_. 1)) (Some (\<lambda>_. 9)) 0 = (0, Some b2)" ..
  have "\<exists>b3. bpf_map_delete_elem (Some b2) (Some (\<lambda>_. 1)) = (0, Some b3) \<and>
     (\<forall>k'. bpf_map_lookup_elem (Some b3) (Some k') = bpf_map_lookup_elem (Some ?b) (Some k'))"
    by (rule hash_map_insert_delete [OF c _ _ l u, of "[]"]) simp_all
  with u show ?thesis unfolding Let_def by blast
qed

section \<open>Array maps\<close>

definition array_key :: "u32 \<Rightarrow> mem" where
  "array_key i = mem_of_list (le_bytes 4 (ucast i))"

definition array_look :: "u32 \<Rightarrow> bpf_array_data_t \<Rightarrow> u8 list option" where
  "array_look i a = array_map_lookup (Some a) (Some (array_key i))"

definition array_put :: "u32 \<Rightarrow> u8 list \<Rightarrow> bpf_array_data_t \<Rightarrow> bpf_array_data_t option" where
  "array_put i v a = snd (array_map_update (Some a) (Some (array_key i)) (Some (mem_of_list v)) 0)"

lemma array_index_key [simp]: "array_index (array_key i) = i"
proof -
  have "array_index (array_key i) = ucast (take_bit 32 (ucast i :: u64))"
    using bytes_at_key [of "le_bytes 4 (ucast i)" 4] by (simp add: array_index_def array_key_def)
  also have "\<dots> = i" by (rule bit_eqI) (auto simp: bit_simps)
  finally show ?thesis .
qed

text \<open>Two elements do not overlap.\<close>

lemma array_other:
  assumes "i \<noteq> j"
  shows "bytes_at (copy_obj d (i * n) v 0 n) (j * n) n = bytes_at d (j * n) (n :: nat)"
proof (rule bytes_at_cong)
  fix x assume x: "x < n"
  from assms consider "i < j" | "j < i" by linarith
  then have "i * n + n \<le> j * n + x \<or> j * n + x < i * n"
  proof cases
    case 1
    then have "Suc i * n \<le> j * n" by (intro mult_right_mono) auto
    then show ?thesis by simp
  next
    case 2
    then have "Suc j * n \<le> i * n" by (intro mult_right_mono) auto
    then show ?thesis using x by simp
  qed
  then show "copy_obj d (i * n) v 0 n (j * n + x) = d (j * n + x)" by (auto intro: copy_obj_out)
qed

interpretation am: map_store "\<lambda>a. am_elem_size a = vs" "\<lambda>_. True" "\<lambda>v. length v = vs" array_look array_put for vs
proof (unfold_locales, goal_cases)
  case (1 a i v a')
  then have "a' = a\<lparr>am_data := copy_obj (am_data a) (unat i * vs) (mem_of_list v) 0 vs\<rparr>"
    by (auto simp: array_put_def array_map_update_def)
  moreover have "bytes_at (mem_of_list v) 0 vs = v" using 1 by (intro bytes_at_key) simp
  moreover have "unat i \<noteq> unat x" if "x \<noteq> i" for x using that by (simp add: word_unat_eq_iff)
  ultimately show ?case using 1 array_other [of "unat i" _ "am_data a" vs "mem_of_list v"]
    by (auto simp: array_look_def array_map_lookup_def)
qed

lemma array_create:
  assumes "bpf_map_create True True True ty ks vs mx i = (Some b, j)" and "ty \<in> {2, 3, 6, 8}"
  shows "bm_data b = ArrayData \<lparr>am_data = (\<lambda>_. 0), am_elem_size = unat vs\<rparr>"
  using assms by (auto simp: bpf_map_create_def get_map_ops_def array_map_alloc_def)

lemma array_calls:
  assumes "bm_data b = ArrayData a"
  shows "\<exists>a'. am.puts kvs a = Some a' \<and>
    run_calls call_map (map (\<lambda>(i, v). MapUpdate ok (array_key i) (mem_of_list v) 0) kvs) b =
      (replicate (length kvs) (Code 0), b\<lparr>bm_data := ArrayData a'\<rparr>)"
  using assms
proof (induction kvs arbitrary: a b)
  case Nil
  then show ?case by (cases b) simp
next
  case (Cons kv kvs)
  obtain i v where kv: "kv = (i, v)" by (cases kv)
  obtain a1 where a1: "array_map_update (Some a) (Some (array_key i)) (Some (mem_of_list v)) 0 = (0, Some a1)"
    by (simp add: array_map_update_def)
  then have p: "array_put i v a = Some a1" by (simp add: array_put_def)
  have "bm_data (b\<lparr>bm_data := ArrayData a1\<rparr>) = ArrayData a1" by simp
  from Cons.IH [OF this] Cons.prems a1 p show ?case by (auto simp: kv bpf_map_update_elem_def)
qed

text \<open>
  Below its capacity an array map is an array of values that are all zero bytes at first: after updates of elements,
  which all succeed, each element has the value it was given last.
\<close>

theorem array_map_is_array:
  assumes "bpf_map_create True True True ty ks vs mx i = (Some b, j)" and "ty \<in> {2, 3, 6, 8}"
    and "\<forall>(x, v)\<in>set kvs. x < mx \<and> length v = unat vs" and "x < mx"
    and "run_calls call_map (map (\<lambda>(x, v). MapUpdate ok (array_key x) (mem_of_list v) 0) kvs) b = (rs, b')"
  shows "rs = replicate (length kvs) (Code 0) \<and> bpf_map_lookup_elem (Some b') (Some (array_key x)) =
    Some (case map_of (rev kvs) x of None \<Rightarrow> replicate (unat vs) 0 | Some v \<Rightarrow> v)"
proof -
  let ?a = "\<lparr>am_data = (\<lambda>_. 0), am_elem_size = unat vs\<rparr>"
  from array_calls [OF array_create [OF assms(1,2)], of kvs ok] assms(5) obtain a' where
    a': "am.puts kvs ?a = Some a'" "rs = replicate (length kvs) (Code 0)" "b' = b\<lparr>bm_data := ArrayData a'\<rparr>" by auto
  have "array_look x a' = (case map_of (rev kvs) x of None \<Rightarrow> array_look x ?a | Some v \<Rightarrow> Some v)"
    using am.puts_look [of ?a "unat vs" kvs a' x] a'(1) assms(3) by auto
  moreover have "array_look x ?a = Some (replicate (unat vs) 0)"
    by (simp add: array_look_def array_map_lookup_def bytes_at_def map_replicate_const)
  ultimately show ?thesis using a'(2,3)
    by (simp add: bpf_map_lookup_elem_def array_look_def split: option.splits)
qed

theorem array_map_is_array_witness:
  "let b = the (fst (bpf_map_create True True True 2 4 1 3 7));
       r = run_calls call_map (map (\<lambda>(x, v). MapUpdate True (array_key x) (mem_of_list v) 0) [(1, [5]), (2, [6]), (1, [8])]) b
   in fst r = [Code 0, Code 0, Code 0] \<and> bpf_map_lookup_elem (Some (snd r)) (Some (array_key 1)) = Some [8] \<and>
     bpf_map_lookup_elem (Some (snd r)) (Some (array_key 0)) = Some [0]"
proof -
  let ?b = "the (fst (bpf_map_create True True True 2 4 1 3 7))"
  let ?kvs = "[(1, [5]), (2, [6]), (1, [8])] :: (u32 \<times> u8 list) list"
  let ?r = "run_calls call_map (map (\<lambda>(x, v). MapUpdate True (array_key x) (mem_of_list v) 0) ?kvs) ?b"
  have c: "bpf_map_create True True True 2 4 1 3 7 = (Some ?b, 8)"
    by (simp add: bpf_map_create_def get_map_ops_def array_map_alloc_def)
  have k: "\<forall>(x, v)\<in>set ?kvs. x < 3 \<and> length v = unat (1 :: u32)" by (simp add: word_less_nat_alt)
  have r: "?r = (fst ?r, snd ?r)" by simp
  have "fst ?r = replicate (length ?kvs) (Code 0) \<and> bpf_map_lookup_elem (Some (snd ?r)) (Some (array_key 1)) =
      Some (case map_of (rev ?kvs) 1 of None \<Rightarrow> replicate (unat (1 :: u32)) 0 | Some v \<Rightarrow> v)"
    by (rule array_map_is_array [OF c _ k _ r]) (simp_all add: word_less_nat_alt)
  moreover have "fst ?r = replicate (length ?kvs) (Code 0) \<and> bpf_map_lookup_elem (Some (snd ?r)) (Some (array_key 0)) =
      Some (case map_of (rev ?kvs) 0 of None \<Rightarrow> replicate (unat (1 :: u32)) 0 | Some v \<Rightarrow> v)"
    by (rule array_map_is_array [OF c _ k _ r]) (simp_all add: word_less_nat_alt)
  ultimately show ?thesis unfolding Let_def by (simp del: run_calls.simps list.map add: numeral_3_eq_3)
qed

text \<open>
  An array map does not check the index: an update of the element \<open>x\<close> with \<open>x\<close> at or beyond \<open>max_entries\<close> succeeds and writes
  the value behind the array, and the iteration over the keys never ends.
\<close>

theorem array_map_unbounded:
  assumes "bpf_map_create True True True ty ks vs mx i = (Some b, j)" and "ty \<in> {2, 3, 6, 8}" and "mx \<le> x" and "y < unat vs"
  shows "(\<exists>b' a. bpf_map_update_elem ok (Some b) (Some (array_key x)) (Some v) fl = (0, Some b') \<and> bm_data b' = ArrayData a \<and>
      unat x * unat vs + y \<ge> unat mx * unat vs \<and> am_data a (unat x * unat vs + y) = v y) \<and> length (key_walk n b None) = n"
proof -
  have d: "bm_data b = ArrayData \<lparr>am_data = (\<lambda>_. 0), am_elem_size = unat vs\<rparr>" by (rule array_create [OF assms(1,2)])
  have "length (key_walk n b k) = n" for n k
    by (induction n arbitrary: k) (auto simp: bpf_map_get_next_key_def d array_map_get_next_key_def split: option.split)
  moreover have "unat mx * unat vs \<le> unat x * unat vs" using assms(3) by (intro mult_right_mono) (auto simp: word_le_nat_alt)
  ultimately show ?thesis using assms(4)
    by (auto simp: bpf_map_update_elem_def d array_map_update_def copy_obj_def intro: trans_le_add1 simp del: mult_le_cancel2)
qed

theorem array_map_unbounded_witness:
  "let b = the (fst (bpf_map_create True True True 2 4 8 3 7)) in
   \<exists>b' a. bpf_map_update_elem True (Some b) (Some (array_key 3)) (Some (\<lambda>_. 255)) 0 = (0, Some b') \<and> bm_data b' = ArrayData a \<and>
     am_data a 24 = 255"
proof -
  let ?b = "the (fst (bpf_map_create True True True 2 4 8 3 7))"
  have c: "bpf_map_create True True True 2 4 8 3 7 = (Some ?b, 8)"
    by (simp add: bpf_map_create_def get_map_ops_def array_map_alloc_def)
  have "0 < unat (8 :: u32)" by simp
  from array_map_unbounded [OF c _ _ this, of 3 True "\<lambda>_. 255" 0 0] show ?thesis by (simp add: Let_def)
qed

end
