(* ===== verification/Bpf.thy ===== *)
theory Bpf
  imports BpfMap
begin

text \<open>
  The programs of \<open>kernel/arch/x86_64/bpf.c\<close>: the table of helpers, the interpreter, the verifier and the
  JIT compiler. Memory is a function from addresses to bytes. The context of a run is in it: the eleven registers, the stack of 512
  bytes behind them, to whose end register 10 points, and \<open>stack_size\<close>; a store of the program can reach all of them. The
  instructions and the counter \<open>pc\<close> are kept apart from the memory. The processor's time stamps and
  the timer's ticks are read from given sequences.
\<close>

section \<open>Instructions and state\<close>

type_synonym u4 = "4 word"

record bpf_insn_t =
  in_code :: u8
  in_dst :: u4
  in_src :: u4
  in_off :: u16
  in_imm :: u32

abbreviation (input) BPF_MAX_REGS :: nat where "BPF_MAX_REGS \<equiv> 11"
abbreviation (input) BPF_REG_10 :: nat where "BPF_REG_10 \<equiv> 10"
abbreviation (input) BPF_STACK_SIZE :: u64 where "BPF_STACK_SIZE \<equiv> 512"
abbreviation (input) BPF_HELPER_MAX :: int where "BPF_HELPER_MAX \<equiv> 64"
abbreviation (input) MAX_INSNS :: u32 where "MAX_INSNS \<equiv> 4096"
abbreviation (input) BPF_JIT_SIZE :: nat where "BPF_JIT_SIZE \<equiv> 65536"

abbreviation (input) BPF_LD :: u8 where "BPF_LD \<equiv> 0x00"
abbreviation (input) BPF_LDX :: u8 where "BPF_LDX \<equiv> 0x01"
abbreviation (input) BPF_ST :: u8 where "BPF_ST \<equiv> 0x02"
abbreviation (input) BPF_STX :: u8 where "BPF_STX \<equiv> 0x03"
abbreviation (input) BPF_ALU :: u8 where "BPF_ALU \<equiv> 0x04"
abbreviation (input) BPF_JMP :: u8 where "BPF_JMP \<equiv> 0x05"
abbreviation (input) BPF_JMP32 :: u8 where "BPF_JMP32 \<equiv> 0x06"
abbreviation (input) BPF_ALU64 :: u8 where "BPF_ALU64 \<equiv> 0x07"

abbreviation (input) BPF_ADD :: u8 where "BPF_ADD \<equiv> 0x00"
abbreviation (input) BPF_SUB :: u8 where "BPF_SUB \<equiv> 0x10"
abbreviation (input) BPF_MUL :: u8 where "BPF_MUL \<equiv> 0x20"
abbreviation (input) BPF_DIV :: u8 where "BPF_DIV \<equiv> 0x30"
abbreviation (input) BPF_OR :: u8 where "BPF_OR \<equiv> 0x40"
abbreviation (input) BPF_AND :: u8 where "BPF_AND \<equiv> 0x50"
abbreviation (input) BPF_LSH :: u8 where "BPF_LSH \<equiv> 0x60"
abbreviation (input) BPF_RSH :: u8 where "BPF_RSH \<equiv> 0x70"
abbreviation (input) BPF_NEG :: u8 where "BPF_NEG \<equiv> 0x80"
abbreviation (input) BPF_MOD :: u8 where "BPF_MOD \<equiv> 0x90"
abbreviation (input) BPF_XOR :: u8 where "BPF_XOR \<equiv> 0xA0"
abbreviation (input) BPF_MOV :: u8 where "BPF_MOV \<equiv> 0xB0"
abbreviation (input) BPF_ARSH :: u8 where "BPF_ARSH \<equiv> 0xC0"
abbreviation (input) BPF_END :: u8 where "BPF_END \<equiv> 0xD0"

abbreviation (input) BPF_JA :: u8 where "BPF_JA \<equiv> 0x00"
abbreviation (input) BPF_JEQ :: u8 where "BPF_JEQ \<equiv> 0x10"
abbreviation (input) BPF_JGT :: u8 where "BPF_JGT \<equiv> 0x20"
abbreviation (input) BPF_JGE :: u8 where "BPF_JGE \<equiv> 0x30"
abbreviation (input) BPF_JSET :: u8 where "BPF_JSET \<equiv> 0x40"
abbreviation (input) BPF_JNE :: u8 where "BPF_JNE \<equiv> 0x50"
abbreviation (input) BPF_JSGT :: u8 where "BPF_JSGT \<equiv> 0x60"
abbreviation (input) BPF_JSGE :: u8 where "BPF_JSGE \<equiv> 0x70"
abbreviation (input) BPF_CALL :: u8 where "BPF_CALL \<equiv> 0x80"
abbreviation (input) BPF_EXIT :: u8 where "BPF_EXIT \<equiv> 0x90"
abbreviation (input) BPF_JLT :: u8 where "BPF_JLT \<equiv> 0xA0"
abbreviation (input) BPF_JLE :: u8 where "BPF_JLE \<equiv> 0xB0"
abbreviation (input) BPF_JSLT :: u8 where "BPF_JSLT \<equiv> 0xC0"
abbreviation (input) BPF_JSLE :: u8 where "BPF_JSLE \<equiv> 0xD0"

definition BPF_CLASS :: "u8 \<Rightarrow> u8" where "BPF_CLASS code = code AND 0x07"
definition BPF_OP :: "u8 \<Rightarrow> u8" where "BPF_OP code = code AND 0xF0"
definition BPF_SRC :: "u8 \<Rightarrow> u8" where "BPF_SRC code = code AND 0x08"
definition BPF_SIZE :: "u8 \<Rightarrow> u8" where "BPF_SIZE code = code AND 0x18"
definition BPF_MODE :: "u8 \<Rightarrow> u8" where "BPF_MODE code = code AND 0xE0"

record bpf_world =
  bw_mem :: "u64 \<Rightarrow> u8"
  bw_tsc :: "nat \<Rightarrow> u64"
  bw_hpet_frequency :: u64
  bw_hpet_ticks :: "nat \<Rightarrow> u64"
  bw_prandom :: u64
  bw_serial :: "u8 list"
  bw_maps :: "u64 \<Rightarrow> bpf_map_t option"

text \<open>Reading the time stamp or the ticks moves on to the next reading.\<close>

definition rdtsc :: "bpf_world \<Rightarrow> u64 \<times> bpf_world" where
  "rdtsc w = (bw_tsc w 0, w\<lparr>bw_tsc := (\<lambda>i. bw_tsc w (Suc i))\<rparr>)"

definition hpet_get_ticks :: "bpf_world \<Rightarrow> u64 \<times> bpf_world" where
  "hpet_get_ticks w = (bw_hpet_ticks w 0, w\<lparr>bw_hpet_ticks := (\<lambda>i. bw_hpet_ticks w (Suc i))\<rparr>)"

definition mem_bytes :: "bpf_world \<Rightarrow> u64 \<Rightarrow> nat \<Rightarrow> u8 list" where
  "mem_bytes w a n = map (\<lambda>i. bw_mem w (a + of_nat i)) [0..<n]"

definition mem_store :: "u64 \<Rightarrow> u8 list \<Rightarrow> bpf_world \<Rightarrow> bpf_world" where
  "mem_store a bs w = w\<lparr>bw_mem := (\<lambda>x. if unat (x - a) < length bs then bs ! unat (x - a) else bw_mem w x)\<rparr>"

section \<open>Helpers\<close>

type_synonym bpf_helper = "u64 \<Rightarrow> u64 \<Rightarrow> u64 \<Rightarrow> u64 \<Rightarrow> u64 \<Rightarrow> bpf_world \<Rightarrow> u64 \<times> bpf_world"

type_synonym bpf_helpers = "nat \<Rightarrow> bpf_helper option"

definition bpf_register_helper :: "int \<Rightarrow> bpf_helper option \<Rightarrow> bpf_helpers \<Rightarrow> int \<times> bpf_helpers" where
  "bpf_register_helper i fn hs =
     (if i < 0 \<or> i \<ge> BPF_HELPER_MAX then (- 1, hs) else (0, hs(nat i := fn)))"

definition bpf_lookup_helper :: "bpf_helpers \<Rightarrow> int \<Rightarrow> bpf_helper option" where
  "bpf_lookup_helper hs i = (if i < 0 \<or> i \<ge> BPF_HELPER_MAX then None else hs (nat i))"

text \<open>
  The helpers that the kernel registers itself. A pointer to a map is the address at which \<open>bw_maps\<close> has it.
\<close>

definition key_ptr :: "bpf_world \<Rightarrow> u64 \<Rightarrow> mem option" where
  "key_ptr w a = (if a = 0 then None else Some (\<lambda>i. bw_mem w (a + of_nat i)))"

text \<open>
  A lookup results in the address of the value inside the map's own memory, which is the argument
  \<open>value_addr\<close>: the allocator chose it.
\<close>

definition bpf_h_map_lookup :: "(u64 \<Rightarrow> u8 list \<Rightarrow> bpf_world \<Rightarrow> u64) \<Rightarrow> bpf_helper" where
  "bpf_h_map_lookup value_addr r1 r2 r3 r4 r5 w =
     (case bpf_map_lookup_elem (bw_maps w r1) (key_ptr w r2) of None \<Rightarrow> 0 | Some v \<Rightarrow> value_addr r1 v w, w)"

definition bpf_h_map_update :: "bool \<Rightarrow> bpf_helper" where
  "bpf_h_map_update alloc_ok r1 r2 r3 r4 r5 w =
     (case bpf_map_update_elem alloc_ok (bw_maps w r1) (key_ptr w r2) (key_ptr w r3) r4 of
        (r, m) \<Rightarrow> (of_int r, w\<lparr>bw_maps := (bw_maps w)(r1 := m)\<rparr>))"

definition bpf_h_map_delete :: bpf_helper where
  "bpf_h_map_delete r1 r2 r3 r4 r5 w =
     (case bpf_map_delete_elem (bw_maps w r1) (key_ptr w r2) of
        (r, m) \<Rightarrow> (of_int r, w\<lparr>bw_maps := (bw_maps w)(r1 := m)\<rparr>))"

definition bpf_h_ktime_get_ns :: bpf_helper where
  "bpf_h_ktime_get_ns r1 r2 r3 r4 r5 w =
     (let freq = bw_hpet_frequency w
      in if freq \<noteq> 0 then (case hpet_get_ticks w of (ticks, w') \<Rightarrow> ((ticks * 1000000000) div freq, w')) else rdtsc w)"

definition bpf_h_get_prandom_u32 :: bpf_helper where
  "bpf_h_get_prandom_u32 r1 r2 r3 r4 r5 w =
     (let (seed, w1) = (if bw_prandom w = 0 then (case rdtsc w of (t, w1) \<Rightarrow> (t XOR 0x9E3779B97F4A7C15, w1)) else (bw_prandom w, w));
          state = seed * 6364136223846793005 + 1442695040888963407
      in (ucast (ucast (drop_bit 32 state) :: u32), w1\<lparr>bw_prandom := state\<rparr>))"

definition bpf_h_get_smp_processor_id :: bpf_helper where
  "bpf_h_get_smp_processor_id r1 r2 r3 r4 r5 w = (0, w)"

definition bpf_h_get_current_pid_tgid :: bpf_helper where
  "bpf_h_get_current_pid_tgid r1 r2 r3 r4 r5 w = (push_bit 32 1 OR 1, w)"

definition bpf_h_probe_read :: bpf_helper where
  "bpf_h_probe_read r1 r2 r3 r4 r5 w =
     (let sz = ucast r2 :: u32
      in if r1 = 0 \<or> r3 = 0 \<or> sz > 4096 then (- 1, w)
         else (0, mem_store r1 (mem_bytes w r3 (unat sz)) w))"

text \<open>The characters up to the terminating zero, at most 128, go to the serial port.\<close>

definition bpf_h_trace_printk :: bpf_helper where
  "bpf_h_trace_printk r1 r2 r3 r4 r5 w =
     (if r1 = 0 then (0, w)
      else let n = (case first_index (\<lambda>i. bw_mem w (r1 + of_nat i) = 0) 128 of None \<Rightarrow> 128 | Some i \<Rightarrow> i)
           in (of_nat n, w\<lparr>bw_serial := bw_serial w @ mem_bytes w r1 n\<rparr>))"

definition bpf_register_builtin_helpers :: "(u64 \<Rightarrow> u8 list \<Rightarrow> bpf_world \<Rightarrow> u64) \<Rightarrow> bool \<Rightarrow> bpf_helpers \<Rightarrow> bpf_helpers" where
  "bpf_register_builtin_helpers value_addr alloc_ok hs =
     fold (\<lambda>(i, fn) hs. snd (bpf_register_helper i (Some fn) hs))
       [(1, bpf_h_map_lookup value_addr), (2, bpf_h_map_update alloc_ok), (3, bpf_h_map_delete),
        (5, bpf_h_ktime_get_ns), (7, bpf_h_get_prandom_u32), (8, bpf_h_get_smp_processor_id),
        (14, bpf_h_get_current_pid_tgid), (4, bpf_h_probe_read), (6, bpf_h_trace_printk)] hs"

text \<open>The state that \<open>bpf_init\<close> sets: the next id of a map, and the helpers.\<close>

definition bpf_init :: "(u64 \<Rightarrow> u8 list \<Rightarrow> bpf_world \<Rightarrow> u64) \<Rightarrow> bool \<Rightarrow> u32 \<times> bpf_helpers" where
  "bpf_init value_addr alloc_ok = (1, bpf_register_builtin_helpers value_addr alloc_ok (\<lambda>_. None))"

section \<open>The interpreter\<close>

text \<open>A run has the address of its context, a \<open>bpf_ctx_t\<close> in memory.\<close>

record bpf_state =
  bs_ctx :: u64
  bs_world :: bpf_world

definition reg_addr :: "bpf_state \<Rightarrow> nat \<Rightarrow> u64" where
  "reg_addr s r = bs_ctx s + 8 * of_nat r"

definition get_reg :: "bpf_state \<Rightarrow> nat \<Rightarrow> u64" where
  "get_reg s r = (if r \<ge> BPF_MAX_REGS then 0 else le_word (mem_bytes (bs_world s) (reg_addr s r) 8))"

definition set_reg :: "nat \<Rightarrow> u64 \<Rightarrow> bpf_state \<Rightarrow> bpf_state" where
  "set_reg r v s = (if r \<ge> BPF_MAX_REGS then s else if r = BPF_REG_10 then s
     else s\<lparr>bs_world := mem_store (reg_addr s r) (le_bytes 8 v) (bs_world s)\<rparr>)"

definition read_mem :: "bpf_state \<Rightarrow> nat \<Rightarrow> u64 \<Rightarrow> u64" where
  "read_mem s sz a = (if a = 0 then 0 else if sz \<in> {1, 2, 4, 8} then le_word (mem_bytes (bs_world s) a sz) else 0)"

definition write_mem :: "nat \<Rightarrow> u64 \<Rightarrow> u64 \<Rightarrow> bpf_state \<Rightarrow> bpf_state" where
  "write_mem sz a v s =
     (if a = 0 then s
      else if sz \<in> {1, 2, 4, 8} then s\<lparr>bs_world := mem_store a (le_bytes sz v) (bs_world s)\<rparr> else s)"

text \<open>\<open>NextPc\<close> goes on with the loop, the others leave it at one of the two labels.\<close>

datatype bpf_outcome = NextPc u32 bpf_state | ExitOk bpf_state | ExitAbort bpf_state

text \<open>The immediate sign-extended to 64 bits.\<close>

definition imm64 :: "bpf_insn_t \<Rightarrow> u64" where
  "imm64 insn = scast (in_imm insn)"

definition bpf_swap :: "nat \<Rightarrow> u64 \<Rightarrow> u64" where
  "bpf_swap n v = le_word (rev (le_bytes n v))"

definition bpf_end :: "u8 \<Rightarrow> u32 \<Rightarrow> u64 \<Rightarrow> u64" where
  "bpf_end src imm dv =
     (if src = 0
      then (if imm = 16 then take_bit 16 dv else if imm = 32 then take_bit 32 dv else dv)
      else (if imm = 16 then bpf_swap 2 dv else if imm = 32 then bpf_swap 4 dv else if imm = 64 then bpf_swap 8 dv else dv))"

text \<open>\<open>None\<close> aborts the program.\<close>

definition alu_op :: "u8 \<Rightarrow> u8 \<Rightarrow> bpf_insn_t \<Rightarrow> u64 \<Rightarrow> u64 \<Rightarrow> u64 option" where
  "alu_op op src insn dv sv =
     (if op = BPF_ADD then Some (dv + sv)
      else if op = BPF_SUB then Some (dv - sv)
      else if op = BPF_MUL then Some (dv * sv)
      else if op = BPF_DIV then (if sv = 0 then None else Some (dv div sv))
      else if op = BPF_MOD then (if sv = 0 then None else Some (dv mod sv))
      else if op = BPF_AND then Some (dv AND sv)
      else if op = BPF_OR then Some (dv OR sv)
      else if op = BPF_XOR then Some (dv XOR sv)
      else if op = BPF_LSH then Some (push_bit (unat (sv AND 63)) dv)
      else if op = BPF_RSH then Some (drop_bit (unat (sv AND 63)) dv)
      else if op = BPF_ARSH then Some (signed_drop_bit (unat (sv AND 63)) dv)
      else if op = BPF_NEG then Some (- dv)
      else if op = BPF_MOV then Some (if src = 0 then imm64 insn else sv)
      else if op = BPF_END then Some (bpf_end src (in_imm insn) dv)
      else None)"

definition exec_alu :: "bpf_insn_t \<Rightarrow> u32 \<Rightarrow> bpf_state \<Rightarrow> bpf_outcome" where
  "exec_alu insn pc s =
     (let code = in_code insn; op = BPF_OP code; dst = unat (in_dst insn)
      in case alu_op op (BPF_SRC code) insn (get_reg s dst) (get_reg s (unat (in_src insn))) of
           None \<Rightarrow> ExitAbort s
         | Some v \<Rightarrow>
             let dv = (if BPF_CLASS code = BPF_ALU \<and> op \<noteq> BPF_END \<and> op \<noteq> BPF_NEG then v AND 0xFFFFFFFF else v)
             in NextPc (pc + 1) (set_reg dst dv s))"

text \<open>
  The test of a conditional jump on two values, in their low 32 bits for the class \<open>BPF_JMP32\<close>.
  The code makes it with the source register and again with the immediate; \<open>None\<close> is an unknown operation.
\<close>

definition jmp_test :: "u8 \<Rightarrow> bool \<Rightarrow> u64 \<Rightarrow> u64 \<Rightarrow> bool option" where
  "jmp_test op is32 a b =
     (let a32 = ucast a :: u32; b32 = ucast b :: u32
      in if op = BPF_JEQ then Some (if is32 then a32 = b32 else a = b)
         else if op = BPF_JNE then Some (if is32 then a32 \<noteq> b32 else a \<noteq> b)
         else if op = BPF_JGT then Some (if is32 then a32 > b32 else a > b)
         else if op = BPF_JGE then Some (if is32 then a32 \<ge> b32 else a \<ge> b)
         else if op = BPF_JLT then Some (if is32 then a32 < b32 else a < b)
         else if op = BPF_JLE then Some (if is32 then a32 \<le> b32 else a \<le> b)
         else if op = BPF_JSGT then Some (if is32 then sint a32 > sint b32 else sint a > sint b)
         else if op = BPF_JSGE then Some (if is32 then sint a32 \<ge> sint b32 else sint a \<ge> sint b)
         else if op = BPF_JSLT then Some (if is32 then sint a32 < sint b32 else sint a < sint b)
         else if op = BPF_JSLE then Some (if is32 then sint a32 \<le> sint b32 else sint a \<le> sint b)
         else if op = BPF_JSET then Some (if is32 then a32 AND b32 \<noteq> 0 else a AND b \<noteq> 0)
         else None)"

definition jump_target :: "bpf_insn_t \<Rightarrow> u32 \<Rightarrow> u32" where
  "jump_target insn pc = pc + scast (in_off insn) + 1"

definition exec_call :: "bpf_helpers \<Rightarrow> bpf_insn_t \<Rightarrow> u32 \<Rightarrow> bpf_state \<Rightarrow> bpf_outcome" where
  "exec_call hs insn pc s =
     (let i = sint (in_imm insn)
      in case (case bpf_lookup_helper hs i of
                 Some fn \<Rightarrow> fn (get_reg s 1) (get_reg s 2) (get_reg s 3) (get_reg s 4) (get_reg s 5) (bs_world s)
               | None \<Rightarrow>
                   if i = 7 then (case rdtsc (bs_world s) of (t, w) \<Rightarrow> (t AND 0xFFFFFFFF, w))
                   else if i = 14 then (1, bs_world s)
                   else (0, bs_world s)) of
           (r, w) \<Rightarrow> NextPc (pc + 1) (set_reg 0 r (s\<lparr>bs_world := w\<rparr>)))"

definition exec_jmp :: "bpf_helpers \<Rightarrow> bpf_insn_t \<Rightarrow> u32 \<Rightarrow> bpf_state \<Rightarrow> bpf_outcome" where
  "exec_jmp hs insn pc s =
     (let code = in_code insn; op = BPF_OP code; is32 = (BPF_CLASS code = BPF_JMP32);
          dv = get_reg s (unat (in_dst insn)); sv = get_reg s (unat (in_src insn))
      in if op = BPF_JA then NextPc (jump_target insn pc) s
         else if op = BPF_CALL then exec_call hs insn pc s
         else if op = BPF_EXIT then ExitOk s
         else case jmp_test op is32 dv (if BPF_SRC code = 0 then imm64 insn else sv) of
                None \<Rightarrow> ExitAbort s
              | Some cond \<Rightarrow> NextPc (if cond then jump_target insn pc else pc + 1) s)"

text \<open>The number of bytes that a load or a store is for.\<close>

definition size_bytes :: "u8 \<Rightarrow> nat" where
  "size_bytes sz = (if sz = 0x10 then 1 else if sz = 0x08 then 2 else if sz = 0x00 then 4 else 8)"

definition exec_ldx :: "bpf_insn_t \<Rightarrow> u32 \<Rightarrow> bpf_state \<Rightarrow> bpf_outcome" where
  "exec_ldx insn pc s = NextPc (pc + 1) (set_reg (unat (in_dst insn))
     (read_mem s (size_bytes (BPF_SIZE (in_code insn))) (get_reg s (unat (in_src insn)) + scast (in_off insn))) s)"

definition exec_st :: "bpf_insn_t \<Rightarrow> u32 \<Rightarrow> bpf_state \<Rightarrow> bpf_outcome" where
  "exec_st insn pc s =
     (let v = (if BPF_CLASS (in_code insn) = BPF_ST then imm64 insn else get_reg s (unat (in_src insn)))
      in NextPc (pc + 1) (write_mem (size_bytes (BPF_SIZE (in_code insn)))
           (get_reg s (unat (in_dst insn)) + scast (in_off insn)) v s))"

record bpf_program_t =
  pg_insns :: "nat \<Rightarrow> bpf_insn_t"
  pg_num_insns :: u32
  pg_loaded :: bool
  pg_type :: int
  pg_jited_image :: "u8 list option"
  pg_jited_len :: u32

text \<open>A second instruction with code 0 holds the upper half of a 64 bit immediate.\<close>

definition exec_ld :: "bpf_program_t \<Rightarrow> u64 \<Rightarrow> bpf_insn_t \<Rightarrow> u32 \<Rightarrow> bpf_state \<Rightarrow> bpf_outcome" where
  "exec_ld prog ctx_in insn pc s =
     (let code = in_code insn; mode = BPF_MODE code; dst = unat (in_dst insn); sz = size_bytes (BPF_SIZE code)
      in if mode = 0 then
           (let nx = pg_insns prog (unat (pc + 1))
            in if pc + 1 < pg_num_insns prog \<and> in_code nx = 0
               then NextPc (pc + 2) (set_reg dst (push_bit 32 (ucast (in_imm nx)) OR ucast (in_imm insn)) s)
               else NextPc (pc + 1) (set_reg dst (imm64 insn) s))
         else if mode = 0x20 then NextPc (pc + 1) (set_reg dst (read_mem s sz (ctx_in + imm64 insn)) s)
         else if mode = 0x40 then
           NextPc (pc + 1) (set_reg dst (read_mem s sz (ctx_in + get_reg s (unat (in_src insn)) + imm64 insn)) s)
         else NextPc (pc + 1) (set_reg dst (imm64 insn) s))"

definition bpf_exec :: "bpf_helpers \<Rightarrow> bpf_program_t \<Rightarrow> u64 \<Rightarrow> u32 \<Rightarrow> bpf_state \<Rightarrow> bpf_outcome" where
  "bpf_exec hs prog ctx_in pc s =
     (let insn = pg_insns prog (unat pc); cls = BPF_CLASS (in_code insn)
      in if cls = BPF_ALU64 \<or> cls = BPF_ALU then exec_alu insn pc s
         else if cls = BPF_JMP \<or> cls = BPF_JMP32 then exec_jmp hs insn pc s
         else if cls = BPF_LDX then exec_ldx insn pc s
         else if cls = BPF_ST \<or> cls = BPF_STX then exec_st insn pc s
         else if cls = BPF_LD then exec_ld prog ctx_in insn pc s
         else ExitAbort s)"

text \<open>\<open>None\<close>: the loop never ends.\<close>

partial_function (option) bpf_loop ::
  "bpf_helpers \<Rightarrow> bpf_program_t \<Rightarrow> u64 \<Rightarrow> u32 \<Rightarrow> bpf_state \<Rightarrow> (u64 \<times> bpf_state) option" where
  "bpf_loop hs prog ctx_in pc s =
     (if pc < pg_num_insns prog
      then (case bpf_exec hs prog ctx_in pc s of
              NextPc pc' s' \<Rightarrow> bpf_loop hs prog ctx_in pc' s'
            | ExitOk s' \<Rightarrow> Some (get_reg s' 0, s')
            | ExitAbort s' \<Rightarrow> Some (get_reg (set_reg 0 (- 1) s') 0, set_reg 0 (- 1) s'))
      else Some (get_reg s 0, s))"

declare bpf_loop.simps [code]

text \<open>
  The context of a run is zeroed, the registers 1 to 5 are copied from the caller's data, and register 10 is set to the end of the
  stack. The address of the context is an argument, as is that of the caller's data.
\<close>

abbreviation (input) CTX_SIZE :: nat where "CTX_SIZE \<equiv> 608"
abbreviation (input) CTX_STACK :: u64 where "CTX_STACK \<equiv> 88"

definition bpf_start :: "u64 \<Rightarrow> u64 \<Rightarrow> bpf_world \<Rightarrow> bpf_state" where
  "bpf_start ctx ctx_in w0 =
     (let w1 = mem_store ctx (replicate CTX_SIZE 0) w0;
          w2 = (if ctx_in \<noteq> 0 then mem_store (ctx + 8) (mem_bytes w1 ctx_in 40) w1 else w1)
      in \<lparr>bs_ctx = ctx, bs_world = mem_store (ctx + 80) (le_bytes 8 (ctx + CTX_STACK + BPF_STACK_SIZE)) w2\<rparr>)"

definition bpf_prog_run ::
  "bpf_helpers \<Rightarrow> u64 \<Rightarrow> bpf_program_t option \<Rightarrow> u64 \<Rightarrow> bpf_world \<Rightarrow> (u64 \<times> bpf_world) option" where
  "bpf_prog_run hs ctx prog ctx_in w =
     (case prog of
        None \<Rightarrow> Some (0, w)
      | Some p \<Rightarrow> if \<not> pg_loaded p then Some (0, w)
          else map_option (\<lambda>(r, s). (r, bs_world s)) (bpf_loop hs p ctx_in 0 (bpf_start ctx ctx_in w)))"

section \<open>The verifier\<close>

definition bad_insn :: "bpf_program_t \<Rightarrow> nat \<Rightarrow> bool" where
  "bad_insn prog pc =
     (let insn = pg_insns prog pc; cls = BPF_CLASS (in_code insn); op = BPF_OP (in_code insn);
          target = jump_target insn (of_nat pc)
      in unat (in_dst insn) \<ge> BPF_MAX_REGS \<or> unat (in_src insn) \<ge> BPF_MAX_REGS \<or>
         cls = BPF_JMP \<and> op = BPF_CALL \<and> (sint (in_imm insn) \<ge> BPF_HELPER_MAX \<or> sint (in_imm insn) < 0) \<or>
         (cls = BPF_JMP \<or> cls = BPF_JMP32) \<and> op = BPF_JA \<and> (sint target < 0 \<or> target \<ge> pg_num_insns prog))"

definition bpf_verifier :: "bool \<Rightarrow> bpf_program_t option \<Rightarrow> int" where
  "bpf_verifier alloc_ok prog =
     (case prog of
        None \<Rightarrow> - 1
      | Some p \<Rightarrow>
          if pg_num_insns p = 0 \<or> pg_num_insns p > MAX_INSNS then - 1
          else if \<not> alloc_ok then - 1
          else case first_index (bad_insn p) (unat (pg_num_insns p)) of Some _ \<Rightarrow> - 1 | None \<Rightarrow> 0)"

text \<open>The instructions are copied; the three allocations succeed or not.\<close>

definition bpf_prog_alloc ::
  "bool \<Rightarrow> bool \<Rightarrow> bool \<Rightarrow> (nat \<Rightarrow> bpf_insn_t) option \<Rightarrow> u32 \<Rightarrow> int \<Rightarrow> bpf_program_t option" where
  "bpf_prog_alloc ok1 ok2 ok3 insns num_insns ty =
     (case insns of
        None \<Rightarrow> None
      | Some is \<Rightarrow>
          if num_insns = 0 \<or> num_insns > MAX_INSNS then None
          else if \<not> ok1 \<or> \<not> ok2 then None
          else let prog = \<lparr>pg_insns = is, pg_num_insns = num_insns, pg_loaded = False, pg_type = ty,
                           pg_jited_image = None, pg_jited_len = 0\<rparr>
               in if bpf_verifier ok3 (Some prog) \<noteq> 0 then None else Some (prog\<lparr>pg_loaded := True\<rparr>))"

section \<open>The JIT compiler\<close>

text \<open>The bytes of \<open>jit_buffer\<close> below \<open>jit_pos\<close>.\<close>

definition emit_byte :: "u8 \<Rightarrow> u8 list \<Rightarrow> u8 list" where
  "emit_byte b buf = (if length buf < BPF_JIT_SIZE then buf @ [b] else buf)"

definition emit_dword :: "u32 \<Rightarrow> u8 list \<Rightarrow> u8 list" where
  "emit_dword v buf = emit_byte (ucast (drop_bit 24 v AND 0xFF)) (emit_byte (ucast (drop_bit 16 v AND 0xFF))
     (emit_byte (ucast (drop_bit 8 v AND 0xFF)) (emit_byte (ucast (v AND 0xFF)) buf)))"

definition emit_qword :: "u64 \<Rightarrow> u8 list \<Rightarrow> u8 list" where
  "emit_qword v buf = emit_dword (ucast (drop_bit 32 v)) (emit_dword (ucast (v AND 0xFFFFFFFF)) buf)"

definition emit_mov_reg :: "u8 \<Rightarrow> u8 \<Rightarrow> u8 list \<Rightarrow> u8 list" where
  "emit_mov_reg dst src buf = (if dst = src then buf
     else emit_byte (0xC0 OR push_bit 3 src OR dst) (emit_byte 0x89 (emit_byte 0x48 buf)))"

definition emit_add_reg :: "u8 \<Rightarrow> u8 \<Rightarrow> u8 list \<Rightarrow> u8 list" where
  "emit_add_reg dst src buf = emit_byte (0xC0 OR push_bit 3 src OR dst) (emit_byte 0x01 (emit_byte 0x48 buf))"

definition emit_ret :: "u8 list \<Rightarrow> u8 list" where
  "emit_ret buf = emit_byte 0xC3 buf"

definition jit_insn :: "bpf_insn_t \<Rightarrow> u8 list \<Rightarrow> u8 list" where
  "jit_insn insn buf =
     (let cls = BPF_CLASS (in_code insn); op = BPF_OP (in_code insn); src = BPF_SRC (in_code insn);
          dst = ucast (in_dst insn); sr = ucast (in_src insn)
      in if cls = BPF_ALU64 then
           (if op = BPF_MOV then
              (if src = 0 then emit_dword (in_imm insn) (emit_byte (0xC0 OR dst) (emit_byte 0xC7 (emit_byte 0x48 buf)))
               else emit_mov_reg dst sr buf)
            else if op = BPF_ADD then
              (if src = 0 then emit_byte (ucast (in_imm insn)) (emit_byte (0xC0 OR dst) (emit_byte 0x83 (emit_byte 0x48 buf)))
               else emit_add_reg dst sr buf)
            else buf)
         else if cls = BPF_JMP \<and> op = BPF_EXIT then emit_ret (emit_mov_reg 0 7 buf)
         else buf)"

text \<open>The image is the whole buffer, of which the first \<open>jited_len\<close> bytes are the program.\<close>

definition bpf_jit_compile :: "bpf_program_t option \<Rightarrow> int \<times> bpf_program_t option" where
  "bpf_jit_compile prog =
     (case prog of
        None \<Rightarrow> (- 1, None)
      | Some p \<Rightarrow>
          let buf = fold jit_insn (table (pg_insns p) (unat (pg_num_insns p))) []
          in (0, Some (p\<lparr>pg_jited_len := of_nat (length buf), pg_jited_image := Some buf, pg_loaded := True\<rparr>)))"

definition bpf_jit_free :: "bpf_program_t option \<Rightarrow> bpf_program_t option" where
  "bpf_jit_free prog = map_option (\<lambda>p. p\<lparr>pg_jited_image := None, pg_jited_len := 0\<rparr>) prog"

text \<open>What is given back to the allocator, in this order; the image is a buffer of the kernel.\<close>

datatype prog_block = InsnsBlock | ProgBlock

definition bpf_prog_free :: "bpf_program_t option \<Rightarrow> prog_block list" where
  "bpf_prog_free prog = (case prog of None \<Rightarrow> [] | Some _ \<Rightarrow> [InsnsBlock, ProgBlock])"

end
