(* ===== verification/BpfProps.thy ===== *)
theory BpfProps
  imports Bpf
begin

text \<open>
  What the interpreter, the verifier and the JIT compiler of \<open>bpf.c\<close> guarantee: register and frame pointer
  safety of verified programs, the end of programs that only jump forward, the arithmetic
  of 32 bits, loads after stores, and the size of the compiled image.
\<close>

lemmas class_cases = BPF_CLASS_def BPF_OP_def BPF_SRC_def BPF_SIZE_def BPF_MODE_def

section \<open>Memory\<close>

text \<open>The \<open>m\<close> bytes at \<open>b\<close> lie outside of the \<open>n\<close> bytes at \<open>a\<close>.\<close>

definition apart :: "u64 \<Rightarrow> nat \<Rightarrow> u64 \<Rightarrow> nat \<Rightarrow> bool" where
  "apart a n b m \<longleftrightarrow> (\<forall>i<m. n \<le> unat (b + of_nat i - a))"

lemma mem_bytes_store:
  assumes "length bs < 2 ^ 64"
  shows "mem_bytes (mem_store a bs w) a (length bs) = bs"
proof (rule nth_equalityI)
  fix i assume i: "i < length (mem_bytes (mem_store a bs w) a (length bs))"
  then have i': "i < length bs" by (simp add: mem_bytes_def)
  have "unat (of_nat i :: u64) = i" using i' assms by (simp add: unat_of_nat)
  then show "mem_bytes (mem_store a bs w) a (length bs) ! i = bs ! i" using i' by (simp add: mem_bytes_def mem_store_def)
qed (simp add: mem_bytes_def)

lemma mem_bytes_le [simp]: "n < 2 ^ 64 \<Longrightarrow> mem_bytes (mem_store a (le_bytes n v) w) a n = le_bytes n v"
  using mem_bytes_store [of "le_bytes n v" a w] by simp

lemma mem_bytes_apart: "apart a (length bs) b m \<Longrightarrow> mem_bytes (mem_store a bs w) b m = mem_bytes w b m"
  by (simp add: mem_bytes_def mem_store_def apart_def not_less [symmetric])

section \<open>Registers\<close>

lemma reg_addr_frames [simp]: "reg_addr (s\<lparr>bs_world := w\<rparr>) r = reg_addr s r" "bs_ctx (set_reg r v s) = bs_ctx s"
  "reg_addr (set_reg r' v s) r = reg_addr s r"
  by (simp_all add: reg_addr_def set_reg_def)

lemma regs_apart:
  assumes "r < 11" and "r' < 11" and "r \<noteq> r'"
  shows "apart (reg_addr s r) 8 (reg_addr s r') 8"
  unfolding apart_def
proof (intro allI impI)
  fix i :: nat assume i: "i < 8"
  show "8 \<le> unat (reg_addr s r' + of_nat i - reg_addr s r)"
  proof (cases "r < r'")
    case True
    then obtain k where k: "r' = r + k" "0 < k" using less_imp_add_positive by metis
    have e: "reg_addr s r' + of_nat i - reg_addr s r = of_nat (8 * k + i)" by (simp add: reg_addr_def k(1) algebra_simps)
    have "unat (of_nat (8 * k + i) :: u64) = 8 * k + i" unfolding unat_of_nat using assms(2) k i by (intro mod_less) simp
    then show ?thesis unfolding e using k(2) by simp
  next
    case False
    then obtain k where k: "r = r' + k" "0 < k" using assms(3) less_imp_add_positive [of r' r] by auto
    have ki: "8 * k - i \<le> 80" "0 < 8 * k - i" "i \<le> 8 * k" using assms(1) k i by simp_all
    have e: "reg_addr s r' + of_nat i - reg_addr s r = - of_nat (8 * k - i)" using ki(3) by (simp add: reg_addr_def k(1) algebra_simps of_nat_diff)
    have "(of_nat (2 ^ 64 - (8 * k - i)) :: u64) = of_nat (2 ^ 64) - of_nat (8 * k - i)" using ki(1) by (intro of_nat_diff) simp
    also have "(of_nat (2 ^ 64) :: u64) = 0" by simp
    finally have m: "- (of_nat (8 * k - i) :: u64) = of_nat (2 ^ 64 - (8 * k - i))" by simp
    have "unat (- (of_nat (8 * k - i) :: u64)) = 2 ^ 64 - (8 * k - i)" unfolding m unat_of_nat using ki(1,2) by (intro mod_less) simp
    then show ?thesis unfolding e using ki(1) by simp
  qed
qed

lemma get_set_reg: "r < 10 \<Longrightarrow> get_reg (set_reg r v s) r = v"
  by (simp add: get_reg_def) (simp add: set_reg_def take_bit_word_eq_self)

lemma get_set_other [simp]: "r \<noteq> r' \<Longrightarrow> get_reg (set_reg r v s) r' = get_reg s r'"
  using mem_bytes_apart [of "reg_addr s r" "le_bytes 8 v" "reg_addr s r'" 8 "bs_world s"] regs_apart [of r r' s]
  by (auto simp: get_reg_def set_reg_def)

lemma fp_set [simp]: "get_reg (set_reg r v s) 10 = get_reg s 10"
  by (cases "r = 10") (simp_all add: set_reg_def [of 10])

lemma get_reg_write:
  assumes "apart a sz (reg_addr s r) 8"
  shows "get_reg (write_mem sz a v s) r = get_reg s r" and "bs_ctx (write_mem sz a v s) = bs_ctx s"
  using mem_bytes_apart [of a "le_bytes sz v" "reg_addr s r" 8 "bs_world s"] assms
  by (auto simp: write_mem_def get_reg_def)

definition prog_step :: "bpf_helpers \<Rightarrow> bpf_program_t \<Rightarrow> u64 \<Rightarrow> u32 \<times> bpf_state \<Rightarrow> u32 \<times> bpf_state \<Rightarrow> bool" where
  "prog_step hs p c = (\<lambda>(pc, s) (pc', s'). pc < pg_num_insns p \<and> bpf_exec hs p c pc s = NextPc pc' s')"



lemma rdtsc_mem [simp]: "rdtsc w = (t, w') \<Longrightarrow> mem_bytes w' a n = mem_bytes w a n"
  by (auto simp: rdtsc_def mem_bytes_def)





section \<open>The verifier\<close>

lemma verifier_0:
  "bpf_verifier ok (Some p) = 0 \<longleftrightarrow>
     pg_num_insns p \<noteq> 0 \<and> pg_num_insns p \<le> MAX_INSNS \<and> ok \<and> (\<forall>pc<unat (pg_num_insns p). \<not> bad_insn p pc)"
  by (auto simp: bpf_verifier_def first_index_None split: option.splits dest: first_index_SomeD)

lemma prog_allocD:
  assumes "bpf_prog_alloc ok1 ok2 ok3 insns n ty = Some p"
  shows "insns = Some (pg_insns p)" and "pg_num_insns p = n" and "n \<noteq> 0" and "n \<le> MAX_INSNS" and "pg_loaded p"
    and "\<And>pc. pc < unat n \<Longrightarrow> \<not> bad_insn p pc"
proof -
  obtain xs where xs: "insns = Some xs" using assms by (cases insns) (auto simp: bpf_prog_alloc_def)
  let ?q = "\<lparr>pg_insns = xs, pg_num_insns = n, pg_loaded = False, pg_type = ty, pg_jited_image = None, pg_jited_len = 0\<rparr>"
  have v: "bpf_verifier ok3 (Some ?q) = 0" and p: "p = ?q\<lparr>pg_loaded := True\<rparr>"
    using assms by (auto simp: bpf_prog_alloc_def xs Let_def split: if_splits)
  show "insns = Some (pg_insns p)" "pg_num_insns p = n" "n \<noteq> 0" "n \<le> MAX_INSNS" "pg_loaded p"
    using v by (simp_all add: p xs verifier_0)
  have "bad_insn p = bad_insn ?q" by (simp add: p bad_insn_def fun_eq_iff)
  then show "\<And>pc. pc < unat n \<Longrightarrow> \<not> bad_insn p pc" using v by (simp add: verifier_0)
qed

lemma start_fp: "get_reg (bpf_start ctx ctx_in w) 10 = ctx + 600"
  by (simp add: get_reg_def reg_addr_def bpf_start_def Let_def take_bit_word_eq_self)


text \<open>A world in which everything is 0, for concrete runs.\<close>

definition world_zero :: bpf_world where
  "world_zero = \<lparr>bw_mem = (\<lambda>_. 0), bw_tsc = (\<lambda>_. 0), bw_hpet_frequency = 0, bw_hpet_ticks = (\<lambda>_. 0), bw_prandom = 0,
     bw_serial = [], bw_maps = (\<lambda>_. None)\<rparr>"

text \<open>The program \<open>r0 = 5; r0 += 3; exit\<close>, with immediate operands.\<close>

definition add_prog :: "nat \<Rightarrow> bpf_insn_t" where
  "add_prog i = (if i = 0 then \<lparr>in_code = 0xB7, in_dst = 0, in_src = 0, in_off = 0, in_imm = 5\<rparr>
     else if i = 1 then \<lparr>in_code = 0x07, in_dst = 0, in_src = 0, in_off = 0, in_imm = 3\<rparr>
     else \<lparr>in_code = 0x95, in_dst = 0, in_src = 0, in_off = 0, in_imm = 0\<rparr>)"

abbreviation add_program :: bpf_program_t where
  "add_program \<equiv> \<lparr>pg_insns = add_prog, pg_num_insns = 3, pg_loaded = True, pg_type = 0, pg_jited_image = None, pg_jited_len = 0\<rparr>"

lemma add_prog_accepted: "bpf_prog_alloc True True True (Some add_prog) 3 0 = Some add_program"
proof -
  have "\<not> bad_insn (add_program\<lparr>pg_loaded := False\<rparr>) pc" if "pc < 3" for pc
  proof -
    from that consider "pc = 0" | "pc = 1" | "pc = 2" by linarith
    then show ?thesis by cases (simp_all add: bad_insn_def add_prog_def class_cases)
  qed
  then have "bpf_verifier True (Some (add_program\<lparr>pg_loaded := False\<rparr>)) = 0" unfolding verifier_0 by simp
  then show ?thesis by (simp add: bpf_prog_alloc_def)
qed



text \<open>The program \<open>*(r10 - 520) = r0; exit\<close> with a store of 8 bytes.\<close>

definition fp_prog :: "nat \<Rightarrow> bpf_insn_t" where
  "fp_prog i = (if i = 0 then \<lparr>in_code = 0x7B, in_dst = 10, in_src = 0, in_off = - 520, in_imm = 0\<rparr>
     else \<lparr>in_code = 0x95, in_dst = 0, in_src = 0, in_off = 0, in_imm = 0\<rparr>)"

text \<open>The kernel accepts it, and its first step overwrites the frame pointer.\<close>

theorem store_overwrites_frame_pointer:
  assumes "ctx \<noteq> - 80"
  shows "\<exists>p s'. bpf_prog_alloc True True True (Some fp_prog) 2 ty = Some p \<and>
    prog_step hs p ctx_in (0, bpf_start ctx ctx_in w) (1, s') \<and> get_reg s' 10 = get_reg (bpf_start ctx ctx_in w) 0"
proof -
  let ?p = "\<lparr>pg_insns = fp_prog, pg_num_insns = 2, pg_loaded = False, pg_type = ty, pg_jited_image = None, pg_jited_len = 0\<rparr>"
  let ?s = "bpf_start ctx ctx_in w"
  have "\<not> bad_insn ?p pc" if "pc < 2" for pc
  proof -
    from that consider "pc = 0" | "pc = 1" by linarith
    then show ?thesis by cases (simp_all add: bad_insn_def fp_prog_def class_cases)
  qed
  then have "bpf_verifier True (Some ?p) = 0" unfolding verifier_0 by simp
  then have a: "bpf_prog_alloc True True True (Some fp_prog) 2 ty = Some (?p\<lparr>pg_loaded := True\<rparr>)" by (simp add: bpf_prog_alloc_def)
  have ad: "get_reg ?s 10 + scast (- 520 :: u16) = ctx + 80" "bs_ctx ?s = ctx" "ctx + 80 \<noteq> 0"
    unfolding start_fp using assms by (simp_all add: bpf_start_def Let_def eq_neg_iff_add_eq_0)
  let ?t = "write_mem 8 (ctx + 80) (get_reg ?s 0) ?s"
  have "bpf_exec hs (?p\<lparr>pg_loaded := True\<rparr>) ctx_in 0 ?s = NextPc 1 ?t"
    using ad(1) by (simp add: bpf_exec_def exec_st_def fp_prog_def class_cases size_bytes_def) (simp add: add.commute)
  then have "prog_step hs (?p\<lparr>pg_loaded := True\<rparr>) ctx_in (0, ?s) (1, ?t)" by (simp add: prog_step_def)
  moreover have "get_reg (s\<lparr>bs_world := mem_store (reg_addr s 10) (le_bytes 8 v) w\<rparr>) 10 = v" for s v w
    by (simp add: get_reg_def take_bit_word_eq_self)
  from this [of ?s "get_reg ?s 0" "bs_world ?s"] have "get_reg ?t 10 = get_reg ?s 0"
    using ad(2,3) by (simp add: write_mem_def reg_addr_def)
  ultimately show ?thesis using a by blast
qed

section \<open>Runs that end\<close>

definition is_jump :: "bpf_insn_t \<Rightarrow> bool" where
  "is_jump insn \<longleftrightarrow> BPF_CLASS (in_code insn) \<in> {BPF_JMP, BPF_JMP32} \<and> BPF_OP (in_code insn) \<noteq> BPF_CALL \<and> BPF_OP (in_code insn) \<noteq> BPF_EXIT"

lemma forward_target:
  assumes "pc < MAX_INSNS" and "0 \<le> sint (in_off insn)"
  shows "unat pc < unat (jump_target insn pc)"
proof -
  have pc: "uint pc < 4096" using assms(1) by (simp add: word_less_def)
  have off: "sint (in_off insn) < 2 ^ 15" using sint_lt [of "in_off insn"] by simp
  have t: "jump_target insn pc = word_of_int (uint pc + sint (in_off insn) + 1)"
    by (simp add: jump_target_def)
  have "uint (jump_target insn pc) = uint pc + sint (in_off insn) + 1"
    unfolding t uint_word_of_int by (rule mod_pos_pos_trivial) (use pc off assms(2) in auto)
  then show ?thesis using assms(2) by (simp add: word_less_nat_alt [symmetric] word_less_def)
qed

definition forward_only :: "bpf_program_t \<Rightarrow> bool" where
  "forward_only p \<longleftrightarrow> (\<forall>pc<unat (pg_num_insns p). is_jump (pg_insns p pc) \<longrightarrow> 0 \<le> sint (in_off (pg_insns p pc)))"

lemma forward_step:
  assumes "forward_only p" and "pg_num_insns p \<le> MAX_INSNS" and "pc < pg_num_insns p" and "bpf_exec hs p c pc s = NextPc pc' s'"
  shows "unat pc < unat pc'"
proof -
  let ?i = "pg_insns p (unat pc)"
  have pc: "pc < MAX_INSNS" using assms(2,3) by (rule less_le_trans [rotated])
  have one: "unat pc < unat (pc + 1)" and two: "unat pc < unat (pc + 2)"
    using pc by (simp_all add: word_less_nat_alt unat_word_ariths)
  have j: "is_jump ?i \<Longrightarrow> unat pc < unat (jump_target ?i pc)"
    using forward_target [OF pc] assms(1,3) by (auto simp: forward_only_def word_less_nat_alt)
  have "pc' = pc + 1 \<or> pc' = pc + 2 \<or> is_jump ?i \<and> pc' = jump_target ?i pc"
    using assms(4)
    by (auto simp: bpf_exec_def exec_alu_def exec_jmp_def exec_call_def exec_ldx_def exec_st_def exec_ld_def Let_def is_jump_def
        split: if_splits option.splits prod.splits)
  with one two j show ?thesis by auto
qed

lemma forward_loop:
  assumes "forward_only p" and "pg_num_insns p \<le> MAX_INSNS"
  shows "\<exists>r s'. bpf_loop hs p c pc s = Some (r, s')"
proof (induction "unat (pg_num_insns p) - unat pc" arbitrary: pc s rule: less_induct)
  case less
  show ?case
  proof (cases "pc < pg_num_insns p")
    case True
    show ?thesis
    proof (cases "bpf_exec hs p c pc s")
      case (NextPc pc' s')
      have "unat pc < unat pc'" by (rule forward_step [OF assms True NextPc])
      then have "unat (pg_num_insns p) - unat pc' < unat (pg_num_insns p) - unat pc"
        using True by (simp add: word_less_nat_alt)
      from less [OF this, of s'] show ?thesis using True NextPc by (simp add: bpf_loop.simps)
    qed (use True in \<open>simp_all add: bpf_loop.simps\<close>)
  qed (simp add: bpf_loop.simps)
qed

text \<open>
  C7. A program that the kernel accepts and that only jumps forward ends: whatever the helpers do and
  whatever its data, its run returns a value.
\<close>

theorem forward_program_returns:
  assumes "bpf_prog_alloc ok1 ok2 ok3 insns n ty = Some p" and "forward_only p"
  shows "\<exists>r w'. bpf_prog_run hs ctx (Some p) ctx_in w = Some (r, w')"
proof -
  have "pg_num_insns p \<le> MAX_INSNS" using prog_allocD(2,4) [OF assms(1)] by simp
  from forward_loop [OF assms(2) this, of hs ctx_in 0 "bpf_start ctx ctx_in w"] show ?thesis
    using prog_allocD(5) [OF assms(1)] by (auto simp: bpf_prog_run_def)
qed

theorem forward_program_returns_witness:
  "\<exists>r w'. bpf_prog_run (\<lambda>_. None) 4096 (Some add_program) 0 world_zero = Some (r, w')"
proof -
  have "forward_only add_program" by (simp add: forward_only_def is_jump_def add_prog_def class_cases)
  from forward_program_returns [OF add_prog_accepted this] show ?thesis .
qed

text \<open>The program of one jump to itself.\<close>

definition ja_self :: bpf_insn_t where
  "ja_self = \<lparr>in_code = 5, in_dst = 0, in_src = 0, in_off = - 1, in_imm = 0\<rparr>"

lemma ja_self_exec:
  assumes "pg_insns p 0 = ja_self"
  shows "bpf_exec hs p c 0 s = NextPc 0 s"
  using assms by (simp add: bpf_exec_def ja_self_def exec_jmp_def class_cases jump_target_def Let_def)

lemma ja_self_loop:
  "bpf_loop hs p c pc s = Some r \<Longrightarrow> pg_insns p 0 = ja_self \<Longrightarrow> 0 < pg_num_insns p \<Longrightarrow> pc = 0 \<Longrightarrow> False"
proof (induction arbitrary: rule: bpf_loop.raw_induct [rotated, consumes 1])
  case (1 loop hs p c pc s r)
  then show ?case by (cases r) (auto simp: ja_self_exec)
qed

text \<open>
  The verifier does not see that a program never ends: it accepts the program that jumps to itself,
  and no run of that program returns.
\<close>

theorem verifier_accepts_endless_program:
  "\<exists>p. bpf_prog_alloc True True True (Some (\<lambda>_. ja_self)) 1 ty = Some p \<and>
     (\<forall>hs ctx ctx_in w. bpf_prog_run hs ctx (Some p) ctx_in w = None)"
proof -
  let ?q = "\<lparr>pg_insns = (\<lambda>_. ja_self), pg_num_insns = 1, pg_loaded = False, pg_type = ty, pg_jited_image = None, pg_jited_len = 0\<rparr>"
  have "\<not> bad_insn ?q 0" by (simp add: bad_insn_def ja_self_def class_cases jump_target_def Let_def)
  then have "bpf_verifier True (Some ?q) = 0" by (simp add: verifier_0)
  then have "bpf_prog_alloc True True True (Some (\<lambda>_. ja_self)) 1 ty = Some (?q\<lparr>pg_loaded := True\<rparr>)"
    by (simp add: bpf_prog_alloc_def Let_def)
  moreover have "bpf_prog_run hs ctx (Some (?q\<lparr>pg_loaded := True\<rparr>)) ctx_in w = None" for hs ctx ctx_in w
    using ja_self_loop [of hs "?q\<lparr>pg_loaded := True\<rparr>" ctx_in 0 "bpf_start ctx ctx_in w"]
    by (cases "bpf_loop hs (?q\<lparr>pg_loaded := True\<rparr>) ctx_in 0 (bpf_start ctx ctx_in w)") (auto simp: bpf_prog_run_def)
  ultimately show ?thesis by blast
qed

section \<open>Arithmetic\<close>

text \<open>The operations on 32 bits.\<close>

definition alu32_ref :: "u8 \<Rightarrow> u32 \<Rightarrow> u32 \<Rightarrow> u32 option" where
  "alu32_ref op a b =
     (if op = BPF_ADD then Some (a + b)
      else if op = BPF_SUB then Some (a - b)
      else if op = BPF_MUL then Some (a * b)
      else if op = BPF_OR then Some (a OR b)
      else if op = BPF_AND then Some (a AND b)
      else if op = BPF_XOR then Some (a XOR b)
      else if op = BPF_DIV then (if b = 0 then None else Some (a div b))
      else if op = BPF_MOD then (if b = 0 then None else Some (a mod b))
      else None)"

lemma mask32: "v AND 0xFFFFFFFF = (ucast (ucast v :: u32) :: u64)"
proof -
  have "(0xFFFFFFFF :: u64) = mask 32" by (simp add: mask_eq_exp_minus_1)
  then have "v AND 0xFFFFFFFF = take_bit 32 v" by (simp only: take_bit_eq_mask)
  also have "\<dots> = (ucast (ucast v :: u32) :: u64)" by (rule bit_eqI) (auto simp: bit_simps)
  finally show ?thesis .
qed

lemma low_arith:
  "(ucast (a + b :: u64) :: u32) = ucast a + ucast b" "(ucast (a - b :: u64) :: u32) = ucast a - ucast b"
  "(ucast (a * b :: u64) :: u32) = ucast a * ucast b" "(ucast (a OR b :: u64) :: u32) = ucast a OR ucast b"
  "(ucast (a AND b :: u64) :: u32) = ucast a AND ucast b" "(ucast (a XOR b :: u64) :: u32) = ucast a XOR ucast b"
proof -
  have t: "take_bit 32 (take_bit 64 x) = take_bit 32 (x :: int)" for x by simp
  have "take_bit 32 (take_bit 64 x + take_bit 64 y) = take_bit 32 (x + y :: int)"
    "take_bit 32 (take_bit 64 x - take_bit 64 y) = take_bit 32 (x - y :: int)"
    "take_bit 32 (take_bit 64 x * take_bit 64 y) = take_bit 32 (x * y :: int)" for x y
    using take_bit_add [of 32 "take_bit 64 x" "take_bit 64 y"] take_bit_add [of 32 x y]
      take_bit_diff [of 32 "take_bit 64 x" "take_bit 64 y"] take_bit_diff [of 32 x y]
      take_bit_mult [of 32 "take_bit 64 x" "take_bit 64 y"] take_bit_mult [of 32 x y] unfolding t by simp_all
  note r = this
  show "(ucast (a + b :: u64) :: u32) = ucast a + ucast b" by transfer (simp add: r)
  show "(ucast (a - b :: u64) :: u32) = ucast a - ucast b" by transfer (simp add: r)
  show "(ucast (a * b :: u64) :: u32) = ucast a * ucast b" by transfer (simp add: r)
qed (rule bit_eqI; auto simp: bit_simps)+

lemma small_unat: "v < 2 ^ 32 \<Longrightarrow> unat (ucast v :: u32) = unat (v :: u64)"
  by (simp add: unsigned_ucast_eq word_less_nat_alt take_bit_nat_eq_self)

lemma small_zero: "v < 2 ^ 32 \<Longrightarrow> (ucast v :: u32) = 0 \<longleftrightarrow> v = (0 :: u64)"
  using small_unat [of v] by (metis unat_eq_zero)

lemma low_div:
  assumes "a < 2 ^ 32" and "b < (2 ^ 32 :: u64)"
  shows "(ucast (a div b) :: u32) = ucast a div ucast b" and "(ucast (a mod b) :: u32) = ucast a mod ucast b"
proof -
  have d: "unat (a div b) < 2 ^ 32" "unat (a mod b) < 2 ^ 32"
    using assms(1) by (auto simp: unat_div_distrib unat_mod_distrib word_less_nat_alt
        intro: le_less_trans [OF div_le_dividend] le_less_trans [OF mod_less_eq_dividend])
  then have "a div b < 2 ^ 32" "a mod b < 2 ^ 32" by (simp_all add: word_less_nat_alt)
  from this [THEN small_unat] show "(ucast (a div b) :: u32) = ucast a div ucast b" "(ucast (a mod b) :: u32) = ucast a mod ucast b"
    unfolding word_unat_eq_iff by (simp_all add: unat_div_distrib unat_mod_distrib small_unat [OF assms(1)] small_unat [OF assms(2)])
qed

text \<open>
  C8. The arithmetic of the 32 bit class, which the interpreter does on 64 bits and cuts to 32, is that of 32 bits: additions,
  subtractions, products and the bitwise operations on the lower halves of any two registers, and quotients and remainders (with
  the abort for a zero divisor) when the upper halves are 0.
\<close>

theorem alu32_equals_reference:
  assumes "BPF_CLASS (in_code insn) = BPF_ALU" and "BPF_OP (in_code insn) = op" and "unat (in_dst insn) < 10"
    and "op \<in> {BPF_ADD, BPF_SUB, BPF_MUL, BPF_OR, BPF_AND, BPF_XOR} \<or>
      op \<in> {BPF_DIV, BPF_MOD} \<and> get_reg s (unat (in_dst insn)) < 2 ^ 32 \<and> get_reg s (unat (in_src insn)) < 2 ^ 32"
  shows "exec_alu insn pc s =
    (case alu32_ref op (ucast (get_reg s (unat (in_dst insn)))) (ucast (get_reg s (unat (in_src insn)))) of
       None \<Rightarrow> ExitAbort s
     | Some v \<Rightarrow> NextPc (pc + 1) (set_reg (unat (in_dst insn)) (ucast v) s))"
proof -
  let ?a = "get_reg s (unat (in_dst insn))" and ?b = "get_reg s (unat (in_src insn))"
  have "map_option (\<lambda>v. v AND 0xFFFFFFFF) (alu_op op src insn ?a ?b) = map_option ucast (alu32_ref op (ucast ?a) (ucast ?b))" for src
    using assms(4) by (auto simp: alu_op_def alu32_ref_def mask32 low_arith low_div small_zero)
  then have m: "map_option (\<lambda>v. v AND 0xFFFFFFFF) (alu_op op (BPF_SRC (in_code insn)) insn ?a ?b) =
      map_option ucast (alu32_ref op (ucast ?a) (ucast ?b))" .
  have n: "op \<noteq> BPF_END" "op \<noteq> BPF_NEG" using assms(4) by auto
  show ?thesis
    using m n assms(1,2) by (cases "alu_op op (BPF_SRC (in_code insn)) insn ?a ?b"; cases "alu32_ref op (ucast ?a) (ucast ?b)")
      (simp_all add: exec_alu_def)
qed

theorem alu32_equals_reference_witness:
  "let s = set_reg 1 0xFFFFFFFF (set_reg 2 2 (bpf_start 4096 0 world_zero))
   in exec_alu \<lparr>in_code = 0x0C, in_dst = 1, in_src = 2, in_off = 0, in_imm = 0\<rparr> 0 s = NextPc 1 (set_reg 1 1 s)"
proof -
  let ?i = "\<lparr>in_code = 0x0C, in_dst = 1, in_src = 2, in_off = 0, in_imm = 0\<rparr>"
  let ?s = "set_reg 1 0xFFFFFFFF (set_reg 2 2 (bpf_start 4096 0 world_zero))"
  have "BPF_CLASS (in_code ?i) = BPF_ALU" "BPF_OP (in_code ?i) = BPF_ADD" "unat (in_dst ?i) < 10"
    by (simp_all add: class_cases)
  from alu32_equals_reference [OF this, of ?s 0] show ?thesis by (simp add: alu32_ref_def get_set_reg)
qed

text \<open>
  The immediate operand of an arithmetic instruction has no effect: except for moves and byte swaps
  an instruction with an immediate does what the one with the source register in its place does.
\<close>

theorem alu_immediate_ignored:
  assumes "BPF_CLASS (in_code insn) \<in> {BPF_ALU, BPF_ALU64}" and "BPF_OP (in_code insn) \<notin> {BPF_MOV, BPF_END}"
  shows "exec_alu insn pc s = exec_alu (insn\<lparr>in_code := in_code insn OR 8, in_imm := x\<rparr>) pc s"
proof -
  have c: "BPF_CLASS (c OR 8) = BPF_CLASS c" "BPF_OP (c OR 8) = BPF_OP c" for c
    by (simp_all add: class_cases bit.conj_disj_distrib2)
  have "alu_op op src insn a b = alu_op op src' (insn\<lparr>in_code := c, in_imm := x\<rparr>) a b"
    if "op \<notin> {BPF_MOV, BPF_END}" for op src src' a b c
    using that by (simp add: alu_op_def)
  note a = this [OF assms(2), of "BPF_SRC (in_code insn)" _ _ "BPF_SRC (in_code insn OR 8)" "in_code insn OR 8"]
  show ?thesis unfolding exec_alu_def Let_def by (simp add: c a cong: option.case_cong)
qed

theorem alu_immediate_ignored_witness:
  "exec_alu (add_prog 1) 1 (set_reg 0 5 (bpf_start 4096 0 world_zero)) =
     NextPc 2 (set_reg 0 10 (set_reg 0 5 (bpf_start 4096 0 world_zero)))"
proof -
  have "BPF_CLASS (in_code (add_prog 1)) \<in> {BPF_ALU, BPF_ALU64}" "BPF_OP (in_code (add_prog 1)) \<notin> {BPF_MOV, BPF_END}"
    by (simp_all add: add_prog_def class_cases)
  from alu_immediate_ignored [OF this, of 1 "set_reg 0 5 (bpf_start 4096 0 world_zero)" 0] show ?thesis
    by (simp add: exec_alu_def add_prog_def class_cases alu_op_def get_set_reg)
qed

section \<open>Loads and stores\<close>

lemma size_bytes_cases: "size_bytes z \<in> {1, 2, 4, 8}"
  by (simp add: size_bytes_def)

lemma read_write:
  assumes "a \<noteq> 0" and "n \<in> {1, 2, 4, 8}"
  shows "read_mem (write_mem n a v s) n a = take_bit (8 * n) v"
proof -
  have n: "n \<in> {1, 2, 4, 8} \<longleftrightarrow> True" "length (le_bytes n v) = n" "n < 2 ^ 64" using assms(2) by auto
  have b: "mem_bytes (mem_store a (le_bytes n v) (bs_world s)) a n = le_bytes n v"
    using n(3) by (rule mem_bytes_le)
  show ?thesis unfolding read_mem_def write_mem_def n(1) if_True using assms(1) by (simp add: b)
qed

text \<open>
  A load reads what was stored: a store of a register and a load of the same size from the same address, which is not 0,
  give the loaded register the low bytes of the stored one, as many as the size is, when the store does not reach the register that
  the address is taken from.
\<close>

theorem load_after_store:
  assumes "BPF_CLASS (in_code st) = BPF_STX" and "BPF_SIZE (in_code ld) = BPF_SIZE (in_code st)"
    and "in_src ld = in_dst st" and "in_off ld = in_off st" and "unat (in_dst ld) < 10"
    and "get_reg s (unat (in_dst st)) + scast (in_off st) \<noteq> 0"
    and "apart (get_reg s (unat (in_dst st)) + scast (in_off st)) (size_bytes (BPF_SIZE (in_code st))) (reg_addr s (unat (in_dst st))) 8"
    and "exec_st st pc s = NextPc pc1 s1" and "exec_ldx ld pc1 s1 = NextPc pc2 s2"
  shows "get_reg s2 (unat (in_dst ld)) = take_bit (8 * size_bytes (BPF_SIZE (in_code st))) (get_reg s (unat (in_src st)))"
proof -
  have s1: "s1 = write_mem (size_bytes (BPF_SIZE (in_code st))) (get_reg s (unat (in_dst st)) + scast (in_off st))
      (get_reg s (unat (in_src st))) s"
    using assms(8) by (simp add: exec_st_def assms(1) Let_def)
  show ?thesis
    using assms(9) read_write [OF assms(6) size_bytes_cases]
    by (auto simp: exec_ldx_def s1 assms(2-4) get_set_reg [OF assms(5)] get_reg_write(1) [OF assms(7)])
qed

section \<open>The JIT compiler\<close>

definition jit_bytes :: "bpf_insn_t \<Rightarrow> u8 list" where
  "jit_bytes insn = jit_insn insn []"

lemma emit_byte_room: "length buf < 65536 \<Longrightarrow> emit_byte b buf = buf @ [b]"
  by (simp add: emit_byte_def)

lemmas emit_defs = emit_dword_def emit_mov_reg_def emit_add_reg_def emit_ret_def

lemma jit_insn_room:
  assumes "length buf + 7 \<le> 65536"
  shows "jit_insn insn buf = buf @ jit_bytes insn" and "length (jit_bytes insn) \<le> 7"
  using assms by (simp_all add: jit_bytes_def jit_insn_def Let_def emit_defs emit_byte_room)

lemma jit_fold:
  "length buf + 7 * length is \<le> 65536 \<Longrightarrow>
     fold jit_insn is buf = buf @ concat (map jit_bytes is) \<and> length (concat (map jit_bytes is)) \<le> 7 * length is"
proof (induction "is" arbitrary: buf)
  case (Cons a "is")
  then have r: "jit_insn a buf = buf @ jit_bytes a" "length (jit_bytes a) \<le> 7" using jit_insn_room [of buf a] by auto
  with Cons.IH [of "buf @ jit_bytes a"] Cons.prems show ?case by simp
qed simp

text \<open>The instructions that the compiler knows.\<close>

definition jit_knows :: "bpf_insn_t \<Rightarrow> bool" where
  "jit_knows insn \<longleftrightarrow> (let cls = BPF_CLASS (in_code insn); op = BPF_OP (in_code insn)
     in cls = BPF_ALU64 \<and> op \<in> {BPF_MOV, BPF_ADD} \<or> cls = BPF_JMP \<and> op = BPF_EXIT)"

lemma jit_unknown: "\<not> jit_knows insn \<Longrightarrow> jit_bytes insn = []"
  by (auto simp: jit_knows_def jit_bytes_def jit_insn_def Let_def)

text \<open>
  The image of a program that the kernel accepts never fills the buffer: it has at most 7 bytes per instruction, none is cut off,
  and it is the concatenation of the bytes of the moves, additions and exits in their order. Every other
  instruction is left out of it without an error.
\<close>

theorem jit_image_complete:
  assumes "bpf_prog_alloc ok1 ok2 ok3 insns n ty = Some p" and "bpf_jit_compile (Some p) = (r, Some q)"
  shows "r = 0 \<and> pg_jited_image q = Some (concat (map jit_bytes (filter jit_knows (table (pg_insns p) (unat n))))) \<and>
    unat (pg_jited_len q) = length (the (pg_jited_image q)) \<and> unat (pg_jited_len q) \<le> 7 * unat n \<and> 7 * unat n < BPF_JIT_SIZE"
proof -
  let ?is = "table (pg_insns p) (unat n)"
  have n: "unat n \<le> 4096" using prog_allocD(4) [OF assms(1)] by (simp add: word_le_nat_alt)
  have f: "fold jit_insn ?is [] = concat (map jit_bytes ?is)" "length (concat (map jit_bytes ?is)) \<le> 7 * unat n"
    using jit_fold [of "[]" ?is] n by auto
  have known: "concat (map jit_bytes xs) = concat (map jit_bytes (filter jit_knows xs))" for xs
    by (induction xs) (auto simp: jit_unknown)
  have q: "r = 0" "q = p\<lparr>pg_jited_len := of_nat (length (concat (map jit_bytes ?is))),
      pg_jited_image := Some (concat (map jit_bytes ?is)), pg_loaded := True\<rparr>"
    using assms(2) prog_allocD(2) [OF assms(1)] f(1) by (auto simp: bpf_jit_compile_def Let_def)
  have "unat (of_nat (length (concat (map jit_bytes ?is))) :: u32) = length (concat (map jit_bytes ?is))"
    using f(2) n by (simp add: unat_of_nat)
  then show ?thesis using q f(2) n known [of ?is] by simp
qed

theorem jit_image_complete_witness:
  "\<exists>q. bpf_jit_compile (Some add_program) = (0, Some q) \<and>
     pg_jited_image q = Some [0x48, 0xC7, 0xC0, 5, 0, 0, 0, 0x48, 0x83, 0xC0, 3, 0x48, 0x89, 0xF8, 0xC3]"
proof -
  obtain q where q: "bpf_jit_compile (Some add_program) = (0, Some q)" by (simp add: bpf_jit_compile_def Let_def)
  from jit_image_complete [OF add_prog_accepted q]
  have "pg_jited_image q = Some (concat (map jit_bytes (filter jit_knows (table add_prog 3))))" by simp
  also have "table add_prog 3 = [add_prog 0, add_prog 1, add_prog 2]" by (simp add: table_Suc numeral_3_eq_3 numeral_2_eq_2)
  finally have "pg_jited_image q = Some [0x48, 0xC7, 0xC0, 5, 0, 0, 0, 0x48, 0x83, 0xC0, 3, 0x48, 0x89, 0xF8, 0xC3]"
    by (simp add: jit_knows_def jit_bytes_def jit_insn_def add_prog_def class_cases emit_defs emit_byte_def Let_def)
  with q show ?thesis by blast
qed

end
