(* ===== verification/Buddy.thy ===== *)
theory Buddy
  imports Interfaces "HOL-Library.Monad_Syntax"
begin

text \<open>
  The page allocator of \<open>kernel/arch/x86_64/buddy.c\<close>. A pointer to a page structure is the frame number of the page,
  which \<open>buddy_init\<close> stores in \<open>pfn\<close> and nothing changes: the arrays of the zones do not overlap. The
  free lists are linked through the page structures. A walk along a list that does not end, because the list
  has become a cycle, is \<open>None\<close> in the outer option of an operation.
\<close>

section \<open>Data\<close>

abbreviation (input) BUDDY_MAX_ORDER :: nat where "BUDDY_MAX_ORDER \<equiv> 11"
abbreviation (input) PAGE_SIZE :: u64 where "PAGE_SIZE \<equiv> 4096"
abbreviation (input) SIZEOF_PAGE :: u64 where "SIZEOF_PAGE \<equiv> 48"
abbreviation (input) ZONE_DMA :: int where "ZONE_DMA \<equiv> 0"
abbreviation (input) ZONE_DMA32 :: int where "ZONE_DMA32 \<equiv> 1"
abbreviation (input) ZONE_NORMAL :: int where "ZONE_NORMAL \<equiv> 2"
abbreviation (input) ZONE_MAX :: int where "ZONE_MAX \<equiv> 3"
abbreviation (input) ZONE_DMA_END :: u64 where "ZONE_DMA_END \<equiv> 16777216"
abbreviation (input) ZONE_DMA32_END :: u64 where "ZONE_DMA32_END \<equiv> 4294967296"
abbreviation (input) PAGE_FLAG_USED :: u32 where "PAGE_FLAG_USED \<equiv> 1"
abbreviation (input) PAGE_FLAG_RESERVED :: u32 where "PAGE_FLAG_RESERVED \<equiv> 2"

type_synonym pfn = u64

record page_t =
  pg_next :: "pfn option"
  pg_prev :: "pfn option"
  pg_order :: nat
  pg_flags :: u32
  pg_refcount :: u32
  pg_zone_idx :: int
  pg_slab_cache :: "nat option"

type_synonym pages = "pfn \<Rightarrow> page_t"

record buddy_zone_t =
  zn_free_list :: "nat \<Rightarrow> pfn option"
  zn_free_count :: "nat \<Rightarrow> u64"
  zn_total_pages :: u64
  zn_used_pages :: u64
  zn_reserved_pages :: u64
  zn_free_pages :: u64
  zn_managed_pages :: u64
  zn_base_pfn :: pfn
  zn_end_pfn :: pfn
  zn_zone_type :: int

definition zone_zero :: buddy_zone_t where
  "zone_zero = \<lparr>zn_free_list = (\<lambda>_. None), zn_free_count = (\<lambda>_. 0), zn_total_pages = 0, zn_used_pages = 0,
     zn_reserved_pages = 0, zn_free_pages = 0, zn_managed_pages = 0, zn_base_pfn = 0, zn_end_pfn = 0, zn_zone_type = 0\<rparr>"

text \<open>One zone and the page structures.\<close>

record zst =
  zs_zone :: buddy_zone_t
  zs_pages :: pages

definition upd_page :: "pfn \<Rightarrow> (page_t \<Rightarrow> page_t) \<Rightarrow> zst \<Rightarrow> zst" where
  "upd_page p f s = s\<lparr>zs_pages := (zs_pages s)(p := f (zs_pages s p))\<rparr>"

section \<open>Free lists\<close>

definition pg_list_del :: "pfn \<Rightarrow> zst \<Rightarrow> zst" where
  "pg_list_del p s =
     (let s1 = (case pg_prev (zs_pages s p) of None \<Rightarrow> s
                | Some a \<Rightarrow> upd_page a (\<lambda>g. g\<lparr>pg_next := pg_next (zs_pages s p)\<rparr>) s);
          s2 = (case pg_next (zs_pages s1 p) of None \<Rightarrow> s1
                | Some b \<Rightarrow> upd_page b (\<lambda>g. g\<lparr>pg_prev := pg_prev (zs_pages s1 p)\<rparr>) s1)
      in upd_page p (\<lambda>g. g\<lparr>pg_next := None, pg_prev := None\<rparr>) s2)"

definition set_head :: "nat \<Rightarrow> pfn option \<Rightarrow> zst \<Rightarrow> zst" where
  "set_head o' h s = s\<lparr>zs_zone := (zs_zone s)\<lparr>zn_free_list := (zn_free_list (zs_zone s))(o' := h)\<rparr>\<rparr>"

definition add_count :: "nat \<Rightarrow> u64 \<Rightarrow> zst \<Rightarrow> zst" where
  "add_count o' d s =
     s\<lparr>zs_zone := (zs_zone s)\<lparr>zn_free_count := (zn_free_count (zs_zone s))(o' := zn_free_count (zs_zone s) o' + d)\<rparr>\<rparr>"

definition pg_list_add :: "nat \<Rightarrow> pfn \<Rightarrow> zst \<Rightarrow> zst" where
  "pg_list_add o' p s =
     (let h = zn_free_list (zs_zone s) o';
          s1 = upd_page p (\<lambda>g. g\<lparr>pg_next := h, pg_prev := None\<rparr>) s;
          s2 = (case h of None \<Rightarrow> s1 | Some b \<Rightarrow> upd_page b (\<lambda>g. g\<lparr>pg_prev := Some p\<rparr>) s1)
      in add_count o' 1 (set_head o' (Some p) s2))"

definition pg_list_pop :: "nat \<Rightarrow> zst \<Rightarrow> pfn option \<times> zst" where
  "pg_list_pop o' s =
     (case zn_free_list (zs_zone s) o' of
        None \<Rightarrow> (None, s)
      | Some p \<Rightarrow>
          let n = pg_next (zs_pages s p);
              s1 = set_head o' n s;
              s2 = (case n of None \<Rightarrow> s1 | Some b \<Rightarrow> upd_page b (\<lambda>g. g\<lparr>pg_prev := None\<rparr>) s1);
              s3 = upd_page p (\<lambda>g. g\<lparr>pg_next := None, pg_prev := None\<rparr>) s2
          in (Some p, add_count o' (- 1) s3))"

definition buddy_pfn :: "pfn \<Rightarrow> nat \<Rightarrow> pfn" where
  "buddy_pfn p o' = p XOR push_bit o' 1"

text \<open>\<open>None\<close> is a walk that never ends.\<close>

partial_function (option) in_walk :: "pages \<Rightarrow> pfn \<Rightarrow> pfn option \<Rightarrow> bool option" where
  "in_walk pg p h = (case h of None \<Rightarrow> Some False | Some q \<Rightarrow> if q = p then Some True else in_walk pg p (pg_next (pg q)))"

definition in_freelist :: "nat \<Rightarrow> pfn \<Rightarrow> zst \<Rightarrow> bool option" where
  "in_freelist o' p s = in_walk (zs_pages s) p (zn_free_list (zs_zone s) o')"

definition pfn_to_page :: "buddy_zone_t \<Rightarrow> pfn \<Rightarrow> pfn option" where
  "pfn_to_page z p = (if p < zn_base_pfn z \<or> p \<ge> zn_end_pfn z then None else Some p)"

section \<open>Initialisation\<close>

text \<open>The largest order from \<open>o'\<close> down whose blocks fit into \<open>n\<close> pages.\<close>

fun order_down :: "nat \<Rightarrow> nat \<Rightarrow> nat" where
  "order_down n 0 = 0"
| "order_down n (Suc k) = (if 2 ^ Suc k > n then order_down n k else Suc k)"

lemma order_down_fits: "0 < n \<Longrightarrow> 2 ^ order_down n k \<le> n"
  by (induction k) auto

lemma order_down_le: "order_down n k \<le> k"
  by (induction k) auto

text \<open>The loop that cuts the \<open>n\<close> pages from frame \<open>p\<close> on into free blocks.\<close>

function carve :: "pfn \<Rightarrow> nat \<Rightarrow> zst \<Rightarrow> zst" where
  "carve p n s =
     (if n = 0 then s
      else let k = order_down n BUDDY_MAX_ORDER
           in carve (p + 2 ^ k) (n - 2 ^ k) (pg_list_add k p (upd_page p (\<lambda>g. g\<lparr>pg_order := k\<rparr>) s)))"
  by pat_completeness auto
termination
  by (relation "measure (\<lambda>(p, n, s). n)") (auto simp: Let_def)

declare carve.simps [simp del]

definition free_total :: "buddy_zone_t \<Rightarrow> u64" where
  "free_total z = (\<Sum>i\<leftarrow>[0..<Suc BUDDY_MAX_ORDER]. zn_free_count z i * 2 ^ i)"

text \<open>
  The array of the page structures lies in the zone's first pages. The clearing of the zone clears its
  \<open>zone_type\<close>, which the pages then get as their zone.
\<close>

definition buddy_init :: "u64 \<Rightarrow> u64 \<Rightarrow> zst \<Rightarrow> int \<times> zst" where
  "buddy_init base_addr size_bytes s =
     (let base = base_addr div PAGE_SIZE;
          n = size_bytes div PAGE_SIZE;
          z = zone_zero\<lparr>zn_base_pfn := base, zn_end_pfn := base + n, zn_total_pages := n\<rparr>
      in if n = 0 then (- 1, s\<lparr>zs_zone := z\<rparr>)
         else
           let array_pages = (n * SIZEOF_PAGE + PAGE_SIZE - 1) div PAGE_SIZE;
               in_zone = (\<lambda>p. unat (p - base) < unat n);
               pages = (\<lambda>p. if in_zone p
                            then \<lparr>pg_next = None, pg_prev = None, pg_order = 0,
                                  pg_flags = (if unat (p - base) < unat array_pages then PAGE_FLAG_RESERVED else 0),
                                  pg_refcount = 0, pg_zone_idx = zn_zone_type z, pg_slab_cache = None\<rparr>
                            else zs_pages s p);
               s1 = carve (base + array_pages) (unat (n - array_pages))
                      \<lparr>zs_zone = z\<lparr>zn_reserved_pages := array_pages\<rparr>, zs_pages = pages\<rparr>;
               z1 = zs_zone s1
           in (0, s1\<lparr>zs_zone := z1\<lparr>zn_free_pages := free_total z1, zn_managed_pages := free_total z1\<rparr>\<rparr>))"

section \<open>Allocation\<close>

text \<open>Reserved pages on the free list are dropped.\<close>

partial_function (option) pop_unreserved :: "nat \<Rightarrow> zst \<Rightarrow> (pfn option \<times> zst) option" where
  "pop_unreserved o' s = (case pg_list_pop o' s of
       (None, s1) \<Rightarrow> Some (None, s1)
     | (Some p, s1) \<Rightarrow>
         if pg_flags (zs_pages s1 p) AND PAGE_FLAG_RESERVED \<noteq> 0 then pop_unreserved o' s1 else Some (Some p, s1))"

text \<open>The block at \<open>p\<close> is halved until its order is \<open>lo\<close>; every upper half becomes a free block.\<close>

fun split_block :: "pfn \<Rightarrow> nat \<Rightarrow> nat \<Rightarrow> zst \<Rightarrow> zst" where
  "split_block p lo 0 s = s"
| "split_block p lo (Suc c) s =
     (if Suc c > lo
      then split_block p lo c
             (case pfn_to_page (zs_zone s) (buddy_pfn p c) of
                None \<Rightarrow> s
              | Some b \<Rightarrow> pg_list_add c b (upd_page b (\<lambda>g. g\<lparr>pg_order := c, pg_flags := 0, pg_refcount := 0\<rparr>) s))
      else s)"

definition buddy_alloc_pages :: "nat \<Rightarrow> zst \<Rightarrow> (pfn option \<times> zst) option" where
  "buddy_alloc_pages order s =
     (if order > BUDDY_MAX_ORDER then Some (None, s)
      else case find (\<lambda>i. zn_free_list (zs_zone s) i \<noteq> None) [order..<Suc BUDDY_MAX_ORDER] of
             None \<Rightarrow> Some (None, s)
           | Some c \<Rightarrow> do {
               (page, s1) \<leftarrow> pop_unreserved c s;
               Some (case page of
                 None \<Rightarrow> (None, s1)
               | Some p \<Rightarrow>
                   let s2 = upd_page p (\<lambda>g. g\<lparr>pg_flags := pg_flags g OR PAGE_FLAG_USED, pg_refcount := 1\<rparr>) s1;
                       s3 = upd_page p (\<lambda>g. g\<lparr>pg_order := order\<rparr>) (split_block p order c s2);
                       z = zs_zone s3
                   in (Some p, s3\<lparr>zs_zone := z\<lparr>zn_used_pages := zn_used_pages z + 2 ^ order,
                                               zn_free_pages := zn_free_pages z - 2 ^ order\<rparr>\<rparr>))
             })"

definition order_for :: "nat \<Rightarrow> nat" where
  "order_for n = (case first_index (\<lambda>i. \<not> 2 ^ i < n) BUDDY_MAX_ORDER of None \<Rightarrow> BUDDY_MAX_ORDER | Some i \<Rightarrow> i)"

definition buddy_alloc_pages_n :: "nat \<Rightarrow> zst \<Rightarrow> (pfn option \<times> zst) option" where
  "buddy_alloc_pages_n n s =
     (if n = 0 \<or> n > 2 ^ BUDDY_MAX_ORDER then Some (None, s) else buddy_alloc_pages (order_for n) s)"

section \<open>Release\<close>

text \<open>The loop that joins a free block with its buddy, as long as that is free, too.\<close>

function merge_up :: "pfn \<Rightarrow> nat \<Rightarrow> zst \<Rightarrow> (pfn \<times> nat \<times> zst) option" where
  "merge_up p order s =
     (if order \<ge> BUDDY_MAX_ORDER then Some (p, order, s)
      else case pfn_to_page (zs_zone s) (buddy_pfn p order) of
             None \<Rightarrow> Some (p, order, s)
           | Some b \<Rightarrow>
               if pg_flags (zs_pages s b) AND PAGE_FLAG_USED \<noteq> 0 \<or> pg_order (zs_pages s b) \<noteq> order then Some (p, order, s)
               else do {
                 listed \<leftarrow> in_freelist order b s;
                 if \<not> listed then Some (p, order, s)
                 else merge_up (if b < p then b else p) (order + 1) (add_count order (- 1) (pg_list_del b s))
               })"
  by pat_completeness auto
termination by (relation "measure (\<lambda>(p, order, s). BUDDY_MAX_ORDER - order)") auto

declare merge_up.simps [simp del]

definition buddy_free_pages :: "pfn option \<Rightarrow> zst \<Rightarrow> zst option" where
  "buddy_free_pages page s =
     (case page of
        None \<Rightarrow> Some s
      | Some p \<Rightarrow>
          if pg_flags (zs_pages s p) AND PAGE_FLAG_USED = 0 then Some s
          else
            let order = pg_order (zs_pages s p);
                s1 = upd_page p (\<lambda>g. g\<lparr>pg_flags := pg_flags g AND NOT PAGE_FLAG_USED, pg_refcount := 0\<rparr>) s;
                z = zs_zone s1;
                s2 = s1\<lparr>zs_zone := z\<lparr>zn_used_pages := zn_used_pages z - push_bit order 1,
                                      zn_free_pages := zn_free_pages z + push_bit order 1\<rparr>\<rparr>
            in do {
                 (q, k, s3) \<leftarrow> merge_up p order s2;
                 Some (pg_list_add k q (upd_page q (\<lambda>g. g\<lparr>pg_order := k\<rparr>) s3))
               })"

text \<open>The walk of \<open>buddy_defragment\<close> along one list; the result counts the blocks joined.\<close>

partial_function (option) defrag_walk :: "nat \<Rightarrow> pfn option \<Rightarrow> int \<Rightarrow> zst \<Rightarrow> (int \<times> zst) option" where
  "defrag_walk order h merged s = (case h of
       None \<Rightarrow> Some (merged, s)
     | Some p \<Rightarrow>
         let n = pg_next (zs_pages s p)
         in case pfn_to_page (zs_zone s) (buddy_pfn p order) of
              None \<Rightarrow> defrag_walk order n merged s
            | Some b \<Rightarrow>
                if pg_flags (zs_pages s b) AND PAGE_FLAG_USED \<noteq> 0 \<or> pg_order (zs_pages s b) \<noteq> order
                then defrag_walk order n merged s
                else do {
                  listed \<leftarrow> in_freelist order b s;
                  if \<not> listed then defrag_walk order n merged s
                  else
                    let m = (if p < b then p else b);
                        s1 = add_count order (- 2) (pg_list_del b (pg_list_del p s));
                        s2 = pg_list_add (order + 1) m (upd_page m (\<lambda>g. g\<lparr>pg_order := order + 1\<rparr>) s1)
                    in defrag_walk order n (merged + 1) s2
                })"

fun defrag_orders :: "nat list \<Rightarrow> int \<Rightarrow> zst \<Rightarrow> (int \<times> zst) option" where
  "defrag_orders [] merged s = Some (merged, s)"
| "defrag_orders (k # ks) merged s = do {
     (merged', s') \<leftarrow> defrag_walk k (zn_free_list (zs_zone s) k) merged s;
     defrag_orders ks merged' s'
   }"

definition buddy_defragment :: "zst \<Rightarrow> (int \<times> zst) option" where
  "buddy_defragment s = defrag_orders [0..<BUDDY_MAX_ORDER] 0 s"

section \<open>The zones of the system\<close>

record buddy_system_t =
  sy_zones :: "int \<Rightarrow> buddy_zone_t"
  sy_present :: "int \<Rightarrow> bool"
  sy_nr_zones :: int
  sy_total_system_pages :: u64
  sy_pages :: pages
  sy_initialized :: bool

definition on_zone :: "int \<Rightarrow> (zst \<Rightarrow> ('r \<times> zst) option) \<Rightarrow> buddy_system_t \<Rightarrow> ('r \<times> buddy_system_t) option" where
  "on_zone z f y =
     map_option (\<lambda>(r, s). (r, y\<lparr>sy_zones := (sy_zones y)(z := zs_zone s), sy_pages := zs_pages s\<rparr>))
       (f \<lparr>zs_zone = sy_zones y z, zs_pages = sy_pages y\<rparr>)"

definition init_zone :: "int \<Rightarrow> u64 \<Rightarrow> u64 \<Rightarrow> buddy_system_t \<Rightarrow> buddy_system_t" where
  "init_zone z base sz y =
     (let s = snd (buddy_init base sz \<lparr>zs_zone = (sy_zones y z)\<lparr>zn_zone_type := z\<rparr>, zs_pages = sy_pages y\<rparr>)
      in y\<lparr>sy_zones := (sy_zones y)(z := zs_zone s), sy_pages := zs_pages s,
           sy_present := (sy_present y)(z := True), sy_nr_zones := sy_nr_zones y + 1\<rparr>)"

definition buddy_global_init :: "u64 \<Rightarrow> u64 \<Rightarrow> buddy_system_t \<Rightarrow> buddy_system_t" where
  "buddy_global_init base_addr total_size y0 =
     (if sy_initialized y0 then y0
      else
        let y = y0\<lparr>sy_present := (\<lambda>_. False), sy_nr_zones := 0, sy_total_system_pages := 0\<rparr>;
            dma_end = min ZONE_DMA_END total_size;
            dma_size = dma_end - (if base_addr < dma_end then base_addr else dma_end);
            y1 = (if dma_size > 0 \<and> dma_size \<ge> PAGE_SIZE then init_zone ZONE_DMA base_addr dma_size y else y);
            dma32_end = min ZONE_DMA32_END total_size;
            dma32_size = dma32_end - dma_end;
            y2 = (if dma32_size > 0 \<and> dma32_size \<ge> PAGE_SIZE then init_zone ZONE_DMA32 dma_end dma32_size y1 else y1);
            normal_size = total_size - dma32_end;
            y3 = (if normal_size > 0 \<and> normal_size \<ge> PAGE_SIZE then init_zone ZONE_NORMAL dma32_end normal_size y2 else y2);
            y4 = y3\<lparr>sy_total_system_pages := total_size div PAGE_SIZE\<rparr>;
            y5 = (if sy_nr_zones y4 = 0 then (init_zone ZONE_NORMAL base_addr total_size y4)\<lparr>sy_nr_zones := 1\<rparr> else y4)
        in y5\<lparr>sy_initialized := True\<rparr>)"

text \<open>The first of the given zones that has a block.\<close>

fun alloc_from :: "int list \<Rightarrow> nat \<Rightarrow> buddy_system_t \<Rightarrow> (pfn option \<times> buddy_system_t) option" where
  "alloc_from [] order y = Some (None, y)"
| "alloc_from (z # zs) order y = do {
     (p, y') \<leftarrow> on_zone z (buddy_alloc_pages order) y;
     (case p of None \<Rightarrow> alloc_from zs order y' | Some q \<Rightarrow> Some (Some q, y'))
   }"

definition alloc_pages_zone :: "nat \<Rightarrow> int \<Rightarrow> buddy_system_t \<Rightarrow> (pfn option \<times> buddy_system_t) option" where
  "alloc_pages_zone order zone_hint y =
     (if \<not> sy_initialized y then Some (None, y)
      else alloc_from ((if 0 \<le> zone_hint \<and> zone_hint < ZONE_MAX \<and> sy_present y zone_hint then [zone_hint] else []) @
             filter (\<lambda>z. z \<noteq> zone_hint \<and> sy_present y z) [ZONE_NORMAL, ZONE_DMA32, ZONE_DMA]) order y)"

definition alloc_pages_dma :: "nat \<Rightarrow> buddy_system_t \<Rightarrow> (pfn option \<times> buddy_system_t) option" where
  "alloc_pages_dma order y = alloc_pages_zone order ZONE_DMA y"

definition alloc_pages_dma32 :: "nat \<Rightarrow> buddy_system_t \<Rightarrow> (pfn option \<times> buddy_system_t) option" where
  "alloc_pages_dma32 order y = alloc_pages_zone order ZONE_DMA32 y"

definition alloc_pages :: "nat \<Rightarrow> buddy_system_t \<Rightarrow> (pfn option \<times> buddy_system_t) option" where
  "alloc_pages order y = (if \<not> sy_initialized y then Some (None, y) else alloc_pages_zone order ZONE_NORMAL y)"

definition page_to_virt :: "pfn \<Rightarrow> u64" where
  "page_to_virt p = p * PAGE_SIZE"

definition virt_to_page :: "buddy_zone_t \<Rightarrow> u64 \<Rightarrow> pfn option" where
  "virt_to_page z v = pfn_to_page z (v div PAGE_SIZE)"

text \<open>The zone that the page names, else the first that contains it.\<close>

definition zone_of_page :: "pfn \<Rightarrow> buddy_system_t \<Rightarrow> int option" where
  "zone_of_page p y =
     (let i = pg_zone_idx (sy_pages y p)
      in if 0 \<le> i \<and> i < ZONE_MAX \<and> sy_present y i then Some i
         else find (\<lambda>z. sy_present y z \<and> zn_base_pfn (sy_zones y z) \<le> p \<and> p < zn_end_pfn (sy_zones y z)) [0, 1, 2])"

definition free_pages :: "pfn option \<Rightarrow> buddy_system_t \<Rightarrow> buddy_system_t option" where
  "free_pages page y =
     (case page of
        None \<Rightarrow> Some y
      | Some p \<Rightarrow>
          if \<not> sy_initialized y then Some y
          else case zone_of_page p y of
                 None \<Rightarrow> Some y
               | Some z \<Rightarrow> map_option snd (on_zone z (\<lambda>s. map_option (Pair ()) (buddy_free_pages (Some p) s)) y))"

definition alloc_pages_virt :: "nat \<Rightarrow> buddy_system_t \<Rightarrow> (u64 option \<times> buddy_system_t) option" where
  "alloc_pages_virt order y = map_option (\<lambda>(p, y'). (map_option page_to_virt p, y')) (alloc_pages order y)"

definition free_pages_virt :: "u64 \<Rightarrow> buddy_system_t \<Rightarrow> buddy_system_t option" where
  "free_pages_virt virt y =
     (if virt = 0 \<or> \<not> sy_initialized y then Some y
      else case find (\<lambda>z. sy_present y z \<and> zn_base_pfn (sy_zones y z) \<le> virt div PAGE_SIZE \<and>
                        virt div PAGE_SIZE < zn_end_pfn (sy_zones y z)) [0, 1, 2] of
             None \<Rightarrow> Some y
           | Some z \<Rightarrow> free_pages (virt_to_page (sy_zones y z) virt) y)"

section \<open>Counters\<close>

definition page_ref :: "pfn \<Rightarrow> zst \<Rightarrow> zst" where
  "page_ref p = upd_page p (\<lambda>g. g\<lparr>pg_refcount := pg_refcount g + 1\<rparr>)"

definition page_unref :: "pfn \<Rightarrow> zst \<Rightarrow> zst" where
  "page_unref p = upd_page p (\<lambda>g. g\<lparr>pg_refcount := pg_refcount g - 1\<rparr>)"

definition page_get_refcount :: "pfn option \<Rightarrow> zst \<Rightarrow> u32" where
  "page_get_refcount page s = (case page of None \<Rightarrow> 0 | Some p \<Rightarrow> pg_refcount (zs_pages s p))"

text \<open>Total, free and used pages.\<close>

definition buddy_get_stats :: "buddy_zone_t option \<Rightarrow> u64 \<times> u64 \<times> u64" where
  "buddy_get_stats zone = (case zone of None \<Rightarrow> (0, 0, 0) | Some z \<Rightarrow> (zn_total_pages z, free_total z, zn_used_pages z))"

definition buddy_get_global_stats :: "buddy_system_t \<Rightarrow> u64 \<times> u64 \<times> u64" where
  "buddy_get_global_stats y =
     fold (\<lambda>z (t, f, u). if sy_present y z
             then (case buddy_get_stats (Some (sy_zones y z)) of (zt, zf, zu) \<Rightarrow> (t + zt, f + zf, u + zu)) else (t, f, u))
       [0, 1, 2] (0, 0, 0)"

definition buddy_count_free_pages :: "buddy_zone_t option \<Rightarrow> u64" where
  "buddy_count_free_pages zone = (case zone of None \<Rightarrow> 0 | Some z \<Rightarrow> free_total z)"

definition buddy_count_free_pages_global :: "buddy_system_t \<Rightarrow> u64" where
  "buddy_count_free_pages_global y =
     fold (\<lambda>z t. if sy_present y z then t + buddy_count_free_pages (Some (sy_zones y z)) else t) [0, 1, 2] 0"

text \<open>The zone in which the slab allocator looks its pages up.\<close>

definition buddy_get_main_zone :: "buddy_system_t \<Rightarrow> int" where
  "buddy_get_main_zone y = (if sy_present y ZONE_NORMAL then ZONE_NORMAL
     else if sy_present y ZONE_DMA32 then ZONE_DMA32 else if sy_present y ZONE_DMA then ZONE_DMA else ZONE_NORMAL)"

definition buddy_get_zone :: "int \<Rightarrow> buddy_system_t \<Rightarrow> int option" where
  "buddy_get_zone zone_type y =
     (if zone_type < 0 \<or> zone_type \<ge> ZONE_MAX then None else if sy_present y zone_type then Some zone_type else None)"

end
