(* ===== verification/BuddyProps.thy ===== *)
theory BuddyProps
  imports Buddy
begin

text \<open>
  The page allocator: what allocation guarantees as long as every free block is aligned to its size, and how
  initialisation and release break the lists that it relies on.
\<close>

section \<open>Lists and blocks\<close>

text \<open>The list of pages from the head \<open>h\<close> on, whose links back begin with \<open>a\<close>.\<close>

primrec dll :: "pages \<Rightarrow> pfn option \<Rightarrow> pfn option \<Rightarrow> pfn list \<Rightarrow> bool" where
  "dll pg a h [] \<longleftrightarrow> h = None"
| "dll pg a h (x # xs) \<longleftrightarrow> h = Some x \<and> pg_prev (pg x) = a \<and> dll pg (Some x) (pg_next (pg x)) xs"

lemma page_dll_upd [simp]: "u \<notin> set xs \<Longrightarrow> dll (pg(u := g)) a h xs = dll pg a h xs"
  by (induction xs arbitrary: a h) auto

lemma dll_cong: "(\<And>x. x \<in> set xs \<Longrightarrow> pg_prev (pg' x) = pg_prev (pg x) \<and> pg_next (pg' x) = pg_next (pg x)) \<Longrightarrow>
    dll pg' a h xs = dll pg a h xs"
  by (induction xs arbitrary: a h) auto

lemma in_walk_dll: "dll pg a h xs \<Longrightarrow> in_walk pg p h = Some (p \<in> set xs)"
  by (induction xs arbitrary: a h) (auto simp: in_walk.simps)

definition block :: "pfn \<Rightarrow> nat \<Rightarrow> nat set" where
  "block p k = {unat p ..< unat p + 2 ^ k}"

lemma in_block [simp]: "unat p \<in> block p k"
  by (simp add: block_def)

lemma finite_block [simp]: "finite (block p k)" and card_block [simp]: "card (block p k) = 2 ^ k"
  by (simp_all add: block_def)

definition free_blocks :: "(nat \<Rightarrow> pfn list) \<Rightarrow> (nat \<times> pfn) set" where
  "free_blocks ch = {(k, p). k \<le> BUDDY_MAX_ORDER \<and> p \<in> set (ch k)}"

definition free_set :: "(nat \<Rightarrow> pfn list) \<Rightarrow> nat set" where
  "free_set ch = (\<Union>b\<in>free_blocks ch. block (snd b) (fst b))"

definition blocks_disjoint :: "(nat \<Rightarrow> pfn list) \<Rightarrow> bool" where
  "blocks_disjoint ch \<longleftrightarrow> (\<forall>k\<le>BUDDY_MAX_ORDER. distinct (ch k)) \<and>
     (\<forall>b\<in>free_blocks ch. \<forall>b'\<in>free_blocks ch. b \<noteq> b' \<longrightarrow> block (snd b) (fst b) \<inter> block (snd b') (fst b') = {})"

text \<open>A place for a block of order \<open>k\<close> in the zone.\<close>

definition aligned_in :: "buddy_zone_t \<Rightarrow> nat \<Rightarrow> pfn \<Rightarrow> bool" where
  "aligned_in z k p \<longleftrightarrow> 2 ^ k dvd unat p \<and> zn_base_pfn z \<le> p \<and> unat p + 2 ^ k \<le> unat (zn_end_pfn z)"

definition free_page_ok :: "buddy_zone_t \<Rightarrow> pages \<Rightarrow> nat \<Rightarrow> pfn \<Rightarrow> bool" where
  "free_page_ok z pg k p \<longleftrightarrow> pg_order (pg p) = k \<and> pg_flags (pg p) AND 3 = 0 \<and> aligned_in z k p"

text \<open>The free lists are \<open>ch\<close>, of disjoint blocks, each aligned to its size.\<close>

definition zone_inv :: "(nat \<Rightarrow> pfn list) \<Rightarrow> zst \<Rightarrow> bool" where
  "zone_inv ch s \<longleftrightarrow> blocks_disjoint ch \<and> (\<forall>k\<le>BUDDY_MAX_ORDER.
     dll (zs_pages s) None (zn_free_list (zs_zone s) k) (ch k) \<and> (\<forall>p\<in>set (ch k). free_page_ok (zs_zone s) (zs_pages s) k p))"

lemma free_blocks_upd: "k \<le> 11 \<Longrightarrow> free_blocks (ch(k := xs)) = {b \<in> free_blocks ch. fst b \<noteq> k} \<union> Pair k ` set xs"
  by (auto simp: free_blocks_def split: if_splits)

lemma free_blocks_add: "k \<le> 11 \<Longrightarrow> free_blocks (ch(k := p # ch k)) = insert (k, p) (free_blocks ch)"
  by (auto simp: free_blocks_def split: if_splits)

lemma free_setI: "k \<le> 11 \<Longrightarrow> p \<in> set (ch k) \<Longrightarrow> block p k \<subseteq> free_set ch"
  by (force simp: free_set_def free_blocks_def)

lemma not_listed:
  assumes "block p j \<inter> free_set ch = {}" and "k \<le> 11"
  shows "p \<notin> set (ch k)"
proof
  assume "p \<in> set (ch k)"
  then have "unat p \<in> free_set ch" using free_setI [OF assms(2)] in_block by blast
  with assms(1) show False using in_block [of p j] by blast
qed

lemma free_set_add: "k \<le> 11 \<Longrightarrow> free_set (ch(k := p # ch k)) = block p k \<union> free_set ch"
  unfolding free_set_def by (subst free_blocks_add) auto

lemma blocks_disjointD:
  "blocks_disjoint ch \<Longrightarrow> k \<le> 11 \<Longrightarrow> k' \<le> 11 \<Longrightarrow> p \<in> set (ch k) \<Longrightarrow> p' \<in> set (ch k') \<Longrightarrow> (k, p) \<noteq> (k', p') \<Longrightarrow>
     block p k \<inter> block p' k' = {}"
  unfolding blocks_disjoint_def free_blocks_def by force

lemma blocks_disjoint_add:
  assumes "blocks_disjoint ch" and "block p k \<inter> free_set ch = {}" and "k \<le> 11"
  shows "blocks_disjoint (ch(k := p # ch k))"
proof -
  have d: "block p k \<inter> block (snd b) (fst b) = {}" if "b \<in> free_blocks ch" for b
    using assms(2) that unfolding free_set_def by (auto simp: disjoint_iff)
  have "p \<notin> set (ch k)" using not_listed [OF assms(2,3)] .
  then have "\<forall>j\<le>11. distinct ((ch(k := p # ch k)) j)" using assms(1) by (auto simp: blocks_disjoint_def)
  moreover have "block (snd b) (fst b) \<inter> block (snd b') (fst b') = {}"
    if "b \<in> insert (k, p) (free_blocks ch)" "b' \<in> insert (k, p) (free_blocks ch)" "b \<noteq> b'" for b b'
    using that d assms(1) unfolding blocks_disjoint_def by (metis Int_commute fst_conv insertE snd_conv)
  ultimately show ?thesis unfolding blocks_disjoint_def free_blocks_add [OF assms(3)] by blast
qed

lemma free_set_remove:
  assumes "blocks_disjoint ch" and "k \<le> 11" and "ch k = p # xs"
  shows "blocks_disjoint (ch(k := xs))" and "free_set ch = block p k \<union> free_set (ch(k := xs))"
    and "block p k \<inter> free_set (ch(k := xs)) = {}"
proof -
  have e: "ch = (ch(k := xs))(k := p # (ch(k := xs)) k)" using assms(3) by auto
  have p: "p \<notin> set xs" using assms by (metis blocks_disjoint_def distinct.simps(2))
  have fb: "free_blocks ch = insert (k, p) (free_blocks (ch(k := xs)))"
    using free_blocks_add [OF assms(2), of "ch(k := xs)" p] e by simp
  have new: "(k, p) \<notin> free_blocks (ch(k := xs))" using p assms(2) by (simp add: free_blocks_def)
  show "blocks_disjoint (ch(k := xs))" using assms fb by (auto simp: blocks_disjoint_def)
  show "free_set ch = block p k \<union> free_set (ch(k := xs))" by (simp add: free_set_def fb)
  have "block p k \<inter> block (snd b) (fst b) = {}" if "b \<in> free_blocks (ch(k := xs))" for b
    using assms(1) that new unfolding blocks_disjoint_def fb by (metis fst_conv insertCI snd_conv)
  then show "block p k \<inter> free_set (ch(k := xs)) = {}" by (auto simp: free_set_def disjoint_iff)
qed

section \<open>Adding and taking blocks\<close>

lemma zone_frames [simp]:
  "zs_zone (upd_page p f s) = zs_zone s" "zs_pages (upd_page p f s) = (zs_pages s)(p := f (zs_pages s p))"
  "zs_pages (set_head k h s) = zs_pages s" "zs_pages (add_count k d s) = zs_pages s"
  "zn_base_pfn (zs_zone (set_head k h s)) = zn_base_pfn (zs_zone s)" "zn_end_pfn (zs_zone (set_head k h s)) = zn_end_pfn (zs_zone s)"
  "zn_base_pfn (zs_zone (add_count k d s)) = zn_base_pfn (zs_zone s)" "zn_end_pfn (zs_zone (add_count k d s)) = zn_end_pfn (zs_zone s)"
  "zn_free_list (zs_zone (set_head k h s)) = (zn_free_list (zs_zone s))(k := h)"
  "zn_free_list (zs_zone (add_count k d s)) = zn_free_list (zs_zone s)"
  by (simp_all add: upd_page_def set_head_def add_count_def)

lemma aligned_in_cong: "zn_base_pfn z' = zn_base_pfn z \<Longrightarrow> zn_end_pfn z' = zn_end_pfn z \<Longrightarrow> aligned_in z' k p = aligned_in z k p"
  by (simp add: aligned_in_def)

text \<open>Only the fields that the invariant reads count.\<close>

lemma zone_inv_cong:
  assumes "zone_inv ch s"
    and "zn_free_list (zs_zone s') = zn_free_list (zs_zone s)" and "zn_base_pfn (zs_zone s') = zn_base_pfn (zs_zone s)"
    and "zn_end_pfn (zs_zone s') = zn_end_pfn (zs_zone s)"
    and "\<And>k x. k \<le> 11 \<Longrightarrow> x \<in> set (ch k) \<Longrightarrow> zs_pages s' x = zs_pages s x"
  shows "zone_inv ch s'"
proof -
  have "dll (zs_pages s') None (zn_free_list (zs_zone s') k) (ch k) = dll (zs_pages s) None (zn_free_list (zs_zone s) k) (ch k)"
    if "k \<le> 11" for k
    unfolding assms(2) by (rule dll_cong) (simp add: assms(5) [OF that])
  then show ?thesis using assms(1,5)
    by (auto simp: zone_inv_def free_page_ok_def aligned_in_cong [OF assms(3,4)])
qed

lemma zone_inv_upd:
  assumes "zone_inv ch s" and "block p j \<inter> free_set ch = {}"
  shows "zone_inv ch (upd_page p f s)"
  by (rule zone_inv_cong [OF assms(1)]) (use not_listed [OF assms(2)] in auto)

lemma zone_inv_add:
  assumes i: "zone_inv ch s" and p: "block p k \<inter> free_set ch = {}" and k: "k \<le> 11" and al: "aligned_in (zs_zone s) k p"
    and g: "pg_order (zs_pages s p) = k" "pg_flags (zs_pages s p) AND 3 = 0"
  shows "zone_inv (ch(k := p # ch k)) (pg_list_add k p s)"
proof -
  let ?s = "pg_list_add k p s" and ?h = "zn_free_list (zs_zone s) k"
  have z: "zn_free_list (zs_zone ?s) = (zn_free_list (zs_zone s))(k := Some p)"
    "zn_base_pfn (zs_zone ?s) = zn_base_pfn (zs_zone s)" "zn_end_pfn (zs_zone ?s) = zn_end_pfn (zs_zone s)"
    by (simp_all add: pg_list_add_def Let_def split: option.split)
  have nl: "\<And>j. j \<le> 11 \<Longrightarrow> p \<notin> set (ch j)" using not_listed [OF p] .
  have other: "b \<notin> set (ch j)" if "?h = Some b" "j \<le> 11" "j \<noteq> k" for b j
  proof
    assume "b \<in> set (ch j)"
    moreover have "b \<in> set (ch k)" using i k that(1) by (cases "ch k") (auto simp: zone_inv_def)
    ultimately have "block b j \<inter> block b k = {}" using i k that blocks_disjointD [of ch j k b b] by (auto simp: zone_inv_def)
    then show False using in_block by blast
  qed
  have pg: "zs_pages ?s = (case ?h of None \<Rightarrow> (zs_pages s)(p := (zs_pages s p)\<lparr>pg_next := ?h, pg_prev := None\<rparr>)
      | Some b \<Rightarrow> (zs_pages s)(p := (zs_pages s p)\<lparr>pg_next := ?h, pg_prev := None\<rparr>,
          b := ((zs_pages s)(p := (zs_pages s p)\<lparr>pg_next := ?h, pg_prev := None\<rparr>)) b\<lparr>pg_prev := Some p\<rparr>))"
    by (simp add: pg_list_add_def Let_def split: option.split)
  have dk: "dll (zs_pages s) None ?h (ch k)" and dd: "distinct (ch k)" using i k by (auto simp: zone_inv_def blocks_disjoint_def)
  have 1: "dll (zs_pages ?s) None (Some p) (p # ch k)"
  proof (cases "ch k")
    case Nil
    then show ?thesis using dk by (simp add: pg)
  next
    case (Cons b xs)
    then have h: "?h = Some b" using dk by simp
    have "p \<noteq> b" "p \<notin> set xs" "b \<notin> set xs" using nl [OF k] dd Cons by auto
    then show ?thesis using dk Cons by (simp add: pg h)
  qed
  have 2: "dll (zs_pages ?s) None (zn_free_list (zs_zone s) j) (ch j)" if "j \<le> 11" "j \<noteq> k" for j
  proof -
    have "dll (zs_pages ?s) None (zn_free_list (zs_zone s) j) (ch j) = dll (zs_pages s) None (zn_free_list (zs_zone s) j) (ch j)"
      by (rule dll_cong) (use nl [OF that(1)] other that in \<open>auto simp: pg split: option.split\<close>)
    then show ?thesis using i that by (simp add: zone_inv_def)
  qed
  have 3: "pg_order (zs_pages ?s x) = pg_order (zs_pages s x) \<and> pg_flags (zs_pages ?s x) = pg_flags (zs_pages s x)" for x
    by (auto simp: pg split: option.split)
  have "blocks_disjoint (ch(k := p # ch k))" using blocks_disjoint_add i p k by (simp add: zone_inv_def)
  moreover have "dll (zs_pages ?s) None (((zn_free_list (zs_zone s))(k := Some p)) j) ((ch(k := p # ch k)) j)" if "j \<le> 11" for j
    using 1 2 [OF that] by (cases "j = k") simp_all
  moreover have "free_page_ok (zs_zone ?s) (zs_pages ?s) j x" if "j \<le> 11" "x \<in> set ((ch(k := p # ch k)) j)" for j x
  proof -
    have "free_page_ok (zs_zone s) (zs_pages s) j x"
    proof (cases "x = p \<and> j = k")
      case True
      then show ?thesis using al g by (simp add: free_page_ok_def)
    next
      case False
      then have "x \<in> set (ch j)" using that(2) by (auto split: if_splits)
      then show ?thesis using i that(1) by (simp add: zone_inv_def)
    qed
    then show ?thesis by (simp add: free_page_ok_def aligned_in_cong [OF z(2,3)] 3)
  qed
  ultimately show ?thesis unfolding zone_inv_def z by blast
qed

lemma zone_inv_pop:
  assumes i: "zone_inv ch s" and k: "k \<le> 11" and c: "ch k = p # xs"
  shows "\<exists>s'. pg_list_pop k s = (Some p, s') \<and> zone_inv (ch(k := xs)) s' \<and>
    zn_base_pfn (zs_zone s') = zn_base_pfn (zs_zone s) \<and> zn_end_pfn (zs_zone s') = zn_end_pfn (zs_zone s) \<and>
    pg_flags (zs_pages s' p) = pg_flags (zs_pages s p)"
proof -
  let ?n = "pg_next (zs_pages s p)"
  define s' where "s' = snd (pg_list_pop k s)"
  have h: "zn_free_list (zs_zone s) k = Some p" and d: "dll (zs_pages s) (Some p) ?n xs"
    using i k c by (auto simp: zone_inv_def)
  have pop: "pg_list_pop k s = (Some p, s')" by (simp add: s'_def pg_list_pop_def h Let_def)
  have z: "zn_free_list (zs_zone s') = (zn_free_list (zs_zone s))(k := ?n)"
    "zn_base_pfn (zs_zone s') = zn_base_pfn (zs_zone s)" "zn_end_pfn (zs_zone s') = zn_end_pfn (zs_zone s)"
    by (simp_all add: s'_def pg_list_pop_def h Let_def split: option.split)
  define pg where "pg = (case ?n of None \<Rightarrow> zs_pages s | Some b \<Rightarrow> (zs_pages s)(b := (zs_pages s b)\<lparr>pg_prev := None\<rparr>))"
  have pg: "zs_pages s' = pg(p := (pg p)\<lparr>pg_next := None, pg_prev := None\<rparr>)"
    by (simp add: s'_def pg_list_pop_def h Let_def pg_def split: option.split)
  have keep: "pg_order (zs_pages s' x) = pg_order (zs_pages s x) \<and> pg_flags (zs_pages s' x) = pg_flags (zs_pages s x)" for x
    by (auto simp: pg pg_def split: option.split)
  have bd: "blocks_disjoint ch" using i by (simp add: zone_inv_def)
  then have "distinct (ch k)" using k by (simp add: blocks_disjoint_def)
  then have dist: "p \<notin> set xs" "distinct xs" by (simp_all add: c)
  have listed: "x \<notin> set (ch j)" if "x \<in> set (ch k)" "j \<le> 11" "j \<noteq> k" for x j
  proof
    assume "x \<in> set (ch j)"
    then have "block x j \<inter> block x k = {}" using blocks_disjointD [OF bd that(2) k _ that(1)] that(3) by simp
    then show False using in_block by blast
  qed
  have 1: "dll (zs_pages s') None ?n xs"
  proof (cases xs)
    case Nil
    then show ?thesis using d by simp
  next
    case (Cons b ys)
    then show ?thesis using d dist by (auto simp: pg pg_def)
  qed
  have 2: "dll (zs_pages s') None (zn_free_list (zs_zone s) j) (ch j)" if "j \<le> 11" "j \<noteq> k" for j
  proof -
    have "zs_pages s' x = zs_pages s x" if x: "x \<in> set (ch j)" for x
    proof -
      have "x \<noteq> p" using listed [of p j] that \<open>j \<le> 11\<close> \<open>j \<noteq> k\<close> c by auto
      moreover have "x \<noteq> b" if "?n = Some b" for b
      proof -
        have "b \<in> set (ch k)" using d that c by (cases xs) auto
        then show ?thesis using listed [of b j] x \<open>j \<le> 11\<close> \<open>j \<noteq> k\<close> by auto
      qed
      ultimately show ?thesis by (simp add: pg pg_def split: option.split)
    qed
    then have "dll (zs_pages s') None (zn_free_list (zs_zone s) j) (ch j) = dll (zs_pages s) None (zn_free_list (zs_zone s) j) (ch j)"
      by (intro dll_cong) simp
    then show ?thesis using i that by (simp add: zone_inv_def)
  qed
  have "zone_inv (ch(k := xs)) s'"
    using free_set_remove(1) [OF bd k c] i 1 2 c keep
    unfolding zone_inv_def z free_page_ok_def aligned_in_cong [OF z(2,3)] by auto
  with pop z keep show ?thesis by blast
qed

section \<open>Halving blocks\<close>

lemma unat64_less: "unat (w :: u64) < 2 ^ 64"
proof -
  have "unat w < 2 ^ LENGTH(64)" by (rule unsigned_less)
  then show ?thesis by simp
qed

lemma unat_pow2_64: "c < 64 \<Longrightarrow> unat (2 ^ c :: u64) = 2 ^ c"
proof -
  assume "c < 64"
  then have "(2 :: nat) ^ c < 2 ^ 64" by (intro power_strict_increasing) auto
  then have "unat (of_nat (2 ^ c) :: u64) = 2 ^ c" unfolding unat_of_nat by simp
  then show ?thesis by simp
qed

text \<open>The buddy of the lower half of an aligned block is its upper half.\<close>

lemma buddy_upper:
  assumes "2 ^ Suc c dvd unat p" and "c < 64" and "unat p + 2 ^ c < 2 ^ 64"
  shows "unat (buddy_pfn p c) = unat p + 2 ^ c"
proof -
  obtain m where m: "unat p = 2 ^ c * (2 * m)" using assms(1) by (auto simp: ac_simps)
  have "\<not> bit (unat p) c" by (simp add: bit_iff_odd m)
  then have nb: "\<not> bit p c" by (simp add: bit_unsigned_iff)
  have "p AND push_bit c 1 = 0" by (rule bit_eqI) (use nb in \<open>auto simp: bit_simps\<close>)
  then have "buddy_pfn p c = p + push_bit c 1" by (simp add: buddy_pfn_def disjunctive_add_eq_xor)
  also have "push_bit c 1 = (2 ^ c :: u64)" by (simp add: push_bit_eq_mult)
  finally show ?thesis using assms(2,3) by (simp add: unat_word_ariths(1) unat_pow2_64)
qed

lemma block_halves: "block p (Suc c) = block p c \<union> {unat p + 2 ^ c ..< unat p + 2 ^ c + 2 ^ c}"
  by (auto simp: block_def)

lemma split_block_inv:
  assumes "zone_inv ch s" and "block p c \<inter> free_set ch = {}" and "c \<le> 11" and "aligned_in (zs_zone s) c p" and "lo \<le> c"
  shows "\<exists>ch'. zone_inv ch' (split_block p lo c s) \<and> free_set ch' = free_set ch \<union> (block p c - block p lo) \<and>
    zn_base_pfn (zs_zone (split_block p lo c s)) = zn_base_pfn (zs_zone s) \<and>
    zn_end_pfn (zs_zone (split_block p lo c s)) = zn_end_pfn (zs_zone s) \<and>
    pg_flags (zs_pages (split_block p lo c s) p) = pg_flags (zs_pages s p)"
  using assms
proof (induction c arbitrary: ch s)
  case 0
  then show ?case by auto
next
  case (Suc c)
  show ?case
  proof (cases "Suc c > lo")
    case False
    then have "lo = Suc c" using Suc.prems(5) by simp
    then show ?thesis using Suc.prems(1) by auto
  next
    case True
    have al: "2 ^ Suc c dvd unat p" "zn_base_pfn (zs_zone s) \<le> p" "unat p + 2 ^ Suc c \<le> unat (zn_end_pfn (zs_zone s))"
      using Suc.prems(4) by (simp_all add: aligned_in_def)
    have fits: "unat p + 2 ^ Suc c < 2 ^ 64" using al(3) unat64_less [of "zn_end_pfn (zs_zone s)"] by simp
    let ?b = "buddy_pfn p c"
    have b: "unat ?b = unat p + 2 ^ c" by (rule buddy_upper [OF al(1)]) (use fits Suc.prems(3) in auto)
    have page: "pfn_to_page (zs_zone s) ?b = Some ?b"
    proof -
      have "(0 :: nat) < 2 ^ c" by simp
      then have "unat p + 2 ^ c < unat (zn_end_pfn (zs_zone s))" using al(3) unfolding power_Suc by linarith
      then show ?thesis using al b by (simp add: pfn_to_page_def word_less_nat_alt word_le_nat_alt)
    qed
    define s1 where "s1 = upd_page ?b (\<lambda>g. g\<lparr>pg_order := c, pg_flags := 0, pg_refcount := 0\<rparr>) s"
    have bb: "block ?b c = {unat p + 2 ^ c ..< unat p + 2 ^ c + 2 ^ c}" by (simp add: block_def b)
    have disj: "block ?b c \<inter> free_set ch = {}" using Suc.prems(2) unfolding block_halves bb by blast
    have i1: "zone_inv ch s1" unfolding s1_def by (rule zone_inv_upd [OF Suc.prems(1) disj])
    have alb: "aligned_in (zs_zone s1) c ?b"
    proof -
      have "2 ^ c dvd unat p" using al(1) by (metis dvd_mult_right power_Suc)
      then have "2 ^ c dvd unat ?b" unfolding b by simp
      then show ?thesis using al b by (simp add: aligned_in_def s1_def word_le_nat_alt)
    qed
    have i2: "zone_inv (ch(c := ?b # ch c)) (pg_list_add c ?b s1)"
      by (rule zone_inv_add [OF i1 disj _ alb]) (use Suc.prems(3) in \<open>simp_all add: s1_def\<close>)
    have f2: "free_set (ch(c := ?b # ch c)) = block ?b c \<union> free_set ch" using Suc.prems(3) by (intro free_set_add) simp
    have z2: "zn_base_pfn (zs_zone (pg_list_add c ?b s1)) = zn_base_pfn (zs_zone s)"
      "zn_end_pfn (zs_zone (pg_list_add c ?b s1)) = zn_end_pfn (zs_zone s)"
      by (simp_all add: pg_list_add_def Let_def s1_def split: option.split)
    have ne: "?b \<noteq> p" using b by auto
    have g2: "pg_flags (zs_pages (pg_list_add c ?b s1) p) = pg_flags (zs_pages s p)"
      using ne by (auto simp: pg_list_add_def Let_def s1_def split: option.split)
    have d1: "block p c \<inter> free_set (ch(c := ?b # ch c)) = {}"
      unfolding f2 bb using Suc.prems(2) unfolding block_halves by (auto simp: block_def)
    have a1: "aligned_in (zs_zone (pg_list_add c ?b s1)) c p"
    proof -
      have "2 ^ c dvd unat p" using al(1) by (metis dvd_mult_right power_Suc)
      then show ?thesis using al by (simp add: aligned_in_def z2)
    qed
    have le: "c \<le> 11" "lo \<le> c" using Suc.prems(3) True by simp_all
    from Suc.IH [OF i2 d1 le(1) a1 le(2), unfolded z2 g2] obtain ch' where ch': "zone_inv ch' (split_block p lo c (pg_list_add c ?b s1))"
        "free_set ch' = free_set (ch(c := ?b # ch c)) \<union> (block p c - block p lo)"
        "zn_base_pfn (zs_zone (split_block p lo c (pg_list_add c ?b s1))) = zn_base_pfn (zs_zone s)"
        "zn_end_pfn (zs_zone (split_block p lo c (pg_list_add c ?b s1))) = zn_end_pfn (zs_zone s)"
        "pg_flags (zs_pages (split_block p lo c (pg_list_add c ?b s1)) p) = pg_flags (zs_pages s p)"
      by blast
    have eq: "split_block p lo (Suc c) s = split_block p lo c (pg_list_add c ?b s1)"
      using True by (simp add: page s1_def)
    have "(2 :: nat) ^ lo \<le> 2 ^ c" using True by (intro power_increasing) auto
    then have "block p lo \<inter> block ?b c = {}" unfolding bb unfolding block_def by (auto simp only: Int_iff atLeastLessThan_iff)
    then have "free_set ch' = free_set ch \<union> (block p (Suc c) - block p lo)"
      unfolding ch'(2) f2 block_halves bb by blast
    with ch' show ?thesis unfolding eq by blast
  qed
qed

section \<open>Allocation\<close>

text \<open>
  An allocation from an aligned zone takes the block that it returns out of the free pages, and nothing
  else; it fails only when there is no block that is large enough.
\<close>

lemma alloc_inv:
  assumes i: "zone_inv ch s"
  shows "(\<exists>p s' ch'. buddy_alloc_pages order s = Some (Some p, s') \<and> zone_inv ch' s' \<and> block p order \<subseteq> free_set ch \<and>
      free_set ch' = free_set ch - block p order \<and> aligned_in (zs_zone s) order p \<and> pg_order (zs_pages s' p) = order \<and>
      zn_base_pfn (zs_zone s') = zn_base_pfn (zs_zone s) \<and> zn_end_pfn (zs_zone s') = zn_end_pfn (zs_zone s)) \<or>
    buddy_alloc_pages order s = Some (None, s) \<and> (\<forall>k. order \<le> k \<and> k \<le> 11 \<longrightarrow> ch k = [])"
proof -
  have empty: "zn_free_list (zs_zone s) k = None \<longleftrightarrow> ch k = []" if "k \<le> 11" for k
  proof -
    have "dll (zs_pages s) None (zn_free_list (zs_zone s) k) (ch k)" using i that by (simp add: zone_inv_def)
    then show ?thesis by (cases "ch k") auto
  qed
  consider "order > 11" | "order \<le> 11" "find (\<lambda>i. zn_free_list (zs_zone s) i \<noteq> None) [order..<Suc 11] = None"
    | c where "order \<le> 11" "find (\<lambda>i. zn_free_list (zs_zone s) i \<noteq> None) [order..<Suc 11] = Some c"
    by (metis not_le option.exhaust)
  then show ?thesis
  proof cases
    case 1
    then show ?thesis by (auto simp: buddy_alloc_pages_def)
  next
    case 2
    then have "\<forall>k. order \<le> k \<and> k \<le> 11 \<longrightarrow> ch k = []" using empty by (auto simp: find_None_iff simp del: upt_Suc)
    with 2 show ?thesis by (simp add: buddy_alloc_pages_def)
  next
    case 3
    then have c: "order \<le> c" "c \<le> 11" "zn_free_list (zs_zone s) c \<noteq> None"
      unfolding find_Some_iff by (auto simp del: upt_Suc dest: nth_mem)
    then obtain p xs where ch: "ch c = p # xs" using empty by (cases "ch c") auto
    from zone_inv_pop [OF i c(2) ch] obtain s1 where s1: "pg_list_pop c s = (Some p, s1)" "zone_inv (ch(c := xs)) s1"
      "zn_base_pfn (zs_zone s1) = zn_base_pfn (zs_zone s)" "zn_end_pfn (zs_zone s1) = zn_end_pfn (zs_zone s)"
      "pg_flags (zs_pages s1 p) = pg_flags (zs_pages s p)" by blast
    have ok: "free_page_ok (zs_zone s) (zs_pages s) c p" using i c(2) ch by (simp add: zone_inv_def)
    have bd: "blocks_disjoint ch" using i by (simp add: zone_inv_def)
    note rem = free_set_remove [OF bd c(2) ch]
    have "pg_flags (zs_pages s p) AND 2 = (pg_flags (zs_pages s p) AND 3) AND 2" by (simp add: and.assoc)
    then have "pg_flags (zs_pages s p) AND 2 = 0" using ok by (simp add: free_page_ok_def)
    then have pop: "pop_unreserved c s = Some (Some p, s1)" by (simp add: pop_unreserved.simps s1(1,5))
    define s2 where "s2 = upd_page p (\<lambda>g. g\<lparr>pg_flags := pg_flags g OR PAGE_FLAG_USED, pg_refcount := 1\<rparr>) s1"
    have i2: "zone_inv (ch(c := xs)) s2" unfolding s2_def by (rule zone_inv_upd [OF s1(2) rem(3)])
    have al: "aligned_in (zs_zone s2) c p" using ok s1(3,4) by (simp add: free_page_ok_def aligned_in_def s2_def)
    from split_block_inv [OF i2 rem(3) c(2) al c(1)] obtain ch' where ch':
      "zone_inv ch' (split_block p order c s2)" "free_set ch' = free_set (ch(c := xs)) \<union> (block p c - block p order)"
      "zn_base_pfn (zs_zone (split_block p order c s2)) = zn_base_pfn (zs_zone s2)"
      "zn_end_pfn (zs_zone (split_block p order c s2)) = zn_end_pfn (zs_zone s2)" by blast
    have sub: "block p order \<subseteq> block p c"
    proof -
      have "(2 :: nat) ^ order \<le> 2 ^ c" using c(1) by (intro power_increasing) auto
      then show ?thesis unfolding block_def by (auto simp only: atLeastLessThan_iff)
    qed
    have fs: "free_set ch' = free_set ch - block p order" unfolding ch'(2) rem(2) using rem(3) sub by blast
    have disj: "block p order \<inter> free_set ch' = {}" unfolding fs by blast
    define s3 where "s3 = upd_page p (\<lambda>g. g\<lparr>pg_order := order\<rparr>) (split_block p order c s2)"
    have i3: "zone_inv ch' s3" unfolding s3_def by (rule zone_inv_upd [OF ch'(1) disj])
    define s4 where "s4 = s3\<lparr>zs_zone := (zs_zone s3)\<lparr>zn_used_pages := zn_used_pages (zs_zone s3) + 2 ^ order,
      zn_free_pages := zn_free_pages (zs_zone s3) - 2 ^ order\<rparr>\<rparr>"
    have "buddy_alloc_pages order s = Some (Some p, s4)"
      using 3 pop by (simp add: buddy_alloc_pages_def s4_def s3_def s2_def Let_def del: upt_Suc)
    moreover have "zone_inv ch' s4" by (rule zone_inv_cong [OF i3]) (simp_all add: s4_def)
    moreover have "2 ^ order dvd unat p" "zn_base_pfn (zs_zone s) \<le> p" "unat p + 2 ^ order \<le> unat (zn_end_pfn (zs_zone s))"
    proof -
      have "(2 :: nat) ^ order dvd 2 ^ c" using c(1) by (rule le_imp_power_dvd)
      then show "2 ^ order dvd unat p" using ok by (auto simp: free_page_ok_def aligned_in_def intro: dvd_trans)
      show "zn_base_pfn (zs_zone s) \<le> p" using ok by (simp add: free_page_ok_def aligned_in_def)
      have "(2 :: nat) ^ order \<le> 2 ^ c" using c(1) by (intro power_increasing) auto
      then show "unat p + 2 ^ order \<le> unat (zn_end_pfn (zs_zone s))" using ok
        unfolding free_page_ok_def aligned_in_def by linarith
    qed
    moreover have "pg_order (zs_pages s4 p) = order" "zn_base_pfn (zs_zone s4) = zn_base_pfn (zs_zone s)"
      "zn_end_pfn (zs_zone s4) = zn_end_pfn (zs_zone s)"
      using ch'(3,4) s1(3,4) by (simp_all add: s4_def s3_def s2_def)
    moreover have "block p order \<subseteq> free_set ch" using sub rem(2) by blast
    ultimately show ?thesis using fs unfolding aligned_in_def by blast
  qed
qed

text \<open>Allocations one after the other; what they return, with the orders.\<close>

fun alloc_run :: "nat list \<Rightarrow> zst \<Rightarrow> ((pfn \<times> nat) list \<times> zst) option" where
  "alloc_run [] s = Some ([], s)"
| "alloc_run (k # ks) s = do {
     (r, s1) \<leftarrow> buddy_alloc_pages k s;
     (bs, s2) \<leftarrow> alloc_run ks s1;
     Some (case r of None \<Rightarrow> bs | Some p \<Rightarrow> (p, k) # bs, s2)
   }"

text \<open>Any two of the blocks have no page in common.\<close>

definition all_disjoint :: "(pfn \<times> nat) list \<Rightarrow> bool" where
  "all_disjoint bs \<longleftrightarrow> sorted_wrt (\<lambda>b b'. block (fst b) (snd b) \<inter> block (fst b') (snd b') = {}) bs"

lemma all_disjoint_Cons:
  "all_disjoint ((p, k) # bs) \<longleftrightarrow> (\<forall>b\<in>set bs. block p k \<inter> block (fst b) (snd b) = {}) \<and> all_disjoint bs"
  by (simp add: all_disjoint_def)

lemma alloc_run_inv:
  "zone_inv ch s \<Longrightarrow> \<exists>bs s' ch'. alloc_run ks s = Some (bs, s') \<and> zone_inv ch' s' \<and> all_disjoint bs \<and>
     (\<forall>b\<in>set bs. block (fst b) (snd b) \<subseteq> free_set ch) \<and> free_set ch' = free_set ch - (\<Union>b\<in>set bs. block (fst b) (snd b))"
proof (induction ks arbitrary: s ch)
  case Nil
  then show ?case by (auto simp: all_disjoint_def)
next
  case (Cons k ks)
  from alloc_inv [OF Cons.prems, of k] show ?case
  proof
    assume "buddy_alloc_pages k s = Some (None, s) \<and> (\<forall>j. k \<le> j \<and> j \<le> 11 \<longrightarrow> ch j = [])"
    then show ?thesis using Cons.IH [OF Cons.prems] by auto
  next
    assume "\<exists>p s' ch'. buddy_alloc_pages k s = Some (Some p, s') \<and> zone_inv ch' s' \<and> block p k \<subseteq> free_set ch \<and>
      free_set ch' = free_set ch - block p k \<and> aligned_in (zs_zone s) k p \<and> pg_order (zs_pages s' p) = k \<and>
      zn_base_pfn (zs_zone s') = zn_base_pfn (zs_zone s) \<and> zn_end_pfn (zs_zone s') = zn_end_pfn (zs_zone s)"
    then obtain p s1 ch1 where 1: "buddy_alloc_pages k s = Some (Some p, s1)" "zone_inv ch1 s1" "block p k \<subseteq> free_set ch"
      "free_set ch1 = free_set ch - block p k" by blast
    from Cons.IH [OF 1(2)] obtain bs s2 ch2 where 2: "alloc_run ks s1 = Some (bs, s2)" "zone_inv ch2 s2" "all_disjoint bs"
      "\<forall>b\<in>set bs. block (fst b) (snd b) \<subseteq> free_set ch1" "free_set ch2 = free_set ch1 - (\<Union>b\<in>set bs. block (fst b) (snd b))"
      by blast
    have "all_disjoint ((p, k) # bs)" unfolding all_disjoint_Cons using 2(3,4) 1(4) by blast
    moreover have "alloc_run (k # ks) s = Some ((p, k) # bs, s2)" using 1(1) 2(1) by simp
    moreover have "free_set ch2 = free_set ch - (\<Union>b\<in>set ((p, k) # bs). block (fst b) (snd b))" using 2(5) 1(4) by auto
    moreover have "\<forall>b\<in>set ((p, k) # bs). block (fst b) (snd b) \<subseteq> free_set ch" using 1(3,4) 2(4) by auto
    ultimately show ?thesis using 2(2) by blast
  qed
qed

section \<open>Initialisation\<close>

lemma order_down_max: "2 ^ j \<le> n \<Longrightarrow> j \<le> m \<Longrightarrow> j \<le> order_down n m"
  by (induction m) (auto simp: le_Suc_eq)

text \<open>Cutting pages from an aligned frame on: every block is aligned.\<close>

lemma carve_inv:
  assumes "zone_inv ch s" and "\<forall>j\<le>11. 2 ^ j \<le> n \<longrightarrow> 2 ^ j dvd unat p" and "zn_base_pfn (zs_zone s) \<le> p"
    and "n = 0 \<or> unat p + n \<le> unat (zn_end_pfn (zs_zone s))" and "{unat p ..< unat p + n} \<inter> free_set ch = {}"
    and "\<forall>q. unat p \<le> unat q \<and> unat q < unat p + n \<longrightarrow> pg_flags (zs_pages s q) = 0"
  shows "\<exists>ch'. zone_inv ch' (carve p n s) \<and> free_set ch' = free_set ch \<union> {unat p ..< unat p + n} \<and>
    zn_base_pfn (zs_zone (carve p n s)) = zn_base_pfn (zs_zone s) \<and> zn_end_pfn (zs_zone (carve p n s)) = zn_end_pfn (zs_zone s)"
  using assms
proof (induction n arbitrary: p s ch rule: less_induct)
  case (less n)
  show ?case
  proof (cases "n = 0")
    case True
    then show ?thesis using less.prems(1) by (auto simp: carve.simps [of p 0 s])
  next
    case False
    let ?k = "order_down n 11"
    have k: "?k \<le> 11" "2 ^ ?k \<le> n" using order_down_le order_down_fits False by auto
    have fits: "unat p + n < 2 ^ 64" using less.prems(4) False unat64_less [of "zn_end_pfn (zs_zone s)"] by simp
    define s1 where "s1 = upd_page p (\<lambda>g. g\<lparr>pg_order := ?k\<rparr>) s"
    have bl: "block p ?k = {unat p ..< unat p + 2 ^ ?k}" by (simp add: block_def)
    have sub: "block p ?k \<subseteq> {unat p ..< unat p + n}" unfolding bl using k(2) by (auto simp only: atLeastLessThan_iff)
    then have disj: "block p ?k \<inter> free_set ch = {}" using less.prems(5) by blast
    have i1: "zone_inv ch s1" unfolding s1_def by (rule zone_inv_upd [OF less.prems(1) disj])
    have al: "aligned_in (zs_zone s1) ?k p"
    proof -
      have "2 ^ ?k dvd unat p" using less.prems(2) k by blast
      moreover have "unat p + 2 ^ ?k \<le> unat (zn_end_pfn (zs_zone s))" using less.prems(4) False k(2) by linarith
      ultimately show ?thesis using less.prems(3) by (simp add: aligned_in_def s1_def)
    qed
    let ?s = "pg_list_add ?k p s1" and ?ch = "ch(?k := p # ch ?k)"
    have g: "pg_order (zs_pages s1 p) = ?k" "pg_flags (zs_pages s1 p) AND 3 = 0"
      using less.prems(6) False by (simp_all add: s1_def)
    note i2 = zone_inv_add [OF i1 disj k(1) al g]
    have z: "zn_base_pfn (zs_zone ?s) = zn_base_pfn (zs_zone s)" "zn_end_pfn (zs_zone ?s) = zn_end_pfn (zs_zone s)"
      by (simp_all add: pg_list_add_def Let_def s1_def split: option.split)
    have fl: "pg_flags (zs_pages ?s q) = pg_flags (zs_pages s q)" for q
      by (auto simp: pg_list_add_def Let_def s1_def split: option.split)
    have f2: "free_set ?ch = block p ?k \<union> free_set ch" using k(1) by (rule free_set_add)
    let ?q = "p + 2 ^ ?k" and ?n = "n - 2 ^ ?k"
    have kk: "unat (2 ^ ?k :: u64) = 2 ^ ?k" using k(1) by (intro unat_pow2_64) simp
    have q: "unat ?q = unat p + 2 ^ ?k" using fits k(2) kk by (simp add: unat_word_ariths(1))
    have h1: "\<forall>j\<le>11. 2 ^ j \<le> ?n \<longrightarrow> 2 ^ j dvd unat ?q"
    proof (intro allI impI)
      fix j :: nat assume j: "j \<le> 11" "2 ^ j \<le> ?n"
      then have n: "2 ^ j \<le> n" by simp
      then have "j \<le> ?k" using order_down_max j(1) by blast
      then have "(2 :: nat) ^ j dvd 2 ^ ?k" by (rule le_imp_power_dvd)
      moreover have "2 ^ j dvd unat p" using less.prems(2) n j(1) by blast
      ultimately show "2 ^ j dvd unat ?q" unfolding q by (rule dvd_add [rotated])
    qed
    have h2: "zn_base_pfn (zs_zone ?s) \<le> ?q" using less.prems(3) unfolding z word_le_nat_alt q by simp
    have h3: "?n = 0 \<or> unat ?q + ?n \<le> unat (zn_end_pfn (zs_zone ?s))" using less.prems(4) False k(2) unfolding z q by auto
    have h4: "{unat ?q ..< unat ?q + ?n} \<inter> free_set ?ch = {}"
    proof -
      have "{unat ?q ..< unat ?q + ?n} \<subseteq> {unat p ..< unat p + n}" unfolding q using k(2) by auto
      moreover have "{unat ?q ..< unat ?q + ?n} \<inter> block p ?k = {}" unfolding bl q by auto
      ultimately show ?thesis unfolding f2 using less.prems(5) by blast
    qed
    have h5: "\<forall>x. unat ?q \<le> unat x \<and> unat x < unat ?q + ?n \<longrightarrow> pg_flags (zs_pages ?s x) = 0"
      using less.prems(6) k(2) unfolding q fl by simp
    have lt: "?n < n" using False by simp
    from less.IH [OF lt i2 h1 h2 h3 h4 h5] obtain ch' where ch': "zone_inv ch' (carve ?q ?n ?s)"
      "free_set ch' = free_set ?ch \<union> {unat ?q ..< unat ?q + ?n}"
      "zn_base_pfn (zs_zone (carve ?q ?n ?s)) = zn_base_pfn (zs_zone ?s)"
      "zn_end_pfn (zs_zone (carve ?q ?n ?s)) = zn_end_pfn (zs_zone ?s)" by blast
    have eq: "carve p n s = carve ?q ?n ?s" using False by (subst carve.simps) (simp add: Let_def s1_def)
    have "free_set ch' = free_set ch \<union> {unat p ..< unat p + n}" unfolding ch'(2) f2 bl q using k(2) by auto
    with ch' show ?thesis unfolding eq z by blast
  qed
qed

lemma init_words:
  assumes "(n :: u64) = sz div 4096" and "n \<noteq> 0" and "base = addr div 4096" and "a = (n * 48 + 4096 - 1) div 4096"
  shows "unat a \<le> unat n" and "0 < unat a" and "unat (base + n) = unat base + unat n" and "unat (base + a) = unat base + unat a"
    and "unat (n - a) = unat n - unat a"
proof -
  have l: "unat n < 2 ^ 52" "unat base < 2 ^ 52"
    using unat64_less [of sz] unat64_less [of addr] by (simp_all add: assms(1,3) unat_div_distrib div_less_iff_less_mult)
  have "unat (n * 48 + 4096 - 1) = unat n * 48 + 4095"
  proof -
    have e: "n * 48 + 4096 - 1 = of_nat (unat n * 48 + 4095)" by simp
    show ?thesis unfolding e unat_of_nat using l(1) by simp
  qed
  then have a: "unat a = (unat n * 48 + 4095) div 4096" by (simp add: assms(4) unat_div_distrib)
  have "0 < unat n" using assms(2) by (simp add: unat_gt_0)
  then show an: "unat a \<le> unat n" "0 < unat a" unfolding a by auto
  show "unat (base + n) = unat base + unat n" "unat (base + a) = unat base + unat a"
    using l an(1) by (simp_all add: unat_word_ariths(1))
  show "unat (n - a) = unat n - unat a" using an(1) by (simp add: unat_sub word_le_nat_alt)
qed

text \<open>
  C18. A zone in which the pages behind the page structures begin at a frame that is a multiple of the largest block hands
  no page out twice: after \<open>buddy_init\<close>, whatever orders are allocated one after the other, every allocation returns, the blocks
  returned have no page in common, and they lie behind the page structures and within the zone.
\<close>

theorem allocations_disjoint:
  assumes "buddy_init base_addr size_bytes s0 = (0, s)"
    and "array_pages = ((size_bytes div PAGE_SIZE) * SIZEOF_PAGE + PAGE_SIZE - 1) div PAGE_SIZE"
    and "2 ^ BUDDY_MAX_ORDER dvd unat (base_addr div PAGE_SIZE + array_pages)"
  shows "\<exists>bs s'. alloc_run ks s = Some (bs, s') \<and> all_disjoint bs \<and>
    (\<forall>(p, k)\<in>set bs. block p k \<subseteq> {unat (base_addr div PAGE_SIZE + array_pages) ..< unat (base_addr div PAGE_SIZE + size_bytes div PAGE_SIZE)})"
proof -
  let ?base = "base_addr div 4096" and ?n = "size_bytes div 4096"
  have n: "?n \<noteq> 0" using assms(1) by (auto simp: buddy_init_def Let_def)
  note w = init_words [OF refl n refl assms(2)]
  let ?z = "zone_zero\<lparr>zn_base_pfn := ?base, zn_end_pfn := ?base + ?n, zn_total_pages := ?n\<rparr>"
  define pgs where "pgs = (\<lambda>p. if unat (p - ?base) < unat ?n
      then \<lparr>pg_next = None, pg_prev = None, pg_order = 0, pg_flags = (if unat (p - ?base) < unat array_pages then PAGE_FLAG_RESERVED else 0),
            pg_refcount = 0, pg_zone_idx = 0, pg_slab_cache = None\<rparr>
      else zs_pages s0 p)"
  define s1 where "s1 = \<lparr>zs_zone = ?z\<lparr>zn_reserved_pages := array_pages\<rparr>, zs_pages = pgs\<rparr>"
  let ?p = "?base + array_pages" and ?m = "unat (?n - array_pages)"
  have i: "zone_inv (\<lambda>_. []) s1" and f: "free_set (\<lambda>_. []) = {}"
    by (simp_all add: zone_inv_def blocks_disjoint_def free_blocks_def free_set_def s1_def zone_zero_def)
  have h1: "\<forall>j\<le>11. 2 ^ j \<le> ?m \<longrightarrow> 2 ^ j dvd unat ?p"
    using assms(3) by (auto intro: dvd_trans [OF le_imp_power_dvd])
  have h2: "zn_base_pfn (zs_zone s1) \<le> ?p" using w by (simp add: s1_def word_le_nat_alt)
  have h3: "?m = 0 \<or> unat ?p + ?m \<le> unat (zn_end_pfn (zs_zone s1))" using w by (simp add: s1_def)
  have h5: "\<forall>q. unat ?p \<le> unat q \<and> unat q < unat ?p + ?m \<longrightarrow> pg_flags (zs_pages s1 q) = 0"
  proof (intro allI impI)
    fix q :: pfn assume q: "unat ?p \<le> unat q \<and> unat q < unat ?p + ?m"
    then have "?base \<le> q" using w by (simp add: word_le_nat_alt)
    then have "unat (q - ?base) = unat q - unat ?base" by (simp add: unat_sub)
    moreover have "\<not> unat q - unat ?base < unat array_pages" "unat q - unat ?base < unat ?n" using q w by auto
    ultimately show "pg_flags (zs_pages s1 q) = 0" by (simp add: s1_def pgs_def)
  qed
  have h4: "{unat ?p ..< unat ?p + ?m} \<inter> free_set (\<lambda>_. []) = {}" unfolding f by blast
  from carve_inv [OF i h1 h2 h3 h4 h5] obtain ch where ch: "zone_inv ch (carve ?p ?m s1)"
    "free_set ch = {unat ?p ..< unat ?p + ?m}" unfolding f by auto
  have s: "s = (carve ?p ?m s1)\<lparr>zs_zone := (zs_zone (carve ?p ?m s1))\<lparr>zn_free_pages := free_total (zs_zone (carve ?p ?m s1)),
      zn_managed_pages := free_total (zs_zone (carve ?p ?m s1))\<rparr>\<rparr>"
  proof -
    have t: "zn_zone_type ?z = 0" by (simp add: zone_zero_def)
    have "buddy_init base_addr size_bytes s0 = (0, (carve ?p ?m s1)\<lparr>zs_zone := (zs_zone (carve ?p ?m s1))\<lparr>
        zn_free_pages := free_total (zs_zone (carve ?p ?m s1)), zn_managed_pages := free_total (zs_zone (carve ?p ?m s1))\<rparr>\<rparr>)"
      unfolding buddy_init_def Let_def if_not_P [OF n] assms(2) [symmetric] t s1_def pgs_def by (rule refl)
    with assms(1) show ?thesis by simp
  qed
  have "zone_inv ch s" by (rule zone_inv_cong [OF ch(1)]) (simp_all add: s)
  from alloc_run_inv [OF this, of ks] obtain bs s' where r: "alloc_run ks s = Some (bs, s')" "all_disjoint bs"
    "\<forall>b\<in>set bs. block (fst b) (snd b) \<subseteq> free_set ch" by blast
  have e: "free_set ch = {unat ?p ..< unat (?base + ?n)}" using ch(2) w by simp
  show ?thesis
  proof (intro exI conjI)
    show "alloc_run ks s = Some (bs, s')" "all_disjoint bs" by (fact r)+
    show "\<forall>(p, k)\<in>set bs. block p k \<subseteq> {unat ?p ..< unat (?base + ?n)}" using r(3) unfolding e by (simp add: case_prod_beta)
  qed
qed

theorem allocations_disjoint_witness:
  "\<exists>bs s'. alloc_run [0, 1, 0] (snd (buddy_init 8384512 12288 \<lparr>zs_zone = zone_zero, zs_pages = (\<lambda>_. undefined)\<rparr>)) = Some (bs, s') \<and>
     all_disjoint bs \<and> (\<forall>(p, k)\<in>set bs. block p k \<subseteq> {2048 ..< 2050})"
proof -
  let ?s0 = "\<lparr>zs_zone = zone_zero, zs_pages = (\<lambda>_. undefined)\<rparr>"
  have i: "buddy_init 8384512 12288 ?s0 = (0, snd (buddy_init 8384512 12288 ?s0))"
    by (simp add: buddy_init_def Let_def)
  from allocations_disjoint [OF i refl, of "[0, 1, 0]"] show ?thesis by simp
qed

section \<open>Blocks given out twice\<close>

lemmas list_eval = pg_list_pop_def pg_list_add_def pg_list_del_def upd_page_def set_head_def add_count_def buddy_pfn_def pfn_to_page_def
  in_freelist_def Let_def

lemma in_walk_eval:
  "in_walk pg p None = Some False"
  "in_walk pg p (Some q) = (if q = p then Some True else in_walk pg p (pg_next (pg q)))"
  by (simp_all add: in_walk.simps)

lemma carve_two: "carve p 2 s = pg_list_add 1 p (upd_page p (\<lambda>g. g\<lparr>pg_order := 1\<rparr>) s)"
proof -
  have "order_down 2 11 = 1" by code_simp
  moreover have "carve q 0 s' = s'" for q s' by (simp add: carve.simps)
  ultimately show ?thesis by (subst carve.simps) (simp add: Let_def)
qed

lemma find_order:
  "P 0 \<Longrightarrow> find P [0..<Suc 11] = Some 0"
  "\<not> P 0 \<Longrightarrow> P 1 \<Longrightarrow> find P [0..<Suc 11] = Some 1"
  "P 1 \<Longrightarrow> find P [1..<Suc 11] = Some 1"
  by (simp_all add: upt_conv_Cons del: upt_Suc)

text \<open>The zone of the frames 257 to 259, whose two last pages are not listed among others.\<close>

definition two_pages :: "(nat \<Rightarrow> pfn option) \<Rightarrow> u32 \<Rightarrow> zst \<Rightarrow> bool" where
  "two_pages heads used s \<longleftrightarrow> zn_base_pfn (zs_zone s) = 257 \<and> zn_end_pfn (zs_zone s) = 260 \<and> zn_free_list (zs_zone s) = heads \<and>
     (\<forall>p\<in>{258, 259}. pg_next (zs_pages s p) = None \<and> pg_prev (zs_pages s p) = None) \<and>
     pg_flags (zs_pages s 258) = used \<and> pg_flags (zs_pages s 259) = 0"

lemma two_pages_init:
  "two_pages ((\<lambda>_. None)(1 := Some 258)) 0 (snd (buddy_init 0x101000 0x3000 s0))"
  by (auto simp add: two_pages_def buddy_init_def carve_two zone_zero_def list_eval)

lemma two_pages_alloc:
  assumes "two_pages ((\<lambda>_. None)(1 := Some 258)) 0 s"
  shows "\<exists>s'. buddy_alloc_pages 0 s = Some (Some 258, s') \<and> two_pages ((\<lambda>_. None)(0 := Some 259)) 1 s' \<and>
    pg_order (zs_pages s' 258) = 0 \<and> pg_order (zs_pages s' 259) = 0"
proof -
  have f: "find (\<lambda>i. zn_free_list (zs_zone s) i \<noteq> None) [0..<Suc 11] = Some 1"
    by (rule find_order) (use assms in \<open>simp_all add: two_pages_def\<close>)
  show ?thesis using assms unfolding buddy_alloc_pages_def f
    by (simp add: pop_unreserved.simps [of "Suc 0" s] list_eval two_pages_def)
qed

lemma two_pages_free:
  assumes "two_pages ((\<lambda>_. None)(0 := Some 259)) 1 s" and "pg_order (zs_pages s 258) = 0" and "pg_order (zs_pages s 259) = 0"
  shows "\<exists>s'. buddy_free_pages (Some 258) s = Some s' \<and> two_pages ((\<lambda>_. None)(0 := Some 259, 1 := Some 258)) 0 s'"
  using assms
  by (simp add: buddy_free_pages_def two_pages_def list_eval merge_up.simps [of 258 0] merge_up.simps [of 258 "Suc 0"] in_walk_eval)

lemma two_pages_alloc_stale:
  assumes "two_pages ((\<lambda>_. None)(0 := Some 259, 1 := Some 258)) 0 s"
  shows "\<exists>s'. buddy_alloc_pages 0 s = Some (Some 259, s') \<and> zn_free_list (zs_zone s') 1 = Some 258 \<and>
    pg_flags (zs_pages s' 258) = 0"
proof -
  have f: "find (\<lambda>i. zn_free_list (zs_zone s) i \<noteq> None) [0..<Suc 11] = Some 0"
    by (rule find_order) (use assms in \<open>simp_all add: two_pages_def\<close>)
  show ?thesis using assms unfolding buddy_alloc_pages_def f
    by (simp add: pop_unreserved.simps [of 0 s] list_eval two_pages_def)
qed

lemma alloc_head:
  assumes "zn_free_list (zs_zone s) 1 = Some 258" and "pg_flags (zs_pages s 258) = 0"
  shows "\<exists>s'. buddy_alloc_pages 1 s = Some (Some 258, s')"
proof -
  have f: "find (\<lambda>i. zn_free_list (zs_zone s) i \<noteq> None) [1..<Suc 11] = Some 1"
    by (rule find_order) (use assms in simp)
  have p: "pop_unreserved 1 s = Some (Some 258, snd (pg_list_pop 1 s))"
    using assms by (cases "pg_next (zs_pages s 258)") (simp_all add: pop_unreserved.simps [of 1 s] list_eval del: One_nat_def)
  show ?thesis unfolding buddy_alloc_pages_def f by (simp add: p Let_def del: One_nat_def)
qed

text \<open>
  Joining a freed block with its buddy leaves the buddy at the head of its free list: in a zone of two free pages, allocating one page
  and freeing it again makes the allocator give the second page out both as a page of its own and as a part of the block of both pages.
\<close>

theorem freed_buddy_given_out_twice:
  "\<exists>s s1 s2 s3 s4. buddy_init 0x101000 0x3000 s0 = (0, s) \<and> buddy_alloc_pages 0 s = Some (Some 258, s1) \<and>
     buddy_free_pages (Some 258) s1 = Some s2 \<and> buddy_alloc_pages 0 s2 = Some (Some 259, s3) \<and>
     buddy_alloc_pages 1 s3 = Some (Some 258, s4) \<and> block 259 0 \<subseteq> block 258 1"
proof -
  let ?s = "snd (buddy_init 0x101000 0x3000 s0)"
  have i: "buddy_init 0x101000 0x3000 s0 = (0, ?s)" by (simp add: buddy_init_def Let_def)
  from two_pages_alloc [OF two_pages_init] obtain s1 where s1: "buddy_alloc_pages 0 ?s = Some (Some 258, s1)"
    "two_pages ((\<lambda>_. None)(0 := Some 259)) 1 s1" "pg_order (zs_pages s1 258) = 0" "pg_order (zs_pages s1 259) = 0" by blast
  from two_pages_free [OF s1(2-4)] obtain s2 where s2: "buddy_free_pages (Some 258) s1 = Some s2"
    "two_pages ((\<lambda>_. None)(0 := Some 259, 1 := Some 258)) 0 s2" by blast
  from two_pages_alloc_stale [OF s2(2)] obtain s3 where s3: "buddy_alloc_pages 0 s2 = Some (Some 259, s3)"
    "zn_free_list (zs_zone s3) 1 = Some 258" "pg_flags (zs_pages s3 258) = 0" by blast
  from alloc_head [OF s3(2,3)] obtain s4 where s4: "buddy_alloc_pages 1 s3 = Some (Some 258, s4)" by blast
  have "block 259 0 \<subseteq> block 258 1" by (simp add: block_def)
  with i s1(1) s2(1) s3(1) s4 show ?thesis by blast
qed

end
