(* ===== verification/Route.thy ===== *)
theory Route
  imports KPrelude
begin

text \<open>
  The routing tables of \<open>kernel/arch/x86_64/route.c\<close>. The entries of a table are a singly linked list that only its table
  points to; it is a list here. The test \<open>count \<ge> 0\<close> of \<open>route_table_get\<close> always holds, as
  \<open>count\<close> is unsigned.
\<close>

section \<open>Data\<close>

abbreviation (input) FIB_TABLE_MAX :: nat where "FIB_TABLE_MAX \<equiv> 256"
abbreviation (input) FIB_ENTRY_MAX :: u32 where "FIB_ENTRY_MAX \<equiv> 1024"
abbreviation (input) RT_TABLE_DEFAULT :: u32 where "RT_TABLE_DEFAULT \<equiv> 253"
abbreviation (input) RT_TABLE_MAIN :: u32 where "RT_TABLE_MAIN \<equiv> 254"
abbreviation (input) RT_TABLE_LOCAL :: u32 where "RT_TABLE_LOCAL \<equiv> 255"
abbreviation (input) ROUTE_IFNAME_MAX :: nat where "ROUTE_IFNAME_MAX \<equiv> 16"
abbreviation (input) RTN_UNICAST :: u16 where "RTN_UNICAST \<equiv> 1"
abbreviation (input) RTN_HOST :: u16 where "RTN_HOST \<equiv> 7"
abbreviation (input) RTF_UP :: u16 where "RTF_UP \<equiv> 1"
abbreviation (input) RTF_GATEWAY :: u16 where "RTF_GATEWAY \<equiv> 2"

record route_entry =
  re_dst :: u32
  re_mask :: u32
  re_gw :: u32
  re_if_index :: int
  re_metric :: u32
  re_mtu :: u32
  re_type :: u16
  re_flags :: u16
  re_ifname :: string

record route_table =
  rt_tb_id :: u32
  rt_entries :: "route_entry list"
  rt_count :: u32

record fib_table =
  fib_tables :: "nat \<Rightarrow> route_table"
  fib_table_count :: u32

section \<open>Operations\<close>

text \<open>The loop of \<open>mask_to_prefix\<close>: the number of one bits.\<close>

function mask_loop :: "u32 \<Rightarrow> nat \<Rightarrow> nat" where
  "mask_loop m n = (if m = 0 then n else mask_loop (drop_bit 1 m) (n + unat (m AND 1)))"
  by pat_completeness auto
termination
proof (relation "measure (\<lambda>(m, n). unat m)")
  fix m :: u32 and n :: nat assume "m \<noteq> 0"
  moreover have "unat (drop_bit 1 m) = unat m div 2" by (simp add: drop_bit_eq_div unat_div_distrib)
  moreover have "0 < unat m" using \<open>m \<noteq> 0\<close> by (simp add: unat_gt_0)
  ultimately show "((drop_bit 1 m, n + unat (m AND 1)), (m, n)) \<in> measure (\<lambda>(m, n). unat m)" by simp
qed simp

declare mask_loop.simps [simp del]

definition mask_to_prefix :: "u32 \<Rightarrow> nat" where
  "mask_to_prefix m = mask_loop m 0"

definition route_table_get :: "u32 \<Rightarrow> fib_table \<Rightarrow> nat option" where
  "route_table_get table_id f = first_index (\<lambda>i. rt_tb_id (fib_tables f i) = table_id) FIB_TABLE_MAX"

definition upd_table :: "nat \<Rightarrow> (route_table \<Rightarrow> route_table) \<Rightarrow> fib_table \<Rightarrow> fib_table" where
  "upd_table i g f = f\<lparr>fib_tables := (fib_tables f)(i := g (fib_tables f i))\<rparr>"

definition route_table_create :: "u32 \<Rightarrow> fib_table \<Rightarrow> int \<times> fib_table" where
  "route_table_create table_id f =
     (case first_index (\<lambda>i. rt_tb_id (fib_tables f i) = 0) FIB_TABLE_MAX of
        Some i \<Rightarrow> (0, (upd_table i (\<lambda>t. t\<lparr>rt_tb_id := table_id, rt_entries := [], rt_count := 0\<rparr>) f)
                        \<lparr>fib_table_count := fib_table_count f + 1\<rparr>)
      | None \<Rightarrow> (- 1, f))"

text \<open>Longer prefixes first, smaller metrics first among equal prefixes, behind the entries that are equal in both.\<close>

fun route_insert_sorted :: "route_entry \<Rightarrow> route_entry list \<Rightarrow> route_entry list" where
  "route_insert_sorted e [] = [e]"
| "route_insert_sorted e (c # cs) =
     (if mask_to_prefix (re_mask e) > mask_to_prefix (re_mask c) then e # c # cs
      else if mask_to_prefix (re_mask e) = mask_to_prefix (re_mask c) \<and> re_metric e < re_metric c then e # c # cs
      else c # route_insert_sorted e cs)"

definition route_entry_of :: "u32 \<Rightarrow> u32 \<Rightarrow> u32 \<Rightarrow> int \<Rightarrow> u32 \<Rightarrow> route_entry" where
  "route_entry_of dst m gw if_index metric =
     \<lparr>re_dst = dst AND m, re_mask = m, re_gw = gw, re_if_index = if_index, re_metric = metric, re_mtu = 1500,
      re_type = (if m = 0xffffffff then RTN_HOST else RTN_UNICAST),
      re_flags = (if gw \<noteq> 0 then RTF_UP OR RTF_GATEWAY else RTF_UP), re_ifname = []\<rparr>"

text \<open>\<open>ok\<close> says whether \<open>kmalloc\<close> gives an entry.\<close>

definition route_add_at :: "bool \<Rightarrow> nat \<Rightarrow> route_entry \<Rightarrow> fib_table \<Rightarrow> int \<times> fib_table" where
  "route_add_at ok i e f =
     (if rt_count (fib_tables f i) \<ge> FIB_ENTRY_MAX then (- 1, f)
      else if \<not> ok then (- 1, f)
      else (0, upd_table i (\<lambda>t. t\<lparr>rt_entries := route_insert_sorted e (rt_entries t), rt_count := rt_count t + 1\<rparr>) f))"

definition route_add :: "bool \<Rightarrow> u32 \<Rightarrow> u32 \<Rightarrow> u32 \<Rightarrow> u32 \<Rightarrow> int \<Rightarrow> u32 \<Rightarrow> fib_table \<Rightarrow> int \<times> fib_table" where
  "route_add ok table_id dst m gw if_index metric f =
     (case route_table_get table_id f of
        Some i \<Rightarrow> route_add_at ok i (route_entry_of dst m gw if_index metric) f
      | None \<Rightarrow>
          (case route_table_create table_id f of
             (r, f1) \<Rightarrow>
               if r \<noteq> 0 then (- 1, f1)
               else (case route_table_get table_id f1 of
                       None \<Rightarrow> (- 1, f1)
                     | Some i \<Rightarrow> route_add_at ok i (route_entry_of dst m gw if_index metric) f1)))"

definition route_init :: "bool \<Rightarrow> bool \<Rightarrow> fib_table \<Rightarrow> fib_table" where
  "route_init ok1 ok2 f =
     (let f0 = f\<lparr>fib_table_count := 0,
                 fib_tables := (\<lambda>i. if i < FIB_TABLE_MAX then (fib_tables f i)\<lparr>rt_tb_id := 0, rt_entries := [], rt_count := 0\<rparr>
                                    else fib_tables f i)\<rparr>;
          f1 = snd (route_table_create RT_TABLE_LOCAL f0);
          f2 = snd (route_table_create RT_TABLE_MAIN f1);
          f3 = snd (route_table_create RT_TABLE_DEFAULT f2);
          f4 = snd (route_add ok1 RT_TABLE_LOCAL 0x7f000001 0xffffffff 0 1 0 f3)
      in snd (route_add ok2 RT_TABLE_LOCAL 0x7f000000 0xff000000 0 1 0 f4))"

text \<open>The entry that the first match removes, or \<open>None\<close>.\<close>

fun del_first :: "u32 \<Rightarrow> u32 \<Rightarrow> route_entry list \<Rightarrow> route_entry list option" where
  "del_first d m [] = None"
| "del_first d m (c # cs) = (if re_dst c = d AND m \<and> re_mask c = m then Some cs else map_option ((#) c) (del_first d m cs))"

definition route_del :: "u32 \<Rightarrow> u32 \<Rightarrow> u32 \<Rightarrow> fib_table \<Rightarrow> int \<times> fib_table" where
  "route_del table_id dst m f =
     (case route_table_get table_id f of
        None \<Rightarrow> (- 1, f)
      | Some i \<Rightarrow>
          (case del_first dst m (rt_entries (fib_tables f i)) of
             None \<Rightarrow> (- 1, f)
           | Some es \<Rightarrow> (0, upd_table i (\<lambda>t. t\<lparr>rt_entries := es, rt_count := rt_count t - 1\<rparr>) f)))"

definition matches :: "u32 \<Rightarrow> route_entry \<Rightarrow> bool" where
  "matches dst e \<longleftrightarrow> dst AND re_mask e = re_dst e"

text \<open>The walk through one table; the state is the best entry so far and its prefix length.\<close>

fun lookup_entries :: "u32 \<Rightarrow> route_entry list \<Rightarrow> route_entry option \<times> nat \<Rightarrow> route_entry option \<times> nat" where
  "lookup_entries dst [] b = b"
| "lookup_entries dst (e # es) b =
     lookup_entries dst es
       (if matches dst e \<and> mask_to_prefix (re_mask e) > snd b then (Some e, mask_to_prefix (re_mask e)) else b)"

definition route_lookup :: "u32 \<Rightarrow> fib_table \<Rightarrow> route_entry option" where
  "route_lookup dst f =
     fst (fold (\<lambda>t b. if rt_tb_id (fib_tables f t) = 0 then b else lookup_entries dst (rt_entries (fib_tables f t)) b)
           [0..<FIB_TABLE_MAX] (None, 0))"

definition route_flush :: "u32 \<Rightarrow> fib_table \<Rightarrow> fib_table" where
  "route_flush table_id f =
     (case route_table_get table_id f of
        None \<Rightarrow> f
      | Some i \<Rightarrow> upd_table i (\<lambda>t. t\<lparr>rt_entries := [], rt_count := 0\<rparr>) f)"

definition route_flush_all :: "fib_table \<Rightarrow> fib_table" where
  "route_flush_all f =
     f\<lparr>fib_tables := (\<lambda>i. if i < FIB_TABLE_MAX \<and> rt_tb_id (fib_tables f i) \<noteq> 0
                          then (fib_tables f i)\<lparr>rt_entries := [], rt_count := 0\<rparr> else fib_tables f i)\<rparr>"

text \<open>The next hop, the interface, and the caller's buffer for the name, which a route without a name leaves alone.\<close>

definition route_forward :: "u32 \<Rightarrow> (nat \<Rightarrow> char) \<Rightarrow> fib_table \<Rightarrow> (u32 \<times> int \<times> (nat \<Rightarrow> char)) option" where
  "route_forward dst_ip ifname f =
     (case route_lookup dst_ip f of
        None \<Rightarrow> None
      | Some e \<Rightarrow>
          Some (if re_flags e AND RTF_GATEWAY \<noteq> 0 then re_gw e else dst_ip, re_if_index e,
                if re_ifname e = [] then ifname
                else (\<lambda>j. if j = ROUTE_IFNAME_MAX - 1 then CHR 0x00
                          else if j < length (re_ifname e) then re_ifname e ! j else ifname j)))"

end
