(* ===== verification/RouteProps.thy ===== *)
theory RouteProps
  imports Route
begin

text \<open>
  The routing tables stay sorted, a lookup is the longest prefix match of least metric, what a failed call leaves behind, and the
  default route, which is never found.
\<close>

section \<open>Prefix lengths\<close>

lemma one_bits_shift: "card {i. bit (m :: u32) i} = unat (m AND 1) + card {i. bit (drop_bit 1 m) i}"
proof -
  have f: "finite {i. bit (drop_bit 1 m) i}"
    by (rule finite_subset [of _ "{..<32}"]) (auto dest: bit_imp_le_length)
  have i: "card (Suc ` {i. bit (drop_bit 1 m) i}) = card {i. bit (drop_bit 1 m) i}" by (rule card_image) simp
  have e: "{i. bit m i} = (if bit m 0 then {0} else {}) \<union> Suc ` {i. bit (drop_bit 1 m) i}"
  proof (rule set_eqI)
    fix i show "i \<in> {i. bit m i} \<longleftrightarrow> i \<in> (if bit m 0 then {0} else {}) \<union> Suc ` {i. bit (drop_bit 1 m) i}"
      by (cases i) (auto simp: bit_drop_bit_eq)
  qed
  show ?thesis
  proof (cases "bit m 0")
    case True
    then have "unat (m AND 1) = 1" by (simp add: and_one_eq odd_iff_mod_2_eq_one bit_0)
    moreover have "card ({0} \<union> Suc ` {i. bit (drop_bit 1 m) i}) = 1 + card (Suc ` {i. bit (drop_bit 1 m) i})"
      using f by (subst card_Un_disjoint) auto
    ultimately show ?thesis using e i True by simp
  next
    case False
    then have "m AND 1 = 0" by (simp add: and_one_eq bit_0 even_iff_mod_2_eq_zero)
    then show ?thesis using e i False by simp
  qed
qed

lemma mask_loop_card: "mask_loop m n = n + card {i. bit m i}"
proof (induction m n rule: mask_loop.induct)
  case (1 m n)
  show ?case
  proof (cases "m = 0")
    case False
    then show ?thesis using 1 one_bits_shift [of m] by (subst mask_loop.simps) simp
  next
    case True
    then have e: "{i. bit m i} = {}" by simp
    have "mask_loop m n = n" using True by (subst mask_loop.simps) simp
    then show ?thesis unfolding e by simp
  qed
qed

text \<open>The prefix length is the number of one bits of the mask.\<close>

lemma mask_to_prefix_card: "mask_to_prefix m = card {i. bit m i}"
  by (simp add: mask_to_prefix_def mask_loop_card)

lemma prefix_0 [simp]: "mask_to_prefix 0 = 0"
  by (simp add: mask_to_prefix_card)

section \<open>The order of a table\<close>

text \<open>Rank of an entry: prefix length, then metric.\<close>

datatype route_rank = Rank nat u32

instantiation route_rank :: linorder
begin

definition less_eq_route_rank :: "route_rank \<Rightarrow> route_rank \<Rightarrow> bool" where
  "less_eq_route_rank a b = (case (a, b) of (Rank p m, Rank q n) \<Rightarrow> q < p \<or> q = p \<and> m \<le> n)"

definition less_route_rank :: "route_rank \<Rightarrow> route_rank \<Rightarrow> bool" where
  "less_route_rank a b = (case (a, b) of (Rank p m, Rank q n) \<Rightarrow> q < p \<or> q = p \<and> m < n)"

instance
  by standard (auto simp: less_eq_route_rank_def less_route_rank_def split: route_rank.splits)

end

lemma Rank_le [simp]: "Rank p m \<le> Rank q n \<longleftrightarrow> q < p \<or> q = p \<and> m \<le> n"
  by (simp add: less_eq_route_rank_def)

lemma Rank_less [simp]: "Rank p m < Rank q n \<longleftrightarrow> q < p \<or> q = p \<and> m < n"
  by (simp add: less_route_rank_def)

definition rank :: "route_entry \<Rightarrow> route_rank" where
  "rank e = Rank (mask_to_prefix (re_mask e)) (re_metric e)"

definition table_inv :: "route_table \<Rightarrow> bool" where
  "table_inv t \<longleftrightarrow> sorted (map rank (rt_entries t)) \<and> rt_count t = of_nat (length (rt_entries t)) \<and> length (rt_entries t) \<le> 1024"

definition fib_inv :: "fib_table \<Rightarrow> bool" where
  "fib_inv f \<longleftrightarrow> (\<forall>i<FIB_TABLE_MAX. table_inv (fib_tables f i))"

text \<open>The place of a new entry is the one of an insertion behind the entries of the same rank.\<close>

lemma insert_before: "route_insert_sorted e (c # cs) = (if rank e < rank c then e # c # cs else c # route_insert_sorted e cs)"
  by (auto simp: rank_def)

lemma set_insert: "set (route_insert_sorted e es) = insert e (set es)"
  by (induction es) auto

lemma length_insert [simp]: "length (route_insert_sorted e es) = Suc (length es)"
  by (induction es) auto

lemma sorted_insert: "sorted (map rank es) \<Longrightarrow> sorted (map rank (route_insert_sorted e es))"
  by (induction es) (auto simp: insert_before set_insert simp del: route_insert_sorted.simps(2))

lemma del_first_Some:
  assumes "del_first d m es = Some es'"
  shows "\<exists>us e vs. es = us @ e # vs \<and> es' = us @ vs \<and> re_dst e = d AND m \<and> re_mask e = m"
  using assms
proof (induction es arbitrary: es')
  case (Cons c cs)
  show ?case
  proof (cases "re_dst c = d AND m \<and> re_mask c = m")
    case True with Cons.prems show ?thesis by (intro exI [of _ "[]"]) auto
  next
    case False
    with Cons.prems obtain cs' where "del_first d m cs = Some cs'" "es' = c # cs'" by auto
    with Cons.IH obtain us e vs where "cs = us @ e # vs" "cs' = us @ vs" "re_dst e = d AND m" "re_mask e = m" by blast
    with \<open>es' = c # cs'\<close> show ?thesis by (intro exI [of _ "c # us"]) auto
  qed
qed simp

lemma del_first_None: "del_first d m es = None \<longleftrightarrow> (\<forall>e\<in>set es. \<not> (re_dst e = d AND m \<and> re_mask e = m))"
  by (induction es) auto

section \<open>Every reachable table keeps the invariant\<close>

lemma upd_table_inv: "fib_inv f \<Longrightarrow> table_inv (g (fib_tables f i)) \<Longrightarrow> fib_inv (upd_table i g f)"
  by (simp add: fib_inv_def upd_table_def)

lemma table_inv_empty [simp]: "rt_entries t = [] \<Longrightarrow> rt_count t = 0 \<Longrightarrow> table_inv t"
  by (simp add: table_inv_def)

lemma create_inv: "fib_inv f \<Longrightarrow> fib_inv (snd (route_table_create i f))"
  by (auto simp: route_table_create_def fib_inv_def upd_table_def split: option.splits)

lemma add_at_inv:
  assumes "fib_inv f" and "i < FIB_TABLE_MAX"
  shows "fib_inv (snd (route_add_at ok i e f))"
proof -
  have t: "table_inv (fib_tables f i)" using assms by (simp add: fib_inv_def)
  then have "\<not> rt_count (fib_tables f i) \<ge> 1024 \<Longrightarrow> length (rt_entries (fib_tables f i)) < 1024"
    by (auto simp: table_inv_def order_le_less)
  with t show ?thesis
    by (auto simp: route_add_at_def table_inv_def sorted_insert intro!: upd_table_inv assms(1))
qed

lemma get_less: "route_table_get i f = Some k \<Longrightarrow> k < FIB_TABLE_MAX \<and> rt_tb_id (fib_tables f k) = i"
  by (auto simp: route_table_get_def first_index_Some)

lemma add_inv: "fib_inv f \<Longrightarrow> fib_inv (snd (route_add ok i d m gw ifx me f))"
  using create_inv [of f i] by (auto simp: route_add_def add_at_inv get_less split: option.splits prod.splits)

lemma del_inv:
  assumes "fib_inv f"
  shows "fib_inv (snd (route_del i d m f))"
proof (cases "route_table_get i f")
  case (Some k)
  show ?thesis
  proof (cases "del_first d m (rt_entries (fib_tables f k))")
    case (Some es)
    have t: "table_inv (fib_tables f k)" using assms get_less [OF \<open>route_table_get i f = Some k\<close>] by (simp add: fib_inv_def)
    from del_first_Some [OF Some] t have "table_inv ((fib_tables f k)\<lparr>rt_entries := es, rt_count := rt_count (fib_tables f k) - 1\<rparr>)"
      by (auto simp: table_inv_def sorted_append)
    with Some \<open>route_table_get i f = Some k\<close> assms show ?thesis by (simp add: route_del_def upd_table_inv)
  qed (use assms Some in \<open>simp add: route_del_def\<close>)
qed (use assms in \<open>simp add: route_del_def\<close>)

lemma flush_inv: "fib_inv f \<Longrightarrow> fib_inv (route_flush i f)" "fib_inv f \<Longrightarrow> fib_inv (route_flush_all f)"
  by (auto simp: route_flush_def route_flush_all_def fib_inv_def upd_table_def split: option.splits)

lemma init_inv: "fib_inv (route_init ok1 ok2 f)"
  unfolding route_init_def Let_def by (intro add_inv create_inv) (simp add: fib_inv_def)

inductive fib_reach :: "fib_table \<Rightarrow> bool" where
  init: "fib_reach (route_init ok1 ok2 f)"
| create: "fib_reach f \<Longrightarrow> fib_reach (snd (route_table_create i f))"
| add: "fib_reach f \<Longrightarrow> fib_reach (snd (route_add ok i d m gw ifx me f))"
| del: "fib_reach f \<Longrightarrow> fib_reach (snd (route_del i d m f))"
| flush: "fib_reach f \<Longrightarrow> fib_reach (route_flush i f)"
| flush_all: "fib_reach f \<Longrightarrow> fib_reach (route_flush_all f)"

lemma reach_inv: "fib_reach f \<Longrightarrow> fib_inv f"
  by (induction rule: fib_reach.induct) (simp_all add: init_inv create_inv add_inv del_inv flush_inv)

section \<open>Lookup\<close>

abbreviation prefix_of :: "route_entry \<Rightarrow> nat" where
  "prefix_of e \<equiv> mask_to_prefix (re_mask e)"

definition first_best :: "u32 \<Rightarrow> route_entry list \<Rightarrow> route_entry option \<times> nat \<Rightarrow> bool" where
  "first_best dst es b \<longleftrightarrow> (\<exists>us e vs. es = us @ e # vs \<and> fst b = Some e \<and> prefix_of e = snd b \<and> matches dst e \<and>
     (\<forall>u\<in>set us. matches dst u \<longrightarrow> prefix_of u < prefix_of e))"

lemma first_best_Cons:
  "first_best dst es b \<Longrightarrow> (matches dst x \<longrightarrow> prefix_of x < snd b) \<Longrightarrow> first_best dst (x # es) b"
  unfolding first_best_def by (metis append_Cons set_ConsD)

lemma first_best_here: "matches dst x \<Longrightarrow> first_best dst (x # es) (Some x, prefix_of x)"
  unfolding first_best_def by (intro exI [of _ "[]"]) auto

lemma lookup_entries_best:
  assumes "lookup_entries dst es b = b'"
  shows "snd b \<le> snd b' \<and> (\<forall>e\<in>set es. matches dst e \<longrightarrow> prefix_of e \<le> snd b') \<and> (b' = b \<or> snd b < snd b' \<and> first_best dst es b')"
  using assms
proof (induction es arbitrary: b)
  case (Cons x es)
  let ?c = "if matches dst x \<and> prefix_of x > snd b then (Some x, prefix_of x) else b"
  from Cons have h: "snd ?c \<le> snd b' \<and> (\<forall>e\<in>set es. matches dst e \<longrightarrow> prefix_of e \<le> snd b') \<and>
    (b' = ?c \<or> snd ?c < snd b' \<and> first_best dst es b')" by simp
  have x: "matches dst x \<longrightarrow> prefix_of x \<le> snd ?c" "snd b \<le> snd ?c" by auto
  show ?case
  proof (cases "b' = ?c")
    case True
    then show ?thesis using h x by (cases "matches dst x \<and> prefix_of x > snd b") (auto simp: first_best_here)
  next
    case False
    then have l: "snd ?c < snd b'" "first_best dst es b'" using h by blast+
    have "matches dst x \<longrightarrow> prefix_of x < snd b'" "snd b < snd b'" using x l(1) by (meson le_less_trans)+
    with l(2) h show ?thesis by (auto intro: first_best_Cons)
  qed
qed auto

definition active_entries :: "fib_table \<Rightarrow> nat \<Rightarrow> route_entry list" where
  "active_entries f t = (if rt_tb_id (fib_tables f t) = 0 then [] else rt_entries (fib_tables f t))"

lemma route_lookup_active:
  "route_lookup dst f = fst (fold (\<lambda>t. lookup_entries dst (active_entries f t)) [0..<FIB_TABLE_MAX] (None, 0))"
proof -
  have "(if rt_tb_id (fib_tables f t) = 0 then b else lookup_entries dst (rt_entries (fib_tables f t)) b) =
    lookup_entries dst (active_entries f t) b" for t b by (simp add: active_entries_def)
  then show ?thesis unfolding route_lookup_def by (simp only: )
qed

lemma lookup_tables_best:
  assumes "fold (\<lambda>t. lookup_entries dst (E t)) ts b = b'"
  shows "snd b \<le> snd b' \<and> (\<forall>t\<in>set ts. \<forall>e\<in>set (E t). matches dst e \<longrightarrow> prefix_of e \<le> snd b') \<and>
    (b' = b \<or> snd b < snd b' \<and> (\<exists>t\<in>set ts. first_best dst (E t) b'))"
  using assms
proof (induction ts arbitrary: b)
  case (Cons t ts)
  let ?c = "lookup_entries dst (E t) b"
  note l = lookup_entries_best [OF refl, of b dst "E t"]
  have r: "fold (\<lambda>t. lookup_entries dst (E t)) ts ?c = b'" using Cons.prems by simp
  from Cons.IH [OF r] l show ?case by (auto intro: le_trans less_le_trans le_less_trans)
qed simp

text \<open>
  C19. A route lookup is the longest prefix match of least metric: in every table state that calls can reach, the entry found
  covers the address, no entry of an active table that covers it has a longer prefix, and none of the same table with the same prefix length
  has a smaller metric; nothing is found only when no entry with a prefix covers the address.
\<close>

theorem route_lookup_longest_prefix:
  assumes "fib_reach f"
  shows "case route_lookup dst f of
      None \<Rightarrow> \<forall>i<FIB_TABLE_MAX. \<forall>e\<in>set (active_entries f i). matches dst e \<longrightarrow> mask_to_prefix (re_mask e) = 0
    | Some e \<Rightarrow> matches dst e \<and>
        (\<forall>i<FIB_TABLE_MAX. \<forall>e'\<in>set (active_entries f i). matches dst e' \<longrightarrow> mask_to_prefix (re_mask e') \<le> mask_to_prefix (re_mask e)) \<and>
        (\<exists>i<FIB_TABLE_MAX. e \<in> set (active_entries f i) \<and>
           (\<forall>e'\<in>set (active_entries f i). matches dst e' \<and> mask_to_prefix (re_mask e') = mask_to_prefix (re_mask e) \<longrightarrow>
              re_metric e \<le> re_metric e'))"
proof -
  let ?b = "fold (\<lambda>t. lookup_entries dst (active_entries f t)) [0..<FIB_TABLE_MAX] (None, 0)"
  have l: "route_lookup dst f = fst ?b" by (rule route_lookup_active)
  note b = lookup_tables_best [OF refl, where dst = dst and E = "active_entries f" and ts = "[0..<FIB_TABLE_MAX]" and b = "(None, 0)"]
  have m: "\<forall>i<FIB_TABLE_MAX. \<forall>e\<in>set (active_entries f i). matches dst e \<longrightarrow> prefix_of e \<le> snd ?b"
    using b by (simp del: upt_rec_numeral)
  show ?thesis
  proof (cases "?b = (None, 0)")
    case True
    then show ?thesis using m unfolding l by (simp del: upt_rec_numeral)
  next
    case False
    with b obtain i where i: "i < FIB_TABLE_MAX" "first_best dst (active_entries f i) ?b" by (auto simp del: upt_rec_numeral)
    then obtain us e vs where e: "active_entries f i = us @ e # vs" "fst ?b = Some e" "prefix_of e = snd ?b" "matches dst e"
      "\<forall>u\<in>set us. matches dst u \<longrightarrow> prefix_of u < prefix_of e" unfolding first_best_def by blast
    have "sorted (map rank (active_entries f i))"
      using reach_inv [OF assms] i(1) by (simp add: fib_inv_def table_inv_def active_entries_def)
    then have "\<forall>v\<in>set vs. rank e \<le> rank v" unfolding e(1) by (simp add: sorted_append)
    then have "\<forall>e'\<in>set (active_entries f i). matches dst e' \<and> prefix_of e' = prefix_of e \<longrightarrow> re_metric e \<le> re_metric e'"
      using e(5) unfolding e(1) by (auto simp: rank_def)
    moreover have "e \<in> set (active_entries f i)" unfolding e(1) by simp
    ultimately show ?thesis using m e(2-4) i(1) unfolding l by (simp del: upt_rec_numeral) blast
  qed
qed

theorem route_lookup_longest_prefix_witness:
  "\<forall>f. case route_lookup 0x7f000001 (route_init True True f) of
      None \<Rightarrow> \<forall>i<256. \<forall>e\<in>set (active_entries (route_init True True f) i). matches 0x7f000001 e \<longrightarrow> mask_to_prefix (re_mask e) = 0
    | Some e \<Rightarrow> matches 0x7f000001 e \<and>
        (\<forall>i<256. \<forall>e'\<in>set (active_entries (route_init True True f) i). matches 0x7f000001 e' \<longrightarrow>
           mask_to_prefix (re_mask e') \<le> mask_to_prefix (re_mask e)) \<and>
        (\<exists>i<256. e \<in> set (active_entries (route_init True True f) i) \<and>
           (\<forall>e'\<in>set (active_entries (route_init True True f) i). matches 0x7f000001 e' \<and>
              mask_to_prefix (re_mask e') = mask_to_prefix (re_mask e) \<longrightarrow> re_metric e \<le> re_metric e'))"
  by (intro allI route_lookup_longest_prefix fib_reach.init)

section \<open>Failures, removal, default routes\<close>

lemma active_upd_table:
  "active_entries (upd_table i g f) t = (if t = i then (if rt_tb_id (g (fib_tables f i)) = 0 then [] else rt_entries (g (fib_tables f i)))
     else active_entries f t)"
  by (simp add: active_entries_def upd_table_def)

lemma lookup_cong: "(\<And>t. t < FIB_TABLE_MAX \<Longrightarrow> active_entries f t = active_entries f' t) \<Longrightarrow> route_lookup d f = route_lookup d f'"
  unfolding route_lookup_active by (rule arg_cong [of _ _ fst], rule fold_cong) (auto simp del: upt_rec_numeral)

lemma create_active: "active_entries (snd (route_table_create i f)) t = active_entries f t"
  by (auto simp: route_table_create_def active_entries_def upd_table_def first_index_Some split: option.splits)

lemma get_after_create:
  assumes "route_table_get i f = None" and "fst (route_table_create i f) = 0"
  shows "\<exists>k. route_table_get i (snd (route_table_create i f)) = Some k \<and> rt_count (fib_tables (snd (route_table_create i f)) k) = 0"
proof -
  from assms(2) obtain k where k: "first_index (\<lambda>j. rt_tb_id (fib_tables f j) = 0) FIB_TABLE_MAX = Some k"
    by (auto simp: route_table_create_def split: option.splits)
  then have "k < FIB_TABLE_MAX" by (simp add: first_index_Some)
  moreover have "\<forall>j<FIB_TABLE_MAX. rt_tb_id (fib_tables f j) \<noteq> i"
    using assms(1) by (simp add: route_table_get_def first_index_None)
  ultimately have "route_table_get i (snd (route_table_create i f)) = Some k"
    unfolding route_table_get_def route_table_create_def k by (intro first_index_SomeI) (auto simp: upd_table_def)
  then show ?thesis by (auto simp: route_table_create_def k upd_table_def)
qed

text \<open>
  C20. \<open>route_add\<close> fails exactly when its table is full, no table can be created, or there is no memory, and a failed call
  leaves every lookup as it was, even when it has already created the table.
\<close>

theorem route_add_fails_cleanly:
  "(fst (route_add ok i dst m gw ifx me f) = - 1 \<longleftrightarrow>
     (case route_table_get i f of Some k \<Rightarrow> rt_count (fib_tables f k) \<ge> 1024 \<or> \<not> ok
      | None \<Rightarrow> (\<forall>j<FIB_TABLE_MAX. rt_tb_id (fib_tables f j) \<noteq> 0) \<or> \<not> ok)) \<and>
   (fst (route_add ok i dst m gw ifx me f) = - 1 \<longrightarrow> route_lookup d (snd (route_add ok i dst m gw ifx me f)) = route_lookup d f)"
proof (cases "route_table_get i f")
  case (Some k)
  then show ?thesis by (simp add: route_add_def route_add_at_def)
next
  case None
  show ?thesis
  proof (cases "fst (route_table_create i f) = 0")
    case True
    then have free: "\<not> (\<forall>j<FIB_TABLE_MAX. rt_tb_id (fib_tables f j) \<noteq> 0)"
      by (auto simp: route_table_create_def first_index_Some split: option.splits)
    from get_after_create [OF None True] obtain k where k: "route_table_get i (snd (route_table_create i f)) = Some k"
      "rt_count (fib_tables (snd (route_table_create i f)) k) = 0" by blast
    have "route_add ok i dst m gw ifx me f = route_add_at ok k (route_entry_of dst m gw ifx me) (snd (route_table_create i f))"
      using None True k(1) by (simp add: route_add_def case_prod_beta)
    moreover have "route_lookup d (snd (route_table_create i f)) = route_lookup d f"
      by (rule lookup_cong) (rule create_active)
    ultimately show ?thesis using None free k(2) by (simp add: route_add_at_def)
  next
    case False
    then have "route_table_create i f = (- 1, f)" "\<forall>j<FIB_TABLE_MAX. rt_tb_id (fib_tables f j) \<noteq> 0"
      by (auto simp: route_table_create_def first_index_None split: option.splits)
    then show ?thesis using None by (simp add: route_add_def)
  qed
qed

theorem route_add_fails_cleanly_witness:
  "\<forall>n. let f = \<lparr>fib_tables = (\<lambda>_. \<lparr>rt_tb_id = 7, rt_entries = [], rt_count = 0\<rparr>), fib_table_count = n\<rparr> in
     fst (route_add True 5 0x0a000000 0xff000000 0 1 0 f) = - 1 \<and>
     route_lookup 0x0a000001 (snd (route_add True 5 0x0a000000 0xff000000 0 1 0 f)) = route_lookup 0x0a000001 f"
proof
  fix n
  let ?f = "\<lparr>fib_tables = (\<lambda>_. \<lparr>rt_tb_id = 7, rt_entries = [], rt_count = 0\<rparr>), fib_table_count = n\<rparr>"
  have "route_table_get 5 ?f = None" by (simp add: route_table_get_def first_index_None)
  with route_add_fails_cleanly [of True 5 "0x0a000000" "0xff000000" 0 1 0 ?f "0x0a000001"]
  show "let f = ?f in fst (route_add True 5 0x0a000000 0xff000000 0 1 0 f) = - 1 \<and>
     route_lookup 0x0a000001 (snd (route_add True 5 0x0a000000 0xff000000 0 1 0 f)) = route_lookup 0x0a000001 f"
    by (simp add: Let_def)
qed

lemma del_first_insert:
  assumes "\<forall>c\<in>set es. \<not> (re_dst c = d AND m \<and> re_mask c = m)" and "re_dst e = d AND m" and "re_mask e = m"
  shows "del_first d m (route_insert_sorted e es) = Some es"
  using assms by (induction es) auto

text \<open>
  Removing a route that was just added gives the routing tables back as they were, provided that the table had no
  entry for the same destination and mask.
\<close>

theorem route_del_undoes_add:
  assumes "route_table_get i f = Some k" and "fst (route_add ok i dst m gw ifx me f) = 0"
    and "\<forall>e\<in>set (rt_entries (fib_tables f k)). \<not> (re_dst e = dst AND m \<and> re_mask e = m)"
  shows "route_del i dst m (snd (route_add ok i dst m gw ifx me f)) = (0, f)"
proof -
  let ?e = "route_entry_of dst m gw ifx me"
  let ?f = "upd_table k (\<lambda>t. t\<lparr>rt_entries := route_insert_sorted ?e (rt_entries t), rt_count := rt_count t + 1\<rparr>) f"
  have a: "route_add ok i dst m gw ifx me f = (0, ?f)"
    using assms(1,2) by (auto simp: route_add_def route_add_at_def split: if_splits)
  have "(\<lambda>j. rt_tb_id (fib_tables ?f j) = i) = (\<lambda>j. rt_tb_id (fib_tables f j) = i)" by (auto simp: upd_table_def)
  then have g: "route_table_get i ?f = Some k" using assms(1) by (simp add: route_table_get_def)
  have "del_first dst m (rt_entries (fib_tables ?f k)) = Some (rt_entries (fib_tables f k))"
    using assms(3) by (simp add: upd_table_def route_entry_of_def del_first_insert)
  then show ?thesis unfolding a using g by (simp add: route_del_def upd_table_def)
qed

lemma insert_skipped:
  "prefix_of e = 0 \<Longrightarrow> lookup_entries d (route_insert_sorted e es) b = lookup_entries d es b"
  by (induction es arbitrary: b) auto

lemma lookup_cong_entries:
  assumes "\<And>t b. t < FIB_TABLE_MAX \<Longrightarrow> lookup_entries d (active_entries f t) b = lookup_entries d (active_entries f' t) b"
  shows "route_lookup d f = route_lookup d f'"
  unfolding route_lookup_active by (rule arg_cong [of _ _ fst], rule fold_cong) (auto simp: assms simp del: upt_rec_numeral)

lemma add_at_default: "re_mask e = 0 \<Longrightarrow> route_lookup d (snd (route_add_at ok k e f)) = route_lookup d f"
  by (rule lookup_cong_entries)
    (auto simp: route_add_at_def active_entries_def upd_table_def insert_skipped)

theorem route_del_undoes_add_witness:
  "\<forall>n. let f = \<lparr>fib_tables = (\<lambda>_. \<lparr>rt_tb_id = 254, rt_entries = [], rt_count = 0\<rparr>), fib_table_count = n\<rparr> in
     route_del 254 0x0a000000 0xff000000 (snd (route_add True 254 0x0a000000 0xff000000 0 1 0 f)) = (0, f)"
proof
  fix n
  let ?f = "\<lparr>fib_tables = (\<lambda>_. \<lparr>rt_tb_id = 254, rt_entries = [], rt_count = 0\<rparr>), fib_table_count = n\<rparr>"
  have g: "route_table_get 254 ?f = Some 0" by (simp add: route_table_get_def first_index_Some)
  then have a: "fst (route_add True 254 0x0a000000 0xff000000 0 1 0 ?f) = 0" by (simp add: route_add_def route_add_at_def)
  from route_del_undoes_add [OF g a]
  show "let f = ?f in route_del 254 0x0a000000 0xff000000 (snd (route_add True 254 0x0a000000 0xff000000 0 1 0 f)) = (0, f)"
    by (simp add: Let_def)
qed

text \<open>
  A default route is never found: adding a route with an empty mask changes no lookup, whatever its table, gateway and
  metric, so that an address without another route stays unreachable.
\<close>

theorem default_route_never_found:
  "route_lookup d (snd (route_add ok i dst 0 gw ifx me f)) = route_lookup d f"
proof -
  have e: "re_mask (route_entry_of dst 0 gw ifx me) = 0" by (simp add: route_entry_of_def)
  have c: "route_lookup d (snd (route_table_create i f)) = route_lookup d f"
    by (rule lookup_cong) (rule create_active)
  show ?thesis
    using c by (auto simp: route_add_def case_prod_beta add_at_default [OF e] split: option.split)
qed

end
