(* ===== verification/TimerWheel.thy ===== *)
theory TimerWheel
  imports WaitQueue "HOL-Library.Monad_Syntax"
begin

text \<open>
  The timer wheel and the high resolution timers of \<open>kernel/timer.c\<close>. A timer is an address; its fields are in a heap. The value
  \<open>None\<close> of an operation is a dereference of \<open>NULL\<close> or a loop that does not end. Callbacks of the wheel run with
  its lock held, so that they cannot call its operations; that they run is logged with the tick they run at.
  Those of the high resolution timers run without the lock; they are a parameter.
\<close>

section \<open>Data\<close>

abbreviation (input) TIMER_INACTIVE :: nat where "TIMER_INACTIVE \<equiv> 0"
abbreviation (input) TIMER_ACTIVE :: nat where "TIMER_ACTIVE \<equiv> 1"
abbreviation (input) TIMER_EXPIRED :: nat where "TIMER_EXPIRED \<equiv> 2"
abbreviation (input) TIMER_FLAG_ONESHOT :: u32 where "TIMER_FLAG_ONESHOT \<equiv> 1"
abbreviation (input) TIMER_WHEEL_BITS :: nat where "TIMER_WHEEL_BITS \<equiv> 8"
abbreviation (input) TIMER_WHEEL_MASK :: u64 where "TIMER_WHEEL_MASK \<equiv> 255"
abbreviation (input) TIMER_WHEEL_LEVELS :: nat where "TIMER_WHEEL_LEVELS \<equiv> 4"
abbreviation (input) TIMER_TICK_MS :: u64 where "TIMER_TICK_MS \<equiv> 1"

type_synonym taddr = nat

record timer_entry =
  te_next :: "taddr option"
  te_prev :: "taddr option"
  te_expires :: u64
  te_callback :: "nat option"
  te_arg :: nat
  te_state :: nat
  te_flags :: u32

record timer_wheel =
  tw_lists :: "nat \<Rightarrow> u64 \<Rightarrow> taddr option"
  tw_jiffies :: u64
  tw_next_expire :: u64
  tw_heap :: "taddr \<Rightarrow> timer_entry"
  tw_called :: "(u64 \<times> taddr \<times> nat \<times> nat) list"

definition upd_timer :: "taddr \<Rightarrow> (timer_entry \<Rightarrow> timer_entry) \<Rightarrow> timer_wheel \<Rightarrow> timer_wheel" where
  "upd_timer t f s = s\<lparr>tw_heap := (tw_heap s)(t := f (tw_heap s t))\<rparr>"

definition set_slot :: "nat \<Rightarrow> u64 \<Rightarrow> taddr option \<Rightarrow> timer_wheel \<Rightarrow> timer_wheel" where
  "set_slot l i h s = s\<lparr>tw_lists := (tw_lists s)(l := ((tw_lists s) l)(i := h))\<rparr>"

section \<open>The wheel\<close>

definition timer_wheel_init :: "timer_wheel \<Rightarrow> timer_wheel" where
  "timer_wheel_init s = s\<lparr>tw_lists := (\<lambda>_ _. None), tw_jiffies := 0, tw_next_expire := - 1\<rparr>"

definition timer_jiffies_to_ms :: "u64 \<Rightarrow> u64" where
  "timer_jiffies_to_ms j = j * TIMER_TICK_MS"

definition calc_level :: "u64 \<Rightarrow> nat" where
  "calc_level delta =
     (if delta < push_bit (TIMER_WHEEL_BITS * 1) 1 then 0
      else if delta < push_bit (TIMER_WHEEL_BITS * 2) 1 then 1
      else if delta < push_bit (TIMER_WHEEL_BITS * 3) 1 then 2
      else 3)"

definition calc_index :: "u64 \<Rightarrow> u64 \<Rightarrow> nat \<times> u64" where
  "calc_index expires now =
     (let level = calc_level (expires - now)
      in (level, drop_bit (TIMER_WHEEL_BITS * level) expires AND TIMER_WHEEL_MASK))"

text \<open>The first timer of a slot has the last one as its \<open>prev\<close>.\<close>

definition timer_enqueue :: "taddr \<Rightarrow> timer_wheel \<Rightarrow> timer_wheel option" where
  "timer_enqueue t s =
     (let (level, idx) = calc_index (te_expires (tw_heap s t)) (tw_jiffies s) in do {
        s2 \<leftarrow> (case tw_lists s level idx of
                 None \<Rightarrow> Some (upd_timer t (\<lambda>e. e\<lparr>te_next := None, te_prev := Some t\<rparr>) (set_slot level idx (Some t) s))
               | Some h \<Rightarrow>
                   let s1 = upd_timer t (\<lambda>e. e\<lparr>te_next := None\<rparr>) s;
                       s1' = upd_timer t (\<lambda>e. e\<lparr>te_prev := te_prev (tw_heap s1 h)\<rparr>) s1
                   in do {
                        p \<leftarrow> te_prev (tw_heap s1' h);
                        Some (upd_timer h (\<lambda>e. e\<lparr>te_prev := Some t\<rparr>) (upd_timer p (\<lambda>e. e\<lparr>te_next := Some t\<rparr>) s1'))
                      });
        let s3 = upd_timer t (\<lambda>e. e\<lparr>te_state := TIMER_ACTIVE\<rparr>) s2;
        Some (if te_expires (tw_heap s3 t) < tw_next_expire s3
              then s3\<lparr>tw_next_expire := te_expires (tw_heap s3 t)\<rparr> else s3)
      })"

definition timer_dequeue :: "taddr \<Rightarrow> timer_wheel \<Rightarrow> timer_wheel option" where
  "timer_dequeue t s = do {
     s1 \<leftarrow> (if te_next (tw_heap s t) = Some t
            then (let (level, idx) = calc_index (te_expires (tw_heap s t)) (tw_jiffies s) in Some (set_slot level idx None s))
            else do {
              p \<leftarrow> te_prev (tw_heap s t);
              let s1 = upd_timer p (\<lambda>e. e\<lparr>te_next := te_next (tw_heap s t)\<rparr>) s;
              n \<leftarrow> te_next (tw_heap s1 t);
              Some (upd_timer n (\<lambda>e. e\<lparr>te_prev := te_prev (tw_heap s1 t)\<rparr>) s1)
            });
     Some (upd_timer t (\<lambda>e. e\<lparr>te_next := None, te_prev := None, te_state := TIMER_INACTIVE\<rparr>) s1)
   }"

partial_function (option) cascade_loop :: "taddr option \<Rightarrow> timer_wheel \<Rightarrow> timer_wheel option" where
  "cascade_loop h s = (case h of
       None \<Rightarrow> Some s
     | Some t \<Rightarrow>
         let n = te_next (tw_heap s t);
             s1 = upd_timer t (\<lambda>e. e\<lparr>te_next := None, te_prev := None\<rparr>) s
         in do { s2 \<leftarrow> timer_enqueue t s1; cascade_loop n s2 })"

definition cascade :: "nat \<Rightarrow> timer_wheel \<Rightarrow> timer_wheel option" where
  "cascade level s =
     (if level \<ge> TIMER_WHEEL_LEVELS - 1 then Some s
      else let idx = drop_bit (TIMER_WHEEL_BITS * (level + 1)) (tw_jiffies s) AND TIMER_WHEEL_MASK
           in cascade_loop (tw_lists s (level + 1) idx) (set_slot (level + 1) idx None s))"

text \<open>One turn of the loop of \<open>__expire_level0\<close>.\<close>

definition expire_timer :: "taddr \<Rightarrow> timer_wheel \<Rightarrow> timer_wheel option" where
  "expire_timer t s =
     (let s1 = upd_timer t (\<lambda>e. e\<lparr>te_next := None, te_prev := None, te_state := TIMER_EXPIRED\<rparr>) s;
          s2 = (case te_callback (tw_heap s1 t) of None \<Rightarrow> s1
                | Some cb \<Rightarrow> s1\<lparr>tw_called := tw_called s1 @ [(tw_jiffies s1, t, cb, te_arg (tw_heap s1 t))]\<rparr>)
      in if te_flags (tw_heap s2 t) AND TIMER_FLAG_ONESHOT = 0
         then timer_enqueue t (upd_timer t (\<lambda>e. e\<lparr>te_expires := te_expires e + timer_ms_to_jiffies 1\<rparr>) s2)
         else Some s2)"

partial_function (option) expire_loop :: "taddr option \<Rightarrow> timer_wheel \<Rightarrow> timer_wheel option" where
  "expire_loop h s = (case h of
       None \<Rightarrow> Some s
     | Some t \<Rightarrow> do { s1 \<leftarrow> expire_timer t s; expire_loop (te_next (tw_heap s t)) s1 })"

definition expire_level0 :: "timer_wheel \<Rightarrow> timer_wheel option" where
  "expire_level0 s =
     (let idx = tw_jiffies s AND TIMER_WHEEL_MASK in do {
        s1 \<leftarrow> expire_loop (tw_lists s 0 idx) (set_slot 0 idx None s);
        if idx = 0 then cascade 0 s1 else Some s1
      })"

text \<open>The part of \<open>timer_tick\<close> on the wheel.\<close>

definition wheel_tick :: "timer_wheel \<Rightarrow> timer_wheel option" where
  "wheel_tick s0 = do {
     s \<leftarrow> expire_level0 (s0\<lparr>tw_jiffies := tw_jiffies s0 + 1\<rparr>);
     Some (s\<lparr>tw_next_expire :=
       (if \<exists>l<TIMER_WHEEL_LEVELS. tw_lists s l (drop_bit (TIMER_WHEEL_BITS * l) (tw_jiffies s) AND TIMER_WHEEL_MASK) \<noteq> None
        then tw_jiffies s else - 1)\<rparr>)
   }"

definition timer_add :: "taddr option \<Rightarrow> u64 \<Rightarrow> nat option \<Rightarrow> nat \<Rightarrow> timer_wheel \<Rightarrow> (int \<times> timer_wheel) option" where
  "timer_add timer expires_ms cb arg s =
     (case (timer, cb) of
        (Some t, Some c) \<Rightarrow>
          map_option (Pair 0)
            (timer_enqueue t (upd_timer t (\<lambda>_. \<lparr>te_next = None, te_prev = None,
               te_expires = tw_jiffies s + timer_ms_to_jiffies expires_ms, te_callback = Some c, te_arg = arg,
               te_state = 0, te_flags = 0\<rparr>) s))
      | _ \<Rightarrow> Some (- 1, s))"

definition timer_add_oneshot :: "taddr option \<Rightarrow> u64 \<Rightarrow> nat option \<Rightarrow> nat \<Rightarrow> timer_wheel \<Rightarrow> (int \<times> timer_wheel) option" where
  "timer_add_oneshot timer expires_ms cb arg s = do {
     (ret, s1) \<leftarrow> timer_add timer expires_ms cb arg s;
     Some (ret, (case timer of Some t \<Rightarrow> if ret = 0 then upd_timer t (\<lambda>e. e\<lparr>te_flags := te_flags e OR TIMER_FLAG_ONESHOT\<rparr>) s1 else s1
                 | None \<Rightarrow> s1))
   }"

definition timer_mod :: "taddr option \<Rightarrow> u64 \<Rightarrow> timer_wheel \<Rightarrow> (int \<times> timer_wheel) option" where
  "timer_mod timer expires_ms s =
     (case timer of
        None \<Rightarrow> Some (- 1, s)
      | Some t \<Rightarrow>
          if te_state (tw_heap s t) \<noteq> TIMER_ACTIVE then Some (- 1, s)
          else do {
            s1 \<leftarrow> timer_dequeue t s;
            s2 \<leftarrow> timer_enqueue t (upd_timer t (\<lambda>e. e\<lparr>te_expires := tw_jiffies s1 + timer_ms_to_jiffies expires_ms\<rparr>) s1);
            Some (0, s2)
          })"

definition timer_del :: "taddr option \<Rightarrow> timer_wheel \<Rightarrow> (int \<times> timer_wheel) option" where
  "timer_del timer s =
     (case timer of
        None \<Rightarrow> Some (- 1, s)
      | Some t \<Rightarrow> if te_state (tw_heap s t) \<noteq> TIMER_ACTIVE then Some (- 1, s)
                  else map_option (Pair 0) (timer_dequeue t s))"

definition timer_pending :: "taddr option \<Rightarrow> timer_wheel \<Rightarrow> bool" where
  "timer_pending timer s = (case timer of None \<Rightarrow> False | Some t \<Rightarrow> te_state (tw_heap s t) = TIMER_ACTIVE)"

text \<open>The counter of ticks that \<open>msleep\<close> reads before each \<open>hlt\<close>; the result is the number of halts.\<close>

fun msleep_loop :: "u64 \<Rightarrow> u64 list \<Rightarrow> nat option" where
  "msleep_loop target [] = None"
| "msleep_loop target (j # js) = (if j < target then map_option Suc (msleep_loop target js) else Some 0)"

definition msleep :: "u64 \<Rightarrow> u64 \<Rightarrow> u64 list \<Rightarrow> nat option" where
  "msleep ms start js = msleep_loop (start + timer_ms_to_jiffies ms) js"

definition usleep :: "u64 \<Rightarrow> u64 \<Rightarrow> u64 list \<Rightarrow> nat option" where
  "usleep us start js = msleep ((us + 999) div 1000) start js"

section \<open>High resolution timers\<close>

record hrtimer_t =
  hr_next :: "taddr option"
  hr_callback :: "nat option"
  hr_arg :: nat
  hr_start_ns :: u64
  hr_expire_ns :: u64
  hr_active :: bool
  hr_oneshot :: bool

record hr_state =
  hs_head :: "taddr option"
  hs_heap :: "taddr \<Rightarrow> hrtimer_t"

text \<open>A pointer to a link: the head of the list or the \<open>next\<close> of a timer.\<close>

type_synonym hr_link = "taddr option"

definition hr_get :: "hr_link \<Rightarrow> hr_state \<Rightarrow> taddr option" where
  "hr_get l s = (case l of None \<Rightarrow> hs_head s | Some t \<Rightarrow> hr_next (hs_heap s t))"

definition upd_hr :: "taddr \<Rightarrow> (hrtimer_t \<Rightarrow> hrtimer_t) \<Rightarrow> hr_state \<Rightarrow> hr_state" where
  "upd_hr t f s = s\<lparr>hs_heap := (hs_heap s)(t := f (hs_heap s t))\<rparr>"

definition hr_put :: "hr_link \<Rightarrow> taddr option \<Rightarrow> hr_state \<Rightarrow> hr_state" where
  "hr_put l v s = (case l of None \<Rightarrow> s\<lparr>hs_head := v\<rparr> | Some t \<Rightarrow> upd_hr t (\<lambda>e. e\<lparr>hr_next := v\<rparr>) s)"

partial_function (option) hr_seek :: "u64 \<Rightarrow> hr_link \<Rightarrow> hr_state \<Rightarrow> hr_link option" where
  "hr_seek expire l s = (case hr_get l s of
       None \<Rightarrow> Some l
     | Some t \<Rightarrow> if hr_expire_ns (hs_heap s t) < expire then hr_seek expire (Some t) s else Some l)"

text \<open>Insertion before the first timer that does not expire earlier.\<close>

definition hr_insert :: "taddr \<Rightarrow> hr_state \<Rightarrow> hr_state option" where
  "hr_insert t s = do {
     l \<leftarrow> hr_seek (hr_expire_ns (hs_heap s t)) None s;
     Some (hr_put l (Some t) (upd_hr t (\<lambda>e. e\<lparr>hr_next := hr_get l s\<rparr>) s))
   }"

text \<open>\<open>cb\<close> is what a callback does to the timers.\<close>

partial_function (option) hrtimer_expire ::
  "(nat \<Rightarrow> nat \<Rightarrow> hr_state \<Rightarrow> hr_state) \<Rightarrow> u64 \<Rightarrow> hr_state \<times> (taddr \<times> nat \<times> nat) list \<Rightarrow>
   (hr_state \<times> (taddr \<times> nat \<times> nat) list) option" where
  "hrtimer_expire cb now q = (case hs_head (fst q) of
       None \<Rightarrow> Some q
     | Some t \<Rightarrow>
         if hr_expire_ns (hs_heap (fst q) t) > now then Some q
         else
           let s1 = upd_hr t (\<lambda>e. e\<lparr>hr_next := None, hr_active := False\<rparr>) ((fst q)\<lparr>hs_head := hr_next (hs_heap (fst q) t)\<rparr>);
               q1 = (case hr_callback (hs_heap s1 t) of None \<Rightarrow> (s1, snd q)
                     | Some c \<Rightarrow> (cb c (hr_arg (hs_heap s1 t)) s1, snd q @ [(t, c, hr_arg (hs_heap s1 t))]));
               e = hs_heap (fst q1) t
           in if \<not> hr_oneshot e
              then do {
                s2 \<leftarrow> hr_insert t (upd_hr t (\<lambda>e. e\<lparr>hr_start_ns := now, hr_expire_ns := now + (hr_expire_ns e - hr_start_ns e),
                                                hr_active := True\<rparr>) (fst q1));
                hrtimer_expire cb now (s2, snd q1)
              }
              else hrtimer_expire cb now q1)"

definition hrtimer_start :: "taddr option \<Rightarrow> u64 \<Rightarrow> nat option \<Rightarrow> nat \<Rightarrow> u64 \<Rightarrow> hr_state \<Rightarrow> (int \<times> hr_state) option" where
  "hrtimer_start timer ns cb arg now s =
     (case (timer, cb) of
        (Some t, Some c) \<Rightarrow>
          if ns = 0 then Some (- 1, s)
          else map_option (Pair 0)
                 (hr_insert t (upd_hr t (\<lambda>_. \<lparr>hr_next = None, hr_callback = Some c, hr_arg = arg, hr_start_ns = now,
                    hr_expire_ns = now + ns, hr_active = True, hr_oneshot = True\<rparr>) s))
      | _ \<Rightarrow> Some (- 1, s))"

partial_function (option) hr_unlink :: "taddr \<Rightarrow> hr_link \<Rightarrow> hr_state \<Rightarrow> hr_state option" where
  "hr_unlink t l s = (case hr_get l s of
       None \<Rightarrow> Some s
     | Some x \<Rightarrow> if x = t then Some (upd_hr t (\<lambda>e. e\<lparr>hr_next := None, hr_active := False\<rparr>) (hr_put l (hr_next (hs_heap s t)) s))
                 else hr_unlink t (Some x) s)"

definition hrtimer_cancel :: "taddr option \<Rightarrow> hr_state \<Rightarrow> (int \<times> hr_state) option" where
  "hrtimer_cancel timer s = (case timer of None \<Rightarrow> Some (- 1, s) | Some t \<Rightarrow> map_option (Pair 0) (hr_unlink t None s))"

definition hrtimer_get_resolution :: u64 where
  "hrtimer_get_resolution = 1000"

text \<open>\<open>timer_tick\<close>: the wheel, then the high resolution timers at the time \<open>now\<close> of the clock.\<close>

definition timer_tick ::
  "(nat \<Rightarrow> nat \<Rightarrow> hr_state \<Rightarrow> hr_state) \<Rightarrow> u64 \<Rightarrow> timer_wheel \<Rightarrow> hr_state \<Rightarrow>
   (timer_wheel \<times> hr_state \<times> (taddr \<times> nat \<times> nat) list) option" where
  "timer_tick cb now w h = do { w' \<leftarrow> wheel_tick w; (h', c) \<leftarrow> hrtimer_expire cb now (h, []); Some (w', h', c) }"

end
