(* ===== verification/TimerProps.thy ===== *)
theory TimerProps
  imports TimerWheel
begin

text \<open>
  The slots of the timer wheel as lists of timers, and what the operations do to these lists.
\<close>

section \<open>Slots as lists\<close>

primrec chained :: "(taddr \<Rightarrow> timer_entry) \<Rightarrow> taddr option \<Rightarrow> taddr list \<Rightarrow> bool" where
  "chained hp h [] \<longleftrightarrow> h = None"
| "chained hp h (x # xs) \<longleftrightarrow> h = Some x \<and> chained hp (te_next (hp x)) xs"

lemma chained_cong: "(\<And>x. x \<in> set xs \<Longrightarrow> te_next (hp' x) = te_next (hp x)) \<Longrightarrow> chained hp' h xs = chained hp h xs"
  by (induction xs arbitrary: h) auto

lemma chained_snoc:
  assumes "chained hp h xs" and "xs \<noteq> []" and "distinct xs" and "t \<notin> set xs"
    and "te_next (hp' (last xs)) = Some t" and "te_next (hp' t) = None"
    and "\<And>x. x \<in> set (butlast xs) \<Longrightarrow> te_next (hp' x) = te_next (hp x)"
  shows "chained hp' h (xs @ [t])"
  using assms
proof (induction xs arbitrary: h)
  case (Cons x xs)
  show ?case
  proof (cases xs)
    case Nil
    with Cons.prems show ?thesis by simp
  next
    case (Cons y ys)
    have "chained hp' (te_next (hp x)) (xs @ [t])"
      by (rule Cons.IH) (use Cons.prems \<open>xs = y # ys\<close> in auto)
    then show ?thesis using Cons.prems \<open>xs = y # ys\<close> by simp
  qed
qed simp

type_synonym slots = "nat \<Rightarrow> u64 \<Rightarrow> taddr list"

definition slot_ok :: "(taddr \<Rightarrow> timer_entry) \<Rightarrow> taddr option \<Rightarrow> taddr list \<Rightarrow> bool" where
  "slot_ok hp h xs \<longleftrightarrow> chained hp h xs \<and> distinct xs \<and> (xs \<noteq> [] \<longrightarrow> te_prev (hp (hd xs)) = Some (last xs))"

definition in_slots :: "slots \<Rightarrow> taddr \<Rightarrow> bool" where
  "in_slots L t \<longleftrightarrow> (\<exists>l i. t \<in> set (L l i))"

definition one_slot :: "slots \<Rightarrow> bool" where
  "one_slot L \<longleftrightarrow> (\<forall>t l i l' i'. t \<in> set (L l i) \<and> t \<in> set (L l' i') \<longrightarrow> l = l' \<and> i = i')"

definition wheel_ok :: "slots \<Rightarrow> timer_wheel \<Rightarrow> bool" where
  "wheel_ok L s \<longleftrightarrow> (\<forall>l i. slot_ok (tw_heap s) (tw_lists s l i) (L l i)) \<and> one_slot L"

definition set_list :: "nat \<Rightarrow> u64 \<Rightarrow> taddr list \<Rightarrow> slots \<Rightarrow> slots" where
  "set_list l i xs L = L(l := (L l)(i := xs))"

definition append_to :: "nat \<times> u64 \<Rightarrow> taddr \<Rightarrow> slots \<Rightarrow> slots" where
  "append_to li t L = set_list (fst li) (snd li) (L (fst li) (snd li) @ [t]) L"

lemma set_list_apply: "set_list l i xs L l' i' = (if l' = l \<and> i' = i then xs else L l' i')"
  by (simp add: set_list_def)

lemma in_append_to: "t \<in> set (append_to li u L l i) \<longleftrightarrow> t \<in> set (L l i) \<or> t = u \<and> li = (l, i)"
  by (cases li) (auto simp: append_to_def set_list_apply)

lemma one_slot_append: "one_slot L \<Longrightarrow> \<not> in_slots L t \<Longrightarrow> one_slot (append_to li t L)"
  unfolding one_slot_def in_slots_def in_append_to by (metis prod.inject)

lemma one_slot_clear: "one_slot L \<Longrightarrow> one_slot (set_list l i [] L)"
  by (auto simp: one_slot_def set_list_apply split: if_splits)

text \<open>The fields of a timer that only its owner sets.\<close>

definition setting :: "timer_entry \<Rightarrow> u64 \<times> nat option \<times> nat \<times> u32" where
  "setting e = (te_expires e, te_callback e, te_arg e, te_flags e)"

lemma setting_eq [simp]:
  "setting e = setting e' \<longleftrightarrow> te_expires e = te_expires e' \<and> te_callback e = te_callback e' \<and> te_arg e = te_arg e' \<and> te_flags e = te_flags e'"
  by (simp add: setting_def)

lemma wheel_frames [simp]:
  "tw_heap (upd_timer t f s) = (tw_heap s)(t := f (tw_heap s t))" "tw_lists (upd_timer t f s) = tw_lists s"
  "tw_jiffies (upd_timer t f s) = tw_jiffies s" "tw_called (upd_timer t f s) = tw_called s"
  "tw_heap (set_slot l i h s) = tw_heap s" "tw_jiffies (set_slot l i h s) = tw_jiffies s" "tw_called (set_slot l i h s) = tw_called s"
  "tw_lists (set_slot l i h s) = (tw_lists s)(l := ((tw_lists s) l)(i := h))"
  "tw_next_expire (upd_timer t f s) = tw_next_expire s" "tw_next_expire (set_slot l i h s) = tw_next_expire s"
  by (simp_all add: upd_timer_def set_slot_def)

section \<open>Enqueueing\<close>

lemma timer_enqueue_ok:
  assumes w: "wheel_ok L s" and t: "\<not> in_slots L t"
  shows "\<exists>s'. timer_enqueue t s = Some s' \<and> wheel_ok (append_to (calc_index (te_expires (tw_heap s t)) (tw_jiffies s)) t L) s' \<and>
    tw_jiffies s' = tw_jiffies s \<and> tw_called s' = tw_called s \<and> (\<forall>x. setting (tw_heap s' x) = setting (tw_heap s x)) \<and>
    te_state (tw_heap s' t) = 1 \<and> (\<forall>x. x \<noteq> t \<longrightarrow> te_state (tw_heap s' x) = te_state (tw_heap s x)) \<and>
    (\<forall>x. x \<noteq> t \<and> \<not> in_slots L x \<longrightarrow> tw_heap s' x = tw_heap s x)"
proof -
  obtain l i where li: "calc_index (te_expires (tw_heap s t)) (tw_jiffies s) = (l, i)" by (cases "calc_index (te_expires (tw_heap s t)) (tw_jiffies s)")
  let ?L = "append_to (l, i) t L"
  have sl: "slot_ok (tw_heap s) (tw_lists s l' i') (L l' i')" for l' i' using w by (simp add: wheel_ok_def)
  have nt: "t \<notin> set (L l' i')" for l' i' using t by (auto simp: in_slots_def)
  have one: "one_slot ?L" using one_slot_append [OF _ t] w by (simp add: wheel_ok_def)
  have others: "slot_ok hp (tw_lists s l' i') (L l' i')"
    if "\<And>x. x \<in> set (L l' i') \<Longrightarrow> hp x = tw_heap s x" for hp l' i'
  proof -
    have "chained hp (tw_lists s l' i') (L l' i')" using sl [of l' i'] chained_cong [of "L l' i'" hp "tw_heap s"] that
      by (auto simp: slot_ok_def)
    then show ?thesis using sl [of l' i'] that by (auto simp: slot_ok_def)
  qed
  show ?thesis
  proof (cases "L l i")
    case Nil
    then have h: "tw_lists s l i = None" using sl [of l i] by (simp add: slot_ok_def)
    let ?s = "upd_timer t (\<lambda>e. e\<lparr>te_state := 1\<rparr>)
      (upd_timer t (\<lambda>e. e\<lparr>te_next := None, te_prev := Some t\<rparr>) (set_slot l i (Some t) s))"
    let ?s' = "if te_expires (tw_heap ?s t) < tw_next_expire ?s then ?s\<lparr>tw_next_expire := te_expires (tw_heap ?s t)\<rparr> else ?s"
    have e: "timer_enqueue t s = Some ?s'" by (simp add: timer_enqueue_def li h)
    have "slot_ok (tw_heap ?s) (tw_lists ?s l' i') (?L l' i')" for l' i'
    proof (cases "l' = l \<and> i' = i")
      case True
      then show ?thesis using Nil by (simp add: append_to_def set_list_apply slot_ok_def)
    next
      case False
      then have "tw_lists ?s l' i' = tw_lists s l' i'" "?L l' i' = L l' i'" by (auto simp: append_to_def set_list_apply)
      moreover have "slot_ok (tw_heap ?s) (tw_lists s l' i') (L l' i')" by (rule others) (use nt in auto)
      ultimately show ?thesis by simp
    qed
    then have "wheel_ok ?L ?s'" using one by (simp add: wheel_ok_def)
    then show ?thesis unfolding e li by auto
  next
    case (Cons h0 xs)
    then have h: "tw_lists s l i = Some h0" and p: "te_prev (tw_heap s h0) = Some (last (L l i))" using sl [of l i] by (auto simp: slot_ok_def)
    have h0: "h0 \<in> set (L l i)" "last (L l i) \<in> set (L l i)" using Cons by auto
    then have th: "t \<noteq> h0" "t \<noteq> last (L l i)" using nt by metis+
    let ?p = "last (L l i)"
    let ?s = "upd_timer t (\<lambda>e. e\<lparr>te_state := 1\<rparr>) (upd_timer h0 (\<lambda>e. e\<lparr>te_prev := Some t\<rparr>) (upd_timer ?p (\<lambda>e. e\<lparr>te_next := Some t\<rparr>)
      (upd_timer t (\<lambda>e. e\<lparr>te_prev := Some ?p\<rparr>) (upd_timer t (\<lambda>e. e\<lparr>te_next := None\<rparr>) s))))"
    let ?s' = "if te_expires (tw_heap ?s t) < tw_next_expire ?s then ?s\<lparr>tw_next_expire := te_expires (tw_heap ?s t)\<rparr> else ?s"
    have e: "timer_enqueue t s = Some ?s'" using th by (simp add: timer_enqueue_def li h p Let_def)
    have "slot_ok (tw_heap ?s) (tw_lists ?s l' i') (?L l' i')" for l' i'
    proof (cases "l' = l \<and> i' = i")
      case True
      have d: "distinct (L l i)" "chained (tw_heap s) (Some h0) (L l i)" using sl [of l i] h by (auto simp: slot_ok_def)
      have bl: "x \<noteq> t \<and> x \<noteq> ?p" if "x \<in> set (butlast (L l i))" for x
      proof -
        have "L l i = butlast (L l i) @ [?p]" using Cons by simp
        then have "?p \<notin> set (butlast (L l i))" using d(1) by (metis distinct_append not_distinct_conv_prefix)
        then show ?thesis using that nt by (metis in_set_butlastD)
      qed
      have c: "chained (tw_heap ?s) (Some h0) (L l i @ [t])"
      proof (rule chained_snoc [OF d(2) _ d(1) nt])
        show "L l i \<noteq> []" using Cons by simp
        show "te_next (tw_heap ?s ?p) = Some t" using th by (cases "h0 = ?p") auto
        show "te_next (tw_heap ?s t) = None" using th by auto
        show "te_next (tw_heap ?s x) = te_next (tw_heap s x)" if "x \<in> set (butlast (L l i))" for x
          using bl [OF that] th by (cases "x = h0") auto
      qed
      have v: "te_prev (tw_heap ?s h0) = Some t" using th by simp
      have hl: "hd (L l i @ [t]) = h0" "last (L l i @ [t]) = t" "distinct (L l i @ [t])" using Cons d(1) nt [of l i] by auto
      have "slot_ok (tw_heap ?s) (Some h0) (L l i @ [t])" unfolding slot_ok_def hl(1,2) using c v hl(3) by blast
      moreover have "tw_lists ?s l' i' = Some h0" "?L l' i' = L l i @ [t]" using True h by (simp_all add: append_to_def set_list_apply)
      ultimately show ?thesis by presburger
    next
      case False
      have ni: "x \<noteq> h0 \<and> x \<noteq> ?p \<and> x \<noteq> t" if "x \<in> set (L l' i')" for x
        using w h0 that False nt unfolding wheel_ok_def one_slot_def by metis
      have "tw_lists ?s l' i' = tw_lists s l' i'" "?L l' i' = L l' i'" using False by (auto simp: append_to_def set_list_apply)
      moreover have "slot_ok (tw_heap ?s) (tw_lists s l' i') (L l' i')" by (rule others) (use ni in auto)
      ultimately show ?thesis by simp
    qed
    then have ok: "wheel_ok ?L ?s'" using one by (simp add: wheel_ok_def)
    have "x \<noteq> h0 \<and> x \<noteq> ?p" if "\<not> in_slots L x" for x using that h0 unfolding in_slots_def by blast
    then have "\<forall>x. x \<noteq> t \<and> \<not> in_slots L x \<longrightarrow> tw_heap ?s' x = tw_heap s x" by simp
    with ok show ?thesis unfolding e li by auto
  qed
qed

lemma clear_ok: "wheel_ok L s \<Longrightarrow> wheel_ok (set_list l i [] L) (set_slot l i None s)"
  by (auto simp: wheel_ok_def set_list_apply one_slot_clear slot_ok_def)

lemma wheel_ok_cong:
  assumes "wheel_ok L s" and "tw_lists s' = tw_lists s"
    and "\<And>x. in_slots L x \<Longrightarrow> te_next (tw_heap s' x) = te_next (tw_heap s x) \<and> te_prev (tw_heap s' x) = te_prev (tw_heap s x)"
  shows "wheel_ok L s'"
proof -
  have "slot_ok (tw_heap s') (tw_lists s' l i) (L l i)" for l i
  proof -
    have n: "te_next (tw_heap s' x) = te_next (tw_heap s x) \<and> te_prev (tw_heap s' x) = te_prev (tw_heap s x)" if "x \<in> set (L l i)" for x
      using assms(3) that by (auto simp: in_slots_def)
    have "chained (tw_heap s') (tw_lists s l i) (L l i) = chained (tw_heap s) (tw_lists s l i) (L l i)"
      by (rule chained_cong) (use n in blast)
    moreover have "slot_ok (tw_heap s) (tw_lists s l i) (L l i)" using assms(1) by (simp add: wheel_ok_def)
    ultimately show ?thesis using n assms(2) by (auto simp: slot_ok_def)
  qed
  then show ?thesis using assms(1) by (simp add: wheel_ok_def)
qed

section \<open>The loops of a tick\<close>

definition put_all :: "(taddr \<Rightarrow> u64) \<Rightarrow> u64 \<Rightarrow> taddr list \<Rightarrow> slots \<Rightarrow> slots" where
  "put_all e j xs L = fold (\<lambda>t. append_to (calc_index (e t) j) t) xs L"

lemma put_all_simps [simp]:
  "put_all e j [] L = L" "put_all e j (x # xs) L = put_all e j xs (append_to (calc_index (e x) j) x L)"
  by (simp_all add: put_all_def)

lemma in_put_all: "t \<in> set (put_all e j xs L l i) \<longleftrightarrow> t \<in> set (L l i) \<or> t \<in> set xs \<and> calc_index (e t) j = (l, i)"
  by (induction xs arbitrary: L) (auto simp: in_append_to)

lemma cascade_loop_ok:
  assumes "chained (tw_heap s) h xs" and "distinct xs" and "\<forall>x\<in>set xs. \<not> in_slots L x" and "wheel_ok L s"
  shows "\<exists>s'. cascade_loop h s = Some s' \<and> wheel_ok (put_all (\<lambda>x. te_expires (tw_heap s x)) (tw_jiffies s) xs L) s' \<and>
    tw_jiffies s' = tw_jiffies s \<and> tw_called s' = tw_called s \<and> (\<forall>x. setting (tw_heap s' x) = setting (tw_heap s x)) \<and>
    (\<forall>x. te_state (tw_heap s' x) = (if x \<in> set xs then 1 else te_state (tw_heap s x)))"
  using assms
proof (induction xs arbitrary: h s L)
  case Nil
  then show ?case by (simp add: cascade_loop.simps)
next
  case (Cons t xs)
  let ?n = "te_next (tw_heap s t)"
  let ?s1 = "upd_timer t (\<lambda>e. e\<lparr>te_next := None, te_prev := None\<rparr>) s"
  have t: "\<not> in_slots L t" "t \<notin> set xs" using Cons.prems by auto
  have w1: "wheel_ok L ?s1" by (rule wheel_ok_cong [OF Cons.prems(4)]) (use t in auto)
  from timer_enqueue_ok [OF w1 t(1)] obtain s2 where s2: "timer_enqueue t ?s1 = Some s2"
    "wheel_ok (append_to (calc_index (te_expires (tw_heap s t)) (tw_jiffies s)) t L) s2"
    "tw_jiffies s2 = tw_jiffies s" "tw_called s2 = tw_called s" "\<And>x. setting (tw_heap s2 x) = setting (tw_heap ?s1 x)"
    "te_state (tw_heap s2 t) = 1" "\<And>x. x \<noteq> t \<Longrightarrow> te_state (tw_heap s2 x) = te_state (tw_heap ?s1 x)"
    "\<And>x. x \<noteq> t \<and> \<not> in_slots L x \<Longrightarrow> tw_heap s2 x = tw_heap ?s1 x" by auto
  have st: "setting (tw_heap s2 x) = setting (tw_heap s x)" for x using s2(5) [of x] by (cases "x = t") auto
  have fr: "tw_heap s2 x = tw_heap s x" if "x \<in> set xs" for x using s2(8) [of x] that Cons.prems(3) t(2) by auto
  have c: "chained (tw_heap s2) ?n xs" using Cons.prems(1) chained_cong [of xs "tw_heap s2" "tw_heap s"] fr by auto
  have d: "\<forall>x\<in>set xs. \<not> in_slots (append_to (calc_index (te_expires (tw_heap s t)) (tw_jiffies s)) t L) x"
    using Cons.prems(3) t(2) by (auto simp: in_slots_def in_append_to)
  have e: "(\<lambda>x. te_expires (tw_heap s2 x)) = (\<lambda>x. te_expires (tw_heap s x))" using st by auto
  from Cons.IH [OF c _ d s2(2)] Cons.prems(2) obtain s' where s': "cascade_loop ?n s2 = Some s'"
    "wheel_ok (put_all (\<lambda>x. te_expires (tw_heap s x)) (tw_jiffies s) (t # xs) L) s'"
    "tw_jiffies s' = tw_jiffies s" "tw_called s' = tw_called s" "\<And>x. setting (tw_heap s' x) = setting (tw_heap s2 x)"
    "\<And>x. te_state (tw_heap s' x) = (if x \<in> set xs then 1 else te_state (tw_heap s2 x))"
    unfolding e s2(3) by (auto simp: s2(3,4))
  have "cascade_loop (Some t) s = Some s'" using s2(1) s'(1) by (subst cascade_loop.simps) simp
  then have "cascade_loop h s = Some s'" using Cons.prems(1) by simp
  moreover have "te_state (tw_heap s' x) = (if x \<in> set (t # xs) then 1 else te_state (tw_heap s x))" for x
    using s'(6) [of x] s2(6) s2(7) [of x] by auto
  ultimately show ?case using s'(2-5) st by simp
qed

text \<open>A timer without the one-shot flag is set for the next tick when it expires.\<close>

definition periodic :: "timer_entry \<Rightarrow> bool" where
  "periodic e \<longleftrightarrow> te_flags e AND TIMER_FLAG_ONESHOT = 0"

definition renewed :: "(taddr \<Rightarrow> timer_entry) \<Rightarrow> taddr \<Rightarrow> u64" where
  "renewed hp x = (if periodic (hp x) then te_expires (hp x) + 1 else te_expires (hp x))"

definition calls_of :: "u64 \<Rightarrow> (taddr \<Rightarrow> timer_entry) \<Rightarrow> taddr list \<Rightarrow> (u64 \<times> taddr \<times> nat \<times> nat) list" where
  "calls_of j hp xs = [(j, x, the (te_callback (hp x)), te_arg (hp x)). x \<leftarrow> xs, te_callback (hp x) \<noteq> None]"

definition same_owner :: "timer_entry \<Rightarrow> timer_entry \<Rightarrow> bool" where
  "same_owner e e' \<longleftrightarrow> te_callback e = te_callback e' \<and> te_arg e = te_arg e' \<and> te_flags e = te_flags e'"

lemma same_owner_periodic: "same_owner e e' \<Longrightarrow> periodic e = periodic e'"
  by (simp add: same_owner_def periodic_def)

lemma expire_timer_ok:
  assumes w: "wheel_ok L s" and t: "\<not> in_slots L t"
  shows "\<exists>s'. expire_timer t s = Some s' \<and>
    wheel_ok (put_all (renewed (tw_heap s)) (tw_jiffies s) (if periodic (tw_heap s t) then [t] else []) L) s' \<and>
    tw_jiffies s' = tw_jiffies s \<and> tw_called s' = tw_called s @ calls_of (tw_jiffies s) (tw_heap s) [t] \<and>
    (\<forall>x. same_owner (tw_heap s' x) (tw_heap s x)) \<and>
    (\<forall>x. te_expires (tw_heap s' x) = (if x = t then renewed (tw_heap s) t else te_expires (tw_heap s x))) \<and>
    te_state (tw_heap s' t) = (if periodic (tw_heap s t) then 1 else 2) \<and>
    (\<forall>x. x \<noteq> t \<longrightarrow> te_state (tw_heap s' x) = te_state (tw_heap s x)) \<and>
    (\<forall>x. x \<noteq> t \<and> \<not> in_slots L x \<longrightarrow> tw_heap s' x = tw_heap s x)"
proof -
  let ?s1 = "upd_timer t (\<lambda>e. e\<lparr>te_next := None, te_prev := None, te_state := 2\<rparr>) s"
  define s2 where "s2 = (case te_callback (tw_heap ?s1 t) of None \<Rightarrow> ?s1
    | Some cb \<Rightarrow> ?s1\<lparr>tw_called := tw_called ?s1 @ [(tw_jiffies ?s1, t, cb, te_arg (tw_heap ?s1 t))]\<rparr>)"
  have hp2: "tw_heap s2 = (tw_heap s)(t := (tw_heap s t)\<lparr>te_next := None, te_prev := None, te_state := 2\<rparr>)"
    "tw_jiffies s2 = tw_jiffies s" "tw_lists s2 = tw_lists s"
    "tw_called s2 = tw_called s @ calls_of (tw_jiffies s) (tw_heap s) [t]"
    by (simp_all add: s2_def calls_of_def split: option.split)
  have w2: "wheel_ok L s2" by (rule wheel_ok_cong [OF w hp2(3)]) (use t in \<open>auto simp: hp2\<close>)
  have ex: "expire_timer t s = (if te_flags (tw_heap s2 t) AND 1 = 0
    then timer_enqueue t (upd_timer t (\<lambda>e. e\<lparr>te_expires := te_expires e + timer_ms_to_jiffies 1\<rparr>) s2) else Some s2)"
    unfolding expire_timer_def Let_def s2_def by (rule refl)
  have p2: "(te_flags (tw_heap s2 t) AND 1 = 0) = periodic (tw_heap s t)" by (simp add: hp2 periodic_def)
  show ?thesis
  proof (cases "periodic (tw_heap s t)")
    case False
    then have "expire_timer t s = Some s2" using p2 by (simp add: ex)
    then show ?thesis using w2 False by (auto simp: hp2 same_owner_def renewed_def)
  next
    case True
    let ?s3 = "upd_timer t (\<lambda>e. e\<lparr>te_expires := te_expires e + timer_ms_to_jiffies 1\<rparr>) s2"
    have w3: "wheel_ok L ?s3" by (rule wheel_ok_cong [OF w2]) (use t in auto)
    have x3: "te_expires (tw_heap ?s3 t) = renewed (tw_heap s) t" using True by (simp add: hp2 renewed_def timer_ms_to_jiffies_def)
    from timer_enqueue_ok [OF w3 t] obtain s' where s': "timer_enqueue t ?s3 = Some s'"
      "wheel_ok (append_to (calc_index (renewed (tw_heap s) t) (tw_jiffies s)) t L) s'"
      "tw_jiffies s' = tw_jiffies s" "tw_called s' = tw_called s2" "\<And>x. setting (tw_heap s' x) = setting (tw_heap ?s3 x)"
      "te_state (tw_heap s' t) = 1" "\<And>x. x \<noteq> t \<Longrightarrow> te_state (tw_heap s' x) = te_state (tw_heap ?s3 x)"
      "\<And>x. x \<noteq> t \<and> \<not> in_slots L x \<Longrightarrow> tw_heap s' x = tw_heap ?s3 x" unfolding x3 by (auto simp: hp2)
    have "expire_timer t s = Some s'" using p2 True s'(1) by (simp add: ex)
    moreover have "same_owner (tw_heap s' x) (tw_heap s x)" for x using s'(5) [of x] by (cases "x = t") (auto simp: hp2 same_owner_def)
    moreover have "te_expires (tw_heap s' x) = (if x = t then renewed (tw_heap s) t else te_expires (tw_heap s x))" for x
      using s'(5) [of x] x3 by (cases "x = t") (auto simp: hp2)
    moreover have "te_state (tw_heap s' x) = te_state (tw_heap s x)" if "x \<noteq> t" for x using s'(7) [OF that] that by (simp add: hp2)
    moreover have "tw_heap s' x = tw_heap s x" if "x \<noteq> t \<and> \<not> in_slots L x" for x using s'(8) [OF that] that by (simp add: hp2)
    ultimately show ?thesis using s'(2-4,6) True hp2(4) by auto
  qed
qed

lemma expire_loop_ok:
  assumes "chained (tw_heap s) h xs" and "distinct xs" and "\<forall>x\<in>set xs. \<not> in_slots L x" and "wheel_ok L s"
  shows "\<exists>s'. expire_loop h s = Some s' \<and>
    wheel_ok (put_all (renewed (tw_heap s)) (tw_jiffies s) (filter (\<lambda>x. periodic (tw_heap s x)) xs) L) s' \<and>
    tw_jiffies s' = tw_jiffies s \<and> tw_called s' = tw_called s @ calls_of (tw_jiffies s) (tw_heap s) xs \<and>
    (\<forall>x. same_owner (tw_heap s' x) (tw_heap s x)) \<and>
    (\<forall>x. te_expires (tw_heap s' x) = (if x \<in> set xs then renewed (tw_heap s) x else te_expires (tw_heap s x))) \<and>
    (\<forall>x. te_state (tw_heap s' x) = (if x \<in> set xs then if periodic (tw_heap s x) then 1 else 2 else te_state (tw_heap s x)))"
  using assms
proof (induction xs arbitrary: h s L)
  case Nil
  then show ?case by (simp add: expire_loop.simps calls_of_def same_owner_def)
next
  case (Cons t xs)
  let ?n = "te_next (tw_heap s t)" and ?j = "tw_jiffies s"
  have t: "\<not> in_slots L t" "t \<notin> set xs" using Cons.prems by auto
  let ?L = "put_all (renewed (tw_heap s)) ?j (if periodic (tw_heap s t) then [t] else []) L"
  from expire_timer_ok [OF Cons.prems(4) t(1)] obtain s2 where s2: "expire_timer t s = Some s2" "wheel_ok ?L s2"
    "tw_jiffies s2 = ?j" "tw_called s2 = tw_called s @ calls_of ?j (tw_heap s) [t]"
    "\<And>x. same_owner (tw_heap s2 x) (tw_heap s x)"
    "\<And>x. te_expires (tw_heap s2 x) = (if x = t then renewed (tw_heap s) t else te_expires (tw_heap s x))"
    "te_state (tw_heap s2 t) = (if periodic (tw_heap s t) then 1 else 2)"
    "\<And>x. x \<noteq> t \<Longrightarrow> te_state (tw_heap s2 x) = te_state (tw_heap s x)"
    "\<And>x. x \<noteq> t \<and> \<not> in_slots L x \<Longrightarrow> tw_heap s2 x = tw_heap s x" by auto
  have fr: "tw_heap s2 x = tw_heap s x" if "x \<in> set xs" for x using s2(9) [of x] that Cons.prems(3) t(2) by auto
  have c: "chained (tw_heap s2) ?n xs" using Cons.prems(1) chained_cong [of xs "tw_heap s2" "tw_heap s"] fr by auto
  have d: "\<forall>x\<in>set xs. \<not> in_slots ?L x" using Cons.prems(3) t(2) by (auto simp: in_slots_def in_put_all)
  have pe: "filter (\<lambda>x. periodic (tw_heap s2 x)) xs = filter (\<lambda>x. periodic (tw_heap s x)) xs"
    by (rule filter_cong) (auto simp: fr)
  have ca: "calls_of ?j (tw_heap s2) xs = calls_of ?j (tw_heap s) xs" unfolding calls_of_def by (rule arg_cong [of _ _ concat], rule map_cong) (auto simp: fr)
  have pu: "put_all (renewed (tw_heap s2)) ?j ys L' = put_all (renewed (tw_heap s)) ?j ys L'" if "set ys \<subseteq> set xs" for ys L'
    using that by (induction ys arbitrary: L') (auto simp: fr renewed_def)
  have pu': "put_all (renewed (tw_heap s2)) ?j (filter (\<lambda>x. periodic (tw_heap s x)) xs) ?L =
    put_all (renewed (tw_heap s)) ?j (filter (\<lambda>x. periodic (tw_heap s x)) xs) ?L" by (rule pu) auto
  from Cons.IH [OF c _ d s2(2)] Cons.prems(2) obtain s' where s': "expire_loop ?n s2 = Some s'"
    "wheel_ok (put_all (renewed (tw_heap s)) ?j (filter (\<lambda>x. periodic (tw_heap s x)) xs) ?L) s'"
    "tw_jiffies s' = ?j" "tw_called s' = tw_called s2 @ calls_of ?j (tw_heap s) xs"
    "\<And>x. same_owner (tw_heap s' x) (tw_heap s2 x)"
    "\<And>x. te_expires (tw_heap s' x) = (if x \<in> set xs then renewed (tw_heap s2) x else te_expires (tw_heap s2 x))"
    "\<And>x. te_state (tw_heap s' x) = (if x \<in> set xs then if periodic (tw_heap s2 x) then 1 else 2 else te_state (tw_heap s2 x))"
    unfolding pe s2(3) ca pu' by auto
  have "expire_loop (Some t) s = Some s'" using s2(1) s'(1) by (subst expire_loop.simps) simp
  then have 1: "expire_loop h s = Some s'" using Cons.prems(1) by simp
  have 2: "wheel_ok (put_all (renewed (tw_heap s)) ?j (filter (\<lambda>x. periodic (tw_heap s x)) (t # xs)) L) s'"
    using s'(2) by (simp split: if_splits)
  have 3: "tw_called s' = tw_called s @ calls_of ?j (tw_heap s) (t # xs)" using s'(4) s2(4) by (simp add: calls_of_def)
  have 4: "same_owner (tw_heap s' x) (tw_heap s x)" for x using s'(5) [of x] s2(5) [of x] by (simp add: same_owner_def)
  have 5: "te_expires (tw_heap s' x) = (if x \<in> set (t # xs) then renewed (tw_heap s) x else te_expires (tw_heap s x))" for x
    using s'(6) [of x] s2(6) [of x] t(2) fr by (auto simp: renewed_def)
  have 6: "te_state (tw_heap s' x) = (if x \<in> set (t # xs) then if periodic (tw_heap s x) then 1 else 2 else te_state (tw_heap s x))" for x
    using s'(7) [of x] s2(7,8) t(2) fr by auto
  show ?case using 1 2 s'(3) 3 4 5 6 by blast
qed

end
