(* ===== verification/TimerRuns.thy ===== *)
theory TimerRuns
  imports TimerProps
begin

text \<open>
  When timers fire: the tick and the addition of timers as steps, the number of ticks after which a timer that waits in a slot
  fires, timers that never fire, and the removal of a timer.
\<close>

section \<open>A tick on the slots\<close>

definition expiring :: "u64 \<Rightarrow> slots \<Rightarrow> taddr list" where
  "expiring j L = L 0 (j AND TIMER_WHEEL_MASK)"

definition expired_slots :: "(taddr \<Rightarrow> timer_entry) \<Rightarrow> u64 \<Rightarrow> slots \<Rightarrow> slots" where
  "expired_slots hp j L =
     put_all (renewed hp) j (filter (\<lambda>x. periodic (hp x)) (expiring j L)) (set_list 0 (j AND TIMER_WHEEL_MASK) [] L)"

definition new_expires :: "(taddr \<Rightarrow> timer_entry) \<Rightarrow> u64 \<Rightarrow> slots \<Rightarrow> taddr \<Rightarrow> u64" where
  "new_expires hp j L x = (if x \<in> set (expiring j L) then renewed hp x else te_expires (hp x))"

definition cascaded :: "(taddr \<Rightarrow> timer_entry) \<Rightarrow> u64 \<Rightarrow> slots \<Rightarrow> taddr list" where
  "cascaded hp j L = (if j AND TIMER_WHEEL_MASK = 0 then expired_slots hp j L 1 (drop_bit 8 j AND TIMER_WHEEL_MASK) else [])"

definition tick_slots :: "(taddr \<Rightarrow> timer_entry) \<Rightarrow> u64 \<Rightarrow> slots \<Rightarrow> slots" where
  "tick_slots hp j L =
     (if j AND TIMER_WHEEL_MASK = 0
      then put_all (new_expires hp j L) j (cascaded hp j L) (set_list 1 (drop_bit 8 j AND TIMER_WHEEL_MASK) [] (expired_slots hp j L))
      else expired_slots hp j L)"

lemma cleared: "one_slot L \<Longrightarrow> x \<in> set (L l i) \<Longrightarrow> \<not> in_slots (set_list l i [] L) x"
  by (force simp: one_slot_def in_slots_def set_list_apply split: if_splits)

lemma wheel_tick_ok:
  assumes w: "wheel_ok L s"
  shows "\<exists>s'. wheel_tick s = Some s' \<and> wheel_ok (tick_slots (tw_heap s) (tw_jiffies s + 1) L) s' \<and>
    tw_jiffies s' = tw_jiffies s + 1 \<and>
    tw_called s' = tw_called s @ calls_of (tw_jiffies s + 1) (tw_heap s) (expiring (tw_jiffies s + 1) L) \<and>
    (\<forall>x. same_owner (tw_heap s' x) (tw_heap s x)) \<and>
    (\<forall>x. te_expires (tw_heap s' x) = new_expires (tw_heap s) (tw_jiffies s + 1) L x) \<and>
    (\<forall>x. te_state (tw_heap s' x) =
       (if x \<in> set (cascaded (tw_heap s) (tw_jiffies s + 1) L) then 1
        else if x \<in> set (expiring (tw_jiffies s + 1) L) then if periodic (tw_heap s x) then 1 else 2 else te_state (tw_heap s x)))"
proof -
  let ?j = "tw_jiffies s + 1"
  let ?i = "?j AND 255" and ?hp = "tw_heap s"
  let ?s0 = "s\<lparr>tw_jiffies := ?j\<rparr>"
  let ?xs = "expiring ?j L"
  have w0: "wheel_ok (set_list 0 ?i [] L) (set_slot 0 ?i None ?s0)"
    by (rule clear_ok) (use w in \<open>simp add: wheel_ok_def\<close>)
  have sl: "slot_ok ?hp (tw_lists s 0 ?i) ?xs" using w by (simp add: wheel_ok_def expiring_def)
  have ni: "\<forall>x\<in>set ?xs. \<not> in_slots (set_list 0 ?i [] L) x"
    using w by (simp add: wheel_ok_def expiring_def cleared)
  have "chained (tw_heap (set_slot 0 ?i None ?s0)) (tw_lists s 0 ?i) ?xs" "distinct ?xs" using sl by (simp_all add: slot_ok_def)
  from expire_loop_ok [OF this ni w0] obtain s1 where s1: "expire_loop (tw_lists s 0 ?i) (set_slot 0 ?i None ?s0) = Some s1"
    "wheel_ok (expired_slots ?hp ?j L) s1" "tw_jiffies s1 = ?j" "tw_called s1 = tw_called s @ calls_of ?j ?hp ?xs"
    "\<And>x. same_owner (tw_heap s1 x) (?hp x)" "\<And>x. te_expires (tw_heap s1 x) = new_expires ?hp ?j L x"
    "\<And>x. te_state (tw_heap s1 x) = (if x \<in> set ?xs then if periodic (?hp x) then 1 else 2 else te_state (?hp x))"
    by (auto simp: expired_slots_def new_expires_def)
  have fin: "wheel_ok L' (s'\<lparr>tw_next_expire := v\<rparr>) = wheel_ok L' s'" for L' s' v by (simp add: wheel_ok_def)
  show ?thesis
  proof (cases "?i = 0")
    case False
    then obtain v where "wheel_tick s = Some (s1\<lparr>tw_next_expire := v\<rparr>)"
      using s1(1) unfolding wheel_tick_def expire_level0_def Let_def by simp
    moreover have "tick_slots ?hp ?j L = expired_slots ?hp ?j L" "cascaded ?hp ?j L = []"
      using False by (simp_all add: tick_slots_def cascaded_def)
    ultimately show ?thesis using s1 fin by simp
  next
    case True
    let ?c = "drop_bit 8 ?j AND 255" and ?L = "expired_slots ?hp ?j L"
    let ?ys = "?L 1 ?c"
    have sl1: "slot_ok (tw_heap s1) (tw_lists s1 1 ?c) ?ys" using s1(2) by (simp add: wheel_ok_def)
    have ni1: "\<forall>x\<in>set ?ys. \<not> in_slots (set_list 1 ?c [] ?L) x"
      using s1(2) by (simp add: wheel_ok_def cleared)
    have e: "(\<lambda>x. te_expires (tw_heap s1 x)) = new_expires ?hp ?j L" using s1(6) by auto
    have "chained (tw_heap (set_slot 1 ?c None s1)) (tw_lists s1 1 ?c) ?ys" "distinct ?ys" using sl1 by (simp_all add: slot_ok_def)
    from cascade_loop_ok [OF this ni1 clear_ok [OF s1(2)]] obtain s2 where s2:
      "cascade_loop (tw_lists s1 1 ?c) (set_slot 1 ?c None s1) = Some s2"
      "wheel_ok (put_all (new_expires ?hp ?j L) ?j ?ys (set_list 1 ?c [] ?L)) s2" "tw_jiffies s2 = ?j" "tw_called s2 = tw_called s1"
      "\<And>x. setting (tw_heap s2 x) = setting (tw_heap s1 x)"
      "\<And>x. te_state (tw_heap s2 x) = (if x \<in> set ?ys then 1 else te_state (tw_heap s1 x))"
      using s1(3) e by auto
    have "cascade 0 s1 = Some s2" using s2(1) s1(3) by (simp add: cascade_def Let_def)
    then obtain v where "wheel_tick s = Some (s2\<lparr>tw_next_expire := v\<rparr>)"
      using s1(1) True unfolding wheel_tick_def expire_level0_def Let_def by simp
    moreover have "tick_slots ?hp ?j L = put_all (new_expires ?hp ?j L) ?j ?ys (set_list 1 ?c [] ?L)" "cascaded ?hp ?j L = ?ys"
      using True by (simp_all add: tick_slots_def cascaded_def)
    moreover have "same_owner (tw_heap s2 x) (?hp x)" for x using s2(5) [of x] s1(5) [of x] by (simp add: same_owner_def)
    ultimately show ?thesis using s2 s1(4,6,7) fin by simp
  qed
qed

lemma in_expired_slots:
  "t \<in> set (expired_slots hp j L l i) \<longleftrightarrow>
     t \<in> set (L l i) \<and> (l, i) \<noteq> (0, j AND 255) \<or> t \<in> set (expiring j L) \<and> periodic (hp t) \<and> calc_index (renewed hp t) j = (l, i)"
  by (auto simp: expired_slots_def in_put_all set_list_apply)

lemma in_tick_slots:
  "t \<in> set (tick_slots hp j L l i) \<longleftrightarrow>
     t \<in> set (expired_slots hp j L l i) \<and> (j AND 255 = 0 \<longrightarrow> (l, i) \<noteq> (1, drop_bit 8 j AND 255)) \<or>
     t \<in> set (cascaded hp j L) \<and> calc_index (new_expires hp j L t) j = (l, i)"
  by (auto simp: tick_slots_def in_put_all set_list_apply cascaded_def)

lemma fired_leaves:
  assumes "one_slot L" and "t \<in> set (expiring j L)" and "\<not> periodic (hp t)"
  shows "\<not> in_slots (tick_slots hp j L) t"
proof -
  have "l = 0 \<and> i = j AND 255" if "t \<in> set (L l i)" for l i
    using assms(1,2) that unfolding one_slot_def expiring_def by blast
  then have "t \<notin> set (expired_slots hp j L l i)" for l i using assms(3) by (auto simp: in_expired_slots)
  then show ?thesis by (auto simp: in_slots_def in_tick_slots cascaded_def split: if_splits)
qed

lemma not_in_tick_slots: "\<not> in_slots L t \<Longrightarrow> \<not> in_slots (tick_slots hp j L) t \<and> t \<notin> set (expiring j L)"
  by (auto simp: in_slots_def in_tick_slots in_expired_slots cascaded_def expiring_def split: if_splits)

lemma timer_add_ok:
  assumes w: "wheel_ok L s" and t: "\<not> in_slots L t"
  shows "\<exists>s'. timer_add (Some t) ms (Some c) a s = Some (0, s') \<and>
    wheel_ok (append_to (calc_index (tw_jiffies s + timer_ms_to_jiffies ms) (tw_jiffies s)) t L) s' \<and>
    tw_jiffies s' = tw_jiffies s \<and> tw_called s' = tw_called s \<and>
    setting (tw_heap s' t) = (tw_jiffies s + timer_ms_to_jiffies ms, Some c, a, 0) \<and>
    (\<forall>x. x \<noteq> t \<longrightarrow> setting (tw_heap s' x) = setting (tw_heap s x)) \<and>
    te_state (tw_heap s' t) = 1 \<and> (\<forall>x. x \<noteq> t \<longrightarrow> te_state (tw_heap s' x) = te_state (tw_heap s x))"
proof -
  let ?e = "\<lparr>te_next = None, te_prev = None, te_expires = tw_jiffies s + timer_ms_to_jiffies ms, te_callback = Some c, te_arg = a,
    te_state = 0, te_flags = 0\<rparr>"
  let ?s = "upd_timer t (\<lambda>_. ?e) s"
  have "wheel_ok L ?s" by (rule wheel_ok_cong [OF w]) (use t in auto)
  from timer_enqueue_ok [OF this t] obtain s' where s': "timer_enqueue t ?s = Some s'"
    "wheel_ok (append_to (calc_index (te_expires ?e) (tw_jiffies s)) t L) s'" "tw_jiffies s' = tw_jiffies s"
    "tw_called s' = tw_called s" "\<And>x. setting (tw_heap s' x) = setting (tw_heap ?s x)" "te_state (tw_heap s' t) = 1"
    "\<And>x. x \<noteq> t \<Longrightarrow> te_state (tw_heap s' x) = te_state (tw_heap ?s x)" by auto
  have "timer_add (Some t) ms (Some c) a s = Some (0, s')" using s'(1) by (simp add: timer_add_def)
  moreover have "setting (tw_heap s' t) = (tw_jiffies s + timer_ms_to_jiffies ms, Some c, a, 0)"
    using s'(5) [of t] by (simp add: setting_def)
  moreover have "setting (tw_heap s' x) = setting (tw_heap s x)" if "x \<noteq> t" for x using s'(5) [of x] that by simp
  ultimately show ?thesis using s'(2-4,6,7) by simp
qed

section \<open>How many ticks are left\<close>

definition turns :: "nat \<Rightarrow> nat \<Rightarrow> nat" where
  "turns i a = (if (i + (256 - a mod 256)) mod 256 = 0 then 256 else (i + (256 - a mod 256)) mod 256)"

lemma turns_alt: "i < 256 \<Longrightarrow> turns i a = (if a mod 256 < i then i - a mod 256 else i + 256 - a mod 256)"
proof -
  assume i: "i < 256"
  have b: "a mod 256 < 256" by simp
  show ?thesis
  proof (cases "a mod 256 < i")
    case True
    then have "i + (256 - a mod 256) = (i - a mod 256) + 256" using b by linarith
    then have "(i + (256 - a mod 256)) mod 256 = i - a mod 256" using i by (simp only: mod_add_self2) simp
    then show ?thesis using True by (simp add: turns_def)
  next
    case False
    show ?thesis
    proof (cases "a mod 256 = i")
      case True
      then have "i + (256 - a mod 256) = 256" using b by linarith
      then show ?thesis using True unfolding turns_def by simp
    next
      case ne: False
      then have e: "(i + (256 - a mod 256)) mod 256 = i + (256 - a mod 256)" using False b by (intro mod_less) linarith
      have "turns i a = i + (256 - a mod 256)" unfolding turns_def e using b by (intro if_not_P) linarith
      also have "\<dots> = i + 256 - a mod 256" using b by linarith
      finally show ?thesis using False by simp
    qed
  qed
qed

lemma mask_byte: "unat ((x :: u64) AND 255) = unat x mod 256"
proof -
  have "x AND 255 = take_bit 8 x" by (simp add: take_bit_eq_mask mask_eq_exp_minus_1)
  then have "x AND 255 = x mod 256" by (simp add: take_bit_eq_mod)
  then show ?thesis by (simp only: unat_mod_distrib) simp
qed

lemma slot_byte: "unat (drop_bit 8 (x :: u64) AND 255) = unat x div 256 mod 256"
  unfolding mask_byte by (simp add: drop_bit_eq_div unat_div_distrib)

lemma later: "unat (e :: u64) mod 65536 = (unat j + unat (e - j)) mod 65536"
proof -
  have "unat (j + (e - j)) = (unat j + unat (e - j)) mod 2 ^ 64" unfolding unat_word_ariths(1) by simp
  then have "unat e = (unat j + unat (e - j)) mod 2 ^ 64" by (simp only: add_diff_eq add_diff_cancel_left')
  then have "unat e mod 2 ^ 16 = (unat j + unat (e - j)) mod 2 ^ 64 mod 2 ^ 16" by simp
  moreover have "m mod 2 ^ 64 mod 2 ^ 16 = m mod 2 ^ 16" for m :: nat by (rule mod_mod_cancel) simp
  ultimately show ?thesis by simp
qed

text \<open>
  The timer \<open>t\<close>, which expires at \<open>e\<close>, fires in \<open>n\<close> ticks, as the clock shows \<open>j\<close>. A timer that the cascade brings to the slot
  of the current tick fires 256 ticks later than it should.
\<close>

definition due_in :: "slots \<Rightarrow> u64 \<Rightarrow> u64 \<Rightarrow> taddr \<Rightarrow> nat \<Rightarrow> bool" where
  "due_in L e j t n \<longleftrightarrow>
     (\<exists>i. t \<in> set (L 0 i) \<and> unat i < 256 \<and> n = turns (unat i) (unat j)) \<or>
     (t \<in> set (L 1 (drop_bit 8 e AND 255)) \<and> 256 \<le> unat j mod 256 + unat (e - j) \<and> unat (e - j) < 65536 \<and>
      n = unat (e - j) + (if unat e mod 256 = 0 then 256 else 0))"

lemma turns_self:
  assumes "0 < r" and "r < 256"
  shows "turns ((a + r) mod 256) a = r"
proof -
  define b where "b = a mod 256"
  have b: "b < 256" unfolding b_def by simp
  have e: "(a + r) mod 256 = (b + r) mod 256" unfolding b_def by (simp add: mod_add_left_eq)
  have lt: "(a + r) mod 256 < 256" by simp
  have m: "(b + r) mod 256 = (if b + r < 256 then b + r else b + r - 256)"
  proof (cases "b + r < 256")
    case False
    then have "b + r = (b + r - 256) + 256" by linarith
    then have "(b + r) mod 256 = (b + r - 256) mod 256" by (metis mod_add_self2)
    also have "\<dots> = b + r - 256" using b assms by (intro mod_less) linarith
    finally show ?thesis using False by simp
  qed simp
  have "turns ((a + r) mod 256) a = (if b < (a + r) mod 256 then (a + r) mod 256 - b else (a + r) mod 256 + 256 - b)"
    by (subst turns_alt [OF lt]) (simp only: b_def)
  then show ?thesis unfolding e m using assms b by (auto split: if_splits)
qed

lemma turns_step:
  assumes "i < 256" and "turns i a = Suc n"
  shows "(n = 0 \<longrightarrow> i = Suc a mod 256) \<and> (0 < n \<longrightarrow> i \<noteq> Suc a mod 256 \<and> turns i (Suc a) = n)"
proof -
  have b: "a mod 256 < 256" by simp
  show ?thesis
  proof (cases "a mod 256 = 255")
    case True
    then have "Suc a mod 256 = 0" by (simp add: mod_Suc)
    then show ?thesis using assms True by (auto simp: turns_alt split: if_splits)
  next
    case False
    then have "Suc a mod 256 = Suc (a mod 256)" by (simp add: mod_Suc)
    then show ?thesis using assms b by (auto simp: turns_alt split: if_splits)
  qed
qed

lemma unat_Suc_byte: "unat ((j :: u64) + 1) mod 65536 = Suc (unat j) mod 65536"
proof -
  have "unat (j + 1) mod 2 ^ 16 = (unat j + unat (1 :: u64)) mod 2 ^ 64 mod 2 ^ 16" unfolding unat_word_ariths(1) by simp
  moreover have "m mod 2 ^ 64 mod 2 ^ 16 = m mod 2 ^ 16" for m :: nat by (rule mod_mod_cancel) simp
  ultimately show ?thesis by simp
qed

lemma mod256: "(m :: nat) mod 65536 = k mod 65536 \<Longrightarrow> m mod 256 = k mod 256 \<and> m div 256 mod 256 = k div 256 mod 256"
proof -
  assume e: "m mod 65536 = k mod 65536"
  have "n mod 256 = n mod 65536 mod 256" "n div 256 mod 256 = n mod 65536 div 256" for n :: nat
    using mod_mult2_eq [of n 256 256] by (simp_all add: mod_mod_cancel)
  then show ?thesis using e by metis
qed

lemma turns_mod: "a mod 256 = b mod 256 \<Longrightarrow> turns i a = turns i b"
  by (simp only: turns_def)

lemma block_same:
  assumes "(J :: nat) mod 256 = 0" and "r < 65536"
  shows "(J + r) div 256 mod 256 = J div 256 mod 256 \<longleftrightarrow> r < 256"
proof -
  obtain q where J: "J = 256 * q" using assms(1) by auto
  have d: "(J + r) div 256 = q + r div 256" unfolding J by simp
  have "r div 256 < 256" using assms(2) by (simp add: div_less_iff_less_mult)
  moreover have "(q + k) mod 256 = q mod 256 \<longleftrightarrow> k = 0" if "k < 256" for k
  proof
    assume "(q + k) mod 256 = q mod 256"
    then have "256 dvd q + k - q" using mod_eq_dvd_iff_nat [of q "q + k" 256] by simp
    then show "k = 0" using that by (auto dest: nat_dvd_not_less)
  qed simp
  ultimately show ?thesis unfolding d J by (simp add: div_eq_0_iff)
qed

text \<open>Where a timer is put says when it fires.\<close>

lemma calc_index_near:
  assumes "0 < unat (e - j)" and "unat (e - j) < 65536" and "calc_index e j = (l, i)" and "t \<in> set (L l i)"
  shows "due_in L e j t (unat (e - j) + (if unat (e - j) \<ge> 256 \<and> unat e mod 256 = 0 then 256 else 0))"
proof (cases "unat (e - j) < 256")
  case True
  then have "e - j < 256" by (simp add: word_less_nat_alt)
  then have li: "l = 0" "i = e AND 255" using assms(3) by (simp_all add: calc_index_def calc_level_def Let_def)
  have "unat i = (unat j + unat (e - j)) mod 256" unfolding li mask_byte using mod256 [OF later] by blast
  then have "turns (unat i) (unat j) = unat (e - j)" using turns_self [OF assms(1) True] by simp
  moreover have "unat i < 256" unfolding li mask_byte by simp
  ultimately show ?thesis using assms(4) True unfolding li(1) due_in_def by auto
next
  case False
  then have "\<not> e - j < 256" "e - j < 65536" using assms(2) by (simp_all add: word_less_nat_alt)
  then have li: "l = 1" "i = drop_bit 8 e AND 255" using assms(3) by (simp_all add: calc_index_def calc_level_def Let_def)
  then show ?thesis using assms(2,4) False unfolding due_in_def by auto
qed

lemma calc_index_now: "calc_index e e = (0, e AND 255)"
  by (simp add: calc_index_def calc_level_def)

lemma unat_pred:
  assumes "0 < unat (e - j)"
  shows "unat (e - (j + 1) :: u64) = unat (e - j) - 1"
proof -
  have "e - j \<noteq> 0" using assms by (auto simp: unat_gt_0)
  then have "unat (e - j - 1) = unat (e - j) - 1" by (rule unat_minus_one)
  then show ?thesis by (simp add: diff_diff_eq)
qed

text \<open>A tick brings a waiting timer one tick nearer, or fires it.\<close>

lemma due_tick:
  assumes one: "one_slot L" and e: "te_expires (hp t) = e" and d: "due_in L e j t (Suc n)"
  shows "(n = 0 \<longrightarrow> t \<in> set (expiring (j + 1) L)) \<and>
    (0 < n \<longrightarrow> t \<notin> set (expiring (j + 1) L) \<and> due_in (tick_slots hp (j + 1) L) e (j + 1) t n)"
proof -
  let ?j = "j + 1"
  have jb: "unat ?j mod 256 = Suc (unat j) mod 256" using mod256 [OF unat_Suc_byte] by blast
  have ne: "new_expires hp ?j L t = e" if "t \<notin> set (expiring ?j L)" using that e by (simp add: new_expires_def)
  from d consider (zero) i where "t \<in> set (L 0 i)" "unat i < 256" "Suc n = turns (unat i) (unat j)"
    | (one) "t \<in> set (L 1 (drop_bit 8 e AND 255))" "256 \<le> unat j mod 256 + unat (e - j)" "unat (e - j) < 65536"
        "Suc n = unat (e - j) + (if unat e mod 256 = 0 then 256 else 0)"
    unfolding due_in_def by blast
  then show ?thesis
  proof cases
    case zero
    have st: "n = 0 \<longrightarrow> unat i = Suc (unat j) mod 256" "0 < n \<longrightarrow> unat i \<noteq> Suc (unat j) mod 256 \<and> turns (unat i) (Suc (unat j)) = n"
      using turns_step [OF zero(2) zero(3) [symmetric]] by blast+
    have ij: "i = ?j AND 255 \<longleftrightarrow> unat i = Suc (unat j) mod 256"
      unfolding word_unat_eq_iff mask_byte jb by (rule refl)
    show ?thesis
    proof (cases "n = 0")
      case True
      then show ?thesis using st(1) ij zero(1) by (simp add: expiring_def)
    next
      case False
      then have "i \<noteq> ?j AND 255" using st(2) ij by simp
      moreover have "t \<notin> set (expiring ?j L)" using one zero(1) \<open>i \<noteq> ?j AND 255\<close> by (auto simp: expiring_def one_slot_def)
      moreover have "turns (unat i) (unat ?j) = n"
        using st(2) False turns_mod [OF jb] by simp
      ultimately have "t \<in> set (tick_slots hp ?j L 0 i) \<and> unat i < 256 \<and> n = turns (unat i) (unat ?j)"
        using zero(1,2) by (simp add: in_tick_slots in_expired_slots)
      then show ?thesis using False \<open>t \<notin> set (expiring ?j L)\<close> unfolding due_in_def by blast
    qed
  next
    case one': one
    let ?i = "drop_bit 8 e AND 255"
    have r0: "0 < unat (e - j)" using one'(2) by (metis add_0_right gr0I mod_less_divisor not_le zero_less_numeral)
    note r = unat_pred [OF r0]
    have ex: "t \<notin> set (expiring ?j L)" using assms(1) one'(1) unfolding expiring_def one_slot_def by (metis zero_neq_one)
    have rn: "Suc n = Suc (unat (e - ?j)) + (if unat e mod 256 = 0 then 256 else 0)" "unat (e - ?j) < 65536"
      using r r0 one'(3,4) by simp_all
    then have rn: "n = unat (e - ?j) + (if unat e mod 256 = 0 then 256 else 0)" "unat (e - ?j) < 65536" by simp_all
    have lat: "unat e mod 256 = (unat ?j + unat (e - ?j)) mod 256"
      "unat e div 256 mod 256 = (unat ?j + unat (e - ?j)) div 256 mod 256" using mod256 [OF later] by blast+
    have next_block: "unat ?j mod 256 = 0 \<or> unat ?j mod 256 = Suc (unat j mod 256)" unfolding jb by (simp add: mod_Suc)
    have last_tick: "unat j mod 256 = 255" if "unat ?j mod 256 = 0" using that unfolding jb by (simp add: mod_Suc split: if_splits)
    have mz: "?j AND 255 = 0 \<longleftrightarrow> unat ?j mod 256 = 0" unfolding word_unat_eq_iff mask_byte by simp
    have sz: "drop_bit 8 ?j AND 255 = ?i \<longleftrightarrow> unat ?j div 256 mod 256 = unat e div 256 mod 256"
      unfolding word_unat_eq_iff slot_byte by (rule refl)
    have np0: "0 < n"
    proof (cases "unat (e - ?j) = 0")
      case True
      then have "unat j mod 256 = 255" using one'(2) r r0 mod_less_divisor [of 256 "unat j"] by linarith
      then have "unat ?j mod 256 = 0" unfolding jb by (simp add: mod_Suc)
      then have "unat e mod 256 = 0" using lat(1) True by simp
      then show ?thesis using rn by simp
    qed (use rn in simp)
    have stay: "t \<in> set (expired_slots hp ?j L 1 ?i)" using one'(1) by (simp add: in_expired_slots)
    show ?thesis
    proof (cases "?j AND 255 = 0 \<and> drop_bit 8 ?j AND 255 = ?i")
      case False
      then have in1: "t \<in> set (tick_slots hp ?j L 1 ?i)" using stay by (auto simp: in_tick_slots)
      have "256 \<le> unat ?j mod 256 + unat (e - ?j)"
      proof (cases "unat ?j mod 256 = 0")
        case True
        then have "\<not> unat (e - ?j) < 256" using False mz sz block_same [OF True rn(2)] lat(2) by simp
        then show ?thesis by simp
      next
        case False
        then show ?thesis using next_block one'(2) r r0 by linarith
      qed
      then have "due_in (tick_slots hp ?j L) e ?j t n" using in1 rn unfolding due_in_def by blast
      then show ?thesis using ex np0 by blast
    next
      case True
      then have z: "unat ?j mod 256 = 0" and same: "unat ?j div 256 mod 256 = unat e div 256 mod 256" using mz sz by blast+
      have small: "unat (e - ?j) < 256" using block_same [OF z rn(2)] same lat(2) by simp
      have "t \<in> set (cascaded hp ?j L)" using True stay by (simp add: cascaded_def)
      then have put: "t \<in> set (tick_slots hp ?j L l i)" if "calc_index e ?j = (l, i)" for l i
        using that ne [OF ex] by (simp add: in_tick_slots)
      have "due_in (tick_slots hp ?j L) e ?j t n"
      proof (cases "unat (e - ?j) = 0")
        case True
        then have ej: "e = ?j" by (simp add: unat_eq_0)
        have "t \<in> set (tick_slots hp ?j L 0 (e AND 255))" by (rule put) (simp add: ej calc_index_now)
        moreover have ze: "unat e mod 256 = 0" using z ej by simp
        moreover have "turns (unat (e AND 255)) (unat ?j) = 256" unfolding mask_byte ze using z by (simp add: turns_def)
        moreover have "unat (e AND 255) < 256" unfolding mask_byte by simp
        moreover have "n = 256" using rn(1) True ze by simp
        ultimately show ?thesis unfolding due_in_def by metis
      next
        case nz: False
        obtain l i where li: "calc_index e ?j = (l, i)" by (cases "calc_index e ?j")
        have "(unat ?j + unat (e - ?j)) mod 256 = unat (e - ?j)" using z small by (simp add: mod_add_left_eq [symmetric, of "unat ?j"])
        then have "unat e mod 256 \<noteq> 0" using lat(1) nz by simp
        then have "n = unat (e - ?j)" using rn by simp
        then show ?thesis using calc_index_near [of e ?j l i t "tick_slots hp ?j L"] rn(2) li put [OF li] nz small by simp
      qed
      then show ?thesis using ex np0 by blast
    qed
  qed
qed

section \<open>Runs\<close>

datatype wheel_op = Tick | Add taddr u64 nat nat bool

text \<open>Timers are added only while they are not pending: \<open>timer_add\<close> clears the links of the timer.\<close>

inductive wheel_step :: "wheel_op \<Rightarrow> timer_wheel \<Rightarrow> timer_wheel \<Rightarrow> bool" where
  tick: "wheel_tick s = Some s' \<Longrightarrow> wheel_step Tick s s'"
| add: "\<not> timer_pending (Some t) s \<Longrightarrow>
    (if oneshot then timer_add_oneshot else timer_add) (Some t) ms (Some c) a s = Some (r, s') \<Longrightarrow>
    wheel_step (Add t ms c a oneshot) s s'"

inductive_cases tick_step: "wheel_step Tick s s'"
inductive_cases add_step: "wheel_step (Add t ms c a oneshot) s s'"

inductive wheel_steps :: "wheel_op list \<Rightarrow> timer_wheel \<Rightarrow> timer_wheel \<Rightarrow> bool" where
  none: "wheel_steps [] s s"
| more: "wheel_step x s s1 \<Longrightarrow> wheel_steps xs s1 s' \<Longrightarrow> wheel_steps (x # xs) s s'"

definition wheel_reach :: "timer_wheel \<Rightarrow> bool" where
  "wheel_reach s \<longleftrightarrow> (\<exists>xs s0. wheel_steps xs (timer_wheel_init s0) s)"

definition active_only :: "slots \<Rightarrow> timer_wheel \<Rightarrow> bool" where
  "active_only L s \<longleftrightarrow> (\<forall>x. in_slots L x \<longrightarrow> te_state (tw_heap s x) = TIMER_ACTIVE)"

definition wheel_inv :: "slots \<Rightarrow> timer_wheel \<Rightarrow> bool" where
  "wheel_inv L s \<longleftrightarrow> wheel_ok L s \<and> active_only L s"

lemma inv_init: "wheel_inv (\<lambda>_ _. []) (timer_wheel_init s)"
  by (simp add: wheel_inv_def wheel_ok_def active_only_def slot_ok_def one_slot_def in_slots_def timer_wheel_init_def)

lemma not_pending: "wheel_inv L s \<Longrightarrow> \<not> timer_pending (Some t) s \<Longrightarrow> \<not> in_slots L t"
  by (auto simp: wheel_inv_def active_only_def timer_pending_def)

lemma in_slots_tick: "in_slots (tick_slots hp j L) x \<Longrightarrow> in_slots L x"
  using not_in_tick_slots by blast

lemma tick_inv:
  assumes "wheel_inv L s" and "wheel_tick s = Some s'"
  shows "wheel_inv (tick_slots (tw_heap s) (tw_jiffies s + 1) L) s' \<and> tw_jiffies s' = tw_jiffies s + 1 \<and>
    tw_called s' = tw_called s @ calls_of (tw_jiffies s + 1) (tw_heap s) (expiring (tw_jiffies s + 1) L) \<and>
    (\<forall>x. same_owner (tw_heap s' x) (tw_heap s x)) \<and>
    (\<forall>x. te_expires (tw_heap s' x) = new_expires (tw_heap s) (tw_jiffies s + 1) L x)"
proof -
  let ?hp = "tw_heap s" and ?j = "tw_jiffies s + 1"
  have w: "wheel_ok L s" using assms(1) by (simp add: wheel_inv_def)
  from wheel_tick_ok [OF w] assms(2) have t: "wheel_ok (tick_slots ?hp ?j L) s'" "tw_jiffies s' = ?j"
    "tw_called s' = tw_called s @ calls_of ?j ?hp (expiring ?j L)" "\<forall>x. same_owner (tw_heap s' x) (?hp x)"
    "\<forall>x. te_expires (tw_heap s' x) = new_expires ?hp ?j L x"
    "\<And>x. te_state (tw_heap s' x) = (if x \<in> set (cascaded ?hp ?j L) then 1
        else if x \<in> set (expiring ?j L) then if periodic (?hp x) then 1 else 2 else te_state (?hp x))" by auto
  have "te_state (tw_heap s' x) = 1" if x: "in_slots (tick_slots ?hp ?j L) x" for x
  proof -
    have "te_state (?hp x) = 1" using in_slots_tick [OF x] assms(1) by (simp add: wheel_inv_def active_only_def)
    moreover have "periodic (?hp x)" if "x \<in> set (expiring ?j L)"
      using fired_leaves [OF _ that] x w unfolding wheel_ok_def by blast
    ultimately show ?thesis using t(6) [of x] by simp
  qed
  with t show ?thesis by (simp add: wheel_inv_def active_only_def)
qed

lemma upd_flags_ok: "wheel_ok L (upd_timer t (\<lambda>e. e\<lparr>te_flags := f e\<rparr>) s) = wheel_ok L s"
  by (auto intro: wheel_ok_cong)

lemma add_inv_wheel:
  assumes "wheel_inv L s" and "\<not> timer_pending (Some t) s"
  shows "\<exists>s'. (if oneshot then timer_add_oneshot else timer_add) (Some t) ms (Some c) a s = Some (0, s') \<and>
    wheel_inv (append_to (calc_index (tw_jiffies s + timer_ms_to_jiffies ms) (tw_jiffies s)) t L) s' \<and>
    tw_jiffies s' = tw_jiffies s \<and> tw_called s' = tw_called s \<and>
    setting (tw_heap s' t) = (tw_jiffies s + timer_ms_to_jiffies ms, Some c, a, (if oneshot then 1 else 0)) \<and>
    (\<forall>x. x \<noteq> t \<longrightarrow> setting (tw_heap s' x) = setting (tw_heap s x))"
proof -
  let ?L = "append_to (calc_index (tw_jiffies s + timer_ms_to_jiffies ms) (tw_jiffies s)) t L"
  have w: "wheel_ok L s" using assms(1) by (simp add: wheel_inv_def)
  note nt = not_pending [OF assms]
  from timer_add_ok [OF w nt, of ms c a] obtain s' where s': "timer_add (Some t) ms (Some c) a s = Some (0, s')"
    "wheel_ok ?L s'" "tw_jiffies s' = tw_jiffies s" "tw_called s' = tw_called s"
    "setting (tw_heap s' t) = (tw_jiffies s + timer_ms_to_jiffies ms, Some c, a, 0)"
    "\<And>x. x \<noteq> t \<Longrightarrow> setting (tw_heap s' x) = setting (tw_heap s x)"
    "te_state (tw_heap s' t) = 1" "\<And>x. x \<noteq> t \<Longrightarrow> te_state (tw_heap s' x) = te_state (tw_heap s x)" by blast
  have ac: "active_only ?L s'" unfolding active_only_def
  proof (intro allI impI)
    fix x assume "in_slots ?L x"
    then have "x = t \<or> in_slots L x" unfolding in_slots_def in_append_to by blast
    then show "te_state (tw_heap s' x) = 1" using s'(7,8) assms(1) by (cases "x = t") (auto simp: wheel_inv_def active_only_def)
  qed
  show ?thesis
  proof (cases oneshot)
    case False
    then show ?thesis using s'(1-6) ac by (auto simp: wheel_inv_def)
  next
    case True
    let ?s = "upd_timer t (\<lambda>e. e\<lparr>te_flags := te_flags e OR 1\<rparr>) s'"
    have "timer_add_oneshot (Some t) ms (Some c) a s = Some (0, ?s)" using s'(1) by (simp add: timer_add_oneshot_def)
    moreover have "wheel_inv ?L ?s" using s'(2) ac by (auto simp: wheel_inv_def upd_flags_ok active_only_def)
    moreover have "setting (tw_heap ?s t) = (tw_jiffies s + timer_ms_to_jiffies ms, Some c, a, 1)"
      using s'(5) by (simp add: setting_def)
    moreover have "setting (tw_heap ?s x) = setting (tw_heap s x)" if "x \<noteq> t" for x using s'(6) [OF that] that by simp
    ultimately show ?thesis using True s'(3,4) by auto
  qed
qed

text \<open>What one step does to the slots.\<close>

lemma step_inv:
  assumes "wheel_step x s s'" and "wheel_inv L s"
  shows "\<exists>L'. wheel_inv L' s'"
  using assms
proof (cases rule: wheel_step.cases)
  case tick
  then show ?thesis using tick_inv [OF assms(2)] by blast
next
  case (add t oneshot ms c a r)
  then show ?thesis using add_inv_wheel [OF assms(2) add(2), of oneshot ms c a] by force
qed

lemma steps_inv: "wheel_steps xs s s' \<Longrightarrow> wheel_inv L s \<Longrightarrow> \<exists>L'. wheel_inv L' s'"
  by (induction arbitrary: L rule: wheel_steps.induct) (blast dest: step_inv)+

lemma reach_wheel_inv: "wheel_reach s \<Longrightarrow> \<exists>L. wheel_inv L s"
  unfolding wheel_reach_def using steps_inv inv_init by blast

end
