(* ===== verification/TimerFires.thy ===== *)
theory TimerFires
  imports TimerRuns
begin

text \<open>The theorems on the timer wheel and on \<open>msleep\<close>.\<close>

section \<open>Following a timer\<close>

definition calls_to :: "taddr \<Rightarrow> (u64 \<times> taddr \<times> nat \<times> nat) list \<Rightarrow> (u64 \<times> taddr \<times> nat \<times> nat) list" where
  "calls_to t cs = filter (\<lambda>c. fst (snd c) = t) cs"

fun adds :: "taddr \<Rightarrow> wheel_op \<Rightarrow> bool" where
  "adds t Tick = False"
| "adds t (Add u ms c a oneshot) = (u = t)"

definition ticks :: "wheel_op list \<Rightarrow> nat" where
  "ticks xs = length (filter (\<lambda>x. x = Tick) xs)"

lemma ticks_simps [simp]: "ticks [] = 0" "ticks (Tick # xs) = Suc (ticks xs)" "ticks (Add t ms c a os # xs) = ticks xs"
  by (simp_all add: ticks_def)

lemma calls_to_append [simp]: "calls_to t (cs @ ds) = calls_to t cs @ calls_to t ds"
  by (simp add: calls_to_def)

lemma calls_to_calls_of:
  assumes "distinct xs"
  shows "calls_to t (calls_of j hp xs) =
    (if t \<in> set xs \<and> te_callback (hp t) \<noteq> None then [(j, t, the (te_callback (hp t)), te_arg (hp t))] else [])"
  using assms by (induction xs) (auto simp: calls_of_def calls_to_def)

lemma expiring_distinct: "wheel_inv L s \<Longrightarrow> distinct (expiring j L)"
  by (simp add: wheel_inv_def wheel_ok_def slot_ok_def expiring_def)

text \<open>A timer that is in no slot is not called.\<close>

lemma gone_step:
  assumes "wheel_step x s s'" and "wheel_inv L s" and "\<not> in_slots L t" and "\<not> adds t x"
  shows "\<exists>L'. wheel_inv L' s' \<and> \<not> in_slots L' t \<and> calls_to t (tw_called s') = calls_to t (tw_called s)"
  using assms(1)
proof (cases rule: wheel_step.cases)
  case tick
  note i = tick_inv [OF assms(2) tick(2)]
  have "\<not> in_slots (tick_slots (tw_heap s) (tw_jiffies s + 1) L) t" "t \<notin> set (expiring (tw_jiffies s + 1) L)"
    using not_in_tick_slots [OF assms(3)] by blast+
  with i show ?thesis using calls_to_calls_of [OF expiring_distinct [OF assms(2)]] by fastforce
next
  case (add u oneshot ms c a r)
  then have "u \<noteq> t" using assms(4) by auto
  obtain s2 where s2: "(if oneshot then timer_add_oneshot else timer_add) (Some u) ms (Some c) a s = Some (0, s2)"
    "wheel_inv (append_to (calc_index (tw_jiffies s + timer_ms_to_jiffies ms) (tw_jiffies s)) u L) s2" "tw_called s2 = tw_called s"
    using add_inv_wheel [OF assms(2) add(2), of oneshot ms c a] by blast
  then have "s2 = s'" using add(3) by simp
  moreover have "\<not> in_slots (append_to (calc_index (tw_jiffies s + timer_ms_to_jiffies ms) (tw_jiffies s)) u L) t"
    using assms(3) \<open>u \<noteq> t\<close> by (simp add: in_slots_def in_append_to)
  ultimately show ?thesis using s2 by auto
qed

lemma gone_steps:
  assumes "wheel_steps xs s s'" and "wheel_inv L s" and "\<not> in_slots L t" and "\<forall>x\<in>set xs. \<not> adds t x"
  shows "calls_to t (tw_called s') = calls_to t (tw_called s)"
  using assms
proof (induction arbitrary: L rule: wheel_steps.induct)
  case (more x s s1 xs s')
  then have "\<not> adds t x" by simp
  from gone_step [OF more.hyps(1) more.prems(1,2) this] more.IH more.prems(3) show ?case by force
qed simp

definition waits :: "slots \<Rightarrow> timer_wheel \<Rightarrow> taddr \<Rightarrow> u64 \<Rightarrow> nat \<Rightarrow> nat \<Rightarrow> nat \<Rightarrow> bool" where
  "waits L s t e c a n \<longleftrightarrow> wheel_inv L s \<and> due_in L e (tw_jiffies s) t n \<and> te_expires (tw_heap s t) = e \<and> \<not> periodic (tw_heap s t) \<and>
     te_callback (tw_heap s t) = Some c \<and> te_arg (tw_heap s t) = a"

lemma waits_tick:
  assumes "wheel_tick s = Some s'" and "waits L s t e c a (Suc n)"
  shows "\<exists>L'. wheel_inv L' s' \<and> tw_jiffies s' = tw_jiffies s + 1 \<and>
    (0 < n \<longrightarrow> waits L' s' t e c a n \<and> calls_to t (tw_called s') = calls_to t (tw_called s)) \<and>
    (n = 0 \<longrightarrow> \<not> in_slots L' t \<and> calls_to t (tw_called s') = calls_to t (tw_called s) @ [(tw_jiffies s + 1, t, c, a)])"
proof -
  let ?j = "tw_jiffies s + 1" and ?hp = "tw_heap s"
  let ?L = "tick_slots ?hp ?j L"
  have i: "wheel_inv L s" and one: "one_slot L" and d: "due_in L e (tw_jiffies s) t (Suc n)" and x: "te_expires (?hp t) = e"
    and np: "\<not> periodic (?hp t)" and cb: "te_callback (?hp t) = Some c" "te_arg (?hp t) = a"
    using assms(2) by (auto simp: waits_def wheel_inv_def wheel_ok_def)
  note k = tick_inv [OF i assms(1)]
  have due: "(n = 0 \<longrightarrow> t \<in> set (expiring ?j L)) \<and> (0 < n \<longrightarrow> t \<notin> set (expiring ?j L) \<and> due_in ?L e ?j t n)"
    using due_tick [of L ?hp t e "tw_jiffies s" n] one np x d by blast
  note cs = calls_to_calls_of [OF expiring_distinct [OF i], of t ?j ?hp ?j]
  have so: "same_owner (tw_heap s' t) (?hp t)" using k by blast
  have "te_expires (tw_heap s' t) = e" using k np x by (simp add: new_expires_def renewed_def)
  then have "waits ?L s' t e c a n" if "due_in ?L e ?j t n"
    using that k so cb np same_owner_periodic [OF so] by (simp add: waits_def same_owner_def)
  then show ?thesis using k due cs cb fired_leaves [of L t ?j ?hp] one np by fastforce
qed

lemma waits_add:
  assumes "wheel_step (Add u ms c' a' os) s s'" and "waits L s t e c a n" and "u \<noteq> t"
  shows "\<exists>L'. waits L' s' t e c a n \<and> tw_jiffies s' = tw_jiffies s \<and> tw_called s' = tw_called s"
proof -
  from assms(1) obtain r where p: "\<not> timer_pending (Some u) s"
    and r: "(if os then timer_add_oneshot else timer_add) (Some u) ms (Some c') a' s = Some (r, s')"
    by (cases rule: wheel_step.cases) auto
  have i: "wheel_inv L s" using assms(2) by (simp add: waits_def)
  let ?L = "append_to (calc_index (tw_jiffies s + timer_ms_to_jiffies ms) (tw_jiffies s)) u L"
  from add_inv_wheel [OF i p, of os ms c' a'] r have s': "wheel_inv ?L s'" "tw_jiffies s' = tw_jiffies s" "tw_called s' = tw_called s"
    "setting (tw_heap s' t) = setting (tw_heap s t)" using assms(3) by auto
  have "due_in ?L e (tw_jiffies s) t n" using assms(2) unfolding waits_def due_in_def in_append_to by blast
  then have "waits ?L s' t e c a n" using assms(2) s' by (simp add: waits_def periodic_def)
  then show ?thesis using s' by blast
qed

lemma waits_steps:
  assumes "wheel_steps xs s s'" and "waits L s t e c a n" and "0 < n" and "\<forall>x\<in>set xs. \<not> adds t x"
  shows "calls_to t (tw_called s') =
    calls_to t (tw_called s) @ (if n \<le> ticks xs then [(tw_jiffies s + of_nat n, t, c, a)] else [])"
  using assms
proof (induction arbitrary: L n rule: wheel_steps.induct)
  case (none s)
  then show ?case by simp
next
  case (more x s s1 xs s')
  show ?case
  proof (cases x)
    case Tick
    then have tk: "wheel_tick s = Some s1" using more.hyps(1) by (auto elim: tick_step)
    obtain m where n: "n = Suc m" using more.prems(2) by (cases n) auto
    from waits_tick [OF tk more.prems(1) [unfolded n]] obtain L' where L': "wheel_inv L' s1" "tw_jiffies s1 = tw_jiffies s + 1"
      "0 < m \<Longrightarrow> waits L' s1 t e c a m \<and> calls_to t (tw_called s1) = calls_to t (tw_called s)"
      "m = 0 \<Longrightarrow> \<not> in_slots L' t \<and> calls_to t (tw_called s1) = calls_to t (tw_called s) @ [(tw_jiffies s + 1, t, c, a)]" by auto
    show ?thesis
    proof (cases "m = 0")
      case True
      then show ?thesis using gone_steps [OF more.hyps(2) L'(1)] L'(4) more.prems(3) Tick n by simp
    next
      case False
      then show ?thesis using more.IH [of L' m] L' more.prems(3) Tick n by (simp add: add.assoc)
    qed
  next
    case (Add u ms c' a' os)
    then have "u \<noteq> t" using more.prems(3) by auto
    from waits_add [OF more.hyps(1) [unfolded Add] more.prems(1) this] obtain L' where
      "waits L' s1 t e c a n" "tw_jiffies s1 = tw_jiffies s" "tw_called s1 = tw_called s" by blast
    with more.IH [of L' n] more.prems(2,3) Add show ?thesis by simp
  qed
qed

lemma ms_to_jiffies: "timer_ms_to_jiffies ms = (if ms = 0 then 1 else ms)"
  by (simp add: timer_ms_to_jiffies_def)

text \<open>A wheel before its initialisation.\<close>

definition wheel_blank :: timer_wheel where
  "wheel_blank = \<lparr>tw_lists = (\<lambda>_ _. None), tw_jiffies = 0, tw_next_expire = 0,
     tw_heap = (\<lambda>_. \<lparr>te_next = None, te_prev = None, te_expires = 0, te_callback = None, te_arg = 0, te_state = 0, te_flags = 0\<rparr>),
     tw_called = []\<rparr>"

section \<open>The theorems\<close>

text \<open>
  C21. The timer wheel never dereferences \<open>NULL\<close> and no loop of a tick runs for ever, as long as timers are only added: in every state
  that additions of timers that are not pending and ticks reach, the next tick and the next such addition return.
\<close>

theorem wheel_never_faults:
  assumes "wheel_reach s"
  shows "(\<exists>s'. wheel_tick s = Some s') \<and>
    (\<not> timer_pending (Some t) s \<longrightarrow> (\<exists>s'. timer_add (Some t) ms (Some c) a s = Some (0, s')) \<and>
      (\<exists>s'. timer_add_oneshot (Some t) ms (Some c) a s = Some (0, s')))"
proof -
  from reach_wheel_inv [OF assms] obtain L where L: "wheel_inv L s" by blast
  then have "\<exists>s'. wheel_tick s = Some s'" using wheel_tick_ok [of L s] unfolding wheel_inv_def by blast
  then show ?thesis using add_inv_wheel [OF L, of t False ms c a] add_inv_wheel [OF L, of t True ms c a] by auto
qed

theorem wheel_never_faults_witness:
  "\<forall>s0. \<exists>s'. wheel_tick (timer_wheel_init s0) = Some s'"
proof
  fix s0
  have "wheel_reach (timer_wheel_init s0)" unfolding wheel_reach_def by (blast intro: wheel_steps.none)
  from wheel_never_faults [OF this] show "\<exists>s'. wheel_tick (timer_wheel_init s0) = Some s'" by blast
qed

text \<open>
  C22. A one-shot timer of less than 65536 milliseconds fires exactly once and, whatever other timers are added meanwhile, after as
  many ticks as it was set for (one tick for 0), except that one that is set for 256 or more and expires at a
  multiple of 256 fires 256 ticks too late.
\<close>

theorem oneshot_fires:
  assumes "wheel_reach s" and "\<not> timer_pending (Some t) s" and "ms < 65536"
    and "timer_add_oneshot (Some t) ms (Some c) a s = Some (0, s1)"
    and "wheel_steps xs s1 s2" and "\<forall>x\<in>set xs. \<not> adds t x"
    and "n = (if ms = 0 then 1 else unat ms) + (if 256 \<le> ms \<and> (tw_jiffies s + ms) AND 255 = 0 then 256 else 0)"
  shows "calls_to t (tw_called s2) =
    calls_to t (tw_called s) @ (if n \<le> ticks xs then [(tw_jiffies s + of_nat n, t, c, a)] else [])"
proof -
  from reach_wheel_inv [OF assms(1)] obtain L where L: "wheel_inv L s" by blast
  let ?d = "timer_ms_to_jiffies ms"
  let ?e = "tw_jiffies s + ?d"
  obtain l i where li: "calc_index ?e (tw_jiffies s) = (l, i)" by (cases "calc_index ?e (tw_jiffies s)")
  let ?L = "append_to (l, i) t L"
  from add_inv_wheel [OF L assms(2), of True ms c a] assms(4) have s1: "wheel_inv ?L s1" "tw_jiffies s1 = tw_jiffies s"
    "tw_called s1 = tw_called s" "setting (tw_heap s1 t) = (?e, Some c, a, 1)" unfolding li by auto
  have dd: "?e - tw_jiffies s = ?d" by simp
  have d: "0 < unat ?d" "unat ?d < 65536" using assms(3) by (auto simp: ms_to_jiffies unat_gt_0 word_less_nat_alt)
  have "t \<in> set (?L l i)" by (simp add: in_append_to)
  from calc_index_near [of ?e "tw_jiffies s" l i t ?L, unfolded dd, OF d li this] have "due_in ?L ?e (tw_jiffies s) t
    (unat ?d + (if 256 \<le> unat ?d \<and> unat ?e mod 256 = 0 then 256 else 0))" .
  moreover have "unat ?d + (if 256 \<le> unat ?d \<and> unat ?e mod 256 = 0 then 256 else 0) = n"
  proof -
    have "unat ?e mod 256 = 0 \<longleftrightarrow> ?e AND 255 = 0" unfolding word_unat_eq_iff mask_byte by simp
    then show ?thesis unfolding assms(7) by (auto simp: ms_to_jiffies word_le_nat_alt)
  qed
  ultimately have "waits ?L s1 t ?e c a n" using s1 by (simp add: waits_def setting_def periodic_def)
  moreover have "0 < n" unfolding assms(7) by (auto simp: unat_gt_0)
  ultimately show ?thesis using waits_steps [OF assms(5) _ _ assms(6)] s1(2,3) by metis
qed

theorem oneshot_fires_witness:
  "\<exists>s1 s2. timer_add_oneshot (Some 7) 1 (Some 3) 5 (timer_wheel_init wheel_blank) = Some (0, s1) \<and>
     wheel_steps [Tick, Tick] s1 s2 \<and> calls_to 7 (tw_called s2) = [(1, 7, 3, 5)]"
proof -
  let ?s = "timer_wheel_init wheel_blank"
  have r: "wheel_reach ?s" unfolding wheel_reach_def by (blast intro: wheel_steps.none)
  have p: "\<not> timer_pending (Some 7) ?s" by (simp add: timer_pending_def timer_wheel_init_def wheel_blank_def)
  from add_inv_wheel [OF inv_init p, of True 1 3 5] obtain s1 L1 where s1:
    "timer_add_oneshot (Some 7) 1 (Some 3) 5 ?s = Some (0, s1)" "wheel_inv L1 s1" by auto
  from wheel_tick_ok [of L1 s1] s1(2) obtain s2 where s2: "wheel_tick s1 = Some s2" unfolding wheel_inv_def by blast
  from tick_inv [OF s1(2) s2] obtain L2 where "wheel_inv L2 s2" by blast
  then obtain s3 where s3: "wheel_tick s2 = Some s3" using wheel_tick_ok [of L2 s2] unfolding wheel_inv_def by blast
  have st: "wheel_steps [Tick, Tick] s1 s3"
    by (rule wheel_steps.more [OF wheel_step.tick [OF s2] wheel_steps.more [OF wheel_step.tick [OF s3] wheel_steps.none]])
  from oneshot_fires [OF r p _ s1(1) st _ refl] have "calls_to 7 (tw_called s3) = [(1, 7, 3, 5)]"
    by (simp add: timer_wheel_init_def wheel_blank_def calls_to_def)
  with s1(1) st show ?thesis by blast
qed

lemma far_tick:
  assumes "t \<in> set (L l i)" and "2 \<le> l"
  shows "t \<in> set (tick_slots hp j L l i)"
  using assms by (simp add: in_tick_slots in_expired_slots)

lemma far_step:
  assumes "wheel_step x s s'" and "wheel_inv L s" and "t \<in> set (L l i)" and "2 \<le> l" and "\<not> adds t x"
  shows "\<exists>L'. wheel_inv L' s' \<and> t \<in> set (L' l i) \<and> calls_to t (tw_called s') = calls_to t (tw_called s)"
  using assms(1)
proof (cases rule: wheel_step.cases)
  case tick
  note k = tick_inv [OF assms(2) tick(2)]
  have "one_slot L" using assms(2) by (simp add: wheel_inv_def wheel_ok_def)
  then have "t \<notin> set (expiring (tw_jiffies s + 1) L)" using assms(3,4) unfolding one_slot_def expiring_def
    by (metis not_numeral_le_zero)
  then show ?thesis using k far_tick [of t L l i "tw_heap s" "tw_jiffies s + 1"] assms(3,4) calls_to_calls_of [OF expiring_distinct [OF assms(2)]] by fastforce
next
  case (add u oneshot ms c a r)
  from add_inv_wheel [OF assms(2) add(2), of oneshot ms c a] add(3)
  have "wheel_inv (append_to (calc_index (tw_jiffies s + timer_ms_to_jiffies ms) (tw_jiffies s)) u L) s'" "tw_called s' = tw_called s"
    by auto
  then show ?thesis using assms(3) in_append_to by metis
qed

lemma far_steps:
  assumes "wheel_steps xs s s'" and "wheel_inv L s" and "t \<in> set (L l i)" and "2 \<le> l" and "\<forall>x\<in>set xs. \<not> adds t x"
  shows "calls_to t (tw_called s') = calls_to t (tw_called s)"
  using assms
proof (induction arbitrary: L rule: wheel_steps.induct)
  case (more x s s1 xs s')
  then have "\<not> adds t x" by simp
  from far_step [OF more.hyps(1) more.prems(1-3) this] more.IH more.prems(3,4) show ?case by force
qed simp

text \<open>
  A timer that is set for 65536 milliseconds or more never fires, however many ticks follow: only the first of the three upper
  levels of the wheel is ever emptied.
\<close>

theorem long_timer_never_fires:
  assumes "wheel_reach s" and "\<not> timer_pending (Some t) s" and "65536 \<le> ms"
    and "timer_add_oneshot (Some t) ms (Some c) a s = Some (0, s1)"
    and "wheel_steps xs s1 s2" and "\<forall>x\<in>set xs. \<not> adds t x"
  shows "calls_to t (tw_called s2) = calls_to t (tw_called s)"
proof -
  from reach_wheel_inv [OF assms(1)] obtain L where L: "wheel_inv L s" by blast
  let ?e = "tw_jiffies s + timer_ms_to_jiffies ms"
  obtain l i where li: "calc_index ?e (tw_jiffies s) = (l, i)" by (cases "calc_index ?e (tw_jiffies s)")
  from add_inv_wheel [OF L assms(2), of True ms c a] assms(4) have s1: "wheel_inv (append_to (l, i) t L) s1"
    "tw_called s1 = tw_called s" unfolding li by auto
  have "timer_ms_to_jiffies ms = ms" using assms(3) by (auto simp: ms_to_jiffies)
  moreover have "\<not> ms < 256" "\<not> ms < 65536" using assms(3) by (simp_all add: not_less order_trans [of 256 65536])
  ultimately have "2 \<le> l" using li by (auto simp: calc_index_def calc_level_def Let_def split: if_splits)
  moreover have "t \<in> set (append_to (l, i) t L l i)" by (simp add: in_append_to)
  ultimately show ?thesis using far_steps [OF assms(5) s1(1) _ _ assms(6)] s1(2) by metis
qed

theorem long_timer_never_fires_witness:
  "\<exists>s1 s2. timer_add_oneshot (Some 7) 65536 (Some 3) 5 (timer_wheel_init wheel_blank) = Some (0, s1) \<and>
     wheel_steps [Tick] s1 s2 \<and> calls_to 7 (tw_called s2) = []"
proof -
  let ?s = "timer_wheel_init wheel_blank"
  have r: "wheel_reach ?s" unfolding wheel_reach_def by (blast intro: wheel_steps.none)
  have p: "\<not> timer_pending (Some 7) ?s" by (simp add: timer_pending_def timer_wheel_init_def wheel_blank_def)
  from add_inv_wheel [OF inv_init p, of True 65536 3 5] obtain s1 L1 where s1:
    "timer_add_oneshot (Some 7) 65536 (Some 3) 5 ?s = Some (0, s1)" "wheel_inv L1 s1" by auto
  from wheel_tick_ok [of L1 s1] s1(2) obtain s2 where s2: "wheel_tick s1 = Some s2" unfolding wheel_inv_def by blast
  have st: "wheel_steps [Tick] s1 s2" by (rule wheel_steps.more [OF wheel_step.tick [OF s2] wheel_steps.none])
  from long_timer_never_fires [OF r p _ s1(1) st] have "calls_to 7 (tw_called s2) = []"
    by (simp add: timer_wheel_init_def wheel_blank_def calls_to_def)
  with s1(1) st show ?thesis by blast
qed

lemma add_last:
  assumes "wheel_inv L s" and "\<not> timer_pending (Some t) s" and "timer_add (Some t) ms (Some c) a s = Some (0, s1)"
  shows "te_next (tw_heap s1 t) = None \<and> te_state (tw_heap s1 t) = 1"
proof -
  note nt = not_pending [OF assms(1,2)]
  let ?li = "calc_index (tw_jiffies s + timer_ms_to_jiffies ms) (tw_jiffies s)"
  from timer_add_ok [OF _ nt, of s ms c a] assms(1,3) have w: "wheel_ok (append_to ?li t L) s1" and st: "te_state (tw_heap s1 t) = 1"
    by (auto simp: wheel_inv_def)
  have "chained hp h (ys @ [t]) \<Longrightarrow> te_next (hp t) = None" for hp h ys
    by (induction ys arbitrary: h) auto
  moreover have "slot_ok (tw_heap s1) (tw_lists s1 (fst ?li) (snd ?li)) (L (fst ?li) (snd ?li) @ [t])"
    using w unfolding wheel_ok_def append_to_def by (metis set_list_apply)
  ultimately show ?thesis using st unfolding slot_ok_def by blast
qed

text \<open>
  Cancelling a timer right after it was set always dereferences \<open>NULL\<close>: \<open>__timer_dequeue\<close> takes a list for a circular one,
  but the last timer of a list has no next one.
\<close>

theorem timer_del_faults:
  assumes "wheel_reach s" and "\<not> timer_pending (Some t) s" and "timer_add (Some t) ms (Some c) a s = Some (0, s1)"
  shows "timer_pending (Some t) s1 \<and> timer_del (Some t) s1 = None"
proof -
  from reach_wheel_inv [OF assms(1)] obtain L where "wheel_inv L s" by blast
  note l = add_last [OF this assms(2,3)]
  have "timer_dequeue t s1 = None"
  proof (cases "te_prev (tw_heap s1 t)")
    case None
    then show ?thesis using l by (simp add: timer_dequeue_def)
  next
    case (Some p)
    have "te_next (tw_heap (upd_timer p (\<lambda>e. e\<lparr>te_next := None\<rparr>) s1) t) = None" using l by simp
    then show ?thesis using l Some by (simp add: timer_dequeue_def Let_def)
  qed
  with l show ?thesis by (simp add: timer_del_def timer_pending_def)
qed

theorem timer_del_faults_witness:
  "\<exists>s1. timer_add (Some 7) 20 (Some 3) 5 (timer_wheel_init wheel_blank) = Some (0, s1) \<and> timer_del (Some 7) s1 = None"
proof -
  let ?s = "timer_wheel_init wheel_blank"
  have r: "wheel_reach ?s" unfolding wheel_reach_def by (blast intro: wheel_steps.none)
  have p: "\<not> timer_pending (Some 7) ?s" by (simp add: timer_pending_def timer_wheel_init_def wheel_blank_def)
  from add_inv_wheel [OF inv_init p, of False 20 3 5] obtain s1 where
    "timer_add (Some 7) 20 (Some 3) 5 ?s = Some (0, s1)" by auto
  with timer_del_faults [OF r p this] show ?thesis by blast
qed

lemma msleep_loop_counts:
  "\<forall>i<n. js ! i < target \<Longrightarrow> n < length js \<Longrightarrow> target \<le> js ! n \<Longrightarrow> msleep_loop target js = Some n"
proof (induction js arbitrary: n)
  case (Cons j js)
  show ?case
  proof (cases n)
    case 0
    with Cons.prems show ?thesis by (simp add: not_less)
  next
    case (Suc m)
    have "\<forall>i<m. js ! i < target" using Cons.prems(1) Suc by (metis Suc_less_eq nth_Cons_Suc)
    then have "msleep_loop target js = Some m" using Cons.IH [of m] Cons.prems(2,3) Suc by simp
    moreover have "j < target" using Cons.prems(1) Suc by (metis nth_Cons_0 zero_less_Suc)
    ultimately show ?thesis using Suc by simp
  qed
qed simp

text \<open>
  \<open>msleep\<close> returns after exactly as many ticks as milliseconds, one for 0, when each halt lets one tick pass and the tick counter does
  not wrap.
\<close>

theorem msleep_waits:
  assumes "unat start + unat ms < 2 ^ 64 - 1"
  shows "msleep ms start (map (\<lambda>i. start + of_nat i) [0..<unat ms + 2]) = Some (if ms = 0 then 1 else unat ms)"
proof -
  let ?n = "if ms = 0 then 1 else unat ms"
  let ?js = "map (\<lambda>i. start + of_nat i) [0..<unat ms + 2] :: u64 list"
  have u: "unat (start + of_nat i) = unat start + i" if "i \<le> ?n" for i
  proof -
    have "unat (of_nat i :: u64) = i" using that assms by (simp add: unat_of_nat split: if_splits)
    then show ?thesis using that assms by (simp add: unat_word_ariths(1) split: if_splits)
  qed
  have t: "start + timer_ms_to_jiffies ms = start + of_nat ?n" by (simp add: ms_to_jiffies)
  have l: "?js ! i = start + of_nat i" if "i \<le> ?n" for i
  proof -
    have "i < length [0..<unat ms + 2]" using that by (auto split: if_splits)
    then show ?thesis by (simp only: nth_map length_upt nth_upt) simp
  qed
  have "msleep_loop (start + of_nat ?n) ?js = Some ?n"
  proof (rule msleep_loop_counts)
    show "\<forall>i<?n. ?js ! i < start + of_nat ?n"
      using u l by (simp add: word_less_nat_alt del: upt_Suc of_nat_add)
    show "?n < length ?js" by simp
    show "start + of_nat ?n \<le> ?js ! ?n" using l by simp
  qed
  then show ?thesis unfolding msleep_def t .
qed

theorem msleep_waits_witness: "msleep 2 5 [5, 6, 7, 8] = Some 2"
proof -
  have "unat (5 :: u64) + unat (2 :: u64) < 2 ^ 64 - 1" by simp
  moreover have "[0..<unat (2 :: u64) + 2] = [0, 1, 2, 3]" by code_simp
  ultimately show ?thesis using msleep_waits [of 5 2] by simp
qed

end
