(* ===== verification/TimerHr.thy ===== *)
theory TimerHr
  imports TimerWheel
begin

text \<open>The list of high resolution timers: sorted by expiry, as timers start, are cancelled and expire.\<close>

section \<open>The list\<close>

primrec hchain :: "(taddr \<Rightarrow> hrtimer_t) \<Rightarrow> taddr option \<Rightarrow> taddr list \<Rightarrow> bool" where
  "hchain hp h [] \<longleftrightarrow> h = None"
| "hchain hp h (x # xs) \<longleftrightarrow> h = Some x \<and> hchain hp (hr_next (hp x)) xs"

lemma hchain_cong: "(\<And>x. x \<in> set xs \<Longrightarrow> hr_next (hp' x) = hr_next (hp x)) \<Longrightarrow> hchain hp' h xs = hchain hp h xs"
  by (induction xs arbitrary: h) auto

lemma hchain_upd [simp]: "t \<notin> set xs \<Longrightarrow> hchain (hp(t := g)) h xs = hchain hp h xs"
  by (rule hchain_cong) auto

lemma hchain_insert:
  assumes "hchain hp h (us @ vs)" and "us \<noteq> []" and "distinct (us @ vs)" and "t \<notin> set (us @ vs)"
    and "hr_next (hp' (last us)) = Some t" and "hr_next (hp' t) = hr_next (hp (last us))"
    and "\<And>x. x \<in> set (us @ vs) \<Longrightarrow> x \<noteq> last us \<Longrightarrow> hr_next (hp' x) = hr_next (hp x)"
  shows "hchain hp' h (us @ t # vs)"
  using assms
proof (induction us arbitrary: h)
  case (Cons x us)
  show ?case
  proof (cases us)
    case Nil
    have "hchain hp' (hr_next (hp x)) vs = hchain hp (hr_next (hp x)) vs"
      by (rule hchain_cong) (use Cons.prems Nil in auto)
    then show ?thesis using Cons.prems Nil by simp
  next
    case (Cons y ys)
    then have "hchain hp' (hr_next (hp x)) (us @ t # vs)" by (intro Cons.IH) (use Cons.prems in auto)
    moreover have "x \<noteq> last us" using Cons.prems(3) Cons by auto
    ultimately show ?thesis using Cons.prems Cons by simp
  qed
qed simp

lemma hchain_remove:
  assumes "hchain hp h (us @ t # vs)" and "us \<noteq> []" and "distinct (us @ t # vs)"
    and "hr_next (hp' (last us)) = hr_next (hp t)"
    and "\<And>x. x \<in> set (us @ vs) \<Longrightarrow> x \<noteq> last us \<Longrightarrow> hr_next (hp' x) = hr_next (hp x)"
  shows "hchain hp' h (us @ vs)"
  using assms
proof (induction us arbitrary: h)
  case (Cons x us)
  show ?case
  proof (cases us)
    case Nil
    have "hchain hp' (hr_next (hp t)) vs = hchain hp (hr_next (hp t)) vs"
      by (rule hchain_cong) (use Cons.prems Nil in auto)
    then show ?thesis using Cons.prems Nil by simp
  next
    case (Cons y ys)
    then have "hchain hp' (hr_next (hp x)) (us @ vs)" by (intro Cons.IH) (use Cons.prems in auto)
    moreover have "x \<noteq> last us" using Cons.prems(3) Cons by auto
    ultimately show ?thesis using Cons.prems Cons by simp
  qed
qed simp

definition link_after :: "hr_link \<Rightarrow> taddr list \<Rightarrow> hr_link" where
  "link_after l us = (if us = [] then l else Some (last us))"

lemma hr_seek_chain:
  "hchain (hs_heap s) (hr_get l s) xs \<Longrightarrow>
     hr_seek e l s = Some (link_after l (takeWhile (\<lambda>x. hr_expire_ns (hs_heap s x) < e) xs))"
proof (induction xs arbitrary: l)
  case Nil
  then show ?case by (subst hr_seek.simps) (simp add: link_after_def)
next
  case (Cons x xs)
  have "hr_get (Some x) s = hr_next (hs_heap s x)" by (simp add: hr_get_def)
  with Cons have i: "hr_seek e (Some x) s = Some (link_after (Some x) (takeWhile (\<lambda>x. hr_expire_ns (hs_heap s x) < e) xs))" by simp
  show ?case using Cons.prems i by (subst hr_seek.simps) (simp add: link_after_def)
qed

definition due_at :: "hr_state \<Rightarrow> taddr \<Rightarrow> u64" where
  "due_at s t = hr_expire_ns (hs_heap s t)"

text \<open>The timers of the list, in order of expiry; all are one-shot, as \<open>hrtimer_start\<close> makes them.\<close>

definition hr_inv :: "hr_state \<Rightarrow> taddr list \<Rightarrow> bool" where
  "hr_inv s xs \<longleftrightarrow> hchain (hs_heap s) (hs_head s) xs \<and> distinct xs \<and> sorted (map (due_at s) xs) \<and>
     (\<forall>t\<in>set xs. hr_oneshot (hs_heap s t) \<and> hr_active (hs_heap s t) \<and> hr_callback (hs_heap s t) \<noteq> None)"

lemma hs_frames [simp]:
  "hs_heap (upd_hr t f s) = (hs_heap s)(t := f (hs_heap s t))" "hs_head (upd_hr t f s) = hs_head s"
  by (simp_all add: upd_hr_def)

lemma hr_put_heap:
  "hs_heap (hr_put l v s) = (case l of None \<Rightarrow> hs_heap s | Some t \<Rightarrow> (hs_heap s)(t := (hs_heap s t)\<lparr>hr_next := v\<rparr>))"
  "hs_head (hr_put l v s) = (case l of None \<Rightarrow> v | Some t \<Rightarrow> hs_head s)"
  by (simp_all add: hr_put_def split: option.split)

section \<open>Starting\<close>

lemma hr_insert_ok:
  assumes c: "hchain (hs_heap s) (hs_head s) xs" and d: "distinct xs" and t: "t \<notin> set xs"
  shows "\<exists>s'. hr_insert t s = Some s' \<and>
    hchain (hs_heap s') (hs_head s') (takeWhile (\<lambda>x. due_at s x < due_at s t) xs @ t # dropWhile (\<lambda>x. due_at s x < due_at s t) xs) \<and>
    (\<forall>x. \<exists>n. hs_heap s' x = (hs_heap s x)\<lparr>hr_next := n\<rparr>)"
proof -
  let ?P = "\<lambda>x. due_at s x < due_at s t"
  let ?us = "takeWhile ?P xs" and ?vs = "dropWhile ?P xs"
  let ?l = "link_after None ?us"
  have sk: "hr_seek (hr_expire_ns (hs_heap s t)) None s = Some ?l"
    using hr_seek_chain [of s None xs "due_at s t"] c by (simp add: hr_get_def due_at_def)
  let ?s1 = "upd_hr t (\<lambda>e. e\<lparr>hr_next := hr_get ?l s\<rparr>) s"
  let ?s' = "hr_put ?l (Some t) ?s1"
  have e: "hr_insert t s = Some ?s'" using sk by (simp add: hr_insert_def)
  have uv: "xs = ?us @ ?vs" by simp
  have fr: "\<exists>n. hs_heap ?s' x = (hs_heap s x)\<lparr>hr_next := n\<rparr>" for x
    by (cases ?l; cases "x = t") (auto simp: hr_put_heap intro: exI [of _ "hr_next (hs_heap s x)"])
  have "hchain (hs_heap ?s') (hs_head ?s') (?us @ t # ?vs)"
  proof (cases "?us = []")
    case True
    then have v: "?vs = xs" using uv by (metis append_Nil)
    have "hchain ((hs_heap s)(t := (hs_heap s t)\<lparr>hr_next := hs_head s\<rparr>)) (hs_head s) xs"
      using c t by simp
    then show ?thesis unfolding v True by (simp add: True link_after_def hr_put_heap hr_get_def)
  next
    case False
    let ?p = "last ?us"
    have l: "?l = Some ?p" using False by (simp add: link_after_def)
    have "?p \<in> set xs" using False by (metis last_in_set set_takeWhileD)
    then have pt: "?p \<noteq> t" using t by metis
    have hd: "hs_head ?s' = hs_head s" by (simp add: hr_put_heap l)
    show ?thesis unfolding hd
    proof (rule hchain_insert)
      show "hchain (hs_heap s) (hs_head s) (?us @ ?vs)" "distinct (?us @ ?vs)" "t \<notin> set (?us @ ?vs)" using c d t by simp_all
      show "?us \<noteq> []" by (fact False)
      show "hr_next (hs_heap ?s' ?p) = Some t" "hr_next (hs_heap ?s' t) = hr_next (hs_heap s ?p)"
        using pt by (simp_all add: hr_put_heap l hr_get_def)
      show "hr_next (hs_heap ?s' x) = hr_next (hs_heap s x)" if "x \<in> set (?us @ ?vs)" "x \<noteq> ?p" for x
        using that t by (auto simp: hr_put_heap l)
    qed
  qed
  with e fr show ?thesis by blast
qed

lemma sorted_place:
  assumes "sorted (map f xs)"
  shows "sorted (map f (takeWhile (\<lambda>x. f x < e) xs @ dropWhile (\<lambda>x. f x < e) xs))"
    and "\<forall>x\<in>set (takeWhile (\<lambda>x. f x < e) xs). f x < (e :: 'a :: linorder)"
    and "\<forall>x\<in>set (dropWhile (\<lambda>x. f x < e) xs). e \<le> f x"
  using assms
proof -
  show "\<forall>x\<in>set (takeWhile (\<lambda>x. f x < e) xs). f x < e" by (auto dest: set_takeWhileD)
  show "\<forall>x\<in>set (dropWhile (\<lambda>x. f x < e) xs). e \<le> f x"
    using assms by (induction xs) (auto simp: not_less intro: order_trans)
qed (use assms in simp)

lemma hrtimer_start_ok:
  assumes "hr_inv s xs" and "t \<notin> set xs" and "ns \<noteq> 0"
  shows "\<exists>s'. hrtimer_start (Some t) ns (Some c) a now s = Some (0, s') \<and> due_at s' t = now + ns \<and>
    (\<forall>x. x \<noteq> t \<longrightarrow> due_at s' x = due_at s x) \<and>
    hr_inv s' (takeWhile (\<lambda>x. due_at s x < now + ns) xs @ t # dropWhile (\<lambda>x. due_at s x < now + ns) xs)"
proof -
  let ?e = "\<lparr>hr_next = None, hr_callback = Some c, hr_arg = a, hr_start_ns = now, hr_expire_ns = now + ns,
    hr_active = True, hr_oneshot = True\<rparr>"
  let ?s = "upd_hr t (\<lambda>_. ?e) s"
  let ?f = "due_at s" and ?d = "now + ns"
  let ?us = "takeWhile (\<lambda>x. ?f x < ?d) xs" and ?vs = "dropWhile (\<lambda>x. ?f x < ?d) xs"
  have dt: "due_at ?s t = ?d" "\<And>x. x \<noteq> t \<Longrightarrow> due_at ?s x = ?f x" by (simp_all add: due_at_def)
  have c: "hchain (hs_heap ?s) (hs_head ?s) xs"
    using assms(1,2) by (simp add: hr_inv_def)
  have d: "distinct xs" using assms(1) by (simp add: hr_inv_def)
  have tw: "takeWhile (\<lambda>x. due_at ?s x < due_at ?s t) xs = ?us" "dropWhile (\<lambda>x. due_at ?s x < due_at ?s t) xs = ?vs"
  proof -
    have q: "(due_at ?s x < due_at ?s t) = (?f x < ?d)" if "x \<in> set xs" for x
      using that assms(2) dt by (cases "x = t") auto
    show "takeWhile (\<lambda>x. due_at ?s x < due_at ?s t) xs = ?us" by (rule takeWhile_cong [OF refl q])
    show "dropWhile (\<lambda>x. due_at ?s x < due_at ?s t) xs = ?vs" by (rule dropWhile_cong [OF refl q])
  qed
  from hr_insert_ok [OF c d assms(2)] obtain s' where s': "hr_insert t ?s = Some s'"
    "hchain (hs_heap s') (hs_head s') (?us @ t # ?vs)" "\<And>x. \<exists>n. hs_heap s' x = (hs_heap ?s x)\<lparr>hr_next := n\<rparr>" unfolding tw by blast
  have due: "due_at s' x = (if x = t then ?d else ?f x)" for x
    using s'(3) [of x] dt by (auto simp: due_at_def)
  have so: "sorted (map ?f xs)" using assms(1) by (simp add: hr_inv_def)
  note pl = sorted_place [OF so, of ?d]
  have t: "t \<notin> set ?us" "t \<notin> set ?vs" using assms(2) by (auto dest: set_takeWhileD set_dropWhileD)
  have m: "map (due_at s') ?us = map ?f ?us" "map (due_at s') ?vs = map ?f ?vs" using t due by auto
  have su: "sorted (map ?f ?us @ map ?f ?vs)" using so by (metis map_append takeWhile_dropWhile_id)
  have "x \<le> ?d" if "x \<in> ?f ` set ?us" for x using pl(2) that by (auto intro: less_imp_le)
  moreover have "?d \<le> x" if "x \<in> ?f ` set ?vs" for x using pl(3) that by blast
  ultimately have so': "sorted (map ?f ?us @ ?d # map ?f ?vs)" using su by (simp add: sorted_append)
  have me: "map (due_at s') (?us @ t # ?vs) = map ?f ?us @ ?d # map ?f ?vs" using m due by simp
  have "sorted (map (due_at s') (?us @ t # ?vs))" unfolding me by (rule so')
  moreover have "distinct ?us \<and> distinct ?vs \<and> set ?us \<inter> set ?vs = {}" using d by (metis distinct_append takeWhile_dropWhile_id)
  then have "distinct (?us @ t # ?vs)" using t by simp
  moreover have "hr_oneshot (hs_heap s' x) \<and> hr_active (hs_heap s' x) \<and> hr_callback (hs_heap s' x) \<noteq> None"
    if "x \<in> set (?us @ t # ?vs)" for x
  proof -
    have "x = t \<or> x \<in> set xs" using that by (auto dest: set_takeWhileD set_dropWhileD)
    then show ?thesis using s'(3) [of x] assms(1) by (cases "x = t") (auto simp: hr_inv_def)
  qed
  ultimately have "hr_inv s' (?us @ t # ?vs)" using s'(2) unfolding hr_inv_def by blast
  moreover have "hrtimer_start (Some t) ns (Some c) a now s = Some (0, s')" using s'(1) assms(3) by (simp add: hrtimer_start_def)
  ultimately show ?thesis using due by auto
qed

section \<open>Cancelling and expiring\<close>

lemma hr_unlink_ok:
  assumes "hchain (hs_heap s) (hr_get l s) vs" and "hchain (hs_heap s) (hs_head s) (us @ vs)" and "distinct (us @ vs)"
    and "l = link_after None us"
  shows "\<exists>s'. hr_unlink t l s = Some s' \<and> hchain (hs_heap s') (hs_head s') (us @ remove1 t vs) \<and>
    (\<forall>x. x \<noteq> t \<longrightarrow> (\<exists>n. hs_heap s' x = (hs_heap s x)\<lparr>hr_next := n\<rparr>)) \<and> (t \<in> set vs \<longrightarrow> \<not> hr_active (hs_heap s' t))"
  using assms
proof (induction vs arbitrary: l us)
  case Nil
  have "\<exists>n. hs_heap s x = (hs_heap s x)\<lparr>hr_next := n\<rparr>" for x by (rule exI [of _ "hr_next (hs_heap s x)"]) simp
  then show ?case using Nil by (subst hr_unlink.simps) simp
next
  case (Cons v vs)
  have g: "hr_get l s = Some v" using Cons.prems(1) by simp
  show ?case
  proof (cases "v = t")
    case False
    have "hchain (hs_heap s) (hr_get (Some v) s) vs" using Cons.prems(1) by (simp add: hr_get_def)
    from Cons.IH [OF this, of "us @ [v]"] Cons.prems(2,3) obtain s' where "hr_unlink t (Some v) s = Some s'"
      "hchain (hs_heap s') (hs_head s') (us @ remove1 t (v # vs))"
      "\<forall>x. x \<noteq> t \<longrightarrow> (\<exists>n. hs_heap s' x = (hs_heap s x)\<lparr>hr_next := n\<rparr>)" "t \<in> set vs \<longrightarrow> \<not> hr_active (hs_heap s' t)"
      using False by (auto simp: link_after_def)
    then show ?thesis using False g by (subst hr_unlink.simps) auto
  next
    case True
    let ?s = "upd_hr t (\<lambda>e. e\<lparr>hr_next := None, hr_active := False\<rparr>) (hr_put l (hr_next (hs_heap s t)) s)"
    have e: "hr_unlink t l s = Some ?s" using g True by (subst hr_unlink.simps) simp
    have tn: "t \<notin> set us" "t \<notin> set vs" using Cons.prems(3) True by auto
    have "hchain (hs_heap ?s) (hs_head ?s) (us @ vs)"
    proof (cases "us = []")
      case True': True
      then show ?thesis using Cons.prems(2) True tn by (simp add: Cons.prems(4) link_after_def hr_put_heap)
    next
      case False
      let ?p = "last us"
      have l: "l = Some ?p" using Cons.prems(4) False by (simp add: link_after_def)
      have p: "?p \<noteq> t" using False tn(1) by (metis last_in_set)
      have hd: "hs_head ?s = hs_head s" by (simp add: l hr_put_heap)
      show ?thesis unfolding hd
      proof (rule hchain_remove)
        show "hchain (hs_heap s) (hs_head s) (us @ t # vs)" "distinct (us @ t # vs)" using Cons.prems(2,3) True by simp_all
        show "us \<noteq> []" by (fact False)
        show "hr_next (hs_heap ?s ?p) = hr_next (hs_heap s t)" using p by (simp add: l hr_put_heap)
        show "hr_next (hs_heap ?s x) = hr_next (hs_heap s x)" if "x \<in> set (us @ vs)" "x \<noteq> ?p" for x
          using that tn by (auto simp: l hr_put_heap)
      qed
    qed
    moreover have "\<exists>n. hs_heap ?s x = (hs_heap s x)\<lparr>hr_next := n\<rparr>" if "x \<noteq> t" for x
      using that by (cases l) (auto simp: hr_put_heap intro: exI [of _ "hr_next (hs_heap s x)"])
    ultimately show ?thesis using e True by auto
  qed
qed

lemma hrtimer_cancel_ok:
  assumes "hr_inv s xs"
  shows "\<exists>s'. hrtimer_cancel (Some t) s = Some (0, s') \<and> hr_inv s' (remove1 t xs) \<and> (t \<in> set xs \<longrightarrow> \<not> hr_active (hs_heap s' t))"
proof -
  from hr_unlink_ok [of s None xs "[]" t] assms obtain s' where s': "hr_unlink t None s = Some s'"
    "hchain (hs_heap s') (hs_head s') (remove1 t xs)" "\<And>x. x \<noteq> t \<Longrightarrow> \<exists>n. hs_heap s' x = (hs_heap s x)\<lparr>hr_next := n\<rparr>"
    "t \<in> set xs \<longrightarrow> \<not> hr_active (hs_heap s' t)"
    by (auto simp: hr_inv_def hr_get_def link_after_def)
  have k: "x \<noteq> t \<and> x \<in> set xs" if "x \<in> set (remove1 t xs)" for x using that assms by (auto simp: hr_inv_def)
  have dx: "due_at s' x = due_at s x \<and> hr_oneshot (hs_heap s' x) = hr_oneshot (hs_heap s x) \<and>
    hr_active (hs_heap s' x) = hr_active (hs_heap s x) \<and> hr_callback (hs_heap s' x) = hr_callback (hs_heap s x)" if "x \<noteq> t" for x
    using s'(3) [OF that] by (auto simp: due_at_def)
  have m: "map (due_at s') (remove1 t xs) = map (due_at s) (remove1 t xs)" by (rule map_cong [OF refl]) (use k dx in blast)
  have "hr_oneshot (hs_heap s' x) \<and> hr_active (hs_heap s' x) \<and> hr_callback (hs_heap s' x) \<noteq> None" if "x \<in> set (remove1 t xs)" for x
    using k [OF that] dx [of x] assms by (auto simp: hr_inv_def)
  then have "hr_inv s' (remove1 t xs)" using s'(2) assms unfolding hr_inv_def m by (simp add: sorted_map_remove1)
  then show ?thesis using s'(1,4) by (simp add: hrtimer_cancel_def)
qed

definition hr_call :: "hr_state \<Rightarrow> taddr \<Rightarrow> taddr \<times> nat \<times> nat" where
  "hr_call s t = (t, the (hr_callback (hs_heap s t)), hr_arg (hs_heap s t))"

lemma hrtimer_expire_ok:
  assumes "hr_inv s xs"
  shows "\<exists>s'. hrtimer_expire (\<lambda>_ _ h. h) now (s, cs) = Some (s', cs @ map (hr_call s) (takeWhile (\<lambda>t. due_at s t \<le> now) xs)) \<and>
    hr_inv s' (dropWhile (\<lambda>t. due_at s t \<le> now) xs)"
  using assms
proof (induction xs arbitrary: s cs)
  case Nil
  then show ?case by (subst hrtimer_expire.simps) (simp add: hr_inv_def)
next
  case (Cons t xs)
  have h: "hs_head s = Some t" "hchain (hs_heap s) (hr_next (hs_heap s t)) xs" "t \<notin> set xs"
    "hr_oneshot (hs_heap s t)" using Cons.prems by (auto simp: hr_inv_def)
  obtain c where cb: "hr_callback (hs_heap s t) = Some c" using Cons.prems by (auto simp: hr_inv_def)
  show ?case
  proof (cases "due_at s t \<le> now")
    case False
    then have "hrtimer_expire (\<lambda>_ _ h. h) now (s, cs) = Some (s, cs)" using h(1)
      by (subst hrtimer_expire.simps) (simp add: due_at_def not_le)
    then show ?thesis using False Cons.prems by simp
  next
    case True
    let ?s = "upd_hr t (\<lambda>e. e\<lparr>hr_next := None, hr_active := False\<rparr>) (s\<lparr>hs_head := hr_next (hs_heap s t)\<rparr>)"
    have nl: "\<not> now < hr_expire_ns (hs_heap s t)" using True by (simp add: due_at_def not_less)
    have nt: "x \<noteq> t" if "x \<in> set xs" for x using that h(3) by blast
    have due: "due_at ?s x = due_at s x" for x by (cases "x = t") (simp_all add: due_at_def)
    have call: "hr_call ?s x = hr_call s x" for x by (cases "x = t") (simp_all add: hr_call_def)
    have m: "map (due_at ?s) xs = map (due_at s) xs" using due by simp
    have "hr_inv ?s xs" using Cons.prems h(2,3) nt unfolding hr_inv_def m by auto
    from Cons.IH [OF this, of "cs @ [(t, c, hr_arg (hs_heap s t))]"] obtain s' where s':
      "hrtimer_expire (\<lambda>_ _ h. h) now (?s, cs @ [(t, c, hr_arg (hs_heap s t))]) =
         Some (s', cs @ [(t, c, hr_arg (hs_heap s t))] @ map (hr_call s) (takeWhile (\<lambda>t. due_at s t \<le> now) xs))"
      "hr_inv s' (dropWhile (\<lambda>t. due_at s t \<le> now) xs)" unfolding due call by (auto simp: call [abs_def])
    have "hrtimer_expire (\<lambda>_ _ h. h) now (s, cs) = hrtimer_expire (\<lambda>_ _ h. h) now (?s, cs @ [(t, c, hr_arg (hs_heap s t))])"
      using nl h cb by (subst hrtimer_expire.simps) (simp add: Let_def)
    then show ?thesis using s' True cb by (simp add: hr_call_def)
  qed
qed

text \<open>
  C23. The high resolution timers are a list in order of expiry. Starting a timer that is not in the list, with a time other than 0, puts it behind
  those that expire earlier (by the sum of 64 bits, which wraps) and before the others; cancelling any timer takes it, and nothing
  else, out of the list; and a tick calls exactly those that are due, in that order, and keeps the others, as
  long as the callbacks leave the timers alone. The code does not check that a timer it starts is not in the list: see
  \<open>hrtimer_restart_loops\<close>.
\<close>

theorem hrtimers_in_order:
  assumes "hr_inv s xs"
  shows "(\<exists>s'. hrtimer_expire (\<lambda>_ _ h. h) now (s, []) = Some (s', map (hr_call s) (filter (\<lambda>t. due_at s t \<le> now) xs)) \<and>
      hr_inv s' (filter (\<lambda>t. due_at s t > now) xs)) \<and>
    (t \<notin> set xs \<and> ns \<noteq> 0 \<longrightarrow> (\<exists>s' us vs. hrtimer_start (Some t) ns (Some c) a now s = Some (0, s') \<and> xs = us @ vs \<and>
      hr_inv s' (us @ t # vs) \<and> (\<forall>u\<in>set us. due_at s u < now + ns) \<and> (\<forall>v\<in>set vs. now + ns \<le> due_at s v))) \<and>
    (\<exists>s'. hrtimer_cancel (Some t) s = Some (0, s') \<and> hr_inv s' (remove1 t xs))"
proof (intro conjI impI)
  have so: "sorted (map (due_at s) xs)" using assms by (simp add: hr_inv_def)
  have "takeWhile (\<lambda>t. due_at s t \<le> now) xs = filter (\<lambda>t. due_at s t \<le> now) xs \<and>
    dropWhile (\<lambda>t. due_at s t \<le> now) xs = filter (\<lambda>t. due_at s t > now) xs"
    using so
  proof (induction xs)
    case (Cons x xs)
    show ?case
    proof (cases "due_at s x \<le> now")
      case True
      then show ?thesis using Cons by simp
    next
      case False
      then have "now < due_at s y" if "y \<in> set xs" for y using Cons.prems that by auto
      then show ?thesis using False by (auto simp: filter_empty_conv filter_id_conv not_le)
    qed
  qed simp
  then show "\<exists>s'. hrtimer_expire (\<lambda>_ _ h. h) now (s, []) = Some (s', map (hr_call s) (filter (\<lambda>t. due_at s t \<le> now) xs)) \<and>
    hr_inv s' (filter (\<lambda>t. due_at s t > now) xs)" using hrtimer_expire_ok [OF assms, of now "[]"] by simp
  assume t: "t \<notin> set xs \<and> ns \<noteq> 0"
  then obtain s' where "hrtimer_start (Some t) ns (Some c) a now s = Some (0, s')"
    "hr_inv s' (takeWhile (\<lambda>x. due_at s x < now + ns) xs @ t # dropWhile (\<lambda>x. due_at s x < now + ns) xs)"
    using hrtimer_start_ok [OF assms, of t ns c a now] by blast
  with sorted_place [OF so, of "now + ns"]
  show "\<exists>s' us vs. hrtimer_start (Some t) ns (Some c) a now s = Some (0, s') \<and> xs = us @ vs \<and>
      hr_inv s' (us @ t # vs) \<and> (\<forall>u\<in>set us. due_at s u < now + ns) \<and> (\<forall>v\<in>set vs. now + ns \<le> due_at s v)"
    by (metis takeWhile_dropWhile_id)
next
  show "\<exists>s'. hrtimer_cancel (Some t) s = Some (0, s') \<and> hr_inv s' (remove1 t xs)" using hrtimer_cancel_ok [OF assms] by blast
qed

theorem hrtimers_in_order_witness:
  "\<exists>s'. hrtimer_start (Some 7) 100 (Some 1) 2 50 \<lparr>hs_head = None, hs_heap = (\<lambda>_. undefined)\<rparr> = Some (0, s') \<and> hr_inv s' [7]"
proof -
  have "hr_inv \<lparr>hs_head = None, hs_heap = (\<lambda>_. undefined)\<rparr> []" by (simp add: hr_inv_def)
  from hrtimers_in_order [OF this, of 50 7 100 1 2] show ?thesis by auto
qed

text \<open>
  Starting the first timer of the list again clears its link while it is linked and then finds it as its own successor: the
  other timers are lost, the list is a circle, and the next search for a later time, which a start
  makes with the lock held, never returns.
\<close>

lemma hr_seek_circle:
  "hr_seek e l s = Some r \<Longrightarrow> l = Some t \<longrightarrow> hr_next (hs_heap s t) = Some t \<longrightarrow> \<not> due_at s t < e"
proof (rule hr_seek.raw_induct [of "\<lambda>e l s r. l = Some t \<longrightarrow> hr_next (hs_heap s t) = Some t \<longrightarrow> \<not> due_at s t < e"], goal_cases)
  case (1 seek e l s r)
  show ?case
  proof (intro impI notI)
    assume a: "l = Some t" "hr_next (hs_heap s t) = Some t" and lt: "due_at s t < e"
    then have "seek e (Some t) s = Some r" using 1(3) by (simp add: hr_get_def due_at_def)
    from 1(2) [OF this] a lt show False by simp
  qed
qed

theorem hrtimer_restart_loops:
  assumes "hr_inv s (t # xs)" and "ns \<noteq> 0"
  shows "\<exists>s'. hrtimer_start (Some t) ns (Some c) a now s = Some (0, s') \<and> hs_head s' = Some t \<and>
    hr_next (hs_heap s' t) = Some t \<and> due_at s' t = now + ns \<and> (\<forall>e > now + ns. hr_seek e None s' = None)"
proof -
  have hd: "hs_head s = Some t" using assms(1) by (simp add: hr_inv_def)
  define s1 where "s1 = upd_hr t (\<lambda>_. \<lparr>hr_next = None, hr_callback = Some c, hr_arg = a, hr_start_ns = now,
    hr_expire_ns = now + ns, hr_active = True, hr_oneshot = True\<rparr>) s"
  have s1: "hs_head s1 = Some t" "due_at s1 t = now + ns" using hd by (simp_all add: s1_def due_at_def)
  then have "hr_seek (due_at s1 t) None s1 = Some None"
    by (subst hr_seek.simps) (simp add: hr_get_def due_at_def)
  define s' where "s' = hr_put None (Some t) (upd_hr t (\<lambda>e. e\<lparr>hr_next := Some t\<rparr>) s1)"
  have run: "hrtimer_start (Some t) ns (Some c) a now s = Some (0, s')"
    using \<open>hr_seek (due_at s1 t) None s1 = Some None\<close> assms(2) s1
    by (simp add: hrtimer_start_def hr_insert_def s'_def due_at_def hr_get_def flip: s1_def)
  have s': "hs_head s' = Some t" "hr_next (hs_heap s' t) = Some t" "due_at s' t = now + ns"
    using s1 by (simp_all add: s'_def hr_put_def due_at_def)
  have "hr_seek e None s' = None" if "now + ns < e" for e
  proof -
    have "hr_seek e None s' = hr_seek e (Some t) s'" using s' that by (subst hr_seek.simps) (simp add: hr_get_def due_at_def)
    moreover have "hr_seek e (Some t) s' \<noteq> Some r" for r using hr_seek_circle [of e "Some t" s' r t] s' that by auto
    ultimately show ?thesis by (cases "hr_seek e (Some t) s'") auto
  qed
  with run s' show ?thesis by blast
qed

theorem hrtimer_restart_loops_witness:
  "\<exists>s s'. hr_inv s [7] \<and> hrtimer_start (Some 7) 200 (Some 1) 2 60 s = Some (0, s') \<and> hr_next (hs_heap s' 7) = Some 7"
proof -
  have "hr_inv \<lparr>hs_head = None, hs_heap = (\<lambda>_. undefined)\<rparr> []" by (simp add: hr_inv_def)
  from hrtimer_start_ok [OF this, of 7 100 1 2 50] obtain s where "hr_inv s [7]" by auto
  with hrtimer_restart_loops [OF this, of 200 1 2 60] show ?thesis by auto
qed

end
