(* ===== verification/Slab.thy ===== *)
theory Slab
  imports Buddy
begin

text \<open>
  The object caches and \<open>kmalloc\<close> of \<open>kernel/arch/x86_64/slab.c\<close>, on top of the page allocator. The memory of the slabs is a
  function from addresses to bytes, since the header of a slab lies in the same pages as its objects.
  The address 0 is \<open>NULL\<close>. \<open>None\<close> is a call that never returns.
\<close>

section \<open>Memory\<close>

type_synonym amem = "u64 \<Rightarrow> u8"

definition rd :: "nat \<Rightarrow> u64 \<Rightarrow> amem \<Rightarrow> u64" where
  "rd n a m = le_word (map (\<lambda>i. m (a + of_nat i)) [0..<n])"

definition wr :: "nat \<Rightarrow> u64 \<Rightarrow> u64 \<Rightarrow> amem \<Rightarrow> amem" where
  "wr n a v m = (\<lambda>x. if unat (x - a) < n then le_bytes n v ! unat (x - a) else m x)"

definition zero_bytes :: "u64 \<Rightarrow> nat \<Rightarrow> amem \<Rightarrow> amem" where
  "zero_bytes a n m = (\<lambda>x. if unat (x - a) < n then 0 else m x)"

section \<open>Data\<close>

abbreviation (input) SLAB_NAME_MAX :: nat where "SLAB_NAME_MAX \<equiv> 32"
abbreviation (input) SLAB_MAX_CACHES :: nat where "SLAB_MAX_CACHES \<equiv> 64"
abbreviation (input) SLAB_FULL :: nat where "SLAB_FULL \<equiv> 0"
abbreviation (input) SLAB_PARTIAL :: nat where "SLAB_PARTIAL \<equiv> 1"
abbreviation (input) SLAB_EMPTY :: nat where "SLAB_EMPTY \<equiv> 2"
abbreviation (input) KMALLOC_SHIFT_HIGH :: nat where "KMALLOC_SHIFT_HIGH \<equiv> 11"
abbreviation (input) PAGE_FLAG_SLAB :: u32 where "PAGE_FLAG_SLAB \<equiv> 4"

text \<open>The layout of \<open>slab_t\<close>.\<close>

abbreviation (input) SLAB_T_SIZE :: u64 where "SLAB_T_SIZE \<equiv> 56"
abbreviation (input) F_NEXT :: u64 where "F_NEXT \<equiv> 0"
abbreviation (input) F_PREV :: u64 where "F_PREV \<equiv> 8"
abbreviation (input) F_MEM :: u64 where "F_MEM \<equiv> 16"
abbreviation (input) F_OBJ_SIZE :: u64 where "F_OBJ_SIZE \<equiv> 24"
abbreviation (input) F_OBJ_COUNT :: u64 where "F_OBJ_COUNT \<equiv> 28"
abbreviation (input) F_FREE_COUNT :: u64 where "F_FREE_COUNT \<equiv> 32"
abbreviation (input) F_FREE_LIST :: u64 where "F_FREE_LIST \<equiv> 40"
abbreviation (input) F_STATE :: u64 where "F_STATE \<equiv> 48"

text \<open>The heads of the three lists are indexed by the states.\<close>

record kmem_cache =
  kc_name :: string
  kc_obj_size :: u32
  kc_align :: u32
  kc_objs_per_slab :: u32
  kc_slab_order :: nat
  kc_slabs :: "nat \<Rightarrow> u64"
  kc_total_objs :: u64
  kc_free_objs :: u64

record slab_st =
  ss_mem :: amem
  ss_sys :: buddy_system_t
  ss_caches :: "nat \<Rightarrow> kmem_cache"
  ss_count :: nat
  ss_kmalloc :: "nat \<Rightarrow> nat option"

definition upd_cache :: "nat \<Rightarrow> (kmem_cache \<Rightarrow> kmem_cache) \<Rightarrow> slab_st \<Rightarrow> slab_st" where
  "upd_cache c f st = st\<lparr>ss_caches := (ss_caches st)(c := f (ss_caches st c))\<rparr>"

definition put_field :: "nat \<Rightarrow> u64 \<Rightarrow> u64 \<Rightarrow> slab_st \<Rightarrow> slab_st" where
  "put_field n a v st = st\<lparr>ss_mem := wr n a v (ss_mem st)\<rparr>"

definition slab_head :: "nat \<Rightarrow> nat \<Rightarrow> slab_st \<Rightarrow> u64" where
  "slab_head c l st = kc_slabs (ss_caches st c) l"

definition set_slab_head :: "nat \<Rightarrow> nat \<Rightarrow> u64 \<Rightarrow> slab_st \<Rightarrow> slab_st" where
  "set_slab_head c l v = upd_cache c (\<lambda>k. k\<lparr>kc_slabs := (kc_slabs k)(l := v)\<rparr>)"

section \<open>Slabs\<close>

definition slab_order_for :: "u32 \<Rightarrow> u32 \<Rightarrow> nat" where
  "slab_order_for obj_size objs_per_slab =
     (case first_index (\<lambda>o'. \<not> push_bit o' 4096 < obj_size * objs_per_slab) BUDDY_MAX_ORDER of
        Some o' \<Rightarrow> o' | None \<Rightarrow> BUDDY_MAX_ORDER)"

text \<open>Marks or unmarks the pages of a slab that the main zone has.\<close>

definition mark_pages :: "u64 \<Rightarrow> nat \<Rightarrow> (page_t \<Rightarrow> page_t) \<Rightarrow> buddy_system_t \<Rightarrow> buddy_system_t" where
  "mark_pages base npages f y =
     fold (\<lambda>i y'. case virt_to_page (sy_zones y (buddy_get_main_zone y)) (base + of_nat i * PAGE_SIZE) of
             None \<Rightarrow> y' | Some p \<Rightarrow> y'\<lparr>sy_pages := (sy_pages y')(p := f (sy_pages y' p))\<rparr>)
       [0..<npages] y"

text \<open>Each object starts with a pointer to the object before it; the result is the last one.\<close>

fun link_objs :: "u64 \<Rightarrow> u64 \<Rightarrow> nat \<Rightarrow> amem \<Rightarrow> u64 \<times> amem" where
  "link_objs base sz 0 m = (0, m)"
| "link_objs base sz (Suc i) m =
     (case link_objs base sz i m of (cur, m') \<Rightarrow> (base + of_nat i * sz, wr 8 (base + of_nat i * sz) cur m'))"

definition slab_create :: "nat \<Rightarrow> slab_st \<Rightarrow> (u64 \<times> slab_st) option" where
  "slab_create c st = do {
     (v, sys1) \<leftarrow> alloc_pages_virt (kc_slab_order (ss_caches st c)) (ss_sys st);
     Some (case v of
       None \<Rightarrow> (0, st\<lparr>ss_sys := sys1\<rparr>)
     | Some base \<Rightarrow>
         if base = 0 then (0, st\<lparr>ss_sys := sys1\<rparr>)
         else
           let k = ss_caches st c;
               sys2 = mark_pages base (2 ^ kc_slab_order k)
                        (\<lambda>g. g\<lparr>pg_flags := pg_flags g OR PAGE_FLAG_SLAB, pg_slab_cache := Some c\<rparr>) sys1;
               s = base + push_bit (kc_slab_order k) PAGE_SIZE - SLAB_T_SIZE;
               m0 = zero_bytes s (unat SLAB_T_SIZE) (ss_mem st);
               m1 = wr 8 (s + F_MEM) base m0;
               m2 = wr 4 (s + F_OBJ_SIZE) (ucast (kc_obj_size k)) m1;
               m3 = wr 4 (s + F_OBJ_COUNT) (ucast (kc_objs_per_slab k)) m2;
               m4 = wr 4 (s + F_FREE_COUNT) (ucast (kc_objs_per_slab k)) m3;
               m5 = wr 4 (s + F_STATE) (of_nat SLAB_EMPTY) m4;
               (last_obj, m6) = link_objs base (ucast (kc_obj_size k)) (unat (kc_objs_per_slab k)) m5
           in (s, st\<lparr>ss_sys := sys2, ss_mem := wr 8 (s + F_FREE_LIST) last_obj m6\<rparr>))
   }"

definition slab_destroy :: "nat \<Rightarrow> u64 \<Rightarrow> slab_st \<Rightarrow> slab_st option" where
  "slab_destroy c slab st =
     (let base = rd 8 (slab + F_MEM) (ss_mem st);
          sys1 = mark_pages base (2 ^ kc_slab_order (ss_caches st c))
                   (\<lambda>g. g\<lparr>pg_flags := pg_flags g AND NOT PAGE_FLAG_SLAB, pg_slab_cache := None\<rparr>) (ss_sys st)
      in if base = 0 then Some (st\<lparr>ss_sys := sys1\<rparr>)
         else case virt_to_page (sy_zones sys1 (buddy_get_main_zone sys1)) base of
                None \<Rightarrow> Some (st\<lparr>ss_sys := sys1\<rparr>)
              | Some p \<Rightarrow> map_option (\<lambda>sys2. st\<lparr>ss_sys := sys2\<rparr>) (free_pages (Some p) sys1))"

definition slab_add :: "nat \<Rightarrow> nat \<Rightarrow> u64 \<Rightarrow> slab_st \<Rightarrow> slab_st" where
  "slab_add c l slab st =
     (let h = slab_head c l st;
          st1 = put_field 8 (slab + F_PREV) 0 (put_field 8 (slab + F_NEXT) h st);
          st2 = (if h \<noteq> 0 then put_field 8 (h + F_PREV) slab st1 else st1)
      in set_slab_head c l slab st2)"

definition slab_remove :: "nat \<Rightarrow> nat \<Rightarrow> u64 \<Rightarrow> slab_st \<Rightarrow> slab_st" where
  "slab_remove c l slab st =
     (let p = rd 8 (slab + F_PREV) (ss_mem st);
          n = rd 8 (slab + F_NEXT) (ss_mem st);
          st1 = (if p \<noteq> 0 then put_field 8 (p + F_NEXT) n st else set_slab_head c l n st);
          n1 = rd 8 (slab + F_NEXT) (ss_mem st1);
          st2 = (if n1 \<noteq> 0 then put_field 8 (n1 + F_PREV) (rd 8 (slab + F_PREV) (ss_mem st1)) st1 else st1)
      in put_field 8 (slab + F_NEXT) 0 (put_field 8 (slab + F_PREV) 0 st2))"

definition slab_rehome :: "nat \<Rightarrow> u64 \<Rightarrow> slab_st \<Rightarrow> slab_st" where
  "slab_rehome c slab st =
     (let state = rd 4 (slab + F_STATE) (ss_mem st);
          src = (if state = of_nat SLAB_FULL then SLAB_FULL else if state = of_nat SLAB_PARTIAL then SLAB_PARTIAL else SLAB_EMPTY);
          free_count = rd 4 (slab + F_FREE_COUNT) (ss_mem st);
          dst = (if free_count = 0 then SLAB_FULL
                 else if free_count = rd 4 (slab + F_OBJ_COUNT) (ss_mem st) then SLAB_EMPTY else SLAB_PARTIAL);
          st1 = put_field 4 (slab + F_STATE) (of_nat dst) st
      in if src \<noteq> dst then slab_add c dst slab (slab_remove c src slab st1) else st1)"

section \<open>Caches\<close>

definition kmem_cache_create :: "string option \<Rightarrow> u32 \<Rightarrow> u32 \<Rightarrow> slab_st \<Rightarrow> nat option \<times> slab_st" where
  "kmem_cache_create name sz align0 st =
     (if sz = 0 \<or> sz > push_bit BUDDY_MAX_ORDER 4096 then (None, st)
      else
        let align = (if align0 = 0 then 8 else align0);
            o1 = (sz + align - 1) AND NOT (align - 1);
            obj_size = (if o1 < 8 then 8 else o1)
        in if ss_count st \<ge> SLAB_MAX_CACHES then (None, st)
           else
             let c = ss_count st;
                 n0 = (4096 * 2) div obj_size;
                 n = (if n0 < 1 then 1 else n0)
             in (Some c, st\<lparr>ss_count := c + 1,
                   ss_caches := (ss_caches st)(c :=
                     \<lparr>kc_name = (case name of None \<Rightarrow> [] | Some s \<Rightarrow> take (SLAB_NAME_MAX - 1) s),
                      kc_obj_size = obj_size, kc_align = align, kc_objs_per_slab = n,
                      kc_slab_order = slab_order_for obj_size n, kc_slabs = (\<lambda>_. 0), kc_total_objs = 0, kc_free_objs = 0\<rparr>)\<rparr>))"

fun decimal :: "nat \<Rightarrow> string" where
  "decimal n = (if n < 10 then [] else decimal (n div 10)) @ [char_of (48 + n mod 10)]"

declare decimal.simps [simp del]

definition cache_zero :: kmem_cache where
  "cache_zero = \<lparr>kc_name = [], kc_obj_size = 0, kc_align = 0, kc_objs_per_slab = 0, kc_slab_order = 0, kc_slabs = (\<lambda>_. 0),
     kc_total_objs = 0, kc_free_objs = 0\<rparr>"

definition slab_init :: "slab_st \<Rightarrow> slab_st" where
  "slab_init st =
     fold (\<lambda>i s. case kmem_cache_create (Some (''km_'' @ decimal (2 ^ i))) (push_bit i 1) (push_bit i 1) s of
             (c, s') \<Rightarrow> s'\<lparr>ss_kmalloc := (ss_kmalloc s')(i := c)\<rparr>)
       [3..<Suc KMALLOC_SHIFT_HIGH] (st\<lparr>ss_count := 0, ss_caches := (\<lambda>_. cache_zero)\<rparr>)"

partial_function (option) destroy_list :: "nat \<Rightarrow> u64 \<Rightarrow> slab_st \<Rightarrow> slab_st option" where
  "destroy_list c slab st =
     (if slab = 0 then Some st
      else do {
        let n = rd 8 (slab + F_NEXT) (ss_mem st);
        st1 \<leftarrow> slab_destroy c slab st;
        destroy_list c n st1
      })"

definition kmem_cache_destroy :: "nat option \<Rightarrow> slab_st \<Rightarrow> slab_st option" where
  "kmem_cache_destroy cache st =
     (case cache of
        None \<Rightarrow> Some st
      | Some c \<Rightarrow> do {
          let heads = kc_slabs (ss_caches st c);
          st1 \<leftarrow> destroy_list c (heads SLAB_FULL) st;
          st2 \<leftarrow> destroy_list c (heads SLAB_PARTIAL) st1;
          st3 \<leftarrow> destroy_list c (heads SLAB_EMPTY) st2;
          Some (upd_cache c (\<lambda>k. k\<lparr>kc_slabs := (\<lambda>_. 0)\<rparr>) st3)
        })"

text \<open>The slab to allocate from: the first partial one, else the first empty one, else a new one; 0 without memory.\<close>

definition pick_slab :: "nat \<Rightarrow> slab_st \<Rightarrow> (u64 \<times> slab_st) option" where
  "pick_slab c st =
     (if slab_head c SLAB_PARTIAL st \<noteq> 0 then Some (slab_head c SLAB_PARTIAL st, st)
      else if slab_head c SLAB_EMPTY st \<noteq> 0
      then (let slab = slab_head c SLAB_EMPTY st
            in Some (slab, slab_add c SLAB_PARTIAL slab (slab_remove c SLAB_EMPTY slab st)))
      else do {
        (slab, st1) \<leftarrow> slab_create c st;
        Some (if slab = 0 then (0, st1) else (slab, slab_add c SLAB_PARTIAL slab st1))
      })"

definition kmem_cache_alloc :: "nat option \<Rightarrow> slab_st \<Rightarrow> (u64 \<times> slab_st) option" where
  "kmem_cache_alloc cache st =
     (case cache of
        None \<Rightarrow> Some (0, st)
      | Some c \<Rightarrow> do {
          (slab, st1) \<leftarrow> pick_slab c st;
          Some (if slab = 0 then (0, st1)
                else
                  let obj = rd 8 (slab + F_FREE_LIST) (ss_mem st1)
                  in if obj = 0 then (0, st1)
                     else
                       let st2 = put_field 8 (slab + F_FREE_LIST) (rd 8 obj (ss_mem st1)) st1;
                           st3 = put_field 4 (slab + F_FREE_COUNT) (rd 4 (slab + F_FREE_COUNT) (ss_mem st2) - 1) st2;
                           st4 = upd_cache c (\<lambda>k. k\<lparr>kc_total_objs := kc_total_objs k + 1, kc_free_objs := kc_free_objs k - 1\<rparr>) st3
                       in (obj, slab_rehome c slab st4))
        })"

text \<open>The search for the slab that contains an object; 0 is not found.\<close>

partial_function (option) slab_of :: "nat \<Rightarrow> u64 \<Rightarrow> u64 \<Rightarrow> amem \<Rightarrow> u64 option" where
  "slab_of order obj s m =
     (if s = 0 then Some 0
      else let start = rd 8 (s + F_MEM) m
           in if start \<le> obj \<and> obj < start + push_bit order PAGE_SIZE then Some s
              else slab_of order obj (rd 8 (s + F_NEXT) m) m)"

fun slab_in_lists :: "nat \<Rightarrow> u64 \<Rightarrow> u64 list \<Rightarrow> amem \<Rightarrow> u64 option" where
  "slab_in_lists order obj [] m = Some 0"
| "slab_in_lists order obj (h # hs) m = do { s \<leftarrow> slab_of order obj h m; if s \<noteq> 0 then Some s else slab_in_lists order obj hs m }"

definition kmem_cache_free :: "nat option \<Rightarrow> u64 \<Rightarrow> slab_st \<Rightarrow> slab_st option" where
  "kmem_cache_free cache obj st =
     (case cache of
        None \<Rightarrow> Some st
      | Some c \<Rightarrow>
          if obj = 0 then Some st
          else do {
            slab \<leftarrow> slab_in_lists (kc_slab_order (ss_caches st c)) obj
                      (map (kc_slabs (ss_caches st c)) [SLAB_FULL, SLAB_PARTIAL, SLAB_EMPTY]) (ss_mem st);
            Some (if slab = 0 then st
                  else
                    let st1 = put_field 8 obj (rd 8 (slab + F_FREE_LIST) (ss_mem st)) st;
                        st2 = put_field 8 (slab + F_FREE_LIST) obj st1;
                        st3 = put_field 4 (slab + F_FREE_COUNT) (rd 4 (slab + F_FREE_COUNT) (ss_mem st2) + 1) st2;
                        st4 = upd_cache c (\<lambda>k. k\<lparr>kc_total_objs := kc_total_objs k - 1, kc_free_objs := kc_free_objs k + 1\<rparr>) st3
                    in slab_rehome c slab st4)
          })"

section \<open>kmalloc\<close>

definition kmalloc_index :: "u64 \<Rightarrow> nat" where
  "kmalloc_index sz = (case find (\<lambda>i. \<not> push_bit i 1 < sz) [3..<KMALLOC_SHIFT_HIGH] of Some i \<Rightarrow> i | None \<Rightarrow> KMALLOC_SHIFT_HIGH)"

definition kmalloc_order :: "u64 \<Rightarrow> nat" where
  "kmalloc_order sz = (case first_index (\<lambda>o'. \<not> push_bit o' PAGE_SIZE < sz) BUDDY_MAX_ORDER of Some o' \<Rightarrow> o' | None \<Rightarrow> BUDDY_MAX_ORDER)"

definition kmalloc :: "u64 \<Rightarrow> slab_st \<Rightarrow> (u64 \<times> slab_st) option" where
  "kmalloc sz st =
     (if sz = 0 then Some (0, st)
      else if sz > push_bit KMALLOC_SHIFT_HIGH 1
      then map_option (\<lambda>(v, sys1). (case v of None \<Rightarrow> 0 | Some a \<Rightarrow> a, st\<lparr>ss_sys := sys1\<rparr>))
             (alloc_pages_virt (kmalloc_order sz) (ss_sys st))
      else case ss_kmalloc st (kmalloc_index sz) of
             None \<Rightarrow> Some (0, st)
           | Some c \<Rightarrow> kmem_cache_alloc (Some c) st)"

definition kzalloc :: "u64 \<Rightarrow> slab_st \<Rightarrow> (u64 \<times> slab_st) option" where
  "kzalloc sz st = do {
     (p, st1) \<leftarrow> kmalloc sz st;
     Some (p, if p \<noteq> 0 then st1\<lparr>ss_mem := zero_bytes p (unat sz) (ss_mem st1)\<rparr> else st1)
   }"

definition kfree :: "u64 \<Rightarrow> slab_st \<Rightarrow> slab_st option" where
  "kfree p st =
     (if p = 0 then Some st
      else case virt_to_page (sy_zones (ss_sys st) (buddy_get_main_zone (ss_sys st))) p of
             None \<Rightarrow> Some st
           | Some page \<Rightarrow>
               if pg_flags (sy_pages (ss_sys st) page) AND PAGE_FLAG_SLAB \<noteq> 0
               then (case pg_slab_cache (sy_pages (ss_sys st) page) of
                       None \<Rightarrow> Some st
                     | Some c \<Rightarrow> kmem_cache_free (Some c) p st)
               else map_option (\<lambda>sys1. st\<lparr>ss_sys := sys1\<rparr>) (free_pages_virt p (ss_sys st)))"

definition ksize :: "u64 \<Rightarrow> slab_st \<Rightarrow> u64" where
  "ksize p st =
     (if p = 0 then 0
      else case virt_to_page (sy_zones (ss_sys st) (buddy_get_main_zone (ss_sys st))) p of
             None \<Rightarrow> 0
           | Some page \<Rightarrow>
               if pg_flags (sy_pages (ss_sys st) page) AND PAGE_FLAG_SLAB \<noteq> 0
               then (case pg_slab_cache (sy_pages (ss_sys st) page) of
                       None \<Rightarrow> 0
                     | Some c \<Rightarrow> ucast (kc_obj_size (ss_caches st c)))
               else push_bit (min (pg_order (sy_pages (ss_sys st) page)) BUDDY_MAX_ORDER) PAGE_SIZE)"

definition slab_alloc :: "u64 \<Rightarrow> slab_st \<Rightarrow> (u64 \<times> slab_st) option" where
  "slab_alloc sz st = kmalloc sz st"

definition slab_free :: "u64 \<Rightarrow> slab_st \<Rightarrow> slab_st option" where
  "slab_free p st = kfree p st"

end
