(* ===== verification/SlabProps.thy ===== *)
theory SlabProps
  imports Slab
begin

text \<open>
  What a cache hands out: the objects of one slab, and nothing after them; and what becomes of the caches of \<open>kmalloc\<close>, whose
  last object lies on the header of the slab.
\<close>

section \<open>Reads over writes\<close>

lemma word_diff_self_add [simp]: "(a :: 'a :: len word) - (a + b) = - b"
  by simp

lemma unat_plus_small: "unat (d :: u64) + i < 2 ^ 64 \<Longrightarrow> unat (d + of_nat i) = unat d + i"
  by (simp add: unat_word_ariths(1) unat_of_nat)

lemma rd_wr_same [simp]:
  assumes "n \<le> 8"
  shows "rd n a (wr n a v m) = take_bit (8 * n) v"
proof -
  have "map (\<lambda>i. wr n a v m (a + of_nat i)) [0..<n] = le_bytes n v"
  proof (rule nth_equalityI)
    fix i assume "i < length (map (\<lambda>i. wr n a v m (a + of_nat i)) [0..<n])"
    then have i: "i < n" by simp
    then have "unat (of_nat i :: u64) = i" using assms by (simp add: unat_of_nat)
    then show "map (\<lambda>i. wr n a v m (a + of_nat i)) [0..<n] ! i = le_bytes n v ! i" using i by (simp add: wr_def)
  qed simp
  then show ?thesis by (simp add: rd_def)
qed

lemma rd_cong: "(\<And>i. i < n \<Longrightarrow> m' (a + of_nat i) = m (a + of_nat i)) \<Longrightarrow> rd n a m' = rd n a m"
  unfolding rd_def by (rule arg_cong [of _ _ le_word], rule map_cong) auto

lemma rd_wr_other:
  assumes "k \<le> unat (b - a)" and "unat (b - a) + n \<le> 2 ^ 64"
  shows "rd n b (wr k a v m) = rd n b m"
proof (rule rd_cong)
  fix i assume i: "i < n"
  have "unat (b + of_nat i - a) = unat (b - a) + i"
    using unat_plus_small [of "b - a" i] assms(2) i by (simp add: algebra_simps)
  then show "wr k a v m (b + of_nat i) = m (b + of_nat i)" using assms(1) by (simp add: wr_def)
qed

lemma rd_zero_bytes:
  assumes "unat (b - a) + n \<le> k" and "k < 2 ^ 64"
  shows "rd n b (zero_bytes a k m) = 0"
proof -
  have "zero_bytes a k m (b + of_nat i) = 0" if i: "i < n" for i
  proof -
    have "unat (b + of_nat i - a) = unat (b - a) + i"
      using unat_plus_small [of "b - a" i] assms i by (simp add: algebra_simps)
    then show ?thesis using assms i by (simp add: zero_bytes_def)
  qed
  then have "map (\<lambda>i. zero_bytes a k m (b + of_nat i)) [0..<n] = replicate n 0" by (intro nth_equalityI) simp_all
  moreover have "le_word (replicate j 0) = 0" for j by (induction j) simp_all
  ultimately show ?thesis by (simp add: rd_def)
qed

lemma unat_off: "x < 2 ^ 64 \<Longrightarrow> unat (of_nat x :: u64) = x"
  by (simp add: unat_of_nat)

lemma take_bit_64 [simp]: "take_bit 64 (w :: u64) = w"
  by (simp add: take_bit_word_eq_self)

text \<open>Places in a slab, as offsets.\<close>

lemma rd_wr_off:
  assumes "x + n \<le> y \<or> y + k \<le> x" and "x + n < 2 ^ 62" and "y + k < 2 ^ 62"
  shows "rd n (base + of_nat x) (wr k (base + of_nat y) v m) = rd n (base + of_nat x) m"
proof (cases "y + k \<le> x")
  case True
  have "(of_nat x :: u64) - of_nat y = of_nat (x - y)" using True by (simp add: of_nat_diff)
  then have "unat (base + of_nat x - (base + of_nat y)) = x - y" using assms(2) by (simp add: unat_off)
  then show ?thesis using True assms(2) by (intro rd_wr_other) auto
next
  case False
  then have le: "x + n \<le> y" using assms(1) by blast
  show ?thesis
  proof (cases "n = 0")
    case False
    have d: "(of_nat x :: u64) - of_nat y = - of_nat (y - x)" using le by (simp add: of_nat_diff)
    have "0 < y - x" "y - x \<le> 2 ^ 64" using le False assms(3) by auto
    then have "(of_nat (2 ^ 64 - (y - x)) :: u64) = of_nat (2 ^ 64) - of_nat (y - x)" by (simp only: of_nat_diff)
    moreover have "(of_nat (2 ^ 64) :: u64) = 0" by simp
    ultimately have "- (of_nat (y - x) :: u64) = of_nat (2 ^ 64 - (y - x))" by simp
    then have "unat (- (of_nat (y - x) :: u64)) = 2 ^ 64 - (y - x)" using \<open>0 < y - x\<close> by (simp only: unat_off) (simp add: unat_off)
    then have "unat (base + of_nat x - (base + of_nat y)) = 2 ^ 64 - (y - x)" using d by simp
    then show ?thesis using le assms by (intro rd_wr_other) auto
  qed (simp add: rd_def)
qed

section \<open>The links of a new slab\<close>

lemma link_objs_links:
  assumes "8 \<le> unat sz" and "n * unat sz < 2 ^ 61"
  shows "fst (link_objs base sz n m) = (if n = 0 then 0 else base + of_nat ((n - 1) * unat sz)) \<and>
    (\<forall>i<n. rd 8 (base + of_nat (i * unat sz)) (snd (link_objs base sz n m)) = (if i = 0 then 0 else base + of_nat ((i - 1) * unat sz))) \<and>
    (\<forall>x w. (\<forall>i<n. x + w \<le> i * unat sz \<or> i * unat sz + 8 \<le> x) \<and> x + w < 2 ^ 62 \<longrightarrow>
       rd w (base + of_nat x) (snd (link_objs base sz n m)) = rd w (base + of_nat x) m)"
  using assms(2)
proof (induction n)
  case 0
  then show ?case by simp
next
  case (Suc n)
  let ?z = "unat sz"
  obtain cur m' where lo: "link_objs base sz n m = (cur, m')" by (cases "link_objs base sz n m")
  have b: "n * ?z + ?z < 2 ^ 61" using Suc.prems by simp
  then have "n * ?z < 2 ^ 61" by linarith
  from Suc.IH [OF this] have IH: "cur = (if n = 0 then 0 else base + of_nat ((n - 1) * ?z))"
    "\<And>i. i < n \<Longrightarrow> rd 8 (base + of_nat (i * ?z)) m' = (if i = 0 then 0 else base + of_nat ((i - 1) * ?z))"
    "\<And>x w. (\<forall>i<n. x + w \<le> i * ?z \<or> i * ?z + 8 \<le> x) \<Longrightarrow> x + w < 2 ^ 62 \<Longrightarrow>
       rd w (base + of_nat x) m' = rd w (base + of_nat x) m"
    unfolding lo by auto
  have adr: "of_nat n * sz = of_nat (n * ?z)" by simp
  have new: "link_objs base sz (Suc n) m = (base + of_nat (n * ?z), wr 8 (base + of_nat (n * ?z)) cur m')"
    by (simp only: link_objs.simps lo prod.case adr)
  have "(2 :: nat) ^ 61 < 2 ^ 62" by simp
  then have z8: "n * ?z + 8 < 2 ^ 62" using b assms(1) by linarith
  have keep: "rd w (base + of_nat x) (wr 8 (base + of_nat (n * ?z)) cur m') = rd w (base + of_nat x) m'"
    if "x + w \<le> n * ?z \<or> n * ?z + 8 \<le> x" "x + w < 2 ^ 62" for x w
    by (rule rd_wr_off [OF that z8])
  have links: "rd 8 (base + of_nat (i * ?z)) (wr 8 (base + of_nat (n * ?z)) cur m') =
    (if i = 0 then 0 else base + of_nat ((i - 1) * ?z))" if i: "i < Suc n" for i
  proof (cases "i = n")
    case True
    then show ?thesis using IH(1) by (simp del: of_nat_mult)
  next
    case False
    then have "i < n" using i by simp
    then have "Suc i * ?z \<le> n * ?z" by (intro mult_le_mono1) simp
    then have "i * ?z + ?z \<le> n * ?z" by simp
    then have "i * ?z + 8 \<le> n * ?z" "i * ?z + 8 < 2 ^ 62" using assms(1) b \<open>(2 :: nat) ^ 61 < 2 ^ 62\<close> by linarith+
    then show ?thesis using keep [of "i * ?z" 8] IH(2) [OF \<open>i < n\<close>] by simp
  qed
  have others: "rd w (base + of_nat x) (wr 8 (base + of_nat (n * ?z)) cur m') = rd w (base + of_nat x) m"
    if "\<forall>i<Suc n. x + w \<le> i * ?z \<or> i * ?z + 8 \<le> x" "x + w < 2 ^ 62" for x w
    using keep [of x w] IH(3) [of x w] that by simp
  show ?case unfolding new fst_conv snd_conv using links others by (simp del: of_nat_mult)
qed

section \<open>The header\<close>

text \<open>The field at \<open>f\<close> of the header at offset \<open>H\<close>, and the object \<open>i\<close>.\<close>

definition fld :: "u64 \<Rightarrow> nat \<Rightarrow> nat \<Rightarrow> u64" where
  "fld base H f = base + of_nat (H + f)"

definition ob :: "u64 \<Rightarrow> nat \<Rightarrow> nat \<Rightarrow> u64" where
  "ob base z i = base + of_nat (i * z)"

lemma fld_add [simp]: "fld base H 0 + numeral k = fld base H (numeral k)"
  by (simp add: fld_def)

lemma rd_fld_wr_fld:
  "f + n \<le> g \<or> g + k \<le> f \<Longrightarrow> f + n \<le> 64 \<Longrightarrow> g + k \<le> 64 \<Longrightarrow> H < 2 ^ 61 \<Longrightarrow>
     rd n (fld base H f) (wr k (fld base H g) v m) = rd n (fld base H f) m"
  unfolding fld_def by (rule rd_wr_off) auto

lemma rd_ob_wr_fld:
  "i * z + 8 \<le> H \<Longrightarrow> H < 2 ^ 61 \<Longrightarrow> g + k \<le> 64 \<Longrightarrow>
     rd 8 (ob base z i) (wr k (fld base H g) v m) = rd 8 (ob base z i) m"
  unfolding fld_def ob_def by (rule rd_wr_off) auto

lemma slab_sel [simp]:
  "ss_mem (put_field n a v st) = wr n a v (ss_mem st)" "ss_caches (put_field n a v st) = ss_caches st"
  "ss_sys (put_field n a v st) = ss_sys st" "ss_kmalloc (put_field n a v st) = ss_kmalloc st"
  "ss_mem (upd_cache c f st) = ss_mem st" "ss_sys (upd_cache c f st) = ss_sys st" "ss_kmalloc (upd_cache c f st) = ss_kmalloc st"
  "ss_caches (upd_cache c f st) = (ss_caches st)(c := f (ss_caches st c))"
  "ss_mem (set_slab_head c l h st) = ss_mem st" "ss_sys (set_slab_head c l h st) = ss_sys st"
  "ss_kmalloc (set_slab_head c l h st) = ss_kmalloc st"
  by (simp_all add: put_field_def upd_cache_def set_slab_head_def)

lemma slab_head_sel [simp]:
  "slab_head c l (put_field n a v st) = slab_head c l st"
  "slab_head c l (set_slab_head c l' h st) = (if l = l' then h else slab_head c l st)"
  "slab_head c l (upd_cache c (\<lambda>k. k\<lparr>kc_total_objs := f k, kc_free_objs := g k\<rparr>) st) = slab_head c l st"
  by (simp_all add: slab_head_def set_slab_head_def upd_cache_def put_field_def)

text \<open>The sizes of a cache.\<close>

definition geometry :: "kmem_cache \<Rightarrow> nat \<Rightarrow> nat \<Rightarrow> nat \<Rightarrow> bool" where
  "geometry k z n H \<longleftrightarrow> z = unat (kc_obj_size k) \<and> n = unat (kc_objs_per_slab k) \<and> H = 4096 * 2 ^ kc_slab_order k - 56 \<and>
     kc_slab_order k \<le> 11 \<and> 8 \<le> z \<and> 2 \<le> n"

definition sizes_of :: "kmem_cache \<Rightarrow> u32 \<times> u32 \<times> nat" where
  "sizes_of k = (kc_obj_size k, kc_objs_per_slab k, kc_slab_order k)"

lemma geometry_cong: "sizes_of k' = sizes_of k \<Longrightarrow> geometry k' z n H = geometry k z n H"
  by (simp add: sizes_of_def geometry_def)

lemma sizes_simps [simp]:
  "sizes_of (k\<lparr>kc_slabs := h\<rparr>) = sizes_of k" "sizes_of (k\<lparr>kc_total_objs := t, kc_free_objs := f\<rparr>) = sizes_of k"
  by (simp_all add: sizes_of_def)

lemma sizes_put [simp]: "sizes_of (ss_caches (set_slab_head c l h st) x) = sizes_of (ss_caches st x)"
  by (simp add: set_slab_head_def)

lemma sizes_add [simp]: "sizes_of (ss_caches (slab_add c l s st) x) = sizes_of (ss_caches st x)"
  by (simp add: slab_add_def Let_def)

lemma sizes_remove [simp]: "sizes_of (ss_caches (slab_remove c l s st) x) = sizes_of (ss_caches st x)"
  by (simp only: slab_remove_def Let_def slab_sel if_distrib [of "\<lambda>s. sizes_of (ss_caches s x)"] sizes_put if_cancel)

lemma sizes_rehome [simp]: "sizes_of (ss_caches (slab_rehome c s st) x) = sizes_of (ss_caches st x)"
  by (simp only: slab_rehome_def Let_def if_distrib [of "\<lambda>s. sizes_of (ss_caches s x)"] sizes_add sizes_remove slab_sel if_cancel)

lemma alloc_sizes:
  assumes "kmem_cache_alloc (Some c) st = Some (p, st')"
  shows "sizes_of (ss_caches st' x) = sizes_of (ss_caches st x)"
proof -
  have "ss_caches st1 = ss_caches st" if h: "slab_create c st = Some (s, st1)" for s st1
  proof -
    obtain v sys1 where a: "alloc_pages_virt (kc_slab_order (ss_caches st c)) (ss_sys st) = Some (v, sys1)"
      using h by (cases "alloc_pages_virt (kc_slab_order (ss_caches st c)) (ss_sys st)") (auto simp: slab_create_def)
    show ?thesis
    proof (cases "v = None \<or> v = Some 0")
      case True
      then show ?thesis using h a by (auto simp: slab_create_def)
    next
      case False
      then obtain b where "v = Some b" "b \<noteq> 0" by auto
      then show ?thesis using h a by (auto simp: slab_create_def Let_def case_prod_beta)
    qed
  qed
  note cr = this
  obtain slab st1 where pk: "pick_slab c st = Some (slab, st1)" using assms by (cases "pick_slab c st") (auto simp: kmem_cache_alloc_def)
  have k: "sizes_of (ss_caches st1 x) = sizes_of (ss_caches st x)"
  proof (cases "slab_head c SLAB_PARTIAL st = 0 \<and> slab_head c SLAB_EMPTY st = 0")
    case True
    then obtain sl st2 where "slab_create c st = Some (sl, st2)" using pk by (cases "slab_create c st") (auto simp: pick_slab_def)
    with cr [OF this] pk True show ?thesis by (cases "sl = 0") (auto simp: pick_slab_def)
  next
    case False
    with pk show ?thesis by (cases "slab_head c SLAB_PARTIAL st = 0") (auto simp: pick_slab_def Let_def)
  qed
  show ?thesis
  proof (cases "slab = 0 \<or> rd 8 (slab + 40) (ss_mem st1) = 0")
    case True
    then have "st' = st1" using assms pk by (cases "slab = 0") (auto simp: kmem_cache_alloc_def)
    then show ?thesis using k by simp
  next
    case False
    then show ?thesis using assms pk k by (auto simp: kmem_cache_alloc_def Let_def)
  qed
qed

text \<open>Slab \<open>base\<close> of \<open>n\<close> objects, \<open>j\<close> of which are free, alone in its cache.\<close>

definition lone_slab :: "nat \<Rightarrow> u64 \<Rightarrow> nat \<Rightarrow> nat \<Rightarrow> nat \<Rightarrow> nat \<Rightarrow> slab_st \<Rightarrow> bool" where
  "lone_slab c base z n H j st \<longleftrightarrow>
     slab_head c SLAB_PARTIAL st = fld base H 0 \<and> slab_head c SLAB_FULL st = 0 \<and>
     rd 8 (fld base H 0) (ss_mem st) = fld base H 0 \<and> rd 8 (fld base H 8) (ss_mem st) = fld base H 0 \<and>
     rd 4 (fld base H 28) (ss_mem st) = of_nat n \<and> rd 4 (fld base H 32) (ss_mem st) = of_nat j \<and>
     rd 8 (fld base H 40) (ss_mem st) = (if j = 0 then 0 else ob base z (j - 1)) \<and> rd 4 (fld base H 48) (ss_mem st) = 1 \<and>
     (\<forall>i<j. rd 8 (ob base z i) (ss_mem st) = (if i = 0 then 0 else ob base z (i - 1)))"

lemma small_words:
  assumes "j < 2 ^ 32" and "i < 2 ^ 32"
  shows "((of_nat j :: u64) = of_nat i) = (j = i)"
proof
  have l: "(2 :: nat) ^ 32 < 2 ^ 64" by simp
  have u: "unat (of_nat j :: u64) = j" "unat (of_nat i :: u64) = i"
    using less_trans [OF assms(1) l] less_trans [OF assms(2) l] by (simp_all add: unat_off)
  assume "(of_nat j :: u64) = of_nat i"
  then show "j = i" using u by metis
qed simp

lemma take_bit_small: "j < 2 ^ 32 \<Longrightarrow> take_bit 32 (of_nat j :: u64) = of_nat j"
  by (simp add: take_bit_of_nat take_bit_nat_eq_self)

lemma geometry_bound: "geometry k z n H \<Longrightarrow> H < 2 ^ 61"
proof -
  assume g: "geometry k z n H"
  then have "(2 :: nat) ^ kc_slab_order k \<le> 2 ^ 11" unfolding geometry_def by (intro power_increasing) auto
  then show ?thesis using g unfolding geometry_def by simp
qed

lemma lone_alloc:
  assumes l: "lone_slab c base z n H (Suc (Suc j)) st" and g: "geometry (ss_caches st c) z n H" and f: "(n - 1) * z + 8 \<le> H"
    and nz: "fld base H 0 \<noteq> 0" "\<And>i. i < n \<Longrightarrow> ob base z i \<noteq> 0" and j: "Suc (Suc j) < n" "n < 2 ^ 32"
  shows "\<exists>st'. kmem_cache_alloc (Some c) st = Some (ob base z (Suc j), st') \<and> lone_slab c base z n H (Suc j) st' \<and>
    ss_sys st' = ss_sys st \<and> ss_kmalloc st' = ss_kmalloc st"
proof -
  note H = geometry_bound [OF g]
  have ij: "i * z + 8 \<le> H" if "i < n" for i
  proof -
    have "i * z \<le> (n - 1) * z" using that by (intro mult_le_mono1) simp
    then show ?thesis using f by linarith
  qed
  note R = rd_fld_wr_fld [OF _ _ _ H] rd_ob_wr_fld [OF ij H]
  have w: "take_bit 32 (1 + of_nat j :: u64) = 1 + of_nat j" "(1 + of_nat j :: u64) \<noteq> 0" "(1 + of_nat j :: u64) \<noteq> of_nat n"
    using take_bit_small [of "Suc j"] small_words [of "Suc j" 0] small_words [of "Suc j" n] j by simp_all
  show ?thesis
    using l nz j unfolding lone_slab_def
    by (simp add: kmem_cache_alloc_def pick_slab_def slab_rehome_def Let_def R w)
qed

text \<open>The last free object is handed out; the slab moves to the list of full slabs but stays at the head of the partial ones.\<close>

lemma lone_alloc_last:
  assumes l: "lone_slab c base z n H (Suc 0) st" and g: "geometry (ss_caches st c) z n H" and f: "(n - 1) * z + 8 \<le> H"
    and nz: "fld base H 0 \<noteq> 0" "\<And>i. i < n \<Longrightarrow> ob base z i \<noteq> 0" and n: "2 \<le> n"
  shows "\<exists>st'. kmem_cache_alloc (Some c) st = Some (ob base z 0, st') \<and> slab_head c SLAB_PARTIAL st' = fld base H 0 \<and>
    rd 8 (fld base H 40) (ss_mem st') = 0 \<and> ss_sys st' = ss_sys st \<and> ss_kmalloc st' = ss_kmalloc st"
proof -
  note H = geometry_bound [OF g]
  have ij: "i * z + 8 \<le> H" if "i < n" for i
  proof -
    have "i * z \<le> (n - 1) * z" using that by (intro mult_le_mono1) simp
    then show ?thesis using f by linarith
  qed
  note R = rd_fld_wr_fld [OF _ _ _ H] rd_ob_wr_fld [OF ij H]
  show ?thesis
    using l nz n unfolding lone_slab_def
    by (simp add: kmem_cache_alloc_def pick_slab_def slab_rehome_def slab_add_def slab_remove_def Let_def R)
qed

text \<open>From then on the cache gives nothing.\<close>

lemma exhausted_alloc:
  assumes "slab_head c SLAB_PARTIAL st = fld base H 0" and "fld base H 0 \<noteq> 0" and "rd 8 (fld base H 40) (ss_mem st) = 0"
  shows "kmem_cache_alloc (Some c) st = Some (0, st)"
  using assms by (simp add: kmem_cache_alloc_def pick_slab_def)

lemma rd_fld_zero: "f + n \<le> 56 \<Longrightarrow> rd n (fld base H f) (zero_bytes (fld base H 0) 56 m) = 0"
  unfolding fld_def by (rule rd_zero_bytes) (simp_all add: unat_off)

lemma header_place:
  assumes "geometry k z n H"
  shows "base + push_bit (kc_slab_order k) 4096 - 56 = fld base H 0"
proof -
  have "(1 :: nat) \<le> 2 ^ kc_slab_order k" by simp
  then have "56 \<le> 4096 * (2 :: nat) ^ kc_slab_order k" by linarith
  then have "(of_nat H :: u64) = of_nat (4096 * 2 ^ kc_slab_order k) - of_nat 56"
    using assms by (simp only: geometry_def of_nat_diff)
  then show ?thesis by (simp add: fld_def push_bit_eq_mult mult.commute)
qed

text \<open>A new slab.\<close>

lemma slab_create_ok:
  assumes g: "geometry (ss_caches st c) z n H" and f: "(n - 1) * z + 8 \<le> H" and n: "n < 2 ^ 32"
    and p: "alloc_pages_virt (kc_slab_order (ss_caches st c)) (ss_sys st) = Some (Some base, sys1)" and nz: "base \<noteq> 0"
  shows "\<exists>st1. slab_create c st = Some (fld base H 0, st1) \<and> ss_caches st1 = ss_caches st \<and> ss_kmalloc st1 = ss_kmalloc st \<and>
    rd 8 (fld base H 0) (ss_mem st1) = 0 \<and> rd 8 (fld base H 8) (ss_mem st1) = 0 \<and>
    rd 4 (fld base H 28) (ss_mem st1) = of_nat n \<and> rd 4 (fld base H 32) (ss_mem st1) = of_nat n \<and>
    rd 8 (fld base H 40) (ss_mem st1) = ob base z (n - 1) \<and> rd 4 (fld base H 48) (ss_mem st1) = 2 \<and>
    (\<forall>i<n. rd 8 (ob base z i) (ss_mem st1) = (if i = 0 then 0 else ob base z (i - 1)))"
proof -
  note H = geometry_bound [OF g]
  let ?k = "ss_caches st c"
  have gz: "z = unat (kc_obj_size ?k)" "n = unat (kc_objs_per_slab ?k)" "8 \<le> z" "2 \<le> n" using g by (simp_all add: geometry_def)
  have ij: "i * z + 8 \<le> H" if "i < n" for i
  proof -
    have "i * z \<le> (n - 1) * z" using that by (intro mult_le_mono1) simp
    then show ?thesis using f by linarith
  qed
  note R = rd_fld_wr_fld [OF _ _ _ H] rd_ob_wr_fld [OF ij H]
  let ?s = "fld base H 0"
  let ?m5 = "wr 4 (fld base H 48) 2 (wr 4 (fld base H 32) (ucast (kc_objs_per_slab ?k)) (wr 4 (fld base H 28) (ucast (kc_objs_per_slab ?k))
    (wr 4 (fld base H 24) (ucast (kc_obj_size ?k)) (wr 8 (fld base H 16) base (zero_bytes ?s 56 (ss_mem st))))))"
  let ?sz = "ucast (kc_obj_size ?k) :: u64"
  define m6 where "m6 = snd (link_objs base ?sz n ?m5)"
  have "unat (kc_obj_size ?k) < 2 ^ LENGTH(32)" by (rule unsigned_less)
  then have z32: "unat (kc_obj_size ?k) < 2 ^ 32" by simp
  then have "unat (kc_obj_size ?k) < 2 ^ 64" by (rule less_trans) simp
  then have zs: "unat ?sz = z" unfolding gz(1) by (simp add: unsigned_ucast_eq take_bit_nat_eq_self)
  have "H < 2 ^ 24"
  proof -
    have "(2 :: nat) ^ kc_slab_order ?k \<le> 2 ^ 11" using g unfolding geometry_def by (intro power_increasing) auto
    then show ?thesis using g unfolding geometry_def by simp
  qed
  moreover have "z < 2 ^ 32" unfolding gz(1) by (rule z32)
  moreover have "n * z = (n - 1) * z + z" using gz(4) by (cases n) simp_all
  ultimately have "n * unat ?sz < 2 ^ 61" using f unfolding zs by simp
  from link_objs_links [OF _ this, of base ?m5] gz(3) have lk: "fst (link_objs base ?sz n ?m5) = ob base z (n - 1)"
    "\<And>i. i < n \<Longrightarrow> rd 8 (ob base z i) m6 = (if i = 0 then 0 else ob base z (i - 1))"
    "\<And>x w. (\<forall>i<n. x + w \<le> i * z \<or> i * z + 8 \<le> x) \<Longrightarrow> x + w < 2 ^ 62 \<Longrightarrow> rd w (base + of_nat x) m6 = rd w (base + of_nat x) ?m5"
    unfolding zs ob_def m6_def using gz(4) by auto
  have fl: "rd w (fld base H x) m6 = rd w (fld base H x) ?m5" if "x + w \<le> 64" for x w
  proof -
    have "\<forall>i<n. H + x + w \<le> i * z \<or> i * z + 8 \<le> H + x" using ij by (meson trans_le_add1)
    moreover have "H + x + w < 2 ^ 62" using that H by simp
    ultimately have r: "rd w (base + of_nat (H + x)) m6 = rd w (base + of_nat (H + x)) ?m5" by (rule lk(3))
    have e: "fld base H x = base + of_nat (H + x)" by (simp only: fld_def)
    show ?thesis unfolding e by (rule r)
  qed
  have un: "ucast (kc_objs_per_slab ?k) = (of_nat n :: u64)" unfolding gz(2) by simp
  let ?st1 = "st\<lparr>ss_sys := mark_pages base (2 ^ kc_slab_order ?k)
      (\<lambda>g. g\<lparr>pg_flags := pg_flags g OR 4, pg_slab_cache := Some c\<rparr>) sys1,
    ss_mem := wr 8 (fld base H 40) (ob base z (n - 1)) m6\<rparr>"
  have "slab_create c st = Some (?s, ?st1)"
    using p nz lk(1) unfolding slab_create_def Let_def header_place [OF g]
    by (simp add: case_prod_beta m6_def gz(2) [symmetric])
  moreover have "rd 8 ?s (ss_mem ?st1) = 0" "rd 8 (fld base H 8) (ss_mem ?st1) = 0"
    "rd 4 (fld base H 28) (ss_mem ?st1) = of_nat n" "rd 4 (fld base H 32) (ss_mem ?st1) = of_nat n"
    "rd 8 (fld base H 40) (ss_mem ?st1) = ob base z (n - 1)" "rd 4 (fld base H 48) (ss_mem ?st1) = 2"
    using n by (simp_all add: R fl rd_fld_zero un take_bit_small)
  moreover have "rd 8 (ob base z i) (ss_mem ?st1) = (if i = 0 then 0 else ob base z (i - 1))" if "i < n" for i
    using that lk(2) [OF that] by (simp add: R)
  ultimately show ?thesis by auto
qed

text \<open>The first allocation from a cache without slabs.\<close>

lemma first_alloc:
  assumes e: "slab_head c SLAB_FULL st = 0" "slab_head c SLAB_PARTIAL st = 0" "slab_head c SLAB_EMPTY st = 0"
    and g: "geometry (ss_caches st c) z n H" and f: "(n - 1) * z + 8 \<le> H" and n: "n < 2 ^ 32"
    and p: "alloc_pages_virt (kc_slab_order (ss_caches st c)) (ss_sys st) = Some (Some base, sys1)"
    and nz: "base \<noteq> 0" "fld base H 0 \<noteq> 0" "\<And>i. i < n \<Longrightarrow> ob base z i \<noteq> 0"
  shows "\<exists>st'. kmem_cache_alloc (Some c) st = Some (ob base z (n - 1), st') \<and> lone_slab c base z n H (n - 1) st' \<and>
    ss_kmalloc st' = ss_kmalloc st \<and> geometry (ss_caches st' c) z n H"
proof -
  note H = geometry_bound [OF g]
  have ij: "i * z + 8 \<le> H" if "i < n" for i
  proof -
    have "i * z \<le> (n - 1) * z" using that by (intro mult_le_mono1) simp
    then show ?thesis using f by linarith
  qed
  note R = rd_fld_wr_fld [OF _ _ _ H] rd_ob_wr_fld [OF ij H]
  from slab_create_ok [OF g f n p nz(1)] obtain st1 where st1: "slab_create c st = Some (fld base H 0, st1)"
    "ss_caches st1 = ss_caches st" "ss_kmalloc st1 = ss_kmalloc st" "rd 8 (fld base H 0) (ss_mem st1) = 0"
    "rd 8 (fld base H 8) (ss_mem st1) = 0" "rd 4 (fld base H 28) (ss_mem st1) = of_nat n"
    "rd 4 (fld base H 32) (ss_mem st1) = of_nat n" "rd 8 (fld base H 40) (ss_mem st1) = ob base z (n - 1)"
    "rd 4 (fld base H 48) (ss_mem st1) = 2"
    "\<And>i. i < n \<Longrightarrow> rd 8 (ob base z i) (ss_mem st1) = (if i = 0 then 0 else ob base z (i - 1))" by blast
  have hd: "slab_head c l st1 = slab_head c l st" for l by (simp add: slab_head_def st1(2))
  have "2 \<le> n" using g by (simp add: geometry_def)
  then obtain m where m: "n = Suc (Suc m)" by (metis add_2_eq_Suc le_Suc_ex)
  have w: "take_bit 32 (1 + of_nat m :: u64) = 1 + of_nat m" "(1 + of_nat m :: u64) \<noteq> 0" "(1 + of_nat m :: u64) \<noteq> 2 + of_nat m"
    using take_bit_small [of "Suc m"] small_words [of "Suc m" 0] small_words [of "Suc m" "Suc (Suc m)"] n m by simp_all
  have o: "ob base z (Suc m) \<noteq> 0" using nz(3) m by simp
  have "\<exists>st'. kmem_cache_alloc (Some c) st = Some (ob base z (n - 1), st') \<and> lone_slab c base z n H (n - 1) st' \<and>
    ss_kmalloc st' = ss_kmalloc st"
    using e nz(2) st1 o unfolding m lone_slab_def
    by (simp add: kmem_cache_alloc_def pick_slab_def slab_rehome_def slab_add_def slab_remove_def Let_def R [unfolded m] w hd)
  then show ?thesis using g geometry_cong [OF alloc_sizes] by blast
qed

section \<open>What a cache hands out\<close>

fun cache_allocs :: "nat \<Rightarrow> nat \<Rightarrow> slab_st \<Rightarrow> (u64 list \<times> slab_st) option" where
  "cache_allocs c 0 st = Some ([], st)"
| "cache_allocs c (Suc k) st = do {
     (p, st1) \<leftarrow> kmem_cache_alloc (Some c) st;
     (ps, st2) \<leftarrow> cache_allocs c k st1;
     Some (p # ps, st2)
   }"

lemma cache_allocs_step:
  "kmem_cache_alloc (Some c) st = Some (p, st1) \<Longrightarrow> cache_allocs c k st1 = Some (ps, st2) \<Longrightarrow>
     cache_allocs c (Suc k) st = Some (p # ps, st2)"
  by simp

lemma exhausted_allocs:
  assumes "slab_head c SLAB_PARTIAL st = fld base H 0" and "fld base H 0 \<noteq> 0" and "rd 8 (fld base H 40) (ss_mem st) = 0"
  shows "cache_allocs c m st = Some (replicate m 0, st)"
  by (induction m) (simp_all add: exhausted_alloc [OF assms])

lemma lone_allocs:
  assumes "lone_slab c base z n H (Suc j) st" and "geometry (ss_caches st c) z n H" and "(n - 1) * z + 8 \<le> H"
    and "fld base H 0 \<noteq> 0" and "\<And>i. i < n \<Longrightarrow> ob base z i \<noteq> 0" and "Suc j < n" and "n < 2 ^ 32"
  shows "\<exists>st'. cache_allocs c (Suc j + m) st = Some (map (ob base z) (rev [0..<Suc j]) @ replicate m 0, st')"
  using assms
proof (induction j arbitrary: st)
  case 0
  have "2 \<le> n" using 0 by simp
  from lone_alloc_last [OF 0(1) 0(2) 0(3) 0(4) 0(5) this] obtain st1 where st1: "kmem_cache_alloc (Some c) st = Some (ob base z 0, st1)"
    "slab_head c SLAB_PARTIAL st1 = fld base H 0" "rd 8 (fld base H 40) (ss_mem st1) = 0" by auto
  show ?case using st1(1) exhausted_allocs [OF st1(2) 0(4) st1(3), of m] by simp
next
  case (Suc j)
  from lone_alloc [OF Suc.prems(1-5) _ Suc.prems(7)] Suc.prems(6) obtain st1 where st1:
    "kmem_cache_alloc (Some c) st = Some (ob base z (Suc j), st1)" "lone_slab c base z n H (Suc j) st1" by auto
  have "geometry (ss_caches st1 c) z n H" using Suc.prems(2) geometry_cong [OF alloc_sizes [OF st1(1)]] by blast
  from Suc.IH [OF st1(2) this Suc.prems(3-5) _ Suc.prems(7)] Suc.prems(6) obtain st' where
    "cache_allocs c (Suc j + m) st1 = Some (map (ob base z) (rev [0..<Suc j]) @ replicate m 0, st')" by auto
  from cache_allocs_step [OF st1(1) this] show ?case by auto
qed

lemma slab_addresses:
  assumes "base \<noteq> 0" and "unat base + H < 2 ^ 64" and "(n - 1) * z + 8 \<le> H"
  shows "fld base H 0 \<noteq> 0" and "i < n \<Longrightarrow> ob base z i \<noteq> 0"
proof -
  have b: "0 < unat base" using assms(1) by (simp add: unat_gt_0)
  have nz: "base + of_nat x \<noteq> 0" if "x \<le> H" for x
  proof -
    have "unat (base + of_nat x) = unat base + x" using assms(2) that by (intro unat_plus_small) simp
    then show ?thesis using b by (metis add_is_0 less_numeral_extra(3) unat_0)
  qed
  then show "fld base H 0 \<noteq> 0" by (simp add: fld_def)
  assume "i < n"
  then have "i * z \<le> (n - 1) * z" by (intro mult_le_mono1) simp
  then have "i * z \<le> H" using assms(3) by linarith
  then show "ob base z i \<noteq> 0" unfolding ob_def by (rule nz)
qed

text \<open>A page allocator whose normal zone has one free block of two pages.\<close>

definition demo_sys :: buddy_system_t where
  "demo_sys = \<lparr>sy_zones = (\<lambda>_. zone_zero\<lparr>zn_free_list := (\<lambda>_. None)(1 := Some 2048), zn_end_pfn := 4096\<rparr>),
     sy_present = (\<lambda>z. z = 2), sy_nr_zones = 1, sy_total_system_pages = 4096,
     sy_pages = (\<lambda>_. \<lparr>pg_next = None, pg_prev = None, pg_order = 1, pg_flags = 0, pg_refcount = 0, pg_zone_idx = 2, pg_slab_cache = None\<rparr>),
     sy_initialized = True\<rparr>"

lemma demo_alloc: "\<exists>sys1. alloc_pages_virt 1 demo_sys = Some (Some 8388608, sys1)"
proof -
  have u: "[Suc 0..<12] = Suc 0 # [2..<12]" by (simp add: upt_conv_Cons)
  show ?thesis
    by (simp add: alloc_pages_virt_def alloc_pages_def alloc_pages_zone_def on_zone_def buddy_alloc_pages_def demo_sys_def u
        pop_unreserved.simps pg_list_pop_def upd_page_def set_head_def add_count_def page_to_virt_def Let_def)
qed

text \<open>
  C24. A cache without slabs hands out the objects of one slab, each once and from the last to the first, and after them it returns
  \<open>NULL\<close> for ever, although there may be memory for another slab: a slab that has become full stays at the head of the
  partial ones. The slab has at least two objects and its pages can be had; the links of the objects must not lie on the
  header, and nobody writes to the objects.
\<close>

theorem cache_yields_one_slab:
  assumes "kc_slabs (ss_caches st c) = (\<lambda>_. 0)" and "geometry (ss_caches st c) z n H" and "(n - 1) * z + 8 \<le> H"
    and "alloc_pages_virt (kc_slab_order (ss_caches st c)) (ss_sys st) = Some (Some base, sys1)"
    and "base \<noteq> 0" and "unat base + H < 2 ^ 64"
  shows "\<exists>st'. cache_allocs c (n + m) st = Some (map (\<lambda>i. base + of_nat (i * z)) (rev [0..<n]) @ replicate m 0, st')"
proof -
  have h: "slab_head c l st = 0" for l using assms(1) by (simp add: slab_head_def)
  have "unat (kc_objs_per_slab (ss_caches st c)) < 2 ^ LENGTH(32)" by (rule unsigned_less)
  then have n: "n < 2 ^ 32" "2 \<le> n" using assms(2) by (simp_all add: geometry_def)
  then obtain j where j: "n = Suc (Suc j)" by (metis add_2_eq_Suc le_Suc_ex)
  note nz = slab_addresses [OF assms(5,6,3)]
  from first_alloc [OF h h h assms(2,3) n(1) assms(4,5) nz] obtain st1 where st1:
    "kmem_cache_alloc (Some c) st = Some (ob base z (n - 1), st1)" "lone_slab c base z n H (n - 1) st1"
    "geometry (ss_caches st1 c) z n H" by blast
  have "lone_slab c base z n H (Suc j) st1" using st1(2) j by simp
  from lone_allocs [OF this st1(3) assms(3) nz _ n(1), of m] j obtain st' where
    "cache_allocs c (Suc j + m) st1 = Some (map (ob base z) (rev [0..<Suc j]) @ replicate m 0, st')" by auto
  from cache_allocs_step [OF st1(1) this] j
  have "cache_allocs c (n + m) st = Some (map (ob base z) (rev [0..<n]) @ replicate m 0, st')" by simp
  then show ?thesis unfolding ob_def by blast
qed

theorem cache_yields_one_slab_witness:
  "\<exists>st'. cache_allocs 0 (4 + 3) \<lparr>ss_mem = (\<lambda>_. 0), ss_sys = demo_sys, ss_caches = (\<lambda>_. cache_zero\<lparr>kc_obj_size := 2048,
       kc_objs_per_slab := 4, kc_slab_order := 1\<rparr>), ss_count = 1, ss_kmalloc = (\<lambda>_. None)\<rparr> =
     Some (map (\<lambda>i. 8388608 + of_nat (i * 2048)) (rev [0..<4]) @ replicate 3 0, st')"
proof -
  obtain sys1 where "alloc_pages_virt 1 demo_sys = Some (Some 8388608, sys1)" using demo_alloc by blast
  then show ?thesis
    using cache_yields_one_slab [of "\<lparr>ss_mem = (\<lambda>_. 0), ss_sys = demo_sys, ss_caches = (\<lambda>_. cache_zero\<lparr>kc_obj_size := 2048,
       kc_objs_per_slab := 4, kc_slab_order := 1\<rparr>), ss_count = 1, ss_kmalloc = (\<lambda>_. None)\<rparr>" 0 2048 4 8136 8388608 sys1 3]
    by (simp add: cache_zero_def geometry_def)
qed

section \<open>The caches of \<open>kmalloc\<close>\<close>

lemma create_pow2:
  assumes "sz \<noteq> 0" and "sz \<le> push_bit 11 4096" and "(sz + sz - 1) AND NOT (sz - 1) = sz" and "8 \<le> sz" and "4096 * 2 div sz = n"
    and "1 \<le> n" and "sz * n = 8192"
  shows "kmem_cache_create nm sz sz st =
    (if ss_count st \<ge> 64 then (None, st)
     else (Some (ss_count st), st\<lparr>ss_count := ss_count st + 1, ss_caches := (ss_caches st)(ss_count st :=
       \<lparr>kc_name = (case nm of None \<Rightarrow> [] | Some s \<Rightarrow> take (32 - 1) s), kc_obj_size = sz, kc_align = sz,
        kc_objs_per_slab = n, kc_slab_order = 1, kc_slabs = (\<lambda>_. 0), kc_total_objs = 0, kc_free_objs = 0\<rparr>)\<rparr>))"
proof -
  have "first_index (\<lambda>o'. \<not> push_bit o' 4096 < sz * n) 11 = Some 1" unfolding assms(7) by (rule first_index_SomeI) simp_all
  then have "slab_order_for sz n = 1" by (simp add: slab_order_for_def)
  moreover have "\<not> sz < 8" "\<not> n < 1" "\<not> sz > push_bit 11 4096" using assms(2,4,6) by (simp_all only: not_less)
  moreover have "(if sz = 0 then 8 else sz) = sz" using assms(1) by simp
  ultimately show ?thesis unfolding kmem_cache_create_def Let_def using assms(1,3,5) by (simp only: if_False if_True simp_thms)
qed

lemma pow2_words:
  assumes "3 \<le> i" and "i \<le> 11"
  shows "(push_bit i 1 :: u32) \<noteq> 0" and "(push_bit i 1 :: u32) \<le> push_bit 11 4096"
    and "(push_bit i 1 + push_bit i 1 - 1 :: u32) AND NOT (push_bit i 1 - 1) = push_bit i 1" and "(8 :: u32) \<le> push_bit i 1"
    and "4096 * 2 div (push_bit i 1 :: u32) = push_bit (13 - i) 1" and "(1 :: u32) \<le> push_bit (13 - i) 1"
    and "(push_bit i 1 :: u32) * push_bit (13 - i) 1 = 8192" and "unat (push_bit i 1 :: u32) = 2 ^ i" and "unat (push_bit (13 - i) 1 :: u32) = 2 ^ (13 - i)"
proof -
  have i: "i \<in> {3, 4, 5, 6, 7, 8, 9, 10, 11}" using assms by auto
  show "(push_bit i 1 :: u32) \<noteq> 0" "(push_bit i 1 :: u32) \<le> push_bit 11 4096"
    "(push_bit i 1 + push_bit i 1 - 1 :: u32) AND NOT (push_bit i 1 - 1) = push_bit i 1" "(8 :: u32) \<le> push_bit i 1"
    "4096 * 2 div (push_bit i 1 :: u32) = push_bit (13 - i) 1" "(1 :: u32) \<le> push_bit (13 - i) 1"
    "(push_bit i 1 :: u32) * push_bit (13 - i) 1 = 8192" "unat (push_bit i 1 :: u32) = 2 ^ i" "unat (push_bit (13 - i) 1 :: u32) = 2 ^ (13 - i)"
    using i by (elim insertE emptyE; simp)+
qed

definition class_cache :: "nat \<Rightarrow> kmem_cache \<Rightarrow> bool" where
  "class_cache i k \<longleftrightarrow> kc_obj_size k = push_bit i 1 \<and> kc_objs_per_slab k = push_bit (13 - i) 1 \<and> kc_slab_order k = 1 \<and>
     kc_slabs k = (\<lambda>_. 0)"

text \<open>\<open>slab_init\<close> makes the cache \<open>i - 3\<close> the one of the objects of \<open>2 ^ i\<close> bytes.\<close>

lemma slab_init_loop:
  assumes "k \<le> 9" and "ss_count st = 0"
  shows "let s = fold (\<lambda>i s. case kmem_cache_create (Some (nm i)) (push_bit i 1) (push_bit i 1) s of
             (c, s') \<Rightarrow> s'\<lparr>ss_kmalloc := (ss_kmalloc s')(i := c)\<rparr>) [3..<3 + k] st
    in ss_count s = k \<and> ss_sys s = ss_sys st \<and> (\<forall>i. 3 \<le> i \<and> i < 3 + k \<longrightarrow> ss_kmalloc s i = Some (i - 3) \<and> class_cache i (ss_caches s (i - 3)))"
  using assms(1)
proof (induction k)
  case 0
  then show ?case using assms(2) by auto
next
  case (Suc k)
  let ?step = "\<lambda>i s. case kmem_cache_create (Some (nm i)) (push_bit i 1) (push_bit i 1) s of
             (c, s') \<Rightarrow> s'\<lparr>ss_kmalloc := (ss_kmalloc s')(i := c)\<rparr>"
  define s where "s = fold ?step [3..<3 + k] st"
  have IH: "ss_count s = k" "ss_sys s = ss_sys st"
    "\<And>i. 3 \<le> i \<Longrightarrow> i < 3 + k \<Longrightarrow> ss_kmalloc s i = Some (i - 3) \<and> class_cache i (ss_caches s (i - 3))"
    using Suc.IH [unfolded Let_def, folded s_def] Suc.prems by simp_all
  have e: "fold ?step [3..<3 + Suc k] st = ?step (3 + k) s"
  proof -
    have "[3..<3 + Suc k] = [3..<3 + k] @ [3 + k]" unfolding add_Suc_right by (rule upt_Suc_append) simp
    then show ?thesis unfolding s_def by (simp only: fold_append fold_simps o_apply)
  qed
  have i: "3 \<le> 3 + k" "3 + k \<le> 11" using Suc.prems by auto
  note cr = create_pow2 [OF pow2_words(1-7) [OF i], of "Some (nm (3 + k))" s]
  define s' where "s' = ?step (3 + k) s"
  have new: "class_cache (3 + k) (ss_caches s' k)" "ss_kmalloc s' (3 + k) = Some k" "ss_count s' = Suc k" "ss_sys s' = ss_sys s"
    using Suc.prems unfolding s'_def cr by (simp_all add: IH(1) class_cache_def)
  have old: "ss_kmalloc s' j = ss_kmalloc s j" if "j < 3 + k" for j
    using Suc.prems that unfolding s'_def cr by (simp add: IH(1))
  have olc: "ss_caches s' j = ss_caches s j" if "j < k" for j
    using Suc.prems that unfolding s'_def cr by (simp add: IH(1))
  have "ss_kmalloc s' i = Some (i - 3) \<and> class_cache i (ss_caches s' (i - 3))" if "3 \<le> i" "i < 3 + Suc k" for i
  proof (cases "i = 3 + k")
    case True
    then show ?thesis using new(1,2) by simp
  next
    case False
    with that have "i < 3 + k" "i - 3 < k" by auto
    then show ?thesis using IH(3) [OF that(1)] old olc by simp
  qed
  then show ?case using new(3,4) IH(2) unfolding Let_def e s'_def by simp
qed

lemma slab_init_caches:
  assumes "3 \<le> i" and "i \<le> 11"
  shows "ss_kmalloc (slab_init st) i = Some (i - 3)" and "class_cache i (ss_caches (slab_init st) (i - 3))"
    and "ss_sys (slab_init st) = ss_sys st"
proof -
  let ?s0 = "st\<lparr>ss_count := 0, ss_caches := (\<lambda>_. cache_zero)\<rparr>"
  have z: "ss_count ?s0 = 0" by simp
  have e: "Suc 11 = 3 + 9" by simp
  from slab_init_loop [OF order_refl z, of "\<lambda>i. ''km_'' @ decimal (2 ^ i)", folded e, folded slab_init_def] assms
  show "ss_kmalloc (slab_init st) i = Some (i - 3)" "class_cache i (ss_caches (slab_init st) (i - 3))"
    "ss_sys (slab_init st) = ss_sys st" unfolding Let_def by simp_all
qed

lemma class_geometry:
  assumes "class_cache i k" and "3 \<le> i" and "i \<le> 11"
  shows "geometry k (2 ^ i) (2 ^ (13 - i)) 8136"
proof -
  have "(2 :: nat) ^ 3 \<le> 2 ^ i" "(2 :: nat) ^ 1 \<le> 2 ^ (13 - i)" using assms(2,3) by (intro power_increasing; simp)+
  then show ?thesis using assms(1) pow2_words(8,9) [OF assms(2,3)] by (simp add: geometry_def class_cache_def)
qed

lemma kmalloc_index_pow2:
  assumes "3 \<le> i" and "i \<le> 11"
  shows "kmalloc_index (2 ^ i) = i" and "(2 ^ i :: u64) \<noteq> 0" and "\<not> (2 ^ i :: u64) > push_bit 11 1" and "unat (2 ^ i :: u64) = 2 ^ i"
proof -
  have i: "i \<in> {3, 4, 5, 6, 7, 8, 9, 10, 11}" using assms by auto
  show "kmalloc_index (2 ^ i) = i" "(2 ^ i :: u64) \<noteq> 0" "\<not> (2 ^ i :: u64) > push_bit 11 1" "unat (2 ^ i :: u64) = 2 ^ i"
    using i by (elim insertE emptyE; simp add: kmalloc_index_def upt_conv_Cons)+
qed

text \<open>
  A size class of \<open>kmalloc\<close> from 64 to 2048 bytes is lost when its first object is cleared: the object covers the header of its
  slab, so that after one \<open>kzalloc\<close> of the class every \<open>kmalloc\<close> of the class returns \<open>NULL\<close>.
\<close>

theorem kzalloc_ruins_class:
  assumes "6 \<le> i" and "i \<le> 11" and "alloc_pages_virt 1 (ss_sys st) = Some (Some base, sys1)" and "base \<noteq> 0" and "unat base + 8136 < 2 ^ 64"
  shows "\<exists>st1. kzalloc (2 ^ i) (slab_init st) = Some (base + of_nat (8192 - 2 ^ i), st1) \<and>
    (\<forall>sz. sz \<noteq> 0 \<and> sz \<le> 2048 \<and> kmalloc_index sz = i \<longrightarrow> kmalloc sz st1 = Some (0, st1))"
proof -
  let ?st = "slab_init st" and ?c = "i - 3" and ?n = "(2 :: nat) ^ (13 - i)" and ?z = "(2 :: nat) ^ i"
  have i: "3 \<le> i" "i \<le> 11" using assms by auto
  note ini = slab_init_caches [OF i, of st]
  note g = class_geometry [OF ini(2) i]
  have nz: "?n * ?z = 8192" using i by (simp add: power_add [symmetric])
  have zz: "64 \<le> ?z" "?z \<le> 2048" using power_increasing [of 6 i "2 :: nat"] power_increasing [of i 11 "2 :: nat"] assms by simp_all
  have "(?n - 1) * ?z = 8192 - ?z" using nz by (simp add: diff_mult_distrib)
  then have f: "(?n - 1) * ?z + 8 \<le> 8136" and last: "(?n - 1) * ?z = 8192 - ?z" using zz by simp_all
  have h: "slab_head ?c l ?st = 0" for l using ini(2) by (simp add: slab_head_def class_cache_def)
  note ad = slab_addresses [OF assms(4,5) f]
  have "?n \<le> 2 ^ 10" using i by (intro power_increasing) auto
  then have n: "?n < 2 ^ 32" by simp
  have p: "alloc_pages_virt (kc_slab_order (ss_caches ?st ?c)) (ss_sys ?st) = Some (Some base, sys1)"
    using assms(3) ini(2,3) by (simp add: class_cache_def)
  from first_alloc [OF h h h g f n p assms(4) ad] obtain st' where st': "kmem_cache_alloc (Some ?c) ?st = Some (ob base ?z (?n - 1), st')"
    "lone_slab ?c base ?z ?n 8136 (?n - 1) st'" "ss_kmalloc st' = ss_kmalloc ?st" by blast
  have o: "ob base ?z (?n - 1) = base + of_nat (8192 - ?z)" unfolding ob_def last by (rule refl)
  have "1 \<le> ?n" by simp
  then have onz: "base + of_nat (8192 - ?z) \<noteq> 0" using ad(2) [of "?n - 1"] unfolding o by simp
  let ?st1 = "st'\<lparr>ss_mem := zero_bytes (base + of_nat (8192 - ?z)) ?z (ss_mem st')\<rparr>"
  note k = kmalloc_index_pow2 [OF i]
  have km: "kmalloc (2 ^ i) ?st = Some (base + of_nat (8192 - ?z), st')"
    using k(2,3) st'(1) ini(1) unfolding kmalloc_def o by (simp add: k(1))
  have kz: "kzalloc (2 ^ i) ?st = Some (base + of_nat (8192 - ?z), ?st1)" using onz unfolding kzalloc_def km k(4) by simp
  have hd: "slab_head ?c SLAB_PARTIAL ?st1 = fld base 8136 0" using st'(2) by (simp add: lone_slab_def slab_head_def)
  have d: "fld base 8136 40 - (base + of_nat (8192 - ?z)) = of_nat (?z - 16)"
  proof -
    have "(of_nat 8176 :: u64) - of_nat (8192 - ?z) = of_nat (8176 - (8192 - ?z))" using zz by (intro of_nat_diff [symmetric]) simp
    moreover have "8176 - (8192 - ?z) = ?z - 16" using zz by simp
    ultimately show ?thesis by (simp add: fld_def)
  qed
  have "unat (of_nat (?z - 16) :: u64) = ?z - 16" using zz by (intro unat_off) simp
  then have "rd 8 (fld base 8136 40) (ss_mem ?st1) = 0" using zz unfolding d [symmetric] by (simp add: rd_zero_bytes)
  note ex = exhausted_alloc [OF hd ad(1) this]
  have "kmalloc sz ?st1 = Some (0, ?st1)" if "sz \<noteq> 0" "sz \<le> 2048" "kmalloc_index sz = i" for sz
  proof -
    have "\<not> sz > push_bit 11 1" using that(2) by (simp add: not_less)
    then show ?thesis using that(1,3) ex st'(3) ini(1) unfolding kmalloc_def by simp
  qed
  with kz show ?thesis by blast
qed

theorem kzalloc_ruins_class_witness:
  "\<exists>st1. kzalloc (2 ^ 6) (slab_init \<lparr>ss_mem = (\<lambda>_. 0), ss_sys = demo_sys, ss_caches = (\<lambda>_. cache_zero), ss_count = 0,
      ss_kmalloc = (\<lambda>_. None)\<rparr>) = Some (8388608 + of_nat (8192 - 2 ^ 6), st1) \<and>
    (\<forall>sz. sz \<noteq> 0 \<and> sz \<le> 2048 \<and> kmalloc_index sz = 6 \<longrightarrow> kmalloc sz st1 = Some (0, st1))"
proof -
  obtain sys1 where "alloc_pages_virt 1 demo_sys = Some (Some 8388608, sys1)" using demo_alloc by blast
  then show ?thesis
    by (intro kzalloc_ruins_class [where base = 8388608]) simp_all
qed

end
