(* ===== verification/CString.thy ===== *)
theory CString
  imports KPrelude
begin

text \<open>
  The string functions of \<open>kernel/lib/libc/string.c\<close>. Memory is a function from addresses to bytes, an address is a natural
  number and a pointer that may be \<open>NULL\<close> is an option. A search for the end of a string that has none never
  returns, which is \<open>None\<close>.
\<close>

section \<open>Memory\<close>

definition memset :: "nat \<Rightarrow> int \<Rightarrow> nat \<Rightarrow> mem \<Rightarrow> mem" where
  "memset p v n m = fold (\<lambda>i m. m(p + i := of_int v)) [0..<n] m"

definition memcpy :: "nat \<Rightarrow> nat \<Rightarrow> nat \<Rightarrow> mem \<Rightarrow> mem" where
  "memcpy d s n m = fold (\<lambda>i m. m(d + i := m (s + i))) [0..<n] m"

definition memmove :: "nat \<Rightarrow> nat \<Rightarrow> nat \<Rightarrow> mem \<Rightarrow> mem" where
  "memmove d s n m =
     (if d < s then fold (\<lambda>i m. m(d + i := m (s + i))) [0..<n] m
      else fold (\<lambda>i m. m(d + i := m (s + i))) (rev [0..<n]) m)"

definition memchr :: "nat \<Rightarrow> int \<Rightarrow> nat \<Rightarrow> mem \<Rightarrow> nat option" where
  "memchr p v n m = map_option (\<lambda>i. p + i) (first_index (\<lambda>i. m (p + i) = of_int v) n)"

definition memcmp :: "nat \<Rightarrow> nat \<Rightarrow> nat \<Rightarrow> mem \<Rightarrow> int" where
  "memcmp p q n m =
     (case first_index (\<lambda>i. m (p + i) \<noteq> m (q + i)) n of None \<Rightarrow> 0 | Some i \<Rightarrow> uint (m (p + i)) - uint (m (q + i)))"

section \<open>Length and comparison\<close>

partial_function (option) strlen_from :: "mem \<Rightarrow> nat \<Rightarrow> nat \<Rightarrow> nat option" where
  "strlen_from m a len = (if m (a + len) \<noteq> 0 then strlen_from m a (len + 1) else Some len)"

definition strlen :: "nat \<Rightarrow> mem \<Rightarrow> nat option" where
  "strlen a m = strlen_from m a 0"

partial_function (option) strcmp :: "nat \<Rightarrow> nat \<Rightarrow> mem \<Rightarrow> int option" where
  "strcmp a b m = (if m a \<noteq> 0 \<and> m a = m b then strcmp (a + 1) (b + 1) m else Some (uint (m a) - uint (m b)))"

fun strncmp :: "nat \<Rightarrow> nat \<Rightarrow> nat \<Rightarrow> mem \<Rightarrow> int" where
  "strncmp a b 0 m = 0"
| "strncmp a b (Suc n) m = (if m a \<noteq> 0 \<and> m a = m b then strncmp (a + 1) (b + 1) n m else uint (m a) - uint (m b))"

section \<open>Copies\<close>

function strncpy_copy :: "nat \<Rightarrow> nat \<Rightarrow> nat \<Rightarrow> nat \<Rightarrow> mem \<Rightarrow> nat \<times> mem" where
  "strncpy_copy d s n i m =
     (if i < n \<and> m (s + i) \<noteq> 0 then strncpy_copy d s n (i + 1) (m(d + i := m (s + i))) else (i, m))"
  by pat_completeness auto
termination
  by (relation "measure (\<lambda>(d, s, n, i, m). n - i)") auto

declare strncpy_copy.simps [simp del]

definition strncpy :: "nat \<Rightarrow> nat \<Rightarrow> nat \<Rightarrow> mem \<Rightarrow> mem" where
  "strncpy d s n m = (case strncpy_copy d s n 0 m of (i, m1) \<Rightarrow> fold (\<lambda>k m. m(d + k := 0)) [i..<n] m1)"

definition strcpy :: "nat \<Rightarrow> nat \<Rightarrow> mem \<Rightarrow> mem option" where
  "strcpy d s m = map_option (\<lambda>n. strncpy d s (n + 1) m) (strlen s m)"

partial_function (option) strcat_copy :: "nat \<Rightarrow> nat \<Rightarrow> nat \<Rightarrow> mem \<Rightarrow> mem option" where
  "strcat_copy e s i m = (if m (s + i) \<noteq> 0 then strcat_copy e s (i + 1) (m(e + i := m (s + i))) else Some (m(e + i := 0)))"

definition strcat :: "nat \<Rightarrow> nat \<Rightarrow> mem \<Rightarrow> mem option" where
  "strcat d s m = Option.bind (strlen d m) (\<lambda>len. strcat_copy (d + len) s 0 m)"

definition strncat :: "nat \<Rightarrow> nat \<Rightarrow> nat \<Rightarrow> mem \<Rightarrow> mem option" where
  "strncat d s n m = map_option (\<lambda>len. case strncpy_copy (d + len) s n 0 m of (i, m1) \<Rightarrow> m1(d + len + i := 0)) (strlen d m)"

section \<open>Searches\<close>

partial_function (option) strchr_loop :: "nat \<Rightarrow> u8 \<Rightarrow> mem \<Rightarrow> nat option option" where
  "strchr_loop s c m =
     (if m s \<noteq> 0 then if m s = c then Some (Some s) else strchr_loop (s + 1) c m
      else Some (if c = 0 then Some s else None))"

definition strchr :: "nat \<Rightarrow> int \<Rightarrow> mem \<Rightarrow> nat option option" where
  "strchr s c m = strchr_loop s (of_int c) m"

partial_function (option) strrchr_loop :: "nat \<Rightarrow> u8 \<Rightarrow> nat option \<Rightarrow> mem \<Rightarrow> nat option option" where
  "strrchr_loop s c lst m =
     (if m s \<noteq> 0 then strrchr_loop (s + 1) c (if m s = c then Some s else lst) m
      else Some (if c = 0 then Some s else lst))"

definition strrchr :: "nat \<Rightarrow> int \<Rightarrow> mem \<Rightarrow> nat option option" where
  "strrchr s c m = strrchr_loop s (of_int c) None m"

partial_function (option) strstr_loop :: "nat \<Rightarrow> nat \<Rightarrow> nat \<Rightarrow> mem \<Rightarrow> nat option option" where
  "strstr_loop p needle n m =
     (if m p \<noteq> 0 then if strncmp p needle n m = 0 then Some (Some p) else strstr_loop (p + 1) needle n m else Some None)"

definition strstr :: "nat \<Rightarrow> nat \<Rightarrow> mem \<Rightarrow> nat option option" where
  "strstr haystack needle m =
     (if m needle = 0 then Some (Some haystack)
      else Option.bind (strlen needle m) (\<lambda>n. strstr_loop haystack needle n m))"

section \<open>Tokens\<close>

text \<open>Moves over the characters that are (\<open>want\<close>) or are not delimiters.\<close>

partial_function (option) tok_span :: "bool \<Rightarrow> nat \<Rightarrow> nat \<Rightarrow> mem \<Rightarrow> nat option" where
  "tok_span want delims p m =
     (if m p \<noteq> 0
      then Option.bind (strchr delims (sint (m p)) m) (\<lambda>r. if (r \<noteq> None) = want then tok_span want delims (p + 1) m else Some p)
      else Some p)"

text \<open>The state is the static pointer and the memory.\<close>

definition strtok :: "nat option \<Rightarrow> nat \<Rightarrow> nat option \<times> mem \<Rightarrow> (nat option \<times> nat option \<times> mem) option" where
  "strtok str delims st =
     (case st of (lst0, m) \<Rightarrow>
        case (if str \<noteq> None then str else lst0) of
          None \<Rightarrow> Some (None, None, m)
        | Some l \<Rightarrow>
            if m l = 0 then Some (None, Some l, m)
            else Option.bind (tok_span True delims l m) (\<lambda>q.
              if m q = 0 then Some (None, Some q, m)
              else Option.bind (tok_span False delims q m) (\<lambda>e.
                Some (if m e \<noteq> 0 then (Some q, Some (e + 1), m(e := 0)) else (Some q, Some e, m)))))"

end
