(* ===== verification/KSort.thy ===== *)
theory KSort
  imports KPrelude
begin

text \<open>
  The sorts of \<open>kernel/api/kapi_sort.c\<close>. The array is a region of memory whose element \<open>i\<close> is the run of \<open>size\<close> bytes from
  \<open>i * size\<close> on; the offsets are natural numbers, since the array fits into the address space. The comparator is a
  parameter that sees the bytes of two elements. A \<open>NULL\<close> base or comparator is \<open>None\<close>.
\<close>

section \<open>Elements\<close>

type_synonym kapi_cmp = "u8 list \<Rightarrow> u8 list \<Rightarrow> int"

definition elt :: "nat \<Rightarrow> mem \<Rightarrow> nat \<Rightarrow> u8 list" where
  "elt sz m i = bytes_at m (i * sz) sz"

text \<open>The exchange of two regions through a buffer of 256 bytes.\<close>

abbreviation (input) SORT_TMP :: nat where "SORT_TMP \<equiv> 256"

function kapi_swap :: "nat \<Rightarrow> nat \<Rightarrow> nat \<Rightarrow> mem \<Rightarrow> mem" where
  "kapi_swap a b n m =
     (if n > 0
      then let c = (if n > SORT_TMP then SORT_TMP else n);
               tmp = copy_obj (\<lambda>_. 0) 0 m a c;
               m1 = copy_obj m a m b c;
               m2 = copy_obj m1 b tmp 0 c
           in kapi_swap (a + c) (b + c) (n - c) m2
      else m)"
  by pat_completeness auto
termination
  by (relation "measure (\<lambda>(a, b, n, m). n)") auto

declare kapi_swap.simps [simp del]

section \<open>Heap sort\<close>

definition bigger_child :: "nat \<Rightarrow> kapi_cmp \<Rightarrow> nat \<Rightarrow> nat \<Rightarrow> mem \<Rightarrow> nat" where
  "bigger_child sz cmp num root m =
     (let child = 2 * root + 1
      in if child + 1 < num \<and> cmp (elt sz m (child + 1)) (elt sz m child) > 0 then child + 1 else child)"

function kapi_sift_down :: "nat \<Rightarrow> kapi_cmp \<Rightarrow> nat \<Rightarrow> nat \<Rightarrow> mem \<Rightarrow> mem" where
  "kapi_sift_down sz cmp num root m =
     (if 2 * root + 1 \<ge> num then m
      else let child = bigger_child sz cmp num root m
           in if cmp (elt sz m child) (elt sz m root) \<le> 0 then m
              else kapi_sift_down sz cmp num child (kapi_swap (root * sz) (child * sz) sz m))"
  by pat_completeness auto
termination
  by (relation "measure (\<lambda>(sz, cmp, num, root, m). num - root)") (auto simp: bigger_child_def Let_def)

declare kapi_sift_down.simps [simp del]

fun heap_build :: "nat \<Rightarrow> kapi_cmp \<Rightarrow> nat \<Rightarrow> nat \<Rightarrow> mem \<Rightarrow> mem" where
  "heap_build sz cmp num 0 m = m"
| "heap_build sz cmp num (Suc i) m = heap_build sz cmp num i (kapi_sift_down sz cmp num i m)"

fun heap_drain :: "nat \<Rightarrow> kapi_cmp \<Rightarrow> nat \<Rightarrow> mem \<Rightarrow> mem" where
  "heap_drain sz cmp 0 m = m"
| "heap_drain sz cmp (Suc i) m =
     heap_drain sz cmp i (kapi_sift_down sz cmp (Suc i) 0 (kapi_swap 0 (Suc i * sz) sz m))"

definition kapi_heapsort :: "mem option \<Rightarrow> nat \<Rightarrow> nat \<Rightarrow> kapi_cmp option \<Rightarrow> mem option" where
  "kapi_heapsort base num sz cmp =
     (case (base, cmp) of
        (Some m, Some f) \<Rightarrow>
          Some (if num < 2 then m else heap_drain sz f (num - 1) (heap_build sz f num (num div 2) m))
      | _ \<Rightarrow> base)"

section \<open>Quicksort\<close>

text \<open>The two scans over the elements that are on the right side already.\<close>

function scan_up :: "nat \<Rightarrow> kapi_cmp \<Rightarrow> nat \<Rightarrow> nat \<Rightarrow> mem \<Rightarrow> nat \<Rightarrow> nat" where
  "scan_up sz cmp low high m i =
     (if i \<le> high \<and> cmp (elt sz m i) (elt sz m low) \<le> 0 then scan_up sz cmp low high m (i + 1) else i)"
  by pat_completeness auto
termination
  by (relation "measure (\<lambda>(sz, cmp, low, high, m, i). high + 1 - i)") auto

fun scan_down :: "nat \<Rightarrow> kapi_cmp \<Rightarrow> nat \<Rightarrow> mem \<Rightarrow> nat \<Rightarrow> nat" where
  "scan_down sz cmp low m j =
     (if j > low \<and> cmp (elt sz m j) (elt sz m low) > 0 then scan_down sz cmp low m (j - 1) else j)"

declare scan_up.simps [simp del] scan_down.simps [simp del]

text \<open>The partition loop and the sort itself; \<open>None\<close> would be a loop that never ends.\<close>

partial_function (option) qsort_partition :: "nat \<Rightarrow> kapi_cmp \<Rightarrow> nat \<Rightarrow> nat \<Rightarrow> nat \<Rightarrow> nat \<Rightarrow> mem \<Rightarrow> (nat \<times> mem) option" where
  "qsort_partition sz cmp low high i j m =
     (if i \<le> j
      then let i' = scan_up sz cmp low high m i;
               j' = scan_down sz cmp low m j
           in qsort_partition sz cmp low high i' j' (if i' < j' then kapi_swap (i' * sz) (j' * sz) sz m else m)
      else Some (j, m))"

partial_function (option) kapi_qsort_internal :: "nat \<Rightarrow> kapi_cmp \<Rightarrow> nat \<Rightarrow> nat \<Rightarrow> mem \<Rightarrow> mem option" where
  "kapi_qsort_internal sz cmp low high m =
     (if low \<ge> high then Some m
      else Option.bind (qsort_partition sz cmp low high (low + 1) high m) (\<lambda>(j, m1).
        let m2 = (if j > low then kapi_swap (low * sz) (j * sz) sz m1 else m1)
        in Option.bind (if j > 0 then kapi_qsort_internal sz cmp low (j - 1) m2 else Some m2)
             (kapi_qsort_internal sz cmp (j + 1) high)))"

definition kapi_qsort :: "mem option \<Rightarrow> nat \<Rightarrow> nat \<Rightarrow> kapi_cmp option \<Rightarrow> mem option option" where
  "kapi_qsort base num sz cmp =
     (case (base, cmp) of
        (Some m, Some f) \<Rightarrow> if num < 2 then Some base else map_option Some (kapi_qsort_internal sz f 0 (num - 1) m)
      | _ \<Rightarrow> Some base)"

definition kapi_sort :: "mem option \<Rightarrow> nat \<Rightarrow> nat \<Rightarrow> kapi_cmp option \<Rightarrow> mem option option" where
  "kapi_sort base num sz cmp = kapi_qsort base num sz cmp"

section \<open>Insertion sort\<close>

fun insert_shift :: "nat \<Rightarrow> kapi_cmp \<Rightarrow> u8 list \<Rightarrow> nat \<Rightarrow> mem \<Rightarrow> nat \<times> mem" where
  "insert_shift sz cmp tmp 0 m = (0, m)"
| "insert_shift sz cmp tmp (Suc j) m =
     (if cmp (elt sz m j) tmp > 0
      then insert_shift sz cmp tmp j (copy_obj m (Suc j * sz) m (j * sz) sz)
      else (Suc j, m))"

definition insert_elt :: "nat \<Rightarrow> kapi_cmp \<Rightarrow> nat \<Rightarrow> mem \<Rightarrow> mem" where
  "insert_elt sz cmp i m =
     (let tmp = elt sz m i; (j, m1) = insert_shift sz cmp tmp i m
      in copy_obj m1 (j * sz) (mem_of_list tmp) 0 sz)"

text \<open>Larger elements overrun the buffer on the stack; the result is \<open>None\<close>.\<close>

definition kapi_insertsort :: "mem option \<Rightarrow> nat \<Rightarrow> nat \<Rightarrow> kapi_cmp option \<Rightarrow> mem option option" where
  "kapi_insertsort base num sz cmp =
     (case (base, cmp) of
        (Some m, Some f) \<Rightarrow>
          if num < 2 then Some base
          else if sz > SORT_TMP then None
          else Some (Some (fold (insert_elt sz f) [1..<num] m))
      | _ \<Rightarrow> Some base)"

text \<open>The sort of linked lists does nothing.\<close>

definition kapi_list_sort :: "'p \<Rightarrow> 'h option \<Rightarrow> ('p \<Rightarrow> 'e \<Rightarrow> 'e \<Rightarrow> int) option \<Rightarrow> 's \<Rightarrow> 's" where
  "kapi_list_sort priv head cmp st = st"

end
