(* ===== verification/KSortProps.thy ===== *)
theory KSortProps
  imports KSort
begin

text \<open>
  The sorts of \<open>kapi_sort.c\<close> on any array and any comparator that is a total preorder: they return, permute the elements,
  leave the rest of the memory alone and bring the elements into ascending order.
\<close>

section \<open>Exchanges\<close>

lemma kapi_swap_regions:
  assumes "a + n \<le> b \<or> b + n \<le> a"
  shows "kapi_swap a b n m x =
    (if a \<le> x \<and> x < a + n then m (b + (x - a)) else if b \<le> x \<and> x < b + n then m (a + (x - b)) else m x)"
  using assms
proof (induction a b n m arbitrary: x rule: kapi_swap.induct)
  case (1 a b n m)
  show ?case
  proof (cases "n = 0")
    case True
    then show ?thesis by (auto simp: kapi_swap.simps)
  next
    case False
    define c where "c = (if n > 256 then 256 else n)"
    have c: "0 < c" "c \<le> n" using False by (auto simp: c_def)
    define m2 where "m2 = copy_obj (copy_obj m a m b c) b (copy_obj (\<lambda>_. 0) 0 m a c) 0 c"
    have m2: "m2 y = (if a \<le> y \<and> y < a + c then m (b + (y - a)) else if b \<le> y \<and> y < b + c then m (a + (y - b)) else m y)" for y
      using "1.prems" c by (auto simp: m2_def copy_obj_def)
    have d: "a + c + (n - c) \<le> b + c \<or> b + c + (n - c) \<le> a + c" using "1.prems" c by auto
    have "kapi_swap (a + c) (b + c) (n - c) m2 y =
      (if a + c \<le> y \<and> y < a + c + (n - c) then m2 (b + c + (y - (a + c)))
       else if b + c \<le> y \<and> y < b + c + (n - c) then m2 (a + c + (y - (b + c))) else m2 y)" for y
      using "1.IH" [OF _ refl refl refl refl, folded c_def, folded m2_def] d False by simp
    moreover have "kapi_swap a b n m = kapi_swap (a + c) (b + c) (n - c) m2"
      using False by (simp add: kapi_swap.simps [of a b n] m2_def c_def Let_def)
    ultimately have r: "kapi_swap a b n m x =
      (if a + c \<le> x \<and> x < a + n then m2 (b + (x - a)) else if b + c \<le> x \<and> x < b + n then m2 (a + (x - b)) else m2 x)"
      using c by (auto simp: add.commute)
    consider "a + c \<le> x" "x < a + n" | "b + c \<le> x" "x < b + n" | "a \<le> x" "x < a + c" | "b \<le> x" "x < b + c"
      | "\<not> (a \<le> x \<and> x < a + n)" "\<not> (b \<le> x \<and> x < b + n)" by linarith
    then show ?thesis
    proof cases
      case 1
      then have "\<not> b + (x - a) < b + c" "\<not> (a \<le> b + (x - a) \<and> b + (x - a) < a + c)" using "1.prems" c by linarith+
      moreover have "\<not> (a \<le> b + (x - a) \<and> b + (x - a) < a + c)" "\<not> (b \<le> b + (x - a) \<and> b + (x - a) < b + c)"
        using 1 "1.prems" c by linarith+
      ultimately show ?thesis using 1 c unfolding r m2 by (simp only: if_False if_True simp_thms) simp
    next
      case 2
      then have "\<not> (b \<le> a + (x - b) \<and> a + (x - b) < b + c)" "\<not> a + (x - b) < a + c" "\<not> (a \<le> x \<and> x < a + n)" using "1.prems" c by linarith+
      moreover have "\<not> (a \<le> a + (x - b) \<and> a + (x - b) < a + c)" "\<not> (a + c \<le> x \<and> x < a + n)"
        using 2 "1.prems" c by linarith+
      ultimately show ?thesis using 2 c unfolding r m2 by (simp only: if_False if_True simp_thms) simp
    next
      case 3
      then have "\<not> (b + c \<le> x \<and> x < b + n)" "\<not> (a + c \<le> x \<and> x < a + n)" "x < a + n" using "1.prems" c by linarith+
      then show ?thesis using 3 unfolding r m2 by (simp only: if_True if_False simp_thms)
    next
      case 4
      then have "\<not> (a \<le> x \<and> x < a + n)" "\<not> (a + c \<le> x \<and> x < a + n)" "\<not> (b + c \<le> x \<and> x < b + n)" "\<not> (a \<le> x \<and> x < a + c)"
        "x < b + n" using "1.prems" c by linarith+
      then show ?thesis using 4 unfolding r m2 by (simp only: if_True if_False simp_thms)
    next
      case 5
      then have "\<not> (a \<le> x \<and> x < a + c)" "\<not> (b \<le> x \<and> x < b + c)" "\<not> (a + c \<le> x \<and> x < a + n)" "\<not> (b + c \<le> x \<and> x < b + n)"
        using c by linarith+
      then show ?thesis using 5 unfolding r by (simp only: m2 if_False)
    qed
  qed
qed

lemma elt_regions: "i < j \<Longrightarrow> i * sz + sz \<le> j * (sz :: nat)"
  by (metis Suc_leI add.commute mult_Suc mult_le_mono1)

lemma elts_apart: "i \<noteq> j \<Longrightarrow> i * sz + sz \<le> j * sz \<or> j * sz + sz \<le> i * (sz :: nat)"
  using elt_regions [of i j sz] elt_regions [of j i sz] by (meson linorder_neqE_nat)

lemma elt_cong: "(\<And>x. k * sz \<le> x \<Longrightarrow> x < k * sz + sz \<Longrightarrow> m x = m' x) \<Longrightarrow> elt sz m k = elt sz m' k"
  unfolding elt_def by (rule bytes_at_cong) simp

lemma elt_swap:
  assumes "i \<noteq> j"
  shows "elt sz (kapi_swap (i * sz) (j * sz) sz m) k = (if k = i then elt sz m j else if k = j then elt sz m i else elt sz m k)"
proof -
  note sw = kapi_swap_regions [OF elts_apart [OF assms], of sz m]
  consider (i) "k = i" | (j) "k = j" "k \<noteq> i" | (o) "k \<noteq> i" "k \<noteq> j" by blast
  then show ?thesis
  proof cases
    case i
    then show ?thesis by (simp add: elt_def sw bytes_at_def)
  next
    case j
    then show ?thesis using elts_apart [OF assms, of sz] by (auto simp: elt_def sw bytes_at_def)
  next
    case o
    have "kapi_swap (i * sz) (j * sz) sz m x = m x" if "k * sz \<le> x" "x < k * sz + sz" for x
    proof -
      have "\<not> (i * sz \<le> x \<and> x < i * sz + sz)" "\<not> (j * sz \<le> x \<and> x < j * sz + sz)"
        using elts_apart [OF o(1), of sz] elts_apart [OF o(2), of sz] that by linarith+
      then show ?thesis unfolding sw by (simp only: if_False)
    qed
    then have "elt sz (kapi_swap (i * sz) (j * sz) sz m) k = elt sz m k" by (rule elt_cong)
    then show ?thesis using o by simp
  qed
qed

section \<open>Rearrangements of a range\<close>

definition elems :: "nat \<Rightarrow> nat \<Rightarrow> nat \<Rightarrow> mem \<Rightarrow> u8 list list" where
  "elems sz lo hi m = map (elt sz m) [lo..<hi]"

lemma upt_split3: "lo' \<le> lo \<Longrightarrow> lo \<le> hi \<Longrightarrow> hi \<le> hi' \<Longrightarrow> [lo'..<hi'] = [lo'..<lo] @ [lo..<hi] @ [hi..<hi']"
proof -
  have cut: "[a..<c] = [a..<b] @ [b..<c]" if h: "a \<le> b" "b \<le> c" for a b c :: nat
  proof -
    obtain d where d: "c = b + d" using h(2) le_Suc_ex by blast
    show ?thesis unfolding d using h(1) by (rule upt_add_eq_append)
  qed
  assume h: "lo' \<le> lo" "lo \<le> hi" "hi \<le> hi'"
  have "lo' \<le> lo" "lo \<le> hi'" using h by simp_all
  then have "[lo'..<hi'] = [lo'..<lo] @ [lo..<hi']" by (rule cut)
  also have "[lo..<hi'] = [lo..<hi] @ [hi..<hi']" using h(2,3) by (rule cut)
  finally show ?thesis .
qed

lemma elems_split3:
  "lo' \<le> lo \<Longrightarrow> lo \<le> hi \<Longrightarrow> hi \<le> hi' \<Longrightarrow> elems sz lo' hi' m = elems sz lo' lo m @ elems sz lo hi m @ elems sz hi hi' m"
  by (simp add: elems_def upt_split3)

lemma elems_single [simp]: "elems sz i (Suc i) m = [elt sz m i]"
  by (simp add: elems_def)

lemma elems_Cons: "lo < hi \<Longrightarrow> elems sz lo hi m = elt sz m lo # elems sz (Suc lo) hi m"
  by (simp add: elems_def upt_conv_Cons)

lemma elems_cong: "(\<And>k. lo \<le> k \<Longrightarrow> k < hi \<Longrightarrow> elt sz m k = elt sz m' k) \<Longrightarrow> elems sz lo hi m = elems sz lo hi m'"
  by (simp add: elems_def)

lemma set_elems: "set (elems sz lo hi m) = elt sz m ` {lo..<hi}"
  by (simp add: elems_def)

definition rearr :: "nat \<Rightarrow> nat \<Rightarrow> nat \<Rightarrow> mem \<Rightarrow> mem \<Rightarrow> bool" where
  "rearr sz lo hi m m' \<longleftrightarrow> mset (elems sz lo hi m') = mset (elems sz lo hi m) \<and>
     (\<forall>x. x < lo * sz \<or> hi * sz \<le> x \<longrightarrow> m' x = m x)"

lemma rearr_refl [simp]: "rearr sz lo hi m m"
  by (simp add: rearr_def)

lemma rearr_trans: "rearr sz lo hi m m' \<Longrightarrow> rearr sz lo hi m' m'' \<Longrightarrow> rearr sz lo hi m m''"
  by (simp add: rearr_def)

lemma rearr_outside: "rearr sz lo hi m m' \<Longrightarrow> k < lo \<or> hi \<le> k \<Longrightarrow> elt sz m' k = elt sz m k"
proof (rule elt_cong)
  fix x assume r: "rearr sz lo hi m m'" and k: "k < lo \<or> hi \<le> k" and x: "k * sz \<le> x" "x < k * sz + sz"
  have "x < lo * sz \<or> hi * sz \<le> x" using k
  proof
    assume "k < lo"
    then show ?thesis using elt_regions [of k lo sz] x by linarith
  next
    assume "hi \<le> k"
    then have "hi * sz \<le> k * sz" by (rule mult_le_mono1)
    then show ?thesis using x by linarith
  qed
  then show "m' x = m x" using r unfolding rearr_def by blast
qed

lemma rearr_elem:
  assumes "rearr sz lo hi m m'" and "lo \<le> k" and "k < hi"
  shows "\<exists>k'. lo \<le> k' \<and> k' < hi \<and> elt sz m' k = elt sz m k'"
proof -
  have "set (elems sz lo hi m') = set (elems sz lo hi m)" using assms(1) unfolding rearr_def by (metis set_mset_mset)
  then have "elt sz m' ` {lo..<hi} = elt sz m ` {lo..<hi}" unfolding set_elems .
  moreover have "elt sz m' k \<in> elt sz m' ` {lo..<hi}" using assms by simp
  ultimately have "elt sz m' k \<in> elt sz m ` {lo..<hi}" by simp
  then show ?thesis by auto
qed

lemma rearr_widen:
  assumes "rearr sz lo hi m m'" and "lo' \<le> lo" and "lo \<le> hi" and "hi \<le> hi'"
  shows "rearr sz lo' hi' m m'"
proof -
  have b: "lo' * sz \<le> lo * sz" "hi * sz \<le> hi' * sz" using assms by (intro mult_le_mono1; simp)+
  have "elems sz lo' lo m' = elems sz lo' lo m" "elems sz hi hi' m' = elems sz hi hi' m"
    by (rule elems_cong, rule rearr_outside [OF assms(1)], use assms in simp)+
  then have "mset (elems sz lo' hi' m') = mset (elems sz lo' hi' m)"
    using assms(1) unfolding rearr_def elems_split3 [OF assms(2-4)] by simp
  moreover have "m' x = m x" if "x < lo' * sz \<or> hi' * sz \<le> x" for x
  proof -
    have "x < lo * sz \<or> hi * sz \<le> x" using that b by linarith
    then show ?thesis using assms(1) unfolding rearr_def by blast
  qed
  ultimately show ?thesis unfolding rearr_def by blast
qed

lemma rearr_swap:
  assumes "lo \<le> i" and "i < j" and "j < hi"
  shows "rearr sz lo hi m (kapi_swap (i * sz) (j * sz) sz m)"
proof -
  let ?m = "kapi_swap (i * sz) (j * sz) sz m"
  have ij: "i \<noteq> j" using assms by simp
  have sp: "elems sz lo hi m' = elems sz lo i m' @ [elt sz m' i] @ elems sz (Suc i) j m' @ [elt sz m' j] @ elems sz (Suc j) hi m'" for m'
  proof -
    have "elems sz lo hi m' = elems sz lo i m' @ elems sz i j m' @ elems sz j hi m'" using assms by (intro elems_split3) auto
    then show ?thesis using elems_Cons [of i j sz m'] elems_Cons [of j hi sz m'] assms by (simp only: append.simps)
  qed
  have "elems sz a b ?m = elems sz a b m" if "b \<le> i \<or> (i < a \<and> b \<le> j) \<or> j < a" for a b
    by (rule elems_cong) (use that assms(2) in \<open>auto simp: elt_swap [OF ij]\<close>)
  then have ms: "mset (elems sz lo hi ?m) = mset (elems sz lo hi m)" unfolding sp by (simp add: elt_swap [OF ij])
  have b: "j * sz + sz \<le> hi * sz" "lo * sz \<le> i * sz" "i * sz \<le> j * sz"
    using elt_regions [of j hi sz] assms by (simp_all add: mult_le_mono1)
  have "?m x = m x" if "x < lo * sz \<or> hi * sz \<le> x" for x
  proof -
    have "\<not> (i * sz \<le> x \<and> x < i * sz + sz)" "\<not> (j * sz \<le> x \<and> x < j * sz + sz)" using that b by linarith+
    then show ?thesis unfolding kapi_swap_regions [OF elts_apart [OF ij]] by (simp only: if_False)
  qed
  with ms show ?thesis unfolding rearr_def by blast
qed

section \<open>Every comparator: the elements are permuted\<close>

lemma bigger_child:
  assumes "2 * root + 1 < num"
  shows "bigger_child sz cmp num root m = 2 * root + 1 \<or> bigger_child sz cmp num root m = 2 * root + 2"
    and "bigger_child sz cmp num root m < num" and "root < bigger_child sz cmp num root m"
  using assms by (auto simp: bigger_child_def Let_def)

lemma sift_rearr: "rearr sz root num m (kapi_sift_down sz cmp num root m)"
proof (induction sz cmp num root m rule: kapi_sift_down.induct)
  case (1 sz cmp num root m)
  show ?case
  proof (cases "2 * root + 1 < num \<and> \<not> cmp (elt sz m (bigger_child sz cmp num root m)) (elt sz m root) \<le> 0")
    case True
    let ?c = "bigger_child sz cmp num root m"
    have "rearr sz root num m (kapi_swap (root * sz) (?c * sz) sz m)" using bigger_child [of root num] True by (intro rearr_swap) auto
    moreover have "rearr sz ?c num (kapi_swap (root * sz) (?c * sz) sz m) (kapi_sift_down sz cmp num ?c (kapi_swap (root * sz) (?c * sz) sz m))"
      using 1 [OF _ refl] True by simp
    then have "rearr sz root num (kapi_swap (root * sz) (?c * sz) sz m) (kapi_sift_down sz cmp num ?c (kapi_swap (root * sz) (?c * sz) sz m))"
      by (rule rearr_widen) (use bigger_child [of root num] True in \<open>auto intro: less_imp_le\<close>)
    ultimately show ?thesis using True by (simp add: kapi_sift_down.simps [of sz cmp num root] Let_def rearr_trans)
  next
    case False
    then show ?thesis by (auto simp: kapi_sift_down.simps [of sz cmp num root] Let_def)
  qed
qed

lemma build_rearr: "i \<le> num \<Longrightarrow> rearr sz 0 num m (heap_build sz cmp num i m)"
proof (induction i arbitrary: m)
  case (Suc i)
  have "rearr sz 0 num m (kapi_sift_down sz cmp num i m)" using rearr_widen [OF sift_rearr] Suc.prems by simp
  then show ?case using Suc by (simp add: rearr_trans)
qed simp

lemma drain_rearr: "rearr sz 0 (Suc i) m (heap_drain sz cmp i m)"
proof (induction i arbitrary: m)
  case (Suc i)
  define m1 where "m1 = kapi_swap 0 (Suc i * sz) sz m"
  define m2 where "m2 = kapi_sift_down sz cmp (Suc i) 0 m1"
  have "rearr sz 0 (Suc (Suc i)) m m1" unfolding m1_def by (rule rearr_swap [of 0 0, unfolded mult_zero_left]) auto
  moreover have "rearr sz 0 (Suc (Suc i)) m1 m2" unfolding m2_def by (rule rearr_widen [OF sift_rearr]) auto
  moreover have "rearr sz 0 (Suc (Suc i)) m2 (heap_drain sz cmp i m2)" by (rule rearr_widen [OF Suc.IH]) auto
  ultimately show ?case unfolding heap_drain.simps m1_def [symmetric] m2_def [symmetric] by (blast intro: rearr_trans)
qed simp

section \<open>Quicksort: the partition\<close>

lemma scan_up_spec:
  "i \<le> scan_up sz cmp low high m i"
  "i \<le> k \<Longrightarrow> k < scan_up sz cmp low high m i \<Longrightarrow> k \<le> high \<and> cmp (elt sz m k) (elt sz m low) \<le> 0"
  "\<not> (scan_up sz cmp low high m i \<le> high \<and> cmp (elt sz m (scan_up sz cmp low high m i)) (elt sz m low) \<le> 0)"
proof (atomize (full), induction "high + 1 - i" arbitrary: i k rule: less_induct)
  case less
  show ?case
  proof (cases "i \<le> high \<and> cmp (elt sz m i) (elt sz m low) \<le> 0")
    case True
    then have e: "scan_up sz cmp low high m i = scan_up sz cmp low high m (Suc i)" by (simp add: scan_up.simps [of sz cmp low high m i])
    have d: "high + 1 - Suc i < high + 1 - i" using conjunct1 [OF True] by linarith
    have IH: "Suc i \<le> scan_up sz cmp low high m (Suc i)"
      "\<And>k. Suc i \<le> k \<Longrightarrow> k < scan_up sz cmp low high m (Suc i) \<Longrightarrow> k \<le> high \<and> cmp (elt sz m k) (elt sz m low) \<le> 0"
      "\<not> (scan_up sz cmp low high m (Suc i) \<le> high \<and> cmp (elt sz m (scan_up sz cmp low high m (Suc i))) (elt sz m low) \<le> 0)"
      using less.hyps [OF d] by blast+
    have "k \<le> high \<and> cmp (elt sz m k) (elt sz m low) \<le> 0" if "i \<le> k" "k < scan_up sz cmp low high m (Suc i)"
      using IH(2) [of k] that True by (cases "k = i") auto
    then show ?thesis using IH(1,3) unfolding e by (meson Suc_leD)
  next
    case False
    have "scan_up sz cmp low high m i = i" by (subst scan_up.simps) (rule if_not_P [OF False])
    then show ?thesis using False by auto
  qed
qed

lemma scan_down_spec:
  "scan_down sz cmp low m j \<le> j"
  "scan_down sz cmp low m j < k \<Longrightarrow> k \<le> j \<Longrightarrow> low < k \<and> \<not> cmp (elt sz m k) (elt sz m low) \<le> 0"
  "low < scan_down sz cmp low m j \<Longrightarrow> cmp (elt sz m (scan_down sz cmp low m j)) (elt sz m low) \<le> 0"
proof (atomize (full), induction j arbitrary: k)
  case 0
  then show ?case by (simp add: scan_down.simps [of sz cmp low m 0])
next
  case (Suc j)
  show ?case
  proof (cases "low < Suc j \<and> cmp (elt sz m (Suc j)) (elt sz m low) > 0")
    case True
    then have e: "scan_down sz cmp low m (Suc j) = scan_down sz cmp low m j" by (simp add: scan_down.simps [of sz cmp low m "Suc j"])
    show ?thesis using Suc [of k] True unfolding e by (cases "k = Suc j") (auto simp: le_Suc_eq)
  next
    case False
    have "scan_down sz cmp low m (Suc j) = Suc j" by (subst scan_down.simps) (rule if_not_P [OF False])
    then show ?thesis using False by auto
  qed
qed

text \<open>The elements on the two sides of the gap \<open>i .. j\<close>.\<close>

definition parted :: "nat \<Rightarrow> kapi_cmp \<Rightarrow> nat \<Rightarrow> nat \<Rightarrow> nat \<Rightarrow> nat \<Rightarrow> mem \<Rightarrow> bool" where
  "parted sz cmp low high i j m \<longleftrightarrow> low < i \<and> i \<le> j + 1 \<and> low \<le> j \<and> j \<le> high \<and>
     (\<forall>k. low < k \<and> k < i \<longrightarrow> cmp (elt sz m k) (elt sz m low) \<le> 0) \<and>
     (\<forall>k. j < k \<and> k \<le> high \<longrightarrow> \<not> cmp (elt sz m k) (elt sz m low) \<le> 0)"

lemma parted_scans:
  assumes p: "parted sz cmp low high i j m" and ij: "i \<le> j"
  defines "i' \<equiv> scan_up sz cmp low high m i" and "j' \<equiv> scan_down sz cmp low m j"
  shows "parted sz cmp low high i' j' m" and "i' < j' \<or> i' = j' + 1" and "i \<le> i'" and "j' \<le> j"
    and "i' < j' \<Longrightarrow> \<not> cmp (elt sz m i') (elt sz m low) \<le> 0 \<and> cmp (elt sz m j') (elt sz m low) \<le> 0"
proof -
  note u = scan_up_spec [where i = i and sz = sz and cmp = cmp and low = low and high = high and m = m, folded i'_def]
  note d = scan_down_spec [where j = j and sz = sz and cmp = cmp and low = low and m = m, folded j'_def]
  have h: "low < i" "low \<le> j" "j \<le> high" "\<And>k. low < k \<Longrightarrow> k < i \<Longrightarrow> cmp (elt sz m k) (elt sz m low) \<le> 0"
    "\<And>k. j < k \<Longrightarrow> k \<le> high \<Longrightarrow> \<not> cmp (elt sz m k) (elt sz m low) \<le> 0"
    using p unfolding parted_def by blast+
  show ii: "i \<le> i'" and jj: "j' \<le> j" by (rule u(1), rule d(1))
  have below: "cmp (elt sz m k) (elt sz m low) \<le> 0" if "low < k" "k < i'" for k
    using h(4) [of k] u(2) [of k] that by (cases "k < i") auto
  have above: "\<not> cmp (elt sz m k) (elt sz m low) \<le> 0" if "j' < k" "k \<le> high" for k
    using h(5) [of k] d(2) [of k] that by (cases "j < k") auto
  have lj: "low \<le> j'"
  proof (rule ccontr)
    assume "\<not> low \<le> j'"
    then show False using d(2) [of low] h(2) by simp
  qed
  have "i' \<le> j' + 1"
  proof (rule ccontr)
    assume g: "\<not> i' \<le> j' + 1"
    then have "j' + 1 < i'" by simp
    moreover have "i' \<le> high + 1" using u(2) [of "i' - 1"] g ii h(1) ij h(3) by (cases "i' - 1 < i") auto
    moreover have "low < j' + 1" using lj by simp
    ultimately show False using below [of "j' + 1"] above [of "j' + 1"] by simp
  qed
  moreover have "i' \<noteq> j'"
  proof
    assume e: "i' = j'"
    then have "low < j'" using ii h(1) by simp
    then show False using d(3) u(3) jj h(3) e by simp
  qed
  ultimately show "i' < j' \<or> i' = j' + 1" by linarith
  show "parted sz cmp low high i' j' m" unfolding parted_def
    using below above lj \<open>i' \<le> j' + 1\<close> ii h(1,3) jj by (meson le_trans less_le_trans)
  show "\<not> cmp (elt sz m i') (elt sz m low) \<le> 0 \<and> cmp (elt sz m j') (elt sz m low) \<le> 0" if "i' < j'"
  proof
    show "\<not> cmp (elt sz m i') (elt sz m low) \<le> 0" using u(3) that jj h(3) by linarith
    show "cmp (elt sz m j') (elt sz m low) \<le> 0" using d(3) that ii h(1) by simp
  qed
qed

lemma parted_swap:
  assumes "parted sz cmp low high i j m" and "i < j"
  shows "parted sz cmp low high i j (kapi_swap (i * sz) (j * sz) sz m)"
proof -
  have "i \<noteq> j" "low \<noteq> i" "low \<noteq> j" using assms by (auto simp: parted_def)
  then show ?thesis using assms unfolding parted_def elt_swap [OF \<open>i \<noteq> j\<close>] by (auto dest: less_imp_neq)
qed

text \<open>Two rounds without progress are not possible: after an exchange the element at \<open>i\<close> lets the scan move on.\<close>

lemma partition_returns:
  assumes "parted sz cmp low high i j m"
  shows "\<exists>j' m'. qsort_partition sz cmp low high i j m = Some (j', m') \<and> parted sz cmp low high (j' + 1) j' m' \<and>
    rearr sz (low + 1) (high + 1) m m' "
  using assms
proof (induction "2 * (j + 1 - i) + (if cmp (elt sz m i) (elt sz m low) \<le> 0 then 0 else 1)" arbitrary: i j m rule: less_induct)
  case less
  show ?case
  proof (cases "i \<le> j")
    case False
    then have "i = j + 1" using less.prems unfolding parted_def by linarith
    moreover have "qsort_partition sz cmp low high i j m = Some (j, m)" using False by (simp add: qsort_partition.simps [of sz cmp low high i])
    ultimately show ?thesis using less.prems rearr_refl by blast
  next
    case True
    define i' where "i' = scan_up sz cmp low high m i"
    define j' where "j' = scan_down sz cmp low m j"
    note p = parted_scans [OF less.prems True, folded i'_def j'_def]
    define m' where "m' = (if i' < j' then kapi_swap (i' * sz) (j' * sz) sz m else m)"
    have e: "qsort_partition sz cmp low high i j m = qsort_partition sz cmp low high i' j' m'"
      using True by (simp add: qsort_partition.simps [of sz cmp low high i] i'_def j'_def m'_def Let_def)
    have q: "parted sz cmp low high i' j' m'" using p(1) parted_swap [OF p(1)] unfolding m'_def by simp
    have b: "low < i'" "j' \<le> high" using p(1) unfolding parted_def by auto
    have r: "rearr sz (low + 1) (high + 1) m m'" using rearr_swap [of "low + 1" i' j' "high + 1" sz m] b unfolding m'_def by simp
    have "2 * (j' + 1 - i') + (if cmp (elt sz m' i') (elt sz m' low) \<le> 0 then 0 else 1) <
      2 * (j + 1 - i) + (if cmp (elt sz m i) (elt sz m low) \<le> 0 then 0 else (1 :: nat))"
    proof (cases "i' = i \<and> j' = j")
      case True
      then have l: "i' < j'" using p(2) \<open>i \<le> j\<close> by auto
      have ne: "i' \<noteq> j'" "low \<noteq> i'" "low \<noteq> j'" using l b by auto
      have "cmp (elt sz m' i') (elt sz m' low) \<le> 0" using p(5) [OF l] l ne(2,3) unfolding m'_def by (simp add: elt_swap [OF ne(1)])
      moreover have "\<not> cmp (elt sz m i) (elt sz m low) \<le> 0" using p(5) [OF l] True by simp
      ultimately show ?thesis using True by simp
    next
      case False
      then have "j' + 1 - i' < j + 1 - i" using p(3,4) True by linarith
      then show ?thesis by simp
    qed
    from less.hyps [OF this q] obtain j2 m2 where "qsort_partition sz cmp low high i' j' m' = Some (j2, m2)"
      "parted sz cmp low high (j2 + 1) j2 m2" "rearr sz (low + 1) (high + 1) m' m2" by blast
    then show ?thesis unfolding e using rearr_trans [OF r] by blast
  qed
qed

text \<open>What one call of the sort does before it calls itself: the pivot comes to its final place.\<close>

definition pivot_step :: "nat \<Rightarrow> kapi_cmp \<Rightarrow> nat \<Rightarrow> nat \<Rightarrow> mem \<Rightarrow> nat \<Rightarrow> mem \<Rightarrow> bool" where
  "pivot_step sz cmp low high m j m2 \<longleftrightarrow> low \<le> j \<and> j \<le> high \<and> rearr sz low (high + 1) m m2 \<and>
     (\<forall>k. low \<le> k \<and> k < j \<longrightarrow> cmp (elt sz m2 k) (elt sz m2 j) \<le> 0) \<and>
     (\<forall>k. j < k \<and> k \<le> high \<longrightarrow> \<not> cmp (elt sz m2 k) (elt sz m2 j) \<le> 0)"

lemma qsort_step:
  assumes "low < high"
  shows "\<exists>j m2. pivot_step sz cmp low high m j m2 \<and> kapi_qsort_internal sz cmp low high m =
    Option.bind (if j > 0 then kapi_qsort_internal sz cmp low (j - 1) m2 else Some m2) (kapi_qsort_internal sz cmp (j + 1) high)"
proof -
  have "parted sz cmp low high (low + 1) high m" using assms unfolding parted_def by auto
  from partition_returns [OF this] obtain j m1 where q: "qsort_partition sz cmp low high (low + 1) high m = Some (j, m1)"
    and p: "parted sz cmp low high (j + 1) j m1" and r: "rearr sz (low + 1) (high + 1) m m1" by blast
  define m2 where "m2 = (if j > low then kapi_swap (low * sz) (j * sz) sz m1 else m1)"
  have b: "low \<le> j" "j \<le> high" and le: "\<And>k. low < k \<Longrightarrow> k \<le> j \<Longrightarrow> cmp (elt sz m1 k) (elt sz m1 low) \<le> 0"
    and gt: "\<And>k. j < k \<Longrightarrow> k \<le> high \<Longrightarrow> \<not> cmp (elt sz m1 k) (elt sz m1 low) \<le> 0"
    using p unfolding parted_def by auto
  have "rearr sz low (high + 1) m m1" by (rule rearr_widen [OF r]) (use assms in auto)
  moreover have "rearr sz low (high + 1) m1 m2" using rearr_swap [of low low j "high + 1" sz m1] b unfolding m2_def by simp
  ultimately have "rearr sz low (high + 1) m m2" by (rule rearr_trans)
  moreover have "cmp (elt sz m2 k) (elt sz m2 j) \<le> 0" if "low \<le> k" "k < j" for k
  proof -
    have ne: "low \<noteq> j" "k \<noteq> j" "low < j" using that by auto
    show ?thesis using le [of k] le [of j] that ne unfolding m2_def by (simp add: elt_swap [OF ne(1)])
  qed
  moreover have "\<not> cmp (elt sz m2 k) (elt sz m2 j) \<le> 0" if "j < k" "k \<le> high" for k
  proof (cases "low = j")
    case True
    then show ?thesis using gt [OF that] unfolding m2_def by simp
  next
    case False
    then show ?thesis using gt [OF that] that b unfolding m2_def by (simp add: elt_swap [OF False])
  qed
  ultimately have "pivot_step sz cmp low high m j m2" using b unfolding pivot_step_def by blast
  moreover have "kapi_qsort_internal sz cmp low high m =
    Option.bind (if j > 0 then kapi_qsort_internal sz cmp low (j - 1) m2 else Some m2) (kapi_qsort_internal sz cmp (j + 1) high)"
    using assms q by (simp add: kapi_qsort_internal.simps [of sz cmp low high] m2_def Let_def)
  ultimately show ?thesis by blast
qed

lemma qsort_empty: "high \<le> low \<Longrightarrow> kapi_qsort_internal sz cmp low high m = Some m"
  by (simp add: kapi_qsort_internal.simps [of sz cmp low high])

lemma qsort_returns: "\<exists>m'. kapi_qsort_internal sz cmp low high m = Some m' \<and> rearr sz low (high + 1) m m'"
proof (induction "high - low" arbitrary: low high m rule: less_induct)
  case less
  show ?case
  proof (cases "low < high")
    case False
    then show ?thesis by (simp add: qsort_empty)
  next
    case True
    from qsort_step [OF True] obtain j m2 where st: "pivot_step sz cmp low high m j m2"
      and e: "kapi_qsort_internal sz cmp low high m = Option.bind (if j > 0 then kapi_qsort_internal sz cmp low (j - 1) m2 else Some m2)
        (kapi_qsort_internal sz cmp (j + 1) high)" by blast
    have j: "low \<le> j" "j \<le> high" "rearr sz low (high + 1) m m2" using st unfolding pivot_step_def by blast+
    obtain m3 where m3: "(if j > 0 then kapi_qsort_internal sz cmp low (j - 1) m2 else Some m2) = Some m3" "rearr sz low j m2 m3"
    proof (cases "j = 0")
      case False
      have "j - 1 - low < high - low" using j False True by linarith
      from less.hyps [OF this, of m2] show thesis using that False by auto
    qed (use that in simp)
    have "high - (j + 1) < high - low" using j True by linarith
    from less.hyps [OF this] obtain m' where m': "kapi_qsort_internal sz cmp (j + 1) high m3 = Some m'" "rearr sz (j + 1) (high + 1) m3 m'" by blast
    have "rearr sz low (high + 1) m2 m3" by (rule rearr_widen [OF m3(2)]) (use j in auto)
    moreover have "rearr sz low (high + 1) m3 m'" by (rule rearr_widen [OF m'(2)]) (use j in auto)
    ultimately have "rearr sz low (high + 1) m m'" using j(3) by (blast intro: rearr_trans)
    then show ?thesis using m3(1) m'(1) unfolding e by simp
  qed
qed

section \<open>Insertion sort\<close>

text \<open>The insertion into a list from its end.\<close>

fun insert_last :: "kapi_cmp \<Rightarrow> u8 list \<Rightarrow> u8 list list \<Rightarrow> u8 list list" where
  "insert_last cmp t xs = (let k = length (takeWhile (\<lambda>x. cmp x t > 0) (rev xs)) in take (length xs - k) xs @ t # drop (length xs - k) xs)"

declare insert_last.simps [simp del]

lemma insert_last_Nil [simp]: "insert_last cmp t [] = [t]"
  by (simp add: insert_last.simps)

lemma insert_last_snoc: "insert_last cmp t (xs @ [x]) = (if cmp x t > 0 then insert_last cmp t xs @ [x] else xs @ [x, t])"
proof -
  have "length (takeWhile P (rev ys)) \<le> length ys" for P and ys :: "u8 list list" by (metis length_rev length_takeWhile_le)
  then show ?thesis by (simp add: insert_last.simps Let_def Suc_diff_le)
qed

lemma elems_snoc: "lo \<le> n \<Longrightarrow> elems sz lo (Suc n) m = elems sz lo n m @ [elt sz m n]"
  by (simp add: elems_def)

lemma elt_copy:
  "elt sz (copy_obj m (i * sz) src off sz) k = (if k = i then bytes_at src off sz else elt sz m k)"
proof (cases "k = i")
  case True
  then show ?thesis by (simp add: elt_def)
next
  case False
  have "elt sz (copy_obj m (i * sz) src off sz) k = elt sz m k"
  proof (rule elt_cong)
    fix x assume "k * sz \<le> x" "x < k * sz + sz"
    then show "copy_obj m (i * sz) src off sz x = m x" using elts_apart [OF False, of sz] by (intro copy_obj_out) linarith
  qed
  then show ?thesis using False by simp
qed

lemma length_elt [simp]: "length (elt sz m k) = sz"
  by (simp add: elt_def)

lemma bytes_mem_of_elt [simp]: "length t = sz \<Longrightarrow> bytes_at (mem_of_list t) 0 sz = t"
  by (metis bytes_at_mem_of_list)

lemma insert_shift_spec:
  assumes "insert_shift sz cmp t n m = (j, m1)" and "length t = sz"
  shows "elems sz 0 (Suc n) (copy_obj m1 (j * sz) (mem_of_list t) 0 sz) = insert_last cmp t (elems sz 0 n m)"
    and "\<And>x. Suc n * sz \<le> x \<Longrightarrow> copy_obj m1 (j * sz) (mem_of_list t) 0 sz x = m x"
  using assms
proof (atomize (full), induction n arbitrary: m)
  case 0
  then show ?case by (auto simp: elems_def elt_copy [of sz _ 0, simplified] copy_obj_out)
next
  case (Suc n)
  show ?case
  proof (cases "cmp (elt sz m n) t > 0")
    case True
    define m2 where "m2 = copy_obj m (Suc n * sz) m (n * sz) sz"
    have sh: "insert_shift sz cmp t n m2 = (j, m1)" using Suc.prems True unfolding m2_def by simp
    note IH = Suc.IH [OF sh Suc.prems(2)]
    have "elems sz 0 n m2 = elems sz 0 n m" unfolding m2_def by (rule elems_cong) (simp add: elt_copy del: mult_Suc)
    moreover have "elt sz (copy_obj m1 (j * sz) (mem_of_list t) 0 sz) (Suc n) = elt sz m2 (Suc n)"
      by (rule elt_cong) (use IH in simp)
    moreover have "elt sz m2 (Suc n) = elt sz m n" unfolding m2_def by (simp add: elt_copy elt_def del: mult_Suc)
    ultimately have "elems sz 0 (Suc (Suc n)) (copy_obj m1 (j * sz) (mem_of_list t) 0 sz) = insert_last cmp t (elems sz 0 (Suc n) m)"
      using IH True by (simp add: elems_snoc [of 0 "Suc n"] elems_snoc [of 0 n sz m] insert_last_snoc)
    moreover have "copy_obj m1 (j * sz) (mem_of_list t) 0 sz x = m x" if "Suc (Suc n) * sz \<le> x" for x
    proof -
      have "copy_obj m1 (j * sz) (mem_of_list t) 0 sz x = m2 x" using IH that by simp
      also have "m2 x = m x" unfolding m2_def by (rule copy_obj_out) (use that in simp)
      finally show ?thesis .
    qed
    ultimately show ?thesis by blast
  next
    case False
    then have e: "j = Suc n" "m1 = m" using Suc.prems by auto
    have "elems sz 0 (Suc n) (copy_obj m (Suc n * sz) (mem_of_list t) 0 sz) = elems sz 0 (Suc n) m"
      by (rule elems_cong) (simp add: elt_copy del: mult_Suc)
    then have "elems sz 0 (Suc (Suc n)) (copy_obj m (Suc n * sz) (mem_of_list t) 0 sz) = insert_last cmp t (elems sz 0 (Suc n) m)"
      using False Suc.prems(2) elems_snoc [of 0 n sz m] by (simp add: elems_snoc [of 0 "Suc n"] insert_last_snoc elt_copy del: mult_Suc)
    moreover have "copy_obj m (Suc n * sz) (mem_of_list t) 0 sz x = m x" if "Suc (Suc n) * sz \<le> x" for x
      by (rule copy_obj_out) (use that in simp)
    ultimately show ?thesis unfolding e by blast
  qed
qed

lemma insert_elt_spec:
  "elems sz 0 (Suc n) (insert_elt sz cmp n m) = insert_last cmp (elt sz m n) (elems sz 0 n m)"
  "Suc n * sz \<le> x \<Longrightarrow> insert_elt sz cmp n m x = m x"
proof (atomize (full))
  obtain j m1 where s: "insert_shift sz cmp (elt sz m n) n m = (j, m1)" by (cases "insert_shift sz cmp (elt sz m n) n m")
  show "elems sz 0 (Suc n) (insert_elt sz cmp n m) = insert_last cmp (elt sz m n) (elems sz 0 n m) \<and>
    (Suc n * sz \<le> x \<longrightarrow> insert_elt sz cmp n m x = m x)"
    using insert_shift_spec [OF s length_elt] by (simp add: insert_elt_def s)
qed

lemma insertsort_list:
  "elems sz 0 (Suc n) (fold (insert_elt sz cmp) [1..<Suc n] m) = fold (insert_last cmp) (elems sz 1 (Suc n) m) [elt sz m 0] \<and>
   (\<forall>x. Suc n * sz \<le> x \<longrightarrow> fold (insert_elt sz cmp) [1..<Suc n] m x = m x)"
proof (induction n)
  case 0
  then show ?case by (simp add: elems_def)
next
  case (Suc n)
  let ?m1 = "fold (insert_elt sz cmp) [1..<Suc n] m"
  have e: "fold (insert_elt sz cmp) [1..<Suc (Suc n)] m = insert_elt sz cmp (Suc n) ?m1" by simp
  have "elt sz ?m1 (Suc n) = elt sz m (Suc n)" by (rule elt_cong) (use Suc in simp)
  then show ?case unfolding e using Suc insert_elt_spec [where n = "Suc n" and m = ?m1 and sz = sz and cmp = cmp] elems_snoc [of 1 "Suc n" sz m] by simp
qed

section \<open>Comparators\<close>

text \<open>A comparator that is a total preorder. \<open>le x y\<close> is the test \<open>cmp(x, y) <= 0\<close>.\<close>

locale comparator =
  fixes cmp :: kapi_cmp
  assumes cmp_total: "cmp x y \<le> 0 \<or> cmp y x \<le> 0"
    and cmp_trans: "cmp x y \<le> 0 \<Longrightarrow> cmp y z \<le> 0 \<Longrightarrow> cmp x z \<le> 0"
begin

definition sorted_range :: "nat \<Rightarrow> nat \<Rightarrow> nat \<Rightarrow> mem \<Rightarrow> bool" where
  "sorted_range sz lo hi m \<longleftrightarrow> (\<forall>a b. lo \<le> a \<and> a < b \<and> b < hi \<longrightarrow> cmp (elt sz m a) (elt sz m b) \<le> 0)"

definition heap_from :: "nat \<Rightarrow> nat \<Rightarrow> nat \<Rightarrow> mem \<Rightarrow> bool" where
  "heap_from sz r n m \<longleftrightarrow> (\<forall>c. 0 < c \<and> c < n \<and> r \<le> (c - 1) div 2 \<longrightarrow> cmp (elt sz m c) (elt sz m ((c - 1) div 2)) \<le> 0)"

text \<open>Only the element \<open>i\<close> may be smaller than its children, but not than they allow for its parent.\<close>

definition heap_except :: "nat \<Rightarrow> nat \<Rightarrow> nat \<Rightarrow> nat \<Rightarrow> mem \<Rightarrow> bool" where
  "heap_except sz r n i m \<longleftrightarrow>
     (\<forall>c. 0 < c \<and> c < n \<and> r \<le> (c - 1) div 2 \<longrightarrow>
        ((c - 1) div 2 \<noteq> i \<longrightarrow> cmp (elt sz m c) (elt sz m ((c - 1) div 2)) \<le> 0) \<and>
        ((c - 1) div 2 = i \<and> 0 < i \<and> r \<le> (i - 1) div 2 \<longrightarrow> cmp (elt sz m c) (elt sz m ((i - 1) div 2)) \<le> 0))"

lemma cmp_refl: "cmp x x \<le> 0"
  using cmp_total [of x x] by simp

lemma sorted_range_list: "sorted_range sz lo hi m \<Longrightarrow> sorted_wrt (\<lambda>x y. cmp x y \<le> 0) (elems sz lo hi m)"
  unfolding sorted_range_def elems_def sorted_wrt_iff_nth_less by auto

lemma child_parent: "c = 2 * i + 1 \<or> c = 2 * i + 2 \<longleftrightarrow> 0 < c \<and> (c - 1) div 2 = (i :: nat)"
  by arith

lemma bigger_child_max:
  assumes "2 * i + 1 < n" and "c = 2 * i + 1 \<or> c = 2 * i + 2" and "c < n"
  shows "cmp (elt sz m c) (elt sz m (bigger_child sz cmp n i m)) \<le> 0"
  using assms cmp_total [of "elt sz m (2 * i + 1)" "elt sz m (2 * i + 2)"] cmp_refl by (auto simp: bigger_child_def Let_def)

lemma heap_except_swap:
  assumes h: "heap_except sz r n i m" and i: "2 * i + 1 < n" and r: "r \<le> i"
    and less: "\<not> cmp (elt sz m (bigger_child sz cmp n i m)) (elt sz m i) \<le> 0"
  shows "heap_except sz r n (bigger_child sz cmp n i m) (kapi_swap (i * sz) (bigger_child sz cmp n i m * sz) sz m)"
proof -
  let ?k = "bigger_child sz cmp n i m"
  let ?m = "kapi_swap (i * sz) (?k * sz) sz m"
  note k = bigger_child [OF i, of sz cmp m]
  have ne: "i \<noteq> ?k" using k(3) by simp
  have kp: "0 < ?k" "(?k - 1) div 2 = i" using k(1) child_parent by blast+
  note sw = elt_swap [OF ne, of sz m]
  have le: "cmp (elt sz m i) (elt sz m ?k) \<le> 0" using cmp_total less by blast
  show ?thesis unfolding heap_except_def
  proof (intro allI impI conjI)
    fix c assume c: "0 < c \<and> c < n \<and> r \<le> (c - 1) div 2" and p: "(c - 1) div 2 \<noteq> ?k"
    show "cmp (elt sz ?m c) (elt sz ?m ((c - 1) div 2)) \<le> 0"
    proof (cases "(c - 1) div 2 = i")
      case True
      then have ci: "c = 2 * i + 1 \<or> c = 2 * i + 2" using child_parent c by blast
      then have "c \<noteq> i" by auto
      then show ?thesis using True le bigger_child_max [OF i ci, of sz m] c unfolding sw by (cases "c = ?k") auto
    next
      case False
      have "c \<noteq> ?k" using False kp(2) by auto
      show ?thesis
      proof (cases "c = i")
        case True
        have "0 < i" "r \<le> (i - 1) div 2" using c True by auto
        moreover have "0 < ?k \<and> ?k < n \<and> r \<le> (?k - 1) div 2" using kp k(2) r by simp
        ultimately have "cmp (elt sz m ?k) (elt sz m ((i - 1) div 2)) \<le> 0" using h kp(2) unfolding heap_except_def by blast
        then show ?thesis using True False p \<open>c \<noteq> ?k\<close> unfolding sw by simp
      next
        case False
        with \<open>c \<noteq> ?k\<close> \<open>(c - 1) div 2 \<noteq> i\<close> p c h show ?thesis unfolding sw heap_except_def by simp
      qed
    qed
  next
    fix c assume c: "0 < c \<and> c < n \<and> r \<le> (c - 1) div 2" and p: "(c - 1) div 2 = ?k \<and> 0 < ?k \<and> r \<le> (?k - 1) div 2"
    have "c \<noteq> ?k" "c \<noteq> i" using p k(3) by auto
    moreover have "cmp (elt sz m c) (elt sz m ?k) \<le> 0" using h c p ne unfolding heap_except_def by auto
    ultimately show "cmp (elt sz ?m c) (elt sz ?m ((?k - 1) div 2)) \<le> 0" unfolding sw kp(2) using ne by simp
  qed
qed

lemma sift_down_heap:
  "heap_except sz r n i m \<Longrightarrow> r \<le> i \<Longrightarrow> heap_from sz r n (kapi_sift_down sz cmp n i m)"
proof (induction "n - i" arbitrary: i m rule: less_induct)
  case less
  let ?k = "bigger_child sz cmp n i m"
  show ?case
  proof (cases "2 * i + 1 < n \<and> \<not> cmp (elt sz m ?k) (elt sz m i) \<le> 0")
    case True
    then have i: "2 * i + 1 < n" by blast
    note k = bigger_child [OF i, of sz cmp m]
    have "heap_from sz r n (kapi_sift_down sz cmp n ?k (kapi_swap (i * sz) (?k * sz) sz m))"
      using less.hyps [OF _ heap_except_swap [OF less.prems(1) i less.prems(2)]] True k less.prems(2) by auto
    then show ?thesis using True by (simp add: kapi_sift_down.simps [of sz cmp n i] Let_def)
  next
    case False
    have "cmp (elt sz m c) (elt sz m ((c - 1) div 2)) \<le> 0" if c: "0 < c" "c < n" "r \<le> (c - 1) div 2" for c
    proof (cases "(c - 1) div 2 = i")
      case True
      then have ci: "c = 2 * i + 1 \<or> c = 2 * i + 2" using child_parent c by blast
      then have i: "2 * i + 1 < n" using c by auto
      then have "cmp (elt sz m ?k) (elt sz m i) \<le> 0" using False by blast
      then show ?thesis using bigger_child_max [OF i ci c(2), of sz m] cmp_trans True by blast
    next
      case False
      then show ?thesis using less.prems(1) c unfolding heap_except_def by blast
    qed
    then have "heap_from sz r n m" unfolding heap_from_def by blast
    then show ?thesis using False by (auto simp: kapi_sift_down.simps [of sz cmp n i] Let_def)
  qed
qed

lemma heap_from_except: "heap_from sz (Suc i) n m \<Longrightarrow> heap_except sz i n i m"
  unfolding heap_from_def heap_except_def by (auto simp: le_Suc_eq Suc_le_eq dest: le_neq_implies_less)

lemma heap_build_heap: "heap_from sz i n m \<Longrightarrow> heap_from sz 0 n (heap_build sz cmp n i m)"
proof (induction i arbitrary: m)
  case (Suc i)
  then show ?case using sift_down_heap [OF heap_from_except [OF Suc.prems]] by simp
qed simp

lemma heap_root_max: "heap_from sz 0 n m \<Longrightarrow> c < n \<Longrightarrow> cmp (elt sz m c) (elt sz m 0) \<le> 0"
proof (induction c rule: less_induct)
  case (less c)
  show ?case
  proof (cases "c = 0")
    case True
    then show ?thesis by (simp add: cmp_refl)
  next
    case False
    then have "cmp (elt sz m c) (elt sz m ((c - 1) div 2)) \<le> 0" using less.prems unfolding heap_from_def by simp
    moreover have "cmp (elt sz m ((c - 1) div 2)) (elt sz m 0) \<le> 0" using less.IH [of "(c - 1) div 2"] less.prems False by simp
    ultimately show ?thesis by (rule cmp_trans)
  qed
qed

lemma heap_drain_sorts:
  assumes "heap_from sz 0 (Suc i) m" and "sorted_range sz (Suc i) n m"
    and "\<And>a b. a \<le> i \<Longrightarrow> i < b \<Longrightarrow> b < n \<Longrightarrow> cmp (elt sz m a) (elt sz m b) \<le> 0" and "i < n"
  shows "sorted_range sz 0 n (heap_drain sz cmp i m)"
  using assms
proof (induction i arbitrary: m)
  case 0
  then show ?case unfolding sorted_range_def by (simp add: le_Suc_eq Suc_le_eq) (metis gr0I)
next
  case (Suc i)
  let ?m1 = "kapi_swap (0 * sz) (Suc i * sz) sz m"
  let ?m2 = "kapi_sift_down sz cmp (Suc i) 0 ?m1"
  have sw: "elt sz ?m1 k = (if k = 0 then elt sz m (Suc i) else if k = Suc i then elt sz m 0 else elt sz m k)" for k
    by (rule elt_swap) simp
  have ex: "heap_except sz 0 (Suc i) 0 ?m1"
    using Suc.prems(1) unfolding heap_from_def heap_except_def sw by auto
  have r: "rearr sz 0 (Suc i) ?m1 ?m2" by (rule sift_rearr)
  have in1: "\<exists>k'. k' < Suc (Suc i) \<and> elt sz ?m2 k = elt sz m k'" if h: "k < Suc i" for k
  proof -
    obtain k' where k': "k' < Suc i" "elt sz ?m2 k = elt sz ?m1 k'" using rearr_elem [OF r _ h] by auto
    then have "elt sz ?m2 k = (if k' = 0 then elt sz m (Suc i) else elt sz m k')" unfolding sw by simp
    moreover have "k' < Suc (Suc i)" "Suc i < Suc (Suc i)" using k'(1) by simp_all
    ultimately show ?thesis by (metis (full_types))
  qed
  have out: "elt sz ?m2 k = (if k = Suc i then elt sz m 0 else elt sz m k)" if "Suc i \<le> k" for k
    using rearr_outside [OF r] that unfolding sw by simp
  have top: "cmp (elt sz m k) (elt sz m 0) \<le> 0" if "k < Suc (Suc i)" for k using heap_root_max [OF Suc.prems(1) that] .
  have small: "cmp (elt sz ?m2 a) (elt sz ?m2 b) \<le> 0" if ab: "a \<le> i" "i < b" "b < n" for a b
  proof -
    obtain k' where k': "k' < Suc (Suc i)" "elt sz ?m2 a = elt sz m k'" using in1 [of a] ab by auto
    show ?thesis
    proof (cases "b = Suc i")
      case True
      then show ?thesis using k' top out [of b] by simp
    next
      case False
      then show ?thesis using k' out [of b] ab Suc.prems(3) [of k' b] by simp
    qed
  qed
  have "sorted_range sz (Suc i) n ?m2" unfolding sorted_range_def
  proof (intro allI impI)
    fix a b assume ab: "Suc i \<le> a \<and> a < b \<and> b < n"
    then show "cmp (elt sz ?m2 a) (elt sz ?m2 b) \<le> 0"
      using out [of a] out [of b] Suc.prems(2,3) unfolding sorted_range_def by (cases "a = Suc i") auto
  qed
  then have "sorted_range sz 0 n (heap_drain sz cmp i ?m2)"
    using Suc.IH [OF sift_down_heap [OF ex order_refl] _ small] Suc.prems(4) by simp
  then show ?case by simp
qed

lemma heapsort_sorts:
  assumes "2 \<le> n"
  shows "sorted_range sz 0 n (heap_drain sz cmp (n - 1) (heap_build sz cmp n (n div 2) m))"
proof -
  have "heap_from sz (n div 2) n m" unfolding heap_from_def by auto
  then have "heap_from sz 0 n (heap_build sz cmp n (n div 2) m)" by (rule heap_build_heap)
  then show ?thesis using assms by (intro heap_drain_sorts) (auto simp: sorted_range_def)
qed

lemma qsort_sorts: "kapi_qsort_internal sz cmp low high m = Some m' \<Longrightarrow> sorted_range sz low (high + 1) m'"
proof (induction "high - low" arbitrary: low high m m' rule: less_induct)
  case less
  show ?case
  proof (cases "low < high")
    case False
    then show ?thesis unfolding sorted_range_def by auto
  next
    case True
    from qsort_step [OF True] obtain j m2 where st: "pivot_step sz cmp low high m j m2"
      and e: "kapi_qsort_internal sz cmp low high m = Option.bind (if j > 0 then kapi_qsort_internal sz cmp low (j - 1) m2 else Some m2)
        (kapi_qsort_internal sz cmp (j + 1) high)" by blast
    have j: "low \<le> j" "j \<le> high" and le: "\<And>k. low \<le> k \<Longrightarrow> k < j \<Longrightarrow> cmp (elt sz m2 k) (elt sz m2 j) \<le> 0"
      and gt: "\<And>k. j < k \<Longrightarrow> k \<le> high \<Longrightarrow> \<not> cmp (elt sz m2 k) (elt sz m2 j) \<le> 0" using st unfolding pivot_step_def by blast+
    obtain m3 where m3: "(if j > 0 then kapi_qsort_internal sz cmp low (j - 1) m2 else Some m2) = Some m3"
      "kapi_qsort_internal sz cmp (j + 1) high m3 = Some m'"
      using less.prems unfolding e bind_eq_Some_conv by blast
    have r3: "rearr sz low j m2 m3" and s3: "sorted_range sz low j m3"
    proof (atomize (full), cases "j = 0")
      case True
      then show "rearr sz low j m2 m3 \<and> sorted_range sz low j m3" using m3(1) unfolding sorted_range_def by auto
    next
      case False
      have "j - 1 - low < high - low" using j False True by linarith
      then have "sorted_range sz low (j - 1 + 1) m3" using less.hyps [of "j - 1" low m2 m3] m3(1) False by simp
      moreover have "rearr sz low (j - 1 + 1) m2 m3" using qsort_returns [of sz cmp low "j - 1" m2] m3(1) False by auto
      ultimately show "rearr sz low j m2 m3 \<and> sorted_range sz low j m3" using False by simp
    qed
    have "high - (j + 1) < high - low" using j True by linarith
    then have s4: "sorted_range sz (j + 1) (high + 1) m'" using less.hyps m3(2) by blast
    have r4: "rearr sz (j + 1) (high + 1) m3 m'" using qsort_returns [of sz cmp "j + 1" high m3] m3(2) by auto
    have low': "elt sz m' k = elt sz m3 k" if "k \<le> j" for k using rearr_outside [OF r4] that by simp
    have pj: "elt sz m' j = elt sz m2 j" using low' [of j] rearr_outside [OF r3, of j] by simp
    have left: "cmp (elt sz m' k) (elt sz m' j) \<le> 0" if k: "low \<le> k" "k < j" for k
      using rearr_elem [OF r3 k] low' [of k] k le unfolding pj by force
    have right: "cmp (elt sz m' j) (elt sz m' k) \<le> 0" if k: "j < k" "k \<le> high" for k
    proof -
      obtain k' where k': "j + 1 \<le> k'" "k' < high + 1" "elt sz m' k = elt sz m3 k'" using rearr_elem [OF r4, of k] k by auto
      have "elt sz m3 k' = elt sz m2 k'" using rearr_outside [OF r3] k' by simp
      then have "\<not> cmp (elt sz m' k) (elt sz m' j) \<le> 0" using gt [of k'] k' unfolding pj by simp
      then show ?thesis using cmp_total by blast
    qed
    show ?thesis unfolding sorted_range_def
    proof (intro allI impI)
      fix a b assume ab: "low \<le> a \<and> a < b \<and> b < high + 1"
      consider "b < j" | "b = j" | "a < j" "j < b" | "a = j" | "j < a" using ab by linarith
      then show "cmp (elt sz m' a) (elt sz m' b) \<le> 0"
      proof cases
        case 1
        then show ?thesis using s3 ab low' unfolding sorted_range_def by simp
      next
        case 3
        show ?thesis by (rule cmp_trans [OF left right]) (use 3 ab in auto)
      next
        case 5
        then show ?thesis using s4 ab unfolding sorted_range_def by simp
      qed (use left [of a] right [of b] ab in auto)
    qed
  qed
qed

lemma insert_last_sorted:
  "sorted_wrt (\<lambda>x y. cmp x y \<le> 0) xs \<Longrightarrow> sorted_wrt (\<lambda>x y. cmp x y \<le> 0) (insert_last cmp t xs) \<and> set (insert_last cmp t xs) = insert t (set xs)"
proof (induction xs rule: rev_induct)
  case (snoc x xs)
  then have h: "sorted_wrt (\<lambda>x y. cmp x y \<le> 0) xs" "\<And>y. y \<in> set xs \<Longrightarrow> cmp y x \<le> 0" by (auto simp: sorted_wrt_append)
  show ?case
  proof (cases "cmp x t > 0")
    case True
    then have "cmp t x \<le> 0" using cmp_total [of x t] by simp
    then show ?thesis using True snoc.IH [OF h(1)] h(2) by (auto simp: insert_last_snoc sorted_wrt_append)
  next
    case False
    then have "cmp x t \<le> 0" by simp
    moreover from this have "cmp y t \<le> 0" if "y \<in> set xs" for y using cmp_trans [OF h(2) [OF that]] by blast
    ultimately show ?thesis using False h by (auto simp: insert_last_snoc sorted_wrt_append)
  qed
qed simp

text \<open>The elements that the comparator does not tell from \<open>e\<close>.\<close>

definition same_class :: "u8 list \<Rightarrow> u8 list \<Rightarrow> bool" where
  "same_class e x \<longleftrightarrow> cmp x e \<le> 0 \<and> cmp e x \<le> 0"

lemma insert_last_stable: "filter (same_class e) (insert_last cmp t xs) = filter (same_class e) (xs @ [t])"
proof (induction xs rule: rev_induct)
  case (snoc x xs)
  have n: "\<not> (same_class e x \<and> same_class e t)" if h: "cmp x t > 0"
    using cmp_trans [of x e t] h unfolding same_class_def by linarith
  show ?case
  proof (cases "cmp x t > 0")
    case True
    then show ?thesis using snoc.IH n [OF True] by (cases "same_class e t") (simp_all add: insert_last_snoc)
  qed (simp add: insert_last_snoc)
qed simp

lemma insert_fold:
  "sorted_wrt (\<lambda>x y. cmp x y \<le> 0) xs \<Longrightarrow> sorted_wrt (\<lambda>x y. cmp x y \<le> 0) (fold (insert_last cmp) ts xs) \<and>
     filter (same_class e) (fold (insert_last cmp) ts xs) = filter (same_class e) (xs @ ts)"
proof (induction ts arbitrary: xs)
  case (Cons t ts)
  have "sorted_wrt (\<lambda>x y. cmp x y \<le> 0) (insert_last cmp t xs)" using insert_last_sorted [OF Cons.prems] by blast
  from Cons.IH [OF this] show ?case using insert_last_stable [of e t xs] by simp
qed simp

lemma insertsort_sorts:
  assumes "2 \<le> n" and "m' = fold (insert_elt sz cmp) [1..<n] m"
  shows "sorted_wrt (\<lambda>x y. cmp x y \<le> 0) (elems sz 0 n m')"
    and "filter (same_class e) (elems sz 0 n m') = filter (same_class e) (elems sz 0 n m)"
    and "\<forall>x. n * sz \<le> x \<longrightarrow> m' x = m x"
proof -
  obtain k where k: "n = Suc k" using assms by (cases n) auto
  have l: "elems sz 0 (Suc k) m = elt sz m 0 # elems sz 1 (Suc k) m" by (simp add: elems_Cons)
  show "sorted_wrt (\<lambda>x y. cmp x y \<le> 0) (elems sz 0 n m')" "filter (same_class e) (elems sz 0 n m') = filter (same_class e) (elems sz 0 n m)"
    "\<forall>x. n * sz \<le> x \<longrightarrow> m' x = m x"
    using insertsort_list [of sz k cmp m] insert_fold [of "[elt sz m 0]" "elems sz 1 (Suc k) m" e] unfolding k assms(2) l by auto
qed

end

section \<open>The sorts of the kernel interface\<close>

text \<open>What every sort promises: the array is a sorted permutation of what it was and nothing else has changed.\<close>

definition sorts_to :: "kapi_cmp \<Rightarrow> nat \<Rightarrow> nat \<Rightarrow> mem \<Rightarrow> mem \<Rightarrow> bool" where
  "sorts_to cmp sz n m m' \<longleftrightarrow> sorted_wrt (\<lambda>x y. cmp x y \<le> 0) (elems sz 0 n m') \<and>
     mset (elems sz 0 n m') = mset (elems sz 0 n m) \<and> (\<forall>x. n * sz \<le> x \<longrightarrow> m' x = m x)"

lemma sorts_to_small: "n < 2 \<Longrightarrow> sorts_to cmp sz n m m"
  by (auto simp: sorts_to_def elems_def less_2_cases_iff)

lemma rearr_sorts_to: "rearr sz 0 n m m' \<Longrightarrow> sorted_wrt (\<lambda>x y. cmp x y \<le> 0) (elems sz 0 n m') \<Longrightarrow> sorts_to cmp sz n m m'"
  by (simp add: rearr_def sorts_to_def)

text \<open>
  C25. \<open>kapi_sort\<close> (quicksort) and \<open>kapi_heapsort\<close> sort every array in place: with a comparator that is a total preorder they
  return, the elements are in ascending order and are a permutation of the elements before, and no byte behind the
  array has changed.
\<close>

theorem kapi_sorts_sort:
  assumes "\<And>x y. cmp x y \<le> 0 \<or> cmp y x \<le> 0" and "\<And>x y z. cmp x y \<le> 0 \<Longrightarrow> cmp y z \<le> 0 \<Longrightarrow> cmp x z \<le> 0"
  shows "\<exists>q h. kapi_sort (Some m) num sz (Some cmp) = Some (Some q) \<and> sorts_to cmp sz num m q \<and>
    kapi_heapsort (Some m) num sz (Some cmp) = Some h \<and> sorts_to cmp sz num m h"
proof -
  have c: "comparator cmp" using assms by unfold_locales blast+
  have "\<exists>q. kapi_sort (Some m) num sz (Some cmp) = Some (Some q) \<and> sorts_to cmp sz num m q"
  proof (cases "num < 2")
    case False
    obtain q where q: "kapi_qsort_internal sz cmp 0 (num - 1) m = Some q" "rearr sz 0 (num - 1 + 1) m q"
      using qsort_returns by blast
    have "sorted_wrt (\<lambda>x y. cmp x y \<le> 0) (elems sz 0 (num - 1 + 1) q)"
      by (intro comparator.sorted_range_list [OF c] comparator.qsort_sorts [OF c q(1)])
    then show ?thesis using q False by (simp add: kapi_sort_def kapi_qsort_def rearr_sorts_to)
  qed (simp add: kapi_sort_def kapi_qsort_def sorts_to_small)
  moreover have "\<exists>h. kapi_heapsort (Some m) num sz (Some cmp) = Some h \<and> sorts_to cmp sz num m h"
  proof (cases "num < 2")
    case False
    let ?b = "heap_build sz cmp num (num div 2) m"
    have "rearr sz 0 (Suc (num - 1)) ?b (heap_drain sz cmp (num - 1) ?b)" by (rule drain_rearr)
    then have "rearr sz 0 num m (heap_drain sz cmp (num - 1) ?b)" using build_rearr [of "num div 2" num sz m cmp] rearr_trans False by simp
    moreover have "sorted_wrt (\<lambda>x y. cmp x y \<le> 0) (elems sz 0 num (heap_drain sz cmp (num - 1) ?b))"
      using False by (intro comparator.sorted_range_list [OF c] comparator.heapsort_sorts [OF c]) simp
    ultimately show ?thesis using False by (simp add: kapi_heapsort_def rearr_sorts_to)
  qed (simp add: kapi_heapsort_def sorts_to_small)
  ultimately show ?thesis by blast
qed

theorem kapi_sorts_sort_witness:
  "\<exists>q h. kapi_sort (Some (mem_of_list [3, 1, 2])) 3 1 (Some (\<lambda>x y. uint (hd x) - uint (hd y))) = Some (Some q) \<and>
    sorts_to (\<lambda>x y. uint (hd x) - uint (hd y)) 1 3 (mem_of_list [3, 1, 2]) q \<and>
    kapi_heapsort (Some (mem_of_list [3, 1, 2])) 3 1 (Some (\<lambda>x y. uint (hd x) - uint (hd y))) = Some h \<and>
    sorts_to (\<lambda>x y. uint (hd x) - uint (hd y)) 1 3 (mem_of_list [3, 1, 2]) h"
  by (rule kapi_sorts_sort) auto

text \<open>
  C26. \<open>kapi_sort\<close> returns for every comparator, even one that answers without any order, and only permutes the elements.
\<close>

theorem kapi_sort_returns:
  "\<exists>m'. kapi_sort (Some m) num sz (Some cmp) = Some (Some m') \<and> mset (elems sz 0 num m') = mset (elems sz 0 num m) \<and>
     (\<forall>x. num * sz \<le> x \<longrightarrow> m' x = m x)"
proof (cases "num < 2")
  case False
  then show ?thesis using qsort_returns [of sz cmp 0 "num - 1" m] by (auto simp: kapi_sort_def kapi_qsort_def rearr_def)
qed (simp add: kapi_sort_def kapi_qsort_def)

theorem kapi_sort_returns_witness:
  "\<exists>m'. kapi_sort (Some (mem_of_list [3, 1, 2])) 3 1 (Some (\<lambda>_ _. 1)) = Some (Some m') \<and>
     mset (elems 1 0 3 m') = mset (elems 1 0 3 (mem_of_list [3, 1, 2])) \<and> (\<forall>x. 3 * 1 \<le> x \<longrightarrow> m' x = mem_of_list [3, 1, 2] x)"
  by (rule kapi_sort_returns)

text \<open>
  \<open>kapi_insertsort\<close> is a stable sort of elements of up to 256 bytes: the result is in ascending order, and the elements that
  the comparator takes for equal keep their order.
\<close>

theorem kapi_insertsort_stable:
  assumes "\<And>x y. cmp x y \<le> 0 \<or> cmp y x \<le> 0" and "\<And>x y z. cmp x y \<le> 0 \<Longrightarrow> cmp y z \<le> 0 \<Longrightarrow> cmp x z \<le> 0" and "sz \<le> 256"
  shows "\<exists>m'. kapi_insertsort (Some m) num sz (Some cmp) = Some (Some m') \<and>
    sorted_wrt (\<lambda>x y. cmp x y \<le> 0) (elems sz 0 num m') \<and>
    (\<forall>e. filter (\<lambda>x. cmp x e \<le> 0 \<and> cmp e x \<le> 0) (elems sz 0 num m') = filter (\<lambda>x. cmp x e \<le> 0 \<and> cmp e x \<le> 0) (elems sz 0 num m)) \<and>
    (\<forall>x. num * sz \<le> x \<longrightarrow> m' x = m x)"
proof (cases "num < 2")
  case True
  then show ?thesis using sorts_to_small [OF True, of cmp sz m] by (simp add: kapi_insertsort_def sorts_to_def)
next
  case False
  have c: "comparator cmp" using assms by unfold_locales blast+
  have n: "2 \<le> num" using False by simp
  have e: "comparator.same_class cmp e = (\<lambda>x. cmp x e \<le> 0 \<and> cmp e x \<le> 0)" for e
    by (intro ext) (simp add: comparator.same_class_def [OF c])
  show ?thesis using comparator.insertsort_sorts [OF c n refl, where sz = sz and m = m] False assms(3)
    by (simp add: kapi_insertsort_def e)
qed

theorem kapi_insertsort_stable_witness:
  "\<exists>m'. kapi_insertsort (Some (mem_of_list [3, 1, 2])) 3 1 (Some (\<lambda>x y. uint (hd x) - uint (hd y))) = Some (Some m') \<and>
    sorted_wrt (\<lambda>x y. uint (hd x) - uint (hd y) \<le> 0) (elems 1 0 3 m') \<and>
    (\<forall>e :: u8 list. filter (\<lambda>x. uint (hd x) - uint (hd e) \<le> 0 \<and> uint (hd e) - uint (hd x) \<le> 0) (elems 1 0 3 m') =
      filter (\<lambda>x. uint (hd x) - uint (hd e) \<le> 0 \<and> uint (hd e) - uint (hd x) \<le> 0) (elems 1 0 3 (mem_of_list [3, 1, 2]))) \<and>
    (\<forall>x. 3 * 1 \<le> x \<longrightarrow> m' x = mem_of_list [3, 1, 2] x)"
  by (rule kapi_insertsort_stable [where cmp = "\<lambda>x y. uint (hd x) - uint (hd y)"]) auto

end
