(* ===== verification/CStringProps.thy ===== *)
theory CStringProps
  imports CString KSortProps "HOL-Library.Sublist"
begin

text \<open>
  What the string functions of \<open>string.c\<close> compute on strings that end, and \<open>memcmp\<close> as a comparator of the sorts.
\<close>

section \<open>Copies\<close>

lemma copy_up:
  assumes "d \<le> s \<or> s + n \<le> d"
  shows "fold (\<lambda>i m. m(d + i := m (s + i))) [0..<n] m = copy_obj m d m s n"
  using assms
proof (induction n)
  case (Suc n)
  have "copy_obj m d m s n (s + n) = m (s + n)" using Suc.prems by (intro copy_obj_out) linarith
  moreover have "(copy_obj m d m s n)(d + n := m (s + n)) = copy_obj m d m s (Suc n)"
    by (auto simp: copy_obj_def fun_eq_iff less_Suc_eq)
  moreover have "fold (\<lambda>i m. m(d + i := m (s + i))) [0..<n] m = copy_obj m d m s n" using Suc by linarith
  moreover have "[0..<Suc n] = [0..<n] @ [n]" by simp
  ultimately show ?case by (simp only: fold_append fold_simps o_apply)
qed simp

lemma copy_down:
  assumes "s \<le> d" and "k \<le> n"
  shows "fold (\<lambda>i m. m(d + i := m (s + i))) (rev [k..<n]) m = copy_obj m (d + k) m (s + k) (n - k)"
  using assms(2)
proof (induction "n - k" arbitrary: k)
  case 0
  then show ?case by simp
next
  case (Suc j)
  then have k: "k < n" by simp
  have "fold (\<lambda>i m. m(d + i := m (s + i))) (rev [Suc k..<n]) m = copy_obj m (d + Suc k) m (s + Suc k) (n - Suc k)"
    using Suc k by (intro Suc.hyps) auto
  moreover have "copy_obj m (d + Suc k) m (s + Suc k) (n - Suc k) (s + k) = m (s + k)" using assms(1) by (intro copy_obj_out) linarith
  moreover have "(copy_obj m (d + Suc k) m (s + Suc k) (n - Suc k))(d + k := m (s + k)) = copy_obj m (d + k) m (s + k) (n - k)"
  proof
    fix x
    show "((copy_obj m (d + Suc k) m (s + Suc k) (n - Suc k))(d + k := m (s + k))) x = copy_obj m (d + k) m (s + k) (n - k) x"
    proof (cases "x = d + k")
      case False
      then have "(d + Suc k \<le> x \<and> x < d + Suc k + (n - Suc k)) = (d + k \<le> x \<and> x < d + k + (n - k))" using k by linarith
      moreover have "s + Suc k + (x - (d + Suc k)) = s + k + (x - (d + k))" if "d + Suc k \<le> x" using that by linarith
      ultimately show ?thesis using False unfolding copy_obj_def by auto
    qed (use k in \<open>simp add: copy_obj_def\<close>)
  qed
  moreover have "rev [k..<n] = rev [Suc k..<n] @ [k]" using k by (simp add: upt_conv_Cons)
  ultimately show ?case by simp
qed

text \<open>
  C27. \<open>memmove\<close> copies \<open>n\<close> bytes whatever the overlap of the two regions is, and \<open>memcpy\<close> does so unless the target starts
  inside the source: both are then the copy that the rest of the model uses for \<open>memcpy\<close>.
\<close>

theorem memmove_copies:
  "memmove d s n m = copy_obj m d m s n \<and> (d \<le> s \<or> s + n \<le> d \<longrightarrow> memcpy d s n m = copy_obj m d m s n)"
proof (cases "d < s")
  case True
  then show ?thesis using copy_up [of d s n m] by (simp add: memmove_def memcpy_def)
next
  case False
  then show ?thesis using copy_up [of d s n m] copy_down [of s d 0 n m] by (simp add: memmove_def memcpy_def)
qed

theorem memmove_copies_witness:
  "memmove 1 0 3 (mem_of_list [1, 2, 3, 4]) 3 = 3 \<and> memcpy 0 2 2 (mem_of_list [1, 2, 3, 4]) = copy_obj (mem_of_list [1, 2, 3, 4]) 0 (mem_of_list [1, 2, 3, 4]) 2 2"
  using memmove_copies [of 1 0 3 "mem_of_list [1, 2, 3, 4]"] memmove_copies [of 0 2 2 "mem_of_list [1, 2, 3, 4]"]
  by (simp add: copy_obj_def mem_of_list_def)

section \<open>Strings\<close>

fun cstr :: "mem \<Rightarrow> nat \<Rightarrow> u8 list \<Rightarrow> bool" where
  "cstr m a [] \<longleftrightarrow> m a = 0"
| "cstr m a (x # xs) \<longleftrightarrow> x \<noteq> 0 \<and> m a = x \<and> cstr m (Suc a) xs"

lemma cstr_cong: "(\<And>x. a \<le> x \<Longrightarrow> x \<le> a + length s \<Longrightarrow> m' x = m x) \<Longrightarrow> cstr m a s \<Longrightarrow> cstr m' a s"
  by (induction s arbitrary: a) auto

lemma cstr_end: "cstr m a s \<Longrightarrow> m (a + length s) = 0"
  by (induction s arbitrary: a) (auto simp: add_Suc [symmetric] simp del: add_Suc)

lemma cstr_drop: "cstr m a s \<Longrightarrow> i \<le> length s \<Longrightarrow> cstr m (a + i) (drop i s)"
proof (induction s arbitrary: a i)
  case (Cons x s)
  then show ?case by (cases i) (auto simp: add_Suc [symmetric] simp del: add_Suc)
qed simp

lemma cstr_nonzero: "cstr m a s \<Longrightarrow> 0 \<notin> set s"
  by (induction s arbitrary: a) auto

lemma cstr_nth: "cstr m a s \<Longrightarrow> i < length s \<Longrightarrow> m (a + i) = s ! i"
proof (induction s arbitrary: a i)
  case (Cons x s)
  then show ?case by (cases i) (auto simp: add_Suc [symmetric] simp del: add_Suc)
qed simp

lemma cstr_take:
  assumes "cstr m a s" and "i \<le> length s" and "m' (a + i) = 0" and "\<And>x. a \<le> x \<Longrightarrow> x < a + i \<Longrightarrow> m' x = m x"
  shows "cstr m' a (take i s)"
  using assms
proof (induction s arbitrary: a i)
  case (Cons x s)
  show ?case
  proof (cases i)
    case 0
    then show ?thesis using Cons.prems by simp
  next
    case (Suc j)
    then show ?thesis using Cons.prems Cons.IH [of "Suc a" j] by simp
  qed
qed simp

lemma strlen_from_cstr: "cstr m (a + k) s \<Longrightarrow> strlen_from m a k = Some (k + length s)"
proof (induction s arbitrary: k)
  case Nil
  then show ?case by (simp add: strlen_from.simps [of m a k])
next
  case (Cons x s)
  then show ?case using Cons.IH [of "Suc k"] by (simp add: strlen_from.simps [of m a k])
qed

lemma strlen_cstr: "cstr m a s \<Longrightarrow> strlen a m = Some (length s)"
  using strlen_from_cstr [of m a 0 s] by (simp add: strlen_def)

lemma byte_diff: "(uint x - uint y < 0 \<longleftrightarrow> x < y) \<and> (uint x - uint y = 0 \<longleftrightarrow> x = y) \<and> (uint x - uint y > 0 \<longleftrightarrow> y < (x :: u8))"
  by (auto simp: word_less_def word_uint_eq_iff)

text \<open>
  \<open>strcmp\<close> returns on strings and orders them lexicographically by their unsigned bytes: the result is negative, zero or
  positive as the first string is before, equal to or behind the second one.
\<close>

theorem strcmp_lexicographic:
  assumes "cstr m a x" and "cstr m b y"
  shows "\<exists>r. strcmp a b m = Some r \<and> (r < 0 \<longleftrightarrow> ord_class.lexordp x y) \<and> (r = 0 \<longleftrightarrow> x = y) \<and> (r > 0 \<longleftrightarrow> ord_class.lexordp y x)"
  using assms
proof (induction x arbitrary: a b y)
  case Nil
  then show ?case using byte_diff [of 0 "hd y"] by (cases y) (auto simp: strcmp.simps [of a b m] word_greater_zero_iff)
next
  case (Cons c x)
  show ?case
  proof (cases y)
    case Nil
    then show ?thesis using Cons.prems byte_diff [of c 0] by (auto simp: strcmp.simps [of a b m] word_greater_zero_iff)
  next
    case y: (Cons e y')
    show ?thesis
    proof (cases "c = e")
      case True
      then show ?thesis using Cons.prems Cons.IH [of "Suc a" "Suc b" y'] y by (simp add: strcmp.simps [of a b m])
    next
      case False
      then show ?thesis using Cons.prems y byte_diff [of c e] by (auto simp: strcmp.simps [of a b m])
    qed
  qed
qed

theorem strcmp_lexicographic_witness:
  "\<exists>r. strcmp 0 3 (mem_of_list [97, 98, 0, 97, 99]) = Some r \<and> (r < 0 \<longleftrightarrow> ord_class.lexordp [97, 98 :: u8] [97, 99]) \<and>
     (r = 0 \<longleftrightarrow> [97, 98 :: u8] = [97, 99]) \<and> (r > 0 \<longleftrightarrow> ord_class.lexordp [97, 99 :: u8] [97, 98])"
  by (rule strcmp_lexicographic) (simp_all add: mem_of_list_def)

section \<open>Searches\<close>

lemma strncmp_prefix: "cstr m a h \<Longrightarrow> cstr m b n \<Longrightarrow> strncmp a b (length n) m = 0 \<longleftrightarrow> prefix n h"
proof (induction n arbitrary: a b h)
  case (Cons c n)
  show ?case
  proof (cases h)
    case Nil
    then show ?thesis using Cons.prems byte_diff [of 0 c] by auto
  next
    case (Cons e h')
    then show ?thesis using Cons.IH [of "Suc a" h' "Suc b"] Cons.prems byte_diff [of e c] by auto
  qed
qed simp

lemma first_index_shift: "first_index P (Suc n) = (if P 0 then Some 0 else map_option Suc (first_index (\<lambda>i. P (Suc i)) n))"
proof -
  have "find P (map Suc xs) = map_option Suc (find (\<lambda>i. P (Suc i)) xs)" for xs by (induction xs) auto
  then show ?thesis by (simp add: first_index_def upt_conv_Cons map_Suc_upt [symmetric] del: upt_Suc map_Suc_upt)
qed

lemma strstr_loop_first:
  assumes "cstr m b n"
  shows "cstr m p h \<Longrightarrow> strstr_loop p b (length n) m = Some (map_option (\<lambda>i. p + i) (first_index (\<lambda>i. prefix n (drop i h)) (length h)))"
proof (induction h arbitrary: p)
  case Nil
  then show ?case by (simp add: strstr_loop.simps [of p])
next
  case (Cons c h)
  then have e: "strstr_loop (Suc p) b (length n) m = Some (map_option (\<lambda>i. Suc p + i) (first_index (\<lambda>i. prefix n (drop i h)) (length h)))"
    by simp
  have "strncmp p b (length n) m = 0 \<longleftrightarrow> prefix n (c # h)" using strncmp_prefix [OF Cons.prems assms] .
  then show ?case using Cons.prems e by (simp add: strstr_loop.simps [of p] first_index_shift option.map_comp comp_def)
qed

text \<open>
  C28. \<open>strstr\<close> returns and finds the first occurrence of the needle in the haystack, or \<open>NULL\<close> if there is none.
\<close>

theorem strstr_first_occurrence:
  assumes "cstr m a h" and "cstr m b n"
  shows "\<exists>r. strstr a b m = Some r \<and>
    (case r of Some p \<Rightarrow> \<exists>i\<le>length h. p = a + i \<and> prefix n (drop i h) \<and> (\<forall>j<i. \<not> prefix n (drop j h))
             | None \<Rightarrow> \<not> sublist n h)"
proof (cases n)
  case Nil
  then show ?thesis using assms by (auto simp: strstr_def)
next
  case (Cons c n')
  let ?f = "first_index (\<lambda>i. prefix n (drop i h)) (length h)"
  have s: "strstr a b m = Some (map_option (\<lambda>i. a + i) ?f)"
    using strstr_loop_first [OF assms(2,1)] strlen_cstr [OF assms(2)] assms(2) Cons by (simp add: strstr_def)
  show ?thesis
  proof (cases ?f)
    case None
    have "\<not> sublist n h"
    proof
      assume "sublist n h"
      then obtain u v where h: "h = u @ n @ v" by (auto simp: sublist_def)
      then have "prefix n (drop (length u) h)" "length u < length h" using Cons by auto
      then show False using None by (auto simp: first_index_None)
    qed
    then show ?thesis using s None by simp
  next
    case (Some i)
    then show ?thesis using s first_index_SomeD [OF Some] by auto
  qed
qed

theorem strstr_first_occurrence_witness:
  "\<exists>r. strstr 0 6 (mem_of_list [97, 98, 97, 98, 99, 0, 98, 99]) = Some r \<and>
    (case r of Some p \<Rightarrow> \<exists>i\<le>length [97, 98, 97, 98, 99 :: u8]. p = 0 + i \<and> prefix [98, 99 :: u8] (drop i [97, 98, 97, 98, 99]) \<and>
        (\<forall>j<i. \<not> prefix [98, 99 :: u8] (drop j [97, 98, 97, 98, 99]))
     | None \<Rightarrow> \<not> sublist [98, 99 :: u8] [97, 98, 97, 98, 99])"
  by (rule strstr_first_occurrence) (simp_all add: mem_of_list_def)

section \<open>Tokens\<close>

lemma strchr_member: "cstr m d ds \<Longrightarrow> c \<noteq> 0 \<Longrightarrow> \<exists>r. strchr_loop d c m = Some r \<and> (r \<noteq> None \<longleftrightarrow> c \<in> set ds)"
proof (induction ds arbitrary: d)
  case Nil
  then show ?case by (simp add: strchr_loop.simps [of d])
next
  case (Cons x ds)
  then show ?case using Cons.IH [of "Suc d"] by (auto simp: strchr_loop.simps [of d])
qed

lemma tok_span_takeWhile:
  assumes "cstr m d ds"
  shows "cstr m p s \<Longrightarrow> tok_span want d p m = Some (p + length (takeWhile (\<lambda>c. (c \<in> set ds) = want) s))"
proof (induction s arbitrary: p)
  case Nil
  then show ?case by (simp add: tok_span.simps [of want d p])
next
  case (Cons c s)
  have "of_int (sint c) = c" by simp
  then obtain r where "strchr d (sint c) m = Some r" "r \<noteq> None \<longleftrightarrow> c \<in> set ds"
    using strchr_member [OF assms, of c] Cons.prems unfolding strchr_def by auto
  then show ?case using Cons by (auto simp: tok_span.simps [of want d p])
qed

text \<open>The words between the delimiters.\<close>

function tokens :: "u8 set \<Rightarrow> u8 list \<Rightarrow> u8 list list" where
  "tokens D s = (case dropWhile (\<lambda>c. c \<in> D) s of
      [] \<Rightarrow> []
    | c # cs \<Rightarrow> takeWhile (\<lambda>c. c \<notin> D) (c # cs) # tokens D (tl (dropWhile (\<lambda>c. c \<notin> D) (c # cs))))"
  by pat_completeness auto
termination
proof (relation "measure (length \<circ> snd)")
  fix D :: "u8 set" and s c cs
  assume "dropWhile (\<lambda>c. c \<in> D) s = c # cs"
  then have "length (c # cs) \<le> length s" by (metis length_dropWhile_le)
  moreover have "length (tl (dropWhile (\<lambda>c. c \<notin> D) (c # cs))) < length (c # cs)"
    using length_dropWhile_le [of "\<lambda>c. c \<notin> D" "c # cs"] by (cases "dropWhile (\<lambda>c. c \<notin> D) (c # cs)") auto
  ultimately show "((D, tl (dropWhile (\<lambda>c. c \<notin> D) (c # cs))), D, s) \<in> measure (length \<circ> snd)" by simp
qed simp

declare tokens.simps [simp del]

text \<open>A caller that passes the string first and then \<open>NULL\<close>, \<open>k\<close> times in all.\<close>

fun strtok_calls :: "nat \<Rightarrow> nat option \<Rightarrow> nat \<Rightarrow> nat option \<times> mem \<Rightarrow> (nat option list \<times> nat option \<times> mem) option" where
  "strtok_calls 0 str d st = Some ([], st)"
| "strtok_calls (Suc k) str d st =
     Option.bind (strtok str d st) (\<lambda>(r, st1). map_option (\<lambda>(rs, st2). (r # rs, st2)) (strtok_calls k None d st1))"

lemma strtok_first: "strtok (Some p) d (l, m) = strtok None d (Some p, m)"
  by (simp add: strtok_def)

lemma strtok_calls_first: "0 < k \<Longrightarrow> strtok_calls k (Some p) d (l, m) = strtok_calls k None d (Some p, m)"
  by (cases k) (simp_all add: strtok_first)

lemma strtok_step:
  assumes "cstr m p s" and "cstr m d ds" and "d + length ds < p \<or> p + length s < d"
  shows "case dropWhile (\<lambda>c. c \<in> set ds) s of
      [] \<Rightarrow> \<exists>l. strtok None d (Some p, m) = Some (None, Some l, m) \<and> m l = 0
    | c # cs \<Rightarrow> \<exists>q l m'. strtok None d (Some p, m) = Some (Some q, Some l, m') \<and>
        cstr m' q (takeWhile (\<lambda>c. c \<notin> set ds) (c # cs)) \<and> cstr m' l (tl (dropWhile (\<lambda>c. c \<notin> set ds) (c # cs))) \<and>
        p \<le> q \<and> q + length (takeWhile (\<lambda>c. c \<notin> set ds) (c # cs)) \<le> l \<and> l + length (tl (dropWhile (\<lambda>c. c \<notin> set ds) (c # cs))) \<le> p + length s \<and>
        (dropWhile (\<lambda>c. c \<notin> set ds) (c # cs) \<noteq> [] \<longrightarrow> q + length (takeWhile (\<lambda>c. c \<notin> set ds) (c # cs)) < l) \<and>
        (\<forall>x. x < p \<or> p + length s < x \<longrightarrow> m' x = m x)"
proof -
  define n where "n = length (takeWhile (\<lambda>c. c \<in> set ds) s)"
  have n: "n \<le> length s" "drop n s = dropWhile (\<lambda>c. c \<in> set ds) s" unfolding n_def
    by (simp_all add: length_takeWhile_le dropWhile_eq_drop [symmetric])
  have sp: "tok_span True d p m = Some (p + n)" using tok_span_takeWhile [OF assms(2,1), of True] unfolding n_def by simp
  have c1: "cstr m (p + n) (dropWhile (\<lambda>c. c \<in> set ds) s)" using cstr_drop [OF assms(1) n(1)] n(2) by simp
  show ?thesis
  proof (cases "dropWhile (\<lambda>c. c \<in> set ds) s")
    case Nil
    have z: "m (p + n) = 0" using c1 unfolding Nil by simp
    then have "strtok None d (Some p, m) = Some (None, Some (if m p = 0 then p else p + n), m)"
      using sp by (simp add: strtok_def)
    then show ?thesis using z unfolding Nil list.case by auto
  next
    case (Cons c cs)
    note dw = this
    define q where "q = p + n"
    define w where "w = takeWhile (\<lambda>c. c \<notin> set ds) (c # cs)"
    define v where "v = dropWhile (\<lambda>c. c \<notin> set ds) (c # cs)"
    have wv: "c # cs = w @ v" unfolding w_def v_def by simp
    have c2: "cstr m q (w @ v)" using c1 Cons unfolding q_def wv by simp
    have nz: "m q \<noteq> 0" "m p \<noteq> 0"
    proof -
      show "m q \<noteq> 0" using c1 Cons unfolding q_def by simp
      have "s \<noteq> []" using Cons by auto
      then show "m p \<noteq> 0" using assms(1) by (cases s) auto
    qed
    have len: "length s = n + length w + length v"
    proof -
      have "length s = n + length (drop n s)" using n(1) by simp
      also have "drop n s = w @ v" using n(2) Cons wv by simp
      finally show ?thesis by simp
    qed
    have sq: "tok_span False d q m = Some (q + length w)"
    proof -
      have "(\<lambda>c. (c \<in> set ds) = False) = (\<lambda>c. c \<notin> set ds)" by auto
      then have "takeWhile (\<lambda>c. (c \<in> set ds) = False) (w @ v) = w" using w_def [unfolded wv] by (simp only:)
      then show ?thesis using tok_span_takeWhile [OF assms(2) c2, of False] by (simp only:)
    qed
    have cv: "cstr m (q + length w) v" using cstr_drop [OF c2, of "length w"] by simp
    show ?thesis
    proof (cases v)
      case Nil
      then have "strtok None d (Some p, m) = Some (Some q, Some (q + length w), m)"
        using sp sq nz cv by (simp add: strtok_def q_def)
      moreover have "cstr m q w" using c2 Nil by simp
      moreover have "m (q + length w) = 0" "q + length w = p + length s" "p \<le> q" using cv Nil len by (auto simp: q_def)
      ultimately show ?thesis unfolding dw list.case w_def [symmetric] v_def [symmetric] using Nil
        by (intro exI [of _ q] exI [of _ "q + length w"] exI [of _ m]) simp
    next
      case (Cons e v')
      define e0 where "e0 = q + length w"
      have m': "strtok None d (Some p, m) = Some (Some q, Some (Suc e0), m(e0 := 0))"
        using sp sq nz cv Cons by (simp add: strtok_def q_def e0_def)
      have "cstr (m(e0 := 0)) q (take (length w) (w @ v))" by (rule cstr_take [OF c2]) (auto simp: e0_def)
      then have a: "cstr (m(e0 := 0)) q w" by simp
      have b: "cstr (m(e0 := 0)) (Suc e0) v'" by (rule cstr_cong [of _ _ _ m]) (use cv Cons in \<open>auto simp: e0_def\<close>)
      have "p \<le> q" "e0 \<le> p + length s" "Suc e0 + length v' \<le> p + length s" using len Cons unfolding e0_def q_def by auto
      then show ?thesis unfolding dw list.case w_def [symmetric] v_def [symmetric] using m' a b Cons
        by (intro exI [of _ q] exI [of _ "Suc e0"] exI [of _ "m(e0 := 0)"]) (auto simp: e0_def)
    qed
  qed
qed

lemma strtok_calls_done: "m l = 0 \<Longrightarrow> strtok_calls k None d (Some l, m) = Some (replicate k None, Some l, m)"
  by (induction k) (simp_all add: strtok_def)

lemma strtok_calls_tokens:
  assumes "cstr m p s" and "cstr m d ds" and "d + length ds < p \<or> p + length s < d"
  shows "\<exists>qs l m'. strtok_calls (length (tokens (set ds) s) + j) None d (Some p, m) = Some (map Some qs @ replicate j None, Some l, m') \<and>
    list_all2 (cstr m') qs (tokens (set ds) s) \<and> (\<forall>x. x < p \<or> p + length s < x \<longrightarrow> m' x = m x)"
  using assms
proof (induction "length s" arbitrary: s p m rule: less_induct)
  case less
  note st = strtok_step [OF less.prems]
  show ?case
  proof (cases "dropWhile (\<lambda>c. c \<in> set ds) s")
    case Nil
    then obtain l where l: "strtok None d (Some p, m) = Some (None, Some l, m)" "m l = 0" using st unfolding Nil list.case by blast
    have "strtok_calls j None d (Some p, m) = Some (replicate j None, Some (if j = 0 then p else l), m)"
      using l strtok_calls_done [of m l, OF l(2)] by (cases j) simp_all
    moreover have "tokens (set ds) s = []" unfolding tokens.simps [of _ s] Nil by simp
    ultimately show ?thesis by auto
  next
    case (Cons c cs)
    define w where "w = takeWhile (\<lambda>c. c \<notin> set ds) (c # cs)"
    define v where "v = tl (dropWhile (\<lambda>c. c \<notin> set ds) (c # cs))"
    obtain q l m1 where q: "strtok None d (Some p, m) = Some (Some q, Some l, m1)" "cstr m1 q w" "cstr m1 l v"
      "p \<le> q" "q + length w \<le> l" "l + length v \<le> p + length s" "\<forall>x. x < p \<or> p + length s < x \<longrightarrow> m1 x = m x"
      "dropWhile (\<lambda>c. c \<notin> set ds) (c # cs) \<noteq> [] \<longrightarrow> q + length w < l"
      using st unfolding Cons list.case w_def v_def by blast
    have t: "tokens (set ds) s = w # tokens (set ds) v" using Cons unfolding w_def v_def by (simp add: tokens.simps [of _ s])
    have "length (c # cs) \<le> length s" using Cons by (metis length_dropWhile_le)
    then have lv: "length v < length s"
      using length_dropWhile_le [of "\<lambda>c. c \<notin> set ds" "c # cs"] unfolding v_def by simp
    have dm: "cstr m1 d ds" by (rule cstr_cong [OF _ less.prems(2)]) (use q(7) less.prems(3) in auto)
    have dis: "d + length ds < l \<or> l + length v < d" using less.prems(3) q(4-6) by linarith
    from less.hyps [OF lv q(3) dm dis] obtain qs l2 m2 where r:
      "strtok_calls (length (tokens (set ds) v) + j) None d (Some l, m1) = Some (map Some qs @ replicate j None, Some l2, m2)"
      "list_all2 (cstr m2) qs (tokens (set ds) v)" "\<forall>x. x < l \<or> l + length v < x \<longrightarrow> m2 x = m1 x" by blast
    have "cstr m2 q w"
    proof (cases "dropWhile (\<lambda>c. c \<notin> set ds) (c # cs) = []")
      case True
      then have "v = []" unfolding v_def by simp
      then have "m1 l = 0" using q(3) by simp
      have "tokens (set ds) v = []" using \<open>v = []\<close> by (simp add: tokens.simps)
      then have "m2 = m1" using r(1) strtok_calls_done [of m1 l j d] \<open>m1 l = 0\<close> by simp
      then show ?thesis using q(2) by simp
    next
      case False
      then have "q + length w < l" using q(8) by simp
      then show ?thesis by (intro cstr_cong [OF _ q(2)]) (use r(3) in auto)
    qed
    moreover have "m2 x = m x" if "x < p \<or> p + length s < x" for x using that q(4-7) r(3) by (metis le_trans less_le_trans le_add1 not_le)
    ultimately show ?thesis using q(1) r(1,2) unfolding t by (intro exI [of _ "q # qs"] exI [of _ l2] exI [of _ m2]) simp
  qed
qed

text \<open>
  C29. The successive calls of \<open>strtok\<close> return the words of a string one after the other, each as a string of its own at the place
  where it was, and then \<open>NULL\<close> for ever; only the string is written to. The delimiters must lie apart from it.
\<close>

theorem strtok_yields_tokens:
  assumes "cstr m p s" and "cstr m d ds" and "d + length ds < p \<or> p + length s < d"
  shows "\<exists>qs l m'. strtok_calls (length (tokens (set ds) s) + Suc j) (Some p) d (l0, m) = Some (map Some qs @ replicate (Suc j) None, Some l, m') \<and>
    list_all2 (cstr m') qs (tokens (set ds) s) \<and> (\<forall>x. x < p \<or> p + length s < x \<longrightarrow> m' x = m x)"
proof -
  have "0 < length (tokens (set ds) s) + Suc j" by simp
  then show ?thesis unfolding strtok_calls_first [OF \<open>0 < length (tokens (set ds) s) + Suc j\<close>] by (intro strtok_calls_tokens assms)
qed

theorem strtok_yields_tokens_witness:
  "\<exists>qs l m'. strtok_calls (length (tokens (set [44]) [97, 44, 44, 98]) + Suc 0) (Some 0) 5 (None, mem_of_list [97, 44, 44, 98, 0, 44, 0]) =
      Some (map Some qs @ replicate (Suc 0) None, Some l, m') \<and>
    list_all2 (cstr m') qs (tokens (set [44]) [97, 44, 44, 98]) \<and>
    (\<forall>x. x < 0 \<or> 0 + length [97, 44, 44, 98 :: u8] < x \<longrightarrow> m' x = mem_of_list [97, 44, 44, 98, 0, 44, 0] x)"
  by (rule strtok_yields_tokens) (simp_all add: mem_of_list_def)

section \<open>\<open>memcmp\<close> as a comparator\<close>

text \<open>The comparator that compares two elements of \<open>n\<close> bytes with \<open>memcmp\<close>.\<close>

definition memcmp_elts :: "nat \<Rightarrow> kapi_cmp" where
  "memcmp_elts n x y = memcmp 0 n n (\<lambda>i. if i < n then mem_of_list x i else mem_of_list y (i - n))"

lemma memcmp_elts_first:
  "memcmp_elts n x y = (case first_index (\<lambda>i. mem_of_list x i \<noteq> mem_of_list y i) n of None \<Rightarrow> 0
     | Some i \<Rightarrow> uint (mem_of_list x i) - uint (mem_of_list y i))"
proof -
  let ?m = "\<lambda>i. if i < n then mem_of_list x i else mem_of_list y (i - n)"
  have "first_index (\<lambda>i. ?m (0 + i) \<noteq> ?m (n + i)) n = first_index (\<lambda>i. mem_of_list x i \<noteq> mem_of_list y i) n"
    by (rule first_index_cong) simp
  then show ?thesis unfolding memcmp_elts_def memcmp_def by (simp only:) (auto split: option.split dest: first_index_SomeD(1))
qed

lemma memcmp_elts_le:
  "memcmp_elts n x y \<le> 0 \<longleftrightarrow>
    (\<forall>i<n. mem_of_list x i = mem_of_list y i) \<or> (\<exists>i<n. mem_of_list x i < mem_of_list y i \<and> (\<forall>j<i. mem_of_list x j = mem_of_list y j))"
proof (cases "first_index (\<lambda>i. mem_of_list x i \<noteq> mem_of_list y i) n")
  case None
  then have "memcmp_elts n x y = 0" by (simp add: memcmp_elts_first)
  then show ?thesis using None by (simp add: first_index_None)
next
  case (Some i)
  note i = first_index_SomeD [OF Some]
  have "memcmp_elts n x y = uint (mem_of_list x i) - uint (mem_of_list y i)" using Some by (simp add: memcmp_elts_first)
  then have "memcmp_elts n x y \<le> 0 \<longleftrightarrow> mem_of_list x i < mem_of_list y i"
    using byte_diff [of "mem_of_list x i" "mem_of_list y i"] i(2) by linarith
  moreover have "(\<exists>k<n. mem_of_list x k < mem_of_list y k \<and> (\<forall>j<k. mem_of_list x j = mem_of_list y j)) \<longleftrightarrow> mem_of_list x i < mem_of_list y i"
    using i by (metis (no_types, lifting) linorder_neqE_nat order_less_irrefl)
  ultimately show ?thesis using i(1,2) by blast
qed

interpretation mc: comparator "memcmp_elts n"
proof
  fix x y z
  let ?E = "\<lambda>x y i. mem_of_list x i = (mem_of_list y i :: u8)" and ?L = "\<lambda>x y i. mem_of_list x i < (mem_of_list y i :: u8)"
  show "memcmp_elts n x y \<le> 0 \<or> memcmp_elts n y x \<le> 0"
  proof (cases "first_index (\<lambda>i. \<not> ?E x y i) n")
    case None
    then show ?thesis by (auto simp: memcmp_elts_le first_index_None)
  next
    case (Some i)
    note i = first_index_SomeD [OF Some]
    then have "?L x y i \<or> ?L y x i" by (metis linorder_neqE)
    then show ?thesis using i unfolding memcmp_elts_le by metis
  qed
  assume "memcmp_elts n x y \<le> 0" "memcmp_elts n y z \<le> 0"
  then consider "\<forall>i<n. ?E x y i" "memcmp_elts n y z \<le> 0" | "\<forall>i<n. ?E y z i" "memcmp_elts n x y \<le> 0"
    | i k where "i < n" "?L x y i" "\<forall>j<i. ?E x y j" "k < n" "?L y z k" "\<forall>j<k. ?E y z j"
    unfolding memcmp_elts_le by blast
  then show "memcmp_elts n x z \<le> 0"
  proof cases
    case 1
    then show ?thesis unfolding memcmp_elts_le by auto
  next
    case 2
    then show ?thesis unfolding memcmp_elts_le by auto
  next
    case 3
    consider "i < k" | "i = k" | "k < i" by linarith
    then have "\<exists>j<n. ?L x z j \<and> (\<forall>l<j. ?E x z l)"
    proof cases
      case 1
      then show ?thesis using 3 by (intro exI [of _ i]) auto
    next
      case 2
      then show ?thesis using 3 by (intro exI [of _ i]) (auto intro: less_trans)
    next
      case c: 3
      then show ?thesis using 3 by (intro exI [of _ k]) auto
    qed
    then show ?thesis unfolding memcmp_elts_le by blast
  qed
qed

text \<open>
  \<open>kapi_sort\<close> with \<open>memcmp\<close> as its comparator sorts an array of byte strings: it returns, permutes the elements, and of two
  elements the first one is the same as the second or has a smaller byte where they first differ.
\<close>

theorem sort_with_memcmp:
  "\<exists>m'. kapi_sort (Some m) num sz (Some (memcmp_elts sz)) = Some (Some m') \<and> mset (elems sz 0 num m') = mset (elems sz 0 num m) \<and>
     (\<forall>a b. a < b \<and> b < num \<longrightarrow> (elt sz m' a, elt sz m' b) \<in> lexord {(x, y). x < y} \<or> elt sz m' a = elt sz m' b)"
proof -
  have lex: "(x, y) \<in> lexord {(x, y). x < y} \<or> x = y" if le: "memcmp_elts sz x y \<le> 0" and l: "length x = sz" "length y = sz" for x y
    using le unfolding memcmp_elts_le
  proof
    assume "\<forall>i < sz. mem_of_list x i = mem_of_list y i"
    then have "x = y" using l by (intro nth_equalityI) (auto simp: mem_of_list_def)
    then show ?thesis by simp
  next
    assume "\<exists>i < sz. mem_of_list x i < mem_of_list y i \<and> (\<forall>j<i. mem_of_list x j = mem_of_list y j)"
    then obtain i where i: "i < sz" "x ! i < y ! i" "\<forall>j<i. x ! j = y ! j" using l by (auto simp: mem_of_list_def)
    have "take i x = take i y" using i l by (intro nth_equalityI) auto
    then have "(x, y) \<in> lexord {(x, y). x < y}" using i l unfolding lexord_take_index_conv by auto
    then show ?thesis by blast
  qed
  show ?thesis
  proof (cases "num < 2")
    case True
    then show ?thesis by (auto simp: kapi_sort_def kapi_qsort_def less_2_cases_iff)
  next
    case False
    obtain q where q: "kapi_qsort_internal sz (memcmp_elts sz) 0 (num - 1) m = Some q" "rearr sz 0 (num - 1 + 1) m q"
      using qsort_returns by blast
    have "mc.sorted_range sz sz 0 (num - 1 + 1) q" by (rule mc.qsort_sorts [OF q(1)])
    then show ?thesis using q False lex [OF _ length_elt length_elt] unfolding mc.sorted_range_def
      by (auto simp: kapi_sort_def kapi_qsort_def rearr_def)
  qed
qed

theorem sort_with_memcmp_witness:
  "\<exists>m'. kapi_sort (Some (mem_of_list [3, 1, 2, 9])) 2 2 (Some (memcmp_elts 2)) = Some (Some m') \<and>
     mset (elems 2 0 2 m') = mset (elems 2 0 2 (mem_of_list [3, 1, 2, 9])) \<and>
     (\<forall>a b. a < b \<and> b < 2 \<longrightarrow> (elt 2 m' a, elt 2 m' b) \<in> lexord {(x, y). x < y} \<or> elt 2 m' a = elt 2 m' b)"
  by (rule sort_with_memcmp)

end
