(* ===== verification/CTime.thy ===== *)
theory CTime
  imports KPrelude "HOL-Library.Signed_Division"
begin

text \<open>
  Dates and times of \<open>kernel/lib/libc/time.c\<close>. The clock chip is the function from its registers to the bytes they hold, and
  \<open>kapi_get_time_ms\<close> is an argument. C divides towards zero (\<open>sdiv\<close>, \<open>smod\<close>). \<open>None\<close> is a read behind the table of
  the days in the months, or a \<open>NULL\<close> argument.
\<close>

section \<open>Days\<close>

definition is_leap_year :: "int \<Rightarrow> bool" where
  "is_leap_year year \<longleftrightarrow> (year smod 4 = 0 \<and> year smod 100 \<noteq> 0) \<or> year smod 400 = 0"

definition days_in_month :: "int list" where
  "days_in_month = [31, 28, 31, 30, 31, 30, 31, 31, 30, 31, 30, 31]"

text \<open>The loops over the years from 1970 on and over the months.\<close>

definition year_days :: "int \<Rightarrow> int" where
  "year_days year = (\<Sum>y\<leftarrow>[1970..year - 1]. if is_leap_year y then 366 else 365)"

definition month_days :: "int \<Rightarrow> int \<Rightarrow> int option" where
  "month_days year month =
     (if month - 1 > 12 then None
      else Some (\<Sum>k\<leftarrow>[0..<nat (month - 1)]. days_in_month ! k + (if k = 1 \<and> is_leap_year year then 1 else 0)))"

definition days_since_epoch :: "int \<Rightarrow> int \<Rightarrow> int \<Rightarrow> int option" where
  "days_since_epoch year month day = map_option (\<lambda>d. year_days year + d + (day - 1)) (month_days year month)"

section \<open>The clock chip\<close>

record tm =
  tm_sec :: int
  tm_min :: int
  tm_hour :: int
  tm_mday :: int
  tm_mon :: int
  tm_year :: int
  tm_wday :: int
  tm_yday :: int
  tm_isdst :: int

type_synonym rtc = "u8 \<Rightarrow> u8"

abbreviation (input) RTC_SECONDS :: u8 where "RTC_SECONDS \<equiv> 0"
abbreviation (input) RTC_MINUTES :: u8 where "RTC_MINUTES \<equiv> 2"
abbreviation (input) RTC_HOURS :: u8 where "RTC_HOURS \<equiv> 4"
abbreviation (input) RTC_DAY :: u8 where "RTC_DAY \<equiv> 7"
abbreviation (input) RTC_MONTH :: u8 where "RTC_MONTH \<equiv> 8"
abbreviation (input) RTC_YEAR :: u8 where "RTC_YEAR \<equiv> 9"
abbreviation (input) RTC_CENTURY :: u8 where "RTC_CENTURY \<equiv> 50"
abbreviation (input) RTC_STATUS_B :: u8 where "RTC_STATUS_B \<equiv> 11"
abbreviation (input) TIMEZONE_OFFSET :: int where "TIMEZONE_OFFSET \<equiv> 8 * 3600"

definition bcd_to_bin :: "u8 \<Rightarrow> u8" where
  "bcd_to_bin bcd = drop_bit 4 bcd * 10 + (bcd AND 15)"

text \<open>The value of a register after the conversion from BCD that the status asks for.\<close>

definition rtc_field :: "rtc \<Rightarrow> u8 \<Rightarrow> u8" where
  "rtc_field rtc_read reg = (if rtc_read RTC_STATUS_B AND 4 = 0 then bcd_to_bin (rtc_read reg) else rtc_read reg)"

definition rtc_hour :: "rtc \<Rightarrow> u8" where
  "rtc_hour rtc_read =
     (let hour = rtc_field rtc_read RTC_HOURS
      in if rtc_read RTC_STATUS_B AND 2 = 0 \<and> hour AND 128 \<noteq> 0 then (hour AND 127) mod 12 + 12 else hour)"

definition week_day :: "int \<Rightarrow> int \<Rightarrow> int \<Rightarrow> int" where
  "week_day full_year mon day =
     (let (m, y) = (if mon < 3 then (mon + 12, full_year - 1) else (mon, full_year));
          k = y smod 100;
          j = y sdiv 100;
          wday = (day + 13 * (m + 1) sdiv 5 + k + k sdiv 4 + j sdiv 4 + 5 * j) smod 7
      in (wday + 5) smod 7)"

text \<open>The loop that takes whole days off the seconds.\<close>

function day_carry :: "int \<Rightarrow> int \<Rightarrow> int \<times> int" where
  "day_carry total_sec mday = (if total_sec \<ge> 86400 then day_carry (total_sec - 86400) (mday + 1) else (total_sec, mday))"
  by pat_completeness auto
termination
  by (relation "measure (\<lambda>(t, d). nat t)") auto

declare day_carry.simps [simp del]

definition local_shift :: "tm \<Rightarrow> tm" where
  "local_shift t =
     (let (total_sec, mday) = day_carry (tm_hour t * 3600 + tm_min t * 60 + tm_sec t + TIMEZONE_OFFSET) (tm_mday t)
      in t\<lparr>tm_mday := mday, tm_hour := total_sec sdiv 3600, tm_min := (total_sec smod 3600) sdiv 60, tm_sec := total_sec smod 60\<rparr>)"

definition rtc_to_tm :: "rtc \<Rightarrow> bool \<Rightarrow> tm option" where
  "rtc_to_tm rtc_read local =
     (let f = (\<lambda>reg. uint (rtc_field rtc_read reg));
          day = f RTC_DAY;
          mon = f RTC_MONTH;
          full_year = f RTC_CENTURY * 100 + f RTC_YEAR
      in case (days_since_epoch full_year mon day, days_since_epoch full_year 1 1) of
           (Some d, Some d0) \<Rightarrow>
             let t = \<lparr>tm_sec = f RTC_SECONDS, tm_min = f RTC_MINUTES, tm_hour = uint (rtc_hour rtc_read), tm_mday = day,
                      tm_mon = mon - 1, tm_year = full_year - 1900, tm_wday = week_day full_year mon day, tm_yday = d - d0,
                      tm_isdst = 0\<rparr>
             in Some (if local then local_shift t else t)
         | _ \<Rightarrow> None)"

text \<open>The argument of \<open>localtime\<close> and \<open>gmtime\<close> is not used.\<close>

definition localtime :: "'t \<Rightarrow> rtc \<Rightarrow> tm option" where
  "localtime timer rtc_read = rtc_to_tm rtc_read True"

definition gmtime :: "'t \<Rightarrow> rtc \<Rightarrow> tm option" where
  "gmtime timer rtc_read = rtc_to_tm rtc_read False"

definition mktime :: "tm \<Rightarrow> int option" where
  "mktime t =
     map_option (\<lambda>days. days * 86400 + tm_hour t * 3600 + tm_min t * 60 + tm_sec t)
       (days_since_epoch (tm_year t + 1900) (tm_mon t + 1) (tm_mday t))"

definition clock :: "int \<Rightarrow> int" where
  "clock kapi_get_time_ms = kapi_get_time_ms"

text \<open>The time and what is stored behind the argument, if it is not \<open>NULL\<close>.\<close>

definition time :: "int \<Rightarrow> int option \<Rightarrow> int \<times> int option" where
  "time kapi_get_time_ms timer = (let t = kapi_get_time_ms sdiv 1000 in (t, map_option (\<lambda>_. t) timer))"

section \<open>Text\<close>

abbreviation (input) chr :: "char \<Rightarrow> u8" where "chr c \<equiv> of_char c"

definition wday_names :: "string list" where
  "wday_names = [''Sun'', ''Mon'', ''Tue'', ''Wed'', ''Thu'', ''Fri'', ''Sat'']"

definition mon_names :: "string list" where
  "mon_names = [''Jan'', ''Feb'', ''Mar'', ''Apr'', ''May'', ''Jun'', ''Jul'', ''Aug'', ''Sep'', ''Oct'', ''Nov'', ''Dec'']"

definition wday_name :: "tm \<Rightarrow> string" where
  "wday_name t = (if 0 \<le> tm_wday t \<and> tm_wday t \<le> 6 then wday_names ! nat (tm_wday t) else ''???'')"

definition mon_name :: "tm \<Rightarrow> string" where
  "mon_name t = (if 0 \<le> tm_mon t \<and> tm_mon t \<le> 11 then mon_names ! nat (tm_mon t) else ''???'')"

text \<open>\<open>'0' + x\<close> as a character.\<close>

definition digit :: "int \<Rightarrow> u8" where
  "digit x = of_int (48 + x)"

definition two_digits :: "int \<Rightarrow> u8 list" where
  "two_digits x = [digit (x sdiv 10), digit (x smod 10)]"

definition four_digits :: "int \<Rightarrow> u8 list" where
  "four_digits yr = [digit (yr sdiv 1000), digit ((yr sdiv 100) smod 10), digit ((yr sdiv 10) smod 10), digit (yr smod 10)]"

definition asctime :: "tm option \<Rightarrow> u8 list option" where
  "asctime t = map_option (\<lambda>t.
     map chr (take 3 (wday_name t)) @ [32] @ map chr (take 3 (mon_name t)) @ [32] @ two_digits (tm_mday t) @ [32] @
     two_digits (tm_hour t) @ [58] @ two_digits (tm_min t) @ [58] @ two_digits (tm_sec t) @ [32] @
     four_digits (tm_year t + 1900) @ [10, 0]) t"

definition ctime :: "'t \<Rightarrow> rtc \<Rightarrow> u8 list option" where
  "ctime timer rtc_read = Option.bind (localtime timer rtc_read) (\<lambda>t. asctime (Some t))"

text \<open>What a conversion character stands for.\<close>

definition conversion :: "tm \<Rightarrow> u8 \<Rightarrow> u8 list" where
  "conversion t c =
     (if c = chr CHR ''a'' then map chr (take 3 (wday_name t))
      else if c = chr CHR ''b'' then map chr (take 3 (mon_name t))
      else if c = chr CHR ''d'' then two_digits (tm_mday t)
      else if c = chr CHR ''H'' then two_digits (tm_hour t)
      else if c = chr CHR ''M'' then two_digits (tm_min t)
      else if c = chr CHR ''m'' then two_digits (tm_mon t + 1)
      else if c = chr CHR ''S'' then two_digits (tm_sec t)
      else if c = chr CHR ''Y'' then four_digits (tm_year t + 1900)
      else [c])"

text \<open>The loop over the format; \<open>out\<close> is what has been written, and \<open>room\<close> is \<open>max - 1\<close>.\<close>

fun strftime_loop :: "nat \<Rightarrow> tm \<Rightarrow> u8 list \<Rightarrow> u8 list \<Rightarrow> u8 list" where
  "strftime_loop room t [] out = out"
| "strftime_loop room t (c # f) out =
     (if length out \<ge> room then out
      else if c \<noteq> chr CHR ''%'' then strftime_loop room t f (out @ [c])
      else case f of
             [] \<Rightarrow> out
           | d # f' \<Rightarrow> strftime_loop room t f' (out @ take (room - length out) (conversion t d)))"

text \<open>The characters before the final \<open>NUL\<close>; \<open>None\<close> is the return of 0 that leaves the buffer alone.\<close>

definition strftime :: "bool \<Rightarrow> nat \<Rightarrow> u8 list option \<Rightarrow> tm option \<Rightarrow> u8 list option" where
  "strftime s_null maxlen format t =
     (case (format, t) of
        (Some f, Some t') \<Rightarrow> if s_null \<or> maxlen = 0 then None else Some (strftime_loop (maxlen - 1) t' f [])
      | _ \<Rightarrow> None)"

end
