(* ===== verification/CTimeProps.thy ===== *)
theory CTimeProps
  imports CTime
begin

text \<open>
  The calendar of \<open>time.c\<close>: the days since 1970 in closed form, the order of the time stamps, local time, the day of the
  week and the text of a time.
\<close>

section \<open>The days in closed form\<close>

lemma sdiv_nonneg: "0 \<le> a \<Longrightarrow> 0 < b \<Longrightarrow> a sdiv b = a div (b :: int)"
  by (cases "a = 0") (simp_all add: signed_divide_int_def)

lemma smod_nonneg: "0 \<le> a \<Longrightarrow> 0 < b \<Longrightarrow> a smod b = a mod (b :: int)"
  by (cases "a = 0") (simp_all add: smod_int_alt_def)

lemma smod_zero: "a smod b = 0 \<longleftrightarrow> b dvd (a :: int)"
  by (auto simp: smod_int_alt_def sgn_if mod_eq_0_iff_dvd)

lemma leap_dvd: "is_leap_year y \<longleftrightarrow> (4 dvd y \<and> \<not> 100 dvd y) \<or> 400 dvd y"
  by (simp add: is_leap_year_def smod_zero)

definition leap_days :: "int \<Rightarrow> int" where
  "leap_days y = y div 4 - y div 100 + y div 400"

lemma div_pred: "0 < n \<Longrightarrow> y div n = (y - 1) div n + (if n dvd y then 1 else 0)" for n y :: int
proof -
  assume n: "0 < n"
  have y: "y = n * (y div n) + y mod n" by simp
  have r: "0 \<le> y mod n" "y mod n < n" using n by simp_all
  show ?thesis
  proof (cases "n dvd y")
    case True
    then have "y mod n = 0" by simp
    then have "y - 1 = n * (y div n - 1) + (n - 1)" using y by (simp add: algebra_simps)
    then have "(y - 1) div n = y div n - 1" using n by (intro int_div_pos_eq [of _ _ _ "n - 1"]) auto
    then show ?thesis using True by simp
  next
    case False
    then have "y mod n \<noteq> 0" by (simp add: dvd_eq_mod_eq_0)
    then have "(y - 1) div n = y div n" using y r by (intro int_div_pos_eq [of _ _ _ "y mod n - 1"]) auto
    then show ?thesis using False by simp
  qed
qed

lemma leap_days_step: "leap_days y = leap_days (y - 1) + (if is_leap_year y then 1 else 0)"
proof -
  note a = div_pred [of 4 y] and b = div_pred [of 100 y] and c = div_pred [of 400 y]
  have "400 dvd y \<Longrightarrow> 100 dvd y" "100 dvd y \<Longrightarrow> 4 dvd y" by (rule dvd_trans [rotated], assumption, simp)+
  then show ?thesis using a b c unfolding leap_days_def leap_dvd by auto
qed

lemma year_days_step: "1970 \<le> y \<Longrightarrow> year_days (y + 1) = year_days y + (if is_leap_year y then 366 else 365)"
  by (simp add: year_days_def upto_rec2 [of 1970 y])

lemma year_days_closed: "1970 \<le> y \<Longrightarrow> year_days y = 365 * (y - 1970) + leap_days (y - 1) - leap_days 1969"
proof (induction y rule: int_ge_induct)
  case base
  then show ?case by (simp add: year_days_def)
next
  case (step y)
  then show ?case using leap_days_step [of y] by (simp add: year_days_step)
qed

lemma month_cases: "1 \<le> m \<Longrightarrow> m \<le> 12 \<Longrightarrow> m \<in> {1, 2, 3, 4, 5, 6, 7, 8, 9, 10, 11, 12 :: int}"
  by simp presburger

definition cumulative :: "int list" where
  "cumulative = [0, 31, 59, 90, 120, 151, 181, 212, 243, 273, 304, 334]"

lemma month_days_closed:
  assumes "1 \<le> m" and "m \<le> 12"
  shows "month_days y m = Some (cumulative ! nat (m - 1) + (if 3 \<le> m \<and> is_leap_year y then 1 else 0))"
proof -
  have u: "[0..<Suc n] = [0..<n] @ [n]" for n by simp
  show ?thesis using month_cases [OF assms]
    by (elim insertE emptyE) (simp_all add: month_days_def days_in_month_def cumulative_def numeral_eq_Suc u del: upt_Suc)
qed

text \<open>The days of a date, as far as the month is one.\<close>

definition date_days :: "int \<Rightarrow> int \<Rightarrow> int \<Rightarrow> int" where
  "date_days y m d = 365 * (y - 1970) + leap_days (y - 1) - 477 + cumulative ! nat (m - 1) +
     (if 3 \<le> m \<and> is_leap_year y then 1 else 0) + (d - 1)"

lemma epoch_date_days: "1970 \<le> y \<Longrightarrow> 1 \<le> m \<Longrightarrow> m \<le> 12 \<Longrightarrow> days_since_epoch y m d = Some (date_days y m d)"
  using leap_days_def [of 1969] by (simp add: days_since_epoch_def month_days_closed year_days_closed date_days_def)

section \<open>The day of the week\<close>

lemma zeller_year:
  assumes "0 \<le> (Y :: int)"
  shows "Y mod 100 + (Y mod 100) div 4 + (Y div 100) div 4 + 5 * (Y div 100) = Y + leap_days Y - 119 * (Y div 100)"
proof -
  define j where "j = Y div 100"
  define k where "k = Y mod 100"
  have Y: "Y = 100 * j + k" unfolding j_def k_def by simp
  have "Y div 4 = (4 * (25 * j) + k) div 4" unfolding Y by simp
  also have "\<dots> = 25 * j + k div 4" by (simp only: div_mult_self4)
  finally have a: "Y div 4 = 25 * j + k div 4" .
  have "Y div (100 * 4) = (Y div 100) div 4" by (rule zdiv_zmult2_eq) simp
  then have "leap_days Y = 25 * j + k div 4 - j + j div 4" unfolding leap_days_def a j_def by simp
  then show ?thesis unfolding j_def [symmetric] k_def [symmetric] using Y by simp
qed

lemma week_day_days:
  assumes y: "1970 \<le> y" and m: "1 \<le> m" "m \<le> 12" and d: "1 \<le> d"
  shows "week_day y m d = (date_days y m d + 3) mod 7"
proof -
  define Y where "Y = (if m < 3 then y - 1 else y)"
  define M where "M = (if m < 3 then m + 12 else m)"
  have nn: "0 \<le> Y" "0 \<le> Y mod 100" "0 \<le> Y div 100" "0 \<le> M" using y m unfolding Y_def M_def by (auto simp: pos_imp_zdiv_nonneg_iff)
  define h where "h = d + 13 * (M + 1) div 5 + (Y + leap_days Y - 119 * (Y div 100))"
  have hh: "h = d + 13 * (M + 1) div 5 + Y mod 100 + (Y mod 100) div 4 + (Y div 100) div 4 + 5 * (Y div 100)"
    using zeller_year [OF nn(1)] unfolding h_def by linarith
  have h0: "0 \<le> h" using nn d unfolding hh by (simp add: pos_imp_zdiv_nonneg_iff)
  have "week_day y m d = (h smod 7 + 5) smod 7"
  proof -
    have "Y smod 100 = Y mod 100" "Y sdiv 100 = Y div 100" "(Y mod 100) sdiv 4 = (Y mod 100) div 4"
      "(Y div 100) sdiv 4 = (Y div 100) div 4" "(13 * (M + 1)) sdiv 5 = (13 * (M + 1)) div 5"
      using nn by (simp_all add: sdiv_nonneg smod_nonneg)
    moreover have "week_day y m d =
      ((d + 13 * (M + 1) sdiv 5 + Y smod 100 + (Y smod 100) sdiv 4 + (Y sdiv 100) sdiv 4 + 5 * (Y sdiv 100)) smod 7 + 5) smod 7"
      unfolding week_day_def Y_def M_def by (simp add: Let_def)
    ultimately show ?thesis unfolding hh by (simp only:)
  qed
  also have "\<dots> = (h + 5) mod 7" using h0 by (simp add: smod_nonneg mod_add_left_eq)
  also have "(h + 5) mod 7 = (date_days y m d + 3) mod 7"
  proof -
    define j where "j = Y div 100"
    define e where "e = 13 * (M + 1) div 5 - cumulative ! nat (m - 1) - (if m < 3 then 1 else 0)"
    have e: "7 dvd e" using month_cases [OF m]
      by (elim insertE emptyE) (simp_all add: e_def M_def cumulative_def numeral_eq_Suc)
    have "h + 5 - (date_days y m d + 3) = e + 7 * (102790 - 52 * y - 17 * j)"
      using leap_days_step [of y] unfolding h_def date_days_def e_def j_def [symmetric] by (cases "m < 3") (simp_all add: Y_def)
    then have "7 dvd (h + 5) - (date_days y m d + 3)" using e by simp
    then show ?thesis by (simp add: mod_eq_dvd_iff)
  qed
  finally show ?thesis .
qed

text \<open>
  The day of the week that \<open>gmtime\<close> computes is always one day behind: it is the number of days since 1 January 1970 plus 3,
  although that day was a Thursday, which is 4.
\<close>

theorem weekday_one_behind:
  assumes "gmtime timer rtc_read = Some t" and "70 \<le> tm_year t" and "0 \<le> tm_mon t" and "tm_mon t \<le> 11" and "1 \<le> tm_mday t"
  shows "\<exists>D. days_since_epoch (tm_year t + 1900) (tm_mon t + 1) (tm_mday t) = Some D \<and>
    tm_wday t = (D + 3) mod 7 \<and> tm_wday t \<noteq> (D + 4) mod 7"
proof -
  have "tm_wday t = week_day (tm_year t + 1900) (tm_mon t + 1) (tm_mday t)"
    using assms(1) by (auto simp: gmtime_def rtc_to_tm_def Let_def split: option.splits)
  then have "tm_wday t = (date_days (tm_year t + 1900) (tm_mon t + 1) (tm_mday t) + 3) mod 7"
    using week_day_days [of "tm_year t + 1900" "tm_mon t + 1" "tm_mday t"] assms by simp
  moreover have "(D + 3) mod 7 \<noteq> (D + 4) mod 7" for D :: int by presburger
  ultimately show ?thesis using epoch_date_days [of "tm_year t + 1900" "tm_mon t + 1" "tm_mday t"] assms by auto
qed

text \<open>A clock chip in binary 24 hour mode.\<close>

definition demo_rtc :: rtc where
  "demo_rtc = (\<lambda>_. 0)(11 := 6, 50 := 20, 9 := 24, 8 := 2, 7 := 29, 4 := 23, 2 := 59, 0 := 30)"

lemma demo_gmtime:
  "gmtime (0 :: nat) demo_rtc = Some \<lparr>tm_sec = 30, tm_min = 59, tm_hour = 23, tm_mday = 29, tm_mon = 1, tm_year = 124, tm_wday = 3,
     tm_yday = 59, tm_isdst = 0\<rparr>"
proof -
  have "date_days 2024 2 29 = 19782" "date_days 2024 1 1 = 19723" by (simp_all add: date_days_def leap_days_def leap_dvd cumulative_def)
  then have "days_since_epoch 2024 2 29 = Some 19782" "days_since_epoch 2024 1 1 = Some 19723" "week_day 2024 2 29 = 3"
    using epoch_date_days [of 2024 2 29] epoch_date_days [of 2024 1 1] week_day_days [of 2024 2 29] by simp_all
  then show ?thesis by (simp add: gmtime_def rtc_to_tm_def rtc_field_def rtc_hour_def demo_rtc_def Let_def)
qed

theorem weekday_one_behind_witness:
  "\<exists>D. days_since_epoch 2024 2 29 = Some D \<and> 3 = (D + 3) mod 7 \<and> 3 \<noteq> (D + 4) mod 7"
  using weekday_one_behind [OF demo_gmtime] by simp

section \<open>The order of time stamps\<close>

definition month_length :: "int \<Rightarrow> int \<Rightarrow> int" where
  "month_length y m = days_in_month ! nat (m - 1) + (if m = 2 \<and> is_leap_year y then 1 else 0)"

definition valid_tm :: "tm \<Rightarrow> bool" where
  "valid_tm t \<longleftrightarrow> 70 \<le> tm_year t \<and> 0 \<le> tm_mon t \<and> tm_mon t \<le> 11 \<and> 1 \<le> tm_mday t \<and>
     tm_mday t \<le> month_length (tm_year t + 1900) (tm_mon t + 1) \<and> 0 \<le> tm_hour t \<and> tm_hour t \<le> 23 \<and>
     0 \<le> tm_min t \<and> tm_min t \<le> 59 \<and> 0 \<le> tm_sec t \<and> tm_sec t \<le> 59"

definition tm_key :: "tm \<Rightarrow> int list" where
  "tm_key t = [tm_year t, tm_mon t, tm_mday t, tm_hour t, tm_min t, tm_sec t]"

lemma next_month: "1 \<le> m \<Longrightarrow> m \<le> 11 \<Longrightarrow> date_days y (m + 1) d = date_days y m d + month_length y m"
proof -
  assume "1 \<le> m" "m \<le> 11"
  then have "m \<in> {1, 2, 3, 4, 5, 6, 7, 8, 9, 10, 11 :: int}" by simp presburger
  then show ?thesis by (elim insertE emptyE) (simp_all add: date_days_def month_length_def cumulative_def days_in_month_def numeral_eq_Suc)
qed

lemma month_length_pos: "28 \<le> month_length y m" if "1 \<le> m" "m \<le> 12"
  using month_cases [OF that] by (elim insertE emptyE) (auto simp: month_length_def days_in_month_def numeral_eq_Suc)

lemma later_month: "m + 1 \<le> m' \<Longrightarrow> 1 \<le> m \<Longrightarrow> m' \<le> 12 \<Longrightarrow> date_days y m 1 + month_length y m \<le> date_days y m' 1"
proof (induction m' rule: int_ge_induct)
  case base
  then show ?case using next_month [of m y 1] by simp
next
  case (step k)
  then show ?case using next_month [of k y 1] month_length_pos [of k y] by simp
qed

lemma next_year: "date_days (y + 1) 1 1 = date_days y 12 1 + 31"
  using leap_days_step [of y] by (simp add: date_days_def cumulative_def numeral_eq_Suc)

lemma later_year: "y + 1 \<le> y' \<Longrightarrow> 1 \<le> m \<Longrightarrow> m \<le> 12 \<Longrightarrow> date_days y m 1 + month_length y m \<le> date_days y' 1 1"
proof (induction y' rule: int_ge_induct)
  case base
  then show ?case using later_month [of m 12 y] next_year [of y]
    by (cases "m = 12") (simp_all add: month_length_def days_in_month_def numeral_eq_Suc)
next
  case (step k)
  have "date_days k 1 1 + month_length k 1 \<le> date_days k 12 1" by (rule later_month) auto
  then show ?case using step next_year [of k] month_length_pos [of 1 k] by simp
qed

lemma date_days_day: "date_days y m d = date_days y m 1 + (d - 1)"
  by (simp add: date_days_def)

lemma mktime_value:
  "valid_tm t \<Longrightarrow> mktime t = Some (date_days (tm_year t + 1900) (tm_mon t + 1) (tm_mday t) * 86400 + tm_hour t * 3600 + tm_min t * 60 + tm_sec t)"
  by (simp add: mktime_def valid_tm_def epoch_date_days)

lemma mktime_less:
  assumes t: "valid_tm t" and u: "valid_tm u" and l: "ord_class.lexordp (tm_key t) (tm_key u)"
  shows "the (mktime t) < the (mktime u)"
proof -
  let ?D = "\<lambda>t. date_days (tm_year t + 1900) (tm_mon t + 1) (tm_mday t)"
  let ?S = "\<lambda>t. tm_hour t * 3600 + tm_min t * 60 + tm_sec t"
  have S: "0 \<le> ?S t" "?S u \<ge> 0" "?S t < 86400" using t u unfolding valid_tm_def by linarith+
  have md: "1 \<le> tm_mday t" "1 \<le> tm_mday u" "tm_mday t \<le> month_length (tm_year t + 1900) (tm_mon t + 1)"
    using t u unfolding valid_tm_def by blast+
  have m: "1 \<le> tm_mon t + 1" "tm_mon t + 1 \<le> 12" "1 \<le> tm_mon u + 1" "tm_mon u + 1 \<le> 12" using t u unfolding valid_tm_def by auto
  have dd: "?D t = date_days (tm_year t + 1900) (tm_mon t + 1) 1 + (tm_mday t - 1)"
    "?D u = date_days (tm_year u + 1900) (tm_mon u + 1) 1 + (tm_mday u - 1)" by (rule date_days_day)+
  consider "tm_year t < tm_year u" | "tm_year t = tm_year u" "tm_mon t < tm_mon u"
    | "tm_year t = tm_year u" "tm_mon t = tm_mon u" "tm_mday t < tm_mday u"
    | "tm_year t = tm_year u" "tm_mon t = tm_mon u" "tm_mday t = tm_mday u" "?S t < ?S u"
  proof -
    have "?S t < ?S u" if "tm_hour t < tm_hour u \<or> tm_hour t = tm_hour u \<and> (tm_min t < tm_min u \<or> tm_min t = tm_min u \<and> tm_sec t < tm_sec u)"
      using that t u unfolding valid_tm_def by linarith
    moreover have "tm_year t < tm_year u \<or> tm_year t = tm_year u \<and> (tm_mon t < tm_mon u \<or> tm_mon t = tm_mon u \<and>
        (tm_mday t < tm_mday u \<or> tm_mday t = tm_mday u \<and> (tm_hour t < tm_hour u \<or> tm_hour t = tm_hour u \<and>
        (tm_min t < tm_min u \<or> tm_min t = tm_min u \<and> tm_sec t < tm_sec u))))"
      using l unfolding tm_key_def by (auto simp: not_less order.order_iff_strict)
    ultimately show thesis using that by blast
  qed
  then have "?D t < ?D u \<or> ?D t = ?D u \<and> ?S t < ?S u"
  proof cases
    case 1
    have "date_days (tm_year u + 1900) 1 1 \<le> date_days (tm_year u + 1900) (tm_mon u + 1) 1"
      using later_month [of 1 "tm_mon u + 1" "tm_year u + 1900"] month_length_pos [of 1 "tm_year u + 1900"] u unfolding valid_tm_def
      by (cases "tm_mon u = 0") auto
    moreover have "date_days (tm_year t + 1900) (tm_mon t + 1) 1 + month_length (tm_year t + 1900) (tm_mon t + 1) \<le> date_days (tm_year u + 1900) 1 1"
      using 1 m by (intro later_year) auto
    ultimately show ?thesis using md dd by linarith
  next
    case 2
    have "date_days (tm_year t + 1900) (tm_mon t + 1) 1 + month_length (tm_year t + 1900) (tm_mon t + 1) \<le> date_days (tm_year t + 1900) (tm_mon u + 1) 1"
      using 2 m by (intro later_month) auto
    then show ?thesis using md dd 2 by simp
  next
    case 3
    then show ?thesis using date_days_day [of _ _ "tm_mday t"] date_days_day [of _ _ "tm_mday u"] by simp
  next
    case 4
    then show ?thesis by simp
  qed
  then show ?thesis using S mktime_value [OF t] mktime_value [OF u] by auto
qed

text \<open>
  C30. \<open>mktime\<close> maps the valid dates from 1970 on to time stamps in the order of the dates: one time stamp is smaller than another
  exactly if the date is earlier, and equal only for equal dates. Years are numbers without bound here; the code adds 1900
  to them in 32 bits, which makes a difference for years beyond $2^{31}$ only.
\<close>

theorem mktime_monotone:
  assumes "valid_tm t" and "valid_tm u"
  shows "\<exists>a b. mktime t = Some a \<and> mktime u = Some b \<and> (a < b \<longleftrightarrow> ord_class.lexordp (tm_key t) (tm_key u)) \<and> (a = b \<longleftrightarrow> tm_key t = tm_key u)"
proof -
  obtain a b where ab: "mktime t = Some a" "mktime u = Some b" using mktime_value assms by blast
  have eq: "tm_key t = tm_key u \<Longrightarrow> a = b" using ab unfolding tm_key_def mktime_def by simp
  have lin: "ord_class.lexordp (tm_key t) (tm_key u) \<or> tm_key t = tm_key u \<or> ord_class.lexordp (tm_key u) (tm_key t)"
    by (rule lexordp_linear)
  show ?thesis using ab eq lin mktime_less [OF assms] mktime_less [OF assms(2,1)] by fastforce
qed

theorem mktime_monotone_witness:
  "\<exists>a b. mktime \<lparr>tm_sec = 59, tm_min = 59, tm_hour = 23, tm_mday = 29, tm_mon = 1, tm_year = 124, tm_wday = 0, tm_yday = 0, tm_isdst = 0\<rparr> = Some a \<and>
    mktime \<lparr>tm_sec = 0, tm_min = 0, tm_hour = 0, tm_mday = 1, tm_mon = 2, tm_year = 124, tm_wday = 0, tm_yday = 0, tm_isdst = 0\<rparr> = Some b \<and>
    (a < b \<longleftrightarrow> ord_class.lexordp [124, 1, 29, 23, 59, 59 :: int] [124, 2, 1, 0, 0, 0]) \<and>
    (a = b \<longleftrightarrow> [124, 1, 29, 23, 59, 59 :: int] = [124, 2, 1, 0, 0, 0])"
  using mktime_monotone [of "\<lparr>tm_sec = 59, tm_min = 59, tm_hour = 23, tm_mday = 29, tm_mon = 1, tm_year = 124, tm_wday = 0, tm_yday = 0, tm_isdst = 0\<rparr>"
    "\<lparr>tm_sec = 0, tm_min = 0, tm_hour = 0, tm_mday = 1, tm_mon = 2, tm_year = 124, tm_wday = 0, tm_yday = 0, tm_isdst = 0\<rparr>"]
  by (simp add: valid_tm_def tm_key_def month_length_def days_in_month_def leap_dvd numeral_eq_Suc)

section \<open>Local time\<close>

lemma day_carry_div: "0 \<le> s \<Longrightarrow> day_carry s d = (s mod 86400, d + s div 86400)"
proof (induction s d rule: day_carry.induct)
  case (1 s d)
  show ?case
  proof (cases "86400 \<le> s")
    case True
    have "s mod 86400 = (s - 86400) mod 86400" "s div 86400 = (s - 86400) div 86400 + 1"
      using mod_add_self2 [of "s - 86400" 86400] div_add_self2 [of 86400 "s - 86400"] by simp_all
    then show ?thesis using 1 True by (simp add: day_carry.simps [of s d])
  next
    case False
    then show ?thesis using 1 by (simp add: day_carry.simps [of s d])
  qed
qed

lemma hms: "0 \<le> (s :: int) \<Longrightarrow> s sdiv 3600 * 3600 + (s smod 3600) sdiv 60 * 60 + s smod 60 = s"
proof -
  assume s: "0 \<le> s"
  have "s mod 60 = (s mod 3600) mod 60" using mod_mod_cancel [of 60 3600 s] by simp
  then show ?thesis using s by (simp add: sdiv_nonneg smod_nonneg)
qed

lemma epoch_day: "days_since_epoch y m (d + k) = map_option (\<lambda>D. D + k) (days_since_epoch y m d)"
  by (cases "month_days y m") (simp_all add: days_since_epoch_def)

text \<open>
  \<open>localtime\<close> may return a day behind the end of its month, but \<open>mktime\<close> takes that into account: the time stamp of the local
  time is the one of UTC plus eight hours for every state of the clock chip.
\<close>

theorem localtime_is_utc_plus_8:
  assumes "localtime timer rtc_read = Some l" and "gmtime timer rtc_read = Some g"
  shows "mktime l = map_option (\<lambda>s. s + 28800) (mktime g)"
proof -
  have l: "l = local_shift g" and nn: "0 \<le> tm_hour g" "0 \<le> tm_min g" "0 \<le> tm_sec g"
    using assms by (auto simp: localtime_def gmtime_def rtc_to_tm_def Let_def split: option.splits)
  define s where "s = tm_hour g * 3600 + tm_min g * 60 + tm_sec g + 28800"
  have s: "0 \<le> s" using nn unfolding s_def by simp
  have l': "l = g\<lparr>tm_mday := tm_mday g + s div 86400, tm_hour := (s mod 86400) sdiv 3600,
      tm_min := ((s mod 86400) smod 3600) sdiv 60, tm_sec := (s mod 86400) smod 60\<rparr>"
    unfolding l local_shift_def using day_carry_div [OF s, of "tm_mday g"] by (simp add: s_def)
  have "(D + s div 86400) * 86400 + (s mod 86400) sdiv 3600 * 3600 + ((s mod 86400) smod 3600) sdiv 60 * 60 + (s mod 86400) smod 60 =
    D * 86400 + tm_hour g * 3600 + tm_min g * 60 + tm_sec g + 28800" for D
  proof -
    have "(s mod 86400) sdiv 3600 * 3600 + ((s mod 86400) smod 3600) sdiv 60 * 60 + (s mod 86400) smod 60 = s mod 86400" by (rule hms) simp
    moreover have "s div 86400 * 86400 + s mod 86400 = s" by simp
    ultimately show ?thesis unfolding s_def [symmetric] distrib_right using s_def by linarith
  qed
  note eq = this
  show ?thesis
  proof (cases "days_since_epoch (tm_year g + 1900) (tm_mon g + 1) (tm_mday g)")
    case None
    then show ?thesis unfolding l' mktime_def by (simp add: epoch_day)
  next
    case (Some D)
    then have "mktime l = Some ((D + s div 86400) * 86400 + (s mod 86400) sdiv 3600 * 3600 + ((s mod 86400) smod 3600) sdiv 60 * 60 + (s mod 86400) smod 60)"
      unfolding l' mktime_def by (simp add: epoch_day)
    then show ?thesis unfolding eq using Some by (simp add: mktime_def)
  qed
qed

theorem localtime_is_utc_plus_8_witness:
  "\<exists>l g. localtime (0 :: nat) demo_rtc = Some l \<and> gmtime (0 :: nat) demo_rtc = Some g \<and> tm_mday l = 30 \<and> mktime l = map_option (\<lambda>s. s + 28800) (mktime g)"
proof -
  obtain l where l: "localtime (0 :: nat) demo_rtc = Some l" "tm_mday l = 30"
    using demo_gmtime by (auto simp: localtime_def gmtime_def rtc_to_tm_def Let_def local_shift_def day_carry_div split: option.splits)
  then show ?thesis using localtime_is_utc_plus_8 [OF l(1) demo_gmtime] demo_gmtime by blast
qed

section \<open>The text of a time\<close>

text \<open>The text with all conversions and no limit.\<close>

fun expansion :: "tm \<Rightarrow> u8 list \<Rightarrow> u8 list" where
  "expansion t [] = []"
| "expansion t (c # f) = (if c \<noteq> chr CHR ''%'' then c # expansion t f
     else case f of [] \<Rightarrow> [] | d # f' \<Rightarrow> conversion t d @ expansion t f')"

lemma strftime_loop_expansion:
  "length out \<le> room \<Longrightarrow> strftime_loop room t f out = take room (out @ expansion t f)"
proof (induction room t f out rule: strftime_loop.induct)
  case (2 room t c f out)
  show ?case
  proof (cases "room \<le> length out")
    case True
    then show ?thesis using "2.prems" by simp
  next
    case False
    show ?thesis
    proof (cases "c = chr CHR ''%''")
      case pc: True
      show ?thesis
      proof (cases f)
        case Nil
        then show ?thesis using pc False by simp
      next
        case (Cons d f')
        have "strftime_loop room t f' (out @ take (room - length out) (conversion t d)) =
          take room ((out @ take (room - length out) (conversion t d)) @ expansion t f')"
          using "2.IH"(2) [of d f'] pc False Cons "2.prems" by simp
        also have "\<dots> = take room (out @ conversion t d @ expansion t f')" using "2.prems" by (cases "length (conversion t d) \<le> room - length out") auto
        finally show ?thesis using pc False Cons by simp
      qed
    next
      case nc: False
      then show ?thesis using "2.IH"(1) False by simp
    qed
  qed
qed simp

text \<open>
  \<open>strftime\<close> writes the conversion of its format, cut off so that it fits into the buffer with its end, and nothing for an
  empty buffer or a \<open>NULL\<close> argument.
\<close>

theorem strftime_truncates:
  "strftime s_null maxlen (Some f) (Some t) = (if s_null \<or> maxlen = 0 then None else Some (take (maxlen - 1) (expansion t f))) \<and>
   strftime s_null maxlen None tt = None \<and> strftime s_null maxlen ff None = None"
  by (auto simp: strftime_def strftime_loop_expansion split: option.split)

end
