(* ===== verification/PageTable.thy ===== *)
theory PageTable
  imports KPrelude
begin

text \<open>
  The page tables and the regions of an address space of \<open>kernel/arch/x86_64/memory.c\<close>. A table is 512 entries at a physical address;
  the pages that \<open>memory_alloc_aligned\<close> returns for new tables come from a list, which is empty when there is no
  memory. Address 0 is \<open>NULL\<close>.
\<close>

section \<open>Page tables\<close>

abbreviation (input) PAGE_PRESENT :: u64 where "PAGE_PRESENT \<equiv> 1"
abbreviation (input) PAGE_WRITABLE :: u64 where "PAGE_WRITABLE \<equiv> 2"
abbreviation (input) PAGE_SIZE_2M :: u64 where "PAGE_SIZE_2M \<equiv> 128"

definition PTE_ADDR :: "u64 \<Rightarrow> u64" where
  "PTE_ADDR pte = pte AND 4503599627366400"

type_synonym tables = "u64 \<Rightarrow> nat \<Rightarrow> u64"

record pmap_st =
  pm_tab :: tables
  pm_pool :: "u64 list"

definition table_index :: "nat \<Rightarrow> u64 \<Rightarrow> nat" where
  "table_index shift vaddr = unat (drop_bit shift vaddr AND 511)"

definition set_entry :: "u64 \<Rightarrow> nat \<Rightarrow> u64 \<Rightarrow> pmap_st \<Rightarrow> pmap_st" where
  "set_entry t i e st = st\<lparr>pm_tab := (pm_tab st)(t := (pm_tab st t)(i := e))\<rparr>"

text \<open>A new page filled with zeros.\<close>

definition alloc_table :: "pmap_st \<Rightarrow> u64 option \<times> pmap_st" where
  "alloc_table st =
     (case pm_pool st of
        [] \<Rightarrow> (None, st)
      | x # xs \<Rightarrow> if x = 0 then (None, st\<lparr>pm_pool := xs\<rparr>) else (Some x, st\<lparr>pm_pool := xs, pm_tab := (pm_tab st)(x := (\<lambda>_. 0))\<rparr>))"

definition pmap_get_or_alloc_table :: "u64 \<Rightarrow> nat \<Rightarrow> pmap_st \<Rightarrow> u64 option \<times> pmap_st" where
  "pmap_get_or_alloc_table t i st =
     (if pm_tab st t i AND PAGE_PRESENT \<noteq> 0 then (Some (PTE_ADDR (pm_tab st t i)), st)
      else case alloc_table st of
             (None, st1) \<Rightarrow> (None, st1)
           | (Some x, st1) \<Rightarrow> (Some x, set_entry t i (x OR (PAGE_PRESENT OR PAGE_WRITABLE)) st1))"

definition pmap_map_page :: "u64 \<Rightarrow> u64 \<Rightarrow> u64 \<Rightarrow> u64 \<Rightarrow> pmap_st \<Rightarrow> int \<times> pmap_st" where
  "pmap_map_page pml4 vaddr paddr flags st =
     (if pml4 = 0 then (- 1, st)
      else case pmap_get_or_alloc_table pml4 (table_index 39 vaddr) st of
        (None, st1) \<Rightarrow> (- 1, st1)
      | (Some pdpt, st1) \<Rightarrow>
          (case pmap_get_or_alloc_table pdpt (table_index 30 vaddr) st1 of
             (None, st2) \<Rightarrow> (- 1, st2)
           | (Some pd, st2) \<Rightarrow>
               (case pmap_get_or_alloc_table pd (table_index 21 vaddr) st2 of
                  (None, st3) \<Rightarrow> (- 1, st3)
                | (Some pt, st3) \<Rightarrow> (0, set_entry pt (table_index 12 vaddr) (paddr OR (flags OR PAGE_PRESENT)) st3))))"

definition pmap_unmap_page :: "u64 \<Rightarrow> u64 \<Rightarrow> pmap_st \<Rightarrow> pmap_st" where
  "pmap_unmap_page pml4 vaddr st =
     (if pml4 = 0 then st
      else let e4 = pm_tab st pml4 (table_index 39 vaddr)
      in if e4 AND PAGE_PRESENT = 0 then st
         else let e3 = pm_tab st (PTE_ADDR e4) (table_index 30 vaddr)
         in if e3 AND PAGE_PRESENT = 0 then st
            else let e2 = pm_tab st (PTE_ADDR e3) (table_index 21 vaddr)
            in if e2 AND PAGE_PRESENT = 0 then st
               else set_entry (PTE_ADDR e2) (table_index 12 vaddr) 0 st)"

definition pmap_get_physical :: "u64 \<Rightarrow> u64 \<Rightarrow> pmap_st \<Rightarrow> u64" where
  "pmap_get_physical pml4 vaddr st =
     (if pml4 = 0 then 0
      else let e4 = pm_tab st pml4 (table_index 39 vaddr)
      in if e4 AND PAGE_PRESENT = 0 then 0
         else let e3 = pm_tab st (PTE_ADDR e4) (table_index 30 vaddr)
         in if e3 AND PAGE_PRESENT = 0 then 0
            else let e2 = pm_tab st (PTE_ADDR e3) (table_index 21 vaddr)
            in if e2 AND PAGE_PRESENT = 0 then 0
               else if e2 AND PAGE_SIZE_2M \<noteq> 0 then PTE_ADDR e2 + (vaddr AND 2097151)
               else let e1 = pm_tab st (PTE_ADDR e2) (table_index 12 vaddr)
               in if e1 AND PAGE_PRESENT = 0 then 0 else PTE_ADDR e1 + (vaddr AND 4095))"

definition pmap_create :: "u64 \<Rightarrow> pmap_st \<Rightarrow> u64 option \<times> pmap_st" where
  "pmap_create current_pml4 st =
     (case alloc_table st of
        (None, st1) \<Rightarrow> (None, st1)
      | (Some x, st1) \<Rightarrow>
          (Some x, if current_pml4 \<noteq> 0 then st1\<lparr>pm_tab := (pm_tab st1)(x := pm_tab st1 current_pml4)\<rparr> else st1))"

text \<open>\<open>cow_mark_page\<close> of \<open>pagefault.c\<close>, which masks the entries in its own way.\<close>

abbreviation (input) PAGE_COW_FLAG :: u64 where "PAGE_COW_FLAG \<equiv> 512"

definition cow_mark_page :: "u64 \<Rightarrow> u64 \<Rightarrow> pmap_st \<Rightarrow> int \<times> pmap_st" where
  "cow_mark_page pml4 vaddr st =
     (let e4 = pm_tab st pml4 (table_index 39 vaddr)
      in if e4 AND 1 = 0 then (- 1, st)
         else let e3 = pm_tab st (e4 AND NOT 4095) (table_index 30 vaddr)
         in if e3 AND 1 = 0 then (- 1, st)
            else let e2 = pm_tab st (e3 AND NOT 4095) (table_index 21 vaddr)
            in if e2 AND 1 = 0 then (- 1, st)
               else let e1 = pm_tab st (e2 AND NOT 4095) (table_index 12 vaddr)
               in if e1 AND 1 = 0 then (- 1, st)
                  else (0, set_entry (e2 AND NOT 4095) (table_index 12 vaddr) ((e1 AND NOT PAGE_WRITABLE) OR PAGE_COW_FLAG) st))"

section \<open>Regions\<close>

abbreviation (input) VMA_MAX_REGIONS :: nat where "VMA_MAX_REGIONS \<equiv> 128"
abbreviation (input) KERNEL_VMA :: u64 where "KERNEL_VMA \<equiv> 18446744071562067968"
abbreviation (input) KERNEL_VMA_END :: u64 where "KERNEL_VMA_END \<equiv> 18446744072098938880"

record vma_region =
  vr_start :: u64
  vr_end :: u64
  vr_flags :: u64
  vr_type :: u64
  vr_name :: string

record vma_t =
  vm_regions :: "nat \<Rightarrow> vma_region"
  vm_count :: nat
  vm_heap_start :: u64
  vm_heap_end :: u64
  vm_stack_top :: u64

definition vma_region_zero :: vma_region where
  "vma_region_zero = \<lparr>vr_start = 0, vr_end = 0, vr_flags = 0, vr_type = 0, vr_name = []\<rparr>"

definition vma_init :: "vma_t \<Rightarrow> vma_t" where
  "vma_init v = \<lparr>vm_regions = (\<lambda>_. vma_region_zero), vm_count = 0, vm_heap_start = KERNEL_VMA + 1048576,
     vm_heap_end = KERNEL_VMA + 1048576, vm_stack_top = KERNEL_VMA_END\<rparr>"

text \<open>In a table at its maximum the call fails; a name is cut off at 31 characters.\<close>

definition vma_map :: "u64 \<Rightarrow> u64 \<Rightarrow> u64 \<Rightarrow> string option \<Rightarrow> vma_t \<Rightarrow> int \<times> vma_t" where
  "vma_map start end' flags name v =
     (if vm_count v \<ge> VMA_MAX_REGIONS then (- 1, v)
      else if start \<ge> end' then (- 1, v)
      else (0, v\<lparr>vm_regions := (vm_regions v)(vm_count v :=
                   \<lparr>vr_start = start, vr_end = end', vr_flags = flags, vr_type = 0,
                    vr_name = (case name of None \<Rightarrow> [] | Some s \<Rightarrow> take 31 s)\<rparr>),
                 vm_count := vm_count v + 1\<rparr>))"

definition vma_unmap :: "u64 \<Rightarrow> u64 \<Rightarrow> vma_t \<Rightarrow> int \<times> vma_t" where
  "vma_unmap start end' v =
     (case first_index (\<lambda>i. vr_start (vm_regions v i) = start \<and> vr_end (vm_regions v i) = end') (vm_count v) of
        None \<Rightarrow> (- 1, v)
      | Some i \<Rightarrow>
          (0, v\<lparr>vm_regions := (if i < vm_count v - 1 then (vm_regions v)(i := vm_regions v (vm_count v - 1)) else vm_regions v),
                vm_count := vm_count v - 1\<rparr>))"

definition vma_find :: "u64 \<Rightarrow> vma_t \<Rightarrow> nat option" where
  "vma_find addr v = first_index (\<lambda>i. addr \<ge> vr_start (vm_regions v i) \<and> addr < vr_end (vm_regions v i)) (vm_count v)"

definition vma_alloc_range :: "u64 \<Rightarrow> u64 \<Rightarrow> vma_t \<Rightarrow> u64 \<times> vma_t" where
  "vma_alloc_range sz align v =
     (if vm_count v \<ge> VMA_MAX_REGIONS then (0, v)
      else let addr = (if align > 4096 then (vm_heap_end v + align - 1) AND NOT (align - 1) else vm_heap_end v)
           in (addr, v\<lparr>vm_heap_end := addr + sz\<rparr>))"

end
