(* ===== verification/Mmap.thy ===== *)
theory Mmap
  imports PageTable
begin

text \<open>
  The memory areas of an address space, \<open>kernel/arch/x86_64/mmap.c\<close>, on top of the page tables. Free physical pages come from a
  list and return to it. No area ever has a file: \<open>mmap_do_mmap\<close> stores \<open>NULL\<close> for every kind of area and nothing else
  writes the field, so that the branches for files with their page cache are dead code and left out.
\<close>

section \<open>State\<close>

abbreviation (input) MAP_SHARED :: u32 where "MAP_SHARED \<equiv> 1"
abbreviation (input) MAP_PRIVATE :: u32 where "MAP_PRIVATE \<equiv> 2"
abbreviation (input) MAP_FIXED :: u32 where "MAP_FIXED \<equiv> 16"
abbreviation (input) MAP_ANONYMOUS :: u32 where "MAP_ANONYMOUS \<equiv> 32"
abbreviation (input) PROT_WRITE :: u32 where "PROT_WRITE \<equiv> 2"
abbreviation (input) PROT_EXEC :: u32 where "PROT_EXEC \<equiv> 4"
abbreviation (input) MMAP_FLAG_DIRTY :: u32 where "MMAP_FLAG_DIRTY \<equiv> 4096"
abbreviation (input) MMAP_FLAG_COW :: u32 where "MMAP_FLAG_COW \<equiv> 8192"
abbreviation (input) MMAP_FLAG_POPULATED :: u32 where "MMAP_FLAG_POPULATED \<equiv> 16384"
abbreviation (input) MMAP_MAX_AREAS :: nat where "MMAP_MAX_AREAS \<equiv> 256"
abbreviation (input) MMAP_SEARCH_START :: u64 where "MMAP_SEARCH_START \<equiv> 139637976727552"
abbreviation (input) MMAP_MIN_ADDR :: u64 where "MMAP_MIN_ADDR \<equiv> 268435456"
abbreviation (input) PAGE_SIZE :: u64 where "PAGE_SIZE \<equiv> 4096"
abbreviation (input) PF_WRITE :: u64 where "PF_WRITE \<equiv> 2"
abbreviation (input) PAGE_USER :: u64 where "PAGE_USER \<equiv> 4"
abbreviation (input) PAGE_NO_EXEC :: u64 where "PAGE_NO_EXEC \<equiv> 9223372036854775808"
abbreviation (input) MAP_FAILED :: u64 where "MAP_FAILED \<equiv> - 1"

record mmap_area =
  ma_start :: u64
  ma_length :: u64
  ma_prot :: u32
  ma_flags :: u32
  ma_offset :: u64
  ma_ref_count :: int
  ma_active :: bool

definition area_zero :: mmap_area where
  "area_zero = \<lparr>ma_start = 0, ma_length = 0, ma_prot = 0, ma_flags = 0, ma_offset = 0, ma_ref_count = 0, ma_active = False\<rparr>"

type_synonym areas = "nat \<Rightarrow> mmap_area"

record mmap_context =
  mc_areas :: areas
  mc_count :: int

text \<open>The processor's root table, the page tables, the free physical pages and the contents of the physical pages.\<close>

record machine =
  mx_cr3 :: u64
  mx_pm :: pmap_st
  mx_free :: "u64 list"
  mx_ram :: "u64 \<Rightarrow> nat \<Rightarrow> u8"

definition set_area :: "nat \<Rightarrow> (mmap_area \<Rightarrow> mmap_area) \<Rightarrow> mmap_context \<Rightarrow> mmap_context" where
  "set_area i f c = c\<lparr>mc_areas := (mc_areas c)(i := f (mc_areas c i))\<rparr>"

definition PAGE_ALIGN_UP :: "u64 \<Rightarrow> u64" where
  "PAGE_ALIGN_UP a = (a + PAGE_SIZE - 1) AND NOT (PAGE_SIZE - 1)"

definition PAGE_ALIGN_DOWN :: "u64 \<Rightarrow> u64" where
  "PAGE_ALIGN_DOWN a = a AND NOT (PAGE_SIZE - 1)"

definition prot_to_pte_flags :: "u32 \<Rightarrow> u64" where
  "prot_to_pte_flags prot =
     (PAGE_PRESENT OR PAGE_USER) OR (if prot AND PROT_WRITE \<noteq> 0 then PAGE_WRITABLE else 0) OR
     (if prot AND PROT_EXEC = 0 then PAGE_NO_EXEC else 0)"

text \<open>The pages of the loops \<open>for (v = s; v < e; v += PAGE_SIZE)\<close>.\<close>

definition pages_between :: "u64 \<Rightarrow> u64 \<Rightarrow> u64 list" where
  "pages_between s e = map (\<lambda>i. s + of_nat i * PAGE_SIZE) [0..<(unat e - unat s + 4095) div 4096]"

definition area_pages :: "mmap_area \<Rightarrow> u64 list" where
  "area_pages a = map (\<lambda>i. ma_start a + of_nat i * PAGE_SIZE) [0..<unat (ma_length a div PAGE_SIZE)]"

section \<open>Pages\<close>

definition unmap_page :: "u64 \<Rightarrow> machine \<Rightarrow> machine" where
  "unmap_page v x = x\<lparr>mx_pm := pmap_unmap_page (mx_cr3 x) v (mx_pm x)\<rparr>"

definition map_page :: "u64 \<Rightarrow> u64 \<Rightarrow> u64 \<Rightarrow> machine \<Rightarrow> int \<times> machine" where
  "map_page v p flags x = (case pmap_map_page (mx_cr3 x) v p flags (mx_pm x) of (r, pm) \<Rightarrow> (r, x\<lparr>mx_pm := pm\<rparr>))"

definition physical :: "u64 \<Rightarrow> machine \<Rightarrow> u64" where
  "physical v x = pmap_get_physical (mx_cr3 x) v (mx_pm x)"

text \<open>A physical page filled with zeros, as far as there is one.\<close>

definition alloc_phys :: "machine \<Rightarrow> u64 option \<times> machine" where
  "alloc_phys x = (case mx_free x of [] \<Rightarrow> (None, x)
     | p # ps \<Rightarrow> (Some p, x\<lparr>mx_free := ps, mx_ram := (mx_ram x)(p := (\<lambda>_. 0))\<rparr>))"

definition free_phys :: "u64 \<Rightarrow> machine \<Rightarrow> machine" where
  "free_phys p x = x\<lparr>mx_free := p # mx_free x\<rparr>"

text \<open>The pages mapped so far are given back.\<close>

definition roll_back :: "u64 list \<Rightarrow> machine \<Rightarrow> machine" where
  "roll_back vs x = fold (\<lambda>v x. let p = physical v x; x1 = unmap_page v x in if p \<noteq> 0 then free_phys p x1 else x1) vs x"

text \<open>
  The loop over the pages \<open>vs\<close> of a new area, with the pages \<open>done\<close> already mapped; \<open>check\<close> tells whether a failure to map is noticed.
\<close>

fun populate :: "bool \<Rightarrow> u64 \<Rightarrow> u64 list \<Rightarrow> u64 list \<Rightarrow> machine \<Rightarrow> bool \<times> machine" where
  "populate check flags mapped [] x = (True, x)"
| "populate check flags mapped (v # vs) x =
     (case alloc_phys x of
        (None, x1) \<Rightarrow> (False, roll_back mapped x1)
      | (Some p, x1) \<Rightarrow>
          (case map_page v p flags x1 of (r, x2) \<Rightarrow>
             if check \<and> r \<noteq> 0 then (False, roll_back mapped (free_phys p x2))
             else populate check flags (mapped @ [v]) vs x2))"

section \<open>The table of areas\<close>

definition mmap_context_init :: "mmap_context \<Rightarrow> mmap_context" where
  "mmap_context_init c = \<lparr>mc_areas = (\<lambda>_. area_zero), mc_count = 0\<rparr>"

definition area_end :: "mmap_area \<Rightarrow> u64" where
  "area_end a = ma_start a + ma_length a"

text \<open>The test for an overlap with the range of \<open>len\<close> bytes from \<open>addr\<close> on.\<close>

definition overlaps :: "u64 \<Rightarrow> u64 \<Rightarrow> mmap_area \<Rightarrow> bool" where
  "overlaps addr len a \<longleftrightarrow> ma_active a \<and> addr < area_end a \<and> addr + len > ma_start a"

definition mmap_find_covering_area :: "u64 \<Rightarrow> u64 \<Rightarrow> areas \<Rightarrow> nat option" where
  "mmap_find_covering_area addr len as = first_index (\<lambda>i. overlaps addr len (as i)) MMAP_MAX_AREAS"

definition mmap_check_overlap :: "u64 \<Rightarrow> u64 \<Rightarrow> areas \<Rightarrow> bool" where
  "mmap_check_overlap addr len as \<longleftrightarrow> first_index (\<lambda>i. overlaps addr len (as i)) MMAP_MAX_AREAS \<noteq> None"

definition mmap_find_area_at :: "u64 \<Rightarrow> areas \<Rightarrow> nat option" where
  "mmap_find_area_at v as = first_index (\<lambda>i. ma_active (as i) \<and> v \<ge> ma_start (as i) \<and> v < area_end (as i)) MMAP_MAX_AREAS"

definition mmap_alloc_slot :: "areas \<Rightarrow> nat option" where
  "mmap_alloc_slot as = first_index (\<lambda>i. \<not> ma_active (as i)) MMAP_MAX_AREAS"

text \<open>The search downwards: after a conflict it goes on below the area.\<close>

function free_area_loop :: "areas \<Rightarrow> u64 \<Rightarrow> u64 \<Rightarrow> u64" where
  "free_area_loop as len candidate =
     (if candidate \<ge> MMAP_MIN_ADDR + len
      then case first_index (\<lambda>i. overlaps (candidate - len) len (as i)) MMAP_MAX_AREAS of
             None \<Rightarrow> candidate - len
           | Some i \<Rightarrow> free_area_loop as len (ma_start (as i))
      else 0)"
  by pat_completeness auto
termination
  by (relation "measure (\<lambda>(as, len, candidate). unat candidate)")
     (auto simp: overlaps_def word_less_nat_alt dest!: first_index_SomeD(2))

declare free_area_loop.simps [simp del]

definition mmap_find_free_area :: "u64 \<Rightarrow> mmap_context \<Rightarrow> u64" where
  "mmap_find_free_area len c = (if len = 0 then 0 else free_area_loop (mc_areas c) (PAGE_ALIGN_UP len) MMAP_SEARCH_START)"

section \<open>Unmapping\<close>

text \<open>What is left of the area \<open>i\<close> when \<open>us .. ue\<close> is taken out of it.\<close>

definition cut_area :: "nat \<Rightarrow> u64 \<Rightarrow> u64 \<Rightarrow> mmap_context \<Rightarrow> mmap_context" where
  "cut_area i us ue c =
     (let a = mc_areas c i
      in if us = ma_start a \<and> ue = area_end a
         then (set_area i (\<lambda>_. area_zero) c)\<lparr>mc_count := mc_count c - 1\<rparr>
         else if us = ma_start a
         then set_area i (\<lambda>a. a\<lparr>ma_start := ma_start a + (ue - ma_start a), ma_length := ma_length a - (ue - ma_start a),
                               ma_offset := (if ma_offset a \<noteq> 0 then ma_offset a + (ue - ma_start a) else ma_offset a)\<rparr>) c
         else if ue = area_end a
         then set_area i (\<lambda>a. a\<lparr>ma_length := ma_length a - (ue - us)\<rparr>) c
         else
           let c1 = (case mmap_alloc_slot (mc_areas c) of
                       None \<Rightarrow> c
                     | Some j \<Rightarrow> (set_area j (\<lambda>_. a\<lparr>ma_start := ue, ma_length := area_end a - ue, ma_offset := ma_offset a + (ue - ma_start a),
                                                  ma_ref_count := 1, ma_active := True\<rparr>) c)\<lparr>mc_count := mc_count c + 1\<rparr>)
           in set_area i (\<lambda>a. a\<lparr>ma_length := us - ma_start a\<rparr>) c1)"

partial_function (option) munmap_loop :: "u64 \<Rightarrow> u64 \<Rightarrow> bool \<Rightarrow> mmap_context \<Rightarrow> machine \<Rightarrow> (bool \<times> mmap_context \<times> machine) option" where
  "munmap_loop addr len found c x =
     (case mmap_find_covering_area addr len (mc_areas c) of
        None \<Rightarrow> Some (found, c, x)
      | Some i \<Rightarrow>
          let a = mc_areas c i;
              us = (if addr > ma_start a then addr else ma_start a);
              ue = (if addr + len < area_end a then addr + len else area_end a);
              x1 = fold unmap_page (pages_between (PAGE_ALIGN_DOWN us) (PAGE_ALIGN_UP ue)) x
          in munmap_loop addr len True (cut_area i us ue c) x1)"

text \<open>\<open>None\<close> is a call that never returns.\<close>

definition mmap_do_munmap :: "u64 \<Rightarrow> u64 \<Rightarrow> mmap_context \<Rightarrow> machine \<Rightarrow> (int \<times> mmap_context \<times> machine) option" where
  "mmap_do_munmap addr len c x =
     (if len = 0 then Some (- 1, c, x)
      else map_option (\<lambda>(found, c1, x1). (if found then 0 else - 1, c1, x1)) (munmap_loop addr (PAGE_ALIGN_UP len) False c x))"

section \<open>Mapping\<close>

text \<open>The checks of the arguments.\<close>

definition mmap_args_ok :: "u64 \<Rightarrow> u64 \<Rightarrow> u32 \<Rightarrow> u32 \<Rightarrow> u64 \<Rightarrow> bool" where
  "mmap_args_ok addr len prot flags offset \<longleftrightarrow>
     len \<noteq> 0 \<and> \<not> len > 1099511627776 \<and>
     \<not> (prot AND 1 = 0 \<and> prot AND PROT_WRITE = 0 \<and> prot AND PROT_EXEC = 0 \<and> prot \<noteq> 0) \<and>
     \<not> (flags AND MAP_SHARED \<noteq> 0 \<and> flags AND MAP_PRIVATE \<noteq> 0) \<and>
     \<not> (flags AND MAP_ANONYMOUS = 0 \<and> offset AND (PAGE_SIZE - 1) \<noteq> 0) \<and>
     \<not> (addr \<noteq> 0 \<and> addr AND (PAGE_SIZE - 1) \<noteq> 0)"

text \<open>The address of the new area; \<open>None\<close> of the inner option is a failure.\<close>

definition choose_addr :: "u64 \<Rightarrow> u64 \<Rightarrow> u32 \<Rightarrow> mmap_context \<Rightarrow> machine \<Rightarrow> (u64 option \<times> mmap_context \<times> machine) option" where
  "choose_addr addr len flags c x =
     (let free = (\<lambda>c. let a = mmap_find_free_area len c in if a = 0 then None else Some a)
      in if addr \<noteq> 0
         then if flags AND MAP_FIXED \<noteq> 0
              then map_option (\<lambda>(_, c1, x1). (Some addr, c1, x1)) (mmap_do_munmap addr len c x)
              else Some (if mmap_check_overlap addr len (mc_areas c) then free c else Some addr, c, x)
         else Some (free c, c, x))"

text \<open>The new area in the slot \<open>i\<close>, populated for anonymous and for shared memory.\<close>

definition install_area :: "nat \<Rightarrow> u64 \<Rightarrow> u64 \<Rightarrow> u32 \<Rightarrow> u32 \<Rightarrow> u64 \<Rightarrow> mmap_context \<Rightarrow> machine \<Rightarrow> u64 \<times> mmap_context \<times> machine" where
  "install_area i addr len prot flags offset c x =
     (let a = \<lparr>ma_start = addr, ma_length = len, ma_prot = prot, ma_flags = flags, ma_offset = offset, ma_ref_count = 1, ma_active = True\<rparr>;
          c1 = (set_area i (\<lambda>_. a) c)\<lparr>mc_count := mc_count c + 1\<rparr>;
          finish = (\<lambda>check. case populate check (prot_to_pte_flags prot) [] (area_pages a) x of
                      (True, x1) \<Rightarrow> (addr, set_area i (\<lambda>a. a\<lparr>ma_flags := ma_flags a OR MMAP_FLAG_POPULATED\<rparr>) c1, x1)
                    | (False, x1) \<Rightarrow> (MAP_FAILED, (set_area i (\<lambda>a. a\<lparr>ma_active := False\<rparr>) c1)\<lparr>mc_count := mc_count c\<rparr>, x1))
      in if flags AND MAP_ANONYMOUS \<noteq> 0 then finish True
         else if flags AND MAP_PRIVATE \<noteq> 0
         then (addr, set_area i (\<lambda>a. a\<lparr>ma_flags := ma_flags a OR MMAP_FLAG_COW\<rparr>) c1, x)
         else if flags AND MAP_SHARED \<noteq> 0 then finish False
         else (addr, c1, x))"

definition mmap_do_mmap :: "u64 \<Rightarrow> u64 \<Rightarrow> u32 \<Rightarrow> u32 \<Rightarrow> u64 \<Rightarrow> mmap_context \<Rightarrow> machine \<Rightarrow> (u64 \<times> mmap_context \<times> machine) option" where
  "mmap_do_mmap addr len prot flags offset c x =
     (if \<not> mmap_args_ok addr len prot flags offset then Some (MAP_FAILED, c, x)
      else Option.bind (choose_addr addr (PAGE_ALIGN_UP len) flags c x) (\<lambda>(v, c1, x1).
        Some (case v of
                None \<Rightarrow> (MAP_FAILED, c1, x1)
              | Some map_addr \<Rightarrow>
                  (case mmap_alloc_slot (mc_areas c1) of
                     None \<Rightarrow> (MAP_FAILED, c1, x1)
                   | Some i \<Rightarrow> install_area i map_addr (PAGE_ALIGN_UP len) prot flags offset c1 x1))))"

section \<open>Protection\<close>

definition reprotect_page :: "u64 \<Rightarrow> u64 \<Rightarrow> machine \<Rightarrow> machine" where
  "reprotect_page flags v x = (let p = physical v x in if p \<noteq> 0 then snd (map_page v p flags (unmap_page v x)) else x)"

text \<open>One round of the loop over the areas; the state has the flag that an area was found.\<close>

definition mprotect_step :: "u64 \<Rightarrow> u64 \<Rightarrow> u32 \<Rightarrow> nat \<Rightarrow> bool \<times> mmap_context \<times> machine \<Rightarrow> bool \<times> mmap_context \<times> machine" where
  "mprotect_step addr len prot i s =
     (case s of (modified, c, x) \<Rightarrow>
        let a = mc_areas c i
        in if \<not> ma_active a \<or> addr \<ge> area_end a \<or> addr + len \<le> ma_start a then s
           else let os = (if addr > ma_start a then addr else ma_start a);
                    oe = (if addr + len < area_end a then addr + len else area_end a)
                in (True, set_area i (\<lambda>a. a\<lparr>ma_prot := prot\<rparr>) c,
                    fold (reprotect_page (prot_to_pte_flags prot)) (pages_between (PAGE_ALIGN_DOWN os) (PAGE_ALIGN_UP oe)) x))"

definition mmap_do_mprotect :: "u64 \<Rightarrow> u64 \<Rightarrow> u32 \<Rightarrow> mmap_context \<Rightarrow> machine \<Rightarrow> int \<times> mmap_context \<times> machine" where
  "mmap_do_mprotect addr len prot c x =
     (if len = 0 then (- 1, c, x)
      else case fold (mprotect_step addr (PAGE_ALIGN_UP len) prot) [0..<MMAP_MAX_AREAS] (False, c, x) of
             (modified, c1, x1) \<Rightarrow> (if modified then 0 else - 1, c1, x1))"

section \<open>Page faults\<close>

text \<open>A fresh page \<open>p\<close> is mapped, or given back if that fails.\<close>

definition fault_map :: "nat \<Rightarrow> u64 \<Rightarrow> u64 \<Rightarrow> u64 \<Rightarrow> u32 \<Rightarrow> mmap_context \<Rightarrow> machine \<Rightarrow> int \<times> mmap_context \<times> machine" where
  "fault_map i v p flags mark c x =
     (case map_page v p flags x of (r, x1) \<Rightarrow>
        if r \<noteq> 0 then (- 1, c, free_phys p x1)
        else (0, set_area i (\<lambda>a. a\<lparr>ma_flags := ma_flags a OR mark\<rparr>) c, x1))"

definition mmap_page_fault_handler :: "u64 \<Rightarrow> u64 \<Rightarrow> mmap_context \<Rightarrow> machine \<Rightarrow> int \<times> mmap_context \<times> machine" where
  "mmap_page_fault_handler vaddr error_code c x =
     (case mmap_find_area_at vaddr (mc_areas c) of
        None \<Rightarrow> (- 1, c, x)
      | Some i \<Rightarrow>
          let a = mc_areas c i;
              v = vaddr AND NOT (PAGE_SIZE - 1);
              flags = prot_to_pte_flags (ma_prot a)
          in if ma_flags a AND MAP_PRIVATE \<noteq> 0
             then (case alloc_phys x of
                     (None, x1) \<Rightarrow> (- 1, c, x1)
                   | (Some p, x1) \<Rightarrow>
                       if error_code AND PF_WRITE \<noteq> 0
                       then let old = physical v x1;
                                x2 = (if old \<noteq> 0 then x1\<lparr>mx_ram := (mx_ram x1)(p := mx_ram x1 old)\<rparr> else x1)
                            in fault_map i v p (flags OR PAGE_WRITABLE) (MMAP_FLAG_DIRTY OR MMAP_FLAG_POPULATED) c x2
                       else fault_map i v p ((flags AND NOT PAGE_WRITABLE) OR PAGE_COW_FLAG) MMAP_FLAG_POPULATED c x1)
             else if ma_flags a AND MAP_ANONYMOUS \<noteq> 0
             then (case alloc_phys x of
                     (None, x1) \<Rightarrow> (- 1, c, x1)
                   | (Some p, x1) \<Rightarrow> fault_map i v p flags MMAP_FLAG_POPULATED c x1)
             else (- 1, c, x))"

section \<open>Destruction and inheritance\<close>

text \<open>The pages are unmapped first, and then their addresses are looked up.\<close>

definition destroy_area :: "nat \<Rightarrow> mmap_context \<times> machine \<Rightarrow> mmap_context \<times> machine" where
  "destroy_area i s =
     (case s of (c, x) \<Rightarrow>
        let a = mc_areas c i
        in if \<not> ma_active a then s
           else let x1 = fold unmap_page (area_pages a) x;
                    x2 = (if ma_flags a AND MAP_ANONYMOUS \<noteq> 0 \<or> ma_flags a AND MAP_PRIVATE \<noteq> 0
                          then fold (\<lambda>v x. let p = physical v x in if p \<noteq> 0 then free_phys p x else x) (area_pages a) x1
                          else x1)
                in (set_area i (\<lambda>_. area_zero) c, x2))"

definition mmap_context_destroy :: "mmap_context \<Rightarrow> machine \<Rightarrow> mmap_context \<times> machine" where
  "mmap_context_destroy c x =
     (case fold destroy_area [0..<MMAP_MAX_AREAS] (c, x) of (c1, x1) \<Rightarrow> (c1\<lparr>mc_count := 0\<rparr>, x1))"

text \<open>Both root tables are the one that the processor uses.\<close>

definition inherit_area :: "mmap_area \<Rightarrow> mmap_context \<Rightarrow> machine \<Rightarrow> (mmap_context \<times> machine) option" where
  "inherit_area pa child x =
     (case mmap_alloc_slot (mc_areas child) of
        None \<Rightarrow> None
      | Some j \<Rightarrow>
          if ma_flags pa AND MAP_SHARED \<noteq> 0
          then Some ((set_area j (\<lambda>_. pa\<lparr>ma_ref_count := ma_ref_count pa + 1\<rparr>) child)\<lparr>mc_count := mc_count child + 1\<rparr>,
                     fold (\<lambda>v x. let p = physical v x in if p \<noteq> 0 then snd (map_page v p (prot_to_pte_flags (ma_prot pa)) x) else x) (area_pages pa) x)
          else Some ((set_area j (\<lambda>_. pa\<lparr>ma_ref_count := 1, ma_flags := ma_flags pa OR MMAP_FLAG_COW\<rparr>) child)\<lparr>mc_count := mc_count child + 1\<rparr>,
                     fold (\<lambda>v x. x\<lparr>mx_pm := snd (cow_mark_page (mx_cr3 x) v (mx_pm x))\<rparr>) (area_pages pa) x))"

text \<open>The loop over the parent's areas.\<close>

fun inherit_areas :: "mmap_area list \<Rightarrow> mmap_context \<Rightarrow> machine \<Rightarrow> int \<times> mmap_context \<times> machine" where
  "inherit_areas [] child x = (0, child, x)"
| "inherit_areas (pa # pas) child x =
     (if \<not> ma_active pa then inherit_areas pas child x
      else case inherit_area pa child x of
             None \<Rightarrow> (- 1, child, x)
           | Some (child1, x1) \<Rightarrow> inherit_areas pas child1 x1)"

definition mmap_fork_inherit :: "mmap_context \<Rightarrow> mmap_context \<Rightarrow> machine \<Rightarrow> int \<times> mmap_context \<times> machine" where
  "mmap_fork_inherit parent child x = inherit_areas (map (mc_areas parent) [0..<MMAP_MAX_AREAS]) child x"

end
