(* ===== verification/PageTableProps.thy ===== *)
theory PageTableProps
  imports PageTable
begin

text \<open>
  The page tables as a map from pages to entries. The tables of an address space form a tree: no table is reached on
  two ways.
\<close>

section \<open>Paths\<close>

text \<open>The table at the end of a path of indices.\<close>

fun table_at :: "tables \<Rightarrow> u64 \<Rightarrow> nat list \<Rightarrow> u64 option" where
  "table_at m t [] = Some t"
| "table_at m t (i # is) = (if m t i AND PAGE_PRESENT \<noteq> 0 then table_at m (PTE_ADDR (m t i)) is else None)"

lemma table_at_append: "table_at m t (p @ q) = Option.bind (table_at m t p) (\<lambda>t'. table_at m t' q)"
  by (induction p arbitrary: t) auto

lemma table_at_snoc:
  "table_at m t (p @ [i]) = (case table_at m t p of None \<Rightarrow> None
     | Some t' \<Rightarrow> if m t' i AND PAGE_PRESENT \<noteq> 0 then Some (PTE_ADDR (m t' i)) else None)"
  by (simp add: table_at_append split: option.split)

text \<open>An entry matters only for the paths through it.\<close>

lemma table_at_entry_frame:
  assumes "\<And>a b. a \<noteq> t \<or> b \<noteq> i \<Longrightarrow> m' a b = m a b" and "\<And>r j q'. q = r @ j # q' \<Longrightarrow> table_at m R r \<noteq> Some t \<or> j \<noteq> i"
  shows "table_at m' R q = table_at m R q"
  using assms(2)
proof (induction q arbitrary: R)
  case (Cons j q)
  have "R \<noteq> t \<or> j \<noteq> i" using Cons.prems [of "[]" j q] by auto
  then have e: "m' R j = m R j" by (rule assms(1))
  have "table_at m' (PTE_ADDR (m R j)) q = table_at m (PTE_ADDR (m R j)) q" if p: "m R j AND PAGE_PRESENT \<noteq> 0"
  proof (rule Cons.IH)
    fix r k q' assume "q = r @ k # q'"
    then show "table_at m (PTE_ADDR (m R j)) r \<noteq> Some t \<or> k \<noteq> i" using Cons.prems [of "j # r" k q'] p by auto
  qed
  then show ?case using e by simp
qed simp

lemma table_at_fresh_frame:
  assumes "\<And>a. a \<noteq> x \<Longrightarrow> m' a = m a" and "\<And>r q'. q = r @ q' \<Longrightarrow> q' \<noteq> [] \<Longrightarrow> table_at m R r \<noteq> Some x"
  shows "table_at m' R q = table_at m R q"
  using assms(2)
proof (induction q arbitrary: R)
  case (Cons j q)
  have "R \<noteq> x" using Cons.prems [of "[]" "j # q"] by auto
  then have e: "m' R j = m R j" using assms(1) by simp
  have "table_at m' (PTE_ADDR (m R j)) q = table_at m (PTE_ADDR (m R j)) q" if p: "m R j AND PAGE_PRESENT \<noteq> 0"
  proof (rule Cons.IH)
    fix r q' assume "q = r @ q'" "q' \<noteq> []"
    then show "table_at m (PTE_ADDR (m R j)) r \<noteq> Some x" using Cons.prems [of "j # r" q'] p by auto
  qed
  then show ?case using e by simp
qed simp

definition page_key :: "u64 \<Rightarrow> nat list" where
  "page_key v = [table_index 39 v, table_index 30 v, table_index 21 v]"

text \<open>The entry of the page of an address, if it is present.\<close>

definition pte_of :: "u64 \<Rightarrow> pmap_st \<Rightarrow> u64 \<Rightarrow> u64 option" where
  "pte_of R st v = (case table_at (pm_tab st) R (page_key v) of None \<Rightarrow> None
     | Some t \<Rightarrow> if pm_tab st t (table_index 12 v) AND PAGE_PRESENT \<noteq> 0 then Some (pm_tab st t (table_index 12 v)) else None)"

definition same_page :: "u64 \<Rightarrow> u64 \<Rightarrow> bool" where
  "same_page v w \<longleftrightarrow> page_key v = page_key w \<and> table_index 12 v = table_index 12 w"

text \<open>
  The tables under the root form a tree of four levels without 2 MB pages, and the pages for new tables are page aligned and not
  in use.
\<close>

definition pmap_wf :: "u64 \<Rightarrow> pmap_st \<Rightarrow> bool" where
  "pmap_wf R st \<longleftrightarrow> R \<noteq> 0 \<and>
     (\<forall>p q t. length p \<le> 3 \<and> length q \<le> 3 \<and> table_at (pm_tab st) R p = Some t \<and> table_at (pm_tab st) R q = Some t \<longrightarrow> p = q) \<and>
     (\<forall>p i t. length p = 2 \<and> table_at (pm_tab st) R p = Some t \<and> pm_tab st t i AND PAGE_PRESENT \<noteq> 0 \<longrightarrow> pm_tab st t i AND PAGE_SIZE_2M = 0) \<and>
     distinct (pm_pool st) \<and>
     (\<forall>x\<in>set (pm_pool st). PTE_ADDR x = x \<and> (\<forall>p. length p \<le> 3 \<longrightarrow> table_at (pm_tab st) R p \<noteq> Some x))"

lemma table_bits:
  assumes "PTE_ADDR x = x"
  shows "PTE_ADDR (x OR (PAGE_PRESENT OR PAGE_WRITABLE)) = x" and "(x OR (PAGE_PRESENT OR PAGE_WRITABLE)) AND PAGE_PRESENT \<noteq> 0"
    and "(x OR (PAGE_PRESENT OR PAGE_WRITABLE)) AND PAGE_SIZE_2M = 0"
proof -
  have "(1 OR 2 :: u64) AND 4503599627366400 = 0" by simp
  then show "PTE_ADDR (x OR (PAGE_PRESENT OR PAGE_WRITABLE)) = x" using assms unfolding PTE_ADDR_def by (simp add: bit.conj_disj_distrib2)
  have "x AND 128 = (x AND 4503599627366400) AND 128" using assms unfolding PTE_ADDR_def by simp
  also have "\<dots> = x AND (4503599627366400 AND 128)" by (simp only: and.assoc)
  finally have "x AND 128 = 0" by simp
  then show "(x OR (PAGE_PRESENT OR PAGE_WRITABLE)) AND PAGE_SIZE_2M = 0" by (simp add: bit.conj_disj_distrib2)
  have "bit (x OR 3) 0" by (simp add: bit_or_iff)
  then show "(x OR (PAGE_PRESENT OR PAGE_WRITABLE)) AND PAGE_PRESENT \<noteq> 0" by (simp add: bit_0 odd_iff_mod_2_eq_one and_one_eq)
qed

lemma wf_inj: "pmap_wf R st \<Longrightarrow> length p \<le> 3 \<Longrightarrow> length q \<le> 3 \<Longrightarrow> table_at (pm_tab st) R p = Some t \<Longrightarrow> table_at (pm_tab st) R q = Some t \<Longrightarrow> p = q"
  unfolding pmap_wf_def by blast

lemma table_prefix: "table_at m R (p @ q) = Some t \<Longrightarrow> \<exists>t'. table_at m R p = Some t'"
  by (cases "table_at m R p") (simp_all add: table_at_append)

text \<open>A new table below an entry that was not present.\<close>

lemma new_table:
  assumes wf: "pmap_wf R st" and p: "length p \<le> 2" "table_at (pm_tab st) R p = Some t" and np: "pm_tab st t i AND PAGE_PRESENT = 0"
    and pool: "pm_pool st = x # xs" and st': "st' = set_entry t i (x OR (PAGE_PRESENT OR PAGE_WRITABLE)) (st\<lparr>pm_pool := xs, pm_tab := (pm_tab st)(x := (\<lambda>_. 0))\<rparr>)"
  shows "pmap_wf R st'" and "table_at (pm_tab st') R (p @ [i]) = Some x" and "\<And>v. pte_of R st' v = pte_of R st v"
    and "\<And>q s. length q \<le> 3 \<Longrightarrow> table_at (pm_tab st) R q = Some s \<Longrightarrow> table_at (pm_tab st') R q = Some s"
proof -
  define m where "m = pm_tab st"
  define m1 where "m1 = m(x := (\<lambda>_. 0))"
  define m' where "m' = m1(t := (m1 t)(i := x OR (PAGE_PRESENT OR PAGE_WRITABLE)))"
  have x: "PTE_ADDR x = x" "\<And>q. length q \<le> 3 \<Longrightarrow> table_at m R q \<noteq> Some x" "x \<notin> set xs" "distinct xs"
    using wf pool unfolding pmap_wf_def m_def by auto
  have xs: "\<And>z. z \<in> set xs \<Longrightarrow> PTE_ADDR z = z" "\<And>z q. z \<in> set xs \<Longrightarrow> length q \<le> 3 \<Longrightarrow> table_at m R q \<noteq> Some z"
    using wf pool unfolding pmap_wf_def m_def by auto
  have tx: "t \<noteq> x" using x(2) [of p] p unfolding m_def by auto
  have st'm: "pm_tab st' = m'" "pm_pool st' = xs" unfolding st' set_entry_def m'_def m1_def m_def by simp_all
  have t1: "table_at m1 R q = table_at m R q" if q: "length q \<le> 3" for q
    by (rule table_at_fresh_frame [where x = x]) (use x(2) q in \<open>auto simp: m1_def\<close>)
  have inj: "q = r" if "length q \<le> 3" "length r \<le> 3" "table_at m R q = Some s" "table_at m R r = Some s" for q r s
    using wf_inj [OF wf that(1,2)] that(3,4) unfolding m_def by blast
  have m'app: "m' a b = (if a = t \<and> b = i then x OR (PAGE_PRESENT OR PAGE_WRITABLE) else m1 a b)" for a b
    unfolding m'_def by simp
  have frame: "table_at m' R q = table_at m R q" if q: "length q \<le> 3" "\<And>r. q \<noteq> p @ i # r" for q
  proof -
    have "table_at m' R q = table_at m1 R q"
    proof (rule table_at_entry_frame)
      fix r j q' assume e: "q = r @ j # q'"
      then have l: "length r \<le> 3" using q(1) by simp
      show "table_at m1 R r \<noteq> Some t \<or> j \<noteq> i"
      proof (cases "table_at m1 R r = Some t")
        case True
        then have "r = p" using inj [OF l _ _ p(2) [folded m_def]] t1 [OF l] p(1) by simp
        then show ?thesis using q(2) e by auto
      qed simp
    qed (use m'app in auto)
    then show ?thesis using t1 [OF q(1)] by simp
  qed
  have tp: "table_at m' R p = Some t" using frame [of p] p by (simp add: m_def)
  have new: "table_at m' R (p @ [i]) = Some x"
    using tp table_bits [OF x(1)] by (simp add: table_at_snoc m'app)
  then show "table_at (pm_tab st') R (p @ [i]) = Some x" unfolding st'm .
  have zero: "m' x b = 0" for b using tx by (simp add: m'app m1_def)
  have below: "table_at m' R (p @ i # j # r) = None" for j r
    using new zero table_at_append [of m' R "p @ [i]" "j # r"] by simp
  have old: "table_at m R (p @ i # r) = None" for r
    using p(2) np by (simp add: table_at_append m_def)
  have char: "table_at m' R q = (if q = p @ [i] then Some x else table_at m R q)" if q: "length q \<le> 3" for q
  proof (cases "\<exists>r. q = p @ i # r")
    case True
    then obtain r where r: "q = p @ i # r" by blast
    then show ?thesis using new below old by (cases r) auto
  next
    case False
    then show ?thesis using frame [OF q] by auto
  qed
  show keep: "table_at (pm_tab st') R q = Some s" if q: "length q \<le> 3" "table_at (pm_tab st) R q = Some s" for q s
    using char [OF q(1)] q(2) old [of "[]"] unfolding st'm m_def [symmetric] by auto
  show "pte_of R st' v = pte_of R st v" for v
  proof (cases "page_key v = p @ [i]")
    case True
    then show ?thesis using new zero old [of "[]"] unfolding pte_of_def st'm m_def [symmetric] by simp
  next
    case False
    have "length (page_key v) \<le> 3" by (simp add: page_key_def)
    then have e: "table_at m' R (page_key v) = table_at m R (page_key v)" using char False by simp
    have "m' s (table_index 12 v) = m s (table_index 12 v)" if s: "table_at m R (page_key v) = Some s" for s
    proof -
      have "s \<noteq> x" using x(2) s \<open>length (page_key v) \<le> 3\<close> by auto
      moreover have "s \<noteq> t"
      proof
        assume "s = t"
        then have "page_key v = p" using inj [OF _ _ s] p \<open>length (page_key v) \<le> 3\<close> unfolding m_def by auto
        moreover have "length (page_key v) = 3" by (simp add: page_key_def)
        ultimately show False using p(1) by simp
      qed
      ultimately show ?thesis by (simp add: m'app m1_def)
    qed
    then show ?thesis unfolding pte_of_def st'm m_def [symmetric] e by (simp split: option.split)
  qed
  show "pmap_wf R st'" unfolding pmap_wf_def st'm
  proof (intro conjI allI impI ballI)
    show "R \<noteq> 0" using wf unfolding pmap_wf_def by blast
    fix q r s assume h: "length q \<le> 3 \<and> length r \<le> 3 \<and> table_at m' R q = Some s \<and> table_at m' R r = Some s"
    then have "(if q = p @ [i] then Some x else table_at m R q) = Some s" "(if r = p @ [i] then Some x else table_at m R r) = Some s"
      using char by auto
    then show "q = r" using inj [of q r s] x(2) h by (auto split: if_splits)
  next
    fix q j s assume h: "length q = 2 \<and> table_at m' R q = Some s \<and> m' s j AND PAGE_PRESENT \<noteq> 0"
    show "m' s j AND PAGE_SIZE_2M = 0"
    proof (cases "s = t \<and> j = i")
      case True
      then show ?thesis using table_bits(3) [OF x(1)] by (simp add: m'app)
    next
      case False
      have "s \<noteq> x" using h zero by auto
      then have "q \<noteq> p @ [i]" using h new by auto
      then have "table_at m R q = Some s" using char [of q] h by simp
      moreover have "m' s j = m s j" using False \<open>s \<noteq> x\<close> by (auto simp: m'app m1_def)
      ultimately show ?thesis using wf h unfolding pmap_wf_def m_def by auto
    qed
  next
    show "distinct xs" by (rule x(4))
    fix z assume z: "z \<in> set xs"
    show "PTE_ADDR z = z" by (rule xs(1) [OF z])
    fix q :: "nat list" assume "length q \<le> 3"
    then show "table_at m' R q \<noteq> Some z" using char xs(2) [OF z] z x(3) by auto
  qed
qed

lemma pool_tail:
  "pmap_wf R st \<Longrightarrow> pm_pool st = x # xs \<Longrightarrow> pmap_wf R (st\<lparr>pm_pool := xs\<rparr>)"
  unfolding pmap_wf_def by auto

lemma pte_of_pool [simp]: "pte_of R (st\<lparr>pm_pool := xs\<rparr>) v = pte_of R st v"
  by (simp add: pte_of_def split: option.split)

definition enough :: "nat \<Rightarrow> pmap_st \<Rightarrow> bool" where
  "enough k st \<longleftrightarrow> k \<le> length (pm_pool st) \<and> 0 \<notin> set (pm_pool st)"

lemma get_or_alloc:
  assumes wf: "pmap_wf R st" and p: "length p \<le> 2" "table_at (pm_tab st) R p = Some t"
    and g: "pmap_get_or_alloc_table t i st = (r, st')"
  shows "pmap_wf R st'" and "\<And>v. pte_of R st' v = pte_of R st v" and "\<And>t'. r = Some t' \<Longrightarrow> table_at (pm_tab st') R (p @ [i]) = Some t'"
    and "enough (Suc k) st \<Longrightarrow> r \<noteq> None \<and> enough k st'"
proof (atomize (full), cases "pm_tab st t i AND PAGE_PRESENT = 0")
  case False
  then have "r = Some (PTE_ADDR (pm_tab st t i))" "st' = st" using g by (auto simp: pmap_get_or_alloc_table_def)
  then show "(pmap_wf R st' \<and> (\<forall>v. pte_of R st' v = pte_of R st v)) \<and> (\<forall>t'. r = Some t' \<longrightarrow> table_at (pm_tab st') R (p @ [i]) = Some t') \<and>
    (enough (Suc k) st \<longrightarrow> r \<noteq> None \<and> enough k st')"
    using wf p(2) False by (auto simp: table_at_snoc enough_def)
next
  case True
  show "(pmap_wf R st' \<and> (\<forall>v. pte_of R st' v = pte_of R st v)) \<and> (\<forall>t'. r = Some t' \<longrightarrow> table_at (pm_tab st') R (p @ [i]) = Some t') \<and>
    (enough (Suc k) st \<longrightarrow> r \<noteq> None \<and> enough k st')"
  proof (cases "pm_pool st")
    case Nil
    then show ?thesis using True g wf by (auto simp: pmap_get_or_alloc_table_def alloc_table_def enough_def)
  next
    case (Cons x xs)
    show ?thesis
    proof (cases "x = 0")
      case x0: True
      then show ?thesis using True g pool_tail [OF wf Cons] Cons
        by (auto simp: pmap_get_or_alloc_table_def alloc_table_def enough_def)
    next
      case False
      define st2 where "st2 = set_entry t i (x OR (PAGE_PRESENT OR PAGE_WRITABLE)) (st\<lparr>pm_pool := xs, pm_tab := (pm_tab st)(x := (\<lambda>_. 0))\<rparr>)"
      have "r = Some x" "st' = st2" using True g Cons False by (auto simp: pmap_get_or_alloc_table_def alloc_table_def st2_def)
      moreover have "enough (Suc k) st \<Longrightarrow> enough k st2" using Cons by (auto simp: enough_def st2_def set_entry_def)
      ultimately show ?thesis using new_table [OF wf p True Cons st2_def] by auto
    qed
  qed
qed

lemma leaf_update:
  assumes wf: "pmap_wf R st" and t: "table_at (pm_tab st) R (page_key v) = Some t" and st': "st' = set_entry t (table_index 12 v) e st"
  shows "pmap_wf R st'" and "pte_of R st' w = (if same_page v w then if e AND PAGE_PRESENT \<noteq> 0 then Some e else None else pte_of R st w)"
proof -
  have len: "length (page_key u) = 3" for u by (simp add: page_key_def)
  define m' where "m' = pm_tab st'"
  have m': "m' a b = (if a = t \<and> b = table_index 12 v then e else pm_tab st a b)" for a b
    unfolding m'_def st' set_entry_def by simp
  have frame: "table_at m' R q = table_at (pm_tab st) R q" if q: "length q \<le> 3" for q
  proof (rule table_at_entry_frame)
    fix r j q' assume e: "q = r @ j # q'"
    have "table_at (pm_tab st) R r \<noteq> Some t"
    proof
      assume "table_at (pm_tab st) R r = Some t"
      moreover have "length r \<le> 3" using e q by simp
      ultimately have "r = page_key v" using wf_inj [OF wf _ _ _ t] len by simp
      then show False using e q len [of v] by simp
    qed
    then show "table_at (pm_tab st) R r \<noteq> Some t \<or> j \<noteq> table_index 12 v" by blast
  qed (use m' in auto)
  have pool: "pm_pool st' = pm_pool st" unfolding st' set_entry_def by simp
  show "pmap_wf R st'" unfolding pmap_wf_def pool m'_def [symmetric]
  proof (intro conjI allI impI ballI)
    show "R \<noteq> 0" "distinct (pm_pool st)" using wf unfolding pmap_wf_def by blast+
    fix q r s assume "length q \<le> 3 \<and> length r \<le> 3 \<and> table_at m' R q = Some s \<and> table_at m' R r = Some s"
    then show "q = r" using frame wf_inj [OF wf] by metis
  next
    fix q j s assume h: "length q = 2 \<and> table_at m' R q = Some s \<and> m' s j AND PAGE_PRESENT \<noteq> 0"
    have "s \<noteq> t"
    proof
      assume "s = t"
      then have "q = page_key v" using frame [of q] h wf_inj [OF wf _ _ _ t, of q] len by simp
      then show False using h len [of v] by simp
    qed
    then show "m' s j AND PAGE_SIZE_2M = 0" using h frame [of q] wf m' unfolding pmap_wf_def by auto
  next
    fix x assume x: "x \<in> set (pm_pool st)"
    then show "PTE_ADDR x = x" using wf unfolding pmap_wf_def by blast
    fix q :: "nat list" assume "length q \<le> 3"
    then show "table_at m' R q \<noteq> Some x" using frame wf x unfolding pmap_wf_def by auto
  qed
  have kw: "table_at m' R (page_key w) = table_at (pm_tab st) R (page_key w)" using frame len by simp
  show "pte_of R st' w = (if same_page v w then if e AND PAGE_PRESENT \<noteq> 0 then Some e else None else pte_of R st w)"
  proof (cases "page_key v = page_key w")
    case True
    then have "table_at (pm_tab st) R (page_key w) = Some t" using t by simp
    then show ?thesis using True kw unfolding pte_of_def m'_def [symmetric] by (auto simp: m' same_page_def)
  next
    case False
    have "m' s (table_index 12 w) = pm_tab st s (table_index 12 w)" if "table_at (pm_tab st) R (page_key w) = Some s" for s
      using wf_inj [OF wf _ _ that, of "page_key v"] t False len by (auto simp: m')
    then show ?thesis using False kw unfolding pte_of_def m'_def [symmetric] by (simp add: same_page_def split: option.split)
  qed
qed

lemma map_page:
  assumes wf: "pmap_wf R st" and g: "pmap_map_page R v paddr flags st = (r, st')"
  shows "pmap_wf R st'" and "r = 0 \<or> r = - 1"
    and "pte_of R st' w = (if r = 0 \<and> same_page v w then Some (paddr OR (flags OR PAGE_PRESENT)) else pte_of R st w)"
    and "enough 3 st \<Longrightarrow> r = 0"
proof -
  have R: "R \<noteq> 0" using wf unfolding pmap_wf_def by blast
  have root: "table_at (pm_tab st) R [] = Some R" by simp
  let ?P = "pmap_wf R st' \<and> (r = 0 \<or> r = - 1) \<and>
    (\<forall>w. pte_of R st' w = (if r = 0 \<and> same_page v w then Some (paddr OR (flags OR PAGE_PRESENT)) else pte_of R st w)) \<and> (enough 3 st \<longrightarrow> r = 0)"
  obtain r1 st1 where g1: "pmap_get_or_alloc_table R (table_index 39 v) st = (r1, st1)" by fastforce
  have l1: "length ([] :: nat list) \<le> 2" by simp
  note h1 = get_or_alloc [OF wf l1 root g1]
  have e1: "enough 3 st \<Longrightarrow> r1 \<noteq> None \<and> enough 2 st1" using h1(4) [of 2] by (simp add: eval_nat_numeral)
  have ?P
  proof (cases r1)
    case None
    then show ?thesis using g g1 h1 e1 R by (auto simp: pmap_map_page_def)
  next
    case (Some t1)
    note s1 = this
    obtain r2 st2 where g2: "pmap_get_or_alloc_table t1 (table_index 30 v) st1 = (r2, st2)" by fastforce
    have l2: "length ([] @ [table_index 39 v]) \<le> 2" by simp
    note h2 = get_or_alloc [OF h1(1) l2 h1(3) [OF s1] g2]
    have e2: "enough 2 st1 \<Longrightarrow> r2 \<noteq> None \<and> enough 1 st2" using h2(4) [of 1] by (simp add: eval_nat_numeral)
    show ?thesis
    proof (cases r2)
      case None
      then show ?thesis using g g1 g2 s1 h1 h2 e1 e2 R by (auto simp: pmap_map_page_def)
    next
      case (Some t2)
      note s2 = this
      obtain r3 st3 where g3: "pmap_get_or_alloc_table t2 (table_index 21 v) st2 = (r3, st3)" by fastforce
      have l3: "length (([] @ [table_index 39 v]) @ [table_index 30 v]) \<le> 2" by simp
      note h3 = get_or_alloc [OF h2(1) l3 h2(3) [OF s2] g3]
      have e3: "enough 1 st2 \<Longrightarrow> r3 \<noteq> None" using h3(4) [of 0] by simp
      show ?thesis
      proof (cases r3)
        case None
        then show ?thesis using g g1 g2 g3 s1 s2 h1 h2 h3 e1 e2 e3 R by (auto simp: pmap_map_page_def)
      next
        case (Some t3)
        have t: "table_at (pm_tab st3) R (page_key v) = Some t3" using h3(3) [OF Some] by (simp add: page_key_def)
        have st': "r = 0" "st' = set_entry t3 (table_index 12 v) (paddr OR (flags OR PAGE_PRESENT)) st3"
          using g g1 g2 g3 s1 s2 Some R by (auto simp: pmap_map_page_def)
        have b: "(paddr OR (flags OR PAGE_PRESENT)) AND PAGE_PRESENT \<noteq> 0"
        proof -
          have "bit (paddr OR (flags OR PAGE_PRESENT)) 0" by (simp add: bit_or_iff)
          then show ?thesis by (simp add: bit_0 odd_iff_mod_2_eq_one and_one_eq)
        qed
        show ?thesis using leaf_update [OF h3(1) t st'(2)] st'(1) b h1(2) h2(2) h3(2) by auto
      qed
    qed
  qed
  then show "pmap_wf R st'" "r = 0 \<or> r = - 1" "enough 3 st \<Longrightarrow> r = 0"
    "pte_of R st' w = (if r = 0 \<and> same_page v w then Some (paddr OR (flags OR PAGE_PRESENT)) else pte_of R st w)" by blast+
qed

lemma key_walk:
  "table_at m R (page_key v) =
    (if m R (table_index 39 v) AND PAGE_PRESENT = 0 then None
     else if m (PTE_ADDR (m R (table_index 39 v))) (table_index 30 v) AND PAGE_PRESENT = 0 then None
     else if m (PTE_ADDR (m (PTE_ADDR (m R (table_index 39 v))) (table_index 30 v))) (table_index 21 v) AND PAGE_PRESENT = 0 then None
     else Some (PTE_ADDR (m (PTE_ADDR (m (PTE_ADDR (m R (table_index 39 v))) (table_index 30 v))) (table_index 21 v))))"
  by (simp add: page_key_def)

lemma unmap_page:
  assumes wf: "pmap_wf R st"
  shows "pmap_wf R (pmap_unmap_page R v st)" and "pte_of R (pmap_unmap_page R v st) w = (if same_page v w then None else pte_of R st w)"
proof -
  have R: "R \<noteq> 0" using wf unfolding pmap_wf_def by blast
  show "pmap_wf R (pmap_unmap_page R v st)" "pte_of R (pmap_unmap_page R v st) w = (if same_page v w then None else pte_of R st w)"
  proof (atomize (full), cases "table_at (pm_tab st) R (page_key v)")
    case None
    then have "pmap_unmap_page R v st = st" using R by (auto simp: key_walk pmap_unmap_page_def Let_def split: if_splits)
    then show "pmap_wf R (pmap_unmap_page R v st) \<and> pte_of R (pmap_unmap_page R v st) w = (if same_page v w then None else pte_of R st w)"
      using wf None by (auto simp: pte_of_def same_page_def)
  next
    case (Some t)
    then have "pmap_unmap_page R v st = set_entry t (table_index 12 v) 0 st"
      using R by (auto simp: key_walk pmap_unmap_page_def Let_def split: if_splits)
    then show "pmap_wf R (pmap_unmap_page R v st) \<and> pte_of R (pmap_unmap_page R v st) w = (if same_page v w then None else pte_of R st w)"
      using leaf_update [OF wf Some] by simp
  qed
qed

lemma get_physical:
  assumes wf: "pmap_wf R st"
  shows "pmap_get_physical R v st = (case pte_of R st v of None \<Rightarrow> 0 | Some e \<Rightarrow> PTE_ADDR e + (v AND 4095))"
proof -
  have R: "R \<noteq> 0" using wf unfolding pmap_wf_def by blast
  have big: "pm_tab st t (table_index 21 v) AND PAGE_SIZE_2M = 0"
    if "table_at (pm_tab st) R [table_index 39 v, table_index 30 v] = Some t" "pm_tab st t (table_index 21 v) AND PAGE_PRESENT \<noteq> 0" for t
  proof -
    have "length [table_index 39 v, table_index 30 v] = 2" by simp
    then show ?thesis using wf that unfolding pmap_wf_def by blast
  qed
  show ?thesis using big R
    by (auto simp: pmap_get_physical_def pte_of_def key_walk Let_def split: if_splits)
qed

text \<open>
  C34. Page tables of four levels that are a tree without 2 MB pages (\<open>pmap_wf\<close>: under a root other than 0 no table is reached in two ways, no
  present entry of the third level has the size bit, and the pages for new tables are aligned, different and not in
  use) implement a map from pages to entries: \<open>pmap_map_page\<close> sets the entry of one page or fails without a
  change, \<open>pmap_unmap_page\<close> removes one, and \<open>pmap_get_physical\<close> looks one up. They keep the tables such a tree, and a mapping does
  not fail while there are three pages for tables, none of them at 0. The tables of the boot loader, with 2 MB pages, are no such tree:
  the lookup has a branch for them, but the other two take a 2 MB page for a table (\<open>map_writes_into_large_page\<close>).
\<close>

theorem pmap_refines_page_map:
  assumes "pmap_wf R st"
  shows "(case pmap_map_page R v paddr flags st of (r, st') \<Rightarrow> pmap_wf R st' \<and> (r = 0 \<or> r = - 1) \<and>
       (3 \<le> length (pm_pool st) \<and> 0 \<notin> set (pm_pool st) \<longrightarrow> r = 0) \<and>
       (\<forall>w. pte_of R st' w = (if r = 0 \<and> same_page v w then Some (paddr OR (flags OR 1)) else pte_of R st w))) \<and>
     pmap_wf R (pmap_unmap_page R v st) \<and>
     (\<forall>w. pte_of R (pmap_unmap_page R v st) w = (if same_page v w then None else pte_of R st w)) \<and>
     (\<forall>w. pmap_get_physical R w st = (case pte_of R st w of None \<Rightarrow> 0 | Some e \<Rightarrow> PTE_ADDR e + (w AND 4095)))"
  using map_page [OF assms, of v paddr flags] unmap_page [OF assms, of v] get_physical [OF assms]
  by (cases "pmap_map_page R v paddr flags st") (auto simp: enough_def)

text \<open>A root without entries, and three pages for tables.\<close>

definition demo_pmap :: pmap_st where
  "demo_pmap = \<lparr>pm_tab = (\<lambda>_ _. 0), pm_pool = [8192, 12288, 16384]\<rparr>"

lemma demo_wf: "pmap_wf 4096 demo_pmap"
proof -
  have t: "table_at (\<lambda>_ _. 0) R p = (if p = [] then Some R else None)" for R p by (cases p) auto
  show ?thesis by (simp add: pmap_wf_def demo_pmap_def t PTE_ADDR_def)
qed

theorem pmap_refines_page_map_witness:
  "(case pmap_map_page 4096 4194304 1048576 2 demo_pmap of (r, st') \<Rightarrow> pmap_wf 4096 st' \<and> (r = 0 \<or> r = - 1) \<and>
       (3 \<le> length (pm_pool demo_pmap) \<and> 0 \<notin> set (pm_pool demo_pmap) \<longrightarrow> r = 0) \<and>
       (\<forall>w. pte_of 4096 st' w = (if r = 0 \<and> same_page 4194304 w then Some (1048576 OR (2 OR 1)) else pte_of 4096 demo_pmap w))) \<and>
     pmap_wf 4096 (pmap_unmap_page 4096 4194304 demo_pmap) \<and>
     (\<forall>w. pte_of 4096 (pmap_unmap_page 4096 4194304 demo_pmap) w = (if same_page 4194304 w then None else pte_of 4096 demo_pmap w)) \<and>
     (\<forall>w. pmap_get_physical 4096 w demo_pmap = (case pte_of 4096 demo_pmap w of None \<Rightarrow> 0 | Some e \<Rightarrow> PTE_ADDR e + (w AND 4095)))"
  by (rule pmap_refines_page_map [OF demo_wf])

text \<open>
  Where an entry of the third level maps a 2 MB page, as in the tables of the boot loader, mapping a page in it reports success but stores
  the new entry into the 2 MB page itself, as if it were a table, and the address is translated as before; unmapping
  clears eight bytes of the page in the same way.
\<close>

theorem map_writes_into_large_page:
  assumes "R \<noteq> 0" and "table_at (pm_tab st) R [table_index 39 v, table_index 30 v] = Some t"
    and "pm_tab st t (table_index 21 v) = e" and "e AND 1 \<noteq> 0" and "e AND 128 \<noteq> 0"
    and "PTE_ADDR e \<notin> {R, PTE_ADDR (pm_tab st R (table_index 39 v)), t}"
  shows "pmap_map_page R v paddr flags st = (0, set_entry (PTE_ADDR e) (table_index 12 v) (paddr OR (flags OR 1)) st) \<and>
    pmap_get_physical R v (snd (pmap_map_page R v paddr flags st)) = PTE_ADDR e + (v AND 2097151) \<and>
    pmap_unmap_page R v st = set_entry (PTE_ADDR e) (table_index 12 v) 0 st"
proof -
  define e4 where "e4 = pm_tab st R (table_index 39 v)"
  define e3 where "e3 = pm_tab st (PTE_ADDR e4) (table_index 30 v)"
  have p: "e4 AND 1 \<noteq> 0" "e3 AND 1 \<noteq> 0" "t = PTE_ADDR e3" using assms(2) by (auto simp: e4_def e3_def split: if_splits)
  have m: "pmap_map_page R v paddr flags st = (0, set_entry (PTE_ADDR e) (table_index 12 v) (paddr OR (flags OR 1)) st)"
    using assms(1,3,4) p by (simp add: pmap_map_page_def pmap_get_or_alloc_table_def flip: e4_def e3_def)
  have "PTE_ADDR e \<noteq> R" "PTE_ADDR e \<noteq> PTE_ADDR e4" "PTE_ADDR e \<noteq> PTE_ADDR e3" using assms(6) p(3) by (simp_all add: e4_def)
  then have "pmap_get_physical R v (snd (pmap_map_page R v paddr flags st)) = PTE_ADDR e + (v AND 2097151)"
    using assms(1,3-5) p unfolding m snd_conv by (simp add: pmap_get_physical_def set_entry_def Let_def flip: e4_def e3_def)
  moreover have "pmap_unmap_page R v st = set_entry (PTE_ADDR e) (table_index 12 v) 0 st"
    using assms(1,3,4) p by (simp add: pmap_unmap_page_def Let_def flip: e4_def e3_def)
  ultimately show ?thesis using m by blast
qed

text \<open>A root whose first 2 MB are one page at 2 MB.\<close>

definition large_pmap :: pmap_st where
  "large_pmap = \<lparr>pm_tab = (\<lambda>t i. if i \<noteq> 0 then 0 else if t = 4096 then 8195 else if t = 8192 then 12291 else if t = 12288 then 2097283 else 0),
     pm_pool = []\<rparr>"

theorem map_writes_into_large_page_witness:
  "fst (pmap_map_page 4096 8200 1048576 2 large_pmap) = 0 \<and>
   pm_tab (snd (pmap_map_page 4096 8200 1048576 2 large_pmap)) 2097152 2 = 1048579"
proof -
  have t: "table_index 39 8200 = 0" "table_index 30 8200 = 0" "table_index 21 8200 = 0" "table_index 12 8200 = 2"
    by (simp_all add: table_index_def)
  have "pmap_map_page 4096 8200 1048576 2 large_pmap = (0, set_entry (PTE_ADDR 2097283) (table_index 12 8200) (1048576 OR (2 OR 1)) large_pmap)"
    by (rule conjunct1 [OF map_writes_into_large_page [where t = 12288]]) (simp_all add: t large_pmap_def PTE_ADDR_def)
  then show ?thesis by (simp add: set_entry_def t PTE_ADDR_def)
qed

end
