(* ===== verification/MmapProps.thy ===== *)
theory MmapProps
  imports Mmap PageTableProps
begin

text \<open>
  The areas of \<open>mmap.c\<close> as a set of mapped addresses: the search for free addresses, the exact effect of \<open>mmap_do_munmap\<close>, and the
  invariant that the areas are page aligned and disjoint.
\<close>

section \<open>Pages\<close>

lemma page_mask: "unat (w AND - 4096 :: u64) = 4096 * (unat w div 4096)"
proof -
  have m: "(- 4096 :: u64) = NOT (mask 12)" by (simp add: mask_eq_exp_minus_1)
  have e: "w AND - 4096 = push_bit 12 (drop_bit 12 w)"
    unfolding m by (rule bit_eqI) (auto simp: bit_and_iff bit_not_iff bit_mask_iff bit_push_bit_iff bit_drop_bit_eq)
  have "unat w < 2 ^ 64" using unsigned_less [of w, where 'a = nat] by simp
  then have "unat w div 4096 * 4096 < 2 ^ 64" by linarith
  moreover have "unat (drop_bit 12 w) = unat w div 4096" by (simp add: drop_bit_eq_div unat_div_distrib)
  ultimately show ?thesis unfolding e push_bit_eq_mult by (simp add: unat_word_ariths)
qed

lemma align_down: "unat (PAGE_ALIGN_DOWN w) = 4096 * (unat w div 4096)"
  by (simp add: PAGE_ALIGN_DOWN_def page_mask)

lemma align_up: "unat w + 4095 < 2 ^ 64 \<Longrightarrow> unat (PAGE_ALIGN_UP w) = 4096 * ((unat w + 4095) div 4096)"
proof -
  assume "unat w + 4095 < 2 ^ 64"
  then have "unat (4095 + w) = unat w + 4095" by (simp add: unat_word_ariths)
  then show ?thesis by (simp add: PAGE_ALIGN_UP_def page_mask)
qed

lemma align_up_bounds:
  assumes "unat w + 4095 < 2 ^ 64"
  shows "4096 dvd unat (PAGE_ALIGN_UP w)" and "unat w \<le> unat (PAGE_ALIGN_UP w)" and "unat (PAGE_ALIGN_UP w) < unat w + 4096"
proof -
  define k where "k = (unat w + 4095) div 4096"
  have "unat w + 4095 = 4096 * k + (unat w + 4095) mod 4096" "(unat w + 4095) mod 4096 < 4096" unfolding k_def by simp_all
  then show "unat w \<le> unat (PAGE_ALIGN_UP w)" "unat (PAGE_ALIGN_UP w) < unat w + 4096" "4096 dvd unat (PAGE_ALIGN_UP w)"
    unfolding align_up [OF assms] k_def [symmetric] by (linarith, linarith, simp)
qed

lemma align_up_aligned: "4096 dvd unat w \<Longrightarrow> unat w + 4095 < 2 ^ 64 \<Longrightarrow> PAGE_ALIGN_UP w = w"
proof -
  assume "4096 dvd unat w" "unat w + 4095 < 2 ^ 64"
  moreover from this obtain k where "unat w = 4096 * k" by blast
  ultimately have "unat (PAGE_ALIGN_UP w) = unat w" by (simp add: align_up)
  then show ?thesis by (simp add: word_unat_eq_iff)
qed

lemma page_offset: "w AND (4096 - 1) = 0 \<longleftrightarrow> 4096 dvd unat (w :: u64)"
proof -
  have "w AND (4096 - 1) = take_bit 12 w" by (simp add: take_bit_eq_mask mask_eq_exp_minus_1)
  moreover have "take_bit 12 w = 0 \<longleftrightarrow> unat w mod 4096 = 0" by (simp add: take_bit_eq_mod unat_eq_0 [symmetric] unat_mod_distrib)
  ultimately show ?thesis by (simp add: dvd_eq_mod_eq_0)
qed

section \<open>Areas as sets of addresses\<close>

definition lo :: "mmap_area \<Rightarrow> nat" where "lo a = unat (ma_start a)"

definition hi :: "mmap_area \<Rightarrow> nat" where "hi a = unat (ma_start a) + unat (ma_length a)"

definition area_wf :: "mmap_area \<Rightarrow> bool" where
  "area_wf a \<longleftrightarrow> 4096 dvd lo a \<and> 4096 dvd hi a \<and> lo a < hi a \<and> hi a < 2 ^ 64"

definition apart :: "mmap_area \<Rightarrow> mmap_area \<Rightarrow> bool" where
  "apart a b \<longleftrightarrow> hi a \<le> lo b \<or> hi b \<le> lo a"

definition areas_ok :: "areas \<Rightarrow> bool" where
  "areas_ok as \<longleftrightarrow> (\<forall>i<256. ma_active (as i) \<longrightarrow> area_wf (as i)) \<and>
     (\<forall>i<256. \<forall>j<256. i \<noteq> j \<and> ma_active (as i) \<and> ma_active (as j) \<longrightarrow> apart (as i) (as j))"

definition span :: "mmap_area \<Rightarrow> nat set" where
  "span a = (if ma_active a then {lo a ..< hi a} else {})"

definition mapped :: "areas \<Rightarrow> nat set" where
  "mapped as = (\<Union>i<256. span (as i))"

definition active_slots :: "areas \<Rightarrow> nat set" where
  "active_slots as = {i. i < 256 \<and> ma_active (as i)}"

definition ctx_ok :: "mmap_context \<Rightarrow> bool" where
  "ctx_ok c \<longleftrightarrow> areas_ok (mc_areas c) \<and> mc_count c = int (card (active_slots (mc_areas c)))"

lemma area_end_hi: "area_wf a \<Longrightarrow> unat (area_end a) = hi a"
  by (simp add: area_wf_def area_end_def hi_def unat_word_ariths)

lemma apart_sym: "apart a b \<Longrightarrow> apart b a"
  by (auto simp: apart_def)

lemma span_apart: "ma_active a \<Longrightarrow> ma_active b \<Longrightarrow> area_wf a \<Longrightarrow> area_wf b \<Longrightarrow> apart a b \<longleftrightarrow> span a \<inter> span b = {}"
  by (auto simp: apart_def span_def area_wf_def)

lemma overlaps_iff:
  assumes "area_wf a" and "unat addr + unat len < 2 ^ 64"
  shows "overlaps addr len a \<longleftrightarrow> ma_active a \<and> unat addr < hi a \<and> lo a < unat addr + unat len"
  using assms area_end_hi [OF assms(1)] by (auto simp: overlaps_def word_less_nat_alt unat_word_ariths lo_def)

lemma overlaps_span:
  assumes "ma_active a \<longrightarrow> area_wf a" and "unat addr + unat len < 2 ^ 64" and "0 < unat len"
  shows "overlaps addr len a \<longleftrightarrow> span a \<inter> {unat addr ..< unat addr + unat len} \<noteq> {}"
proof (cases "ma_active a")
  case True
  then have w: "area_wf a" using assms(1) by blast
  have "lo a < hi a" using w by (simp add: area_wf_def)
  have "span a \<inter> {unat addr ..< unat addr + unat len} = {max (lo a) (unat addr) ..< min (hi a) (unat addr + unat len)}"
    using True by (simp add: span_def)
  then show ?thesis unfolding overlaps_iff [OF w assms(2)] using True \<open>lo a < hi a\<close> assms(3) by auto
next
  case False
  then show ?thesis by (simp add: overlaps_def span_def)
qed

lemma no_overlap:
  assumes "areas_ok as" and "unat addr + unat len < 2 ^ 64" and "0 < unat len"
  shows "first_index (\<lambda>i. overlaps addr len (as i)) 256 = None \<longleftrightarrow> mapped as \<inter> {unat addr ..< unat addr + unat len} = {}"
proof -
  have "overlaps addr len (as i) \<longleftrightarrow> span (as i) \<inter> {unat addr ..< unat addr + unat len} \<noteq> {}" if "i < 256" for i
    using assms that by (intro overlaps_span) (auto simp: areas_ok_def)
  then show ?thesis unfolding first_index_None mapped_def by blast
qed

section \<open>The search for free addresses\<close>

lemma free_area_highest:
  assumes ok: "areas_ok as" and len: "0 < unat len" "unat len + 268435456 < 2 ^ 63" and cand: "unat cand < 2 ^ 63"
    and al: "4096 dvd unat len" "4096 dvd unat cand"
  shows "case free_area_loop as len cand of r \<Rightarrow>
     (r \<noteq> 0 \<longrightarrow> 268435456 \<le> unat r \<and> unat r + unat len \<le> unat cand \<and> 4096 dvd unat r \<and> mapped as \<inter> {unat r ..< unat r + unat len} = {}) \<and>
     (\<forall>s. 268435456 \<le> s \<and> s + unat len \<le> unat cand \<and> (r = 0 \<or> unat r < s) \<longrightarrow> mapped as \<inter> {s ..< s + unat len} \<noteq> {})"
  using cand al(2)
proof (induction "unat cand" arbitrary: cand rule: less_induct)
  case less
  have ml: "unat (268435456 + len) = 268435456 + unat len" using len by (simp add: unat_word_ariths)
  show ?case
  proof (cases "268435456 + len \<le> cand")
    case False
    then have "\<not> 268435456 + unat len \<le> unat cand" using ml by (simp add: word_le_nat_alt)
    then show ?thesis using False by (auto simp: free_area_loop.simps [of as len cand])
  next
    case True
    then have c: "268435456 + unat len \<le> unat cand" using ml by (simp add: word_le_nat_alt)
    have t: "unat (cand - len) = unat cand - unat len" using c by (intro unat_sub) (simp add: word_le_nat_alt)
    have tr: "{unat (cand - len) ..< unat (cand - len) + unat len} = {unat cand - unat len ..< unat cand}" using t c by simp
    have no: "first_index (\<lambda>i. overlaps (cand - len) len (as i)) 256 = None \<longleftrightarrow> mapped as \<inter> {unat cand - unat len ..< unat cand} = {}"
      using no_overlap [OF ok _ len(1), of "cand - len"] t c less.prems(1) unfolding tr by simp
    show ?thesis
    proof (cases "first_index (\<lambda>i. overlaps (cand - len) len (as i)) 256")
      case None
      then have e: "free_area_loop as len cand = cand - len" using True by (simp add: free_area_loop.simps [of as len cand])
      have "4096 dvd unat cand - unat len" using less.prems(2) al(1) by (rule dvd_diff_nat)
      then show ?thesis unfolding e using t c None no by auto
    next
      case (Some i)
      note i = first_index_SomeD [OF Some]
      have e: "free_area_loop as len cand = free_area_loop as len (ma_start (as i))" using True Some by (simp add: free_area_loop.simps [of as len cand])
      have w: "area_wf (as i)" and act: "ma_active (as i)" using ok i(1,2) unfolding areas_ok_def overlaps_def by auto
      have ov: "unat cand - unat len < hi (as i)" "lo (as i) < unat cand"
        using i(2) overlaps_iff [OF w, of "cand - len" len] t c less.prems(1) by auto
      have l: "unat (ma_start (as i)) < unat cand" using ov(2) by (simp add: lo_def)
      have al': "4096 dvd unat (ma_start (as i))" using w by (simp add: area_wf_def lo_def)
      have IH: "case free_area_loop as len (ma_start (as i)) of r \<Rightarrow>
         (r \<noteq> 0 \<longrightarrow> 268435456 \<le> unat r \<and> unat r + unat len \<le> unat (ma_start (as i)) \<and> 4096 dvd unat r \<and> mapped as \<inter> {unat r ..< unat r + unat len} = {}) \<and>
         (\<forall>s. 268435456 \<le> s \<and> s + unat len \<le> unat (ma_start (as i)) \<and> (r = 0 \<or> unat r < s) \<longrightarrow> mapped as \<inter> {s ..< s + unat len} \<noteq> {})"
        using less.hyps [OF l _ al'] l less.prems(1) by simp
      have hit: "mapped as \<inter> {s ..< s + unat len} \<noteq> {}" if s: "unat (ma_start (as i)) < s + unat len" "s + unat len \<le> unat cand" for s
      proof -
        have "max s (lo (as i)) \<in> span (as i)" using act ov(1) s w by (auto simp: span_def lo_def area_wf_def)
        moreover have "max s (lo (as i)) \<in> {s ..< s + unat len}" using s len(1) by (auto simp: lo_def)
        ultimately show ?thesis using i(1) unfolding mapped_def by blast
      qed
      show ?thesis unfolding e using IH hit l by (auto simp: not_le [symmetric] simp del: not_le)
    qed
  qed
qed

section \<open>Changes of one area\<close>

lemma spans_disjoint: "areas_ok as \<Longrightarrow> i < 256 \<Longrightarrow> j < 256 \<Longrightarrow> i \<noteq> j \<Longrightarrow> span (as i) \<inter> span (as j) = {}"
proof (cases "ma_active (as i) \<and> ma_active (as j)")
  case True
  moreover assume "areas_ok as" "i < 256" "j < 256" "i \<noteq> j"
  ultimately have "apart (as i) (as j)" unfolding areas_ok_def by blast
  then show ?thesis using True by (auto simp: apart_def span_def)
qed (auto simp: span_def)

lemma wf_of: "areas_ok as \<Longrightarrow> i < 256 \<Longrightarrow> ma_active (as i) \<Longrightarrow> area_wf (as i)"
  unfolding areas_ok_def by blast

text \<open>A new content \<open>b\<close> of the slot \<open>i\<close> that lies apart from all other areas.\<close>

lemma update_ok:
  assumes "areas_ok as" and "ma_active b \<Longrightarrow> area_wf b" and "span b \<inter> (mapped as - span (as i)) = {}" and "i < 256"
  shows "areas_ok (as(i := b))" and "mapped (as(i := b)) = (mapped as - span (as i)) \<union> span b"
proof -
  have rest: "span (as j) \<subseteq> mapped as - span (as i)" if "j < 256" "j \<noteq> i" for j
    using spans_disjoint [OF assms(1) that(1) assms(4) that(2)] that unfolding mapped_def by blast
  have ap: "apart b (as j)" if j: "j < 256" "j \<noteq> i" "ma_active b" "ma_active (as j)" for j
    using rest [OF j(1,2)] assms(3) span_apart [OF j(3,4) assms(2) [OF j(3)] wf_of [OF assms(1) j(1,4)]] by blast
  have old: "\<And>j. j < 256 \<Longrightarrow> ma_active (as j) \<Longrightarrow> area_wf (as j)"
    "\<And>j k. j < 256 \<Longrightarrow> k < 256 \<Longrightarrow> j \<noteq> k \<Longrightarrow> ma_active (as j) \<Longrightarrow> ma_active (as k) \<Longrightarrow> apart (as j) (as k)"
    using assms(1) unfolding areas_ok_def by blast+
  show "areas_ok (as(i := b))" unfolding areas_ok_def
  proof (intro conjI allI impI)
    fix j assume "j < (256 :: nat)" "ma_active ((as(i := b)) j)"
    then show "area_wf ((as(i := b)) j)" using old(1) assms(2) by (cases "j = i") auto
  next
    fix j k assume jk: "j < (256 :: nat)" "k < (256 :: nat)" "j \<noteq> k \<and> ma_active ((as(i := b)) j) \<and> ma_active ((as(i := b)) k)"
    consider "j = i" | "k = i" "j \<noteq> i" | "j \<noteq> i" "k \<noteq> i" by blast
    then show "apart ((as(i := b)) j) ((as(i := b)) k)"
    proof cases
      case 1
      then have "k \<noteq> i" "ma_active b" "ma_active (as k)" using jk(3) by auto
      then show ?thesis using ap [OF jk(2)] 1 by simp
    next
      case 2
      then have "ma_active b" "ma_active (as j)" using jk(3) by auto
      then show ?thesis using apart_sym [OF ap [OF jk(1) 2(2)]] 2 by simp
    next
      case 3
      then show ?thesis using jk old(2) by simp
    qed
  qed
  have others: "(\<Union>j\<in>{j. j < 256 \<and> j \<noteq> i}. span (as j)) = mapped as - span (as i)"
    using rest unfolding mapped_def by blast
  have "mapped (as(i := b)) = (\<Union>j\<in>{j. j < 256 \<and> j \<noteq> i}. span (as j)) \<union> span b"
    using assms(4) unfolding mapped_def by (auto split: if_splits)
  then show "mapped (as(i := b)) = (mapped as - span (as i)) \<union> span b" unfolding others .
qed

lemma span_mapped: "i < 256 \<Longrightarrow> span (as i) \<subseteq> mapped as"
  unfolding mapped_def by blast

lemma active_update:
  "i < 256 \<Longrightarrow> active_slots (as(i := b)) = (if ma_active b then insert i (active_slots as) else active_slots as - {i})"
  by (auto simp: active_slots_def)

lemma finite_active [simp]: "finite (active_slots as)"
  by (simp add: active_slots_def)

lemma set_area_areas [simp]: "mc_areas (set_area i f c) = (mc_areas c)(i := f (mc_areas c i))" "mc_count (set_area i f c) = mc_count c"
  by (simp_all add: set_area_def)

lemma slot_free: "mmap_alloc_slot as = Some j \<Longrightarrow> j < 256 \<and> \<not> ma_active (as j)"
  unfolding mmap_alloc_slot_def using first_index_SomeD by blast

text \<open>Cutting \<open>us .. ue\<close> out of an area; the part behind it is lost if there is no slot for it.\<close>

lemma cut_area_ok:
  assumes ok: "ctx_ok c" and i: "i < 256" "ma_active (mc_areas c i)"
    and u: "lo (mc_areas c i) \<le> unat us" "unat us < unat ue" "unat ue \<le> hi (mc_areas c i)" and al: "4096 dvd unat us" "4096 dvd unat ue"
  shows "ctx_ok (cut_area i us ue c)"
    and "mapped (mc_areas (cut_area i us ue c)) \<inter> {..<unat ue} = mapped (mc_areas c) \<inter> {..<unat ue} - {unat us ..< unat ue}"
    and "mapped (mc_areas (cut_area i us ue c)) \<subseteq> mapped (mc_areas c) - {unat us ..< unat ue}"
    and "mmap_alloc_slot (mc_areas c) \<noteq> None \<or> \<not> (lo (mc_areas c i) < unat us \<and> unat ue < hi (mc_areas c i)) \<Longrightarrow>
      mapped (mc_areas (cut_area i us ue c)) = mapped (mc_areas c) - {unat us ..< unat ue}"
    and "mmap_alloc_slot (mc_areas c) \<noteq> None \<Longrightarrow> \<not> (lo (mc_areas c i) < unat us \<and> unat ue < hi (mc_areas c i)) \<Longrightarrow>
      mmap_alloc_slot (mc_areas (cut_area i us ue c)) \<noteq> None"
proof -
  define as where "as = mc_areas c"
  define a where "a = as i"
  have aok: "areas_ok as" and cnt: "mc_count c = int (card (active_slots as))" using ok unfolding ctx_ok_def as_def by blast+
  have w: "area_wf a" using wf_of [OF aok i(1)] i(2) unfolding a_def as_def by blast
  have act: "ma_active a" using i(2) unfolding a_def as_def .
  have e: "unat (area_end a) = hi a" by (rule area_end_hi [OF w])
  have u': "lo a \<le> unat us" "unat us < unat ue" "unat ue \<le> hi a" using u unfolding a_def as_def by blast+
  have sp: "span a = {lo a ..< hi a}" using act by (simp add: span_def)
  have sub: "{lo a ..< hi a} \<subseteq> mapped as" using span_mapped [OF i(1), of as] sp unfolding a_def by simp
  have hi64: "hi a < 2 ^ 64" "4096 dvd lo a" "4096 dvd hi a" "lo a < hi a" using w unfolding area_wf_def by blast+
  have iact: "i \<in> active_slots as" using i act unfolding active_slots_def a_def as_def by simp
  have head: "us = ma_start a \<longleftrightarrow> unat us = lo a" by (simp add: lo_def word_unat_eq_iff)
  have tail: "ue = area_end a \<longleftrightarrow> unat ue = hi a" by (simp add: e [symmetric] word_unat_eq_iff)
  let ?c' = "cut_area i us ue c"
  let ?P = "ctx_ok ?c' \<and> mapped (mc_areas ?c') \<inter> {..<unat ue} = mapped as \<inter> {..<unat ue} - {unat us ..< unat ue} \<and>
     mapped (mc_areas ?c') \<subseteq> mapped as - {unat us ..< unat ue} \<and>
     (mmap_alloc_slot as \<noteq> None \<or> \<not> (lo a < unat us \<and> unat ue < hi a) \<longrightarrow> mapped (mc_areas ?c') = mapped as - {unat us ..< unat ue}) \<and>
     (mmap_alloc_slot as \<noteq> None \<and> \<not> (lo a < unat us \<and> unat ue < hi a) \<longrightarrow> mmap_alloc_slot (mc_areas ?c') \<noteq> None)"
  have slot: "mmap_alloc_slot bs \<noteq> None \<longleftrightarrow> (\<exists>j<256. \<not> ma_active (bs j))" for bs
    by (auto simp: mmap_alloc_slot_def first_index_None)
  consider (full) "us = ma_start a" "ue = area_end a" | (hd) "us = ma_start a" "ue \<noteq> area_end a"
    | (tl) "us \<noteq> ma_start a" "ue = area_end a" | (mid) "us \<noteq> ma_start a" "ue \<noteq> area_end a" by blast
  then have ?P
  proof cases
    case full
    have c': "?c' = (set_area i (\<lambda>_. area_zero) c)\<lparr>mc_count := mc_count c - 1\<rparr>"
      using full by (simp add: cut_area_def Let_def a_def as_def)
    then have as': "mc_areas ?c' = as(i := area_zero)" by (simp add: as_def)
    have z: "span area_zero = {}" "\<not> ma_active area_zero" by (simp_all add: span_def area_zero_def)
    note up = update_ok [OF aok _ _ i(1), of area_zero]
    have m: "mapped (as(i := area_zero)) = mapped as - {unat us ..< unat ue}"
      using up(2) z full head tail sp unfolding a_def by simp
    have "mc_count ?c' = int (card (active_slots (as(i := area_zero))))"
      using iact cnt active_update [OF i(1), of as area_zero] z c' card_Suc_Diff1 [OF finite_active iact] by (simp del: card_Diff_insert)
    then have "ctx_ok ?c'" using up(1) z as' unfolding ctx_ok_def by simp
    then show ?thesis using m as' i(1) z unfolding slot by auto
  next
    case hd
    define b where "b = a\<lparr>ma_start := ma_start a + (ue - ma_start a), ma_length := ma_length a - (ue - ma_start a),
        ma_offset := (if ma_offset a \<noteq> 0 then ma_offset a + (ue - ma_start a) else ma_offset a)\<rparr>"
    have c': "?c' = set_area i (\<lambda>_. b) c" using hd by (simp add: cut_area_def Let_def a_def as_def b_def set_area_def)
    have ln: "unat (ma_length a) = hi a - lo a" by (simp add: hi_def lo_def)
    have d: "unat (ue - ma_start a) = unat ue - lo a" using u' unfolding lo_def by (intro unat_sub) (simp add: word_le_nat_alt)
    have b: "ma_active b" "lo b = unat ue" "hi b = hi a"
    proof -
      show "ma_active b" using act by (simp add: b_def)
      show lb: "lo b = unat ue" by (simp add: b_def lo_def)
      have "unat (ma_length a - (ue - ma_start a)) = (hi a - lo a) - (unat ue - lo a)"
        using u' d ln by (subst unat_sub) (simp_all add: word_le_nat_alt)
      then show "hi b = hi a" using lb u' by (simp add: hi_def b_def lo_def)
    qed
    have ne: "unat ue < hi a" using u' hd(2) tail by linarith
    have wb: "area_wf b" using b w al ne unfolding area_wf_def by simp
    have sb: "span b = {unat ue ..< hi a}" using b by (simp add: span_def)
    have "span b \<inter> (mapped as - span (as i)) = {}" using sb sp u' unfolding a_def by auto
    note up = update_ok [OF aok wb this i(1)]
    have m: "mapped (as(i := b)) = mapped as - {unat us ..< unat ue}"
      using up(2) sb sp sub head hd u' unfolding a_def by auto
    have "active_slots (as(i := b)) = active_slots as" using active_update [OF i(1), of as b] b iact by auto
    then have "ctx_ok ?c'" using up(1) cnt c' unfolding ctx_ok_def as_def by simp
    moreover have "mmap_alloc_slot as \<noteq> None \<longrightarrow> mmap_alloc_slot (as(i := b)) \<noteq> None"
      using act unfolding slot a_def by (metis fun_upd_other)
    ultimately show ?thesis using m c' unfolding as_def by auto
  next
    case tl
    define b where "b = a\<lparr>ma_length := ma_length a - (ue - us)\<rparr>"
    have c': "?c' = set_area i (\<lambda>_. b) c" using tl by (simp add: cut_area_def Let_def a_def as_def b_def set_area_def)
    have d: "unat (ue - us) = unat ue - unat us" using u' by (intro unat_sub) (simp add: word_le_nat_alt)
    have b: "ma_active b" "lo b = lo a" "hi b = unat us"
    proof -
      show "ma_active b" "lo b = lo a" using act by (simp_all add: b_def lo_def)
      have ln: "unat (ma_length a) = hi a - lo a" by (simp add: hi_def lo_def)
      have t: "unat ue = hi a" using tl(2) tail by blast
      have "unat (ue - us) \<le> unat (ma_length a)" using d ln t u'(1) by linarith
      then have "unat (ma_length a - (ue - us)) = unat (ma_length a) - unat (ue - us)" by (intro unat_sub) (simp add: word_le_nat_alt)
      then have "unat (ma_length a - (ue - us)) = unat us - lo a" using d ln t u' by linarith
      moreover have "hi b = lo a + unat (ma_length a - (ue - us))" by (simp add: hi_def b_def lo_def)
      ultimately show "hi b = unat us" using u'(1) by linarith
    qed
    have ne: "lo a < unat us" using u' tl(1) head by linarith
    have wb: "area_wf b" using b w al ne hi64 u' unfolding area_wf_def by simp
    have sb: "span b = {lo a ..< unat us}" using b by (simp add: span_def)
    have "span b \<inter> (mapped as - span (as i)) = {}" using sb sp u' unfolding a_def by auto
    note up = update_ok [OF aok wb this i(1)]
    have m: "mapped (as(i := b)) = mapped as - {unat us ..< unat ue}"
      using up(2) sb sp sub tail tl u' unfolding a_def by auto
    have "active_slots (as(i := b)) = active_slots as" using active_update [OF i(1), of as b] b iact by auto
    then have "ctx_ok ?c'" using up(1) cnt c' unfolding ctx_ok_def as_def by simp
    moreover have "mmap_alloc_slot as \<noteq> None \<longrightarrow> mmap_alloc_slot (as(i := b)) \<noteq> None"
      using act unfolding slot a_def by (metis fun_upd_other)
    ultimately show ?thesis using m c' unfolding as_def by auto
  next
    case mid
    define b where "b = a\<lparr>ma_length := us - ma_start a\<rparr>"
    have ne: "lo a < unat us" "unat ue < hi a" using u' mid head tail by linarith+
    have d: "unat (us - ma_start a) = unat us - lo a" using u' unfolding lo_def by (intro unat_sub) (simp add: word_le_nat_alt)
    have b: "ma_active b" "lo b = lo a" "hi b = unat us" using act u' d by (simp_all add: b_def lo_def hi_def)
    have wb: "area_wf b" using b w al ne hi64 u' unfolding area_wf_def by simp
    have sb: "span b = {lo a ..< unat us}" using b by (simp add: span_def)
    show ?thesis
    proof (cases "mmap_alloc_slot as")
      case None
      have c': "?c' = set_area i (\<lambda>_. b) c" using mid None by (simp add: cut_area_def Let_def a_def as_def b_def set_area_def)
      have "span b \<inter> (mapped as - span (as i)) = {}" using sb sp u' unfolding a_def by auto
      note up = update_ok [OF aok wb this i(1)]
      have m: "mapped (as(i := b)) = mapped as - {unat us ..< hi a}" using up(2) sb sp sub u' unfolding a_def by auto
      have "active_slots (as(i := b)) = active_slots as" using active_update [OF i(1), of as b] b iact by auto
      then have "ctx_ok ?c'" using up(1) cnt c' unfolding ctx_ok_def as_def by simp
      moreover have mc: "mapped (mc_areas ?c') = mapped as - {unat us ..< hi a}" using m unfolding c' by (simp add: as_def)
      have "mapped (mc_areas ?c') \<inter> {..<unat ue} = mapped as \<inter> {..<unat ue} - {unat us ..< unat ue}" unfolding mc using ne(2) by auto
      moreover have "mapped (mc_areas ?c') \<subseteq> mapped as - {unat us ..< unat ue}" unfolding mc using ne(2) by auto
      ultimately show ?thesis using None ne by blast
    next
      case (Some j)
      define t where "t = a\<lparr>ma_start := ue, ma_length := area_end a - ue, ma_offset := ma_offset a + (ue - ma_start a),
          ma_ref_count := 1, ma_active := True\<rparr>"
      have j: "j < 256" "\<not> ma_active (as j)" using slot_free [OF Some] by blast+
      have ji: "j \<noteq> i" using j act unfolding a_def by auto
      have c': "?c' = set_area i (\<lambda>_. b) ((set_area j (\<lambda>_. t) c)\<lparr>mc_count := mc_count c + 1\<rparr>)"
        using mid Some ji by (simp add: cut_area_def Let_def a_def as_def b_def t_def set_area_def)
      have "unat (area_end a - ue) = hi a - unat ue" using ne e by (subst unat_sub) (simp_all add: word_le_nat_alt)
      then have t: "ma_active t" "lo t = unat ue" "hi t = hi a" using ne by (simp_all add: t_def lo_def hi_def)
      have wt: "area_wf t" using t al hi64 ne unfolding area_wf_def by simp
      have st: "span t = {unat ue ..< hi a}" using t by (simp add: span_def)
      have "span b \<inter> (mapped as - span (as i)) = {}" using sb sp u' unfolding a_def by auto
      note up = update_ok [OF aok wb this i(1)]
      have m1: "mapped (as(i := b)) = mapped as - {unat us ..< hi a}" using up(2) sb sp sub u' unfolding a_def by auto
      have sj: "span ((as(i := b)) j) = {}" using j ji by (simp add: span_def)
      have "span t \<inter> (mapped (as(i := b)) - span ((as(i := b)) j)) = {}" using st m1 u' by auto
      note up2 = update_ok [OF up(1) wt this j(1)]
      have as': "mc_areas ?c' = (as(i := b))(j := t)" unfolding c' using ji by (simp add: as_def fun_upd_twist)
      have m: "mapped ((as(i := b))(j := t)) = mapped as - {unat us ..< unat ue}"
        using up2(2) sj st m1 sub u' by auto
      have "active_slots ((as(i := b))(j := t)) = insert j (active_slots as)"
        using active_update [OF i(1), of as b] active_update [OF j(1), of "as(i := b)" t] b t iact by auto
      moreover have "j \<notin> active_slots as" using j(2) by (simp add: active_slots_def)
      moreover have "mc_count ?c' = mc_count c + 1" unfolding c' by simp
      ultimately have "ctx_ok ?c'" using up2(1) cnt as' unfolding ctx_ok_def by simp
      then show ?thesis using m as' ne by auto
    qed
  qed
  then show "ctx_ok ?c'" "mapped (mc_areas ?c') \<inter> {..<unat ue} = mapped (mc_areas c) \<inter> {..<unat ue} - {unat us ..< unat ue}"
    "mapped (mc_areas ?c') \<subseteq> mapped (mc_areas c) - {unat us ..< unat ue}"
    "mmap_alloc_slot (mc_areas c) \<noteq> None \<or> \<not> (lo (mc_areas c i) < unat us \<and> unat ue < hi (mc_areas c i)) \<Longrightarrow>
      mapped (mc_areas ?c') = mapped (mc_areas c) - {unat us ..< unat ue}"
    "mmap_alloc_slot (mc_areas c) \<noteq> None \<Longrightarrow> \<not> (lo (mc_areas c i) < unat us \<and> unat ue < hi (mc_areas c i)) \<Longrightarrow>
      mmap_alloc_slot (mc_areas ?c') \<noteq> None"
    unfolding as_def a_def by blast+
qed

section \<open>Ranges of pages\<close>

lemma table_index_div:
  assumes "unat v div 4096 = unat w div 4096" and "12 \<le> k"
  shows "table_index k v = table_index k w"
proof -
  have "drop_bit 12 v = drop_bit 12 w" using assms(1) by (simp add: word_unat_eq_iff drop_bit_eq_div unat_div_distrib)
  then have "drop_bit (k - 12) (drop_bit 12 v) = drop_bit (k - 12) (drop_bit 12 w)" by simp
  then have "drop_bit k v = drop_bit k w" using assms(2) by (simp add: drop_bit_drop_bit)
  then show ?thesis by (simp add: table_index_def)
qed

lemma same_page_div:
  assumes "unat v div 4096 = unat w div 4096"
  shows "same_page v w"
  using table_index_div [OF assms, of 12] table_index_div [OF assms, of 21] table_index_div [OF assms, of 30] table_index_div [OF assms, of 39]
  by (simp add: same_page_def page_key_def)

lemma same_page_trans: "same_page u v \<Longrightarrow> same_page v w \<longleftrightarrow> same_page u w"
  by (auto simp: same_page_def)

definition mach_ok :: "machine \<Rightarrow> bool" where
  "mach_ok x \<longleftrightarrow> pmap_wf (mx_cr3 x) (mx_pm x)"

abbreviation entry :: "machine \<Rightarrow> u64 \<Rightarrow> u64 option" where
  "entry x w \<equiv> pte_of (mx_cr3 x) (mx_pm x) w"

lemma unmap_step:
  assumes "mach_ok x"
  shows "mach_ok (unmap_page v x)" and "entry (unmap_page v x) w = (if same_page v w then None else entry x w)"
    and "mx_free (unmap_page v x) = mx_free x" and "mx_ram (unmap_page v x) = mx_ram x"
  using unmap_page [OF assms [unfolded mach_ok_def], of v] by (simp_all add: unmap_page_def mach_ok_def)

lemma unmap_fold:
  assumes "mach_ok x"
  shows "mach_ok (fold unmap_page vs x)" and "entry (fold unmap_page vs x) w = (if \<exists>v\<in>set vs. same_page v w then None else entry x w)"
    and "mx_free (fold unmap_page vs x) = mx_free x" and "mx_ram (fold unmap_page vs x) = mx_ram x"
  using assms by (induction vs arbitrary: x) (auto simp: unmap_step)

text \<open>The pages of an aligned range, and the addresses in it.\<close>

definition touches :: "nat set \<Rightarrow> u64 \<Rightarrow> bool" where
  "touches A w \<longleftrightarrow> (\<exists>u. unat u \<in> A \<and> same_page u w)"

lemma pages_between_touch:
  assumes al: "4096 dvd unat s" "4096 dvd unat e"
  shows "(\<exists>v\<in>set (pages_between s e). same_page v w) \<longleftrightarrow> touches {unat s ..< unat e} w"
proof -
  obtain a b where ab: "unat s = 4096 * a" "unat e = 4096 * b" using al by (meson dvdE)
  have n: "(unat e - unat s + 4095) div 4096 = b - a"
  proof -
    have "unat e - unat s + 4095 = 4095 + (b - a) * 4096" using ab by (simp add: right_diff_distrib')
    then show ?thesis by simp
  qed
  have pg: "unat (s + of_nat i * PAGE_SIZE) = 4096 * (a + i)" if "i < b - a" for i
  proof -
    have "4096 * (a + i) < 2 ^ 64" using that ab(2) unsigned_less [of e, where 'a = nat] by simp
    moreover have "unat (of_nat i * PAGE_SIZE :: u64) = i * 4096"
      using calculation by (simp add: unat_word_ariths unat_of_nat)
    ultimately show ?thesis using ab(1) by (simp add: unat_word_ariths)
  qed
  show ?thesis
  proof
    assume "\<exists>v\<in>set (pages_between s e). same_page v w"
    then obtain i where i: "i < b - a" "same_page (s + of_nat i * PAGE_SIZE) w" unfolding pages_between_def n by auto
    have "unat (s + of_nat i * PAGE_SIZE) \<in> {unat s ..< unat e}" unfolding pg [OF i(1)] ab using i(1) by simp
    then show "touches {unat s ..< unat e} w" unfolding touches_def using i(2) by blast
  next
    assume "touches {unat s ..< unat e} w"
    then obtain u where u: "unat s \<le> unat u" "unat u < unat e" "same_page u w" unfolding touches_def by auto
    define i where "i = unat u div 4096 - a"
    have d: "a \<le> unat u div 4096" "unat u div 4096 < b" using u(1,2) ab by (simp_all add: less_eq_div_iff_mult_less_eq div_less_iff_less_mult mult.commute)
    have i: "i < b - a" "unat u div 4096 = a + i" unfolding i_def using d by linarith+
    have "same_page u (s + of_nat i * PAGE_SIZE)" by (rule same_page_div) (simp only: pg [OF i(1)] i(2), simp)
    then have "same_page (s + of_nat i * PAGE_SIZE) w" using same_page_trans u(3) by blast
    then show "\<exists>v\<in>set (pages_between s e). same_page v w" unfolding pages_between_def n using i(1) by auto
  qed
qed

lemma touches_Un: "touches (A \<union> B) w \<longleftrightarrow> touches A w \<or> touches B w"
  unfolding touches_def by blast

section \<open>The loop of munmap\<close>

lemma munmap_loop_exact:
  assumes "ctx_ok c" and "mach_ok x" and al: "4096 dvd unat addr" "4096 dvd unat len"
    and len: "0 < unat len" and nw: "unat addr + unat len < 2 ^ 64"
  defines "R \<equiv> {unat addr ..< unat addr + unat len}"
  shows "\<exists>c' x'. munmap_loop addr len found c x = Some (found \<or> mapped (mc_areas c) \<inter> R \<noteq> {}, c', x') \<and> ctx_ok c' \<and> mach_ok x' \<and>
      mapped (mc_areas c') \<subseteq> mapped (mc_areas c) - R \<and>
      mapped (mc_areas c') \<inter> {..<unat addr} = mapped (mc_areas c) \<inter> {..<unat addr} \<and>
      (mmap_alloc_slot (mc_areas c) \<noteq> None \<or> mapped (mc_areas c) \<inter> R = {} \<longrightarrow> mapped (mc_areas c') = mapped (mc_areas c) - R) \<and>
      (\<forall>w. entry x' w = (if touches (mapped (mc_areas c) \<inter> R) w then None else entry x w)) \<and>
      mx_free x' = mx_free x \<and> mx_ram x' = mx_ram x"
  using assms(1,2)
proof (induction "card (mapped (mc_areas c) \<inter> R)" arbitrary: c x found rule: less_induct)
  case less
  have aok: "areas_ok (mc_areas c)" using less.prems(1) unfolding ctx_ok_def by blast
  have no: "mmap_find_covering_area addr len (mc_areas c) = None \<longleftrightarrow> mapped (mc_areas c) \<inter> R = {}"
    using no_overlap [OF aok nw len] unfolding R_def mmap_find_covering_area_def .
  show ?case
  proof (cases "mmap_find_covering_area addr len (mc_areas c)")
    case None
    then have e: "mapped (mc_areas c) \<inter> R = {}" using no by blast
    have "munmap_loop addr len found c x = Some (found, c, x)" using None by (simp add: munmap_loop.simps)
    then show ?thesis using e less.prems by (auto simp: touches_def)
  next
    case (Some i)
    note fi = first_index_SomeD [OF Some [unfolded mmap_find_covering_area_def]]
    define a where "a = mc_areas c i"
    have act: "ma_active a" using fi(2) unfolding overlaps_def a_def by blast
    have w: "area_wf a" using wf_of [OF aok fi(1)] act unfolding a_def by blast
    have ov: "unat addr < hi a" "lo a < unat addr + unat len" using fi(2) overlaps_iff [OF w nw] unfolding a_def by blast+
    have e: "unat (area_end a) = hi a" by (rule area_end_hi [OF w])
    have wa: "4096 dvd lo a" "4096 dvd hi a" "lo a < hi a" "hi a < 2 ^ 64" using w unfolding area_wf_def by blast+
    define us where "us = (if addr > ma_start a then addr else ma_start a)"
    define ue where "ue = (if addr + len < area_end a then addr + len else area_end a)"
    have ae: "unat (addr + len) = unat addr + unat len" using nw by (simp add: unat_word_ariths)
    have us: "unat us = max (unat addr) (lo a)" unfolding us_def lo_def by (auto simp: word_less_nat_alt max_def)
    have ue: "unat ue = min (unat addr + unat len) (hi a)" unfolding ue_def using e ae by (auto simp: word_less_nat_alt min_def)
    have ual: "4096 dvd unat us" "4096 dvd unat ue" unfolding us ue using al wa by (auto simp: max_def min_def)
    have lt: "unat us < unat ue" unfolding us ue using ov wa(3) len by auto
    define x1 where "x1 = fold unmap_page (pages_between (PAGE_ALIGN_DOWN us) (PAGE_ALIGN_UP ue)) x"
    have "unat ue + 4095 < 2 ^ 64"
    proof -
      have "unat ue < 2 ^ 64" using unsigned_less [of ue, where 'a = nat] by simp
      moreover obtain k where "unat ue = 4096 * k" using ual(2) by blast
      ultimately show ?thesis by simp
    qed
    then have pal: "PAGE_ALIGN_UP ue = ue" using align_up_aligned [OF ual(2)] by blast
    have pdn: "PAGE_ALIGN_DOWN us = us" using ual(1) by (simp add: word_unat_eq_iff align_down)
    note uf = unmap_fold [OF less.prems(2), of "pages_between us ue"]
    have x1: "mach_ok x1" "mx_free x1 = mx_free x" "mx_ram x1 = mx_ram x"
      "\<And>v. entry x1 v = (if touches {unat us ..< unat ue} v then None else entry x v)"
      using uf pages_between_touch [OF ual] unfolding x1_def pal pdn by simp_all
    define c1 where "c1 = cut_area i us ue c"
    have "lo (mc_areas c i) \<le> unat us" "unat ue \<le> hi (mc_areas c i)" "ma_active (mc_areas c i)"
      using act unfolding us ue a_def by simp_all
    note ca = cut_area_ok [OF less.prems(1) fi(1) this(3) this(1) lt this(2) ual, folded c1_def]
    have sub: "{unat us ..< unat ue} \<subseteq> mapped (mc_areas c) \<inter> R"
    proof -
      have "{unat us ..< unat ue} \<subseteq> span a" using act unfolding span_def us ue by auto
      moreover have "{unat us ..< unat ue} \<subseteq> R" unfolding R_def us ue by auto
      ultimately show ?thesis using span_mapped [OF fi(1), of "mc_areas c"] unfolding a_def by blast
    qed
    have fin: "finite (mapped (mc_areas c) \<inter> R)" unfolding R_def by blast
    have smaller: "mapped (mc_areas c1) \<inter> R \<subset> mapped (mc_areas c) \<inter> R"
    proof -
      have "unat us \<in> mapped (mc_areas c) \<inter> R" using sub lt by auto
      moreover have "unat us \<notin> mapped (mc_areas c1)" using ca(3) lt by auto
      ultimately show ?thesis using ca(3) by blast
    qed
    note IH = less.hyps [OF psubset_card_mono [OF fin smaller] ca(1) x1(1), of True]
    have step: "munmap_loop addr len found c x = munmap_loop addr len True c1 x1"
      using Some by (simp add: munmap_loop.simps [of addr len found c x] Let_def a_def us_def ue_def x1_def c1_def)
    obtain c' x' where r: "munmap_loop addr len True c1 x1 = Some (True, c', x')" "ctx_ok c'" "mach_ok x'"
      "mapped (mc_areas c') \<subseteq> mapped (mc_areas c1) - R"
      "mapped (mc_areas c') \<inter> {..<unat addr} = mapped (mc_areas c1) \<inter> {..<unat addr}"
      "mmap_alloc_slot (mc_areas c1) \<noteq> None \<or> mapped (mc_areas c1) \<inter> R = {} \<longrightarrow> mapped (mc_areas c') = mapped (mc_areas c1) - R"
      "\<forall>w. entry x' w = (if touches (mapped (mc_areas c1) \<inter> R) w then None else entry x1 w)"
      "mx_free x' = mx_free x1" "mx_ram x' = mx_ram x1"
      using IH by auto
    have below: "mapped (mc_areas c1) \<inter> {..<unat addr} = mapped (mc_areas c) \<inter> {..<unat addr}"
    proof -
      have lt': "unat addr \<le> unat us" "unat us \<le> unat ue" using us lt by simp_all
      have m: "m \<in> mapped (mc_areas c1) \<longleftrightarrow> m \<in> mapped (mc_areas c)" if "m < unat addr" for m
      proof -
        have "m < unat ue" "m \<notin> {unat us ..< unat ue}" using that lt' by simp_all
        then show ?thesis using ca(2) by blast
      qed
      then show ?thesis by blast
    qed
    have inR: "mapped (mc_areas c1) \<inter> R = mapped (mc_areas c) \<inter> R - {unat us ..< unat ue}"
    proof (cases "mmap_alloc_slot (mc_areas c) \<noteq> None \<or> \<not> (lo a < unat us \<and> unat ue < hi a)")
      case True
      then show ?thesis using ca(4) unfolding a_def by blast
    next
      case False
      then have "unat us = unat addr" "unat ue = unat addr + unat len" unfolding us ue by auto
      then have "R = {unat us ..< unat ue}" unfolding R_def by simp
      then show ?thesis using ca(3) by blast
    qed
    have ent: "\<forall>w. entry x' w = (if touches (mapped (mc_areas c) \<inter> R) w then None else entry x w)"
    proof
      fix w
      have "mapped (mc_areas c) \<inter> R = (mapped (mc_areas c1) \<inter> R) \<union> {unat us ..< unat ue}" using inR sub by blast
      then show "entry x' w = (if touches (mapped (mc_areas c) \<inter> R) w then None else entry x w)"
        using r(7) x1(4) by (simp add: touches_Un)
    qed
    have exact: "mapped (mc_areas c') = mapped (mc_areas c) - R" if h: "mmap_alloc_slot (mc_areas c) \<noteq> None"
    proof -
      have m1: "mapped (mc_areas c1) = mapped (mc_areas c) - {unat us ..< unat ue}" using ca(4) h unfolding a_def by blast
      have "mmap_alloc_slot (mc_areas c1) \<noteq> None \<or> mapped (mc_areas c1) \<inter> R = {}"
      proof (cases "lo a < unat us \<and> unat ue < hi a")
        case True
        then have "unat us = unat addr" "unat ue = unat addr + unat len" unfolding us ue by auto
        then have "R = {unat us ..< unat ue}" unfolding R_def by simp
        then show ?thesis using m1 by blast
      next
        case False
        then show ?thesis using ca(5) [OF h] unfolding a_def by blast
      qed
      then have "mapped (mc_areas c') = mapped (mc_areas c1) - R" using r(6) by blast
      then show ?thesis using m1 sub by blast
    qed
    have "unat us \<in> mapped (mc_areas c) \<inter> R" using sub lt by auto
    then have ne: "mapped (mc_areas c) \<inter> R \<noteq> {}" by blast
    show ?thesis unfolding step r(1) using r(2-5,8,9) x1(2,3) ca(3) below ent exact ne by auto
  qed
qed

section \<open>The operations\<close>

text \<open>The arguments of a call name a page aligned range that does not wrap.\<close>

definition range_ok :: "u64 \<Rightarrow> u64 \<Rightarrow> bool" where
  "range_ok addr len \<longleftrightarrow> 4096 dvd unat addr \<and> unat addr + unat len + 4095 < 2 ^ 64"

definition range_of :: "u64 \<Rightarrow> u64 \<Rightarrow> nat set" where
  "range_of addr len = {unat addr ..< unat addr + unat (PAGE_ALIGN_UP len)}"

lemma range_aligned:
  assumes "range_ok addr len"
  shows "4096 dvd unat addr" and "4096 dvd unat (PAGE_ALIGN_UP len)" and "unat addr + unat (PAGE_ALIGN_UP len) < 2 ^ 64"
    and "0 < unat len \<Longrightarrow> 0 < unat (PAGE_ALIGN_UP len)" and "PAGE_ALIGN_UP (PAGE_ALIGN_UP len) = PAGE_ALIGN_UP len"
proof -
  have l: "unat len + 4095 < 2 ^ 64" using assms unfolding range_ok_def by linarith
  note b = align_up_bounds [OF l]
  show al: "4096 dvd unat addr" "4096 dvd unat (PAGE_ALIGN_UP len)" using assms b unfolding range_ok_def by blast+
  show "unat addr + unat (PAGE_ALIGN_UP len) < 2 ^ 64" using assms b(3) unfolding range_ok_def by linarith
  then show "PAGE_ALIGN_UP (PAGE_ALIGN_UP len) = PAGE_ALIGN_UP len"
  proof -
    assume h: "unat addr + unat (PAGE_ALIGN_UP len) < 2 ^ 64"
    obtain k where k: "unat (PAGE_ALIGN_UP len) = 4096 * k" using al(2) by blast
    have "4096 * k < 2 ^ 64" using h k by linarith
    then have "unat (PAGE_ALIGN_UP len) + 4095 < 2 ^ 64" using k by simp
    then show ?thesis by (rule align_up_aligned [OF al(2)])
  qed
  show "0 < unat (PAGE_ALIGN_UP len)" if "0 < unat len" using b(2) that by linarith
qed

lemma munmap_facts:
  assumes "ctx_ok c" and "mach_ok x" and "range_ok addr len" and "0 < unat len"
  shows "\<exists>c' x'. mmap_do_munmap addr len c x = Some (if mapped (mc_areas c) \<inter> range_of addr len = {} then - 1 else 0, c', x') \<and>
      ctx_ok c' \<and> mach_ok x' \<and> mapped (mc_areas c') \<subseteq> mapped (mc_areas c) - range_of addr len \<and>
      mapped (mc_areas c') \<inter> {..<unat addr} = mapped (mc_areas c) \<inter> {..<unat addr} \<and>
      (mmap_alloc_slot (mc_areas c) \<noteq> None \<longrightarrow> mapped (mc_areas c') = mapped (mc_areas c) - range_of addr len) \<and>
      (\<forall>w. entry x' w = (if touches (mapped (mc_areas c) \<inter> range_of addr len) w then None else entry x w)) \<and>
      mx_free x' = mx_free x \<and> mx_ram x' = mx_ram x"
proof -
  note ra = range_aligned [OF assms(3)]
  have "len \<noteq> 0" using assms(4) by auto
  then have "mmap_do_munmap addr len c x = map_option (\<lambda>(found, c1, x1). (if found then 0 else - 1, c1, x1)) (munmap_loop addr (PAGE_ALIGN_UP len) False c x)"
    by (simp add: mmap_do_munmap_def)
  then show ?thesis using munmap_loop_exact [OF assms(1,2) ra(1,2) ra(4) [OF assms(4)] ra(3), of False, folded range_of_def]
    by (elim exE conjE) auto
qed

lemma map_step:
  assumes "mach_ok x"
  shows "mach_ok (snd (map_page v p flags x))"
  using map_page(1) [OF assms [unfolded mach_ok_def], of v p flags] by (cases "pmap_map_page (mx_cr3 x) v p flags (mx_pm x)") (auto simp: map_page_def mach_ok_def)

lemma mach_ok_more [simp]: "mach_ok (x\<lparr>mx_free := fs\<rparr>) = mach_ok x" "mach_ok (x\<lparr>mx_ram := r\<rparr>) = mach_ok x"
  by (simp_all add: mach_ok_def)

lemma free_phys_ok [simp]: "mach_ok (free_phys p x) = mach_ok x"
  by (simp add: free_phys_def)

lemma alloc_phys_ok: "alloc_phys x = (r, x') \<Longrightarrow> mach_ok x \<Longrightarrow> mach_ok x'"
  by (auto simp: alloc_phys_def split: list.splits)

lemma roll_back_ok: "mach_ok x \<Longrightarrow> mach_ok (roll_back vs x)"
  unfolding roll_back_def by (induction vs arbitrary: x) (auto simp: Let_def unmap_step(1))

lemma populate_ok: "mach_ok x \<Longrightarrow> mach_ok (snd (populate check flags mp vs x))"
proof (induction vs arbitrary: mp x)
  case (Cons v vs)
  obtain r x1 where a: "alloc_phys x = (r, x1)" by fastforce
  have x1: "mach_ok x1" by (rule alloc_phys_ok [OF a Cons.prems])
  show ?case
  proof (cases r)
    case None
    then show ?thesis using a roll_back_ok [OF x1] by simp
  next
    case (Some p)
    obtain s x2 where m: "map_page v p flags x1 = (s, x2)" by fastforce
    have x2: "mach_ok x2" using map_step [OF x1, of v p flags] m by simp
    show ?thesis using Cons.IH [OF x2, of "mp @ [v]"] a m Some x2 roll_back_ok [of "free_phys p x2" mp] by simp
  qed
qed simp

text \<open>Areas that differ only in what they allow.\<close>

lemma same_places:
  assumes "\<And>i. ma_start (bs i) = ma_start (as i) \<and> ma_length (bs i) = ma_length (as i) \<and> ma_active (bs i) = ma_active (as i)"
  shows "areas_ok bs = areas_ok as" and "mapped bs = mapped as" and "active_slots bs = active_slots as"
    and "mmap_alloc_slot bs = mmap_alloc_slot as"
proof -
  have l: "lo (bs i) = lo (as i)" "hi (bs i) = hi (as i)" "ma_active (bs i) = ma_active (as i)" for i using assms by (simp_all add: lo_def hi_def)
  show "areas_ok bs = areas_ok as" "mapped bs = mapped as" "active_slots bs = active_slots as"
    unfolding areas_ok_def area_wf_def apart_def mapped_def span_def active_slots_def l by (rule refl)+
  show "mmap_alloc_slot bs = mmap_alloc_slot as" unfolding mmap_alloc_slot_def l by (rule refl)
qed

lemma slot_None: "mmap_alloc_slot as \<noteq> None \<longleftrightarrow> (\<exists>j<256. \<not> ma_active (as j))"
  by (auto simp: mmap_alloc_slot_def first_index_None)

text \<open>A new area in a free slot.\<close>

lemma new_area_ok:
  assumes ok: "ctx_ok c" and i: "mmap_alloc_slot (mc_areas c) = Some i" and al: "4096 dvd unat addr" "4096 dvd unat len"
    and len: "0 < unat len" "unat addr + unat len < 2 ^ 64" and fresh: "mapped (mc_areas c) \<inter> {unat addr ..< unat addr + unat len} = {}"
    and b: "ma_start b = addr" "ma_length b = len" "ma_active b"
    and c': "mc_areas c' = (mc_areas c)(i := b)" "mc_count c' = mc_count c + 1"
  shows "ctx_ok c'" and "mapped (mc_areas c') = mapped (mc_areas c) \<union> {unat addr ..< unat addr + unat len}"
proof -
  note fi = slot_free [OF i]
  have aok: "areas_ok (mc_areas c)" and cnt: "mc_count c = int (card (active_slots (mc_areas c)))" using ok unfolding ctx_ok_def by blast+
  have lh: "lo b = unat addr" "hi b = unat addr + unat len" using b by (simp_all add: lo_def hi_def)
  have w: "area_wf b" using lh al len unfolding area_wf_def by simp
  have sp: "span b = {unat addr ..< unat addr + unat len}" using lh b by (simp add: span_def)
  have z: "span (mc_areas c i) = {}" using fi by (simp add: span_def)
  have "span b \<inter> (mapped (mc_areas c) - span (mc_areas c i)) = {}" using fresh unfolding sp by blast
  note up = update_ok [OF aok w this conjunct1 [OF fi]]
  show "mapped (mc_areas c') = mapped (mc_areas c) \<union> {unat addr ..< unat addr + unat len}" unfolding c' up(2) z sp by blast
  have "active_slots (mc_areas c') = insert i (active_slots (mc_areas c))" using active_update fi b(3) unfolding c' by simp
  moreover have "i \<notin> active_slots (mc_areas c)" using fi by (simp add: active_slots_def)
  ultimately have "mc_count c' = int (card (active_slots (mc_areas c')))" using cnt c'(2) by simp
  then show "ctx_ok c'" using up(1) c'(1) unfolding ctx_ok_def by simp
qed

lemma slot_kept:
  assumes ok: "ctx_ok c" and i: "mmap_alloc_slot (mc_areas c) = Some i" and b: "\<not> ma_active b"
    and c': "mc_areas c' = (mc_areas c)(i := b)" "mc_count c' = mc_count c"
  shows "ctx_ok c'" and "mapped (mc_areas c') = mapped (mc_areas c)"
proof -
  note fi = slot_free [OF i]
  have aok: "areas_ok (mc_areas c)" using ok unfolding ctx_ok_def by blast
  have z: "span (mc_areas c i) = {}" "span b = {}" using fi b by (simp_all add: span_def)
  note up = update_ok [OF aok, of b i]
  show "mapped (mc_areas c') = mapped (mc_areas c)" using up(2) b fi z unfolding c' by simp
  have "active_slots (mc_areas c') = active_slots (mc_areas c)" using active_update fi b unfolding c' by (auto simp: active_slots_def)
  then show "ctx_ok c'" using up(1) b fi z ok unfolding ctx_ok_def c' by simp
qed

text \<open>The two ways in which the new area ends up.\<close>

lemma install_cases:
  assumes x: "mach_ok x" and g: "install_area i addr len prot flags offset c x = (r, c', x')"
  obtains (ok) b where "r = addr" "mc_areas c' = (mc_areas c)(i := b)" "mc_count c' = mc_count c + 1"
      "ma_start b = addr" "ma_length b = len" "ma_active b" "mach_ok x'"
    | (failed) b where "r = - 1" "mc_areas c' = (mc_areas c)(i := b)" "mc_count c' = mc_count c" "\<not> ma_active b" "mach_ok x'"
proof -
  define a where "a = \<lparr>ma_start = addr, ma_length = len, ma_prot = prot, ma_flags = flags, ma_offset = offset, ma_ref_count = 1, ma_active = True\<rparr>"
  define c1 where "c1 = (set_area i (\<lambda>_. a) c)\<lparr>mc_count := mc_count c + 1\<rparr>"
  note pop = populate_ok [OF x]
  have 1: thesis if h: "r = addr" "c' = set_area i f c1" "mach_ok x'" "\<And>a. ma_start (f a) = ma_start a \<and> ma_length (f a) = ma_length a \<and> ma_active (f a) = ma_active a" for f
    using ok [of "f a"] h by (simp add: c1_def a_def)
  have 2: thesis if h: "r = - 1" "c' = (set_area i (\<lambda>a. a\<lparr>ma_active := False\<rparr>) c1)\<lparr>mc_count := mc_count c\<rparr>" "mach_ok x'"
    using failed [of "a\<lparr>ma_active := False\<rparr>"] h by (simp add: c1_def)
  have fin: thesis if h: "(case populate ck (prot_to_pte_flags prot) [] (area_pages a) x of
                    (True, x1) \<Rightarrow> (addr, set_area i (\<lambda>a. a\<lparr>ma_flags := ma_flags a OR MMAP_FLAG_POPULATED\<rparr>) c1, x1)
                  | (False, x1) \<Rightarrow> (MAP_FAILED, (set_area i (\<lambda>a. a\<lparr>ma_active := False\<rparr>) c1)\<lparr>mc_count := mc_count c\<rparr>, x1)) = (r, c', x')" for ck
    using h pop [of ck "prot_to_pte_flags prot" "[]" "area_pages a"] 1 2 by (auto split: prod.splits bool.splits)
  have g': "(if flags AND MAP_ANONYMOUS \<noteq> 0 then (case populate True (prot_to_pte_flags prot) [] (area_pages a) x of
                    (True, x1) \<Rightarrow> (addr, set_area i (\<lambda>a. a\<lparr>ma_flags := ma_flags a OR MMAP_FLAG_POPULATED\<rparr>) c1, x1)
                  | (False, x1) \<Rightarrow> (MAP_FAILED, (set_area i (\<lambda>a. a\<lparr>ma_active := False\<rparr>) c1)\<lparr>mc_count := mc_count c\<rparr>, x1))
       else if flags AND MAP_PRIVATE \<noteq> 0 then (addr, set_area i (\<lambda>a. a\<lparr>ma_flags := ma_flags a OR MMAP_FLAG_COW\<rparr>) c1, x)
       else if flags AND MAP_SHARED \<noteq> 0 then (case populate False (prot_to_pte_flags prot) [] (area_pages a) x of
                    (True, x1) \<Rightarrow> (addr, set_area i (\<lambda>a. a\<lparr>ma_flags := ma_flags a OR MMAP_FLAG_POPULATED\<rparr>) c1, x1)
                  | (False, x1) \<Rightarrow> (MAP_FAILED, (set_area i (\<lambda>a. a\<lparr>ma_active := False\<rparr>) c1)\<lparr>mc_count := mc_count c\<rparr>, x1))
       else (addr, c1, x)) = (r, c', x')"
    using g unfolding install_area_def Let_def c1_def a_def .
  show thesis
  proof (cases "flags AND MAP_ANONYMOUS \<noteq> 0")
    case True
    then show thesis using g' fin [of True] by simp
  next
    case na: False
    show thesis
    proof (cases "flags AND MAP_PRIVATE \<noteq> 0")
      case True
      then show thesis using g' na x 1 [of "\<lambda>a. a\<lparr>ma_flags := ma_flags a OR MMAP_FLAG_COW\<rparr>"] by simp
    next
      case np: False
      have c1: "c1 = set_area i (\<lambda>a. a) c1" by (simp add: set_area_def)
      show thesis
      proof (cases "flags AND MAP_SHARED \<noteq> 0")
        case True
        then show thesis using g' na np fin [of False] by simp
      next
        case False
        then show thesis using g' na np x 1 [of "\<lambda>a. a"] c1 by simp
      qed
    qed
  qed
qed

lemma install_facts:
  assumes ok: "ctx_ok c" and x: "mach_ok x" and i: "mmap_alloc_slot (mc_areas c) = Some i" and al: "4096 dvd unat addr" "4096 dvd unat len"
    and len: "0 < unat len" "unat addr + unat len < 2 ^ 64" and fresh: "mapped (mc_areas c) \<inter> {unat addr ..< unat addr + unat len} = {}"
    and g: "install_area i addr len prot flags offset c x = (r, c', x')"
  shows "ctx_ok c' \<and> mach_ok x' \<and> (r = addr \<and> mapped (mc_areas c') = mapped (mc_areas c) \<union> {unat addr ..< unat addr + unat len} \<or>
     r = - 1 \<and> mapped (mc_areas c') = mapped (mc_areas c))"
proof -
  note new = new_area_ok [OF ok i al len fresh]
  from x g show ?thesis
  proof (cases rule: install_cases)
    case (ok b)
    show ?thesis using new [OF ok(4,5,6,2,3)] ok(1,7) by blast
  next
    case (failed b)
    show ?thesis using slot_kept [OF assms(1) i failed(4,2,3)] failed(1,5) by blast
  qed
qed

end
