(* ===== verification/MmapRuns.thy ===== *)
theory MmapRuns
  imports MmapProps
begin

text \<open>
  What the calls of \<open>mmap.c\<close> promise: fresh addresses from \<open>mmap_do_mmap\<close>, the exact effect of \<open>mmap_do_munmap\<close>, and that the
  areas of an address space stay disjoint in every sequence of calls.
\<close>

section \<open>The address of a new area\<close>

definition wants_fixed :: "u64 \<Rightarrow> u32 \<Rightarrow> bool" where
  "wants_fixed addr flags \<longleftrightarrow> addr \<noteq> 0 \<and> flags AND MAP_FIXED \<noteq> 0"

lemma find_free_facts:
  assumes ok: "ctx_ok c" and len: "4096 dvd unat len" "0 < unat len" "unat len < 2 ^ 41" "PAGE_ALIGN_UP len = len"
  shows "(mmap_find_free_area len c \<noteq> 0 \<longrightarrow> 268435456 \<le> unat (mmap_find_free_area len c) \<and>
       unat (mmap_find_free_area len c) + unat len \<le> 139637976727552 \<and>
       4096 dvd unat (mmap_find_free_area len c) \<and>
       mapped (mc_areas c) \<inter> {unat (mmap_find_free_area len c) ..< unat (mmap_find_free_area len c) + unat len} = {}) \<and>
     (\<forall>s. 268435456 \<le> s \<and> s + unat len \<le> 139637976727552 \<and> (mmap_find_free_area len c = 0 \<or> unat (mmap_find_free_area len c) < s) \<longrightarrow>
       mapped (mc_areas c) \<inter> {s ..< s + unat len} \<noteq> {})"
proof -
  have aok: "areas_ok (mc_areas c)" using ok unfolding ctx_ok_def by blast
  have s: "unat MMAP_SEARCH_START = 139637976727552" by simp
  have b: "unat len + 268435456 < 2 ^ 63" "unat MMAP_SEARCH_START < 2 ^ 63" "4096 dvd unat MMAP_SEARCH_START" using len(3) unfolding s by simp_all
  have e: "mmap_find_free_area len c = free_area_loop (mc_areas c) len MMAP_SEARCH_START"
    using len(2) unfolding mmap_find_free_area_def len(4) by auto
  show ?thesis using free_area_highest [OF aok len(2) b(1,2) len(1) b(3)] unfolding e s by simp
qed

lemma choose_facts:
  assumes ok: "ctx_ok c" and x: "mach_ok x" and r: "range_ok addr len" and len: "0 < unat len" "\<not> len > 1099511627776" and al: "addr \<noteq> 0 \<Longrightarrow> 4096 dvd unat addr"
  shows "\<exists>v c1 x1. choose_addr addr (PAGE_ALIGN_UP len) flags c x = Some (v, c1, x1) \<and> ctx_ok c1 \<and> mach_ok x1 \<and>
      (\<forall>a. v = Some a \<longrightarrow> 4096 dvd unat a \<and> unat a + unat (PAGE_ALIGN_UP len) < 2 ^ 64 \<and> mapped (mc_areas c1) \<inter> range_of a len = {}) \<and>
      (if wants_fixed addr flags
       then v = Some addr \<and> mapped (mc_areas c1) \<subseteq> mapped (mc_areas c) - range_of addr len \<and>
         (mmap_alloc_slot (mc_areas c) \<noteq> None \<longrightarrow> mapped (mc_areas c1) = mapped (mc_areas c) - range_of addr len)
       else c1 = c \<and> x1 = x \<and> (addr \<noteq> 0 \<and> mapped (mc_areas c) \<inter> range_of addr len = {} \<longrightarrow> v = Some addr))"
proof -
  define l where "l = PAGE_ALIGN_UP len"
  note ra = range_aligned [OF r, folded l_def]
  have lp: "0 < unat l" using ra(4) len(1) .
  have lb: "unat l < 2 ^ 41"
  proof -
    have "unat len + 4095 < 2 ^ 64" using r unfolding range_ok_def by linarith
    then have "unat l < unat len + 4096" unfolding l_def by (rule align_up_bounds(3))
    moreover have "unat len \<le> 1099511627776" using len(2) by (simp add: not_less word_le_nat_alt)
    ultimately show ?thesis by simp
  qed
  have aok: "areas_ok (mc_areas c)" using ok unfolding ctx_ok_def by blast
  have ro: "range_of a len = {unat a ..< unat a + unat l}" for a by (simp add: range_of_def l_def)
  show ?thesis
  proof (cases "wants_fixed addr flags")
    case True
    have rl: "range_ok addr l"
    proof -
      obtain k where k: "unat addr + unat l = 4096 * k" using ra(1,2) by (metis dvd_add dvdE)
      then have "unat addr + unat l + 4095 < 2 ^ 64" using ra(3) by simp
      then show ?thesis using ra(1) unfolding range_ok_def by simp
    qed
    obtain q c1 x1 where m: "mmap_do_munmap addr l c x = Some (q, c1, x1)" "ctx_ok c1" "mach_ok x1"
      "mapped (mc_areas c1) \<subseteq> mapped (mc_areas c) - range_of addr l"
      "mmap_alloc_slot (mc_areas c) \<noteq> None \<longrightarrow> mapped (mc_areas c1) = mapped (mc_areas c) - range_of addr l"
      using munmap_facts [OF ok x rl lp] by blast
    have rr: "range_of addr l = range_of addr len" unfolding ro by (simp add: range_of_def ra(5))
    have "choose_addr addr l flags c x = Some (Some addr, c1, x1)" using True m(1) by (simp add: choose_addr_def wants_fixed_def)
    moreover have "\<forall>a. Some addr = Some a \<longrightarrow> 4096 dvd unat a \<and> unat a + unat l < 2 ^ 64 \<and> mapped (mc_areas c1) \<inter> range_of a len = {}"
      using ra(1,3) m(4) unfolding rr by auto
    ultimately show ?thesis unfolding l_def [symmetric] if_P [OF True] using m(2,3) m(4,5) [unfolded rr] by blast
  next
    case False
    note ff = find_free_facts [OF ok ra(2) lp lb ra(5)]
    define f where "f = mmap_find_free_area l c"
    have good: "4096 dvd unat f \<and> unat f + unat l < 2 ^ 64 \<and> mapped (mc_areas c) \<inter> range_of f len = {}" if h: "f \<noteq> 0"
      using conjunct1 [OF ff] h unfolding f_def [symmetric] ro by simp
    have ov: "mmap_check_overlap addr l (mc_areas c) \<longleftrightarrow> mapped (mc_areas c) \<inter> range_of addr len \<noteq> {}"
      unfolding mmap_check_overlap_def ro no_overlap [OF aok ra(3) lp] by (rule refl)
    define v where "v = (if addr \<noteq> 0 \<and> \<not> mmap_check_overlap addr l (mc_areas c) then Some addr else if f = 0 then None else Some f)"
    have "choose_addr addr l flags c x = Some (v, c, x)"
      using False by (auto simp: choose_addr_def wants_fixed_def v_def f_def Let_def)
    moreover have "\<forall>a. v = Some a \<longrightarrow> 4096 dvd unat a \<and> unat a + unat l < 2 ^ 64 \<and> mapped (mc_areas c) \<inter> range_of a len = {}"
      using good al ov ra(3) unfolding v_def by (auto split: if_splits)
    moreover have "addr \<noteq> 0 \<and> mapped (mc_areas c) \<inter> range_of addr len = {} \<longrightarrow> v = Some addr" using ov unfolding v_def by simp
    ultimately show ?thesis using False ok x unfolding l_def [symmetric] by auto
  qed
qed

section \<open>Mapping\<close>

lemma mmap_facts:
  assumes ok: "ctx_ok c" and x: "mach_ok x" and r: "range_ok addr len"
  shows "\<exists>p c' x'. mmap_do_mmap addr len prot flags offset c x = Some (p, c', x') \<and> ctx_ok c' \<and> mach_ok x' \<and>
      (if wants_fixed addr flags
       then mapped (mc_areas c') - range_of addr len \<subseteq> mapped (mc_areas c) \<and> (p \<noteq> - 1 \<longrightarrow> p = addr \<and> range_of addr len \<subseteq> mapped (mc_areas c')) \<and>
         (p \<noteq> - 1 \<and> mmap_alloc_slot (mc_areas c) \<noteq> None \<longrightarrow> mapped (mc_areas c') = mapped (mc_areas c) \<union> range_of addr len)
       else (p = - 1 \<longrightarrow> mapped (mc_areas c') = mapped (mc_areas c)) \<and>
         (p \<noteq> - 1 \<longrightarrow> 4096 dvd unat p \<and> mapped (mc_areas c) \<inter> range_of p len = {} \<and> mapped (mc_areas c') = mapped (mc_areas c) \<union> range_of p len) \<and>
         (p \<noteq> - 1 \<and> addr \<noteq> 0 \<and> mapped (mc_areas c) \<inter> range_of addr len = {} \<longrightarrow> p = addr))"
proof (cases "mmap_args_ok addr len prot flags offset")
  case False
  then have "mmap_do_mmap addr len prot flags offset c x = Some (- 1, c, x)" by (simp add: mmap_do_mmap_def)
  then show ?thesis using ok x by auto
next
  case True
  then have len: "0 < unat len" "\<not> len > 1099511627776" and al: "addr \<noteq> 0 \<Longrightarrow> 4096 dvd unat addr"
    using r by (auto simp: mmap_args_ok_def unat_gt_0 range_ok_def)
  obtain v c1 x1 where v: "choose_addr addr (PAGE_ALIGN_UP len) flags c x = Some (v, c1, x1)" "ctx_ok c1" "mach_ok x1"
    "\<And>a. v = Some a \<Longrightarrow> 4096 dvd unat a \<and> unat a + unat (PAGE_ALIGN_UP len) < 2 ^ 64 \<and> mapped (mc_areas c1) \<inter> range_of a len = {}"
    "if wants_fixed addr flags
       then v = Some addr \<and> mapped (mc_areas c1) \<subseteq> mapped (mc_areas c) - range_of addr len \<and>
         (mmap_alloc_slot (mc_areas c) \<noteq> None \<longrightarrow> mapped (mc_areas c1) = mapped (mc_areas c) - range_of addr len)
       else c1 = c \<and> x1 = x \<and> (addr \<noteq> 0 \<and> mapped (mc_areas c) \<inter> range_of addr len = {} \<longrightarrow> v = Some addr)"
    using choose_facts [OF ok x r len al] by blast
  have st: "mmap_do_mmap addr len prot flags offset c x = Some (case v of None \<Rightarrow> (- 1, c1, x1)
      | Some a \<Rightarrow> (case mmap_alloc_slot (mc_areas c1) of None \<Rightarrow> (- 1, c1, x1)
          | Some i \<Rightarrow> install_area i a (PAGE_ALIGN_UP len) prot flags offset c1 x1))"
    using True v(1) by (simp add: mmap_do_mmap_def)
  consider (fail) "mmap_do_mmap addr len prot flags offset c x = Some (- 1, c1, x1)"
    | (inst) a i where "v = Some a" "mmap_alloc_slot (mc_areas c1) = Some i"
        "mmap_do_mmap addr len prot flags offset c x = Some (install_area i a (PAGE_ALIGN_UP len) prot flags offset c1 x1)"
    using st by (auto split: option.splits)
  then show ?thesis
  proof cases
    case fail
    then show ?thesis using v(2,3,5) by (auto split: if_splits)
  next
    case (inst a i)
    obtain p c' x' where g: "install_area i a (PAGE_ALIGN_UP len) prot flags offset c1 x1 = (p, c', x')" by (cases "install_area i a (PAGE_ALIGN_UP len) prot flags offset c1 x1") auto
    note va = v(4) [OF inst(1)]
    note ra = range_aligned [OF r]
    have f: "ctx_ok c'" "mach_ok x'" "p = a \<and> mapped (mc_areas c') = mapped (mc_areas c1) \<union> range_of a len \<or> p = - 1 \<and> mapped (mc_areas c') = mapped (mc_areas c1)"
      using install_facts [OF v(2,3) inst(2) conjunct1 [OF va] ra(2) ra(4) [OF len(1)] conjunct1 [OF conjunct2 [OF va]] _ g] va unfolding range_of_def by auto
    have an: "a \<noteq> - 1"
    proof
      assume "a = - 1"
      then have "4096 dvd unat (- 1 :: u64)" using va by simp
      then show False using page_offset [of "- 1"] by simp
    qed
    have d: "mmap_do_mmap addr len prot flags offset c x = Some (p, c', x')" using inst(3) g by simp
    show ?thesis
    proof (cases "wants_fixed addr flags")
      case True
      then have w: "a = addr" "mapped (mc_areas c1) \<subseteq> mapped (mc_areas c) - range_of addr len"
        "mmap_alloc_slot (mc_areas c) \<noteq> None \<longrightarrow> mapped (mc_areas c1) = mapped (mc_areas c) - range_of addr len" using v(5) inst(1) by auto
      have "mapped (mc_areas c') - range_of addr len \<subseteq> mapped (mc_areas c)" using f(3) w(1,2) by blast
      moreover have "p \<noteq> - 1 \<longrightarrow> p = addr \<and> range_of addr len \<subseteq> mapped (mc_areas c')" using f(3) w(1) by blast
      moreover have "p \<noteq> - 1 \<and> mmap_alloc_slot (mc_areas c) \<noteq> None \<longrightarrow> mapped (mc_areas c') = mapped (mc_areas c) \<union> range_of addr len"
        using f(3) w(1,3) by blast
      ultimately show ?thesis using True d f(1,2) by auto
    next
      case False
      then have w: "c1 = c" "addr \<noteq> 0 \<and> mapped (mc_areas c) \<inter> range_of addr len = {} \<longrightarrow> a = addr" using v(5) inst(1) by auto
      show ?thesis using False d f w va an by auto
    qed
  qed
qed

section \<open>Calls that leave the areas where they are\<close>

definition same_layout :: "mmap_context \<Rightarrow> mmap_context \<Rightarrow> bool" where
  "same_layout c c' \<longleftrightarrow> mc_count c' = mc_count c \<and> (\<forall>i. ma_start (mc_areas c' i) = ma_start (mc_areas c i) \<and>
     ma_length (mc_areas c' i) = ma_length (mc_areas c i) \<and> ma_active (mc_areas c' i) = ma_active (mc_areas c i))"

lemma same_layout_refl [simp]: "same_layout c c"
  by (simp add: same_layout_def)

lemma same_layout_trans: "same_layout a b \<Longrightarrow> same_layout b c \<Longrightarrow> same_layout a c"
  by (simp add: same_layout_def)

lemma same_layout_ok:
  assumes "same_layout c c'"
  shows "ctx_ok c' = ctx_ok c" and "mapped (mc_areas c') = mapped (mc_areas c)"
proof -
  note s = same_places [of "mc_areas c'" "mc_areas c"]
  show "ctx_ok c' = ctx_ok c" "mapped (mc_areas c') = mapped (mc_areas c)"
    using assms s unfolding ctx_ok_def same_layout_def by simp_all
qed

lemma same_layout_set:
  "(\<And>a. ma_start (f a) = ma_start a \<and> ma_length (f a) = ma_length a \<and> ma_active (f a) = ma_active a) \<Longrightarrow> same_layout c (set_area i f c)"
  by (simp add: same_layout_def)

lemma reprotect_ok: "mach_ok x \<Longrightarrow> mach_ok (fold (reprotect_page flags) vs x)"
  by (induction vs arbitrary: x) (auto simp: reprotect_page_def Let_def map_step unmap_step(1))

lemma mprotect_fold:
  "mach_ok x \<Longrightarrow> fold (mprotect_step addr len prot) is (m, c, x) = (m', c', x') \<Longrightarrow> same_layout c c' \<and> mach_ok x'"
proof (induction "is" arbitrary: m c x)
  case (Cons i "is")
  obtain m1 c1 x1 where s: "mprotect_step addr len prot i (m, c, x) = (m1, c1, x1)" by (cases "mprotect_step addr len prot i (m, c, x)") auto
  have "same_layout c c1 \<and> mach_ok x1"
    using s Cons.prems(1) unfolding mprotect_step_def Let_def by (auto split: if_splits intro: reprotect_ok same_layout_set)
  then show ?case using Cons.IH [of x1 m1 c1] Cons.prems(2) s same_layout_trans by auto
qed simp

lemma mprotect_layout:
  "mach_ok x \<Longrightarrow> mmap_do_mprotect addr len prot c x = (r, c', x') \<Longrightarrow> same_layout c c' \<and> mach_ok x'"
  unfolding mmap_do_mprotect_def by (auto split: if_splits prod.splits dest: mprotect_fold)

lemma fault_map_layout:
  assumes "mach_ok x" and "fault_map i v p flags mark c x = (r, c', x')"
  shows "same_layout c c' \<and> mach_ok x'"
proof -
  obtain s x1 where m: "map_page v p flags x = (s, x1)" by fastforce
  have "mach_ok x1" using map_step [OF assms(1), of v p flags] m by simp
  then show ?thesis using assms(2) m unfolding fault_map_def by (auto split: if_splits intro: same_layout_set)
qed

lemma fault_layout:
  assumes "mach_ok x" and "mmap_page_fault_handler vaddr code c x = (r, c', x')"
  shows "same_layout c c' \<and> mach_ok x'"
proof (cases "mmap_find_area_at vaddr (mc_areas c)")
  case None
  then show ?thesis using assms by (simp add: mmap_page_fault_handler_def)
next
  case (Some i)
  obtain q x1 where a: "alloc_phys x = (q, x1)" by fastforce
  have x1: "mach_ok x1" by (rule alloc_phys_ok [OF a assms(1)])
  show ?thesis using assms Some a x1
    by (auto simp: mmap_page_fault_handler_def Let_def split: if_splits option.splits dest!: fault_map_layout [rotated])
qed

section \<open>Destruction\<close>

lemma no_entry_no_address: "mach_ok x \<Longrightarrow> entry x v = None \<Longrightarrow> physical v x = 0"
  unfolding mach_ok_def physical_def by (simp add: get_physical)

lemma free_nothing:
  "\<forall>v\<in>set vs. physical v x = 0 \<Longrightarrow> fold (\<lambda>v x. let p = physical v x in if p \<noteq> 0 then free_phys p x else x) vs x = x"
  by (induction vs) (simp_all add: Let_def)

lemma destroy_area_facts:
  assumes "mach_ok x" and "destroy_area i (c, x) = (c', x')"
  shows "mach_ok x' \<and> mx_free x' = mx_free x \<and> mc_areas c' i = (if ma_active (mc_areas c i) then area_zero else mc_areas c i) \<and>
    (\<forall>j. j \<noteq> i \<longrightarrow> mc_areas c' j = mc_areas c j)"
proof (cases "ma_active (mc_areas c i)")
  case True
  define vs where "vs = area_pages (mc_areas c i)"
  define x1 where "x1 = fold unmap_page vs x"
  note uf = unmap_fold [OF assms(1), of vs, folded x1_def]
  have "\<forall>v\<in>set vs. physical v x1 = 0"
  proof
    fix v assume "v \<in> set vs"
    then have "entry x1 v = None" using uf(2) by (auto simp: same_page_def)
    then show "physical v x1 = 0" by (rule no_entry_no_address [OF uf(1)])
  qed
  note fr = free_nothing [OF this]
  have "c' = set_area i (\<lambda>_. area_zero) c \<and> x' = x1"
    using assms(2) True fr by (simp add: destroy_area_def Let_def x1_def vs_def split: if_splits)
  then show ?thesis using uf True by simp
next
  case False
  then show ?thesis using assms by (simp add: destroy_area_def)
qed

lemma destroy_areas:
  assumes "mach_ok x" and "fold destroy_area [0..<n] (c, x) = (c', x')"
  shows "mach_ok x' \<and> mx_free x' = mx_free x \<and> (\<forall>i<n. \<not> ma_active (mc_areas c' i))"
  using assms(2)
proof (induction n arbitrary: c' x')
  case 0
  then show ?case using assms(1) by simp
next
  case (Suc n)
  obtain c1 x1 where f: "fold destroy_area [0..<n] (c, x) = (c1, x1)" by fastforce
  note IH = Suc.IH [OF f]
  have d: "destroy_area n (c1, x1) = (c', x')" using Suc.prems f by simp
  show ?case using destroy_area_facts [OF conjunct1 [OF IH] d] IH by (auto simp: less_Suc_eq area_zero_def)
qed

lemma no_areas_ok:
  assumes "\<And>i. i < 256 \<Longrightarrow> \<not> ma_active (mc_areas c i)" and "mc_count c = 0"
  shows "ctx_ok c" and "mapped (mc_areas c) = {}"
proof -
  have "active_slots (mc_areas c) = {}" using assms(1) by (auto simp: active_slots_def)
  then show "ctx_ok c" using assms by (simp add: ctx_ok_def areas_ok_def)
  show "mapped (mc_areas c) = {}" using assms(1) by (auto simp: mapped_def span_def)
qed

section \<open>Sequences of calls\<close>

inductive mm_step :: "mmap_context \<times> machine \<Rightarrow> mmap_context \<times> machine \<Rightarrow> bool" where
  mm_map: "range_ok addr len \<Longrightarrow> mmap_do_mmap addr len prot flags offset c x = Some (r, c', x') \<Longrightarrow> mm_step (c, x) (c', x')"
| mm_unmap: "range_ok addr len \<Longrightarrow> mmap_do_munmap addr len c x = Some (s, c', x') \<Longrightarrow> mm_step (c, x) (c', x')"
| mm_protect: "mmap_do_mprotect addr len prot c x = (s, c', x') \<Longrightarrow> mm_step (c, x) (c', x')"
| mm_fault: "mmap_page_fault_handler vaddr code c x = (s, c', x') \<Longrightarrow> mm_step (c, x) (c', x')"
| mm_destroy: "mmap_context_destroy c x = (c', x') \<Longrightarrow> mm_step (c, x) (c', x')"

inductive mm_reach :: "mmap_context \<times> machine \<Rightarrow> mmap_context \<times> machine \<Rightarrow> bool" for s where
  mm_start: "mm_reach s s"
| mm_next: "mm_reach s t \<Longrightarrow> mm_step t u \<Longrightarrow> mm_reach s u"

inductive_cases mm_stepE: "mm_step (c, x) (c', x')"

lemma mm_step_ok:
  assumes "mm_step (c, x) (c', x')" and ok: "ctx_ok c" "mach_ok x"
  shows "ctx_ok c' \<and> mach_ok x'"
  using assms(1)
proof (rule mm_stepE)
  fix addr len prot flags offset r
  assume "range_ok addr len" "mmap_do_mmap addr len prot flags offset c x = Some (r, c', x')"
  then show ?thesis using mmap_facts [OF ok, of addr len prot flags offset] by auto
next
  fix addr len s
  assume r: "range_ok addr len" and m: "mmap_do_munmap addr len c x = Some (s, c', x')"
  show ?thesis
  proof (cases "len = 0")
    case True
    then show ?thesis using m ok by (simp add: mmap_do_munmap_def)
  next
    case False
    then show ?thesis using m munmap_facts [OF ok r] by (auto simp: unat_gt_0)
  qed
next
  fix addr len prot s
  assume "mmap_do_mprotect addr len prot c x = (s, c', x')"
  then show ?thesis using mprotect_layout [OF ok(2)] same_layout_ok ok(1) by blast
next
  fix vaddr code s
  assume "mmap_page_fault_handler vaddr code c x = (s, c', x')"
  then show ?thesis using fault_layout [OF ok(2)] same_layout_ok ok(1) by blast
next
  assume d: "mmap_context_destroy c x = (c', x')"
  obtain c1 x1 where f: "fold destroy_area [0..<256] (c, x) = (c1, x1)" by fastforce
  have "c' = c1\<lparr>mc_count := 0\<rparr>" "x' = x1" using d f unfolding mmap_context_destroy_def by simp_all
  then show ?thesis using destroy_areas [OF ok(2) f] no_areas_ok [of c'] by simp
qed

lemma mm_reach_ok: "mm_reach s t \<Longrightarrow> ctx_ok (fst s) \<Longrightarrow> mach_ok (snd s) \<Longrightarrow> ctx_ok (fst t) \<and> mach_ok (snd t)"
proof (induction rule: mm_reach.induct)
  case (mm_next t u)
  then show ?case using mm_step_ok [of "fst t" "snd t" "fst u" "snd u"] by simp
qed simp

lemma init_ok: "ctx_ok (mmap_context_init c)" "mapped (mc_areas (mmap_context_init c)) = {}"
  using no_areas_ok [of "mmap_context_init c"] by (simp_all add: mmap_context_init_def area_zero_def)

section \<open>Properties\<close>

text \<open>
  The search for free addresses is exact: \<open>mmap_find_free_area\<close> returns the highest page aligned address of a free range of the
  given length above the lowest and below the highest address allowed, and zero only if there is no such range.
\<close>

theorem find_free_area_highest:
  assumes "ctx_ok c" and "4096 dvd unat len" and "0 < unat len" and "unat len < 2 ^ 41"
  shows "case mmap_find_free_area len c of p \<Rightarrow>
     (p \<noteq> 0 \<longrightarrow> 268435456 \<le> unat p \<and> unat p + unat len \<le> 139637976727552 \<and> 4096 dvd unat p \<and>
        mapped (mc_areas c) \<inter> {unat p ..< unat p + unat len} = {}) \<and>
     (\<forall>s. 268435456 \<le> s \<and> s + unat len \<le> 139637976727552 \<and> mapped (mc_areas c) \<inter> {s ..< s + unat len} = {} \<longrightarrow> p \<noteq> 0 \<and> s \<le> unat p)"
proof -
  have "PAGE_ALIGN_UP len = len" using assms(4) by (intro align_up_aligned [OF assms(2)]) simp
  note ff = find_free_facts [OF assms this]
  show ?thesis unfolding prod.case using ff by (metis not_less)
qed

definition two_areas :: areas where
  "two_areas = (\<lambda>_. area_zero)(0 := area_zero\<lparr>ma_start := 139637976723456, ma_length := 4096, ma_active := True\<rparr>,
     1 := area_zero\<lparr>ma_start := 268435456, ma_length := 16384, ma_active := True\<rparr>)"

definition demo_ctx :: mmap_context where
  "demo_ctx = \<lparr>mc_areas = two_areas, mc_count = 2\<rparr>"

definition demo_machine :: machine where
  "demo_machine = \<lparr>mx_cr3 = 4096, mx_pm = demo_pmap, mx_free = [1048576, 1052672], mx_ram = (\<lambda>_ _. 0)\<rparr>"

lemma demo_machine_ok: "mach_ok demo_machine"
  using demo_wf by (simp add: mach_ok_def demo_machine_def)

lemma demo_ctx_ok: "ctx_ok demo_ctx"
proof -
  have a: "active_slots two_areas = {0, 1}" by (auto simp: active_slots_def two_areas_def area_zero_def)
  have "areas_ok two_areas"
    by (auto simp: areas_ok_def two_areas_def area_zero_def area_wf_def apart_def lo_def hi_def)
  then show ?thesis using a by (simp add: ctx_ok_def demo_ctx_def)
qed

theorem find_free_area_highest_witness:
  "mmap_find_free_area 8192 demo_ctx \<noteq> 0 \<and> 139637976715264 \<le> unat (mmap_find_free_area 8192 demo_ctx) \<and>
   unat (mmap_find_free_area 8192 demo_ctx) + 8192 \<le> 139637976727552"
proof -
  have n: "unat (8192 :: u64) = 8192" by simp
  have f: "mapped (mc_areas demo_ctx) \<inter> {139637976715264 ..< 139637976715264 + unat (8192 :: u64)} = {}"
  proof -
    have "span (two_areas i) \<subseteq> {139637976723456 ..< 139637976727552} \<union> {268435456 ..< 268451840}" for i
      by (cases "i = 0"; cases "i = 1") (simp_all add: two_areas_def span_def lo_def hi_def area_zero_def)
    then have "mapped (mc_areas demo_ctx) \<subseteq> {139637976723456 ..< 139637976727552} \<union> {268435456 ..< 268451840}"
      unfolding mapped_def demo_ctx_def by auto
    moreover have "({139637976723456 ..< 139637976727552} \<union> {268435456 ..< 268451840}) \<inter> {139637976715264 ..< 139637976723456 :: nat} = {}" by auto
    ultimately show ?thesis unfolding n by auto
  qed
  have d: "4096 dvd unat (8192 :: u64)" "0 < unat (8192 :: u64)" "unat (8192 :: u64) < 2 ^ 41" by simp_all
  note h = find_free_area_highest [OF demo_ctx_ok d, unfolded prod.case]
  have "(268435456 :: nat) \<le> 139637976715264 \<and> 139637976715264 + unat (8192 :: u64) \<le> 139637976727552 \<and>
      mapped (mc_areas demo_ctx) \<inter> {139637976715264 ..< 139637976715264 + unat (8192 :: u64)} = {}" using f by simp
  then have p: "mmap_find_free_area 8192 demo_ctx \<noteq> 0 \<and> 139637976715264 \<le> unat (mmap_find_free_area 8192 demo_ctx)" using conjunct2 [OF h] by blast
  then have "unat (mmap_find_free_area 8192 demo_ctx) + unat (8192 :: u64) \<le> 139637976727552" using conjunct1 [OF h] by blast
  then show ?thesis using p unfolding n by blast
qed

text \<open>
  C31. A call of \<open>mmap_do_munmap\<close> with a page aligned address and a positive length whose range does not wrap (\<open>range_ok\<close>, which the
  code does not check), on an area table and page tables that are well formed (\<open>ctx_ok\<close>; \<open>mach_ok\<close>: a tree of tables without
  2 MB pages), returns, and takes exactly its range out of the areas and the page tables: no address of the range stays mapped, the
  rest stays as it is as long as one slot is free for the second half of a split area, and the entries of the pages that were
  mapped in the range disappear, and no others. It gives no physical page back.
\<close>

theorem munmap_exact:
  assumes "ctx_ok c" and "mach_ok x" and "range_ok addr len" and "0 < unat len"
  shows "\<exists>c' x'. mmap_do_munmap addr len c x = Some (if mapped (mc_areas c) \<inter> range_of addr len = {} then - 1 else 0, c', x') \<and>
      ctx_ok c' \<and> mapped (mc_areas c') \<subseteq> mapped (mc_areas c) - range_of addr len \<and>
      (mmap_alloc_slot (mc_areas c) \<noteq> None \<longrightarrow> mapped (mc_areas c') = mapped (mc_areas c) - range_of addr len) \<and>
      (\<forall>w. pte_of (mx_cr3 x') (mx_pm x') w =
         (if touches (mapped (mc_areas c) \<inter> range_of addr len) w then None else pte_of (mx_cr3 x) (mx_pm x) w)) \<and>
      mx_free x' = mx_free x"
  using munmap_facts [OF assms] by blast

theorem munmap_exact_witness:
  "\<exists>c' x'. mmap_do_munmap 268439552 8000 demo_ctx demo_machine =
        Some (if mapped (mc_areas demo_ctx) \<inter> range_of 268439552 8000 = {} then - 1 else 0, c', x') \<and>
      ctx_ok c' \<and> mapped (mc_areas c') \<subseteq> mapped (mc_areas demo_ctx) - range_of 268439552 8000 \<and>
      (mmap_alloc_slot (mc_areas demo_ctx) \<noteq> None \<longrightarrow> mapped (mc_areas c') = mapped (mc_areas demo_ctx) - range_of 268439552 8000) \<and>
      (\<forall>w. pte_of (mx_cr3 x') (mx_pm x') w =
         (if touches (mapped (mc_areas demo_ctx) \<inter> range_of 268439552 8000) w then None else pte_of (mx_cr3 demo_machine) (mx_pm demo_machine) w)) \<and>
      mx_free x' = mx_free demo_machine"
  by (rule munmap_exact [OF demo_ctx_ok demo_machine_ok]) (simp_all add: range_ok_def)

text \<open>
  C33. \<open>mmap_do_mmap\<close> without \<open>MAP_FIXED\<close>, asked for a page aligned range that does not wrap (\<open>range_ok\<close>; the code
  checks the address but not the wrap), on an area table and page tables that are well formed (\<open>ctx_ok\<close>; \<open>mach_ok\<close>: no 2 MB pages), returns, and either fails
  without a change of the areas or adds exactly one page aligned range of the rounded length, at addresses that were free; when it
  succeeds, a free address that the caller asked for is the one it grants.
\<close>

theorem mmap_grants_fresh_range:
  assumes "ctx_ok c" and "mach_ok x" and "range_ok addr len" and "addr = 0 \<or> flags AND 16 = 0"
  shows "\<exists>p c' x'. mmap_do_mmap addr len prot flags offset c x = Some (p, c', x') \<and> ctx_ok c' \<and>
      (if p = - 1 then mapped (mc_areas c') = mapped (mc_areas c)
       else 4096 dvd unat p \<and> mapped (mc_areas c) \<inter> range_of p len = {} \<and> mapped (mc_areas c') = mapped (mc_areas c) \<union> range_of p len \<and>
         (addr \<noteq> 0 \<and> mapped (mc_areas c) \<inter> range_of addr len = {} \<longrightarrow> p = addr))"
proof -
  have nf: "\<not> wants_fixed addr flags" using assms(4) by (auto simp: wants_fixed_def)
  obtain p c' x' where m: "mmap_do_mmap addr len prot flags offset c x = Some (p, c', x')" "ctx_ok c'"
    "p = - 1 \<longrightarrow> mapped (mc_areas c') = mapped (mc_areas c)"
    "p \<noteq> - 1 \<longrightarrow> 4096 dvd unat p \<and> mapped (mc_areas c) \<inter> range_of p len = {} \<and> mapped (mc_areas c') = mapped (mc_areas c) \<union> range_of p len"
    "p \<noteq> - 1 \<and> addr \<noteq> 0 \<and> mapped (mc_areas c) \<inter> range_of addr len = {} \<longrightarrow> p = addr"
    using mmap_facts [OF assms(1-3), of prot flags offset] unfolding if_not_P [OF nf] by blast
  show ?thesis
  proof (cases "p = - 1")
    case True
    then show ?thesis using m(1-3) by auto
  next
    case False
    then have "4096 dvd unat p \<and> mapped (mc_areas c) \<inter> range_of p len = {} \<and> mapped (mc_areas c') = mapped (mc_areas c) \<union> range_of p len \<and>
         (addr \<noteq> 0 \<and> mapped (mc_areas c) \<inter> range_of addr len = {} \<longrightarrow> p = addr)" using m(4,5) by blast
    then have "if p = - 1 then mapped (mc_areas c') = mapped (mc_areas c)
       else 4096 dvd unat p \<and> mapped (mc_areas c) \<inter> range_of p len = {} \<and> mapped (mc_areas c') = mapped (mc_areas c) \<union> range_of p len \<and>
         (addr \<noteq> 0 \<and> mapped (mc_areas c) \<inter> range_of addr len = {} \<longrightarrow> p = addr)" unfolding if_not_P [OF False] .
    then show ?thesis using m(1,2) by blast
  qed
qed

theorem mmap_grants_fresh_range_witness:
  "\<exists>p c' x'. mmap_do_mmap 536870912 5000 3 34 0 demo_ctx demo_machine = Some (p, c', x') \<and> ctx_ok c' \<and>
      (if p = - 1 then mapped (mc_areas c') = mapped (mc_areas demo_ctx)
       else 4096 dvd unat p \<and> mapped (mc_areas demo_ctx) \<inter> range_of p 5000 = {} \<and> mapped (mc_areas c') = mapped (mc_areas demo_ctx) \<union> range_of p 5000 \<and>
         ((536870912 :: u64) \<noteq> 0 \<and> mapped (mc_areas demo_ctx) \<inter> range_of 536870912 5000 = {} \<longrightarrow> p = 536870912))"
  by (rule mmap_grants_fresh_range [OF demo_ctx_ok demo_machine_ok]) (simp_all add: range_ok_def)

text \<open>
  C32. From an empty context on well formed page tables without 2 MB pages (\<open>mach_ok\<close>) on, every sequence of \<open>mmap\<close> and \<open>munmap\<close> of page
  aligned ranges that do not wrap (\<open>range_ok\<close>), of any \<open>mprotect\<close>, page faults and destructions keeps the active areas page aligned and
  pairwise disjoint, and the counter equal to their number. The code does not check the ranges: an unaligned \<open>munmap\<close> leaves
  an unaligned area (\<open>munmap_unaligned_area\<close>), and a range that wraps can be granted over areas that exist.
\<close>

theorem areas_always_disjoint:
  assumes "mm_reach (mmap_context_init c0, x0) (c, x)" and "mach_ok x0"
  shows "mc_count c = int (card {i. i < 256 \<and> ma_active (mc_areas c i)}) \<and>
     (\<forall>i<256. ma_active (mc_areas c i) \<longrightarrow> 4096 dvd unat (ma_start (mc_areas c i)) \<and> 4096 dvd unat (ma_length (mc_areas c i)) \<and>
        0 < unat (ma_length (mc_areas c i)) \<and> unat (ma_start (mc_areas c i)) + unat (ma_length (mc_areas c i)) < 2 ^ 64) \<and>
     (\<forall>i<256. \<forall>j<256. i \<noteq> j \<and> ma_active (mc_areas c i) \<and> ma_active (mc_areas c j) \<longrightarrow>
        {unat (ma_start (mc_areas c i)) ..< unat (ma_start (mc_areas c i)) + unat (ma_length (mc_areas c i))} \<inter>
        {unat (ma_start (mc_areas c j)) ..< unat (ma_start (mc_areas c j)) + unat (ma_length (mc_areas c j))} = {})"
proof -
  have ok: "ctx_ok c" using mm_reach_ok [OF assms(1)] init_ok assms(2) by simp
  have w: "4096 dvd unat (ma_start a) \<and> 4096 dvd unat (ma_length a) \<and> 0 < unat (ma_length a) \<and> unat (ma_start a) + unat (ma_length a) < 2 ^ 64"
    if h: "area_wf a" for a
  proof -
    have "4096 dvd lo a" "4096 dvd hi a" "lo a < hi a" "hi a < 2 ^ 64" "hi a = lo a + unat (ma_length a)"
      using h unfolding area_wf_def by (simp_all add: hi_def lo_def)
    then show ?thesis by (simp add: lo_def dvd_add_right_iff)
  qed
  have "\<forall>i<256. ma_active (mc_areas c i) \<longrightarrow> area_wf (mc_areas c i)" using ok unfolding ctx_ok_def areas_ok_def by blast
  then have 1: "\<forall>i<256. ma_active (mc_areas c i) \<longrightarrow> 4096 dvd unat (ma_start (mc_areas c i)) \<and> 4096 dvd unat (ma_length (mc_areas c i)) \<and>
      0 < unat (ma_length (mc_areas c i)) \<and> unat (ma_start (mc_areas c i)) + unat (ma_length (mc_areas c i)) < 2 ^ 64"
    using w by blast
  have "\<forall>i<256. \<forall>j<256. i \<noteq> j \<and> ma_active (mc_areas c i) \<and> ma_active (mc_areas c j) \<longrightarrow> span (mc_areas c i) \<inter> span (mc_areas c j) = {}"
    using ok spans_disjoint unfolding ctx_ok_def by blast
  then have 2: "\<forall>i<256. \<forall>j<256. i \<noteq> j \<and> ma_active (mc_areas c i) \<and> ma_active (mc_areas c j) \<longrightarrow>
        {unat (ma_start (mc_areas c i)) ..< unat (ma_start (mc_areas c i)) + unat (ma_length (mc_areas c i))} \<inter>
        {unat (ma_start (mc_areas c j)) ..< unat (ma_start (mc_areas c j)) + unat (ma_length (mc_areas c j))} = {}"
    unfolding span_def hi_def lo_def by simp
  show ?thesis using 1 2 ok unfolding ctx_ok_def active_slots_def by blast
qed

text \<open>One private area in an empty context.\<close>

definition one_area :: mmap_context where
  "one_area = \<lparr>mc_areas = (\<lambda>_. area_zero)(0 := \<lparr>ma_start = 536870912, ma_length = 4096, ma_prot = 3, ma_flags = 8194, ma_offset = 0,
     ma_ref_count = 1, ma_active = True\<rparr>), mc_count = 1\<rparr>"

lemma demo_mmap: "mmap_do_mmap 536870912 4096 3 2 0 (mmap_context_init demo_ctx) demo_machine = Some (536870912, one_area, demo_machine)"
proof -
  let ?c = "mmap_context_init demo_ctx"
  have as: "mc_areas ?c = (\<lambda>_. area_zero)" "mc_count ?c = 0" by (simp_all add: mmap_context_init_def)
  have "mmap_alloc_slot (mc_areas ?c) = Some 0" unfolding as mmap_alloc_slot_def by (rule first_index_SomeI) (simp_all add: area_zero_def)
  moreover have "\<not> mmap_check_overlap 536870912 4096 (mc_areas ?c)"
    unfolding as mmap_check_overlap_def by (simp add: first_index_None overlaps_def area_zero_def del: not_None_eq)
  moreover have p: "PAGE_ALIGN_UP 4096 = 4096" by (simp add: PAGE_ALIGN_UP_def)
  moreover have "mmap_args_ok 536870912 4096 3 2 0" by (simp add: mmap_args_ok_def)
  ultimately have "mmap_do_mmap 536870912 4096 3 2 0 ?c demo_machine = Some (install_area 0 536870912 4096 3 2 0 ?c demo_machine)"
    by (simp add: mmap_do_mmap_def choose_addr_def Let_def)
  also have "install_area 0 536870912 4096 3 2 0 ?c demo_machine = (536870912, one_area, demo_machine)"
    unfolding install_area_def Let_def by (simp add: set_area_def one_area_def as mmap_context_init_def)
  finally show ?thesis .
qed

lemma demo_run: "mm_reach (mmap_context_init demo_ctx, demo_machine) (one_area, demo_machine)"
  by (rule mm_next [OF mm_start mm_map [OF _ demo_mmap]]) (simp add: range_ok_def)

theorem areas_always_disjoint_witness:
  "mc_count one_area = int (card {i. i < 256 \<and> ma_active (mc_areas one_area i)}) \<and>
     4096 dvd unat (ma_start (mc_areas one_area 0)) \<and> 4096 dvd unat (ma_length (mc_areas one_area 0)) \<and> 0 < unat (ma_length (mc_areas one_area 0))"
proof -
  note a = areas_always_disjoint [OF demo_run demo_machine_ok]
  have z: "(0 :: nat) < 256" "ma_active (mc_areas one_area 0)" by (simp_all add: one_area_def)
  show ?thesis using conjunct1 [OF a] conjunct1 [OF conjunct2 [OF a]] z by blast
qed

text \<open>
  \<open>mmap_do_munmap\<close> does not check its address: to unmap one byte behind the fourth of a mapped page succeeds and leaves an area of
  four bytes, so that the next search for a free address can give out an address that is not that of a page.
\<close>

theorem munmap_unaligned_area:
  "\<exists>c' x'. mmap_do_munmap 536870916 1 one_area demo_machine = Some (0, c', x') \<and> ma_active (mc_areas c' 0) \<and>
     ma_start (mc_areas c' 0) = 536870912 \<and> ma_length (mc_areas c' 0) = 4"
proof -
  define c1 where "c1 = set_area 0 (\<lambda>a. a\<lparr>ma_length := 4\<rparr>) one_area"
  have l: "PAGE_ALIGN_UP 1 = 4096" by (simp add: PAGE_ALIGN_UP_def)
  have f: "mmap_find_covering_area 536870916 4096 (mc_areas one_area) = Some 0"
    unfolding mmap_find_covering_area_def
    by (rule first_index_SomeI) (simp_all add: overlaps_def one_area_def area_end_def)
  have f1: "mmap_find_covering_area 536870916 4096 (mc_areas c1) = None"
    unfolding mmap_find_covering_area_def first_index_None
    by (simp add: overlaps_def one_area_def area_end_def c1_def set_area_def area_zero_def)
  have cut: "cut_area 0 536870916 536875008 one_area = c1"
    by (simp add: cut_area_def one_area_def area_end_def c1_def set_area_def Let_def)
  define x1 where "x1 = fold unmap_page (pages_between (PAGE_ALIGN_DOWN 536870916) (PAGE_ALIGN_UP 536875008)) demo_machine"
  have b: "ma_start (mc_areas one_area 0) = 536870912" "area_end (mc_areas one_area 0) = 536875008"
    by (simp_all add: one_area_def area_end_def)
  have "munmap_loop 536870916 4096 False one_area demo_machine = munmap_loop 536870916 4096 True c1 x1"
    by (subst munmap_loop.simps) (simp add: f b cut x1_def Let_def)
  also have "\<dots> = Some (True, c1, x1)"
    by (subst munmap_loop.simps) (simp add: f1)
  finally have "mmap_do_munmap 536870916 1 one_area demo_machine = Some (0, c1, x1)" by (simp add: mmap_do_munmap_def l)
  then show ?thesis by (simp add: c1_def set_area_def one_area_def)
qed

text \<open>
  \<open>mmap_context_destroy\<close> empties the table of areas, but gives back not a single physical page: it looks the addresses of the
  pages up after it has unmapped them.
\<close>

theorem destroy_frees_nothing:
  assumes "mach_ok x" and "mmap_context_destroy c x = (c', x')"
  shows "mx_free x' = mx_free x \<and> mapped (mc_areas c') = {} \<and> mc_count c' = 0"
proof -
  obtain c1 x1 where f: "fold destroy_area [0..<256] (c, x) = (c1, x1)" by fastforce
  have "c' = c1\<lparr>mc_count := 0\<rparr>" "x' = x1" using assms(2) f unfolding mmap_context_destroy_def by simp_all
  then show ?thesis using destroy_areas [OF assms(1) f] no_areas_ok(2) [of c'] by simp
qed

theorem destroy_frees_nothing_witness:
  "mx_free (snd (mmap_context_destroy one_area demo_machine)) = mx_free demo_machine \<and>
   mapped (mc_areas (fst (mmap_context_destroy one_area demo_machine))) = {} \<and> mc_count (fst (mmap_context_destroy one_area demo_machine)) = 0"
  by (rule destroy_frees_nothing [OF demo_machine_ok]) simp

text \<open>
  Copy on write: a write fault in a private area maps a fresh page in place of the old one, with the contents of the old page or
  zeros, marks the area, and changes no other entry. The new entry is writable whatever the protection of the area says.
\<close>

theorem write_fault_copies_page:
  assumes "mach_ok x" and "mmap_find_area_at vaddr (mc_areas c) = Some i" and "ma_flags (mc_areas c i) AND 2 \<noteq> 0" and "code AND 2 \<noteq> 0"
    and "mx_free x = p # ps" and "3 \<le> length (pm_pool (mx_pm x))" and "0 \<notin> set (pm_pool (mx_pm x))"
  shows "\<exists>c' x'. mmap_page_fault_handler vaddr code c x = (0, c', x') \<and> mx_free x' = ps \<and>
     mx_ram x' p = (let old = pmap_get_physical (mx_cr3 x) (vaddr AND NOT 4095) (mx_pm x) in if old = 0 \<or> old = p then (\<lambda>_. 0) else mx_ram x old) \<and>
     (\<forall>q. q \<noteq> p \<longrightarrow> mx_ram x' q = mx_ram x q) \<and>
     (\<forall>w. pte_of (mx_cr3 x') (mx_pm x') w = (if same_page (vaddr AND NOT 4095) w
        then Some (p OR (prot_to_pte_flags (ma_prot (mc_areas c i)) OR 2 OR 1)) else pte_of (mx_cr3 x) (mx_pm x) w)) \<and>
     c' = set_area i (\<lambda>a. a\<lparr>ma_flags := ma_flags a OR 20480\<rparr>) c"
proof -
  define v where "v = vaddr AND NOT 4095"
  define x1 where "x1 = x\<lparr>mx_free := ps, mx_ram := (mx_ram x)(p := (\<lambda>_. 0))\<rparr>"
  have a: "alloc_phys x = (Some p, x1)" using assms(5) by (simp add: alloc_phys_def x1_def)
  define old where "old = pmap_get_physical (mx_cr3 x) v (mx_pm x)"
  have o: "physical v x1 = old" by (simp add: physical_def x1_def old_def)
  define x2 where "x2 = (if old \<noteq> 0 then x1\<lparr>mx_ram := (mx_ram x1)(p := mx_ram x1 old)\<rparr> else x1)"
  have x2: "mx_cr3 x2 = mx_cr3 x" "mx_pm x2 = mx_pm x" "mx_free x2 = ps" by (simp_all add: x2_def x1_def)
  define fl where "fl = prot_to_pte_flags (ma_prot (mc_areas c i)) OR PAGE_WRITABLE"
  have h: "mmap_page_fault_handler vaddr code c x = fault_map i v p fl (MMAP_FLAG_DIRTY OR MMAP_FLAG_POPULATED) c x2"
    using assms(2-4) a o unfolding mmap_page_fault_handler_def Let_def v_def fl_def x2_def by simp
  obtain r pm where m: "pmap_map_page (mx_cr3 x) v p fl (mx_pm x) = (r, pm)" by fastforce
  note mp = map_page [OF assms(1) [unfolded mach_ok_def] m]
  have r: "r = 0" using mp(4) assms(6,7) by (simp add: enough_def)
  have m': "map_page v p fl x2 = (0, x2\<lparr>mx_pm := pm\<rparr>)" using m r x2 by (simp add: map_page_def)
  have f: "fault_map i v p fl (MMAP_FLAG_DIRTY OR MMAP_FLAG_POPULATED) c x2 =
      (0, set_area i (\<lambda>a. a\<lparr>ma_flags := ma_flags a OR 20480\<rparr>) c, x2\<lparr>mx_pm := pm\<rparr>)" using m' by (simp add: fault_map_def)
  have ram: "mx_ram (x2\<lparr>mx_pm := pm\<rparr>) p = (if old = 0 \<or> old = p then (\<lambda>_. 0) else mx_ram x old)"
    "\<forall>q. q \<noteq> p \<longrightarrow> mx_ram (x2\<lparr>mx_pm := pm\<rparr>) q = mx_ram x q"
    by (simp_all add: x2_def x1_def)
  have e: "pte_of (mx_cr3 (x2\<lparr>mx_pm := pm\<rparr>)) (mx_pm (x2\<lparr>mx_pm := pm\<rparr>)) w =
     (if same_page v w then Some (p OR (prot_to_pte_flags (ma_prot (mc_areas c i)) OR 2 OR 1)) else pte_of (mx_cr3 x) (mx_pm x) w)" for w
    using mp(3) [of w] r x2 by (simp add: fl_def or.assoc)
  show ?thesis unfolding h f v_def [symmetric] old_def [symmetric] Let_def using ram e x2(3) by (intro exI conjI) (rule refl | simp)+
qed

theorem write_fault_copies_page_witness:
  "\<exists>c' x'. mmap_page_fault_handler 536870917 2 one_area demo_machine = (0, c', x') \<and> mx_free x' = [1052672] \<and>
     mx_ram x' 1048576 = (let old = pmap_get_physical (mx_cr3 demo_machine) (536870917 AND NOT 4095) (mx_pm demo_machine)
        in if old = 0 \<or> old = 1048576 then (\<lambda>_. 0) else mx_ram demo_machine old) \<and>
     (\<forall>q. q \<noteq> 1048576 \<longrightarrow> mx_ram x' q = mx_ram demo_machine q) \<and>
     (\<forall>w. pte_of (mx_cr3 x') (mx_pm x') w = (if same_page (536870917 AND NOT 4095) w
        then Some (1048576 OR (prot_to_pte_flags (ma_prot (mc_areas one_area 0)) OR 2 OR 1)) else pte_of (mx_cr3 demo_machine) (mx_pm demo_machine) w)) \<and>
     c' = set_area 0 (\<lambda>a. a\<lparr>ma_flags := ma_flags a OR 20480\<rparr>) one_area"
proof (rule write_fault_copies_page [OF demo_machine_ok])
  show "mmap_find_area_at 536870917 (mc_areas one_area) = Some 0"
    unfolding mmap_find_area_at_def by (rule first_index_SomeI) (simp_all add: one_area_def area_end_def)
qed (simp_all add: one_area_def demo_machine_def demo_pmap_def)

end
