(* ===== verification/MmapFork.thy ===== *)
theory MmapFork
  imports MmapRuns
begin

text \<open>The areas that a child inherits from its parent, \<open>mmap_fork_inherit\<close> of \<open>mmap.c\<close>.\<close>

text \<open>What a child keeps of an area.\<close>

definition inherited :: "mmap_area \<Rightarrow> mmap_area \<Rightarrow> bool" where
  "inherited pa ca \<longleftrightarrow> ma_active ca \<and> ma_start ca = ma_start pa \<and> ma_length ca = ma_length pa \<and> ma_prot ca = ma_prot pa \<and> ma_offset ca = ma_offset pa \<and>
     (if ma_flags pa AND MAP_SHARED \<noteq> 0 then ma_flags ca = ma_flags pa \<and> ma_ref_count ca = ma_ref_count pa + 1
      else ma_flags ca = ma_flags pa OR MMAP_FLAG_COW \<and> ma_ref_count ca = 1)"

lemma inherit_one:
  assumes "ma_active pa" and "k < 256" and "\<forall>i<k. ma_active (mc_areas child i)" and "\<not> ma_active (mc_areas child k)"
  shows "\<exists>ca x'. inherit_area pa child x = Some ((set_area k (\<lambda>_. ca) child)\<lparr>mc_count := mc_count child + 1\<rparr>, x') \<and> inherited pa ca"
proof -
  have s: "mmap_alloc_slot (mc_areas child) = Some k" unfolding mmap_alloc_slot_def using assms by (intro first_index_SomeI) auto
  show ?thesis
  proof (cases "ma_flags pa AND MAP_SHARED \<noteq> 0")
    case True
    then show ?thesis using assms(1) s by (auto simp: inherit_area_def inherited_def intro!: exI [of _ "pa\<lparr>ma_ref_count := ma_ref_count pa + 1\<rparr>"])
  next
    case False
    then show ?thesis using assms(1) s
      by (auto simp: inherit_area_def inherited_def intro!: exI [of _ "pa\<lparr>ma_ref_count := 1, ma_flags := ma_flags pa OR MMAP_FLAG_COW\<rparr>"])
  qed
qed

lemma inherit_all:
  assumes "k + length (filter ma_active pas) \<le> 256" and "\<forall>i<k. ma_active (mc_areas child i)" and "\<forall>i\<ge>k. \<not> ma_active (mc_areas child i)"
  shows "\<exists>child' x'. inherit_areas pas child x = (0, child', x') \<and> (\<forall>i<k. mc_areas child' i = mc_areas child i) \<and>
     (\<forall>j<length (filter ma_active pas). inherited (filter ma_active pas ! j) (mc_areas child' (k + j))) \<and>
     (\<forall>i\<ge>k + length (filter ma_active pas). \<not> ma_active (mc_areas child' i)) \<and>
     mc_count child' = mc_count child + int (length (filter ma_active pas))"
  using assms
proof (induction pas arbitrary: k child x)
  case (Cons pa pas)
  show ?case
  proof (cases "ma_active pa")
    case False
    then show ?thesis using Cons.IH [of k child x] Cons.prems by simp
  next
    case True
    then have k: "k < 256" using Cons.prems(1) by simp
    obtain ca x1 where ia: "inherit_area pa child x = Some ((set_area k (\<lambda>_. ca) child)\<lparr>mc_count := mc_count child + 1\<rparr>, x1)" "inherited pa ca"
      using inherit_one [OF True k Cons.prems(2), of x] Cons.prems(3) by blast
    define c1 where "c1 = (set_area k (\<lambda>_. ca) child)\<lparr>mc_count := mc_count child + 1\<rparr>"
    have a1: "mc_areas c1 = (mc_areas child)(k := ca)" "mc_count c1 = mc_count child + 1" by (simp_all add: c1_def)
    have "Suc k + length (filter ma_active pas) \<le> 256" using Cons.prems(1) True by simp
    moreover have "\<forall>i<Suc k. ma_active (mc_areas c1 i)" using Cons.prems(2) ia(2) unfolding a1 inherited_def by (auto simp: less_Suc_eq)
    moreover have "\<forall>i\<ge>Suc k. \<not> ma_active (mc_areas c1 i)" using Cons.prems(3) unfolding a1 by auto
    ultimately obtain child' x' where r: "inherit_areas pas c1 x1 = (0, child', x')" "\<forall>i<Suc k. mc_areas child' i = mc_areas c1 i"
      "\<forall>j<length (filter ma_active pas). inherited (filter ma_active pas ! j) (mc_areas child' (Suc k + j))"
      "\<forall>i\<ge>Suc k + length (filter ma_active pas). \<not> ma_active (mc_areas child' i)"
      "mc_count child' = mc_count c1 + int (length (filter ma_active pas))"
      using Cons.IH [of "Suc k" c1 x1] by blast
    have "inherited ((pa # filter ma_active pas) ! j) (mc_areas child' (k + j))" if j: "j < Suc (length (filter ma_active pas))" for j
      using r(2,3) ia(2) j by (cases j) (auto simp: a1)
    then show ?thesis using True ia(1) r a1 by (simp add: c1_def [symmetric])
  qed
qed simp

text \<open>
  A child that starts with an empty context inherits exactly the active areas of its parent, in the order of their slots, with their
  addresses and protections; private areas are marked for copy on write, and the references of shared ones are counted. It never fails.
\<close>

theorem fork_inherits_areas:
  "\<exists>child x'. mmap_fork_inherit parent (mmap_context_init c0) x = (0, child, x') \<and>
     (let as = filter ma_active (map (mc_areas parent) [0..<256])
      in mc_count child = int (length as) \<and> (\<forall>j<length as. inherited (as ! j) (mc_areas child j)) \<and> (\<forall>i\<ge>length as. \<not> ma_active (mc_areas child i)))"
proof -
  define pas where "pas = map (mc_areas parent) [0..<256]"
  have "length (filter ma_active pas) \<le> 256" using length_filter_le [of ma_active pas] by (simp add: pas_def)
  moreover have z: "mc_areas (mmap_context_init c0) = (\<lambda>_. area_zero)" "mc_count (mmap_context_init c0) = 0" by (simp_all add: mmap_context_init_def)
  ultimately show ?thesis
    using inherit_all [of 0 pas "mmap_context_init c0" x] unfolding mmap_fork_inherit_def pas_def [symmetric] Let_def z by (auto simp: area_zero_def)
qed

theorem fork_inherits_areas_witness:
  "\<exists>child x'. mmap_fork_inherit one_area (mmap_context_init demo_ctx) demo_machine = (0, child, x') \<and>
     (let as = filter ma_active (map (mc_areas one_area) [0..<256])
      in mc_count child = int (length as) \<and> (\<forall>j<length as. inherited (as ! j) (mc_areas child j)) \<and> (\<forall>i\<ge>length as. \<not> ma_active (mc_areas child i)))"
  by (rule fork_inherits_areas)

end
