(* ===== verification/PageFault.thy ===== *)
theory PageFault
  imports MmapRuns
begin

text \<open>
  Page faults, \<open>kernel/arch/x86_64/pagefault.c\<close>: copy on write, demand paging and the growth of the stack. The faulting address and the
  root table, which the code reads from the control registers, are an argument and a part of the machine. Of the current process the
  fields that the handler uses are modelled.
\<close>

section \<open>State\<close>

abbreviation (input) PF_PRESENT :: u64 where "PF_PRESENT \<equiv> 1"
abbreviation (input) PF_USER :: u64 where "PF_USER \<equiv> 4"
abbreviation (input) USER_STACK_TOP :: u64 where "USER_STACK_TOP \<equiv> 140737488355327"
abbreviation (input) MAX_STACK_SIZE :: u64 where "MAX_STACK_SIZE \<equiv> 8388608"

datatype pf_cause = PF_CAUSE_NOT_PRESENT | PF_CAUSE_COW | PF_CAUSE_PROTECTION | PF_CAUSE_STACK_EXPAND | PF_CAUSE_KERNEL

record pf_stats =
  total_faults :: u64
  cow_faults :: u64
  demand_paging :: u64
  stack_expands :: u64
  protection_faults :: u64
  kernel_faults :: u64

record fault_process =
  fp_rss :: u64
  fp_stack_top :: u64
  fp_stack_base :: u64
  fp_dead :: bool

record fault_state =
  fs_stats :: pf_stats
  fs_proc :: fault_process
  fs_mach :: machine

text \<open>How the handler ends: the access is repeated, the process is killed, or the kernel stops.\<close>

datatype fault_end = Resumed | Killed | Panicked

definition pagefault_init :: "pf_stats \<Rightarrow> pf_stats" where
  "pagefault_init st = \<lparr>total_faults = 0, cow_faults = 0, demand_paging = 0, stack_expands = 0, protection_faults = 0, kernel_faults = 0\<rparr>"

section \<open>The remedies\<close>

text \<open>The entry of the page, found with the masks of this file, is replaced by one for a copy of the page.\<close>

definition cow_resolve_fault :: "u64 \<Rightarrow> fault_process \<Rightarrow> machine \<Rightarrow> int \<times> fault_process \<times> machine" where
  "cow_resolve_fault vaddr pr x =
     (let tab = pm_tab (mx_pm x); e4 = tab (mx_cr3 x) (table_index 39 vaddr)
      in if e4 AND 1 = 0 then (- 1, pr, x)
         else let e3 = tab (e4 AND NOT 4095) (table_index 30 vaddr)
         in if e3 AND 1 = 0 then (- 1, pr, x)
            else let e2 = tab (e3 AND NOT 4095) (table_index 21 vaddr)
            in if e2 AND 1 = 0 then (- 1, pr, x)
               else let old_pte = tab (e2 AND NOT 4095) (table_index 12 vaddr)
               in if old_pte AND PAGE_PRESENT = 0 then (- 1, pr, x)
                  else if old_pte AND PAGE_COW_FLAG = 0 then (- 1, pr, x)
                  else case mx_free x of
                         [] \<Rightarrow> (- 1, pr, x)
                       | p # ps \<Rightarrow>
                           (0, pr\<lparr>fp_rss := fp_rss pr + PAGE_SIZE\<rparr>,
                            x\<lparr>mx_free := ps, mx_ram := (mx_ram x)(p := mx_ram x (old_pte AND NOT 4095)),
                              mx_pm := set_entry (e2 AND NOT 4095) (table_index 12 vaddr)
                                ((p OR (old_pte AND 4095) OR PAGE_WRITABLE) AND NOT PAGE_COW_FLAG) (mx_pm x)\<rparr>))"

text \<open>A page of zeros at \<open>v\<close>.\<close>

definition fault_new_page :: "u64 \<Rightarrow> u64 \<Rightarrow> machine \<Rightarrow> int \<times> machine" where
  "fault_new_page v flags x =
     (case alloc_phys x of
        (None, x1) \<Rightarrow> (- 1, x1)
      | (Some p, x1) \<Rightarrow> (case map_page v p flags x1 of (r, x2) \<Rightarrow> if r \<noteq> 0 then (- 1, free_phys p x2) else (0, x2)))"

definition demand_page_alloc :: "u64 \<Rightarrow> u64 \<Rightarrow> machine \<Rightarrow> int \<times> machine" where
  "demand_page_alloc vaddr flags x = fault_new_page vaddr (flags OR PAGE_PRESENT) x"

definition stack_expand :: "u64 \<Rightarrow> u64 \<Rightarrow> machine \<Rightarrow> int \<times> machine" where
  "stack_expand fault_addr stack_bottom x =
     (if fault_addr > USER_STACK_TOP then (- 1, x)
      else if USER_STACK_TOP - fault_addr > MAX_STACK_SIZE then (- 1, x)
      else if fault_addr \<ge> stack_bottom then (- 1, x)
      else fault_new_page (fault_addr AND NOT (PAGE_SIZE - 1)) (PAGE_PRESENT OR PAGE_WRITABLE OR PAGE_USER) x)"

section \<open>The handler\<close>

definition fault_cause :: "u64 \<Rightarrow> u64 \<Rightarrow> fault_process \<Rightarrow> pf_cause" where
  "fault_cause cr2 error_code pr =
     (if error_code AND PF_PRESENT = 0
      then if error_code AND PF_USER \<noteq> 0
           then if cr2 > fp_stack_top pr - MAX_STACK_SIZE \<and> cr2 \<le> USER_STACK_TOP then PF_CAUSE_STACK_EXPAND else PF_CAUSE_NOT_PRESENT
           else PF_CAUSE_KERNEL
      else if error_code AND PF_WRITE \<noteq> 0 then PF_CAUSE_COW else PF_CAUSE_PROTECTION)"

definition count_fault :: "pf_cause \<Rightarrow> pf_stats \<Rightarrow> pf_stats" where
  "count_fault cause st =
     (let s = st\<lparr>total_faults := total_faults st + 1\<rparr>
      in case cause of
           PF_CAUSE_STACK_EXPAND \<Rightarrow> s\<lparr>stack_expands := stack_expands s + 1\<rparr>
         | PF_CAUSE_NOT_PRESENT \<Rightarrow> s\<lparr>demand_paging := demand_paging s + 1\<rparr>
         | PF_CAUSE_KERNEL \<Rightarrow> s\<lparr>kernel_faults := kernel_faults s + 1\<rparr>
         | PF_CAUSE_COW \<Rightarrow> s\<lparr>cow_faults := cow_faults s + 1\<rparr>
         | PF_CAUSE_PROTECTION \<Rightarrow> s\<lparr>protection_faults := protection_faults s + 1\<rparr>)"

definition remedy :: "pf_cause \<Rightarrow> u64 \<Rightarrow> u64 \<Rightarrow> fault_process \<Rightarrow> machine \<Rightarrow> bool \<times> fault_process \<times> machine" where
  "remedy cause cr2 error_code pr x =
     (case cause of
        PF_CAUSE_COW \<Rightarrow> (case cow_resolve_fault cr2 pr x of (r, pr1, x1) \<Rightarrow> (r = 0, pr1, x1))
      | PF_CAUSE_NOT_PRESENT \<Rightarrow>
          if error_code AND PF_USER \<noteq> 0
          then (case demand_page_alloc (cr2 AND NOT (PAGE_SIZE - 1)) (PAGE_PRESENT OR PAGE_USER) x of (r, x1) \<Rightarrow> (r = 0, pr, x1))
          else (False, pr, x)
      | PF_CAUSE_STACK_EXPAND \<Rightarrow>
          (case stack_expand cr2 (fp_stack_base pr) x of (r, x1) \<Rightarrow>
             if r = 0 then (True, pr\<lparr>fp_stack_base := cr2 AND NOT (PAGE_SIZE - 1)\<rparr>, x1) else (False, pr, x1))
      | _ \<Rightarrow> (False, pr, x))"

definition pagefault_handler :: "u64 \<Rightarrow> u64 \<Rightarrow> fault_state \<Rightarrow> fault_end \<times> fault_state" where
  "pagefault_handler cr2 error_code s =
     (let cause = fault_cause cr2 error_code (fs_proc s); st = count_fault cause (fs_stats s)
      in case remedy cause cr2 error_code (fs_proc s) (fs_mach s) of (handled, pr, x) \<Rightarrow>
           if handled then (Resumed, \<lparr>fs_stats = st, fs_proc = pr, fs_mach = x\<rparr>)
           else if error_code AND PF_USER \<noteq> 0 then (Killed, \<lparr>fs_stats = st, fs_proc = pr\<lparr>fp_dead := True\<rparr>, fs_mach = x\<rparr>)
           else (Panicked, \<lparr>fs_stats = st, fs_proc = pr, fs_mach = x\<rparr>))"

definition pf_get_stats :: "fault_state \<Rightarrow> pf_stats" where
  "pf_get_stats s = fs_stats s"

section \<open>The walk of the copy\<close>

text \<open>The tables above the last level have no bits beyond those of an address and of the lowest twelve.\<close>

definition plain_tables :: "u64 \<Rightarrow> pmap_st \<Rightarrow> bool" where
  "plain_tables R st \<longleftrightarrow> (\<forall>p i t. length p \<le> 2 \<and> table_at (pm_tab st) R p = Some t \<longrightarrow> pm_tab st t i AND NOT 4095 = PTE_ADDR (pm_tab st t i))"

lemma plain_walk:
  assumes "plain_tables R st" and "table_at (pm_tab st) R (page_key v) = Some t"
  defines "e4 \<equiv> pm_tab st R (table_index 39 v)"
  defines "e3 \<equiv> pm_tab st (e4 AND NOT 4095) (table_index 30 v)"
  defines "e2 \<equiv> pm_tab st (e3 AND NOT 4095) (table_index 21 v)"
  shows "e4 AND 1 \<noteq> 0 \<and> e3 AND 1 \<noteq> 0 \<and> e2 AND 1 \<noteq> 0 \<and> e2 AND NOT 4095 = t"
proof -
  have pl: "pm_tab st u i AND NOT 4095 = PTE_ADDR (pm_tab st u i)" if "length p \<le> 2" "table_at (pm_tab st) R p = Some u" for p u i
    using assms(1) that unfolding plain_tables_def by blast
  have 4: "e4 AND 1 \<noteq> 0" using assms(2) unfolding key_walk e4_def by (auto split: if_splits)
  have a4: "e4 AND NOT 4095 = PTE_ADDR e4" using pl [of "[]" R] unfolding e4_def by simp
  have t1: "table_at (pm_tab st) R [table_index 39 v] = Some (PTE_ADDR e4)" using 4 unfolding e4_def by simp
  have e3': "e3 = pm_tab st (PTE_ADDR e4) (table_index 30 v)" unfolding e3_def a4 ..
  have 3: "e3 AND 1 \<noteq> 0" using assms(2) 4 unfolding key_walk e3' e4_def by (auto split: if_splits)
  have a3: "e3 AND NOT 4095 = PTE_ADDR e3" using pl [OF _ t1] unfolding e3' by simp
  have t2: "table_at (pm_tab st) R [table_index 39 v, table_index 30 v] = Some (PTE_ADDR e3)" using 4 3 unfolding e3' e4_def by simp
  have e2': "e2 = pm_tab st (PTE_ADDR e3) (table_index 21 v)" unfolding e2_def a3 ..
  have 2: "e2 AND 1 \<noteq> 0 \<and> t = PTE_ADDR e2" using assms(2) 4 3 unfolding key_walk e2' e3' e4_def by (auto split: if_splits)
  have "e2 AND NOT 4095 = PTE_ADDR e2" using pl [OF _ t2] unfolding e2' by simp
  then show ?thesis using 4 3 2 by simp
qed

lemma cow_entry_addr:
  assumes "PTE_ADDR p = p"
  shows "PTE_ADDR ((p OR (e AND 4095) OR 2) AND NOT 512) = p"
proof -
  have "((p OR (e AND 4095) OR 2) AND NOT 512) AND 4503599627366400 = (p OR (e AND 4095) OR 2) AND 4503599627366400"
    by (simp add: and.assoc)
  also have "\<dots> = (p AND 4503599627366400) OR (e AND (4095 AND 4503599627366400)) OR (2 AND 4503599627366400)"
    by (simp only: bit.conj_disj_distrib2 and.assoc)
  also have "\<dots> = p" using assms by (simp add: PTE_ADDR_def)
  finally show ?thesis by (simp add: PTE_ADDR_def)
qed

text \<open>
  C35. A write fault on a page that is marked for copy on write gives the process a copy of its own, provided that there is a free
  physical page \<open>p\<close> with the address of a page, the tables are those of a map of pages of 4 kB (\<open>mach_ok\<close>), and neither the entries above the last
  level nor the entry \<open>e\<close> of the page have bits outside the address and the lowest twelve, so no \<open>NO_EXEC\<close>: the address is then
  translated to \<open>p\<close>, which has the contents of the page it was translated to before; the entry is writable and no longer marked,
  with the lowest twelve bits of the old entry otherwise; no other entry and no other physical page changes.
\<close>

theorem cow_gives_private_copy:
  assumes "mach_ok x" and "plain_tables (mx_cr3 x) (mx_pm x)" and "pte_of (mx_cr3 x) (mx_pm x) v = Some e" and "e AND 512 \<noteq> 0"
    and "e AND NOT 4095 = PTE_ADDR e" and "mx_free x = p # ps" and "PTE_ADDR p = p"
  shows "\<exists>x'. cow_resolve_fault v pr x = (0, pr\<lparr>fp_rss := fp_rss pr + 4096\<rparr>, x') \<and> mach_ok x' \<and> mx_free x' = ps \<and>
     pmap_get_physical (mx_cr3 x) v (mx_pm x) = PTE_ADDR e + (v AND 4095) \<and>
     pmap_get_physical (mx_cr3 x') v (mx_pm x') = p + (v AND 4095) \<and>
     mx_ram x' = (mx_ram x)(p := mx_ram x (PTE_ADDR e)) \<and>
     (\<forall>w. pte_of (mx_cr3 x') (mx_pm x') w = (if same_page v w then Some ((p OR (e AND 4095) OR 2) AND NOT 512) else pte_of (mx_cr3 x) (mx_pm x) w))"
proof -
  define R st where "R = mx_cr3 x" and "st = mx_pm x"
  obtain t where t: "table_at (pm_tab st) R (page_key v) = Some t" "pm_tab st t (table_index 12 v) = e" "e AND PAGE_PRESENT \<noteq> 0"
    using assms(3) unfolding pte_of_def R_def st_def by (auto split: option.splits if_splits)
  define e' where "e' = (p OR (e AND 4095) OR PAGE_WRITABLE) AND NOT PAGE_COW_FLAG"
  define x' where "x' = x\<lparr>mx_free := ps, mx_ram := (mx_ram x)(p := mx_ram x (e AND NOT 4095)), mx_pm := set_entry t (table_index 12 v) e' st\<rparr>"
  note pw = plain_walk [OF assms(2) [folded R_def st_def] t(1)]
  have r: "cow_resolve_fault v pr x = (0, pr\<lparr>fp_rss := fp_rss pr + 4096\<rparr>, x')"
    using pw t(2,3) assms(4,6) unfolding cow_resolve_fault_def Let_def R_def [symmetric] st_def [symmetric] x'_def e'_def by simp
  have "pmap_wf R st" using assms(1) unfolding mach_ok_def R_def st_def .
  note lu = leaf_update [OF this t(1) refl, of e']
  have pres: "e' AND PAGE_PRESENT \<noteq> 0"
  proof -
    have "bit e 0" using t(3) by (simp add: and_one_eq odd_iff_mod_2_eq_one [symmetric] bit_0)
    then have "bit e' 0" unfolding e'_def by (simp add: bit_simps bit_0 odd_numeral flip: bit_0)
    then show ?thesis by (simp add: and_one_eq odd_iff_mod_2_eq_one [symmetric] bit_0)
  qed
  have "mach_ok x'" using lu(1) unfolding mach_ok_def x'_def R_def by simp
  moreover have "pte_of (mx_cr3 x') (mx_pm x') w = (if same_page v w then Some e' else pte_of R st w)" for w
    using lu(2) [of w] pres unfolding x'_def R_def by simp
  moreover have "pmap_get_physical R v st = PTE_ADDR e + (v AND 4095)"
    using get_physical [OF \<open>pmap_wf R st\<close>, of v] assms(3) unfolding R_def st_def by simp
  moreover have "pmap_get_physical (mx_cr3 x') v (mx_pm x') = PTE_ADDR e' + (v AND 4095)"
    using get_physical [of "mx_cr3 x'" "mx_pm x'" v] calculation(1,2) unfolding mach_ok_def by (simp add: same_page_def)
  moreover have "PTE_ADDR e' = p" unfolding e'_def by (rule cow_entry_addr [OF assms(7)])
  ultimately show ?thesis using r assms(5) unfolding x'_def e'_def R_def st_def by simp
qed

text \<open>One page at 4 MB, marked for copy on write.\<close>

definition cow_tables :: "u64 \<Rightarrow> nat \<Rightarrow> u64" where
  "cow_tables t i = (if t = 4096 \<and> i = 0 then 8195 else if t = 8192 \<and> i = 0 then 12291 else if t = 12288 \<and> i = 2 then 16387
     else if t = 16384 \<and> i = 0 then 1049093 else 0)"

definition cow_machine :: machine where
  "cow_machine = \<lparr>mx_cr3 = 4096, mx_pm = \<lparr>pm_tab = cow_tables, pm_pool = []\<rparr>, mx_free = [1052672], mx_ram = (\<lambda>q _. if q = 1048576 then 7 else 0)\<rparr>"

definition demo_process :: fault_process where
  "demo_process = \<lparr>fp_rss = 0, fp_stack_top = 140737488355327, fp_stack_base = 140737488351232, fp_dead = False\<rparr>"

lemma demo_index: "table_index 39 4194304 = 0" "table_index 30 4194304 = 0" "table_index 21 4194304 = 2" "table_index 12 4194304 = 0"
  by (simp_all add: table_index_def)

lemma cow_mapped: "pmap_map_page 4096 4194304 1048576 516 demo_pmap = (0, \<lparr>pm_tab = cow_tables, pm_pool = []\<rparr>)"
proof -
  have "pm_tab (snd (pmap_map_page 4096 4194304 1048576 516 demo_pmap)) = cow_tables"
    by (rule ext, rule ext) (simp add: pmap_map_page_def pmap_get_or_alloc_table_def alloc_table_def demo_index demo_pmap_def set_entry_def Let_def PTE_ADDR_def cow_tables_def)
  moreover have "fst (pmap_map_page 4096 4194304 1048576 516 demo_pmap) = 0" "pm_pool (snd (pmap_map_page 4096 4194304 1048576 516 demo_pmap)) = []"
    by (simp_all add: pmap_map_page_def pmap_get_or_alloc_table_def alloc_table_def demo_index demo_pmap_def set_entry_def Let_def PTE_ADDR_def)
  ultimately show ?thesis by (cases "pmap_map_page 4096 4194304 1048576 516 demo_pmap") (simp add: pmap_st.equality)
qed

lemma cow_machine_ok: "mach_ok cow_machine" "pte_of 4096 (mx_pm cow_machine) 4194304 = Some 1049093"
  using map_page(1) [OF demo_wf cow_mapped] map_page(3) [OF demo_wf cow_mapped, of 4194304]
  by (simp_all add: mach_ok_def cow_machine_def same_page_def)

lemma cow_machine_plain: "plain_tables (mx_cr3 cow_machine) (mx_pm cow_machine)"
proof -
  have "cow_tables t i AND NOT 4095 = PTE_ADDR (cow_tables t i)" for t i
    by (simp add: cow_tables_def PTE_ADDR_def)
  then show ?thesis by (simp add: plain_tables_def cow_machine_def)
qed

theorem cow_gives_private_copy_witness:
  "\<exists>x'. cow_resolve_fault 4194304 demo_process cow_machine = (0, demo_process\<lparr>fp_rss := fp_rss demo_process + 4096\<rparr>, x') \<and> mach_ok x' \<and> mx_free x' = [] \<and>
     pmap_get_physical (mx_cr3 x') 4194304 (mx_pm x') = 1052672 \<and>
     mx_ram x' = (mx_ram cow_machine)(1052672 := mx_ram cow_machine 1048576) \<and> pte_of (mx_cr3 x') (mx_pm x') 4194304 = Some 1052679"
proof -
  obtain x' where x: "cow_resolve_fault 4194304 demo_process cow_machine = (0, demo_process\<lparr>fp_rss := fp_rss demo_process + 4096\<rparr>, x')"
    "mach_ok x'" "mx_free x' = []" "pmap_get_physical (mx_cr3 x') 4194304 (mx_pm x') = 1052672 + (4194304 AND 4095)"
    "mx_ram x' = (mx_ram cow_machine)(1052672 := mx_ram cow_machine (PTE_ADDR 1049093))"
    "\<forall>w. pte_of (mx_cr3 x') (mx_pm x') w = (if same_page 4194304 w then Some ((1052672 OR (1049093 AND 4095) OR 2) AND NOT 512)
        else pte_of (mx_cr3 cow_machine) (mx_pm cow_machine) w)"
    using cow_gives_private_copy [OF cow_machine_ok(1) cow_machine_plain, of 4194304 1049093 1052672 "[]" demo_process] cow_machine_ok(2)
    by (auto simp: cow_machine_def PTE_ADDR_def)
  have "same_page 4194304 4194304" by (simp add: same_page_def)
  then have "pte_of (mx_cr3 x') (mx_pm x') 4194304 = Some ((1052672 OR (1049093 AND 4095) OR 2) AND NOT 512)" using x(6) by presburger
  also have "\<dots> = Some 1052679" by simp
  finally have "pte_of (mx_cr3 x') (mx_pm x') 4194304 = Some 1052679" .
  then show ?thesis using x(1-5) by (simp add: PTE_ADDR_def)
qed

section \<open>The handler\<close>

text \<open>A sequence of faults, each with its address and its error code.\<close>

definition faults :: "(u64 \<times> u64) list \<Rightarrow> fault_state \<Rightarrow> fault_state" where
  "faults fs s = fold (\<lambda>(cr2, code) s. snd (pagefault_handler cr2 code s)) fs s"

lemma handler_stats: "fs_stats (snd (pagefault_handler cr2 code s)) = count_fault (fault_cause cr2 code (fs_proc s)) (fs_stats s)"
  by (simp add: pagefault_handler_def Let_def split: prod.split)

definition accounted :: "pf_stats \<Rightarrow> bool" where
  "accounted st \<longleftrightarrow> total_faults st = cow_faults st + demand_paging st + stack_expands st + protection_faults st + kernel_faults st"

lemma count_accounted: "accounted st \<Longrightarrow> accounted (count_fault c st)"
  by (cases c) (simp_all add: accounted_def count_fault_def Let_def algebra_simps)

lemma faults_keep: "accounted (fs_stats s) \<Longrightarrow> accounted (fs_stats (faults fs s))"
  unfolding faults_def by (induction fs arbitrary: s) (auto simp: handler_stats count_accounted)

text \<open>
  From \<open>pagefault_init\<close> on, the total of the statistics is the sum of the counters of the causes after every sequence of faults, modulo
  $2^{64}$.
\<close>

theorem faults_accounted:
  "case pf_get_stats (faults fs (s\<lparr>fs_stats := pagefault_init st\<rparr>)) of t \<Rightarrow>
     total_faults t = cow_faults t + demand_paging t + stack_expands t + protection_faults t + kernel_faults t"
proof -
  have "accounted (fs_stats (s\<lparr>fs_stats := pagefault_init st\<rparr>))" by (simp add: accounted_def pagefault_init_def)
  then show ?thesis using faults_keep unfolding accounted_def pf_get_stats_def by simp
qed

lemma fault_new_page_entry:
  assumes "mach_ok x" and "fault_new_page v flags x = (0, x')"
  shows "mach_ok x' \<and> (\<exists>p ps. mx_free x = p # ps \<and> mx_free x' = ps \<and> entry x' v = Some (p OR (flags OR PAGE_PRESENT)))"
proof -
  obtain p ps where f: "mx_free x = p # ps" using assms(2) by (cases "mx_free x") (auto simp: fault_new_page_def alloc_phys_def)
  define x1 where "x1 = x\<lparr>mx_free := ps, mx_ram := (mx_ram x)(p := (\<lambda>_. 0))\<rparr>"
  have a: "alloc_phys x = (Some p, x1)" using f by (simp add: alloc_phys_def x1_def)
  obtain r pm where m: "pmap_map_page (mx_cr3 x) v p flags (mx_pm x) = (r, pm)" by fastforce
  have m': "map_page v p flags x1 = (r, x1\<lparr>mx_pm := pm\<rparr>)" using m by (simp add: map_page_def x1_def)
  have "r = 0" "x' = x1\<lparr>mx_pm := pm\<rparr>" using assms(2) a m' by (auto simp: fault_new_page_def split: if_splits)
  moreover note mp = map_page [OF assms(1) [unfolded mach_ok_def] m]
  ultimately show ?thesis using f mp(1) mp(3) [of v] by (simp add: x1_def mach_ok_def same_page_def)
qed

text \<open>
  C36. The stack of a process grows only downwards and only within its limit: a fault that moves the bottom of the stack moves it to the
  page of the faulting address, below the old bottom and at most 8 MB and a page below the top of user memory, and maps a fresh page
  there for the user, writable. Every other fault leaves the bottom where it is. The page tables are those of a map of
  pages of 4 kB (\<open>mach_ok\<close>).
\<close>

theorem stack_grows_within_limit:
  assumes "mach_ok (fs_mach s)" and "pagefault_handler cr2 code s = (r, s')"
  shows "fp_stack_base (fs_proc s') = fp_stack_base (fs_proc s) \<or>
     r = Resumed \<and> fp_stack_base (fs_proc s') = cr2 AND NOT 4095 \<and> cr2 < fp_stack_base (fs_proc s) \<and>
     unat cr2 \<le> 140737488355327 \<and> 140737488355327 - unat cr2 \<le> 8388608 \<and>
     (\<exists>p ps. mx_free (fs_mach s) = p # ps \<and>
        pte_of (mx_cr3 (fs_mach s')) (mx_pm (fs_mach s')) (cr2 AND NOT 4095) = Some (p OR 7))"
proof (cases "fault_cause cr2 code (fs_proc s) = PF_CAUSE_STACK_EXPAND \<and> fst (stack_expand cr2 (fp_stack_base (fs_proc s)) (fs_mach s)) = 0")
  case False
  have "fp_stack_base pr = fp_stack_base (fs_proc s)" if "remedy (fault_cause cr2 code (fs_proc s)) cr2 code (fs_proc s) (fs_mach s) = (b, pr, x)" for b pr x
    using that False
    by (auto simp: remedy_def cow_resolve_fault_def Let_def split: pf_cause.splits prod.splits if_splits list.splits)
  then show ?thesis using assms(2) by (auto simp: pagefault_handler_def Let_def split: prod.splits if_splits)
next
  case True
  then obtain x' where x': "stack_expand cr2 (fp_stack_base (fs_proc s)) (fs_mach s) = (0, x')"
    by (cases "stack_expand cr2 (fp_stack_base (fs_proc s)) (fs_mach s)") auto
  have c: "\<not> cr2 > USER_STACK_TOP" "\<not> USER_STACK_TOP - cr2 > MAX_STACK_SIZE" "\<not> cr2 \<ge> fp_stack_base (fs_proc s)"
    "fault_new_page (cr2 AND NOT (PAGE_SIZE - 1)) (PAGE_PRESENT OR PAGE_WRITABLE OR PAGE_USER) (fs_mach s) = (0, x')"
    using x' unfolding stack_expand_def by (auto split: if_splits)
  have le: "unat cr2 \<le> 140737488355327" using c(1) by (simp add: not_less word_le_nat_alt)
  have "unat (USER_STACK_TOP - cr2) = 140737488355327 - unat cr2" using c(1) by (subst unat_sub) (simp_all add: not_less)
  then have lim: "140737488355327 - unat cr2 \<le> 8388608" using c(2) by (simp add: not_less word_le_nat_alt)
  note fn = fault_new_page_entry [OF assms(1) c(4)]
  have "r = Resumed" "fp_stack_base (fs_proc s') = cr2 AND NOT 4095" "fs_mach s' = x'"
    using assms(2) True x' by (auto simp: pagefault_handler_def Let_def remedy_def)
  then show ?thesis using c(3) le lim fn by (auto simp: not_le)
qed

definition stack_state :: fault_state where
  "stack_state = \<lparr>fs_stats = \<lparr>total_faults = 0, cow_faults = 0, demand_paging = 0, stack_expands = 0, protection_faults = 0, kernel_faults = 0\<rparr>,
     fs_proc = demo_process, fs_mach = demo_machine\<rparr>"

theorem stack_grows_within_limit_witness:
  "fp_stack_base (fs_proc (snd (pagefault_handler 140737488351000 6 stack_state))) = fp_stack_base (fs_proc stack_state) \<or>
     fst (pagefault_handler 140737488351000 6 stack_state) = Resumed \<and>
     fp_stack_base (fs_proc (snd (pagefault_handler 140737488351000 6 stack_state))) = 140737488351000 AND NOT 4095 \<and>
     140737488351000 < fp_stack_base (fs_proc stack_state) \<and>
     unat (140737488351000 :: u64) \<le> 140737488355327 \<and> 140737488355327 - unat (140737488351000 :: u64) \<le> 8388608 \<and>
     (\<exists>p ps. mx_free (fs_mach stack_state) = p # ps \<and>
        pte_of (mx_cr3 (fs_mach (snd (pagefault_handler 140737488351000 6 stack_state)))) (mx_pm (fs_mach (snd (pagefault_handler 140737488351000 6 stack_state))))
          (140737488351000 AND NOT 4095) = Some (p OR 7))"
proof (rule stack_grows_within_limit)
  show "mach_ok (fs_mach stack_state)" using demo_machine_ok by (simp add: stack_state_def)
qed simp

end
