(* ===== verification/CNum.thy ===== *)
theory CNum
  imports CStringProps
begin

text \<open>
  Numbers and text: \<open>kernel/lib/libc/stdlib.c\<close> reads numbers, \<open>vsprintf.c\<close> prints them. An \<open>int\<close> has 32 bits and a \<open>long\<close>
  64. The result \<open>None\<close> is a call without a defined result: the end of the string is missing, a signed number overflows, or an
  argument of another type is taken.
\<close>

section \<open>Reading\<close>

text \<open>The values of a signed type of \<open>k\<close> bits.\<close>

definition fits :: "nat \<Rightarrow> int \<Rightarrow> bool" where
  "fits k x \<longleftrightarrow> - (2 ^ (k - 1)) \<le> x \<and> x < 2 ^ (k - 1)"

definition abs_int :: "nat \<Rightarrow> int \<Rightarrow> int option" where
  "abs_int k n = (if n < 0 then if fits k (- n) then Some (- n) else None else Some n)"

definition is_space :: "u8 \<Rightarrow> bool" where
  "is_space c \<longleftrightarrow> c = 32 \<or> c = 9 \<or> c = 10 \<or> c = 13 \<or> c = 12 \<or> c = 11"

partial_function (option) skip_spaces :: "mem \<Rightarrow> nat \<Rightarrow> nat option" where
  "skip_spaces m s = (if is_space (m s) then skip_spaces m (s + 1) else Some s)"

definition read_sign :: "mem \<Rightarrow> nat \<Rightarrow> int \<times> nat" where
  "read_sign m s = (if m s = 45 then (- 1, s + 1) else if m s = 43 then (1, s + 1) else (1, s))"

partial_function (option) decimal_loop :: "nat \<Rightarrow> mem \<Rightarrow> nat \<Rightarrow> int \<Rightarrow> int option" where
  "decimal_loop k m s r =
     (if m s \<ge> 48 \<and> m s \<le> 57
      then let r' = r * 10 + (uint (m s) - 48) in if fits k r' then decimal_loop k m (s + 1) r' else None
      else Some r)"

definition read_decimal :: "nat \<Rightarrow> nat option \<Rightarrow> mem \<Rightarrow> int option" where
  "read_decimal k str m =
     (case str of None \<Rightarrow> Some 0
      | Some p \<Rightarrow> Option.bind (skip_spaces m p) (\<lambda>s.
          case read_sign m s of (sign, s1) \<Rightarrow> map_option (\<lambda>r. sign * r) (decimal_loop k m s1 0)))"

definition atoi :: "nat option \<Rightarrow> mem \<Rightarrow> int option" where
  "atoi = read_decimal 32"

definition atol :: "nat option \<Rightarrow> mem \<Rightarrow> int option" where
  "atol = read_decimal 64"

definition atoll :: "nat option \<Rightarrow> mem \<Rightarrow> int option" where
  "atoll = read_decimal 64"

definition digit_of :: "u8 \<Rightarrow> int" where
  "digit_of c =
     (if c \<ge> 48 \<and> c \<le> 57 then uint c - 48
      else if c \<ge> 97 \<and> c \<le> 122 then uint c - 97 + 10
      else if c \<ge> 65 \<and> c \<le> 90 then uint c - 65 + 10 else - 1)"

text \<open>The base and the position after its prefix.\<close>

definition read_prefix :: "mem \<Rightarrow> nat \<Rightarrow> int \<Rightarrow> int \<times> nat" where
  "read_prefix m s base =
     (if (base = 0 \<or> base = 16) \<and> m s = 48 \<and> (m (s + 1) = 120 \<or> m (s + 1) = 88) then (16, s + 2)
      else if base = 0 \<and> m s = 48 then (8, s + 1)
      else if base = 0 then (10, s) else (base, s))"

partial_function (option) strtol_loop :: "mem \<Rightarrow> int \<Rightarrow> nat \<Rightarrow> int \<Rightarrow> bool \<Rightarrow> (int \<times> bool \<times> nat) option" where
  "strtol_loop m base s r valid =
     (let digit = digit_of (m s)
      in if digit < 0 \<or> digit \<ge> base then Some (r, valid, s)
         else let r' = r * base + digit in if fits 64 r' then strtol_loop m base (s + 1) r' True else None)"

text \<open>The result, and the pointer that is stored for the caller who asks for it.\<close>

definition strtol :: "nat option \<Rightarrow> int \<Rightarrow> mem \<Rightarrow> (int \<times> nat option) option" where
  "strtol str base m =
     (case str of None \<Rightarrow> Some (0, None)
      | Some p \<Rightarrow> Option.bind (skip_spaces m p) (\<lambda>s.
          case read_sign m s of (sign, s1) \<Rightarrow>
          case read_prefix m s1 base of (b, s2) \<Rightarrow>
          map_option (\<lambda>(r, valid, e). (sign * r, Some (if valid then e else p))) (strtol_loop m b s2 0 False)))"

partial_function (option) strtoul_loop :: "mem \<Rightarrow> int \<Rightarrow> nat \<Rightarrow> u64 \<Rightarrow> bool \<Rightarrow> (u64 \<times> bool \<times> nat) option" where
  "strtoul_loop m base s r valid =
     (let digit = digit_of (m s)
      in if digit < 0 \<or> digit \<ge> base then Some (r, valid, s)
         else strtoul_loop m base (s + 1) (r * of_int base + of_int digit) True)"

definition strtoul :: "nat option \<Rightarrow> int \<Rightarrow> mem \<Rightarrow> (u64 \<times> nat option) option" where
  "strtoul str base m =
     (case str of None \<Rightarrow> Some (0, None)
      | Some p \<Rightarrow> Option.bind (skip_spaces m p) (\<lambda>s.
          case read_sign m s of (sign, s1) \<Rightarrow>
          case read_prefix m s1 base of (b, s2) \<Rightarrow>
          map_option (\<lambda>(r, valid, e). (if sign > 0 then r else - r, Some (if valid then e else p))) (strtoul_loop m b s2 0 False)))"

definition strtoull :: "nat option \<Rightarrow> int \<Rightarrow> mem \<Rightarrow> (u64 \<times> nat option) option" where
  "strtoull str base m =
     (case str of None \<Rightarrow> Some (0, None)
      | Some p \<Rightarrow> Option.bind (skip_spaces m p) (\<lambda>s.
          case read_sign m s of (sign, s1) \<Rightarrow>
          case read_prefix m s1 base of (b, s2) \<Rightarrow>
          map_option (\<lambda>(r, valid, e). (if sign > 0 then r else - r, Some (if valid then e else p))) (strtoul_loop m b s2 0 False)))"

section \<open>Random numbers\<close>

definition rand :: "u32 \<Rightarrow> int \<times> u32" where
  "rand rand_seed = (let s = rand_seed * 1103515245 + 12345 in (uint (s AND 32767), s))"

definition srand :: "u32 \<Rightarrow> u32 \<Rightarrow> u32" where
  "srand seed rand_seed = seed"

section \<open>Printing\<close>

datatype va_arg = VInt int | VUInt u32 | VStr nat

text \<open>Decimal digits, the last one first, as in the buffer of the code.\<close>

fun dec_digits :: "nat \<Rightarrow> u8 list" where
  "dec_digits n = of_nat (48 + n mod 10) # (if n div 10 > 0 then dec_digits (n div 10) else [])"

declare dec_digits.simps [simp del]

text \<open>
  The statement for a hexadecimal digit increments the index and uses it again, in an order that C leaves open; \<open>incr\<close> tells
  whether the increment comes first. The case of a letter depends on what stands there in the format.
\<close>

fun hex_digits :: "bool \<Rightarrow> mem \<Rightarrow> nat \<Rightarrow> nat \<Rightarrow> nat \<Rightarrow> u8 list" where
  "hex_digits incr m f i n =
     (let d = n mod 16
      in (if d < 10 then of_nat (48 + d) else if m (f + (if incr then i + 1 else i)) = 88 then of_nat (65 + d - 10) else of_nat (97 + d - 10)) #
         (if n div 16 > 0 then hex_digits incr m f (i + 1) (n div 16) else []))"

declare hex_digits.simps [simp del]

definition put_bytes :: "nat \<Rightarrow> u8 list \<Rightarrow> mem \<Rightarrow> mem" where
  "put_bytes a bs m = fold (\<lambda>i m. m(a + i := bs ! i)) [0..<length bs] m"

partial_function (option) put_string :: "nat \<Rightarrow> nat \<Rightarrow> nat \<Rightarrow> mem \<Rightarrow> (nat \<times> mem) option" where
  "put_string str n s m = (if m s \<noteq> 0 then put_string str (n + 1) (s + 1) (m(str + n := m s)) else Some (n, m))"

text \<open>One conversion; \<open>f\<close> is the address of its letter and \<open>n\<close> the number of characters written so far.\<close>

definition print_conversion :: "bool \<Rightarrow> nat \<Rightarrow> nat \<Rightarrow> nat \<Rightarrow> va_arg list \<Rightarrow> mem \<Rightarrow> (nat \<times> va_arg list \<times> mem) option" where
  "print_conversion incr str f n args m =
     (if m f = 115
      then case args of VStr s # as \<Rightarrow> map_option (\<lambda>(n1, m1). (n1, as, m1)) (put_string str n s m) | _ \<Rightarrow> None
      else if m f = 100 \<or> m f = 105
      then case args of
             VInt v # as \<Rightarrow>
               if v < 0 \<and> \<not> fits 32 (- v) then None
               else let bs = (if v < 0 then [45] else []) @ rev (dec_digits (nat \<bar>v\<bar>))
                    in Some (n + length bs, as, put_bytes (str + n) bs m)
           | _ \<Rightarrow> None
      else if m f = 120 \<or> m f = 88
      then case args of
             VUInt v # as \<Rightarrow> let bs = rev (hex_digits incr m f 0 (unat v)) in Some (n + length bs, as, put_bytes (str + n) bs m)
           | _ \<Rightarrow> None
      else if m f = 99
      then case args of VInt v # as \<Rightarrow> Some (n + 1, as, m(str + n := of_int v)) | _ \<Rightarrow> None
      else if m f = 37 then Some (n + 1, args, m(str + n := 37))
      else Some (n, args, m))"

partial_function (option) vsprintf_loop :: "bool \<Rightarrow> nat \<Rightarrow> nat \<Rightarrow> nat \<Rightarrow> va_arg list \<Rightarrow> mem \<Rightarrow> (nat \<times> mem) option" where
  "vsprintf_loop incr str f n args m =
     (if m f = 0 then Some (n, m(str + n := 0))
      else if m f = 37
      then Option.bind (print_conversion incr str (f + 1) n args m) (\<lambda>(n1, as, m1). vsprintf_loop incr str (f + 2) n1 as m1)
      else vsprintf_loop incr str (f + 1) (n + 1) args (m(str + n := m f)))"

definition vsprintf :: "bool \<Rightarrow> nat \<Rightarrow> nat \<Rightarrow> va_arg list \<Rightarrow> mem \<Rightarrow> (nat \<times> mem) option" where
  "vsprintf incr str f args m = vsprintf_loop incr str f 0 args m"

definition vsnprintf :: "bool \<Rightarrow> nat \<Rightarrow> nat \<Rightarrow> nat \<Rightarrow> va_arg list \<Rightarrow> mem \<Rightarrow> (nat \<times> mem) option" where
  "vsnprintf incr str sz f args m = vsprintf incr str f args m"

end
