(* ===== verification/CNumProps.thy ===== *)
theory CNumProps
  imports CNum
begin

text \<open>
  What \<open>strtol\<close> and \<open>atoi\<close> read is the value of the numeral, and they read back what \<open>vsprintf\<close> has printed.
\<close>

section \<open>Reading a numeral\<close>

definition numeral_value :: "int \<Rightarrow> u8 list \<Rightarrow> int" where
  "numeral_value b ds = foldl (\<lambda>r d. r * b + digit_of d) 0 ds"

lemma foldl_grows:
  assumes "0 \<le> r" and "1 \<le> b" and "\<forall>d\<in>set ds. 0 \<le> digit_of d"
  shows "r \<le> foldl (\<lambda>r d. r * b + digit_of d) r ds"
  using assms(1,3)
proof (induction ds arbitrary: r)
  case (Cons d ds)
  have "r * 1 \<le> r * b" using Cons.prems(1) assms(2) by (intro mult_left_mono) simp_all
  then have "r \<le> r * b + digit_of d" "0 \<le> r * b + digit_of d" using Cons.prems by auto
  then show ?case using Cons.IH [of "r * b + digit_of d"] Cons.prems(2) by simp
qed simp

lemma fits_mono: "0 \<le> x \<Longrightarrow> x \<le> y \<Longrightarrow> fits k y \<Longrightarrow> fits k x"
proof -
  assume h: "0 \<le> x" "x \<le> y" "fits k y"
  have "(0 :: int) \<le> 2 ^ (k - 1)" by simp
  then have "- (2 ^ (k - 1)) \<le> x" using h(1) by linarith
  then show "fits k x" using h(2,3) unfolding fits_def by linarith
qed

lemma strtol_loop_value:
  assumes "cstr m s ds" and "1 \<le> b" and "\<forall>d\<in>set ds. 0 \<le> digit_of d \<and> digit_of d < b" and "0 \<le> r"
    and "fits 64 (foldl (\<lambda>r d. r * b + digit_of d) r ds)"
  shows "strtol_loop m b s r valid = Some (foldl (\<lambda>r d. r * b + digit_of d) r ds, valid \<or> ds \<noteq> [], s + length ds)"
  using assms(1,3-5)
proof (induction ds arbitrary: s r valid)
  case Nil
  then have "m s = 0" by simp
  then show ?case by (simp add: strtol_loop.simps digit_of_def)
next
  case (Cons d ds)
  define r' where "r' = r * b + digit_of d"
  have d: "m s = d" "cstr m (s + 1) ds" using Cons.prems(1) by simp_all
  have dg: "0 \<le> digit_of d" "digit_of d < b" using Cons.prems(2) by simp_all
  have r: "0 \<le> r'" unfolding r'_def using Cons.prems(3) assms(2) dg by simp
  have f: "fits 64 (foldl (\<lambda>r d. r * b + digit_of d) r' ds)" using Cons.prems(4) by (simp add: r'_def)
  have "fits 64 r'" by (rule fits_mono [OF r foldl_grows [OF r assms(2)] f]) (use Cons.prems(2) in auto)
  then show ?case using Cons.IH [OF d(2) _ r f, of True] Cons.prems(2) d dg by (simp add: strtol_loop.simps [of m b s r valid] r'_def)
qed

lemma decimal_loop_value:
  assumes "cstr m s ds" and "\<forall>d\<in>set ds. 48 \<le> d \<and> d \<le> 57" and "0 \<le> r" and "fits k (foldl (\<lambda>r d. r * 10 + digit_of d) r ds)"
  shows "decimal_loop k m s r = Some (foldl (\<lambda>r d. r * 10 + digit_of d) r ds)"
  using assms
proof (induction ds arbitrary: s r)
  case Nil
  then have "m s = 0" by simp
  then show ?case by (simp add: decimal_loop.simps)
next
  case (Cons d ds)
  define r' where "r' = r * 10 + digit_of d"
  have d: "m s = d" "cstr m (s + 1) ds" using Cons.prems(1) by simp_all
  have dg: "48 \<le> d" "d \<le> 57" using Cons.prems(2) by simp_all
  then have dv: "digit_of d = uint d - 48" "0 \<le> digit_of d" by (simp_all add: digit_of_def word_le_def)
  have r: "0 \<le> r'" unfolding r'_def using Cons.prems(3) dv by simp
  have f: "fits k (foldl (\<lambda>r d. r * 10 + digit_of d) r' ds)" using Cons.prems(4) by (simp add: r'_def)
  have "\<forall>d\<in>set ds. 0 \<le> digit_of d" using Cons.prems(2) by (auto simp: digit_of_def word_le_def)
  then have "fits k r'" using fits_mono [OF r foldl_grows [OF r _, of 10 ds] f] by simp
  then show ?case using Cons.IH [OF d(2) _ r f] Cons.prems(2) d dg dv(1) by (simp add: decimal_loop.simps [of k m s r] r'_def)
qed

lemma skip_all_spaces:
  assumes "\<forall>c\<in>set sp. is_space c" and "cstr m p (sp @ rest)" and "rest = [] \<or> \<not> is_space (hd rest)"
  shows "skip_spaces m p = Some (p + length sp)"
  using assms
proof (induction sp arbitrary: p)
  case Nil
  then have "\<not> is_space (m p)" by (cases rest) (auto simp: is_space_def)
  then show ?case by (simp add: skip_spaces.simps)
next
  case (Cons c sp)
  then show ?case by (simp add: skip_spaces.simps [of m p])
qed


definition sign_of :: "u8 list \<Rightarrow> int" where
  "sign_of sg = (if sg = [45] then - 1 else 1)"

lemma cstr_append: "cstr m p (xs @ ys) \<Longrightarrow> cstr m (p + length xs) ys"
  using cstr_drop [of m p "xs @ ys" "length xs"] by simp

lemma digit_not_space: "0 \<le> digit_of d \<Longrightarrow> \<not> is_space d \<and> d \<noteq> 43 \<and> d \<noteq> 45"
  by (auto simp: is_space_def digit_of_def)

lemma sign_read:
  assumes "cstr m s (sg @ ds)" and "sg = [] \<or> sg = [45] \<or> sg = [43]" and "ds \<noteq> []" and "\<forall>d\<in>set ds. 0 \<le> digit_of d"
  shows "read_sign m s = (sign_of sg, s + length sg)"
proof -
  obtain d ds' where d: "ds = d # ds'" using assms(3) by (cases ds) auto
  then have "d \<noteq> 43 \<and> d \<noteq> 45" using digit_not_space assms(4) by auto
  then show ?thesis using assms(1,2) d by (auto simp: read_sign_def sign_of_def)
qed

lemma no_prefix:
  assumes "cstr m s ds" and "\<forall>d\<in>set ds. 0 \<le> digit_of d \<and> digit_of d < b" and "ds \<noteq> []" and "b \<noteq> 0"
  shows "read_prefix m s b = (b, s)"
proof -
  have "\<not> (b = 16 \<and> m s = 48 \<and> (m (s + 1) = 120 \<or> m (s + 1) = 88))"
  proof
    assume h: "b = 16 \<and> m s = 48 \<and> (m (s + 1) = 120 \<or> m (s + 1) = 88)"
    obtain d ds' where d: "ds = d # ds'" using assms(3) by (cases ds) auto
    show False
    proof (cases ds')
      case Nil
      then have "m (s + 1) = 0" using assms(1) d by simp
      then show False using h by auto
    next
      case (Cons d' ds'')
      then have "m (s + 1) = d'" "digit_of d' < 16" using assms(1,2) d h by auto
      then show False using h by (auto simp: digit_of_def)
    qed
  qed
  then show ?thesis using assms(4) by (auto simp: read_prefix_def)
qed

text \<open>
  \<open>strtol\<close> returns the value of a numeral in any base from 2 to 36, after spaces and with a sign, and stores the address behind
  the last digit, as long as the value fits into a \<open>long\<close>.
\<close>

theorem strtol_reads_numeral:
  assumes "cstr m p (sp @ sg @ ds)" and "\<forall>c\<in>set sp. is_space c" and "sg = [] \<or> sg = [45] \<or> sg = [43]" and "ds \<noteq> []"
    and "2 \<le> b" and "\<forall>d\<in>set ds. 0 \<le> digit_of d \<and> digit_of d < b" and "fits 64 (numeral_value b ds)"
  shows "strtol (Some p) b m = Some (sign_of sg * numeral_value b ds, Some (p + length sp + length sg + length ds))"
proof -
  have "\<not> is_space (hd (sg @ ds))"
    using assms(3,4,6) digit_not_space [of "hd ds"] by (cases sg) (auto simp: is_space_def)
  then have sk: "skip_spaces m p = Some (p + length sp)" using skip_all_spaces [OF assms(2,1)] by simp
  have c1: "cstr m (p + length sp) (sg @ ds)" by (rule cstr_append [OF assms(1)])
  have c2: "cstr m (p + length sp + length sg) ds" by (rule cstr_append [OF c1])
  have rs: "read_sign m (p + length sp) = (sign_of sg, p + length sp + length sg)" using sign_read [OF c1 assms(3,4)] assms(6) by blast
  have rp: "read_prefix m (p + length sp + length sg) b = (b, p + length sp + length sg)" using no_prefix [OF c2 assms(6,4)] assms(5) by simp
  have "strtol_loop m b (p + length sp + length sg) 0 False = Some (numeral_value b ds, True, p + length sp + length sg + length ds)"
    using strtol_loop_value [OF c2 _ assms(6), of 0 False] assms(4,5,7) by (simp add: numeral_value_def)
  then show ?thesis using sk rs rp by (simp add: strtol_def)
qed

theorem strtol_reads_numeral_witness:
  "strtol (Some 0) 16 (mem_of_list [32, 45, 49, 97, 0]) = Some (sign_of [45] * numeral_value 16 [49, 97], Some (0 + length [32 :: u8] + length [45 :: u8] + length [49, 97 :: u8]))"
  by (rule strtol_reads_numeral) (simp_all add: mem_of_list_def is_space_def digit_of_def numeral_value_def fits_def)

lemma atoi_value:
  assumes "cstr m p (sg @ ds)" and "sg = [] \<or> sg = [45]" and "ds \<noteq> []" and "\<forall>d\<in>set ds. 48 \<le> d \<and> d \<le> 57" and "fits 32 (numeral_value 10 ds)"
  shows "atoi (Some p) m = Some (sign_of sg * numeral_value 10 ds)"
proof -
  have dg: "\<forall>d\<in>set ds. 0 \<le> digit_of d" using assms(4) by (auto simp: digit_of_def word_le_def)
  have "\<not> is_space (hd (sg @ ds))" using assms(2,3) dg digit_not_space [of "hd ds"] by (cases sg) (auto simp: is_space_def)
  then have sk: "skip_spaces m p = Some p" using skip_all_spaces [of "[]" m p "sg @ ds"] assms(1) by simp
  have rs: "read_sign m p = (sign_of sg, p + length sg)" using sign_read [OF assms(1) _ assms(3) dg] assms(2) by blast
  have "decimal_loop 32 m (p + length sg) 0 = Some (numeral_value 10 ds)"
    using decimal_loop_value [OF cstr_append [OF assms(1)] assms(4), of 0 32] assms(5) by (simp add: numeral_value_def)
  then show ?thesis using sk rs by (simp add: atoi_def read_decimal_def)
qed

section \<open>Printing\<close>

lemma put_bytes_frame: "x < a \<or> a + length bs \<le> x \<Longrightarrow> put_bytes a bs m x = m x"
proof -
  have "x < a \<or> a + n \<le> x \<Longrightarrow> fold (\<lambda>i m. m(a + i := bs ! i)) [0..<n] m x = m x" for n
    by (induction n) auto
  then show "x < a \<or> a + length bs \<le> x \<Longrightarrow> put_bytes a bs m x = m x" unfolding put_bytes_def .
qed

lemma put_bytes_nth: "i < length bs \<Longrightarrow> put_bytes a bs m (a + i) = bs ! i"
proof -
  have "i < n \<Longrightarrow> fold (\<lambda>i m. m(a + i := bs ! i)) [0..<n] m (a + i) = bs ! i" for n
    by (induction n) (auto simp: less_Suc_eq)
  then show "i < length bs \<Longrightarrow> put_bytes a bs m (a + i) = bs ! i" unfolding put_bytes_def .
qed

lemma cstr_iff: "cstr m a xs \<longleftrightarrow> 0 \<notin> set xs \<and> (\<forall>i<length xs. m (a + i) = xs ! i) \<and> m (a + length xs) = 0"
proof (induction xs arbitrary: a)
  case (Cons x xs)
  have "(\<forall>i<length (x # xs). m (a + i) = (x # xs) ! i) \<longleftrightarrow> m a = x \<and> (\<forall>i<length xs. m (Suc a + i) = xs ! i)"
    by (auto simp: less_Suc_eq_0_disj)
  then show ?case using Cons.IH [of "Suc a"] by auto
qed simp

lemma cstr_put: "0 \<notin> set bs \<Longrightarrow> cstr ((put_bytes a bs m)(a + length bs := 0)) a bs"
  unfolding cstr_iff by (auto simp: put_bytes_nth)

lemma digit_char: "d < 10 \<Longrightarrow> digit_of (of_nat (48 + d)) = int d \<and> 48 \<le> (of_nat (48 + d) :: u8) \<and> (of_nat (48 + d) :: u8) \<le> 57 \<and> (of_nat (48 + d) :: u8) \<noteq> 0"
proof -
  assume d: "d < 10"
  define c where "c = (of_nat (48 + d) :: u8)"
  have n: "unat c = 48 + d" unfolding c_def using d by (simp add: unat_of_nat del: of_nat_add)
  then have u: "uint c = 48 + int d" by (simp add: uint_nat)
  have "48 \<le> c \<and> c \<le> 57 \<and> c \<noteq> 0" using n d by (auto simp: word_le_nat_alt)
  then show ?thesis using u unfolding c_def [symmetric] by (simp add: digit_of_def)
qed

lemma dec_digits_value: "numeral_value 10 (rev (dec_digits n)) = int n"
proof (induction n rule: dec_digits.induct)
  case (1 n)
  have d: "digit_of (of_nat (48 + n mod 10)) = int (n mod 10)" using digit_char [of "n mod 10"] by simp
  have "numeral_value 10 (rev (if n div 10 > 0 then dec_digits (n div 10) else [])) = int (n div 10)"
    using 1 by (auto simp: numeral_value_def)
  then show ?case using d by (simp add: dec_digits.simps [of n] numeral_value_def zdiv_int zmod_int)
qed

lemma dec_digits_chars: "\<forall>d\<in>set (dec_digits n). 48 \<le> d \<and> d \<le> 57 \<and> 0 \<le> digit_of d \<and> digit_of d < 10 \<and> d \<noteq> 0"
proof (induction n rule: dec_digits.induct)
  case (1 n)
  then show ?case using digit_char [of "n mod 10"] by (auto simp: dec_digits.simps [of n] split: if_splits)
qed

lemma dec_digits_length: "n < 10 ^ k \<Longrightarrow> 0 < k \<Longrightarrow> length (dec_digits n) \<le> k"
proof (induction k arbitrary: n)
  case (Suc k)
  show ?case
  proof (cases "n div 10 > 0")
    case True
    then have "10 \<le> n" by (simp add: div_greater_zero_iff)
    then have k: "0 < k" using Suc.prems(1) by (cases k) auto
    have "n div 10 < 10 ^ k" using Suc.prems(1) by (simp add: less_mult_imp_div_less mult.commute)
    then show ?thesis using Suc.IH [OF _ k] by (simp add: dec_digits.simps [of n])
  qed (simp add: dec_digits.simps [of n])
qed simp

lemma dec_digits_nonempty: "dec_digits n \<noteq> []"
  by (simp add: dec_digits.simps [of n])

text \<open>
  C37. Numbers survive the way through text: \<open>vsprintf\<close> prints every \<open>int\<close> but the least as at most eleven characters, writes nothing
  else, and \<open>atoi\<close> and \<open>strtol\<close> read the same number back.
\<close>

theorem print_read_roundtrip:
  assumes "- (2 ^ 31) < v" and "v < 2 ^ 31" and "m f = 37" and "m (f + 1) = 100" and "m (f + 2) = 0" and "str + 12 \<le> f \<or> f + 2 < str"
  shows "\<exists>n m'. vsprintf incr str f [VInt v] m = Some (n, m') \<and> 1 \<le> n \<and> n \<le> 11 \<and> (\<forall>x. x < str \<or> str + n < x \<longrightarrow> m' x = m x) \<and>
     atoi (Some str) m' = Some v \<and> strtol (Some str) 10 m' = Some (v, Some (str + n))"
proof -
  define sg where "sg = (if v < 0 then [45 :: u8] else [])"
  define ds where "ds = rev (dec_digits (nat \<bar>v\<bar>))"
  define bs where "bs = sg @ ds"
  define m' where "m' = (put_bytes str bs m)(str + length bs := 0)"
  have ok: "\<not> (v < 0 \<and> \<not> fits 32 (- v))" using assms(1,2) by (simp add: fits_def)
  have pc: "print_conversion incr str (f + 1) 0 [VInt v] m = Some (length bs, [], put_bytes str bs m)"
    using ok assms(4) by (simp add: print_conversion_def bs_def sg_def ds_def Let_def)
  have "nat \<bar>v\<bar> < 10 ^ 10" using assms(1,2) by simp
  then have "length ds \<le> 10" unfolding ds_def using dec_digits_length [of _ 10] by simp
  then have ln: "1 \<le> length bs" "length bs \<le> 11" using dec_digits_nonempty [of "nat \<bar>v\<bar>"]
    by (auto simp: bs_def sg_def ds_def Suc_le_eq)
  have "f + 2 < str \<or> str + length bs \<le> f + 2" using assms(6) ln by linarith
  then have "put_bytes str bs m (f + 2) = 0" using put_bytes_frame [of "f + 2" str bs m] assms(5) by simp
  then have v: "vsprintf incr str f [VInt v] m = Some (length bs, m')"
    using pc assms(3) by (simp add: vsprintf_def vsprintf_loop.simps [of incr str f] vsprintf_loop.simps [of incr str "Suc (Suc f)"] m'_def)
  have ch: "\<forall>d\<in>set ds. 48 \<le> d \<and> d \<le> 57 \<and> 0 \<le> digit_of d \<and> digit_of d < 10 \<and> d \<noteq> 0" using dec_digits_chars unfolding ds_def by simp
  have "0 \<notin> set bs" using ch by (auto simp: bs_def sg_def)
  then have cs: "cstr m' str (sg @ ds)" using cstr_put [of bs str m] unfolding m'_def bs_def by simp
  have val: "numeral_value 10 ds = \<bar>v\<bar>" unfolding ds_def by (simp add: dec_digits_value)
  have sv: "sign_of sg * \<bar>v\<bar> = v" by (simp add: sign_of_def sg_def)
  have ne: "ds \<noteq> []" using dec_digits_nonempty by (simp add: ds_def)
  have s: "sg = [] \<or> sg = [45]" by (simp add: sg_def)
  have "fits 32 \<bar>v\<bar>" "fits 64 \<bar>v\<bar>" using assms(1,2) by (auto simp: fits_def)
  note f = this [folded val]
  have "atoi (Some str) m' = Some v" using atoi_value [OF cs s ne _ f(1)] ch unfolding val sv by simp
  moreover have "strtol (Some str) 10 m' = Some (v, Some (str + length bs))"
    using strtol_reads_numeral [of m' str "[]" sg ds 10] cs s ne ch f(2) unfolding val sv by (auto simp: bs_def add.assoc)
  moreover have "m' x = m x" if "x < str \<or> str + length bs < x" for x
    using that put_bytes_frame [of x str bs m] by (auto simp: m'_def)
  ultimately show ?thesis using v ln by (intro exI [of _ "length bs"] exI [of _ m']) simp
qed

theorem print_read_roundtrip_witness:
  "\<exists>n m'. vsprintf True 8 0 [VInt (- 1234)] (mem_of_list [37, 100, 0]) = Some (n, m') \<and> 1 \<le> n \<and> n \<le> 11 \<and>
     (\<forall>x. x < 8 \<or> 8 + n < x \<longrightarrow> m' x = mem_of_list [37, 100, 0] x) \<and>
     atoi (Some 8) m' = Some (- 1234) \<and> strtol (Some 8) 10 m' = Some (- 1234, Some (8 + n))"
  by (rule print_read_roundtrip) (simp_all add: mem_of_list_def)

end
