(* ===== verification/CMalloc.thy ===== *)
theory CMalloc
  imports MmapRuns
begin

text \<open>
  The heap of the C library, \<open>malloc\<close> and its companions in \<open>kernel/lib/libc/stdlib.c\<close>, on top of \<open>mmap_do_mmap\<close> and
  \<open>mmap_do_munmap\<close>: every block is an area of its own, and a table of 256 entries keeps the sizes. The bytes of a block live in the
  physical pages that the page tables name.
\<close>

section \<open>State\<close>

abbreviation (input) ALLOC_TABLE_MAX :: nat where "ALLOC_TABLE_MAX \<equiv> 256"

record alloc_entry =
  ae_addr :: u64
  ae_size :: u64
  ae_active :: bool

type_synonym alloc_table = "nat \<Rightarrow> alloc_entry"

record libc_heap =
  lh_ctx :: mmap_context
  lh_mmap_inited :: bool
  lh_table :: alloc_table
  lh_table_inited :: bool

text \<open>The static data as it is loaded.\<close>

definition libc_static :: libc_heap where
  "libc_static = \<lparr>lh_ctx = \<lparr>mc_areas = (\<lambda>_. area_zero), mc_count = 0\<rparr>, lh_mmap_inited = False,
     lh_table = (\<lambda>_. \<lparr>ae_addr = 0, ae_size = 0, ae_active = False\<rparr>), lh_table_inited = False\<rparr>"

definition libc_mmap_init :: "libc_heap \<Rightarrow> libc_heap" where
  "libc_mmap_init s = (if \<not> lh_mmap_inited s then s\<lparr>lh_ctx := mmap_context_init (lh_ctx s), lh_mmap_inited := True\<rparr> else s)"

definition alloc_table_init :: "libc_heap \<Rightarrow> libc_heap" where
  "alloc_table_init s =
     (if \<not> lh_table_inited s
      then s\<lparr>lh_table := fold (\<lambda>i t. t(i := (t i)\<lparr>ae_active := False\<rparr>)) [0..<ALLOC_TABLE_MAX] (lh_table s), lh_table_inited := True\<rparr>
      else s)"

definition alloc_table_insert :: "u64 \<Rightarrow> u64 \<Rightarrow> alloc_table \<Rightarrow> alloc_table option" where
  "alloc_table_insert addr len t =
     map_option (\<lambda>i. t(i := \<lparr>ae_addr = addr, ae_size = len, ae_active = True\<rparr>)) (first_index (\<lambda>i. \<not> ae_active (t i)) ALLOC_TABLE_MAX)"

definition alloc_table_find :: "u64 \<Rightarrow> alloc_table \<Rightarrow> nat option" where
  "alloc_table_find addr t = first_index (\<lambda>i. ae_active (t i) \<and> ae_addr (t i) = addr) ALLOC_TABLE_MAX"

definition alloc_table_remove :: "nat \<Rightarrow> alloc_table \<Rightarrow> alloc_table" where
  "alloc_table_remove i t = t(i := \<lparr>ae_addr = 0, ae_size = 0, ae_active = False\<rparr>)"

section \<open>Blocks\<close>

text \<open>The result \<open>None\<close> outside is a call that does not return, inside it is \<open>NULL\<close>.\<close>

definition malloc :: "u64 \<Rightarrow> libc_heap \<Rightarrow> machine \<Rightarrow> (u64 option \<times> libc_heap \<times> machine) option" where
  "malloc sz s x =
     (if sz = 0 then Some (None, s, x)
      else let s1 = libc_mmap_init (alloc_table_init s)
      in Option.bind (mmap_do_mmap 0 sz 3 MAP_ANONYMOUS 0 (lh_ctx s1) x) (\<lambda>(addr, c, x1).
           if addr = - 1 \<or> addr = 0 then Some (None, s1\<lparr>lh_ctx := c\<rparr>, x1)
           else case alloc_table_insert addr sz (lh_table s1) of
                  None \<Rightarrow> map_option (\<lambda>(_, c1, x2). (None, s1\<lparr>lh_ctx := c1\<rparr>, x2)) (mmap_do_munmap addr sz c x1)
                | Some t \<Rightarrow> Some (Some addr, s1\<lparr>lh_ctx := c, lh_table := t\<rparr>, x1)))"

definition free :: "u64 option \<Rightarrow> libc_heap \<Rightarrow> machine \<Rightarrow> (libc_heap \<times> machine) option" where
  "free ptr s x =
     (case ptr of
        None \<Rightarrow> Some (s, x)
      | Some p \<Rightarrow>
          let s1 = alloc_table_init s
          in case alloc_table_find p (lh_table s1) of
               None \<Rightarrow> Some (s1, x)
             | Some i \<Rightarrow>
                 let sz = ae_size (lh_table s1 i); s2 = libc_mmap_init (s1\<lparr>lh_table := alloc_table_remove i (lh_table s1)\<rparr>)
                 in map_option (\<lambda>(_, c, x1). (s2\<lparr>lh_ctx := c\<rparr>, x1)) (mmap_do_munmap p sz (lh_ctx s2) x))"

text \<open>The bytes behind a virtual address; an access without a page is left out.\<close>

definition read_virtual :: "u64 \<Rightarrow> machine \<Rightarrow> u8" where
  "read_virtual v x = (let p = physical v x in mx_ram x (PAGE_ALIGN_DOWN p) (unat (p AND 4095)))"

definition write_virtual :: "u64 \<Rightarrow> u8 \<Rightarrow> machine \<Rightarrow> machine" where
  "write_virtual v b x =
     (let p = physical v x
      in if p = 0 then x
         else x\<lparr>mx_ram := (mx_ram x)(PAGE_ALIGN_DOWN p := (mx_ram x (PAGE_ALIGN_DOWN p))(unat (p AND 4095) := b))\<rparr>)"

definition calloc :: "u64 \<Rightarrow> u64 \<Rightarrow> libc_heap \<Rightarrow> machine \<Rightarrow> (u64 option \<times> libc_heap \<times> machine) option" where
  "calloc num sz s x =
     map_option (\<lambda>(ptr, s1, x1).
       (ptr, s1, case ptr of None \<Rightarrow> x1 | Some p \<Rightarrow> fold (\<lambda>i. write_virtual (p + of_nat i) 0) [0..<unat (num * sz)] x1))
       (malloc (num * sz) s x)"

definition realloc :: "u64 option \<Rightarrow> u64 \<Rightarrow> libc_heap \<Rightarrow> machine \<Rightarrow> (u64 option \<times> libc_heap \<times> machine) option" where
  "realloc ptr sz s x =
     (case ptr of
        None \<Rightarrow> malloc sz s x
      | Some p \<Rightarrow>
          if sz = 0 then map_option (\<lambda>(s1, x1). (None, s1, x1)) (free (Some p) s x)
          else case alloc_table_find p (lh_table s) of
                 None \<Rightarrow> Some (None, s, x)
               | Some i \<Rightarrow>
                   let old_size = ae_size (lh_table s i)
                   in Option.bind (malloc sz s x) (\<lambda>(new_ptr, s1, x1).
                        case new_ptr of
                          None \<Rightarrow> Some (None, s1, x1)
                        | Some q \<Rightarrow>
                            let n = (if old_size < sz then old_size else sz);
                                x2 = fold (\<lambda>i x. write_virtual (q + of_nat i) (read_virtual (p + of_nat i) x) x) [0..<unat n] x1
                            in map_option (\<lambda>(s2, x3). (Some q, s2, x3)) (free (Some p) s1 x2)))"

section \<open>Exit functions\<close>

abbreviation (input) ATEXIT_MAX :: nat where "ATEXIT_MAX \<equiv> 32"

text \<open>The registered functions in the order of their registration.\<close>

definition atexit :: "'f option \<Rightarrow> 'f list \<Rightarrow> int \<times> 'f list" where
  "atexit func fs =
     (case func of None \<Rightarrow> (- 1, fs)
      | Some f \<Rightarrow> if length fs \<ge> ATEXIT_MAX then (- 1, fs) else (0, fs @ [f]))"

text \<open>The functions that \<open>exit\<close> calls, one after the other; what they do is the parameter \<open>call\<close>.\<close>

definition exit_calls :: "('f \<Rightarrow> 's \<Rightarrow> 's) \<Rightarrow> 'f list \<Rightarrow> 's \<Rightarrow> 's" where
  "exit_calls call fs s = fold (\<lambda>i. call (fs ! i)) (rev [0..<length fs]) s"

section \<open>Areas and blocks\<close>

definition area_set :: "areas \<Rightarrow> (u64 \<times> u64) set" where
  "area_set as = {(ma_start (as i), ma_length (as i)) |i. i < 256 \<and> ma_active (as i)}"

definition block_set :: "alloc_table \<Rightarrow> (u64 \<times> u64) set" where
  "block_set t = {(ae_addr (t i), ae_size (t i)) |i. i < 256 \<and> ae_active (t i)}"

lemma area_set_add:
  "i < 256 \<Longrightarrow> \<not> ma_active (as i) \<Longrightarrow> area_set (as(i := b)) = (if ma_active b then insert (ma_start b, ma_length b) (area_set as) else area_set as)"
  unfolding area_set_def by (auto split: if_splits)

lemma area_set_mapped: "mapped as = (\<Union>(a, n)\<in>area_set as. {unat a ..< unat a + unat n})"
  unfolding mapped_def area_set_def span_def lo_def hi_def by (auto split: if_splits)

text \<open>Two active areas with the same address are one.\<close>

lemma area_same_start:
  assumes "ctx_ok c" and "i < 256" "ma_active (mc_areas c i)" and "j < 256" "ma_active (mc_areas c j)" and "ma_start (mc_areas c i) = ma_start (mc_areas c j)"
  shows "i = j"
proof (rule ccontr)
  assume "i \<noteq> j"
  moreover have ok: "areas_ok (mc_areas c)" using assms(1) unfolding ctx_ok_def by blast
  ultimately have "span (mc_areas c i) \<inter> span (mc_areas c j) = {}" using spans_disjoint assms(2,4) by blast
  moreover have "unat (ma_start (mc_areas c i)) \<in> span (mc_areas c i) \<inter> span (mc_areas c j)"
    using wf_of [OF ok assms(2,3)] wf_of [OF ok assms(4,5)] assms(3,5,6) by (simp add: span_def area_wf_def lo_def)
  ultimately show False by blast
qed

lemma values_without:
  assumes "\<And>i. P i \<Longrightarrow> i \<noteq> k \<Longrightarrow> f i \<noteq> f k"
  shows "{f i |i. P i \<and> i \<noteq> k} = {f i |i. P i} - {f k}"
proof (rule set_eqI)
  fix y
  have "(\<exists>i. y = f i \<and> P i \<and> i \<noteq> k) \<longleftrightarrow> (\<exists>i. y = f i \<and> P i) \<and> y \<noteq> f k" using assms by metis
  then show "y \<in> {f i |i. P i \<and> i \<noteq> k} \<longleftrightarrow> y \<in> {f i |i. P i} - {f k}" by simp
qed

lemma area_set_remove:
  assumes "ctx_ok c" and "k < 256" and "ma_active (mc_areas c k)"
  shows "area_set ((mc_areas c)(k := area_zero)) = area_set (mc_areas c) - {(ma_start (mc_areas c k), ma_length (mc_areas c k))}"
proof -
  have "i = k" if "i < 256" "ma_active (mc_areas c i)" "ma_start (mc_areas c i) = ma_start (mc_areas c k)" for i
    using area_same_start [OF assms(1) that(1,2) assms(2,3) that(3)] .
  then have other: "(ma_start (mc_areas c i), ma_length (mc_areas c i)) \<noteq> (ma_start (mc_areas c k), ma_length (mc_areas c k))"
    if "i < 256" "ma_active (mc_areas c i)" "i \<noteq> k" for i
    using that by blast
  have "area_set ((mc_areas c)(k := area_zero)) = {(ma_start (mc_areas c i), ma_length (mc_areas c i)) |i. i < 256 \<and> ma_active (mc_areas c i) \<and> i \<noteq> k}"
    unfolding area_set_def by (auto simp: area_zero_def split: if_splits)
  also have "\<dots> = {(ma_start (mc_areas c i), ma_length (mc_areas c i)) |i. i < 256 \<and> ma_active (mc_areas c i)} - {(ma_start (mc_areas c k), ma_length (mc_areas c k))}"
    using values_without [of "\<lambda>i. i < 256 \<and> ma_active (mc_areas c i)" k "\<lambda>i. (ma_start (mc_areas c i), ma_length (mc_areas c i))"] other assms(2,3)
    by (simp add: conj_assoc)
  finally show ?thesis unfolding area_set_def .
qed

text \<open>A whole area is unmapped.\<close>

lemma munmap_area:
  assumes ok: "ctx_ok c" and x: "mach_ok x" and k: "k < 256" "ma_active (mc_areas c k)" and m: "ma_start (mc_areas c k) = a" "ma_length (mc_areas c k) = PAGE_ALIGN_UP n"
    and n: "0 < unat n"
  shows "\<exists>c' x'. mmap_do_munmap a n c x = Some (0, c', x') \<and> ctx_ok c' \<and> mach_ok x' \<and> area_set (mc_areas c') = area_set (mc_areas c) - {(a, PAGE_ALIGN_UP n)}"
proof -
  define L where "L = PAGE_ALIGN_UP n"
  have aok: "areas_ok (mc_areas c)" using ok unfolding ctx_ok_def by blast
  have w: "area_wf (mc_areas c k)" by (rule wf_of [OF aok k])
  have lh: "lo (mc_areas c k) = unat a" "hi (mc_areas c k) = unat a + unat L" using m by (simp_all add: lo_def hi_def L_def)
  have nw: "unat a + unat L < 2 ^ 64" "4096 dvd unat a" "4096 dvd unat L" "0 < unat L"
  proof -
    have d: "4096 dvd unat a" "4096 dvd unat a + unat L" "unat a < unat a + unat L" "unat a + unat L < 2 ^ 64"
      using w unfolding area_wf_def lh by blast+
    show "4096 dvd unat L" using d(2) unfolding dvd_add_right_iff [OF d(1)] .
    show "unat a + unat L < 2 ^ 64" "4096 dvd unat a" "0 < unat L" using d by simp_all
  qed
  have e: "area_end (mc_areas c k) = a + L" using m by (simp add: area_end_def L_def)
  have covers: "mmap_find_covering_area a L (mc_areas c) = Some k"
  proof -
    have "overlaps a L (mc_areas c k)" using overlaps_iff [OF w nw(1)] k lh nw(4) by simp
    moreover have "\<not> overlaps a L (mc_areas c i)" if i: "i < 256" "i \<noteq> k" for i
    proof
      assume o: "overlaps a L (mc_areas c i)"
      then have act: "ma_active (mc_areas c i)" by (simp add: overlaps_def)
      have "apart (mc_areas c i) (mc_areas c k)" using aok i k act unfolding areas_ok_def by blast
      moreover have "unat a < hi (mc_areas c i)" "lo (mc_areas c i) < unat a + unat L" using o overlaps_iff [OF wf_of [OF aok i(1) act] nw(1)] by blast+
      ultimately show False using lh unfolding apart_def by linarith
    qed
    ultimately show ?thesis unfolding mmap_find_covering_area_def using k(1) by (intro first_index_SomeI) auto
  qed
  define c1 where "c1 = (set_area k (\<lambda>_. area_zero) c)\<lparr>mc_count := mc_count c - 1\<rparr>"
  have cut: "cut_area k a (a + L) c = c1" using m e by (simp add: cut_area_def Let_def c1_def)
  have al: "unat (a + L) = unat a + unat L" using nw(1) by (simp add: unat_word_ariths)
  have dv: "4096 dvd unat (a + L)" unfolding al using nw(2,3) by simp
  note ca = cut_area_ok [OF ok k, of a "a + L", unfolded cut lh al, OF _ _ _ nw(2) dv [unfolded al]]
  have c1: "ctx_ok c1" "mapped (mc_areas c1) = mapped (mc_areas c) - {unat a ..< unat a + unat L}"
    using ca(1,4) nw(4) by simp_all
  have none: "mmap_find_covering_area a L (mc_areas c1) = None"
  proof -
    have "areas_ok (mc_areas c1)" using c1(1) unfolding ctx_ok_def by blast
    from no_overlap [OF this nw(1,4)] show ?thesis unfolding mmap_find_covering_area_def c1(2) by blast
  qed
  define x1 where "x1 = fold unmap_page (pages_between (PAGE_ALIGN_DOWN a) (PAGE_ALIGN_UP (a + L))) x"
  have "munmap_loop a L False c x = Some (True, c1, x1)"
    using covers none cut m e by (simp add: munmap_loop.simps [of a L False c x] munmap_loop.simps [of a L True c1] Let_def x1_def L_def [symmetric])
  moreover have "n \<noteq> 0" using n by auto
  ultimately have "mmap_do_munmap a n c x = Some (0, c1, x1)" by (simp add: mmap_do_munmap_def L_def)
  moreover have "mach_ok x1" unfolding x1_def by (rule unmap_fold(1) [OF x])
  moreover have "area_set (mc_areas c1) = area_set (mc_areas c) - {(a, L)}"
    using area_set_remove [OF ok k] m by (simp add: c1_def L_def)
  ultimately show ?thesis using c1(1) unfolding L_def by blast
qed

text \<open>An anonymous area at an address that the search chooses.\<close>

lemma mmap_anonymous:
  assumes ok: "ctx_ok c" and x: "mach_ok x"
  shows "\<exists>p c' x'. mmap_do_mmap 0 n 3 32 0 c x = Some (p, c', x') \<and> ctx_ok c' \<and> mach_ok x' \<and>
     (p = - 1 \<and> area_set (mc_areas c') = area_set (mc_areas c) \<or>
      p \<noteq> - 1 \<and> p \<noteq> 0 \<and> 0 < unat n \<and> unat n + 4095 < 2 ^ 64 \<and> area_set (mc_areas c') = insert (p, PAGE_ALIGN_UP n) (area_set (mc_areas c)) \<and>
      mapped (mc_areas c) \<inter> range_of p n = {})"
proof (cases "mmap_args_ok 0 n 3 32 0")
  case False
  then have "mmap_do_mmap 0 n 3 32 0 c x = Some (- 1, c, x)" by (simp add: mmap_do_mmap_def)
  then show ?thesis using ok x by auto
next
  case True
  then have nb: "n \<noteq> 0" "\<not> n > 1099511627776" by (simp_all add: mmap_args_ok_def)
  have np: "0 < unat n" using nb(1) by (simp add: unat_gt_0)
  have "unat n \<le> 1099511627776" using nb(2) by (simp add: not_less word_le_nat_alt)
  then have nl: "unat n + 4095 < 2 ^ 64" by simp
  then have r: "range_ok 0 n" by (simp add: range_ok_def)
  note ra = range_aligned [OF r]
  obtain v where v: "choose_addr 0 (PAGE_ALIGN_UP n) 32 c x = Some (v, c, x)"
    "\<And>a. v = Some a \<Longrightarrow> 4096 dvd unat a \<and> unat a + unat (PAGE_ALIGN_UP n) < 2 ^ 64 \<and> mapped (mc_areas c) \<inter> range_of a n = {}"
    using choose_facts [OF ok x r np nb(2), of 32] by (auto simp: wants_fixed_def)
  have v0: "v \<noteq> Some 0" using v(1) by (auto simp: choose_addr_def Let_def split: if_splits)
  have st: "mmap_do_mmap 0 n 3 32 0 c x = Some (case v of None \<Rightarrow> (- 1, c, x)
      | Some a \<Rightarrow> (case mmap_alloc_slot (mc_areas c) of None \<Rightarrow> (- 1, c, x)
          | Some i \<Rightarrow> install_area i a (PAGE_ALIGN_UP n) 3 32 0 c x))"
    using True v(1) by (simp add: mmap_do_mmap_def)
  consider (fail) "mmap_do_mmap 0 n 3 32 0 c x = Some (- 1, c, x)"
    | (inst) a i where "v = Some a" "mmap_alloc_slot (mc_areas c) = Some i"
        "mmap_do_mmap 0 n 3 32 0 c x = Some (install_area i a (PAGE_ALIGN_UP n) 3 32 0 c x)"
    using st by (auto split: option.splits)
  then show ?thesis
  proof cases
    case fail
    then show ?thesis using ok x by auto
  next
    case (inst a i)
    obtain p c' x' where g: "install_area i a (PAGE_ALIGN_UP n) 3 32 0 c x = (p, c', x')" by (cases "install_area i a (PAGE_ALIGN_UP n) 3 32 0 c x") auto
    have d: "mmap_do_mmap 0 n 3 32 0 c x = Some (p, c', x')" using inst(3) g by simp
    note va = v(2) [OF inst(1)]
    note sf = slot_free [OF inst(2)]
    have al: "4096 dvd unat a" "unat a + unat (PAGE_ALIGN_UP n) < 2 ^ 64" "mapped (mc_areas c) \<inter> {unat a ..< unat a + unat (PAGE_ALIGN_UP n)} = {}"
      using va by (simp_all add: range_of_def)
    have f: "ctx_ok c' \<and> mach_ok x'" using install_facts [OF ok x inst(2) al(1) ra(2) ra(4) [OF np] al(2,3) g] by blast
    have an: "a \<noteq> - 1"
    proof
      assume "a = - 1"
      then show False using page_offset [of "- 1"] al(1) by simp
    qed
    have a0: "a \<noteq> 0" using v0 inst(1) by auto
    from x g show ?thesis
    proof (cases rule: install_cases)
      case (ok b)
      have "area_set (mc_areas c') = insert (p, PAGE_ALIGN_UP n) (area_set (mc_areas c))"
        using area_set_add [of i "mc_areas c" b] sf ok by simp
      then show ?thesis using d f ok(1) an a0 np nl va by auto
    next
      case (failed b)
      have "area_set (mc_areas c') = area_set (mc_areas c)" using area_set_add [of i "mc_areas c" b] sf failed by simp
      then show ?thesis using d f failed(1) by auto
    qed
  qed
qed

section \<open>The table of blocks\<close>

lemma init_table:
  assumes "\<not> lh_table_inited s \<longrightarrow> (\<forall>i<256. \<not> ae_active (lh_table s i))"
  shows "block_set (lh_table (alloc_table_init s)) = block_set (lh_table s)" and "lh_table_inited (alloc_table_init s)"
    and "lh_ctx (alloc_table_init s) = lh_ctx s" and "lh_mmap_inited (alloc_table_init s) = lh_mmap_inited s"
    and "\<And>i. i < 256 \<Longrightarrow> ae_active (lh_table (alloc_table_init s) i) = ae_active (lh_table s i) \<and> ae_addr (lh_table (alloc_table_init s) i) = ae_addr (lh_table s i)"
proof -
  have f: "fold (\<lambda>i t. t(i := (t i)\<lparr>ae_active := False\<rparr>)) [0..<n] t = (\<lambda>i. if i < n then (t i)\<lparr>ae_active := False\<rparr> else t i)" for n and t :: alloc_table
    by (induction n) (auto simp: fun_eq_iff less_Suc_eq)
  show "lh_table_inited (alloc_table_init s)" "lh_ctx (alloc_table_init s) = lh_ctx s" "lh_mmap_inited (alloc_table_init s) = lh_mmap_inited s"
    by (simp_all add: alloc_table_init_def)
  have t: "lh_table (alloc_table_init s) i = lh_table s i \<or> \<not> ae_active (lh_table (alloc_table_init s) i) \<and> \<not> ae_active (lh_table s i) \<and>
      ae_addr (lh_table (alloc_table_init s) i) = ae_addr (lh_table s i)" if "i < 256" for i
    using assms that by (auto simp: alloc_table_init_def f)
  then show "\<And>i. i < 256 \<Longrightarrow> ae_active (lh_table (alloc_table_init s) i) = ae_active (lh_table s i) \<and> ae_addr (lh_table (alloc_table_init s) i) = ae_addr (lh_table s i)"
    by metis
  show "block_set (lh_table (alloc_table_init s)) = block_set (lh_table s)" unfolding block_set_def using t by (intro Collect_cong) metis
qed

text \<open>Different blocks have different addresses.\<close>

definition distinct_addrs :: "alloc_table \<Rightarrow> bool" where
  "distinct_addrs t \<longleftrightarrow> (\<forall>i<256. \<forall>j<256. ae_active (t i) \<and> ae_active (t j) \<and> ae_addr (t i) = ae_addr (t j) \<longrightarrow> i = j)"

definition pages_of :: "u64 \<times> u64 \<Rightarrow> u64 \<times> u64" where
  "pages_of b = (fst b, PAGE_ALIGN_UP (snd b))"

text \<open>Every block is an area, and every area is a block.\<close>

definition heap_ok :: "libc_heap \<Rightarrow> bool" where
  "heap_ok s \<longleftrightarrow> ctx_ok (lh_ctx s) \<and> distinct_addrs (lh_table s) \<and> area_set (mc_areas (lh_ctx s)) = pages_of ` block_set (lh_table s) \<and>
     (\<forall>(a, n)\<in>block_set (lh_table s). 0 < unat n \<and> unat n + 4095 < 2 ^ 64) \<and>
     (\<not> lh_table_inited s \<longrightarrow> (\<forall>i<256. \<not> ae_active (lh_table s i))) \<and> (\<not> lh_mmap_inited s \<longrightarrow> area_set (mc_areas (lh_ctx s)) = {})"

lemma static_ok: "heap_ok libc_static"
proof -
  have "ctx_ok (lh_ctx libc_static)" by (rule no_areas_ok) (simp_all add: libc_static_def area_zero_def)
  then show ?thesis by (auto simp: heap_ok_def libc_static_def distinct_addrs_def area_set_def block_set_def area_zero_def)
qed

lemma inits_ok:
  assumes "heap_ok s"
  shows "heap_ok (alloc_table_init s)" and "heap_ok (libc_mmap_init s)"
proof -
  have h: "\<not> lh_table_inited s \<longrightarrow> (\<forall>i<256. \<not> ae_active (lh_table s i))" using assms unfolding heap_ok_def by blast
  have "distinct_addrs (lh_table (alloc_table_init s)) = distinct_addrs (lh_table s)"
    unfolding distinct_addrs_def using init_table(5) [OF h] by metis
  moreover have "lh_table_inited (alloc_table_init s)" by (simp add: alloc_table_init_def)
  ultimately show "heap_ok (alloc_table_init s)" using assms unfolding heap_ok_def init_table(1,3,4) [OF h] by auto
  show "heap_ok (libc_mmap_init s)"
  proof (cases "lh_mmap_inited s")
    case False
    have "area_set (mc_areas (mmap_context_init c)) = {}" for c by (simp add: mmap_context_init_def area_set_def area_zero_def)
    then show ?thesis using assms False init_ok(1) unfolding heap_ok_def libc_mmap_init_def by auto
  qed (simp add: libc_mmap_init_def assms)
qed

lemma inits_done [simp]: "lh_table_inited (libc_mmap_init (alloc_table_init s))" "lh_mmap_inited (libc_mmap_init s)"
  by (simp_all add: libc_mmap_init_def alloc_table_init_def)

lemma block_add:
  assumes "i < 256" and "\<not> ae_active (t i)"
  shows "block_set (t(i := \<lparr>ae_addr = a, ae_size = n, ae_active = True\<rparr>)) = insert (a, n) (block_set t)"
  unfolding block_set_def using assms by auto

lemma block_remove:
  assumes "distinct_addrs t" and "i < 256" and "ae_active (t i)"
  shows "block_set (alloc_table_remove i t) = block_set t - {(ae_addr (t i), ae_size (t i))}" and "distinct_addrs (alloc_table_remove i t)"
proof -
  have other: "(ae_addr (t j), ae_size (t j)) \<noteq> (ae_addr (t i), ae_size (t i))" if "j < 256 \<and> ae_active (t j)" "j \<noteq> i" for j
    using assms that unfolding distinct_addrs_def by blast
  have "block_set (alloc_table_remove i t) = {(ae_addr (t j), ae_size (t j)) |j. (j < 256 \<and> ae_active (t j)) \<and> j \<noteq> i}"
    unfolding block_set_def alloc_table_remove_def by (auto split: if_splits)
  also have "\<dots> = block_set t - {(ae_addr (t i), ae_size (t i))}"
    unfolding block_set_def by (rule values_without) (rule other)
  finally show "block_set (alloc_table_remove i t) = block_set t - {(ae_addr (t i), ae_size (t i))}" .
  show "distinct_addrs (alloc_table_remove i t)" using assms(1) unfolding distinct_addrs_def alloc_table_remove_def by auto
qed

lemma pages_inj:
  assumes "distinct_addrs t"
  shows "inj_on pages_of (block_set t)"
proof (rule inj_onI)
  fix b c assume b: "b \<in> block_set t" and c: "c \<in> block_set t" and "pages_of b = pages_of c"
  then have e: "fst b = fst c" by (simp add: pages_of_def)
  obtain i where i: "i < 256" "ae_active (t i)" "b = (ae_addr (t i), ae_size (t i))" using b unfolding block_set_def by blast
  obtain j where j: "j < 256" "ae_active (t j)" "c = (ae_addr (t j), ae_size (t j))" using c unfolding block_set_def by blast
  have "i = j" using assms i(1,2) j(1,2) e unfolding i(3) j(3) distinct_addrs_def by simp
  then show "b = c" using i(3) j(3) by simp
qed

section \<open>Every call keeps the heap in order\<close>

lemma malloc_ok:
  assumes ok: "heap_ok s" and x: "mach_ok x"
  shows "\<exists>r s' x'. malloc n s x = Some (r, s', x') \<and> heap_ok s' \<and> mach_ok x' \<and>
     (case r of None \<Rightarrow> block_set (lh_table s') = block_set (lh_table s)
      | Some p \<Rightarrow> block_set (lh_table s') = insert (p, n) (block_set (lh_table s)) \<and> mapped (mc_areas (lh_ctx s)) \<inter> range_of p n = {})"
proof (cases "n = 0")
  case True
  then show ?thesis using ok x by (simp add: malloc_def)
next
  case False
  define s1 where "s1 = libc_mmap_init (alloc_table_init s)"
  have ok1: "heap_ok s1" unfolding s1_def by (rule inits_ok(2) [OF inits_ok(1) [OF ok]])
  have in1: "lh_table_inited s1" "lh_mmap_inited s1" unfolding s1_def by simp_all
  have h: "\<not> lh_table_inited s \<longrightarrow> (\<forall>i<256. \<not> ae_active (lh_table s i))" using ok unfolding heap_ok_def by blast
  have bs: "block_set (lh_table s1) = block_set (lh_table s)" unfolding s1_def libc_mmap_init_def using init_table(1) [OF h] by simp
  have same: "mapped (mc_areas (lh_ctx s1)) = mapped (mc_areas (lh_ctx s))"
  proof -
    have "area_set (mc_areas (lh_ctx s1)) = area_set (mc_areas (lh_ctx s))" using ok1 ok bs unfolding heap_ok_def by simp
    then show ?thesis by (simp add: area_set_mapped)
  qed
  have c1: "ctx_ok (lh_ctx s1)" "distinct_addrs (lh_table s1)" "area_set (mc_areas (lh_ctx s1)) = pages_of ` block_set (lh_table s1)"
    "\<forall>(a, n)\<in>block_set (lh_table s1). 0 < unat n \<and> unat n + 4095 < 2 ^ 64"
    using ok1 unfolding heap_ok_def by blast+
  obtain p c' x' where m: "mmap_do_mmap 0 n 3 32 0 (lh_ctx s1) x = Some (p, c', x')" "ctx_ok c'" "mach_ok x'"
    "p = - 1 \<and> area_set (mc_areas c') = area_set (mc_areas (lh_ctx s1)) \<or>
      p \<noteq> - 1 \<and> p \<noteq> 0 \<and> 0 < unat n \<and> unat n + 4095 < 2 ^ 64 \<and> area_set (mc_areas c') = insert (p, PAGE_ALIGN_UP n) (area_set (mc_areas (lh_ctx s1))) \<and>
      mapped (mc_areas (lh_ctx s1)) \<inter> range_of p n = {}"
    using mmap_anonymous [OF c1(1) x, of n] by blast
  have keep: "heap_ok (s1\<lparr>lh_ctx := c\<rparr>)" if "ctx_ok c" "area_set (mc_areas c) = area_set (mc_areas (lh_ctx s1))" for c
    using that ok1 in1 unfolding heap_ok_def by simp
  from m(4) show ?thesis
  proof (elim disjE conjE)
    assume p: "p = - 1" "area_set (mc_areas c') = area_set (mc_areas (lh_ctx s1))"
    then have "malloc n s x = Some (None, s1\<lparr>lh_ctx := c'\<rparr>, x')" using m(1) False by (simp add: malloc_def s1_def [symmetric] Let_def)
    then show ?thesis using keep [OF m(2) p(2)] m(3) bs by simp
  next
    assume p: "p \<noteq> - 1" "p \<noteq> 0" "0 < unat n" "unat n + 4095 < 2 ^ 64" "area_set (mc_areas c') = insert (p, PAGE_ALIGN_UP n) (area_set (mc_areas (lh_ctx s1)))"
      "mapped (mc_areas (lh_ctx s1)) \<inter> range_of p n = {}"
    have L: "0 < unat (PAGE_ALIGN_UP n)" using align_up_bounds(2) [OF p(4)] p(3) by linarith
    have new: "(p, k) \<notin> area_set (mc_areas (lh_ctx s1))" if "0 < unat k" for k
    proof
      assume "(p, k) \<in> area_set (mc_areas (lh_ctx s1))"
      then have "unat p \<in> mapped (mc_areas (lh_ctx s1))" using that unfolding area_set_mapped by fastforce
      moreover have "unat p \<in> range_of p n" using L by (simp add: range_of_def)
      ultimately show False using p(6) by blast
    qed
    have newt: "ae_addr (lh_table s1 i) \<noteq> p" if i: "i < 256" "ae_active (lh_table s1 i)" for i
    proof
      assume a: "ae_addr (lh_table s1 i) = p"
      have b: "(p, ae_size (lh_table s1 i)) \<in> block_set (lh_table s1)" using i a unfolding block_set_def by blast
      then have "(p, PAGE_ALIGN_UP (ae_size (lh_table s1 i))) \<in> area_set (mc_areas (lh_ctx s1))" unfolding c1(3) by (force simp: pages_of_def)
      moreover have "0 < unat (PAGE_ALIGN_UP (ae_size (lh_table s1 i)))"
      proof -
        have "0 < unat (ae_size (lh_table s1 i))" "unat (ae_size (lh_table s1 i)) + 4095 < 2 ^ 64" using c1(4) b by blast+
        then show ?thesis using align_up_bounds(2) [of "ae_size (lh_table s1 i)"] by linarith
      qed
      ultimately show False using new by blast
    qed
    show ?thesis
    proof (cases "first_index (\<lambda>i. \<not> ae_active (lh_table s1 i)) 256")
      case None
      then have ti: "alloc_table_insert p n (lh_table s1) = None" by (simp add: alloc_table_insert_def)
      have "(p, PAGE_ALIGN_UP n) \<in> area_set (mc_areas c')" using p(5) by blast
      then obtain k where k: "k < 256" "ma_active (mc_areas c' k)" "ma_start (mc_areas c' k) = p" "ma_length (mc_areas c' k) = PAGE_ALIGN_UP n"
        unfolding area_set_def by auto
      obtain c2 x2 where u: "mmap_do_munmap p n c' x' = Some (0, c2, x2)" "ctx_ok c2" "mach_ok x2"
        "area_set (mc_areas c2) = area_set (mc_areas c') - {(p, PAGE_ALIGN_UP n)}"
        using munmap_area [OF m(2,3) k p(3)] by blast
      have "area_set (mc_areas c2) = area_set (mc_areas (lh_ctx s1))" unfolding u(4) p(5) using new [OF L] by blast
      then have "heap_ok (s1\<lparr>lh_ctx := c2\<rparr>)" by (rule keep [OF u(2)])
      moreover have "malloc n s x = Some (None, s1\<lparr>lh_ctx := c2\<rparr>, x2)" using m(1) False p(1,2) ti u(1) by (simp add: malloc_def s1_def [symmetric] Let_def)
      ultimately show ?thesis using u(3) bs by simp
    next
      case (Some i)
      note i = first_index_SomeD [OF Some]
      define t where "t = (lh_table s1)(i := \<lparr>ae_addr = p, ae_size = n, ae_active = True\<rparr>)"
      have ti: "alloc_table_insert p n (lh_table s1) = Some t" using Some by (simp add: alloc_table_insert_def t_def)
      have bt: "block_set t = insert (p, n) (block_set (lh_table s1))" unfolding t_def using i(1,2) by (rule block_add)
      have "distinct_addrs t" using c1(2) newt unfolding distinct_addrs_def t_def by auto
      moreover have "area_set (mc_areas c') = pages_of ` block_set t" unfolding bt p(5) c1(3) by (simp add: pages_of_def)
      moreover have "\<forall>(a, n)\<in>block_set t. 0 < unat n \<and> unat n + 4095 < 2 ^ 64" unfolding bt using c1(4) p(3,4) by blast
      ultimately have "heap_ok (s1\<lparr>lh_ctx := c', lh_table := t\<rparr>)" using m(2) in1 unfolding heap_ok_def by simp
      moreover have "malloc n s x = Some (Some p, s1\<lparr>lh_ctx := c', lh_table := t\<rparr>, x')"
        using m(1) False p(1,2) ti by (simp add: malloc_def s1_def [symmetric] Let_def)
      ultimately show ?thesis using m(3) bs bt p(6) same by simp
    qed
  qed
qed

lemma free_ok:
  assumes ok: "heap_ok s" and x: "mach_ok x"
  shows "\<exists>s' x'. free ptr s x = Some (s', x') \<and> heap_ok s' \<and> mach_ok x' \<and>
     block_set (lh_table s') = {b \<in> block_set (lh_table s). ptr \<noteq> Some (fst b)}"
proof (cases ptr)
  case None
  then show ?thesis using ok x by (simp add: free_def)
next
  case (Some p)
  define s1 where "s1 = alloc_table_init s"
  have ok1: "heap_ok s1" unfolding s1_def by (rule inits_ok(1) [OF ok])
  have h: "\<not> lh_table_inited s \<longrightarrow> (\<forall>i<256. \<not> ae_active (lh_table s i))" using ok unfolding heap_ok_def by blast
  have bs: "block_set (lh_table s1) = block_set (lh_table s)" and in1: "lh_table_inited s1" unfolding s1_def using init_table(1,2) [OF h] by simp_all
  show ?thesis
  proof (cases "alloc_table_find p (lh_table s1)")
    case None
    then have "\<forall>i<256. \<not> (ae_active (lh_table s1 i) \<and> ae_addr (lh_table s1 i) = p)" by (simp add: alloc_table_find_def first_index_None)
    then have "\<forall>b\<in>block_set (lh_table s1). fst b \<noteq> p" unfolding block_set_def by auto
    then have "{b \<in> block_set (lh_table s). ptr \<noteq> Some (fst b)} = block_set (lh_table s1)" unfolding bs Some by auto
    moreover have "free ptr s x = Some (s1, x)" using None Some by (simp add: free_def s1_def Let_def)
    ultimately show ?thesis using ok1 x by simp
  next
    case (Some i)
    note fi = first_index_SomeD [OF Some [unfolded alloc_table_find_def]]
    define n where "n = ae_size (lh_table s1 i)"
    define s2 where "s2 = libc_mmap_init (s1\<lparr>lh_table := alloc_table_remove i (lh_table s1)\<rparr>)"
    have bi: "(p, n) \<in> block_set (lh_table s1)" unfolding block_set_def n_def using fi(1,2) by auto
    have c1: "ctx_ok (lh_ctx s1)" "distinct_addrs (lh_table s1)" "area_set (mc_areas (lh_ctx s1)) = pages_of ` block_set (lh_table s1)"
      "\<forall>(a, n)\<in>block_set (lh_table s1). 0 < unat n \<and> unat n + 4095 < 2 ^ 64" "\<not> lh_mmap_inited s1 \<longrightarrow> area_set (mc_areas (lh_ctx s1)) = {}"
      using ok1 unfolding heap_ok_def by blast+
    have pn: "(p, PAGE_ALIGN_UP n) \<in> area_set (mc_areas (lh_ctx s1))" unfolding c1(3) using bi by (force simp: pages_of_def)
    then have mi: "lh_mmap_inited s1" using c1(5) by blast
    then have s2: "s2 = s1\<lparr>lh_table := alloc_table_remove i (lh_table s1)\<rparr>" unfolding s2_def libc_mmap_init_def by simp
    obtain k where k: "k < 256" "ma_active (mc_areas (lh_ctx s1) k)" "ma_start (mc_areas (lh_ctx s1) k) = p" "ma_length (mc_areas (lh_ctx s1) k) = PAGE_ALIGN_UP n"
      using pn unfolding area_set_def by auto
    have np: "0 < unat n" using c1(4) bi by blast
    obtain c' x' where u: "mmap_do_munmap p n (lh_ctx s1) x = Some (0, c', x')" "ctx_ok c'" "mach_ok x'"
      "area_set (mc_areas c') = area_set (mc_areas (lh_ctx s1)) - {(p, PAGE_ALIGN_UP n)}"
      using munmap_area [OF c1(1) x k np] by blast
    define t where "t = alloc_table_remove i (lh_table s1)"
    have ei: "ae_addr (lh_table s1 i) = p" "ae_active (lh_table s1 i)" using fi(2) by blast+
    note br = block_remove [OF c1(2) fi(1) ei(2), folded t_def n_def, unfolded ei(1)]
    have "pages_of ` block_set t = area_set (mc_areas c')"
    proof -
      have "{(p, n)} \<subseteq> block_set (lh_table s1)" using bi by blast
      then have "pages_of ` (block_set (lh_table s1) - {(p, n)}) = pages_of ` block_set (lh_table s1) - pages_of ` {(p, n)}"
        by (rule inj_on_image_set_diff [OF pages_inj [OF c1(2)] Diff_subset])
      then show ?thesis unfolding br(1) u(4) c1(3) by (simp add: pages_of_def)
    qed
    moreover have "\<forall>(a, n)\<in>block_set t. 0 < unat n \<and> unat n + 4095 < 2 ^ 64" unfolding br(1) using c1(4) by blast
    ultimately have hk: "heap_ok (s2\<lparr>lh_ctx := c'\<rparr>)" using u(2) br(2) in1 mi unfolding heap_ok_def s2 t_def [symmetric] by simp
    have fr: "free ptr s x = Some (s2\<lparr>lh_ctx := c'\<rparr>, x')"
      using Some \<open>ptr = Some p\<close> u(1) unfolding free_def s1_def [symmetric] Let_def n_def [symmetric] by (simp add: s2_def [symmetric] n_def [symmetric]) (simp add: s2)
    have only: "m = n" if h: "(p, m) \<in> block_set (lh_table s1)" for m
    proof -
      obtain j where j: "j < 256" "ae_active (lh_table s1 j)" "p = ae_addr (lh_table s1 j)" "m = ae_size (lh_table s1 j)" using h unfolding block_set_def by blast
      have "j = i" using c1(2) j fi(1) ei unfolding distinct_addrs_def by auto
      then show "m = n" using j(4) n_def by simp
    qed
    have "block_set t = {b \<in> block_set (lh_table s1). fst b \<noteq> p}" unfolding br(1)
    proof (rule set_eqI)
      fix b :: "u64 \<times> u64"
      obtain a m where b: "b = (a, m)" by (cases b)
      have "a = p \<Longrightarrow> b \<in> block_set (lh_table s1) \<Longrightarrow> m = n" using only b by blast
      then show "b \<in> block_set (lh_table s1) - {(p, n)} \<longleftrightarrow> b \<in> {b \<in> block_set (lh_table s1). fst b \<noteq> p}" using b by auto
    qed
    then have "block_set t = {b \<in> block_set (lh_table s). ptr \<noteq> Some (fst b)}" unfolding bs \<open>ptr = Some p\<close> by auto
    then show ?thesis using fr hk u(3) by (simp add: s2 t_def)
  qed
qed

lemma write_virtual_ok: "mach_ok x \<Longrightarrow> mach_ok (write_virtual v b x)"
  by (simp add: write_virtual_def Let_def)

lemma fold_write_ok: "mach_ok x \<Longrightarrow> mach_ok (fold (\<lambda>i x. write_virtual (a i) (b i x) x) is x)"
  by (induction "is" arbitrary: x) (simp_all add: write_virtual_ok)

lemma calloc_ok:
  assumes "heap_ok s" and "mach_ok x"
  shows "\<exists>r s' x'. calloc num sz s x = Some (r, s', x') \<and> heap_ok s' \<and> mach_ok x'"
proof -
  obtain r s' x' where m: "malloc (num * sz) s x = Some (r, s', x')" "heap_ok s'" "mach_ok x'" using malloc_ok [OF assms, of "num * sz"] by blast
  then show ?thesis using fold_write_ok [OF m(3), of "\<lambda>i. the r + of_nat i" "\<lambda>_ _. 0"] by (cases r) (auto simp: calloc_def)
qed

lemma realloc_ok:
  assumes "heap_ok s" and "mach_ok x"
  shows "\<exists>r s' x'. realloc ptr sz s x = Some (r, s', x') \<and> heap_ok s' \<and> mach_ok x'"
proof (cases ptr)
  case None
  then show ?thesis using malloc_ok [OF assms, of sz] by (auto simp: realloc_def)
next
  case (Some p)
  show ?thesis
  proof (cases "sz = 0")
    case True
    then show ?thesis using free_ok [OF assms, of ptr] Some by (auto simp: realloc_def)
  next
    case ns: False
    show ?thesis
    proof (cases "alloc_table_find p (lh_table s)")
      case None
      then show ?thesis using Some ns assms by (simp add: realloc_def)
    next
      case (Some i)
      obtain r s1 x1 where m: "malloc sz s x = Some (r, s1, x1)" "heap_ok s1" "mach_ok x1" using malloc_ok [OF assms, of sz] by blast
      show ?thesis
      proof (cases r)
        case None
        then show ?thesis using \<open>ptr = Some p\<close> ns Some m by (simp add: realloc_def Let_def)
      next
        case r: (Some q)
        define n where "n = (if ae_size (lh_table s i) < sz then ae_size (lh_table s i) else sz)"
        define x2 where "x2 = fold (\<lambda>i x. write_virtual (q + of_nat i) (read_virtual (p + of_nat i) x) x) [0..<unat n] x1"
        have x2: "mach_ok x2" unfolding x2_def by (rule fold_write_ok [OF m(3)])
        obtain s2 x3 where f: "free (Some p) s1 x2 = Some (s2, x3)" "heap_ok s2" "mach_ok x3" using free_ok [OF m(2) x2, of "Some p"] by blast
        have "realloc ptr sz s x = Some (Some q, s2, x3)"
          using \<open>ptr = Some p\<close> ns Some m(1) r f(1) by (simp add: realloc_def Let_def n_def [symmetric] x2_def [symmetric])
        then show ?thesis using f(2,3) by simp
      qed
    qed
  qed
qed

section \<open>Sequences of calls\<close>

datatype heap_call = Malloc u64 | Calloc u64 u64 | Realloc "u64 option" u64 | Free "u64 option"

definition heap_step :: "heap_call \<Rightarrow> libc_heap \<times> machine \<Rightarrow> (libc_heap \<times> machine) option" where
  "heap_step k st =
     (case st of (s, x) \<Rightarrow>
        (case k of
           Malloc n \<Rightarrow> map_option snd (malloc n s x)
         | Calloc m n \<Rightarrow> map_option snd (calloc m n s x)
         | Realloc p n \<Rightarrow> map_option snd (realloc p n s x)
         | Free p \<Rightarrow> free p s x))"

fun heap_run :: "heap_call list \<Rightarrow> libc_heap \<times> machine \<Rightarrow> (libc_heap \<times> machine) option" where
  "heap_run [] st = Some st"
| "heap_run (k # ks) st = Option.bind (heap_step k st) (heap_run ks)"

lemma heap_step_ok:
  assumes "heap_ok s" and "mach_ok x"
  shows "\<exists>s' x'. heap_step k (s, x) = Some (s', x') \<and> heap_ok s' \<and> mach_ok x'"
proof (cases k)
  case (Malloc n)
  then show ?thesis using malloc_ok [OF assms, of n] by (auto simp: heap_step_def)
next
  case (Calloc m n)
  then show ?thesis using calloc_ok [OF assms, of m n] by (auto simp: heap_step_def)
next
  case (Realloc p n)
  then show ?thesis using realloc_ok [OF assms, of p n] by (auto simp: heap_step_def)
next
  case (Free p)
  then show ?thesis using free_ok [OF assms, of p] by (auto simp: heap_step_def)
qed

lemma heap_run_ok: "heap_ok s \<Longrightarrow> mach_ok x \<Longrightarrow> \<exists>s' x'. heap_run ks (s, x) = Some (s', x') \<and> heap_ok s' \<and> mach_ok x'"
proof (induction ks arbitrary: s x)
  case (Cons k ks)
  then show ?case using heap_step_ok [OF Cons.prems, of k] by auto
qed simp

text \<open>The addresses of two blocks of a heap.\<close>

lemma blocks_apart:
  assumes ok: "heap_ok s" and b: "(a, n) \<in> block_set (lh_table s)" "(b, m) \<in> block_set (lh_table s)" "a \<noteq> b"
  shows "{unat a ..< unat a + unat n} \<inter> {unat b ..< unat b + unat m} = {}" and "{unat a ..< unat a + unat n} \<subseteq> mapped (mc_areas (lh_ctx s))"
proof -
  have as: "area_set (mc_areas (lh_ctx s)) = pages_of ` block_set (lh_table s)" "ctx_ok (lh_ctx s)"
    "\<forall>(a, n)\<in>block_set (lh_table s). 0 < unat n \<and> unat n + 4095 < 2 ^ 64" using ok unfolding heap_ok_def by blast+
  have le: "unat n \<le> unat (PAGE_ALIGN_UP n)" "unat m \<le> unat (PAGE_ALIGN_UP m)" using as(3) b align_up_bounds(2) by blast+
  have "(a, PAGE_ALIGN_UP n) \<in> area_set (mc_areas (lh_ctx s))" "(b, PAGE_ALIGN_UP m) \<in> area_set (mc_areas (lh_ctx s))"
    unfolding as(1) using b(1,2) by (force simp: pages_of_def)+
  then obtain i j where i: "i < 256" "ma_active (mc_areas (lh_ctx s) i)" "ma_start (mc_areas (lh_ctx s) i) = a" "ma_length (mc_areas (lh_ctx s) i) = PAGE_ALIGN_UP n"
    and j: "j < 256" "ma_active (mc_areas (lh_ctx s) j)" "ma_start (mc_areas (lh_ctx s) j) = b" "ma_length (mc_areas (lh_ctx s) j) = PAGE_ALIGN_UP m"
    unfolding area_set_def by auto
  have "i \<noteq> j" using b(3) i(3) j(3) by auto
  then have "span (mc_areas (lh_ctx s) i) \<inter> span (mc_areas (lh_ctx s) j) = {}" using as(2) i(1) j(1) spans_disjoint unfolding ctx_ok_def by blast
  moreover have si: "{unat a ..< unat a + unat n} \<subseteq> span (mc_areas (lh_ctx s) i)" using i le(1) by (simp add: span_def lo_def hi_def)
  moreover have "{unat b ..< unat b + unat m} \<subseteq> span (mc_areas (lh_ctx s) j)" using j le(2) by (simp add: span_def lo_def hi_def)
  ultimately show "{unat a ..< unat a + unat n} \<inter> {unat b ..< unat b + unat m} = {}" by blast
  show "{unat a ..< unat a + unat n} \<subseteq> mapped (mc_areas (lh_ctx s))" using si span_mapped [OF i(1)] by blast
qed

text \<open>
  C38. The C library's heap is sound: from its static state on, every sequence of \<open>malloc\<close>, \<open>calloc\<close>, \<open>realloc\<close> and \<open>free\<close>, with
  any arguments, on page tables that are well formed (\<open>mach_ok\<close>), returns; the blocks in the table lie in mapped memory, blocks with different entries are disjoint, and nothing
  else is mapped but the pages of the blocks.
\<close>

theorem malloc_blocks_disjoint:
  assumes "mach_ok x0"
  shows "\<exists>s x. heap_run ks (libc_static, x0) = Some (s, x) \<and>
     (\<forall>i<256. \<forall>j<256. i \<noteq> j \<and> ae_active (lh_table s i) \<and> ae_active (lh_table s j) \<longrightarrow>
        {unat (ae_addr (lh_table s i)) ..< unat (ae_addr (lh_table s i)) + unat (ae_size (lh_table s i))} \<inter>
        {unat (ae_addr (lh_table s j)) ..< unat (ae_addr (lh_table s j)) + unat (ae_size (lh_table s j))} = {}) \<and>
     mapped (mc_areas (lh_ctx s)) =
       (\<Union>i\<in>{i. i < 256 \<and> ae_active (lh_table s i)}. {unat (ae_addr (lh_table s i)) ..< unat (ae_addr (lh_table s i)) + unat (PAGE_ALIGN_UP (ae_size (lh_table s i)))})"
proof -
  obtain s x where r: "heap_run ks (libc_static, x0) = Some (s, x)" "heap_ok s" using heap_run_ok [OF static_ok assms, of ks] by blast
  define t where "t = lh_table s"
  have d: "distinct_addrs t" "area_set (mc_areas (lh_ctx s)) = pages_of ` block_set t" using r(2) unfolding heap_ok_def t_def by blast+
  have 1: "{unat (ae_addr (t i)) ..< unat (ae_addr (t i)) + unat (ae_size (t i))} \<inter> {unat (ae_addr (t j)) ..< unat (ae_addr (t j)) + unat (ae_size (t j))} = {}"
    if h: "i < 256" "j < 256" "i \<noteq> j" "ae_active (t i)" "ae_active (t j)" for i j
  proof -
    have "ae_addr (t i) \<noteq> ae_addr (t j)" using d(1) h unfolding distinct_addrs_def by blast
    moreover have "(ae_addr (t i), ae_size (t i)) \<in> block_set t" "(ae_addr (t j), ae_size (t j)) \<in> block_set t" using h unfolding block_set_def by blast+
    ultimately show ?thesis using blocks_apart(1) [OF r(2), folded t_def] by blast
  qed
  have 2: "mapped (mc_areas (lh_ctx s)) = (\<Union>i\<in>{i. i < 256 \<and> ae_active (t i)}. {unat (ae_addr (t i)) ..< unat (ae_addr (t i)) + unat (PAGE_ALIGN_UP (ae_size (t i)))})"
    unfolding area_set_mapped d(2) block_set_def pages_of_def by auto
  show ?thesis unfolding t_def [symmetric] using r(1) 1 2 by (intro exI [of _ s] exI [of _ x]) (simp add: t_def)
qed

theorem malloc_blocks_disjoint_witness:
  "\<exists>s x. heap_run [Malloc 100, Malloc 5000, Free (Some 139637976723456), Calloc 3 7] (libc_static, demo_machine) = Some (s, x) \<and>
     (\<forall>i<256. \<forall>j<256. i \<noteq> j \<and> ae_active (lh_table s i) \<and> ae_active (lh_table s j) \<longrightarrow>
        {unat (ae_addr (lh_table s i)) ..< unat (ae_addr (lh_table s i)) + unat (ae_size (lh_table s i))} \<inter>
        {unat (ae_addr (lh_table s j)) ..< unat (ae_addr (lh_table s j)) + unat (ae_size (lh_table s j))} = {}) \<and>
     mapped (mc_areas (lh_ctx s)) =
       (\<Union>i\<in>{i. i < 256 \<and> ae_active (lh_table s i)}. {unat (ae_addr (lh_table s i)) ..< unat (ae_addr (lh_table s i)) + unat (PAGE_ALIGN_UP (ae_size (lh_table s i)))})"
  by (rule malloc_blocks_disjoint [OF demo_machine_ok])

section \<open>Exit functions\<close>

lemma exit_reverse: "exit_calls call fs s = fold call (rev fs) s"
proof -
  have "map ((!) fs) (rev [0..<length fs]) = rev fs" by (simp add: rev_map [symmetric] map_nth)
  then have "fold call (rev fs) s = fold call (map ((!) fs) (rev [0..<length fs])) s" by simp
  then show ?thesis unfolding exit_calls_def by (simp add: fold_map comp_def)
qed

end
