(* ===== verification/Epoll.thy ===== *)
theory Epoll
  imports WaitQueue
begin

text \<open>
  Event polling, \<open>kernel/kernel/epoll.c\<close>: instances with a table of registered descriptors and a ring of reports, on the wait
  queues of \<open>WaitQueue\<close>. What other processes do while the caller of \<open>epoll_wait\<close> has yielded is an argument, one function on the
  state for each yield.
\<close>

section \<open>State\<close>

abbreviation (input) EPOLL_MAX_INSTANCES :: nat where "EPOLL_MAX_INSTANCES \<equiv> 128"
abbreviation (input) EPOLL_MAX_FDS :: nat where "EPOLL_MAX_FDS \<equiv> 1024"
abbreviation (input) EPOLL_MAX_EVENTS :: int where "EPOLL_MAX_EVENTS \<equiv> 64"
abbreviation (input) EPOLL_READY_QUEUE_SIZE :: nat where "EPOLL_READY_QUEUE_SIZE \<equiv> 256"
abbreviation (input) EPOLLET :: u32 where "EPOLLET \<equiv> 2147483648"

record epoll_event =
  ev_events :: u32
  ev_data :: u64

record epoll_fd =
  ef_fd :: int
  ef_event :: epoll_event
  ef_registered :: bool
  ef_ready :: bool

record epoll_ready_entry =
  re_fd :: int
  re_events :: u32
  re_data :: u64
  re_valid :: bool

record epoll_instance =
  ei_active :: bool
  ei_fd_count :: int
  ei_fds :: "nat \<Rightarrow> epoll_fd"
  ei_queue :: "nat \<Rightarrow> epoll_ready_entry"
  ei_head :: nat
  ei_tail :: nat
  ei_wait :: wait_queue_t

record epoll_manager =
  em_instances :: "nat \<Rightarrow> epoll_instance"
  em_active_count :: int

definition event_zero :: epoll_event where
  "event_zero = \<lparr>ev_events = 0, ev_data = 0\<rparr>"

definition instance_zero :: epoll_instance where
  "instance_zero = \<lparr>ei_active = False, ei_fd_count = 0,
     ei_fds = (\<lambda>_. \<lparr>ef_fd = 0, ef_event = event_zero, ef_registered = False, ef_ready = False\<rparr>),
     ei_queue = (\<lambda>_. \<lparr>re_fd = 0, re_events = 0, re_data = 0, re_valid = False\<rparr>), ei_head = 0, ei_tail = 0,
     ei_wait = \<lparr>wq_head = None, wq_tail = None\<rparr>\<rparr>"

definition epoll_init :: "epoll_manager \<Rightarrow> epoll_manager" where
  "epoll_init m = \<lparr>em_instances = (\<lambda>_. instance_zero), em_active_count = 0\<rparr>"

definition set_instance :: "nat \<Rightarrow> epoll_instance \<Rightarrow> epoll_manager \<Rightarrow> epoll_manager" where
  "set_instance i inst m = m\<lparr>em_instances := (em_instances m)(i := inst)\<rparr>"

definition set_fd :: "nat \<Rightarrow> (epoll_fd \<Rightarrow> epoll_fd) \<Rightarrow> epoll_instance \<Rightarrow> epoll_instance" where
  "set_fd j f inst = inst\<lparr>ei_fds := (ei_fds inst)(j := f (ei_fds inst j))\<rparr>"

section \<open>The ring of reports\<close>

text \<open>The mask of the code is a remainder, since the size is a power of two.\<close>

definition rq_empty :: "epoll_instance \<Rightarrow> bool" where
  "rq_empty inst \<longleftrightarrow> ei_head inst = ei_tail inst"

definition rq_full :: "epoll_instance \<Rightarrow> bool" where
  "rq_full inst \<longleftrightarrow> (ei_tail inst + 1) mod EPOLL_READY_QUEUE_SIZE = ei_head inst"

definition rq_push :: "int \<Rightarrow> u32 \<Rightarrow> u64 \<Rightarrow> epoll_instance \<Rightarrow> int \<times> epoll_instance" where
  "rq_push fd events dat inst =
     (if rq_full inst then (- 1, inst)
      else (0, inst\<lparr>ei_queue := (ei_queue inst)(ei_tail inst := \<lparr>re_fd = fd, re_events = events, re_data = dat, re_valid = True\<rparr>),
                    ei_tail := (ei_tail inst + 1) mod EPOLL_READY_QUEUE_SIZE\<rparr>))"

definition rq_pop :: "epoll_instance \<Rightarrow> epoll_event option \<times> epoll_instance" where
  "rq_pop inst =
     (if rq_empty inst then (None, inst)
      else let e = ei_queue inst (ei_head inst)
      in (Some \<lparr>ev_events = re_events e, ev_data = re_data e\<rparr>,
          inst\<lparr>ei_queue := (ei_queue inst)(ei_head inst := e\<lparr>re_valid := False\<rparr>),
               ei_head := (ei_head inst + 1) mod EPOLL_READY_QUEUE_SIZE\<rparr>))"

section \<open>Instances\<close>

definition epoll_alloc_instance :: "epoll_manager \<Rightarrow> int \<times> epoll_manager" where
  "epoll_alloc_instance m =
     (if em_active_count m \<ge> int EPOLL_MAX_INSTANCES then (- 1, m)
      else case first_index (\<lambda>i. \<not> ei_active (em_instances m i)) EPOLL_MAX_INSTANCES of
             None \<Rightarrow> (- 1, m)
           | Some i \<Rightarrow> (int i, (set_instance i (instance_zero\<lparr>ei_active := True, ei_wait := wait_queue_init\<rparr>) m)\<lparr>em_active_count := em_active_count m + 1\<rparr>))"

definition epoll_get_instance :: "int \<Rightarrow> epoll_manager \<Rightarrow> nat option" where
  "epoll_get_instance epfd m =
     (if epfd < 0 \<or> epfd \<ge> int EPOLL_MAX_INSTANCES then None
      else if \<not> ei_active (em_instances m (nat epfd)) then None else Some (nat epfd))"

definition epoll_create :: "int \<Rightarrow> epoll_manager \<Rightarrow> int \<times> epoll_manager" where
  "epoll_create sz m = epoll_alloc_instance m"

definition epoll_create1 :: "int \<Rightarrow> epoll_manager \<Rightarrow> int \<times> epoll_manager" where
  "epoll_create1 flags m = epoll_alloc_instance m"

definition epoll_find_fd :: "int \<Rightarrow> epoll_instance \<Rightarrow> nat option" where
  "epoll_find_fd fd inst = first_index (\<lambda>i. ef_registered (ei_fds inst i) \<and> ef_fd (ei_fds inst i) = fd) EPOLL_MAX_FDS"

definition epoll_find_free_slot :: "epoll_instance \<Rightarrow> nat option" where
  "epoll_find_free_slot inst = first_index (\<lambda>i. \<not> ef_registered (ei_fds inst i)) EPOLL_MAX_FDS"

text \<open>The three cases of the switch.\<close>

definition ctl_add :: "int \<Rightarrow> epoll_event option \<Rightarrow> epoll_instance \<Rightarrow> int \<times> epoll_instance" where
  "ctl_add fd event inst =
     (if epoll_find_fd fd inst \<noteq> None \<or> ei_fd_count inst \<ge> int EPOLL_MAX_FDS then (- 1, inst)
      else case event of
             None \<Rightarrow> (- 1, inst)
           | Some e \<Rightarrow>
               (case epoll_find_free_slot inst of
                  None \<Rightarrow> (- 1, inst)
                | Some j \<Rightarrow> (0, (set_fd j (\<lambda>_. \<lparr>ef_fd = fd, ef_event = e, ef_registered = True, ef_ready = False\<rparr>) inst)
                                  \<lparr>ei_fd_count := ei_fd_count inst + 1\<rparr>)))"

definition ctl_mod :: "int \<Rightarrow> epoll_event option \<Rightarrow> epoll_instance \<Rightarrow> int \<times> epoll_instance" where
  "ctl_mod fd event inst =
     (case epoll_find_fd fd inst of
        None \<Rightarrow> (- 1, inst)
      | Some j \<Rightarrow> (case event of None \<Rightarrow> (- 1, inst) | Some e \<Rightarrow> (0, set_fd j (\<lambda>d. d\<lparr>ef_event := e\<rparr>) inst)))"

definition ctl_del :: "int \<Rightarrow> epoll_instance \<Rightarrow> int \<times> epoll_instance" where
  "ctl_del fd inst =
     (case epoll_find_fd fd inst of
        None \<Rightarrow> (- 1, inst)
      | Some j \<Rightarrow> (0, (set_fd j (\<lambda>_. \<lparr>ef_fd = - 1, ef_event = event_zero, ef_registered = False, ef_ready = False\<rparr>) inst)
                        \<lparr>ei_fd_count := ei_fd_count inst - 1\<rparr>))"

definition epoll_ctl :: "int \<Rightarrow> int \<Rightarrow> int \<Rightarrow> epoll_event option \<Rightarrow> epoll_manager \<Rightarrow> int \<times> epoll_manager" where
  "epoll_ctl epfd op fd event m =
     (if fd < 0 then (- 1, m)
      else case epoll_get_instance epfd m of
             None \<Rightarrow> (- 1, m)
           | Some i \<Rightarrow>
               let inst = em_instances m i
               in case (if op = 1 then ctl_add fd event inst else if op = 2 then ctl_mod fd event inst
                        else if op = 3 then ctl_del fd inst else (- 1, inst)) of
                    (r, inst1) \<Rightarrow> (r, set_instance i inst1 m))"

section \<open>Waiting\<close>

text \<open>The loop that fills the caller's array, with room for \<open>n\<close> more events.\<close>

fun take_reports :: "nat \<Rightarrow> epoll_instance \<Rightarrow> epoll_event list \<times> epoll_instance" where
  "take_reports 0 inst = ([], inst)"
| "take_reports (Suc n) inst =
     (case rq_pop inst of
        (None, inst1) \<Rightarrow> ([], inst1)
      | (Some e, inst1) \<Rightarrow> (case take_reports n inst1 of (es, inst2) \<Rightarrow> (e # es, inst2)))"

type_synonym epoll_env = "kst \<times> epoll_manager \<Rightarrow> kst \<times> epoll_manager"

text \<open>The loop of \<open>wait_queue_wait_timeout\<close> over the state that the other processes see.\<close>

fun epoll_timeout_loop :: "epoll_env list \<Rightarrow> addr \<Rightarrow> pid \<Rightarrow> u64 \<Rightarrow> nat \<Rightarrow> kst \<times> epoll_manager \<Rightarrow> (kst \<times> epoll_manager) option" where
  "epoll_timeout_loop env node self deadline i (k, m) =
     (let unlink = (\<lambda>k m. case wq_unlink_if_queued node k (ei_wait (em_instances m i)) of
                      (q, k1, wq) \<Rightarrow> (k1, set_instance i ((em_instances m i)\<lparr>ei_wait := wq\<rparr>) m))
      in if ks_state k self = PROCESS_WAITING
         then case env of
                [] \<Rightarrow> None
              | e # es \<Rightarrow>
                  (case e (k, m) of (k1, m1) \<Rightarrow>
                     if ks_jiffies k1 \<ge> deadline then Some (unlink k1 m1)
                     else epoll_timeout_loop es node self deadline i (k1, m1))
         else Some (unlink k m))"

text \<open>The caller sleeps on the queue of the instance; \<open>None\<close> is a sleep that does not end.\<close>

definition epoll_block :: "epoll_env list \<Rightarrow> addr \<Rightarrow> int \<Rightarrow> nat \<Rightarrow> kst \<times> epoll_manager \<Rightarrow> (kst \<times> epoll_manager) option" where
  "epoll_block env node timeout i s =
     (case s of (k, m) \<Rightarrow>
        case wq_sleep node k (ei_wait (em_instances m i)) of (k1, wq) \<Rightarrow>
          let s1 = (k1, set_instance i ((em_instances m i)\<lparr>ei_wait := wq\<rparr>) m)
          in if timeout < 0 then (case env of [] \<Rightarrow> None | e # es \<Rightarrow> Some (e s1))
             else epoll_timeout_loop env node (ks_current k) (ks_jiffies k + timer_ms_to_jiffies (of_int timeout)) i s1)"

definition epoll_wait ::
  "epoll_env list \<Rightarrow> addr \<Rightarrow> int \<Rightarrow> bool \<Rightarrow> int \<Rightarrow> int \<Rightarrow> kst \<times> epoll_manager \<Rightarrow> (int \<times> epoll_event list \<times> kst \<times> epoll_manager) option" where
  "epoll_wait env node epfd has_events maxevents timeout s =
     (case s of (k, m) \<Rightarrow>
        if \<not> has_events \<or> maxevents \<le> 0 \<or> maxevents > EPOLL_MAX_EVENTS then Some (- 1, [], k, m)
        else case epoll_get_instance epfd m of
               None \<Rightarrow> Some (- 1, [], k, m)
             | Some i \<Rightarrow>
                 let finish = (\<lambda>(k, m). case take_reports (nat maxevents) (em_instances m i) of
                                 (es, inst) \<Rightarrow> (int (length es), es, k, set_instance i inst m))
                 in if rq_empty (em_instances m i)
                    then if timeout = 0 then Some (0, [], k, m)
                         else map_option finish (epoll_block env node timeout i (k, m))
                    else Some (finish (k, m)))"

section \<open>Notification\<close>

definition notify_matched :: "u32 \<Rightarrow> epoll_fd \<Rightarrow> u32" where
  "notify_matched events d = events AND (ev_events (ef_event d) AND NOT EPOLLET)"

text \<open>One instance: the first registration of the descriptor with an event of interest.\<close>

definition notify_instance :: "int \<Rightarrow> u32 \<Rightarrow> kst \<times> epoll_instance \<Rightarrow> (kst \<times> epoll_instance) option" where
  "notify_instance fd events s =
     (case s of (k, inst) \<Rightarrow>
        case first_index (\<lambda>j. ef_registered (ei_fds inst j) \<and> ef_fd (ei_fds inst j) = fd \<and> notify_matched events (ei_fds inst j) \<noteq> 0) EPOLL_MAX_FDS of
          None \<Rightarrow> Some (k, inst)
        | Some j \<Rightarrow>
            let d = ei_fds inst j;
                inst1 = (if \<not> ef_ready d
                         then snd (rq_push fd (notify_matched events d) (ev_data (ef_event d)) (set_fd j (\<lambda>d. d\<lparr>ef_ready := True\<rparr>) inst))
                         else inst)
            in map_option (\<lambda>(k1, wq). (k1, inst1\<lparr>ei_wait := wq\<rparr>)) (wait_queue_wake_all k (ei_wait inst1)))"

fun notify_instances :: "int \<Rightarrow> u32 \<Rightarrow> nat list \<Rightarrow> kst \<times> epoll_manager \<Rightarrow> (kst \<times> epoll_manager) option" where
  "notify_instances fd events [] s = Some s"
| "notify_instances fd events (i # is) (k, m) =
     (if \<not> ei_active (em_instances m i) then notify_instances fd events is (k, m)
      else Option.bind (notify_instance fd events (k, em_instances m i))
             (\<lambda>(k1, inst). notify_instances fd events is (k1, set_instance i inst m)))"

definition epoll_notify :: "int \<Rightarrow> u32 \<Rightarrow> kst \<times> epoll_manager \<Rightarrow> (kst \<times> epoll_manager) option" where
  "epoll_notify fd events s = (if fd < 0 then Some s else notify_instances fd events [0..<EPOLL_MAX_INSTANCES] s)"

definition clear_instance :: "int \<Rightarrow> epoll_instance \<Rightarrow> epoll_instance" where
  "clear_instance fd inst = (case epoll_find_fd fd inst of None \<Rightarrow> inst | Some j \<Rightarrow> set_fd j (\<lambda>d. d\<lparr>ef_ready := False\<rparr>) inst)"

definition epoll_notify_clear_ready :: "int \<Rightarrow> epoll_manager \<Rightarrow> epoll_manager" where
  "epoll_notify_clear_ready fd m =
     fold (\<lambda>i m. if ei_active (em_instances m i) then set_instance i (clear_instance fd (em_instances m i)) m else m) [0..<EPOLL_MAX_INSTANCES] m"

section \<open>Closing\<close>

definition closed_instance :: "wait_queue_t \<Rightarrow> epoll_instance \<Rightarrow> epoll_instance" where
  "closed_instance wq inst = inst\<lparr>ei_active := False, ei_wait := wq,
     ei_fds := (\<lambda>j. if j < EPOLL_MAX_FDS then \<lparr>ef_fd = - 1, ef_event = event_zero, ef_registered = False, ef_ready = False\<rparr> else ei_fds inst j),
     ei_fd_count := 0, ei_head := 0, ei_tail := 0,
     ei_queue := (\<lambda>j. if j < EPOLL_READY_QUEUE_SIZE then (ei_queue inst j)\<lparr>re_valid := False\<rparr> else ei_queue inst j)\<rparr>"

definition epoll_close :: "int \<Rightarrow> kst \<times> epoll_manager \<Rightarrow> (int \<times> kst \<times> epoll_manager) option" where
  "epoll_close epfd s =
     (case s of (k, m) \<Rightarrow>
        case epoll_get_instance epfd m of
          None \<Rightarrow> Some (- 1, k, m)
        | Some i \<Rightarrow>
            map_option (\<lambda>(k1, wq). (0, k1, (set_instance i (closed_instance wq (em_instances m i)) m)\<lparr>em_active_count := em_active_count m - 1\<rparr>))
              (wait_queue_wake_all k (ei_wait (em_instances m i))))"

end
