(* ===== verification/EpollProps.thy ===== *)
theory EpollProps
  imports Epoll Interfaces
begin

text \<open>
  The ring of an instance as the list of pending reports, and the invariant of the tables under sequences of calls.
\<close>

section \<open>The ring as a list\<close>

definition rq_len :: "epoll_instance \<Rightarrow> nat" where
  "rq_len inst = (ei_tail inst + 256 - ei_head inst) mod 256"

definition report :: "epoll_ready_entry \<Rightarrow> int \<times> epoll_event" where
  "report e = (re_fd e, \<lparr>ev_events = re_events e, ev_data = re_data e\<rparr>)"

definition pending :: "epoll_instance \<Rightarrow> (int \<times> epoll_event) list" where
  "pending inst = map report (ring_list (ei_queue inst) 256 (ei_head inst) (rq_len inst))"

definition ring_ok :: "epoll_instance \<Rightarrow> bool" where
  "ring_ok inst \<longleftrightarrow> ei_head inst < 256 \<and> ei_tail inst < 256"

lemma ring_len: "h < 256 \<Longrightarrow> t < 256 \<Longrightarrow> (t + 256 - h) mod 256 = (if h \<le> t then t - h else t + 256 - h :: nat)"
proof -
  assume l: "h < 256" "t < 256"
  show ?thesis
  proof (cases "h \<le> t")
    case True
    then have e: "t + 256 - h = (t - h) + 256" by simp
    show ?thesis unfolding e mod_add_self2 using True l by simp
  next
    case False
    then show ?thesis using l by simp
  qed
qed

lemma ring_next: "t < 256 \<Longrightarrow> (t + 1) mod 256 = (if t = 255 then 0 else t + 1 :: nat)"
  by simp

lemma rq_len_tail:
  assumes "ring_ok inst"
  shows "ei_tail inst = (ei_head inst + rq_len inst) mod 256" and "rq_len inst < 256"
  using assms by (auto simp: ring_ok_def rq_len_def ring_len mod_if)

lemma rq_empty_len: "ring_ok inst \<Longrightarrow> rq_empty inst \<longleftrightarrow> rq_len inst = 0"
  unfolding ring_ok_def rq_empty_def rq_len_def by (auto simp: ring_len)

lemma rq_full_len: "ring_ok inst \<Longrightarrow> rq_full inst \<longleftrightarrow> rq_len inst = 255"
  unfolding ring_ok_def rq_full_def rq_len_def by (simp only: ring_len ring_next) (auto split: if_splits)

lemma push_len:
  assumes "h < 256" and "t < 256" and "(t + 256 - h) mod 256 < 255"
  shows "((t + 1) mod 256 + 256 - h) mod 256 = Suc ((t + 256 - h) mod 256 :: nat)"
proof -
  define t' where "t' = (t + 1) mod (256 :: nat)"
  have t': "t' = (if t = 255 then 0 else t + 1)" unfolding t'_def by (rule ring_next [OF assms(2)])
  have "t' < 256" by (simp add: t'_def)
  then show ?thesis using assms unfolding t'_def [symmetric] ring_len [OF assms(1,2)] ring_len [OF assms(1) \<open>t' < 256\<close>] unfolding t' by (auto split: if_splits)
qed

lemma pop_len:
  assumes "h < 256" and "t < 256" and "(t + 256 - h) mod 256 = Suc n"
  shows "(t + 256 - (h + 1) mod 256) mod 256 = (n :: nat)"
proof -
  define h' where "h' = (h + 1) mod (256 :: nat)"
  have h': "h' = (if h = 255 then 0 else h + 1)" unfolding h'_def by (rule ring_next [OF assms(1)])
  have "h' < 256" by (simp add: h'_def)
  then show ?thesis using assms unfolding h'_def [symmetric] ring_len [OF assms(1,2)] ring_len [OF \<open>h' < 256\<close> assms(2)] unfolding h' by (auto split: if_splits)
qed

lemma length_pending [simp]: "length (pending inst) = rq_len inst"
  by (simp add: pending_def)

lemma push_pending:
  assumes ok: "ring_ok inst" and p: "rq_push fd ev d inst = (r, inst')"
  shows "ring_ok inst' \<and> ei_fds inst' = ei_fds inst \<and> ei_fd_count inst' = ei_fd_count inst \<and> ei_active inst' = ei_active inst \<and> ei_wait inst' = ei_wait inst \<and>
    pending inst' = pending inst @ (if length (pending inst) = 255 then [] else [(fd, \<lparr>ev_events = ev, ev_data = d\<rparr>)])"
proof (cases "rq_full inst")
  case True
  then show ?thesis using p ok rq_full_len [OF ok] by (simp add: rq_push_def)
next
  case False
  note t = rq_len_tail [OF ok]
  have n: "rq_len inst < 255" using False rq_full_len [OF ok] t(2) by simp
  have i: "inst' = inst\<lparr>ei_queue := (ei_queue inst)(ei_tail inst := \<lparr>re_fd = fd, re_events = ev, re_data = d, re_valid = True\<rparr>),
      ei_tail := (ei_tail inst + 1) mod 256\<rparr>" using p False by (simp add: rq_push_def)
  have ok': "ring_ok inst'" using ok unfolding i ring_ok_def by simp
  have l: "rq_len inst' = Suc (rq_len inst)" using ok n push_len unfolding i ring_ok_def rq_len_def by simp
  have "ring_list (ei_queue inst') 256 (ei_head inst') (rq_len inst') =
      ring_list (ei_queue inst) 256 (ei_head inst) (rq_len inst) @ [\<lparr>re_fd = fd, re_events = ev, re_data = d, re_valid = True\<rparr>]"
    unfolding l using ring_list_push [of "rq_len inst" 256 "ei_queue inst" "ei_head inst"] t by (simp add: i)
  then show ?thesis using ok' n unfolding pending_def by (simp add: report_def i)
qed

lemma pop_pending:
  assumes ok: "ring_ok inst"
  shows "rq_pop inst = (None, inst) \<and> pending inst = [] \<or>
    (\<exists>inst' f e. rq_pop inst = (Some e, inst') \<and> pending inst = (f, e) # pending inst' \<and> ring_ok inst' \<and> ei_fds inst' = ei_fds inst \<and>
       ei_fd_count inst' = ei_fd_count inst \<and> ei_active inst' = ei_active inst \<and> ei_wait inst' = ei_wait inst)"
proof (cases "rq_empty inst")
  case True
  then show ?thesis using rq_empty_len [OF ok] by (simp add: rq_pop_def pending_def)
next
  case False
  then obtain n where n: "rq_len inst = Suc n" using rq_empty_len [OF ok] by (cases "rq_len inst") auto
  define e where "e = ei_queue inst (ei_head inst)"
  define inst' where "inst' = inst\<lparr>ei_queue := (ei_queue inst)(ei_head inst := e\<lparr>re_valid := False\<rparr>), ei_head := (ei_head inst + 1) mod 256\<rparr>"
  have p: "rq_pop inst = (Some \<lparr>ev_events = re_events e, ev_data = re_data e\<rparr>, inst')" using False by (simp add: rq_pop_def e_def inst'_def Let_def)
  have ok': "ring_ok inst'" using ok unfolding inst'_def ring_ok_def by simp
  have l: "rq_len inst' = n" using ok n pop_len [of "ei_head inst" "ei_tail inst" n] unfolding inst'_def ring_ok_def rq_len_def by simp
  have h: "ei_head inst < 256" "n < 255" using ok n rq_len_tail(2) [OF ok] unfolding ring_ok_def by simp_all
  have "ring_list (ei_queue inst) 256 (ei_head inst) (rq_len inst) = e # ring_list (ei_queue inst) 256 (ei_head inst') n"
    unfolding n using ring_list_pop [OF h(1)] by (simp add: e_def inst'_def)
  moreover have "map report (ring_list (ei_queue inst) 256 (ei_head inst') n) = map report (ring_list (ei_queue inst') 256 (ei_head inst') n)"
    by (auto simp: ring_list_def inst'_def e_def report_def)
  ultimately have "pending inst = report e # pending inst'" unfolding pending_def l by simp
  then show ?thesis using p ok' by (auto simp: report_def inst'_def)
qed

lemma take_pending:
  assumes "ring_ok inst" and "take_reports n inst = (es, inst')"
  shows "es = map snd (take n (pending inst)) \<and> pending inst' = drop n (pending inst) \<and> ring_ok inst' \<and> ei_fds inst' = ei_fds inst \<and>
    ei_fd_count inst' = ei_fd_count inst \<and> ei_active inst' = ei_active inst \<and> ei_wait inst' = ei_wait inst"
  using assms
proof (induction n arbitrary: inst es)
  case (Suc n)
  from pop_pending [OF Suc.prems(1)] show ?case
  proof (elim disjE conjE exE)
    assume "rq_pop inst = (None, inst)" "pending inst = []"
    then show ?thesis using Suc.prems by simp
  next
    fix i1 f e
    assume p: "rq_pop inst = (Some e, i1)" "pending inst = (f, e) # pending i1" "ring_ok i1" "ei_fds i1 = ei_fds inst"
      "ei_fd_count i1 = ei_fd_count inst" "ei_active i1 = ei_active inst" "ei_wait i1 = ei_wait inst"
    obtain es1 where t: "take_reports n i1 = (es1, inst')" "es = e # es1" using Suc.prems(2) p(1) by (auto split: prod.splits)
    show ?thesis using Suc.IH [OF p(3) t(1)] t(2) p by simp
  qed
qed simp

section \<open>The tables\<close>

definition registered :: "epoll_instance \<Rightarrow> nat set" where
  "registered inst = {j. j < 1024 \<and> ef_registered (ei_fds inst j)}"

definition inst_ok :: "epoll_instance \<Rightarrow> bool" where
  "inst_ok inst \<longleftrightarrow> ring_ok inst \<and> ei_fd_count inst = int (card (registered inst)) \<and> inj_on (\<lambda>j. ef_fd (ei_fds inst j)) (registered inst)"

definition actives :: "epoll_manager \<Rightarrow> nat set" where
  "actives m = {i. i < 128 \<and> ei_active (em_instances m i)}"

definition mgr_ok :: "epoll_manager \<Rightarrow> bool" where
  "mgr_ok m \<longleftrightarrow> (\<forall>i\<in>actives m. inst_ok (em_instances m i)) \<and> em_active_count m = int (card (actives m))"

lemma finite_sets [simp]: "finite (registered inst)" "finite (actives m)"
  by (simp_all add: registered_def actives_def)

lemma same_table_ok:
  assumes "inst_ok inst" and "ring_ok inst'" and "ei_fd_count inst' = ei_fd_count inst"
    and "\<And>j. ef_registered (ei_fds inst' j) = ef_registered (ei_fds inst j) \<and> ef_fd (ei_fds inst' j) = ef_fd (ei_fds inst j)"
  shows "inst_ok inst'"
  using assms unfolding inst_ok_def registered_def by (simp add: inj_on_def)

lemma ctl_add_ok:
  assumes ok: "inst_ok inst" and c: "ctl_add fd ev inst = (r, inst')"
  shows "inst_ok inst' \<and> ei_active inst' = ei_active inst"
proof (cases "inst' = inst")
  case True
  then show ?thesis using ok by simp
next
  case False
  then obtain j e where j: "epoll_find_free_slot inst = Some j" "epoll_find_fd fd inst = None"
    "inst' = (set_fd j (\<lambda>_. \<lparr>ef_fd = fd, ef_event = e, ef_registered = True, ef_ready = False\<rparr>) inst)\<lparr>ei_fd_count := ei_fd_count inst + 1\<rparr>"
    using c by (auto simp: ctl_add_def split: if_splits option.splits)
  note fj = first_index_SomeD [OF j(1) [unfolded epoll_find_free_slot_def]]
  have rg: "registered inst' = insert j (registered inst)" using fj(1) unfolding j(3) registered_def set_fd_def by auto
  have jn: "j \<notin> registered inst" using fj(2) unfolding registered_def by simp
  have nofd: "\<forall>i\<in>registered inst. ef_fd (ei_fds inst i) \<noteq> fd"
    using j(2) unfolding epoll_find_fd_def first_index_None registered_def by auto
  have "inj_on (\<lambda>j. ef_fd (ei_fds inst' j)) (insert j (registered inst))"
  proof -
    have "inj_on (\<lambda>j. ef_fd (ei_fds inst' j)) (registered inst) = inj_on (\<lambda>j. ef_fd (ei_fds inst j)) (registered inst)"
      using jn unfolding j(3) by (intro inj_on_cong) (auto simp: set_fd_def)
    moreover have "ef_fd (ei_fds inst' j) \<notin> (\<lambda>j. ef_fd (ei_fds inst' j)) ` registered inst"
    proof
      assume "ef_fd (ei_fds inst' j) \<in> (\<lambda>j. ef_fd (ei_fds inst' j)) ` registered inst"
      then obtain i where i: "i \<in> registered inst" "ef_fd (ei_fds inst' j) = ef_fd (ei_fds inst' i)" by blast
      then have "i \<noteq> j" using jn by blast
      then have "fd = ef_fd (ei_fds inst i)" using i(2) unfolding j(3) by (simp add: set_fd_def)
      then show False using nofd i(1) by blast
    qed
    ultimately show ?thesis using ok jn unfolding inst_ok_def by simp
  qed
  moreover have "ring_ok inst'" using ok unfolding inst_ok_def j(3) ring_ok_def set_fd_def by simp
  moreover have "ei_fd_count inst' = int (card (registered inst'))" unfolding rg using ok jn unfolding inst_ok_def j(3) by simp
  ultimately show ?thesis unfolding inst_ok_def rg unfolding j(3) by (simp add: set_fd_def)
qed

lemma set_fd_ok:
  assumes "inst_ok inst" and "\<And>d. ef_registered (f d) = ef_registered d \<and> ef_fd (f d) = ef_fd d"
  shows "inst_ok (set_fd j f inst) \<and> ei_active (set_fd j f inst) = ei_active inst"
proof -
  have "ring_ok (set_fd j f inst)" using assms(1) by (simp add: inst_ok_def ring_ok_def set_fd_def)
  then have "inst_ok (set_fd j f inst)" using assms(2) by (intro same_table_ok [OF assms(1)]) (simp_all add: set_fd_def)
  then show ?thesis by (simp add: set_fd_def)
qed

lemma ctl_mod_ok:
  assumes "inst_ok inst" and "ctl_mod fd ev inst = (r, inst')"
  shows "inst_ok inst' \<and> ei_active inst' = ei_active inst"
proof -
  have "inst' = inst \<or> (\<exists>j e. inst' = set_fd j (\<lambda>d. d\<lparr>ef_event := e\<rparr>) inst)" using assms(2) by (auto simp: ctl_mod_def split: option.splits)
  then show ?thesis using assms(1) set_fd_ok [OF assms(1), of "\<lambda>d. d\<lparr>ef_event := _\<rparr>"] by auto
qed

lemma ctl_del_ok:
  assumes ok: "inst_ok inst" and c: "ctl_del fd inst = (r, inst')"
  shows "inst_ok inst' \<and> ei_active inst' = ei_active inst"
proof (cases "epoll_find_fd fd inst")
  case None
  then show ?thesis using ok c by (simp add: ctl_del_def)
next
  case (Some j)
  note fj = first_index_SomeD [OF Some [unfolded epoll_find_fd_def]]
  have i: "inst' = (set_fd j (\<lambda>_. \<lparr>ef_fd = - 1, ef_event = event_zero, ef_registered = False, ef_ready = False\<rparr>) inst)\<lparr>ei_fd_count := ei_fd_count inst - 1\<rparr>"
    using c Some by (simp add: ctl_del_def)
  have jr: "j \<in> registered inst" using fj(1,2) unfolding registered_def by simp
  have rg: "registered inst' = registered inst - {j}" unfolding i registered_def set_fd_def by auto
  have "inj_on (\<lambda>k. ef_fd (ei_fds inst' k)) (registered inst - {j}) = inj_on (\<lambda>k. ef_fd (ei_fds inst k)) (registered inst - {j})"
    unfolding i by (intro inj_on_cong) (auto simp: set_fd_def)
  moreover have "inj_on (\<lambda>k. ef_fd (ei_fds inst k)) (registered inst - {j})" using ok inj_on_diff unfolding inst_ok_def by blast
  moreover have "ei_fd_count inst' = int (card (registered inst'))"
    unfolding rg using ok jr card_Suc_Diff1 [OF finite_sets(1) jr] unfolding inst_ok_def i by (simp del: card_Diff_insert)
  moreover have "ring_ok inst'" using ok unfolding inst_ok_def i ring_ok_def set_fd_def by simp
  ultimately show ?thesis unfolding inst_ok_def rg unfolding i by (simp add: set_fd_def)
qed

section \<open>Notification\<close>

definition match_fd :: "int \<Rightarrow> u32 \<Rightarrow> epoll_instance \<Rightarrow> nat option" where
  "match_fd fd events inst =
     first_index (\<lambda>j. ef_registered (ei_fds inst j) \<and> ef_fd (ei_fds inst j) = fd \<and> notify_matched events (ei_fds inst j) \<noteq> 0) 1024"

text \<open>The reports that a notification adds: one, for a registration of interest that is not marked as ready, if there is room.\<close>

definition new_reports :: "int \<Rightarrow> u32 \<Rightarrow> epoll_instance \<Rightarrow> (int \<times> epoll_event) list" where
  "new_reports fd events inst =
     (case match_fd fd events inst of
        None \<Rightarrow> []
      | Some j \<Rightarrow>
          if ef_ready (ei_fds inst j) \<or> length (pending inst) = 255 then []
          else [(fd, \<lparr>ev_events = notify_matched events (ei_fds inst j), ev_data = ev_data (ef_event (ei_fds inst j))\<rparr>)])"

lemma notify_facts:
  assumes ok: "inst_ok inst" and n: "notify_instance fd events (k, inst) = Some (k', inst')"
  shows "inst_ok inst' \<and> ei_active inst' = ei_active inst \<and> pending inst' = pending inst @ new_reports fd events inst \<and>
    (\<forall>j. ei_fds inst' j = (if match_fd fd events inst = Some j then (ei_fds inst j)\<lparr>ef_ready := True\<rparr> else ei_fds inst j))"
proof (cases "match_fd fd events inst")
  case None
  then have "inst' = inst" using n by (simp add: notify_instance_def match_fd_def)
  then show ?thesis using ok None by (simp add: new_reports_def)
next
  case (Some j)
  define d where "d = ei_fds inst j"
  define i1 where "i1 = (if \<not> ef_ready d
       then snd (rq_push fd (notify_matched events d) (ev_data (ef_event d)) (set_fd j (\<lambda>d. d\<lparr>ef_ready := True\<rparr>) inst)) else inst)"
  have "notify_instance fd events (k, inst) = map_option (\<lambda>(k1, wq). (k1, i1\<lparr>ei_wait := wq\<rparr>)) (wait_queue_wake_all k (ei_wait i1))"
    using Some unfolding notify_instance_def match_fd_def by (simp add: Let_def d_def [symmetric] i1_def [symmetric])
  from this n have "map_option (\<lambda>(k1, wq). (k1, i1\<lparr>ei_wait := wq\<rparr>)) (wait_queue_wake_all k (ei_wait i1)) = Some (k', inst')" by (rule trans [OF sym])
  then obtain wq where w: "inst' = i1\<lparr>ei_wait := wq\<rparr>" unfolding map_option_eq_Some by (auto split: prod.splits)
  have same: "ring_ok (i\<lparr>ei_wait := wq\<rparr>) = ring_ok i" "inst_ok (i\<lparr>ei_wait := wq\<rparr>) = inst_ok i" "pending (i\<lparr>ei_wait := wq\<rparr>) = pending i" for i
    by (simp_all add: ring_ok_def inst_ok_def registered_def pending_def rq_len_def)
  show ?thesis
  proof (cases "ef_ready d")
    case True
    then have "i1 = inst" by (simp add: i1_def)
    moreover have "ei_fds inst j = (ei_fds inst j)\<lparr>ef_ready := True\<rparr>" using True unfolding d_def by (cases "ei_fds inst j") simp
    ultimately show ?thesis using ok Some True unfolding w same new_reports_def by (auto simp: d_def same)
  next
    case False
    define i0 where "i0 = set_fd j (\<lambda>d. d\<lparr>ef_ready := True\<rparr>) inst"
    obtain r where p: "rq_push fd (notify_matched events d) (ev_data (ef_event d)) i0 = (r, i1)" using False unfolding i1_def i0_def by (metis prod.collapse)
    have o0: "inst_ok i0" "ei_active i0 = ei_active inst" using set_fd_ok [OF ok, of "\<lambda>d. d\<lparr>ef_ready := True\<rparr>" j] unfolding i0_def by simp_all
    then have r0: "ring_ok i0" unfolding inst_ok_def by blast
    have p0: "pending i0 = pending inst" by (simp add: i0_def set_fd_def pending_def rq_len_def)
    note pp = push_pending [OF r0 p]
    have "inst_ok i1" using pp by (intro same_table_ok [OF o0(1)]) simp_all
    moreover have "ei_fds i1 l = (if Some j = Some l then (ei_fds inst l)\<lparr>ef_ready := True\<rparr> else ei_fds inst l)" for l
      using pp by (simp add: i0_def set_fd_def)
    ultimately show ?thesis using pp o0(2) Some False unfolding w same new_reports_def p0 by (simp add: d_def same)
  qed
qed

text \<open>
  C39. The reports of an instance form a queue. A notification that finds a registration of interest marks it as ready, changes no other
  registration, wakes the waiting processes, and appends one report for it, with the events of interest and the caller's data, if it was
  not marked before and the queue has less than 255 reports; it adds nothing else, in particular nothing for a
  registration that is still marked, so that a report that found no room is not made up for. A notification that finds none changes
  nothing. A poll takes the oldest reports, in order, up to the number asked for, and leaves the marks as they are: a level that
  stays high is reported once, whether or not the registration asks for edges, until it is cleared.
\<close>

theorem epoll_reports_are_a_queue:
  assumes "inst_ok inst" and "wq_ok k (ei_wait inst) ns"
  shows "(\<exists>k' inst'. notify_instance fd events (k, inst) = Some (k', inst') \<and> inst_ok inst' \<and>
       pending inst' = pending inst @ new_reports fd events inst \<and>
       (\<forall>j. ei_fds inst' j = (if match_fd fd events inst = Some j then (ei_fds inst j)\<lparr>ef_ready := True\<rparr> else ei_fds inst j)) \<and>
       (match_fd fd events inst = None \<longrightarrow> k' = k \<and> inst' = inst) \<and>
       (match_fd fd events inst \<noteq> None \<longrightarrow> ks_enqueued k' = ks_enqueued k @ map (node_pid k) (filter (node_waiting k) ns))) \<and>
     (case take_reports n inst of (es, inst') \<Rightarrow> es = map snd (take n (pending inst)) \<and> pending inst' = drop n (pending inst) \<and>
       ei_fds inst' = ei_fds inst \<and> inst_ok inst')"
proof
  obtain k1 wq where w: "wait_queue_wake_all k (ei_wait inst) = Some (k1, wq)"
    "ks_enqueued k1 = ks_enqueued k @ map (node_pid k) (filter (node_waiting k) ns)" using wait_queue_wake_all_ok [OF assms(2)] by blast
  show "\<exists>k' inst'. notify_instance fd events (k, inst) = Some (k', inst') \<and> inst_ok inst' \<and>
       pending inst' = pending inst @ new_reports fd events inst \<and>
       (\<forall>j. ei_fds inst' j = (if match_fd fd events inst = Some j then (ei_fds inst j)\<lparr>ef_ready := True\<rparr> else ei_fds inst j)) \<and>
       (match_fd fd events inst = None \<longrightarrow> k' = k \<and> inst' = inst) \<and>
       (match_fd fd events inst \<noteq> None \<longrightarrow> ks_enqueued k' = ks_enqueued k @ map (node_pid k) (filter (node_waiting k) ns))"
  proof (cases "match_fd fd events inst")
    case None
    then have "notify_instance fd events (k, inst) = Some (k, inst)" by (simp add: notify_instance_def match_fd_def)
    moreover note notify_facts [OF assms(1) this]
    ultimately show ?thesis using None by (intro exI [of _ k] exI [of _ inst]) simp
  next
    case (Some j)
    define d where "d = ei_fds inst j"
    define i1 where "i1 = (if \<not> ef_ready d
         then snd (rq_push fd (notify_matched events d) (ev_data (ef_event d)) (set_fd j (\<lambda>d. d\<lparr>ef_ready := True\<rparr>) inst)) else inst)"
    have "ei_wait i1 = ei_wait inst" by (simp add: i1_def rq_push_def set_fd_def)
    then have "notify_instance fd events (k, inst) = Some (k1, i1\<lparr>ei_wait := wq\<rparr>)"
      using Some w(1) unfolding notify_instance_def match_fd_def by (simp add: Let_def d_def [symmetric] i1_def [symmetric])
    moreover note notify_facts [OF assms(1) this]
    ultimately show ?thesis using w(2) Some by (intro exI [of _ k1] exI [of _ "i1\<lparr>ei_wait := wq\<rparr>"]) simp
  qed
  show "case take_reports n inst of (es, inst') \<Rightarrow> es = map snd (take n (pending inst)) \<and> pending inst' = drop n (pending inst) \<and>
       ei_fds inst' = ei_fds inst \<and> inst_ok inst'"
  proof -
    obtain es inst' where t: "take_reports n inst = (es, inst')" by fastforce
    have r: "ring_ok inst" using assms(1) unfolding inst_ok_def by blast
    note tp = take_pending [OF r t]
    have "inst_ok inst'" using tp by (intro same_table_ok [OF assms(1)]) simp_all
    then show ?thesis using t tp by simp
  qed
qed

text \<open>An instance with one registration, of descriptor 5 for input.\<close>

definition demo_instance :: epoll_instance where
  "demo_instance = (set_fd 0 (\<lambda>_. \<lparr>ef_fd = 5, ef_event = \<lparr>ev_events = 1, ev_data = 77\<rparr>, ef_registered = True, ef_ready = False\<rparr>)
     (instance_zero\<lparr>ei_active := True, ei_wait := wait_queue_init\<rparr>))\<lparr>ei_fd_count := 1\<rparr>"

lemma demo_instance_ok: "inst_ok demo_instance"
proof -
  have "registered demo_instance = {0}" by (auto simp: registered_def demo_instance_def set_fd_def instance_zero_def split: if_splits)
  then show ?thesis by (simp add: inst_ok_def ring_ok_def demo_instance_def set_fd_def instance_zero_def)
qed

theorem epoll_reports_are_a_queue_witness:
  "\<exists>k' inst'. notify_instance 5 1 (\<lparr>ks_heap = (\<lambda>_. \<lparr>wn_proc = None, wn_next = None, wn_prev = None\<rparr>), ks_state = (\<lambda>_. PROCESS_UNUSED), ks_enqueued = [],
       ks_current = 0, ks_jiffies = 0\<rparr>, demo_instance) = Some (k', inst') \<and> inst_ok inst' \<and> pending inst' = [(5, \<lparr>ev_events = 1, ev_data = 77\<rparr>)] \<and> ef_ready (ei_fds inst' 0)"
proof -
  have w: "wq_ok k (ei_wait demo_instance) []" for k by (simp add: demo_instance_def set_fd_def)
  have m: "match_fd 5 1 demo_instance = Some 0" unfolding match_fd_def
    by (rule first_index_SomeI) (simp_all add: demo_instance_def set_fd_def notify_matched_def)
  have p: "pending demo_instance = []" by (simp add: pending_def rq_len_def demo_instance_def set_fd_def instance_zero_def)
  have "new_reports 5 1 demo_instance = [(5, \<lparr>ev_events = 1, ev_data = 77\<rparr>)]"
    unfolding new_reports_def m p by (simp add: demo_instance_def set_fd_def notify_matched_def)
  then show ?thesis using conjunct1 [OF epoll_reports_are_a_queue [OF demo_instance_ok w, where fd = 5 and events = 1 and n = 0]] p m by fastforce
qed

section \<open>Sequences of calls\<close>

text \<open>The calls of any process; a wait that blocks is the steps of the others before its poll.\<close>

inductive epoll_step :: "kst \<times> epoll_manager \<Rightarrow> kst \<times> epoll_manager \<Rightarrow> bool" where
  ep_create: "epoll_create1 flags m = (r, m') \<Longrightarrow> epoll_step (k, m) (k, m')"
| ep_ctl: "epoll_ctl epfd opn fd event m = (r, m') \<Longrightarrow> epoll_step (k, m) (k, m')"
| ep_poll: "epoll_wait [] node epfd b n 0 (k, m) = Some (r, es, k', m') \<Longrightarrow> epoll_step (k, m) (k', m')"
| ep_notify: "epoll_notify fd events (k, m) = Some (k', m') \<Longrightarrow> epoll_step (k, m) (k', m')"
| ep_clear: "epoll_notify_clear_ready fd m = m' \<Longrightarrow> epoll_step (k, m) (k, m')"
| ep_close: "epoll_close epfd (k, m) = Some (r, k', m') \<Longrightarrow> epoll_step (k, m) (k', m')"

inductive_cases epoll_stepE: "epoll_step (k, m) (k', m')"

lemma set_instance_ok:
  assumes "mgr_ok m" and "i < 128" and "ei_active (em_instances m i)" and "inst_ok inst" and "ei_active inst"
  shows "mgr_ok (set_instance i inst m)"
proof -
  have "actives (set_instance i inst m) = actives m" using assms(2,3,5) unfolding actives_def set_instance_def by auto
  then show ?thesis using assms unfolding mgr_ok_def by (simp add: set_instance_def)
qed

lemma get_instance: "epoll_get_instance epfd m = Some i \<Longrightarrow> i < 128 \<and> ei_active (em_instances m i)"
  by (auto simp: epoll_get_instance_def split: if_splits)

lemma mgr_inst: "mgr_ok m \<Longrightarrow> i < 128 \<Longrightarrow> ei_active (em_instances m i) \<Longrightarrow> inst_ok (em_instances m i)"
  unfolding mgr_ok_def actives_def by blast

lemma create_ok:
  assumes ok: "mgr_ok m" and c: "epoll_alloc_instance m = (r, m')"
  shows "mgr_ok m'"
proof (cases "m' = m")
  case False
  then obtain i where i: "first_index (\<lambda>i. \<not> ei_active (em_instances m i)) 128 = Some i"
    "m' = (set_instance i (instance_zero\<lparr>ei_active := True, ei_wait := wait_queue_init\<rparr>) m)\<lparr>em_active_count := em_active_count m + 1\<rparr>"
    using c by (auto simp: epoll_alloc_instance_def split: if_splits option.splits)
  note fi = first_index_SomeD [OF i(1)]
  have a: "actives m' = insert i (actives m)" using fi(1) unfolding i(2) actives_def set_instance_def by auto
  have n: "i \<notin> actives m" using fi(2) by (simp add: actives_def)
  have new: "inst_ok (instance_zero\<lparr>ei_active := True, ei_wait := wait_queue_init\<rparr>)"
    by (simp add: inst_ok_def ring_ok_def registered_def instance_zero_def)
  have "\<forall>j\<in>actives m'. inst_ok (em_instances m' j)"
  proof
    fix j assume "j \<in> actives m'"
    then show "inst_ok (em_instances m' j)" using ok new n unfolding a mgr_ok_def by (auto simp: i(2) set_instance_def)
  qed
  moreover have "em_active_count m' = int (card (actives m'))" using ok n unfolding a mgr_ok_def by (simp add: i(2))
  ultimately show ?thesis unfolding mgr_ok_def by blast
qed (simp add: ok)

lemma ctl_ok:
  assumes ok: "mgr_ok m" and c: "epoll_ctl epfd opn fd ev m = (r, m')"
  shows "mgr_ok m'"
proof (cases "m' = m")
  case False
  then obtain i where i: "epoll_get_instance epfd m = Some i" using c by (auto simp: epoll_ctl_def split: if_splits option.splits)
  note gi = get_instance [OF i]
  define inst where "inst = em_instances m i"
  have io: "inst_ok inst" "ei_active inst" using mgr_inst [OF ok] gi unfolding inst_def by blast+
  obtain q inst1 where r: "(if opn = 1 then ctl_add fd ev inst else if opn = 2 then ctl_mod fd ev inst else if opn = 3 then ctl_del fd inst else (- 1, inst)) = (q, inst1)"
    by fastforce
  have "inst_ok inst1 \<and> ei_active inst1" using r io ctl_add_ok [OF io(1)] ctl_mod_ok [OF io(1)] ctl_del_ok [OF io(1)] by (auto split: if_splits)
  moreover have "m' = set_instance i inst1 m" using c i r False unfolding epoll_ctl_def inst_def by (auto split: if_splits)
  ultimately show ?thesis using set_instance_ok [OF ok] gi by blast
qed (simp add: ok)

lemma poll_ok:
  assumes ok: "mgr_ok m" and w: "epoll_wait [] node epfd b n 0 (k, m) = Some (r, es, k', m')"
  shows "mgr_ok m'"
proof (cases "m' = m")
  case False
  then obtain i es' inst where i: "epoll_get_instance epfd m = Some i" "take_reports (nat n) (em_instances m i) = (es', inst)" "m' = set_instance i inst m"
    using w by (auto simp: epoll_wait_def Let_def split: if_splits option.splits prod.splits)
  note gi = get_instance [OF i(1)]
  have io: "inst_ok (em_instances m i)" using mgr_inst [OF ok] gi by blast
  then have r: "ring_ok (em_instances m i)" unfolding inst_ok_def by blast
  note tp = take_pending [OF r i(2)]
  have "inst_ok inst" using tp by (intro same_table_ok [OF io]) simp_all
  then show ?thesis using set_instance_ok [OF ok conjunct1 [OF gi] conjunct2 [OF gi]] tp gi unfolding i(3) by simp
qed (simp add: ok)

lemma notify_all_ok:
  "mgr_ok m \<Longrightarrow> set is \<subseteq> {..<128} \<Longrightarrow> notify_instances fd events is (k, m) = Some (k', m') \<Longrightarrow> mgr_ok m'"
proof (induction "is" arbitrary: k m)
  case (Cons i "is")
  show ?case
  proof (cases "ei_active (em_instances m i)")
    case False
    then show ?thesis using Cons by simp
  next
    case True
    obtain k1 inst where n: "notify_instance fd events (k, em_instances m i) = Some (k1, inst)" "notify_instances fd events is (k1, set_instance i inst m) = Some (k', m')"
      using Cons.prems(3) True by (auto split: bind_splits)
    have il: "i < 128" using Cons.prems(2) by simp
    have "mgr_ok (set_instance i inst m)"
      using set_instance_ok [OF Cons.prems(1) il True] notify_facts [OF mgr_inst [OF Cons.prems(1) il True] n(1)] True by simp
    then show ?thesis using Cons.IH n(2) Cons.prems(2) by simp
  qed
qed simp

lemma epoll_clear_ok:
  assumes "mgr_ok m"
  shows "mgr_ok (epoll_notify_clear_ready fd m)"
proof -
  have "mgr_ok m \<Longrightarrow> set is \<subseteq> {..<128} \<Longrightarrow> mgr_ok (fold (\<lambda>i m. if ei_active (em_instances m i) then set_instance i (clear_instance fd (em_instances m i)) m else m) is m)" for "is" m
  proof (induction "is" arbitrary: m)
    case (Cons i "is")
    have "mgr_ok (if ei_active (em_instances m i) then set_instance i (clear_instance fd (em_instances m i)) m else m)"
    proof (cases "ei_active (em_instances m i)")
      case True
      have il: "i < 128" using Cons.prems(2) by simp
      have io: "inst_ok (em_instances m i)" using mgr_inst [OF Cons.prems(1) il True] .
      have "inst_ok (clear_instance fd (em_instances m i)) \<and> ei_active (clear_instance fd (em_instances m i))"
        using io True set_fd_ok [OF io, of "\<lambda>d. d\<lparr>ef_ready := False\<rparr>"] by (auto simp: clear_instance_def split: option.splits)
      then show ?thesis using True set_instance_ok [OF Cons.prems(1) il True] by simp
    qed (simp add: Cons.prems)
    then show ?case using Cons.IH Cons.prems(2) by simp
  qed simp
  moreover have "set [0..<128] \<subseteq> {..<128 :: nat}" by auto
  ultimately show ?thesis using assms unfolding epoll_notify_clear_ready_def by blast
qed

lemma close_ok:
  assumes ok: "mgr_ok m" and c: "epoll_close epfd (k, m) = Some (r, k', m')"
  shows "mgr_ok m'"
proof (cases "epoll_get_instance epfd m")
  case None
  then show ?thesis using c ok by (simp add: epoll_close_def)
next
  case (Some i)
  note gi = get_instance [OF Some]
  obtain wq where m': "m' = (set_instance i (closed_instance wq (em_instances m i)) m)\<lparr>em_active_count := em_active_count m - 1\<rparr>"
    using c Some by (auto simp: epoll_close_def)
  have ia: "i \<in> actives m" using gi by (simp add: actives_def)
  have a: "actives m' = actives m - {i}" unfolding m' actives_def set_instance_def closed_instance_def by auto
  have "\<forall>j\<in>actives m'. inst_ok (em_instances m' j)"
  proof
    fix j assume "j \<in> actives m'"
    then show "inst_ok (em_instances m' j)" using ok unfolding a mgr_ok_def by (auto simp: m' set_instance_def)
  qed
  moreover have "em_active_count m' = int (card (actives m'))"
    using ok card_Suc_Diff1 [OF finite_sets(2) ia] unfolding a mgr_ok_def by (simp add: m' del: card_Diff_insert)
  ultimately show ?thesis unfolding mgr_ok_def by blast
qed

lemma epoll_step_ok:
  assumes "epoll_step (k, m) (k', m')" and ok: "mgr_ok m"
  shows "mgr_ok m'"
  using assms(1)
proof (rule epoll_stepE)
  show "mgr_ok m'" if "epoll_create1 flags m = (r, m')" for flags r using create_ok [OF ok] that by (simp add: epoll_create1_def)
  show "mgr_ok m'" if "epoll_ctl epfd opn fd event m = (r, m')" for epfd opn fd event r using ctl_ok [OF ok that] .
  show "mgr_ok m'" if "epoll_wait [] node epfd b n 0 (k, m) = Some (r, es, k', m')" for node epfd b n r es using poll_ok [OF ok that] .
  show "mgr_ok m'" if "epoll_notify fd events (k, m) = Some (k', m')" for fd events
  proof (cases "fd < 0")
    case True
    then show ?thesis using that ok by (simp add: epoll_notify_def)
  next
    case False
    then have "notify_instances fd events [0..<128] (k, m) = Some (k', m')" using that by (simp add: epoll_notify_def)
    moreover have "set [0..<128] \<subseteq> {..<128 :: nat}" by auto
    ultimately show ?thesis using notify_all_ok [OF ok] by blast
  qed
  show "mgr_ok m'" if "epoll_notify_clear_ready fd m = m'" for fd using epoll_clear_ok [OF ok] that by blast
  show "mgr_ok m'" if "epoll_close epfd (k, m) = Some (r, k', m')" for epfd r using close_ok [OF ok that] .
qed

interpretation ep_run: kept epoll_step "\<lambda>s. mgr_ok (snd s)"
proof
  show "mgr_ok (snd s')" if "epoll_step s s'" "mgr_ok (snd s)" for s s'
    using epoll_step_ok [of "fst s" "snd s" "fst s'" "snd s'"] that by simp
qed

text \<open>
  C40. After every sequence of calls, an active instance has at most one registration for a descriptor, its counter is the number
  of registrations, its indices are within the ring, and the manager counts its active instances, of which there are at most 128.
\<close>

theorem epoll_tables_consistent:
  assumes "epoll_step\<^sup>*\<^sup>* (k0, epoll_init m0) (k, m)" and "i < 128" and "ei_active (em_instances m i)"
  shows "inj_on (\<lambda>j. ef_fd (ei_fds (em_instances m i) j)) {j. j < 1024 \<and> ef_registered (ei_fds (em_instances m i) j)} \<and>
     ei_fd_count (em_instances m i) = int (card {j. j < 1024 \<and> ef_registered (ei_fds (em_instances m i) j)}) \<and>
     ei_head (em_instances m i) < 256 \<and> ei_tail (em_instances m i) < 256 \<and>
     em_active_count m = int (card {i. i < 128 \<and> ei_active (em_instances m i)}) \<and> em_active_count m \<le> 128"
proof -
  have "mgr_ok (epoll_init m0)" by (simp add: mgr_ok_def actives_def epoll_init_def instance_zero_def)
  then have ok: "mgr_ok m" using ep_run.steps_keep [OF assms(1)] by simp
  have "card (actives m) \<le> card {..<128 :: nat}" by (rule card_mono) (auto simp: actives_def)
  then have c: "em_active_count m = int (card (actives m))" "em_active_count m \<le> 128" using ok unfolding mgr_ok_def by simp_all
  then show ?thesis using mgr_inst [OF ok assms(2,3)] unfolding inst_ok_def registered_def ring_ok_def actives_def by simp
qed

definition kst_zero :: kst where
  "kst_zero = \<lparr>ks_heap = (\<lambda>_. \<lparr>wn_proc = None, wn_next = None, wn_prev = None\<rparr>), ks_state = (\<lambda>_. PROCESS_UNUSED), ks_enqueued = [], ks_current = 0, ks_jiffies = 0\<rparr>"

definition one_instance :: epoll_manager where
  "one_instance = snd (epoll_create1 0 (epoll_init \<lparr>em_instances = (\<lambda>_. instance_zero), em_active_count = 0\<rparr>))"

theorem epoll_tables_consistent_witness:
  "ei_fd_count (em_instances one_instance 0) = int (card {j. j < 1024 \<and> ef_registered (ei_fds (em_instances one_instance 0) j)}) \<and>
   em_active_count one_instance = int (card {i. i < 128 \<and> ei_active (em_instances one_instance i)})"
proof -
  let ?m = "epoll_init \<lparr>em_instances = (\<lambda>_. instance_zero), em_active_count = 0\<rparr>"
  have "epoll_create1 0 ?m = (fst (epoll_create1 0 ?m), one_instance)" by (simp add: one_instance_def)
  then have r: "epoll_step\<^sup>*\<^sup>* (kst_zero, ?m) (kst_zero, one_instance)" by (intro r_into_rtranclp ep_create)
  have "first_index (\<lambda>i. \<not> ei_active (em_instances ?m i)) 128 = Some 0" by (rule first_index_SomeI) (simp_all add: epoll_init_def instance_zero_def)
  then have "ei_active (em_instances one_instance 0)" by (simp add: one_instance_def epoll_create1_def epoll_alloc_instance_def set_instance_def epoll_init_def)
  from epoll_tables_consistent [OF r _ this] show ?thesis by simp
qed

end
