(* ===== verification/WorkQ.thy ===== *)
theory WorkQ
  imports TimerFires Interfaces
begin

text \<open>
  Work queues, \<open>kernel/kernel/workqueue.c\<close>: queues of work items linked by their \<open>next\<close> fields, the thread that runs them, and
  delayed work on the timer wheel of \<open>TimerWheel\<close>. Functions of work items are numbers; what they do is a parameter of the thread.
  Whether an allocation or the creation of a thread succeeds is an argument; what is freed and what is run is logged.
\<close>

section \<open>State\<close>

type_synonym addr = nat

record work_struct =
  wk_next :: "addr option"
  wk_func :: "nat option"
  wk_data :: nat
  wk_pending :: bool

record workqueue_struct =
  ws_head :: "addr option"
  ws_tail :: "addr option"
  ws_pending_count :: u32
  ws_name :: string
  ws_thread_pid :: u64
  ws_should_stop :: bool

record delayed_work_wrapper =
  dw_work :: addr
  dw_wq :: addr

record wkst =
  wk_works :: "addr \<Rightarrow> work_struct"
  wk_queues :: "addr \<Rightarrow> workqueue_struct"
  wk_all :: "nat \<Rightarrow> addr option"
  wk_count :: nat
  wk_delayed :: "addr \<Rightarrow> delayed_work_wrapper"
  wk_wheel :: timer_wheel
  wk_runs :: "(nat \<times> nat) list"
  wk_freed :: "addr list"
  wk_stopped :: "u64 list"

definition upd_work :: "addr \<Rightarrow> (work_struct \<Rightarrow> work_struct) \<Rightarrow> wkst \<Rightarrow> wkst" where
  "upd_work w f s = s\<lparr>wk_works := (wk_works s)(w := f (wk_works s w))\<rparr>"

definition upd_queue :: "addr \<Rightarrow> (workqueue_struct \<Rightarrow> workqueue_struct) \<Rightarrow> wkst \<Rightarrow> wkst" where
  "upd_queue q f s = s\<lparr>wk_queues := (wk_queues s)(q := f (wk_queues s q))\<rparr>"

definition init_work :: "addr \<Rightarrow> nat option \<Rightarrow> nat \<Rightarrow> wkst \<Rightarrow> wkst" where
  "init_work w f d = upd_work w (\<lambda>_. \<lparr>wk_next = None, wk_func = f, wk_data = d, wk_pending = False\<rparr>)"

section \<open>Queues\<close>

text \<open>\<open>thread\<close> is the process that \<open>kthread_run\<close> made, if it made one.\<close>

definition create_workqueue :: "addr option \<Rightarrow> u64 option \<Rightarrow> string option \<Rightarrow> wkst \<Rightarrow> addr option \<times> wkst" where
  "create_workqueue alloc thread name s =
     (case alloc of
        None \<Rightarrow> (None, s)
      | Some q \<Rightarrow>
          let s1 = upd_queue q (\<lambda>_. \<lparr>ws_head = None, ws_tail = None, ws_pending_count = 0,
                     ws_name = (case name of Some n \<Rightarrow> take 31 n | None \<Rightarrow> ''wq''),
                     ws_thread_pid = (case thread of Some p \<Rightarrow> p | None \<Rightarrow> 0), ws_should_stop = False\<rparr>) s
          in (Some q, if wk_count s1 < 16 then s1\<lparr>wk_all := (wk_all s1)(wk_count s1 := Some q), wk_count := wk_count s1 + 1\<rparr> else s1))"

definition workqueue_init :: "addr option \<Rightarrow> u64 option \<Rightarrow> wkst \<Rightarrow> wkst" where
  "workqueue_init alloc thread s = snd (create_workqueue alloc thread (Some ''system_wq'') s)"

partial_function (option) clear_pending :: "addr option \<Rightarrow> wkst \<Rightarrow> wkst option" where
  "clear_pending w s = (case w of
       None \<Rightarrow> Some s
     | Some a \<Rightarrow> clear_pending (wk_next (wk_works s a)) (upd_work a (\<lambda>x. x\<lparr>wk_pending := False\<rparr>) s))"

definition destroy_workqueue :: "addr option \<Rightarrow> wkst \<Rightarrow> wkst option" where
  "destroy_workqueue wq s =
     (case wq of
        None \<Rightarrow> Some s
      | Some q \<Rightarrow>
          let s1 = upd_queue q (\<lambda>x. x\<lparr>ws_should_stop := True\<rparr>) s;
              s2 = s1\<lparr>wk_stopped := wk_stopped s1 @ [ws_thread_pid (wk_queues s1 q)]\<rparr>
          in map_option (\<lambda>s3. (upd_queue q (\<lambda>x. x\<lparr>ws_head := None, ws_tail := None\<rparr>) s3)\<lparr>wk_freed := wk_freed s3 @ [q]\<rparr>)
               (clear_pending (ws_head (wk_queues s2 q)) s2))"

definition queue_work :: "addr option \<Rightarrow> addr option \<Rightarrow> wkst \<Rightarrow> int \<times> wkst" where
  "queue_work wq work s =
     (case (wq, work) of
        (Some q, Some w) \<Rightarrow>
          if wk_func (wk_works s w) = None then (- 1, s)
          else if wk_pending (wk_works s w) then (0, s)
          else
            let s1 = upd_work w (\<lambda>x. x\<lparr>wk_next := None, wk_pending := True\<rparr>) s;
                s2 = (case ws_tail (wk_queues s1 q) of
                        Some t \<Rightarrow> upd_work t (\<lambda>x. x\<lparr>wk_next := Some w\<rparr>) s1
                      | None \<Rightarrow> upd_queue q (\<lambda>x. x\<lparr>ws_head := Some w\<rparr>) s1)
            in (0, upd_queue q (\<lambda>x. x\<lparr>ws_tail := Some w, ws_pending_count := ws_pending_count x + 1\<rparr>) s2)
      | _ \<Rightarrow> (- 1, s))"

text \<open>The search for the item before \<open>w\<close>.\<close>

partial_function (option) seek_prev :: "(addr \<Rightarrow> work_struct) \<Rightarrow> addr \<Rightarrow> addr option \<Rightarrow> addr option option" where
  "seek_prev h w p = (case p of
       None \<Rightarrow> Some None
     | Some a \<Rightarrow> if wk_next (h a) = Some w then Some (Some a) else seek_prev h w (wk_next (h a)))"

definition cancel_work :: "addr option \<Rightarrow> addr option \<Rightarrow> wkst \<Rightarrow> (int \<times> wkst) option" where
  "cancel_work wq work s =
     (case (wq, work) of
        (Some q, Some w) \<Rightarrow>
          if \<not> wk_pending (wk_works s w) then Some (0, s)
          else
            let finish = (\<lambda>s. (0, upd_queue q (\<lambda>x. x\<lparr>ws_pending_count := ws_pending_count x - 1\<rparr>)
                                     (upd_work w (\<lambda>x. x\<lparr>wk_next := None, wk_pending := False\<rparr>) s)))
            in if ws_head (wk_queues s q) = Some w
               then let n = wk_next (wk_works s w)
                    in Some (finish (upd_queue q (\<lambda>x. x\<lparr>ws_head := n, ws_tail := (if n = None then None else ws_tail x)\<rparr>) s))
               else map_option (\<lambda>p. finish (case p of
                        None \<Rightarrow> s
                      | Some a \<Rightarrow> upd_queue q (\<lambda>x. x\<lparr>ws_tail := (if ws_tail x = Some w then Some a else ws_tail x)\<rparr>)
                                    (upd_work a (\<lambda>x. x\<lparr>wk_next := wk_next (wk_works s w)\<rparr>) s)))
                    (seek_prev (wk_works s) w (ws_head (wk_queues s q)))
      | _ \<Rightarrow> Some (- 1, s))"

section \<open>The thread\<close>

text \<open>The locked section of the loop: the first item is taken off.\<close>

definition take_work :: "addr \<Rightarrow> wkst \<Rightarrow> addr option \<times> wkst" where
  "take_work q s =
     (case ws_head (wk_queues s q) of
        None \<Rightarrow> (None, s)
      | Some w \<Rightarrow>
          let n = wk_next (wk_works s w)
          in (Some w, upd_queue q (\<lambda>x. x\<lparr>ws_head := n, ws_tail := (if n = None then None else ws_tail x), ws_pending_count := ws_pending_count x - 1\<rparr>)
                        (upd_work w (\<lambda>x. x\<lparr>wk_next := None, wk_pending := False\<rparr>) s)))"

text \<open>\<open>F\<close> is what the functions do, given the function and its data.\<close>

definition run_work :: "(nat \<Rightarrow> nat \<Rightarrow> wkst \<Rightarrow> wkst) \<Rightarrow> addr \<Rightarrow> wkst \<Rightarrow> wkst" where
  "run_work F w s =
     (case wk_func (wk_works s w) of
        None \<Rightarrow> s
      | Some f \<Rightarrow> F f (wk_data (wk_works s w)) (s\<lparr>wk_runs := wk_runs s @ [(f, wk_data (wk_works s w))]\<rparr>))"

partial_function (option) workqueue_thread ::
  "(nat \<Rightarrow> nat \<Rightarrow> wkst \<Rightarrow> wkst) \<Rightarrow> (wkst \<Rightarrow> wkst) list \<Rightarrow> addr \<Rightarrow> wkst \<Rightarrow> wkst option" where
  "workqueue_thread F env q s =
     (if ws_should_stop (wk_queues s q) then Some s
      else case take_work q s of
             (None, s1) \<Rightarrow> (case env of [] \<Rightarrow> None | e # es \<Rightarrow> workqueue_thread F es q (e s1))
           | (Some w, s1) \<Rightarrow> workqueue_thread F env q (run_work F w s1))"

text \<open>The caller yields while items are pending; \<open>None\<close> is a wait that goes on.\<close>

fun flush_workqueue :: "(wkst \<Rightarrow> wkst) list \<Rightarrow> addr option \<Rightarrow> wkst \<Rightarrow> wkst option" where
  "flush_workqueue env None s = Some s"
| "flush_workqueue [] (Some q) s = (if ws_pending_count (wk_queues s q) = 0 then Some s else None)"
| "flush_workqueue (e # es) (Some q) s =
     (if ws_pending_count (wk_queues s q) = 0 then Some s else flush_workqueue es (Some q) (e s))"

section \<open>Delayed work\<close>

text \<open>The timer of a wrapper is named by the address of the wrapper, which is also the argument of its callback.\<close>

definition DELAYED_WORK_CALLBACK :: nat where
  "DELAYED_WORK_CALLBACK = 1"

definition delayed_work_callback :: "addr \<Rightarrow> wkst \<Rightarrow> wkst" where
  "delayed_work_callback d s =
     (let s1 = snd (queue_work (Some (dw_wq (wk_delayed s d))) (Some (dw_work (wk_delayed s d))) s)
      in s1\<lparr>wk_freed := wk_freed s1 @ [d]\<rparr>)"

definition queue_delayed_work :: "addr option \<Rightarrow> addr option \<Rightarrow> addr option \<Rightarrow> u64 \<Rightarrow> wkst \<Rightarrow> (int \<times> wkst) option" where
  "queue_delayed_work alloc wq work delay_ms s =
     (case (wq, work) of
        (Some q, Some w) \<Rightarrow>
          if delay_ms = 0 then Some (queue_work wq work s)
          else (case alloc of
                  None \<Rightarrow> Some (- 1, s)
                | Some d \<Rightarrow>
                    map_option (\<lambda>(_, tw). (0, s\<lparr>wk_delayed := (wk_delayed s)(d := \<lparr>dw_work = w, dw_wq = q\<rparr>), wk_wheel := tw\<rparr>))
                      (timer_add (Some d) delay_ms (Some DELAYED_WORK_CALLBACK) d (wk_wheel s)))
      | _ \<Rightarrow> Some (- 1, s))"

text \<open>
  A tick of the wheel, with the callbacks of delayed work that it makes. They do not touch the wheel, whose lock is held, so that
  they can be run after it, in the order of the log.
\<close>

definition delayed_tick :: "wkst \<Rightarrow> wkst option" where
  "delayed_tick s =
     map_option (\<lambda>tw. fold (\<lambda>(j, t, c, a) s. if c = DELAYED_WORK_CALLBACK then delayed_work_callback a s else s)
         (drop (length (tw_called (wk_wheel s))) (tw_called tw)) (s\<lparr>wk_wheel := tw\<rparr>))
       (wheel_tick (wk_wheel s))"

end
