(* ===== verification/WorkQProps.thy ===== *)
theory WorkQProps
  imports WorkQ
begin

text \<open>
  A work queue against its specification, the list of its pending items; its thread; and delayed work on the timer wheel.
\<close>

section \<open>Linked items\<close>

fun wlinked :: "(addr \<Rightarrow> work_struct) \<Rightarrow> addr option \<Rightarrow> addr list \<Rightarrow> bool" where
  "wlinked h p [] \<longleftrightarrow> p = None"
| "wlinked h p (x # xs) \<longleftrightarrow> p = Some x \<and> wlinked h (wk_next (h x)) xs"

lemma wlinked_cong: "(\<And>x. x \<in> set xs \<Longrightarrow> wk_next (h' x) = wk_next (h x)) \<Longrightarrow> wlinked h' p xs = wlinked h p xs"
  by (induction xs arbitrary: p) auto

lemma wlinked_snoc:
  assumes "wlinked h p xs" and "xs \<noteq> []" and "distinct xs" and "x \<notin> set xs" and "wk_next (h' x) = None"
    and "wk_next (h' (last xs)) = Some x" and "\<And>y. y \<noteq> x \<Longrightarrow> y \<noteq> last xs \<Longrightarrow> wk_next (h' y) = wk_next (h y)"
  shows "wlinked h' p (xs @ [x])"
  using assms
proof (induction xs arbitrary: p)
  case (Cons a as)
  show ?case
  proof (cases "as = []")
    case True
    then show ?thesis using Cons.prems by simp
  next
    case False
    then have "wlinked h' (wk_next (h a)) (as @ [x])" using Cons by simp
    moreover have "a \<noteq> x" "a \<noteq> last (a # as)" using Cons.prems(3,4) False last_in_set [of as] by auto
    then have "wk_next (h' a) = wk_next (h a)" by (rule Cons.prems(7))
    ultimately show ?thesis using Cons.prems(1) by simp
  qed
qed simp

lemma seek_prev_ok:
  assumes "wlinked h p (ys @ a # w # zs)" and "distinct (ys @ a # w # zs)"
  shows "seek_prev h w p = Some (Some a)"
  using assms
proof (induction ys arbitrary: p)
  case Nil
  then show ?case by (simp add: seek_prev.simps)
next
  case (Cons y ys)
  have "wk_next (h y) \<noteq> Some w" using Cons.prems by (cases ys) auto
  then show ?case using Cons by (subst seek_prev.simps) simp
qed

lemma wlinked_skip:
  assumes "wlinked h p (ys @ a # w # zs)" and "distinct (ys @ a # w # zs)" and "wk_next (h' a) = wk_next (h w)"
    and "\<And>y. y \<noteq> a \<Longrightarrow> y \<noteq> w \<Longrightarrow> wk_next (h' y) = wk_next (h y)"
  shows "wlinked h' p (ys @ a # zs)"
  using assms
proof (induction ys arbitrary: p)
  case Nil
  have "wk_next (h' x) = wk_next (h x)" if "x \<in> set zs" for x using Nil.prems(2) that by (intro Nil.prems(4)) auto
  then have "wlinked h' (wk_next (h w)) zs = wlinked h (wk_next (h w)) zs" by (rule wlinked_cong)
  then show ?case using Nil by simp
next
  case (Cons y ys)
  then have "wk_next (h' y) = wk_next (h y)" by simp
  then show ?case using Cons by simp
qed

section \<open>The contract of a queue\<close>

datatype wq_call = QueueWork addr | CancelWork addr | NextWork
datatype wq_result = Code int | Work "addr option" | Fault

fun call_wq :: "addr \<Rightarrow> wq_call \<Rightarrow> wkst \<Rightarrow> wq_result \<times> wkst" where
  "call_wq q (QueueWork w) s = (case queue_work (Some q) (Some w) s of (r, s') \<Rightarrow> (Code r, s'))"
| "call_wq q (CancelWork w) s = (case cancel_work (Some q) (Some w) s of Some (r, s') \<Rightarrow> (Code r, s') | None \<Rightarrow> (Fault, s))"
| "call_wq q NextWork s = (case take_work q s of (w, s') \<Rightarrow> (Work w, s'))"

text \<open>The specification: the list of the pending items. \<open>ok\<close> says which items have a function.\<close>

fun spec_wq :: "(addr \<Rightarrow> bool) \<Rightarrow> wq_call \<Rightarrow> addr list \<Rightarrow> wq_result \<times> addr list" where
  "spec_wq ok (QueueWork w) xs = (if \<not> ok w then (Code (- 1), xs) else (Code 0, if w \<in> set xs then xs else xs @ [w]))"
| "spec_wq ok (CancelWork w) xs = (Code 0, remove1 w xs)"
| "spec_wq ok NextWork xs = (case xs of [] \<Rightarrow> (Work None, []) | x # xs \<Rightarrow> (Work (Some x), xs))"

definition wq_sim :: "addr \<Rightarrow> (addr \<Rightarrow> bool) \<Rightarrow> wkst \<Rightarrow> addr list \<Rightarrow> bool" where
  "wq_sim q ok s xs \<longleftrightarrow>
     wlinked (wk_works s) (ws_head (wk_queues s q)) xs \<and> distinct xs \<and>
     ws_tail (wk_queues s q) = (if xs = [] then None else Some (last xs)) \<and>
     ws_pending_count (wk_queues s q) = of_nat (length xs) \<and>
     (\<forall>w. wk_pending (wk_works s w) \<longleftrightarrow> w \<in> set xs) \<and> (\<forall>w. ok w \<longleftrightarrow> wk_func (wk_works s w) \<noteq> None)"

lemma wk_frames [simp]:
  "wk_works (upd_queue q f s) = wk_works s" "wk_queues (upd_work w g s) = wk_queues s"
  "wk_works (upd_work w g s) = (wk_works s)(w := g (wk_works s w))" "wk_queues (upd_queue q f s) = (wk_queues s)(q := f (wk_queues s q))"
  "wk_wheel (upd_queue q f s) = wk_wheel s" "wk_wheel (upd_work w g s) = wk_wheel s"
  "wk_freed (upd_queue q f s) = wk_freed s" "wk_freed (upd_work w g s) = wk_freed s"
  "wk_runs (upd_queue q f s) = wk_runs s" "wk_runs (upd_work w g s) = wk_runs s"
  by (simp_all add: upd_queue_def upd_work_def)

lemma queue_work_ok:
  assumes s: "wq_sim q ok s xs" and w: "ok w"
  shows "\<exists>s'. queue_work (Some q) (Some w) s = (0, s') \<and> wq_sim q ok s' (if w \<in> set xs then xs else xs @ [w])"
proof (cases "w \<in> set xs")
  case True
  then show ?thesis using s w by (auto simp: queue_work_def wq_sim_def)
next
  case False
  have f: "wk_func (wk_works s w) \<noteq> None" "\<not> wk_pending (wk_works s w)" using s w False by (auto simp: wq_sim_def)
  show ?thesis
  proof (cases "xs = []")
    case True
    then show ?thesis using s f by (simp add: queue_work_def wq_sim_def Let_def)
  next
    case ne: False
    define h' where "h' = (wk_works s)(w := (wk_works s w)\<lparr>wk_next := None, wk_pending := True\<rparr>,
        last xs := ((wk_works s)(w := (wk_works s w)\<lparr>wk_next := None, wk_pending := True\<rparr>)) (last xs)\<lparr>wk_next := Some w\<rparr>)"
    have lw: "last xs \<noteq> w" "last xs \<in> set xs" using ne False by auto
    have "wlinked h' (ws_head (wk_queues s q)) (xs @ [w])"
      using s lw ne False unfolding wq_sim_def by (intro wlinked_snoc [where h = "wk_works s"]) (auto simp: h'_def)
    then show ?thesis using s f ne lw False unfolding wq_sim_def h'_def by (auto simp: queue_work_def Let_def)
  qed
qed

lemma take_work_ok:
  assumes s: "wq_sim q ok s xs"
  shows "\<exists>s'. take_work q s = ((case xs of [] \<Rightarrow> None | x # _ \<Rightarrow> Some x), s') \<and> wq_sim q ok s' (tl xs) \<and>
     wk_wheel s' = wk_wheel s \<and> wk_runs s' = wk_runs s \<and> ws_should_stop (wk_queues s' q) = ws_should_stop (wk_queues s q) \<and>
     (\<forall>w. wk_func (wk_works s' w) = wk_func (wk_works s w) \<and> wk_data (wk_works s' w) = wk_data (wk_works s w))"
proof (cases xs)
  case Nil
  then show ?thesis using s by (simp add: wq_sim_def take_work_def)
next
  case (Cons x ys)
  let ?h = "(wk_works s)(x := (wk_works s x)\<lparr>wk_next := None, wk_pending := False\<rparr>)"
  have l: "ws_head (wk_queues s q) = Some x" "wlinked (wk_works s) (wk_next (wk_works s x)) ys" "x \<notin> set ys" "distinct ys"
    using s Cons by (auto simp: wq_sim_def)
  have "wlinked ?h (wk_next (wk_works s x)) ys" using l by (subst wlinked_cong [where h = "wk_works s"]) auto
  moreover have "wk_next (wk_works s x) = None \<longleftrightarrow> ys = []" using l(2) by (cases ys) auto
  ultimately show ?thesis using s l Cons by (auto simp: take_work_def wq_sim_def Let_def)
qed

lemma cancel_work_ok:
  assumes s: "wq_sim q ok s xs"
  shows "\<exists>s'. cancel_work (Some q) (Some w) s = Some (0, s') \<and> wq_sim q ok s' (remove1 w xs)"
proof (cases "w \<in> set xs")
  case False
  then show ?thesis using s by (simp add: wq_sim_def cancel_work_def remove1_idem)
next
  case True
  then have p: "wk_pending (wk_works s w)" using s by (simp add: wq_sim_def)
  obtain ys zs where xs: "xs = ys @ w # zs" using split_list [OF True] by blast
  have d: "distinct xs" "wlinked (wk_works s) (ws_head (wk_queues s q)) xs" using s by (simp_all add: wq_sim_def)
  then have r: "remove1 w xs = ys @ zs" unfolding xs by (simp add: remove1_append)
  show ?thesis
  proof (cases ys rule: rev_cases)
    case Nil
    let ?h = "(wk_works s)(w := (wk_works s w)\<lparr>wk_next := None, wk_pending := False\<rparr>)"
    have l: "ws_head (wk_queues s q) = Some w" "wlinked (wk_works s) (wk_next (wk_works s w)) zs" using d(2) xs Nil by auto
    then have n: "wk_next (wk_works s w) = None \<longleftrightarrow> zs = []" by (cases zs) auto
    have "wlinked ?h (wk_next (wk_works s w)) zs" using l(2) d(1) xs by (subst wlinked_cong [where h = "wk_works s"]) auto
    then show ?thesis unfolding r using s p l n xs Nil by (auto simp: cancel_work_def wq_sim_def Let_def)
  next
    case (snoc ys' a)
    have l: "wlinked (wk_works s) (ws_head (wk_queues s q)) (ys' @ a # w # zs)" "distinct (ys' @ a # w # zs)" using d xs snoc by simp_all
    have nh: "ws_head (wk_queues s q) \<noteq> Some w" using l by (cases ys') auto
    have sk: "seek_prev (wk_works s) w (ws_head (wk_queues s q)) = Some (Some a)" by (rule seek_prev_ok [OF l])
    define h' where "h' = (wk_works s)(a := (wk_works s a)\<lparr>wk_next := wk_next (wk_works s w)\<rparr>,
        w := ((wk_works s)(a := (wk_works s a)\<lparr>wk_next := wk_next (wk_works s w)\<rparr>)) w\<lparr>wk_next := None, wk_pending := False\<rparr>)"
    have aw: "a \<noteq> w" "w \<notin> set ys'" "w \<notin> set zs" using l(2) by auto
    have "wlinked h' (ws_head (wk_queues s q)) (ys' @ a # zs)"
      using aw by (intro wlinked_skip [OF l]) (auto simp: h'_def)
    moreover have "last xs = w \<longleftrightarrow> zs = []" using l(2) unfolding xs snoc by (cases zs rule: rev_cases) auto
    ultimately show ?thesis unfolding r using s p nh sk xs snoc aw unfolding wq_sim_def
      by (auto simp: cancel_work_def Let_def h'_def)
  qed
qed

lemma wq_sim_call:
  assumes "wq_sim q ok s xs"
  shows "fst (call_wq q c s) = fst (spec_wq ok c xs) \<and> wq_sim q ok (snd (call_wq q c s)) (snd (spec_wq ok c xs))"
proof (cases c)
  case (QueueWork w)
  show ?thesis
  proof (cases "ok w")
    case True
    then show ?thesis using queue_work_ok [OF assms True] QueueWork by auto
  next
    case False
    then have "wk_func (wk_works s w) = None" using assms by (simp add: wq_sim_def)
    then show ?thesis using assms QueueWork False by (simp add: queue_work_def)
  qed
next
  case (CancelWork w)
  then show ?thesis using cancel_work_ok [OF assms, of w] by auto
next
  case NextWork
  then show ?thesis using take_work_ok [OF assms] by (auto split: list.split)
qed

interpretation wq: simulation "call_wq q" "spec_wq ok" "wq_sim q ok" for q ok
  by unfold_locales (rule wq_sim_call)

text \<open>
  A work queue is a list of pending items: whatever items are queued, cancelled and taken off to be run, every call results in
  what it results in on a list without repetitions, in which queueing appends an item that is not pending, cancelling removes it and
  the thread takes the first. An item that is queued again while it is pending stays in its place.
\<close>

theorem work_queue_refines_list:
  assumes "create_workqueue (Some q) thread name s0 = (Some q, s)" and "\<forall>w. \<not> wk_pending (wk_works s0 w)"
  shows "fst (run_calls (call_wq q) cs s) = fst (run_calls (spec_wq (\<lambda>w. wk_func (wk_works s0 w) \<noteq> None)) cs [])"
proof -
  have "wq_sim q (\<lambda>w. wk_func (wk_works s0 w) \<noteq> None) s []" using assms by (auto simp: create_workqueue_def wq_sim_def Let_def split: if_splits)
  from wq.sim_calls [OF this, of cs] show ?thesis by simp
qed

definition demo_wkst :: wkst where
  "demo_wkst = \<lparr>wk_works = (\<lambda>w. \<lparr>wk_next = None, wk_func = Some w, wk_data = 0, wk_pending = False\<rparr>),
     wk_queues = (\<lambda>_. \<lparr>ws_head = None, ws_tail = None, ws_pending_count = 0, ws_name = [], ws_thread_pid = 0, ws_should_stop = False\<rparr>),
     wk_all = (\<lambda>_. None), wk_count = 0, wk_delayed = (\<lambda>_. \<lparr>dw_work = 0, dw_wq = 0\<rparr>), wk_wheel = wheel_blank, wk_runs = [], wk_freed = [], wk_stopped = []\<rparr>"

theorem work_queue_refines_list_witness:
  "fst (run_calls (call_wq 9) [QueueWork 1, QueueWork 2, QueueWork 3, QueueWork 1, CancelWork 2, NextWork, NextWork, NextWork]
     (snd (create_workqueue (Some 9) (Some 4) (Some ''w'') demo_wkst))) =
   [Code 0, Code 0, Code 0, Code 0, Code 0, Work (Some 1), Work (Some 3), Work None]"
proof -
  have c: "create_workqueue (Some 9) (Some 4) (Some ''w'') demo_wkst = (Some 9, snd (create_workqueue (Some 9) (Some 4) (Some ''w'') demo_wkst))"
    by (simp add: create_workqueue_def Let_def)
  have p: "\<forall>w. \<not> wk_pending (wk_works demo_wkst w)" by (simp add: demo_wkst_def)
  show ?thesis unfolding work_queue_refines_list [OF c p] by (simp add: demo_wkst_def)
qed

section \<open>The thread\<close>

lemma run_work_log:
  "wk_func (wk_works s w) = Some f \<Longrightarrow> run_work (\<lambda>_ _ s. s) w s = s\<lparr>wk_runs := wk_runs s @ [(f, wk_data (wk_works s w))]\<rparr>"
  by (simp add: run_work_def)

lemma thread_runs:
  assumes "wq_sim q ok s xs" and "\<not> ws_should_stop (wk_queues s q)" and "\<forall>w\<in>set xs. ok w"
  shows "\<exists>s'. workqueue_thread (\<lambda>_ _ s. s) env q s = workqueue_thread (\<lambda>_ _ s. s) env q s' \<and> wq_sim q ok s' [] \<and>
     \<not> ws_should_stop (wk_queues s' q) \<and> wk_runs s' = wk_runs s @ map (\<lambda>w. (the (wk_func (wk_works s w)), wk_data (wk_works s w))) xs"
  using assms
proof (induction xs arbitrary: s)
  case Nil
  then show ?case by auto
next
  case (Cons x xs)
  obtain s1 where s1: "take_work q s = (Some x, s1)" "wq_sim q ok s1 xs" "wk_runs s1 = wk_runs s" "\<not> ws_should_stop (wk_queues s1 q)"
    "\<And>w. wk_func (wk_works s1 w) = wk_func (wk_works s w)" "\<And>w. wk_data (wk_works s1 w) = wk_data (wk_works s w)"
    using take_work_ok [OF Cons.prems(1)] Cons.prems(2) by auto
  obtain f where f: "wk_func (wk_works s x) = Some f" using Cons.prems(1,3) unfolding wq_sim_def by auto
  define s2 where "s2 = s1\<lparr>wk_runs := wk_runs s1 @ [(f, wk_data (wk_works s1 x))]\<rparr>"
  have r: "run_work (\<lambda>_ _ s. s) x s1 = s2" using f s1(5) by (simp add: run_work_log s2_def)
  have t: "workqueue_thread (\<lambda>_ _ s. s) env q s = workqueue_thread (\<lambda>_ _ s. s) env q s2"
    using Cons.prems(2) s1(1) r by (subst workqueue_thread.simps) simp
  have "wq_sim q ok s2 xs" using s1(2) unfolding s2_def wq_sim_def by simp
  moreover have "\<not> ws_should_stop (wk_queues s2 q)" using s1(4) by (simp add: s2_def)
  ultimately obtain s3 where s3: "workqueue_thread (\<lambda>_ _ s. s) env q s2 = workqueue_thread (\<lambda>_ _ s. s) env q s3" "wq_sim q ok s3 []"
    "\<not> ws_should_stop (wk_queues s3 q)" "wk_runs s3 = wk_runs s2 @ map (\<lambda>w. (the (wk_func (wk_works s2 w)), wk_data (wk_works s2 w))) xs"
    using Cons.IH [of s2] Cons.prems(3) by auto
  have "wk_runs s3 = wk_runs s @ map (\<lambda>w. (the (wk_func (wk_works s w)), wk_data (wk_works s w))) (x # xs)"
    using s3(4) f by (simp add: s2_def s1)
  then show ?case using s3 t by auto
qed

text \<open>
  The thread of a work queue runs the pending items in the order in which they were queued, each once and with its data, and
  then yields; when it is told to stop meanwhile it ends. The queue is then empty, for functions that do not queue work themselves.
\<close>

theorem work_thread_runs_pending:
  assumes "create_workqueue (Some q) thread name s0 = (Some q, s)" and "\<forall>w. \<not> wk_pending (wk_works s0 w)"
    and "run_calls (call_wq q) cs s = (rs, s1)" and "\<not> ws_should_stop (wk_queues s1 q)"
    and "\<forall>t. ws_should_stop (wk_queues (e t) q)"
  shows "\<exists>t. workqueue_thread (\<lambda>_ _ s. s) [e] q s1 = Some (e t) \<and> ws_pending_count (wk_queues t q) = 0 \<and>
     wk_runs t = wk_runs s1 @ map (\<lambda>w. (the (wk_func (wk_works s1 w)), wk_data (wk_works s1 w)))
       (snd (run_calls (spec_wq (\<lambda>w. wk_func (wk_works s0 w) \<noteq> None)) cs []))"
proof -
  let ?ok = "\<lambda>w. wk_func (wk_works s0 w) \<noteq> None"
  define xs where "xs = snd (run_calls (spec_wq ?ok) cs [])"
  have "wq_sim q ?ok s []" using assms(1,2) by (auto simp: create_workqueue_def wq_sim_def Let_def split: if_splits)
  then have sim: "wq_sim q ?ok s1 xs" using wq.sim_calls [of q ?ok s "[]" cs] assms(3) unfolding xs_def by simp
  have "set (snd (run_calls (spec_wq ?ok) cs ys)) \<subseteq> {w. ?ok w}" if "set ys \<subseteq> {w. ?ok w}" for ys
    using that
  proof (induction cs arbitrary: ys)
    case (Cons c cs)
    have "set (snd (spec_wq ?ok c ys)) \<subseteq> {w. ?ok w}" using Cons.prems set_remove1_subset [of _ ys] by (cases c) (auto split: list.splits)
    then show ?case using Cons.IH by (simp add: case_prod_beta)
  qed simp
  from this [of "[]"] have all: "\<forall>w\<in>set xs. ?ok w" unfolding xs_def by auto
  from thread_runs [OF sim assms(4) all, of "[e]"] obtain t where t: "workqueue_thread (\<lambda>_ _ s. s) [e] q s1 = workqueue_thread (\<lambda>_ _ s. s) [e] q t"
    "wq_sim q ?ok t []" "\<not> ws_should_stop (wk_queues t q)"
    "wk_runs t = wk_runs s1 @ map (\<lambda>w. (the (wk_func (wk_works s1 w)), wk_data (wk_works s1 w))) xs" by blast
  have "take_work q t = (None, t)" "ws_pending_count (wk_queues t q) = 0" using t(2) by (simp_all add: take_work_def wq_sim_def)
  moreover have "workqueue_thread (\<lambda>_ _ s. s) [] q (e t) = Some (e t)" using assms(5) by (subst workqueue_thread.simps) simp
  ultimately have "workqueue_thread (\<lambda>_ _ s. s) [e] q t = Some (e t)" using t(3) by (subst workqueue_thread.simps) simp
  then show ?thesis using t \<open>ws_pending_count _ = 0\<close> unfolding xs_def by auto
qed

theorem work_thread_runs_pending_witness:
  "\<exists>t. workqueue_thread (\<lambda>_ _ s. s) [upd_queue 9 (\<lambda>x. x\<lparr>ws_should_stop := True\<rparr>)] 9
       (snd (run_calls (call_wq 9) [QueueWork 1, QueueWork 2, CancelWork 1, QueueWork 3] (snd (create_workqueue (Some 9) (Some 4) (Some ''w'') demo_wkst)))) =
     Some (upd_queue 9 (\<lambda>x. x\<lparr>ws_should_stop := True\<rparr>) t) \<and> map fst (wk_runs t) = [2, 3]"
proof -
  let ?s = "snd (create_workqueue (Some 9) (Some 4) (Some ''w'') demo_wkst)"
  let ?cs = "[QueueWork 1, QueueWork 2, CancelWork 1, QueueWork 3]"
  let ?t = "snd (run_calls (call_wq 9) ?cs ?s)"
  have c: "create_workqueue (Some 9) (Some 4) (Some ''w'') demo_wkst = (Some 9, ?s)"
    by (simp add: create_workqueue_def Let_def)
  have p: "\<forall>w. \<not> wk_pending (wk_works demo_wkst w)" by (simp add: demo_wkst_def)
  have r: "run_calls (call_wq 9) ?cs ?s = (fst (run_calls (call_wq 9) ?cs ?s), ?t)" by simp
  have st: "\<not> ws_should_stop (wk_queues ?t 9) \<and> wk_runs ?t = [] \<and> wk_func (wk_works ?t 2) = Some 2 \<and> wk_func (wk_works ?t 3) = Some 3"
    by (simp add: create_workqueue_def demo_wkst_def Let_def queue_work_def cancel_work_def upd_queue_def upd_work_def)
  have e: "\<forall>t. ws_should_stop (wk_queues (upd_queue 9 (\<lambda>x. x\<lparr>ws_should_stop := True\<rparr>) t) 9)" by simp
  from work_thread_runs_pending [OF c p r conjunct1 [OF st] e] st show ?thesis by (auto simp: demo_wkst_def)
qed

section \<open>A queue that is named wrongly\<close>

text \<open>Cancelling an item through another queue than its own.\<close>

lemma cancel_wrong_queue:
  assumes "wq_sim q ok s xs" and "w \<in> set xs" and "q' \<noteq> q" and "ws_head (wk_queues s q') = None"
  shows "\<exists>s'. cancel_work (Some q') (Some w) s = Some (0, s') \<and> ws_head (wk_queues s' q) = ws_head (wk_queues s q) \<and>
     \<not> wk_pending (wk_works s' w) \<and> ws_pending_count (wk_queues s' q') = ws_pending_count (wk_queues s q') - 1"
proof -
  have "wk_pending (wk_works s w)" using assms(1,2) by (simp add: wq_sim_def)
  moreover have "seek_prev (wk_works s) w None = Some None" by (simp add: seek_prev.simps)
  ultimately show ?thesis using assms(3,4) by (simp add: cancel_work_def Let_def)
qed

end
