(* ===== verification/Tasklet.thy ===== *)
theory Tasklet
  imports Interfaces
begin

text \<open>
  Tasklets, in \<open>kernel/kernel/workqueue.c\<close>: an array of pointers to what is to be run soon. Functions of tasklets are numbers and what
  they do is a parameter of the run. The array has 64 places; a write behind them is kept in \<open>ts_overrun\<close>.
\<close>

abbreviation (input) TASKLET_MAX :: nat where "TASKLET_MAX \<equiv> 64"
abbreviation (input) TASKLET_STATE_IDLE :: u32 where "TASKLET_STATE_IDLE \<equiv> 0"
abbreviation (input) TASKLET_STATE_SCHEDULED :: u32 where "TASKLET_STATE_SCHEDULED \<equiv> 1"
abbreviation (input) TASKLET_STATE_RUNNING :: u32 where "TASKLET_STATE_RUNNING \<equiv> 2"

record tasklet_struct =
  tk_func :: "nat option"
  tk_data :: nat
  tk_state :: u32
  tk_count :: u32

record tasklets =
  ts_lets :: "nat \<Rightarrow> tasklet_struct"
  ts_list :: "nat \<Rightarrow> nat option"
  ts_count :: nat
  ts_overrun :: bool
  ts_runs :: "(nat \<times> nat) list"

definition upd_tasklet :: "nat \<Rightarrow> (tasklet_struct \<Rightarrow> tasklet_struct) \<Rightarrow> tasklets \<Rightarrow> tasklets" where
  "upd_tasklet t f s = s\<lparr>ts_lets := (ts_lets s)(t := f (ts_lets s t))\<rparr>"

definition tasklet_init :: "nat \<Rightarrow> nat option \<Rightarrow> nat \<Rightarrow> tasklets \<Rightarrow> tasklets" where
  "tasklet_init t f d = upd_tasklet t (\<lambda>_. \<lparr>tk_func = f, tk_data = d, tk_state = TASKLET_STATE_IDLE, tk_count = 0\<rparr>)"

definition tasklet_add :: "nat \<Rightarrow> bool \<Rightarrow> tasklets \<Rightarrow> tasklets" where
  "tasklet_add t hi s =
     (if tk_state (ts_lets s t) = TASKLET_STATE_SCHEDULED then s
      else
        let s1 = upd_tasklet t (\<lambda>x. x\<lparr>tk_state := TASKLET_STATE_SCHEDULED, tk_count := tk_count x + 1\<rparr>) s;
            n = ts_count s1;
            s2 = (if hi
                  then s1\<lparr>ts_list := (\<lambda>i. if i = 0 then Some t else if i \<le> n then ts_list s1 (i - 1) else ts_list s1 i),
                          ts_overrun := ts_overrun s1 \<or> n \<ge> TASKLET_MAX\<rparr>
                  else if n < TASKLET_MAX then s1\<lparr>ts_list := (ts_list s1)(n := Some t)\<rparr> else s1)
        in s2\<lparr>ts_count := (if n + 1 > TASKLET_MAX then TASKLET_MAX else n + 1)\<rparr>)"

definition tasklet_schedule :: "nat option \<Rightarrow> tasklets \<Rightarrow> tasklets" where
  "tasklet_schedule t s = (case t of None \<Rightarrow> s | Some a \<Rightarrow> if tk_count (ts_lets s a) \<noteq> 0 then s else tasklet_add a False s)"

definition tasklet_hi_schedule :: "nat option \<Rightarrow> tasklets \<Rightarrow> tasklets" where
  "tasklet_hi_schedule t s = (case t of None \<Rightarrow> s | Some a \<Rightarrow> if tk_count (ts_lets s a) \<noteq> 0 then s else tasklet_add a True s)"

definition tasklet_disable :: "nat option \<Rightarrow> tasklets \<Rightarrow> tasklets" where
  "tasklet_disable t s = (case t of None \<Rightarrow> s | Some a \<Rightarrow> upd_tasklet a (\<lambda>x. x\<lparr>tk_count := tk_count x + 1\<rparr>) s)"

definition tasklet_enable :: "nat option \<Rightarrow> tasklets \<Rightarrow> tasklets" where
  "tasklet_enable t s = (case t of None \<Rightarrow> s
     | Some a \<Rightarrow> if tk_count (ts_lets s a) > 0 then upd_tasklet a (\<lambda>x. x\<lparr>tk_count := tk_count x - 1\<rparr>) s else s)"

definition tasklet_init_subsystem :: "tasklets \<Rightarrow> tasklets" where
  "tasklet_init_subsystem s = s\<lparr>ts_list := (\<lambda>_. None), ts_count := 0\<rparr>"

definition run_tasklet :: "(nat \<Rightarrow> nat \<Rightarrow> tasklets \<Rightarrow> tasklets) \<Rightarrow> nat \<Rightarrow> tasklets \<Rightarrow> tasklets" where
  "run_tasklet F t s =
     (let s1 = upd_tasklet t (\<lambda>x. x\<lparr>tk_state := TASKLET_STATE_RUNNING\<rparr>) s;
          s2 = (case tk_func (ts_lets s1 t) of
                  None \<Rightarrow> s1
                | Some f \<Rightarrow> F f (tk_data (ts_lets s1 t)) (s1\<lparr>ts_runs := ts_runs s1 @ [(f, tk_data (ts_lets s1 t))]\<rparr>))
      in upd_tasklet t (\<lambda>x. x\<lparr>tk_state := TASKLET_STATE_IDLE, tk_count := tk_count x - 1\<rparr>) s2)"

partial_function (option) tasklet_run_pending :: "(nat \<Rightarrow> nat \<Rightarrow> tasklets \<Rightarrow> tasklets) \<Rightarrow> tasklets \<Rightarrow> tasklets option" where
  "tasklet_run_pending F s =
     (if ts_count s = 0 then Some s
      else
        let n = ts_count s - 1; s1 = s\<lparr>ts_count := n, ts_list := (ts_list s)(n := None)\<rparr>
        in case ts_list s n of
             None \<Rightarrow> tasklet_run_pending F s1
           | Some t \<Rightarrow>
               if tk_state (ts_lets s1 t) \<noteq> TASKLET_STATE_SCHEDULED then tasklet_run_pending F s1
               else tasklet_run_pending F (run_tasklet F t s1))"

partial_function (option) kill_loop :: "(nat \<Rightarrow> nat \<Rightarrow> tasklets \<Rightarrow> tasklets) \<Rightarrow> nat \<Rightarrow> tasklets \<Rightarrow> tasklets option" where
  "kill_loop F t s =
     (if tk_state (ts_lets s t) = TASKLET_STATE_SCHEDULED
      then Option.bind (tasklet_run_pending F s) (kill_loop F t) else Some s)"

definition tasklet_kill :: "(nat \<Rightarrow> nat \<Rightarrow> tasklets \<Rightarrow> tasklets) \<Rightarrow> nat option \<Rightarrow> tasklets \<Rightarrow> tasklets option" where
  "tasklet_kill F t s = (case t of None \<Rightarrow> Some s
     | Some a \<Rightarrow> map_option (upd_tasklet a (\<lambda>x. x\<lparr>tk_count := tk_count x + 1\<rparr>)) (kill_loop F a s))"

section \<open>The pending tasklets as a list\<close>

definition tasklets_ok :: "tasklets \<Rightarrow> nat list \<Rightarrow> bool" where
  "tasklets_ok s xs \<longleftrightarrow> ts_count s = length xs \<and> length xs \<le> TASKLET_MAX \<and> distinct xs \<and> (\<forall>i<length xs. ts_list s i = Some (xs ! i)) \<and>
     (\<forall>t. tk_state (ts_lets s t) = TASKLET_STATE_SCHEDULED \<longleftrightarrow> t \<in> set xs) \<and>
     (\<forall>t. t \<in> set xs \<longrightarrow> tk_count (ts_lets s t) = 1)"

lemma schedule_ok:
  assumes s: "tasklets_ok s xs" and c: "tk_count (ts_lets s t) = 0" and len: "length xs < TASKLET_MAX"
  shows "tasklets_ok (tasklet_schedule (Some t) s) (xs @ [t])" and "tasklets_ok (tasklet_hi_schedule (Some t) s) (t # xs)"
    and "ts_overrun (tasklet_hi_schedule (Some t) s) = ts_overrun s"
proof -
  have t: "t \<notin> set xs" using s c unfolding tasklets_ok_def by auto
  then have ns: "tk_state (ts_lets s t) \<noteq> TASKLET_STATE_SCHEDULED" using s unfolding tasklets_ok_def by blast
  then show "tasklets_ok (tasklet_schedule (Some t) s) (xs @ [t])"
    using s c len t unfolding tasklets_ok_def
    by (auto simp: tasklet_schedule_def tasklet_add_def upd_tasklet_def Let_def nth_append less_Suc_eq)
  show "tasklets_ok (tasklet_hi_schedule (Some t) s) (t # xs)"
    using s c len t ns unfolding tasklets_ok_def
    by (auto simp: tasklet_hi_schedule_def tasklet_add_def upd_tasklet_def Let_def nth_Cons')
  show "ts_overrun (tasklet_hi_schedule (Some t) s) = ts_overrun s"
    using s c len ns unfolding tasklets_ok_def by (simp add: tasklet_hi_schedule_def tasklet_add_def upd_tasklet_def Let_def)
qed

definition tasklet_call :: "tasklets \<Rightarrow> nat \<Rightarrow> nat \<times> nat" where
  "tasklet_call s t = (the (tk_func (ts_lets s t)), tk_data (ts_lets s t))"

text \<open>
  The pending tasklets run in the opposite order of their list: a tasklet of high priority, which is put in front, runs last.
\<close>

theorem tasklets_run_backwards:
  assumes "tasklets_ok s xs" and "\<forall>t\<in>set xs. tk_func (ts_lets s t) \<noteq> None"
  shows "\<exists>s'. tasklet_run_pending (\<lambda>_ _ s. s) s = Some s' \<and> tasklets_ok s' [] \<and> ts_runs s' = ts_runs s @ map (tasklet_call s) (rev xs) \<and>
     (\<forall>t. ts_lets s' t = (if t \<in> set xs then (ts_lets s t)\<lparr>tk_state := TASKLET_STATE_IDLE, tk_count := 0\<rparr> else ts_lets s t))"
  using assms
proof (induction xs arbitrary: s rule: rev_induct)
  case Nil
  then show ?case by (subst tasklet_run_pending.simps) (simp add: tasklets_ok_def)
next
  case (snoc x xs)
  define s1 where "s1 = s\<lparr>ts_count := length xs, ts_list := (ts_list s)(length xs := None)\<rparr>"
  define s2 where "s2 = run_tasklet (\<lambda>_ _ s. s) x s1"
  have x: "ts_count s = Suc (length xs)" "ts_list s (length xs) = Some x" "tk_state (ts_lets s x) = TASKLET_STATE_SCHEDULED"
    "tk_count (ts_lets s x) = 1" "x \<notin> set xs"
    using snoc.prems(1) unfolding tasklets_ok_def by (auto simp: nth_append)
  obtain f where f: "tk_func (ts_lets s x) = Some f" using snoc.prems(2) by auto
  have run: "tasklet_run_pending (\<lambda>_ _ s. s) s = tasklet_run_pending (\<lambda>_ _ s. s) s2"
    using x by (subst tasklet_run_pending.simps) (simp add: Let_def s1_def s2_def)
  have s2: "s2 = s1\<lparr>ts_lets := (ts_lets s)(x := (ts_lets s x)\<lparr>tk_state := TASKLET_STATE_IDLE, tk_count := 0\<rparr>), ts_runs := ts_runs s @ [tasklet_call s x]\<rparr>"
    using f x(4) by (simp add: s2_def s1_def run_tasklet_def upd_tasklet_def Let_def tasklet_call_def)
  have "tasklets_ok s2 xs" using snoc.prems(1) x(5) unfolding tasklets_ok_def s2 s1_def by (auto simp: nth_append)
  moreover have "\<forall>t\<in>set xs. tk_func (ts_lets s2 t) \<noteq> None" using snoc.prems(2) x(5) by (auto simp: s2)
  ultimately obtain s' where s': "tasklet_run_pending (\<lambda>_ _ s. s) s2 = Some s'" "tasklets_ok s' []"
    "ts_runs s' = ts_runs s2 @ map (tasklet_call s2) (rev xs)"
    "\<forall>t. ts_lets s' t = (if t \<in> set xs then (ts_lets s2 t)\<lparr>tk_state := TASKLET_STATE_IDLE, tk_count := 0\<rparr> else ts_lets s2 t)"
    using snoc.IH by blast
  have "map (tasklet_call s2) (rev xs) = map (tasklet_call s) (rev xs)" using x(5) by (auto simp: s2 tasklet_call_def)
  then have r: "ts_runs s' = ts_runs s @ map (tasklet_call s) (rev (xs @ [x]))" using s'(3) by (simp add: s2)
  have "ts_lets s' t = (if t \<in> set (xs @ [x]) then (ts_lets s t)\<lparr>tk_state := TASKLET_STATE_IDLE, tk_count := 0\<rparr> else ts_lets s t)" for t
    using s'(4) x(5) by (auto simp: s2)
  then show ?case using run s'(1,2) r by auto
qed

theorem tasklets_run_backwards_witness:
  "\<exists>s. tasklet_run_pending (\<lambda>_ _ s. s) (tasklet_hi_schedule (Some 3) (tasklet_schedule (Some 2) (tasklet_schedule (Some 1) (tasklet_init_subsystem
       \<lparr>ts_lets = (\<lambda>t. \<lparr>tk_func = Some t, tk_data = 0, tk_state = 0, tk_count = 0\<rparr>), ts_list = (\<lambda>_. None), ts_count = 0, ts_overrun = False,
        ts_runs = []\<rparr>)))) = Some s \<and> map fst (ts_runs s) = [2, 1, 3]"
proof -
  define s0 where "s0 = tasklet_init_subsystem \<lparr>ts_lets = (\<lambda>t. \<lparr>tk_func = Some t, tk_data = 0, tk_state = 0, tk_count = 0\<rparr>),
    ts_list = (\<lambda>_. None), ts_count = 0, ts_overrun = False, ts_runs = []\<rparr>"
  define s3 where "s3 = tasklet_hi_schedule (Some 3) (tasklet_schedule (Some 2) (tasklet_schedule (Some 1) s0))"
  have s3: "tasklets_ok s3 [3, 1, 2]" "ts_runs s3 = []" "\<And>t. tk_func (ts_lets s3 t) = Some t"
    by (auto simp: s3_def s0_def tasklets_ok_def tasklet_init_subsystem_def tasklet_schedule_def tasklet_hi_schedule_def tasklet_add_def
        upd_tasklet_def Let_def less_Suc_eq numeral_3_eq_3)
  obtain s where "tasklet_run_pending (\<lambda>_ _ s. s) s3 = Some s" "ts_runs s = map (tasklet_call s3) (rev [3, 1, 2])"
    using tasklets_run_backwards [OF s3(1)] s3(2,3) by auto
  then show ?thesis using s3(3) unfolding s3_def s0_def by (intro exI [of _ s]) (simp add: tasklet_call_def)
qed

text \<open>
  A tasklet that is scheduled while the list is full is marked as scheduled but not put into the list; with high
  priority, the last pointer of the list is written behind the array.
\<close>

theorem full_list_loses_tasklet:
  assumes "tasklets_ok s xs" and "length xs = TASKLET_MAX" and "tk_count (ts_lets s t) = 0"
  shows "ts_list (tasklet_schedule (Some t) s) = ts_list s \<and> tk_state (ts_lets (tasklet_schedule (Some t) s) t) = TASKLET_STATE_SCHEDULED \<and>
     ts_overrun (tasklet_hi_schedule (Some t) s)"
proof -
  have "t \<notin> set xs" using assms(1,3) unfolding tasklets_ok_def by auto
  then have "tk_state (ts_lets s t) \<noteq> TASKLET_STATE_SCHEDULED" "ts_count s = 64" using assms(1,2) unfolding tasklets_ok_def by auto
  then show ?thesis using assms(3)
    by (simp add: tasklet_schedule_def tasklet_hi_schedule_def tasklet_add_def upd_tasklet_def Let_def)
qed

end
