(* ===== verification/Spec2Isabelle.thy ===== *)
theory Spec2Isabelle
  imports Pipes PosixMq SysvIpc DevIpc Perm Kfifo Fifo Sync KIpcMsg KFutex KIpcSysv Signal ProcessFaults BpfMapRuns BpfProps BuddyProps RouteProps TimerFires TimerHr SlabProps CStringProps CTimeProps MmapFork PageFault CNumProps CMalloc EpollProps WorkQProps Tasklet
begin

text \<open>
  A model of the core of the Kenux-x64 kernel, translated from the C sources under
  \<open>src/kernel\<close>. The theories of this directory follow the components of the kernel:

  \<^item> \<open>KPrelude\<close>: machine words, memory seen from a pointer, copies, the search loop over a table, rings, little-endian
    words, and runs of calls. \<open>Interfaces\<close>: the contracts that components share, as locales; each is interpreted in the
    theory of every component that provides it.
  \<^item> The tables of \<open>ipc/src/ipc.c\<close>: \<open>Pipes\<close> (pipes), \<open>PosixMq\<close> (POSIX message queues), \<open>SysvIpc\<close> (System V shared
    memory, semaphores, messages), \<open>DevIpc\<close> (kernel log, character devices, event devices). Each is a
    record of its C structures with one function per operation.
  \<^item> \<open>Perm\<close>: mode bits and access control lists of \<open>fs/src/perm.c\<close>.
  \<^item> \<open>Kfifo\<close>: the byte fifo of \<open>api/kapi_kfifo.c\<close> on free-running 32 bit counters.
  \<^item> \<open>WaitQueue\<close> (\<open>kernel/wait.c\<close>), on which the blocking components rest: \<open>Fifo\<close> (\<open>kernel/fifo.c\<close>) and
    \<open>Sync\<close> (\<open>kernel/sync.c\<close>: semaphores, mutexes, condition variables, completions, barriers).
  \<^item> \<open>KIpcMsg\<close>, \<open>KFutex\<close>, \<open>KIpcSysv\<close>: the message ring and channels, the futexes, and the System V objects behind the
    system call, all of \<open>kernel/ipc.c\<close>. \<open>Signal\<close>: signals of \<open>kernel/signal.c\<close>.
  \<^item> \<open>RbTree\<close>, \<open>RbTreeInv\<close>, \<open>RbTreeLoops\<close>, \<open>RbTreeDelete\<close>: the red-black tree of \<open>arch/x86_64/cfs.c\<close> on a heap of nodes with
    parent pointers; \<open>Cfs\<close>: the fair scheduler on top of it.
  \<^item> \<open>Process\<close>, \<open>ProcessInv\<close>, \<open>ProcessProps\<close>, \<open>ProcessFaults\<close>: the process table of \<open>kernel/process.c\<close> with the
    context switch. It keeps a scheduling entity of \<open>Cfs\<close> per process and is composed with \<open>Signal\<close>.
  \<^item> \<open>BpfMap\<close>, \<open>BpfMapProps\<close>, \<open>BpfMapRuns\<close>, \<open>Bpf\<close>, \<open>BpfProps\<close>: the maps, helpers, interpreter, verifier and
    JIT compiler of \<open>arch/x86_64/bpf.c\<close>.
  \<^item> \<open>Buddy\<close>, \<open>BuddyProps\<close>: the page allocator of \<open>arch/x86_64/buddy.c\<close>, with its free lists on the page structures, and what
    its allocations have in common. \<open>Route\<close>, \<open>RouteProps\<close>: the routing tables of \<open>arch/x86_64/route.c\<close> and the longest prefix match.
  \<^item> \<open>TimerWheel\<close> (\<open>kernel/timer.c\<close>), \<open>TimerProps\<close> (its slots as lists), \<open>TimerRuns\<close> (how many ticks are left), \<open>TimerFires\<close>
    (when timers fire), \<open>TimerHr\<close> (the sorted high resolution timers).
  \<^item> \<open>Slab\<close>, \<open>SlabProps\<close>: the object caches and \<open>kmalloc\<close> of \<open>arch/x86_64/slab.c\<close>; slab headers and objects share a byte memory.
  \<^item> \<open>KSort\<close>, \<open>KSortProps\<close>: the sorts of \<open>api/kapi_sort.c\<close> on arrays of bytes; the locale \<open>comparator\<close> is the contract
    between a sort and its comparator.
  \<^item> \<open>CString\<close>, \<open>CStringProps\<close> (\<open>lib/libc/string.c\<close>): strings in a flat memory, and \<open>memcmp\<close> as a \<open>comparator\<close>.
  \<^item> \<open>CTime\<close>, \<open>CTimeProps\<close> (\<open>lib/libc/time.c\<close>): the calendar, the clock chip and the text of times.
  \<^item> \<open>PageTable\<close>, \<open>PageTableProps\<close>: the four-level page tables of \<open>arch/x86_64/memory.c\<close> as a map from pages to entries. \<open>Mmap\<close>,
    \<open>MmapProps\<close>, \<open>MmapRuns\<close>, \<open>MmapFork\<close>: the memory areas of \<open>arch/x86_64/mmap.c\<close> as sets of addresses, under sequences of calls.
    \<open>PageFault\<close>: the fault handler of \<open>arch/x86_64/pagefault.c\<close>.
  \<^item> \<open>CNum\<close>, \<open>CNumProps\<close>: numbers from text (\<open>lib/libc/stdlib.c\<close>) and text from numbers (\<open>lib/libc/vsprintf.c\<close>).
    \<open>CMalloc\<close>: the heap of the C library, on the memory areas of \<open>Mmap\<close>.
  \<^item> \<open>Epoll\<close>, \<open>EpollProps\<close>: event polling (\<open>kernel/epoll.c\<close>) on \<open>WaitQueue\<close>, with the ring of reports of an instance as a list.
  \<^item> \<open>WorkQ\<close>, \<open>WorkQProps\<close>, \<open>Tasklet\<close> (\<open>kernel/workqueue.c\<close>): queues of work items as lists, their thread, delayed work on the
    timer wheel, and tasklets.

  How the model reads the C code. A structure is a record with the same fields under a prefix; a
  pointer that may be \<open>NULL\<close> is an option; an array is a function from its indices. Counters are words
  where they can wrap and natural numbers where an invariant bounds them, which is then
  proved. An early exit from a search loop is \<open>first_index\<close>. Whether an allocation succeeds is an argument
  of the operation, and what is freed is logged or returned. Spinlocks are left out where they only make an operation atomic,
  and kept as state where the code releases or takes them in the middle (\<open>WaitQueue\<close>, \<open>Fifo\<close>, \<open>Sync\<close>). A loop that waits
  takes a list of environment functions: what the other processes do before each turn.
  Running out of that list means that the call still blocks, so that statements that a call returns are
  statements about the lists with which it does. A loop that may run for ever without
  waiting is a \<open>partial_function\<close>, and \<open>None\<close> is its not returning; no fuel is used in a model of code. The one bound, of
  \<open>key_walk\<close>, is the client's, and the theorem says which bounds are enough.

  What the lemmas show. For the components with a contract there is an abstraction and an invariant that every
  operation keeps, and a refinement theorem over arbitrary sequences of calls: pipes, kfifo, event devices and channels
  are bounded streams or queues; the fair scheduler is a list ordered by runtime, and its tree stays a red-black tree; the BPF
  hash map is a finite map with a capacity; page tables are a map from pages to entries, and
  memory areas are sets of addresses that stay disjoint. For the process table every reachable state has exactly the
  READY processes in the tree, and a yield runs the one that is owed most. For BPF programs, what the verifier guarantees
  of every step, which programs end, and that 32 bit arithmetic agrees with its reference. The operations that
  fall short of their purpose have theorems that say so with the inputs that show it; each is listed with the findings of the manifest.

  Not modelled: the graphical interface, the drivers, the boot loader and the compatibility layer under \<open>src\<close>, which are hardware
  access, data or imported code; of \<open>arch/x86_64/memory.c\<close> the wrappers of the allocators, whose results are the arguments of
  allocating operations, and the branches of \<open>mmap.c\<close> for areas with a file, which no area ever has; interrupt entry and the assembly of \<open>process_switch\<close>, of which the model has
  the effect on the process that goes on; the rest of the network stack, the file systems, namespaces and control groups.
  In \<open>Bpf\<close> the address that a lookup gives a program is a parameter; the registers of a run stand in the
  memory of the kernel before its stack, as in the code, where the stores of a program reach them.

  Conditions that the code does not check. The theorems on memory areas are about page aligned ranges that do not wrap, those on
  page tables about trees without 2 MB pages, those on the process table about ticks that find the current task outside the tree, those on the high
  resolution timers about starts of timers that are not in the list, those on message queues and hash maps about sizes within the
  arrays of the code; \<open>semaphore_sleepers_exact\<close> leaves to the scheduler that a sleeper does not run before it is
  woken. Each such condition is named in the text of the theorem, and what happens without it is a finding of the manifest, most of
  them with a lemma that shows it.
\<close>

end
